(* ===== verification/Prelude.thy ===== *)
theory Prelude
  imports Main "HOL-Library.Word"
begin

text \<open>
  Shared vocabulary of the development: the error values of the C++ code (a failed
  \<open>assert\<close>, a thrown standard exception), computations that may fail, computations that
  may fail and thread a state, the weakest-precondition style predicates
  \<open>wpr\<close> / \<open>wp\<close> used to state that such a computation returns and what it returns, and generic
  facts on lists.
\<close>

named_theorems pme_defs \<open>definitions unfolded when a component is evaluated\<close>

subsection \<open>Failure\<close>

text \<open>Every way a routine of the program stops without returning: a failed assertion, and the
  standard exceptions that are thrown by the code itself or by \<open>at\<close> on containers.
  \<open>Undefined\<close> is undefined behaviour of the language (\<open>back\<close> of an empty vector, an
  iterator past the end); \<open>Diverges\<close> is a loop that runs longer than its fuel.\<close>

datatype err = AssertFail | OutOfRange | InvalidArgument | RuntimeError | LogicError | Undefined | Diverges

type_synonym 'a res = "err + 'a"

definition bindR :: "'a res \<Rightarrow> ('a \<Rightarrow> 'b res) \<Rightarrow> 'b res" where
  "bindR m f = (case m of Inl e \<Rightarrow> Inl e | Inr a \<Rightarrow> f a)"

definition assertR :: "bool \<Rightarrow> 'a res \<Rightarrow> 'a res" where
  "assertR b m = (if b then m else Inl AssertFail)"

lemma bindR_simps [simp]:
  "bindR (Inl e) f = Inl e"
  "bindR (Inr a) f = f a"
  by (simp_all add: bindR_def)

lemma bindR_cong [fundef_cong]:
  "m = m' \<Longrightarrow> (\<And>a. m' = Inr a \<Longrightarrow> f a = f' a) \<Longrightarrow> bindR m f = bindR m' f'"
  by (cases m') auto

lemma bindR_Inr_iff: "bindR m f = Inr b \<longleftrightarrow> (\<exists>a. m = Inr a \<and> f a = Inr b)"
  by (cases m) auto

lemma assertR_simps [simp]:
  "assertR True m = m"
  "assertR False m = Inl AssertFail"
  by (simp_all add: assertR_def)

lemma assertR_Inr_iff: "assertR b m = Inr a \<longleftrightarrow> b \<and> m = Inr a"
  by (simp add: assertR_def)

fun mapR :: "('a \<Rightarrow> 'b res) \<Rightarrow> 'a list \<Rightarrow> 'b list res" where
  "mapR f [] = Inr []"
| "mapR f (x # xs) = bindR (f x) (\<lambda>y. bindR (mapR f xs) (\<lambda>ys. Inr (y # ys)))"

lemma mapR_total: "(\<And>x. x \<in> set xs \<Longrightarrow> f x = Inr (g x)) \<Longrightarrow> mapR f xs = Inr (map g xs)"
  by (induction xs) auto

lemma mapR_Inr_iff: "mapR f xs = Inr ys \<longleftrightarrow> list_all2 (\<lambda>x y. f x = Inr y) xs ys"
proof (induction xs arbitrary: ys)
  case Nil
  then show ?case by auto
next
  case (Cons x xs)
  then show ?case by (cases ys) (auto simp: bindR_Inr_iff)
qed

fun foldR :: "('a \<Rightarrow> 'b \<Rightarrow> 'b res) \<Rightarrow> 'a list \<Rightarrow> 'b \<Rightarrow> 'b res" where
  "foldR f [] b = Inr b"
| "foldR f (x # xs) b = bindR (f x b) (foldR f xs)"

text \<open>\<open>wpr r Q\<close>: the computation returns a value and it satisfies \<open>Q\<close>.\<close>

definition wpr :: "'a res \<Rightarrow> ('a \<Rightarrow> bool) \<Rightarrow> bool" where
  "wpr r Q = (case r of Inl e \<Rightarrow> False | Inr a \<Rightarrow> Q a)"

lemma wpr_Inl [simp]: "wpr (Inl e) Q = False"
  by (simp add: wpr_def)

lemma wpr_Inr [simp]: "wpr (Inr a) Q = Q a"
  by (simp add: wpr_def)

lemma wpr_bindR [simp]: "wpr (bindR m f) Q = wpr m (\<lambda>a. wpr (f a) Q)"
  by (auto simp: wpr_def bindR_def split: sum.splits)

lemma wpr_assertR [simp]: "wpr (assertR b m) Q = (b \<and> wpr m Q)"
  by (auto simp: wpr_def assertR_def)

lemma wpr_mono: "wpr r Q \<Longrightarrow> (\<And>a. Q a \<Longrightarrow> Q' a) \<Longrightarrow> wpr r Q'"
  by (auto simp: wpr_def split: sum.splits)

lemma wprE: "wpr r Q \<Longrightarrow> (\<And>a. r = Inr a \<Longrightarrow> Q a \<Longrightarrow> thesis) \<Longrightarrow> thesis"
  by (auto simp: wpr_def split: sum.splits)

lemma wpr_iff: "wpr r Q \<longleftrightarrow> (\<exists>a. r = Inr a \<and> Q a)"
  by (auto simp: wpr_def split: sum.splits)

text \<open>\<open>v.at(i)\<close> and \<open>v.back()\<close>.\<close>

definition atR :: "'a list \<Rightarrow> nat \<Rightarrow> 'a res" where
  "atR xs i = (if i < length xs then Inr (xs ! i) else Inl OutOfRange)"

definition backR :: "'a list \<Rightarrow> 'a res" where
  "backR xs = (if xs = [] then Inl Undefined else Inr (last xs))"

lemma wpr_atR [simp]: "wpr (atR xs i) Q = (i < length xs \<and> Q (xs ! i))"
  by (simp add: atR_def)

lemma wpr_backR [simp]: "wpr (backR xs) Q = (xs \<noteq> [] \<and> Q (last xs))"
  by (simp add: backR_def)

subsection \<open>Failure and state\<close>

type_synonym ('s, 'a) sm = "'s \<Rightarrow> err + ('a \<times> 's)"

definition retS :: "'a \<Rightarrow> ('s, 'a) sm" where
  "retS a s = Inr (a, s)"

definition failS :: "err \<Rightarrow> ('s, 'a) sm" where
  "failS e s = Inl e"

definition bindS :: "('s, 'a) sm \<Rightarrow> ('a \<Rightarrow> ('s, 'b) sm) \<Rightarrow> ('s, 'b) sm" where
  "bindS m f s = (case m s of Inl e \<Rightarrow> Inl e | Inr p \<Rightarrow> f (fst p) (snd p))"

definition thenS :: "('s, 'a) sm \<Rightarrow> ('s, 'b) sm \<Rightarrow> ('s, 'b) sm" where
  "thenS m k = bindS m (\<lambda>_. k)"

definition getS :: "('s, 's) sm" where
  "getS s = Inr (s, s)"

definition modifyS :: "('s \<Rightarrow> 's) \<Rightarrow> ('s, unit) sm" where
  "modifyS f s = Inr ((), f s)"

definition assertS :: "bool \<Rightarrow> ('s, unit) sm" where
  "assertS b s = (if b then Inr ((), s) else Inl AssertFail)"

definition liftS :: "'a res \<Rightarrow> ('s, 'a) sm" where
  "liftS r s = (case r of Inl e \<Rightarrow> Inl e | Inr a \<Rightarrow> Inr (a, s))"

lemma bindS_cong [fundef_cong]:
  "m s = m' s' \<Longrightarrow> (\<And>a t. m' s' = Inr (a, t) \<Longrightarrow> f a t = f' a t) \<Longrightarrow> bindS m f s = bindS m' f' s'"
  by (auto simp: bindS_def split: sum.splits)

fun mapS :: "('a \<Rightarrow> ('s, 'b) sm) \<Rightarrow> 'a list \<Rightarrow> ('s, 'b list) sm" where
  "mapS f [] = retS []"
| "mapS f (x # xs) = bindS (f x) (\<lambda>y. bindS (mapS f xs) (\<lambda>ys. retS (y # ys)))"

fun iterS :: "('a \<Rightarrow> ('s, unit) sm) \<Rightarrow> 'a list \<Rightarrow> ('s, unit) sm" where
  "iterS f [] = retS ()"
| "iterS f (x # xs) = bindS (f x) (\<lambda>_. iterS f xs)"

text \<open>\<open>wp m Q s\<close>: started in \<open>s\<close> the computation returns, and result and final state
  satisfy \<open>Q\<close>.\<close>

definition wp :: "('s, 'a) sm \<Rightarrow> ('a \<Rightarrow> 's \<Rightarrow> bool) \<Rightarrow> 's \<Rightarrow> bool" where
  "wp m Q s = (case m s of Inl e \<Rightarrow> False | Inr p \<Rightarrow> Q (fst p) (snd p))"

lemma wp_retS [simp]: "wp (retS a) Q = Q a"
  by (rule ext) (simp add: wp_def retS_def)

lemma wp_failS [simp]: "wp (failS e) Q = (\<lambda>_. False)"
  by (rule ext) (simp add: wp_def failS_def)

lemma wp_bindS [simp]: "wp (bindS m f) Q = wp m (\<lambda>a. wp (f a) Q)"
  by (rule ext) (auto simp: wp_def bindS_def split: sum.splits)

lemma wp_thenS [simp]: "wp (thenS m k) Q = wp m (\<lambda>_. wp k Q)"
  by (rule ext) (simp add: thenS_def)

lemma wp_getS [simp]: "wp getS Q = (\<lambda>s. Q s s)"
  by (rule ext) (simp add: wp_def getS_def)

lemma wp_modifyS [simp]: "wp (modifyS g) Q = (\<lambda>s. Q () (g s))"
  by (rule ext) (simp add: wp_def modifyS_def)

lemma wp_assertS [simp]: "wp (assertS b) Q = (\<lambda>s. b \<and> Q () s)"
  by (rule ext) (simp add: wp_def assertS_def)

lemma wp_liftS [simp]: "wp (liftS r) Q = (\<lambda>s. wpr r (\<lambda>a. Q a s))"
  by (rule ext) (auto simp: wp_def wpr_def liftS_def split: sum.splits)

lemma wp_case_prod [simp]: "wp (case r of (x, y) \<Rightarrow> f x y) Q = (case r of (x, y) \<Rightarrow> wp (f x y) Q)"
  by (cases r) simp

lemma liftS_Inr: "liftS r s = Inr p \<longleftrightarrow> (\<exists>a. r = Inr a \<and> p = (a, s))"
  by (auto simp: liftS_def split: sum.splits)

lemma thenS_assertS: "thenS (assertS b) m = (if b then m else failS AssertFail)"
  by (rule ext) (simp add: thenS_def bindS_def assertS_def failS_def)

lemma wp_mono: "wp m Q s \<Longrightarrow> (\<And>a t. Q a t \<Longrightarrow> Q' a t) \<Longrightarrow> wp m Q' s"
  by (auto simp: wp_def split: sum.splits)

lemma wp_iff: "wp m Q s \<longleftrightarrow> (\<exists>a t. m s = Inr (a, t) \<and> Q a t)"
  by (auto simp: wp_def split: sum.splits)

lemma wp_conj: "wp m Q s \<Longrightarrow> wp m Q' s \<Longrightarrow> wp m (\<lambda>a t. Q a t \<and> Q' a t) s"
  by (auto simp: wp_def split: sum.splits)

lemma wp_if [simp]: "wp (if b then m else k) Q = (\<lambda>s. if b then wp m Q s else wp k Q s)"
  by simp

lemma wp_iterS:
  assumes "I [] s"
    and "\<And>x ys zs t. xs = ys @ x # zs \<Longrightarrow> I ys t \<Longrightarrow> wp (f x) (\<lambda>_ t'. I (ys @ [x]) t') t"
  shows "wp (iterS f xs) (\<lambda>_ t. I xs t) s"
proof -
  have "xs = ys @ zs \<Longrightarrow> I ys t \<Longrightarrow> wp (iterS f zs) (\<lambda>_ t'. I xs t') t" for ys zs t
  proof (induction zs arbitrary: ys t)
    case Nil
    then show ?case by simp
  next
    case (Cons z zs)
    have "wp (f z) (\<lambda>_ t'. I (ys @ [z]) t') t"
      using assms(2) Cons.prems by blast
    then have "wp (f z) (\<lambda>_ t'. wp (iterS f zs) (\<lambda>_ u. I xs u) t') t"
      by (rule wp_mono) (rule Cons.IH[of "ys @ [z]"], use Cons.prems in auto)
    then show ?case by simp
  qed
  from this[of "[]" xs s] assms(1) show ?thesis by simp
qed

text \<open>A call on a member object of the state.\<close>

definition zoomS :: "('s \<Rightarrow> 't) \<Rightarrow> ('t \<Rightarrow> 's \<Rightarrow> 's) \<Rightarrow> ('t, 'a) sm \<Rightarrow> ('s, 'a) sm" where
  "zoomS g p m s = (case m (g s) of Inl e \<Rightarrow> Inl e | Inr r \<Rightarrow> Inr (fst r, p (snd r) s))"

lemma wp_zoomS [simp]: "wp (zoomS g p m) Q = (\<lambda>s. wp m (\<lambda>a t. Q a (p t s)) (g s))"
  by (rule ext) (auto simp: wp_def zoomS_def split: sum.splits)

text \<open>The loop that returns \<open>false\<close> at the first element whose check fails.\<close>

fun allS :: "('a \<Rightarrow> ('s, bool) sm) \<Rightarrow> 'a list \<Rightarrow> ('s, bool) sm" where
  "allS f [] = retS True"
| "allS f (x # xs) = bindS (f x) (\<lambda>b. if b then allS f xs else retS False)"

lemma wp_allS:
  assumes "\<And>x s. x \<in> set xs \<Longrightarrow> I s \<Longrightarrow> wp (f x) (\<lambda>b t. I t \<and> b = P x) s" "I s"
  shows "wp (allS f xs) (\<lambda>b t. I t \<and> b = (\<forall>x\<in>set xs. P x)) s"
  using assms
proof (induction xs arbitrary: s)
  case (Cons x xs)
  show ?case
    unfolding allS.simps wp_bindS
    by (rule wp_mono[OF Cons.prems(1)[of x s]]) (use Cons in auto)
qed simp

text \<open>The result, and the final state, of a computation on a local object.\<close>

definition evalS :: "('s, 'a) sm \<Rightarrow> 's \<Rightarrow> 'a res" where
  "evalS m s = bindR (m s) (\<lambda>p. Inr (fst p))"

definition execS :: "('s, 'a) sm \<Rightarrow> 's \<Rightarrow> 's res" where
  "execS m s = bindR (m s) (\<lambda>p. Inr (snd p))"

lemma wpr_evalS [simp]: "wpr (evalS m s) Q = wp m (\<lambda>a _. Q a) s"
  by (auto simp: evalS_def wpr_def wp_def bindR_def split: sum.splits)

lemma wpr_execS [simp]: "wpr (execS m s) Q = wp m (\<lambda>_ t. Q t) s"
  by (auto simp: execS_def wpr_def wp_def bindR_def split: sum.splits)

subsection \<open>Lists\<close>

lemma last_butlast_set: "xs \<noteq> [] \<Longrightarrow> set xs = insert (last xs) (set (butlast xs))"
  by (metis append_butlast_last_id list.simps(15) rotate1.simps(2) set_rotate1)

lemma length_filter_remove1:
  "x \<in> set xs \<Longrightarrow> length (remove1 x xs) < length xs"
  by (simp add: length_remove1) (metis Suc_pred length_pos_if_in_set lessI)

end
