(* ===== verification/Ids.thy ===== *)
theory Ids
  imports Prelude
begin

text \<open>
  \<open>src/src/pme/id.h\<close>, \<open>src/src/pme/id.cpp\<close>, the clause types of \<open>src/src/pme/pme.h\<close> and
  \<open>subsumes\<close> of \<open>src/src/pme/pme.cpp\<close>.  An \<open>ID\<close> is a 64-bit literal: bit 0 is the
  sign, bits 48..63 count primes, the rest is the variable.  The second half of the theory is the
  meaning of literals and clauses under an assignment of the stripped IDs.
\<close>

unbundle bit_operations_syntax

type_synonym id = "64 word"
type_synonym clauseID = "64 word"
type_synonym externalID = "32 word"
type_synonym clause = "id list"
type_synonym cube = "id list"
type_synonym clauseVec = "clause list"

definition ID_NULL :: id where "ID_NULL = 0"
definition ID_FALSE :: id where "ID_FALSE = 2"

definition negate :: "id \<Rightarrow> id" where
  "negate i = i XOR 1"

definition ID_TRUE :: id where "ID_TRUE = negate ID_FALSE"
definition PRIME_SHIFT :: nat where "PRIME_SHIFT = 48"
definition MAX_PRIMES :: nat where "MAX_PRIMES = 65535"
definition MAX_ID :: id where "MAX_ID = drop_bit 16 (- 1)"
definition ID_INCR :: id where "ID_INCR = 2"
definition MIN_ID :: id where "MIN_ID = ID_FALSE + ID_INCR"
definition PRIMES_MASK :: id where "PRIMES_MASK = NOT MAX_ID"

definition unprime :: "id \<Rightarrow> id" where
  "unprime i = i AND MAX_ID"

text \<open>\<open>prime_body\<close> is \<open>prime\<close> after its assertion; \<open>prime1\<close> is the call with the default
  \<open>n = 1\<close>, for which the assertion holds.\<close>

definition prime_body :: "nat \<Rightarrow> id \<Rightarrow> id" where
  "prime_body n i = (if i < MIN_ID then i else i OR push_bit PRIME_SHIFT (of_nat n))"

definition prime :: "id \<Rightarrow> nat \<Rightarrow> id res" where
  "prime i n = assertR (n \<le> MAX_PRIMES) (Inr (prime_body n i))"

abbreviation prime1 :: "id \<Rightarrow> id" where
  "prime1 \<equiv> prime_body 1"

definition nprimes :: "id \<Rightarrow> id" where
  "nprimes i = drop_bit PRIME_SHIFT (i AND PRIMES_MASK)"

definition is_negated :: "id \<Rightarrow> bool" where
  "is_negated i = ((i AND 1) \<noteq> 0)"

definition is_valid_id :: "id \<Rightarrow> bool" where
  "is_valid_id i = (i \<ge> MIN_ID \<or> i = ID_TRUE \<or> i = ID_FALSE)"

definition strip :: "id \<Rightarrow> id" where
  "strip i = (if is_negated i then negate i else i)"

definition negateVec :: "id list \<Rightarrow> id list" where
  "negateVec v = map negate v"

definition primeClause :: "clause \<Rightarrow> nat \<Rightarrow> clause res" where
  "primeClause cls n = mapR (\<lambda>lit. prime lit n) cls"

definition unprimeClause :: "clause \<Rightarrow> clause" where
  "unprimeClause cls = map unprime cls"

definition primeClauses :: "clauseVec \<Rightarrow> nat \<Rightarrow> clauseVec res" where
  "primeClauses vec n = mapR (\<lambda>cls. primeClause cls n) vec"

definition primeVec :: "id list \<Rightarrow> nat \<Rightarrow> id list res" where
  "primeVec vec n = primeClause vec n"

definition unprimeVec :: "id list \<Rightarrow> id list" where
  "unprimeVec vec = unprimeClause vec"

lemmas id_consts = ID_NULL_def ID_FALSE_def ID_TRUE_def PRIME_SHIFT_def MAX_PRIMES_def ID_INCR_def
  MIN_ID_def

lemma MAX_ID_mask: "MAX_ID = mask 48"
  by (simp add: MAX_ID_def drop_bit_minus_one mask_eq_exp_minus_1)

lemma ID_TRUE_val: "ID_TRUE = 3"
  by (simp add: id_consts negate_def)

lemma MIN_ID_val: "MIN_ID = 4"
  by (simp add: id_consts)

subsection \<open>Bit-level laws of IDs\<close>

lemma is_negated_bit: "is_negated i = bit i 0"
  by (simp add: is_negated_def and_one_eq bit_0 odd_iff_mod_2_eq_one)

lemma bit_negate: "bit (negate i) n = (bit i n \<noteq> (n = 0))"
  by (auto simp: negate_def bit_simps)

lemma negate_negate [simp]: "negate (negate i) = i"
  by (rule bit_word_eqI) (auto simp: bit_negate)

lemma negate_inject [simp]: "negate a = negate b \<longleftrightarrow> a = b"
  by (metis negate_negate)

lemma negate_neq [simp]: "negate i \<noteq> i" "i \<noteq> negate i"
  using bit_negate[of i 0] by auto

lemma is_negated_negate [simp]: "is_negated (negate i) = (\<not> is_negated i)"
  by (simp add: is_negated_bit bit_negate)

lemma bit_strip: "bit (strip i) n = (bit i n \<and> n \<noteq> 0)"
  by (cases n) (auto simp: strip_def is_negated_bit bit_negate)

lemma strip_negate [simp]: "strip (negate i) = strip i"
  by (rule bit_word_eqI) (auto simp: bit_strip bit_negate)

lemma strip_strip [simp]: "strip (strip i) = strip i"
  by (rule bit_word_eqI) (auto simp: bit_strip)

lemma is_negated_strip [simp]: "\<not> is_negated (strip i)"
  by (simp add: is_negated_bit bit_strip)

lemma strip_id: "\<not> is_negated i \<Longrightarrow> strip i = i"
  by (simp add: strip_def)

lemma strip_eq_iff: "strip a = strip b \<longleftrightarrow> a = b \<or> a = negate b"
  by (metis negate_negate strip_def strip_negate)

lemma bit_unprime: "bit (unprime i) n = (bit i n \<and> n < 48)"
  by (auto simp: unprime_def MAX_ID_mask bit_simps)

lemma unprime_unprime [simp]: "unprime (unprime i) = unprime i"
  by (rule bit_word_eqI) (auto simp: bit_unprime)

lemma unprime_negate [simp]: "unprime (negate i) = negate (unprime i)"
  by (rule bit_word_eqI) (auto simp: bit_unprime bit_negate)

lemma unprime_strip [simp]: "unprime (strip i) = strip (unprime i)"
  by (rule bit_word_eqI) (auto simp: bit_unprime bit_strip)


lemma small_bits:
  fixes i :: id
  assumes "i < 4" "2 \<le> n"
  shows "\<not> bit i n"
proof -
  have "i AND mask 2 = i"
    using assms(1) by (simp add: mask_eq_iff word_less_def)
  then have "bit i n = bit (i AND mask 2) n" by simp
  with assms(2) show ?thesis by (simp add: bit_simps)
qed

lemma small_iff_bits: "(i :: id) < 4 \<longleftrightarrow> (\<forall>n\<ge>2. \<not> bit i n)"
proof
  assume a: "\<forall>n\<ge>2. \<not> bit i n"
  have "i AND mask 2 = i"
    by (rule bit_word_eqI) (use a in \<open>auto simp: bit_simps not_le\<close>)
  then show "i < 4"
    by (simp add: mask_eq_iff word_less_def)
qed (use small_bits in blast)

lemma negate_small [simp]: "negate i < 4 \<longleftrightarrow> i < (4 :: id)"
  by (auto simp: small_iff_bits bit_negate)

lemma strip_small [simp]: "strip i < 4 \<longleftrightarrow> i < (4 :: id)"
  by (auto simp: strip_def)

lemma small_unprime: "i < (4 :: id) \<Longrightarrow> unprime i = i"
proof (rule bit_word_eqI)
  fix n
  assume "i < (4 :: id)"
  then show "bit (unprime i) n = bit i n"
    using small_bits[of i n] by (cases "2 \<le> n") (auto simp: bit_unprime)
qed

lemma bit_prime_body:
  "bit (prime_body k i) n =
    (if i < 4 then bit i n else bit i n \<or> (48 \<le> n \<and> n < 64 \<and> bit k (n - 48)))"
  by (simp add: prime_body_def MIN_ID_val PRIME_SHIFT_def bit_or_iff bit_push_bit_iff bit_of_nat_iff)
     auto

lemma prime_body_const [simp]: "i < 4 \<Longrightarrow> prime_body k i = i"
  by (simp add: prime_body_def MIN_ID_val)

lemma prime_body_0 [simp]: "prime_body 0 i = i"
  by (simp add: prime_body_def)

lemma prime_body_negate: "prime_body k (negate i) = negate (prime_body k i)"
  by (rule bit_word_eqI) (auto simp: bit_prime_body bit_negate)

lemma is_negated_prime_body [simp]: "is_negated (prime_body k i) = is_negated i"
  by (simp add: is_negated_bit bit_prime_body)

lemma strip_prime_body: "strip (prime_body k i) = prime_body k (strip i)"
  by (auto simp: strip_def prime_body_negate)

lemma unprime_prime_body [simp]: "unprime (prime_body k i) = unprime i"
  by (rule bit_word_eqI) (auto simp: bit_prime_body bit_unprime)

lemma unprimed_bits: "unprime i = i \<Longrightarrow> 48 \<le> n \<Longrightarrow> \<not> bit i n"
  by (metis bit_unprime not_le)

lemma unprime_le: "unprime i = i \<longleftrightarrow> i \<le> MAX_ID"
  by (simp add: unprime_def MAX_ID_mask mask_eq_iff word_le_def)
     (simp add: mask_eq_exp_minus_1 zle_diff1_eq[symmetric])

lemma prime_inject:
  assumes "unprime i = i" "unprime j = j"
  shows "prime_body k i = prime_body k j \<longleftrightarrow> i = j"
  using assms by (metis unprime_prime_body)

lemma MAX_PRIMES_bits:
  assumes "k \<le> MAX_PRIMES" "16 \<le> n"
  shows "\<not> bit k n"
proof -
  have "k < 2 ^ 16" using assms(1) by (simp add: MAX_PRIMES_def)
  also have "(2::nat) ^ 16 \<le> 2 ^ n" using assms(2) by (rule power_increasing) simp
  finally show ?thesis by (simp add: bit_iff_odd)
qed

lemma nprimes_prime_body:
  assumes "unprime i = i" "4 \<le> i" "k \<le> MAX_PRIMES"
  shows "nprimes (prime_body k i) = of_nat k"
proof (rule bit_word_eqI)
  fix n
  assume n: "n < LENGTH(64)"
  show "bit (nprimes (prime_body k i)) n = bit (of_nat k :: id) n"
    using assms(2) unprimed_bits[OF assms(1), of "48 + n"] MAX_PRIMES_bits[OF assms(3), of n] n
    by (cases "16 \<le> n") (auto simp: not_le nprimes_def PRIMES_MASK_def MAX_ID_mask PRIME_SHIFT_def bit_drop_bit_eq
        bit_and_iff bit_not_iff bit_mask_iff bit_prime_body bit_of_nat_iff add.commute)
qed

lemma prime_layers:
  assumes "unprime i = i" "unprime j = j" "4 \<le> i" "4 \<le> j"
    and "k \<le> MAX_PRIMES" "m \<le> MAX_PRIMES" "prime_body k i = prime_body m j"
  shows "i = j \<and> k = m"
proof
  show "i = j" using assms by (metis unprime_prime_body)
  have "(of_nat k :: id) = of_nat m"
    using assms nprimes_prime_body by metis
  moreover have "k < 2 ^ LENGTH(64)" "m < 2 ^ LENGTH(64)"
    using assms(5,6) by (simp_all add: MAX_PRIMES_def)
  ultimately show "k = m"
    by (metis of_nat_inverse)
qed

lemma prime_total [simp]: "k \<le> MAX_PRIMES \<Longrightarrow> prime i k = Inr (prime_body k i)"
  by (simp add: prime_def)

lemma prime_Inr_iff: "prime i k = Inr j \<longleftrightarrow> k \<le> MAX_PRIMES \<and> j = prime_body k i"
  by (auto simp: prime_def assertR_Inr_iff)

lemma primeClause_total: "k \<le> MAX_PRIMES \<Longrightarrow> primeClause c k = Inr (map (prime_body k) c)"
  unfolding primeClause_def by (rule mapR_total) simp

lemma primeClauses_total:
  "k \<le> MAX_PRIMES \<Longrightarrow> primeClauses v k = Inr (map (map (prime_body k)) v)"
  unfolding primeClauses_def by (rule mapR_total) (simp add: primeClause_total)

lemma negateVec_simps [simp]:
  "negateVec [] = []"
  "negateVec (l # c) = negate l # negateVec c"
  "set (negateVec c) = negate ` set c"
  "length (negateVec c) = length c"
  by (simp_all add: negateVec_def)

subsection \<open>Meaning of literals, clauses and cubes\<close>

type_synonym assignment = "id \<Rightarrow> bool"

definition lit_true :: "assignment \<Rightarrow> id \<Rightarrow> bool" where
  "lit_true \<sigma> l = (\<sigma> (strip l) \<noteq> is_negated l)"

definition clause_sat :: "assignment \<Rightarrow> clause \<Rightarrow> bool" where
  "clause_sat \<sigma> c = (\<exists>l\<in>set c. lit_true \<sigma> l)"

definition cube_sat :: "assignment \<Rightarrow> cube \<Rightarrow> bool" where
  "cube_sat \<sigma> c = (\<forall>l\<in>set c. lit_true \<sigma> l)"

definition cnf_sat :: "assignment \<Rightarrow> clauseVec \<Rightarrow> bool" where
  "cnf_sat \<sigma> C = (\<forall>c\<in>set C. clause_sat \<sigma> c)"

text \<open>Assignments that give the two constants their meaning.\<close>

definition const_ok :: "assignment \<Rightarrow> bool" where
  "const_ok \<sigma> = (\<not> \<sigma> ID_FALSE)"

text \<open>The state at time \<open>k\<close> of an assignment of the unrolled variables.\<close>

definition at_time :: "nat \<Rightarrow> assignment \<Rightarrow> assignment" where
  "at_time k \<sigma> v = \<sigma> (prime_body k v)"

lemma lit_true_negate [simp]: "lit_true \<sigma> (negate l) = (\<not> lit_true \<sigma> l)"
  by (simp add: lit_true_def)

lemma lit_true_pos: "\<not> is_negated l \<Longrightarrow> lit_true \<sigma> l = \<sigma> l"
  by (simp add: lit_true_def strip_id)

lemma lit_true_cong: "\<sigma> (strip l) = \<tau> (strip l) \<Longrightarrow> lit_true \<sigma> l = lit_true \<tau> l"
  by (simp add: lit_true_def)

lemma clause_sat_simps [simp]:
  "\<not> clause_sat \<sigma> []"
  "clause_sat \<sigma> (l # c) = (lit_true \<sigma> l \<or> clause_sat \<sigma> c)"
  "clause_sat \<sigma> (c @ d) = (clause_sat \<sigma> c \<or> clause_sat \<sigma> d)"
  by (auto simp: clause_sat_def)

lemma cube_sat_simps [simp]:
  "cube_sat \<sigma> []"
  "cube_sat \<sigma> (l # c) = (lit_true \<sigma> l \<and> cube_sat \<sigma> c)"
  "cube_sat \<sigma> (c @ d) = (cube_sat \<sigma> c \<and> cube_sat \<sigma> d)"
  by (auto simp: cube_sat_def)

lemma cnf_sat_simps [simp]:
  "cnf_sat \<sigma> []"
  "cnf_sat \<sigma> (c # C) = (clause_sat \<sigma> c \<and> cnf_sat \<sigma> C)"
  "cnf_sat \<sigma> (C @ D) = (cnf_sat \<sigma> C \<and> cnf_sat \<sigma> D)"
  by (auto simp: cnf_sat_def)

lemma cube_sat_negateVec: "cube_sat \<sigma> (negateVec c) = (\<not> clause_sat \<sigma> c)"
  by (auto simp: cube_sat_def clause_sat_def)

lemma clause_sat_negateVec: "clause_sat \<sigma> (negateVec c) = (\<not> cube_sat \<sigma> c)"
  by (auto simp: cube_sat_def clause_sat_def)

lemma const_ok_lits [simp]:
  assumes "const_ok \<sigma>"
  shows "lit_true \<sigma> ID_TRUE" "\<not> lit_true \<sigma> ID_FALSE"
proof -
  have "\<not> is_negated ID_FALSE" by (simp add: is_negated_def ID_FALSE_def)
  then show "\<not> lit_true \<sigma> ID_FALSE" using assms by (simp add: lit_true_pos const_ok_def)
  then show "lit_true \<sigma> ID_TRUE" by (simp add: ID_TRUE_def)
qed

lemma lit_true_prime: "lit_true \<sigma> (prime_body k l) = lit_true (at_time k \<sigma>) l"
  by (simp add: lit_true_def at_time_def strip_prime_body)

lemma clause_sat_prime: "clause_sat \<sigma> (map (prime_body k) c) = clause_sat (at_time k \<sigma>) c"
  by (simp add: clause_sat_def lit_true_prime)

lemma cube_sat_prime: "cube_sat \<sigma> (map (prime_body k) c) = cube_sat (at_time k \<sigma>) c"
  by (simp add: cube_sat_def lit_true_prime)

lemma cnf_sat_prime:
  "cnf_sat \<sigma> (map (map (prime_body k)) C) = cnf_sat (at_time k \<sigma>) C"
  by (simp add: cnf_sat_def clause_sat_prime)

lemma at_time_0 [simp]: "at_time 0 \<sigma> = \<sigma>"
  by (rule ext) (simp add: at_time_def)

lemma const_ok_at_time [simp]: "const_ok (at_time k \<sigma>) = const_ok \<sigma>"
  by (simp add: const_ok_def at_time_def ID_FALSE_def)

definition cnf_vars :: "clauseVec \<Rightarrow> id set" where
  "cnf_vars C = (\<Union>c\<in>set C. strip ` set c)"

lemma cnf_vars_simps [simp]:
  "cnf_vars [] = {}"
  "cnf_vars (c # C) = strip ` set c \<union> cnf_vars C"
  "cnf_vars (C @ D) = cnf_vars C \<union> cnf_vars D"
  by (auto simp: cnf_vars_def)

lemma clause_sat_agree:
  "(\<And>l. l \<in> set c \<Longrightarrow> \<sigma> (strip l) = \<tau> (strip l)) \<Longrightarrow> clause_sat \<sigma> c = clause_sat \<tau> c"
  by (auto simp: clause_sat_def lit_true_def)

lemma cnf_sat_agree:
  "(\<And>v. v \<in> cnf_vars C \<Longrightarrow> \<sigma> v = \<tau> v) \<Longrightarrow> cnf_sat \<sigma> C = cnf_sat \<tau> C"
  unfolding cnf_sat_def cnf_vars_def by (rule ball_cong[OF refl], rule clause_sat_agree) auto

subsection \<open>Subsumption of sorted cubes\<close>

text \<open>The inner loop of \<open>subsumes\<close> advances \<open>b_it\<close> to the first literal equal to \<open>*a_it\<close>;
  the iterator is not advanced after a match.\<close>

fun subsumes_loop :: "cube \<Rightarrow> cube \<Rightarrow> bool" where
  "subsumes_loop [] b = True"
| "subsumes_loop (x # a) b =
    (case dropWhile (\<lambda>y. x \<noteq> y) b of
       [] \<Rightarrow> False
     | y # b' \<Rightarrow> if x \<noteq> y then False else subsumes_loop a (y # b'))"

definition subsumes :: "cube \<Rightarrow> cube \<Rightarrow> bool res" where
  "subsumes a b =
    assertR (sorted a) (assertR (sorted b)
      (Inr (if length a > length b then False else subsumes_loop a b)))"

lemma subsumes_loop_iff:
  "sorted a \<Longrightarrow> sorted b \<Longrightarrow> subsumes_loop a b \<longleftrightarrow> set a \<subseteq> set b"
proof (induction a arbitrary: b)
  case Nil
  then show ?case by simp
next
  case (Cons x a)
  show ?case
  proof (cases "dropWhile ((\<noteq>) x) b")
    case Nil
    then have "x \<notin> set b" by (auto simp: dropWhile_eq_Nil_conv)
    then show ?thesis unfolding subsumes_loop.simps Nil by simp
  next
    case (Cons y b')
    have y: "y = x" using hd_dropWhile[of "(\<noteq>) x" b] Cons by simp
    have b: "b = takeWhile ((\<noteq>) x) b @ x # b'"
      using Cons y by (metis takeWhile_dropWhile_id)
    define p where "p = takeWhile ((\<noteq>) x) b"
    have p: "x \<notin> set p" "b = p @ x # b'"
      using b set_takeWhileD[of x "(\<noteq>) x" b] unfolding p_def by auto
    have sub: "z \<in> set b \<longleftrightarrow> z \<in> set (x # b')" if "z \<in> set a" for z
    proof -
      have "x \<le> z" using Cons.prems(1) that by simp
      moreover have "\<forall>w\<in>set p. w \<le> x" using Cons.prems(2) p(2) by (simp add: sorted_append)
      ultimately have "z \<notin> set p" using p(1) by force
      then show ?thesis using p(2) by simp
    qed
    have "sorted (x # b')" using Cons.prems(2) p(2) by (simp add: sorted_append)
    then have "subsumes_loop a (x # b') \<longleftrightarrow> set a \<subseteq> set (x # b')"
      using Cons.IH Cons.prems(1) by simp
    then show ?thesis using Cons y sub p(2) by auto
  qed
qed

end
