(* ===== verification/TransRel.thy ===== *)
theory TransRel
  imports Ids
begin

text \<open>
  \<open>src/src/pme/engine/transition_relation.{h,cpp}\<close> (everything but the reading of an AIGER
  circuit, which is in \<open>TransBuild\<close>) and the CNF part of
  \<open>src/src/pme/engine/debug_transition_relation.{h,cpp}\<close>.  An \<open>unordered_map\<close> that the code
  iterates over is an association list with distinct keys; the order of the list is the iteration
  order, which no theorem depends on.  \<open>anyTR\<close> is the dynamic type behind a
  \<open>const TransitionRelation &\<close>; it decides which \<open>toCNF(const AndGate &)\<close> runs.
\<close>

record latch =
  la_id :: id
  la_next :: id
  la_reset :: id

record andGate =
  ag_lhs :: id
  ag_rhs0 :: id
  ag_rhs1 :: id

record transRel =
  tr_bad :: id
  tr_latches :: "(id \<times> latch) list"
  tr_gates :: "(id \<times> andGate) list"
  tr_latchIDs :: "id list"
  tr_inputIDs :: "id list"
  tr_gateIDs :: "id list"
  tr_constraints :: "id list"

record debugTR = transRel +
  dt_debugLatchIDs :: "id list"
  dt_debugPPIs :: "id list"
  dt_IDToDebugLatch :: "id \<rightharpoonup> id"
  dt_debugLatchToID :: "id \<rightharpoonup> id"
  dt_IDToDebugPPI :: "id \<rightharpoonup> id"

datatype anyTR = PlainTR transRel | DebugTR debugTR

fun baseTR :: "anyTR \<Rightarrow> transRel" where
  "baseTR (PlainTR t) = t"
| "baseTR (DebugTR d) = transRel.truncate d"

definition latch_isNull :: "latch \<Rightarrow> bool" where
  "latch_isNull l = (la_id l = ID_NULL)"

definition make_equal :: "id \<Rightarrow> id \<Rightarrow> clauseVec" where
  "make_equal a b =
    (if b = ID_TRUE then [[a]]
     else if a = ID_TRUE then [[b]]
     else if b = ID_FALSE then [[negate a]]
     else if a = ID_FALSE then [[negate b]]
     else [[a, negate b], [negate a, b]])"

definition tr_property :: "anyTR \<Rightarrow> id" where
  "tr_property t = negate (tr_bad (baseTR t))"

definition tr_propertyClause :: "anyTR \<Rightarrow> clause" where
  "tr_propertyClause t = [negate (tr_bad (baseTR t))]"

definition tr_isGate :: "anyTR \<Rightarrow> id \<Rightarrow> bool" where
  "tr_isGate t i = (map_of (tr_gates (baseTR t)) i \<noteq> None)"

definition tr_isLatch :: "anyTR \<Rightarrow> id \<Rightarrow> bool" where
  "tr_isLatch t i = (map_of (tr_latches (baseTR t)) i \<noteq> None)"

definition tr_isInput :: "anyTR \<Rightarrow> id \<Rightarrow> bool" where
  "tr_isInput t i = (i \<in> set (tr_inputIDs (baseTR t)))"

definition tr_getGate :: "anyTR \<Rightarrow> id \<Rightarrow> andGate res" where
  "tr_getGate t i = (case map_of (tr_gates (baseTR t)) i of None \<Rightarrow> Inl OutOfRange | Some g \<Rightarrow> Inr g)"

definition tr_latch :: "anyTR \<Rightarrow> id \<Rightarrow> latch res" where
  "tr_latch t i = (case map_of (tr_latches (baseTR t)) i of None \<Rightarrow> Inl OutOfRange | Some g \<Rightarrow> Inr g)"

definition tr_numGates :: "anyTR \<Rightarrow> nat" where
  "tr_numGates t = length (tr_gates (baseTR t))"

definition tr_toCNFgate :: "andGate \<Rightarrow> clauseVec" where
  "tr_toCNFgate g = [[negate (ag_lhs g), ag_rhs0 g], [negate (ag_lhs g), ag_rhs1 g],
     [ag_lhs g, negate (ag_rhs0 g), negate (ag_rhs1 g)]]"

definition debugPPIForGate :: "debugTR \<Rightarrow> id \<Rightarrow> id res" where
  "debugPPIForGate d i = (case dt_IDToDebugPPI d i of None \<Rightarrow> Inl AssertFail | Some p \<Rightarrow> Inr p)"

definition debugLatchForGate :: "debugTR \<Rightarrow> id \<Rightarrow> id res" where
  "debugLatchForGate d i = (case dt_IDToDebugLatch d i of None \<Rightarrow> Inl AssertFail | Some p \<Rightarrow> Inr p)"

definition gateForDebugLatch :: "debugTR \<Rightarrow> id \<Rightarrow> id res" where
  "gateForDebugLatch d i = (case dt_debugLatchToID d i of None \<Rightarrow> Inl AssertFail | Some p \<Rightarrow> Inr p)"

definition dt_toCNFgate :: "debugTR \<Rightarrow> andGate \<Rightarrow> clauseVec res" where
  "dt_toCNFgate d g = bindR (debugLatchForGate d (ag_lhs g)) (\<lambda>debug_latch.
     let clauses = map (\<lambda>cls. cls @ [debug_latch]) (tr_toCNFgate g) in
     bindR (debugPPIForGate d (ag_lhs g)) (\<lambda>ppi.
       Inr (clauses @ [[ag_lhs g, negate ppi, negate debug_latch], [negate (ag_lhs g), ppi, negate debug_latch]])))"

text \<open>The virtual call.\<close>

fun any_toCNFgate :: "anyTR \<Rightarrow> andGate \<Rightarrow> clauseVec res" where
  "any_toCNFgate (PlainTR t) g = Inr (tr_toCNFgate g)"
| "any_toCNFgate (DebugTR d) g = dt_toCNFgate d g"

definition tr_toCNF :: "anyTR \<Rightarrow> clauseVec res" where
  "tr_toCNF t = bindR (mapR (\<lambda>(k, gate). any_toCNFgate t gate) (tr_gates (baseTR t))) (\<lambda>cs. Inr (concat cs))"

definition tr_addTimeFrame :: "anyTR \<Rightarrow> nat \<Rightarrow> clauseVec \<Rightarrow> clauseVec res" where
  "tr_addTimeFrame t n tr = bindR (primeClauses tr n) (\<lambda>frame.
     bindR (mapR (\<lambda>(k, latch). bindR (prime k (n + 1)) (\<lambda>latchp. bindR (prime (la_next latch) n) (\<lambda>next.
        Inr (make_equal next latchp)))) (tr_latches (baseTR t))) (\<lambda>eqs. Inr (frame @ concat eqs)))"

definition tr_constrainTimeFrame :: "anyTR \<Rightarrow> nat \<Rightarrow> clauseVec res" where
  "tr_constrainTimeFrame t n = mapR (\<lambda>lit. bindR (prime lit n) (\<lambda>p. Inr [p])) (tr_constraints (baseTR t))"

definition tr_frame :: "anyTR \<Rightarrow> clauseVec \<Rightarrow> nat \<Rightarrow> clauseVec res" where
  "tr_frame t clauses i = bindR (tr_addTimeFrame t i clauses) (\<lambda>f.
     bindR (tr_constrainTimeFrame t i) (\<lambda>c. Inr (f @ c)))"

definition tr_unroll :: "anyTR \<Rightarrow> nat \<Rightarrow> clauseVec res" where
  "tr_unroll t n = bindR (tr_toCNF t) (\<lambda>clauses.
     bindR (mapR (tr_frame t clauses) [0..<n]) (\<lambda>fs. Inr (concat fs)))"

definition tr_unrollFrame :: "anyTR \<Rightarrow> nat \<Rightarrow> clauseVec res" where
  "tr_unrollFrame t n = bindR (tr_toCNF t) (\<lambda>clauses. tr_frame t clauses n)"

definition tr_initState :: "anyTR \<Rightarrow> clauseVec res" where
  "tr_initState t = bindR (mapR (\<lambda>(k, latch).
      if la_reset latch \<noteq> ID_NULL then
        assertR (la_reset latch = ID_TRUE \<or> la_reset latch = ID_FALSE)
          (Inr (make_equal (la_id latch) (la_reset latch)))
      else Inr []) (tr_latches (baseTR t))) (\<lambda>cs. Inr (concat cs))"

definition tr_unrollWithInit :: "anyTR \<Rightarrow> nat \<Rightarrow> clauseVec res" where
  "tr_unrollWithInit t n = bindR (tr_unroll t n) (\<lambda>unrolled. bindR (tr_initState t) (\<lambda>init. Inr (unrolled @ init)))"

text \<open>Update of a key that is present.\<close>

definition set_reset :: "id \<Rightarrow> id \<Rightarrow> (id \<times> latch) list \<Rightarrow> (id \<times> latch) list" where
  "set_reset i val ls = map (\<lambda>(k, l). if k = i then (k, l\<lparr>la_reset := val\<rparr>) else (k, l)) ls"

definition tr_setInit :: "id \<Rightarrow> id \<Rightarrow> ('a transRel_scheme, unit) sm" where
  "tr_setInit i val = bindS getS (\<lambda>t. thenS (assertS (map_of (tr_latches t) i \<noteq> None))
     (thenS (assertS (val = ID_TRUE \<or> val = ID_FALSE \<or> val = ID_NULL))
       (modifyS (\<lambda>t. t\<lparr>tr_latches := set_reset i val (tr_latches t)\<rparr>))))"

definition tr_getInit :: "anyTR \<Rightarrow> id \<Rightarrow> id res" where
  "tr_getInit t i = assertR (\<not> is_negated i) (assertR (nprimes i = 0)
     (case map_of (tr_latches (baseTR t)) i of None \<Rightarrow> Inl AssertFail | Some l \<Rightarrow> Inr (la_reset l)))"

text \<open>The copy constructor leaves the constraints out.\<close>

definition tr_copy :: "transRel \<Rightarrow> transRel" where
  "tr_copy other = \<lparr>tr_bad = tr_bad other, tr_latches = tr_latches other, tr_gates = tr_gates other,
     tr_latchIDs = tr_latchIDs other, tr_inputIDs = tr_inputIDs other, tr_gateIDs = tr_gateIDs other,
     tr_constraints = []\<rparr>"

subsection \<open>The transition system\<close>

definition gate_ok :: "andGate \<Rightarrow> assignment \<Rightarrow> bool" where
  "gate_ok g s = (lit_true s (ag_lhs g) \<longleftrightarrow> lit_true s (ag_rhs0 g) \<and> lit_true s (ag_rhs1 g))"

text \<open>A suspended gate of a debug model takes the value of its debug input.\<close>

fun any_gate_ok :: "anyTR \<Rightarrow> andGate \<Rightarrow> assignment \<Rightarrow> bool" where
  "any_gate_ok (PlainTR t) g s = gate_ok g s"
| "any_gate_ok (DebugTR d) g s =
    (case (dt_IDToDebugLatch d (ag_lhs g), dt_IDToDebugPPI d (ag_lhs g)) of
       (Some dl, Some ppi) \<Rightarrow> if lit_true s dl then lit_true s (ag_lhs g) = lit_true s ppi else gate_ok g s
     | _ \<Rightarrow> False)"

definition frame_ok :: "anyTR \<Rightarrow> assignment \<Rightarrow> bool" where
  "frame_ok t s = ((\<forall>(k, g)\<in>set (tr_gates (baseTR t)). any_gate_ok t g s)
     \<and> (\<forall>c\<in>set (tr_constraints (baseTR t)). lit_true s c))"

definition step_ok :: "anyTR \<Rightarrow> assignment \<Rightarrow> assignment \<Rightarrow> bool" where
  "step_ok t s s' = (\<forall>(k, l)\<in>set (tr_latches (baseTR t)). lit_true s' k = lit_true s (la_next l))"

definition init_ok :: "anyTR \<Rightarrow> assignment \<Rightarrow> bool" where
  "init_ok t s = (\<forall>(k, l)\<in>set (tr_latches (baseTR t)).
     (la_reset l = ID_TRUE \<longrightarrow> lit_true s (la_id l)) \<and> (la_reset l = ID_FALSE \<longrightarrow> \<not> lit_true s (la_id l)))"

definition bad_state :: "anyTR \<Rightarrow> assignment \<Rightarrow> bool" where
  "bad_state t s = lit_true s (tr_bad (baseTR t))"

text \<open>The variables a transition relation mentions; all of them are unprimed.\<close>

fun debug_vars :: "anyTR \<Rightarrow> id set" where
  "debug_vars (PlainTR t) = {}"
| "debug_vars (DebugTR d) = strip ` (ran (dt_IDToDebugLatch d) \<union> ran (dt_IDToDebugPPI d))"

definition tr_vars :: "anyTR \<Rightarrow> id set" where
  "tr_vars t = insert ID_FALSE (insert (strip (tr_bad (baseTR t)))
     ((\<Union>(k, g)\<in>set (tr_gates (baseTR t)). {strip (ag_lhs g), strip (ag_rhs0 g), strip (ag_rhs1 g)})
     \<union> (\<Union>(k, l)\<in>set (tr_latches (baseTR t)). {strip k, strip (la_id l), strip (la_next l)})
     \<union> strip ` set (tr_constraints (baseTR t)) \<union> strip ` set (tr_inputIDs (baseTR t))
     \<union> strip ` set (tr_latchIDs (baseTR t)) \<union> debug_vars t))"

definition tr_wf :: "anyTR \<Rightarrow> bool" where
  "tr_wf t = (distinct (map fst (tr_latches (baseTR t))) \<and> distinct (map fst (tr_gates (baseTR t)))
     \<and> (\<forall>(k, l)\<in>set (tr_latches (baseTR t)). la_id l = k \<and> \<not> is_negated k \<and> MIN_ID \<le> k
          \<and> la_reset l \<in> {ID_NULL, ID_TRUE, ID_FALSE})
     \<and> (\<forall>(k, g)\<in>set (tr_gates (baseTR t)). ag_lhs g = k)
     \<and> set (tr_latchIDs (baseTR t)) = fst ` set (tr_latches (baseTR t))
     \<and> (\<forall>i\<in>set (tr_inputIDs (baseTR t)). \<not> is_negated i)
     \<and> (\<forall>v\<in>tr_vars t. unprime v = v \<and> is_valid_id v)
     \<and> (case t of PlainTR _ \<Rightarrow> True
        | DebugTR d \<Rightarrow> \<forall>(k, g)\<in>set (tr_gates d). dt_IDToDebugLatch d (ag_lhs g) \<noteq> None \<and> dt_IDToDebugPPI d (ag_lhs g) \<noteq> None))"

lemma frame_ok_agree:
  assumes "\<And>v. v \<in> tr_vars t \<Longrightarrow> s v = s' v"
  shows "frame_ok t s = frame_ok t s'"
proof -
  have l: "lit_true s l = lit_true s' l" if "strip l \<in> tr_vars t" for l
    using assms[OF that] by (simp add: lit_true_def)
  have g: "any_gate_ok t g s = any_gate_ok t g s'" if "(k, g) \<in> set (tr_gates (baseTR t))" for k g
  proof -
    have "strip (ag_lhs g) \<in> tr_vars t" "strip (ag_rhs0 g) \<in> tr_vars t" "strip (ag_rhs1 g) \<in> tr_vars t"
      using that by (auto simp: tr_vars_def)
    then have "gate_ok g s = gate_ok g s'" "lit_true s (ag_lhs g) = lit_true s' (ag_lhs g)"
      using l by (simp_all add: gate_ok_def)
    moreover have "lit_true s x = lit_true s' x"
      if "t = DebugTR d" "dt_IDToDebugLatch d i = Some x \<or> dt_IDToDebugPPI d i = Some x" for d i x
      by (rule l) (use that in \<open>auto simp: tr_vars_def ran_def\<close>)
    ultimately show ?thesis by (cases t) (auto split: option.splits)
  qed
  have "lit_true s c = lit_true s' c" if "c \<in> set (tr_constraints (baseTR t))" for c
    by (rule l) (use that in \<open>auto simp: tr_vars_def\<close>)
  then show ?thesis unfolding frame_ok_def using g by (auto split: prod.splits)
qed

lemma step_ok_agree:
  assumes "\<And>v. v \<in> tr_vars t \<Longrightarrow> s1 v = s2 v" "\<And>v. v \<in> tr_vars t \<Longrightarrow> s1' v = s2' v"
  shows "step_ok t s1 s1' = step_ok t s2 s2'"
proof -
  have "lit_true s1' k = lit_true s2' k \<and> lit_true s1 (la_next l) = lit_true s2 (la_next l)"
    if "(k, l) \<in> set (tr_latches (baseTR t))" for k l
  proof -
    have "strip k \<in> tr_vars t" "strip (la_next l) \<in> tr_vars t" using that by (auto simp: tr_vars_def)
    then show ?thesis using assms by (simp add: lit_true_def)
  qed
  then show ?thesis unfolding step_ok_def by (auto split: prod.splits)
qed

lemma init_ok_agree:
  assumes "\<And>v. v \<in> tr_vars t \<Longrightarrow> s v = s' v"
  shows "init_ok t s = init_ok t s'"
proof -
  have "lit_true s (la_id l) = lit_true s' (la_id l)" if "(k, l) \<in> set (tr_latches (baseTR t))" for k l
  proof -
    have "strip (la_id l) \<in> tr_vars t" using that by (auto simp: tr_vars_def)
    then show ?thesis using assms by (simp add: lit_true_def)
  qed
  then show ?thesis unfolding init_ok_def by (auto split: prod.splits)
qed

lemma bad_state_agree: "s (strip (tr_bad (baseTR t))) = s' (strip (tr_bad (baseTR t))) \<Longrightarrow> bad_state t s = bad_state t s'"
  by (simp add: bad_state_def lit_true_def)

end
