(* ===== verification/TransSem.thy ===== *)
theory TransSem
  imports TransRel
begin

text \<open>
  What the clauses of \<open>TransRel\<close> mean: a model of \<open>unroll(n)\<close> is a sequence of \<open>n + 1\<close>
  assignments of the unprimed variables, consecutive ones related by the latches and the first
  \<open>n\<close> of them consistent with the gates and the constraints.  \<open>join ss\<close> is the assignment of the
  primed variables that stands for a sequence \<open>ss\<close>.
\<close>

lemma make_equal_sem:
  assumes "const_ok s"
  shows "cnf_sat s (make_equal a b) \<longleftrightarrow> lit_true s a = lit_true s b"
  using const_ok_lits[OF assms] unfolding make_equal_def by auto

lemma tr_toCNFgate_sem: "cnf_sat s (tr_toCNFgate g) \<longleftrightarrow> gate_ok g s"
  by (auto simp: tr_toCNFgate_def gate_ok_def)

lemma any_toCNFgate_sem:
  assumes "tr_wf t" "(k, g) \<in> set (tr_gates (baseTR t))"
  shows "wpr (any_toCNFgate t g) (\<lambda>C. \<forall>s. cnf_sat s C \<longleftrightarrow> any_gate_ok t g s)"
proof (cases t)
  case (PlainTR t')
  then show ?thesis by (simp add: tr_toCNFgate_sem)
next
  case (DebugTR d)
  then obtain dl ppi where d: "dt_IDToDebugLatch d (ag_lhs g) = Some dl" "dt_IDToDebugPPI d (ag_lhs g) = Some ppi"
    using assms unfolding tr_wf_def by (auto simp: transRel.defs)
  have "cnf_sat s (map (\<lambda>cls. cls @ [dl]) C) \<longleftrightarrow> lit_true s dl \<or> cnf_sat s C" for s C
    by (induction C) auto
  then have "cnf_sat s (map (\<lambda>cls. cls @ [dl]) (tr_toCNFgate g) @ [[ag_lhs g, negate ppi, negate dl], [negate (ag_lhs g), ppi, negate dl]])
     \<longleftrightarrow> any_gate_ok t g s" for s
    using d DebugTR by (auto simp: tr_toCNFgate_sem)
  then show ?thesis
    using d DebugTR by (simp add: dt_toCNFgate_def debugLatchForGate_def debugPPIForGate_def)
qed

lemma mapR_concat_sem:
  assumes "\<And>x. x \<in> set xs \<Longrightarrow> wpr (f x) (\<lambda>C. \<forall>s. I s \<longrightarrow> (cnf_sat s C \<longleftrightarrow> P x s))"
  shows "wpr (mapR f xs) (\<lambda>Cs. \<forall>s. I s \<longrightarrow> (cnf_sat s (concat Cs) \<longleftrightarrow> (\<forall>x\<in>set xs. P x s)))"
  using assms
proof (induction xs)
  case (Cons x xs)
  obtain C where C: "f x = Inr C" "\<forall>s. I s \<longrightarrow> (cnf_sat s C \<longleftrightarrow> P x s)"
    using Cons.prems[of x] by (auto simp: wpr_iff)
  obtain Cs where "mapR f xs = Inr Cs" "\<forall>s. I s \<longrightarrow> (cnf_sat s (concat Cs) \<longleftrightarrow> (\<forall>x\<in>set xs. P x s))"
    using Cons by (auto simp: wpr_iff)
  then show ?case using C by auto
qed simp

lemma tr_toCNF_sem:
  assumes "tr_wf t"
  shows "wpr (tr_toCNF t) (\<lambda>C. \<forall>s. cnf_sat s C \<longleftrightarrow> (\<forall>(k, g)\<in>set (tr_gates (baseTR t)). any_gate_ok t g s))"
proof -
  have "wpr (mapR (\<lambda>(k, gate). any_toCNFgate t gate) (tr_gates (baseTR t)))
     (\<lambda>Cs. \<forall>s. True \<longrightarrow> (cnf_sat s (concat Cs) \<longleftrightarrow> (\<forall>x\<in>set (tr_gates (baseTR t)). case x of (k, g) \<Rightarrow> any_gate_ok t g s)))"
    by (rule mapR_concat_sem) (use any_toCNFgate_sem[OF assms] in auto)
  then show ?thesis unfolding tr_toCNF_def by (simp add: case_prod_unfold)
qed

lemma tr_addTimeFrame_sem:
  assumes "n + 1 \<le> MAX_PRIMES"
  shows "wpr (tr_addTimeFrame t n trc) (\<lambda>C. \<forall>\<sigma>. const_ok \<sigma> \<longrightarrow>
     (cnf_sat \<sigma> C \<longleftrightarrow> cnf_sat (at_time n \<sigma>) trc \<and> step_ok t (at_time n \<sigma>) (at_time (Suc n) \<sigma>)))"
proof -
  have n: "n \<le> MAX_PRIMES" using assms by simp
  let ?f = "\<lambda>(k, latch). bindR (prime k (n + 1)) (\<lambda>latchp. bindR (prime (la_next latch) n) (\<lambda>next. Inr (make_equal next latchp)))"
  have "wpr (mapR ?f (tr_latches (baseTR t))) (\<lambda>Cs. \<forall>\<sigma>. const_ok \<sigma> \<longrightarrow> (cnf_sat \<sigma> (concat Cs) \<longleftrightarrow>
      (\<forall>x\<in>set (tr_latches (baseTR t)). case x of (k, l) \<Rightarrow> lit_true (at_time (Suc n) \<sigma>) k = lit_true (at_time n \<sigma>) (la_next l))))"
    by (rule mapR_concat_sem) (use n assms in \<open>auto simp: make_equal_sem lit_true_prime split: prod.splits\<close>)
  then obtain Cs where Cs: "mapR ?f (tr_latches (baseTR t)) = Inr Cs" "\<And>\<sigma>. const_ok \<sigma> \<Longrightarrow> (cnf_sat \<sigma> (concat Cs) \<longleftrightarrow>
      step_ok t (at_time n \<sigma>) (at_time (Suc n) \<sigma>))"
    unfolding wpr_iff step_ok_def by blast
  show ?thesis
    using Cs n by (simp add: tr_addTimeFrame_def primeClauses_total cnf_sat_prime)
qed

lemma tr_constrain_sem:
  assumes "n \<le> MAX_PRIMES"
  shows "wpr (tr_constrainTimeFrame t n) (\<lambda>C. \<forall>\<sigma>. cnf_sat \<sigma> C \<longleftrightarrow> (\<forall>c\<in>set (tr_constraints (baseTR t)). lit_true (at_time n \<sigma>) c))"
proof -
  have "wpr (mapR (\<lambda>lit. bindR (prime lit n) (\<lambda>p. Inr [p])) cs)
     (\<lambda>C. \<forall>\<sigma>. cnf_sat \<sigma> C \<longleftrightarrow> (\<forall>c\<in>set cs. lit_true (at_time n \<sigma>) c))" for cs
    by (induction cs) (use assms in \<open>auto simp: wpr_iff lit_true_prime\<close>)
  then show ?thesis by (simp add: tr_constrainTimeFrame_def)
qed

lemma tr_frame_sem:
  assumes "n + 1 \<le> MAX_PRIMES" "\<And>s. cnf_sat s trc \<longleftrightarrow> (\<forall>(k, g)\<in>set (tr_gates (baseTR t)). any_gate_ok t g s)"
  shows "wpr (tr_frame t trc n) (\<lambda>C. \<forall>\<sigma>. const_ok \<sigma> \<longrightarrow>
     (cnf_sat \<sigma> C \<longleftrightarrow> frame_ok t (at_time n \<sigma>) \<and> step_ok t (at_time n \<sigma>) (at_time (Suc n) \<sigma>)))"
proof -
  obtain C1 C2 where "tr_addTimeFrame t n trc = Inr C1" "tr_constrainTimeFrame t n = Inr C2"
    and "\<And>\<sigma>. const_ok \<sigma> \<Longrightarrow> cnf_sat \<sigma> C1 \<longleftrightarrow> cnf_sat (at_time n \<sigma>) trc \<and> step_ok t (at_time n \<sigma>) (at_time (Suc n) \<sigma>)"
    and "\<And>\<sigma>. cnf_sat \<sigma> C2 \<longleftrightarrow> (\<forall>c\<in>set (tr_constraints (baseTR t)). lit_true (at_time n \<sigma>) c)"
    using tr_addTimeFrame_sem[OF assms(1), of t trc] tr_constrain_sem[of n t] assms(1) unfolding wpr_iff by auto
  then show ?thesis using assms(2) by (auto simp: tr_frame_def frame_ok_def)
qed

text \<open>A model of the unrolling read as a path.\<close>

definition path_ok :: "anyTR \<Rightarrow> nat \<Rightarrow> (nat \<Rightarrow> assignment) \<Rightarrow> bool" where
  "path_ok t n ss = (\<forall>i<n. frame_ok t (ss i) \<and> step_ok t (ss i) (ss (Suc i)))"

lemma tr_unroll_sem:
  assumes wf: "tr_wf t" and n: "n \<le> MAX_PRIMES"
  shows "wpr (tr_unroll t n) (\<lambda>C. \<forall>\<sigma>. const_ok \<sigma> \<longrightarrow> (cnf_sat \<sigma> C \<longleftrightarrow> path_ok t n (\<lambda>i. at_time i \<sigma>)))"
proof -
  obtain trc where trc: "tr_toCNF t = Inr trc"
    "\<And>s. cnf_sat s trc \<longleftrightarrow> (\<forall>(k, g)\<in>set (tr_gates (baseTR t)). any_gate_ok t g s)"
    using tr_toCNF_sem[OF wf] unfolding wpr_iff by blast
  have "wpr (mapR (tr_frame t trc) [0..<n]) (\<lambda>Cs. \<forall>\<sigma>. const_ok \<sigma> \<longrightarrow> (cnf_sat \<sigma> (concat Cs) \<longleftrightarrow>
     (\<forall>i\<in>set [0..<n]. frame_ok t (at_time i \<sigma>) \<and> step_ok t (at_time i \<sigma>) (at_time (Suc i) \<sigma>))))"
    by (rule mapR_concat_sem, rule tr_frame_sem[OF _ trc(2)]) (use n in auto)
  then show ?thesis using trc(1) by (auto simp: tr_unroll_def path_ok_def elim!: wpr_mono)
qed

lemma tr_unrollFrame_sem:
  assumes wf: "tr_wf t" and n: "n + 1 \<le> MAX_PRIMES"
  shows "wpr (tr_unrollFrame t n) (\<lambda>C. \<forall>\<sigma>. const_ok \<sigma> \<longrightarrow>
     (cnf_sat \<sigma> C \<longleftrightarrow> frame_ok t (at_time n \<sigma>) \<and> step_ok t (at_time n \<sigma>) (at_time (Suc n) \<sigma>)))"
proof -
  obtain trc where trc: "tr_toCNF t = Inr trc"
    "\<And>s. cnf_sat s trc \<longleftrightarrow> (\<forall>(k, g)\<in>set (tr_gates (baseTR t)). any_gate_ok t g s)"
    using tr_toCNF_sem[OF wf] unfolding wpr_iff by blast
  show ?thesis using tr_frame_sem[OF n trc(2)] trc(1) by (simp add: tr_unrollFrame_def)
qed

lemma tr_initState_sem:
  assumes wf: "tr_wf t"
  shows "wpr (tr_initState t) (\<lambda>C. \<forall>\<sigma>. const_ok \<sigma> \<longrightarrow> (cnf_sat \<sigma> C \<longleftrightarrow> init_ok t \<sigma>))"
proof -
  let ?f = "\<lambda>(k, latch). if la_reset latch \<noteq> ID_NULL then
        assertR (la_reset latch = ID_TRUE \<or> la_reset latch = ID_FALSE)
          (Inr (make_equal (la_id latch) (la_reset latch))) else Inr []"
  have c: "ID_TRUE \<noteq> ID_NULL" "ID_FALSE \<noteq> ID_NULL" "ID_FALSE \<noteq> ID_TRUE" "ID_TRUE \<noteq> ID_FALSE"
    by (simp_all add: ID_TRUE_val ID_FALSE_def ID_NULL_def)
  have "wpr (mapR ?f (tr_latches (baseTR t))) (\<lambda>Cs. \<forall>\<sigma>. const_ok \<sigma> \<longrightarrow> (cnf_sat \<sigma> (concat Cs) \<longleftrightarrow>
      (\<forall>x\<in>set (tr_latches (baseTR t)). case x of (k, l) \<Rightarrow> (la_reset l = ID_TRUE \<longrightarrow> lit_true \<sigma> (la_id l)) \<and>
          (la_reset l = ID_FALSE \<longrightarrow> \<not> lit_true \<sigma> (la_id l)))))"
  proof (rule mapR_concat_sem)
    fix x assume x: "x \<in> set (tr_latches (baseTR t))"
    obtain k l where kl: "x = (k, l)" by force
    have "la_reset l \<in> {ID_NULL, ID_TRUE, ID_FALSE}" using wf x kl unfolding tr_wf_def by auto
    then show "wpr (?f x) (\<lambda>C. \<forall>\<sigma>. const_ok \<sigma> \<longrightarrow> (cnf_sat \<sigma> C \<longleftrightarrow> (case x of (k, l) \<Rightarrow>
        (la_reset l = ID_TRUE \<longrightarrow> lit_true \<sigma> (la_id l)) \<and> (la_reset l = ID_FALSE \<longrightarrow> \<not> lit_true \<sigma> (la_id l)))))"
      using c by (auto simp: kl make_equal_sem)
  qed
  then show ?thesis by (simp add: tr_initState_def init_ok_def)
qed

subsection \<open>Sequences of states as one assignment\<close>

definition join :: "(nat \<Rightarrow> assignment) \<Rightarrow> assignment" where
  "join ss v = ss (unat (nprimes v)) (unprime v)"

lemma nprimes_unprimed: "unprime v = v \<Longrightarrow> nprimes v = 0"
  by (rule bit_word_eqI)
    (use unprimed_bits[of v] in \<open>auto simp: nprimes_def bit_drop_bit_eq bit_and_iff PRIME_SHIFT_def\<close>)

lemma join_at:
  assumes "unprime v = v" "is_valid_id v" "\<not> is_negated v" "k \<le> MAX_PRIMES" "\<And>i. const_ok (ss i)"
  shows "at_time k (join ss) v = ss k v"
proof (cases "MIN_ID \<le> v")
  case True
  then have "nprimes (prime_body k v) = of_nat k" using nprimes_prime_body[OF assms(1) _ assms(4)] by (simp add: MIN_ID_val)
  moreover have "unat (of_nat k :: id) = k" using assms(4) by (simp add: MAX_PRIMES_def unat_of_nat)
  ultimately show ?thesis using assms(1) by (simp add: at_time_def join_def)
next
  case False
  then have "v = ID_FALSE" using assms(2,3) by (auto simp: is_valid_id_def ID_TRUE_val is_negated_def)
  then show ?thesis using assms(1,5)
    by (simp add: at_time_def join_def nprimes_unprimed const_ok_def)
qed

lemma join_0: "unprime v = v \<Longrightarrow> join ss v = ss 0 v"
  by (simp add: join_def nprimes_unprimed)

lemma const_ok_join: "const_ok (ss 0) \<Longrightarrow> const_ok (join ss)"
proof -
  assume "const_ok (ss 0)"
  moreover have "unprime ID_FALSE = ID_FALSE" by (simp add: small_unprime ID_FALSE_def)
  ultimately show ?thesis by (simp add: const_ok_def join_0)
qed

lemma tr_wf_vars: "tr_wf t \<Longrightarrow> v \<in> tr_vars t \<Longrightarrow> unprime v = v \<and> is_valid_id v"
  by (simp add: tr_wf_def)

lemma tr_vars_strip: "tr_vars t \<subseteq> range strip"
proof -
  have "\<not> is_negated ID_FALSE" by (simp add: is_negated_def ID_FALSE_def)
  then have f: "ID_FALSE \<in> range strip" by (metis rangeI strip_id)
  have d: "debug_vars t \<subseteq> range strip" by (cases t) auto
  show ?thesis
    unfolding tr_vars_def
    by (intro insert_subsetI Un_least UN_least f d) (auto split: prod.splits)
qed

lemma tr_vars_join:
  assumes "tr_wf t" "v \<in> tr_vars t" "k \<le> MAX_PRIMES" "\<And>i. const_ok (ss i)"
  shows "at_time k (join ss) v = ss k v"
proof -
  have "\<not> is_negated v" using subsetD[OF tr_vars_strip assms(2)] by auto
  then show ?thesis
    using join_at[of v k ss] tr_wf_vars[OF assms(1,2)] assms(3,4) by simp
qed

lemma path_ok_join:
  assumes wf: "tr_wf t" and n: "n \<le> MAX_PRIMES" and c: "\<And>i. const_ok (ss i)"
  shows "path_ok t n (\<lambda>i. at_time i (join ss)) \<longleftrightarrow> path_ok t n ss"
proof -
  have "frame_ok t (at_time i (join ss)) = frame_ok t (ss i)
      \<and> step_ok t (at_time i (join ss)) (at_time (Suc i) (join ss)) = step_ok t (ss i) (ss (Suc i))" if "i < n" for i
    using frame_ok_agree[of t "at_time i (join ss)" "ss i"]
      step_ok_agree[of t "at_time i (join ss)" "ss i" "at_time (Suc i) (join ss)" "ss (Suc i)"]
      tr_vars_join[OF wf _ _ c] n that by simp
  then show ?thesis unfolding path_ok_def by blast
qed

text \<open>The unrolling from the initial states: its models are the paths.\<close>

lemma unroll_init_exact:
  assumes "tr_wf t" "n \<le> MAX_PRIMES"
  shows "\<exists>C. tr_unrollWithInit t n = Inr C
    \<and> (\<forall>\<sigma>. const_ok \<sigma> \<longrightarrow> (cnf_sat \<sigma> C \<longleftrightarrow> init_ok t \<sigma> \<and> path_ok t n (\<lambda>i. at_time i \<sigma>)))
    \<and> (\<forall>ss. (\<forall>i. const_ok (ss i)) \<longrightarrow> init_ok t (ss 0) \<longrightarrow> path_ok t n ss \<longrightarrow>
        (\<exists>\<sigma>. const_ok \<sigma> \<and> cnf_sat \<sigma> C \<and> (\<forall>i\<le>n. \<forall>v\<in>tr_vars t. at_time i \<sigma> v = ss i v)))"
proof -
  obtain C where C: "tr_unroll t n = Inr C" "\<And>\<sigma>. const_ok \<sigma> \<Longrightarrow> cnf_sat \<sigma> C \<longleftrightarrow> path_ok t n (\<lambda>i. at_time i \<sigma>)"
    using tr_unroll_sem[OF assms] by (auto simp: wpr_iff)
  obtain I where I: "tr_initState t = Inr I" "\<And>\<sigma>. const_ok \<sigma> \<Longrightarrow> cnf_sat \<sigma> I \<longleftrightarrow> init_ok t \<sigma>"
    using tr_initState_sem[OF assms(1)] by (auto simp: wpr_iff)
  have sem: "cnf_sat \<sigma> (C @ I) \<longleftrightarrow> init_ok t \<sigma> \<and> path_ok t n (\<lambda>i. at_time i \<sigma>)" if "const_ok \<sigma>" for \<sigma>
    using C(2)[OF that] I(2)[OF that] by auto
  have "\<exists>\<sigma>. const_ok \<sigma> \<and> cnf_sat \<sigma> (C @ I) \<and> (\<forall>i\<le>n. \<forall>v\<in>tr_vars t. at_time i \<sigma> v = ss i v)"
    if c: "\<forall>i. const_ok (ss i)" and ss: "init_ok t (ss 0)" "path_ok t n ss" for ss
  proof -
    have c': "const_ok (ss i)" for i using c by blast
    have at: "at_time i (join ss) v = ss i v" if "v \<in> tr_vars t" "i \<le> n" for v i
      using tr_vars_join[OF assms(1) that(1) _ c'] that(2) assms(2) by simp
    have "init_ok t (join ss) = init_ok t (ss 0)" by (rule init_ok_agree) (use at[of _ 0] in \<open>simp add: at_time_0\<close>)
    moreover have "path_ok t n (\<lambda>i. at_time i (join ss))" using path_ok_join[OF assms, of ss, OF c'] ss(2) by simp
    moreover have "const_ok (join ss)" by (rule const_ok_join[of ss, OF c'])
    ultimately show ?thesis using sem ss(1) at by blast
  qed
  then show ?thesis using C(1) I(1) sem by (simp add: tr_unrollWithInit_def)
qed

subsection \<open>Transitions\<close>

text \<open>Two consecutive states that both satisfy the gates and the constraints.\<close>

definition tr_trans :: "anyTR \<Rightarrow> assignment \<Rightarrow> assignment \<Rightarrow> bool" where
  "tr_trans t s s' = (const_ok s \<and> const_ok s' \<and> frame_ok t s \<and> frame_ok t s' \<and> step_ok t s s')"

text \<open>The latches alone never block.\<close>

definition next_state :: "anyTR \<Rightarrow> assignment \<Rightarrow> assignment" where
  "next_state t s v = (case map_of (tr_latches (baseTR t)) v of Some l \<Rightarrow> lit_true s (la_next l) | None \<Rightarrow> False)"

lemma tr_latch_wf:
  assumes "tr_wf t" "(k, l) \<in> set (tr_latches (baseTR t))"
  shows "map_of (tr_latches (baseTR t)) k = Some l" "la_id l = k" "\<not> is_negated k" "MIN_ID \<le> k"
    "la_reset l \<in> {ID_NULL, ID_TRUE, ID_FALSE}"
  using assms unfolding tr_wf_def by auto

lemma next_state_ok:
  assumes "tr_wf t"
  shows "step_ok t s (next_state t s)" "const_ok (next_state t s)"
proof -
  show "step_ok t s (next_state t s)"
    unfolding step_ok_def using tr_latch_wf[OF assms] by (auto simp: lit_true_pos next_state_def)
  have "map_of (tr_latches (baseTR t)) ID_FALSE = None"
  proof (rule ccontr)
    assume "map_of (tr_latches (baseTR t)) ID_FALSE \<noteq> None"
    then have "\<exists>l. (ID_FALSE, l) \<in> set (tr_latches (baseTR t))" by (auto dest: map_of_SomeD)
    then obtain l where l: "(ID_FALSE, l) \<in> set (tr_latches (baseTR t))" ..
    show False using tr_latch_wf(4)[OF assms l] by (simp add: MIN_ID_val ID_FALSE_def)
  qed
  then show "const_ok (next_state t s)" by (simp add: const_ok_def next_state_def)
qed

text \<open>Variables that queries about two frames may mention: unprimed ones.\<close>

definition plain_vars :: "id set \<Rightarrow> bool" where
  "plain_vars V = (\<forall>v\<in>V. unprime v = v \<and> is_valid_id v \<and> \<not> is_negated v)"

lemma plain_tr_vars: "tr_wf t \<Longrightarrow> plain_vars (tr_vars t)"
  using tr_wf_vars tr_vars_strip unfolding plain_vars_def by fastforce

lemma unroll2_query:
  assumes wf: "tr_wf t" and u: "tr_unroll t 2 = Inr C" and V: "plain_vars V"
    and P: "\<And>s1 s2 s1' s2'. (\<And>v. v \<in> V \<Longrightarrow> s1 v = s2 v) \<Longrightarrow> (\<And>v. v \<in> V \<Longrightarrow> s1' v = s2' v) \<Longrightarrow> P s1 s1' \<Longrightarrow> P s2 s2'"
  shows "(\<exists>\<sigma>. const_ok \<sigma> \<and> cnf_sat \<sigma> C \<and> P \<sigma> (at_time 1 \<sigma>)) \<longleftrightarrow> (\<exists>s s'. tr_trans t s s' \<and> P s s')"
proof -
  have n: "2 \<le> MAX_PRIMES" by (simp add: MAX_PRIMES_def)
  have sem: "cnf_sat \<sigma> C \<longleftrightarrow> path_ok t 2 (\<lambda>i. at_time i \<sigma>)" if "const_ok \<sigma>" for \<sigma>
    using tr_unroll_sem[OF wf n] u that by simp
  have p2: "path_ok t 2 ss \<longleftrightarrow> frame_ok t (ss 0) \<and> step_ok t (ss 0) (ss 1) \<and> frame_ok t (ss 1) \<and> step_ok t (ss 1) (ss 2)" for ss
    unfolding path_ok_def by (auto simp: numeral_2_eq_2 less_Suc_eq)
  show ?thesis
  proof
    assume "\<exists>\<sigma>. const_ok \<sigma> \<and> cnf_sat \<sigma> C \<and> P \<sigma> (at_time 1 \<sigma>)"
    then obtain \<sigma> where s: "const_ok \<sigma>" "cnf_sat \<sigma> C" "P \<sigma> (at_time 1 \<sigma>)" by blast
    then have "tr_trans t \<sigma> (at_time 1 \<sigma>)" using sem p2 by (simp add: tr_trans_def)
    then show "\<exists>s s'. tr_trans t s s' \<and> P s s'" using s(3) by blast
  next
    assume "\<exists>s s'. tr_trans t s s' \<and> P s s'"
    then obtain s s' where s: "tr_trans t s s'" "P s s'" by blast
    define ss where "ss = (\<lambda>i::nat. if i = 0 then s else if i = 1 then s' else next_state t s')"
    have c: "const_ok (ss i)" for i using s(1) next_state_ok(2)[OF wf] by (simp add: ss_def tr_trans_def)
    have "path_ok t 2 ss" unfolding p2 using s(1) next_state_ok(1)[OF wf] by (simp add: ss_def tr_trans_def)
    have cj: "const_ok (join ss)" by (rule const_ok_join[of ss, OF c])
    then have "cnf_sat (join ss) C" using \<open>path_ok t 2 ss\<close> sem[OF cj] path_ok_join[OF wf n c] by simp
    moreover have "P (join ss) (at_time 1 (join ss))"
    proof (rule P[OF _ _ s(2)])
      show "s v = join ss v" if "v \<in> V" for v
        using that V by (simp add: plain_vars_def join_0 ss_def)
      show "s' v = at_time 1 (join ss) v" if "v \<in> V" for v
        using that V join_at[of v 1 ss, OF _ _ _ _ c] by (simp add: plain_vars_def ss_def MAX_PRIMES_def)
    qed
    ultimately show "\<exists>\<sigma>. const_ok \<sigma> \<and> cnf_sat \<sigma> C \<and> P \<sigma> (at_time 1 \<sigma>)" using cj by (intro exI[of _ "join ss"] conjI)
  qed
qed

subsection \<open>Non-empty clauses\<close>

lemma mapR_nonempty:
  assumes "mapR f xs = Inr Cs" "\<And>x C. x \<in> set xs \<Longrightarrow> f x = Inr C \<Longrightarrow> [] \<notin> set C"
  shows "[] \<notin> set (concat Cs)"
  using assms
proof (induction xs arbitrary: Cs)
  case (Cons x xs)
  then show ?case by (fastforce simp: bindR_Inr_iff)
qed simp

lemma make_equal_nonempty: "[] \<notin> set (make_equal a b)"
  by (simp add: make_equal_def)

lemma any_toCNFgate_nonempty: "any_toCNFgate t g = Inr C \<Longrightarrow> [] \<notin> set C"
  by (cases t) (auto simp: tr_toCNFgate_def dt_toCNFgate_def bindR_Inr_iff Let_def)

lemma tr_toCNF_nonempty: "tr_toCNF t = Inr C \<Longrightarrow> [] \<notin> set C"
  unfolding tr_toCNF_def bindR_Inr_iff
  using mapR_nonempty[of "\<lambda>(k, gate). any_toCNFgate t gate" "tr_gates (baseTR t)"] any_toCNFgate_nonempty by fastforce

lemma tr_frame_nonempty:
  assumes "tr_frame t trc n = Inr C" "[] \<notin> set trc"
  shows "[] \<notin> set C"
proof -
  obtain f c where f: "tr_addTimeFrame t n trc = Inr f" and c: "tr_constrainTimeFrame t n = Inr c" "C = f @ c"
    using assms(1) by (auto simp: tr_frame_def bindR_Inr_iff)
  have "[] \<notin> set c"
    using c(1) unfolding tr_constrainTimeFrame_def mapR_Inr_iff by (auto simp: list_all2_conv_all_nth in_set_conv_nth bindR_Inr_iff)
  moreover obtain fr eqs where fr: "primeClauses trc n = Inr fr" and e: "f = fr @ concat eqs"
    "mapR (\<lambda>(k, latch). bindR (prime k (n + 1)) (\<lambda>latchp. bindR (prime (la_next latch) n) (\<lambda>next.
        Inr (make_equal next latchp)))) (tr_latches (baseTR t)) = Inr eqs"
    using f by (auto simp: tr_addTimeFrame_def bindR_Inr_iff)
  have "[] \<notin> set (concat eqs)"
    by (rule mapR_nonempty[OF e(2)]) (auto simp: bindR_Inr_iff make_equal_nonempty)
  moreover have "[] \<notin> set fr"
    using fr assms(2) unfolding primeClauses_def primeClause_def mapR_Inr_iff
    by (auto simp: list_all2_conv_all_nth in_set_conv_nth mapR_Inr_iff)
  ultimately show ?thesis using c(2) e(1) by auto
qed

lemma tr_unroll_nonempty: "tr_unroll t n = Inr C \<Longrightarrow> [] \<notin> set C"
  unfolding tr_unroll_def bindR_Inr_iff
  using mapR_nonempty tr_toCNF_nonempty tr_frame_nonempty by (metis sum.inject(2))

lemma tr_unrollFrame_nonempty: "tr_unrollFrame t n = Inr C \<Longrightarrow> [] \<notin> set C"
  unfolding tr_unrollFrame_def bindR_Inr_iff using tr_toCNF_nonempty tr_frame_nonempty by metis

lemma tr_initState_nonempty: "tr_initState t = Inr C \<Longrightarrow> [] \<notin> set C"
proof -
  assume "tr_initState t = Inr C"
  then obtain cs where "C = concat cs" "mapR (\<lambda>(k, latch).
      if la_reset latch \<noteq> ID_NULL then
        assertR (la_reset latch = ID_TRUE \<or> la_reset latch = ID_FALSE)
          (Inr (make_equal (la_id latch) (la_reset latch)))
      else Inr []) (tr_latches (baseTR t)) = Inr cs"
    by (auto simp: tr_initState_def bindR_Inr_iff)
  then show ?thesis
    using mapR_nonempty by (fastforce simp: assertR_Inr_iff make_equal_nonempty split: if_splits)
qed

end
