(* ===== verification/SatSolver.thy ===== *)
theory SatSolver
  imports Prelude
begin

text \<open>
  \<open>src/src/sat/sat.h\<close>, \<open>sat.cpp\<close>, \<open>minisat_style_solver.cpp\<close>, \<open>minisat.cpp\<close>,
  \<open>glucose.cpp\<close>: the wrapper around the vendored SAT solvers.  Literals of the wrapper are
  non-zero integers, those of the solvers are a variable index and a sign.

  The vendored solver is a parameter of type \<open>backend\<close>.  It sees the complete history of the
  calls made to it, so that nothing is assumed about its heuristics; what the wrapper relies on
  is the locale \<open>sat_backend\<close>.  The interpretation at the end of the theory discharges it for an
  exhaustive reference solver.
\<close>

subsection \<open>Literals\<close>

definition lit_negate :: "int \<Rightarrow> int" where
  "lit_negate l = - l"

definition lit_is_negated :: "int \<Rightarrow> bool" where
  "lit_is_negated l = (l < 0)"

definition lit_strip :: "int \<Rightarrow> int" where
  "lit_strip l = (if lit_is_negated l then - l else l)"

datatype mlit = MLit (mvar: nat) (msign: bool)

definition mneg :: "mlit \<Rightarrow> mlit" where
  "mneg l = MLit (mvar l) (\<not> msign l)"

datatype modelValue = MV_TRUE | MV_FALSE | MV_UNDEF

datatype solverResult = SR_SAT | SR_UNSAT | SR_UNKNOWN

subsection \<open>The solver behind the wrapper\<close>

datatype mop = NewVar | AddClause "mlit list" | Solve "mlit list" | Freeze nat | Eliminate

record mb_result =
  mr_sat :: bool
  mr_model :: "modelValue list"
  mr_conflict :: "mlit list"
  mr_trail :: "mlit list"

record mb_simplified =
  me_ok :: bool
  me_clauses :: "mlit list list"
  me_trail :: "mlit list"

record backend =
  be_solve :: "mop list \<Rightarrow> mlit list \<Rightarrow> mb_result"
  be_eliminate :: "mop list \<Rightarrow> mb_simplified"

definition hist_nvars :: "mop list \<Rightarrow> nat" where
  "hist_nvars h = length (filter (\<lambda>x. x = NewVar) h)"

definition hist_clauses :: "mop list \<Rightarrow> mlit list list" where
  "hist_clauses h = concat (map (\<lambda>x. case x of AddClause c \<Rightarrow> [c] | _ \<Rightarrow> []) h)"

definition hist_frozen :: "mop list \<Rightarrow> nat list" where
  "hist_frozen h = concat (map (\<lambda>x. case x of Freeze v \<Rightarrow> [v] | _ \<Rightarrow> []) h)"

definition mlit_true :: "(nat \<Rightarrow> bool) \<Rightarrow> mlit \<Rightarrow> bool" where
  "mlit_true \<mu> l = (\<mu> (mvar l) \<noteq> msign l)"

definition mclause_sat :: "(nat \<Rightarrow> bool) \<Rightarrow> mlit list \<Rightarrow> bool" where
  "mclause_sat \<mu> c = (\<exists>l\<in>set c. mlit_true \<mu> l)"

definition mcnf_sat :: "(nat \<Rightarrow> bool) \<Rightarrow> mlit list list \<Rightarrow> bool" where
  "mcnf_sat \<mu> C = (\<forall>c\<in>set C. mclause_sat \<mu> c)"

definition mcube_sat :: "(nat \<Rightarrow> bool) \<Rightarrow> mlit list \<Rightarrow> bool" where
  "mcube_sat \<mu> c = (\<forall>l\<in>set c. mlit_true \<mu> l)"

text \<open>The assignment a model vector stands for.\<close>

definition model_asg :: "modelValue list \<Rightarrow> nat \<Rightarrow> bool" where
  "model_asg m v = (v < length m \<and> m ! v = MV_TRUE)"

definition hist_wf :: "mop list \<Rightarrow> bool" where
  "hist_wf h = (\<forall>c\<in>set (hist_clauses h). \<forall>l\<in>set c. mvar l < hist_nvars h)"

text \<open>The documented behaviour of MiniSat and Glucose: a satisfiable call leaves a total model of
  the clauses and the assumptions, an unsatisfiable one leaves a clause over negated assumptions,
  without repeated literals, that the clauses imply; the trail mentions existing variables only; variable elimination derives
  consequences of the clauses and keeps the models over the frozen variables.\<close>

locale sat_backend =
  fixes B :: backend
  assumes solve_sat: "\<And>h as. \<lbrakk> Eliminate \<notin> set h; hist_wf h; \<forall>l\<in>set as. mvar l < hist_nvars h; mr_sat (be_solve B h as) \<rbrakk>
      \<Longrightarrow> length (mr_model (be_solve B h as)) = hist_nvars h
        \<and> MV_UNDEF \<notin> set (mr_model (be_solve B h as))
        \<and> mcnf_sat (model_asg (mr_model (be_solve B h as))) (hist_clauses h)
        \<and> mcube_sat (model_asg (mr_model (be_solve B h as))) as"
    and solve_unsat: "\<And>h as. \<lbrakk> Eliminate \<notin> set h; hist_wf h; \<forall>l\<in>set as. mvar l < hist_nvars h; \<not> mr_sat (be_solve B h as) \<rbrakk>
      \<Longrightarrow> set (mr_conflict (be_solve B h as)) \<subseteq> mneg ` set as \<and> distinct (mr_conflict (be_solve B h as))
        \<and> (\<forall>\<mu>. mcnf_sat \<mu> (hist_clauses h) \<longrightarrow> mclause_sat \<mu> (mr_conflict (be_solve B h as)))"
    and solve_trail: "\<And>h as. \<lbrakk> Eliminate \<notin> set h; hist_wf h \<rbrakk>
      \<Longrightarrow> \<forall>l\<in>set (mr_trail (be_solve B h as)). mvar l < hist_nvars h"
    and elim_ok: "\<And>h \<mu>. \<lbrakk> Eliminate \<notin> set h; hist_wf h; mcnf_sat \<mu> (hist_clauses h) \<rbrakk> \<Longrightarrow> me_ok (be_eliminate B h)"
    and elim_vars: "\<And>h. \<lbrakk> Eliminate \<notin> set h; hist_wf h \<rbrakk>
      \<Longrightarrow> (\<forall>c\<in>set (me_clauses (be_eliminate B h)). \<forall>l\<in>set c. mvar l < hist_nvars h)
        \<and> (\<forall>l\<in>set (me_trail (be_eliminate B h)). mvar l < hist_nvars h)"
    and elim_models: "\<And>h \<mu>. \<lbrakk> Eliminate \<notin> set h; hist_wf h; me_ok (be_eliminate B h) \<rbrakk>
      \<Longrightarrow> (\<exists>\<nu>. (\<forall>v\<in>set (hist_frozen h). \<nu> v = \<mu> v) \<and> mcnf_sat \<nu> (hist_clauses h))
        \<longleftrightarrow> (\<exists>\<nu>. (\<forall>v\<in>set (hist_frozen h). \<nu> v = \<mu> v) \<and> mcnf_sat \<nu> (me_clauses (be_eliminate B h))
               \<and> mcube_sat \<nu> (me_trail (be_eliminate B h)))"
    and elim_sound: "\<And>h \<mu>. \<lbrakk> Eliminate \<notin> set h; hist_wf h; mcnf_sat \<mu> (hist_clauses h) \<rbrakk>
      \<Longrightarrow> mcnf_sat \<mu> (me_clauses (be_eliminate B h)) \<and> mcube_sat \<mu> (me_trail (be_eliminate B h))"

subsection \<open>The wrapper\<close>

record msolver =
  ms_varMap :: "int \<rightharpoonup> nat"
  ms_reverseVarMap :: "nat \<rightharpoonup> int"
  ms_nextVar :: int
  ms_clauses :: "int list list"
  ms_trail :: "int list"
  ms_lastResult :: solverResult
  ms_hist :: "mop list"
  ms_model :: "modelValue list"

definition ms_new :: msolver where
  "ms_new = \<lparr>ms_varMap = Map.empty, ms_reverseVarMap = Map.empty, ms_nextVar = 1, ms_clauses = [],
     ms_trail = [], ms_lastResult = SR_UNKNOWN, ms_hist = [], ms_model = []\<rparr>"

definition ms_log :: "mop \<Rightarrow> msolver \<Rightarrow> msolver" where
  "ms_log x ms = ms\<lparr>ms_hist := ms_hist ms @ [x]\<rparr>"

text \<open>\<open>newVar\<close> of the solvers returns the number of variables created before.  The counter
  \<open>m_nextVar\<close> is an \<open>int\<close> of the source; it is unbounded here, so the solvers are modelled below 2^31
  variables.\<close>

definition ms_createSolverVariable :: "(msolver, nat) sm" where
  "ms_createSolverVariable = bindS getS (\<lambda>ms. thenS (modifyS (ms_log NewVar)) (retS (hist_nvars (ms_hist ms))))"

definition ms_getNextVar :: "(msolver, int) sm" where
  "ms_getNextVar = bindS getS (\<lambda>ms. thenS (modifyS (\<lambda>ms. ms\<lparr>ms_nextVar := ms_nextVar ms + 1\<rparr>)) (retS (ms_nextVar ms)))"

definition ms_newVariable :: "(msolver, int) sm" where
  "ms_newVariable = bindS ms_createSolverVariable (\<lambda>gvar. bindS ms_getNextVar (\<lambda>var. bindS getS (\<lambda>ms.
     thenS (assertS (ms_varMap ms var = None))
     (thenS (modifyS (\<lambda>ms. ms\<lparr>ms_varMap := (ms_varMap ms)(var \<mapsto> gvar)\<rparr>))
     (thenS (assertS (ms_reverseVarMap ms gvar = None))
     (thenS (modifyS (\<lambda>ms. ms\<lparr>ms_reverseVarMap := (ms_reverseVarMap ms)(gvar \<mapsto> var)\<rparr>))
     (retS var)))))))"

definition toMinisat :: "msolver \<Rightarrow> int \<Rightarrow> mlit res" where
  "toMinisat ms lit = (let neg = lit_is_negated lit; var = lit_strip lit in
     case ms_varMap ms var of None \<Rightarrow> Inl AssertFail | Some v \<Rightarrow> Inr (MLit v neg))"

definition fromMinisat :: "msolver \<Rightarrow> mlit \<Rightarrow> int res" where
  "fromMinisat ms lit = (let neg = msign lit; var = mvar lit in
     case ms_reverseVarMap ms var of None \<Rightarrow> Inl AssertFail
     | Some l \<Rightarrow> Inr (if neg then lit_negate l else l))"

definition ms_sendClauseToSolver :: "int list \<Rightarrow> (msolver, unit) sm" where
  "ms_sendClauseToSolver cls = bindS getS (\<lambda>ms.
     bindS (liftS (mapR (toMinisat ms) cls)) (\<lambda>mcls. modifyS (ms_log (AddClause mcls))))"

definition ms_addClause :: "int list \<Rightarrow> (msolver, unit) sm" where
  "ms_addClause cls = thenS (modifyS (\<lambda>ms. ms\<lparr>ms_clauses := ms_clauses ms @ [cls]\<rparr>)) (ms_sendClauseToSolver cls)"

text \<open>\<open>doSolve\<close> with a non-null \<open>crits\<close>; the conflict is negated and filtered.\<close>

definition ms_doSolve :: "backend \<Rightarrow> int list \<Rightarrow> (msolver, bool \<times> int list) sm" where
  "ms_doSolve B assumps = bindS getS (\<lambda>ms.
     bindS (liftS (mapR (toMinisat ms) assumps)) (\<lambda>mvec.
     let r = be_solve B (ms_hist ms) mvec; result = mr_sat r in
     thenS (modifyS (ms_log (Solve mvec)))
     (thenS (modifyS (\<lambda>ms. ms\<lparr>ms_model := (if result then mr_model r else [])\<rparr>))
     (bindS (liftS (mapR (fromMinisat ms) (mr_trail r))) (\<lambda>trail.
      thenS (modifyS (\<lambda>ms. ms\<lparr>ms_trail := trail\<rparr>))
      (if result then retS (result, [])
       else bindS (liftS (mapR (fromMinisat ms) (mr_conflict r))) (\<lambda>confl.
              retS (result, filter (\<lambda>l. l \<in> set assumps) (map lit_negate confl)))))))))"

definition ms_solve :: "backend \<Rightarrow> int list \<Rightarrow> (msolver, bool \<times> int list) sm" where
  "ms_solve B assumps = bindS (ms_doSolve B assumps) (\<lambda>(result, crits).
     thenS (modifyS (\<lambda>ms. ms\<lparr>ms_lastResult := (if result then SR_SAT else SR_UNSAT)\<rparr>)) (retS (result, crits)))"

definition ms_isSAT :: "msolver \<Rightarrow> bool" where
  "ms_isSAT ms = (ms_lastResult ms = SR_SAT)"

text \<open>\<open>modelValue\<close> of the solvers indexes the model vector of the last satisfiable call, which has
  no entry for variables created since.\<close>

definition ms_getAssignment :: "msolver \<Rightarrow> int \<Rightarrow> modelValue res" where
  "ms_getAssignment ms v = assertR (ms_isSAT ms) (bindR (toMinisat ms v) (\<lambda>lit.
     if mvar lit < length (ms_model ms) then
       Inr (case ms_model ms ! mvar lit of
              MV_TRUE \<Rightarrow> if msign lit then MV_FALSE else MV_TRUE
            | MV_FALSE \<Rightarrow> if msign lit then MV_TRUE else MV_FALSE
            | MV_UNDEF \<Rightarrow> MV_UNDEF)
     else Inl Undefined))"

definition ms_freeze :: "int \<Rightarrow> (msolver, unit) sm" where
  "ms_freeze v = bindS getS (\<lambda>ms. bindS (liftS (toMinisat ms v)) (\<lambda>lit. modifyS (ms_log (Freeze (mvar lit)))))"

definition ms_eliminate :: "backend \<Rightarrow> (msolver, unit) sm" where
  "ms_eliminate B = bindS getS (\<lambda>ms.
     let r = be_eliminate B (ms_hist ms) in
     thenS (modifyS (ms_log Eliminate))
     (thenS (assertS (me_ok r))
     (bindS (liftS (mapR (mapR (fromMinisat ms)) (me_clauses r))) (\<lambda>cls.
      bindS (liftS (mapR (fromMinisat ms) (me_trail r))) (\<lambda>trail.
      modifyS (\<lambda>ms. ms\<lparr>ms_clauses := cls, ms_trail := trail\<rparr>))))))"

subsection \<open>Invariant and meaning of the wrapper's state\<close>

definition ilit_true :: "(int \<Rightarrow> bool) \<Rightarrow> int \<Rightarrow> bool" where
  "ilit_true \<tau> l = (if l < 0 then \<not> \<tau> (- l) else \<tau> l)"

definition icnf_sat :: "(int \<Rightarrow> bool) \<Rightarrow> int list list \<Rightarrow> bool" where
  "icnf_sat \<tau> C = (\<forall>c\<in>set C. \<exists>l\<in>set c. ilit_true \<tau> l)"

definition icube_sat :: "(int \<Rightarrow> bool) \<Rightarrow> int list \<Rightarrow> bool" where
  "icube_sat \<tau> c = (\<forall>l\<in>set c. ilit_true \<tau> l)"

definition ms_lit :: "msolver \<Rightarrow> int \<Rightarrow> bool" where
  "ms_lit ms l = (l \<noteq> 0 \<and> \<bar>l\<bar> < ms_nextVar ms)"

definition mlit_of :: "int \<Rightarrow> mlit" where
  "mlit_of l = MLit (nat (\<bar>l\<bar> - 1)) (l < 0)"

definition ms_inv :: "msolver \<Rightarrow> bool" where
  "ms_inv ms = (ms_nextVar ms = 1 + int (hist_nvars (ms_hist ms))
     \<and> ms_varMap ms = (\<lambda>v. if 1 \<le> v \<and> v < ms_nextVar ms then Some (nat (v - 1)) else None)
     \<and> ms_reverseVarMap ms = (\<lambda>n. if n < hist_nvars (ms_hist ms) then Some (int n + 1) else None)
     \<and> Eliminate \<notin> set (ms_hist ms)
     \<and> hist_clauses (ms_hist ms) = map (map mlit_of) (ms_clauses ms)
     \<and> (\<forall>c\<in>set (ms_clauses ms). \<forall>l\<in>set c. ms_lit ms l))"

lemma hist_append [simp]:
  "hist_nvars (h @ h') = hist_nvars h + hist_nvars h'"
  "hist_clauses (h @ h') = hist_clauses h @ hist_clauses h'"
  "hist_frozen (h @ h') = hist_frozen h @ hist_frozen h'"
  by (simp_all add: hist_nvars_def hist_clauses_def hist_frozen_def)

lemma hist_single [simp]:
  "hist_nvars [] = 0" "hist_clauses [] = []" "hist_frozen [] = []"
  "hist_nvars [x] = (if x = NewVar then 1 else 0)"
  "hist_clauses [NewVar] = []" "hist_clauses [AddClause c] = [c]" "hist_clauses [Solve as] = []"
  "hist_clauses [Freeze v] = []"
  "hist_frozen [NewVar] = []" "hist_frozen [AddClause c] = []" "hist_frozen [Solve as] = []"
  "hist_frozen [Freeze v] = [v]"
  by (simp_all add: hist_nvars_def hist_clauses_def hist_frozen_def)

lemma lit_negate_negate [simp]: "lit_negate (lit_negate l) = l"
  by (simp add: lit_negate_def)

lemma mneg_simps [simp]: "mvar (mneg l) = mvar l" "mneg (mneg l) = l" "mlit_true \<mu> (mneg l) = (\<not> mlit_true \<mu> l)"
  by (cases l; simp add: mneg_def mlit_true_def)+

lemma ms_new_inv: "ms_inv ms_new"
  by (auto simp: ms_inv_def ms_new_def)

lemma toMinisat_ok:
  assumes "ms_inv ms" "ms_lit ms l"
  shows "toMinisat ms l = Inr (mlit_of l)" "mvar (mlit_of l) < hist_nvars (ms_hist ms)"
  using assms by (auto simp: toMinisat_def Let_def ms_inv_def ms_lit_def lit_strip_def lit_is_negated_def mlit_of_def)

lemma fromMinisat_ok:
  assumes "ms_inv ms" "mvar m < hist_nvars (ms_hist ms)"
  shows "\<exists>l. fromMinisat ms m = Inr l \<and> ms_lit ms l \<and> mlit_of l = m"
  using assms by (cases m) (auto simp: fromMinisat_def Let_def ms_inv_def ms_lit_def mlit_of_def lit_negate_def)

lemma fromMinisat_toMinisat:
  assumes "ms_inv ms" "ms_lit ms l"
  shows "fromMinisat ms (mlit_of l) = Inr l"
  using assms by (auto simp: fromMinisat_def Let_def ms_inv_def ms_lit_def mlit_of_def lit_negate_def)

lemma mlit_of_inj: "ms_lit ms l \<Longrightarrow> ms_lit ms k \<Longrightarrow> mlit_of l = mlit_of k \<Longrightarrow> l = k"
  by (auto simp: mlit_of_def ms_lit_def split: if_splits)

lemma mlit_true_of:
  "ms_lit ms l \<Longrightarrow> mlit_true (\<lambda>n. \<tau> (int n + 1)) (mlit_of l) = ilit_true \<tau> l"
  by (auto simp: mlit_true_def mlit_of_def ilit_true_def ms_lit_def)

lemma mlit_true_of':
  "ms_lit ms l \<Longrightarrow> ilit_true (\<lambda>v. \<mu> (nat (v - 1))) l = mlit_true \<mu> (mlit_of l)"
  by (auto simp: mlit_true_def mlit_of_def ilit_true_def ms_lit_def)

lemma mlit_of_negate: "l \<noteq> 0 \<Longrightarrow> mlit_of (lit_negate l) = mneg (mlit_of l)"
  by (auto simp: mlit_of_def lit_negate_def mneg_def)

lemma ilit_true_negate: "l \<noteq> 0 \<Longrightarrow> ilit_true \<tau> (lit_negate l) = (\<not> ilit_true \<tau> l)"
  by (auto simp: ilit_true_def lit_negate_def)

lemma hist_wf_inv: "ms_inv ms \<Longrightarrow> hist_wf (ms_hist ms)"
  using toMinisat_ok(2) by (auto simp: hist_wf_def ms_inv_def)

lemma mcnf_inv:
  assumes "ms_inv ms"
  shows "mcnf_sat (\<lambda>n. \<tau> (int n + 1)) (hist_clauses (ms_hist ms)) = icnf_sat \<tau> (ms_clauses ms)"
    "icnf_sat (\<lambda>v. \<mu> (nat (v - 1))) (ms_clauses ms) = mcnf_sat \<mu> (hist_clauses (ms_hist ms))"
proof -
  have c: "hist_clauses (ms_hist ms) = map (map mlit_of) (ms_clauses ms)"
    and l: "\<forall>c\<in>set (ms_clauses ms). \<forall>l\<in>set c. ms_lit ms l"
    using assms by (auto simp: ms_inv_def)
  show "mcnf_sat (\<lambda>n. \<tau> (int n + 1)) (hist_clauses (ms_hist ms)) = icnf_sat \<tau> (ms_clauses ms)"
    unfolding c mcnf_sat_def icnf_sat_def mclause_sat_def using l mlit_true_of[of ms _ \<tau>] by simp
  show "icnf_sat (\<lambda>v. \<mu> (nat (v - 1))) (ms_clauses ms) = mcnf_sat \<mu> (hist_clauses (ms_hist ms))"
    unfolding c mcnf_sat_def icnf_sat_def mclause_sat_def using l mlit_true_of'[of ms _ \<mu>] by simp
qed

lemma ms_newVariable_wp:
  assumes "ms_inv ms"
  shows "wp ms_newVariable (\<lambda>v ms'. v = ms_nextVar ms \<and> ms_nextVar ms' = v + 1 \<and> ms_inv ms'
    \<and> ms_clauses ms' = ms_clauses ms \<and> ms_lastResult ms' = ms_lastResult ms \<and> ms_model ms' = ms_model ms
    \<and> hist_frozen (ms_hist ms') = hist_frozen (ms_hist ms)) ms"
  using assms
  by (auto simp: ms_newVariable_def ms_createSolverVariable_def ms_getNextVar_def ms_log_def ms_inv_def ms_lit_def
      fun_eq_iff intro: less_imp_le)

lemma mapR_toMinisat:
  "ms_inv ms \<Longrightarrow> \<forall>l\<in>set c. ms_lit ms l \<Longrightarrow> mapR (toMinisat ms) c = Inr (map mlit_of c)"
  by (rule mapR_total) (simp add: toMinisat_ok)

lemma ms_addClause_wp:
  assumes "ms_inv ms" "\<forall>l\<in>set c. ms_lit ms l"
  shows "wp (ms_addClause c) (\<lambda>_ ms'. ms_inv ms' \<and> ms_clauses ms' = ms_clauses ms @ [c]
    \<and> ms_nextVar ms' = ms_nextVar ms \<and> ms_lastResult ms' = ms_lastResult ms \<and> ms_model ms' = ms_model ms
    \<and> hist_frozen (ms_hist ms') = hist_frozen (ms_hist ms)) ms"
proof -
  let ?ms = "ms\<lparr>ms_clauses := ms_clauses ms @ [c]\<rparr>"
  have "toMinisat ?ms = toMinisat ms" by (rule ext) (simp add: toMinisat_def)
  then show ?thesis
    using assms mapR_toMinisat[OF assms]
    by (auto simp: ms_addClause_def ms_sendClauseToSolver_def ms_log_def ms_inv_def ms_lit_def)
qed

lemma mapR_fromMinisat:
  "ms_inv ms \<Longrightarrow> \<forall>m\<in>set c. mvar m < hist_nvars (ms_hist ms)
    \<Longrightarrow> \<exists>d. mapR (fromMinisat ms) c = Inr d \<and> map mlit_of d = c \<and> (\<forall>l\<in>set d. ms_lit ms l)"
proof (induction c)
  case (Cons m c)
  then show ?case using fromMinisat_ok[of ms m] by force
qed simp


lemma ms_getAssignment_ok:
  assumes "ms_inv ms" "ms_isSAT ms" "ms_lit ms l" "nat \<bar>l\<bar> \<le> length (ms_model ms)" "MV_UNDEF \<notin> set (ms_model ms)"
  shows "ms_getAssignment ms l =
    Inr (if ilit_true (\<lambda>v. model_asg (ms_model ms) (nat (v - 1))) l then MV_TRUE else MV_FALSE)"
proof -
  let ?n = "nat (\<bar>l\<bar> - 1)"
  have n: "?n < length (ms_model ms)" using assms(3,4) by (auto simp: ms_lit_def)
  then have m: "ms_model ms ! ?n = MV_TRUE \<or> ms_model ms ! ?n = MV_FALSE"
    using assms(5) by (metis modelValue.exhaust nth_mem)
  show ?thesis
    using m n assms(2) toMinisat_ok(1)[OF assms(1,3)] mlit_true_of'[OF assms(3), of "model_asg (ms_model ms)"]
    by (auto simp: ms_getAssignment_def mlit_true_def mlit_of_def model_asg_def)
qed

context sat_backend
begin

text \<open>A call of the wrapper answers by satisfiability; on \<open>true\<close> the model is one of the clauses and
  assumptions, on \<open>false\<close> the critical literals are assumptions that already clash.\<close>

lemma ms_solve_wp:
  assumes inv: "ms_inv ms" and as: "\<forall>l\<in>set as. ms_lit ms l"
  shows "wp (ms_solve B as) (\<lambda>(result, crits) ms'. ms_inv ms' \<and> ms_clauses ms' = ms_clauses ms
    \<and> ms_nextVar ms' = ms_nextVar ms \<and> ms_isSAT ms' = result
    \<and> hist_frozen (ms_hist ms') = hist_frozen (ms_hist ms)
    \<and> (result \<longrightarrow> (\<exists>\<tau>. icnf_sat \<tau> (ms_clauses ms) \<and> icube_sat \<tau> as
         \<and> (\<forall>l. ms_lit ms l \<longrightarrow> ms_getAssignment ms' l = Inr (if ilit_true \<tau> l then MV_TRUE else MV_FALSE))))
    \<and> (\<not> result \<longrightarrow> set crits \<subseteq> set as \<and> distinct crits \<and> (\<forall>\<tau>. icnf_sat \<tau> (ms_clauses ms) \<longrightarrow> \<not> icube_sat \<tau> crits))) ms"
proof -
  let ?h = "ms_hist ms" and ?as = "map mlit_of as"
  let ?r = "be_solve B ?h ?as"
  have h: "Eliminate \<notin> set ?h" "hist_wf ?h" "\<forall>l\<in>set ?as. mvar l < hist_nvars ?h"
    using inv hist_wf_inv[OF inv] as toMinisat_ok(2)[OF inv] by (auto simp: ms_inv_def)
  obtain trail where trail: "mapR (fromMinisat ms) (mr_trail ?r) = Inr trail"
    using mapR_fromMinisat[OF inv solve_trail[OF h(1,2)]] by blast
  have mvec: "mapR (toMinisat ms) as = Inr ?as" by (rule mapR_toMinisat[OF inv as])
  show ?thesis
  proof (cases "mr_sat ?r")
    case True
    note m = solve_sat[OF h True]
    let ?ms = "ms\<lparr>ms_hist := ?h @ [Solve ?as], ms_model := mr_model ?r, ms_trail := trail, ms_lastResult := SR_SAT\<rparr>"
    let ?t = "\<lambda>v. model_asg (mr_model ?r) (nat (v - 1))"
    have inv': "ms_inv ?ms" using inv by (auto simp: ms_inv_def ms_lit_def)
    have nv: "ms_nextVar ms = 1 + int (hist_nvars ?h)" using inv by (simp add: ms_inv_def)
    have "ms_getAssignment ?ms l = Inr (if ilit_true ?t l then MV_TRUE else MV_FALSE)" if "ms_lit ms l" for l
      using ms_getAssignment_ok[OF inv', of l] m that nv by (auto simp: ms_isSAT_def ms_lit_def)
    moreover have "icnf_sat ?t (ms_clauses ms)" using m mcnf_inv(2)[OF inv] by simp
    moreover have "icube_sat ?t as"
      using m as mlit_true_of'[of ms _ "model_asg (mr_model ?r)"] by (auto simp: icube_sat_def mcube_sat_def)
    ultimately have "\<exists>\<tau>. icnf_sat \<tau> (ms_clauses ms) \<and> icube_sat \<tau> as
         \<and> (\<forall>l. ms_lit ms l \<longrightarrow> ms_getAssignment ?ms l = Inr (if ilit_true \<tau> l then MV_TRUE else MV_FALSE))" by blast
    then show ?thesis
      using True inv' by (simp add: ms_solve_def ms_doSolve_def Let_def mvec trail ms_log_def ms_isSAT_def)
  next
    case False
    note m = solve_unsat[OF h False]
    have cv: "\<forall>k\<in>set (mr_conflict ?r). mvar k < hist_nvars ?h" using m h(3) by auto
    obtain confl where confl: "mapR (fromMinisat ms) (mr_conflict ?r) = Inr confl"
        "map mlit_of confl = mr_conflict ?r" "\<forall>l\<in>set confl. ms_lit ms l"
      using mapR_fromMinisat[OF inv cv] by blast
    let ?crits = "filter (\<lambda>l. l \<in> set as) (map lit_negate confl)"
    have all: "lit_negate l \<in> set as" if "l \<in> set confl" for l
    proof -
      have "mlit_of l \<in> mneg ` mlit_of ` set as" using m that confl(2) by (metis image_eqI image_set list.set_map subsetD)
      then obtain k where k: "k \<in> set as" "mlit_of l = mneg (mlit_of k)" by auto
      then have "mlit_of (lit_negate l) = mlit_of k" using mlit_of_negate confl(3) that by (auto simp: ms_lit_def)
      moreover have "ms_lit ms (lit_negate l)" using confl(3) that by (auto simp: ms_lit_def lit_negate_def)
      ultimately show ?thesis using mlit_of_inj as k(1) by metis
    qed
    have dist: "distinct ?crits"
    proof -
      have "distinct confl" using m confl(2) by (metis distinct_map)
      moreover have "inj lit_negate" by (rule inj_on_inverseI[of _ lit_negate]) simp
      ultimately show ?thesis by (simp add: distinct_map inj_on_def)
    qed
    have core: "\<not> icube_sat \<tau> ?crits" if "icnf_sat \<tau> (ms_clauses ms)" for \<tau>
    proof -
      have "mclause_sat (\<lambda>n. \<tau> (int n + 1)) (mr_conflict ?r)" using m that mcnf_inv(1)[OF inv] by blast
      then obtain l where l: "l \<in> set confl" "mlit_true (\<lambda>n. \<tau> (int n + 1)) (mlit_of l)"
        unfolding mclause_sat_def confl(2)[symmetric] by auto
      then have "ilit_true \<tau> l" using mlit_true_of confl(3) by blast
      then have "\<not> ilit_true \<tau> (lit_negate l)" using ilit_true_negate confl(3) l(1) by (auto simp: ms_lit_def)
      then show ?thesis using l(1) all by (force simp: icube_sat_def)
    qed
    have inv': "ms_inv (ms\<lparr>ms_hist := ?h @ [Solve ?as], ms_model := [], ms_trail := trail, ms_lastResult := SR_UNSAT\<rparr>)"
      using inv by (auto simp: ms_inv_def ms_lit_def)
    show ?thesis
      using False inv' core dist by (simp add: ms_solve_def ms_doSolve_def Let_def mvec trail confl(1) ms_log_def ms_isSAT_def)
        auto
  qed
qed

text \<open>Variable elimination keeps the models over the frozen variables and only mentions variables
  of the wrapper.\<close>

lemma ms_eliminate_wp:
  assumes inv: "ms_inv ms" and sat: "icnf_sat \<tau>0 (ms_clauses ms)"
  shows "wp (ms_eliminate B) (\<lambda>_ ms'. (\<forall>c\<in>set (ms_clauses ms'). \<forall>l\<in>set c. ms_lit ms l)
    \<and> (\<forall>l\<in>set (ms_trail ms'). ms_lit ms l)
    \<and> (\<forall>\<tau>. icnf_sat \<tau> (ms_clauses ms) \<longrightarrow> icnf_sat \<tau> (ms_clauses ms') \<and> icube_sat \<tau> (ms_trail ms'))
    \<and> (\<forall>\<sigma>. (\<exists>\<tau>. (\<forall>v\<in>set (hist_frozen (ms_hist ms)). \<tau> (int v + 1) = \<sigma> (int v + 1)) \<and> icnf_sat \<tau> (ms_clauses ms))
       \<longleftrightarrow> (\<exists>\<tau>. (\<forall>v\<in>set (hist_frozen (ms_hist ms)). \<tau> (int v + 1) = \<sigma> (int v + 1)) \<and> icnf_sat \<tau> (ms_clauses ms')
             \<and> icube_sat \<tau> (ms_trail ms')))) ms"
proof -
  let ?h = "ms_hist ms" and ?r = "be_eliminate B (ms_hist ms)"
  have h: "Eliminate \<notin> set ?h" "hist_wf ?h"
    using inv hist_wf_inv[OF inv] by (auto simp: ms_inv_def)
  have ok: "me_ok ?r" using elim_ok[OF h] sat mcnf_inv(1)[OF inv] by blast
  obtain trail where trail: "mapR (fromMinisat ms) (me_trail ?r) = Inr trail" "map mlit_of trail = me_trail ?r"
      "\<forall>l\<in>set trail. ms_lit ms l"
    using mapR_fromMinisat[OF inv] elim_vars[OF h] by blast
  have "\<forall>c\<in>set C. \<forall>l\<in>set c. mvar l < hist_nvars ?h \<Longrightarrow> \<exists>D. mapR (mapR (fromMinisat ms)) C = Inr D
      \<and> map (map mlit_of) D = C \<and> (\<forall>c\<in>set D. \<forall>l\<in>set c. ms_lit ms l)" for C
  proof (induction C)
    case (Cons c C)
    then show ?case using mapR_fromMinisat[OF inv, of c] by force
  qed simp
  then obtain cls where cls: "mapR (mapR (fromMinisat ms)) (me_clauses ?r) = Inr cls"
      "map (map mlit_of) cls = me_clauses ?r" "\<forall>c\<in>set cls. \<forall>l\<in>set c. ms_lit ms l"
    using elim_vars[OF h] by blast
  have to_c: "mcnf_sat (\<lambda>n. \<tau> (int n + 1)) (me_clauses ?r) = icnf_sat \<tau> cls"
    "mcube_sat (\<lambda>n. \<tau> (int n + 1)) (me_trail ?r) = icube_sat \<tau> trail" for \<tau>
    using cls(3) trail(3) mlit_true_of[of ms _ \<tau>] unfolding cls(2)[symmetric] trail(2)[symmetric]
    by (simp_all add: mcnf_sat_def mclause_sat_def icnf_sat_def mcube_sat_def icube_sat_def)
  have lift: "(\<exists>\<tau>. (\<forall>v\<in>F. \<tau> (int v + 1) = \<sigma> (int v + 1)) \<and> Q \<tau>) = (\<exists>\<nu>. (\<forall>v\<in>F. \<nu> v = \<sigma> (int v + 1)) \<and> P \<nu>)"
    if Q: "\<And>\<tau>. P (\<lambda>n. \<tau> (int n + 1)) = Q \<tau>" for F \<sigma> P Q
  proof
    assume "\<exists>\<nu>. (\<forall>v\<in>F. \<nu> v = \<sigma> (int v + 1)) \<and> P \<nu>"
    then obtain \<nu> where n: "\<forall>v\<in>F. \<nu> v = \<sigma> (int v + 1)" "P \<nu>" by blast
    then show "\<exists>\<tau>. (\<forall>v\<in>F. \<tau> (int v + 1) = \<sigma> (int v + 1)) \<and> Q \<tau>"
      by (intro exI[of _ "\<lambda>v. \<nu> (nat (v - 1))"]) (simp add: Q[symmetric])
  next
    assume "\<exists>\<tau>. (\<forall>v\<in>F. \<tau> (int v + 1) = \<sigma> (int v + 1)) \<and> Q \<tau>"
    then obtain \<tau> where "\<forall>v\<in>F. \<tau> (int v + 1) = \<sigma> (int v + 1)" "Q \<tau>" by blast
    then show "\<exists>\<nu>. (\<forall>v\<in>F. \<nu> v = \<sigma> (int v + 1)) \<and> P \<nu>"
      using Q[of \<tau>] by (intro exI[of _ "\<lambda>n. \<tau> (int n + 1)"]) simp
  qed
  have Q2: "(mcnf_sat (\<lambda>n. \<tau> (int n + 1)) (me_clauses ?r) \<and> mcube_sat (\<lambda>n. \<tau> (int n + 1)) (me_trail ?r))
      = (icnf_sat \<tau> cls \<and> icube_sat \<tau> trail)" for \<tau>
    using to_c[of \<tau>] by blast
  have "(\<exists>\<tau>. (\<forall>v\<in>set (hist_frozen ?h). \<tau> (int v + 1) = \<sigma> (int v + 1)) \<and> icnf_sat \<tau> (ms_clauses ms))
       \<longleftrightarrow> (\<exists>\<tau>. (\<forall>v\<in>set (hist_frozen ?h). \<tau> (int v + 1) = \<sigma> (int v + 1)) \<and> icnf_sat \<tau> cls \<and> icube_sat \<tau> trail)" for \<sigma>
    by (rule trans[OF lift[of "\<lambda>\<nu>. mcnf_sat \<nu> (hist_clauses ?h)", OF mcnf_inv(1)[OF inv]]
          trans[OF elim_models[OF h ok, of "\<lambda>n. \<sigma> (int n + 1)"]
            lift[of "\<lambda>\<nu>. mcnf_sat \<nu> (me_clauses ?r) \<and> mcube_sat \<nu> (me_trail ?r)", OF Q2, symmetric]]])
  moreover have "icnf_sat \<tau> cls \<and> icube_sat \<tau> trail" if "icnf_sat \<tau> (ms_clauses ms)" for \<tau>
    using elim_sound[OF h, of "\<lambda>n. \<tau> (int n + 1)"] that Q2[of \<tau>] mcnf_inv(1)[OF inv, of \<tau>] by blast
  ultimately show ?thesis
    using ok cls(3) trail(3) by (simp add: ms_eliminate_def Let_def cls(1) trail(1) ms_log_def)
qed

end


subsection \<open>A reference solver\<close>

text \<open>Exhaustive search over the assignments of the created variables.  It satisfies the contract, so
  theorems that assume \<open>sat_backend\<close> are about an existing kind of solver.\<close>

definition ref_find :: "mop list \<Rightarrow> mlit list \<Rightarrow> modelValue list option" where
  "ref_find h as = List.find (\<lambda>m. (\<forall>c\<in>set (hist_clauses h). \<exists>l\<in>set c. mlit_true (model_asg m) l)
      \<and> (\<forall>l\<in>set as. mlit_true (model_asg m) l)) (List.n_lists (hist_nvars h) [MV_TRUE, MV_FALSE])"

definition ref_solve :: "mop list \<Rightarrow> mlit list \<Rightarrow> mb_result" where
  "ref_solve h as = (case ref_find h as of
     Some m \<Rightarrow> \<lparr>mr_sat = True, mr_model = m, mr_conflict = [], mr_trail = []\<rparr>
   | None \<Rightarrow> \<lparr>mr_sat = False, mr_model = [], mr_conflict = remdups (map mneg as), mr_trail = []\<rparr>)"

definition ref_eliminate :: "mop list \<Rightarrow> mb_simplified" where
  "ref_eliminate h = \<lparr>me_ok = (ref_find h [] \<noteq> None), me_clauses = hist_clauses h, me_trail = []\<rparr>"

definition ref_backend :: backend where
  "ref_backend = \<lparr>be_solve = ref_solve, be_eliminate = ref_eliminate\<rparr>"

lemma find_Some_D: "List.find P xs = Some x \<Longrightarrow> x \<in> set xs \<and> P x"
  by (auto simp: find_Some_iff)

lemma ref_find_Some:
  assumes "ref_find h as = Some m"
  shows "length m = hist_nvars h" "MV_UNDEF \<notin> set m" "mcnf_sat (model_asg m) (hist_clauses h)"
    "mcube_sat (model_asg m) as"
  using find_Some_D[OF assms[unfolded ref_find_def]]
  by (auto simp: set_n_lists mcnf_sat_def mclause_sat_def mcube_sat_def)

lemma ref_find_None:
  assumes "ref_find h as = None" "hist_wf h" "\<forall>l\<in>set as. mvar l < hist_nvars h" "mcnf_sat \<mu> (hist_clauses h)"
  shows "\<not> mcube_sat \<mu> as"
proof
  assume a: "mcube_sat \<mu> as"
  define m where "m = map (\<lambda>v. if \<mu> v then MV_TRUE else MV_FALSE) [0..<hist_nvars h]"
  have t: "mlit_true (model_asg m) l = mlit_true \<mu> l" if "mvar l < hist_nvars h" for l
    using that by (auto simp: mlit_true_def model_asg_def m_def)
  have m: "m \<in> set (List.n_lists (hist_nvars h) [MV_TRUE, MV_FALSE])" by (auto simp: set_n_lists m_def)
  have "mcube_sat (model_asg m) as" using a assms(3) t by (auto simp: mcube_sat_def)
  moreover have "mcnf_sat (model_asg m) (hist_clauses h)"
    using assms(2,4) t by (auto simp: mcnf_sat_def mclause_sat_def hist_wf_def)
  ultimately show False
    using assms(1) m unfolding ref_find_def find_None_iff mcnf_sat_def mclause_sat_def mcube_sat_def by blast
qed

interpretation ref: sat_backend ref_backend
proof unfold_locales
  fix h as
  assume h: "Eliminate \<notin> set h" "hist_wf h"
  have sv: "be_solve ref_backend h as = ref_solve h as" "be_eliminate ref_backend h = ref_eliminate h" for as
    by (simp_all add: ref_backend_def)
  show "\<forall>l\<in>set (mr_trail (be_solve ref_backend h as)). mvar l < hist_nvars h"
    by (simp add: sv ref_solve_def split: option.splits)
  show "me_ok (be_eliminate ref_backend h)" if "mcnf_sat \<mu> (hist_clauses h)" for \<mu>
    using ref_find_None[of h "[]", OF _ h(2) _ that] by (auto simp: sv ref_eliminate_def mcube_sat_def)
  show "(\<forall>c\<in>set (me_clauses (be_eliminate ref_backend h)). \<forall>l\<in>set c. mvar l < hist_nvars h)
        \<and> (\<forall>l\<in>set (me_trail (be_eliminate ref_backend h)). mvar l < hist_nvars h)"
    using h(2) by (simp add: sv ref_eliminate_def hist_wf_def)
  show "(\<exists>\<nu>. (\<forall>v\<in>set (hist_frozen h). \<nu> v = \<mu> v) \<and> mcnf_sat \<nu> (hist_clauses h))
        \<longleftrightarrow> (\<exists>\<nu>. (\<forall>v\<in>set (hist_frozen h). \<nu> v = \<mu> v) \<and> mcnf_sat \<nu> (me_clauses (be_eliminate ref_backend h))
               \<and> mcube_sat \<nu> (me_trail (be_eliminate ref_backend h)))" for \<mu>
    by (simp add: sv ref_eliminate_def mcube_sat_def)
  show "mcnf_sat \<mu> (me_clauses (be_eliminate ref_backend h)) \<and> mcube_sat \<mu> (me_trail (be_eliminate ref_backend h))"
    if "mcnf_sat \<mu> (hist_clauses h)" for \<mu>
    using that by (simp add: sv ref_eliminate_def mcube_sat_def)
  assume as: "\<forall>l\<in>set as. mvar l < hist_nvars h"
  show "length (mr_model (be_solve ref_backend h as)) = hist_nvars h
        \<and> MV_UNDEF \<notin> set (mr_model (be_solve ref_backend h as))
        \<and> mcnf_sat (model_asg (mr_model (be_solve ref_backend h as))) (hist_clauses h)
        \<and> mcube_sat (model_asg (mr_model (be_solve ref_backend h as))) as"
    if "mr_sat (be_solve ref_backend h as)"
    using that ref_find_Some[of h as] by (auto simp: sv ref_solve_def split: option.splits)
  show "set (mr_conflict (be_solve ref_backend h as)) \<subseteq> mneg ` set as \<and> distinct (mr_conflict (be_solve ref_backend h as))
        \<and> (\<forall>\<mu>. mcnf_sat \<mu> (hist_clauses h) \<longrightarrow> mclause_sat \<mu> (mr_conflict (be_solve ref_backend h as)))"
    if "\<not> mr_sat (be_solve ref_backend h as)"
    using that ref_find_None[of h as, OF _ h(2) as]
    by (auto simp: sv ref_solve_def mcube_sat_def mclause_sat_def split: option.splits)
qed

end
