(* ===== verification/SatAdaptor.thy ===== *)
theory SatAdaptor
  imports Ids SatSolver
begin

text \<open>
  \<open>src/src/pme/engine/sat_adaptor.{h,cpp}\<close>: the adaptor between internal IDs and the SAT wrapper,
  with clause groups, and its subclass that drops repeated clauses.  The statistics counters and
  timers of \<open>GlobalState\<close> are left out.  \<open>ad_sat A \<sigma> \<gamma>\<close> is the meaning of an adaptor's clauses for
  an assignment \<open>\<sigma>\<close> of the IDs and \<open>\<gamma>\<close> of the group variables.
\<close>

datatype satBackend = MINISAT | MINISATSIMP | GLUCOSE

definition GROUP_NULL :: int where "GROUP_NULL = 0"

record adaptor =
  ad_kind :: satBackend
  ad_groups :: "int set"
  ad_solver :: msolver
  ad_IDToSAT :: "id \<rightharpoonup> int"
  ad_SATToID :: "int \<rightharpoonup> id"

definition onSolver :: "(msolver, 'a) sm \<Rightarrow> (adaptor, 'a) sm" where
  "onSolver m A = (case m (ad_solver A) of Inl e \<Rightarrow> Inl e | Inr p \<Rightarrow> Inr (fst p, A\<lparr>ad_solver := snd p\<rparr>))"

lemma wp_onSolver: "wp (onSolver m) Q = (\<lambda>A. wp m (\<lambda>x s. Q x (A\<lparr>ad_solver := s\<rparr>)) (ad_solver A))"
  by (rule ext) (auto simp: wp_def onSolver_def split: sum.splits)

definition ad_introduceVariable :: "id \<Rightarrow> (adaptor, unit) sm" where
  "ad_introduceVariable i = bindS getS (\<lambda>A. let stripped = strip i in
     case ad_IDToSAT A stripped of
       None \<Rightarrow>
         bindS (onSolver ms_newVariable) (\<lambda>satvar.
         thenS (modifyS (\<lambda>A. A\<lparr>ad_IDToSAT := (ad_IDToSAT A)(stripped \<mapsto> satvar)\<rparr>))
         (bindS getS (\<lambda>A. thenS (assertS (ad_SATToID A satvar = None))
           (modifyS (\<lambda>A. A\<lparr>ad_SATToID := (ad_SATToID A)(satvar \<mapsto> stripped)\<rparr>)))))
     | Some _ \<Rightarrow> retS ())"

definition ad_SATVarOf :: "adaptor \<Rightarrow> id \<Rightarrow> int res" where
  "ad_SATVarOf A i = (case ad_IDToSAT A i of None \<Rightarrow> Inl OutOfRange | Some v \<Rightarrow> Inr v)"

definition ad_IDOf :: "adaptor \<Rightarrow> int \<Rightarrow> id res" where
  "ad_IDOf A v = (case ad_SATToID A v of None \<Rightarrow> Inl OutOfRange | Some i \<Rightarrow> Inr i)"

definition ad_hasSAT :: "adaptor \<Rightarrow> id \<Rightarrow> bool" where
  "ad_hasSAT A i = (ad_IDToSAT A (strip i) \<noteq> None)"

definition ad_toSAT :: "adaptor \<Rightarrow> id \<Rightarrow> int res" where
  "ad_toSAT A i = bindR (ad_SATVarOf A (strip i)) (\<lambda>v. Inr (if is_negated i then lit_negate v else v))"

fun ad_toSATvec :: "id list \<Rightarrow> (adaptor, int list) sm" where
  "ad_toSATvec [] = retS []"
| "ad_toSATvec (i # idvec) = thenS (ad_introduceVariable i) (bindS getS (\<lambda>A.
     bindS (liftS (ad_toSAT A i)) (\<lambda>l. bindS (ad_toSATvec idvec) (\<lambda>ls. retS (l # ls)))))"

definition ad_fromSAT :: "adaptor \<Rightarrow> int \<Rightarrow> id res" where
  "ad_fromSAT A l = bindR (ad_IDOf A (lit_strip l)) (\<lambda>i. Inr (if lit_is_negated l then negate i else i))"

definition ad_addClause :: "clause \<Rightarrow> (adaptor, unit) sm" where
  "ad_addClause cls = thenS (assertS (cls \<noteq> []))
     (bindS (ad_toSATvec cls) (\<lambda>satcls. onSolver (ms_addClause satcls)))"

definition ad_addClauses :: "clauseVec \<Rightarrow> (adaptor, unit) sm" where
  "ad_addClauses vec = iterS ad_addClause vec"

definition ad_createGroup :: "(adaptor, int) sm" where
  "ad_createGroup = bindS (onSolver ms_newVariable) (\<lambda>gid.
     thenS (modifyS (\<lambda>A. A\<lparr>ad_groups := insert gid (ad_groups A)\<rparr>)) (retS gid))"

definition ad_addGroupClause :: "int \<Rightarrow> clause \<Rightarrow> (adaptor, unit) sm" where
  "ad_addGroupClause gid cls = thenS (assertS (cls \<noteq> []))
     (bindS (ad_toSATvec cls) (\<lambda>satcls. onSolver (ms_addClause (satcls @ [lit_negate gid]))))"

text \<open>The loop over \<open>satcrits\<close>: group variables are skipped, the others are assumptions.\<close>

fun ad_crits :: "adaptor \<Rightarrow> cube \<Rightarrow> int list \<Rightarrow> cube res" where
  "ad_crits A assumps [] = Inr []"
| "ad_crits A assumps (l # ls) =
    (if l \<in> ad_groups A then ad_crits A assumps ls
     else bindR (ad_fromSAT A l) (\<lambda>lit. assertR (lit \<in> set assumps)
            (bindR (ad_crits A assumps ls) (\<lambda>c. Inr (lit # c)))))"

definition ad_groupSolve :: "backend \<Rightarrow> int \<Rightarrow> cube \<Rightarrow> (adaptor, bool \<times> cube) sm" where
  "ad_groupSolve B gid assumps =
     bindS (ad_toSATvec assumps) (\<lambda>satassumps. bindS getS (\<lambda>A.
     thenS (assertS (gid \<noteq> GROUP_NULL \<longrightarrow> gid \<in> ad_groups A))
     (bindS (onSolver (ms_solve B (satassumps @ (if gid \<noteq> GROUP_NULL then [gid] else [])))) (\<lambda>(sat, satcrits).
      bindS getS (\<lambda>A.
      if \<not> sat then bindS (liftS (ad_crits A assumps satcrits)) (\<lambda>crits. retS (sat, crits))
      else retS (sat, []))))))"

definition ad_solve :: "backend \<Rightarrow> cube \<Rightarrow> (adaptor, bool \<times> cube) sm" where
  "ad_solve B assumps = ad_groupSolve B GROUP_NULL assumps"

definition ad_isSAT :: "adaptor \<Rightarrow> bool" where
  "ad_isSAT A = ms_isSAT (ad_solver A)"

definition ad_safeGetAssignment :: "adaptor \<Rightarrow> id \<Rightarrow> modelValue res" where
  "ad_safeGetAssignment A lit = assertR (ad_isSAT A)
     (if \<not> ad_hasSAT A lit then Inr MV_UNDEF
      else bindR (ad_toSAT A lit) (\<lambda>satlit. ms_getAssignment (ad_solver A) satlit))"

definition ad_safeGetAssignmentToVar :: "adaptor \<Rightarrow> id \<Rightarrow> modelValue res" where
  "ad_safeGetAssignmentToVar A v = assertR (\<not> is_negated v) (ad_safeGetAssignment A v)"

definition ad_getAssignment :: "adaptor \<Rightarrow> id \<Rightarrow> modelValue res" where
  "ad_getAssignment A lit = bindR (ad_safeGetAssignment A lit) (\<lambda>asgn. assertR (asgn \<noteq> MV_UNDEF) (Inr asgn))"

definition ad_getAssignmentToVar :: "adaptor \<Rightarrow> id \<Rightarrow> modelValue res" where
  "ad_getAssignmentToVar A v = assertR (\<not> is_negated v) (ad_getAssignment A v)"

text \<open>\<open>freeze\<close> and \<open>eliminate\<close> of the two plain solvers do nothing.\<close>

definition ad_freeze :: "id \<Rightarrow> (adaptor, unit) sm" where
  "ad_freeze i = thenS (ad_introduceVariable i) (bindS getS (\<lambda>A.
     bindS (liftS (ad_toSAT A i)) (\<lambda>l. if ad_kind A = MINISATSIMP then onSolver (ms_freeze l) else retS ())))"

definition ad_freezeVec :: "id list \<Rightarrow> bool \<Rightarrow> (adaptor, unit) sm" where
  "ad_freezeVec ids primes =
     iterS (\<lambda>i. thenS (ad_freeze i) (if primes then ad_freeze (prime1 i) else retS ())) ids"

definition ad_simplify :: "backend \<Rightarrow> (adaptor, clauseVec) sm" where
  "ad_simplify B = bindS getS (\<lambda>A.
     thenS (if ad_kind A = MINISATSIMP then onSolver (ms_eliminate B) else retS ())
     (bindS getS (\<lambda>A.
      bindS (liftS (mapR (mapR (ad_fromSAT A)) (ms_clauses (ad_solver A)))) (\<lambda>simplified.
      bindS (liftS (mapR (ad_fromSAT A) (ms_trail (ad_solver A)))) (\<lambda>units.
        retS (simplified @ map (\<lambda>l. [l]) units))))))"

definition ad_blank :: "satBackend \<Rightarrow> adaptor" where
  "ad_blank k = \<lparr>ad_kind = k, ad_groups = {}, ad_solver = ms_new, ad_IDToSAT = Map.empty, ad_SATToID = Map.empty\<rparr>"

definition ad_reset :: "(adaptor, unit) sm" where
  "ad_reset = thenS (modifyS (\<lambda>A. ad_blank (ad_kind A)))
     (thenS (ad_introduceVariable ID_TRUE) (ad_addClause [ID_TRUE]))"

text \<open>The constructor.\<close>

definition ad_new :: "satBackend \<Rightarrow> adaptor res" where
  "ad_new k = bindR (ad_reset (ad_blank k)) (\<lambda>p. Inr (snd p))"

text \<open>\<open>ClauseDeduplicatingSATAdaptor\<close>.\<close>

record dedupAdaptor =
  dd_base :: adaptor
  dd_clauses :: "clause set"

definition dd_addClause :: "clause \<Rightarrow> (dedupAdaptor, unit) sm" where
  "dd_addClause cls D = (let copy = sort cls in
     if copy \<notin> dd_clauses D then
       (case ad_addClause copy (dd_base D) of Inl e \<Rightarrow> Inl e
        | Inr p \<Rightarrow> Inr ((), \<lparr>dd_base = snd p, dd_clauses = insert copy (dd_clauses D)\<rparr>))
     else Inr ((), D))"

text \<open>\<open>reset\<close> of the base class calls the virtual \<open>addClause\<close>, so the clause of \<open>ID_TRUE\<close> is recorded
  as well.\<close>

definition dd_reset :: "(dedupAdaptor, unit) sm" where
  "dd_reset D = (case ad_introduceVariable ID_TRUE (ad_blank (ad_kind (dd_base D))) of Inl e \<Rightarrow> Inl e
     | Inr p \<Rightarrow> dd_addClause [ID_TRUE] \<lparr>dd_base = snd p, dd_clauses = {}\<rparr>)"

subsection \<open>Meaning and invariant\<close>

definition ad_asg :: "adaptor \<Rightarrow> assignment \<Rightarrow> (int \<Rightarrow> bool) \<Rightarrow> int \<Rightarrow> bool" where
  "ad_asg A \<sigma> \<gamma> v = (case ad_SATToID A v of Some i \<Rightarrow> \<sigma> i | None \<Rightarrow> \<gamma> v)"

definition ad_sat :: "adaptor \<Rightarrow> assignment \<Rightarrow> (int \<Rightarrow> bool) \<Rightarrow> bool" where
  "ad_sat A \<sigma> \<gamma> = icnf_sat (ad_asg A \<sigma> \<gamma>) (ms_clauses (ad_solver A))"

definition ad_mod :: "adaptor \<Rightarrow> assignment \<Rightarrow> bool" where
  "ad_mod A \<sigma> = (\<exists>\<gamma>. ad_sat A \<sigma> \<gamma>)"

definition ad_frozen :: "adaptor \<Rightarrow> id set" where
  "ad_frozen A = {i. \<exists>v\<in>set (hist_frozen (ms_hist (ad_solver A))). ad_SATToID A (int v + 1) = Some i}"

definition ad_inv :: "adaptor \<Rightarrow> bool" where
  "ad_inv A = (ms_inv (ad_solver A)
     \<and> (\<forall>i v. ad_IDToSAT A i = Some v \<longleftrightarrow> ad_SATToID A v = Some i)
     \<and> (\<forall>i v. ad_IDToSAT A i = Some v \<longrightarrow> strip i = i \<and> 1 \<le> v \<and> v < ms_nextVar (ad_solver A) \<and> v \<notin> ad_groups A)
     \<and> (\<forall>g\<in>ad_groups A. 1 \<le> g \<and> g < ms_nextVar (ad_solver A))
     \<and> (\<forall>v. 1 \<le> v \<and> v < ms_nextVar (ad_solver A) \<and> v \<notin> ad_groups A \<longrightarrow> ad_SATToID A v \<noteq> None)
     \<and> (\<forall>v\<in>set (hist_frozen (ms_hist (ad_solver A))). v < hist_nvars (ms_hist (ad_solver A))))"

text \<open>One step of an adaptor: the variables \<open>S\<close> become known, the clauses gain the conjunct \<open>P\<close>.\<close>

definition ad_step :: "adaptor \<Rightarrow> id set \<Rightarrow> (assignment \<Rightarrow> (int \<Rightarrow> bool) \<Rightarrow> bool) \<Rightarrow> adaptor \<Rightarrow> bool" where
  "ad_step A S P A' = (ad_inv A' \<and> ad_kind A' = ad_kind A \<and> ad_groups A \<subseteq> ad_groups A'
     \<and> (\<forall>i v. ad_IDToSAT A i = Some v \<longrightarrow> ad_IDToSAT A' i = Some v)
     \<and> (\<forall>v. ad_hasSAT A' v \<longleftrightarrow> ad_hasSAT A v \<or> strip v \<in> S)
     \<and> ms_nextVar (ad_solver A) \<le> ms_nextVar (ad_solver A') \<and> ad_frozen A \<subseteq> ad_frozen A'
     \<and> (\<forall>\<sigma> \<gamma>. ad_sat A' \<sigma> \<gamma> \<longleftrightarrow> ad_sat A \<sigma> \<gamma> \<and> P \<sigma> \<gamma>))"


lemma ad_step_refl: "ad_inv A \<Longrightarrow> ad_step A {} (\<lambda>_ _. True) A"
  by (auto simp: ad_step_def)

lemma ad_step_trans:
  assumes "ad_step A S P A1" "ad_step A1 T Q A2"
  shows "ad_step A (S \<union> T) (\<lambda>\<sigma> \<gamma>. P \<sigma> \<gamma> \<and> Q \<sigma> \<gamma>) A2"
  using assms unfolding ad_step_def by (auto intro: order_trans)

lemma ad_step_weaken:
  "ad_step A S P A' \<Longrightarrow> S = T \<Longrightarrow> (\<And>\<sigma> \<gamma>. P \<sigma> \<gamma> = Q \<sigma> \<gamma>) \<Longrightarrow> ad_step A T Q A'"
  unfolding ad_step_def by simp

lemma ad_step_inv: "ad_step A S P A' \<Longrightarrow> ad_inv A'"
  by (simp add: ad_step_def)

lemma ad_hasD:
  assumes "ad_inv A" "ad_hasSAT A l"
  obtains v where "ad_IDToSAT A (strip l) = Some v" "ad_SATToID A v = Some (strip l)" "1 \<le> v"
    "v < ms_nextVar (ad_solver A)" "v \<notin> ad_groups A"
  using assms unfolding ad_hasSAT_def ad_inv_def by blast

lemma ad_toSAT_ok:
  assumes "ad_inv A" "ad_hasSAT A l"
  shows "\<exists>z. ad_toSAT A l = Inr z \<and> ms_lit (ad_solver A) z \<and> (\<forall>\<sigma> \<gamma>. ilit_true (ad_asg A \<sigma> \<gamma>) z = lit_true \<sigma> l)
     \<and> ad_fromSAT A z = Inr l \<and> lit_strip z \<notin> ad_groups A"
proof -
  obtain v where v: "ad_IDToSAT A (strip l) = Some v" "ad_SATToID A v = Some (strip l)" "1 \<le> v"
    "v < ms_nextVar (ad_solver A)" "v \<notin> ad_groups A"
    using ad_hasD[OF assms] .
  let ?z = "if is_negated l then lit_negate v else v"
  have "ad_toSAT A l = Inr ?z" using v by (simp add: ad_toSAT_def ad_SATVarOf_def)
  moreover have "ms_lit (ad_solver A) ?z" using v by (auto simp: ms_lit_def lit_negate_def)
  moreover have "ilit_true (ad_asg A \<sigma> \<gamma>) ?z = lit_true \<sigma> l" for \<sigma> \<gamma>
    using v by (auto simp: ilit_true_def lit_negate_def ad_asg_def lit_true_def)
  moreover have "ad_fromSAT A ?z = Inr l"
    using v by (auto simp: ad_fromSAT_def ad_IDOf_def lit_strip_def lit_is_negated_def lit_negate_def)
      (auto simp: strip_def)
  moreover have "lit_strip ?z \<notin> ad_groups A"
    using v by (auto simp: lit_strip_def lit_is_negated_def lit_negate_def)
  ultimately show ?thesis by blast
qed

lemma ilit_true_cong:
  assumes "\<And>v. 1 \<le> v \<Longrightarrow> v < n \<Longrightarrow> \<tau> v = \<tau>' v" "l \<noteq> 0" "\<bar>l\<bar> < n"
  shows "ilit_true \<tau> l = ilit_true \<tau>' l"
  using assms by (auto simp: ilit_true_def)

lemma icnf_sat_cong:
  assumes "\<And>v. 1 \<le> v \<Longrightarrow> v < ms_nextVar ms \<Longrightarrow> \<tau> v = \<tau>' v" "\<forall>c\<in>set C. \<forall>l\<in>set c. ms_lit ms l"
  shows "icnf_sat \<tau> C = icnf_sat \<tau>' C"
  using ilit_true_cong[of "ms_nextVar ms" \<tau> \<tau>', OF assms(1)] assms(2) unfolding icnf_sat_def ms_lit_def by blast

lemma ad_frozen_mono:
  assumes "ad_inv A" "set (hist_frozen (ms_hist (ad_solver A))) \<subseteq> set (hist_frozen (ms_hist (ad_solver A')))"
    and "\<And>i v. ad_SATToID A v = Some i \<Longrightarrow> ad_SATToID A' v = Some i"
  shows "ad_frozen A \<subseteq> ad_frozen A'"
  using assms by (auto simp: ad_frozen_def)

lemma ad_clauses_lit:
  "ad_inv A \<Longrightarrow> \<forall>c\<in>set (ms_clauses (ad_solver A)). \<forall>l\<in>set c. ms_lit (ad_solver A) l"
  by (simp add: ad_inv_def ms_inv_def)

lemma ad_introduce_step:
  assumes inv: "ad_inv A"
  shows "wp (ad_introduceVariable i) (\<lambda>_ A'. ad_step A {strip i} (\<lambda>_ _. True) A') A"
proof (cases "ad_IDToSAT A (strip i)")
  case (Some v)
  then have "ad_step A {strip i} (\<lambda>_ _. True) A"
    using ad_step_refl[OF inv] by (auto simp: ad_step_def ad_hasSAT_def)
  then show ?thesis using Some by (simp add: ad_introduceVariable_def)
next
  case None
  have ms: "ms_inv (ad_solver A)" using inv by (simp add: ad_inv_def)
  have goal: "ad_SATToID A v = None \<and> ad_step A {strip i} (\<lambda>_ _. True)
      (A\<lparr>ad_solver := s, ad_IDToSAT := (ad_IDToSAT A)(strip i \<mapsto> v), ad_SATToID := (ad_SATToID A)(v \<mapsto> strip i)\<rparr>)"
    if s: "v = ms_nextVar (ad_solver A)" "ms_nextVar s = v + 1" "ms_inv s" "ms_clauses s = ms_clauses (ad_solver A)"
      "hist_frozen (ms_hist s) = hist_frozen (ms_hist (ad_solver A))" for v s
  proof -
    let ?A = "A\<lparr>ad_solver := s, ad_IDToSAT := (ad_IDToSAT A)(strip i \<mapsto> v), ad_SATToID := (ad_SATToID A)(v \<mapsto> strip i)\<rparr>"
    have fresh: "ad_SATToID A v = None"
      using inv s(1) unfolding ad_inv_def by (metis less_irrefl not_None_eq)
    have none2: "ad_SATToID A w \<noteq> Some (strip i)" "ad_IDToSAT A (strip i) \<noteq> Some w" for w
      using inv None unfolding ad_inv_def by (metis option.distinct(1))+
    have v1: "1 \<le> v" using ms s(1) by (simp add: ms_inv_def)
    have nv: "hist_nvars (ms_hist (ad_solver A)) \<le> hist_nvars (ms_hist s)"
      using ms s(1-3) by (auto simp: ms_inv_def)
    have "ad_inv ?A"
      unfolding ad_inv_def
    proof (intro conjI allI impI ballI)
      show "ms_inv (ad_solver ?A)" using s(3) by simp
      fix j w
      show "ad_IDToSAT ?A j = Some w \<longleftrightarrow> ad_SATToID ?A w = Some j"
        using inv none2 fresh by (auto simp: ad_inv_def)
      assume "ad_IDToSAT ?A j = Some w"
      then show "strip j = j" "1 \<le> w" "w < ms_nextVar (ad_solver ?A)" "w \<notin> ad_groups ?A"
        using inv s(1,2) v1 by (auto simp: ad_inv_def split: if_splits) fastforce+
    next
      fix g assume "g \<in> ad_groups ?A"
      then show "1 \<le> g" "g < ms_nextVar (ad_solver ?A)" using inv s(1,2) by (force simp: ad_inv_def)+
    next
      fix w assume "1 \<le> w \<and> w < ms_nextVar (ad_solver ?A) \<and> w \<notin> ad_groups ?A"
      then show "ad_SATToID ?A w \<noteq> None" using inv s(1,2) by (auto simp: ad_inv_def)
    next
      fix w assume "w \<in> set (hist_frozen (ms_hist (ad_solver ?A)))"
      then show "w < hist_nvars (ms_hist (ad_solver ?A))" using inv s(5) nv by (force simp: ad_inv_def)
    qed
    moreover have "ad_sat ?A \<sigma> \<gamma> = ad_sat A \<sigma> \<gamma>" for \<sigma> \<gamma>
    proof -
      have "icnf_sat (ad_asg ?A \<sigma> \<gamma>) (ms_clauses (ad_solver A)) = icnf_sat (ad_asg A \<sigma> \<gamma>) (ms_clauses (ad_solver A))"
        by (rule icnf_sat_cong[of "ad_solver A", OF _ ad_clauses_lit[OF inv]]) (use s(1) in \<open>simp add: ad_asg_def\<close>)
      then show ?thesis using s(4) by (simp add: ad_sat_def)
    qed
    moreover have "ad_frozen A \<subseteq> ad_frozen ?A"
      by (rule ad_frozen_mono[OF inv]) (use s(5) fresh in auto)
    ultimately show ?thesis using fresh None s(1,2)
      by (auto simp: ad_step_def ad_hasSAT_def)
  qed
  show ?thesis
    unfolding ad_introduceVariable_def
    by (simp add: Let_def None wp_onSolver, rule wp_mono[OF ms_newVariable_wp[OF ms]])
      (elim conjE, rule goal, assumption+)
qed

lemma ad_introduce_frozen:
  assumes inv: "ad_inv A"
  shows "wp (ad_introduceVariable i) (\<lambda>_ A'. ad_frozen A' = ad_frozen A) A"
proof (cases "ad_IDToSAT A (strip i)")
  case None
  have ms: "ms_inv (ad_solver A)" using inv by (simp add: ad_inv_def)
  have fresh: "ad_SATToID A (ms_nextVar (ad_solver A)) = None"
    using inv unfolding ad_inv_def by (metis less_irrefl not_None_eq)
  have old: "int v + 1 \<noteq> ms_nextVar (ad_solver A)" if "v \<in> set (hist_frozen (ms_hist (ad_solver A)))" for v
    using inv ms that by (auto simp: ad_inv_def ms_inv_def)
  show ?thesis
    unfolding ad_introduceVariable_def
    by (simp add: Let_def None wp_onSolver, rule wp_mono[OF ms_newVariable_wp[OF ms]])
      (use fresh old in \<open>auto simp: ad_frozen_def\<close>)
qed (simp add: ad_introduceVariable_def)

lemma ad_toSATvec_step:
  "ad_inv A \<Longrightarrow> wp (ad_toSATvec c) (\<lambda>zs A'. ad_step A (strip ` set c) (\<lambda>_ _. True) A'
     \<and> list_all2 (\<lambda>l z. ad_toSAT A' l = Inr z) c zs) A"
proof (induction c arbitrary: A)
  case Nil
  then show ?case by (simp add: ad_step_refl)
next
  case (Cons l c)
  show ?case
    unfolding ad_toSATvec.simps wp_thenS
  proof (rule wp_mono[OF ad_introduce_step[OF Cons.prems]])
    fix u A1
    assume s: "ad_step A {strip l} (\<lambda>_ _. True) A1"
    then have inv1: "ad_inv A1" and has: "ad_hasSAT A1 l" by (auto simp: ad_step_def)
    obtain z where z: "ad_toSAT A1 l = Inr z" using ad_toSAT_ok[OF inv1 has] by blast
    have "wp (ad_toSATvec c) (\<lambda>ls A2. ad_step A (strip ` set (l # c)) (\<lambda>_ _. True) A2
       \<and> list_all2 (\<lambda>l z. ad_toSAT A2 l = Inr z) (l # c) (z # ls)) A1"
    proof (rule wp_mono[OF Cons.IH[OF inv1]])
      fix zs A2
      assume t: "ad_step A1 (strip ` set c) (\<lambda>_ _. True) A2 \<and> list_all2 (\<lambda>l z. ad_toSAT A2 l = Inr z) c zs"
      have "ad_toSAT A2 l = Inr z"
        using z t unfolding ad_step_def ad_toSAT_def ad_SATVarOf_def by (auto split: option.splits simp: bindR_Inr_iff)
      moreover have "ad_step A (strip ` set (l # c)) (\<lambda>_ _. True) A2"
        by (rule ad_step_weaken[OF ad_step_trans[OF s conjunct1[OF t]]]) auto
      ultimately show "ad_step A (strip ` set (l # c)) (\<lambda>_ _. True) A2
       \<and> list_all2 (\<lambda>l z. ad_toSAT A2 l = Inr z) (l # c) (z # zs)" using t by simp
    qed
    then show "wp (bindS getS (\<lambda>A. bindS (liftS (ad_toSAT A l))
        (\<lambda>la. bindS (ad_toSATvec c) (\<lambda>ls. retS (la # ls)))))
       (\<lambda>zs A'. ad_step A (strip ` set (l # c)) (\<lambda>_ _. True) A' \<and> list_all2 (\<lambda>l z. ad_toSAT A' l = Inr z) (l # c) zs) A1"
      using z by simp
  qed
qed

text \<open>Literals that are known, translated.\<close>

lemma toSATvec_sem:
  assumes "ad_inv A" "\<forall>l\<in>set c. ad_hasSAT A l" "list_all2 (\<lambda>l z. ad_toSAT A l = Inr z) c zs"
  shows "\<forall>z\<in>set zs. ms_lit (ad_solver A) z"
    "(\<exists>z\<in>set zs. ilit_true (ad_asg A \<sigma> \<gamma>) z) = clause_sat \<sigma> c"
    "icube_sat (ad_asg A \<sigma> \<gamma>) zs = cube_sat \<sigma> c"
    "\<forall>z\<in>set zs. \<exists>l\<in>set c. ad_fromSAT A z = Inr l \<and> lit_strip z \<notin> ad_groups A"
  using assms(3,2)
proof (induction c zs rule: list_all2_induct)
  case (Cons l c z zs)
  case 1 then show ?case using Cons ad_toSAT_ok[OF assms(1), of l] by auto
  case 2 then show ?case using Cons ad_toSAT_ok[OF assms(1), of l] by auto
  case 3 then show ?case using Cons ad_toSAT_ok[OF assms(1), of l] by (auto simp: icube_sat_def)
  case 4 then show ?case using Cons ad_toSAT_ok[OF assms(1), of l] by auto
qed (auto simp: icube_sat_def)


subsection \<open>Clauses and groups\<close>

lemma ad_onSolver_add:
  assumes inv: "ad_inv A" and zs: "\<forall>z\<in>set zs. ms_lit (ad_solver A) z"
  shows "wp (onSolver (ms_addClause zs)) (\<lambda>_ A'. ad_step A {} (\<lambda>\<sigma> \<gamma>. \<exists>z\<in>set zs. ilit_true (ad_asg A \<sigma> \<gamma>) z) A'
    \<and> ad_groups A' = ad_groups A) A"
proof -
  have ms: "ms_inv (ad_solver A)" using inv by (simp add: ad_inv_def)
  show ?thesis
    unfolding wp_onSolver
  proof (rule wp_mono[OF ms_addClause_wp[OF ms zs]], elim conjE)
    fix u s
    assume s: "ms_inv s" "ms_clauses s = ms_clauses (ad_solver A) @ [zs]" "ms_nextVar s = ms_nextVar (ad_solver A)"
      "hist_frozen (ms_hist s) = hist_frozen (ms_hist (ad_solver A))"
    let ?A = "A\<lparr>ad_solver := s\<rparr>"
    have nv: "hist_nvars (ms_hist s) = hist_nvars (ms_hist (ad_solver A))"
      using ms s(1,3) by (simp add: ms_inv_def)
    have "ad_asg ?A = ad_asg A" by (intro ext) (simp add: ad_asg_def)
    then have "ad_sat ?A \<sigma> \<gamma> \<longleftrightarrow> ad_sat A \<sigma> \<gamma> \<and> (\<exists>z\<in>set zs. ilit_true (ad_asg A \<sigma> \<gamma>) z)" for \<sigma> \<gamma>
      using s(2) by (auto simp: ad_sat_def icnf_sat_def)
    moreover have "ad_inv ?A" using inv s nv by (simp add: ad_inv_def)
    moreover have "ad_frozen ?A = ad_frozen A" using s(4) by (simp add: ad_frozen_def)
    ultimately show "ad_step A {} (\<lambda>\<sigma> \<gamma>. \<exists>z\<in>set zs. ilit_true (ad_asg A \<sigma> \<gamma>) z) ?A \<and> ad_groups ?A = ad_groups A"
      using s(3) by (auto simp: ad_step_def ad_hasSAT_def)
  qed
qed

lemma ad_step_has: "ad_step A (strip ` set c) P A' \<Longrightarrow> \<forall>l\<in>set c. ad_hasSAT A' l"
  by (auto simp: ad_step_def)

lemma ad_addClause_step:
  assumes inv: "ad_inv A" and ne: "c \<noteq> []"
  shows "wp (ad_addClause c) (\<lambda>_ A'. ad_step A (strip ` set c) (\<lambda>\<sigma> \<gamma>. clause_sat \<sigma> c) A') A"
  unfolding ad_addClause_def wp_thenS wp_assertS wp_bindS
proof (intro conjI ne, rule wp_mono[OF ad_toSATvec_step[OF inv]], elim conjE)
  fix zs A1
  assume s: "ad_step A (strip ` set c) (\<lambda>_ _. True) A1" "list_all2 (\<lambda>l z. ad_toSAT A1 l = Inr z) c zs"
  note sem = toSATvec_sem[OF ad_step_inv[OF s(1)] ad_step_has[OF s(1)] s(2)]
  show "wp (onSolver (ms_addClause zs)) (\<lambda>_ A'. ad_step A (strip ` set c) (\<lambda>\<sigma> \<gamma>. clause_sat \<sigma> c) A') A1"
    by (rule wp_mono[OF ad_onSolver_add[OF ad_step_inv[OF s(1)] sem(1)]], elim conjE,
        rule ad_step_weaken[OF ad_step_trans[OF s(1)]], assumption) (use sem(2) in auto)
qed

lemma ad_addClauses_step:
  "ad_inv A \<Longrightarrow> [] \<notin> set C \<Longrightarrow> wp (ad_addClauses C) (\<lambda>_ A'. ad_step A (cnf_vars C) (\<lambda>\<sigma> \<gamma>. cnf_sat \<sigma> C) A') A"
  unfolding ad_addClauses_def
proof (induction C arbitrary: A)
  case Nil
  then show ?case by (simp add: ad_step_refl)
next
  case (Cons c C)
  have ne: "c \<noteq> []" and ne': "[] \<notin> set C" using Cons.prems(2) by auto
  show ?case
    unfolding iterS.simps wp_bindS
  proof (rule wp_mono[OF ad_addClause_step[OF Cons.prems(1) ne]])
    fix u A1
    assume s: "ad_step A (strip ` set c) (\<lambda>\<sigma> \<gamma>. clause_sat \<sigma> c) A1"
    show "wp (iterS ad_addClause C) (\<lambda>_ A'. ad_step A (cnf_vars (c # C)) (\<lambda>\<sigma> \<gamma>. cnf_sat \<sigma> (c # C)) A') A1"
      by (rule wp_mono[OF Cons.IH[OF ad_step_inv[OF s] ne']], rule ad_step_weaken[OF ad_step_trans[OF s]], assumption)
        auto
  qed
qed

lemma ad_createGroup_step:
  assumes inv: "ad_inv A"
  shows "wp ad_createGroup (\<lambda>g A'. ad_step A {} (\<lambda>_ _. True) A' \<and> g \<in> ad_groups A' \<and> g \<noteq> GROUP_NULL
     \<and> 0 < g \<and> ad_SATToID A' g = None \<and> ms_lit (ad_solver A') g
     \<and> (\<forall>\<sigma> \<gamma> b. ad_sat A' \<sigma> (\<gamma>(g := b)) = ad_sat A' \<sigma> \<gamma>)) A"
proof -
  have ms: "ms_inv (ad_solver A)" using inv by (simp add: ad_inv_def)
  show ?thesis
    unfolding ad_createGroup_def wp_bindS wp_thenS wp_modifyS wp_retS wp_onSolver
  proof (rule wp_mono[OF ms_newVariable_wp[OF ms]], elim conjE)
    fix g s
    assume s: "g = ms_nextVar (ad_solver A)" "ms_nextVar s = g + 1" "ms_inv s" "ms_clauses s = ms_clauses (ad_solver A)"
      "hist_frozen (ms_hist s) = hist_frozen (ms_hist (ad_solver A))"
    let ?A = "A\<lparr>ad_solver := s, ad_groups := insert g (ad_groups (A\<lparr>ad_solver := s\<rparr>))\<rparr>"
    have fresh: "ad_SATToID A g = None" "1 \<le> g"
      using inv s(1) unfolding ad_inv_def ms_inv_def by (metis less_irrefl not_None_eq, linarith)
    have nv: "hist_nvars (ms_hist (ad_solver A)) \<le> hist_nvars (ms_hist s)"
      using ms s(1-3) by (auto simp: ms_inv_def)
    have asg: "ad_asg ?A = ad_asg A" by (intro ext) (simp add: ad_asg_def)
    have "ad_inv ?A"
      unfolding ad_inv_def
    proof (intro conjI allI impI ballI)
      show "ms_inv (ad_solver ?A)" using s(3) by simp
      fix j w
      show "ad_IDToSAT ?A j = Some w \<longleftrightarrow> ad_SATToID ?A w = Some j"
        using inv by (simp add: ad_inv_def)
      assume j: "ad_IDToSAT ?A j = Some w"
      then have "w \<noteq> g" using inv s(1) by (auto simp: ad_inv_def)
      then show "strip j = j" "1 \<le> w" "w < ms_nextVar (ad_solver ?A)" "w \<notin> ad_groups ?A"
        using inv s(1,2) j by (auto simp: ad_inv_def) fastforce+
    next
      fix k assume "k \<in> ad_groups ?A"
      then show "1 \<le> k" "k < ms_nextVar (ad_solver ?A)" using inv s(1,2) fresh by (force simp: ad_inv_def)+
    next
      fix w assume "1 \<le> w \<and> w < ms_nextVar (ad_solver ?A) \<and> w \<notin> ad_groups ?A"
      then show "ad_SATToID ?A w \<noteq> None" using inv s(1,2) by (auto simp: ad_inv_def)
    next
      fix w assume "w \<in> set (hist_frozen (ms_hist (ad_solver ?A)))"
      then show "w < hist_nvars (ms_hist (ad_solver ?A))" using inv s(5) nv by (force simp: ad_inv_def)
    qed
    moreover have "ad_frozen ?A = ad_frozen A" using s(5) by (simp add: ad_frozen_def)
    moreover have "ad_sat ?A \<sigma> (\<gamma>(g := b)) = ad_sat ?A \<sigma> \<gamma>" for \<sigma> \<gamma> b
    proof -
      have "icnf_sat (ad_asg A \<sigma> (\<gamma>(g := b))) (ms_clauses (ad_solver A)) = icnf_sat (ad_asg A \<sigma> \<gamma>) (ms_clauses (ad_solver A))"
        by (rule icnf_sat_cong[of "ad_solver A", OF _ ad_clauses_lit[OF inv]])
          (use s(1) in \<open>auto simp: ad_asg_def split: option.split\<close>)
      then show ?thesis using s(4) asg by (simp add: ad_sat_def)
    qed
    moreover have "ad_sat ?A \<sigma> \<gamma> = ad_sat A \<sigma> \<gamma>" for \<sigma> \<gamma> using s(4) asg by (simp add: ad_sat_def)
    ultimately show "ad_step A {} (\<lambda>_ _. True) ?A \<and> g \<in> ad_groups ?A \<and> g \<noteq> GROUP_NULL
     \<and> 0 < g \<and> ad_SATToID ?A g = None \<and> ms_lit (ad_solver ?A) g
     \<and> (\<forall>\<sigma> \<gamma> b. ad_sat ?A \<sigma> (\<gamma>(g := b)) = ad_sat ?A \<sigma> \<gamma>)"
      using fresh s(1,2) by (auto simp: ad_step_def ad_hasSAT_def GROUP_NULL_def ms_lit_def)
  qed
qed

lemma ad_addGroupClause_step:
  assumes inv: "ad_inv A" and ne: "c \<noteq> []" and g: "g \<in> ad_groups A"
  shows "wp (ad_addGroupClause g c) (\<lambda>_ A'. ad_step A (strip ` set c) (\<lambda>\<sigma> \<gamma>. \<gamma> g \<longrightarrow> clause_sat \<sigma> c) A') A"
  unfolding ad_addGroupClause_def wp_thenS wp_assertS wp_bindS
proof (intro conjI ne, rule wp_mono[OF ad_toSATvec_step[OF inv]], elim conjE)
  fix zs A1
  assume s: "ad_step A (strip ` set c) (\<lambda>_ _. True) A1" "list_all2 (\<lambda>l z. ad_toSAT A1 l = Inr z) c zs"
  note sem = toSATvec_sem[OF ad_step_inv[OF s(1)] ad_step_has[OF s(1)] s(2)]
  have g1: "g \<in> ad_groups A1" using s(1) g by (auto simp: ad_step_def)
  have gv: "1 \<le> g" "g < ms_nextVar (ad_solver A1)" "ad_SATToID A1 g = None"
    using ad_step_inv[OF s(1)] g1 unfolding ad_inv_def by (metis, metis, metis not_None_eq)
  have gl: "ilit_true (ad_asg A1 \<sigma> \<gamma>) (lit_negate g) = (\<not> \<gamma> g)" for \<sigma> \<gamma>
    using gv by (simp add: ilit_true_def lit_negate_def ad_asg_def)
  have zs: "\<forall>z\<in>set (zs @ [lit_negate g]). ms_lit (ad_solver A1) z"
    using sem(1) gv by (auto simp: ms_lit_def lit_negate_def)
  show "wp (onSolver (ms_addClause (zs @ [lit_negate g]))) (\<lambda>_ A'. ad_step A (strip ` set c) (\<lambda>\<sigma> \<gamma>. \<gamma> g \<longrightarrow> clause_sat \<sigma> c) A') A1"
    by (rule wp_mono[OF ad_onSolver_add[OF ad_step_inv[OF s(1)] zs]], elim conjE,
        rule ad_step_weaken[OF ad_step_trans[OF s(1)]], assumption) (use sem(2) gl in auto)
qed

text \<open>A clause in a fresh group constrains nothing until the group is assumed.\<close>

definition ad_withGroup :: "clause \<Rightarrow> (adaptor, int) sm" where
  "ad_withGroup c = bindS ad_createGroup (\<lambda>g. thenS (ad_addGroupClause g c) (retS g))"

lemma ad_withGroup_step:
  assumes inv: "ad_inv A" and ne: "c \<noteq> []"
  shows "wp (ad_withGroup c) (\<lambda>g A'. ad_inv A' \<and> ad_kind A' = ad_kind A \<and> g \<in> ad_groups A' \<and> g \<noteq> GROUP_NULL
     \<and> (\<forall>v. ad_hasSAT A' v \<longleftrightarrow> ad_hasSAT A v \<or> strip v \<in> strip ` set c)
     \<and> (\<forall>\<sigma>. ad_mod A' \<sigma> \<longleftrightarrow> ad_mod A \<sigma>)
     \<and> (\<forall>\<sigma>. (\<exists>\<gamma>. ad_sat A' \<sigma> \<gamma> \<and> \<gamma> g) \<longleftrightarrow> ad_mod A \<sigma> \<and> clause_sat \<sigma> c)) A"
  unfolding ad_withGroup_def wp_bindS
proof (rule wp_mono[OF ad_createGroup_step[OF inv]], elim conjE)
  fix g A1
  assume s: "ad_step A {} (\<lambda>_ _. True) A1" "g \<in> ad_groups A1" "g \<noteq> GROUP_NULL"
    "\<forall>\<sigma> \<gamma> b. ad_sat A1 \<sigma> (\<gamma>(g := b)) = ad_sat A1 \<sigma> \<gamma>"
  show "wp (thenS (ad_addGroupClause g c) (retS g)) (\<lambda>g A'. ad_inv A' \<and> ad_kind A' = ad_kind A \<and> g \<in> ad_groups A' \<and> g \<noteq> GROUP_NULL
     \<and> (\<forall>v. ad_hasSAT A' v \<longleftrightarrow> ad_hasSAT A v \<or> strip v \<in> strip ` set c)
     \<and> (\<forall>\<sigma>. ad_mod A' \<sigma> \<longleftrightarrow> ad_mod A \<sigma>)
     \<and> (\<forall>\<sigma>. (\<exists>\<gamma>. ad_sat A' \<sigma> \<gamma> \<and> \<gamma> g) \<longleftrightarrow> ad_mod A \<sigma> \<and> clause_sat \<sigma> c)) A1"
    unfolding wp_thenS wp_retS
  proof (rule wp_mono[OF ad_addGroupClause_step[OF ad_step_inv[OF s(1)] ne s(2)]])
    fix u A2
    assume t: "ad_step A1 (strip ` set c) (\<lambda>\<sigma> \<gamma>. \<gamma> g \<longrightarrow> clause_sat \<sigma> c) A2"
    have sat1: "ad_sat A1 \<sigma> \<gamma> = ad_sat A \<sigma> \<gamma>" for \<sigma> \<gamma> using s(1) by (simp add: ad_step_def)
    have sat2: "ad_sat A2 \<sigma> \<gamma> \<longleftrightarrow> ad_sat A \<sigma> \<gamma> \<and> (\<gamma> g \<longrightarrow> clause_sat \<sigma> c)" for \<sigma> \<gamma>
      using t sat1 by (simp add: ad_step_def)
    have upd: "ad_sat A \<sigma> (\<gamma>(g := b)) = ad_sat A \<sigma> \<gamma>" for \<sigma> \<gamma> b using s(4) sat1 by simp
    have "ad_mod A2 \<sigma> \<longleftrightarrow> ad_mod A \<sigma>" for \<sigma>
      using sat2 upd[of \<sigma> _ False] unfolding ad_mod_def by (metis fun_upd_same)
    moreover have "(\<exists>\<gamma>. ad_sat A2 \<sigma> \<gamma> \<and> \<gamma> g) \<longleftrightarrow> ad_mod A \<sigma> \<and> clause_sat \<sigma> c" for \<sigma>
      using sat2 upd[of \<sigma> _ True] unfolding ad_mod_def by (metis fun_upd_same)
    ultimately show "ad_inv A2 \<and> ad_kind A2 = ad_kind A \<and> g \<in> ad_groups A2 \<and> g \<noteq> GROUP_NULL
     \<and> (\<forall>v. ad_hasSAT A2 v \<longleftrightarrow> ad_hasSAT A v \<or> strip v \<in> strip ` set c)
     \<and> (\<forall>\<sigma>. ad_mod A2 \<sigma> \<longleftrightarrow> ad_mod A \<sigma>)
     \<and> (\<forall>\<sigma>. (\<exists>\<gamma>. ad_sat A2 \<sigma> \<gamma> \<and> \<gamma> g) \<longleftrightarrow> ad_mod A \<sigma> \<and> clause_sat \<sigma> c)"
      using s t by (auto simp: ad_step_def)
  qed
qed


lemma ad_step_mod: "ad_step A S (\<lambda>\<sigma> \<gamma>. P \<sigma>) A' \<Longrightarrow> ad_mod A' \<sigma> \<longleftrightarrow> ad_mod A \<sigma> \<and> P \<sigma>"
  by (auto simp: ad_step_def ad_mod_def)

subsection \<open>Construction\<close>

lemma ad_blank_inv: "ad_inv (ad_blank k)"
  using ms_new_inv by (auto simp: ad_inv_def ad_blank_def) (auto simp: ms_new_def)

lemma ad_blank_mod [simp]: "ad_mod (ad_blank k) \<sigma>" "\<not> ad_hasSAT (ad_blank k) v"
  by (simp_all add: ad_mod_def ad_sat_def ad_blank_def ms_new_def icnf_sat_def ad_hasSAT_def)

lemma lit_true_ID_TRUE: "lit_true \<sigma> ID_TRUE = const_ok \<sigma>"
proof -
  have "\<not> is_negated ID_FALSE" by (simp add: is_negated_def ID_FALSE_def)
  then show ?thesis by (simp add: ID_TRUE_def const_ok_def lit_true_pos)
qed

lemma ad_reset_wp:
  "wp ad_reset (\<lambda>_ A'. ad_inv A' \<and> ad_kind A' = ad_kind A \<and> (\<forall>v. ad_hasSAT A' v \<longleftrightarrow> strip v = ID_FALSE)
     \<and> ad_groups (ad_blank (ad_kind A)) \<subseteq> ad_groups A' \<and> (\<forall>\<sigma>. ad_mod A' \<sigma> \<longleftrightarrow> const_ok \<sigma>)) A"
  unfolding ad_reset_def wp_thenS wp_modifyS
proof (rule wp_mono[OF ad_introduce_step[OF ad_blank_inv]])
  fix u A1
  assume s: "ad_step (ad_blank (ad_kind A)) {strip ID_TRUE} (\<lambda>_ _. True) A1"
  have st: "strip ID_TRUE = ID_FALSE"
    by (simp add: strip_id ID_TRUE_def) (simp add: strip_def is_negated_def ID_FALSE_def)
  show "wp (ad_addClause [ID_TRUE]) (\<lambda>_ A'. ad_inv A' \<and> ad_kind A' = ad_kind A \<and> (\<forall>v. ad_hasSAT A' v \<longleftrightarrow> strip v = ID_FALSE)
     \<and> ad_groups (ad_blank (ad_kind A)) \<subseteq> ad_groups A' \<and> (\<forall>\<sigma>. ad_mod A' \<sigma> \<longleftrightarrow> const_ok \<sigma>)) A1"
  proof (rule wp_mono[OF ad_addClause_step[OF ad_step_inv[OF s]]])
    fix u A2
    assume t: "ad_step A1 (strip ` set [ID_TRUE]) (\<lambda>\<sigma> \<gamma>. clause_sat \<sigma> [ID_TRUE]) A2"
    have r: "ad_step (ad_blank (ad_kind A)) {ID_FALSE} (\<lambda>\<sigma> \<gamma>. const_ok \<sigma>) A2"
      by (rule ad_step_weaken[OF ad_step_trans[OF s t]]) (auto simp: st lit_true_ID_TRUE)
    show "ad_inv A2 \<and> ad_kind A2 = ad_kind A \<and> (\<forall>v. ad_hasSAT A2 v \<longleftrightarrow> strip v = ID_FALSE)
     \<and> ad_groups (ad_blank (ad_kind A)) \<subseteq> ad_groups A2 \<and> (\<forall>\<sigma>. ad_mod A2 \<sigma> \<longleftrightarrow> const_ok \<sigma>)"
      using r ad_step_mod[OF r] by (simp add: ad_step_def) (simp add: ad_blank_def)
  qed simp
qed

lemma ad_new_wp:
  "wpr (ad_new k) (\<lambda>A. ad_inv A \<and> ad_kind A = k \<and> (\<forall>v. ad_hasSAT A v \<longleftrightarrow> strip v = ID_FALSE)
     \<and> (\<forall>\<sigma>. ad_mod A \<sigma> \<longleftrightarrow> const_ok \<sigma>))"
proof -
  have k: "ad_kind (ad_blank k) = k" by (simp add: ad_blank_def)
  show ?thesis
    using ad_reset_wp[of "ad_blank k"] unfolding wp_def ad_new_def k by (auto split: sum.splits)
qed

lemma ms_freeze_wp:
  assumes "ms_inv ms" "ms_lit ms l"
  shows "wp (ms_freeze l) (\<lambda>_ ms'. ms_inv ms' \<and> ms_clauses ms' = ms_clauses ms \<and> ms_nextVar ms' = ms_nextVar ms
    \<and> hist_frozen (ms_hist ms') = hist_frozen (ms_hist ms) @ [nat (\<bar>l\<bar> - 1)]) ms"
  using assms toMinisat_ok(1)[OF assms]
  by (auto simp: ms_freeze_def ms_log_def mlit_of_def) (auto simp: ms_inv_def ms_lit_def)

lemma ad_freeze_step:
  assumes inv: "ad_inv A"
  shows "wp (ad_freeze i) (\<lambda>_ A'. ad_step A {strip i} (\<lambda>_ _. True) A'
     \<and> (ad_kind A = MINISATSIMP \<longrightarrow> ad_frozen A' = insert (strip i) (ad_frozen A))) A"
  unfolding ad_freeze_def wp_thenS
proof (rule wp_mono[OF wp_conj[OF ad_introduce_step[OF inv] ad_introduce_frozen[OF inv]]], elim conjE)
  fix u A1
  assume s: "ad_step A {strip i} (\<lambda>_ _. True) A1" and fr: "ad_frozen A1 = ad_frozen A"
  then have inv1: "ad_inv A1" and k: "ad_kind A1 = ad_kind A" and has: "ad_hasSAT A1 i"
    by (auto simp: ad_step_def)
  obtain v where v: "ad_IDToSAT A1 (strip i) = Some v" "ad_SATToID A1 v = Some (strip i)" "1 \<le> v"
    "v < ms_nextVar (ad_solver A1)" using ad_hasD[OF inv1 has] .
  let ?z = "if is_negated i then lit_negate v else v"
  have z: "ad_toSAT A1 i = Inr ?z" using v by (simp add: ad_toSAT_def ad_SATVarOf_def)
  have zv: "\<bar>?z\<bar> = v" using v(3) by (simp add: lit_negate_def)
  have zl: "ms_lit (ad_solver A1) ?z" using v by (auto simp: ms_lit_def lit_negate_def)
  have ms: "ms_inv (ad_solver A1)" using inv1 by (simp add: ad_inv_def)
  have fz: "wp (onSolver (ms_freeze ?z)) (\<lambda>_ A'. ad_step A {strip i} (\<lambda>_ _. True) A'
     \<and> ad_frozen A' = insert (strip i) (ad_frozen A)) A1"
    unfolding wp_onSolver
  proof (rule wp_mono[OF ms_freeze_wp[OF ms zl]], elim conjE)
    fix u ss
    assume ss: "ms_inv ss" "ms_clauses ss = ms_clauses (ad_solver A1)" "ms_nextVar ss = ms_nextVar (ad_solver A1)"
      "hist_frozen (ms_hist ss) = hist_frozen (ms_hist (ad_solver A1)) @ [nat (\<bar>?z\<bar> - 1)]"
    let ?A2 = "A1\<lparr>ad_solver := ss\<rparr>"
    have nv: "hist_nvars (ms_hist ss) = hist_nvars (ms_hist (ad_solver A1))"
      using ms ss(1,3) by (simp add: ms_inv_def)
    have vlt: "nat (v - 1) < hist_nvars (ms_hist (ad_solver A1))" using ms v(3,4) by (simp add: ms_inv_def)
    have asg: "ad_asg ?A2 = ad_asg A1" by (intro ext) (simp add: ad_asg_def)
    have inv2: "ad_inv ?A2" using inv1 ss nv vlt unfolding zv by (auto simp: ad_inv_def)
    have f2: "ad_frozen ?A2 = insert (strip i) (ad_frozen A1)"
      using ss(4) v(2,3) unfolding zv by (auto simp: ad_frozen_def)
    have "ad_step A1 {} (\<lambda>_ _. True) ?A2"
      using inv2 ss(2,3) asg f2 by (auto simp: ad_step_def ad_hasSAT_def ad_sat_def)
    then have "ad_step A {strip i} (\<lambda>_ _. True) ?A2"
      by (rule ad_step_weaken[OF ad_step_trans[OF s]]) auto
    then show "ad_step A {strip i} (\<lambda>_ _. True) ?A2 \<and> ad_frozen ?A2 = insert (strip i) (ad_frozen A)"
      using f2 fr by simp
  qed
  show "wp (bindS getS (\<lambda>A. bindS (liftS (ad_toSAT A i))
        (\<lambda>l. if ad_kind A = MINISATSIMP then onSolver (ms_freeze l) else retS ())))
     (\<lambda>_ A'. ad_step A {strip i} (\<lambda>_ _. True) A'
       \<and> (ad_kind A = MINISATSIMP \<longrightarrow> ad_frozen A' = insert (strip i) (ad_frozen A))) A1"
  proof (cases "ad_kind A = MINISATSIMP")
    case True
    then show ?thesis using wp_mono[OF fz] z k by (simp del: wp_if)
  next
    case False
    then show ?thesis using s z k by simp
  qed
qed

subsection \<open>Solving\<close>

text \<open>After a satisfiable call the adaptor answers from one assignment: known literals by their
  value, others as \<open>UNDEF\<close>.\<close>

definition ad_model :: "adaptor \<Rightarrow> assignment \<Rightarrow> bool" where
  "ad_model A \<sigma> = (ad_isSAT A \<and> (\<forall>l. ad_safeGetAssignment A l =
     Inr (if ad_hasSAT A l then (if lit_true \<sigma> l then MV_TRUE else MV_FALSE) else MV_UNDEF)))"

lemma ad_crits_ok:
  assumes "ad_inv A" "\<forall>z\<in>set zs. (\<exists>l\<in>set as. ad_fromSAT A z = Inr l \<and> ad_toSAT A l = Inr z \<and> (\<forall>\<sigma> \<gamma>. ilit_true (ad_asg A \<sigma> \<gamma>) z = lit_true \<sigma> l) \<and> z \<notin> ad_groups A) \<or> z = g \<and> g \<in> ad_groups A"
  shows "\<exists>cr. ad_crits A as zs = Inr cr \<and> set cr \<subseteq> set as \<and> (\<forall>l\<in>set cr. \<exists>z\<in>set zs. ad_toSAT A l = Inr z)
     \<and> (distinct zs \<longrightarrow> distinct cr)
     \<and> (\<forall>\<sigma> \<gamma>. \<gamma> g \<and> g \<in> ad_groups A \<or> g = GROUP_NULL \<longrightarrow> cube_sat \<sigma> cr \<longrightarrow> icube_sat (ad_asg A \<sigma> \<gamma>) zs)"
  using assms(2)
proof (induction zs)
  case Nil
  then show ?case by (simp add: icube_sat_def)
next
  case (Cons z zs)
  have "\<forall>z\<in>set zs. (\<exists>l\<in>set as. ad_fromSAT A z = Inr l \<and> ad_toSAT A l = Inr z \<and> (\<forall>\<sigma> \<gamma>. ilit_true (ad_asg A \<sigma> \<gamma>) z = lit_true \<sigma> l) \<and> z \<notin> ad_groups A) \<or> z = g \<and> g \<in> ad_groups A"
    using Cons.prems by simp
  from Cons.IH[OF this] obtain cr where cr: "ad_crits A as zs = Inr cr" "set cr \<subseteq> set as"
     "\<forall>l\<in>set cr. \<exists>z\<in>set zs. ad_toSAT A l = Inr z" "distinct zs \<longrightarrow> distinct cr"
     "\<forall>\<sigma> \<gamma>. \<gamma> g \<and> g \<in> ad_groups A \<or> g = GROUP_NULL \<longrightarrow> cube_sat \<sigma> cr \<longrightarrow> icube_sat (ad_asg A \<sigma> \<gamma>) zs"
    by blast
  show ?case
  proof (cases "z = g \<and> g \<in> ad_groups A")
    case True
    then have "1 \<le> g" "ad_SATToID A g = None"
      using assms(1) unfolding ad_inv_def by (metis, metis not_None_eq)
    then have "ilit_true (ad_asg A \<sigma> \<gamma>) z = \<gamma> g" for \<sigma> \<gamma>
      using True by (simp add: ilit_true_def ad_asg_def)
    then show ?thesis using True cr \<open>1 \<le> g\<close> by (auto simp: icube_sat_def GROUP_NULL_def intro!: bexI)
  next
    case False
    then obtain l where l: "l \<in> set as" "ad_fromSAT A z = Inr l"
      "\<And>\<sigma> \<gamma>. ilit_true (ad_asg A \<sigma> \<gamma>) z = lit_true \<sigma> l" "z \<notin> ad_groups A" "ad_toSAT A l = Inr z"
      using Cons.prems by (metis list.set_intros(1))
    have "ad_crits A as (z # zs) = Inr (l # cr)" using l cr(1) by simp
    moreover have "set (l # cr) \<subseteq> set as" using l cr(2) by simp
    moreover have "icube_sat (ad_asg A \<sigma> \<gamma>) (z # zs)"
      if "\<gamma> g \<and> g \<in> ad_groups A \<or> g = GROUP_NULL" "cube_sat \<sigma> (l # cr)" for \<sigma> \<gamma>
      using that l(3)[of \<sigma> \<gamma>] cr(5)[rule_format, of \<gamma> \<sigma>] by (auto simp: icube_sat_def)
    moreover have "\<forall>k\<in>set (l # cr). \<exists>y\<in>set (z # zs). ad_toSAT A k = Inr y" using cr(3) l(5) by auto
    moreover have "distinct (z # zs) \<longrightarrow> distinct (l # cr)" using cr(3,4) l(5) by auto
    ultimately show ?thesis by blast
  qed
qed

lemma toSATvec_lits:
  assumes "ad_inv A" "\<forall>l\<in>set c. ad_hasSAT A l" "list_all2 (\<lambda>l z. ad_toSAT A l = Inr z) c zs" "z \<in> set zs"
  shows "\<exists>l\<in>set c. ad_fromSAT A z = Inr l \<and> ad_toSAT A l = Inr z \<and> (\<forall>\<sigma> \<gamma>. ilit_true (ad_asg A \<sigma> \<gamma>) z = lit_true \<sigma> l) \<and> z \<notin> ad_groups A"
proof -
  obtain l where l: "l \<in> set c" "ad_toSAT A l = Inr z"
    using assms(3,4) by (induction rule: list_all2_induct) auto
  obtain z' where z': "ad_toSAT A l = Inr z'" "ms_lit (ad_solver A) z'"
     "\<forall>\<sigma> \<gamma>. ilit_true (ad_asg A \<sigma> \<gamma>) z' = lit_true \<sigma> l" "ad_fromSAT A z' = Inr l" "lit_strip z' \<notin> ad_groups A"
    using ad_toSAT_ok[OF assms(1), of l] assms(2) l(1) by blast
  have "z \<notin> ad_groups A"
  proof
    assume g: "z \<in> ad_groups A"
    then have "1 \<le> z" using assms(1) by (simp add: ad_inv_def)
    then show False using g z' l(2) by (simp add: lit_strip_def lit_is_negated_def)
  qed
  then show ?thesis using l z' by auto
qed

context sat_backend
begin

lemma ad_groupSolve_wp:
  assumes inv: "ad_inv A" and g: "g = GROUP_NULL \<or> g \<in> ad_groups A"
  shows "wp (ad_groupSolve B g as) (\<lambda>(r, crits) A'. ad_step A (strip ` set as) (\<lambda>_ _. True) A' \<and> ad_isSAT A' = r
     \<and> (r \<longrightarrow> crits = [] \<and> (\<exists>\<sigma> \<gamma>. ad_sat A \<sigma> \<gamma> \<and> (g \<noteq> GROUP_NULL \<longrightarrow> \<gamma> g) \<and> cube_sat \<sigma> as \<and> ad_model A' \<sigma>))
     \<and> (\<not> r \<longrightarrow> set crits \<subseteq> set as \<and> distinct crits \<and> (\<forall>\<sigma> \<gamma>. ad_sat A \<sigma> \<gamma> \<longrightarrow> (g \<noteq> GROUP_NULL \<longrightarrow> \<gamma> g) \<longrightarrow> \<not> cube_sat \<sigma> crits))) A"
  unfolding ad_groupSolve_def wp_bindS
proof (rule wp_mono[OF ad_toSATvec_step[OF inv]], elim conjE)
  fix zs A1
  assume s: "ad_step A (strip ` set as) (\<lambda>_ _. True) A1" "list_all2 (\<lambda>l z. ad_toSAT A1 l = Inr z) as zs"
  note inv1 = ad_step_inv[OF s(1)]
  note sem = toSATvec_sem[OF inv1 ad_step_has[OF s(1)] s(2)]
  let ?gs = "if g \<noteq> GROUP_NULL then [g] else []"
  have ms: "ms_inv (ad_solver A1)" using inv1 by (simp add: ad_inv_def)
  have g1: "g \<noteq> GROUP_NULL \<longrightarrow> g \<in> ad_groups A1" using g s(1) by (auto simp: ad_step_def)
  have gv: "g \<noteq> GROUP_NULL \<Longrightarrow> 1 \<le> g \<and> g < ms_nextVar (ad_solver A1) \<and> ad_SATToID A1 g = None"
    using inv1 g1 unfolding ad_inv_def by (metis not_None_eq)
  have lits: "\<forall>l\<in>set (zs @ ?gs). ms_lit (ad_solver A1) l"
    using sem(1) gv by (auto simp: ms_lit_def)
  have gsem: "icube_sat (ad_asg A1 \<sigma> \<gamma>) (zs @ ?gs) \<longleftrightarrow> cube_sat \<sigma> as \<and> (g \<noteq> GROUP_NULL \<longrightarrow> \<gamma> g)" for \<sigma> \<gamma>
  proof (cases "g = GROUP_NULL")
    case False
    have "ilit_true (ad_asg A1 \<sigma> \<gamma>) g = \<gamma> g" using gv[OF False] by (simp add: ilit_true_def ad_asg_def)
    then show ?thesis using sem(3)[of \<sigma> \<gamma>] False by (simp add: icube_sat_def ball_Un conj_commute)
  qed (use sem(3)[of \<sigma> \<gamma>] in simp)
  have sat1: "ad_sat A1 \<sigma> \<gamma> = ad_sat A \<sigma> \<gamma>" for \<sigma> \<gamma> using s(1) by (simp add: ad_step_def)
  let ?Q = "\<lambda>(r, crits) A'. ad_step A (strip ` set as) (\<lambda>_ _. True) A' \<and> ad_isSAT A' = r
     \<and> (r \<longrightarrow> crits = [] \<and> (\<exists>\<sigma> \<gamma>. ad_sat A \<sigma> \<gamma> \<and> (g \<noteq> GROUP_NULL \<longrightarrow> \<gamma> g) \<and> cube_sat \<sigma> as \<and> ad_model A' \<sigma>))
     \<and> (\<not> r \<longrightarrow> set crits \<subseteq> set as \<and> distinct crits \<and> (\<forall>\<sigma> \<gamma>. ad_sat A \<sigma> \<gamma> \<longrightarrow> (g \<noteq> GROUP_NULL \<longrightarrow> \<gamma> g) \<longrightarrow> \<not> cube_sat \<sigma> crits))"
  have "wp (onSolver (ms_solve B (zs @ ?gs))) (\<lambda>(sat, satcrits) A2. wp
      (if \<not> sat then bindS (liftS (ad_crits A2 as satcrits)) (\<lambda>crits. retS (sat, crits)) else retS (sat, [])) ?Q A2) A1"
    unfolding wp_onSolver
  proof (rule wp_mono[OF ms_solve_wp[OF ms lits]], goal_cases)
    case (1 r ss)
    obtain sat satcrits where r: "r = (sat, satcrits)" by (cases r)
    have ss: "ms_inv ss" "ms_clauses ss = ms_clauses (ad_solver A1)" "ms_nextVar ss = ms_nextVar (ad_solver A1)"
      "ms_isSAT ss = sat" "hist_frozen (ms_hist ss) = hist_frozen (ms_hist (ad_solver A1))"
      "sat \<Longrightarrow> \<exists>\<tau>. icnf_sat \<tau> (ms_clauses (ad_solver A1)) \<and> icube_sat \<tau> (zs @ ?gs)
         \<and> (\<forall>l. ms_lit (ad_solver A1) l \<longrightarrow> ms_getAssignment ss l = Inr (if ilit_true \<tau> l then MV_TRUE else MV_FALSE))"
      "\<not> sat \<Longrightarrow> set satcrits \<subseteq> set (zs @ ?gs) \<and> distinct satcrits \<and> (\<forall>\<tau>. icnf_sat \<tau> (ms_clauses (ad_solver A1)) \<longrightarrow> \<not> icube_sat \<tau> satcrits)"
      using 1 by (auto simp: r)
    let ?A2 = "A1\<lparr>ad_solver := ss\<rparr>"
    have nv: "hist_nvars (ms_hist ss) = hist_nvars (ms_hist (ad_solver A1))"
      using ms ss(1,3) by (simp add: ms_inv_def)
    have asg: "ad_asg ?A2 = ad_asg A1" by (intro ext) (simp add: ad_asg_def)
    have inv2: "ad_inv ?A2" using inv1 ss(1,3,5) nv by (simp add: ad_inv_def)
    have "ad_frozen ?A2 = ad_frozen A1" using ss(5) by (simp add: ad_frozen_def)
    then have "ad_step A1 {} (\<lambda>_ _. True) ?A2"
      using inv2 ss(2,3) asg by (auto simp: ad_step_def ad_hasSAT_def ad_sat_def)
    then have step: "ad_step A (strip ` set as) (\<lambda>_ _. True) ?A2"
      by (rule ad_step_weaken[OF ad_step_trans[OF s(1)]]) auto
    have isS: "ad_isSAT ?A2 = sat" using ss(4) by (simp add: ad_isSAT_def)
    show ?case
    proof (cases sat)
      case True
      from ss(6)[OF True] obtain \<tau> where t: "icnf_sat \<tau> (ms_clauses (ad_solver A1))" "icube_sat \<tau> (zs @ ?gs)"
        "\<And>l. ms_lit (ad_solver A1) l \<Longrightarrow> ms_getAssignment ss l = Inr (if ilit_true \<tau> l then MV_TRUE else MV_FALSE)" by blast
      define \<sigma> where "\<sigma> = (\<lambda>i. case ad_IDToSAT A1 i of Some v \<Rightarrow> \<tau> v | None \<Rightarrow> False)"
      have asg_t: "ad_asg A1 \<sigma> \<tau> = \<tau>"
      proof
        fix v
        show "ad_asg A1 \<sigma> \<tau> v = \<tau> v"
        proof (cases "ad_SATToID A1 v")
          case (Some i)
          then have "ad_IDToSAT A1 i = Some v" using inv1 by (simp add: ad_inv_def)
          then show ?thesis using Some by (simp add: ad_asg_def \<sigma>_def)
        qed (simp add: ad_asg_def)
      qed
      have m: "ad_sat A \<sigma> \<tau>" "cube_sat \<sigma> as" "g \<noteq> GROUP_NULL \<longrightarrow> \<tau> g"
        using t(1,2) gsem[of \<sigma> \<tau>] sat1[of \<sigma> \<tau>] unfolding ad_sat_def[of A1] asg_t by blast+
      have "ad_safeGetAssignment ?A2 l = Inr (if ad_hasSAT ?A2 l then (if lit_true \<sigma> l then MV_TRUE else MV_FALSE) else MV_UNDEF)" for l
      proof (cases "ad_hasSAT ?A2 l")
        case h: True
        then have h1: "ad_hasSAT A1 l" by (simp add: ad_hasSAT_def)
        obtain z where z: "ad_toSAT A1 l = Inr z" "ms_lit (ad_solver A1) z" "ilit_true (ad_asg A1 \<sigma> \<tau>) z = lit_true \<sigma> l"
          using ad_toSAT_ok[OF inv1 h1] by blast
        have "ad_toSAT ?A2 l = Inr z" using z(1) by (simp add: ad_toSAT_def ad_SATVarOf_def)
        then show ?thesis
          using h isS True t(3)[OF z(2)] z(3) unfolding asg_t by (simp add: ad_safeGetAssignment_def)
      qed (use isS True in \<open>simp add: ad_safeGetAssignment_def\<close>)
      then have "ad_model ?A2 \<sigma>" using isS True by (simp add: ad_model_def)
      then show ?thesis using True step isS m by (auto simp: r)
    next
      case False
      note u = ss(7)[OF False]
      have fs: "ad_fromSAT ?A2 = ad_fromSAT A1" by (intro ext) (simp add: ad_fromSAT_def ad_IDOf_def)
      have ts: "ad_toSAT ?A2 = ad_toSAT A1" by (intro ext) (simp add: ad_toSAT_def ad_SATVarOf_def)
      have "\<forall>z\<in>set satcrits. (\<exists>l\<in>set as. ad_fromSAT ?A2 z = Inr l \<and> ad_toSAT ?A2 l = Inr z \<and> (\<forall>\<sigma> \<gamma>. ilit_true (ad_asg ?A2 \<sigma> \<gamma>) z = lit_true \<sigma> l)
          \<and> z \<notin> ad_groups ?A2) \<or> z = g \<and> g \<in> ad_groups ?A2"
      proof
        fix z assume "z \<in> set satcrits"
        then have "z \<in> set zs \<or> z = g \<and> g \<noteq> GROUP_NULL" using u by (auto split: if_splits)
        then show "(\<exists>l\<in>set as. ad_fromSAT ?A2 z = Inr l \<and> ad_toSAT ?A2 l = Inr z \<and> (\<forall>\<sigma> \<gamma>. ilit_true (ad_asg ?A2 \<sigma> \<gamma>) z = lit_true \<sigma> l)
          \<and> z \<notin> ad_groups ?A2) \<or> z = g \<and> g \<in> ad_groups ?A2"
          using toSATvec_lits[OF inv1 ad_step_has[OF s(1)] s(2)] g1 by (auto simp: fs ts asg)
      qed
      from ad_crits_ok[OF inv2 this] obtain cr where cr: "ad_crits ?A2 as satcrits = Inr cr" "set cr \<subseteq> set as" "distinct satcrits \<longrightarrow> distinct cr"
        "\<And>\<sigma> \<gamma>. \<gamma> g \<and> g \<in> ad_groups ?A2 \<or> g = GROUP_NULL \<Longrightarrow> cube_sat \<sigma> cr \<Longrightarrow> icube_sat (ad_asg ?A2 \<sigma> \<gamma>) satcrits" by blast
      have "\<not> cube_sat \<sigma> cr" if "ad_sat A \<sigma> \<gamma>" "g \<noteq> GROUP_NULL \<longrightarrow> \<gamma> g" for \<sigma> \<gamma>
        using cr(4)[of \<gamma> \<sigma>] u sat1[of \<sigma> \<gamma>] that g1 unfolding ad_sat_def[of A1] asg by auto
      then show ?thesis using False step isS cr(1-3) u by (auto simp: r)
    qed
  qed
  then show "wp getS (\<lambda>A. wp (thenS (assertS (g \<noteq> GROUP_NULL \<longrightarrow> g \<in> ad_groups A))
      (bindS (onSolver (ms_solve B (zs @ ?gs))) (\<lambda>(sat, satcrits). bindS getS (\<lambda>A.
         if \<not> sat then bindS (liftS (ad_crits A as satcrits)) (\<lambda>crits. retS (sat, crits)) else retS (sat, []))))) ?Q) A1"
    using g1 by (simp add: split_def)
qed

text \<open>The same without a group, in terms of the assignments of the IDs.\<close>

lemma ad_solve_wp:
  assumes inv: "ad_inv A"
  shows "wp (ad_solve B as) (\<lambda>(r, crits) A'. ad_step A (strip ` set as) (\<lambda>_ _. True) A' \<and> ad_isSAT A' = r
     \<and> (r \<longrightarrow> crits = [] \<and> (\<exists>\<sigma>. ad_mod A \<sigma> \<and> cube_sat \<sigma> as \<and> ad_model A' \<sigma>))
     \<and> (\<not> r \<longrightarrow> set crits \<subseteq> set as \<and> distinct crits \<and> (\<forall>\<sigma>. ad_mod A \<sigma> \<longrightarrow> \<not> cube_sat \<sigma> crits))) A"
  unfolding ad_solve_def
  by (rule wp_mono[OF ad_groupSolve_wp[OF inv]]) (auto simp: ad_mod_def)

end

subsection \<open>Simplification and the deduplicating subclass\<close>

lemma ad_fromSAT_ok:
  assumes "ad_inv A" "ms_lit (ad_solver A) z" "ad_groups A = {}"
  shows "\<exists>l. ad_fromSAT A z = Inr l \<and> (\<forall>\<sigma> \<gamma>. ilit_true (ad_asg A \<sigma> \<gamma>) z = lit_true \<sigma> l) \<and> ad_hasSAT A l"
proof -
  have v: "1 \<le> lit_strip z" "lit_strip z < ms_nextVar (ad_solver A)"
    using assms(2) by (auto simp: ms_lit_def lit_strip_def lit_is_negated_def)
  then obtain i where i: "ad_SATToID A (lit_strip z) = Some i" using assms(1,3) unfolding ad_inv_def by auto
  then have i': "ad_IDToSAT A i = Some (lit_strip z)" "strip i = i" using assms(1) unfolding ad_inv_def by blast+
  then have ni: "\<not> is_negated i" by (metis is_negated_strip)
  show ?thesis
    using i i' ni v
    by (auto simp: ad_fromSAT_def ad_IDOf_def ilit_true_def ad_asg_def lit_true_def ad_hasSAT_def lit_strip_def lit_is_negated_def)
qed

lemma ad_fromSAT_vec:
  assumes "ad_inv A" "ad_groups A = {}" "\<forall>z\<in>set c. ms_lit (ad_solver A) z"
  shows "\<exists>d. mapR (ad_fromSAT A) c = Inr d \<and> (\<forall>l\<in>set d. ad_hasSAT A l)
    \<and> (\<forall>\<sigma> \<gamma>. clause_sat \<sigma> d = (\<exists>z\<in>set c. ilit_true (ad_asg A \<sigma> \<gamma>) z) \<and> cube_sat \<sigma> d = icube_sat (ad_asg A \<sigma> \<gamma>) c)"
  using assms(3)
proof (induction c)
  case Nil
  then show ?case by (simp add: icube_sat_def)
next
  case (Cons z c)
  obtain d where d: "mapR (ad_fromSAT A) c = Inr d" "\<forall>l\<in>set d. ad_hasSAT A l"
    "\<And>\<sigma> \<gamma>. clause_sat \<sigma> d = (\<exists>z\<in>set c. ilit_true (ad_asg A \<sigma> \<gamma>) z)" "\<And>\<sigma> \<gamma>. cube_sat \<sigma> d = icube_sat (ad_asg A \<sigma> \<gamma>) c"
    using Cons by (metis list.set_intros(2))
  obtain l where l: "ad_fromSAT A z = Inr l" "\<And>\<sigma> \<gamma>. ilit_true (ad_asg A \<sigma> \<gamma>) z = lit_true \<sigma> l" "ad_hasSAT A l"
    using ad_fromSAT_ok[OF assms(1) _ assms(2), of z] Cons.prems by (metis list.set_intros(1))
  have "mapR (ad_fromSAT A) (z # c) = Inr (l # d)" using d(1) l(1) by simp
  moreover have "clause_sat \<sigma> (l # d) = (\<exists>z\<in>set (z # c). ilit_true (ad_asg A \<sigma> \<gamma>) z)" for \<sigma> \<gamma>
    using d(3)[of \<sigma> \<gamma>] l(2)[of \<sigma> \<gamma>] by simp
  moreover have "cube_sat \<sigma> (l # d) = icube_sat (ad_asg A \<sigma> \<gamma>) (z # c)" for \<sigma> \<gamma>
    using d(4)[of \<sigma> \<gamma>] l(2)[of \<sigma> \<gamma>] by (simp add: icube_sat_def)
  moreover have "\<forall>l\<in>set (l # d). ad_hasSAT A l" using d(2) l(3) by simp
  ultimately show ?case by blast
qed

lemma ad_fromSAT_vecs:
  assumes "ad_inv A" "ad_groups A = {}" "\<forall>c\<in>set C. \<forall>z\<in>set c. ms_lit (ad_solver A) z"
  shows "\<exists>D. mapR (mapR (ad_fromSAT A)) C = Inr D \<and> (\<forall>c\<in>set D. \<forall>l\<in>set c. ad_hasSAT A l)
    \<and> (\<forall>\<sigma> \<gamma>. cnf_sat \<sigma> D = icnf_sat (ad_asg A \<sigma> \<gamma>) C)"
  using assms(3)
proof (induction C)
  case Nil
  then show ?case by (simp add: icnf_sat_def)
next
  case (Cons c C)
  then obtain D where D: "mapR (mapR (ad_fromSAT A)) C = Inr D" "\<forall>c\<in>set D. \<forall>l\<in>set c. ad_hasSAT A l"
    "\<And>\<sigma> \<gamma>. cnf_sat \<sigma> D = icnf_sat (ad_asg A \<sigma> \<gamma>) C" by (metis list.set_intros(2))
  obtain d where d: "mapR (ad_fromSAT A) c = Inr d" "\<forall>l\<in>set d. ad_hasSAT A l"
    "\<And>\<sigma> \<gamma>. clause_sat \<sigma> d = (\<exists>z\<in>set c. ilit_true (ad_asg A \<sigma> \<gamma>) z)"
    using ad_fromSAT_vec[OF assms(1,2), of c] Cons.prems by (metis list.set_intros(1))
  have "mapR (mapR (ad_fromSAT A)) (c # C) = Inr (d # D)" using d(1) D(1) by simp
  moreover have "cnf_sat \<sigma> (d # D) = icnf_sat (ad_asg A \<sigma> \<gamma>) (c # C)" for \<sigma> \<gamma>
    using d(3)[of \<sigma> \<gamma>] D(3)[of \<sigma> \<gamma>] by (simp add: icnf_sat_def)
  moreover have "\<forall>c\<in>set (d # D). \<forall>l\<in>set c. ad_hasSAT A l" using d(2) D(2) by simp
  ultimately show ?case by blast
qed

text \<open>Assignments of the solver's variables and of the IDs, over the frozen ones.\<close>

lemma ad_frozen_lift:
  assumes inv: "ad_inv A" and g: "ad_groups A = {}"
  shows "(\<exists>\<tau>. (\<forall>v\<in>set (hist_frozen (ms_hist (ad_solver A))). \<tau> (int v + 1) = ad_asg A \<sigma> \<gamma> (int v + 1)) \<and> P \<tau>)
     \<longleftrightarrow> (\<exists>\<rho>. (\<forall>i\<in>ad_frozen A. \<rho> i = \<sigma> i) \<and> (\<exists>\<gamma>. P (ad_asg A \<rho> \<gamma>)))"
    (is "?L \<longleftrightarrow> ?R")
proof
  assume ?L
  then obtain \<tau> where t: "\<And>v. v \<in> set (hist_frozen (ms_hist (ad_solver A))) \<Longrightarrow> \<tau> (int v + 1) = ad_asg A \<sigma> \<gamma> (int v + 1)" "P \<tau>"
    by blast
  define \<rho> where "\<rho> = (\<lambda>i. case ad_IDToSAT A i of Some v \<Rightarrow> \<tau> v | None \<Rightarrow> \<sigma> i)"
  have "ad_asg A \<rho> \<tau> v = \<tau> v" for v
  proof (cases "ad_SATToID A v")
    case (Some i)
    then have "ad_IDToSAT A i = Some v" using inv by (simp add: ad_inv_def)
    then show ?thesis using Some by (simp add: ad_asg_def \<rho>_def)
  qed (simp add: ad_asg_def)
  then have "ad_asg A \<rho> \<tau> = \<tau>" by blast
  moreover have "\<rho> i = \<sigma> i" if fi: "i \<in> ad_frozen A" for i
  proof -
    obtain v where v: "v \<in> set (hist_frozen (ms_hist (ad_solver A)))" "ad_SATToID A (int v + 1) = Some i"
      using fi by (auto simp: ad_frozen_def)
    then have "ad_IDToSAT A i = Some (int v + 1)" using inv by (simp add: ad_inv_def)
    then show ?thesis using t(1)[OF v(1)] v(2) by (simp add: \<rho>_def ad_asg_def)
  qed
  ultimately show ?R using t(2) by metis
next
  assume ?R
  then obtain \<rho> \<gamma>' where r: "\<forall>i\<in>ad_frozen A. \<rho> i = \<sigma> i" "P (ad_asg A \<rho> \<gamma>')" by blast
  have "ad_asg A \<rho> \<gamma>' (int v + 1) = ad_asg A \<sigma> \<gamma> (int v + 1)" if "v \<in> set (hist_frozen (ms_hist (ad_solver A)))" for v
  proof -
    have "v < hist_nvars (ms_hist (ad_solver A))" "ms_nextVar (ad_solver A) = 1 + int (hist_nvars (ms_hist (ad_solver A)))"
      using inv that by (auto simp: ad_inv_def ms_inv_def)
    then obtain i where i: "ad_SATToID A (int v + 1) = Some i"
      using inv g unfolding ad_inv_def by force
    then have "i \<in> ad_frozen A" using that by (auto simp: ad_frozen_def)
    then show ?thesis using r(1) i by (simp add: ad_asg_def)
  qed
  then show ?L using r(2) by blast
qed

context sat_backend
begin

text \<open>\<open>simplify\<close> keeps the assignments of the frozen IDs that can be completed to a model.\<close>

lemma ad_simplify_wp:
  assumes inv: "ad_inv A" and k: "ad_kind A = MINISATSIMP" and g: "ad_groups A = {}" and sat: "ad_mod A \<sigma>0"
  shows "wp (ad_simplify B) (\<lambda>C A'. (\<forall>c\<in>set C. \<forall>l\<in>set c. ad_hasSAT A l)
     \<and> (\<forall>\<sigma>. ad_mod A \<sigma> \<longrightarrow> cnf_sat \<sigma> C)
     \<and> (\<forall>\<sigma>. (\<exists>\<tau>. (\<forall>i\<in>ad_frozen A. \<tau> i = \<sigma> i) \<and> ad_mod A \<tau>)
        \<longleftrightarrow> (\<exists>\<tau>. (\<forall>i\<in>ad_frozen A. \<tau> i = \<sigma> i) \<and> cnf_sat \<tau> C))) A"
proof -
  have ms: "ms_inv (ad_solver A)" using inv by (simp add: ad_inv_def)
  obtain \<tau>0 where t0: "icnf_sat \<tau>0 (ms_clauses (ad_solver A))" using sat by (auto simp: ad_mod_def ad_sat_def)
  let ?goal = "\<lambda>C A'. (\<forall>c\<in>set C. \<forall>l\<in>set c. ad_hasSAT A l)
     \<and> (\<forall>\<sigma>. ad_mod A \<sigma> \<longrightarrow> cnf_sat \<sigma> C)
     \<and> (\<forall>\<sigma>. (\<exists>\<tau>. (\<forall>i\<in>ad_frozen A. \<tau> i = \<sigma> i) \<and> ad_mod A \<tau>)
        \<longleftrightarrow> (\<exists>\<tau>. (\<forall>i\<in>ad_frozen A. \<tau> i = \<sigma> i) \<and> cnf_sat \<tau> C))"
  have "wp (ms_eliminate B) (\<lambda>_ s. \<exists>D u. mapR (mapR (ad_fromSAT (A\<lparr>ad_solver := s\<rparr>))) (ms_clauses s) = Inr D
     \<and> mapR (ad_fromSAT (A\<lparr>ad_solver := s\<rparr>)) (ms_trail s) = Inr u \<and> ?goal (D @ map (\<lambda>l. [l]) u) ()) (ad_solver A)"
  proof (rule wp_mono[OF ms_eliminate_wp[OF ms t0]], elim conjE)
    fix x :: unit and s :: msolver
    assume c: "\<forall>c\<in>set (ms_clauses s). \<forall>l\<in>set c. ms_lit (ad_solver A) l" and t: "\<forall>l\<in>set (ms_trail s). ms_lit (ad_solver A) l"
      and snd: "\<forall>\<tau>. icnf_sat \<tau> (ms_clauses (ad_solver A)) \<longrightarrow> icnf_sat \<tau> (ms_clauses s) \<and> icube_sat \<tau> (ms_trail s)"
      and e: "\<forall>\<sigma>. (\<exists>\<tau>. (\<forall>v\<in>set (hist_frozen (ms_hist (ad_solver A))). \<tau> (int v + 1) = \<sigma> (int v + 1)) \<and> icnf_sat \<tau> (ms_clauses (ad_solver A)))
       \<longleftrightarrow> (\<exists>\<tau>. (\<forall>v\<in>set (hist_frozen (ms_hist (ad_solver A))). \<tau> (int v + 1) = \<sigma> (int v + 1)) \<and> icnf_sat \<tau> (ms_clauses s)
             \<and> icube_sat \<tau> (ms_trail s))"
    have fs: "ad_fromSAT (A\<lparr>ad_solver := s\<rparr>) = ad_fromSAT A" by (intro ext) (simp add: ad_fromSAT_def ad_IDOf_def)
    obtain D where D: "mapR (mapR (ad_fromSAT A)) (ms_clauses s) = Inr D" "\<forall>c\<in>set D. \<forall>l\<in>set c. ad_hasSAT A l"
      "\<And>\<sigma> \<gamma>. cnf_sat \<sigma> D = icnf_sat (ad_asg A \<sigma> \<gamma>) (ms_clauses s)"
      using ad_fromSAT_vecs[OF inv g c] by blast
    obtain u where u: "mapR (ad_fromSAT A) (ms_trail s) = Inr u" "\<forall>l\<in>set u. ad_hasSAT A l"
      "\<And>\<sigma> \<gamma>. cube_sat \<sigma> u = icube_sat (ad_asg A \<sigma> \<gamma>) (ms_trail s)"
      using ad_fromSAT_vec[OF inv g t] by metis
    have units: "cnf_sat \<sigma> (map (\<lambda>l. [l]) u) = cube_sat \<sigma> u" for \<sigma> by (simp add: cnf_sat_def cube_sat_def)
    have "(\<exists>\<tau>. (\<forall>i\<in>ad_frozen A. \<tau> i = \<sigma> i) \<and> ad_mod A \<tau>)
        \<longleftrightarrow> (\<exists>\<tau>. (\<forall>i\<in>ad_frozen A. \<tau> i = \<sigma> i) \<and> cnf_sat \<tau> (D @ map (\<lambda>l. [l]) u))" for \<sigma>
      using e[rule_format, of "ad_asg A \<sigma> (\<lambda>_. False)", unfolded ad_frozen_lift[OF inv g]]
      by (simp add: ad_mod_def ad_sat_def units D(3)[symmetric] u(3)[symmetric])
    moreover have "cnf_sat \<sigma> (D @ map (\<lambda>l. [l]) u)" if "ad_mod A \<sigma>" for \<sigma>
      using that snd D(3) u(3) by (auto simp: ad_mod_def ad_sat_def units)
    ultimately show "\<exists>D u. mapR (mapR (ad_fromSAT (A\<lparr>ad_solver := s\<rparr>))) (ms_clauses s) = Inr D
     \<and> mapR (ad_fromSAT (A\<lparr>ad_solver := s\<rparr>)) (ms_trail s) = Inr u \<and> ?goal (D @ map (\<lambda>l. [l]) u) ()"
      using D(1,2) u(1,2) unfolding fs by auto
  qed
  then show ?thesis
    unfolding ad_simplify_def using k by (auto simp: wp_onSolver elim!: wp_mono)
qed
end

text \<open>The subclass adds a clause unless a reordering of it was added before.\<close>

definition dd_inv :: "dedupAdaptor \<Rightarrow> bool" where
  "dd_inv D = (ad_inv (dd_base D) \<and> (\<forall>\<sigma>. ad_mod (dd_base D) \<sigma> \<longrightarrow> (\<forall>c\<in>dd_clauses D. clause_sat \<sigma> c)))"

lemma dd_addClause_wp:
  assumes inv: "dd_inv D" and ne: "c \<noteq> []"
  shows "wp (dd_addClause c) (\<lambda>_ D'. dd_inv D' \<and> (\<forall>\<sigma>. ad_mod (dd_base D') \<sigma> \<longleftrightarrow> ad_mod (dd_base D) \<sigma> \<and> clause_sat \<sigma> c)) D"
proof (cases "sort c \<in> dd_clauses D")
  case True
  have "clause_sat \<sigma> (sort c) = clause_sat \<sigma> c" for \<sigma> by (simp add: clause_sat_def)
  then show ?thesis using True inv by (auto simp: wp_def dd_addClause_def Let_def dd_inv_def)
next
  case False
  have sc: "clause_sat \<sigma> (sort c) = clause_sat \<sigma> c" for \<sigma> by (simp add: clause_sat_def)
  have ne': "sort c \<noteq> []" using ne by (metis set_empty set_sort)
  have iA: "ad_inv (dd_base D)" using inv by (simp add: dd_inv_def)
  from ad_addClause_step[OF iA ne'] obtain A' where A': "ad_addClause (sort c) (dd_base D) = Inr ((), A')"
    "ad_step (dd_base D) (strip ` set (sort c)) (\<lambda>\<sigma> \<gamma>. clause_sat \<sigma> (sort c)) A'"
    unfolding wp_iff by auto
  have "ad_mod A' \<sigma> \<longleftrightarrow> ad_mod (dd_base D) \<sigma> \<and> clause_sat \<sigma> c" for \<sigma>
    using ad_step_mod[OF A'(2)] sc by simp
  then show ?thesis using False A'(1) ad_step_inv[OF A'(2)] inv sc
    by (auto simp: wp_def dd_addClause_def Let_def dd_inv_def)
qed
end
