(* ===== verification/SolverBuild.thy ===== *)
theory SolverBuild
  imports SatAdaptor
begin

text \<open>
  How the clients of the adaptor set their solvers up: a fresh adaptor filled with clauses, and
  the simplification of a clause set by a second, simplifying adaptor in which the variables that
  later calls mention have been frozen.  \<open>simp_of C F D\<close> is what such a simplification
  guarantees about its result, whatever was simplified.
\<close>

subsection \<open>Operations that create no groups\<close>

definition keepG :: "(adaptor, 'a) sm \<Rightarrow> bool" where
  "keepG m = (\<forall>A a A'. m A = Inr (a, A') \<longrightarrow> ad_groups A' = ad_groups A)"

lemma keepG_bindS: "keepG m \<Longrightarrow> (\<And>a. keepG (f a)) \<Longrightarrow> keepG (bindS m f)"
  unfolding keepG_def by (auto simp: bindS_def split: sum.splits)

lemma keepG_thenS: "keepG m \<Longrightarrow> keepG k \<Longrightarrow> keepG (thenS m k)"
  unfolding thenS_def by (rule keepG_bindS)

lemma keepG_basic [intro]: "keepG (retS a)" "keepG getS" "keepG (assertS b)" "keepG (liftS r)" "keepG (onSolver m)"
  by (auto simp: keepG_def retS_def getS_def assertS_def liftS_def onSolver_def split: sum.splits)

lemma keepG_modifyS: "(\<And>A. ad_groups (f A) = ad_groups A) \<Longrightarrow> keepG (modifyS f)"
  by (auto simp: keepG_def modifyS_def)

lemma keepG_introduce: "keepG (ad_introduceVariable i)"
proof -
  have "keepG (case x of None \<Rightarrow> m | Some _ \<Rightarrow> retS ())" if "keepG m" for x :: "int option" and m
    using that by (cases x) auto
  note opt = this
  show ?thesis
    unfolding ad_introduceVariable_def Let_def
    by (intro keepG_bindS opt keepG_thenS keepG_basic keepG_modifyS) auto
qed

lemma keepG_toSATvec: "keepG (ad_toSATvec c)"
  by (induction c) (auto intro!: keepG_bindS keepG_thenS keepG_introduce)

lemma keepG_addClause: "keepG (ad_addClause c)"
  unfolding ad_addClause_def by (intro keepG_bindS keepG_thenS keepG_toSATvec keepG_basic)

lemma keepG_iterS: "(\<And>x. keepG (f x)) \<Longrightarrow> keepG (iterS f xs)"
  by (induction xs) (auto intro!: keepG_bindS)

lemma keepG_freeze: "keepG (ad_freeze i)"
  unfolding ad_freeze_def by (auto intro!: keepG_bindS keepG_thenS keepG_introduce)

lemma keepG_wp: "keepG m \<Longrightarrow> wp m Q A \<Longrightarrow> wp m (\<lambda>a A'. Q a A' \<and> ad_groups A' = ad_groups A) A"
  unfolding keepG_def wp_def by (auto split: sum.splits)

subsection \<open>A solver filled with clauses\<close>

text \<open>A new adaptor has no groups.\<close>

lemma ad_new_groups: "ad_new k = Inr A \<Longrightarrow> ad_groups A = {}"
proof -
  assume "ad_new k = Inr A"
  then obtain u where "ad_reset (ad_blank k) = Inr (u, A)" by (auto simp: ad_new_def bindR_Inr_iff)
  then have "thenS (ad_introduceVariable ID_TRUE) (ad_addClause [ID_TRUE]) (ad_blank (ad_kind (ad_blank k))) = Inr (u, A)"
    by (simp add: ad_reset_def thenS_def bindS_def modifyS_def)
  moreover have "keepG (thenS (ad_introduceVariable ID_TRUE) (ad_addClause [ID_TRUE]))"
    by (intro keepG_thenS keepG_introduce keepG_addClause)
  ultimately show ?thesis unfolding keepG_def by (metis ad_blank_def adaptor.select_convs(2))
qed

definition solver_for :: "adaptor \<Rightarrow> satBackend \<Rightarrow> clauseVec \<Rightarrow> bool" where
  "solver_for A k C = (ad_inv A \<and> ad_kind A = k \<and> (\<forall>\<sigma>. ad_mod A \<sigma> \<longleftrightarrow> const_ok \<sigma> \<and> cnf_sat \<sigma> C))"

lemma ad_new_solver: "wpr (ad_new k) (\<lambda>A. solver_for A k [] \<and> ad_groups A = {}
    \<and> (\<forall>v. ad_hasSAT A v \<longleftrightarrow> strip v = ID_FALSE))"
  using ad_new_wp[of k] ad_new_groups[of k] by (auto simp: wpr_iff solver_for_def)

lemma solver_for_add:
  assumes "solver_for A k C" "[] \<notin> set D"
  shows "wp (ad_addClauses D) (\<lambda>_ A'. solver_for A' k (C @ D) \<and> ad_groups A' = ad_groups A
    \<and> (\<forall>v. ad_hasSAT A' v \<longleftrightarrow> ad_hasSAT A v \<or> strip v \<in> cnf_vars D) \<and> ad_frozen A \<subseteq> ad_frozen A') A"
proof -
  have inv: "ad_inv A" using assms(1) by (simp add: solver_for_def)
  have kg: "keepG (ad_addClauses D)" unfolding ad_addClauses_def by (intro keepG_iterS keepG_addClause)
  show ?thesis
  proof (rule wp_mono[OF keepG_wp[OF kg ad_addClauses_step[OF inv assms(2)]]], elim conjE)
    fix u A'
    assume s: "ad_step A (cnf_vars D) (\<lambda>\<sigma> \<gamma>. cnf_sat \<sigma> D) A'" and g: "ad_groups A' = ad_groups A"
    show "solver_for A' k (C @ D) \<and> ad_groups A' = ad_groups A
      \<and> (\<forall>v. ad_hasSAT A' v \<longleftrightarrow> ad_hasSAT A v \<or> strip v \<in> cnf_vars D) \<and> ad_frozen A \<subseteq> ad_frozen A'"
      using s g assms(1) ad_step_mod[OF s] unfolding solver_for_def ad_step_def by auto
  qed
qed

lemma solver_for_cong: "solver_for A k C \<Longrightarrow> (\<And>\<sigma>. const_ok \<sigma> \<Longrightarrow> cnf_sat \<sigma> C = cnf_sat \<sigma> D) \<Longrightarrow> solver_for A k D"
  unfolding solver_for_def by blast

lemma solver_for_inv: "solver_for A k C \<Longrightarrow> ad_inv A"
  by (simp add: solver_for_def)

lemma cube_sat_mono: "set b \<subseteq> set as \<Longrightarrow> cube_sat \<sigma> as \<Longrightarrow> cube_sat \<sigma> b"
  by (auto simp: cube_sat_def)

lemma solver_for_clause:
  assumes "solver_for A k C" "c \<noteq> []"
  shows "wp (ad_addClause c) (\<lambda>_ A'. solver_for A' k (C @ [c])) A"
proof (rule wp_mono[OF ad_addClause_step[OF solver_for_inv[OF assms(1)] assms(2)]])
  fix u A'
  assume s: "ad_step A (strip ` set c) (\<lambda>\<sigma> \<gamma>. clause_sat \<sigma> c) A'"
  show "solver_for A' k (C @ [c])"
    using s assms(1) ad_step_mod[OF s] unfolding solver_for_def ad_step_def by auto
qed

context sat_backend
begin

lemma solver_for_solve:
  assumes "solver_for A k C"
  shows "wp (ad_solve B as) (\<lambda>(r, crits) A'. solver_for A' k C \<and> ad_isSAT A' = r
     \<and> (r \<longrightarrow> crits = [] \<and> (\<exists>\<sigma>. const_ok \<sigma> \<and> cnf_sat \<sigma> C \<and> cube_sat \<sigma> as \<and> ad_model A' \<sigma>))
     \<and> (\<not> r \<longrightarrow> set crits \<subseteq> set as \<and> distinct crits \<and> (\<forall>\<sigma>. const_ok \<sigma> \<longrightarrow> cnf_sat \<sigma> C \<longrightarrow> \<not> cube_sat \<sigma> crits))
     \<and> (\<forall>v. ad_hasSAT A' v \<longleftrightarrow> ad_hasSAT A v \<or> strip v \<in> strip ` set as)) A"
proof (rule wp_mono[OF ad_solve_wp[OF solver_for_inv[OF assms]]], goal_cases)
  case (1 r A')
  then have s: "ad_step A (strip ` set as) (\<lambda>_ _. True) A'" by auto
  have "solver_for A' k C" using s ad_step_mod[OF s] assms unfolding solver_for_def ad_step_def by auto
  moreover have "\<forall>v. ad_hasSAT A' v \<longleftrightarrow> ad_hasSAT A v \<or> strip v \<in> strip ` set as" using s by (simp add: ad_step_def)
  ultimately show ?case
    using 1 assms by (auto simp: solver_for_def)
qed

text \<open>The answer alone.\<close>

lemma solver_for_ask:
  assumes "solver_for A k C"
  shows "wp (ad_solve B as) (\<lambda>(r, crits) A'. solver_for A' k C
     \<and> (r \<longleftrightarrow> (\<exists>\<sigma>. const_ok \<sigma> \<and> cnf_sat \<sigma> C \<and> cube_sat \<sigma> as))) A"
  by (rule wp_mono[OF solver_for_solve[OF assms]]) (auto dest: cube_sat_mono)

end

subsection \<open>Simplification\<close>

definition simp_of :: "clauseVec \<Rightarrow> id set \<Rightarrow> clauseVec \<Rightarrow> bool" where
  "simp_of C F D = ([] \<notin> set D \<and> (\<forall>\<sigma>. const_ok \<sigma> \<longrightarrow> cnf_sat \<sigma> C \<longrightarrow> cnf_sat \<sigma> D)
     \<and> (\<forall>\<sigma>. const_ok \<sigma> \<longrightarrow> cnf_sat \<sigma> D \<longrightarrow> (\<exists>\<tau>. (\<forall>v\<in>F. \<tau> v = \<sigma> v) \<and> const_ok \<tau> \<and> cnf_sat \<tau> C)))"

lemma simp_of_refl: "[] \<notin> set C \<Longrightarrow> simp_of C F C"
  by (auto simp: simp_of_def)

lemma simp_of_query:
  assumes "simp_of C F D" "\<And>\<sigma> \<tau>. (\<And>v. v \<in> F \<Longrightarrow> \<sigma> v = \<tau> v) \<Longrightarrow> Q \<sigma> \<Longrightarrow> Q \<tau>"
  shows "(\<exists>\<sigma>. const_ok \<sigma> \<and> cnf_sat \<sigma> D \<and> Q \<sigma>) \<longleftrightarrow> (\<exists>\<sigma>. const_ok \<sigma> \<and> cnf_sat \<sigma> C \<and> Q \<sigma>)"
  using assms unfolding simp_of_def by metis

text \<open>The calls on a local \<open>simpSolver\<close>: \<open>addClauses(C)\<close>, the \<open>freeze\<close> calls in their order
  (a single \<open>freeze(id)\<close> is the range of one element), \<open>simplify()\<close>.\<close>

definition simp_run :: "backend \<Rightarrow> clauseVec \<Rightarrow> (id list \<times> bool) list \<Rightarrow> clauseVec res" where
  "simp_run B C fz = bindR (ad_new MINISATSIMP) (evalS (thenS (ad_addClauses C)
     (thenS (iterS (\<lambda>(ids, primes). ad_freezeVec ids primes) fz) (ad_simplify B))))"

definition fz_vars :: "(id list \<times> bool) list \<Rightarrow> id set" where
  "fz_vars fz = (\<Union>(ids, primes)\<in>set fz. strip ` set ids \<union> (if primes then (\<lambda>i. strip (prime1 i)) ` set ids else {}))"

lemma fz_vars_simps [simp]:
  "fz_vars [] = {}"
  "fz_vars ((ids, p) # fz) = strip ` set ids \<union> (if p then (\<lambda>i. strip (prime1 i)) ` set ids else {}) \<union> fz_vars fz"
  by (auto simp: fz_vars_def)

lemma ad_freezeVec_step:
  assumes "ad_inv A" "ad_kind A = MINISATSIMP"
  shows "wp (ad_freezeVec ids p) (\<lambda>_ A'. ad_inv A' \<and> ad_kind A' = MINISATSIMP \<and> ad_groups A' = ad_groups A
     \<and> (\<forall>\<sigma>. ad_mod A' \<sigma> = ad_mod A \<sigma>) \<and> ad_frozen A' = ad_frozen A \<union> fz_vars [(ids, p)]) A"
  using assms
proof (induction ids arbitrary: A)
  case Nil
  then show ?case by (simp add: ad_freezeVec_def)
next
  case (Cons i ids)
  have one: "wp (ad_freeze j) (\<lambda>_ A'. ad_inv A' \<and> ad_kind A' = MINISATSIMP \<and> ad_groups A' = ad_groups A
     \<and> (\<forall>\<sigma>. ad_mod A' \<sigma> = ad_mod A \<sigma>) \<and> ad_frozen A' = insert (strip j) (ad_frozen A)) A"
    if "ad_inv A" "ad_kind A = MINISATSIMP" for j A
  proof (rule wp_mono[OF keepG_wp[OF keepG_freeze ad_freeze_step[OF that(1)]]], elim conjE)
    fix u A'
    assume s: "ad_step A {strip j} (\<lambda>_ _. True) A'"
      and "ad_kind A = MINISATSIMP \<longrightarrow> ad_frozen A' = insert (strip j) (ad_frozen A)" "ad_groups A' = ad_groups A"
    then show "ad_inv A' \<and> ad_kind A' = MINISATSIMP \<and> ad_groups A' = ad_groups A
     \<and> (\<forall>\<sigma>. ad_mod A' \<sigma> = ad_mod A \<sigma>) \<and> ad_frozen A' = insert (strip j) (ad_frozen A)"
      using that ad_step_mod[OF s] by (simp add: ad_step_def)
  qed
  have two: "wp (thenS (ad_freeze i) (if p then ad_freeze (prime1 i) else retS ())) (\<lambda>_ A'. ad_inv A'
     \<and> ad_kind A' = MINISATSIMP \<and> ad_groups A' = ad_groups A
     \<and> (\<forall>\<sigma>. ad_mod A' \<sigma> = ad_mod A \<sigma>) \<and> ad_frozen A' = ad_frozen A \<union> fz_vars [([i], p)]) A"
    unfolding wp_thenS
  proof (rule wp_mono[OF one[OF Cons.prems]], elim conjE)
    fix u A1
    assume a: "ad_inv A1" "ad_kind A1 = MINISATSIMP" "ad_groups A1 = ad_groups A" "\<forall>\<sigma>. ad_mod A1 \<sigma> = ad_mod A \<sigma>"
      "ad_frozen A1 = insert (strip i) (ad_frozen A)"
    show "wp (if p then ad_freeze (prime1 i) else retS ()) (\<lambda>_ A'. ad_inv A'
     \<and> ad_kind A' = MINISATSIMP \<and> ad_groups A' = ad_groups A
     \<and> (\<forall>\<sigma>. ad_mod A' \<sigma> = ad_mod A \<sigma>) \<and> ad_frozen A' = ad_frozen A \<union> fz_vars [([i], p)]) A1"
    proof (cases p)
      case True
      then show ?thesis using wp_mono[OF one[OF a(1,2), of "prime1 i"]] a by simp
    qed (use a in simp)
  qed
  show ?case
    unfolding ad_freezeVec_def iterS.simps wp_bindS
  proof (rule wp_mono[OF two], elim conjE)
    fix u A1
    assume a: "ad_inv A1" "ad_kind A1 = MINISATSIMP" "ad_groups A1 = ad_groups A" "\<forall>\<sigma>. ad_mod A1 \<sigma> = ad_mod A \<sigma>"
      "ad_frozen A1 = ad_frozen A \<union> fz_vars [([i], p)]"
    show "wp (iterS (\<lambda>i. thenS (ad_freeze i) (if p then ad_freeze (prime1 i) else retS ())) ids)
       (\<lambda>_ A'. ad_inv A' \<and> ad_kind A' = MINISATSIMP \<and> ad_groups A' = ad_groups A
     \<and> (\<forall>\<sigma>. ad_mod A' \<sigma> = ad_mod A \<sigma>) \<and> ad_frozen A' = ad_frozen A \<union> fz_vars [(i # ids, p)]) A1"
      by (rule wp_mono[OF Cons.IH[OF a(1,2), unfolded ad_freezeVec_def]]) (use a in auto)
  qed
qed

lemma ad_freezes_step:
  assumes "ad_inv A" "ad_kind A = MINISATSIMP"
  shows "wp (iterS (\<lambda>(ids, primes). ad_freezeVec ids primes) fz) (\<lambda>_ A'. ad_inv A' \<and> ad_kind A' = MINISATSIMP
     \<and> ad_groups A' = ad_groups A \<and> (\<forall>\<sigma>. ad_mod A' \<sigma> = ad_mod A \<sigma>) \<and> ad_frozen A' = ad_frozen A \<union> fz_vars fz) A"
  using assms
proof (induction fz arbitrary: A)
  case (Cons x fz)
  obtain ids p where x: "x = (ids, p)" by force
  show ?case
    unfolding x iterS.simps wp_bindS prod.case
    by (rule wp_mono[OF ad_freezeVec_step[OF Cons.prems]], elim conjE, rule wp_mono[OF Cons.IH]) auto
qed simp

context sat_backend
begin

lemma simp_run_wp:
  assumes ne: "[] \<notin> set C" and sat: "const_ok \<sigma>0" "cnf_sat \<sigma>0 C"
  shows "wpr (simp_run B C fz) (\<lambda>D. simp_of C (fz_vars fz) D)"
proof -
  obtain A0 where A0: "ad_new MINISATSIMP = Inr A0" "solver_for A0 MINISATSIMP []" "ad_groups A0 = {}"
    using ad_new_solver[of MINISATSIMP] by (auto simp: wpr_iff)
  have "wp (thenS (ad_addClauses C) (thenS (iterS (\<lambda>(ids, primes). ad_freezeVec ids primes) fz) (ad_simplify B)))
     (\<lambda>D _. simp_of C (fz_vars fz) D) A0"
    unfolding wp_thenS
  proof (rule wp_mono[OF solver_for_add[OF A0(2) ne]], elim conjE, goal_cases)
    case (1 u A1)
    then have A1: "ad_inv A1" "ad_kind A1 = MINISATSIMP" "ad_groups A1 = {}" "\<And>\<sigma>. ad_mod A1 \<sigma> \<longleftrightarrow> const_ok \<sigma> \<and> cnf_sat \<sigma> C"
      using A0(3) by (auto simp: solver_for_def)
    show ?case
    proof (rule wp_mono[OF ad_freezes_step[OF A1(1,2)]], elim conjE, goal_cases)
      case (1 u A2)
      then have m: "\<And>\<sigma>. ad_mod A2 \<sigma> \<longleftrightarrow> const_ok \<sigma> \<and> cnf_sat \<sigma> C" and g: "ad_groups A2 = {}" using A1 by auto
      have "ad_mod A2 \<sigma>0" using m sat by blast
      then show ?case
      proof (rule wp_mono[OF ad_simplify_wp[OF 1(1,2) g]], elim conjE, goal_cases)
        case D: (1 D A3)
        have "[] \<notin> set D"
        proof
          assume "[] \<in> set D"
          moreover have "cnf_sat \<sigma>0 D" using D(3) m sat by blast
          ultimately show False unfolding cnf_sat_def using clause_sat_simps(1) by blast
        qed
        moreover have "\<exists>\<tau>. (\<forall>v\<in>fz_vars fz. \<tau> v = \<sigma> v) \<and> const_ok \<tau> \<and> cnf_sat \<tau> C" if "cnf_sat \<sigma> D" for \<sigma>
          using D(4)[rule_format, of \<sigma>] that m 1(5) by (metis Un_iff)
        ultimately show ?case unfolding simp_of_def using D(3) m by blast
      qed
    qed
  qed
  then show ?thesis unfolding simp_run_def by (simp add: A0(1) del: wp_thenS)
qed

end

text \<open>A clause set with a temporary clause, and models up to the variables the solver knows.\<close>

lemma ad_mod_agree:
  assumes inv: "ad_inv A" and ag: "\<And>v. ad_hasSAT A v \<Longrightarrow> \<sigma> v = \<sigma>' v"
  shows "ad_mod A \<sigma> = ad_mod A \<sigma>'"
proof -
  have "ad_asg A \<sigma> \<gamma> v = ad_asg A \<sigma>' \<gamma> v" for \<gamma> v
  proof (cases "ad_SATToID A v")
    case (Some i)
    then have "ad_IDToSAT A i = Some v" "strip i = i" using inv unfolding ad_inv_def by blast+
    then have "ad_hasSAT A i" by (simp add: ad_hasSAT_def)
    then show ?thesis using ag Some by (simp add: ad_asg_def)
  qed (simp add: ad_asg_def)
  then have "ad_asg A \<sigma> \<gamma> = ad_asg A \<sigma>' \<gamma>" for \<gamma> by (rule ext)
  then show ?thesis by (simp add: ad_mod_def ad_sat_def)
qed

lemma lit_true_known: "ad_hasSAT A l \<Longrightarrow> (\<And>v. ad_hasSAT A v \<Longrightarrow> \<sigma> v = \<sigma>' v) \<Longrightarrow> lit_true \<sigma> l = lit_true \<sigma>' l"
  by (rule lit_true_cong) (simp add: ad_hasSAT_def)

definition opt_clause :: "bool \<Rightarrow> clause \<Rightarrow> clauseVec" where
  "opt_clause b c = (if b then [c] else [])"

context sat_backend
begin

lemma solver_for_groupSolve:
  assumes C: "solver_for A k C" and ne: "b \<Longrightarrow> c \<noteq> []"
  shows "wp (bindS (if b then ad_withGroup c else retS GROUP_NULL) (\<lambda>g. ad_groupSolve B g as)) (\<lambda>(r, crits) A'.
     solver_for A' k C \<and> ad_isSAT A' = r \<and> (\<forall>v. ad_hasSAT A v \<longrightarrow> ad_hasSAT A' v)
     \<and> (r \<longrightarrow> (\<exists>\<sigma>. ad_model A' \<sigma> \<and> const_ok \<sigma> \<and> (\<forall>\<sigma>'. (\<forall>v. ad_hasSAT A' v \<longrightarrow> \<sigma>' v = \<sigma> v) \<longrightarrow>
          const_ok \<sigma>' \<and> cnf_sat \<sigma>' (C @ opt_clause b c) \<and> cube_sat \<sigma>' as)))
     \<and> (\<not> r \<longrightarrow> set crits \<subseteq> set as \<and> distinct crits \<and> (\<forall>\<sigma>. const_ok \<sigma> \<longrightarrow> cnf_sat \<sigma> (C @ opt_clause b c) \<longrightarrow> \<not> cube_sat \<sigma> crits))) A"
proof -
  have inv: "ad_inv A" and sem: "\<And>\<sigma>. ad_mod A \<sigma> \<longleftrightarrow> const_ok \<sigma> \<and> cnf_sat \<sigma> C" and k: "ad_kind A = k"
    using C by (auto simp: solver_for_def)
  have go: "wp (ad_groupSolve B g as) (\<lambda>(r, crits) A'.
     solver_for A' k C \<and> ad_isSAT A' = r \<and> (\<forall>v. ad_hasSAT A v \<longrightarrow> ad_hasSAT A' v)
     \<and> (r \<longrightarrow> (\<exists>\<sigma>. ad_model A' \<sigma> \<and> const_ok \<sigma> \<and> (\<forall>\<sigma>'. (\<forall>v. ad_hasSAT A' v \<longrightarrow> \<sigma>' v = \<sigma> v) \<longrightarrow>
          const_ok \<sigma>' \<and> cnf_sat \<sigma>' (C @ opt_clause b c) \<and> cube_sat \<sigma>' as)))
     \<and> (\<not> r \<longrightarrow> set crits \<subseteq> set as \<and> distinct crits \<and> (\<forall>\<sigma>. const_ok \<sigma> \<longrightarrow> cnf_sat \<sigma> (C @ opt_clause b c) \<longrightarrow> \<not> cube_sat \<sigma> crits))) A1"
    if 1: "ad_inv A1" "ad_kind A1 = k" "g = GROUP_NULL \<or> g \<in> ad_groups A1" "\<And>\<sigma>. ad_mod A1 \<sigma> \<longleftrightarrow> ad_mod A \<sigma>"
      "\<And>v. ad_hasSAT A1 v \<longleftrightarrow> ad_hasSAT A v \<or> b \<and> strip v \<in> strip ` set c"
      "\<And>\<sigma>. (\<exists>\<gamma>. ad_sat A1 \<sigma> \<gamma> \<and> (g \<noteq> GROUP_NULL \<longrightarrow> \<gamma> g)) \<longleftrightarrow> ad_mod A \<sigma> \<and> cnf_sat \<sigma> (opt_clause b c)" for g A1
  proof (rule wp_mono[OF ad_groupSolve_wp[OF 1(1,3)]], goal_cases)
    case (1 r A')
    obtain sat crits where r: "r = (sat, crits)" by (cases r)
    have st: "ad_step A1 (strip ` set as) (\<lambda>_ _. True) A'" "ad_isSAT A' = sat" using 1 by (auto simp: r)
    have inv': "ad_inv A'" "ad_kind A' = k" using st(1) that(2) by (simp_all add: ad_step_def)
    have has': "ad_hasSAT A' v \<longleftrightarrow> ad_hasSAT A1 v \<or> strip v \<in> strip ` set as" for v using st(1) by (simp add: ad_step_def)
    have mod': "ad_mod A' \<sigma> \<longleftrightarrow> const_ok \<sigma> \<and> cnf_sat \<sigma> C" for \<sigma>
      using ad_step_mod[OF st(1)] that(4) sem by simp
    have sf: "solver_for A' k C" using inv' mod' by (simp add: solver_for_def)
    have grp: "(\<exists>\<gamma>. ad_sat A1 \<sigma> \<gamma> \<and> (g \<noteq> GROUP_NULL \<longrightarrow> \<gamma> g)) \<longleftrightarrow> const_ok \<sigma> \<and> cnf_sat \<sigma> (C @ opt_clause b c)" for \<sigma>
      using that(6)[of \<sigma>] sem[of \<sigma>] by auto
    have "\<exists>\<sigma>. ad_model A' \<sigma> \<and> const_ok \<sigma> \<and> (\<forall>\<sigma>'. (\<forall>v. ad_hasSAT A' v \<longrightarrow> \<sigma>' v = \<sigma> v) \<longrightarrow>
          const_ok \<sigma>' \<and> cnf_sat \<sigma>' (C @ opt_clause b c) \<and> cube_sat \<sigma>' as)" if sat
    proof -
      obtain \<sigma> \<gamma> where s: "ad_sat A1 \<sigma> \<gamma>" "g \<noteq> GROUP_NULL \<longrightarrow> \<gamma> g" "cube_sat \<sigma> as" "ad_model A' \<sigma>"
        using 1 \<open>sat\<close> by (auto simp: r)
      then have c: "const_ok \<sigma> \<and> cnf_sat \<sigma> (C @ opt_clause b c)" using grp[of \<sigma>] by blast
      have "const_ok \<sigma>' \<and> cnf_sat \<sigma>' (C @ opt_clause b c) \<and> cube_sat \<sigma>' as" if ag: "\<forall>v. ad_hasSAT A' v \<longrightarrow> \<sigma>' v = \<sigma> v" for \<sigma>'
      proof -
        have lit: "lit_true \<sigma>' l = lit_true \<sigma> l" if "ad_hasSAT A' l" for l using lit_true_known[OF that] ag by blast
        have "ad_mod A' \<sigma>' = ad_mod A' \<sigma>" by (rule ad_mod_agree[OF inv'(1)]) (use ag in blast)
        moreover have "clause_sat \<sigma>' c = clause_sat \<sigma> c" if b
          unfolding clause_sat_def using lit has' that \<open>\<And>v. ad_hasSAT A1 v \<longleftrightarrow> ad_hasSAT A v \<or> b \<and> strip v \<in> strip ` set c\<close> by blast
        moreover have "cube_sat \<sigma>' as = cube_sat \<sigma> as" unfolding cube_sat_def using lit has' by blast
        ultimately show ?thesis using c s(3) mod' by (auto simp: opt_clause_def)
      qed
      then show ?thesis using s(4) c by blast
    qed
    moreover have "set crits \<subseteq> set as \<and> distinct crits \<and> (\<forall>\<sigma>. const_ok \<sigma> \<longrightarrow> cnf_sat \<sigma> (C @ opt_clause b c) \<longrightarrow> \<not> cube_sat \<sigma> crits)" if "\<not> sat"
      using 1 that grp unfolding r by (auto simp del: cnf_sat_simps)
    ultimately show ?case using sf st(2) has' that(5) by (auto simp: r simp del: cnf_sat_simps)
  qed
  show ?thesis
  proof (cases b)
    case False
    have "(\<exists>\<gamma>. ad_sat A \<sigma> \<gamma> \<and> (GROUP_NULL \<noteq> GROUP_NULL \<longrightarrow> \<gamma> GROUP_NULL)) \<longleftrightarrow> ad_mod A \<sigma> \<and> cnf_sat \<sigma> (opt_clause b c)" for \<sigma>
      using False by (simp add: ad_mod_def opt_clause_def)
    from go[OF inv k _ refl _ this] False show ?thesis by simp
  next
    case True
    show ?thesis
      unfolding wp_bindS using True
      apply simp
      apply (rule wp_mono[OF ad_withGroup_step[OF inv ne[OF True]]], elim conjE)
      apply (rule wp_mono[OF go])
           apply (use k True in \<open>auto simp: opt_clause_def\<close>)
      done
  qed
qed

end

end
