(* ===== verification/ProofCheck.thy ===== *)
theory ProofCheck
  imports TransSem SolverBuild
begin

text \<open>
  \<open>src/src/pme/util/simplify_tr.cpp\<close> and \<open>src/src/pme/util/proof_checker.{h,cpp}\<close>.  The option
  \<open>GlobalState::options().simplify\<close> is the argument \<open>opt\<close>.  The answers of the four checks are
  characterised on states and transitions, and \<open>checkProof\<close> is related to reachability.
\<close>

definition simplifyTR :: "backend \<Rightarrow> anyTR \<Rightarrow> clauseVec res" where
  "simplifyTR B t = bindR (tr_unroll t 2) (\<lambda>unrolled.
     simp_run B unrolled [(tr_latchIDs (baseTR t), True), (tr_constraints (baseTR t), True),
       (tr_inputIDs (baseTR t), True), ([tr_bad (baseTR t)], False), ([prime1 (tr_bad (baseTR t))], False)])"

record proofChecker =
  pc_indSolver :: adaptor
  pc_initSolver :: adaptor
  pc_tr :: anyTR
  pc_proof :: clauseVec

definition pc_new :: "backend \<Rightarrow> bool \<Rightarrow> anyTR \<Rightarrow> clauseVec \<Rightarrow> proofChecker res" where
  "pc_new B opt t proof = bindR (tr_unroll t 2) (\<lambda>unrolled.
     bindR (if opt then simplifyTR B t else Inr unrolled) (\<lambda>simp.
     bindR (ad_new GLUCOSE) (\<lambda>ind.
     bindR (execS (thenS (ad_addClauses simp) (ad_addClauses proof)) ind) (\<lambda>ind.
     bindR (tr_initState t) (\<lambda>init.
     bindR (if opt then simp_run B (unrolled @ init) [(tr_latchIDs (baseTR t), False),
              (tr_constraints (baseTR t), True), ([tr_bad (baseTR t)], False)]
            else Inr (init @ unrolled)) (\<lambda>simp_init.
     bindR (ad_new GLUCOSE) (\<lambda>ini.
     bindR (execS (ad_addClauses simp_init) ini) (\<lambda>ini.
       Inr \<lparr>pc_indSolver = ind, pc_initSolver = ini, pc_tr = t, pc_proof = proof\<rparr>))))))))"

definition pc_ind :: "backend \<Rightarrow> cube \<Rightarrow> (proofChecker, bool) sm" where
  "pc_ind B as = bindS (zoomS pc_indSolver (\<lambda>A pc. pc\<lparr>pc_indSolver := A\<rparr>) (ad_solve B as)) (\<lambda>(r, crits). retS r)"

definition pc_init :: "backend \<Rightarrow> cube \<Rightarrow> (proofChecker, bool) sm" where
  "pc_init B as = bindS (zoomS pc_initSolver (\<lambda>A pc. pc\<lparr>pc_initSolver := A\<rparr>) (ad_solve B as)) (\<lambda>(r, crits). retS r)"

definition checkInitiation :: "backend \<Rightarrow> (proofChecker, bool) sm" where
  "checkInitiation B = bindS getS (\<lambda>pc. allS (\<lambda>c. bindS (pc_init B (negateVec c)) (\<lambda>r. retS (\<not> r))) (pc_proof pc))"

definition checkInduction :: "backend \<Rightarrow> (proofChecker, bool) sm" where
  "checkInduction B = bindS getS (\<lambda>pc. allS (\<lambda>c.
     bindS (pc_ind B (map prime1 (negateVec c) @ [negate (tr_bad (baseTR (pc_tr pc)))])) (\<lambda>r. retS (\<not> r))) (pc_proof pc))"

definition checkSafety :: "backend \<Rightarrow> (proofChecker, bool) sm" where
  "checkSafety B = bindS getS (\<lambda>pc. bindS (pc_ind B [tr_bad (baseTR (pc_tr pc))]) (\<lambda>r. retS (\<not> r)))"

definition checkInductiveStrengthening :: "backend \<Rightarrow> (proofChecker, bool) sm" where
  "checkInductiveStrengthening B = bindS getS (\<lambda>pc. let bad = tr_bad (baseTR (pc_tr pc)) in
     bindS (pc_ind B [negate bad, prime1 bad]) (\<lambda>r. retS (\<not> r)))"

definition checkProof :: "backend \<Rightarrow> (proofChecker, bool) sm" where
  "checkProof B = bindS (checkInitiation B) (\<lambda>a. if \<not> a then retS False else
     bindS (checkInduction B) (\<lambda>b. if \<not> b then retS False else
     bindS (checkSafety B) (\<lambda>c. if c then retS True else checkInductiveStrengthening B)))"

subsection \<open>What the answers mean\<close>

definition state_vars :: "anyTR \<Rightarrow> id set" where
  "state_vars t = strip ` set (tr_latchIDs (baseTR t)) \<union> strip ` set (tr_constraints (baseTR t)) \<union> {strip (tr_bad (baseTR t))}"

definition sp_initiation :: "anyTR \<Rightarrow> clauseVec \<Rightarrow> bool" where
  "sp_initiation t proof = (\<forall>c\<in>set proof. \<forall>s s'. tr_trans t s s' \<longrightarrow> init_ok t s \<longrightarrow> clause_sat s c)"

definition sp_induction :: "anyTR \<Rightarrow> clauseVec \<Rightarrow> bool" where
  "sp_induction t proof = (\<forall>c\<in>set proof. \<forall>s s'. tr_trans t s s' \<longrightarrow> cnf_sat s proof \<longrightarrow> \<not> bad_state t s \<longrightarrow> clause_sat s' c)"

definition sp_safety :: "anyTR \<Rightarrow> clauseVec \<Rightarrow> bool" where
  "sp_safety t proof = (\<forall>s s'. tr_trans t s s' \<longrightarrow> cnf_sat s proof \<longrightarrow> \<not> bad_state t s)"

definition sp_strengthening :: "anyTR \<Rightarrow> clauseVec \<Rightarrow> bool" where
  "sp_strengthening t proof = (\<forall>s s'. tr_trans t s s' \<longrightarrow> cnf_sat s proof \<longrightarrow> \<not> bad_state t s \<longrightarrow> \<not> bad_state t s')"

definition sp_proof :: "anyTR \<Rightarrow> clauseVec \<Rightarrow> bool" where
  "sp_proof t proof = (sp_initiation t proof \<and> sp_induction t proof \<and> (sp_safety t proof \<or> sp_strengthening t proof))"

lemma state_vars_tr: "state_vars t \<subseteq> tr_vars t"
  by (auto simp: state_vars_def tr_vars_def)

lemma clause_sat_on: "strip ` set c \<subseteq> V \<Longrightarrow> (\<And>v. v \<in> V \<Longrightarrow> s v = s' v) \<Longrightarrow> clause_sat s c = clause_sat s' c"
  by (rule clause_sat_agree) auto

lemma cnf_sat_on: "cnf_vars C \<subseteq> V \<Longrightarrow> (\<And>v. v \<in> V \<Longrightarrow> s v = s' v) \<Longrightarrow> cnf_sat s C = cnf_sat s' C"
  by (rule cnf_sat_agree) auto

text \<open>The frozen variables cover the state variables, now and primed.\<close>

definition frozen_for :: "anyTR \<Rightarrow> id set \<Rightarrow> bool" where
  "frozen_for t F = (\<forall>v\<in>state_vars t. v \<in> F \<and> prime_body 1 v \<in> F)"

definition ind_solver_ok :: "anyTR \<Rightarrow> clauseVec \<Rightarrow> adaptor \<Rightarrow> bool" where
  "ind_solver_ok t proof A = (\<exists>C D F. tr_unroll t 2 = Inr C \<and> simp_of C F D \<and> frozen_for t F
     \<and> solver_for A GLUCOSE (D @ proof))"

definition init_solver_ok :: "anyTR \<Rightarrow> adaptor \<Rightarrow> bool" where
  "init_solver_ok t A = (\<exists>C I E G. tr_unroll t 2 = Inr C \<and> tr_initState t = Inr I \<and> simp_of (C @ I) G E
     \<and> state_vars t \<subseteq> G \<and> solver_for A GLUCOSE E)"

definition pc_ok :: "anyTR \<Rightarrow> clauseVec \<Rightarrow> proofChecker \<Rightarrow> bool" where
  "pc_ok t proof pc = (pc_tr pc = t \<and> pc_proof pc = proof \<and> ind_solver_ok t proof (pc_indSolver pc)
     \<and> init_solver_ok t (pc_initSolver pc))"

lemma simplifyTR_frozen:
  "frozen_for t (fz_vars [(tr_latchIDs (baseTR t), True), (tr_constraints (baseTR t), True),
       (tr_inputIDs (baseTR t), True), ([tr_bad (baseTR t)], False), ([prime1 (tr_bad (baseTR t))], False)])"
  by (auto simp: frozen_for_def state_vars_def strip_prime_body)

lemma new_solver_with:
  assumes "[] \<notin> set C"
  shows "wpr (bindR (ad_new k) (execS (ad_addClauses C))) (\<lambda>A. solver_for A k C)"
proof -
  obtain A where A: "ad_new k = Inr A" "solver_for A k []" using ad_new_solver[of k] by (auto simp: wpr_iff)
  show ?thesis using wp_mono[OF solver_for_add[OF A(2) assms]] A(1) by simp
qed

context sat_backend
begin

lemma pc_new_wp:
  assumes wf: "tr_wf t" and ne: "[] \<notin> set proof"
    and sat: "opt \<Longrightarrow> tr_trans t s s' \<and> init_ok t s"
  shows "wpr (pc_new B opt t proof) (pc_ok t proof)"
proof -
  have n: "(2::nat) \<le> MAX_PRIMES" by (simp add: MAX_PRIMES_def)
  obtain C where C: "tr_unroll t 2 = Inr C" using tr_unroll_sem[OF wf n] by (auto simp: wpr_iff)
  obtain I where I: "tr_initState t = Inr I" and Isem: "\<And>\<sigma>. const_ok \<sigma> \<Longrightarrow> cnf_sat \<sigma> I \<longleftrightarrow> init_ok t \<sigma>"
    using tr_initState_sem[OF wf] by (auto simp: wpr_iff)
  have neC: "[] \<notin> set C" and neI: "[] \<notin> set I" using tr_unroll_nonempty[OF C] tr_initState_nonempty[OF I] .
  have "\<exists>\<sigma>. const_ok \<sigma> \<and> cnf_sat \<sigma> C \<and> init_ok t \<sigma>" if opt
  proof -
    have "\<exists>s s'. tr_trans t s s' \<and> init_ok t s" using sat that by blast
    moreover have "(\<exists>\<sigma>. const_ok \<sigma> \<and> cnf_sat \<sigma> C \<and> init_ok t \<sigma>) \<longleftrightarrow> (\<exists>s s'. tr_trans t s s' \<and> init_ok t s)"
    proof (rule unroll2_query[OF wf C plain_tr_vars[OF wf], of "\<lambda>s s'. init_ok t s"])
      show "init_ok t s2" if "\<And>v. v \<in> tr_vars t \<Longrightarrow> s1 v = s2 v" "init_ok t s1" for s1 s2
        using init_ok_agree[of t s1 s2, OF that(1)] that(2) by blast
    qed
    ultimately show ?thesis by (rule iffD2[rotated])
  qed
  then have sat0: "\<exists>\<sigma>. const_ok \<sigma> \<and> cnf_sat \<sigma> C \<and> cnf_sat \<sigma> I" if opt
    using Isem that by metis
  have "wpr (if opt then simplifyTR B t else Inr C) (\<lambda>D. \<exists>F. simp_of C F D \<and> frozen_for t F)"
  proof (cases opt)
    case True
    then obtain \<sigma> where s: "const_ok \<sigma>" "cnf_sat \<sigma> C" using sat0 by blast
    have "wpr (simplifyTR B t) (\<lambda>D. \<exists>F. simp_of C F D \<and> frozen_for t F)"
      unfolding simplifyTR_def C bindR_simps
      by (rule wpr_mono[OF simp_run_wp[OF neC s]], rule exI, rule conjI, assumption, rule simplifyTR_frozen)
    then show ?thesis using True by simp
  next
    case False
    have "frozen_for t UNIV" by (simp add: frozen_for_def)
    then show ?thesis using False simp_of_refl[OF neC] by auto
  qed
  then obtain D F where D: "(if opt then simplifyTR B t else Inr C) = Inr D" "simp_of C F D" "frozen_for t F"
    by (auto simp: wpr_iff)
  let ?fz = "[(tr_latchIDs (baseTR t), False), (tr_constraints (baseTR t), True), ([tr_bad (baseTR t)], False)]"
  have "wpr (if opt then simp_run B (C @ I) ?fz else Inr (I @ C)) (\<lambda>E. \<exists>G. simp_of (C @ I) G E \<and> state_vars t \<subseteq> G)"
  proof (cases opt)
    case True
    then obtain \<sigma> where s: "const_ok \<sigma>" "cnf_sat \<sigma> (C @ I)" using sat0 by auto
    have sub: "state_vars t \<subseteq> fz_vars ?fz" by (auto simp: state_vars_def)
    have "[] \<notin> set (C @ I)" using neC neI by simp
    from simp_run_wp[OF this s, of ?fz] have "wpr (simp_run B (C @ I) ?fz) (\<lambda>E. \<exists>G. simp_of (C @ I) G E \<and> state_vars t \<subseteq> G)"
      by (rule wpr_mono) (use sub in blast)
    then show ?thesis using True by simp
  next
    case False
    have "simp_of (C @ I) UNIV (I @ C)" using neC neI by (auto simp: simp_of_def)
    then show ?thesis using False by auto
  qed
  then obtain E G where E: "(if opt then simp_run B (C @ I) ?fz else Inr (I @ C)) = Inr E" "simp_of (C @ I) G E" "state_vars t \<subseteq> G"
    by (auto simp: wpr_iff)
  have neD: "[] \<notin> set D" and neE: "[] \<notin> set E" using D(2) E(2) by (simp_all add: simp_of_def)
  obtain A where A: "ad_new GLUCOSE = Inr A" "solver_for A GLUCOSE []" using ad_new_solver[of GLUCOSE] by (auto simp: wpr_iff)
  obtain A1 where A1: "ad_addClauses D A = Inr ((), A1)" "solver_for A1 GLUCOSE D"
    using solver_for_add[OF A(2) neD] by (auto simp: wp_iff)
  obtain A2 where A2: "ad_addClauses proof A1 = Inr ((), A2)" "solver_for A2 GLUCOSE (D @ proof)"
    using solver_for_add[OF A1(2) ne] by (auto simp: wp_iff)
  obtain A3 where A3: "ad_addClauses E A = Inr ((), A3)" "solver_for A3 GLUCOSE E"
    using solver_for_add[OF A(2) neE] by (auto simp: wp_iff)
  have "pc_new B opt t proof = Inr \<lparr>pc_indSolver = A2, pc_initSolver = A3, pc_tr = t, pc_proof = proof\<rparr>"
    unfolding pc_new_def
    by (simp add: C D(1) A(1) I E(1) execS_def thenS_def bindS_def A1(1) A2(1) A3(1))
  moreover have "pc_ok t proof \<lparr>pc_indSolver = A2, pc_initSolver = A3, pc_tr = t, pc_proof = proof\<rparr>"
    unfolding pc_ok_def ind_solver_ok_def init_solver_ok_def using C I D(2,3) E(2,3) A2(2) A3(2) by auto
  ultimately show ?thesis by simp
qed

lemma pc_ind_wp:
  assumes wf: "tr_wf t" and pv: "cnf_vars proof \<subseteq> state_vars t" and ok: "pc_ok t proof pc"
    and Q: "\<And>\<sigma>. cube_sat \<sigma> as \<longleftrightarrow> R \<sigma> (at_time 1 \<sigma>)"
    and R: "\<And>s1 s2 s1' s2'. (\<And>v. v \<in> state_vars t \<Longrightarrow> s1 v = s2 v) \<Longrightarrow> (\<And>v. v \<in> state_vars t \<Longrightarrow> s1' v = s2' v)
       \<Longrightarrow> R s1 s1' \<Longrightarrow> R s2 s2'"
  shows "wp (pc_ind B as) (\<lambda>r pc'. pc_ok t proof pc' \<and> (r \<longleftrightarrow> (\<exists>s s'. tr_trans t s s' \<and> cnf_sat s proof \<and> R s s'))) pc"
proof -
  obtain C D F where C: "tr_unroll t 2 = Inr C" "simp_of C F D" "frozen_for t F"
    and A: "solver_for (pc_indSolver pc) GLUCOSE (D @ proof)" using ok unfolding pc_ok_def ind_solver_ok_def by blast
  have "(\<exists>\<sigma>. const_ok \<sigma> \<and> cnf_sat \<sigma> D \<and> cnf_sat \<sigma> proof \<and> R \<sigma> (at_time 1 \<sigma>))
     \<longleftrightarrow> (\<exists>\<sigma>. const_ok \<sigma> \<and> cnf_sat \<sigma> C \<and> cnf_sat \<sigma> proof \<and> R \<sigma> (at_time 1 \<sigma>))"
  proof (rule simp_of_query[OF C(2), of "\<lambda>\<sigma>. cnf_sat \<sigma> proof \<and> R \<sigma> (at_time 1 \<sigma>)"])
    fix \<sigma> \<tau>
    assume ag: "\<And>v. v \<in> F \<Longrightarrow> \<sigma> v = \<tau> v" and q: "cnf_sat \<sigma> proof \<and> R \<sigma> (at_time 1 \<sigma>)"
    have a0: "\<sigma> v = \<tau> v" "at_time 1 \<sigma> v = at_time 1 \<tau> v" if "v \<in> state_vars t" for v
      using ag C(3) that by (simp_all add: frozen_for_def at_time_def)
    show "cnf_sat \<tau> proof \<and> R \<tau> (at_time 1 \<tau>)"
      using q cnf_sat_on[OF pv, of \<sigma> \<tau>, OF a0(1)] R[of \<sigma> \<tau> "at_time 1 \<sigma>" "at_time 1 \<tau>", OF a0] by blast
  qed
  also have "\<dots> \<longleftrightarrow> (\<exists>s s'. tr_trans t s s' \<and> cnf_sat s proof \<and> R s s')"
  proof (rule unroll2_query[OF wf C(1), of "state_vars t" "\<lambda>s s'. cnf_sat s proof \<and> R s s'"])
    show "plain_vars (state_vars t)"
      using plain_tr_vars[OF wf] state_vars_tr unfolding plain_vars_def by blast
    fix s1 s2 s1' s2' :: assignment
    assume ag: "\<And>v. v \<in> state_vars t \<Longrightarrow> s1 v = s2 v" "\<And>v. v \<in> state_vars t \<Longrightarrow> s1' v = s2' v"
      and q: "cnf_sat s1 proof \<and> R s1 s1'"
    show "cnf_sat s2 proof \<and> R s2 s2'"
      using q cnf_sat_on[OF pv, of s1 s2, OF ag(1)] R[of s1 s2 s1' s2', OF ag] by blast
  qed
  finally have q: "(\<exists>\<sigma>. const_ok \<sigma> \<and> cnf_sat \<sigma> (D @ proof) \<and> cube_sat \<sigma> as)
     \<longleftrightarrow> (\<exists>s s'. tr_trans t s s' \<and> cnf_sat s proof \<and> R s s')"
    by (simp add: Q)
  have up: "pc_ok t proof (pc\<lparr>pc_indSolver := A'\<rparr>)" if "solver_for A' GLUCOSE (D @ proof)" for A'
    using ok that C unfolding pc_ok_def ind_solver_ok_def by auto
  show ?thesis
    unfolding pc_ind_def wp_bindS wp_zoomS
    by (rule wp_mono[OF solver_for_ask[OF A]]) (use q up in auto)
qed

lemma pc_init_wp:
  assumes wf: "tr_wf t" and cv: "strip ` set c \<subseteq> state_vars t" and ok: "pc_ok t proof pc"
  shows "wp (pc_init B (negateVec c)) (\<lambda>r pc'. pc_ok t proof pc'
     \<and> (r \<longleftrightarrow> (\<exists>s s'. tr_trans t s s' \<and> init_ok t s \<and> \<not> clause_sat s c))) pc"
proof -
  obtain C I E G where C: "tr_unroll t 2 = Inr C" "tr_initState t = Inr I" "simp_of (C @ I) G E" "state_vars t \<subseteq> G"
    and A: "solver_for (pc_initSolver pc) GLUCOSE E" using ok unfolding pc_ok_def init_solver_ok_def by blast
  have Isem: "cnf_sat \<sigma> I \<longleftrightarrow> init_ok t \<sigma>" if "const_ok \<sigma>" for \<sigma>
    using tr_initState_sem[OF wf] C(2) that by simp
  have "(\<exists>\<sigma>. const_ok \<sigma> \<and> cnf_sat \<sigma> E \<and> \<not> clause_sat \<sigma> c) \<longleftrightarrow> (\<exists>\<sigma>. const_ok \<sigma> \<and> cnf_sat \<sigma> (C @ I) \<and> \<not> clause_sat \<sigma> c)"
  proof (rule simp_of_query[OF C(3)])
    fix \<sigma> \<tau>
    assume ag: "\<And>v. v \<in> G \<Longrightarrow> \<sigma> v = \<tau> v" and "\<not> clause_sat \<sigma> c"
    then show "\<not> clause_sat \<tau> c" using clause_sat_on[OF cv, of \<sigma> \<tau>] C(4) by blast
  qed
  also have "\<dots> \<longleftrightarrow> (\<exists>\<sigma>. const_ok \<sigma> \<and> cnf_sat \<sigma> C \<and> init_ok t \<sigma> \<and> \<not> clause_sat \<sigma> c)"
    using Isem by auto
  also have "\<dots> \<longleftrightarrow> (\<exists>s s'. tr_trans t s s' \<and> init_ok t s \<and> \<not> clause_sat s c)"
  proof (rule unroll2_query[OF wf C(1) plain_tr_vars[OF wf], of "\<lambda>s s'. init_ok t s \<and> \<not> clause_sat s c"])
    fix s1 s2 s1' s2' :: assignment
    assume ag: "\<And>v. v \<in> tr_vars t \<Longrightarrow> s1 v = s2 v" and q: "init_ok t s1 \<and> \<not> clause_sat s1 c"
    have "clause_sat s1 c = clause_sat s2 c" by (rule clause_sat_on[OF cv]) (use ag state_vars_tr in blast)
    then show "init_ok t s2 \<and> \<not> clause_sat s2 c" using q init_ok_agree[of t s1 s2, OF ag] by blast
  qed
  finally have q: "(\<exists>\<sigma>. const_ok \<sigma> \<and> cnf_sat \<sigma> E \<and> cube_sat \<sigma> (negateVec c))
     \<longleftrightarrow> (\<exists>s s'. tr_trans t s s' \<and> init_ok t s \<and> \<not> clause_sat s c)"
    by (simp add: cube_sat_negateVec)
  have up: "pc_ok t proof (pc\<lparr>pc_initSolver := A'\<rparr>)" if "solver_for A' GLUCOSE E" for A'
    using ok that C unfolding pc_ok_def init_solver_ok_def by auto
  show ?thesis
    unfolding pc_init_def wp_bindS wp_zoomS
    by (rule wp_mono[OF solver_for_ask[OF A]]) (use q up in auto)
qed

lemma checkInitiation_wp:
  assumes wf: "tr_wf t" and pv: "cnf_vars proof \<subseteq> state_vars t" and ok: "pc_ok t proof pc"
  shows "wp (checkInitiation B) (\<lambda>r pc'. pc_ok t proof pc' \<and> (r \<longleftrightarrow> sp_initiation t proof)) pc"
proof -
  have p: "pc_proof pc = proof" using ok by (simp add: pc_ok_def)
  have "wp (allS (\<lambda>c. bindS (pc_init B (negateVec c)) (\<lambda>r. retS (\<not> r))) proof) (\<lambda>r pc'. pc_ok t proof pc'
     \<and> r = (\<forall>c\<in>set proof. \<not> (\<exists>s s'. tr_trans t s s' \<and> init_ok t s \<and> \<not> clause_sat s c))) pc"
  proof (rule wp_allS[where I = "pc_ok t proof"])
    fix c pc'
    assume c: "c \<in> set proof" and ok': "pc_ok t proof pc'"
    have cv: "strip ` set c \<subseteq> state_vars t" using c pv by (auto simp: cnf_vars_def)
    show "wp (bindS (pc_init B (negateVec c)) (\<lambda>r. retS (\<not> r))) (\<lambda>b t'. pc_ok t proof t'
       \<and> b = (\<not> (\<exists>s s'. tr_trans t s s' \<and> init_ok t s \<and> \<not> clause_sat s c))) pc'"
      unfolding wp_bindS by (rule wp_mono[OF pc_init_wp[OF wf cv ok']]) simp
  qed (rule ok)
  then show ?thesis by (simp add: checkInitiation_def p sp_initiation_def) (elim wp_mono, blast)
qed

lemma checkInduction_wp:
  assumes wf: "tr_wf t" and pv: "cnf_vars proof \<subseteq> state_vars t" and ok: "pc_ok t proof pc"
  shows "wp (checkInduction B) (\<lambda>r pc'. pc_ok t proof pc' \<and> (r \<longleftrightarrow> sp_induction t proof)) pc"
proof -
  let ?bad = "tr_bad (baseTR t)"
  have p: "pc_proof pc = proof" "pc_tr pc = t" using ok by (simp_all add: pc_ok_def)
  have "wp (allS (\<lambda>c. bindS (pc_ind B (map prime1 (negateVec c) @ [negate ?bad])) (\<lambda>r. retS (\<not> r))) proof) (\<lambda>r pc'. pc_ok t proof pc'
     \<and> r = (\<forall>c\<in>set proof. \<not> (\<exists>s s'. tr_trans t s s' \<and> cnf_sat s proof \<and> \<not> bad_state t s \<and> \<not> clause_sat s' c))) pc"
  proof (rule wp_allS[where I = "pc_ok t proof"])
    fix c pc'
    assume c: "c \<in> set proof" and ok': "pc_ok t proof pc'"
    have cv: "strip ` set c \<subseteq> state_vars t" using c pv by (auto simp: cnf_vars_def)
    have "wp (pc_ind B (map prime1 (negateVec c) @ [negate ?bad])) (\<lambda>r pc'. pc_ok t proof pc'
       \<and> (r \<longleftrightarrow> (\<exists>s s'. tr_trans t s s' \<and> cnf_sat s proof \<and> \<not> bad_state t s \<and> \<not> clause_sat s' c))) pc'"
    proof (rule pc_ind_wp[OF wf pv ok', of _ "\<lambda>s s'. \<not> bad_state t s \<and> \<not> clause_sat s' c"])
      show "cube_sat \<sigma> (map prime1 (negateVec c) @ [negate ?bad]) \<longleftrightarrow> \<not> bad_state t \<sigma> \<and> \<not> clause_sat (at_time 1 \<sigma>) c" for \<sigma>
        using cube_sat_prime[of \<sigma> 1 "negateVec c"] by (auto simp: cube_sat_negateVec bad_state_def)
      fix s1 s2 s1' s2' :: assignment
      assume ag: "\<And>v. v \<in> state_vars t \<Longrightarrow> s1 v = s2 v" "\<And>v. v \<in> state_vars t \<Longrightarrow> s1' v = s2' v"
        and q: "\<not> bad_state t s1 \<and> \<not> clause_sat s1' c"
      have "bad_state t s1 = bad_state t s2" by (rule bad_state_agree) (use ag(1) in \<open>simp add: state_vars_def\<close>)
      then show "\<not> bad_state t s2 \<and> \<not> clause_sat s2' c" using q clause_sat_on[OF cv, of s1' s2', OF ag(2)] by blast
    qed
    then show "wp (bindS (pc_ind B (map prime1 (negateVec c) @ [negate ?bad])) (\<lambda>r. retS (\<not> r))) (\<lambda>b t'. pc_ok t proof t'
       \<and> b = (\<not> (\<exists>s s'. tr_trans t s s' \<and> cnf_sat s proof \<and> \<not> bad_state t s \<and> \<not> clause_sat s' c))) pc'"
      unfolding wp_bindS by (rule wp_mono) simp
  qed (rule ok)
  then show ?thesis by (simp add: checkInduction_def p sp_induction_def) (elim wp_mono, blast)
qed

lemma checkSafety_wp:
  assumes wf: "tr_wf t" and pv: "cnf_vars proof \<subseteq> state_vars t" and ok: "pc_ok t proof pc"
  shows "wp (checkSafety B) (\<lambda>r pc'. pc_ok t proof pc' \<and> (r \<longleftrightarrow> sp_safety t proof)) pc"
proof -
  have p: "pc_tr pc = t" using ok by (simp add: pc_ok_def)
  have "wp (pc_ind B [tr_bad (baseTR t)]) (\<lambda>r pc'. pc_ok t proof pc'
       \<and> (r \<longleftrightarrow> (\<exists>s s'. tr_trans t s s' \<and> cnf_sat s proof \<and> bad_state t s))) pc"
  proof (rule pc_ind_wp[OF wf pv ok, of _ "\<lambda>s s'. bad_state t s"])
    show "bad_state t s2" if "\<And>v. v \<in> state_vars t \<Longrightarrow> s1 v = s2 v" "bad_state t s1" for s1 s2
      using bad_state_agree[of s1 t s2] that by (simp add: state_vars_def)
  qed (simp add: bad_state_def)
  then show ?thesis unfolding checkSafety_def by (simp add: p sp_safety_def) (elim wp_mono, blast)
qed

lemma checkInductiveStrengthening_wp:
  assumes wf: "tr_wf t" and pv: "cnf_vars proof \<subseteq> state_vars t" and ok: "pc_ok t proof pc"
  shows "wp (checkInductiveStrengthening B) (\<lambda>r pc'. pc_ok t proof pc' \<and> (r \<longleftrightarrow> sp_strengthening t proof)) pc"
proof -
  have p: "pc_tr pc = t" using ok by (simp add: pc_ok_def)
  have "wp (pc_ind B [negate (tr_bad (baseTR t)), prime1 (tr_bad (baseTR t))]) (\<lambda>r pc'. pc_ok t proof pc'
       \<and> (r \<longleftrightarrow> (\<exists>s s'. tr_trans t s s' \<and> cnf_sat s proof \<and> \<not> bad_state t s \<and> bad_state t s'))) pc"
  proof (rule pc_ind_wp[OF wf pv ok, of _ "\<lambda>s s'. \<not> bad_state t s \<and> bad_state t s'"])
    show "\<not> bad_state t s2 \<and> bad_state t s2'" if "\<And>v. v \<in> state_vars t \<Longrightarrow> s1 v = s2 v" "\<And>v. v \<in> state_vars t \<Longrightarrow> s1' v = s2' v"
      "\<not> bad_state t s1 \<and> bad_state t s1'" for s1 s2 s1' s2'
      using bad_state_agree[of s1 t s2] bad_state_agree[of s1' t s2'] that by (simp add: state_vars_def)
  qed (auto simp: bad_state_def lit_true_prime)
  then show ?thesis unfolding checkInductiveStrengthening_def Let_def by (simp add: p sp_strengthening_def) (elim wp_mono, blast)
qed

lemma checkProof_wp:
  assumes wf: "tr_wf t" and pv: "cnf_vars proof \<subseteq> state_vars t" and ok: "pc_ok t proof pc"
  shows "wp (checkProof B) (\<lambda>r pc'. pc_ok t proof pc' \<and> (r \<longleftrightarrow> sp_proof t proof)) pc"
proof -
  note rs = checkInitiation_wp[OF wf pv] checkInduction_wp[OF wf pv] checkSafety_wp[OF wf pv] checkInductiveStrengthening_wp[OF wf pv]
  have 3: "wp (bindS (checkSafety B) (\<lambda>c. if c then retS True else checkInductiveStrengthening B)) (\<lambda>r pc'. pc_ok t proof pc'
     \<and> (r \<longleftrightarrow> sp_safety t proof \<or> sp_strengthening t proof)) pc" if "pc_ok t proof pc" for pc
    unfolding wp_bindS by (rule wp_mono[OF rs(3)[OF that]]) (auto elim!: wp_mono[OF rs(4)])
  have 2: "wp (bindS (checkInduction B) (\<lambda>b. if \<not> b then retS False else
     bindS (checkSafety B) (\<lambda>c. if c then retS True else checkInductiveStrengthening B))) (\<lambda>r pc'. pc_ok t proof pc'
     \<and> (r \<longleftrightarrow> sp_induction t proof \<and> (sp_safety t proof \<or> sp_strengthening t proof))) pc" if "pc_ok t proof pc" for pc
    unfolding wp_bindS[of "checkInduction B"]
    by (rule wp_mono[OF rs(2)[OF that]]) (use 3 in \<open>auto simp del: wp_bindS\<close>)
  show ?thesis
    unfolding checkProof_def wp_bindS[of "checkInitiation B"]
    by (rule wp_mono[OF rs(1)[OF ok]]) (use 2 in \<open>auto simp: sp_proof_def simp del: wp_bindS\<close>)
qed

lemma checkProof_run:
  assumes wf: "tr_wf t" and ne: "[] \<notin> set proof" and pv: "cnf_vars proof \<subseteq> state_vars t"
    and sat: "opt \<longrightarrow> (\<exists>s s'. tr_trans t s s' \<and> init_ok t s)"
  shows "\<exists>pc pc'. pc_new B opt t proof = Inr pc \<and> checkProof B pc = Inr (sp_proof t proof, pc')"
proof -
  obtain s s' where "opt \<Longrightarrow> tr_trans t s s' \<and> init_ok t s" using sat by blast
  from pc_new_wp[OF wf ne this] obtain pc where pc: "pc_new B opt t proof = Inr pc" "pc_ok t proof pc"
    by (auto simp: wpr_iff)
  then show ?thesis using checkProof_wp[OF wf pv pc(2)] by (auto simp: wp_iff)
qed

end

subsection \<open>Reachability\<close>

inductive tr_reach :: "anyTR \<Rightarrow> assignment \<Rightarrow> bool" for t where
  start: "const_ok s \<Longrightarrow> init_ok t s \<Longrightarrow> frame_ok t s \<Longrightarrow> tr_reach t s"
| step: "tr_reach t s \<Longrightarrow> tr_trans t s s' \<Longrightarrow> tr_reach t s'"

text \<open>A proof that passes shows that no reachable state with a successor is bad, given that the
  initial states are not; the last check alone does not look at them.\<close>

lemma sp_proof_sound:
  assumes ok: "sp_proof t proof"
    and base: "\<And>s s'. init_ok t s \<Longrightarrow> tr_trans t s s' \<Longrightarrow> \<not> bad_state t s"
  shows "tr_reach t s \<Longrightarrow> tr_trans t s s' \<Longrightarrow> cnf_sat s proof \<and> \<not> bad_state t s"
proof (induction arbitrary: s' rule: tr_reach.induct)
  case (start s)
  then show ?case
    using ok base[OF start(2) start(4)] unfolding sp_proof_def sp_initiation_def cnf_sat_def by blast
next
  case (step s s1)
  have p: "cnf_sat s proof" "\<not> bad_state t s" using step.IH[OF step.hyps(2)] by simp_all
  then have c: "cnf_sat s1 proof"
    using ok step.hyps(2) unfolding sp_proof_def sp_induction_def by (auto simp: cnf_sat_def)
  moreover have "\<not> bad_state t s1"
    using ok c p step.hyps(2) step.prems unfolding sp_proof_def sp_safety_def sp_strengthening_def by blast
  ultimately show ?case by blast
qed

text \<open>When the property is one of the clauses, nothing has to be assumed.\<close>

lemma sp_proof_sound_property:
  assumes ok: "sp_proof t proof" and pr: "[negate (tr_bad (baseTR t))] \<in> set proof"
    and "tr_reach t s" "tr_trans t s s'"
  shows "\<not> bad_state t s"
proof -
  have "\<not> bad_state t s" if "init_ok t s" "tr_trans t s s'" for s s'
    using ok that pr unfolding sp_proof_def sp_initiation_def bad_state_def by fastforce
  then show ?thesis using sp_proof_sound[OF ok] assms(3,4) by blast
qed

end
