(* ===== verification/VarManager.thy ===== *)
theory VarManager
  imports Ids
begin

text \<open>
  \<open>src/src/pme/engine/variable_manager.{h,cpp}\<close>: allocation of internal IDs, the two maps
  between internal and AIGER (external) literals, and printing.  The three
  \<open>unordered_map\<close>s are finite maps; they are only looked up, never iterated.
\<close>

record variable =
  v_id :: id
  v_external :: externalID
  v_name :: string

record varManager =
  m_nextID :: id
  m_vars :: "id \<rightharpoonup> variable"
  m_internalToExternal :: "id \<rightharpoonup> externalID"
  m_externalToInternal :: "externalID \<rightharpoonup> id"

definition variable_null :: variable where
  "variable_null = \<lparr>v_id = ID_NULL, v_external = 0, v_name = ''''\<rparr>"

definition isNull :: "variable \<Rightarrow> bool" where
  "isNull v = (v_id v = ID_NULL)"

text \<open>The macros of \<open>src/src/aiger/aiger.h\<close> on external literals.\<close>

definition aiger_sign :: "externalID \<Rightarrow> bool" where
  "aiger_sign l = ((l AND 1) \<noteq> 0)"

definition aiger_strip :: "externalID \<Rightarrow> externalID" where
  "aiger_strip l = l AND NOT 1"

definition aiger_not :: "externalID \<Rightarrow> externalID" where
  "aiger_not l = l XOR 1"

definition vm_new :: varManager where
  "vm_new = \<lparr>m_nextID = MIN_ID,
     m_vars = [ID_FALSE \<mapsto> \<lparr>v_id = ID_FALSE, v_external = 0, v_name = ''false''\<rparr>],
     m_internalToExternal = [ID_FALSE \<mapsto> 0],
     m_externalToInternal = [0 \<mapsto> ID_FALSE]\<rparr>"

text \<open>The decimal digits an output stream prints for an unsigned number.\<close>

function show_nat :: "nat \<Rightarrow> string" where
  "show_nat n = (if n < 10 then [char_of (48 + n)] else show_nat (n div 10) @ [char_of (48 + n mod 10)])"
  by auto
termination by (relation "measure (\<lambda>n. n)") auto

declare show_nat.simps [simp del]

definition defaultName :: "id \<Rightarrow> string" where
  "defaultName i = ''ID_'' @ show_nat (unat i)"

definition getNewID_named :: "string \<Rightarrow> externalID \<Rightarrow> (varManager, id) sm" where
  "getNewID_named name external = bindS getS (\<lambda>vm.
     thenS (assertS (m_nextID vm \<le> MAX_ID))
       (let i = m_nextID vm;
            newName = (if name = [] then defaultName i else name) in
        thenS (modifyS (\<lambda>vm. vm\<lparr>m_nextID := m_nextID vm + ID_INCR,
                 m_vars := (m_vars vm)(i \<mapsto> \<lparr>v_id = i, v_external = external, v_name = newName\<rparr>)\<rparr>))
        (thenS
          (if external \<noteq> 0 then
             thenS (assertS (m_internalToExternal vm i = None))
             (thenS (assertS (m_externalToInternal vm external = None))
             (modifyS (\<lambda>vm. vm\<lparr>m_internalToExternal := (m_internalToExternal vm)(i \<mapsto> external),
                               m_externalToInternal := (m_externalToInternal vm)(external \<mapsto> i)\<rparr>)))
           else retS ())
          (retS i))))"

text \<open>The call with both defaults, as the encodings use it.\<close>

definition getNewID :: "(varManager, id) sm" where
  "getNewID = getNewID_named [] 0"

definition isKnown :: "varManager \<Rightarrow> id \<Rightarrow> bool" where
  "isKnown vm i = (m_vars vm i \<noteq> None)"

definition isKnownExternal :: "varManager \<Rightarrow> externalID \<Rightarrow> bool" where
  "isKnownExternal vm e = (m_externalToInternal vm e \<noteq> None)"

definition toInternal :: "varManager \<Rightarrow> externalID \<Rightarrow> id res" where
  "toInternal vm e =
    (case m_externalToInternal vm (aiger_strip e) of
       None \<Rightarrow> Inl InvalidArgument
     | Some i \<Rightarrow> Inr (if aiger_sign e then negate i else i))"

definition toExternal :: "varManager \<Rightarrow> id \<Rightarrow> externalID res" where
  "toExternal vm pme_id =
    assertR (is_valid_id pme_id)
      (let neg = is_negated pme_id; p = strip pme_id in
       assertR (is_valid_id p)
         (case m_vars vm p of
            None \<Rightarrow> Inl InvalidArgument
          | Some v \<Rightarrow>
              assertR (\<not> aiger_sign (v_external v))
                (Inr (if neg then aiger_not (v_external v) else v_external v))))"

definition varOf :: "varManager \<Rightarrow> id \<Rightarrow> variable res" where
  "varOf vm i = assertR (is_valid_id i)
     (case m_vars vm (strip i) of None \<Rightarrow> Inl OutOfRange | Some v \<Rightarrow> Inr v)"

definition makeInternal :: "varManager \<Rightarrow> externalID list \<Rightarrow> clause res" where
  "makeInternal vm cls = mapR (toInternal vm) cls"

definition makeInternalVec :: "varManager \<Rightarrow> externalID list list \<Rightarrow> clauseVec res" where
  "makeInternalVec vm vec = mapR (makeInternal vm) vec"

definition stringOf :: "varManager \<Rightarrow> id \<Rightarrow> string res" where
  "stringOf vm i =
    (let primes = (ucast (nprimes i) :: 32 word);
         unprimed = unprime i;
         var_id = strip unprimed;
         neg = is_negated unprimed in
     bindR (varOf vm var_id) (\<lambda>var. Inr
       ((if neg then ''~'' else []) @ v_name var @
        (if primes = 1 then [char_of (39::nat)]
         else if primes > 1 then ''('' @ show_nat (unat primes) @ '')'' else []))))"

fun stringOf_vec :: "varManager \<Rightarrow> string \<Rightarrow> id list \<Rightarrow> string res" where
  "stringOf_vec vm sep [] = Inr []"
| "stringOf_vec vm sep [i] = stringOf vm i"
| "stringOf_vec vm sep (i # j # v) =
     bindR (stringOf vm i) (\<lambda>s. bindR (stringOf_vec vm sep (j # v)) (\<lambda>t. Inr (s @ sep @ t)))"

definition stringOf_vecs :: "varManager \<Rightarrow> clauseVec \<Rightarrow> string res" where
  "stringOf_vecs vm vec =
    bindR (mapR (stringOf_vec vm '' '') vec)
      (\<lambda>ss. Inr (concat (map (\<lambda>s. ''('' @ s @ '')'' @ [char_of (10::nat)]) ss)))"

subsection \<open>Invariant\<close>

text \<open>The IDs handed out so far are \<open>ID_FALSE\<close> and the even numbers from \<open>MIN_ID\<close> up to the
  next free one; the external map is the inverse of the external IDs stored with the
  variables.\<close>

definition vm_inv :: "varManager \<Rightarrow> bool" where
  "vm_inv vm = (MIN_ID \<le> m_nextID vm \<and> m_nextID vm \<le> MAX_ID + 1 \<and> \<not> is_negated (m_nextID vm)
     \<and> dom (m_vars vm) = insert ID_FALSE {i. MIN_ID \<le> i \<and> i < m_nextID vm \<and> \<not> is_negated i}
     \<and> (\<forall>i v. m_vars vm i = Some v \<longrightarrow> v_id v = i \<and> \<not> aiger_sign (v_external v))
     \<and> (\<forall>e i. m_externalToInternal vm e = Some i \<longleftrightarrow>
           (\<exists>v. m_vars vm i = Some v \<and> v_external v = e \<and> (e \<noteq> 0 \<or> i = ID_FALSE)))
     \<and> dom (m_internalToExternal vm) \<subseteq> dom (m_vars vm))"


lemma MAX_ID_val: "MAX_ID = 281474976710655"
  by (simp add: MAX_ID_mask mask_eq_exp_minus_1)

text \<open>\<open>room k vm\<close>: at least \<open>k\<close> more IDs can be allocated.\<close>

definition room :: "nat \<Rightarrow> varManager \<Rightarrow> bool" where
  "room k vm = (vm_inv vm \<and> unat (m_nextID vm) + 2 * k \<le> 2 ^ 48)"

text \<open>Variables the manager has not still to hand out: those allocated already, the constants
  and every primed variable.\<close>

definition old_var :: "varManager \<Rightarrow> id \<Rightarrow> bool" where
  "old_var vm v = (v < m_nextID vm \<or> MAX_ID < v)"

definition old_lit :: "varManager \<Rightarrow> id \<Rightarrow> bool" where
  "old_lit vm l = old_var vm (strip l)"

lemma vm_new_inv: "vm_inv vm_new"
proof -
  have "m_externalToInternal vm_new e = Some i \<longleftrightarrow>
      (\<exists>v. m_vars vm_new i = Some v \<and> v_external v = e \<and> (e \<noteq> 0 \<or> i = ID_FALSE))" for e i
    by (auto simp: vm_new_def)
  moreover have "dom (m_vars vm_new)
      = insert ID_FALSE {i. MIN_ID \<le> i \<and> i < m_nextID vm_new \<and> \<not> is_negated i}"
    by (auto simp: vm_new_def)
  ultimately show ?thesis
    by (auto simp: vm_inv_def) (auto simp: vm_new_def MAX_ID_val MIN_ID_val is_negated_def aiger_sign_def split: if_splits)
qed

lemma even_next_step:
  fixes n :: id
  assumes "\<not> is_negated n" "n \<le> MAX_ID"
  shows "n < n + 2" "n + 2 \<le> MAX_ID + 1" "\<not> is_negated (n + 2)" "unat (n + 2) = unat n + 2"
    "\<And>i. \<not> is_negated i \<Longrightarrow> i < n + 2 \<longleftrightarrow> i < n \<or> i = n"
proof -
  have ev: "even (unat m)" if "\<not> is_negated m" for m :: id
    using that bit_unsigned_iff[of m 0, where ?'a = nat] by (simp add: is_negated_bit bit_0)
  have n: "unat n \<le> 281474976710655"
    using assms(2) by (simp add: MAX_ID_val word_le_nat_alt)
  have n': "unat n < 281474976710655"
    using ev[OF assms(1)] n by (metis dvd_refl even_numeral le_neq_implies_less odd_numeral)
  show u: "unat (n + 2) = unat n + 2"
    using n by (subst unat_add_lem[THEN iffD1]) auto
  show "n < n + 2" using u by (simp add: word_less_nat_alt)
  show "n + 2 \<le> MAX_ID + 1" using u n' by (simp add: word_le_nat_alt MAX_ID_val)
  show "\<not> is_negated (n + 2)" using assms(1) by (simp add: is_negated_bit bit_0)
  fix i
  assume i: "\<not> is_negated i"
  have "unat i < unat n + 2 \<longleftrightarrow> unat i < unat n \<or> unat i = unat n"
    using ev[OF i] ev[OF assms(1)] by presburger
  then show "i < n + 2 \<longleftrightarrow> i < n \<or> i = n"
    by (simp only: word_less_nat_alt u word_unat_eq_iff)
qed

lemma getNewID_named_wp:
  assumes inv: "vm_inv vm" and "m_nextID vm \<le> MAX_ID" and "\<not> aiger_sign external"
    and new: "external \<noteq> 0 \<Longrightarrow> \<not> isKnownExternal vm external"
  shows "wp (getNewID_named name external)
    (\<lambda>i vm'. i = m_nextID vm \<and> \<not> isKnown vm i \<and> m_nextID vm' = i + 2 \<and> vm_inv vm'
       \<and> (\<exists>nm. m_vars vm' = (m_vars vm)(i \<mapsto> \<lparr>v_id = i, v_external = external, v_name = nm\<rparr>))) vm"
proof -
  let ?i = "m_nextID vm"
  have nxt: "?i \<notin> dom (m_vars vm)" "MIN_ID \<le> ?i" "\<not> is_negated ?i"
    using inv by (auto simp: vm_inv_def MIN_ID_val ID_FALSE_def)
  note step = even_next_step[OF nxt(3) assms(2)]
  let ?v = "\<lparr>v_id = ?i, v_external = external,
               v_name = (if name = [] then defaultName ?i else name)\<rparr>"
  let ?vars = "(m_vars vm)(?i \<mapsto> ?v)"
  have dom: "dom ?vars = insert ID_FALSE {j. MIN_ID \<le> j \<and> j < ?i + 2 \<and> \<not> is_negated j}"
    using inv nxt step(5) by (auto simp: vm_inv_def)
  have bounds: "MIN_ID \<le> ?i + 2" "?i \<noteq> ID_FALSE"
    using nxt(1,2) step(1) inv by (auto simp: vm_inv_def)
  have ext0: "external = 0 \<or> m_externalToInternal vm external = None"
    using new unfolding isKnownExternal_def by blast
  have i2e: "m_internalToExternal vm ?i = None"
    using inv nxt(1) unfolding vm_inv_def by blast
  have maps: "m_externalToInternal vm e = Some j \<longleftrightarrow>
      (\<exists>v. m_vars vm j = Some v \<and> v_external v = e \<and> (e \<noteq> 0 \<or> j = ID_FALSE))" for e j
    using inv by (simp add: vm_inv_def)
  have vars: "v_id v = j \<and> \<not> aiger_sign (v_external v)" if "?vars j = Some v" for j v
    using inv that assms(3) by (auto simp: vm_inv_def split: if_splits)
  have old: "m_vars vm ?i = None" using nxt(1) by auto
  have e2i: "((m_externalToInternal vm)(external \<mapsto> ?i)) e = Some j \<longleftrightarrow>
      (\<exists>v. ?vars j = Some v \<and> v_external v = e \<and> (e \<noteq> 0 \<or> j = ID_FALSE))" if "external \<noteq> 0" for e j
    using maps[of e j] maps[of external j] old ext0 that bounds(2) by (auto split: if_splits)
  have e2i0: "m_externalToInternal vm e = Some j \<longleftrightarrow>
      (\<exists>v. ?vars j = Some v \<and> v_external v = e \<and> (e \<noteq> 0 \<or> j = ID_FALSE))" if "external = 0" for e j
    using maps[of e j] old that bounds(2) by (auto split: if_splits)
  have "dom (m_internalToExternal vm) \<subseteq> dom (m_vars vm)"
    using inv unfolding vm_inv_def by blast
  then have di: "dom (m_internalToExternal vm) \<subseteq> dom ?vars" by auto
  have di0: "\<exists>z. m_vars vm x = Some z" if "m_internalToExternal vm x = Some y" for x y
    using inv that unfolding vm_inv_def by blast
  have invS: "vm_inv S" if "m_nextID S = ?i + 2" "m_vars S = ?vars"
      "m_externalToInternal S = (if external = 0 then m_externalToInternal vm
         else (m_externalToInternal vm)(external \<mapsto> ?i))"
      "dom (m_internalToExternal S) \<subseteq> dom ?vars" for S
  proof -
    have "m_externalToInternal S e = Some j \<longleftrightarrow>
        (\<exists>v. ?vars j = Some v \<and> v_external v = e \<and> (e \<noteq> 0 \<or> j = ID_FALSE))" for e j
    proof (cases "external = 0")
      case True
      then show ?thesis unfolding that(3) using e2i0[of e j] by (simp only: if_True simp_thms)
    next
      case False
      then show ?thesis unfolding that(3) using e2i[of e j] by (simp only: if_False simp_thms)
    qed
    then show ?thesis
      unfolding vm_inv_def that(1,2) using that(4) bounds(1) step(2,3) dom
        vars[THEN conjunct1] vars[THEN conjunct2] by (intro conjI allI impI)
  qed
  have fresh: "\<not> isKnown vm ?i" using old by (simp add: isKnown_def)
  show ?thesis
  proof (cases "external = 0")
    case True
    then show ?thesis using assms(2) fresh di
      by (simp add: getNewID_named_def Let_def ID_INCR_def) (auto intro!: invS intro: di0)
  next
    case False
    have d2: "dom ((m_internalToExternal vm)(?i \<mapsto> external)) \<subseteq> dom ?vars"
      using di by auto
    have "m_externalToInternal vm external = None" using ext0 False by blast
    then show ?thesis using assms(2) fresh i2e False d2 ext0
      by (cases "name = []")
        (simp_all add: getNewID_named_def Let_def ID_INCR_def invS, blast+)
  qed
qed

lemma room_0: "room k vm \<Longrightarrow> vm_inv vm"
  by (simp add: room_def)

lemma room_mono: "room k vm \<Longrightarrow> j \<le> k \<Longrightarrow> room j vm"
  by (auto simp: room_def)

lemma getNewID_wp:
  assumes "room (Suc k) vm"
  shows "wp getNewID (\<lambda>i vm'. i = m_nextID vm \<and> room k vm' \<and> m_nextID vm' = m_nextID vm + 2
    \<and> unat (m_nextID vm') = unat (m_nextID vm) + 2
    \<and> \<not> old_var vm i \<and> old_var vm' i \<and> \<not> is_negated i \<and> \<not> isKnown vm i \<and> isKnown vm' i
    \<and> (\<forall>v. old_var vm v \<longrightarrow> old_var vm' v) \<and> (\<forall>v. isKnown vm v \<longrightarrow> isKnown vm' v)) vm"
proof -
  have inv: "vm_inv vm" and k: "unat (m_nextID vm) + 2 * Suc k \<le> 2 ^ 48"
    using assms by (auto simp: room_def)
  have le: "m_nextID vm \<le> MAX_ID"
    using k by (simp add: word_le_nat_alt MAX_ID_val)
  have ev: "\<not> is_negated (m_nextID vm)" using inv by (simp add: vm_inv_def)
  note step = even_next_step[OF ev le]
  have "wp (getNewID_named [] 0)
    (\<lambda>i vm'. i = m_nextID vm \<and> \<not> isKnown vm i \<and> m_nextID vm' = i + 2 \<and> vm_inv vm'
       \<and> (\<exists>nm. m_vars vm' = (m_vars vm)(i \<mapsto> \<lparr>v_id = i, v_external = 0, v_name = nm\<rparr>))) vm"
    by (rule getNewID_named_wp[OF inv le]) (auto simp: aiger_sign_def)
  then show ?thesis
    unfolding getNewID_def
  proof (rule wp_mono, elim conjE exE)
    fix i vm' nm
    assume a: "i = m_nextID vm" "\<not> isKnown vm i" "m_nextID vm' = i + 2" "vm_inv vm'"
      "m_vars vm' = (m_vars vm)(i \<mapsto> \<lparr>v_id = i, v_external = 0, v_name = nm\<rparr>)"
    have "\<not> old_var vm i" "old_var vm' i" "\<forall>v. old_var vm v \<longrightarrow> old_var vm' v"
      using a le step(1) by (auto simp: old_var_def intro: less_trans)
    moreover have "room k vm'" using a step(4) k by (simp add: room_def)
    ultimately show "i = m_nextID vm \<and> room k vm' \<and> m_nextID vm' = m_nextID vm + 2
      \<and> unat (m_nextID vm') = unat (m_nextID vm) + 2
      \<and> \<not> old_var vm i \<and> old_var vm' i \<and> \<not> is_negated i \<and> \<not> isKnown vm i \<and> isKnown vm' i
      \<and> (\<forall>v. old_var vm v \<longrightarrow> old_var vm' v) \<and> (\<forall>v. isKnown vm v \<longrightarrow> isKnown vm' v)"
      using a ev step(4) by (auto simp: isKnown_def)
  qed
qed

lemma getNewID_full: "\<not> m_nextID vm \<le> MAX_ID \<Longrightarrow> getNewID_named name e vm = Inl AssertFail"
  by (simp add: getNewID_named_def bindS_def[of getS] thenS_def[of "assertS _"]
      bindS_def[of "assertS _"] getS_def assertS_def)

subsection \<open>Internal and external literals\<close>

lemma aiger_bits: "aiger_sign e = bit e 0" "bit (aiger_strip e) n = (bit e n \<and> n \<noteq> 0)"
  "bit (aiger_not e) n = (bit e n \<noteq> (n = 0))"
proof -
  show "aiger_sign e = bit e 0"
    by (simp add: aiger_sign_def and_one_eq bit_0 odd_iff_mod_2_eq_one)
  show "bit (aiger_strip e) n = (bit e n \<and> n \<noteq> 0)"
    by (cases "n < 32") (auto simp: aiger_strip_def bit_simps dest: bit_imp_le_length)
  show "bit (aiger_not e) n = (bit e n \<noteq> (n = 0))"
    by (auto simp: aiger_not_def bit_simps)
qed

lemma aiger_rebuild: "(if aiger_sign e then aiger_not (aiger_strip e) else aiger_strip e) = e"
proof (rule bit_word_eqI)
  show "bit (if aiger_sign e then aiger_not (aiger_strip e) else aiger_strip e) n = bit e n" for n
    by (cases n) (auto simp: aiger_bits)
qed

lemma aiger_strip_even: "\<not> aiger_sign e \<Longrightarrow> aiger_strip e = e"
  by (rule bit_word_eqI) (metis aiger_bits(1,2))

lemma aiger_strip_not: "aiger_strip (aiger_not e) = aiger_strip e"
  by (rule bit_word_eqI) (auto simp: aiger_bits)

lemma known_valid:
  assumes "vm_inv vm" "m_vars vm i = Some v"
  shows "is_valid_id i" "is_valid_id (negate i)" "\<not> is_negated i" "v_id v = i"
    "\<not> aiger_sign (v_external v)"
proof -
  have "i \<in> dom (m_vars vm)" using assms(2) by blast
  then have i: "i = ID_FALSE \<or> MIN_ID \<le> i \<and> \<not> is_negated i"
    using assms(1) by (auto simp: vm_inv_def)
  then show "is_valid_id i" by (auto simp: is_valid_id_def)
  show "\<not> is_negated i" using i by (auto simp: is_negated_def ID_FALSE_def)
  have "MIN_ID \<le> i \<Longrightarrow> MIN_ID \<le> negate i"
    by (metis MIN_ID_val negate_small not_le)
  then show "is_valid_id (negate i)" using i by (auto simp: is_valid_id_def ID_TRUE_def)
  show "v_id v = i" "\<not> aiger_sign (v_external v)" using assms by (auto simp: vm_inv_def)
qed

lemma toExternal_toInternal:
  assumes "vm_inv vm" "toInternal vm e = Inr l"
  shows "toExternal vm l = Inr e"
proof -
  obtain i where i: "m_externalToInternal vm (aiger_strip e) = Some i"
      and l: "l = (if aiger_sign e then negate i else i)"
    using assms(2) by (auto simp: toInternal_def split: option.splits)
  then obtain v where v: "m_vars vm i = Some v" "v_external v = aiger_strip e"
    using assms(1) by (auto simp: vm_inv_def)
  note k = known_valid[OF assms(1) v(1)]
  have s: "strip l = i" "is_negated l = aiger_sign e" "is_valid_id l"
    using k(1-3) l by (auto simp: strip_id)
  show ?thesis
    using s k(1,5) v aiger_rebuild[of e] by (auto simp: toExternal_def Let_def)
qed

lemma toInternal_toExternal:
  assumes "vm_inv vm" "toExternal vm l = Inr e" "aiger_strip e \<noteq> 0 \<or> strip l = ID_FALSE"
  shows "toInternal vm e = Inr l"
proof -
  obtain v where v: "m_vars vm (strip l) = Some v"
      and e: "e = (if is_negated l then aiger_not (v_external v) else v_external v)"
    using assms(2) by (auto simp: toExternal_def Let_def assertR_Inr_iff split: option.splits)
  note k = known_valid[OF assms(1) v(1)]
  have e': "aiger_strip e = v_external v" "aiger_sign e = is_negated l"
    using e k(5) aiger_bits(1)[of "v_external v"] aiger_bits(1)[of e]
      aiger_bits(3)[of "v_external v" 0]
    by (auto simp: aiger_strip_not aiger_strip_even)
  have "m_externalToInternal vm (v_external v) = Some (strip l)"
    using assms(1,3) v e'(1) by (auto simp: vm_inv_def)
  then show ?thesis
    using e' by (simp add: toInternal_def) (auto simp: strip_def)
qed

lemma toInternal_valid:
  assumes "vm_inv vm" "toInternal vm e = Inr l"
  shows "is_valid_id l" "isKnown vm (strip l)"
proof -
  obtain i where i: "m_externalToInternal vm (aiger_strip e) = Some i"
      and l: "l = (if aiger_sign e then negate i else i)"
    using assms(2) by (auto simp: toInternal_def split: option.splits)
  then obtain v where v: "m_vars vm i = Some v"
    using assms(1) by (auto simp: vm_inv_def)
  note k = known_valid[OF assms(1) v(1)]
  show "is_valid_id l" "isKnown vm (strip l)"
    using k l v by (auto simp: isKnown_def strip_id)
qed

end
