(* ===== verification/TransBuild.thy ===== *)
theory TransBuild
  imports TransSem VarManager
begin

text \<open>
  The constructors of \<open>src/src/pme/engine/transition_relation.{h,cpp}\<close> and of
  \<open>src/src/pme/engine/debug_transition_relation.{h,cpp}\<close>: from an AIGER circuit, from a subset of
  the gates of another transition relation, and the debug enhancement.  The variable manager the
  transition relation refers to is the first component of the state.
\<close>

subsection \<open>From an AIGER circuit\<close>

text \<open>The parts of \<open>struct aiger\<close> the constructor reads.\<close>

record aigSymbol =
  sy_lit :: externalID
  sy_next :: externalID
  sy_reset :: externalID
  sy_name :: "string option"

record aigAnd =
  an_lhs :: externalID
  an_rhs0 :: externalID
  an_rhs1 :: externalID

record aig =
  ai_maxvar :: externalID
  ai_inputs :: "aigSymbol list"
  ai_latches :: "aigSymbol list"
  ai_outputs :: "aigSymbol list"
  ai_constraints :: "aigSymbol list"
  ai_ands :: "aigAnd list"

type_synonym 'a trb = "varManager \<times> 'a transRel_scheme"

definition onVars :: "(varManager, 'b) sm \<Rightarrow> ('a trb, 'b) sm" where
  "onVars m = zoomS fst (\<lambda>v s. (v, snd s)) m"

definition modifyTR :: "('a transRel_scheme \<Rightarrow> 'a transRel_scheme) \<Rightarrow> ('a trb, unit) sm" where
  "modifyTR f = modifyS (\<lambda>s. (fst s, f (snd s)))"

definition default_name :: "string \<Rightarrow> externalID \<Rightarrow> string" where
  "default_name prefix index = prefix @ show_nat (unat index)"

definition create_name :: "string option \<Rightarrow> string \<Rightarrow> string" where
  "create_name symname defname = (case symname of None \<Rightarrow> defname | Some s \<Rightarrow> s)"

definition tb_toInternal :: "externalID \<Rightarrow> ('a trb, id) sm" where
  "tb_toInternal e = bindS getS (\<lambda>s. liftS (toInternal (fst s) e))"

definition tb_toExternal :: "id \<Rightarrow> ('a trb, externalID) sm" where
  "tb_toExternal i = bindS getS (\<lambda>s. liftS (toExternal (fst s) i))"

definition tb_varOf :: "id \<Rightarrow> ('a trb, variable) sm" where
  "tb_varOf i = bindS getS (\<lambda>s. liftS (varOf (fst s) i))"

definition createVar :: "externalID \<Rightarrow> string \<Rightarrow> ('a trb, variable) sm" where
  "createVar external name = thenS (assertS (\<not> aiger_sign external))
     (bindS (onVars (getNewID_named name external)) tb_varOf)"

definition createInternalVar :: "string \<Rightarrow> ('a trb, variable) sm" where
  "createInternalVar name = createVar 0 name"

definition getOrCreateVar :: "externalID \<Rightarrow> string \<Rightarrow> ('a trb, variable) sm" where
  "getOrCreateVar external name = bindS getS (\<lambda>s.
     if isKnownExternal (fst s) external then bindS (tb_toInternal external) tb_varOf
     else createVar external (if name = [] then default_name ''aig'' external else name))"

definition createLatch :: "id \<Rightarrow> id \<Rightarrow> id \<Rightarrow> ('a trb, unit) sm" where
  "createLatch i next reset = bindS getS (\<lambda>s. thenS (assertS (map_of (tr_latches (snd s)) i = None))
     (modifyTR (\<lambda>t. t\<lparr>tr_latches := tr_latches t @ [(i, \<lparr>la_id = i, la_next = next, la_reset = reset\<rparr>)],
        tr_latchIDs := tr_latchIDs t @ [i]\<rparr>)))"

definition createInput :: "id \<Rightarrow> ('a trb, unit) sm" where
  "createInput i = bindS getS (\<lambda>s. thenS (assertS (i \<notin> set (tr_inputIDs (snd s))))
     (modifyTR (\<lambda>t. t\<lparr>tr_inputIDs := tr_inputIDs t @ [i]\<rparr>)))"

definition createSymbol :: "string \<Rightarrow> nat \<times> aigSymbol \<Rightarrow> ('a trb, unit) sm" where
  "createSymbol prefix = (\<lambda>(i, sm). bindS (getOrCreateVar (aiger_strip (sy_lit sm))
     (create_name (sy_name sm) (default_name prefix (of_nat i)))) (\<lambda>v. retS ()))"

definition createSymbols :: "aigSymbol list \<Rightarrow> string \<Rightarrow> ('a trb, unit) sm" where
  "createSymbols syms prefix = iterS (createSymbol prefix) (enumerate 0 syms)"

text \<open>\<open>m_gates.insert\<close> keeps an entry that is present.\<close>

definition insertGate :: "id \<Rightarrow> andGate \<Rightarrow> (id \<times> andGate) list \<Rightarrow> (id \<times> andGate) list" where
  "insertGate l g gs = (if map_of gs l = None then gs @ [(l, g)] else gs)"

definition processAnd :: "aigAnd \<Rightarrow> ('a trb, unit) sm" where
  "processAnd g = bindS (getOrCreateVar (aiger_strip (an_lhs g)) []) (\<lambda>_.
     bindS (getOrCreateVar (aiger_strip (an_rhs0 g)) []) (\<lambda>_.
     bindS (getOrCreateVar (aiger_strip (an_rhs1 g)) []) (\<lambda>_.
     bindS (tb_toInternal (an_lhs g)) (\<lambda>l. bindS (tb_toInternal (an_rhs0 g)) (\<lambda>r0.
     bindS (tb_toInternal (an_rhs1 g)) (\<lambda>r1.
       modifyTR (\<lambda>t. t\<lparr>tr_gates := insertGate l \<lparr>ag_lhs = l, ag_rhs0 = r0, ag_rhs1 = r1\<rparr> (tr_gates t),
                      tr_gateIDs := tr_gateIDs t @ [l]\<rparr>)))))))"

definition processAnds :: "aig \<Rightarrow> ('a trb, unit) sm" where
  "processAnds a = iterS processAnd (ai_ands a)"

definition processLatch :: "aigSymbol \<Rightarrow> ('a trb, unit) sm" where
  "processLatch sm = thenS (assertS (\<not> aiger_sign (sy_lit sm)))
     (let reset_id = (if sy_reset sm = 0 then ID_FALSE else if sy_reset sm = 1 then ID_TRUE else ID_NULL) in
      bindS (getOrCreateVar (aiger_strip (sy_next sm)) []) (\<lambda>varp.
      let next_id = (if aiger_sign (sy_next sm) then negate (v_id varp) else v_id varp) in
      bindS (tb_toInternal (sy_lit sm)) (\<lambda>latch_id. createLatch latch_id next_id reset_id)))"

definition processLatches :: "aig \<Rightarrow> ('a trb, unit) sm" where
  "processLatches a = iterS processLatch (ai_latches a)"

definition processInput :: "aigSymbol \<Rightarrow> ('a trb, unit) sm" where
  "processInput sm = thenS (assertS (\<not> aiger_sign (sy_lit sm))) (bindS (tb_toInternal (sy_lit sm)) createInput)"

definition processInputs :: "aig \<Rightarrow> ('a trb, unit) sm" where
  "processInputs a = iterS processInput (ai_inputs a)"

definition processConstraints :: "aig \<Rightarrow> ('a trb, unit) sm" where
  "processConstraints a = iterS (\<lambda>sm. bindS (tb_toInternal (sy_lit sm)) (\<lambda>l.
     modifyTR (\<lambda>t. t\<lparr>tr_constraints := tr_constraints t @ [l]\<rparr>))) (ai_constraints a)"

definition buildModel :: "aig \<Rightarrow> ('a trb, unit) sm" where
  "buildModel a = thenS (createSymbols (ai_inputs a) ''i'') (thenS (createSymbols (ai_latches a) ''l'')
     (thenS (processAnds a) (thenS (processLatches a) (thenS (processInputs a) (processConstraints a)))))"

definition tr_empty :: transRel where
  "tr_empty = \<lparr>tr_bad = ID_NULL, tr_latches = [], tr_gates = [], tr_latchIDs = [], tr_inputIDs = [],
     tr_gateIDs = [], tr_constraints = []\<rparr>"

definition tr_build :: "aig \<Rightarrow> externalID \<Rightarrow> (varManager, transRel) sm" where
  "tr_build a e vm = bindR (buildModel a (vm, tr_empty)) (\<lambda>r.
     bindR (toInternal (fst (snd r)) e) (\<lambda>bad. Inr ((snd (snd r))\<lparr>tr_bad := bad\<rparr>, fst (snd r))))"

definition tr_of_aig :: "aig \<Rightarrow> (varManager, transRel) sm" where
  "tr_of_aig a = (case ai_outputs a of [] \<Rightarrow> failS AssertFail | out # _ \<Rightarrow> tr_build a (sy_lit out))"

definition tr_of_property :: "aig \<Rightarrow> externalID \<Rightarrow> (varManager, transRel) sm" where
  "tr_of_property a property = thenS (assertS (property \<le> ai_maxvar a * 2 + 1)) (tr_build a property)"

text \<open>Clauses between the two numberings.\<close>

definition tr_makeInternal :: "varManager \<Rightarrow> externalID list \<Rightarrow> clause res" where
  "tr_makeInternal vm cls = mapR (toInternal vm) cls"

definition tr_makeInternalVec :: "varManager \<Rightarrow> externalID list list \<Rightarrow> clauseVec res" where
  "tr_makeInternalVec vm vec = mapR (tr_makeInternal vm) vec"

definition tr_makeExternal :: "varManager \<Rightarrow> clause \<Rightarrow> externalID list res" where
  "tr_makeExternal vm cls = mapR (toExternal vm) cls"

definition tr_makeExternalVec :: "varManager \<Rightarrow> clauseVec \<Rightarrow> externalID list list res" where
  "tr_makeExternalVec vm vec = mapR (tr_makeExternal vm) vec"

lemma makeExternal_makeInternal:
  assumes "vm_inv vm" "tr_makeInternalVec vm E = Inr C"
  shows "tr_makeExternalVec vm C = Inr E"
proof -
  have 1: "tr_makeExternal vm c = Inr e" if "tr_makeInternal vm e = Inr c" for e c
    using that toExternal_toInternal[OF assms(1)]
    unfolding tr_makeInternal_def tr_makeExternal_def mapR_Inr_iff
    by (induction rule: list_all2_induct) auto
  show ?thesis
    using assms(2) 1 unfolding tr_makeInternalVec_def tr_makeExternalVec_def mapR_Inr_iff
    by (induction rule: list_all2_induct) auto
qed

subsection \<open>From a subset of the gates\<close>

record restrictState =
  rs_relevant :: "id set"
  rs_latches :: "(id \<times> latch) list"
  rs_latchIDs :: "id list"
  rs_fixpoint :: bool

definition restrict_gates :: "transRel \<Rightarrow> id list \<Rightarrow> (id \<times> andGate) list" where
  "restrict_gates other gates = filter (\<lambda>(lhs, g). lhs \<in> set gates) (tr_gates other)"

definition restrict_latch :: "id \<times> latch \<Rightarrow> restrictState \<Rightarrow> restrictState" where
  "restrict_latch = (\<lambda>(lit, latch) r.
     if lit \<notin> rs_relevant r then r
     else if map_of (rs_latches r) lit \<noteq> None then r
     else let next = strip (la_next latch) in
       r\<lparr>rs_latches := rs_latches r @ [(lit, latch)], rs_latchIDs := rs_latchIDs r @ [lit],
         rs_relevant := insert next (rs_relevant r), rs_fixpoint := rs_fixpoint r \<and> next \<in> rs_relevant r\<rparr>)"

definition restrict_pass :: "(id \<times> latch) list \<Rightarrow> restrictState \<Rightarrow> restrictState" where
  "restrict_pass ls r = fold restrict_latch ls (r\<lparr>rs_fixpoint := True\<rparr>)"

text \<open>Each pass that is not the last copies a latch.\<close>

definition uncopied :: "(id \<times> latch) list \<Rightarrow> restrictState \<Rightarrow> nat" where
  "uncopied ls r = length (filter (\<lambda>p. map_of (rs_latches r) (fst p) = None) ls)"

lemma restrict_latch_keys:
  "dom (map_of (rs_latches (restrict_latch p r))) =
     (if fst p \<in> rs_relevant r then insert (fst p) (dom (map_of (rs_latches r))) else dom (map_of (rs_latches r)))"
  by (cases p) (auto simp: restrict_latch_def Let_def map_add_def split: option.splits)

lemma restrict_latch_fix:
  assumes "rs_fixpoint r" "\<not> rs_fixpoint (restrict_latch p r)"
  shows "map_of (rs_latches r) (fst p) = None \<and> map_of (rs_latches (restrict_latch p r)) (fst p) \<noteq> None"
  using assms by (cases p) (auto simp: restrict_latch_def Let_def map_add_def split: if_splits)

lemma restrict_fold_keys: "dom (map_of (rs_latches r)) \<subseteq> dom (map_of (rs_latches (fold restrict_latch ls r)))"
proof (induction ls arbitrary: r)
  case (Cons p ls)
  have "dom (map_of (rs_latches r)) \<subseteq> dom (map_of (rs_latches (restrict_latch p r)))"
    by (auto simp: restrict_latch_keys)
  then show ?case using Cons[of "restrict_latch p r"] by simp
qed simp

lemma restrict_fold_fix:
  assumes "rs_fixpoint r" "\<not> rs_fixpoint (fold restrict_latch ls r)"
  shows "\<exists>p\<in>set ls. map_of (rs_latches r) (fst p) = None \<and> map_of (rs_latches (fold restrict_latch ls r)) (fst p) \<noteq> None"
  using assms
proof (induction ls arbitrary: r)
  case (Cons q ls)
  let ?r = "restrict_latch q r"
  have keys: "dom (map_of (rs_latches r)) \<subseteq> dom (map_of (rs_latches ?r))" by (auto simp: restrict_latch_keys)
  show ?case
  proof (cases "rs_fixpoint ?r")
    case True
    then obtain p where "p \<in> set ls" "map_of (rs_latches ?r) (fst p) = None"
        "map_of (rs_latches (fold restrict_latch ls ?r)) (fst p) \<noteq> None"
      using Cons.IH[of ?r] Cons.prems(2) by auto
    then show ?thesis using keys by (intro bexI[of _ p]) (auto simp: dom_def)
  next
    case False
    then have "map_of (rs_latches r) (fst q) = None" "map_of (rs_latches ?r) (fst q) \<noteq> None"
      using restrict_latch_fix[OF Cons.prems(1)] by auto
    then show ?thesis using restrict_fold_keys[of ?r ls] by (auto simp: dom_def)
  qed
qed simp

lemma restrict_pass_less:
  assumes "\<not> rs_fixpoint (restrict_pass ls r)"
  shows "uncopied ls (restrict_pass ls r) < uncopied ls r"
proof -
  let ?start = "r\<lparr>rs_fixpoint := True\<rparr>"
  let ?r = "restrict_pass ls r"
  let ?P = "\<lambda>r p. map_of (rs_latches r) (fst p) = None"
  have "\<exists>p\<in>set ls. ?P ?start p \<and> \<not> ?P ?r p"
    unfolding restrict_pass_def by (rule restrict_fold_fix) (use assms in \<open>simp_all add: restrict_pass_def\<close>)
  then obtain p where p: "p \<in> set ls" "?P r p" "\<not> ?P ?r p" by auto
  have mono: "?P ?r q \<Longrightarrow> ?P r q" for q
    using restrict_fold_keys[of ?start ls] by (auto simp: restrict_pass_def dom_def)
  have "filter (?P ?r) ls = filter (?P ?r) (filter (?P r) ls)"
    by (simp add: filter_filter) (rule filter_cong[OF refl], use mono in blast)
  then show ?thesis
    unfolding uncopied_def using length_filter_less[of p "filter (?P r) ls" "?P ?r"] p by simp
qed

function restrict_loop :: "(id \<times> latch) list \<Rightarrow> restrictState \<Rightarrow> restrictState" where
  "restrict_loop ls r = (let r' = restrict_pass ls r in if rs_fixpoint r' then r' else restrict_loop ls r')"
  by auto
termination by (relation "measure (\<lambda>(ls, r). uncopied ls r)") (auto simp: restrict_pass_less)

declare restrict_loop.simps [simp del]

text \<open>The two assertions hold when the keys of the maps are the IDs of their entries.\<close>

definition tr_restrict :: "transRel \<Rightarrow> id list \<Rightarrow> transRel res" where
  "tr_restrict other gates = (let gs = restrict_gates other gates;
     r0 = \<lparr>rs_relevant = {tr_bad other} \<union> (\<Union>(k, g)\<in>set gs. {strip (ag_rhs0 g), strip (ag_rhs1 g)}),
           rs_latches = [], rs_latchIDs = [], rs_fixpoint = False\<rparr>;
     r = restrict_loop (tr_latches other) r0 in
     assertR (\<forall>(k, g)\<in>set gs. ag_lhs g = k) (assertR (\<forall>(k, l)\<in>set (rs_latches r). la_id l = k)
       (Inr \<lparr>tr_bad = tr_bad other, tr_latches = rs_latches r, tr_gates = gs, tr_latchIDs = rs_latchIDs r,
          tr_inputIDs = map strip (filter (\<lambda>i. map_of (rs_latches r) i = None \<and> map_of gs i = None)
             (sorted_list_of_set (rs_relevant r))),
          tr_gateIDs = map fst gs, tr_constraints = tr_constraints other\<rparr>)))"

subsection \<open>The debug enhancement\<close>

definition debugPPIName :: "externalID \<Rightarrow> string" where
  "debugPPIName e = ''di_'' @ show_nat (unat e)"

definition debugLatchName :: "externalID \<Rightarrow> string" where
  "debugLatchName e = ''dl_'' @ show_nat (unat e)"

type_synonym dtb = "varManager \<times> debugTR"

definition createDebugFor :: "id \<Rightarrow> (dtb, unit) sm" where
  "createDebugFor gate = bindS getS (\<lambda>s. thenS (assertS (dt_IDToDebugLatch (snd s) gate = None))
     (bindS (tb_toExternal gate) (\<lambda>e1. bindS (createInternalVar (debugLatchName e1)) (\<lambda>dl_var.
      let debug_latch = v_id dl_var in
      bindS getS (\<lambda>s. thenS (assertS (dt_debugLatchToID (snd s) debug_latch = None))
      (thenS (assertS (dt_IDToDebugLatch (snd s) gate = None))
      (thenS (createLatch debug_latch debug_latch ID_NULL)
      (bindS (tb_toExternal gate) (\<lambda>e2. bindS (createInternalVar (debugPPIName e2)) (\<lambda>di_var.
      let debug_input = v_id di_var in
      bindS getS (\<lambda>s. thenS (assertS (dt_IDToDebugPPI (snd s) gate = None))
      (thenS (createInput debug_input)
      (modifyTR (\<lambda>d. d\<lparr>dt_debugLatchIDs := dt_debugLatchIDs d @ [debug_latch],
         dt_debugPPIs := dt_debugPPIs d @ [debug_input],
         dt_IDToDebugLatch := (dt_IDToDebugLatch d)(gate \<mapsto> debug_latch),
         dt_debugLatchToID := (dt_debugLatchToID d)(debug_latch \<mapsto> gate),
         dt_IDToDebugPPI := (dt_IDToDebugPPI d)(gate \<mapsto> debug_input)\<rparr>))))))))))))))"

definition enhanceModel :: "(dtb, unit) sm" where
  "enhanceModel = bindS getS (\<lambda>s. iterS createDebugFor (tr_gateIDs (snd s)))"

definition dt_enhance :: "transRel \<Rightarrow> (varManager, debugTR) sm" where
  "dt_enhance t vm = bindR (enhanceModel (vm, transRel.extend t \<lparr>dt_debugLatchIDs = [], dt_debugPPIs = [],
        dt_IDToDebugLatch = Map.empty, dt_debugLatchToID = Map.empty, dt_IDToDebugPPI = Map.empty\<rparr>))
     (\<lambda>r. Inr (snd (snd r), fst (snd r)))"

definition dt_of_aig :: "aig \<Rightarrow> (varManager, debugTR) sm" where
  "dt_of_aig a = bindS (tr_of_aig a) dt_enhance"

definition dt_of_property :: "aig \<Rightarrow> externalID \<Rightarrow> (varManager, debugTR) sm" where
  "dt_of_property a property = bindS (tr_of_property a property) dt_enhance"

definition dt_of_tr :: "transRel \<Rightarrow> (varManager, debugTR) sm" where
  "dt_of_tr t = dt_enhance (tr_copy t)"

definition dt_numSuspects :: "debugTR \<Rightarrow> nat" where
  "dt_numSuspects d = length (dt_debugLatchIDs d)"

subsection \<open>The circuit a transition relation stands for\<close>

text \<open>External literals that the manager knows, and the literal it maps them to.\<close>

definition knows :: "varManager \<Rightarrow> externalID \<Rightarrow> bool" where
  "knows vm e = (m_externalToInternal vm (aiger_strip e) \<noteq> None)"

definition vm_int :: "varManager \<Rightarrow> externalID \<Rightarrow> id" where
  "vm_int vm e = (case m_externalToInternal vm (aiger_strip e) of None \<Rightarrow> ID_NULL
     | Some i \<Rightarrow> if aiger_sign e then negate i else i)"

definition ext_le :: "varManager \<Rightarrow> varManager \<Rightarrow> bool" where
  "ext_le vm vm' = (m_externalToInternal vm \<subseteq>\<^sub>m m_externalToInternal vm')"

lemma ext_le_refl [simp]: "ext_le vm vm"
  by (simp add: ext_le_def)

lemma ext_le_trans: "ext_le a b \<Longrightarrow> ext_le b c \<Longrightarrow> ext_le a c"
  by (auto simp: ext_le_def intro: map_le_trans)

lemma toInternal_knows: "knows vm e \<Longrightarrow> toInternal vm e = Inr (vm_int vm e)"
  by (auto simp: knows_def toInternal_def vm_int_def)

lemma ext_le_int:
  assumes "ext_le vm vm'" "knows vm e"
  shows "knows vm' e" "vm_int vm' e = vm_int vm e"
  using assms by (auto simp: ext_le_def knows_def vm_int_def map_le_def dom_def split: option.splits)

lemma aiger_strip_strip [simp]: "aiger_strip (aiger_strip e) = aiger_strip e"
  by (simp add: aiger_strip_def)

lemma aiger_sign_strip [simp]: "\<not> aiger_sign (aiger_strip e)"
  by (simp add: aiger_bits)

lemma knows_strip [simp]: "knows vm (aiger_strip e) = knows vm e"
  by (simp add: knows_def)

lemma vm_int_strip: "knows vm e \<Longrightarrow> vm_int vm e = (if aiger_sign e then negate (vm_int vm (aiger_strip e)) else vm_int vm (aiger_strip e))"
  by (auto simp: vm_int_def knows_def)

text \<open>The manager maps distinct variables to distinct IDs, and only 0 to the constant.\<close>

lemma vm_inv_ext: "vm_inv vm \<Longrightarrow> m_externalToInternal vm e = Some i \<longleftrightarrow>
   (\<exists>v. m_vars vm i = Some v \<and> v_external v = e \<and> (e \<noteq> 0 \<or> i = ID_FALSE))"
  by (simp add: vm_inv_def)

lemma vm_int_inject:
  assumes "vm_inv vm" "knows vm e" "knows vm e'" "\<not> aiger_sign e" "\<not> aiger_sign e'" "vm_int vm e = vm_int vm e'"
  shows "e = e'"
proof -
  have st: "aiger_strip e = e" "aiger_strip e' = e'" using assms(4,5) by (auto intro: aiger_strip_even)
  obtain i j where i: "m_externalToInternal vm e = Some i" "m_externalToInternal vm e' = Some j"
    using assms(2,3) unfolding knows_def st by blast
  then have "i = j" using assms(4-6) by (simp add: vm_int_def st)
  then show ?thesis using i[unfolded vm_inv_ext[OF assms(1)]] by auto
qed

lemma vm_int_id:
  assumes "vm_inv vm" "knows vm e" "\<not> aiger_sign e"
  shows "\<not> is_negated (vm_int vm e)" "isKnown vm (vm_int vm e)"
proof -
  have st: "aiger_strip e = e" using assms(3) by (rule aiger_strip_even)
  obtain i where i: "m_externalToInternal vm e = Some i" using assms(2) unfolding knows_def st by blast
  then obtain v where v: "m_vars vm i = Some v" using vm_inv_ext[OF assms(1), of e i] by blast
  then show "\<not> is_negated (vm_int vm e)" "isKnown vm (vm_int vm e)"
    using known_valid[OF assms(1) v] i v assms(3) by (simp_all add: vm_int_def st isKnown_def)
qed

text \<open>The constant is where it belongs.\<close>

definition vm_base :: "varManager \<Rightarrow> bool" where
  "vm_base vm = (m_externalToInternal vm 0 = Some ID_FALSE)"

lemma vm_base_mono: "ext_le vm vm' \<Longrightarrow> vm_base vm \<Longrightarrow> vm_base vm'"
  by (auto simp: ext_le_def vm_base_def map_le_def dom_def)

lemma wp_onVars [simp]: "wp (onVars m) Q = (\<lambda>s. wp m (\<lambda>a v. Q a (v, snd s)) (fst s))"
  by (simp add: onVars_def)

lemma wp_modifyTR [simp]: "wp (modifyTR f) Q = (\<lambda>s. Q () (fst s, f (snd s)))"
  by (simp add: modifyTR_def)

lemma tb_toInternal_wp: "knows (fst s) e \<Longrightarrow> wp (tb_toInternal e) Q s = Q (vm_int (fst s) e) s"
  by (simp add: tb_toInternal_def toInternal_knows)

lemma varOf_known: "vm_inv vm \<Longrightarrow> isKnown vm i \<Longrightarrow> \<exists>v. varOf vm i = Inr v \<and> v_id v = i \<and> m_vars vm i = Some v"
  using known_valid[of vm i] by (auto simp: varOf_def isKnown_def strip_id)

text \<open>One call of \<open>getOrCreateVar\<close> takes at most one ID.\<close>

lemma getOrCreateVar_wp:
  assumes r: "room (Suc k) vm" and b: "vm_base vm" and e: "\<not> aiger_sign e"
  shows "wp (getOrCreateVar e name) (\<lambda>v s. snd s = t \<and> room k (fst s) \<and> vm_base (fst s) \<and> ext_le vm (fst s)
     \<and> knows (fst s) e \<and> v_id v = vm_int (fst s) e) (vm, t)"
proof (cases "isKnownExternal vm e")
  case True
  have inv: "vm_inv vm" using r by (rule room_0)
  have k: "knows vm e" using True e by (simp add: knows_def isKnownExternal_def aiger_strip_even)
  obtain v where v: "varOf vm (vm_int vm e) = Inr v" "v_id v = vm_int vm e"
    using varOf_known[OF inv vm_int_id(2)[OF inv k e]] by blast
  show ?thesis
    using True b k v room_mono[OF r, of k] by (simp add: getOrCreateVar_def tb_toInternal_wp tb_varOf_def)
next
  case False
  have inv: "vm_inv vm" using r by (rule room_0)
  have le: "m_nextID vm \<le> MAX_ID" using r by (simp add: room_def word_le_nat_alt MAX_ID_val)
  have ev: "\<not> is_negated (m_nextID vm)" using inv by (simp add: vm_inv_def)
  have e0: "e \<noteq> 0" using False b by (auto simp: isKnownExternal_def vm_base_def)
  have "wp (getNewID_named (if name = [] then default_name ''aig'' e else name) e) (\<lambda>i vm'. wp (tb_varOf i)
      (\<lambda>v s. snd s = t \<and> room k (fst s) \<and> vm_base (fst s) \<and> ext_le vm (fst s)
     \<and> knows (fst s) e \<and> v_id v = vm_int (fst s) e) (vm', t)) vm"
  proof (rule wp_mono[OF getNewID_named_wp[OF inv le e]], use False in simp, elim conjE exE)
    fix i vm' nm
    assume a: "i = m_nextID vm" "\<not> isKnown vm i" "m_nextID vm' = i + 2" "vm_inv vm'"
      "m_vars vm' = (m_vars vm)(i \<mapsto> \<lparr>v_id = i, v_external = e, v_name = nm\<rparr>)"
    have room: "room k vm'" using r a even_next_step(4)[OF ev le] by (simp add: room_def)
    have le': "ext_le vm vm'" unfolding ext_le_def map_le_def
    proof (clarsimp)
      fix x y
      assume xy: "m_externalToInternal vm x = Some y"
      then obtain v where v: "m_vars vm y = Some v" "v_external v = x" "x \<noteq> 0 \<or> y = ID_FALSE"
        using vm_inv_ext[OF inv, of x y] by blast
      then have "y \<noteq> i" using a(2) by (auto simp: isKnown_def)
      then have "m_vars vm' y = Some v" using a(5) v(1) by simp
      then show "Some y = m_externalToInternal vm' x" using vm_inv_ext[OF a(4), of x y] v(2,3) by simp
    qed
    have ei: "m_externalToInternal vm' e = Some i"
    proof -
      have "m_vars vm' i = Some \<lparr>v_id = i, v_external = e, v_name = nm\<rparr>" using a(5) by simp
      then show ?thesis using vm_inv_ext[OF a(4), of e i] e0 by simp
    qed
    have kn: "knows vm' e" "vm_int vm' e = i" using ei e by (simp_all add: knows_def vm_int_def aiger_strip_even)
    have "isKnown vm' i" using a(5) by (simp add: isKnown_def)
    then obtain v where v: "varOf vm' i = Inr v" "v_id v = i" using varOf_known[OF a(4)] by blast
    show "wp (tb_varOf i) (\<lambda>v s. snd s = t \<and> room k (fst s) \<and> vm_base (fst s) \<and> ext_le vm (fst s)
     \<and> knows (fst s) e \<and> v_id v = vm_int (fst s) e) (vm', t)"
      using v room le' kn vm_base_mono[OF le' b] by (simp add: tb_varOf_def)
  qed
  then show ?thesis using False e by (simp add: getOrCreateVar_def createVar_def)
qed

text \<open>The state of the build: the manager only grew, \<open>k\<close> more IDs fit, the relation is \<open>t\<close>.\<close>

definition tb_ok :: "varManager \<Rightarrow> nat \<Rightarrow> 'a trb \<Rightarrow> bool" where
  "tb_ok vm k s = (room k (fst s) \<and> vm_base (fst s) \<and> ext_le vm (fst s))"

lemma getOrCreate_ok:
  assumes "tb_ok vm (Suc k) s" "\<not> aiger_sign e"
  shows "wp (getOrCreateVar e name) (\<lambda>v s'. tb_ok vm k s' \<and> snd s' = snd s \<and> ext_le (fst s) (fst s')
     \<and> knows (fst s') e \<and> v_id v = vm_int (fst s') e) s"
proof -
  have a: "room (Suc k) (fst s)" "vm_base (fst s)" "ext_le vm (fst s)" using assms(1) by (auto simp: tb_ok_def)
  have "wp (getOrCreateVar e name) (\<lambda>v s'. snd s' = snd s \<and> room k (fst s') \<and> vm_base (fst s') \<and> ext_le (fst s) (fst s')
     \<and> knows (fst s') e \<and> v_id v = vm_int (fst s') e) (fst s, snd s)"
    by (rule getOrCreateVar_wp[OF a(1,2) assms(2)])
  then show ?thesis by (simp only: prod.collapse) (erule wp_mono, use a(3) in \<open>auto simp: tb_ok_def intro: ext_le_trans\<close>)
qed

lemma createSymbols_wp:
  assumes "tb_ok vm (k + length syms) s"
  shows "wp (createSymbols syms prefix) (\<lambda>_ s'. tb_ok vm k s' \<and> snd s' = snd s \<and> ext_le (fst s) (fst s')
     \<and> (\<forall>sm\<in>set syms. knows (fst s') (sy_lit sm))) s"
proof -
  have "tb_ok vm (k + length ps) s \<Longrightarrow> wp (iterS (createSymbol prefix) ps) (\<lambda>_ s'. tb_ok vm k s' \<and> snd s' = snd s
     \<and> ext_le (fst s) (fst s') \<and> (\<forall>sm\<in>set ps. knows (fst s') (sy_lit (snd sm)))) s" for ps
  proof (induction ps arbitrary: s)
    case (Cons p ps)
    have ok: "tb_ok vm (Suc (k + length ps)) s" using Cons.prems by simp
    show ?case
      unfolding iterS.simps wp_bindS createSymbol_def case_prod_unfold wp_retS
    proof (rule wp_mono[OF getOrCreate_ok[OF ok]], simp, elim conjE)
      fix v s1
      assume s1: "tb_ok vm (k + length ps) s1" "snd s1 = snd s" "ext_le (fst s) (fst s1)"
        "knows (fst s1) (aiger_strip (sy_lit (snd p)))"
      show "wp (iterS (\<lambda>p. bindS (getOrCreateVar (aiger_strip (sy_lit (snd p)))
           (create_name (sy_name (snd p)) (default_name prefix (word_of_nat (fst p))))) (\<lambda>v. retS ())) ps)
         (\<lambda>_ s'. tb_ok vm k s' \<and> snd s' = snd s \<and> ext_le (fst s) (fst s')
           \<and> (\<forall>sm\<in>set (p # ps). knows (fst s') (sy_lit (snd sm)))) s1"
        by (rule wp_mono[OF Cons.IH[OF s1(1), unfolded createSymbol_def case_prod_unfold]])
          (use s1(2-4) in \<open>auto intro: ext_le_trans ext_le_int(1)\<close>)
    qed
  qed (simp)
  from this[of "enumerate 0 syms"] assms
  have "wp (createSymbols syms prefix) (\<lambda>_ s'. tb_ok vm k s' \<and> snd s' = snd s
     \<and> ext_le (fst s) (fst s') \<and> (\<forall>sm\<in>set (enumerate 0 syms). knows (fst s') (sy_lit (snd sm)))) s"
    by (simp add: createSymbols_def)
  then show ?thesis
  proof (rule wp_mono, elim conjE, intro conjI ballI)
    fix s' sm
    assume a: "\<forall>sm\<in>set (enumerate 0 syms). knows (fst s') (sy_lit (snd sm))" "sm \<in> set syms"
    have "sm \<in> snd ` set (enumerate 0 syms)" using a(2) by (metis list.set_map map_snd_enumerate)
    then show "knows (fst s') (sy_lit sm)" using a(1) by auto
  qed
qed

text \<open>The gates, with the literals of the final manager.\<close>

definition aig_gate :: "varManager \<Rightarrow> aigAnd \<Rightarrow> id \<times> andGate" where
  "aig_gate vm g = (vm_int vm (an_lhs g), \<lparr>ag_lhs = vm_int vm (an_lhs g), ag_rhs0 = vm_int vm (an_rhs0 g),
     ag_rhs1 = vm_int vm (an_rhs1 g)\<rparr>)"

definition knows_gate :: "varManager \<Rightarrow> aigAnd \<Rightarrow> bool" where
  "knows_gate vm g = (knows vm (an_lhs g) \<and> knows vm (an_rhs0 g) \<and> knows vm (an_rhs1 g))"

lemma knows_gate_mono:
  assumes "ext_le vm vm'" "knows_gate vm g"
  shows "knows_gate vm' g" "aig_gate vm' g = aig_gate vm g"
  using assms by (auto simp: knows_gate_def aig_gate_def ext_le_int)

lemma processAnd_wp:
  assumes ok: "tb_ok vm (k + 3) s" and lhs: "\<not> aiger_sign (an_lhs g)"
    and new: "\<And>e. e \<in> set es \<Longrightarrow> \<not> aiger_sign e \<and> knows (fst s) e \<and> e \<noteq> an_lhs g"
    and gs: "map fst (tr_gates (snd s)) = map (vm_int (fst s)) es"
  shows "wp (processAnd g) (\<lambda>_ s'. tb_ok vm k s' \<and> ext_le (fst s) (fst s') \<and> knows_gate (fst s') g
     \<and> snd s' = (snd s)\<lparr>tr_gates := tr_gates (snd s) @ [aig_gate (fst s') g],
          tr_gateIDs := tr_gateIDs (snd s) @ [vm_int (fst s') (an_lhs g)]\<rparr>) s"
proof -
  have ok': "tb_ok vm (Suc (Suc (Suc k))) s" using ok by (simp add: numeral_3_eq_3)
  show ?thesis
    unfolding processAnd_def wp_bindS
  proof (rule wp_mono[OF getOrCreate_ok[OF ok']], simp, elim conjE)
    fix v1 s1
    assume 1: "tb_ok vm (Suc (Suc k)) s1" "snd s1 = snd s" "ext_le (fst s) (fst s1)" "knows (fst s1) (aiger_strip (an_lhs g))"
    show "wp (getOrCreateVar (aiger_strip (an_rhs0 g)) []) (\<lambda>a. wp (getOrCreateVar (aiger_strip (an_rhs1 g)) []) (\<lambda>a.
       wp (tb_toInternal (an_lhs g)) (\<lambda>l. wp (tb_toInternal (an_rhs0 g)) (\<lambda>r0. wp (tb_toInternal (an_rhs1 g)) (\<lambda>r1.
       wp (modifyTR (\<lambda>t. t\<lparr>tr_gates := insertGate l \<lparr>ag_lhs = l, ag_rhs0 = r0, ag_rhs1 = r1\<rparr> (tr_gates t), tr_gateIDs := tr_gateIDs t @ [l]\<rparr>))
       (\<lambda>_ s'. tb_ok vm k s' \<and> ext_le (fst s) (fst s') \<and> knows_gate (fst s') g
         \<and> snd s' = (snd s)\<lparr>tr_gates := tr_gates (snd s) @ [aig_gate (fst s') g],
          tr_gateIDs := tr_gateIDs (snd s) @ [vm_int (fst s') (an_lhs g)]\<rparr>)))))) s1"
    proof (rule wp_mono[OF getOrCreate_ok[OF 1(1)]], simp, elim conjE, rule wp_mono[OF getOrCreate_ok], assumption, simp, elim conjE)
      fix v2 s2 v3 s3
      assume 2: "snd s2 = snd s1" "ext_le (fst s1) (fst s2)" "knows (fst s2) (aiger_strip (an_rhs0 g))"
        and 3: "tb_ok vm k s3" "snd s3 = snd s2" "ext_le (fst s2) (fst s3)" "knows (fst s3) (aiger_strip (an_rhs1 g))"
      have le: "ext_le (fst s) (fst s3)" "ext_le (fst s1) (fst s3)" using 1(3) 2(2) 3(3) by (blast intro: ext_le_trans)+
      have kg: "knows_gate (fst s3) g"
        using ext_le_int(1)[OF le(2) 1(4)] ext_le_int(1)[OF 3(3) 2(3)] 3(4) by (simp add: knows_gate_def)
      then have kn: "knows (fst s3) (an_lhs g)" "knows (fst s3) (an_rhs0 g)" "knows (fst s3) (an_rhs1 g)"
        by (simp_all add: knows_gate_def)
      have inv: "vm_inv (fst s3)" using 3(1) by (auto simp: tb_ok_def dest: room_0)
      have "vm_int (fst s3) (an_lhs g) \<notin> set (map fst (tr_gates (snd s)))"
      proof
        assume "vm_int (fst s3) (an_lhs g) \<in> set (map fst (tr_gates (snd s)))"
        then obtain e where e: "e \<in> set es" "vm_int (fst s) e = vm_int (fst s3) (an_lhs g)"
          unfolding gs by auto
        then have "knows (fst s3) e" "vm_int (fst s3) e = vm_int (fst s3) (an_lhs g)"
          using new[OF e(1)] ext_le_int[OF le(1), of e] by simp_all
        then show False using vm_int_inject[OF inv _ kn(1), of e] new[OF e(1)] lhs by blast
      qed
      then have "map_of (tr_gates (snd s)) (vm_int (fst s3) (an_lhs g)) = None" by (simp add: map_of_eq_None_iff)
      then show "wp (tb_toInternal (an_lhs g)) (\<lambda>l. wp (tb_toInternal (an_rhs0 g)) (\<lambda>r0. wp (tb_toInternal (an_rhs1 g)) (\<lambda>r1.
         wp (modifyTR (\<lambda>t. t\<lparr>tr_gates := insertGate l \<lparr>ag_lhs = l, ag_rhs0 = r0, ag_rhs1 = r1\<rparr> (tr_gates t), tr_gateIDs := tr_gateIDs t @ [l]\<rparr>))
         (\<lambda>_ s'. tb_ok vm k s' \<and> ext_le (fst s) (fst s') \<and> knows_gate (fst s') g
           \<and> snd s' = (snd s)\<lparr>tr_gates := tr_gates (snd s) @ [aig_gate (fst s') g],
            tr_gateIDs := tr_gateIDs (snd s) @ [vm_int (fst s') (an_lhs g)]\<rparr>)))) s3"
        using kn le(1) kg 3(1,2) 2(1) 1(2)
        by (simp add: tb_toInternal_wp insertGate_def aig_gate_def tb_ok_def)
    qed
  qed
qed

definition gates_done :: "aigAnd list \<Rightarrow> 'a trb \<Rightarrow> bool" where
  "gates_done ds s = (tr_gates (snd s) = map (aig_gate (fst s)) ds
     \<and> tr_gateIDs (snd s) = map (\<lambda>g. vm_int (fst s) (an_lhs g)) ds \<and> (\<forall>g\<in>set ds. knows_gate (fst s) g))"

lemma gates_done_mono:
  assumes "gates_done ds s" "ext_le (fst s) (fst s')" "tr_gates (snd s') = tr_gates (snd s)" "tr_gateIDs (snd s') = tr_gateIDs (snd s)"
  shows "gates_done ds s'"
proof -
  have "\<forall>g\<in>set ds. knows_gate (fst s') g \<and> aig_gate (fst s') g = aig_gate (fst s) g"
    using assms(1) knows_gate_mono[OF assms(2)] by (simp add: gates_done_def)
  moreover from this have "\<forall>g\<in>set ds. vm_int (fst s') (an_lhs g) = vm_int (fst s) (an_lhs g)"
    by (simp add: aig_gate_def)
  ultimately show ?thesis using assms(1,3,4) by (auto simp: gates_done_def)
qed

lemma processAnds_loop:
  assumes "tb_ok vm (k + 3 * length gs) s" "gates_done ds s" "distinct (map an_lhs (ds @ gs))"
    "\<forall>g\<in>set (ds @ gs). \<not> aiger_sign (an_lhs g)"
  shows "wp (iterS processAnd gs) (\<lambda>_ s'. tb_ok vm k s' \<and> ext_le (fst s) (fst s') \<and> gates_done (ds @ gs) s'
     \<and> snd s' = (snd s)\<lparr>tr_gates := tr_gates (snd s'), tr_gateIDs := tr_gateIDs (snd s')\<rparr>) s"
  using assms
proof (induction gs arbitrary: s ds)
  case Nil
  then show ?case by simp
next
  case (Cons g gs)
  have ok: "tb_ok vm (k + 3 * length gs + 3) s" using Cons.prems(1) by (simp add: algebra_simps)
  have keys: "map fst (tr_gates (snd s)) = map (vm_int (fst s)) (map an_lhs ds)"
    using Cons.prems(2) by (simp add: gates_done_def aig_gate_def)
  have new: "\<not> aiger_sign e \<and> knows (fst s) e \<and> e \<noteq> an_lhs g" if e: "e \<in> set (map an_lhs ds)" for e
    proof -
    obtain d where d: "d \<in> set ds" "e = an_lhs d" using e by auto
    have "an_lhs d \<noteq> an_lhs g" using Cons.prems(3) d(1) by (auto simp: image_iff)
    then show ?thesis using d Cons.prems(2,4) by (auto simp: gates_done_def knows_gate_def)
  qed
  have lhs: "\<not> aiger_sign (an_lhs g)" using Cons.prems(4) by simp
  show ?case
    unfolding iterS.simps wp_bindS
  proof (rule wp_mono[OF processAnd_wp[OF ok lhs new keys]], assumption, elim conjE)
    fix u s1
    assume 1: "tb_ok vm (k + 3 * length gs) s1" "ext_le (fst s) (fst s1)" "knows_gate (fst s1) g"
      "snd s1 = (snd s)\<lparr>tr_gates := tr_gates (snd s) @ [aig_gate (fst s1) g],
          tr_gateIDs := tr_gateIDs (snd s) @ [vm_int (fst s1) (an_lhs g)]\<rparr>"
    have "gates_done ds (fst s1, snd s)" by (rule gates_done_mono[OF Cons.prems(2)]) (use 1(2) in auto)
    then have gd: "gates_done (ds @ [g]) s1" using 1(3,4) by (simp add: gates_done_def)
    have d: "distinct (map an_lhs ((ds @ [g]) @ gs))" "\<forall>h\<in>set ((ds @ [g]) @ gs). \<not> aiger_sign (an_lhs h)"
      using Cons.prems(3,4) by auto
    show "wp (iterS processAnd gs) (\<lambda>_ s'. tb_ok vm k s' \<and> ext_le (fst s) (fst s') \<and> gates_done (ds @ g # gs) s'
       \<and> snd s' = (snd s)\<lparr>tr_gates := tr_gates (snd s'), tr_gateIDs := tr_gateIDs (snd s')\<rparr>) s1"
      by (rule wp_mono[OF Cons.IH[OF 1(1) gd d]]) (use 1(2,4) in \<open>auto intro: ext_le_trans\<close>)
  qed
qed

text \<open>Latches.\<close>

definition reset_of :: "aigSymbol \<Rightarrow> id" where
  "reset_of sm = (if sy_reset sm = 0 then ID_FALSE else if sy_reset sm = 1 then ID_TRUE else ID_NULL)"

definition aig_latch :: "varManager \<Rightarrow> aigSymbol \<Rightarrow> id \<times> latch" where
  "aig_latch vm l = (vm_int vm (sy_lit l), \<lparr>la_id = vm_int vm (sy_lit l), la_next = vm_int vm (sy_next l), la_reset = reset_of l\<rparr>)"

definition latches_done :: "aigSymbol list \<Rightarrow> 'a trb \<Rightarrow> bool" where
  "latches_done ds s = (tr_latches (snd s) = map (aig_latch (fst s)) ds
     \<and> tr_latchIDs (snd s) = map (\<lambda>l. vm_int (fst s) (sy_lit l)) ds
     \<and> (\<forall>l\<in>set ds. knows (fst s) (sy_lit l) \<and> knows (fst s) (sy_next l)))"

lemma latches_done_mono:
  assumes "latches_done ds s" "ext_le (fst s) (fst s')" "tr_latches (snd s') = tr_latches (snd s)" "tr_latchIDs (snd s') = tr_latchIDs (snd s)"
  shows "latches_done ds s'"
  using assms ext_le_int[OF assms(2)] by (auto simp: latches_done_def aig_latch_def)

lemma processLatch_wp:
  assumes ok: "tb_ok vm (Suc k) s" and ev: "\<forall>x\<in>set (l # ds). \<not> aiger_sign (sy_lit x)" and kn: "knows (fst s) (sy_lit l)"
    and dn: "latches_done ds s" and new: "sy_lit l \<notin> sy_lit ` set ds"
  shows "wp (processLatch l) (\<lambda>_ s'. tb_ok vm k s' \<and> ext_le (fst s) (fst s') \<and> latches_done (ds @ [l]) s'
     \<and> snd s' = (snd s)\<lparr>tr_latches := tr_latches (snd s'), tr_latchIDs := tr_latchIDs (snd s')\<rparr>) s"
proof -
  have ev': "\<not> aiger_sign (sy_lit l)" using ev by simp
  show ?thesis
    unfolding processLatch_def wp_thenS wp_assertS Let_def wp_bindS
  proof (rule conjI[OF ev'], rule wp_mono[OF getOrCreate_ok[OF ok]], simp, elim conjE)
    fix v s1
    assume 1: "tb_ok vm k s1" "snd s1 = snd s" "ext_le (fst s) (fst s1)" "knows (fst s1) (aiger_strip (sy_next l))"
      "v_id v = vm_int (fst s1) (aiger_strip (sy_next l))"
    have kn1: "knows (fst s1) (sy_lit l)" "knows (fst s1) (sy_next l)" using ext_le_int(1)[OF 1(3) kn] 1(4) by simp_all
    have nx: "(if aiger_sign (sy_next l) then negate (v_id v) else v_id v) = vm_int (fst s1) (sy_next l)"
      using vm_int_strip[OF kn1(2)] 1(5) by simp
    have d1: "latches_done ds s1" by (rule latches_done_mono[OF dn 1(3)]) (use 1(2) in simp_all)
    have inv: "vm_inv (fst s1)" using 1(1) by (auto simp: tb_ok_def dest: room_0)
    have "vm_int (fst s1) (sy_lit l) \<notin> set (map fst (tr_latches (snd s1)))"
    proof
      assume "vm_int (fst s1) (sy_lit l) \<in> set (map fst (tr_latches (snd s1)))"
      then obtain d where d: "d \<in> set ds" "vm_int (fst s1) (sy_lit d) = vm_int (fst s1) (sy_lit l)"
        using d1 by (auto simp: latches_done_def aig_latch_def)
      then have "sy_lit d = sy_lit l"
        using vm_int_inject[OF inv _ kn1(1), of "sy_lit d"] d1 ev by (auto simp: latches_done_def)
      then show False using d(1) new by (metis imageI)
    qed
    then have no: "map_of (tr_latches (snd s1)) (vm_int (fst s1) (sy_lit l)) = None" by (simp add: map_of_eq_None_iff)
    have fin: "latches_done (ds @ [l]) (fst s1, (snd s1)\<lparr>tr_latches := tr_latches (snd s1) @ [aig_latch (fst s1) l],
       tr_latchIDs := tr_latchIDs (snd s1) @ [vm_int (fst s1) (sy_lit l)]\<rparr>)"
      using d1 kn1 by (simp add: latches_done_def)
    show "wp (tb_toInternal (sy_lit l)) (\<lambda>i. wp (createLatch i (if aiger_sign (sy_next l) then negate (v_id v) else v_id v)
        (if sy_reset l = 0 then ID_FALSE else if sy_reset l = 1 then ID_TRUE else ID_NULL))
       (\<lambda>_ s'. tb_ok vm k s' \<and> ext_le (fst s) (fst s') \<and> latches_done (ds @ [l]) s'
          \<and> snd s' = (snd s)\<lparr>tr_latches := tr_latches (snd s'), tr_latchIDs := tr_latchIDs (snd s')\<rparr>)) s1"
      unfolding nx reset_of_def[symmetric]
      using no fin 1(1-3) by (auto simp: tb_toInternal_wp[OF kn1(1)] createLatch_def tb_ok_def aig_latch_def)
  qed
qed

lemma tr_upd_latches: "t1 = t\<lparr>tr_latches := a, tr_latchIDs := b\<rparr> \<Longrightarrow>
    t1\<lparr>tr_latches := c, tr_latchIDs := d\<rparr> = t\<lparr>tr_latches := c, tr_latchIDs := d\<rparr>"
  by simp

lemma processLatches_loop:
  assumes "tb_ok vm (k + length ls) s" "latches_done ds s" "distinct (map sy_lit (ds @ ls))"
    "\<forall>x\<in>set (ds @ ls). \<not> aiger_sign (sy_lit x)" "\<forall>x\<in>set ls. knows (fst s) (sy_lit x)"
  shows "wp (iterS processLatch ls) (\<lambda>_ s'. tb_ok vm k s' \<and> ext_le (fst s) (fst s') \<and> latches_done (ds @ ls) s'
     \<and> snd s' = (snd s)\<lparr>tr_latches := tr_latches (snd s'), tr_latchIDs := tr_latchIDs (snd s')\<rparr>) s"
  using assms
proof (induction ls arbitrary: s ds)
  case Nil
  then show ?case by simp
next
  case (Cons l ls)
  have ok: "tb_ok vm (Suc (k + length ls)) s" using Cons.prems(1) by simp
  have a: "\<forall>x\<in>set (l # ds). \<not> aiger_sign (sy_lit x)" "knows (fst s) (sy_lit l)" "sy_lit l \<notin> sy_lit ` set ds"
    using Cons.prems(3-5) by auto
  show ?case
    unfolding iterS.simps wp_bindS
  proof (rule wp_mono[OF processLatch_wp[OF ok a(1,2) Cons.prems(2) a(3)]], elim conjE)
    fix u s1
    assume 1: "tb_ok vm (k + length ls) s1" "ext_le (fst s) (fst s1)" "latches_done (ds @ [l]) s1"
      "snd s1 = (snd s)\<lparr>tr_latches := tr_latches (snd s1), tr_latchIDs := tr_latchIDs (snd s1)\<rparr>"
    have d: "distinct (map sy_lit ((ds @ [l]) @ ls))" "\<forall>x\<in>set ((ds @ [l]) @ ls). \<not> aiger_sign (sy_lit x)"
      "\<forall>x\<in>set ls. knows (fst s1) (sy_lit x)"
      using Cons.prems(3-5) ext_le_int(1)[OF 1(2)] by auto
    show "wp (iterS processLatch ls) (\<lambda>_ s'. tb_ok vm k s' \<and> ext_le (fst s) (fst s') \<and> latches_done (ds @ l # ls) s'
       \<and> snd s' = (snd s)\<lparr>tr_latches := tr_latches (snd s'), tr_latchIDs := tr_latchIDs (snd s')\<rparr>) s1"
    proof (rule wp_mono[OF Cons.IH[OF 1(1,3) d]], elim conjE)
      fix u s'
      assume 2: "tb_ok vm k s'" "ext_le (fst s1) (fst s')" "latches_done ((ds @ [l]) @ ls) s'"
        "snd s' = (snd s1)\<lparr>tr_latches := tr_latches (snd s'), tr_latchIDs := tr_latchIDs (snd s')\<rparr>"
      show "tb_ok vm k s' \<and> ext_le (fst s) (fst s') \<and> latches_done (ds @ l # ls) s'
         \<and> snd s' = (snd s)\<lparr>tr_latches := tr_latches (snd s'), tr_latchIDs := tr_latchIDs (snd s')\<rparr>"
        using 2(1,3) ext_le_trans[OF 1(2) 2(2)] trans[OF 2(4) tr_upd_latches[OF 1(4)]] by (intro conjI) simp_all
    qed
  qed
qed

text \<open>Inputs and constraints do not change the manager.\<close>

lemma processInputs_loop:
  assumes "vm_inv vm" "tr_inputIDs t = map (\<lambda>x. vm_int vm (sy_lit x)) ds" "distinct (map sy_lit (ds @ xs))"
    "\<forall>x\<in>set (ds @ xs). \<not> aiger_sign (sy_lit x) \<and> knows vm (sy_lit x)"
  shows "wp (iterS processInput xs) (\<lambda>_ s'. s' = (vm, t\<lparr>tr_inputIDs := map (\<lambda>x. vm_int vm (sy_lit x)) (ds @ xs)\<rparr>)) (vm, t)"
  using assms(2-)
proof (induction xs arbitrary: t ds)
  case Nil
  then show ?case by simp
next
  case (Cons i xs)
  have kn: "knows (fst (vm, t)) (sy_lit i)" and ev: "\<not> aiger_sign (sy_lit i)" using Cons.prems(3) by simp_all
  have "vm_int vm (sy_lit i) \<notin> set (tr_inputIDs t)"
    using vm_int_inject[OF assms(1), of "sy_lit i"] Cons.prems by auto
  then show ?case
    using ev Cons.IH[of "t\<lparr>tr_inputIDs := tr_inputIDs t @ [vm_int vm (sy_lit i)]\<rparr>" "ds @ [i]"] Cons.prems
    by (simp add: processInput_def tb_toInternal_wp[OF kn] createInput_def)
qed

lemma processConstraints_loop:
  assumes "\<forall>x\<in>set cs. knows vm (sy_lit x)"
  shows "wp (iterS (\<lambda>sm. bindS (tb_toInternal (sy_lit sm)) (\<lambda>l. modifyTR (\<lambda>t. t\<lparr>tr_constraints := tr_constraints t @ [l]\<rparr>))) cs)
     (\<lambda>_ s'. s' = (vm, t\<lparr>tr_constraints := tr_constraints t @ map (\<lambda>x. vm_int vm (sy_lit x)) cs\<rparr>)) (vm, t)"
  using assms
proof (induction cs arbitrary: t)
  case (Cons c cs)
  have kn: "knows (fst (vm, t)) (sy_lit c)" using Cons.prems by simp
  show ?case
    using Cons.IH[of "t\<lparr>tr_constraints := tr_constraints t @ [vm_int vm (sy_lit c)]\<rparr>"] Cons.prems
    by (simp add: tb_toInternal_wp[OF kn])
qed simp

text \<open>What the AIGER library guarantees of a circuit it has read; \<open>e\<close> is the literal taken as the bad
  state.\<close>

definition aig_defined :: "aig \<Rightarrow> externalID set" where
  "aig_defined a = insert 0 (aiger_strip ` (sy_lit ` set (ai_inputs a @ ai_latches a) \<union> sy_next ` set (ai_latches a)
     \<union> (\<Union>g\<in>set (ai_ands a). {an_lhs g, an_rhs0 g, an_rhs1 g})))"

definition aig_ok :: "aig \<Rightarrow> externalID \<Rightarrow> bool" where
  "aig_ok a e = ((\<forall>x\<in>set (ai_inputs a) \<union> set (ai_latches a). \<not> aiger_sign (sy_lit x) \<and> sy_lit x \<noteq> 0)
     \<and> (\<forall>g\<in>set (ai_ands a). \<not> aiger_sign (an_lhs g)) \<and> distinct (map sy_lit (ai_inputs a))
     \<and> distinct (map sy_lit (ai_latches a)) \<and> distinct (map an_lhs (ai_ands a))
     \<and> (\<forall>x\<in>set (ai_constraints a). aiger_strip (sy_lit x) \<in> aig_defined a) \<and> aiger_strip e \<in> aig_defined a)"

definition aig_tr :: "varManager \<Rightarrow> aig \<Rightarrow> externalID \<Rightarrow> transRel" where
  "aig_tr vm a e = \<lparr>tr_bad = vm_int vm e, tr_latches = map (aig_latch vm) (ai_latches a),
     tr_gates = map (aig_gate vm) (ai_ands a), tr_latchIDs = map (\<lambda>l. vm_int vm (sy_lit l)) (ai_latches a),
     tr_inputIDs = map (\<lambda>x. vm_int vm (sy_lit x)) (ai_inputs a),
     tr_gateIDs = map (\<lambda>g. vm_int vm (an_lhs g)) (ai_ands a),
     tr_constraints = map (\<lambda>x. vm_int vm (sy_lit x)) (ai_constraints a)\<rparr>"

definition aig_known :: "varManager \<Rightarrow> aig \<Rightarrow> bool" where
  "aig_known vm a = (\<forall>x. aiger_strip x \<in> aig_defined a \<longrightarrow> knows vm x)"

definition aig_size :: "aig \<Rightarrow> nat" where
  "aig_size a = length (ai_inputs a) + length (ai_latches a) + 3 * length (ai_ands a) + length (ai_latches a)"

lemma tr_build_wp:
  assumes a: "aig_ok a e" and r: "room (k + aig_size a) vm" and b: "vm_base vm"
  shows "wp (tr_build a e) (\<lambda>t vm'. t = aig_tr vm' a e \<and> aig_known vm' a \<and> room k vm' \<and> vm_base vm' \<and> ext_le vm vm') vm"
proof -
  let ?post = "\<lambda>u s. snd s = (aig_tr (fst s) a e)\<lparr>tr_bad := ID_NULL\<rparr> \<and> aig_known (fst s) a \<and> tb_ok vm k s"
  have s0: "tb_ok vm (k + length (ai_latches a) + 3 * length (ai_ands a) + length (ai_latches a) + length (ai_inputs a)) (vm, tr_empty)"
    using r b by (simp add: tb_ok_def aig_size_def algebra_simps)
  have "wp (buildModel a) ?post (vm, tr_empty)"
    unfolding buildModel_def wp_thenS processAnds_def processLatches_def processInputs_def processConstraints_def
  proof (rule wp_mono[OF createSymbols_wp[OF s0]], elim conjE, rule wp_mono[OF createSymbols_wp], assumption, elim conjE, goal_cases)
    case (1 u1 s1 u2 s2)
    have kin: "\<forall>x\<in>set (ai_inputs a). knows (fst s2) (sy_lit x)" using 1(4,7) ext_le_int(1) by blast
    have e2: "snd s2 = tr_empty" using 1 by simp
    have ok2: "tb_ok vm (k + length (ai_latches a) + 3 * length (ai_ands a)) s2" using 1 by simp
    have gd: "gates_done [] s2" by (simp add: gates_done_def e2 tr_empty_def)
    have da: "distinct (map an_lhs ([] @ ai_ands a))" "\<forall>g\<in>set ([] @ ai_ands a). \<not> aiger_sign (an_lhs g)"
      using a by (simp_all add: aig_ok_def)
    show ?case
    proof (rule wp_mono[OF processAnds_loop[OF ok2 gd da]], elim conjE, goal_cases)
      case (1 u3 s3)
      note s3 = 1
      have k3: "\<forall>x\<in>set (ai_latches a). knows (fst s3) (sy_lit x)"
        "\<forall>x\<in>set (ai_inputs a). knows (fst s3) (sy_lit x)" using kin \<open>\<forall>sm\<in>set (ai_latches a). knows (fst s2) (sy_lit sm)\<close> ext_le_int(1)[OF s3(2)] by blast+
      have e3: "snd s3 = tr_empty\<lparr>tr_gates := tr_gates (snd s3), tr_gateIDs := tr_gateIDs (snd s3)\<rparr>" using s3(4) e2 by simp
      have ld: "latches_done [] s3" by (subst latches_done_def, subst e3, subst e3, simp add: tr_empty_def)
      have dl: "distinct (map sy_lit ([] @ ai_latches a))" "\<forall>x\<in>set ([] @ ai_latches a). \<not> aiger_sign (sy_lit x)"
        using a by (simp_all add: aig_ok_def)
      show ?case
      proof (rule wp_mono[OF processLatches_loop[OF s3(1) ld dl k3(1)]], elim conjE, goal_cases)
        case (1 u4 s4)
        note s4 = 1
        have inv: "vm_inv (fst s4)" using s4(1) by (auto simp: tb_ok_def dest: room_0)
        have k4: "\<forall>x\<in>set ([] @ ai_inputs a). \<not> aiger_sign (sy_lit x) \<and> knows (fst s4) (sy_lit x)"
          using k3(2) ext_le_int(1)[OF s4(2)] a by (simp add: aig_ok_def)
        have e4: "snd s4 = tr_empty\<lparr>tr_gates := tr_gates (snd s3), tr_gateIDs := tr_gateIDs (snd s3),
            tr_latches := tr_latches (snd s4), tr_latchIDs := tr_latchIDs (snd s4)\<rparr>"
          using trans[OF s4(4) arg_cong[OF e3, of "\<lambda>t. t\<lparr>tr_latches := tr_latches (snd s4), tr_latchIDs := tr_latchIDs (snd s4)\<rparr>"]] .
        have in4: "tr_inputIDs (snd s4) = map (\<lambda>x. vm_int (fst s4) (sy_lit x)) []" "tr_constraints (snd s4) = []" "tr_bad (snd s4) = ID_NULL"
          by (subst e4, simp add: tr_empty_def)+
        have g4: "tr_gates (snd s4) = tr_gates (snd s3)" "tr_gateIDs (snd s4) = tr_gateIDs (snd s3)"
          by (subst e4, simp)+
        have gd4: "gates_done (ai_ands a) s4" using gates_done_mono[OF s3(3) s4(2) g4] by simp
        have di: "distinct (map sy_lit ([] @ ai_inputs a))" using a by (simp add: aig_ok_def)
        have known: "aig_known (fst s4) a" unfolding aig_known_def
        proof (intro allI impI)
          fix x
          assume x: "aiger_strip x \<in> aig_defined a"
          have "vm_base (fst s4)" using s4(1) by (simp add: tb_ok_def)
          then have "knows (fst s4) 0" by (simp add: knows_def vm_base_def aiger_strip_def)
          then have "\<exists>y. aiger_strip x = aiger_strip y \<and> knows (fst s4) y"
            using x k4 s4(3) gd4 aiger_strip_even[of 0]
            unfolding aig_defined_def latches_done_def gates_done_def knows_gate_def aiger_sign_def by fastforce
          then show "knows (fst s4) x" using knows_strip by metis
        qed
        have kc: "\<forall>x\<in>set (ai_constraints a). knows (fst s4) (sy_lit x)"
          using known a by (simp add: aig_known_def aig_ok_def)
        have fin: "(snd s4)\<lparr>tr_inputIDs := map (\<lambda>x. vm_int (fst s4) (sy_lit x)) (ai_inputs a),
            tr_constraints := tr_constraints (snd s4) @ map (\<lambda>x. vm_int (fst s4) (sy_lit x)) (ai_constraints a)\<rparr>
            = (aig_tr (fst s4) a e)\<lparr>tr_bad := ID_NULL\<rparr>"
          using gd4 s4(3) in4 by (simp add: aig_tr_def gates_done_def latches_done_def)
        have "wp (iterS processInput (ai_inputs a)) (\<lambda>_ s. wp (iterS (\<lambda>sm. bindS (tb_toInternal (sy_lit sm))
              (\<lambda>l. modifyTR (\<lambda>t. t\<lparr>tr_constraints := tr_constraints t @ [l]\<rparr>))) (ai_constraints a)) ?post s) (fst s4, snd s4)"
        proof (rule wp_mono[OF processInputs_loop[OF inv in4(1) di k4]], goal_cases)
          case (1 u s5)
          show ?case
            unfolding 1 by (rule wp_mono[OF processConstraints_loop[OF kc]]) (use fin known s4(1) in \<open>simp add: tb_ok_def\<close>)
        qed
        then show ?case by simp
      qed
    qed
  qed
  then obtain s where s: "buildModel a (vm, tr_empty) = Inr ((), s)" "snd s = (aig_tr (fst s) a e)\<lparr>tr_bad := ID_NULL\<rparr>"
      "aig_known (fst s) a" "tb_ok vm k s" unfolding wp_iff by auto
  have "knows (fst s) e" using s(3) a by (simp add: aig_known_def aig_ok_def)
  then show ?thesis
    using s by (simp add: wp_iff tr_build_def toInternal_knows tb_ok_def) (simp add: aig_tr_def)
qed

subsection \<open>The circuit and its transition relation\<close>

definition aig_lit :: "(externalID \<Rightarrow> bool) \<Rightarrow> externalID \<Rightarrow> bool" where
  "aig_lit v e = (v (aiger_strip e) \<noteq> aiger_sign e)"

definition aig_frame :: "aig \<Rightarrow> (externalID \<Rightarrow> bool) \<Rightarrow> bool" where
  "aig_frame a v = ((\<forall>g\<in>set (ai_ands a). aig_lit v (an_lhs g) = (aig_lit v (an_rhs0 g) \<and> aig_lit v (an_rhs1 g)))
     \<and> (\<forall>c\<in>set (ai_constraints a). aig_lit v (sy_lit c)))"

definition aig_step :: "aig \<Rightarrow> (externalID \<Rightarrow> bool) \<Rightarrow> (externalID \<Rightarrow> bool) \<Rightarrow> bool" where
  "aig_step a v v' = (\<forall>l\<in>set (ai_latches a). aig_lit v' (sy_lit l) = aig_lit v (sy_next l))"

definition aig_init :: "aig \<Rightarrow> (externalID \<Rightarrow> bool) \<Rightarrow> bool" where
  "aig_init a v = (\<forall>l\<in>set (ai_latches a). (sy_reset l = 0 \<longrightarrow> \<not> aig_lit v (sy_lit l)) \<and> (sy_reset l = 1 \<longrightarrow> aig_lit v (sy_lit l)))"

text \<open>The valuation of the circuit's variables an assignment stands for.\<close>

definition aig_val :: "varManager \<Rightarrow> assignment \<Rightarrow> externalID \<Rightarrow> bool" where
  "aig_val vm \<sigma> e = \<sigma> (vm_int vm e)"

lemma aig_val_lit:
  assumes "vm_inv vm" "knows vm e"
  shows "lit_true \<sigma> (vm_int vm e) = aig_lit (aig_val vm \<sigma>) e"
proof -
  have k: "knows vm (aiger_strip e)" using assms(2) by simp
  have "\<not> is_negated (vm_int vm (aiger_strip e))" using vm_int_id(1)[OF assms(1) k] by simp
  then show ?thesis using vm_int_strip[OF assms(2)] by (simp add: aig_lit_def aig_val_def lit_true_pos)
qed

lemma aig_known_lits:
  assumes "aig_known vm a" "aig_ok a e"
  shows "x \<in> set (ai_inputs a) \<Longrightarrow> knows vm (sy_lit x)" "x \<in> set (ai_latches a) \<Longrightarrow> knows vm (sy_lit x) \<and> knows vm (sy_next x)"
    "g \<in> set (ai_ands a) \<Longrightarrow> knows vm (an_lhs g) \<and> knows vm (an_rhs0 g) \<and> knows vm (an_rhs1 g)"
    "x \<in> set (ai_constraints a) \<Longrightarrow> knows vm (sy_lit x)" "knows vm e"
proof -
  have kn: "knows vm y" if "aiger_strip y \<in> aig_defined a" for y using assms(1) that by (simp add: aig_known_def)
  show "x \<in> set (ai_inputs a) \<Longrightarrow> knows vm (sy_lit x)" by (rule kn) (simp add: aig_defined_def)
  show "knows vm (sy_lit x) \<and> knows vm (sy_next x)" if "x \<in> set (ai_latches a)"
    using that kn[of "sy_lit x"] kn[of "sy_next x"] by (simp add: aig_defined_def)
  show "knows vm (an_lhs g) \<and> knows vm (an_rhs0 g) \<and> knows vm (an_rhs1 g)" if g: "g \<in> set (ai_ands a)"
  proof -
    have "{an_lhs g, an_rhs0 g, an_rhs1 g} \<subseteq> (\<Union>g\<in>set (ai_ands a). {an_lhs g, an_rhs0 g, an_rhs1 g})" using g by blast
    then show ?thesis by (intro conjI kn) (simp_all add: aig_defined_def)
  qed
  show "x \<in> set (ai_constraints a) \<Longrightarrow> knows vm (sy_lit x)" by (rule kn) (use assms(2) in \<open>simp add: aig_ok_def\<close>)
  show "knows vm e" by (rule kn) (use assms(2) in \<open>simp add: aig_ok_def\<close>)
qed

lemma aig_tr_sem:
  assumes vm: "vm_inv vm" "aig_known vm a" and ok: "aig_ok a e"
  shows "frame_ok (PlainTR (aig_tr vm a e)) \<sigma> = aig_frame a (aig_val vm \<sigma>)"
    "step_ok (PlainTR (aig_tr vm a e)) \<sigma> \<sigma>' = aig_step a (aig_val vm \<sigma>) (aig_val vm \<sigma>')"
    "init_ok (PlainTR (aig_tr vm a e)) \<sigma> = aig_init a (aig_val vm \<sigma>)"
    "bad_state (PlainTR (aig_tr vm a e)) \<sigma> = aig_lit (aig_val vm \<sigma>) e"
proof -
  note kn = aig_known_lits[OF vm(2) ok]
  note lit = aig_val_lit[OF vm(1)]
  show "frame_ok (PlainTR (aig_tr vm a e)) \<sigma> = aig_frame a (aig_val vm \<sigma>)"
    using kn(3,4) by (auto simp: frame_ok_def aig_tr_def aig_gate_def gate_ok_def aig_frame_def lit)
  show "step_ok (PlainTR (aig_tr vm a e)) \<sigma> \<sigma>' = aig_step a (aig_val vm \<sigma>) (aig_val vm \<sigma>')"
    using kn(2) by (auto simp: step_ok_def aig_tr_def aig_latch_def aig_step_def lit)
  show "init_ok (PlainTR (aig_tr vm a e)) \<sigma> = aig_init a (aig_val vm \<sigma>)"
  proof -
    have r: "reset_of l = ID_TRUE \<longleftrightarrow> sy_reset l = 1" "reset_of l = ID_FALSE \<longleftrightarrow> sy_reset l = 0" for l
      by (auto simp: reset_of_def ID_TRUE_val ID_FALSE_def ID_NULL_def)
    show ?thesis using kn(2) by (auto simp: init_ok_def aig_tr_def aig_latch_def aig_init_def r lit)
  qed
  show "bad_state (PlainTR (aig_tr vm a e)) \<sigma> = aig_lit (aig_val vm \<sigma>) e"
    using kn(5) by (simp add: bad_state_def aig_tr_def lit)
qed

text \<open>All the variables of a transition relation are known to the manager.\<close>

definition vm_owns :: "varManager \<Rightarrow> anyTR \<Rightarrow> bool" where
  "vm_owns vm t = (\<forall>v\<in>tr_vars t. isKnown vm v)"

lemma known_plain:
  assumes "vm_inv vm" "isKnown vm v"
  shows "unprime v = v" "is_valid_id v" "\<not> is_negated v" "v \<noteq> ID_FALSE \<Longrightarrow> MIN_ID \<le> v"
proof -
  have d: "v \<in> insert ID_FALSE {i. MIN_ID \<le> i \<and> i < m_nextID vm \<and> \<not> is_negated i}" "m_nextID vm \<le> MAX_ID + 1"
    using assms(2) assms(1)[unfolded vm_inv_def, THEN conjunct2, THEN conjunct2, THEN conjunct2, THEN conjunct1, symmetric]
      assms(1)[unfolded vm_inv_def, THEN conjunct2, THEN conjunct1] by (auto simp: isKnown_def)
  have "v < MAX_ID + 1"
  proof (cases "v = ID_FALSE")
    case True
    then show ?thesis by (simp add: ID_FALSE_def MAX_ID_val)
  next
    case False
    then show ?thesis using d by (auto intro: less_le_trans)
  qed
  then have "v \<le> MAX_ID" by (simp add: MAX_ID_val word_less_nat_alt word_le_nat_alt)
  then show "unprime v = v" by (simp add: unprime_le)
  show "is_valid_id v" "\<not> is_negated v" "v \<noteq> ID_FALSE \<Longrightarrow> MIN_ID \<le> v"
    using d(1) by (auto simp: is_valid_id_def ID_FALSE_def is_negated_def)
qed

lemma vm_int_known:
  assumes "vm_inv vm" "knows vm e"
  shows "isKnown vm (strip (vm_int vm e))"
  using toInternal_valid(2)[OF assms(1) toInternal_knows[OF assms(2)]] .

lemma isKnown_false: "vm_inv vm \<Longrightarrow> isKnown vm ID_FALSE"
  by (auto simp: vm_inv_def isKnown_def)

lemma aig_tr_wf:
  assumes vm: "vm_inv vm" "aig_known vm a" "vm_base vm" and ok: "aig_ok a e"
  shows "tr_wf (PlainTR (aig_tr vm a e))" "vm_owns vm (PlainTR (aig_tr vm a e))"
proof -
  note kn = aig_known_lits[OF vm(2) ok]
  have inj: "inj_on (vm_int vm) (sy_lit ` set (ai_latches a))" "inj_on (vm_int vm) (an_lhs ` set (ai_ands a))"
    using vm_int_inject[OF vm(1)] kn(2,3) ok unfolding aig_ok_def by (auto intro!: inj_onI)
  have d: "distinct (map (vm_int vm) (map sy_lit (ai_latches a)))" "distinct (map (vm_int vm) (map an_lhs (ai_ands a)))"
    by (rule distinct_map[THEN iffD2], use ok inj in \<open>simp add: aig_ok_def\<close>)+
  have d': "distinct (map fst (tr_latches (aig_tr vm a e)))" "distinct (map fst (tr_gates (aig_tr vm a e)))"
    using d by (simp_all add: aig_tr_def aig_latch_def aig_gate_def comp_def)
  have own: "isKnown vm v" if "v \<in> tr_vars (PlainTR (aig_tr vm a e))" for v
    using that vm_int_known[OF vm(1)] kn isKnown_false[OF vm(1)]
    by (auto simp: tr_vars_def aig_tr_def aig_gate_def aig_latch_def)
  then show "vm_owns vm (PlainTR (aig_tr vm a e))" by (simp add: vm_owns_def)
  have lat: "\<not> is_negated (vm_int vm (sy_lit l)) \<and> MIN_ID \<le> vm_int vm (sy_lit l)" if l: "l \<in> set (ai_latches a)" for l
  proof -
    have ev: "\<not> aiger_sign (sy_lit l)" "sy_lit l \<noteq> 0" using ok l by (auto simp: aig_ok_def)
    have z: "\<not> aiger_sign 0" "knows vm 0" "vm_int vm 0 = ID_FALSE"
      using vm(3) by (simp_all add: aiger_sign_def knows_def vm_int_def vm_base_def aiger_strip_def)
    have "vm_int vm (sy_lit l) \<noteq> ID_FALSE"
      using vm_int_inject[OF vm(1) _ z(2) ev(1) z(1)] kn(2)[OF l] ev(2) z(3) by auto
    then show ?thesis
      using known_plain[OF vm(1) vm_int_id(2)[OF vm(1) _ ev(1)]] kn(2)[OF l] by auto
  qed
  have inp: "\<not> is_negated (vm_int vm (sy_lit x))" if "x \<in> set (ai_inputs a)" for x
    using vm_int_id(1)[OF vm(1) kn(1)[OF that]] that ok by (auto simp: aig_ok_def)
  have res: "reset_of l \<in> {ID_NULL, ID_TRUE, ID_FALSE}" for l by (simp add: reset_of_def)
  show "tr_wf (PlainTR (aig_tr vm a e))"
    unfolding tr_wf_def baseTR.simps anyTR.case
  proof (intro conjI)
    show "\<forall>v\<in>tr_vars (PlainTR (aig_tr vm a e)). unprime v = v \<and> is_valid_id v"
      using own known_plain[OF vm(1)] by blast
    show "\<forall>(k, l)\<in>set (tr_latches (aig_tr vm a e)). la_id l = k \<and> \<not> is_negated k \<and> MIN_ID \<le> k \<and> la_reset l \<in> {ID_NULL, ID_TRUE, ID_FALSE}"
      using lat res by (auto simp: aig_tr_def aig_latch_def)
  qed (use d' inp in \<open>auto simp: aig_tr_def aig_latch_def aig_gate_def image_image\<close>)
qed

end
