(* ===== verification/ConsecChecker.thy ===== *)
theory ConsecChecker
  imports ProofCheck TransBuild
begin

text \<open>
  \<open>src/src/pme/util/clause_database.{h,cpp}\<close> and \<open>src/src/pme/engine/consecution_checker.{h,cpp}\<close>.
  Clauses are switched on by activation literals; a query asks whether a clause is inductive
  relative to a set of clauses.  The answers are characterised on transitions (\<open>consec\<close>), the
  returned support is a set relative to which the clause is still inductive, and after a
  satisfiable query the model describes a transition.
\<close>

subsection \<open>Clause database\<close>

text \<open>\<open>m_IDToClause\<close> is iterated over: an association list.  The data of a clause added without
  data is not initialised.\<close>

record 'd clauseDb =
  db_clauses :: "(clauseID \<times> clause) list"
  db_act :: "clauseID \<rightharpoonup> id"
  db_ids :: "id \<rightharpoonup> clauseID"
  db_data :: "clauseID \<rightharpoonup> 'd option"

definition db_new :: "'d clauseDb" where
  "db_new = \<lparr>db_clauses = [], db_act = Map.empty, db_ids = Map.empty, db_data = Map.empty\<rparr>"

definition db_addClauseData :: "clauseID \<Rightarrow> id \<Rightarrow> clause \<Rightarrow> 'd option \<Rightarrow> ('d clauseDb, unit) sm" where
  "db_addClauseData i act cls d = bindS getS (\<lambda>db. thenS (assertS (map_of (db_clauses db) i = None))
     (thenS (assertS (db_act db i = None)) (thenS (assertS (db_ids db act = None)) (thenS (assertS (db_data db i = None))
     (modifyS (\<lambda>db. db\<lparr>db_clauses := db_clauses db @ [(i, sort cls)], db_act := (db_act db)(i \<mapsto> act),
        db_ids := (db_ids db)(act \<mapsto> i), db_data := (db_data db)(i \<mapsto> d)\<rparr>))))))"

definition db_addClause :: "clauseID \<Rightarrow> id \<Rightarrow> clause \<Rightarrow> ('d clauseDb, unit) sm" where
  "db_addClause i act cls = db_addClauseData i act cls None"

definition db_activationOfID :: "'d clauseDb \<Rightarrow> clauseID \<Rightarrow> id res" where
  "db_activationOfID db i = (case db_act db i of None \<Rightarrow> Inl OutOfRange | Some a \<Rightarrow> Inr a)"

definition db_IDOfActivation :: "'d clauseDb \<Rightarrow> id \<Rightarrow> clauseID res" where
  "db_IDOfActivation db a = (case db_ids db a of None \<Rightarrow> Inl OutOfRange | Some i \<Rightarrow> Inr i)"

definition db_clauseOf :: "'d clauseDb \<Rightarrow> clauseID \<Rightarrow> clause res" where
  "db_clauseOf db i = (case map_of (db_clauses db) i of None \<Rightarrow> Inl OutOfRange | Some c \<Rightarrow> Inr c)"

definition db_isActivation :: "'d clauseDb \<Rightarrow> id \<Rightarrow> bool" where
  "db_isActivation db a = (db_ids db a \<noteq> None)"

definition db_getData :: "'d clauseDb \<Rightarrow> clauseID \<Rightarrow> 'd option res" where
  "db_getData db i = (case db_data db i of None \<Rightarrow> Inl OutOfRange | Some d \<Rightarrow> Inr d)"

subsection \<open>Consecution checker\<close>

record consecChecker =
  cc_vars :: varManager
  cc_tr :: anyTR
  cc_inited :: bool
  cc_solver :: adaptor
  cc_db :: "bool clauseDb"

definition cc_onSolver :: "(adaptor, 'a) sm \<Rightarrow> (consecChecker, 'a) sm" where
  "cc_onSolver m = zoomS cc_solver (\<lambda>A c. c\<lparr>cc_solver := A\<rparr>) m"

definition cc_new :: "varManager \<Rightarrow> anyTR \<Rightarrow> consecChecker res" where
  "cc_new vm t = bindR (ad_new GLUCOSE) (\<lambda>A. Inr \<lparr>cc_vars = vm, cc_tr = t, cc_inited = False, cc_solver = A, cc_db = db_new\<rparr>)"

definition actName :: "clauseID \<Rightarrow> string" where
  "actName i = ''act_cls_'' @ show_nat (unat i)"

definition cc_clauseOf :: "consecChecker \<Rightarrow> clauseID \<Rightarrow> clause res" where
  "cc_clauseOf c i = db_clauseOf (cc_db c) i"

definition cc_activation :: "consecChecker \<Rightarrow> clauseID \<Rightarrow> id res" where
  "cc_activation c i = db_activationOfID (cc_db c) i"

definition cc_IDOfActivation :: "consecChecker \<Rightarrow> id \<Rightarrow> clauseID res" where
  "cc_IDOfActivation c a = db_IDOfActivation (cc_db c) a"

definition cc_isActivation :: "consecChecker \<Rightarrow> id \<Rightarrow> bool" where
  "cc_isActivation c a = db_isActivation (cc_db c) a"

definition getActivatedClause :: "consecChecker \<Rightarrow> clauseID \<Rightarrow> clause res" where
  "getActivatedClause c i = bindR (cc_clauseOf c i) (\<lambda>cls. bindR (cc_activation c i) (\<lambda>act. Inr (cls @ [negate act])))"

definition cc_addClause :: "clauseID \<Rightarrow> clause \<Rightarrow> (consecChecker, unit) sm" where
  "cc_addClause i cls = bindS (zoomS cc_vars (\<lambda>v c. c\<lparr>cc_vars := v\<rparr>) (getNewID_named (actName i) 0)) (\<lambda>act.
     thenS (zoomS cc_db (\<lambda>d c. c\<lparr>cc_db := d\<rparr>) (db_addClause i act cls))
     (bindS getS (\<lambda>c. if cc_inited c then bindS (liftS (getActivatedClause c i)) (\<lambda>ac. cc_onSolver (ad_addClause ac))
        else retS ())))"

definition cc_initSolver :: "backend \<Rightarrow> bool \<Rightarrow> (consecChecker, unit) sm" where
  "cc_initSolver B opt = bindS getS (\<lambda>c. thenS (assertS (\<not> cc_inited c)) (thenS (modifyS (\<lambda>c. c\<lparr>cc_inited := True\<rparr>))
     (bindS (liftS (tr_unroll (cc_tr c) 2)) (\<lambda>tr2.
     (bindS (liftS (mapR (\<lambda>(i, cls). getActivatedClause c i) (db_clauses (cc_db c)))) (\<lambda>acts.
      let unrolled = tr2 @ acts in
      if opt then bindS (liftS (mapR (\<lambda>(i, cls). cc_activation c i) (db_clauses (cc_db c)))) (\<lambda>as.
         bindS (liftS (simp_run B unrolled [(as, False), (tr_latchIDs (baseTR (cc_tr c)), True),
            (tr_constraints (baseTR (cc_tr c)), True), ([tr_bad (baseTR (cc_tr c))], False),
            ([prime1 (tr_bad (baseTR (cc_tr c)))], False)])) (\<lambda>simp. cc_onSolver (ad_addClauses simp)))
      else cc_onSolver (ad_addClauses unrolled)))))))"

text \<open>The activation literals of a frame, and whether the clause is one of its clauses.\<close>

fun cc_frameActs :: "consecChecker \<Rightarrow> clause \<Rightarrow> clauseID list \<Rightarrow> (cube \<times> bool) res" where
  "cc_frameActs c cls_sorted [] = Inr ([], False)"
| "cc_frameActs c cls_sorted (i # frame) = bindR (cc_activation c i) (\<lambda>act. bindR (cc_clauseOf c i) (\<lambda>cls_added.
     assertR (sorted cls_added) (bindR (cc_frameActs c cls_sorted frame) (\<lambda>(assumps, is_added).
       Inr (act # assumps, cls_added = cls_sorted \<or> is_added)))))"

fun cc_support :: "consecChecker \<Rightarrow> cube \<Rightarrow> clauseID list res" where
  "cc_support c [] = Inr []"
| "cc_support c (crit # crits) = (if cc_isActivation c crit
     then bindR (cc_IDOfActivation c crit) (\<lambda>i. bindR (cc_support c crits) (\<lambda>supp. Inr (i # supp)))
     else cc_support c crits)"

definition cc_supportSolve :: "backend \<Rightarrow> bool \<Rightarrow> clauseID list \<Rightarrow> clause \<Rightarrow> clauseID list \<Rightarrow> (consecChecker, bool \<times> clauseID list) sm" where
  "cc_supportSolve B opt frame cls supp = bindS getS (\<lambda>c. thenS (if \<not> cc_inited c then cc_initSolver B opt else retS ())
     (bindS getS (\<lambda>c. bindS (liftS (cc_frameActs c (sort cls) frame)) (\<lambda>(assumps, is_added).
      bindS (cc_onSolver (bindS (if \<not> is_added then ad_withGroup cls else retS GROUP_NULL)
               (\<lambda>grp. ad_groupSolve B grp (assumps @ map (\<lambda>i. negate (prime1 i)) cls)))) (\<lambda>(sat, crits).
      if \<not> sat then bindS (liftS (cc_support c crits)) (\<lambda>s. retS (True, s)) else retS (False, supp))))))"

definition cc_supportSolveID :: "backend \<Rightarrow> bool \<Rightarrow> clauseID list \<Rightarrow> clauseID \<Rightarrow> clauseID list \<Rightarrow> (consecChecker, bool \<times> clauseID list) sm" where
  "cc_supportSolveID B opt frame i supp = bindS getS (\<lambda>c. bindS (liftS (cc_clauseOf c i)) (\<lambda>cls. cc_supportSolve B opt frame cls supp))"

definition cc_supportSolveAll :: "backend \<Rightarrow> bool \<Rightarrow> clause \<Rightarrow> clauseID list \<Rightarrow> (consecChecker, bool \<times> clauseID list) sm" where
  "cc_supportSolveAll B opt cls supp = bindS getS (\<lambda>c. cc_supportSolve B opt (map fst (db_clauses (cc_db c))) cls supp)"

definition cc_supportSolveAllID :: "backend \<Rightarrow> bool \<Rightarrow> clauseID \<Rightarrow> clauseID list \<Rightarrow> (consecChecker, bool \<times> clauseID list) sm" where
  "cc_supportSolveAllID B opt i supp = bindS getS (\<lambda>c. bindS (liftS (cc_clauseOf c i)) (\<lambda>cls. cc_supportSolveAll B opt cls supp))"

definition cc_solve :: "backend \<Rightarrow> bool \<Rightarrow> clauseID list \<Rightarrow> clause \<Rightarrow> (consecChecker, bool) sm" where
  "cc_solve B opt frame cls = bindS (cc_supportSolve B opt frame cls []) (\<lambda>(r, s). retS r)"

definition cc_solveID :: "backend \<Rightarrow> bool \<Rightarrow> clauseID list \<Rightarrow> clauseID \<Rightarrow> (consecChecker, bool) sm" where
  "cc_solveID B opt frame i = bindS getS (\<lambda>c. bindS (liftS (cc_clauseOf c i)) (\<lambda>cls. cc_solve B opt frame cls))"

definition cc_solveAll :: "backend \<Rightarrow> bool \<Rightarrow> clause \<Rightarrow> (consecChecker, bool) sm" where
  "cc_solveAll B opt cls = bindS (cc_supportSolveAll B opt cls []) (\<lambda>(r, s). retS r)"

definition cc_solveAllID :: "backend \<Rightarrow> bool \<Rightarrow> clauseID \<Rightarrow> (consecChecker, bool) sm" where
  "cc_solveAllID B opt i = bindS (cc_supportSolveAllID B opt i []) (\<lambda>(r, s). retS r)"

definition cc_isInductive :: "backend \<Rightarrow> bool \<Rightarrow> clauseID list \<Rightarrow> (consecChecker, bool) sm" where
  "cc_isInductive B opt frame = allS (\<lambda>i. cc_solveID B opt frame i) frame"

definition cc_safeGetAssignment :: "consecChecker \<Rightarrow> id \<Rightarrow> modelValue res" where
  "cc_safeGetAssignment c lit = assertR (ad_isSAT (cc_solver c)) (ad_safeGetAssignment (cc_solver c) lit)"

definition cc_getAssignment :: "consecChecker \<Rightarrow> id \<Rightarrow> modelValue res" where
  "cc_getAssignment c lit = assertR (ad_isSAT (cc_solver c)) (ad_getAssignment (cc_solver c) lit)"

end
