(* ===== verification/ConsecSem.thy ===== *)
theory ConsecSem
  imports ConsecChecker
begin

text \<open>
  What the consecution checker answers.  \<open>consec t Cs c\<close>: every transition from a state that satisfies
  \<open>Cs\<close> and \<open>c\<close> leads to a state that satisfies \<open>c\<close>.  The invariant \<open>cc_inv\<close> is kept by every
  operation, whether clauses are added before or after the solver is filled and whether the
  clauses are simplified or not.
\<close>

subsection \<open>Relative induction\<close>

definition consec :: "anyTR \<Rightarrow> clause set \<Rightarrow> clause \<Rightarrow> bool" where
  "consec t Cs c = (\<forall>s s'. tr_trans t s s' \<longrightarrow> (\<forall>d\<in>Cs. clause_sat s d) \<longrightarrow> clause_sat s c \<longrightarrow> clause_sat s' c)"

lemma consec_mono: "Cs \<subseteq> Ds \<Longrightarrow> consec t Cs c \<Longrightarrow> consec t Ds c"
  unfolding consec_def by blast

text \<open>Clauses the checker is given: over state variables, not empty, not tautological.\<close>

definition clause_ok :: "anyTR \<Rightarrow> clause \<Rightarrow> bool" where
  "clause_ok t c = (c \<noteq> [] \<and> strip ` set c \<subseteq> state_vars t \<and> (\<forall>l\<in>set c. negate l \<notin> set c))"

definition db_ok :: "anyTR \<Rightarrow> varManager \<Rightarrow> 'd clauseDb \<Rightarrow> bool" where
  "db_ok t vm db = (distinct (map fst (db_clauses db)) \<and> dom (db_act db) = fst ` set (db_clauses db)
     \<and> dom (db_data db) = fst ` set (db_clauses db)
     \<and> (\<forall>i a. db_act db i = Some a \<longleftrightarrow> db_ids db a = Some i)
     \<and> (\<forall>i a. db_act db i = Some a \<longrightarrow> isKnown vm a \<and> a \<notin> tr_vars t)
     \<and> (\<forall>(i, c)\<in>set (db_clauses db). sorted c \<and> clause_ok t c))"

definition act_vars :: "'d clauseDb \<Rightarrow> id set" where
  "act_vars db = ran (db_act db)"

text \<open>The clauses with their activation literals.\<close>

definition acts_of :: "'d clauseDb \<Rightarrow> clauseVec" where
  "acts_of db = map (\<lambda>(i, c). c @ [negate (the (db_act db i))]) (db_clauses db)"

definition db_sat :: "'d clauseDb \<Rightarrow> assignment \<Rightarrow> bool" where
  "db_sat db s = (\<forall>(i, c)\<in>set (db_clauses db). s (the (db_act db i)) \<longrightarrow> clause_sat s c)"

definition new_vars :: "varManager \<Rightarrow> id set" where
  "new_vars vm = {v. unprime v = v \<and> \<not> isKnown vm v \<and> v \<noteq> ID_FALSE}"

definition cc_frozen :: "anyTR \<Rightarrow> varManager \<Rightarrow> 'd clauseDb \<Rightarrow> id set \<Rightarrow> bool" where
  "cc_frozen t vm db F = (frozen_for t F \<and> act_vars db \<subseteq> F \<and> new_vars vm \<subseteq> F)"

text \<open>The clauses of the solver: a simplification \<open>D\<close> of the unrolling \<open>C\<close> and the activated clauses
  \<open>X\<close> present then, and the activated clauses \<open>E\<close> added since.\<close>

definition cc_clauses_ok :: "anyTR \<Rightarrow> varManager \<Rightarrow> 'd clauseDb \<Rightarrow> adaptor \<Rightarrow> bool" where
  "cc_clauses_ok t vm db A = (\<exists>C X E D F. tr_unroll t 2 = Inr C \<and> simp_of (C @ X) F D \<and> cc_frozen t vm db F
     \<and> solver_for A GLUCOSE (D @ E) \<and> X @ E = acts_of db)"

definition cc_inv :: "anyTR \<Rightarrow> consecChecker \<Rightarrow> bool" where
  "cc_inv t c = (cc_tr c = t \<and> vm_inv (cc_vars c) \<and> vm_owns (cc_vars c) t \<and> db_ok t (cc_vars c) (cc_db c)
     \<and> (if cc_inited c then cc_clauses_ok t (cc_vars c) (cc_db c) (cc_solver c) else solver_for (cc_solver c) GLUCOSE []))"

definition cc_map :: "consecChecker \<Rightarrow> clauseID \<rightharpoonup> clause" where
  "cc_map c = map_of (db_clauses (cc_db c))"

definition cc_set :: "consecChecker \<Rightarrow> clauseID set \<Rightarrow> clause set" where
  "cc_set c I = {d. \<exists>i\<in>I. cc_map c i = Some d}"

subsection \<open>Activation variables\<close>

lemma db_okD:
  assumes "db_ok t vm db"
  shows "distinct (map fst (db_clauses db))" "dom (db_act db) = fst ` set (db_clauses db)"
    "db_act db i = Some a \<longleftrightarrow> db_ids db a = Some i" "db_act db i = Some a \<Longrightarrow> isKnown vm a \<and> a \<notin> tr_vars t"
    "(i, c) \<in> set (db_clauses db) \<Longrightarrow> sorted c \<and> clause_ok t c"
  using assms unfolding db_ok_def by (simp_all, blast+)

lemma db_ok_act:
  assumes "db_ok t vm db" "(i, c) \<in> set (db_clauses db)"
  obtains a where "db_act db i = Some a" "the (db_act db i) = a" "isKnown vm a" "a \<notin> tr_vars t" "db_ids db a = Some i" "a \<in> act_vars db"
    "map_of (db_clauses db) i = Some c"
proof -
  have "i \<in> dom (db_act db)" unfolding db_okD(2)[OF assms(1)] using assms(2) by force
  then obtain a where a: "db_act db i = Some a" by blast
  moreover have "map_of (db_clauses db) i = Some c" using assms(2) db_okD(1)[OF assms(1)] by simp
  moreover have "isKnown vm a \<and> a \<notin> tr_vars t" "db_ids db a = Some i"
    using db_okD(4)[OF assms(1) a] a db_okD(3)[OF assms(1)] by simp_all
  moreover have "a \<in> act_vars db" using a by (auto simp: act_vars_def ran_def)
  ultimately show ?thesis using that[of a] by simp
qed

lemma acts_of_sat:
  assumes "db_ok t vm db" "vm_inv vm"
  shows "cnf_sat s (acts_of db) = db_sat db s"
proof -
  have "clause_sat s (snd p @ [negate (the (db_act db (fst p)))]) \<longleftrightarrow> (s (the (db_act db (fst p))) \<longrightarrow> clause_sat s (snd p))"
    if p: "p \<in> set (db_clauses db)" for p
  proof -
    have ic: "(fst p, snd p) \<in> set (db_clauses db)" using p by simp
    obtain a where a: "the (db_act db (fst p)) = a" "isKnown vm a" using db_ok_act[OF assms(1) ic] .
    have "\<not> is_negated a" using known_plain(3)[OF assms(2) a(2)] .
    then show ?thesis by (auto simp: a(1) lit_true_pos)
  qed
  then show ?thesis unfolding acts_of_def db_sat_def cnf_sat_def case_prod_unfold set_map by (simp del: clause_sat_simps)
qed

lemma act_vars_known: "db_ok t vm db \<Longrightarrow> a \<in> act_vars db \<Longrightarrow> isKnown vm a \<and> a \<notin> tr_vars t"
  using db_okD(4)[of t vm db] unfolding act_vars_def ran_def by blast

lemma act_plain: "db_ok t vm db \<Longrightarrow> vm_inv vm \<Longrightarrow> tr_wf t \<Longrightarrow> plain_vars (state_vars t \<union> act_vars db)"
  using plain_tr_vars[of t] state_vars_tr[of t] act_vars_known[of t vm db] known_plain[of vm]
  unfolding plain_vars_def by blast

lemma db_sat_agree:
  assumes ok: "db_ok t vm db" and ag: "\<And>v. v \<in> state_vars t \<union> act_vars db \<Longrightarrow> s v = s' v"
  shows "db_sat db s = db_sat db s'"
proof -
  have "(s (the (db_act db i)) \<longrightarrow> clause_sat s c) = (s' (the (db_act db i)) \<longrightarrow> clause_sat s' c)" if ic: "(i, c) \<in> set (db_clauses db)" for i c
  proof -
    obtain a where a: "the (db_act db i) = a" "a \<in> act_vars db" using db_ok_act[OF ok ic] .
    have "clause_ok t c" using db_okD(5)[OF ok ic] by blast
    then have "clause_sat s c = clause_sat s' c" using ag by (intro clause_sat_on[of c "state_vars t"]) (auto simp: clause_ok_def)
    then show ?thesis using ag[of a] a by simp
  qed
  then show ?thesis unfolding db_sat_def by (auto split: prod.splits)
qed

text \<open>What the clauses of the solver say about two consecutive states.\<close>

lemma cc_query:
  assumes wf: "tr_wf t" and ok: "db_ok t vm db" "vm_inv vm"
    and C: "tr_unroll t 2 = Inr C" "simp_of (C @ X) F D" "cc_frozen t vm db F" "X @ E = acts_of db"
    and P: "\<And>s1 s2 s1' s2'. (\<And>v. v \<in> state_vars t \<union> act_vars db \<Longrightarrow> s1 v = s2 v) \<Longrightarrow> (\<And>v. v \<in> state_vars t \<Longrightarrow> s1' v = s2' v) \<Longrightarrow> P s1 s1' \<Longrightarrow> P s2 s2'"
  shows "(\<exists>\<sigma>. const_ok \<sigma> \<and> cnf_sat \<sigma> (D @ E) \<and> P \<sigma> (at_time 1 \<sigma>)) \<longleftrightarrow> (\<exists>s s'. tr_trans t s s' \<and> db_sat db s \<and> P s s')"
proof -
  let ?V = "state_vars t \<union> act_vars db"
  have Ev: "cnf_vars E \<subseteq> ?V"
  proof -
    have "cnf_vars (acts_of db) \<subseteq> ?V"
    proof -
      have "strip ` set (c @ [negate (the (db_act db i))]) \<subseteq> ?V" if ic: "(i, c) \<in> set (db_clauses db)" for i c
      proof -
        obtain a where a: "the (db_act db i) = a" "a \<in> act_vars db" "isKnown vm a" using db_ok_act[OF ok(1) ic] .
        have "strip a = a" using known_plain(3)[OF ok(2) a(3)] by (simp add: strip_id)
        moreover have "clause_ok t c" using db_okD(5)[OF ok(1) ic] by blast
        ultimately show ?thesis using a(1,2) by (auto simp: clause_ok_def)
      qed
      then show ?thesis unfolding acts_of_def cnf_vars_def by fastforce
    qed
    moreover have "cnf_vars E \<subseteq> cnf_vars (acts_of db)" unfolding C(4)[symmetric] by (auto simp: cnf_vars_def)
    ultimately show ?thesis by blast
  qed
  have sat: "cnf_sat s X \<and> cnf_sat s E \<longleftrightarrow> db_sat db s" for s
    using acts_of_sat[OF ok, of s] unfolding C(4)[symmetric] by simp
  have F: "v \<in> ?V \<Longrightarrow> v \<in> F" "v \<in> state_vars t \<Longrightarrow> prime_body 1 v \<in> F" for v
    using C(3) unfolding cc_frozen_def frozen_for_def by blast+
  have "(\<exists>\<sigma>. const_ok \<sigma> \<and> cnf_sat \<sigma> D \<and> (cnf_sat \<sigma> E \<and> P \<sigma> (at_time 1 \<sigma>)))
     \<longleftrightarrow> (\<exists>\<sigma>. const_ok \<sigma> \<and> cnf_sat \<sigma> (C @ X) \<and> (cnf_sat \<sigma> E \<and> P \<sigma> (at_time 1 \<sigma>)))"
  proof (rule simp_of_query[OF C(2), of "\<lambda>\<sigma>. cnf_sat \<sigma> E \<and> P \<sigma> (at_time 1 \<sigma>)"])
    fix \<sigma> \<tau>
    assume ag: "\<And>v. v \<in> F \<Longrightarrow> \<sigma> v = \<tau> v" and q: "cnf_sat \<sigma> E \<and> P \<sigma> (at_time 1 \<sigma>)"
    have a0: "\<sigma> v = \<tau> v" if "v \<in> ?V" for v using ag F(1)[OF that] .
    have a1: "at_time 1 \<sigma> v = at_time 1 \<tau> v" if "v \<in> state_vars t" for v using ag F(2)[OF that] by (simp add: at_time_def)
    show "cnf_sat \<tau> E \<and> P \<tau> (at_time 1 \<tau>)"
      using q cnf_sat_on[OF Ev, of \<sigma> \<tau>, OF a0] P[of \<sigma> \<tau> "at_time 1 \<sigma>" "at_time 1 \<tau>", OF a0 a1] by blast
  qed
  also have "\<dots> \<longleftrightarrow> (\<exists>\<sigma>. const_ok \<sigma> \<and> cnf_sat \<sigma> C \<and> (db_sat db \<sigma> \<and> P \<sigma> (at_time 1 \<sigma>)))"
    using sat by auto
  also have "\<dots> \<longleftrightarrow> (\<exists>s s'. tr_trans t s s' \<and> (db_sat db s \<and> P s s'))"
  proof (rule unroll2_query[OF wf C(1), of ?V "\<lambda>s s'. db_sat db s \<and> P s s'"])
    show "plain_vars ?V" by (rule act_plain[OF ok wf])
    fix s1 s2 s1' s2' :: assignment
    assume ag: "\<And>v. v \<in> ?V \<Longrightarrow> s1 v = s2 v" "\<And>v. v \<in> ?V \<Longrightarrow> s1' v = s2' v" and q: "db_sat db s1 \<and> P s1 s1'"
    have a1: "s1' v = s2' v" if "v \<in> state_vars t" for v using ag(2) that by blast
    show "db_sat db s2 \<and> P s2 s2'"
      using q db_sat_agree[OF ok(1), of s1 s2, OF ag(1)] P[of s1 s2 s1' s2', OF ag(1) a1] by blast
  qed
  finally show ?thesis by simp
qed

text \<open>Choosing the activation variables of a state.\<close>

lemma activate:
  assumes ok: "db_ok t vm db" "vm_inv vm" "tr_wf t" and tr: "tr_trans t s s'"
    and I: "\<And>i c. i \<in> I \<Longrightarrow> map_of (db_clauses db) i = Some c \<Longrightarrow> clause_sat s c"
  shows "\<exists>u. tr_trans t u s' \<and> db_sat db u \<and> (\<forall>v. v \<notin> act_vars db \<longrightarrow> u v = s v)
     \<and> (\<forall>i a. db_act db i = Some a \<longrightarrow> (u a \<longleftrightarrow> i \<in> I))"
proof -
  let ?u = "\<lambda>v. if v \<in> act_vars db then (\<exists>i\<in>I. db_act db i = Some v) else s v"
  have na: "v \<in> act_vars db \<Longrightarrow> v \<notin> tr_vars t" for v using act_vars_known[OF ok(1)] by blast
  have ag: "v \<in> tr_vars t \<Longrightarrow> ?u v = s v" for v using na by auto
  have f: "ID_FALSE \<in> tr_vars t" by (simp add: tr_vars_def)
  have tr': "tr_trans t ?u s'"
    using tr frame_ok_agree[of t ?u s, OF ag] step_ok_agree[of t ?u s s' s', OF ag refl] ag[OF f]
    unfolding tr_trans_def const_ok_def by simp
  have inj: "db_act db i = Some a \<Longrightarrow> db_act db j = Some a \<Longrightarrow> i = j" for i j a
    using db_okD(3)[OF ok(1)] by (metis option.inject)
  have act: "?u a \<longleftrightarrow> i \<in> I" if "db_act db i = Some a" for i a
    using that inj by (auto simp: act_vars_def ran_def)
  have "clause_sat ?u c" if ic: "(i, c) \<in> set (db_clauses db)" and u: "?u (the (db_act db i))" for i c
  proof -
    obtain a where a: "db_act db i = Some a" "the (db_act db i) = a" "map_of (db_clauses db) i = Some c" using db_ok_act[OF ok(1) ic] .
    have "i \<in> I" using u unfolding a(2) act[OF a(1)] .
    then have "clause_sat s c" using I a(3) by blast
    moreover have "clause_ok t c" using db_okD(5)[OF ok(1) ic] by blast
    then have "strip ` set c \<subseteq> tr_vars t" using state_vars_tr unfolding clause_ok_def by blast
    then have "clause_sat ?u c = clause_sat s c" by (rule clause_sat_on) (rule ag)
    ultimately show ?thesis by simp
  qed
  then have "db_sat db ?u" unfolding db_sat_def by blast
  then show ?thesis using tr' act by (intro exI[of _ ?u]) auto
qed

subsection \<open>Building and filling the checker\<close>

text \<open>Simplification is only asked of a satisfiable formula: the relation has a transition.\<close>

definition live :: "bool \<Rightarrow> anyTR \<Rightarrow> bool" where
  "live opt t = (opt \<longrightarrow> (\<exists>s s'. tr_trans t s s'))"


lemma wp_cc_onSolver: "wp (cc_onSolver m) Q = (\<lambda>c. wp m (\<lambda>a A. Q a (c\<lparr>cc_solver := A\<rparr>)) (cc_solver c))"
  by (simp add: cc_onSolver_def)

lemma cc_new_wp:
  assumes "vm_inv vm" "vm_owns vm t"
  shows "wpr (cc_new vm t) (\<lambda>c. cc_inv t c \<and> cc_map c = Map.empty \<and> cc_vars c = vm \<and> \<not> cc_inited c)"
  unfolding cc_new_def wpr_bindR
  by (rule wpr_mono[OF ad_new_solver]) (use assms in \<open>auto simp: cc_inv_def db_ok_def db_new_def cc_map_def\<close>)

lemma sort_clause_ok: "clause_ok t (sort c) = clause_ok t c"
proof -
  have "sort c = [] \<longleftrightarrow> c = []" by (metis length_0_conv length_sort)
  then show ?thesis by (simp add: clause_ok_def)
qed

lemma new_vars_mono:
  assumes "\<And>v. isKnown vm v \<Longrightarrow> isKnown vm' v"
  shows "new_vars vm' \<subseteq> new_vars vm"
  using assms by (auto simp: new_vars_def)

lemma db_addClause_wp:
  assumes ok: "db_ok t vm db" and i: "map_of (db_clauses db) i = None" and a: "\<not> isKnown vm act" "isKnown vm' act" "act \<notin> tr_vars t"
    and mono: "\<And>v. isKnown vm v \<Longrightarrow> isKnown vm' v" and c: "clause_ok t cls"
  shows "wp (db_addClause i act cls) (\<lambda>_ db'. db_ok t vm' db' \<and> db_clauses db' = db_clauses db @ [(i, sort cls)]
     \<and> act_vars db' = insert act (act_vars db) \<and> acts_of db' = acts_of db @ [sort cls @ [negate act]]
     \<and> db_act db' i = Some act) db"
proof -
  let ?db = "db\<lparr>db_clauses := db_clauses db @ [(i, sort cls)], db_act := (db_act db)(i \<mapsto> act),
        db_ids := (db_ids db)(act \<mapsto> i), db_data := (db_data db)(i \<mapsto> None)\<rparr>"
  have ni: "i \<notin> fst ` set (db_clauses db)" using i by (simp add: map_of_eq_None_iff)
  have dd: "dom (db_data db) = fst ` set (db_clauses db)" using ok by (simp add: db_ok_def)
  have none: "db_act db i = None" "db_data db i = None" using ni db_okD(2)[OF ok] dd by auto
  have na: "db_act db j \<noteq> Some act" for j using db_okD(4)[OF ok, of j act] a(1) by auto
  then have nid: "db_ids db act = None" using db_okD(3)[OF ok, of _ act] by (cases "db_ids db act") auto
  have nib: "db_ids db b \<noteq> Some i" for b using db_okD(3)[OF ok, of i b] none(1) by simp
  have "db_ok t vm' ?db"
    unfolding db_ok_def
  proof (intro conjI)
    show "\<forall>j b. db_act ?db j = Some b \<longleftrightarrow> db_ids ?db b = Some j"
      using db_okD(3)[OF ok] none(1) nid na nib by auto
    show "\<forall>j b. db_act ?db j = Some b \<longrightarrow> isKnown vm' b \<and> b \<notin> tr_vars t"
      using db_okD(4)[OF ok] mono a(2,3) by auto
    show "\<forall>(j, d)\<in>set (db_clauses ?db). sorted d \<and> clause_ok t d"
      using db_okD(5)[OF ok] c by (auto simp: sort_clause_ok)
  qed (use db_okD(1,2)[OF ok] ni dd in auto)
  moreover have "act_vars ?db = insert act (act_vars db)" using none(1) by (simp add: act_vars_def)
  moreover have "acts_of ?db = acts_of db @ [sort cls @ [negate act]]"
  proof -
    have "map (\<lambda>(j, c). c @ [negate (the (((db_act db)(i \<mapsto> act)) j))]) (db_clauses db) = acts_of db"
      unfolding acts_of_def by (rule map_cong[OF refl]) (use ni in force)
    then show ?thesis by (simp add: acts_of_def)
  qed
  ultimately show ?thesis
    using none nid i by (simp add: db_addClause_def db_addClauseData_def)
qed

lemma cc_addClause_wp:
  assumes inv: "cc_inv t c" and r: "room (Suc k) (cc_vars c)" and cl: "clause_ok t cls" and i: "cc_map c i = None"
  shows "wp (cc_addClause i cls) (\<lambda>_ c'. cc_inv t c' \<and> cc_map c' = (cc_map c)(i \<mapsto> sort cls)
     \<and> map fst (db_clauses (cc_db c')) = map fst (db_clauses (cc_db c)) @ [i]
     \<and> room k (cc_vars c') \<and> cc_inited c' = cc_inited c) c"
proof -
  let ?vm = "cc_vars c"
  have I: "cc_tr c = t" "vm_inv ?vm" "vm_owns ?vm t" "db_ok t ?vm (cc_db c)" using inv by (simp_all add: cc_inv_def)
  have le: "m_nextID ?vm \<le> MAX_ID" using r by (simp add: room_def word_le_nat_alt MAX_ID_val)
  have ev: "\<not> is_negated (m_nextID ?vm)" using I(2) by (simp add: vm_inv_def)
  have z: "\<not> aiger_sign 0" by (simp add: aiger_sign_def)
  have i': "map_of (db_clauses (cc_db c)) i = None" using i by (simp add: cc_map_def)
  show ?thesis
    unfolding cc_addClause_def wp_bindS[of "zoomS _ _ _"] wp_zoomS wp_thenS
  proof (rule wp_mono[OF getNewID_named_wp[OF I(2) le z]], simp, elim conjE exE)
    fix act vm' nm
    assume a: "act = m_nextID ?vm" "\<not> isKnown ?vm act" "m_nextID vm' = act + 2" "vm_inv vm'"
      "m_vars vm' = (m_vars ?vm)(act \<mapsto> \<lparr>v_id = act, v_external = 0, v_name = nm\<rparr>)"
    have kn: "isKnown vm' act" "\<And>j. isKnown ?vm j \<Longrightarrow> isKnown vm' j" using a(5) by (auto simp: isKnown_def)
    have nt: "act \<notin> tr_vars t" using I(3) a(2) by (auto simp: vm_owns_def)
    have room: "room k vm'" using r a even_next_step(4)[OF ev le] by (simp add: room_def)
    have own': "vm_owns vm' t" using I(3) kn(2) by (simp add: vm_owns_def)
    have af: "act \<noteq> ID_FALSE" using a(2) isKnown_false[OF I(2)] by auto
    have nv: "new_vars vm' \<subseteq> new_vars ?vm" by (rule new_vars_mono) (rule kn(2))
    have anew: "act \<in> new_vars ?vm" using known_plain(1)[OF a(4) kn(1)] a(2) af by (simp add: new_vars_def)
    have cd: "cc_db (c\<lparr>cc_vars := vm'\<rparr>) = cc_db c" by simp
    let ?Q = "\<lambda>c'. cc_inv t c' \<and> cc_map c' = (cc_map c)(i \<mapsto> sort cls) \<and> map fst (db_clauses (cc_db c')) = map fst (db_clauses (cc_db c)) @ [i]
          \<and> room k (cc_vars c') \<and> cc_inited c' = cc_inited c"
    let ?tail = "bindS getS (\<lambda>c'. if cc_inited c' then bindS (liftS (getActivatedClause c' i)) (\<lambda>ac. cc_onSolver (ad_addClause ac)) else retS ())"
    have tail: "wp ?tail (\<lambda>_. ?Q) (c\<lparr>cc_vars := vm', cc_db := db'\<rparr>)"
      if d: "db_ok t vm' db'" "db_clauses db' = db_clauses (cc_db c) @ [(i, sort cls)]"
        "act_vars db' = insert act (act_vars (cc_db c))" "acts_of db' = acts_of (cc_db c) @ [sort cls @ [negate act]]" "db_act db' i = Some act" for db'
    proof -
      let ?c = "c\<lparr>cc_vars := vm', cc_db := db'\<rparr>"
      have m: "cc_map ?c = (cc_map c)(i \<mapsto> sort cls)" "map fst (db_clauses (cc_db ?c)) = map fst (db_clauses (cc_db c)) @ [i]"
        using i' d(2) by (auto simp: cc_map_def fun_eq_iff map_add_def split: option.splits)
      have ga: "getActivatedClause ?c i = Inr (sort cls @ [negate act])"
        using d(2,5) i' by (simp add: getActivatedClause_def cc_clauseOf_def db_clauseOf_def cc_activation_def db_activationOfID_def map_add_def)
      show ?thesis
      proof (cases "cc_inited c")
        case False
        have "cc_inv t ?c" using inv False I(1) a(4) own' d(1) by (simp add: cc_inv_def)
        then show ?thesis using False m room by simp
      next
        case True
        obtain C X E D F where C: "tr_unroll t 2 = Inr C" "simp_of (C @ X) F D" "cc_frozen t ?vm (cc_db c) F"
          "solver_for (cc_solver c) GLUCOSE (D @ E)" "X @ E = acts_of (cc_db c)"
          using inv True by (auto simp: cc_inv_def cc_clauses_ok_def)
        have fr': "cc_frozen t vm' db' F"
          using C(3) nv anew unfolding cc_frozen_def d(3) by auto
        have "cc_clauses_ok t vm' db' A'" if "solver_for A' GLUCOSE ((D @ E) @ [sort cls @ [negate act]])" for A'
          unfolding cc_clauses_ok_def using C(1,2,5) fr' that d(4)
          by (intro exI[of _ C] exI[of _ X] exI[of _ "E @ [sort cls @ [negate act]]"] exI[of _ D] exI[of _ F]) simp
        then have "?Q (?c\<lparr>cc_solver := A'\<rparr>)" if "solver_for A' GLUCOSE ((D @ E) @ [sort cls @ [negate act]])" for A'
          using that True I(1) a(4) own' d(1) room m by (simp add: cc_inv_def cc_map_def)
        then have "wp (cc_onSolver (ad_addClause (sort cls @ [negate act]))) (\<lambda>_. ?Q) ?c"
          unfolding wp_cc_onSolver by (intro wp_mono[OF solver_for_clause[of _ GLUCOSE "D @ E"]]) (use C(4) in simp_all)
        then show ?thesis using True ga by simp
      qed
    qed
    show "wp (db_addClause i act cls) (\<lambda>_ db'. wp ?tail (\<lambda>_. ?Q) (c\<lparr>cc_vars := vm', cc_db := db'\<rparr>)) (cc_db (c\<lparr>cc_vars := vm'\<rparr>))"
      unfolding cd by (rule wp_mono[OF db_addClause_wp[OF I(4) i' a(2) kn(1) nt kn(2) cl]]) (use tail in blast)+
  qed
qed

lemma cc_addClauses_wp:
  assumes "cc_inv t c" "room (k + length xs) (cc_vars c)" "distinct (map fst xs)" "\<forall>(i, cls)\<in>set xs. clause_ok t cls"
    and "\<forall>i\<in>fst ` set xs. cc_map c i = None"
  shows "wp (iterS (\<lambda>(i, cls). cc_addClause i cls) xs) (\<lambda>_ c'. cc_inv t c'
     \<and> cc_map c' = cc_map c ++ map_of (map (\<lambda>(i, cls). (i, sort cls)) xs) \<and> room k (cc_vars c')) c"
  using assms
proof (induction xs arbitrary: c)
  case (Cons x xs)
  obtain i cls where x: "x = (i, cls)" by (cases x)
  have r: "room (Suc (k + length xs)) (cc_vars c)" and ok: "clause_ok t cls" and n: "cc_map c i = None" using Cons.prems by (auto simp: x)
  show ?case
    unfolding x iterS.simps wp_bindS prod.case
  proof (rule wp_mono[OF cc_addClause_wp[OF Cons.prems(1) r ok n]], elim conjE)
    fix u c1
    assume c1: "cc_inv t c1" "cc_map c1 = (cc_map c)(i \<mapsto> sort cls)" "room (k + length xs) (cc_vars c1)"
    have i: "i \<notin> fst ` set xs" using Cons.prems(3) by (simp add: x)
    moreover have "fst ` set (map (\<lambda>(i, cls). (i, sort cls)) xs) = fst ` set xs" by (force simp: image_image)
    ultimately have io: "i \<notin> dom (map_of (map (\<lambda>(i, cls). (i, sort cls)) xs))" by (simp add: dom_map_of_conv_image_fst image_image case_prod_unfold)
    have eq: "cc_map c1 ++ map_of (map (\<lambda>(i, cls). (i, sort cls)) xs) = cc_map c ++ map_of (map (\<lambda>(i, cls). (i, sort cls)) ((i, cls) # xs))"
      using io by (simp add: c1(2) map_add_upd_left)
    have n1: "\<forall>j\<in>fst ` set xs. cc_map c1 j = None" using Cons.prems(5) i by (auto simp: x c1(2))
    show "wp (iterS (\<lambda>(i, cls). cc_addClause i cls) xs) (\<lambda>_ c'. cc_inv t c'
     \<and> cc_map c' = cc_map c ++ map_of (map (\<lambda>(i, cls). (i, sort cls)) ((i, cls) # xs)) \<and> room k (cc_vars c')) c1"
      unfolding eq[symmetric] by (rule Cons.IH[OF c1(1,3) _ _ n1]) (use Cons.prems(3,4) in \<open>simp_all add: x\<close>)
  qed
qed simp

text \<open>Variables a formula does not constrain may be frozen as well.\<close>

lemma simp_of_extend:
  assumes "simp_of C F D" "ID_FALSE \<notin> N"
    and ind: "\<And>\<sigma> \<sigma>'. (\<And>v. v \<notin> N \<Longrightarrow> \<sigma> v = \<sigma>' v) \<Longrightarrow> const_ok \<sigma> \<Longrightarrow> const_ok \<sigma>' \<Longrightarrow> cnf_sat \<sigma> C \<Longrightarrow> cnf_sat \<sigma>' C"
  shows "simp_of C (F \<union> N) D"
  unfolding simp_of_def
proof (intro conjI allI impI)
  show "[] \<notin> set D" "const_ok \<sigma> \<Longrightarrow> cnf_sat \<sigma> C \<Longrightarrow> cnf_sat \<sigma> D" for \<sigma> using assms(1) by (auto simp: simp_of_def)
  fix \<sigma> assume s: "const_ok \<sigma>" "cnf_sat \<sigma> D"
  then obtain \<tau> where t: "\<forall>v\<in>F. \<tau> v = \<sigma> v" "const_ok \<tau>" "cnf_sat \<tau> C" using assms(1) unfolding simp_of_def by blast
  let ?u = "\<lambda>v. if v \<in> N then \<sigma> v else \<tau> v"
  have c: "const_ok ?u" using t(2) assms(2) by (simp add: const_ok_def)
  have "cnf_sat ?u C" by (rule ind[of \<tau>]) (use t(2,3) c in auto)
  then show "\<exists>\<tau>. (\<forall>v\<in>F \<union> N. \<tau> v = \<sigma> v) \<and> const_ok \<tau> \<and> cnf_sat \<tau> C" using t(1) c by (intro exI[of _ ?u]) auto
qed

lemma unroll2_new_vars:
  assumes wf: "tr_wf t" and own: "vm_inv vm" "vm_owns vm t" and C: "tr_unroll t 2 = Inr C"
    and ag: "\<And>v. v \<notin> new_vars vm \<Longrightarrow> \<sigma> v = \<sigma>' v" and c: "const_ok \<sigma>" "const_ok \<sigma>'"
  shows "cnf_sat \<sigma> C = cnf_sat \<sigma>' C"
proof -
  have n: "2 \<le> MAX_PRIMES" by (simp add: MAX_PRIMES_def)
  have sem: "cnf_sat \<sigma> C \<longleftrightarrow> path_ok t 2 (\<lambda>i. at_time i \<sigma>)" if "const_ok \<sigma>" for \<sigma>
    using tr_unroll_sem[OF wf n] C that by simp
  have at: "at_time i \<sigma> v = at_time i \<sigma>' v" if v: "v \<in> tr_vars t" for i v
  proof -
    have k: "isKnown vm v" using own(2) v by (simp add: vm_owns_def)
    have "unprime (prime_body i v) = v" using known_plain(1)[OF own(1) k] by simp
    then have "prime_body i v \<notin> new_vars vm" using k by (auto simp: new_vars_def)
    then show ?thesis using ag by (simp add: at_time_def)
  qed
  have "path_ok t 2 (\<lambda>i. at_time i \<sigma>) = path_ok t 2 (\<lambda>i. at_time i \<sigma>')"
    unfolding path_ok_def using frame_ok_agree[of t "at_time i \<sigma>" "at_time i \<sigma>'" for i, OF at]
      step_ok_agree[of t "at_time i \<sigma>" "at_time i \<sigma>'" "at_time (Suc i) \<sigma>" "at_time (Suc i) \<sigma>'" for i, OF at at] by simp
  then show ?thesis using sem[OF c(1)] sem[OF c(2)] by simp
qed

lemma acts_nonempty: "[] \<notin> set (acts_of db)"
  by (auto simp: acts_of_def)

lemma cc_acts_total:
  assumes "db_ok t vm (cc_db c)"
  shows "mapR (\<lambda>(i, cls). getActivatedClause c i) (db_clauses (cc_db c)) = Inr (acts_of (cc_db c))"
    "mapR (\<lambda>(i, cls). cc_activation c i) (db_clauses (cc_db c)) = Inr (map (\<lambda>(i, cls). the (db_act (cc_db c) i)) (db_clauses (cc_db c)))"
proof -
  have "getActivatedClause c i = Inr (cls @ [negate (the (db_act (cc_db c) i))]) \<and> cc_activation c i = Inr (the (db_act (cc_db c) i))"
    if ic: "(i, cls) \<in> set (db_clauses (cc_db c))" for i cls
  proof -
    obtain a where a: "db_act (cc_db c) i = Some a" "the (db_act (cc_db c) i) = a" "map_of (db_clauses (cc_db c)) i = Some cls"
      using db_ok_act[OF assms ic] .
    then show ?thesis
      by (simp add: getActivatedClause_def cc_clauseOf_def db_clauseOf_def cc_activation_def db_activationOfID_def)
  qed
  then show "mapR (\<lambda>(i, cls). getActivatedClause c i) (db_clauses (cc_db c)) = Inr (acts_of (cc_db c))"
    "mapR (\<lambda>(i, cls). cc_activation c i) (db_clauses (cc_db c)) = Inr (map (\<lambda>(i, cls). the (db_act (cc_db c) i)) (db_clauses (cc_db c)))"
    unfolding acts_of_def by (auto intro!: mapR_total)
qed

lemma act_vars_list:
  assumes "db_ok t vm db" "vm_inv vm"
  shows "act_vars db \<subseteq> strip ` set (map (\<lambda>(i, cls). the (db_act db i)) (db_clauses db))"
proof
  fix a assume "a \<in> act_vars db"
  then obtain i where i: "db_act db i = Some a" by (auto simp: act_vars_def ran_def)
  then have "i \<in> fst ` set (db_clauses db)" using db_okD(2)[OF assms(1)] by blast
  then obtain c where c: "(i, c) \<in> set (db_clauses db)" by auto
  have "strip a = a" using known_plain(3)[OF assms(2)] db_okD(4)[OF assms(1) i] by (simp add: strip_id)
  then show "a \<in> strip ` set (map (\<lambda>(i, cls). the (db_act db i)) (db_clauses db))" using i c by force
qed

context sat_backend
begin

lemma cc_initSolver_wp:
  assumes wf: "tr_wf t" and inv: "cc_inv t c" and ni: "\<not> cc_inited c" and sat: "live opt t"
  shows "wp (cc_initSolver B opt) (\<lambda>_ c'. cc_inv t c' \<and> cc_inited c' \<and> cc_db c' = cc_db c \<and> cc_vars c' = cc_vars c) c"
proof -
  let ?db = "cc_db c"
  let ?vm = "cc_vars c"
  have I: "cc_tr c = t" "vm_inv ?vm" "vm_owns ?vm t" "db_ok t ?vm ?db" "solver_for (cc_solver c) GLUCOSE []"
    using inv ni by (simp_all add: cc_inv_def)
  have n: "(2::nat) \<le> MAX_PRIMES" by (simp add: MAX_PRIMES_def)
  obtain C where C: "tr_unroll t 2 = Inr C" using tr_unroll_sem[OF wf n] by (auto simp: wpr_iff)
  let ?X = "acts_of ?db"
  have ne: "[] \<notin> set (C @ ?X)" using tr_unroll_nonempty[OF C] acts_nonempty by simp
  let ?as = "map (\<lambda>(i, cls). the (db_act ?db i)) (db_clauses ?db)"
  let ?fz = "[(?as, False), (tr_latchIDs (baseTR t), True), (tr_constraints (baseTR t), True), ([tr_bad (baseTR t)], False), ([prime1 (tr_bad (baseTR t))], False)]"
  have fin: "cc_clauses_ok t ?vm ?db A" if "simp_of (C @ ?X) F D" "cc_frozen t ?vm ?db F" "solver_for A GLUCOSE D" for A F D
    unfolding cc_clauses_ok_def using C that by (intro exI[of _ C] exI[of _ ?X] exI[of _ "[]"] exI[of _ D] exI[of _ F]) simp
  have fill: "wp (cc_onSolver (ad_addClauses D)) (\<lambda>_ c'. cc_inv t c' \<and> cc_inited c' \<and> cc_db c' = ?db \<and> cc_vars c' = ?vm) (c\<lparr>cc_inited := True\<rparr>)"
    if D: "simp_of (C @ ?X) F D" "cc_frozen t ?vm ?db F" for F D
  proof -
    have neD: "[] \<notin> set D" using D(1) by (simp add: simp_of_def)
    have s: "solver_for (cc_solver (c\<lparr>cc_inited := True\<rparr>)) GLUCOSE []" using I(5) by simp
    show ?thesis
      unfolding wp_cc_onSolver
      by (rule wp_mono[OF solver_for_add[OF s neD]]) (use I fin[OF D] in \<open>auto simp: cc_inv_def\<close>)
  qed
  have fr0: "frozen_for t (fz_vars ?fz)" by (auto simp: frozen_for_def state_vars_def strip_prime_body)
  show ?thesis
  proof (cases opt)
    case False
    have "cc_frozen t ?vm ?db UNIV" by (simp add: cc_frozen_def frozen_for_def)
    from fill[OF simp_of_refl[OF ne] this] show ?thesis
      using False ni I(1) C cc_acts_total[OF I(4)] by (simp add: cc_initSolver_def Let_def)
  next
    case True
    obtain s s' where "tr_trans t s s'" using sat True by (auto simp: live_def)
    then obtain u where u: "tr_trans t u s'" "db_sat ?db u" using activate[OF I(4,2) wf, of s s' "{}"] by blast
    have "(\<exists>\<sigma>. const_ok \<sigma> \<and> cnf_sat \<sigma> C \<and> db_sat ?db \<sigma>) \<longleftrightarrow> (\<exists>s s'. tr_trans t s s' \<and> db_sat ?db s)"
    proof (rule unroll2_query[OF wf C act_plain[OF I(4,2) wf], of "\<lambda>s s'. db_sat ?db s"])
      fix s1 s2 :: assignment
      assume ag: "\<And>v. v \<in> state_vars t \<union> act_vars ?db \<Longrightarrow> s1 v = s2 v" and q: "db_sat ?db s1"
      show "db_sat ?db s2" using db_sat_agree[OF I(4), of s1 s2, OF ag] q by simp
    qed
    then obtain \<sigma> where "const_ok \<sigma>" "cnf_sat \<sigma> C" "db_sat ?db \<sigma>" using u by blast
    then have s: "const_ok \<sigma>" "cnf_sat \<sigma> (C @ ?X)" using acts_of_sat[OF I(4,2)] by simp_all
    obtain D where D: "simp_run B (C @ ?X) ?fz = Inr D" "simp_of (C @ ?X) (fz_vars ?fz) D"
      using simp_run_wp[OF ne s, of ?fz] by (auto simp: wpr_iff)
    have ext: "simp_of (C @ ?X) (fz_vars ?fz \<union> new_vars ?vm) D"
    proof (rule simp_of_extend[OF D(2)])
      show "ID_FALSE \<notin> new_vars ?vm" by (simp add: new_vars_def)
      fix \<sigma> \<sigma>' :: assignment
      assume ag: "\<And>v. v \<notin> new_vars ?vm \<Longrightarrow> \<sigma> v = \<sigma>' v" and c: "const_ok \<sigma>" "const_ok \<sigma>'" and q: "cnf_sat \<sigma> (C @ ?X)"
      have kn: "v \<in> state_vars t \<union> act_vars ?db \<Longrightarrow> isKnown ?vm v" for v
        using act_vars_known[OF I(4), of v] I(3) state_vars_tr[of t] unfolding vm_owns_def by blast
      have "db_sat ?db \<sigma> = db_sat ?db \<sigma>'" by (rule db_sat_agree[OF I(4)]) (use ag kn in \<open>auto simp: new_vars_def\<close>)
      then show "cnf_sat \<sigma>' (C @ ?X)"
        using q acts_of_sat[OF I(4,2)] unroll2_new_vars[OF wf I(2,3) C ag c] by simp
    qed
    have "act_vars ?db \<subseteq> fz_vars ?fz" using act_vars_list[OF I(4,2)] by auto
    then have fr: "cc_frozen t ?vm ?db (fz_vars ?fz \<union> new_vars ?vm)" using fr0 by (auto simp: cc_frozen_def frozen_for_def)
    from fill[OF ext fr] show ?thesis
      using True ni I(1) C D(1) cc_acts_total[OF I(4)] by (simp add: cc_initSolver_def Let_def)
  qed
qed

end

subsection \<open>Queries\<close>

text \<open>Assuming the activation literals of \<open>I\<close> amounts to adding the clauses of \<open>I\<close>.\<close>

lemma cc_query_frame:
  assumes wf: "tr_wf t" and ok: "db_ok t vm db" "vm_inv vm"
    and C: "tr_unroll t 2 = Inr C" "simp_of (C @ X) F D" "cc_frozen t vm db F" "X @ E = acts_of db"
    and G: "\<And>s1 s2 s1' s2'. (\<And>v. v \<in> state_vars t \<Longrightarrow> s1 v = s2 v) \<Longrightarrow> (\<And>v. v \<in> state_vars t \<Longrightarrow> s1' v = s2' v) \<Longrightarrow> G s1 s1' \<Longrightarrow> G s2 s2'"
  shows "(\<exists>\<sigma>. const_ok \<sigma> \<and> cnf_sat \<sigma> (D @ E) \<and> (\<forall>i\<in>I. \<forall>a. db_act db i = Some a \<longrightarrow> \<sigma> a) \<and> G \<sigma> (at_time 1 \<sigma>))
    \<longleftrightarrow> (\<exists>s s'. tr_trans t s s' \<and> (\<forall>i\<in>I. \<forall>d. map_of (db_clauses db) i = Some d \<longrightarrow> clause_sat s d) \<and> G s s')"
proof -
  let ?P = "\<lambda>s s'. (\<forall>i\<in>I. \<forall>a. db_act db i = Some a \<longrightarrow> s a) \<and> G s s'"
  have sv: "v \<in> state_vars t \<Longrightarrow> v \<notin> act_vars db" for v
    using act_vars_known[OF ok(1)] state_vars_tr[of t] by blast
  have "(\<exists>\<sigma>. const_ok \<sigma> \<and> cnf_sat \<sigma> (D @ E) \<and> ?P \<sigma> (at_time 1 \<sigma>)) \<longleftrightarrow> (\<exists>s s'. tr_trans t s s' \<and> db_sat db s \<and> ?P s s')"
  proof (rule cc_query[OF wf ok C])
    fix s1 s2 s1' s2' :: assignment
    assume ag: "\<And>v. v \<in> state_vars t \<union> act_vars db \<Longrightarrow> s1 v = s2 v" "\<And>v. v \<in> state_vars t \<Longrightarrow> s1' v = s2' v" and q: "?P s1 s1'"
    have "G s2 s2'" by (rule G[of s1 s2 s1' s2']) (use ag q in auto)
    moreover have "s1 a = s2 a" if "db_act db i = Some a" for i a
      using ag(1) that by (auto simp: act_vars_def ran_def)
    ultimately show "?P s2 s2'" using q by simp
  qed
  also have "\<dots> \<longleftrightarrow> (\<exists>s s'. tr_trans t s s' \<and> (\<forall>i\<in>I. \<forall>d. map_of (db_clauses db) i = Some d \<longrightarrow> clause_sat s d) \<and> G s s')" (is "?L \<longleftrightarrow> ?R")
  proof
    assume ?L
    then obtain s s' where s: "tr_trans t s s'" "db_sat db s" "?P s s'" by blast
    have "clause_sat s d" if i: "i \<in> I" "map_of (db_clauses db) i = Some d" for i d
    proof -
      have id: "(i, d) \<in> set (db_clauses db)" using map_of_SomeD[OF i(2)] .
      obtain a where "db_act db i = Some a" "the (db_act db i) = a" using db_ok_act[OF ok(1) id] .
      then have "s (the (db_act db i))" using s(3) i(1) by simp
      then show ?thesis using s(2) id unfolding db_sat_def by blast
    qed
    then show ?R using s by blast
  next
    assume ?R
    then obtain s s' where s: "tr_trans t s s'" "\<forall>i\<in>I. \<forall>d. map_of (db_clauses db) i = Some d \<longrightarrow> clause_sat s d" "G s s'" by blast
    obtain u where u: "tr_trans t u s'" "db_sat db u" "\<forall>v. v \<notin> act_vars db \<longrightarrow> u v = s v" "\<forall>i a. db_act db i = Some a \<longrightarrow> (u a \<longleftrightarrow> i \<in> I)"
      using activate[OF ok wf s(1), of I] s(2) by blast
    have "G u s'" by (rule G[OF _ _ s(3)]) (use u(3) sv in auto)
    then show ?L using u by blast
  qed
  finally show ?thesis .
qed

lemma cc_frameActs_total:
  assumes ok: "db_ok t vm (cc_db c)" and fr: "set frame \<subseteq> dom (cc_map c)"
  shows "cc_frameActs c d frame = Inr (map (\<lambda>i. the (db_act (cc_db c) i)) frame, \<exists>i\<in>set frame. cc_map c i = Some d)"
  using fr
proof (induction frame)
  case (Cons i frame)
  obtain e where e: "cc_map c i = Some e" using Cons.prems by auto
  then have ie: "(i, e) \<in> set (db_clauses (cc_db c))" unfolding cc_map_def by (rule map_of_SomeD)
  obtain a where a: "db_act (cc_db c) i = Some a" "the (db_act (cc_db c) i) = a" using db_ok_act[OF ok ie] .
  have "sorted e" using db_okD(5)[OF ok ie] by simp
  then show ?case
    using Cons a e by (auto simp: cc_activation_def db_activationOfID_def cc_clauseOf_def db_clauseOf_def cc_map_def)
qed simp

lemma cc_support_total:
  "cc_support c crits = Inr (map (\<lambda>a. the (db_ids (cc_db c) a)) (filter (cc_isActivation c) crits))"
  by (induction crits) (auto simp: cc_isActivation_def db_isActivation_def cc_IDOfActivation_def db_IDOfActivation_def)

lemma primed_not_act:
  assumes "vm_inv vm" "isKnown vm a" "a \<noteq> ID_FALSE" "unprime l = l"
  shows "negate (prime1 l) \<noteq> a"
proof
  assume eq: "negate (prime1 l) = a"
  have a: "unprime a = a" "MIN_ID \<le> a" using known_plain[OF assms(1,2)] assms(3) by auto
  have "\<not> l < 4"
  proof
    assume "l < 4"
    then have "a < 4" using eq by auto
    then show False using a(2) by (simp add: MIN_ID_val)
  qed
  then have l4: "4 \<le> l" by simp
  have "unprime (prime1 l) = prime1 l" using a(1) eq by (metis negate_inject unprime_negate)
  then have "prime1 l = l" using assms(4) by simp
  moreover have "nprimes (prime_body 1 l) = of_nat 1"
    by (rule nprimes_prime_body[OF assms(4) l4]) (simp add: MAX_PRIMES_def)
  ultimately show False using nprimes_unprimed[OF assms(4)] by simp
qed

text \<open>The model after a failed query describes a transition, up to the variables the solver does not
  know.\<close>

definition cc_cex :: "anyTR \<Rightarrow> consecChecker \<Rightarrow> clause set \<Rightarrow> bool" where
  "cc_cex t c Cs = (\<exists>\<sigma>. ad_model (cc_solver c) \<sigma> \<and> (\<forall>\<sigma>'. (\<forall>v. ad_hasSAT (cc_solver c) v \<longrightarrow> \<sigma>' v = \<sigma> v) \<longrightarrow>
     (\<exists>u u'. tr_trans t u u' \<and> (\<forall>d\<in>Cs. clause_sat u d) \<and> (\<forall>v\<in>state_vars t. u' v = at_time 1 \<sigma>' v))))"

text \<open>What stays fixed while the checker is only queried.\<close>

definition cc_same :: "consecChecker \<Rightarrow> consecChecker \<Rightarrow> bool" where
  "cc_same c c' = (cc_db c' = cc_db c \<and> cc_vars c' = cc_vars c \<and> cc_inited c')"

context sat_backend
begin

lemma cc_supportSolve_wp:
  assumes wf: "tr_wf t" and inv: "cc_inv t c" and sat: "live opt t"
    and fr: "set frame \<subseteq> dom (cc_map c)" and cl: "clause_ok t cls"
  shows "wp (cc_supportSolve B opt frame cls supp) (\<lambda>(r, s) c'. cc_inv t c' \<and> cc_same c c'
     \<and> (r \<longleftrightarrow> consec t (cc_set c (set frame)) cls)
     \<and> (r \<longrightarrow> set s \<subseteq> set frame \<and> distinct s \<and> consec t (cc_set c (set s)) cls)
     \<and> (\<not> r \<longrightarrow> s = supp \<and> cc_cex t c' (insert cls (cc_set c (set frame))))) c"
proof -
  let ?db = "cc_db c"
  let ?vm = "cc_vars c"
  have I: "vm_inv ?vm" "db_ok t ?vm ?db" using inv by (simp_all add: cc_inv_def)
  let ?acts = "map (\<lambda>i. the (db_act ?db i)) frame"
  let ?as = "?acts @ map (\<lambda>i. negate (prime1 i)) cls"
  let ?added = "\<exists>i\<in>set frame. cc_map c i = Some (sort cls)"
  let ?Q = "\<lambda>(r, s) c'. cc_inv t c' \<and> cc_same c c' \<and> (r \<longleftrightarrow> consec t (cc_set c (set frame)) cls)
     \<and> (r \<longrightarrow> set s \<subseteq> set frame \<and> distinct s \<and> consec t (cc_set c (set s)) cls)
     \<and> (\<not> r \<longrightarrow> s = supp \<and> cc_cex t c' (insert cls (cc_set c (set frame))))"
  let ?tail = "bindS getS (\<lambda>c. bindS (liftS (cc_frameActs c (sort cls) frame)) (\<lambda>(assumps, is_added).
      bindS (cc_onSolver (bindS (if \<not> is_added then ad_withGroup cls else retS GROUP_NULL)
               (\<lambda>grp. ad_groupSolve B grp (assumps @ map (\<lambda>i. negate (prime1 i)) cls)))) (\<lambda>(sat, crits).
      if \<not> sat then bindS (liftS (cc_support c crits)) (\<lambda>s. retS (True, s)) else retS (False, supp))))"
  have clv: "strip ` set cls \<subseteq> state_vars t" "cls \<noteq> []" using cl by (simp_all add: clause_ok_def)
  have cls_ag: "clause_sat s cls = clause_sat s' cls" if "\<And>v. v \<in> state_vars t \<Longrightarrow> s v = s' v" for s s'
    by (rule clause_sat_on[OF clv(1) that])
  have frset: "(\<forall>i\<in>J. \<forall>d. map_of (db_clauses ?db) i = Some d \<longrightarrow> clause_sat s d) \<longleftrightarrow> (\<forall>d\<in>cc_set c J. clause_sat s d)" for J s
    unfolding cc_set_def cc_map_def by blast
  have actf: "db_act ?db i = Some (the (db_act ?db i)) \<and> isKnown ?vm (the (db_act ?db i)) \<and> the (db_act ?db i) \<noteq> ID_FALSE
      \<and> \<not> is_negated (the (db_act ?db i)) \<and> db_ids ?db (the (db_act ?db i)) = Some i" if fi: "i \<in> set frame" for i
  proof -
    obtain e where "cc_map c i = Some e" using fi fr by auto
    then have ie: "(i, e) \<in> set (db_clauses ?db)" unfolding cc_map_def by (rule map_of_SomeD)
    obtain a where a: "db_act ?db i = Some a" "isKnown ?vm a" "a \<notin> tr_vars t" "db_ids ?db a = Some i" using db_ok_act[OF I(2) ie] .
    then show ?thesis using known_plain(3)[OF I(1) a(2)] by (auto simp: tr_vars_def)
  qed
  have cube: "cube_sat \<sigma> ?acts \<longleftrightarrow> (\<forall>i\<in>set frame. \<forall>a. db_act ?db i = Some a \<longrightarrow> \<sigma> a)" for \<sigma>
    using actf by (auto simp: cube_sat_def lit_true_pos)
  have cubep: "cube_sat \<sigma> (map (\<lambda>i. negate (prime1 i)) cls) \<longleftrightarrow> \<not> clause_sat (at_time 1 \<sigma>) cls" for \<sigma>
    using lit_true_prime[of \<sigma> 1] by (auto simp: cube_sat_def clause_sat_def)
  have tail: "wp ?tail ?Q c1" if c1: "cc_inv t c1" "cc_inited c1" "cc_db c1 = ?db" "cc_vars c1 = ?vm" for c1
  proof -
    obtain C X E D F where C: "tr_unroll t 2 = Inr C" "simp_of (C @ X) F D" "cc_frozen t ?vm ?db F" "X @ E = acts_of ?db"
      and A: "solver_for (cc_solver c1) GLUCOSE (D @ E)"
      using c1 by (auto simp: cc_inv_def cc_clauses_ok_def)
    note q = cc_query_frame[OF wf I(2,1) C]
    have m1: "cc_map c1 = cc_map c" using c1(3) by (simp add: cc_map_def)
    have fa: "cc_frameActs c1 (sort cls) frame = Inr (?acts, ?added)"
      using cc_frameActs_total[of t ?vm c1 frame] I(2) fr c1(3) m1 by simp
    have inv1: "cc_inv t (c1\<lparr>cc_solver := A'\<rparr>) \<and> cc_same c (c1\<lparr>cc_solver := A'\<rparr>)" if "solver_for A' GLUCOSE (D @ E)" for A'
      using c1 that C unfolding cc_inv_def cc_same_def cc_clauses_ok_def by auto
    have b: "\<not> ?added \<Longrightarrow> cls \<noteq> []" by (rule clv(2))
    have opt: "cnf_sat \<sigma> (opt_clause (\<not> ?added) cls) \<longleftrightarrow> (?added \<or> clause_sat \<sigma> cls)" for \<sigma> by (simp add: opt_clause_def)
    have added: "clause_sat s cls" if "?added" "\<forall>d\<in>cc_set c (set frame). clause_sat s d" for s
    proof -
      have "sort cls \<in> cc_set c (set frame)" using that(1) unfolding cc_set_def by blast
      then have "clause_sat s (sort cls)" using that(2) by blast
      then show ?thesis by (simp add: clause_sat_def)
    qed
    have unsat: "set sup \<subseteq> set frame \<and> distinct sup \<and> consec t (cc_set c (set sup)) cls"
      if cr: "set crits \<subseteq> set ?as" "distinct crits" "\<forall>\<sigma>. const_ok \<sigma> \<longrightarrow> cnf_sat \<sigma> ((D @ E) @ opt_clause (\<not> ?added) cls) \<longrightarrow> \<not> cube_sat \<sigma> crits"
        and sup: "cc_support c1 crits = Inr sup" for crits sup
    proof -
      have act: "cc_isActivation c1 = (\<lambda>a. db_ids ?db a \<noteq> None)" using c1(3) by (simp add: fun_eq_iff cc_isActivation_def db_isActivation_def)
      have sup_map: "sup = map (\<lambda>a. the (db_ids ?db a)) (filter (\<lambda>a. db_ids ?db a \<noteq> None) crits)"
        using sup unfolding cc_support_total act c1(3) by simp
      have dsup: "distinct sup"
        unfolding sup_map distinct_map
      proof (intro conjI inj_onI)
        show "distinct (filter (\<lambda>a. db_ids ?db a \<noteq> None) crits)" using cr(2) by simp
        fix a b assume ab: "a \<in> set (filter (\<lambda>a. db_ids ?db a \<noteq> None) crits)" "b \<in> set (filter (\<lambda>a. db_ids ?db a \<noteq> None) crits)"
          "the (db_ids ?db a) = the (db_ids ?db b)"
        then obtain i where i: "db_ids ?db a = Some i" "db_ids ?db b = Some i" by auto
        then have "db_act ?db i = Some a" "db_act ?db i = Some b" using db_okD(3)[OF I(2)] by blast+
        then show "a = b" by simp
      qed
      have sup': "set sup = (\<lambda>a. the (db_ids ?db a)) ` {a \<in> set crits. db_ids ?db a \<noteq> None}"
        by (simp add: sup_map)
      have kind: "(\<exists>i\<in>set sup. i \<in> set frame \<and> x = the (db_act ?db i)) \<or> (\<exists>l\<in>set cls. x = negate (prime1 l) \<and> db_ids ?db x = None)" if x: "x \<in> set crits" for x
      proof -
        have "x \<in> set ?acts \<or> (\<exists>l\<in>set cls. x = negate (prime1 l))" using cr(1) x by auto
        then consider i where "i \<in> set frame" "x = the (db_act ?db i)" | l where "l \<in> set cls" "x = negate (prime1 l)" by auto
        then show ?thesis
        proof cases
          case 1
          then have "db_ids ?db x = Some i" using actf by simp
          then show ?thesis using 1 x sup' by force
        next
          case 2
          have "strip l \<in> tr_vars t" using clv(1) 2(1) state_vars_tr by blast
          then have "unprime (strip l) = strip l" using tr_wf_vars[OF wf] by blast
          then have ul: "unprime l = l" by (metis strip_def negate_inject unprime_negate)
          have "db_ids ?db x = None"
          proof (rule ccontr)
            assume "db_ids ?db x \<noteq> None"
            then obtain i where "db_act ?db i = Some x" using db_okD(3)[OF I(2)] by auto
            then have "isKnown ?vm x \<and> x \<notin> tr_vars t" by (rule db_okD(4)[OF I(2)])
            then have "isKnown ?vm x" "x \<noteq> ID_FALSE" by (auto simp: tr_vars_def)
            then show False using primed_not_act[OF I(1) _ _ ul] 2(2) by blast
          qed
          then show ?thesis using 2 by blast
        qed
      qed
      have sub: "set sup \<subseteq> set frame"
      proof
        fix i assume "i \<in> set sup"
        then obtain a where a: "a \<in> set crits" "db_ids ?db a = Some i" unfolding sup' by auto
        then obtain j where "j \<in> set frame" "a = the (db_act ?db j)" using kind[OF a(1)] by auto
        then show "i \<in> set frame" using actf[of j] a(2) by simp
      qed
      have "consec t (cc_set c (set sup)) cls"
      proof (rule ccontr)
        assume "\<not> consec t (cc_set c (set sup)) cls"
        then obtain s s' where s: "tr_trans t s s'" "\<forall>d\<in>cc_set c (set sup). clause_sat s d" "clause_sat s cls" "\<not> clause_sat s' cls"
          unfolding consec_def by blast
        have "\<exists>\<sigma>. const_ok \<sigma> \<and> cnf_sat \<sigma> (D @ E) \<and> (\<forall>i\<in>set sup. \<forall>a. db_act ?db i = Some a \<longrightarrow> \<sigma> a) \<and> (clause_sat \<sigma> cls \<and> \<not> clause_sat (at_time 1 \<sigma>) cls)"
        proof (rule q[of "\<lambda>s s'. clause_sat s cls \<and> \<not> clause_sat s' cls" "set sup", THEN iffD2])
          show "clause_sat s2 cls \<and> \<not> clause_sat s2' cls" if "\<And>v. v \<in> state_vars t \<Longrightarrow> s1 v = s2 v"
            "\<And>v. v \<in> state_vars t \<Longrightarrow> s1' v = s2' v" "clause_sat s1 cls \<and> \<not> clause_sat s1' cls" for s1 s2 s1' s2'
            using that(3) cls_ag[of s1 s2, OF that(1)] cls_ag[of s1' s2', OF that(2)] by simp
          show "\<exists>s s'. tr_trans t s s' \<and> (\<forall>i\<in>set sup. \<forall>d. map_of (db_clauses ?db) i = Some d \<longrightarrow> clause_sat s d) \<and> clause_sat s cls \<and> \<not> clause_sat s' cls"
            unfolding frset using s by blast
        qed
        then obtain \<sigma> where g: "const_ok \<sigma>" "cnf_sat \<sigma> (D @ E)" "\<forall>i\<in>set sup. \<forall>a. db_act ?db i = Some a \<longrightarrow> \<sigma> a"
          "clause_sat \<sigma> cls" "\<not> clause_sat (at_time 1 \<sigma>) cls" by blast
        have "cube_sat \<sigma> crits"
          unfolding cube_sat_def
        proof
          fix x assume x: "x \<in> set crits"
          from kind[OF x] show "lit_true \<sigma> x"
          proof (elim disjE bexE conjE)
            fix i assume i: "i \<in> set sup" "i \<in> set frame" "x = the (db_act ?db i)"
            then show ?thesis using g(3) actf[OF i(2)] by (metis lit_true_pos)
          next
            fix l assume l: "l \<in> set cls" "x = negate (prime1 l)"
            then have "lit_true \<sigma> (negate (prime1 l))" using cubep[of \<sigma>] g(5) by (auto simp: cube_sat_def)
            then show ?thesis using l(2) by simp
          qed
        qed
        moreover have "cnf_sat \<sigma> ((D @ E) @ opt_clause (\<not> ?added) cls)" using g(2,4) opt[of \<sigma>] by simp
        ultimately show False using cr(3) g(1) by blast
      qed
      then show ?thesis using sub dsup by simp
    qed
    have sat: "\<not> consec t (cc_set c (set frame)) cls \<and> cc_cex t (c1\<lparr>cc_solver := A'\<rparr>) (insert cls (cc_set c (set frame)))"
      if m: "ad_model A' \<sigma>" "const_ok \<sigma>" "\<forall>\<sigma>'. (\<forall>v. ad_hasSAT A' v \<longrightarrow> \<sigma>' v = \<sigma> v) \<longrightarrow>
          const_ok \<sigma>' \<and> cnf_sat \<sigma>' ((D @ E) @ opt_clause (\<not> ?added) cls) \<and> cube_sat \<sigma>' ?as" for A' \<sigma>
    proof -
      have tr: "\<exists>u u'. tr_trans t u u' \<and> (\<forall>d\<in>insert cls (cc_set c (set frame)). clause_sat u d) \<and> \<not> clause_sat u' cls \<and> (\<forall>v\<in>state_vars t. u' v = at_time 1 \<sigma>' v)"
        if ag: "\<forall>v. ad_hasSAT A' v \<longrightarrow> \<sigma>' v = \<sigma> v" for \<sigma>'
      proof -
        have s: "const_ok \<sigma>'" "cnf_sat \<sigma>' (D @ E)" "?added \<or> clause_sat \<sigma>' cls" "cube_sat \<sigma>' ?acts" "\<not> clause_sat (at_time 1 \<sigma>') cls"
          using m(3)[rule_format, OF ag[rule_format]] opt[of \<sigma>'] cubep[of \<sigma>'] by simp_all
        let ?G = "\<lambda>s s'. (?added \<or> clause_sat s cls) \<and> \<not> clause_sat s' cls \<and> (\<forall>v\<in>state_vars t. s' v = at_time 1 \<sigma>' v)"
        have G: "?G s2 s2'" if "\<And>v. v \<in> state_vars t \<Longrightarrow> s1 v = s2 v" "\<And>v. v \<in> state_vars t \<Longrightarrow> s1' v = s2' v" "?G s1 s1'" for s1 s2 s1' s2'
          using that(3) cls_ag[of s1 s2, OF that(1)] cls_ag[of s1' s2', OF that(2)] that(2) by auto
        have "\<exists>s s'. tr_trans t s s' \<and> (\<forall>i\<in>set frame. \<forall>d. map_of (db_clauses ?db) i = Some d \<longrightarrow> clause_sat s d) \<and> ?G s s'"
        proof (rule q[of ?G "set frame", THEN iffD1])
          show "?G s2 s2'" if "\<And>v. v \<in> state_vars t \<Longrightarrow> s1 v = s2 v" "\<And>v. v \<in> state_vars t \<Longrightarrow> s1' v = s2' v" "?G s1 s1'" for s1 s2 s1' s2'
            by (rule G[of s1 s2 s1' s2', OF that])
          show "\<exists>\<sigma>. const_ok \<sigma> \<and> cnf_sat \<sigma> (D @ E) \<and> (\<forall>i\<in>set frame. \<forall>a. db_act ?db i = Some a \<longrightarrow> \<sigma> a) \<and> ?G \<sigma> (at_time 1 \<sigma>)"
            using s cube[of \<sigma>'] by (intro exI[of _ \<sigma>'] conjI) simp_all
        qed
        then obtain u u' where u: "tr_trans t u u'" "\<forall>d\<in>cc_set c (set frame). clause_sat u d" "?G u u'" unfolding frset by blast
        then show ?thesis using added[of u] by blast
      qed
      have "\<not> consec t (cc_set c (set frame)) cls"
        using tr[of \<sigma>] unfolding consec_def by blast
      moreover have "cc_cex t (c1\<lparr>cc_solver := A'\<rparr>) (insert cls (cc_set c (set frame)))"
        unfolding cc_cex_def
      proof (rule exI[of _ \<sigma>], intro conjI allI impI)
        show "ad_model (cc_solver (c1\<lparr>cc_solver := A'\<rparr>)) \<sigma>" using m(1) by simp
        fix \<sigma>' assume "\<forall>v. ad_hasSAT (cc_solver (c1\<lparr>cc_solver := A'\<rparr>)) v \<longrightarrow> \<sigma>' v = \<sigma> v"
        then have "\<forall>v. ad_hasSAT A' v \<longrightarrow> \<sigma>' v = \<sigma> v" by simp
        from tr[OF this] show "\<exists>u u'. tr_trans t u u' \<and> (\<forall>d\<in>insert cls (cc_set c (set frame)). clause_sat u d) \<and> (\<forall>v\<in>state_vars t. u' v = at_time 1 \<sigma>' v)"
          by blast
      qed
      ultimately show ?thesis by simp
    qed
    have "wp (cc_onSolver (bindS (if \<not> ?added then ad_withGroup cls else retS GROUP_NULL) (\<lambda>grp. ad_groupSolve B grp ?as)))
       (\<lambda>r. wp (case r of (sat, crits) \<Rightarrow> if \<not> sat then bindS (liftS (cc_support c1 crits)) (\<lambda>s. retS (True, s)) else retS (False, supp)) ?Q) c1"
      unfolding wp_cc_onSolver
    proof (rule wp_mono[OF solver_for_groupSolve[OF A b]], goal_cases)
      case 1 then show ?case by blast
    next
      case (2 r A')
      obtain sat crits where r: "r = (sat, crits)" by (cases r)
      obtain sup where sup: "cc_support c1 crits = Inr sup" using cc_support_total by blast
      have sf: "solver_for A' GLUCOSE (D @ E)" using 2 by (auto simp: r)
      show ?case
      proof (cases sat)
        case True
        then obtain \<sigma> where "ad_model A' \<sigma>" "const_ok \<sigma>" "\<forall>\<sigma>'. (\<forall>v. ad_hasSAT A' v \<longrightarrow> \<sigma>' v = \<sigma> v) \<longrightarrow>
          const_ok \<sigma>' \<and> cnf_sat \<sigma>' ((D @ E) @ opt_clause (\<not> ?added) cls) \<and> cube_sat \<sigma>' ?as"
          using 2 by (auto simp: r simp del: cnf_sat_simps cube_sat_simps)
        from sat[OF this] show ?thesis using True inv1[OF sf] by (simp add: r)
      next
        case False
        then have "set crits \<subseteq> set ?as" "distinct crits" "\<forall>\<sigma>. const_ok \<sigma> \<longrightarrow> cnf_sat \<sigma> ((D @ E) @ opt_clause (\<not> ?added) cls) \<longrightarrow> \<not> cube_sat \<sigma> crits"
          using 2 unfolding r by (simp_all del: cnf_sat_simps cube_sat_simps)
        from unsat[OF this sup] have u: "set sup \<subseteq> set frame" "consec t (cc_set c (set sup)) cls" "distinct sup" by simp_all
        have "cc_set c (set sup) \<subseteq> cc_set c (set frame)" using u(1) by (auto simp: cc_set_def)
        then show ?thesis using False inv1[OF sf] u consec_mono[OF _ u(2)] sup by (simp add: r)
      qed
    qed
    then show ?thesis by (simp add: fa)
  qed
  have "wp (if \<not> cc_inited c then cc_initSolver B opt else retS ()) (\<lambda>_. wp ?tail ?Q) c"
  proof (cases "cc_inited c")
    case True
    then show ?thesis using tail[OF inv True] by (simp del: wp_bindS)
  next
    case False
    have "wp (cc_initSolver B opt) (\<lambda>_. wp ?tail ?Q) c"
      by (rule wp_mono[OF cc_initSolver_wp[OF wf inv False sat]]) (use tail in \<open>auto simp del: wp_bindS\<close>)
    then show ?thesis using False by (simp del: wp_bindS)
  qed
  then show ?thesis unfolding cc_supportSolve_def wp_bindS[of getS] wp_getS wp_thenS .
qed

end

subsection \<open>The relation the checker decides\<close>

definition cc_rel :: "anyTR \<Rightarrow> consecChecker \<Rightarrow> clauseID set \<Rightarrow> clauseID \<Rightarrow> bool" where
  "cc_rel t c I i = (case cc_map c i of None \<Rightarrow> False | Some d \<Rightarrow> consec t (cc_set c I) d)"

lemma cc_set_mono: "I \<subseteq> J \<Longrightarrow> cc_set c I \<subseteq> cc_set c J"
  by (auto simp: cc_set_def)

lemma cc_rel_mono: "I \<subseteq> J \<Longrightarrow> cc_rel t c I i \<Longrightarrow> cc_rel t c J i"
  using consec_mono[OF cc_set_mono] by (auto simp: cc_rel_def split: option.splits)

lemma cc_same_refl: "cc_inited c \<Longrightarrow> cc_same c c"
  by (simp add: cc_same_def)

lemma cc_same_trans: "cc_same a b \<Longrightarrow> cc_same b c \<Longrightarrow> cc_same a c"
  by (simp add: cc_same_def)

lemma cc_db_eqs:
  assumes "cc_db c' = cc_db c"
  shows "cc_map c' = cc_map c" "cc_set c' = cc_set c" "cc_rel t c' = cc_rel t c" "cc_clauseOf c' = cc_clauseOf c"
proof -
  show m: "cc_map c' = cc_map c" using assms by (simp add: cc_map_def)
  show st: "cc_set c' = cc_set c" by (rule ext) (simp add: cc_set_def m)
  show "cc_rel t c' = cc_rel t c" by (intro ext) (simp only: cc_rel_def m st)
  show "cc_clauseOf c' = cc_clauseOf c" using assms by (simp add: fun_eq_iff cc_clauseOf_def)
qed

lemma cc_same_eqs:
  assumes "cc_same c c'"
  shows "cc_map c' = cc_map c" "cc_set c' = cc_set c" "cc_rel t c' = cc_rel t c" "cc_clauseOf c' = cc_clauseOf c"
  using assms cc_db_eqs[of c' c] by (simp_all add: cc_same_def)

lemma cc_clauseOf_known:
  assumes "cc_inv t c" "i \<in> dom (cc_map c)"
  obtains d where "cc_clauseOf c i = Inr d" "cc_map c i = Some d" "clause_ok t d"
proof -
  obtain d where d: "cc_map c i = Some d" using assms(2) by blast
  then have "(i, d) \<in> set (db_clauses (cc_db c))" unfolding cc_map_def by (rule map_of_SomeD)
  then have "clause_ok t d" using assms(1) db_okD(5)[of t "cc_vars c" "cc_db c" i d] by (simp add: cc_inv_def)
  then show ?thesis using that d by (simp add: cc_clauseOf_def db_clauseOf_def cc_map_def)
qed

context sat_backend
begin

lemma cc_supportSolveID_wp:
  assumes wf: "tr_wf t" and inv: "cc_inv t c" and sat: "live opt t"
    and fr: "set frame \<subseteq> dom (cc_map c)" "i \<in> dom (cc_map c)"
  shows "wp (cc_supportSolveID B opt frame i supp) (\<lambda>(r, s) c'. cc_inv t c' \<and> cc_same c c'
     \<and> (r \<longleftrightarrow> cc_rel t c (set frame) i) \<and> (r \<longrightarrow> set s \<subseteq> set frame \<and> distinct s \<and> cc_rel t c (set s) i)
     \<and> (\<not> r \<longrightarrow> s = supp \<and> cc_cex t c' (cc_set c (insert i (set frame))))) c"
proof -
  obtain d where d: "cc_clauseOf c i = Inr d" "cc_map c i = Some d" "clause_ok t d" using cc_clauseOf_known[OF inv fr(2)] .
  have "cc_set c (insert i (set frame)) = insert d (cc_set c (set frame))" using d(2) by (auto simp: cc_set_def)
  then show ?thesis
    unfolding cc_supportSolveID_def wp_bindS wp_getS wp_liftS d(1) wpr_Inr
    using d(2) by (intro wp_mono[OF cc_supportSolve_wp[OF wf inv sat fr(1) d(3)]]) (auto simp: cc_rel_def)
qed

lemma cc_solveID_wp:
  assumes wf: "tr_wf t" and inv: "cc_inv t c" and sat: "live opt t"
    and fr: "set frame \<subseteq> dom (cc_map c)" "i \<in> dom (cc_map c)"
  shows "wp (cc_solveID B opt frame i) (\<lambda>r c'. cc_inv t c' \<and> cc_same c c'
     \<and> (r \<longleftrightarrow> cc_rel t c (set frame) i) \<and> (\<not> r \<longrightarrow> cc_cex t c' (cc_set c (insert i (set frame))))) c"
proof -
  have "cc_solveID B opt frame i = bindS (cc_supportSolveID B opt frame i []) (\<lambda>(r, s). retS r)"
    by (rule ext) (auto simp: cc_solveID_def cc_supportSolveID_def cc_solve_def bindS_def split: sum.splits)
  then show ?thesis
    by (simp only: wp_bindS) (rule wp_mono[OF cc_supportSolveID_wp[OF wf inv sat fr]], auto)
qed

lemma cc_isInductive_wp:
  assumes wf: "tr_wf t" and inv: "cc_inv t c" and sat: "live opt t"
    and fr: "set frame \<subseteq> dom (cc_map c)"
  shows "wp (cc_isInductive B opt frame) (\<lambda>r c'. cc_inv t c' \<and> (frame = [] \<longrightarrow> c' = c) \<and> (frame \<noteq> [] \<longrightarrow> cc_same c c')
     \<and> (r \<longleftrightarrow> (\<forall>i\<in>set frame. cc_rel t c (set frame) i))) c"
proof -
  let ?I = "\<lambda>c'. cc_inv t c' \<and> cc_db c' = cc_db c \<and> cc_vars c' = cc_vars c \<and> (cc_inited c \<longrightarrow> cc_inited c')"
  have step: "wp (cc_solveID B opt frame i) (\<lambda>b c2. (cc_inv t c2 \<and> cc_same c c2) \<and> b = cc_rel t c (set frame) i) c1"
    if i: "i \<in> set frame" "?I c1" for i c1
  proof -
    have m: "cc_map c1 = cc_map c" "cc_rel t c1 = cc_rel t c" using i(2) cc_db_eqs[of c1 c] by simp_all
    have a: "cc_inv t c1" "set frame \<subseteq> dom (cc_map c1)" "i \<in> dom (cc_map c1)" using i fr m by auto
    show ?thesis
      by (rule wp_mono[OF cc_solveID_wp[OF wf a(1) sat a(2,3)]]) (use i(2) m(2) in \<open>auto simp: cc_same_def\<close>)
  qed
  show ?thesis
  proof (cases frame)
    case Nil
    then show ?thesis using inv by (simp add: cc_isInductive_def)
  next
    case (Cons j js)
    have all: "wp (allS (\<lambda>i. cc_solveID B opt frame i) js) (\<lambda>b c2. (cc_inv t c2 \<and> cc_same c c2) \<and> b = (\<forall>i\<in>set js. cc_rel t c (set frame) i)) c1"
      if c1: "cc_inv t c1" "cc_same c c1" for c1
    proof (rule wp_allS[where I = "\<lambda>c2. cc_inv t c2 \<and> cc_same c c2"])
      fix i s assume "i \<in> set js" "cc_inv t s \<and> cc_same c s"
      then show "wp (cc_solveID B opt frame i) (\<lambda>b t'. (cc_inv t t' \<and> cc_same c t') \<and> b = cc_rel t c (set frame) i) s"
        using step[of i s] Cons by (auto simp: cc_same_def)
    qed (use c1 in simp)
    have "wp (cc_solveID B opt frame j) (\<lambda>b. wp (if b then allS (\<lambda>i. cc_solveID B opt frame i) js else retS False)
       (\<lambda>r c'. cc_inv t c' \<and> (frame = [] \<longrightarrow> c' = c) \<and> (frame \<noteq> [] \<longrightarrow> cc_same c c')
         \<and> (r \<longleftrightarrow> (\<forall>i\<in>set frame. cc_rel t c (set frame) i)))) c"
    proof (rule wp_mono[OF step])
      show "j \<in> set frame" using Cons by simp
      show "?I c" using inv by simp
      fix b c1 assume b: "(cc_inv t c1 \<and> cc_same c c1) \<and> b = cc_rel t c (set frame) j"
      show "wp (if b then allS (\<lambda>i. cc_solveID B opt frame i) js else retS False)
       (\<lambda>r c'. cc_inv t c' \<and> (frame = [] \<longrightarrow> c' = c) \<and> (frame \<noteq> [] \<longrightarrow> cc_same c c')
         \<and> (r \<longleftrightarrow> (\<forall>i\<in>set frame. cc_rel t c (set frame) i))) c1"
      proof (cases b)
        case True
        have "wp (allS (\<lambda>i. cc_solveID B opt frame i) js) (\<lambda>r c'. cc_inv t c' \<and> (frame = [] \<longrightarrow> c' = c) \<and> (frame \<noteq> [] \<longrightarrow> cc_same c c')
         \<and> (r \<longleftrightarrow> (\<forall>i\<in>set frame. cc_rel t c (set frame) i))) c1"
          by (rule wp_mono[OF all]) (use b True Cons in auto)
        then show ?thesis using True by simp
      next
        case False
        then show ?thesis using b Cons by auto
      qed
    qed
    then show ?thesis unfolding cc_isInductive_def by (subst (2) Cons) (simp only: allS.simps wp_bindS)
  qed
qed

end

end
