(* ===== verification/RelInd.thy ===== *)
theory RelInd
  imports Prelude
begin

text \<open>
  Relative induction, independent of clauses and solvers: a relation \<open>rel I c\<close> (\<open>c\<close> is inductive
  relative to \<open>I\<close>) that is monotone in \<open>I\<close>.  The largest inductive subset, safe inductive subsets
  (those that contain the necessary elements) and the minimal ones among them.
\<close>

definition ind_set :: "('a set \<Rightarrow> 'a \<Rightarrow> bool) \<Rightarrow> 'a set \<Rightarrow> bool" where
  "ind_set rel I = (\<forall>c\<in>I. rel I c)"

definition max_ind :: "('a set \<Rightarrow> 'a \<Rightarrow> bool) \<Rightarrow> 'a set \<Rightarrow> 'a set" where
  "max_ind rel V = \<Union>{I. I \<subseteq> V \<and> ind_set rel I}"

definition safe_ind :: "('a set \<Rightarrow> 'a \<Rightarrow> bool) \<Rightarrow> 'a set \<Rightarrow> 'a set \<Rightarrow> bool" where
  "safe_ind rel nec I = (nec \<subseteq> I \<and> ind_set rel I)"

definition min_safe_ind :: "('a set \<Rightarrow> 'a \<Rightarrow> bool) \<Rightarrow> 'a set \<Rightarrow> 'a set \<Rightarrow> bool" where
  "min_safe_ind rel nec I = (safe_ind rel nec I \<and> (\<forall>J. J \<subset> I \<longrightarrow> \<not> safe_ind rel nec J))"

locale rel_ind =
  fixes rel :: "'a set \<Rightarrow> 'a \<Rightarrow> bool"
  assumes rel_mono: "I \<subseteq> J \<Longrightarrow> rel I c \<Longrightarrow> rel J c"
begin

lemma max_ind_sub: "max_ind rel V \<subseteq> V"
  by (auto simp: max_ind_def)

lemma max_ind_ind: "ind_set rel (max_ind rel V)"
  unfolding ind_set_def
proof
  fix c assume "c \<in> max_ind rel V"
  then obtain I where I: "I \<subseteq> V" "ind_set rel I" "c \<in> I" by (auto simp: max_ind_def)
  then have "I \<subseteq> max_ind rel V" by (auto simp: max_ind_def)
  then show "rel (max_ind rel V) c" using I rel_mono unfolding ind_set_def by blast
qed

lemma max_ind_greatest: "I \<subseteq> V \<Longrightarrow> ind_set rel I \<Longrightarrow> I \<subseteq> max_ind rel V"
  by (auto simp: max_ind_def)

lemma max_ind_id: "ind_set rel V \<Longrightarrow> max_ind rel V = V"
  using max_ind_sub max_ind_greatest by blast

lemma max_ind_mono: "V \<subseteq> W \<Longrightarrow> max_ind rel V \<subseteq> max_ind rel W"
  by (auto simp: max_ind_def)

lemma not_rel_not_max: "\<not> rel V c \<Longrightarrow> c \<notin> max_ind rel V"
  using max_ind_ind[of V] rel_mono[OF max_ind_sub] unfolding ind_set_def by blast

lemma max_ind_between: "max_ind rel V \<subseteq> W \<Longrightarrow> W \<subseteq> V \<Longrightarrow> max_ind rel W = max_ind rel V"
  using max_ind_mono[of W V] max_ind_greatest[OF _ max_ind_ind, of V W] by blast

lemma max_ind_drop:
  assumes "W \<subseteq> V" "\<And>c. c \<in> V - W \<Longrightarrow> \<not> rel V c"
  shows "max_ind rel W = max_ind rel V"
proof (rule max_ind_between[OF _ assms(1)])
  show "max_ind rel V \<subseteq> W" using not_rel_not_max assms(2) max_ind_sub[of V] by blast
qed

lemma safe_max: "nec \<subseteq> max_ind rel V \<longleftrightarrow> (\<exists>I\<subseteq>V. safe_ind rel nec I)"
  unfolding safe_ind_def using max_ind_sub[of V] max_ind_ind[of V] max_ind_greatest[of _ V] by blast

text \<open>An element every safe set needs may be added to the necessary ones.\<close>

lemma needed:
  assumes "\<not> nec \<subseteq> max_ind rel (V - {c})" "I \<subseteq> V" "safe_ind rel nec I"
  shows "c \<in> I"
proof (rule ccontr)
  assume "c \<notin> I"
  then have "I \<subseteq> V - {c}" using assms(2) by blast
  then show False using assms(1,3) safe_max by blast
qed

text \<open>If each element but the necessary ones was found to be needed, the set is minimal.\<close>

lemma all_needed_min:
  assumes "nec \<subseteq> max_ind rel V" "nec \<subseteq> V" "\<And>c. c \<in> V - nec \<Longrightarrow> \<not> nec \<subseteq> max_ind rel (V - {c})"
  shows "min_safe_ind rel nec V"
proof -
  have sub: "V \<subseteq> I" if I: "I \<subseteq> V" "safe_ind rel nec I" for I
    using needed[OF assms(3) I] I(2) unfolding safe_ind_def by blast
  have "safe_ind rel nec (max_ind rel V)" using assms(1) max_ind_ind by (simp add: safe_ind_def)
  then have "max_ind rel V = V" using sub[OF max_ind_sub] max_ind_sub[of V] by blast
  then have "safe_ind rel nec V" using max_ind_ind[of V] assms(2) by (simp add: safe_ind_def)
  then show ?thesis using sub unfolding min_safe_ind_def by blast
qed

text \<open>Removing one element and shrinking to the largest inductive subset keeps what was found to be
  needed.\<close>

lemma shrink:
  assumes "nec \<subseteq> keep" "keep \<subseteq> F" "\<And>c. c \<in> keep - nec \<Longrightarrow> \<not> nec \<subseteq> max_ind rel (F - {c})"
    and G: "G = max_ind rel (F - {x})" "nec \<subseteq> G"
  shows "keep \<subseteq> G" "max_ind rel G = G" "\<And>c. c \<in> keep - nec \<Longrightarrow> \<not> nec \<subseteq> max_ind rel (G - {c})"
proof -
  have GF: "G \<subseteq> F" using max_ind_sub[of "F - {x}"] G(1) by blast
  have ind: "ind_set rel G" using max_ind_ind G(1) by simp
  then have safe: "safe_ind rel nec G" using G(2) by (simp add: safe_ind_def)
  show "keep \<subseteq> G" using needed[OF assms(3) GF safe] G(2) by blast
  show "max_ind rel G = G" by (rule max_ind_id[OF ind])
  show "\<not> nec \<subseteq> max_ind rel (G - {c})" if "c \<in> keep - nec" for c
    using assms(3)[OF that] max_ind_mono[of "G - {c}" "F - {c}"] GF by blast
qed

text \<open>Every safe set within \<open>F\<close> contains the elements collected as necessary.\<close>

definition all_need :: "'a set \<Rightarrow> 'a set \<Rightarrow> 'a set \<Rightarrow> bool" where
  "all_need F base nec = (base \<subseteq> nec \<and> (\<forall>I\<subseteq>F. safe_ind rel base I \<longrightarrow> nec \<subseteq> I))"

lemma all_need_base: "all_need F base base"
  by (auto simp: all_need_def safe_ind_def)

lemma all_need_mono: "all_need F base nec \<Longrightarrow> G \<subseteq> F \<Longrightarrow> all_need G base nec"
  by (auto simp: all_need_def)

lemma all_need_insert:
  assumes "all_need F base nec" "\<not> nec \<subseteq> max_ind rel (F - {x})"
  shows "all_need F base (insert x nec)"
proof -
  have "x \<in> I" if I: "I \<subseteq> F" "safe_ind rel base I" for I
  proof -
    have "safe_ind rel nec I" using assms(1) I by (auto simp: all_need_def safe_ind_def)
    then show ?thesis using needed[OF assms(2) I(1)] by blast
  qed
  then show ?thesis using assms(1) unfolding all_need_def by blast
qed

lemma all_need_min:
  assumes "all_need F base nec" "K \<subseteq> F" "min_safe_ind rel nec K"
  shows "min_safe_ind rel base K"
proof -
  have sub: "base \<subseteq> nec" using assms(1) by (simp add: all_need_def)
  have "\<not> safe_ind rel base J" if "J \<subset> K" for J
  proof
    assume J: "safe_ind rel base J"
    have "J \<subseteq> F" using that assms(2) by blast
    then have "nec \<subseteq> J" using assms(1) J unfolding all_need_def by blast
    then have "safe_ind rel nec J" using J by (simp add: safe_ind_def)
    then show False using assms(3) that unfolding min_safe_ind_def by blast
  qed
  then show ?thesis using assms(3) sub unfolding min_safe_ind_def safe_ind_def by blast
qed

end

end
