(* ===== verification/FindMis.thy ===== *)
theory FindMis
  imports ConsecSem RelInd
begin

text \<open>
  \<open>src/src/pme/util/find_safe_mis.cpp\<close> and \<open>src/src/pme/util/find_minimal_support.cpp\<close>: the largest
  inductive subset of a set of clauses, given up as soon as a necessary clause is lost, and a
  support of a clause.  An iterator into a vector is an index.
\<close>

interpretation cc: rel_ind "cc_rel t c" for t c
  by unfold_locales (rule cc_rel_mono)

subsection \<open>Maximal safe inductive subset\<close>

definition contains :: "clauseID list \<Rightarrow> clauseID \<Rightarrow> bool" where
  "contains vec i = (i \<in> set vec)"

definition containsAllOf :: "clauseID list \<Rightarrow> clauseID list \<Rightarrow> bool" where
  "containsAllOf vec props = list_all (contains vec) props"

definition isSafeInductive :: "backend \<Rightarrow> bool \<Rightarrow> clauseID list \<Rightarrow> clauseID list \<Rightarrow> (consecChecker, bool) sm" where
  "isSafeInductive B opt vec props = (if containsAllOf vec props then cc_isInductive B opt vec else retS False)"

fun negcp_sat :: "consecChecker \<Rightarrow> clause \<Rightarrow> bool res" where
  "negcp_sat c [] = Inr True"
| "negcp_sat c (lit # cls) = assertR (nprimes lit = 0) (bindR (cc_safeGetAssignment c (negate (prime1 lit))) (\<lambda>v.
     if v = MV_FALSE then Inr False else negcp_sat c cls))"

fun removeSATClauses :: "consecChecker \<Rightarrow> clauseID list \<Rightarrow> clauseID list \<Rightarrow> (bool \<times> clauseID list) res" where
  "removeSATClauses c nec [] = Inr (True, [])"
| "removeSATClauses c nec (i # vec) = bindR (cc_clauseOf c i) (\<lambda>cls. bindR (negcp_sat c cls) (\<lambda>neg.
     if neg then (if contains nec i then Inr (False, vec) else removeSATClauses c nec vec)
     else bindR (removeSATClauses c nec vec) (\<lambda>(b, v). Inr (b, i # v))))"

lemma removeSAT_length: "removeSATClauses c nec vec = Inr (b, vec') \<Longrightarrow> length vec' \<le> length vec"
  by (induction vec arbitrary: b vec') (auto simp: bindR_Inr_iff split: if_splits dest: le_SucI)

definition erase_at :: "nat \<Rightarrow> 'a list \<Rightarrow> 'a list" where
  "erase_at i xs = take i xs @ drop (Suc i) xs"

lemma erase_at_length: "i < length xs \<Longrightarrow> length (erase_at i xs) < length xs"
  by (simp add: erase_at_def)

definition lower_bound :: "'a::linorder list \<Rightarrow> 'a \<Rightarrow> nat" where
  "lower_bound xs x = length (takeWhile (\<lambda>y. y < x) xs)"

definition upper_bound :: "'a::linorder list \<Rightarrow> 'a \<Rightarrow> nat" where
  "upper_bound xs x = length (takeWhile (\<lambda>y. y \<le> x) xs)"

text \<open>One pass of the inner loop from index \<open>i\<close> on: whether no necessary clause was lost, whether
  something was removed, and the remaining clauses.\<close>

function mis_pass :: "backend \<Rightarrow> bool \<Rightarrow> clauseID list \<Rightarrow> clauseID list \<Rightarrow> nat \<Rightarrow> bool \<Rightarrow> (consecChecker, bool \<times> bool \<times> clauseID list) sm" where
  "mis_pass B opt nec vec i removed s = (if i < length vec then
     bindS (cc_solveID B opt vec (vec ! i)) (\<lambda>r s1.
       if \<not> r then
         if contains nec (vec ! i) then retS (False, removed, vec) s1
         else bindS getS (\<lambda>c. bindS (liftS (removeSATClauses c nec (erase_at i vec))) (\<lambda>p s2. case p of (maybe_proof, vec') \<Rightarrow>
           if \<not> maybe_proof then retS (False, True, vec') s2
           else mis_pass B opt nec vec' (lower_bound vec' (vec ! i)) True s2)) s1
       else mis_pass B opt nec vec (i + 1) removed s1) s
     else retS (True, removed, vec) s)"
  by pat_completeness auto
termination
  by (relation "measures [\<lambda>(B, opt, nec, vec, i, removed, s). length vec, \<lambda>(B, opt, nec, vec, i, removed, s). length vec - i]")
    (auto simp: liftS_Inr dest!: removeSAT_length dest: le_less_trans[OF _ erase_at_length])

declare mis_pass.simps [simp del]

lemma mis_pass_length:
  "mis_pass B opt nec vec i removed s = Inr ((ok, removed', vec'), s') \<Longrightarrow>
     length vec' \<le> length vec \<and> (removed' \<longrightarrow> removed \<or> length vec' < length vec)"
proof (induction B opt nec vec i removed s arbitrary: ok removed' vec' s' rule: mis_pass.induct)
  case (1 B opt nec vec i removed s)
  show ?case
  proof (cases "i < length vec")
    case False
    then show ?thesis using "1.prems" by (subst (asm) mis_pass.simps) (auto simp: retS_def)
  next
    case True
    obtain r s1 where r: "cc_solveID B opt vec (vec ! i) s = Inr (r, s1)"
      using "1.prems" True by (subst (asm) mis_pass.simps) (auto simp: bindS_def split: sum.splits)
    note def = "1.prems"[unfolded mis_pass.simps[of B opt nec vec i removed s]]
    show ?thesis
    proof (cases r)
      case rt: True
      have "mis_pass B opt nec vec (i + 1) removed s1 = Inr ((ok, removed', vec'), s')"
        using def True r rt by (simp add: bindS_def)
      then show ?thesis using "1.IH"(2)[OF True r] rt by blast
    next
      case rf: False
      show ?thesis
      proof (cases "contains nec (vec ! i)")
        case True
        then show ?thesis using def \<open>i < length vec\<close> r rf by (auto simp: bindS_def retS_def)
      next
        case nc: False
        obtain mp v where v: "removeSATClauses s1 nec (erase_at i vec) = Inr (mp, v)"
          using def True r rf nc by (auto simp: bindS_def getS_def liftS_def split: sum.splits)
        have len: "length v < length vec" using removeSAT_length[OF v] erase_at_length[OF True] by simp
        show ?thesis
        proof (cases mp)
          case mf: False
          then show ?thesis using def True r rf nc v len by (auto simp: bindS_def getS_def liftS_def retS_def)
        next
          case mt: True
          have e: "mis_pass B opt nec v (lower_bound v (vec ! i)) True s1 = Inr ((ok, removed', vec'), s')"
            using def True r rf nc v mt by (simp add: bindS_def getS_def liftS_def)
          have "length vec' \<le> length v"
            using "1.IH"(1)[OF True r _ nc, of s1 s1 "(mp, v)" s1 mp v ok removed' vec' s'] e rf mt v
            by (simp add: getS_def liftS_def)
          then show ?thesis using len by simp
        qed
      qed
    qed
  qed
qed

text \<open>The passes are repeated until one removes nothing.\<close>

function mis_loop :: "backend \<Rightarrow> bool \<Rightarrow> clauseID list \<Rightarrow> clauseID list \<Rightarrow> (consecChecker, bool \<times> clauseID list) sm" where
  "mis_loop B opt nec vec s = bindS (mis_pass B opt nec vec 0 False) (\<lambda>p s1. case p of (ok, removed, vec') \<Rightarrow>
     if \<not> ok then retS (False, vec') s1 else if removed then mis_loop B opt nec vec' s1 else retS (True, vec') s1) s"
  by pat_completeness auto
termination
  by (relation "measure (\<lambda>(B, opt, nec, vec, s). length vec)") (auto dest!: mis_pass_length)

declare mis_loop.simps [simp del]

definition findSafeMIS :: "backend \<Rightarrow> bool \<Rightarrow> clauseID list \<Rightarrow> clauseID list \<Rightarrow> (consecChecker, bool \<times> clauseID list) sm" where
  "findSafeMIS B opt vec nec = (if \<not> containsAllOf vec nec then retS (False, vec)
     else bindS (isSafeInductive B opt vec nec) (\<lambda>b. if b then retS (True, vec) else mis_loop B opt nec (sort vec)))"

definition findSafeMISproperty :: "backend \<Rightarrow> bool \<Rightarrow> clauseID list \<Rightarrow> clauseID \<Rightarrow> (consecChecker, bool \<times> clauseID list) sm" where
  "findSafeMISproperty B opt vec prop = findSafeMIS B opt vec [prop]"

text \<open>The overload that builds its own checker; the variable manager is the state.  Its loop counts in
  an \<open>unsigned\<close>, which wraps after 2^32 clauses; the fuel is one more iteration than there are
  clauses, which a wrapped count never uses up: the clause with ID 0 is then added a second time.\<close>

fun mis_addClauses :: "clause \<Rightarrow> clauseVec \<Rightarrow> nat \<Rightarrow> 32 word \<Rightarrow> clauseID \<Rightarrow> clauseID list \<Rightarrow> (consecChecker, clauseID \<times> clauseID list) sm" where
  "mis_addClauses propCls pf 0 i property vec = (if unat i < length pf then failS Diverges else retS (property, vec))"
| "mis_addClauses propCls pf (Suc fuel) i property vec = (if unat i < length pf then
     let cls = pf ! unat i in
     thenS (cc_addClause (ucast i) cls)
     (if cls = propCls then thenS (assertS (property = of_nat (length pf))) (mis_addClauses propCls pf fuel (i + 1) (ucast i) (vec @ [ucast i]))
      else mis_addClauses propCls pf fuel (i + 1) property (vec @ [ucast i]))
     else retS (property, vec))"

definition findSafeMISproof :: "backend \<Rightarrow> bool \<Rightarrow> anyTR \<Rightarrow> clauseVec \<Rightarrow> (varManager, bool) sm" where
  "findSafeMISproof B opt t pf vm = bindR (cc_new vm t) (\<lambda>c.
     bindR (bindS (mis_addClauses [negate (tr_bad (baseTR t))] pf (length pf + 1) 0 (of_nat (length pf)) [])
        (\<lambda>(property, vec). thenS (assertS (property < of_nat (length pf)))
           (findSafeMISproperty B opt vec property)) c)
     (\<lambda>((r, vec), c'). Inr (r, cc_vars c')))"

subsection \<open>Minimal support\<close>

text \<open>The loop ends after at most as many iterations as the frame has clauses; \<open>Inl Diverges\<close>
  stands for running longer than the fuel.\<close>

fun support_loop :: "backend \<Rightarrow> bool \<Rightarrow> clause \<Rightarrow> nat \<Rightarrow> clauseID list \<Rightarrow> nat \<Rightarrow> (consecChecker, clauseID list) sm" where
  "support_loop B opt cls 0 frame_copy i = (if i < length frame_copy then failS Diverges else retS frame_copy)"
| "support_loop B opt cls (Suc fuel) frame_copy i = (if i < length frame_copy then
     let x = frame_copy ! i in
     bindS (cc_supportSolve B opt frame_copy cls []) (\<lambda>(r, support).
       if r then thenS (assertS (length support \<le> length frame_copy))
          (support_loop B opt cls fuel (sort support) (upper_bound (sort support) x))
       else support_loop B opt cls fuel frame_copy (i + 1))
     else retS frame_copy)"

definition findMinimalSupport :: "backend \<Rightarrow> bool \<Rightarrow> clauseID list \<Rightarrow> clause \<Rightarrow> (consecChecker, clauseID list) sm" where
  "findMinimalSupport B opt frame cls = support_loop B opt cls (length frame) (sort frame) 0"

definition findMinimalSupportID :: "backend \<Rightarrow> bool \<Rightarrow> clauseID list \<Rightarrow> clauseID \<Rightarrow> (consecChecker, clauseID list) sm" where
  "findMinimalSupportID B opt frame i = bindS getS (\<lambda>c. bindS (liftS (cc_clauseOf c i)) (\<lambda>cls. findMinimalSupport B opt frame cls))"

subsection \<open>Clauses a model refutes\<close>

definition cc_keep :: "consecChecker \<Rightarrow> consecChecker \<Rightarrow> bool" where
  "cc_keep c c' = (cc_db c' = cc_db c \<and> cc_vars c' = cc_vars c)"

lemma cc_keep_refl [simp]: "cc_keep c c"
  by (simp add: cc_keep_def)

lemma cc_keep_trans: "cc_keep a b \<Longrightarrow> cc_keep b c \<Longrightarrow> cc_keep a c"
  by (simp add: cc_keep_def)

lemma cc_same_keep: "cc_same c c' \<Longrightarrow> cc_keep c c'"
  by (simp add: cc_same_def cc_keep_def)

lemma cc_keep_eqs:
  assumes "cc_keep c c'"
  shows "cc_map c' = cc_map c" "cc_set c' = cc_set c" "cc_rel t c' = cc_rel t c" "cc_clauseOf c' = cc_clauseOf c"
  using assms cc_db_eqs[of c' c] by (simp_all add: cc_keep_def)

lemma clause_ok_unprimed:
  assumes "tr_wf t" "clause_ok t d" "l \<in> set d"
  shows "unprime l = l" "nprimes l = 0"
proof -
  have "strip l \<in> tr_vars t" using assms(2,3) state_vars_tr unfolding clause_ok_def by blast
  then have "unprime (strip l) = strip l" using tr_wf_vars[OF assms(1)] by blast
  then show u: "unprime l = l" by (metis strip_def negate_inject unprime_negate)
  show "nprimes l = 0" by (rule nprimes_unprimed[OF u])
qed

lemma negcp_sat_val:
  assumes m: "ad_model (cc_solver c) \<sigma>" and np: "\<forall>l\<in>set d. nprimes l = 0"
  shows "negcp_sat c d = Inr (\<forall>l\<in>set d. ad_hasSAT (cc_solver c) (prime1 l) \<longrightarrow> \<not> lit_true \<sigma> (prime1 l))"
  using np
proof (induction d)
  case (Cons l d)
  have "cc_safeGetAssignment c (negate (prime1 l)) = Inr (if ad_hasSAT (cc_solver c) (prime1 l)
      then (if lit_true \<sigma> (prime1 l) then MV_FALSE else MV_TRUE) else MV_UNDEF)"
    using m by (simp add: cc_safeGetAssignment_def ad_model_def) (simp add: ad_hasSAT_def)
  then show ?case using Cons by auto
qed simp

lemma negcp_sat_sound:
  assumes wf: "tr_wf t" and cex: "cc_cex t c Cs" and d: "clause_ok t d" "d \<in> Cs"
  shows "wpr (negcp_sat c d) (\<lambda>b. b \<longrightarrow> \<not> consec t Cs d)"
proof -
  let ?has = "ad_hasSAT (cc_solver c)"
  obtain \<sigma> where m: "ad_model (cc_solver c) \<sigma>" and tr: "\<And>\<sigma>'. (\<forall>v. ?has v \<longrightarrow> \<sigma>' v = \<sigma> v) \<Longrightarrow>
     \<exists>u u'. tr_trans t u u' \<and> (\<forall>d\<in>Cs. clause_sat u d) \<and> (\<forall>v\<in>state_vars t. u' v = at_time 1 \<sigma>' v)"
    using cex unfolding cc_cex_def by blast
  have np: "\<forall>l\<in>set d. nprimes l = 0" using clause_ok_unprimed[OF wf d(1)] by blast
  have "\<not> consec t Cs d" if b: "\<forall>l\<in>set d. ?has (prime1 l) \<longrightarrow> \<not> lit_true \<sigma> (prime1 l)"
  proof
    assume con: "consec t Cs d"
    let ?s = "\<lambda>v. if ?has v then \<sigma> v else (\<exists>l\<in>set d. strip (prime1 l) = v \<and> is_negated l)"
    obtain u u' where u: "tr_trans t u u'" "\<forall>d\<in>Cs. clause_sat u d" "\<forall>v\<in>state_vars t. u' v = at_time 1 ?s v"
      using tr[of ?s] by auto
    then have "clause_sat u' d" using con d(2) unfolding consec_def by blast
    moreover have "clause_sat u' d = clause_sat (at_time 1 ?s) d"
      using u(3) d(1) by (intro clause_sat_on[of d "state_vars t"]) (auto simp: clause_ok_def)
    ultimately obtain l where l: "l \<in> set d" "lit_true (at_time 1 ?s) l" by (auto simp: clause_sat_def)
    then have lt: "lit_true ?s (prime1 l)" using lit_true_prime[of ?s 1 l] by simp
    show False
    proof (cases "?has (prime1 l)")
      case True
      then have "?has (strip (prime1 l))" by (simp add: ad_hasSAT_def)
      then have "lit_true ?s (prime1 l) = lit_true \<sigma> (prime1 l)" by (intro lit_true_cong) simp
      then show False using lt b l(1) True by simp
    next
      case False
      then have nh: "\<not> ?has (strip (prime1 l))" by (simp add: ad_hasSAT_def)
      have val: "?s (strip (prime1 l)) = is_negated l"
      proof -
        have "is_negated l' = is_negated l" if l': "l' \<in> set d" "strip (prime1 l') = strip (prime1 l)" for l'
        proof -
          have "prime_body 1 (strip l') = prime_body 1 (strip l)" using l'(2) by (simp only: strip_prime_body)
          moreover have "unprime (strip l') = strip l'" "unprime (strip l) = strip l"
            using clause_ok_unprimed(1)[OF wf d(1)] l(1) l'(1) by simp_all
          ultimately have "strip l' = strip l" using prime_inject by blast
          then have "l' = l \<or> l' = negate l" by (simp add: strip_eq_iff)
          moreover have "negate l \<notin> set d" using d(1) l(1) unfolding clause_ok_def by blast
          ultimately show ?thesis using l'(1) by auto
        qed
        then have "(\<exists>l'\<in>set d. strip (prime1 l') = strip (prime1 l) \<and> is_negated l') = is_negated l" using l(1) by blast
        then show ?thesis using nh by (simp only: if_False)
      qed
      have "lit_true ?s (prime1 l) = (?s (strip (prime1 l)) \<noteq> is_negated (prime1 l))" by (simp only: lit_true_def)
      moreover have "is_negated (prime1 l) = is_negated l" by simp
      ultimately show False using lt val by simp
    qed
  qed
  then show ?thesis using negcp_sat_val[OF m np] by simp
qed

lemma removeSAT_ok:
  assumes wf: "tr_wf t" and inv: "cc_inv t c" and cex: "cc_cex t c (cc_set c (set V))"
    and vec: "set vec \<subseteq> set V" "set V \<subseteq> dom (cc_map c)" "distinct vec"
  shows "wpr (removeSATClauses c nec vec) (\<lambda>(b, vec'). set vec' \<subseteq> set vec \<and> distinct vec'
     \<and> (\<forall>i\<in>set vec - set vec'. \<not> cc_rel t c (set V) i) \<and> (b \<longrightarrow> set nec \<inter> set vec \<subseteq> set vec')
     \<and> (\<not> b \<longrightarrow> (\<exists>i\<in>set nec \<inter> set vec. \<not> cc_rel t c (set V) i)) \<and> (b \<or> set vec' \<subseteq> set vec))"
  using vec
proof (induction vec)
  case (Cons i vec)
  have i: "i \<in> set V" "i \<in> dom (cc_map c)" using Cons.prems by auto
  obtain d where d: "cc_clauseOf c i = Inr d" "cc_map c i = Some d" "clause_ok t d" using cc_clauseOf_known[OF inv i(2)] .
  have dV: "d \<in> cc_set c (set V)" using d(2) i(1) by (auto simp: cc_set_def)
  obtain b where b: "negcp_sat c d = Inr b" "b \<longrightarrow> \<not> consec t (cc_set c (set V)) d"
    using negcp_sat_sound[OF wf cex d(3) dV] by (auto simp: wpr_iff)
  have nr: "\<not> cc_rel t c (set V) i" if b using b(2) that d(2) by (simp add: cc_rel_def)
  obtain rb v where r: "removeSATClauses c nec vec = Inr (rb, v)" and rec: "set v \<subseteq> set vec" "distinct v"
     "\<forall>i\<in>set vec - set v. \<not> cc_rel t c (set V) i" "rb \<longrightarrow> set nec \<inter> set vec \<subseteq> set v"
     "\<not> rb \<longrightarrow> (\<exists>i\<in>set nec \<inter> set vec. \<not> cc_rel t c (set V) i)"
    using Cons.IH Cons.prems by (auto simp: wpr_iff)
  show ?case
  proof (cases "b \<and> contains nec i")
    case True
    then show ?thesis using d(1) b(1) nr Cons.prems by (auto simp: contains_def)
  next
    case False
    show ?thesis
    proof (cases b)
      case True
      then have ni: "i \<notin> set nec" using False by (simp add: contains_def)
      then show ?thesis using True d(1) b(1) r rec nr Cons.prems by (auto simp: contains_def)
    next
      case nb: False
      have di: "i \<notin> set v" using rec(1) Cons.prems(3) by auto
      show ?thesis using nb d(1) b(1) r rec di Cons.prems by auto
    qed
  qed
qed simp

subsection \<open>The largest inductive subset\<close>

lemma erase_at_set:
  assumes "i < length xs" "distinct xs"
  shows "set (erase_at i xs) = set xs - {xs ! i}" "distinct (erase_at i xs)"
proof -
  have xs: "xs = take i xs @ xs ! i # drop (Suc i) xs" using assms(1) by (rule id_take_nth_drop)
  then have d: "distinct (take i xs @ xs ! i # drop (Suc i) xs)" using assms(2) by simp
  have "set xs = set (take i xs) \<union> {xs ! i} \<union> set (drop (Suc i) xs)" by (subst (1) xs) simp
  then show "set (erase_at i xs) = set xs - {xs ! i}" using d by (auto simp: erase_at_def)
  show "distinct (erase_at i xs)" using d by (simp add: erase_at_def)
qed

lemma measure_induct_2 [case_names less]:
  fixes f g :: "'a \<Rightarrow> nat"
  assumes "\<And>x. (\<And>y. f y < f x \<Longrightarrow> P y) \<Longrightarrow> (\<And>y. f y = f x \<Longrightarrow> g y < g x \<Longrightarrow> P y) \<Longrightarrow> P x"
  shows "P x"
proof (induction x rule: wf_induct_rule[OF wf_measures[of "[f, g]"]])
  case (1 x)
  show ?case by (rule assms) (use 1 in auto)
qed

definition mis_pass_post :: "anyTR \<Rightarrow> consecChecker \<Rightarrow> clauseID list \<Rightarrow> clauseID list \<Rightarrow> nat \<Rightarrow> bool \<Rightarrow> bool \<times> bool \<times> clauseID list \<Rightarrow> consecChecker \<Rightarrow> bool" where
  "mis_pass_post t c nec vec i removed = (\<lambda>(ok, removed', vec') c'. cc_inv t c' \<and> cc_keep c c' \<and> set vec' \<subseteq> set vec \<and> distinct vec'
     \<and> (removed \<longrightarrow> removed')
     \<and> (\<not> ok \<longrightarrow> \<not> set nec \<subseteq> max_ind (cc_rel t c) (set vec))
     \<and> (ok \<longrightarrow> set nec \<subseteq> set vec' \<and> max_ind (cc_rel t c) (set vec') = max_ind (cc_rel t c) (set vec)
          \<and> (\<not> removed' \<longrightarrow> vec' = vec \<and> (\<forall>j. i \<le> j \<longrightarrow> j < length vec \<longrightarrow> cc_rel t c (set vec) (vec ! j)))))"

context sat_backend
begin

lemma mis_pass_wp:
  assumes wf: "tr_wf t" and sat: "live opt t"
  shows "cc_inv t c \<Longrightarrow> distinct vec \<Longrightarrow> set vec \<subseteq> dom (cc_map c) \<Longrightarrow> set nec \<subseteq> set vec
    \<Longrightarrow> wp (mis_pass B opt nec vec i removed) (mis_pass_post t c nec vec i removed) c"
proof (induction "(vec, i, removed, c)" arbitrary: vec i removed c rule: measure_induct_2[where f = "\<lambda>(vec, i, r, c). length vec" and g = "\<lambda>(vec, i, r, c). length vec - i"])
  case (less vec i removed c)
  note inv = less.prems(1) and dv = less.prems(2) and kn = less.prems(3) and nec = less.prems(4)
  show ?case
  proof (cases "i < length vec")
    case False
    then show ?thesis using inv dv nec by (simp add: wp_def mis_pass.simps retS_def mis_pass_post_def)
  next
    case True
    have iv: "vec ! i \<in> set vec" "vec ! i \<in> dom (cc_map c)" using True kn nth_mem by blast+
    obtain r s1 where r: "cc_solveID B opt vec (vec ! i) c = Inr (r, s1)" and p: "cc_inv t s1" "cc_same c s1"
       "r \<longleftrightarrow> cc_rel t c (set vec) (vec ! i)" "\<not> r \<longrightarrow> cc_cex t s1 (cc_set c (insert (vec ! i) (set vec)))"
      using cc_solveID_wp[OF wf inv sat kn iv(2)] by (auto simp: wp_iff)
    note keep = cc_same_keep[OF p(2)]
    note eqs = cc_keep_eqs[OF keep]
    note def = mis_pass.simps[of B opt nec vec i removed c]
    show ?thesis
    proof (cases r)
      case rt: True
      have e: "mis_pass B opt nec vec i removed c = mis_pass B opt nec vec (i + 1) removed s1"
        unfolding def using True r rt by (simp add: bindS_def)
      have "wp (mis_pass B opt nec vec (i + 1) removed) (mis_pass_post t s1 nec vec (i + 1) removed) s1"
        by (rule less.hyps(2)) (use True p(1) dv kn nec eqs(1) in auto)
      moreover have "mis_pass_post t c nec vec i removed x c'" if "mis_pass_post t s1 nec vec (i + 1) removed x c'" for x c'
      proof -
        have "cc_rel t c (set vec) (vec ! j)" if "i \<le> j" "j < length vec" "\<forall>j. i + 1 \<le> j \<longrightarrow> j < length vec \<longrightarrow> cc_rel t c (set vec) (vec ! j)" for j
          using that p(3) rt by (cases "j = i") auto
        then show ?thesis using that cc_keep_trans[OF keep] unfolding mis_pass_post_def eqs(3) by auto
      qed
      ultimately show ?thesis unfolding wp_def e by (auto split: sum.splits)
    next
      case rf: False
      have nr: "\<not> cc_rel t c (set vec) (vec ! i)" using p(3) rf by simp
      have cexm: "cc_cex t s1 (cc_set s1 (set vec))" using p(4) rf iv(1) eqs(2) by (simp add: insert_absorb)
      show ?thesis
      proof (cases "contains nec (vec ! i)")
        case True
        then have "\<not> set nec \<subseteq> max_ind (cc_rel t c) (set vec)" using cc.not_rel_not_max[OF nr] by (auto simp: contains_def)
        then show ?thesis
          using True \<open>i < length vec\<close> r rf p(1) keep dv
          by (simp add: wp_def def bindS_def retS_def mis_pass_post_def)
      next
        case nc: False
        have "wpr (removeSATClauses s1 nec (erase_at i vec)) (\<lambda>(b, vec'). set vec' \<subseteq> set (erase_at i vec) \<and> distinct vec'
           \<and> (\<forall>j\<in>set (erase_at i vec) - set vec'. \<not> cc_rel t s1 (set vec) j) \<and> (b \<longrightarrow> set nec \<inter> set (erase_at i vec) \<subseteq> set vec')
           \<and> (\<not> b \<longrightarrow> (\<exists>j\<in>set nec \<inter> set (erase_at i vec). \<not> cc_rel t s1 (set vec) j)) \<and> (b \<or> set vec' \<subseteq> set (erase_at i vec)))"
          by (rule removeSAT_ok[OF wf p(1) cexm]) (use erase_at_set[OF True dv] kn eqs(1) in auto)
        then obtain mp v where v: "removeSATClauses s1 nec (erase_at i vec) = Inr (mp, v)" and
          q: "set v \<subseteq> set (erase_at i vec)" "distinct v" "\<forall>j\<in>set (erase_at i vec) - set v. \<not> cc_rel t c (set vec) j"
            "mp \<longrightarrow> set nec \<inter> set (erase_at i vec) \<subseteq> set v" "\<not> mp \<longrightarrow> (\<exists>j\<in>set nec \<inter> set (erase_at i vec). \<not> cc_rel t c (set vec) j)"
          by (auto simp: wpr_iff eqs(3))
        have len: "length v < length vec" using removeSAT_length[OF v] erase_at_length[OF True] by simp
        have sub: "set v \<subseteq> set vec" using q(1) erase_at_set[OF True dv] by auto
        show ?thesis
        proof (cases mp)
          case mf: False
          then obtain j where "j \<in> set nec" "\<not> cc_rel t c (set vec) j" using q(5) by blast
          then have "\<not> set nec \<subseteq> max_ind (cc_rel t c) (set vec)" using cc.not_rel_not_max by blast
          then show ?thesis
            using mf \<open>i < length vec\<close> r rf nc v p(1) keep sub q(2)
            by (simp add: wp_def def bindS_def getS_def liftS_def retS_def mis_pass_post_def)
        next
          case mt: True
          have "c' \<in> set vec - set v \<Longrightarrow> \<not> cc_rel t c (set vec) c'" for c'
            using q(3) nr erase_at_set[OF True dv] by auto
          then have mx: "max_ind (cc_rel t c) (set v) = max_ind (cc_rel t c) (set vec)" by (rule cc.max_ind_drop[OF sub])
          have nv: "set nec \<subseteq> set v" using q(4) mt nc nec erase_at_set(1)[OF True dv] by (auto simp: contains_def)
          have e: "mis_pass B opt nec vec i removed c = mis_pass B opt nec v (lower_bound v (vec ! i)) True s1"
            unfolding def using True r rf nc v mt by (simp add: bindS_def getS_def liftS_def)
          have "wp (mis_pass B opt nec v (lower_bound v (vec ! i)) True) (mis_pass_post t s1 nec v (lower_bound v (vec ! i)) True) s1"
            by (rule less.hyps(1)) (use len p(1) q(2) sub kn nv eqs(1) in auto)
          moreover have "mis_pass_post t c nec vec i removed x c'" if "mis_pass_post t s1 nec v (lower_bound v (vec ! i)) True x c'" for x c'
            using that cc_keep_trans[OF keep] sub mx unfolding mis_pass_post_def eqs(3) by auto
          ultimately show ?thesis unfolding wp_def e by (auto split: sum.splits)
        qed
      qed
    qed
  qed
qed

end

text \<open>What the search promises: it fails exactly when a necessary clause is outside the largest
  inductive subset, and otherwise leaves that subset.\<close>

definition mis_post :: "anyTR \<Rightarrow> consecChecker \<Rightarrow> clauseID list \<Rightarrow> clauseID list \<Rightarrow> bool \<times> clauseID list \<Rightarrow> consecChecker \<Rightarrow> bool" where
  "mis_post t c nec vec = (\<lambda>(r, vec') c'. cc_inv t c' \<and> cc_keep c c' \<and> set vec' \<subseteq> set vec \<and> distinct vec'
     \<and> (r \<longleftrightarrow> set nec \<subseteq> max_ind (cc_rel t c) (set vec)) \<and> (r \<longrightarrow> set vec' = max_ind (cc_rel t c) (set vec)))"

context sat_backend
begin

lemma mis_loop_wp:
  assumes wf: "tr_wf t" and sat: "live opt t"
  shows "cc_inv t c \<Longrightarrow> distinct vec \<Longrightarrow> set vec \<subseteq> dom (cc_map c) \<Longrightarrow> set nec \<subseteq> set vec
    \<Longrightarrow> wp (mis_loop B opt nec vec) (mis_post t c nec vec) c"
proof (induction "(vec, c)" arbitrary: vec c rule: measure_induct_rule[where f = "\<lambda>(vec, c). length vec"])
  case (less vec c)
  obtain ok removed v s1 where e: "mis_pass B opt nec vec 0 False c = Inr ((ok, removed, v), s1)"
      and p: "mis_pass_post t c nec vec 0 False (ok, removed, v) s1"
    using mis_pass_wp[OF wf sat less.prems, of 0 False] by (auto simp: wp_iff)
  note q = p[unfolded mis_pass_post_def, simplified]
  note eqs = cc_keep_eqs[of c s1]
  have def: "mis_loop B opt nec vec c =
     (if \<not> ok then Inr ((False, v), s1) else if removed then mis_loop B opt nec v s1 else Inr ((True, v), s1))"
    by (subst mis_loop.simps) (simp add: bindS_def e retS_def)
  show ?case
  proof (cases "ok \<and> removed")
    case True
    have "wp (mis_loop B opt nec v) (mis_post t s1 nec v) s1"
      by (rule less.hyps) (use True q less.prems eqs mis_pass_length[OF e] in auto)
    moreover have "mis_post t c nec vec x c'" if "mis_post t s1 nec v x c'" for x c'
      using that True q eqs cc_keep_trans[of c s1 c'] by (cases x) (auto simp: mis_post_def)
    ultimately show ?thesis using True by (auto simp: wp_def def split: sum.splits)
  next
    case False
    have "max_ind (cc_rel t c) (set vec) = set vec" if "ok" "\<not> removed"
      by (rule cc.max_ind_id) (use q that in \<open>auto simp: ind_set_def in_set_conv_nth\<close>)
    then show ?thesis using False q less.prems(4) by (auto simp: wp_def def mis_post_def)
  qed
qed

lemma findSafeMIS_wp:
  assumes wf: "tr_wf t" and sat: "live opt t" and inv: "cc_inv t c" and d: "distinct vec" and k: "set vec \<subseteq> dom (cc_map c)"
  shows "wp (findSafeMIS B opt vec nec) (mis_post t c nec vec) c"
proof (cases "set nec \<subseteq> set vec")
  case False
  then have "\<not> set nec \<subseteq> max_ind (cc_rel t c) (set vec)" using cc.max_ind_sub by blast
  moreover have "\<not> containsAllOf vec nec" using False by (auto simp: containsAllOf_def contains_def list_all_iff)
  ultimately show ?thesis using inv d by (simp add: findSafeMIS_def mis_post_def)
next
  case True
  then have all: "containsAllOf vec nec" by (auto simp: containsAllOf_def contains_def list_all_iff)
  have loop: "wp (mis_loop B opt nec (sort vec)) (mis_post t c nec vec) c1" if c1: "cc_inv t c1" "cc_keep c c1" for c1
  proof (rule wp_mono[OF mis_loop_wp[OF wf sat c1(1)]])
    show "distinct (sort vec)" "set (sort vec) \<subseteq> dom (cc_map c1)" "set nec \<subseteq> set (sort vec)"
      using d k True cc_keep_eqs(1)[OF c1(2)] by simp_all
    show "mis_post t c1 nec (sort vec) x c' \<Longrightarrow> mis_post t c nec vec x c'" for x c'
      using cc_keep_eqs[OF c1(2)] cc_keep_trans[OF c1(2), of c'] by (cases x) (auto simp: mis_post_def)
  qed
  have "wp (cc_isInductive B opt vec) (\<lambda>b c1. cc_inv t c1 \<and> cc_keep c c1 \<and> b = ind_set (cc_rel t c) (set vec)) c"
    by (rule wp_mono[OF cc_isInductive_wp[OF wf inv sat k]]) (auto simp: ind_set_def cc_same_keep)
  then show ?thesis
    unfolding findSafeMIS_def isSafeInductive_def using all
    by (simp del: wp_if, elim wp_mono) (use loop d True cc.max_ind_id[of t c "set vec"] in \<open>auto simp: mis_post_def\<close>)
qed

end
subsection \<open>The overload on a proof\<close>

definition id_map :: "clauseVec \<Rightarrow> clauseID \<rightharpoonup> clause" where
  "id_map cs j = (if unat j < length cs then Some (sort (cs ! unat j)) else None)"

lemma id_map_snoc:
  assumes "length cs < 2 ^ 64"
  shows "id_map (cs @ [d]) = (id_map cs)(of_nat (length cs) \<mapsto> sort d)"
proof
  fix j :: clauseID
  have u: "unat (of_nat (length cs) :: 64 word) = length cs" using assms by (simp add: unat_of_nat)
  show "id_map (cs @ [d]) j = ((id_map cs)(of_nat (length cs) \<mapsto> sort d)) j"
  proof (cases "j = of_nat (length cs)")
    case True
    then show ?thesis using u by (simp add: id_map_def)
  next
    case False
    then have "unat j \<noteq> length cs" by (metis word_unat_eq_iff u)
    then show ?thesis using False by (auto simp: id_map_def nth_append)
  qed
qed

lemma index_32:
  assumes "j < 2 ^ 32"
  shows "unat (of_nat j :: 32 word) = j" "ucast (of_nat j :: 32 word) = (of_nat j :: clauseID)" "(of_nat j :: 32 word) + 1 = of_nat (Suc j)"
proof -
  show u: "unat (of_nat j :: 32 word) = j" using assms by (simp add: unat_of_nat)
  show "ucast (of_nat j :: 32 word) = (of_nat j :: clauseID)" using assms u by (simp add: word_unat_eq_iff unsigned_ucast_eq unat_of_nat take_bit_nat_eq_self)
qed simp

lemma mis_addClauses_wp:
  assumes "cc_inv t c" "room (k + length pf) (cc_vars c)" "\<forall>d\<in>set pf. clause_ok t d" "cc_map c = id_map pre"
    and "length pre + length pf < 2 ^ 32" "count_list pf pc \<le> 1" "pc \<in> set pf \<longrightarrow> property = of_nat (length (pre @ pf))" "length pf \<le> fuel"
  shows "wp (mis_addClauses pc (pre @ pf) fuel (of_nat (length pre)) property (map of_nat [0..<length pre]))
     (\<lambda>(prop', vec) c'. cc_inv t c' \<and> room k (cc_vars c') \<and> cc_map c' = id_map (pre @ pf) \<and> vec = map of_nat [0..<length (pre @ pf)]
     \<and> (pc \<notin> set pf \<longrightarrow> prop' = property)
     \<and> (pc \<in> set pf \<longrightarrow> unat prop' < length (pre @ pf) \<and> (pre @ pf) ! unat prop' = pc)) c"
  using assms
proof (induction pf arbitrary: pre property c fuel)
  case Nil
  have "unat (of_nat (length pre) :: 32 word) = length pre" using Nil.prems(5) index_32(1) by simp
  then show ?case using Nil.prems by (cases fuel) simp_all
next
  case (Cons d pf)
  obtain f where f: "fuel = Suc f" "length pf \<le> f" using Cons.prems(8) by (cases fuel) auto
  have l32: "length pre < 2 ^ 32" and len: "length pre < 2 ^ 64" using Cons.prems(5) by simp_all
  note ix = index_32[OF l32]
  have u: "unat (of_nat (length pre) :: 64 word) = length pre" using len by (simp add: unat_of_nat)
  have new: "cc_map c (of_nat (length pre)) = None" using u Cons.prems(4) by (simp add: id_map_def)
  have dok: "clause_ok t d" using Cons.prems(3) by simp
  have r: "room (Suc (k + length pf)) (cc_vars c)" using Cons.prems(2) by simp
  let ?P = "if d = pc then of_nat (length pre) else property"
  let ?Q = "\<lambda>(prop', vec) c'. cc_inv t c' \<and> room k (cc_vars c') \<and> cc_map c' = id_map (pre @ d # pf) \<and> vec = map of_nat [0..<length (pre @ d # pf)]
         \<and> (pc \<notin> set (d # pf) \<longrightarrow> prop' = property)
         \<and> (pc \<in> set (d # pf) \<longrightarrow> unat prop' < length (pre @ d # pf) \<and> (pre @ d # pf) ! unat prop' = pc)"
  let ?vec = "map of_nat [0..<length pre] @ [of_nat (length pre)] :: clauseID list"
  have step: "wp (mis_addClauses pc (pre @ d # pf) f (of_nat (Suc (length pre))) ?P ?vec) ?Q c1"
    if c1: "cc_inv t c1" "room (k + length pf) (cc_vars c1)" "cc_map c1 = (cc_map c)(of_nat (length pre) \<mapsto> sort d)" for c1
  proof -
    have np: "pc \<notin> set pf" if "d = pc" using Cons.prems(6) that by (simp add: count_list_0_iff)
    have v: "map of_nat [0..<length (pre @ [d])] = ?vec" by simp
    have "wp (mis_addClauses pc ((pre @ [d]) @ pf) f (of_nat (length (pre @ [d]))) ?P (map of_nat [0..<length (pre @ [d])]))
      (\<lambda>(prop', vec) c'. cc_inv t c' \<and> room k (cc_vars c') \<and> cc_map c' = id_map ((pre @ [d]) @ pf) \<and> vec = map of_nat [0..<length ((pre @ [d]) @ pf)]
         \<and> (pc \<notin> set pf \<longrightarrow> prop' = ?P)
         \<and> (pc \<in> set pf \<longrightarrow> unat prop' < length ((pre @ [d]) @ pf) \<and> ((pre @ [d]) @ pf) ! unat prop' = pc)) c1"
      by (rule Cons.IH[OF c1(1,2)])
        (use Cons.prems(3-7) c1(3) np f(2) id_map_snoc[OF len, of d] in \<open>auto split: if_splits\<close>)
    then have "wp (mis_addClauses pc (pre @ d # pf) f (of_nat (Suc (length pre))) ?P ?vec)
      (\<lambda>(prop', vec) c'. cc_inv t c' \<and> room k (cc_vars c') \<and> cc_map c' = id_map (pre @ d # pf) \<and> vec = map of_nat [0..<length (pre @ d # pf)]
         \<and> (pc \<notin> set pf \<longrightarrow> prop' = ?P)
         \<and> (pc \<in> set pf \<longrightarrow> unat prop' < length (pre @ d # pf) \<and> (pre @ d # pf) ! unat prop' = pc)) c1"
      unfolding v by (simp only: append_assoc append.simps length_append list.size add_0_right add_Suc_right)
    then show ?thesis by (rule wp_mono) (use np u in \<open>auto simp: nth_append\<close>)
  qed
  have pr: "d = pc \<longrightarrow> property = of_nat (length (pre @ d # pf))" using Cons.prems(7) by simp
  have main: "wp (thenS (cc_addClause (of_nat (length pre)) d)
     (if d = pc then thenS (assertS (property = of_nat (length (pre @ d # pf)))) (mis_addClauses pc (pre @ d # pf) f (of_nat (Suc (length pre))) (of_nat (length pre)) ?vec)
      else mis_addClauses pc (pre @ d # pf) f (of_nat (Suc (length pre))) property ?vec)) ?Q c"
    unfolding wp_thenS
    by (rule wp_mono[OF cc_addClause_wp[OF Cons.prems(1) r dok new]])
      (use step pr in \<open>auto simp del: mis_addClauses.simps of_nat_Suc split: if_splits\<close>)
  have eq: "mis_addClauses pc (pre @ d # pf) fuel (of_nat (length pre)) property (map of_nat [0..<length pre])
     = thenS (cc_addClause (of_nat (length pre)) d)
     (if d = pc then thenS (assertS (property = of_nat (length (pre @ d # pf)))) (mis_addClauses pc (pre @ d # pf) f (of_nat (Suc (length pre))) (of_nat (length pre)) ?vec)
      else mis_addClauses pc (pre @ d # pf) f (of_nat (Suc (length pre))) property ?vec)"
    unfolding f(1) mis_addClauses.simps ix Let_def by (simp add: ix(1))
  show ?case unfolding eq by (rule main)
qed

text \<open>The wrapped count: clause 0 is registered twice.\<close>

lemma cc_addClause_again:
  assumes "cc_inv t c" "cc_map c i \<noteq> None"
  shows "cc_addClause i cls c = Inl AssertFail"
proof (cases "m_nextID (cc_vars c) \<le> MAX_ID")
  case True
  have vm: "vm_inv (cc_vars c)" using assms(1) by (simp add: cc_inv_def)
  have z: "\<not> aiger_sign 0" by (simp add: aiger_sign_def)
  obtain a vm' where "getNewID_named (actName i) 0 (cc_vars c) = Inr (a, vm')"
    using getNewID_named_wp[OF vm True z, of "actName i"] by (auto simp: wp_iff)
  moreover have "map_of (db_clauses (cc_db c)) i \<noteq> None" using assms(2) by (auto simp: cc_map_def)
  ultimately show ?thesis
    by (auto simp: cc_addClause_def bindS_def thenS_def zoomS_def db_addClause_def db_addClauseData_def getS_def assertS_def)
next
  case False
  then show ?thesis by (simp add: cc_addClause_def bindS_def zoomS_def getNewID_full)
qed

lemma mis_addClauses_wrap:
  assumes "2 ^ 32 \<le> length pf" "length pf < 2 ^ 64" "\<forall>d\<in>set pf. clause_ok t d" "pc \<notin> set pf"
  shows "cc_inv t c \<Longrightarrow> room (k + m) (cc_vars c) \<Longrightarrow> m \<le> 2 ^ 32 \<Longrightarrow> cc_map c = id_map (take (2 ^ 32 - m) pf) \<Longrightarrow> m < fuel
    \<Longrightarrow> mis_addClauses pc pf fuel (of_nat (2 ^ 32 - m)) property vec c = Inl AssertFail"
proof (induction m arbitrary: c fuel vec)
  case 0
  obtain f where f: "fuel = Suc f" using 0 by (cases fuel) auto
  have z: "(of_nat (2 ^ 32 - 0) :: 32 word) = 0" by simp
  have ne: "pf \<noteq> []" using assms(1) by auto
  have "cc_map c 0 \<noteq> None" using ne 0 assms(1) by (simp add: id_map_def)
  then have "cc_addClause 0 (pf ! 0) c = Inl AssertFail" by (rule cc_addClause_again[OF 0(1)])
  then show ?case unfolding z f using ne by (simp add: Let_def thenS_def bindS_def)
next
  case (Suc m)
  define j where "j = 2 ^ 32 - Suc m"
  obtain f where f: "fuel = Suc f" "m < f" using Suc.prems by (cases fuel) auto
  have j: "j < 2 ^ 32" "Suc j = 2 ^ 32 - m" using Suc.prems(3) by (auto simp: j_def)
  have jl: "j < length pf" using j(1) assms(1) by linarith
  note ix = index_32[OF j(1)]
  have u: "unat (of_nat j :: 64 word) = j" using j(1) by (simp add: unat_of_nat)
  have lt: "length (take j pf) = j" using jl by simp
  have new: "cc_map c (of_nat j) = None" using u Suc.prems(4) lt by (simp add: id_map_def j_def)
  have dok: "clause_ok t (pf ! j)" "pf ! j \<noteq> pc" using assms(3,4) jl by (metis nth_mem)+
  have r: "room (Suc (k + m)) (cc_vars c)" using Suc.prems(2) by simp
  obtain c1 where c1: "cc_addClause (of_nat j) (pf ! j) c = Inr ((), c1)" "cc_inv t c1" "room (k + m) (cc_vars c1)"
      "cc_map c1 = (cc_map c)(of_nat j \<mapsto> sort (pf ! j))"
    using cc_addClause_wp[OF Suc.prems(1) r dok(1) new] by (auto simp: wp_iff)
  have "length (take j pf) < 2 ^ 64" using lt j(1) by simp
  from id_map_snoc[OF this, of "pf ! j"] have "cc_map c1 = id_map (take (2 ^ 32 - m) pf)"
    unfolding c1(4) Suc.prems(4) j_def[symmetric] j(2)[symmetric] take_Suc_conv_app_nth[OF jl] lt by (rule sym)
  then have "mis_addClauses pc pf f (of_nat (2 ^ 32 - m)) property (vec @ [of_nat j]) c1 = Inl AssertFail"
    using Suc.IH[OF c1(2,3)] Suc.prems(3) f(2) by simp
  then show ?case
    unfolding f j_def[symmetric] mis_addClauses.simps ix Let_def using jl dok(2) c1(1) j(2)
    by (simp add: thenS_def bindS_def)
qed

lemma consec_sort: "consec t (sort ` Cs) (sort d) = consec t Cs d"
proof -
  have "clause_sat s (sort d) = clause_sat s d" for s d by (simp add: clause_sat_def)
  then show ?thesis by (simp add: consec_def)
qed

lemma id_map_ind:
  assumes c: "cc_map c = id_map pf" and len: "length pf < 2 ^ 64" and p: "unat p < length pf"
  shows "(\<exists>I. I \<subseteq> set (map of_nat [0..<length pf]) \<and> safe_ind (cc_rel t c) {p} I)
    \<longleftrightarrow> (\<exists>Cs\<subseteq>set pf. pf ! unat p \<in> Cs \<and> (\<forall>d\<in>Cs. consec t Cs d))"
proof
  assume "\<exists>I. I \<subseteq> set (map of_nat [0..<length pf]) \<and> safe_ind (cc_rel t c) {p} I"
  then obtain I where I: "I \<subseteq> set (map of_nat [0..<length pf])" "p \<in> I" "\<forall>i\<in>I. cc_rel t c I i"
    by (auto simp: safe_ind_def ind_set_def)
  let ?Cs = "(\<lambda>i. pf ! unat i) ` I"
  have lt: "unat i < length pf" if "i \<in> I" for i
    using I(1) that len by (auto simp: unat_of_nat)
  have cs: "cc_set c I = sort ` ?Cs" using lt by (force simp: cc_set_def c id_map_def image_iff)
  have "consec t ?Cs (pf ! unat i)" if "i \<in> I" for i
  proof -
    have "consec t (cc_set c I) (sort (pf ! unat i))" using I(3) that lt[OF that] by (auto simp: cc_rel_def c id_map_def)
    then show ?thesis by (simp only: cs consec_sort)
  qed
  then show "\<exists>Cs\<subseteq>set pf. pf ! unat p \<in> Cs \<and> (\<forall>d\<in>Cs. consec t Cs d)"
    using lt I(2) by (intro exI[of _ ?Cs]) auto
next
  assume "\<exists>Cs\<subseteq>set pf. pf ! unat p \<in> Cs \<and> (\<forall>d\<in>Cs. consec t Cs d)"
  then obtain Cs where Cs: "Cs \<subseteq> set pf" "pf ! unat p \<in> Cs" "\<forall>d\<in>Cs. consec t Cs d" by blast
  let ?I = "{i :: clauseID. unat i < length pf \<and> pf ! unat i \<in> Cs}"
  have sub: "?I \<subseteq> set (map of_nat [0..<length pf])"
  proof
    fix i :: clauseID assume "i \<in> ?I"
    then show "i \<in> set (map of_nat [0..<length pf])" by (auto intro!: image_eqI[of _ _ "unat i"])
  qed
  have "sort ` Cs \<subseteq> cc_set c ?I"
  proof
    fix x assume "x \<in> sort ` Cs"
    then obtain d where d: "d \<in> Cs" "x = sort d" by blast
    then obtain k where k: "k < length pf" "pf ! k = d" using Cs(1) by (metis in_set_conv_nth subsetD)
    then have "unat (of_nat k :: 64 word) = k" using len by (simp add: unat_of_nat)
    then show "x \<in> cc_set c ?I" using d k by (auto simp: cc_set_def c id_map_def intro!: exI[of _ "of_nat k"])
  qed
  moreover have "cc_set c ?I \<subseteq> sort ` Cs" by (auto simp: cc_set_def c id_map_def)
  ultimately have cs: "cc_set c ?I = sort ` Cs" by simp
  have "cc_rel t c ?I i" if "i \<in> ?I" for i
  proof -
    have "consec t (cc_set c ?I) (sort (pf ! unat i))" unfolding cs consec_sort using Cs(3) that by blast
    then show ?thesis using that by (simp add: cc_rel_def c id_map_def)
  qed
  then have "safe_ind (cc_rel t c) {p} ?I" using Cs(2) p by (auto simp: safe_ind_def ind_set_def)
  then show "\<exists>I. I \<subseteq> set (map of_nat [0..<length pf]) \<and> safe_ind (cc_rel t c) {p} I" using sub by blast
qed

context sat_backend
begin

lemma findSafeMISproof_wp:
  assumes wf: "tr_wf t" and sat: "live opt t" and vm: "vm_inv vm" "vm_owns vm t" "room (k + length pf) vm"
    and ok: "\<forall>d\<in>set pf. clause_ok t d" and len: "length pf < 2 ^ 32" and one: "count_list pf (tr_propertyClause t) = 1"
  shows "wp (findSafeMISproof B opt t pf) (\<lambda>r vm'. vm_inv vm' \<and> room k vm'
     \<and> (r \<longleftrightarrow> (\<exists>Cs\<subseteq>set pf. tr_propertyClause t \<in> Cs \<and> (\<forall>d\<in>Cs. consec t Cs d)))) vm"
proof -
  let ?pc = "tr_propertyClause t"
  let ?vec = "map of_nat [0..<length pf] :: clauseID list"
  have pin: "?pc \<in> set pf" using one by (metis count_list_0_iff zero_neq_one)
  have len64: "length pf < 2 ^ 64" using len by simp
  have u: "unat (of_nat (length pf) :: 64 word) = length pf" using len64 by (simp add: unat_of_nat)
  have dv: "distinct ?vec"
    unfolding distinct_map using len64 by (auto intro!: inj_onI dest!: arg_cong[where f = unat] simp: unat_of_nat)
  let ?go = "bindS (mis_addClauses ?pc pf (length pf + 1) 0 (of_nat (length pf)) [])
        (\<lambda>(property, vec). thenS (assertS (property < of_nat (length pf))) (findSafeMISproperty B opt vec property))"
  have inner: "wp ?go
      (\<lambda>(r, vec) c'. cc_inv t c' \<and> room k (cc_vars c') \<and> (r \<longleftrightarrow> (\<exists>Cs\<subseteq>set pf. ?pc \<in> Cs \<and> (\<forall>d\<in>Cs. consec t Cs d)))) c"
    if c: "cc_inv t c" "cc_map c = Map.empty" "cc_vars c = vm" for c
    unfolding wp_bindS
  proof (rule wp_mono[OF mis_addClauses_wp[OF c(1), of k pf "[]", simplified]], goal_cases)
    case 1 show ?case using vm(3) c(3) by simp
  next
    case 2 show ?case using ok by simp
  next
    case 3 show ?case using c(2) by (auto simp: id_map_def)
  next
    case 4 show ?case using len by simp
  next
    case 5 show ?case using one by simp
  next
    case 6 show ?case by simp
  next
    case 7 show ?case by simp
  next
    case (8 q c1)
    obtain p vec where q: "q = (p, vec)" by (cases q)
    have c1: "cc_inv t c1" "room k (cc_vars c1)" "cc_map c1 = id_map pf" "unat p < length pf" "pf ! unat p = ?pc" "vec = ?vec"
      using 8 pin by (simp_all add: q)
    have dom: "set ?vec \<subseteq> dom (cc_map c1)" using c1(3) len by (auto simp: id_map_def unat_of_nat)
    have lt: "p < of_nat (length pf)" using c1(4) u by (simp add: word_less_nat_alt)
    show ?case
      unfolding findSafeMISproperty_def q prod.case wp_thenS wp_assertS c1(6)
    proof (rule conjI[OF lt], rule wp_mono[OF findSafeMIS_wp[OF wf sat c1(1) dv dom, of "[p]"]])
      fix a c' assume a: "mis_post t c1 [p] ?vec a c'"
      have "{p} \<subseteq> max_ind (cc_rel t c1) (set ?vec) \<longleftrightarrow> (\<exists>Cs\<subseteq>set pf. ?pc \<in> Cs \<and> (\<forall>d\<in>Cs. consec t Cs d))"
        unfolding cc.safe_max id_map_ind[OF c1(3) len64 c1(4), of t] c1(5) ..
      then show "(case a of (r, vec) \<Rightarrow> \<lambda>c'. cc_inv t c' \<and> room k (cc_vars c')
           \<and> (r \<longleftrightarrow> (\<exists>Cs\<subseteq>set pf. ?pc \<in> Cs \<and> (\<forall>d\<in>Cs. consec t Cs d)))) c'"
        using a c1(2) by (cases a) (simp add: mis_post_def cc_keep_def)
    qed
  qed
  obtain c where c: "cc_new vm t = Inr c" "cc_inv t c" "cc_map c = Map.empty" "cc_vars c = vm"
    using cc_new_wp[OF vm(1,2)] by (auto simp: wpr_iff)
  note i = inner[OF c(2-4), unfolded wp_iff]
  from i obtain r v c' where r: "?go c = Inr ((r, v), c')"
      "cc_inv t c'" "room k (cc_vars c')" "r \<longleftrightarrow> (\<exists>Cs\<subseteq>set pf. ?pc \<in> Cs \<and> (\<forall>d\<in>Cs. consec t Cs d))"
    by (elim exE conjE) (case_tac a, simp)
  have "findSafeMISproof B opt t pf vm = Inr (r, cc_vars c')"
    unfolding findSafeMISproof_def c(1) bindR_simps by (simp only: r(1)[unfolded tr_propertyClause_def] bindR_simps split)
  then show ?thesis using r(2-4) by (simp add: wp_iff cc_inv_def)
qed

end

lemma findSafeMISproof_missing:
  assumes "vm_inv vm" "vm_owns vm t" "room (k + length pf) vm" "\<forall>d\<in>set pf. clause_ok t d" "length pf < 2 ^ 64"
    and "tr_propertyClause t \<notin> set pf"
  shows "findSafeMISproof B opt t pf vm = Inl AssertFail"
proof -
  let ?pc = "tr_propertyClause t"
  obtain c where c: "cc_new vm t = Inr c" "cc_inv t c" "cc_map c = Map.empty" "cc_vars c = vm"
    using cc_new_wp[OF assms(1,2)] by (auto simp: wpr_iff)
  have new: "cc_map c = id_map []" using c(3) by (auto simp: id_map_def)
  show ?thesis
  proof (cases "length pf < 2 ^ 32")
    case True
    have *: "wp (mis_addClauses ?pc ([] @ pf) (length pf + 1) (of_nat (length ([] :: clauseVec))) (of_nat (length pf)) (map of_nat [0..<length ([] :: clauseVec)]))
       (\<lambda>(p, vec) c'. p = of_nat (length pf)) c"
      by (rule wp_mono[OF mis_addClauses_wp[OF c(2), of k]])
        (use assms c new True in \<open>auto simp: count_list_0_iff\<close>)
    then obtain vec c' where "mis_addClauses ?pc pf (length pf + 1) 0 (of_nat (length pf)) [] c
        = Inr ((of_nat (length pf), vec), c')" using *[unfolded wp_iff] by (auto simp del: mis_addClauses.simps)
    then show ?thesis
      using c(1) by (simp add: findSafeMISproof_def bindS_def thenS_def assertS_def tr_propertyClause_def del: mis_addClauses.simps)
  next
    case False
    then have big: "2 ^ 32 \<le> length pf" by simp
    have "mis_addClauses ?pc pf (length pf + 1) (of_nat (2 ^ 32 - 2 ^ 32)) (of_nat (length pf)) [] c = Inl AssertFail"
      by (rule mis_addClauses_wrap[OF big assms(5,4,6) c(2), where k = 0])
        (use assms(3) c(4) new big in \<open>auto intro: room_mono\<close>)
    then show ?thesis
      using c(1) by (simp add: findSafeMISproof_def bindS_def tr_propertyClause_def del: mis_addClauses.simps)
  qed
qed

subsection \<open>The support that is found\<close>

lemma upper_bound_rest:
  assumes "sorted xs" "distinct xs"
  shows "length xs - upper_bound xs x = card {y \<in> set xs. x < y}" "upper_bound xs x \<le> length xs"
proof -
  have t: "takeWhile (\<lambda>y. y \<le> x) xs = filter (\<lambda>y. y \<le> x) xs" using assms(1)
    by (induction xs) (auto simp: filter_empty_conv intro!: filter_False[symmetric] dest: order_trans)
  have "length xs = length (filter (\<lambda>y. y \<le> x) xs) + length (filter (\<lambda>y. x < y) xs)"
    using sum_length_filter_compl[of "\<lambda>y. y \<le> x" xs] by (simp add: not_le)
  moreover have "length (filter (\<lambda>y. x < y) xs) = card {y \<in> set xs. x < y}"
    using distinct_card[of "filter (\<lambda>y. x < y) xs"] assms(2) by simp
  ultimately show "length xs - upper_bound xs x = card {y \<in> set xs. x < y}" by (simp add: upper_bound_def t)
  show "upper_bound xs x \<le> length xs" by (simp add: upper_bound_def length_takeWhile_le)
qed

lemma sorted_above:
  assumes "sorted xs" "i < length xs"
  shows "card {y \<in> set xs. xs ! i < y} \<le> length xs - Suc i"
proof -
  have "{y \<in> set xs. xs ! i < y} \<subseteq> set (drop (Suc i) xs)"
  proof
    fix y assume y: "y \<in> {y \<in> set xs. xs ! i < y}"
    then obtain j where j: "j < length xs" "y = xs ! j" by (auto simp: in_set_conv_nth)
    have "Suc i \<le> j" using y j sorted_nth_mono[OF assms(1), of j i] assms(2) by (metis (no_types, lifting) leD leI mem_Collect_eq not_less_eq_eq)
    then show "y \<in> set (drop (Suc i) xs)" using j by (auto simp: in_set_conv_nth intro!: exI[of _ "j - Suc i"])
  qed
  then have "card {y \<in> set xs. xs ! i < y} \<le> card (set (drop (Suc i) xs))" by (intro card_mono) auto
  also have "\<dots> \<le> length xs - Suc i" using card_length[of "drop (Suc i) xs"] by simp
  finally show ?thesis .
qed

definition support_post :: "anyTR \<Rightarrow> consecChecker \<Rightarrow> clause \<Rightarrow> clauseID list \<Rightarrow> clauseID list \<Rightarrow> consecChecker \<Rightarrow> bool" where
  "support_post t c cls frame s c' = (cc_inv t c' \<and> cc_keep c c' \<and> set s \<subseteq> set frame \<and> length s \<le> length frame
     \<and> (if consec t (cc_set c (set frame)) cls then consec t (cc_set c (set s)) cls else s = frame))"

context sat_backend
begin

lemma support_loop_wp:
  assumes wf: "tr_wf t" and sat: "live opt t" and cl: "clause_ok t cls"
  shows "cc_inv t c \<Longrightarrow> sorted frame \<Longrightarrow> set frame \<subseteq> dom (cc_map c) \<Longrightarrow> length frame - i \<le> fuel
    \<Longrightarrow> wp (support_loop B opt cls fuel frame i) (support_post t c cls frame) c"
proof (induction fuel arbitrary: c frame i)
  case 0
  then show ?case by (simp add: support_post_def)
next
  case (Suc fuel)
  note inv = Suc.prems(1) and so = Suc.prems(2) and kn = Suc.prems(3)
  show ?case
  proof (cases "i < length frame")
    case False
    then show ?thesis using inv by (simp add: support_post_def)
  next
    case True
    let ?x = "frame ! i"
    have "wp (cc_supportSolve B opt frame cls []) (\<lambda>(r, support). wp
         (if r then thenS (assertS (length support \<le> length frame))
            (support_loop B opt cls fuel (sort support) (upper_bound (sort support) ?x))
          else support_loop B opt cls fuel frame (i + 1)) (support_post t c cls frame)) c"
    proof (rule wp_mono[OF cc_supportSolve_wp[OF wf inv sat kn cl]], goal_cases)
      case (1 p c1)
      obtain r s where p: "p = (r, s)" by (cases p)
      have c1: "cc_inv t c1" "cc_same c c1" "r \<longleftrightarrow> consec t (cc_set c (set frame)) cls"
        "r \<longrightarrow> set s \<subseteq> set frame \<and> distinct s \<and> consec t (cc_set c (set s)) cls" using 1 by (auto simp: p)
      note keep = cc_same_keep[OF c1(2)]
      note eqs = cc_keep_eqs[OF keep]
      show ?case
      proof (cases r)
        case True
        then have s: "set s \<subseteq> set frame" "distinct s" "consec t (cc_set c (set s)) cls" using c1(4) by simp_all
        have len: "length s \<le> length frame"
          using s(1,2) by (metis List.finite_set card_length card_mono distinct_card order_trans)
        moreover have "length (sort s) - upper_bound (sort s) ?x \<le> fuel"
        proof -
          have "length (sort s) - upper_bound (sort s) ?x = card {y \<in> set s. ?x < y}"
            using upper_bound_rest(1)[of "sort s" ?x] s(2) by simp
          also have "\<dots> \<le> card {y \<in> set frame. ?x < y}" using s(1) by (intro card_mono) auto
          also have "\<dots> \<le> length frame - Suc i" by (rule sorted_above[OF so \<open>i < length frame\<close>])
          finally show ?thesis using Suc.prems(4) by simp
        qed
        moreover have "wp (support_loop B opt cls fuel (sort s) (upper_bound (sort s) ?x)) (support_post t c1 cls (sort s)) c1"
          by (rule Suc.IH) (use c1(1) s(1) kn eqs(1) calculation in auto)
        then have "wp (support_loop B opt cls fuel (sort s) (upper_bound (sort s) ?x)) (support_post t c cls frame) c1"
          by (rule wp_mono) (use s len c1(3) True eqs cc_keep_trans[OF keep] in \<open>auto simp: support_post_def\<close>)
        ultimately show ?thesis using True by (simp add: p)
      next
        case False
        have "wp (support_loop B opt cls fuel frame (i + 1)) (support_post t c1 cls frame) c1"
          by (rule Suc.IH) (use c1(1) so kn eqs(1) Suc.prems(4) in auto)
        then have "wp (support_loop B opt cls fuel frame (i + 1)) (support_post t c cls frame) c1"
          by (rule wp_mono) (use eqs cc_keep_trans[OF keep] in \<open>auto simp: support_post_def\<close>)
        then show ?thesis using False by (simp add: p)
      qed
    qed
    then show ?thesis using True by (simp add: Let_def split_def)
  qed
qed

lemma findMinimalSupport_wp:
  assumes wf: "tr_wf t" and inv: "cc_inv t c" and sat: "live opt t" and cl: "clause_ok t cls" and kn: "set frame \<subseteq> dom (cc_map c)"
  shows "wp (findMinimalSupport B opt frame cls) (\<lambda>s c'. cc_inv t c' \<and> cc_keep c c' \<and> set s \<subseteq> set frame \<and> length s \<le> length frame
     \<and> (if consec t (cc_set c (set frame)) cls then consec t (cc_set c (set s)) cls else s = sort frame)) c"
  unfolding findMinimalSupport_def
  by (rule wp_mono[OF support_loop_wp[OF wf sat cl inv]]) (use kn in \<open>auto simp: support_post_def\<close>)

lemma findMinimalSupportID_wp:
  assumes wf: "tr_wf t" and inv: "cc_inv t c" and sat: "live opt t" and kn: "set frame \<subseteq> dom (cc_map c)" "i \<in> dom (cc_map c)"
  shows "wp (findMinimalSupportID B opt frame i) (\<lambda>s c'. cc_inv t c' \<and> cc_keep c c' \<and> set s \<subseteq> set frame \<and> length s \<le> length frame
     \<and> (if cc_rel t c (set frame) i then cc_rel t c (set s) i else s = sort frame)) c"
proof -
  obtain d where d: "cc_clauseOf c i = Inr d" "cc_map c i = Some d" "clause_ok t d" using cc_clauseOf_known[OF inv kn(2)] .
  show ?thesis
    unfolding findMinimalSupportID_def wp_bindS wp_getS wp_liftS d(1) wpr_Inr
    by (rule wp_mono[OF findMinimalSupport_wp[OF wf inv sat d(3) kn(1)]]) (auto simp: cc_rel_def d(2))
qed

end
end
