(* ===== verification/Sisi.thy ===== *)
theory Sisi
  imports FindMis
begin

text \<open>
  The class \<open>SISI\<close> of \<open>src/src/pme/minimization/sisi.{h,cpp}\<close>: search for a minimal safe inductive
  set of clauses, by a set of clauses known to be necessary and a set known to contain a safe
  inductive one.  The checker the object refers to is a field of its state; a \<open>std::set\<close> is a set
  that is iterated in increasing order.
\<close>

record sisi =
  si_solver :: consecChecker
  si_nec :: "clauseID set"
  si_feas :: "clauseID set"
  si_all :: "clauseID list"

definition si_new :: "consecChecker \<Rightarrow> sisi" where
  "si_new c = \<lparr>si_solver = c, si_nec = {}, si_feas = {}, si_all = []\<rparr>"

definition si_onSolver :: "(consecChecker, 'a) sm \<Rightarrow> (sisi, 'a) sm" where
  "si_onSolver m = zoomS si_solver (\<lambda>c s. s\<lparr>si_solver := c\<rparr>) m"

definition si_addToFEAS :: "clauseID \<Rightarrow> (sisi, unit) sm" where
  "si_addToFEAS i = modifyS (\<lambda>s. s\<lparr>si_feas := insert i (si_feas s)\<rparr>)"

definition si_addToNEC :: "clauseID \<Rightarrow> (sisi, unit) sm" where
  "si_addToNEC i = modifyS (\<lambda>s. s\<lparr>si_nec := insert i (si_nec s)\<rparr>)"

definition si_addClause :: "clauseID \<Rightarrow> (sisi, unit) sm" where
  "si_addClause i = modifyS (\<lambda>s. s\<lparr>si_all := si_all s @ [i]\<rparr>)"

definition si_sizeNEC :: "sisi \<Rightarrow> nat" where "si_sizeNEC s = card (si_nec s)"
definition si_sizeFEAS :: "sisi \<Rightarrow> nat" where "si_sizeFEAS s = card (si_feas s)"

definition si_findSIS :: "backend \<Rightarrow> bool \<Rightarrow> clauseID list \<Rightarrow> (sisi, bool \<times> clauseID list) sm" where
  "si_findSIS B opt vec = bindS getS (\<lambda>s. si_onSolver (findSafeMIS B opt vec (sorted_list_of_set (si_nec s))))"

definition si_minimizeSupport :: "backend \<Rightarrow> bool \<Rightarrow> clauseID list \<Rightarrow> clauseID \<Rightarrow> (sisi, clauseID list) sm" where
  "si_minimizeSupport B opt vec cls = bindS (si_onSolver (findMinimalSupportID B opt vec cls)) (\<lambda>minsupp.
     thenS (assertS (length minsupp \<le> length vec)) (retS minsupp))"

text \<open>\<open>refineNEC\<close> iterates over a set that does not change while it does.\<close>

definition refine_one :: "backend \<Rightarrow> bool \<Rightarrow> clauseID list \<Rightarrow> clauseID \<Rightarrow> (sisi, unit) sm" where
  "refine_one B opt feas i = bindS getS (\<lambda>s. if i \<in> si_nec s then retS ()
     else bindS (si_findSIS B opt (removeAll i feas)) (\<lambda>(r, v). if \<not> r then si_addToNEC i else retS ()))"

definition si_refineNEC :: "backend \<Rightarrow> bool \<Rightarrow> (sisi, unit) sm" where
  "si_refineNEC B opt = bindS getS (\<lambda>s. thenS (assertS (si_feas s \<noteq> {}))
     (let feas = sorted_list_of_set (si_feas s) in iterS (refine_one B opt feas) feas))"

text \<open>The two nested loops of \<open>refineFEAS\<close>: \<open>i\<close> is the position of the iterator, past the end the
  condition of the outer loop is tested.  The iterator is set to the first element and then
  incremented when the set has grown.\<close>

fun feas_loop :: "backend \<Rightarrow> bool \<Rightarrow> nat \<Rightarrow> clauseID set \<Rightarrow> clauseID list \<Rightarrow> nat \<Rightarrow> (sisi, unit) sm" where
  "feas_loop B opt 0 known feas_vec i = failS Diverges"
| "feas_loop B opt (Suc fuel) known feas_vec i = bindS getS (\<lambda>s.
     let feas = sorted_list_of_set (si_feas s) in
     if i < length feas then
       let cls = feas ! i in
       if cls \<in> known then feas_loop B opt fuel known feas_vec (i + 1)
       else bindS (si_onSolver (cc_solveID B opt feas_vec cls)) (\<lambda>ind.
         if ind then feas_loop B opt fuel (insert cls known) feas_vec (i + 1)
         else bindS (si_onSolver (cc_supportSolveID B opt (si_all s) cls [])) (\<lambda>(b, support).
           bindS (si_minimizeSupport B opt support cls) (\<lambda>support.
           thenS (modifyS (\<lambda>s. s\<lparr>si_feas := si_feas s \<union> set support\<rparr>)) (bindS getS (\<lambda>s'.
           thenS (assertS (card (si_feas s') > card (si_feas s)))
             (feas_loop B opt fuel (insert cls known) (sorted_list_of_set (si_feas s')) 1))))))
     else if card known < card (si_feas s) then feas_loop B opt fuel known feas_vec 0 else retS ())"

definition feas_fuel :: "nat \<Rightarrow> nat" where
  "feas_fuel n = (n + 1) * (2 * n + 4)"

definition si_refineFEAS :: "backend \<Rightarrow> bool \<Rightarrow> (sisi, unit) sm" where
  "si_refineFEAS B opt = bindS getS (\<lambda>s. thenS (assertS (si_nec s \<noteq> {}))
     (thenS (modifyS (\<lambda>s. s\<lparr>si_feas := si_nec s\<rparr>))
       (feas_loop B opt (feas_fuel (length (si_all s))) {} (sorted_list_of_set (si_nec s)) 0)))"

text \<open>Dereferencing the iterator past the end is undefined.\<close>

function brute_loop :: "backend \<Rightarrow> bool \<Rightarrow> clauseID list \<Rightarrow> clauseID set \<Rightarrow> nat \<Rightarrow> (sisi, clauseID set) sm" where
  "brute_loop B opt feas keep i s = (if card keep < length feas then
     if i < length feas then
       if feas ! i \<in> keep then brute_loop B opt feas keep (i + 1) s
       else bindS (si_findSIS B opt (removeAll (feas ! i) feas)) (\<lambda>p s1. case p of (r, test_feas) \<Rightarrow>
         if r then if length test_feas < length feas then brute_loop B opt test_feas keep 0 s1 else failS AssertFail s1
         else brute_loop B opt feas (insert (feas ! i) keep) (i + 1) s1) s
     else failS Undefined s
     else retS keep s)"
  by pat_completeness auto
termination
  by (relation "measures [\<lambda>(B, opt, feas, keep, i, s). length feas, \<lambda>(B, opt, feas, keep, i, s). length feas - i]") auto

declare brute_loop.simps [simp del]

definition si_bruteForceMinimize :: "backend \<Rightarrow> bool \<Rightarrow> (sisi, clauseID list) sm" where
  "si_bruteForceMinimize B opt = bindS getS (\<lambda>s. bindS (brute_loop B opt (sorted_list_of_set (si_feas s)) (si_nec s) 0)
     (\<lambda>keep. retS (sorted_list_of_set keep)))"

function minimal_loop :: "backend \<Rightarrow> bool \<Rightarrow> clauseID list \<Rightarrow> clauseID set \<Rightarrow> nat \<Rightarrow> (sisi, bool) sm" where
  "minimal_loop B opt feas keep i s = (if card keep < length feas then
     if i < length feas then
       if feas ! i \<in> keep then minimal_loop B opt feas keep (i + 1) s
       else bindS (si_findSIS B opt (removeAll (feas ! i) feas)) (\<lambda>p s1. case p of (r, test_feas) \<Rightarrow>
         if r then if length test_feas < length feas then retS False s1 else failS AssertFail s1
         else minimal_loop B opt feas (insert (feas ! i) keep) (i + 1) s1) s
     else failS Undefined s
     else retS True s)"
  by pat_completeness auto
termination
  by (relation "measure (\<lambda>(B, opt, feas, keep, i, s). length feas - i)") auto

declare minimal_loop.simps [simp del]

definition si_isMinimal :: "backend \<Rightarrow> bool \<Rightarrow> (sisi, bool) sm" where
  "si_isMinimal B opt = bindS getS (\<lambda>s. minimal_loop B opt (sorted_list_of_set (si_feas s)) (si_nec s) 0)"

subsection \<open>What the searches find\<close>

text \<open>The relation is the one of the checker \<open>c\<close> the object was given; later queries keep its
  clauses.\<close>

definition si_ok :: "anyTR \<Rightarrow> consecChecker \<Rightarrow> sisi \<Rightarrow> bool" where
  "si_ok t c s = (cc_inv t (si_solver s) \<and> cc_keep c (si_solver s) \<and> si_nec s \<subseteq> si_feas s \<and> si_feas s \<subseteq> set (si_all s)
     \<and> set (si_all s) \<subseteq> dom (cc_map c))"

definition si_sets :: "sisi \<Rightarrow> sisi \<Rightarrow> bool" where
  "si_sets s s' = (si_nec s' = si_nec s \<and> si_feas s' = si_feas s \<and> si_all s' = si_all s)"

lemma wp_si_onSolver [simp]: "wp (si_onSolver m) Q = (\<lambda>s. wp m (\<lambda>a c. Q a (s\<lparr>si_solver := c\<rparr>)) (si_solver s))"
  by (simp add: si_onSolver_def)

lemma si_ok_finite:
  assumes "si_ok t c s"
  shows "finite (si_nec s)" "finite (si_feas s)" "si_feas s \<subseteq> dom (cc_map c)"
proof -
  show f: "finite (si_feas s)" using assms by (auto simp: si_ok_def intro: finite_subset)
  show "finite (si_nec s)" using assms f by (auto simp: si_ok_def intro: finite_subset)
  show "si_feas s \<subseteq> dom (cc_map c)" using assms by (auto simp: si_ok_def)
qed

lemma si_ok_sets: "si_ok t c s \<Longrightarrow> si_sets s s' \<Longrightarrow> cc_inv t (si_solver s') \<Longrightarrow> cc_keep c (si_solver s') \<Longrightarrow> si_ok t c s'"
  by (simp add: si_ok_def si_sets_def)

context sat_backend
begin

lemma si_findSIS_wp:
  assumes wf: "tr_wf t" and sat: "live opt t" and ok: "si_ok t c s" and vec: "distinct vec" "set vec \<subseteq> dom (cc_map c)"
  shows "wp (si_findSIS B opt vec) (\<lambda>(r, v) s'. si_ok t c s' \<and> si_sets s s' \<and> distinct v \<and> set v \<subseteq> set vec
     \<and> (r \<longleftrightarrow> si_nec s \<subseteq> max_ind (cc_rel t c) (set vec)) \<and> (r \<longrightarrow> set v = max_ind (cc_rel t c) (set vec))) s"
proof -
  have i: "cc_inv t (si_solver s)" "cc_keep c (si_solver s)" using ok by (simp_all add: si_ok_def)
  note eqs = cc_keep_eqs[OF i(2)]
  have k: "set vec \<subseteq> dom (cc_map (si_solver s))" using vec(2) eqs(1) by simp
  show ?thesis
    unfolding si_findSIS_def wp_bindS wp_getS wp_si_onSolver
  proof (rule wp_mono[OF findSafeMIS_wp[OF wf sat i(1) vec(1) k]], goal_cases)
    case (1 a c')
    then show ?case
      using si_ok_finite(1)[OF ok] ok eqs cc_keep_trans[OF i(2), of c']
      by (cases a) (auto simp: mis_post_def si_sets_def si_ok_def)
  qed
qed

lemma si_refineNEC_wp:
  assumes wf: "tr_wf t" and sat: "live opt t" and ok: "si_ok t c s" and ne: "si_feas s \<noteq> {}"
    and need: "cc.all_need t c (si_feas s) base (si_nec s)"
  shows "wp (si_refineNEC B opt) (\<lambda>_ s'. si_ok t c s' \<and> si_feas s' = si_feas s \<and> si_all s' = si_all s \<and> si_nec s \<subseteq> si_nec s'
     \<and> cc.all_need t c (si_feas s) base (si_nec s')) s"
proof -
  let ?F = "sorted_list_of_set (si_feas s)"
  let ?I = "\<lambda>s'. si_ok t c s' \<and> si_feas s' = si_feas s \<and> si_all s' = si_all s \<and> si_nec s \<subseteq> si_nec s'
     \<and> cc.all_need t c (si_feas s) base (si_nec s')"
  have F: "set ?F = si_feas s" "distinct ?F" using si_ok_finite(2)[OF ok] by simp_all
  have step: "wp (refine_one B opt ?F i) (\<lambda>_. ?I) s1" if i: "i \<in> si_feas s" and s1: "?I s1" for i s1
  proof (cases "i \<in> si_nec s1")
    case True
    then show ?thesis using s1 by (simp add: refine_one_def)
  next
    case False
    have v: "distinct (removeAll i ?F)" by (rule distinct_removeAll[OF F(2)])
    have vs: "set (removeAll i ?F) \<subseteq> dom (cc_map c)" "set (removeAll i ?F) = si_feas s - {i}"
      using F(1) si_ok_finite(3)[OF ok] by auto
    have ok1: "si_ok t c s1" using s1 by simp
    have "wp (si_findSIS B opt (removeAll i ?F)) (\<lambda>(r, v). wp (if \<not> r then si_addToNEC i else retS ()) (\<lambda>_. ?I)) s1"
    proof (rule wp_mono[OF si_findSIS_wp[OF wf sat ok1 v vs(1)]], goal_cases)
      case (1 p s2)
      obtain r w where p: "p = (r, w)" by (cases p)
      have s2: "si_ok t c s2" "si_sets s1 s2" "r \<longleftrightarrow> si_nec s1 \<subseteq> max_ind (cc_rel t c) (si_feas s - {i})"
        using 1 unfolding p vs(2) by auto
      show ?case
      proof (cases r)
        case True
        then show ?thesis using s1 s2(1,2) by (simp add: p si_sets_def)
      next
        case False
        then have "cc.all_need t c (si_feas s) base (insert i (si_nec s1))"
          using s1 s2(3) cc.all_need_insert by blast
        then show ?thesis using False s1 s2(1,2) i by (auto simp: p si_addToNEC_def si_sets_def si_ok_def)
      qed
    qed
    then show ?thesis using False by (simp add: refine_one_def split_def)
  qed
  have "wp (iterS (refine_one B opt ?F) ?F) (\<lambda>_. ?I) s"
    by (rule wp_iterS[where I = "\<lambda>_. ?I"]) (use step F(1) ok need in auto)
  then show ?thesis using ne by (simp add: si_refineNEC_def Let_def)
qed

lemma brute_loop_wp:
  assumes wf: "tr_wf t" and sat: "live opt t"
  shows "si_ok t c s \<Longrightarrow> distinct feas \<Longrightarrow> set feas \<subseteq> dom (cc_map c) \<Longrightarrow> si_nec s = nec \<Longrightarrow> nec \<subseteq> keep \<Longrightarrow> keep \<subseteq> set feas
    \<Longrightarrow> (\<forall>x\<in>keep - nec. \<not> nec \<subseteq> max_ind (cc_rel t c) (set feas - {x})) \<Longrightarrow> nec \<subseteq> max_ind (cc_rel t c) (set feas)
    \<Longrightarrow> (\<forall>j<i. j < length feas \<longrightarrow> feas ! j \<in> keep)
    \<Longrightarrow> wp (brute_loop B opt feas keep i) (\<lambda>K s'. si_ok t c s' \<and> si_sets s s' \<and> K \<subseteq> set feas \<and> min_safe_ind (cc_rel t c) nec K) s"
proof (induction "(feas, keep, i, s)" arbitrary: feas keep i s rule: measure_induct_2[where f = "\<lambda>(feas, keep, i, s). length feas" and g = "\<lambda>(feas, keep, i, s). length feas - i"])
  case (less feas keep i s)
  note ok = less.prems(1) and df = less.prems(2) and dom = less.prems(3) and nec = less.prems(4) and nk = less.prems(5) and kf = less.prems(6)
    and need = less.prems(7) and mx = less.prems(8) and bef = less.prems(9)
  note def = brute_loop.simps[of B opt feas keep i s]
  have card: "card (set feas) = length feas" by (rule distinct_card[OF df])
  show ?case
  proof (cases "card keep < length feas")
    case False
    have e: "brute_loop B opt feas keep i s = Inr (keep, s)" unfolding def using False by (simp add: retS_def)
    have "keep = set feas" by (rule card_subset_eq[OF _ kf]) (use False card card_mono[OF _ kf] in simp_all)
    moreover have "min_safe_ind (cc_rel t c) nec (set feas)"
      by (rule cc.all_needed_min[OF mx]) (use need nk kf calculation in auto)
    ultimately show ?thesis using e ok by (simp add: wp_iff si_sets_def)
  next
    case lt: True
    have il: "i < length feas"
    proof (rule ccontr)
      assume "\<not> i < length feas"
      then have "set feas \<subseteq> keep" using bef by (auto simp: in_set_conv_nth)
      then show False using lt card kf by simp
    qed
    show ?thesis
    proof (cases "feas ! i \<in> keep")
      case True
      have "brute_loop B opt feas keep i s = brute_loop B opt feas keep (i + 1) s" unfolding def using lt il True by simp
      moreover have "\<forall>j<i + 1. j < length feas \<longrightarrow> feas ! j \<in> keep" using bef True by (auto simp: less_Suc_eq)
      then have "wp (brute_loop B opt feas keep (i + 1)) (\<lambda>K s'. si_ok t c s' \<and> si_sets s s' \<and> K \<subseteq> set feas \<and> min_safe_ind (cc_rel t c) nec K) s"
        by (intro less.hyps(2)) (use il less.prems in auto)
      ultimately show ?thesis by (simp add: wp_def)
    next
      case new: False
      let ?x = "feas ! i"
      have rm: "distinct (removeAll ?x feas)" "set (removeAll ?x feas) \<subseteq> dom (cc_map c)" "set (removeAll ?x feas) = set feas - {?x}"
        using df dom by (simp_all add: distinct_removeAll) auto
      obtain r v s1 where e: "si_findSIS B opt (removeAll ?x feas) s = Inr ((r, v), s1)" and
        p: "si_ok t c s1" "si_sets s s1" "distinct v" "set v \<subseteq> set feas - {?x}" "r \<longleftrightarrow> nec \<subseteq> max_ind (cc_rel t c) (set feas - {?x})"
          "r \<longrightarrow> set v = max_ind (cc_rel t c) (set feas - {?x})"
        using si_findSIS_wp[OF wf sat ok rm(1,2)] unfolding rm(3) nec by (auto simp: wp_iff)
      have n1: "si_nec s1 = nec" using p(2) nec by (simp add: si_sets_def)
      show ?thesis
      proof (cases r)
        case True
        have vF: "set v \<subseteq> set feas" using p(4) by blast
        have len: "length v < length feas"
          using distinct_card[OF p(3)] card psubset_card_mono[of "set feas" "set v"] p(4) nth_mem[OF il] by auto
        have G: "set v = max_ind (cc_rel t c) (set feas - {?x})" "nec \<subseteq> set v" using p(5,6) True by simp_all
        have need': "\<And>x. x \<in> keep - nec \<Longrightarrow> \<not> nec \<subseteq> max_ind (cc_rel t c) (set feas - {x})" using need by blast
        note sh = cc.shrink[OF nk kf need' G]
        have "wp (brute_loop B opt v keep 0) (\<lambda>K s'. si_ok t c s' \<and> si_sets s1 s' \<and> K \<subseteq> set v \<and> min_safe_ind (cc_rel t c) nec K) s1"
          by (rule less.hyps(1)) (use len p(1,3) vF dom n1 nk sh G(2) in auto)
        moreover have "brute_loop B opt feas keep i s = brute_loop B opt v keep 0 s1"
          unfolding def using lt il new e True len by (simp add: bindS_def)
        ultimately show ?thesis using p(2) vF by (auto simp: wp_def si_sets_def split: sum.splits)
      next
        case False
        have "wp (brute_loop B opt feas (insert ?x keep) (i + 1)) (\<lambda>K s'. si_ok t c s' \<and> si_sets s1 s' \<and> K \<subseteq> set feas \<and> min_safe_ind (cc_rel t c) nec K) s1"
          by (rule less.hyps(2)) (use il p(1) df dom n1 nk kf need mx bef False p(5) in \<open>auto simp: less_Suc_eq\<close>)
        moreover have "brute_loop B opt feas keep i s = brute_loop B opt feas (insert ?x keep) (i + 1) s1"
          unfolding def using lt il new e False by (simp add: bindS_def)
        ultimately show ?thesis using p(2) by (auto simp: wp_def si_sets_def split: sum.splits)
      qed
    qed
  qed
qed

lemma si_bruteForceMinimize_wp:
  assumes wf: "tr_wf t" and sat: "live opt t" and ok: "si_ok t c s" and mx: "si_nec s \<subseteq> max_ind (cc_rel t c) (si_feas s)"
  shows "wp (si_bruteForceMinimize B opt) (\<lambda>K s'. si_ok t c s' \<and> si_sets s s' \<and> sorted K \<and> distinct K \<and> set K \<subseteq> si_feas s
     \<and> min_safe_ind (cc_rel t c) (si_nec s) (set K)) s"
proof -
  note f = si_ok_finite[OF ok]
  have "wp (brute_loop B opt (sorted_list_of_set (si_feas s)) (si_nec s) 0) (\<lambda>K s'. si_ok t c s' \<and> si_sets s s'
     \<and> K \<subseteq> set (sorted_list_of_set (si_feas s)) \<and> min_safe_ind (cc_rel t c) (si_nec s) K) s"
    by (rule brute_loop_wp[OF wf sat ok]) (use f mx ok in \<open>auto simp: si_ok_def\<close>)
  then show ?thesis
    unfolding si_bruteForceMinimize_def wp_bindS wp_getS
    by (rule wp_mono) (use f(2) in \<open>auto dest: finite_subset\<close>)
qed

lemma minimal_loop_wp:
  assumes wf: "tr_wf t" and sat: "live opt t" and df: "distinct feas" and dom: "set feas \<subseteq> dom (cc_map c)"
  shows "si_ok t c s \<Longrightarrow> si_nec s = nec \<Longrightarrow> nec \<subseteq> keep \<Longrightarrow> keep \<subseteq> set feas
    \<Longrightarrow> (\<forall>x\<in>keep - nec. \<not> nec \<subseteq> max_ind (cc_rel t c) (set feas - {x})) \<Longrightarrow> (\<forall>j<i. j < length feas \<longrightarrow> feas ! j \<in> keep)
    \<Longrightarrow> wp (minimal_loop B opt feas keep i) (\<lambda>b s'. si_ok t c s' \<and> si_sets s s'
      \<and> (b \<longleftrightarrow> (\<forall>x\<in>set feas - nec. \<not> nec \<subseteq> max_ind (cc_rel t c) (set feas - {x})))) s"
proof (induction "length feas - i" arbitrary: keep i s rule: less_induct)
  case less
  note ok = less.prems(1) and nec = less.prems(2) and nk = less.prems(3) and kf = less.prems(4) and need = less.prems(5) and bef = less.prems(6)
  note def = minimal_loop.simps[of B opt feas keep i s]
  have card: "card (set feas) = length feas" by (rule distinct_card[OF df])
  show ?case
  proof (cases "card keep < length feas")
    case False
    have e: "minimal_loop B opt feas keep i s = Inr (True, s)" unfolding def using False by (simp add: retS_def)
    have "keep = set feas" by (rule card_subset_eq[OF _ kf]) (use False card card_mono[OF _ kf] in simp_all)
    then show ?thesis using e ok need by (simp add: wp_def si_sets_def)
  next
    case lt: True
    have il: "i < length feas"
    proof (rule ccontr)
      assume "\<not> i < length feas"
      then have "set feas \<subseteq> keep" using bef by (auto simp: in_set_conv_nth)
      then show False using lt card kf by simp
    qed
    show ?thesis
    proof (cases "feas ! i \<in> keep")
      case True
      have "minimal_loop B opt feas keep i s = minimal_loop B opt feas keep (i + 1) s" unfolding def using lt il True by simp
      moreover have "\<forall>j<i + 1. j < length feas \<longrightarrow> feas ! j \<in> keep" using bef True by (auto simp: less_Suc_eq)
      ultimately show ?thesis using less.hyps[of "i + 1" s keep] il less.prems by (simp add: wp_def)
    next
      case new: False
      let ?x = "feas ! i"
      have rm: "distinct (removeAll ?x feas)" "set (removeAll ?x feas) \<subseteq> dom (cc_map c)" "set (removeAll ?x feas) = set feas - {?x}"
        using df dom by (simp_all add: distinct_removeAll) auto
      obtain r v s1 where e: "si_findSIS B opt (removeAll ?x feas) s = Inr ((r, v), s1)" and
        p: "si_ok t c s1" "si_sets s s1" "distinct v" "set v \<subseteq> set feas - {?x}" "r \<longleftrightarrow> nec \<subseteq> max_ind (cc_rel t c) (set feas - {?x})"
        using si_findSIS_wp[OF wf sat ok rm(1,2)] unfolding rm(3) nec by (auto simp: wp_iff)
      have n1: "si_nec s1 = nec" using p(2) nec by (simp add: si_sets_def)
      have len: "length v < length feas"
        using distinct_card[OF p(3)] card psubset_card_mono[of "set feas" "set v"] p(4) nth_mem[OF il] by auto
      show ?thesis
      proof (cases r)
        case True
        have "?x \<in> set feas - nec" using nth_mem[OF il] new nk by blast
        then show ?thesis using True e lt il new len p(1,2,5) by (auto simp: wp_def def bindS_def retS_def)
      next
        case False
        have "wp (minimal_loop B opt feas (insert ?x keep) (i + 1)) (\<lambda>b s'. si_ok t c s' \<and> si_sets s1 s'
           \<and> (b \<longleftrightarrow> (\<forall>x\<in>set feas - nec. \<not> nec \<subseteq> max_ind (cc_rel t c) (set feas - {x})))) s1"
          by (rule less.hyps) (use il p(1) n1 nk kf need bef False p(5) in \<open>auto simp: less_Suc_eq\<close>)
        moreover have "minimal_loop B opt feas keep i s = minimal_loop B opt feas (insert ?x keep) (i + 1) s1"
          unfolding def using lt il new e False by (simp add: bindS_def)
        ultimately show ?thesis using p(2) by (auto simp: wp_def si_sets_def split: sum.splits)
      qed
    qed
  qed
qed

text \<open>On a set that is itself safe and inductive, \<open>isMinimal\<close> decides minimality.\<close>

lemma si_isMinimal_wp:
  assumes wf: "tr_wf t" and sat: "live opt t" and ok: "si_ok t c s" and safe: "safe_ind (cc_rel t c) (si_nec s) (si_feas s)"
  shows "wp (si_isMinimal B opt) (\<lambda>b s'. si_ok t c s' \<and> si_sets s s' \<and> (b \<longleftrightarrow> min_safe_ind (cc_rel t c) (si_nec s) (si_feas s))) s"
proof -
  note f = si_ok_finite[OF ok]
  let ?F = "sorted_list_of_set (si_feas s)"
  have ind: "max_ind (cc_rel t c) (si_feas s) = si_feas s" using safe cc.max_ind_id by (simp add: safe_ind_def)
  have eq: "(\<forall>x\<in>si_feas s - si_nec s. \<not> si_nec s \<subseteq> max_ind (cc_rel t c) (si_feas s - {x})) \<longleftrightarrow> min_safe_ind (cc_rel t c) (si_nec s) (si_feas s)"
  proof
    assume a: "\<forall>x\<in>si_feas s - si_nec s. \<not> si_nec s \<subseteq> max_ind (cc_rel t c) (si_feas s - {x})"
    show "min_safe_ind (cc_rel t c) (si_nec s) (si_feas s)"
      by (rule cc.all_needed_min) (use a ind safe in \<open>auto simp: safe_ind_def\<close>)
  next
    assume m: "min_safe_ind (cc_rel t c) (si_nec s) (si_feas s)"
    show "\<forall>x\<in>si_feas s - si_nec s. \<not> si_nec s \<subseteq> max_ind (cc_rel t c) (si_feas s - {x})"
    proof
      fix x assume x: "x \<in> si_feas s - si_nec s"
      have "\<not> safe_ind (cc_rel t c) (si_nec s) I" if "I \<subseteq> si_feas s - {x}" for I
        using m that x unfolding min_safe_ind_def by blast
      then show "\<not> si_nec s \<subseteq> max_ind (cc_rel t c) (si_feas s - {x})" unfolding cc.safe_max by blast
    qed
  qed
  have F: "distinct ?F" "set ?F \<subseteq> dom (cc_map c)" "set ?F = si_feas s" using f by simp_all
  have "wp (minimal_loop B opt ?F (si_nec s) 0) (\<lambda>b s'. si_ok t c s' \<and> si_sets s s'
      \<and> (b \<longleftrightarrow> (\<forall>x\<in>set ?F - si_nec s. \<not> si_nec s \<subseteq> max_ind (cc_rel t c) (set ?F - {x})))) s"
    by (rule minimal_loop_wp[OF wf sat F(1,2) ok]) (use F ok in \<open>auto simp: si_ok_def\<close>)
  then show ?thesis unfolding F(3) eq by (simp add: si_isMinimal_def)
qed


text \<open>When every clause is inductive relative to all of them, \<open>refineFEAS\<close> ends, with an inductive
  set that contains the necessary clauses.  The measure: the clauses not yet known to be supported,
  then the steps to the next of them.\<close>

definition feas_left :: "nat \<Rightarrow> clauseID set \<Rightarrow> clauseID list \<Rightarrow> nat \<Rightarrow> nat" where
  "feas_left n known feas i = (n - card known) * (2 * n + 4)
     + (length feas - i) + (if \<exists>j. i \<le> j \<and> j < length feas \<and> feas ! j \<notin> known then 0 else n + 2)"

lemma feas_left_pos: "0 < feas_left n known feas i"
  by (auto simp: feas_left_def)

lemma feas_left_known:
  assumes "i < length feas" "feas ! i \<in> known"
  shows "feas_left n known feas (i + 1) < feas_left n known feas i"
proof -
  have "(\<exists>j. i \<le> j \<and> j < length feas \<and> feas ! j \<notin> known) \<longleftrightarrow> (\<exists>j. i + 1 \<le> j \<and> j < length feas \<and> feas ! j \<notin> known)"
    using assms(2) by (metis Suc_eq_plus1 Suc_leD le_antisym not_less_eq_eq)
  then show ?thesis using assms(1) by (simp add: feas_left_def)
qed

lemma feas_left_insert:
  assumes "finite known" "x \<notin> known" "card known < n" "length feas' \<le> n" "i < length feas"
  shows "feas_left n (insert x known) feas' i' < feas_left n known feas i"
proof -
  have "(n - card known) * (2 * n + 4) = (n - card (insert x known)) * (2 * n + 4) + (2 * n + 4)"
    using assms(1-3) less_imp_Suc_add[OF assms(3)] by auto
  moreover have "feas_left n (insert x known) feas' i' \<le> (n - card (insert x known)) * (2 * n + 4) + (2 * n + 2)"
  proof -
    have "k + (length feas' - i') + (if b then 0 else n + 2) \<le> k + (2 * n + 2)" for k b using assms(4) by (cases b) auto
    then show ?thesis unfolding feas_left_def .
  qed
  moreover have "(n - card known) * (2 * n + 4) < feas_left n known feas i" using assms(5) by (simp add: feas_left_def)
  ultimately show ?thesis by linarith
qed

lemma feas_left_again:
  assumes "\<not> i < length feas" "length feas \<le> n" "\<not> set feas \<subseteq> known"
  shows "feas_left n known feas 0 < feas_left n known feas i"
proof -
  have "\<exists>j<length feas. feas ! j \<notin> known" using assms(3) by (auto simp: in_set_conv_nth)
  then show ?thesis using assms(1,2) by (auto simp: feas_left_def)
qed

lemma feas_loop_wp:
  assumes wf: "tr_wf t" and sat: "live opt t" and ind: "ind_set (cc_rel t c) (set all)"
  shows "si_ok t c s \<Longrightarrow> si_all s = all \<Longrightarrow> known \<subseteq> si_feas s \<Longrightarrow> (\<forall>x\<in>known. cc_rel t c (si_feas s) x)
    \<Longrightarrow> feas_vec = sorted_list_of_set (si_feas s)
    \<Longrightarrow> feas_left (length all) known feas_vec i \<le> fuel
    \<Longrightarrow> wp (feas_loop B opt fuel known feas_vec i) (\<lambda>_ s'. si_ok t c s' \<and> si_nec s' = si_nec s \<and> si_all s' = all
      \<and> si_feas s \<subseteq> si_feas s' \<and> ind_set (cc_rel t c) (si_feas s')) s"
proof (induction fuel arbitrary: known feas_vec i s)
  case 0
  then show ?case using feas_left_pos by (metis leD)
next
  case (Suc fuel)
  note ok = Suc.prems(1) and al = Suc.prems(2) and ks = Suc.prems(3) and kr = Suc.prems(4) and fv = Suc.prems(5) and fuel = Suc.prems(6)
  note fin = si_ok_finite[OF ok]
  let ?Q = "\<lambda>_ s'. si_ok t c s' \<and> si_nec s' = si_nec s \<and> si_all s' = all \<and> si_feas s \<subseteq> si_feas s' \<and> ind_set (cc_rel t c) (si_feas s')"
  have F: "set feas_vec = si_feas s" "distinct feas_vec" "length feas_vec = card (si_feas s)" using fin fv by simp_all
  have sub: "si_feas s \<subseteq> set all" using ok al by (simp add: si_ok_def)
  have cardF: "card A \<le> length all" if "A \<subseteq> set all" for A
    using that by (metis List.finite_set card_length card_mono order_trans)
  have fk: "finite known" using ks fin(2) by (rule finite_subset)
  have i0: "cc_inv t (si_solver s)" "cc_keep c (si_solver s)" using ok by (simp_all add: si_ok_def)
  note eqs = cc_keep_eqs[OF i0(2)]
  show ?case
  proof (cases "i < length feas_vec")
    case False
    show ?thesis
    proof (cases "card known < card (si_feas s)")
      case lt: True
      have ns: "\<not> set feas_vec \<subseteq> known" using lt F(1) card_mono[OF fk, of "si_feas s"] by auto
      have "wp (feas_loop B opt fuel known feas_vec 0) ?Q s"
        by (rule Suc.IH) (use ok al ks kr fv feas_left_again[OF False _ ns, of "length all"] cardF[OF sub] F(3) fuel in auto)
      then show ?thesis using False lt fv F(3) by simp
    next
      case ge: False
      have "known = si_feas s" by (rule card_subset_eq[OF fin(2) ks]) (use ge card_mono[OF fin(2) ks] in simp)
      then show ?thesis using False ge ok al kr F(3) fv by (simp add: ind_set_def)
    qed
  next
    case il: True
    let ?x = "feas_vec ! i"
    have xF: "?x \<in> si_feas s" using nth_mem[OF il] F(1) by simp
    show ?thesis
    proof (cases "?x \<in> known")
      case True
      have "wp (feas_loop B opt fuel known feas_vec (i + 1)) ?Q s"
        by (rule Suc.IH) (use ok al ks kr fv feas_left_known[OF il True, of "length all"] fuel in auto)
      then show ?thesis using il True fv F(3) by simp
    next
      case new: False
      have ck: "card known < length all"
      proof -
        have "card known < card (si_feas s)" by (rule psubset_card_mono[OF fin(2)]) (use ks xF new in blast)
        then show ?thesis using cardF[OF sub] by simp
      qed
      note left = feas_left_insert[OF fk new ck _ il]
      have fd: "set feas_vec \<subseteq> dom (cc_map (si_solver s))" "?x \<in> dom (cc_map (si_solver s))" using F(1) fin(3) eqs xF by auto
      have query: "wp (cc_solveID B opt feas_vec ?x) (\<lambda>r c1. cc_inv t c1 \<and> cc_keep c c1 \<and> (r \<longleftrightarrow> cc_rel t c (si_feas s) ?x)) (si_solver s)"
        by (rule wp_mono[OF cc_solveID_wp[OF wf i0(1) sat fd]])
          (use eqs F(1) cc_keep_trans[OF i0(2) cc_same_keep] in auto)
      have grow: "wp (si_onSolver (cc_supportSolveID B opt (si_all s) ?x [])) (\<lambda>(b, support). wp (bindS (si_minimizeSupport B opt support ?x)
          (\<lambda>support. thenS (modifyS (\<lambda>s. s\<lparr>si_feas := si_feas s \<union> set support\<rparr>)) (bindS getS (\<lambda>s'.
           thenS (assertS (card (si_feas s') > card (si_feas s)))
             (feas_loop B opt fuel (insert ?x known) (sorted_list_of_set (si_feas s')) 1))))) ?Q) (s\<lparr>si_solver := c1\<rparr>)"
        if c1: "cc_inv t c1" "cc_keep c c1" "\<not> cc_rel t c (si_feas s) ?x" for c1
      proof -
        note e1 = cc_keep_eqs[OF c1(2)]
        have ad: "set all \<subseteq> dom (cc_map c1)" "?x \<in> dom (cc_map c1)" using ok al e1 xF sub by (auto simp: si_ok_def)
        have rx: "cc_rel t c (set all) ?x" using ind xF sub by (auto simp: ind_set_def)
        have sv: "si_solver (s\<lparr>si_solver := c1\<rparr>) = c1" by simp
        show ?thesis
          unfolding wp_si_onSolver al sv
        proof (rule wp_mono[OF cc_supportSolveID_wp[OF wf c1(1) sat ad]], goal_cases)
          case (1 p c2)
          obtain b v where p: "p = (b, v)" by (cases p)
          have c2: "cc_inv t c2" "cc_keep c c2" "set v \<subseteq> set all" "cc_rel t c (set v) ?x"
            using 1 rx e1 cc_keep_trans[OF c1(2) cc_same_keep] by (auto simp: p)
          note e2 = cc_keep_eqs[OF c2(2)]
          have vd: "set v \<subseteq> dom (cc_map c2)" "?x \<in> dom (cc_map c2)" using c2(3) ad e1 e2 by auto
          have fin3: "wp (feas_loop B opt fuel (insert ?x known) (sorted_list_of_set (si_feas s \<union> set m)) 1) ?Q
              (s\<lparr>si_solver := c3, si_feas := si_feas s \<union> set m\<rparr>)"
            if c3: "cc_inv t c3" "cc_keep c c3" "set m \<subseteq> set v" "cc_rel t c (set m) ?x" for c3 m
          proof -
            let ?s3 = "s\<lparr>si_solver := c3, si_feas := si_feas s \<union> set m\<rparr>"
            have sub3: "si_feas s \<union> set m \<subseteq> set all" using sub c3(3) c2(3) by blast
            have ok3: "si_ok t c ?s3" using ok c3(1,2) sub3 al by (auto simp: si_ok_def)
            have k3: "\<forall>x\<in>insert ?x known. cc_rel t c (si_feas s \<union> set m) x"
              using kr c3(4) cc_rel_mono[of "si_feas s" "si_feas s \<union> set m"] cc_rel_mono[of "set m" "si_feas s \<union> set m"] by blast
            have "wp (feas_loop B opt fuel (insert ?x known) (sorted_list_of_set (si_feas s \<union> set m)) 1)
               (\<lambda>_ s'. si_ok t c s' \<and> si_nec s' = si_nec ?s3 \<and> si_all s' = all \<and> si_feas ?s3 \<subseteq> si_feas s' \<and> ind_set (cc_rel t c) (si_feas s')) ?s3"
              by (rule Suc.IH) (use ok3 al ks xF k3 left[of "sorted_list_of_set (si_feas s \<union> set m)" 1] cardF[OF sub3] fuel fin(2) in auto)
            then show ?thesis by (rule wp_mono) auto
          qed
          have bigger: "card (si_feas s) < card (si_feas s \<union> set m)" if m: "cc_rel t c (set m) ?x" for m
          proof (rule psubset_card_mono)
            have "\<not> set m \<subseteq> si_feas s" using m c1(3) cc_rel_mono by blast
            then show "si_feas s \<subset> si_feas s \<union> set m" by blast
          qed (use fin(2) in simp)
          have "wp (findMinimalSupportID B opt v ?x) (\<lambda>m c3. length m \<le> length v \<and> cc_inv t c3 \<and> cc_keep c c3 \<and> set m \<subseteq> set v \<and> cc_rel t c (set m) ?x) c2"
            by (rule wp_mono[OF findMinimalSupportID_wp[OF wf c2(1) sat vd]])
              (use e2 c2(4) cc_keep_trans[OF c2(2)] in \<open>auto split: if_splits\<close>)
          then show ?case
            unfolding p
            by (simp add: si_minimizeSupport_def) (rule wp_mono, assumption, use fin3 bigger in auto)
        qed
      qed
      have step: "wp (if ind then feas_loop B opt fuel (insert ?x known) feas_vec (i + 1)
         else bindS (si_onSolver (cc_supportSolveID B opt (si_all s) ?x [])) (\<lambda>(b, support).
           bindS (si_minimizeSupport B opt support ?x) (\<lambda>support.
           thenS (modifyS (\<lambda>s. s\<lparr>si_feas := si_feas s \<union> set support\<rparr>)) (bindS getS (\<lambda>s'.
           thenS (assertS (card (si_feas s') > card (si_feas s)))
             (feas_loop B opt fuel (insert ?x known) (sorted_list_of_set (si_feas s')) 1)))))) ?Q (s\<lparr>si_solver := c1\<rparr>)"
        if c1: "cc_inv t c1" "cc_keep c c1" "ind \<longleftrightarrow> cc_rel t c (si_feas s) ?x" for ind c1
      proof (cases ind)
        case True
        have "wp (feas_loop B opt fuel (insert ?x known) feas_vec (i + 1))
             (\<lambda>_ s'. si_ok t c s' \<and> si_nec s' = si_nec (s\<lparr>si_solver := c1\<rparr>) \<and> si_all s' = all \<and> si_feas (s\<lparr>si_solver := c1\<rparr>) \<subseteq> si_feas s' \<and> ind_set (cc_rel t c) (si_feas s')) (s\<lparr>si_solver := c1\<rparr>)"
          by (rule Suc.IH) (use ok c1 al ks xF kr True fv left[of feas_vec "i + 1"] cardF[OF sub] F(3) fuel in \<open>auto simp: si_ok_def\<close>)
        then show ?thesis using True by simp
      next
        case False
        then show ?thesis using grow[OF c1(1,2)] c1(3) by (simp add: split_def)
      qed
      have "wp (si_onSolver (cc_solveID B opt feas_vec ?x)) (\<lambda>ind. wp (if ind then feas_loop B opt fuel (insert ?x known) feas_vec (i + 1)
         else bindS (si_onSolver (cc_supportSolveID B opt (si_all s) ?x [])) (\<lambda>(b, support).
           bindS (si_minimizeSupport B opt support ?x) (\<lambda>support.
           thenS (modifyS (\<lambda>s. s\<lparr>si_feas := si_feas s \<union> set support\<rparr>)) (bindS getS (\<lambda>s'.
           thenS (assertS (card (si_feas s') > card (si_feas s)))
             (feas_loop B opt fuel (insert ?x known) (sorted_list_of_set (si_feas s')) 1)))))) ?Q) s"
        unfolding wp_si_onSolver by (rule wp_mono[OF query]) (use step in blast)
      then show ?thesis
        unfolding feas_loop.simps wp_bindS wp_getS Let_def
        using il new fv F(3) by (simp only: if_True if_False not_False_eq_True wp_bindS)
    qed
  qed
qed

lemma si_refineFEAS_wp:
  assumes wf: "tr_wf t" and sat: "live opt t" and ind: "ind_set (cc_rel t c) (set (si_all s))" and ok: "si_ok t c s" and ne: "si_nec s \<noteq> {}"
  shows "wp (si_refineFEAS B opt) (\<lambda>_ s'. si_ok t c s' \<and> si_nec s' = si_nec s \<and> si_all s' = si_all s
      \<and> ind_set (cc_rel t c) (si_feas s')) s"
proof -
  let ?s = "s\<lparr>si_feas := si_nec s\<rparr>" and ?n = "length (si_all s)"
  have okn: "si_ok t c ?s" using ok by (auto simp: si_ok_def)
  have "card (si_nec s) \<le> card (set (si_all s))" using ok by (intro card_mono) (auto simp: si_ok_def)
  then have len: "card (si_nec s) \<le> ?n" using card_length order_trans by blast
  have "feas_left ?n {} (sorted_list_of_set (si_nec s)) 0 \<le> feas_fuel ?n"
    using len by (simp add: feas_left_def feas_fuel_def algebra_simps)
  then have "wp (feas_loop B opt (feas_fuel ?n) {} (sorted_list_of_set (si_nec s)) 0) (\<lambda>_ s'. si_ok t c s' \<and> si_nec s' = si_nec ?s
      \<and> si_all s' = si_all s \<and> si_feas ?s \<subseteq> si_feas s' \<and> ind_set (cc_rel t c) (si_feas s')) ?s"
    by (intro feas_loop_wp[OF wf sat ind okn]) simp_all
  then show ?thesis unfolding si_refineFEAS_def wp_bindS wp_getS wp_thenS wp_assertS wp_modifyS
    using ne by (simp del: feas_loop.simps) (rule wp_mono, assumption, simp)
qed

end
end
