(* ===== verification/Minimizers.thy ===== *)
theory Minimizers
  imports Sisi
begin

text \<open>
  \<open>src/src/pme/minimization/minimization.{h,cpp}\<close>, \<open>brute_force.{h,cpp}\<close>, \<open>sisi.{h,cpp}\<close> (the minimizer)
  and \<open>simple.{h,cpp}\<close>: a base class that holds the proof and the results, and classes derived from it
  that extend its state.  The variable manager the object refers to is held by the checker.
\<close>

subsection \<open>The base class\<close>

record minimizer =
  pm_tr :: anyTR
  pm_proof :: clauseVec
  pm_property :: clauseID
  pm_minimalProofs :: "clauseID list list"
  pm_minimumProof :: "clauseID list"

definition pm_numClauses :: "'a minimizer_scheme \<Rightarrow> nat" where
  "pm_numClauses m = length (pm_proof m)"

definition pm_clauseOf :: "'a minimizer_scheme \<Rightarrow> clauseID \<Rightarrow> clause res" where
  "pm_clauseOf m i = assertR (unat i < pm_numClauses m) (atR (pm_proof m) (unat i))"

text \<open>The identifiers the loops over the clauses go through.\<close>

definition pm_ids :: "nat \<Rightarrow> clauseID list" where
  "pm_ids n = map of_nat [0..<n]"

fun pm_findProperty :: "'a minimizer_scheme \<Rightarrow> clause \<Rightarrow> clauseID list \<Rightarrow> clauseID option res" where
  "pm_findProperty m property [] = Inr None"
| "pm_findProperty m property (i # is) = bindR (pm_clauseOf m i) (\<lambda>cls.
     if cls = property then Inr (Some i) else pm_findProperty m property is)"

definition pm_addPropertyIfMissing :: "minimizer \<Rightarrow> minimizer res" where
  "pm_addPropertyIfMissing m = (let property = [negate (tr_bad (baseTR (pm_tr m)))] in
     bindR (pm_findProperty m property (pm_ids (pm_numClauses m))) (\<lambda>f. case f of
       Some i \<Rightarrow> Inr (m\<lparr>pm_property := i\<rparr>)
     | None \<Rightarrow> Inr (m\<lparr>pm_property := of_nat (length (pm_proof m)), pm_proof := pm_proof m @ [property]\<rparr>)))"

definition pm_new :: "anyTR \<Rightarrow> clauseVec \<Rightarrow> minimizer res" where
  "pm_new t pf = pm_addPropertyIfMissing \<lparr>pm_tr = t, pm_proof = pf, pm_property = 0, pm_minimalProofs = [], pm_minimumProof = []\<rparr>"

definition pm_addMinimalProof :: "clauseID list \<Rightarrow> ('a minimizer_scheme, unit) sm" where
  "pm_addMinimalProof pf = modifyS (\<lambda>m. m\<lparr>pm_minimalProofs := pm_minimalProofs m @ [sort pf]\<rparr>)"

definition pm_setMinimumProof :: "clauseID list \<Rightarrow> ('a minimizer_scheme, unit) sm" where
  "pm_setMinimumProof pf = bindS getS (\<lambda>m. thenS (assertS (pm_minimumProof m = [])) (modifyS (\<lambda>m. m\<lparr>pm_minimumProof := pf\<rparr>)))"

definition pm_propertyClause :: "'a minimizer_scheme \<Rightarrow> clause res" where
  "pm_propertyClause m = pm_clauseOf m (pm_property m)"

definition pm_numProofs :: "'a minimizer_scheme \<Rightarrow> nat" where
  "pm_numProofs m = length (pm_minimalProofs m)"

definition pm_getProof :: "'a minimizer_scheme \<Rightarrow> nat \<Rightarrow> clauseVec res" where
  "pm_getProof m i = assertR (i < pm_numProofs m) (bindR (atR (pm_minimalProofs m) i) (mapR (\<lambda>j. atR (pm_proof m) (unat j))))"

definition pm_minimumProofKnown :: "'a minimizer_scheme \<Rightarrow> bool" where
  "pm_minimumProofKnown m = (pm_minimumProof m \<noteq> [])"

definition pm_getMinimumProof :: "'a minimizer_scheme \<Rightarrow> clauseVec res" where
  "pm_getMinimumProof m = mapR (\<lambda>j. atR (pm_proof m) (unat j)) (pm_minimumProof m)"

definition dummy_doMinimize :: "(minimizer, unit) sm" where
  "dummy_doMinimize = bindS getS (\<lambda>m. pm_addMinimalProof (pm_ids (pm_numClauses m)))"

subsection \<open>The brute-force and the SISI minimizer\<close>

text \<open>The loop that adds the clauses of the proof to the checker of the object.\<close>

definition pm_initSolver :: "'a minimizer_scheme \<Rightarrow> (consecChecker, unit) sm" where
  "pm_initSolver m = iterS (\<lambda>i. bindS (liftS (pm_clauseOf m i)) (\<lambda>cls. cc_addClause i cls)) (pm_ids (pm_numClauses m))"

record sisiMin = minimizer +
  sm_sisi :: sisi

definition sm_new :: "varManager \<Rightarrow> anyTR \<Rightarrow> clauseVec \<Rightarrow> sisiMin res" where
  "sm_new vm t pf = bindR (pm_new t pf) (\<lambda>m. bindR (cc_new vm t) (\<lambda>c. bindR (execS (pm_initSolver m) c) (\<lambda>c.
     Inr (minimizer.extend m \<lparr>sm_sisi = si_new c\<rparr>))))"

definition sm_onSisi :: "(sisi, 'a) sm \<Rightarrow> (sisiMin, 'a) sm" where
  "sm_onSisi p = zoomS sm_sisi (\<lambda>s m. m\<lparr>sm_sisi := s\<rparr>) p"

definition sm_initSISI :: "(sisiMin, unit) sm" where
  "sm_initSISI = bindS getS (\<lambda>m. sm_onSisi (thenS (iterS (\<lambda>i. thenS (si_addToFEAS i) (si_addClause i)) (pm_ids (pm_numClauses m)))
     (si_addToNEC (pm_property m))))"

definition bf_doMinimize :: "backend \<Rightarrow> bool \<Rightarrow> (sisiMin, unit) sm" where
  "bf_doMinimize B opt = thenS sm_initSISI (bindS (sm_onSisi (si_bruteForceMinimize B opt)) pm_addMinimalProof)"

definition bf_isMinimal :: "backend \<Rightarrow> bool \<Rightarrow> (sisiMin, bool) sm" where
  "bf_isMinimal B opt = thenS sm_initSISI (sm_onSisi (si_isMinimal B opt))"

definition sm_doMinimize :: "backend \<Rightarrow> bool \<Rightarrow> (sisiMin, unit) sm" where
  "sm_doMinimize B opt = thenS sm_initSISI (thenS (sm_onSisi (si_refineNEC B opt)) (thenS (sm_onSisi (si_refineFEAS B opt))
     (thenS (sm_onSisi (si_refineNEC B opt)) (bindS (sm_onSisi (si_bruteForceMinimize B opt)) pm_addMinimalProof))))"

subsection \<open>The simple minimizer\<close>

record simpleMin = minimizer +
  sp_solver :: consecChecker
  sp_allClauses :: "clauseID list"

definition sp_new :: "varManager \<Rightarrow> anyTR \<Rightarrow> clauseVec \<Rightarrow> simpleMin res" where
  "sp_new vm t pf = bindR (pm_new t pf) (\<lambda>m. bindR (cc_new vm t) (\<lambda>c. bindR (execS (pm_initSolver m) c) (\<lambda>c.
     Inr (minimizer.extend m \<lparr>sp_solver = c, sp_allClauses = pm_ids (pm_numClauses m)\<rparr>))))"

definition sp_onSolver :: "(consecChecker, 'a) sm \<Rightarrow> (simpleMin, 'a) sm" where
  "sp_onSolver p = zoomS sp_solver (\<lambda>c m. m\<lparr>sp_solver := c\<rparr>) p"

text \<open>\<open>use_min\<close> is the option \<open>simple_min_use_min_supp\<close>.\<close>

definition sp_computeSupport :: "backend \<Rightarrow> bool \<Rightarrow> bool \<Rightarrow> clauseID \<Rightarrow> (simpleMin, clauseID list) sm" where
  "sp_computeSupport B opt use_min i = (if use_min
     then bindS getS (\<lambda>m. sp_onSolver (findMinimalSupportID B opt (sp_allClauses m) i))
     else bindS (sp_onSolver (cc_supportSolveAllID B opt i [])) (\<lambda>(ind, support). thenS (assertS ind) (retS support)))"

fun sp_loop :: "backend \<Rightarrow> bool \<Rightarrow> bool \<Rightarrow> nat \<Rightarrow> clauseID set \<Rightarrow> clauseID set \<Rightarrow> clauseID list \<Rightarrow> (simpleMin, clauseID set) sm" where
  "sp_loop B opt use_min 0 supported nec q = failS Diverges"
| "sp_loop B opt use_min (Suc fuel) supported nec [] = retS nec"
| "sp_loop B opt use_min (Suc fuel) supported nec (i # q) = (if i \<in> supported then sp_loop B opt use_min fuel supported nec q
     else bindS (sp_computeSupport B opt use_min i) (\<lambda>support.
       sp_loop B opt use_min fuel (insert i supported) (nec \<union> set support) (q @ filter (\<lambda>s. s \<notin> supported) support)))"

definition sp_fuel :: "nat \<Rightarrow> nat" where
  "sp_fuel n = n * n + 2"

definition sp_doMinimize :: "backend \<Rightarrow> bool \<Rightarrow> bool \<Rightarrow> (simpleMin, unit) sm" where
  "sp_doMinimize B opt use_min = bindS getS (\<lambda>m. bindS (sp_loop B opt use_min (sp_fuel (pm_numClauses m)) {} {pm_property m} [pm_property m])
     (\<lambda>nec. pm_addMinimalProof (sorted_list_of_set nec)))"

subsection \<open>The proof and the checker\<close>

definition with_property :: "anyTR \<Rightarrow> clauseVec \<Rightarrow> clauseVec" where
  "with_property t pf = (if tr_propertyClause t \<in> set pf then pf else pf @ [tr_propertyClause t])"

lemma bad_clause_ok:
  assumes "tr_wf t" shows "clause_ok t (tr_propertyClause t)"
proof -
  have "negate (tr_bad (baseTR t)) \<noteq> tr_bad (baseTR t)" by (metis is_negated_negate)
  then show ?thesis by (auto simp: clause_ok_def tr_propertyClause_def state_vars_def)
qed

lemma with_property_props:
  shows "tr_propertyClause t \<in> set (with_property t pf)" "length (with_property t pf) \<le> Suc (length pf)"
    and "tr_wf t \<Longrightarrow> \<forall>d\<in>set pf. clause_ok t d \<Longrightarrow> \<forall>d\<in>set (with_property t pf). clause_ok t d"
  using bad_clause_ok by (auto simp: with_property_def)

lemma word_of_index: "k < n \<Longrightarrow> n < 2 ^ 64 \<Longrightarrow> \<exists>i :: clauseID. unat i = k"
  by (rule exI[of _ "of_nat k"]) (simp add: unat_of_nat)

lemma pm_ids_props:
  assumes "n < 2 ^ 64"
  shows "distinct (pm_ids n)" "set (pm_ids n) = {i. unat i < n}" "length (pm_ids n) = n"
proof -
  show "distinct (pm_ids n)" unfolding pm_ids_def distinct_map using assms
    by (auto intro!: inj_onI dest!: arg_cong[where f = unat] simp: unat_of_nat)
  show "set (pm_ids n) = {i. unat i < n}" using assms by (auto simp: pm_ids_def unat_of_nat intro!: image_eqI[of _ _ "unat _"])
  show "length (pm_ids n) = n" by (simp add: pm_ids_def)
qed

lemma pm_findProperty_wp:
  assumes "pm_proof m = pf" "\<forall>i\<in>set is. unat i < length pf"
  shows "wpr (pm_findProperty m p is) (\<lambda>r. case r of None \<Rightarrow> \<forall>i\<in>set is. pf ! unat i \<noteq> p
     | Some i \<Rightarrow> i \<in> set is \<and> pf ! unat i = p)"
  using assms
proof (induction "is")
  case (Cons i js)
  show ?case
  proof (cases "pf ! unat i = p")
    case True
    then show ?thesis using Cons.prems by (simp add: pm_clauseOf_def pm_numClauses_def)
  next
    case False
    have "wpr (pm_findProperty m p js) (\<lambda>r. case r of None \<Rightarrow> \<forall>i\<in>set js. pf ! unat i \<noteq> p
     | Some i \<Rightarrow> i \<in> set js \<and> pf ! unat i = p)" using Cons by simp
    then have "wpr (pm_findProperty m p js) (\<lambda>r. case r of None \<Rightarrow> \<forall>i\<in>set (i # js). pf ! unat i \<noteq> p
     | Some k \<Rightarrow> k \<in> set (i # js) \<and> pf ! unat k = p)"
      by (rule wpr_mono) (use False in \<open>auto split: option.splits\<close>)
    moreover have "unat i < length pf" using Cons.prems by simp
    ultimately show ?thesis using False Cons.prems(1) by (simp add: pm_clauseOf_def pm_numClauses_def del: list.set)
  qed
qed simp

lemma pm_new_wp:
  assumes "length pf < 2 ^ 64 - 1"
  shows "wpr (pm_new t pf) (\<lambda>m. pm_tr m = t \<and> pm_proof m = with_property t pf \<and> unat (pm_property m) < length (pm_proof m)
     \<and> pm_proof m ! unat (pm_property m) = tr_propertyClause t \<and> pm_minimalProofs m = [] \<and> pm_minimumProof m = [])"
proof -
  let ?m = "\<lparr>pm_tr = t, pm_proof = pf, pm_property = 0, pm_minimalProofs = [], pm_minimumProof = []\<rparr>"
  let ?p = "tr_propertyClause t"
  have len: "length pf < 2 ^ 64" using assms by simp
  have ids: "set (pm_ids (pm_numClauses ?m)) = {i. unat i < length pf}" using pm_ids_props(2)[OF len] by (simp add: pm_numClauses_def)
  have "wpr (pm_findProperty ?m ?p (pm_ids (pm_numClauses ?m))) (\<lambda>r. case r of None \<Rightarrow> \<forall>i\<in>set (pm_ids (pm_numClauses ?m)). pf ! unat i \<noteq> ?p
     | Some i \<Rightarrow> i \<in> set (pm_ids (pm_numClauses ?m)) \<and> pf ! unat i = ?p)"
    by (rule pm_findProperty_wp) (use ids in simp_all)
  then have "wpr (pm_findProperty ?m ?p (pm_ids (pm_numClauses ?m))) (\<lambda>r. case r of None \<Rightarrow> \<forall>i\<in>{i :: clauseID. unat i < length pf}. pf ! unat i \<noteq> ?p
     | Some i \<Rightarrow> unat i < length pf \<and> pf ! unat i = ?p)"
    unfolding ids mem_Collect_eq .
  then obtain r where r: "pm_findProperty ?m ?p (pm_ids (pm_numClauses ?m)) = Inr r" and
    q: "case r of None \<Rightarrow> \<forall>i\<in>{i :: clauseID. unat i < length pf}. pf ! unat i \<noteq> ?p | Some i \<Rightarrow> unat i < length pf \<and> pf ! unat i = ?p"
    by (auto simp: wpr_iff)
  have u: "unat (of_nat k :: clauseID) = k" if "k \<le> length pf" for k using that len by (simp add: unat_of_nat)
  have mem: "?p \<in> set pf \<longleftrightarrow> r \<noteq> None"
  proof (cases r)
    case None
    have "pf ! k \<noteq> ?p" if "k < length pf" for k using q None u[of k] that by (auto dest: spec[of _ "of_nat k"])
    then show ?thesis using None by (auto simp: in_set_conv_nth)
  next
    case (Some i)
    then show ?thesis using q by (auto simp: in_set_conv_nth)
  qed
  show ?thesis
    using r q mem u[of "length pf"]
    by (cases r) (auto simp: pm_new_def pm_addPropertyIfMissing_def with_property_def Let_def simp flip: tr_propertyClause_def)
qed

lemma pm_initSolver_wp:
  assumes c: "cc_inv t c" "cc_map c = Map.empty" "db_clauses (cc_db c) = []" and r: "room (k + length (pm_proof m)) (cc_vars c)"
    and ok: "\<forall>d\<in>set (pm_proof m). clause_ok t d" and len: "length (pm_proof m) < 2 ^ 64"
  shows "wp (pm_initSolver m) (\<lambda>_ c'. cc_inv t c' \<and> cc_map c' = id_map (pm_proof m) \<and> room k (cc_vars c')
     \<and> map fst (db_clauses (cc_db c')) = pm_ids (length (pm_proof m))) c"
proof -
  let ?pf = "pm_proof m"
  let ?I = "\<lambda>is c'. cc_inv t c' \<and> cc_map c' = id_map (take (length is) ?pf) \<and> room (k + length ?pf - length is) (cc_vars c')
     \<and> map fst (db_clauses (cc_db c')) = pm_ids (length is)"
  have "wp (iterS (\<lambda>i. bindS (liftS (pm_clauseOf m i)) (\<lambda>cls. cc_addClause i cls)) (pm_ids (length ?pf))) (\<lambda>_. ?I (pm_ids (length ?pf))) c"
  proof (rule wp_iterS[where I = ?I])
    show "?I [] c" using c r by (simp add: id_map_def[abs_def] fun_eq_iff pm_ids_def)
  next
    fix x ys zs c1 assume sp: "pm_ids (length ?pf) = ys @ x # zs" and I: "?I ys c1"
    let ?n = "length ys"
    have n: "?n < length ?pf" using arg_cong[OF sp, of length] by (simp add: pm_ids_def)
    have x: "x = of_nat ?n" using arg_cong[OF sp, of "\<lambda>l. l ! ?n"] n by (simp add: pm_ids_def nth_append)
    have u: "unat x = ?n" using x n len by (simp add: unat_of_nat)
    have tk: "take (Suc ?n) ?pf = take ?n ?pf @ [?pf ! ?n]" by (rule take_Suc_conv_app_nth[OF n])
    have new: "cc_map c1 x = None" using I u n by (simp add: id_map_def)
    have r1: "room (Suc (k + length ?pf - Suc ?n)) (cc_vars c1)" using I n by (simp add: Suc_diff_Suc)
    have "clause_ok t (?pf ! ?n)" using ok n by simp
    then show "wp (bindS (liftS (pm_clauseOf m x)) (\<lambda>cls. cc_addClause x cls)) (\<lambda>_. ?I (ys @ [x])) c1"
      unfolding wp_bindS wp_liftS using n u
      by (simp add: pm_clauseOf_def pm_numClauses_def)
        (rule wp_mono[OF cc_addClause_wp[OF _ r1 _ new]],
          use I n x len id_map_snoc[of "take ?n ?pf"] in \<open>auto simp: tk pm_ids_def min_def\<close>)
  qed
  then show ?thesis
    unfolding pm_initSolver_def pm_numClauses_def
    by (rule wp_mono) (use pm_ids_props(3)[OF len] in auto)
qed


subsection \<open>Sets of clauses and sets of identifiers\<close>

definition pf_rel :: "anyTR \<Rightarrow> clauseVec \<Rightarrow> clauseID set \<Rightarrow> clauseID \<Rightarrow> bool" where
  "pf_rel t pf I i = (unat i < length pf \<and> consec t {pf ! unat j |j. j \<in> I \<and> unat j < length pf} (pf ! unat i))"

definition ind_clauses :: "anyTR \<Rightarrow> clause set \<Rightarrow> bool" where
  "ind_clauses t Cs = (\<forall>d\<in>Cs. consec t Cs d)"

text \<open>Safe and inductive, and no proper subset is.\<close>

definition safe_clauses :: "anyTR \<Rightarrow> clause set \<Rightarrow> bool" where
  "safe_clauses t Cs = (tr_propertyClause t \<in> Cs \<and> ind_clauses t Cs)"

definition min_safe_clauses :: "anyTR \<Rightarrow> clause set \<Rightarrow> bool" where
  "min_safe_clauses t Cs = (safe_clauses t Cs \<and> (\<forall>Ds. Ds \<subset> Cs \<longrightarrow> \<not> safe_clauses t Ds))"

lemma pf_rel_mono:
  assumes "I \<subseteq> J" "pf_rel t pf I i"
  shows "pf_rel t pf J i"
proof -
  have sub: "{pf ! unat j |j. j \<in> I \<and> unat j < length pf} \<subseteq> {pf ! unat j |j. j \<in> J \<and> unat j < length pf}" using assms(1) by blast
  show ?thesis using assms(2) consec_mono[OF sub] by (simp add: pf_rel_def)
qed

interpretation pr: rel_ind "pf_rel t pf" for t pf
  by unfold_locales (rule pf_rel_mono)

lemma cc_rel_pf:
  assumes "cc_map c = id_map pf"
  shows "cc_rel t c = pf_rel t pf"
proof (intro ext)
  fix I i
  have "cc_set c I = sort ` {pf ! unat j |j. j \<in> I \<and> unat j < length pf}"
    by (auto simp: cc_set_def assms id_map_def)
  then show "cc_rel t c I i = pf_rel t pf I i" by (simp add: cc_rel_def pf_rel_def assms id_map_def consec_sort)
qed

lemma ind_set_pf:
  assumes "\<forall>i\<in>I. unat i < length pf"
  shows "ind_set (pf_rel t pf) I = ind_clauses t ((\<lambda>i. pf ! unat i) ` I)"
proof -
  have "{pf ! unat j |j. j \<in> I \<and> unat j < length pf} = (\<lambda>i. pf ! unat i) ` I" using assms by auto
  then show ?thesis using assms by (simp add: ind_set_def ind_clauses_def pf_rel_def)
qed

lemma safe_ind_pf:
  assumes "\<forall>i\<in>I. unat i < length pf" "pf ! unat p = tr_propertyClause t"
  shows "safe_ind (pf_rel t pf) {p} I \<Longrightarrow> safe_clauses t ((\<lambda>i. pf ! unat i) ` I)"
proof -
  assume a: "safe_ind (pf_rel t pf) {p} I"
  then have "p \<in> I" by (simp add: safe_ind_def)
  then have "tr_propertyClause t \<in> (\<lambda>i. pf ! unat i) ` I" using assms(2) by (metis imageI)
  then show ?thesis using a ind_set_pf[OF assms(1), of t] by (simp add: safe_ind_def safe_clauses_def)
qed

lemma min_safe_pf:
  assumes I: "\<forall>i\<in>I. unat i < length pf" and p: "pf ! unat p = tr_propertyClause t"
    and mn: "min_safe_ind (pf_rel t pf) {p} I"
  shows "min_safe_clauses t ((\<lambda>i. pf ! unat i) ` I)"
proof -
  have safe: "safe_ind (pf_rel t pf) {p} I" using mn by (simp add: min_safe_ind_def)
  have "\<not> safe_clauses t Ds" if Ds: "Ds \<subset> (\<lambda>i. pf ! unat i) ` I" for Ds
  proof
    assume sd: "safe_clauses t Ds"
    let ?J = "{i \<in> I. pf ! unat i \<in> Ds}"
    have img: "(\<lambda>i. pf ! unat i) ` ?J = Ds" using Ds by auto
    have "ind_set (pf_rel t pf) ?J" using ind_set_pf[of ?J pf t] I img sd by (simp add: safe_clauses_def)
    moreover have "p \<in> ?J" using safe sd p by (auto simp: safe_ind_def safe_clauses_def)
    ultimately have "safe_ind (pf_rel t pf) {p} ?J" by (simp add: safe_ind_def)
    moreover have "?J \<subset> I" using Ds img by blast
    ultimately show False using mn by (simp add: min_safe_ind_def)
  qed
  then show ?thesis using safe_ind_pf[OF I p safe] by (simp add: min_safe_clauses_def)
qed

text \<open>A safe inductive set of clauses that hold initially is a proof.\<close>

lemma safe_clauses_proof:
  assumes "safe_clauses t (set Cs)" "sp_initiation t pf" "set Cs \<subseteq> set pf"
  shows "sp_proof t Cs"
proof -
  have bad: "clause_sat s (tr_propertyClause t) \<longleftrightarrow> \<not> bad_state t s" for s
    by (simp add: tr_propertyClause_def clause_sat_def bad_state_def lit_true_negate)
  have "sp_induction t Cs" using assms(1) unfolding sp_induction_def safe_clauses_def ind_clauses_def consec_def cnf_sat_def by blast
  moreover have "sp_safety t Cs" using assms(1) bad unfolding sp_safety_def safe_clauses_def cnf_sat_def by blast
  moreover have "sp_initiation t Cs" using assms(2,3) unfolding sp_initiation_def by blast
  ultimately show ?thesis by (simp add: sp_proof_def)
qed

lemma pm_getProof_wp:
  assumes "\<forall>i\<in>set K. unat i < length (pm_proof m)" "pm_minimalProofs m = [K]"
  shows "pm_getProof m 0 = Inr (map (\<lambda>i. pm_proof m ! unat i) K)"
  using assms by (simp add: pm_getProof_def pm_numProofs_def atR_def mapR_total)

subsection \<open>What the minimizers find\<close>

text \<open>The result: one proof was found, and it is minimal.\<close>

definition pm_found :: "(clause set \<Rightarrow> bool) \<Rightarrow> anyTR \<Rightarrow> clauseVec \<Rightarrow> 'a minimizer_scheme \<Rightarrow> bool" where
  "pm_found P t pf m = (\<exists>Cs. pm_numProofs m = 1 \<and> pm_getProof m 0 = Inr Cs \<and> set Cs \<subseteq> set (with_property t pf) \<and> P (set Cs))"

lemma pm_found_ids:
  assumes "pm_proof m = with_property t pf" "pm_minimalProofs m = [K]" "\<forall>i\<in>set K. unat i < length (with_property t pf)"
    and "P ((\<lambda>i. with_property t pf ! unat i) ` set K)"
  shows "pm_found P t pf m"
  unfolding pm_found_def
  by (rule exI[of _ "map (\<lambda>i. pm_proof m ! unat i) K"])
    (use pm_getProof_wp[of K m] assms in \<open>auto simp: pm_numProofs_def\<close>)

lemma cc_new_empty: "vm_inv vm \<Longrightarrow> vm_owns vm t \<Longrightarrow> wpr (cc_new vm t) (\<lambda>c. cc_inv t c \<and> cc_map c = Map.empty \<and> db_clauses (cc_db c) = [] \<and> cc_vars c = vm)"
  using cc_new_wp[of vm t] by (auto simp: wpr_iff cc_new_def bindR_Inr_iff db_new_def)

text \<open>A minimizer that has just been built.\<close>

definition pm_fresh :: "anyTR \<Rightarrow> clauseVec \<Rightarrow> 'a minimizer_scheme \<Rightarrow> bool" where
  "pm_fresh t pf m = (pm_tr m = t \<and> pm_proof m = with_property t pf \<and> unat (pm_property m) < length (with_property t pf)
     \<and> with_property t pf ! unat (pm_property m) = tr_propertyClause t \<and> pm_minimalProofs m = [] \<and> pm_minimumProof m = [])"

definition cc_for :: "anyTR \<Rightarrow> clauseVec \<Rightarrow> consecChecker \<Rightarrow> bool" where
  "cc_for t pf c = (cc_inv t c \<and> cc_map c = id_map pf \<and> map fst (db_clauses (cc_db c)) = pm_ids (length pf))"

lemma checker_wp:
  assumes wf: "tr_wf t" and vm: "vm_inv vm" "vm_owns vm t" "room (Suc (k + length pf)) vm"
    and ok: "\<forall>d\<in>set pf. clause_ok t d" and len: "length pf < 2 ^ 64 - 1" and m: "pm_proof m = with_property t pf"
  shows "wpr (bindR (cc_new vm t) (execS (pm_initSolver m))) (cc_for t (with_property t pf))"
  unfolding wpr_bindR
proof (rule wpr_mono[OF cc_new_empty[OF vm(1,2)]])
  fix c assume c: "cc_inv t c \<and> cc_map c = Map.empty \<and> db_clauses (cc_db c) = [] \<and> cc_vars c = vm"
  have l: "length (pm_proof m) \<le> Suc (length pf)" unfolding m by (rule with_property_props(2))
  have r: "room (0 + length (pm_proof m)) (cc_vars c)" by (rule room_mono[OF vm(3), folded conjunct2[OF conjunct2[OF conjunct2[OF c]]]]) (use l in simp)
  have okp: "\<forall>d\<in>set (pm_proof m). clause_ok t d" unfolding m by (rule with_property_props(3)[OF wf ok])
  show "wpr (execS (pm_initSolver m) c) (cc_for t (with_property t pf))"
    unfolding wpr_execS
    by (rule wp_mono[OF pm_initSolver_wp[OF _ _ _ r okp]]) (use c l len m in \<open>auto simp: cc_for_def\<close>)
qed

lemma sm_new_wp:
  assumes "tr_wf t" "vm_inv vm" "vm_owns vm t" "room (Suc (k + length pf)) vm" "\<forall>d\<in>set pf. clause_ok t d" "length pf < 2 ^ 64 - 1"
  shows "wpr (sm_new vm t pf) (\<lambda>m. pm_fresh t pf m \<and> (\<exists>c. sm_sisi m = si_new c \<and> cc_for t (with_property t pf) c))"
proof -
  obtain m where m: "pm_new t pf = Inr m" "pm_fresh t pf m"
    using pm_new_wp[OF assms(6), of t] by (auto simp: wpr_iff pm_fresh_def)
  have "pm_proof m = with_property t pf" using m(2) by (simp add: pm_fresh_def)
  note ck = checker_wp[OF assms(1-6) this]
  have "wpr (bindR (bindR (cc_new vm t) (execS (pm_initSolver m))) (\<lambda>c. Inr (minimizer.extend m \<lparr>sm_sisi = si_new c\<rparr>)))
     (\<lambda>m. pm_fresh t pf m \<and> (\<exists>c. sm_sisi m = si_new c \<and> cc_for t (with_property t pf) c))"
    by (subst wpr_bindR, rule wpr_mono[OF ck]) (use m(2) in \<open>auto simp: pm_fresh_def minimizer.defs\<close>)
  then show ?thesis by (simp add: sm_new_def m(1))
qed

lemma sp_new_wp:
  assumes "tr_wf t" "vm_inv vm" "vm_owns vm t" "room (Suc (k + length pf)) vm" "\<forall>d\<in>set pf. clause_ok t d" "length pf < 2 ^ 64 - 1"
  shows "wpr (sp_new vm t pf) (\<lambda>m. pm_fresh t pf m \<and> cc_for t (with_property t pf) (sp_solver m)
     \<and> sp_allClauses m = pm_ids (length (with_property t pf)))"
proof -
  obtain m where m: "pm_new t pf = Inr m" "pm_fresh t pf m"
    using pm_new_wp[OF assms(6), of t] by (auto simp: wpr_iff pm_fresh_def)
  have pf: "pm_proof m = with_property t pf" using m(2) by (simp add: pm_fresh_def)
  note ck = checker_wp[OF assms(1-6) pf]
  have "wpr (bindR (bindR (cc_new vm t) (execS (pm_initSolver m))) (\<lambda>c. Inr (minimizer.extend m \<lparr>sp_solver = c, sp_allClauses = pm_ids (pm_numClauses m)\<rparr>)))
     (\<lambda>m. pm_fresh t pf m \<and> cc_for t (with_property t pf) (sp_solver m) \<and> sp_allClauses m = pm_ids (length (with_property t pf)))"
    by (subst wpr_bindR, rule wpr_mono[OF ck]) (use m(2) pf in \<open>auto simp: pm_fresh_def minimizer.defs pm_numClauses_def\<close>)
  then show ?thesis by (simp add: sp_new_def m(1))
qed

lemma wp_sm_onSisi [simp]: "wp (sm_onSisi p) Q = (\<lambda>m. wp p (\<lambda>a s. Q a (m\<lparr>sm_sisi := s\<rparr>)) (sm_sisi m))"
  by (simp add: sm_onSisi_def)

text \<open>The sets the search starts from.\<close>

definition si_start :: "consecChecker \<Rightarrow> nat \<Rightarrow> clauseID \<Rightarrow> sisi" where
  "si_start c n p = \<lparr>si_solver = c, si_nec = {p}, si_feas = set (pm_ids n), si_all = pm_ids n\<rparr>"

lemma sm_initSISI_run:
  assumes "sm_sisi m = si_new c"
  shows "sm_initSISI m = Inr ((), m\<lparr>sm_sisi := si_start c (pm_numClauses m) (pm_property m)\<rparr>)"
proof -
  have "iterS (\<lambda>i. thenS (si_addToFEAS i) (si_addClause i)) is s
     = Inr ((), s\<lparr>si_feas := si_feas s \<union> set is, si_all := si_all s @ is\<rparr>)" for "is" s
    by (induction "is" arbitrary: s) (simp_all add: retS_def bindS_def thenS_def si_addToFEAS_def si_addClause_def modifyS_def)
  then show ?thesis
    by (simp add: sm_initSISI_def assms sm_onSisi_def zoomS_def bindS_def thenS_def getS_def si_addToNEC_def modifyS_def si_new_def si_start_def)
qed

lemma si_start_ok:
  assumes "cc_for t pf c" "unat p < length pf" "length pf < 2 ^ 64"
  shows "si_ok t c (si_start c (length pf) p)"
  using assms pm_ids_props(2)[OF assms(3)] by (auto simp: si_ok_def si_start_def cc_for_def id_map_def)



lemma sm_start:
  assumes m: "pm_fresh t pf m" "sm_sisi m = si_new c" "cc_for t (with_property t pf) c" and len: "length pf < 2 ^ 64 - 1"
  defines "s \<equiv> si_start c (length (with_property t pf)) (pm_property m)"
  shows "wp sm_initSISI Q m = Q () (m\<lparr>sm_sisi := s\<rparr>)" "si_ok t c s" "cc_rel t c = pf_rel t (with_property t pf)"
    "si_feas s = {i. unat i < length (with_property t pf)}" "set (si_all s) = {i. unat i < length (with_property t pf)}"
    "si_nec s = {pm_property m}"
proof -
  let ?pf = "with_property t pf" and ?p = "pm_property m"
  have mf: "pm_proof m = ?pf" "unat ?p < length ?pf" using m(1) by (simp_all add: pm_fresh_def)
  have l: "length ?pf < 2 ^ 64" using len with_property_props(2)[of t pf] by simp
  show "wp sm_initSISI Q m = Q () (m\<lparr>sm_sisi := s\<rparr>)" using sm_initSISI_run[OF m(2)] mf(1) by (simp add: wp_def s_def pm_numClauses_def)
  show "si_ok t c s" unfolding s_def by (rule si_start_ok[OF m(3) mf(2) l])
  show "cc_rel t c = pf_rel t ?pf" by (rule cc_rel_pf) (use m(3) in \<open>simp add: cc_for_def\<close>)
qed (use pm_ids_props(2)[of "length (with_property t pf)"] len with_property_props(2)[of t pf] in \<open>simp_all add: s_def si_start_def\<close>)

lemma all_ids_image:
  assumes "length pf < 2 ^ 64"
  shows "(\<lambda>i. pf ! unat i) ` {i :: clauseID. unat i < length pf} = set pf"
proof
  show "set pf \<subseteq> (\<lambda>i. pf ! unat i) ` {i :: clauseID. unat i < length pf}"
  proof
    fix d assume "d \<in> set pf"
    then obtain k where k: "k < length pf" "pf ! k = d" by (metis in_set_conv_nth)
    then obtain i :: clauseID where "unat i = k" using word_of_index assms by blast
    then show "d \<in> (\<lambda>i. pf ! unat i) ` {i :: clauseID. unat i < length pf}" using k by (intro image_eqI[of _ _ i]) auto
  qed
qed auto

text \<open>The subset of the identifiers that a set of clauses of the proof gives.\<close>

lemma safe_ids:
  assumes "Cs \<subseteq> set pf" "length pf < 2 ^ 64" "unat p < length pf" "pf ! unat p = tr_propertyClause t" "safe_clauses t Cs"
  shows "\<exists>I\<subseteq>{i :: clauseID. unat i < length pf}. safe_ind (pf_rel t pf) {p} I"
proof -
  let ?I = "{i :: clauseID. unat i < length pf \<and> pf ! unat i \<in> Cs}"
  have "(\<lambda>i. pf ! unat i) ` ?I = Cs \<inter> (\<lambda>i. pf ! unat i) ` {i :: clauseID. unat i < length pf}" by blast
  then have img: "(\<lambda>i. pf ! unat i) ` ?I = Cs" unfolding all_ids_image[OF assms(2)] using assms(1) by blast
  have "ind_set (pf_rel t pf) ?I" using ind_set_pf[of ?I pf t] assms(5) img by (simp add: safe_clauses_def)
  moreover have "p \<in> ?I" using assms(3-5) by (simp add: safe_clauses_def)
  ultimately show ?thesis by (intro exI[of _ ?I]) (auto simp: safe_ind_def)
qed

lemma sm_finish:
  assumes m: "pm_fresh t pf m"
    and run: "wp P (\<lambda>K s'. set K \<subseteq> {i. unat i < length (with_property t pf)}
      \<and> min_safe_ind (pf_rel t (with_property t pf)) {pm_property m} (set K)) s"
  shows "wp (bindS (sm_onSisi P) pm_addMinimalProof) (\<lambda>_. pm_found (min_safe_clauses t) t pf) (m\<lparr>sm_sisi := s\<rparr>)"
proof -
  have mf: "pm_proof m = with_property t pf" "with_property t pf ! unat (pm_property m) = tr_propertyClause t" "pm_minimalProofs m = []"
    using m by (simp_all add: pm_fresh_def)
  have "pm_found (min_safe_clauses t) t pf (m\<lparr>sm_sisi := s', pm_minimalProofs := [sort K]\<rparr>)"
    if K: "set K \<subseteq> {i. unat i < length (with_property t pf)}" "min_safe_ind (pf_rel t (with_property t pf)) {pm_property m} (set K)" for K s'
  proof (rule pm_found_ids)
    have lt: "\<forall>i\<in>set K. unat i < length (with_property t pf)" using K(1) by blast
    then show "\<forall>i\<in>set (sort K). unat i < length (with_property t pf)" by simp
    show "min_safe_clauses t ((\<lambda>i. with_property t pf ! unat i) ` set (sort K))" using min_safe_pf[OF lt mf(2) K(2)] by simp
  qed (use mf in simp_all)
  then show ?thesis
    by (simp add: pm_addMinimalProof_def mf(3)) (rule wp_mono[OF run], blast)
qed

context sat_backend
begin

lemma bf_doMinimize_wp:
  assumes wf: "tr_wf t" and sat: "live opt t" and m: "pm_fresh t pf m" "sm_sisi m = si_new c" "cc_for t (with_property t pf) c"
    and len: "length pf < 2 ^ 64 - 1" and safe: "\<exists>Cs\<subseteq>set (with_property t pf). safe_clauses t Cs"
  shows "wp (bf_doMinimize B opt) (\<lambda>_. pm_found (min_safe_clauses t) t pf) m"
proof -
  let ?pf = "with_property t pf" and ?p = "pm_property m"
  let ?s = "si_start c (length ?pf) ?p"
  note st = sm_start[OF m len]
  have mf: "unat ?p < length ?pf" "?pf ! unat ?p = tr_propertyClause t" using m(1) by (simp_all add: pm_fresh_def)
  have l: "length ?pf < 2 ^ 64" using len with_property_props(2)[of t pf] by simp
  have mx: "si_nec ?s \<subseteq> max_ind (cc_rel t c) (si_feas ?s)"
    unfolding cc.safe_max unfolding st(3,4,6) using safe safe_ids[OF _ l mf] by blast
  have run: "wp (si_bruteForceMinimize B opt) (\<lambda>K s'. set K \<subseteq> {i. unat i < length ?pf} \<and> min_safe_ind (pf_rel t ?pf) {?p} (set K)) ?s"
    by (rule wp_mono[OF si_bruteForceMinimize_wp[OF wf sat st(2) mx]]) (use st(3,4,6) in auto)
  show ?thesis unfolding bf_doMinimize_def wp_thenS st(1) by (rule sm_finish[OF m(1) run])
qed

text \<open>On a safe inductive proof without repeated clauses \<open>isMinimal\<close> decides minimality.\<close>

lemma min_safe_ids:
  assumes "distinct pf" "length pf < 2 ^ 64" "unat p < length pf" "pf ! unat p = tr_propertyClause t"
  shows "min_safe_ind (pf_rel t pf) {p} {i. unat i < length pf} \<longleftrightarrow> min_safe_clauses t (set pf)"
proof -
  let ?A = "{i :: clauseID. unat i < length pf}"
  note img = all_ids_image[OF assms(2)]
  have inj: "inj_on (\<lambda>i. pf ! unat i) ?A" using assms(1) by (auto intro!: inj_onI simp: nth_eq_iff_index_eq word_unat_eq_iff)
  show ?thesis
  proof
    assume "min_safe_ind (pf_rel t pf) {p} ?A"
    then show "min_safe_clauses t (set pf)" using min_safe_pf[of ?A pf p t] assms(4) img by simp
  next
    assume mn: "min_safe_clauses t (set pf)"
    have no: "\<not> safe_ind (pf_rel t pf) {p} J" if J: "J \<subset> ?A" for J
    proof
      assume sj: "safe_ind (pf_rel t pf) {p} J"
      have "(\<lambda>i. pf ! unat i) ` J \<subset> set pf" using J img image_strict_mono[OF inj J] by simp
      moreover have "safe_clauses t ((\<lambda>i. pf ! unat i) ` J)" by (rule safe_ind_pf[OF _ assms(4) sj]) (use J in blast)
      ultimately show False using mn by (simp add: min_safe_clauses_def)
    qed
    have "ind_set (pf_rel t pf) ?A" using ind_set_pf[of ?A pf t] mn img by (simp add: min_safe_clauses_def safe_clauses_def)
    then show "min_safe_ind (pf_rel t pf) {p} ?A" using no assms(3) by (simp add: min_safe_ind_def safe_ind_def)
  qed
qed

lemma bf_isMinimal_wp:
  assumes wf: "tr_wf t" and sat: "live opt t" and m: "pm_fresh t pf m" "sm_sisi m = si_new c" "cc_for t (with_property t pf) c"
    and len: "length pf < 2 ^ 64 - 1" and safe: "ind_clauses t (set (with_property t pf))" and dist: "distinct pf"
  shows "wp (bf_isMinimal B opt) (\<lambda>b _. b \<longleftrightarrow> min_safe_clauses t (set (with_property t pf))) m"
proof -
  let ?pf = "with_property t pf" and ?p = "pm_property m"
  let ?s = "si_start c (length ?pf) ?p"
  note st = sm_start[OF m len]
  have mf: "unat ?p < length ?pf" "?pf ! unat ?p = tr_propertyClause t" using m(1) by (simp_all add: pm_fresh_def)
  have l: "length ?pf < 2 ^ 64" using len with_property_props(2)[of t pf] by simp
  have d: "distinct ?pf" using dist by (simp add: with_property_def)
  have "ind_clauses t ((\<lambda>i. ?pf ! unat i) ` {i :: clauseID. unat i < length ?pf})" unfolding all_ids_image[OF l] by (rule safe)
  then have sf: "safe_ind (cc_rel t c) (si_nec ?s) (si_feas ?s)"
    unfolding st(3,4,6) using mf(1) ind_set_pf[of "{i :: clauseID. unat i < length ?pf}" ?pf t] by (simp add: safe_ind_def)
  have "wp (si_isMinimal B opt) (\<lambda>b _. b \<longleftrightarrow> min_safe_clauses t (set ?pf)) ?s"
    by (rule wp_mono[OF si_isMinimal_wp[OF wf sat st(2) sf]])
      (use min_safe_ids[OF d l mf] in \<open>simp add: st(3,4,6)\<close>)
  then show ?thesis unfolding bf_isMinimal_def wp_thenS st(1) by simp
qed


lemma sm_doMinimize_wp:
  assumes wf: "tr_wf t" and sat: "live opt t" and m: "pm_fresh t pf m" "sm_sisi m = si_new c" "cc_for t (with_property t pf) c"
    and len: "length pf < 2 ^ 64 - 1" and ind: "ind_clauses t (set (with_property t pf))"
  shows "wp (sm_doMinimize B opt) (\<lambda>_. pm_found (min_safe_clauses t) t pf) m"
proof -
  let ?pf = "with_property t pf" and ?p = "pm_property m"
  let ?s = "si_start c (length ?pf) ?p" and ?A = "{i :: clauseID. unat i < length (with_property t pf)}"
  note st = sm_start[OF m len]
  have mf: "unat ?p < length ?pf" using m(1) by (simp add: pm_fresh_def)
  have l: "length ?pf < 2 ^ 64" using len with_property_props(2)[of t pf] by simp
  have all: "ind_set (cc_rel t c) ?A"
    unfolding st(3) using ind_set_pf[of ?A ?pf t] ind unfolding all_ids_image[OF l] by simp
  let ?N = "\<lambda>F s. si_ok t c s \<and> set (si_all s) = ?A \<and> cc.all_need t c F {?p} (si_nec s)"
  have need: "?p \<in> si_nec s" if "?N F s" for F s using that by (simp add: cc.all_need_def)
  have r1: "wp (si_refineNEC B opt) (\<lambda>_. ?N ?A) ?s"
    by (rule wp_mono[OF si_refineNEC_wp[OF wf sat st(2), of "{?p}"]]) (use mf cc.all_need_base in \<open>auto simp: st(4-6)\<close>)
  have r2: "wp (si_refineFEAS B opt) (\<lambda>_ s. ?N (si_feas s) s \<and> ind_set (cc_rel t c) (si_feas s)) s" if s: "?N ?A s" for s
  proof (rule wp_mono[OF si_refineFEAS_wp[OF wf sat]])
    show "si_nec s \<noteq> {}" using need[OF s] by blast
    show "ind_set (cc_rel t c) (set (si_all s))" using s all by simp
    show "si_ok t c s" using s by simp
    fix s' assume s': "si_ok t c s' \<and> si_nec s' = si_nec s \<and> si_all s' = si_all s \<and> ind_set (cc_rel t c) (si_feas s')"
    then have "si_feas s' \<subseteq> ?A" using s by (auto simp: si_ok_def)
    then show "?N (si_feas s') s' \<and> ind_set (cc_rel t c) (si_feas s')" using s s' cc.all_need_mono by auto
  qed
  have r3: "wp (si_refineNEC B opt) (\<lambda>_ s. ?N (si_feas s) s \<and> ind_set (cc_rel t c) (si_feas s)) s"
    if s: "?N (si_feas s) s \<and> ind_set (cc_rel t c) (si_feas s)" for s
  proof (rule wp_mono[OF si_refineNEC_wp[OF wf sat]])
    show "si_ok t c s" using s by simp
    show "si_feas s \<noteq> {}" using need[of s "si_feas s"] s by (auto simp: si_ok_def)
    show "cc.all_need t c (si_feas s) {?p} (si_nec s)" using s by simp
  qed (use s in auto)
  have r4: "wp (si_bruteForceMinimize B opt) (\<lambda>K s'. set K \<subseteq> ?A \<and> min_safe_ind (pf_rel t ?pf) {?p} (set K)) s"
    if s: "?N (si_feas s) s \<and> ind_set (cc_rel t c) (si_feas s)" for s
  proof (rule wp_mono[OF si_bruteForceMinimize_wp[OF wf sat]])
    show "si_ok t c s" using s by simp
    show "si_nec s \<subseteq> max_ind (cc_rel t c) (si_feas s)" using s cc.max_ind_id[of t c "si_feas s"] by (simp add: si_ok_def)
    fix K s' assume K: "si_ok t c s' \<and> si_sets s s' \<and> sorted K \<and> distinct K \<and> set K \<subseteq> si_feas s \<and> min_safe_ind (cc_rel t c) (si_nec s) (set K)"
    then have "min_safe_ind (cc_rel t c) {?p} (set K)" using s cc.all_need_min by blast
    then show "set K \<subseteq> ?A \<and> min_safe_ind (pf_rel t ?pf) {?p} (set K)" using K s unfolding st(3) by (auto simp: si_ok_def)
  qed
  have fin: "wp (bindS (sm_onSisi (si_bruteForceMinimize B opt)) pm_addMinimalProof) (\<lambda>_. pm_found (min_safe_clauses t) t pf) (m\<lparr>sm_sisi := s\<rparr>)"
    if "?N (si_feas s) s \<and> ind_set (cc_rel t c) (si_feas s)" for s
    by (rule sm_finish[OF m(1) r4[OF that]])
  show ?thesis
    unfolding sm_doMinimize_def wp_thenS st(1) wp_sm_onSisi
  proof (simp, rule wp_mono[OF r1], goal_cases)
    case (1 a s1)
    show ?case
    proof (rule wp_mono[OF r2[OF 1]], goal_cases)
      case (1 a s2)
      show ?case
        by (rule wp_mono[OF r3[OF 1]]) (use fin in simp)
    qed
  qed
qed

end

subsection \<open>The simple minimizer\<close>

lemma wp_sp_onSolver [simp]: "wp (sp_onSolver p) Q = (\<lambda>m. wp p (\<lambda>a c. Q a (m\<lparr>sp_solver := c\<rparr>)) (sp_solver m))"
  by (simp add: sp_onSolver_def)

text \<open>What stays fixed while the supports are collected.\<close>

definition sp_inv :: "anyTR \<Rightarrow> consecChecker \<Rightarrow> simpleMin \<Rightarrow> simpleMin \<Rightarrow> bool" where
  "sp_inv t c m0 m = (minimizer.truncate m = minimizer.truncate m0 \<and> sp_allClauses m = sp_allClauses m0
     \<and> cc_inv t (sp_solver m) \<and> cc_keep c (sp_solver m))"

lemma cc_keep_ids: "cc_keep c c' \<Longrightarrow> db_clauses (cc_db c') = db_clauses (cc_db c)"
  by (simp add: cc_keep_def)

context sat_backend
begin

lemma sp_computeSupport_wp:
  assumes wf: "tr_wf t" and sat: "live opt t" and inv: "sp_inv t c m0 m" and c: "cc_for t pf c" "sp_allClauses m0 = pm_ids (length pf)"
    and len: "length pf < 2 ^ 64" and all: "ind_set (pf_rel t pf) {i. unat i < length pf}" and i: "unat i < length pf"
  shows "wp (sp_computeSupport B opt use_min i) (\<lambda>s m'. sp_inv t c m0 m' \<and> set s \<subseteq> {i. unat i < length pf} \<and> length s \<le> length pf
     \<and> pf_rel t pf (set s) i) m"
proof -
  have iv: "cc_inv t (sp_solver m)" "cc_keep c (sp_solver m)" using inv by (simp_all add: sp_inv_def)
  note eqs = cc_keep_eqs[OF iv(2)]
  have cm: "cc_map c = id_map pf" using c(1) by (simp add: cc_for_def)
  have rel: "cc_rel t c = pf_rel t pf" by (rule cc_rel_pf[OF cm])
  have ids: "set (pm_ids (length pf)) = {i. unat i < length pf}" "length (pm_ids (length pf)) = length pf" using pm_ids_props[OF len] by simp_all
  have kn: "set (pm_ids (length pf)) \<subseteq> dom (cc_map (sp_solver m))" "i \<in> dom (cc_map (sp_solver m))"
    using eqs(1) cm ids i by (auto simp: id_map_def)
  have ri: "cc_rel t (sp_solver m) (set (pm_ids (length pf))) i" using eqs rel all i ids by (simp add: ind_set_def)
  show ?thesis
  proof (cases use_min)
    case True
    have ac: "sp_allClauses m = pm_ids (length pf)" using inv c(2) by (simp add: sp_inv_def)
    show ?thesis using True
      by (simp add: sp_computeSupport_def ac, intro wp_mono[OF findMinimalSupportID_wp[OF wf iv(1) sat kn]])
        (use inv ri eqs rel ids cc_keep_trans[OF iv(2)] in \<open>auto simp: sp_inv_def minimizer.defs\<close>)
  next
    case False
    have eq: "cc_supportSolveAllID B opt i [] (sp_solver m) = cc_supportSolveID B opt (pm_ids (length pf)) i [] (sp_solver m)"
    proof -
      have "map fst (db_clauses (cc_db (sp_solver m))) = pm_ids (length pf)"
        using c(1) cc_keep_ids[OF iv(2)] by (simp add: cc_for_def)
      then show ?thesis by (simp add: cc_supportSolveAllID_def cc_supportSolveID_def cc_supportSolveAll_def bindS_def getS_def liftS_def split: sum.splits)
    qed
    have "wp (cc_supportSolveAllID B opt i []) (\<lambda>(r, s) c'. cc_inv t c' \<and> cc_keep c c' \<and> r \<and> set s \<subseteq> set (pm_ids (length pf)) \<and> distinct s
        \<and> pf_rel t pf (set s) i) (sp_solver m)"
      unfolding wp_def eq
      by (fold wp_def, rule wp_mono[OF cc_supportSolveID_wp[OF wf iv(1) sat kn]])
        (use ri eqs rel cc_keep_trans[OF iv(2) cc_same_keep] in auto)
    then have "wp (cc_supportSolveAllID B opt i []) (\<lambda>p c'. wp (case p of (ind, support) \<Rightarrow> thenS (assertS ind) (retS support))
       (\<lambda>s m'. sp_inv t c m0 m' \<and> set s \<subseteq> {i. unat i < length pf} \<and> length s \<le> length pf \<and> pf_rel t pf (set s) i)
       (m\<lparr>sp_solver := c'\<rparr>)) (sp_solver m)"
    proof (rule wp_mono, goal_cases)
      case (1 p c')
      obtain r s where p: "p = (r, s)" by (cases p)
      have "length s \<le> length pf" if "set s \<subseteq> set (pm_ids (length pf))" "distinct s"
        using card_mono[OF _ that(1)] distinct_card[OF that(2)] card_length[of "pm_ids (length pf)"] ids(2) by simp
      then show ?case using 1 inv ids by (auto simp: p sp_inv_def minimizer.defs)
    qed
    then show ?thesis using False unfolding sp_computeSupport_def wp_bindS if_False wp_sp_onSolver by simp
  qed
qed


lemma sp_loop_wp:
  fixes t pf
  defines "A \<equiv> {i :: clauseID. unat i < length pf}"
  assumes wf: "tr_wf t" and sat: "live opt t" and c: "cc_for t pf c" "sp_allClauses m0 = pm_ids (length pf)"
    and len: "length pf < 2 ^ 64" and all: "ind_set (pf_rel t pf) A"
  shows "sp_inv t c m0 m \<Longrightarrow> nec \<subseteq> A \<Longrightarrow> supported \<subseteq> nec \<Longrightarrow> nec - supported \<subseteq> set q \<Longrightarrow> set q \<subseteq> nec
    \<Longrightarrow> (\<forall>x\<in>supported. pf_rel t pf nec x) \<Longrightarrow> length q + (length pf - card supported) * length pf < fuel
    \<Longrightarrow> wp (sp_loop B opt use_min fuel supported nec q) (\<lambda>N m'. sp_inv t c m0 m' \<and> nec \<subseteq> N \<and> N \<subseteq> A \<and> ind_set (pf_rel t pf) N) m"
proof (induction fuel arbitrary: supported nec q m)
  case 0
  then show ?case by simp
next
  case (Suc fuel supported nec q0)
  note rel_mono = pr.rel_mono[of _ _ t pf]
  have A: "finite A" "card A = length pf"
    using pm_ids_props[OF len] distinct_card[of "pm_ids (length pf)"] by (simp_all add: A_def flip: pm_ids_props(2)[OF len])
  show ?case
  proof (cases q0)
    case Nil
    then show ?thesis using Suc.prems by (auto simp: ind_set_def)
  next
  case (Cons i q)
  note prems = Suc.prems[unfolded Cons]
  show ?thesis
  proof (cases "i \<in> supported")
    case True
    then show ?thesis using Suc.IH[OF prems(1-3), of q] prems Cons by auto
  next
    case False
    have iA: "i \<in> A" "unat i < length pf" using prems(2,5) by (auto simp: A_def)
    have sub: "supported \<subseteq> A" using prems(2,3) by blast
    have "card (insert i supported) \<le> card A" by (rule card_mono[OF A(1)]) (use sub iA in blast)
    then have cs: "card (insert i supported) = Suc (card supported)" "card supported < length pf"
      using False A sub finite_subset by (auto simp: card_insert_if)
    have step: "wp (sp_loop B opt use_min fuel (insert i supported) (nec \<union> set s) (q @ filter (\<lambda>s. s \<notin> supported) s))
       (\<lambda>N m'. sp_inv t c m0 m' \<and> nec \<subseteq> N \<and> N \<subseteq> A \<and> ind_set (pf_rel t pf) N) m'"
      if s: "sp_inv t c m0 m'" "set s \<subseteq> A" "length s \<le> length pf" "pf_rel t pf (set s) i" for s m'
    proof (rule wp_mono[OF Suc.IH[OF s(1)]])
      show "nec \<union> set s \<subseteq> A" using prems(2) s(2) by blast
      show "insert i supported \<subseteq> nec \<union> set s" using prems(3,5) by auto
      show "nec \<union> set s - insert i supported \<subseteq> set (q @ filter (\<lambda>s. s \<notin> supported) s)" using prems(4) by auto
      show "set (q @ filter (\<lambda>s. s \<notin> supported) s) \<subseteq> nec \<union> set s" using prems(5) by auto
      show "\<forall>x\<in>insert i supported. pf_rel t pf (nec \<union> set s) x" using prems(6) s(4) rel_mono by blast
      obtain k where k: "length pf - card supported = Suc k" "length pf - card (insert i supported) = k"
        using cs by (metis Suc_diff_Suc)
      have "length (filter (\<lambda>s. s \<notin> supported) s) \<le> length pf" using s(3) length_filter_le order_trans by blast
      then show "length (q @ filter (\<lambda>s. s \<notin> supported) s) + (length pf - card (insert i supported)) * length pf < fuel"
        using prems(7) unfolding k by simp
    qed auto
    have "wp (sp_computeSupport B opt use_min i) (\<lambda>support. wp (sp_loop B opt use_min fuel (insert i supported) (nec \<union> set support)
       (q @ filter (\<lambda>s. s \<notin> supported) support)) (\<lambda>N m'. sp_inv t c m0 m' \<and> nec \<subseteq> N \<and> N \<subseteq> A \<and> ind_set (pf_rel t pf) N)) m"
      by (rule wp_mono[OF sp_computeSupport_wp[OF wf sat prems(1) c len all[unfolded A_def] iA(2)]]) (use step in \<open>simp add: A_def\<close>)
    then show ?thesis using False Cons by simp
  qed
  qed
qed

text \<open>The clauses found are safe and inductive; they need not be minimal.\<close>

lemma sp_doMinimize_wp:
  assumes wf: "tr_wf t" and sat: "live opt t" and m: "pm_fresh t pf m" "cc_for t (with_property t pf) (sp_solver m)"
      "sp_allClauses m = pm_ids (length (with_property t pf))"
    and len: "length pf < 2 ^ 64 - 1" and ind: "ind_clauses t (set (with_property t pf))"
  shows "wp (sp_doMinimize B opt use_min) (\<lambda>_. pm_found (safe_clauses t) t pf) m"
proof -
  let ?pf = "with_property t pf" and ?p = "pm_property m" and ?A = "{i :: clauseID. unat i < length (with_property t pf)}"
  have mf: "pm_proof m = ?pf" "unat ?p < length ?pf" "?pf ! unat ?p = tr_propertyClause t" "pm_minimalProofs m = []"
    using m(1) by (simp_all add: pm_fresh_def)
  have l: "length ?pf < 2 ^ 64" using len with_property_props(2)[of t pf] by simp
  have all: "ind_set (pf_rel t ?pf) ?A" using ind_set_pf[of ?A ?pf t] ind unfolding all_ids_image[OF l] by simp
  have inv: "sp_inv t (sp_solver m) m m" using m(2) by (simp add: sp_inv_def cc_for_def)
  have run: "wp (sp_loop B opt use_min (sp_fuel (length ?pf)) {} {?p} [?p]) (\<lambda>N m'. sp_inv t (sp_solver m) m m' \<and> {?p} \<subseteq> N \<and> N \<subseteq> ?A
      \<and> ind_set (pf_rel t ?pf) N) m"
    by (rule sp_loop_wp[OF wf sat m(2,3) l all inv]) (use mf in \<open>auto simp: sp_fuel_def\<close>)
  have fin: "pm_found (safe_clauses t) t pf (m'\<lparr>pm_minimalProofs := pm_minimalProofs m' @ [sort (sorted_list_of_set N)]\<rparr>)"
    if a: "sp_inv t (sp_solver m) m m' \<and> {?p} \<subseteq> N \<and> N \<subseteq> ?A \<and> ind_set (pf_rel t ?pf) N" for N m'
  proof (rule pm_found_ids)
    have t: "pm_proof m' = pm_proof m" "pm_minimalProofs m' = pm_minimalProofs m"
      using a by (simp_all add: sp_inv_def minimizer.defs)
    have f: "finite N" by (rule finite)
    have lt: "\<forall>i\<in>N. unat i < length ?pf" using a by blast
    show "pm_proof (m'\<lparr>pm_minimalProofs := pm_minimalProofs m' @ [sort (sorted_list_of_set N)]\<rparr>) = ?pf" using t mf by simp
    show "pm_minimalProofs (m'\<lparr>pm_minimalProofs := pm_minimalProofs m' @ [sort (sorted_list_of_set N)]\<rparr>) = [sort (sorted_list_of_set N)]"
      using t mf by simp
    show "\<forall>i\<in>set (sort (sorted_list_of_set N)). unat i < length ?pf" using lt f by simp
    have "safe_ind (pf_rel t ?pf) {?p} N" using a by (simp add: safe_ind_def)
    then show "safe_clauses t ((\<lambda>i. ?pf ! unat i) ` set (sort (sorted_list_of_set N)))" using safe_ind_pf[OF lt mf(3)] f by simp
  qed
  show ?thesis
    unfolding sp_doMinimize_def wp_bindS wp_getS pm_numClauses_def mf(1)
    by (rule wp_mono[OF run]) (use fin in \<open>simp add: pm_addMinimalProof_def\<close>)
qed

end

subsection \<open>From the proof that is given to the proof that is returned\<close>

lemma pm_found_proof:
  assumes "pm_found P t pf m" "\<And>Cs. P Cs \<Longrightarrow> safe_clauses t Cs" "sp_initiation t (with_property t pf)"
  shows "\<exists>Cs. pm_numProofs m = 1 \<and> pm_getProof m 0 = Inr Cs \<and> set Cs \<subseteq> set (with_property t pf) \<and> sp_proof t Cs \<and> P (set Cs)"
  using assms safe_clauses_proof unfolding pm_found_def by blast

context sat_backend
begin

lemma sisi_minimize:
  assumes "tr_wf t" "live opt t" "vm_inv vm" "vm_owns vm t" "room (Suc (length pf)) vm" "\<forall>d\<in>set pf. clause_ok t d" "length pf < 2 ^ 64 - 1"
    and "ind_clauses t (set (with_property t pf))"
  shows "wpr (bindR (sm_new vm t pf) (execS (sm_doMinimize B opt))) (pm_found (min_safe_clauses t) t pf)"
  unfolding wpr_bindR
  by (rule wpr_mono[OF sm_new_wp[OF assms(1,3,4), of 0 pf]])
    (use assms sm_doMinimize_wp[OF assms(1,2) _ _ _ assms(7,8)] in auto)

lemma brute_force_minimize:
  assumes "tr_wf t" "live opt t" "vm_inv vm" "vm_owns vm t" "room (Suc (length pf)) vm" "\<forall>d\<in>set pf. clause_ok t d" "length pf < 2 ^ 64 - 1"
    and "\<exists>Cs\<subseteq>set (with_property t pf). safe_clauses t Cs"
  shows "wpr (bindR (sm_new vm t pf) (execS (bf_doMinimize B opt))) (pm_found (min_safe_clauses t) t pf)"
  unfolding wpr_bindR
  by (rule wpr_mono[OF sm_new_wp[OF assms(1,3,4), of 0 pf]])
    (use assms bf_doMinimize_wp[OF assms(1,2) _ _ _ assms(7,8)] in auto)

lemma brute_force_isMinimal:
  assumes "tr_wf t" "live opt t" "vm_inv vm" "vm_owns vm t" "room (Suc (length pf)) vm" "\<forall>d\<in>set pf. clause_ok t d" "length pf < 2 ^ 64 - 1"
    and "ind_clauses t (set (with_property t pf))" "distinct pf"
  shows "wpr (bindR (sm_new vm t pf) (evalS (bf_isMinimal B opt))) (\<lambda>b. b \<longleftrightarrow> min_safe_clauses t (set (with_property t pf)))"
  unfolding wpr_bindR
  by (rule wpr_mono[OF sm_new_wp[OF assms(1,3,4), of 0 pf]])
    (use assms bf_isMinimal_wp[OF assms(1,2) _ _ _ assms(7-9)] in auto)

lemma simple_minimize:
  assumes "tr_wf t" "live opt t" "vm_inv vm" "vm_owns vm t" "room (Suc (length pf)) vm" "\<forall>d\<in>set pf. clause_ok t d" "length pf < 2 ^ 64 - 1"
    and "ind_clauses t (set (with_property t pf))"
  shows "wpr (bindR (sp_new vm t pf) (execS (sp_doMinimize B opt use_min))) (pm_found (safe_clauses t) t pf)"
  unfolding wpr_bindR
  by (rule wpr_mono[OF sp_new_wp[OF assms(1,3,4), of 0 pf]])
    (use assms sp_doMinimize_wp[OF assms(1,2) _ _ _ assms(7,8)] in auto)

end

end
