(* ===== verification/SortingNet.thy ===== *)
theory SortingNet
  imports VarManager
begin

text \<open>
  \<open>src/src/pme/util/sorting_network.{h,cpp}\<close>: odd-even merge networks, sorting networks and
  cardinality networks as CNF.  A network is the pair of its output literals and its clauses; the
  fresh variables come from the variable manager, which is the state of the computation.  With
  \<open>le\<close> the clauses push true inputs to the front of the outputs, with \<open>ge\<close> they push false
  inputs to the back.
\<close>

type_synonym cnfNetwork = "id list \<times> clauseVec"

definition freshVars :: "nat \<Rightarrow> (varManager, id list) sm" where
  "freshVars n = mapS (\<lambda>_. getNewID) [0..<n]"

fun takeOdd :: "'a list \<Rightarrow> 'a list" where
  "takeOdd [] = []"
| "takeOdd [x] = []"
| "takeOdd (x # y # v) = y # takeOdd v"

fun takeEven :: "'a list \<Rightarrow> 'a list" where
  "takeEven [] = []"
| "takeEven [x] = [x]"
| "takeEven (x # y # v) = x # takeEven v"

definition partialComp :: "id \<Rightarrow> id \<Rightarrow> id \<Rightarrow> bool \<Rightarrow> bool \<Rightarrow> clauseVec res" where
  "partialComp x_1 x_2 y le ge = assertR (le \<or> ge)
     (Inr ((if le then [[negate x_1, y], [negate x_2, y]] else []) @
           (if ge then [[x_1, x_2, negate y]] else [])))"

definition comp :: "id \<Rightarrow> id \<Rightarrow> id \<Rightarrow> id \<Rightarrow> bool \<Rightarrow> bool \<Rightarrow> clauseVec res" where
  "comp x_1 x_2 y_1 y_2 le ge = assertR (le \<or> ge)
     (Inr ((if le then [[negate x_1, y_1], [negate x_2, y_1], [negate x_1, negate x_2, y_2]] else []) @
           (if ge then [[x_1, negate y_2], [x_2, negate y_2], [x_1, x_2, negate y_1]] else [])))"

definition compHalf :: "id \<Rightarrow> id \<Rightarrow> id \<Rightarrow> id \<Rightarrow> clauseVec res" where
  "compHalf x_1 x_2 y_1 y_2 = comp x_1 x_2 y_1 y_2 True False"

definition compFull :: "id \<Rightarrow> id \<Rightarrow> id \<Rightarrow> id \<Rightarrow> clauseVec res" where
  "compFull x_1 x_2 y_1 y_2 = comp x_1 x_2 y_1 y_2 True True"

text \<open>The \<open>while\<close> loop of the case \<open>diff == 2\<close>; the result is \<open>merged\<close> and \<open>i_even\<close>.\<close>

fun zipperLoop :: "id list \<Rightarrow> nat \<Rightarrow> id list \<Rightarrow> nat \<Rightarrow> id list \<Rightarrow> (id list \<times> nat) res" where
  "zipperLoop evens a merged i_even [] = Inr (merged, i_even)"
| "zipperLoop evens a merged i_even (o_i # odds) =
    bindR (atR evens i_even) (\<lambda>e.
      let merged1 = merged @ [e, o_i]; i1 = i_even + 1 in
      if length merged1 = a + 1
      then bindR (atR evens i1) (\<lambda>e'. zipperLoop evens a (merged1 @ [e']) (i1 + 1) odds)
      else zipperLoop evens a merged1 i1 odds)"

fun interleave :: "id list \<Rightarrow> id list \<Rightarrow> id list res" where
  "interleave evens [] = Inr []"
| "interleave [] (o_i # odds) = Inl OutOfRange"
| "interleave (e # evens) (o_i # odds) = bindR (interleave evens odds) (\<lambda>m. Inr (e # o_i # m))"

definition zipperMerge :: "id list \<Rightarrow> id list \<Rightarrow> nat \<Rightarrow> nat \<Rightarrow> id list res" where
  "zipperMerge evens odds a b =
    assertR (length evens \<ge> length odds)
     (let diff = length evens - length odds in
      assertR (diff \<le> 2)
     (assertR (diff = 0 \<longrightarrow> a mod 2 = 0 \<and> b mod 2 = 0)
     (assertR (diff = 1 \<longrightarrow> a mod 2 \<noteq> b mod 2)
     (assertR (diff = 2 \<longrightarrow> a mod 2 = 1 \<and> a mod 2 = 1)
       (if diff \<le> 1 then
          bindR (interleave evens odds) (\<lambda>merged.
            if diff = 1 then bindR (backR evens) (\<lambda>e. Inr (merged @ [e])) else Inr merged)
        else
          assertR (diff = 2)
            (bindR (zipperLoop evens a [] 0 odds) (\<lambda>(merged, i_even).
               assertR (i_even = length evens - 1)
                 (bindR (backR evens) (\<lambda>e. Inr (merged @ [e]))))))))))"

text \<open>The comparator loop of \<open>mergeNetwork\<close> over \<open>z[1], z[2], ...\<close>: new outputs and clauses.\<close>

fun mergeLoop :: "id list \<Rightarrow> bool \<Rightarrow> bool \<Rightarrow> (varManager, cnfNetwork) sm" where
  "mergeLoop (z_i1 # z_i2 # zs) le ge =
    bindS getNewID (\<lambda>y_i1. bindS getNewID (\<lambda>y_i2.
    bindS (liftS (comp z_i1 z_i2 y_i1 y_i2 le ge)) (\<lambda>comp_cnf.
    bindS (mergeLoop zs le ge) (\<lambda>(ys, cnf). retS (y_i1 # y_i2 # ys, comp_cnf @ cnf)))))"
| "mergeLoop zs le ge = retS ([], [])"

lemma length_takeOdd [simp]: "length (takeOdd v) = length v div 2"
  by (induction v rule: takeOdd.induct) auto

lemma length_takeEven [simp]: "length (takeEven v) = (length v + 1) div 2"
  by (induction v rule: takeEven.induct) auto

text \<open>The recursion of the merge networks halves both inputs.\<close>

lemma halves_shrink:
  fixes a b m n :: nat
  assumes "a \<le> m" "b \<le> n" "a \<le> b" "a \<noteq> 0" "\<not> (a = 1 \<and> b = 1)"
  shows "a div 2 + b div 2 < m + n" "(a + 1) div 2 + (b + 1) div 2 < m + n"
proof -
  have "a div 2 + b div 2 < a + b" "(a + 1) div 2 + (b + 1) div 2 < a + b"
  proof -
    have n: "a + b > 2" using assms(3-5) by linarith
    have d: "a div 2 * 2 \<le> a" "b div 2 * 2 \<le> b" "(a + 1) div 2 * 2 \<le> a + 1" "(b + 1) div 2 * 2 \<le> b + 1"
      by (rule div_times_less_eq_dividend)+
    show "a div 2 + b div 2 < a + b" "(a + 1) div 2 + (b + 1) div 2 < a + b"
      using n d by linarith+
  qed
  then show "a div 2 + b div 2 < m + n" "(a + 1) div 2 + (b + 1) div 2 < m + n"
    using assms(1,2) by linarith+
qed

function mergeNetwork :: "id list \<Rightarrow> id list \<Rightarrow> bool \<Rightarrow> bool \<Rightarrow> (varManager, cnfNetwork) sm" where
  "mergeNetwork inputs_a inputs_b le ge =
    (let a_vec = (if length inputs_a \<le> length inputs_b then inputs_a else inputs_b);
         b_vec = (if length inputs_a \<le> length inputs_b then inputs_b else inputs_a);
         a = length a_vec; b = length b_vec in
     thenS (assertS (a \<le> b)) (thenS (assertS (le \<or> ge))
      (if a = 1 \<and> b = 1 then
         bindS (freshVars 2) (\<lambda>outputs.
         bindS (liftS (atR a_vec 0)) (\<lambda>x_a. bindS (liftS (atR b_vec 0)) (\<lambda>x_b.
         bindS (liftS (atR outputs 0)) (\<lambda>y_0. bindS (liftS (atR outputs 1)) (\<lambda>y_1.
         bindS (liftS (comp x_a x_b y_0 y_1 le ge)) (\<lambda>cnf. retS (outputs, cnf)))))))
       else if a_vec = [] then retS (b_vec, [])
       else
         bindS (mergeNetwork (takeOdd a_vec) (takeOdd b_vec) le ge) (\<lambda>(z_odd, odd_cnf).
         bindS (mergeNetwork (takeEven a_vec) (takeEven b_vec) le ge) (\<lambda>(z_even, even_cnf).
         bindS (liftS (zipperMerge z_even z_odd a b)) (\<lambda>z.
         bindS (liftS (atR z 0)) (\<lambda>z_0.
         bindS (mergeLoop (drop 1 z) le ge) (\<lambda>(ys, comp_cnf).
         let outputs = z_0 # ys; cnf = odd_cnf @ even_cnf @ comp_cnf in
         if (a + b) mod 2 = 0 then
           thenS (assertS (length outputs = a + b - 1))
             (bindS (liftS (backR z)) (\<lambda>l. retS (outputs @ [l], cnf)))
         else retS (outputs, cnf)))))))))"
  by pat_completeness auto
termination
proof (relation "measure (\<lambda>(a, b, le, ge). length a + length b)")
  fix A B :: "id list" and le ge x y a b
  assume x: "x = (if length A \<le> length B then A else B)" and y: "y = (if length A \<le> length B then B else A)"
    and ab: "a = length x" "b = length y" "\<not> (a = 1 \<and> b = 1)" "x \<noteq> []"
  have "length x \<le> length y" "length x + length y = length A + length B" using x y by auto
  then show "((takeOdd x, takeOdd y, le, ge), A, B, le, ge) \<in> measure (\<lambda>(a, b, le, ge). length a + length b)"
    "\<And>xa ya xb yb. ((takeEven x, takeEven y, le, ge), A, B, le, ge) \<in> measure (\<lambda>(a, b, le, ge). length a + length b)"
    using halves_shrink[of a "length x" b "length y"] ab by auto
qed simp

declare mergeNetwork.simps [simp del]

function sortingNetwork :: "id list \<Rightarrow> bool \<Rightarrow> bool \<Rightarrow> (varManager, cnfNetwork) sm" where
  "sortingNetwork inputs le ge =
    (let n = length inputs in
     if n = 0 then failS AssertFail
       else if n = 1 then retS (inputs, [])
       else if n = 2 then
         bindS (liftS (atR inputs 0)) (\<lambda>x_1. bindS (liftS (atR inputs 1)) (\<lambda>x_2.
           mergeNetwork [x_1] [x_2] le ge))
       else
         let l = n div 2; inputs_left = take l inputs; inputs_right = drop l inputs in
         thenS (assertS (length inputs_left + length inputs_right = length inputs))
         (bindS (sortingNetwork inputs_left le ge) (\<lambda>(outputs_left, cnf_left).
          bindS (sortingNetwork inputs_right le ge) (\<lambda>(outputs_right, cnf_right).
          bindS (mergeNetwork outputs_left outputs_right le ge) (\<lambda>(outputs, cnf_merge).
            retS (outputs, cnf_left @ cnf_right @ cnf_merge))))))"
  by pat_completeness auto

termination
proof (relation "measure (\<lambda>(inputs, le, ge). length inputs)")
  fix inputs :: "id list" and le ge n l left right
  assume n: "n = length inputs" "n \<noteq> 0" "n \<noteq> 1" "n \<noteq> 2" and l: "l = n div 2"
    and lr: "left = take l inputs" "right = drop l inputs"
  have "l < n" "0 < l" using n l by linarith+
  then show "((left, le, ge), inputs, le, ge) \<in> measure (\<lambda>(inputs, le, ge). length inputs)"
    "\<And>xd xe. ((right, le, ge), inputs, le, ge) \<in> measure (\<lambda>(inputs, le, ge). length inputs)"
    using n(1) lr by simp_all
qed simp

declare sortingNetwork.simps [simp del]

text \<open>The loops of \<open>simpMergeNetwork\<close> comparing \<open>z_even[i + 1]\<close> with \<open>z_odd[i]\<close>.\<close>

fun simpMergeLoop :: "id list \<Rightarrow> id list \<Rightarrow> bool \<Rightarrow> bool \<Rightarrow> nat \<Rightarrow> nat \<Rightarrow> (varManager, cnfNetwork) sm" where
  "simpMergeLoop z_even z_odd le ge i 0 = retS ([], [])"
| "simpMergeLoop z_even z_odd le ge i (Suc k) =
    bindS (liftS (atR z_even (i + 1))) (\<lambda>x_1. bindS (liftS (atR z_odd i)) (\<lambda>x_2.
    bindS getNewID (\<lambda>y_1. bindS getNewID (\<lambda>y_2.
    bindS (liftS (comp x_1 x_2 y_1 y_2 le ge)) (\<lambda>comp_cnf.
    bindS (simpMergeLoop z_even z_odd le ge (i + 1) k) (\<lambda>(ys, cnf).
      retS (y_1 # y_2 # ys, comp_cnf @ cnf)))))))"

function simpMergeNetwork ::
  "id list \<Rightarrow> id list \<Rightarrow> nat \<Rightarrow> bool \<Rightarrow> bool \<Rightarrow> (varManager, cnfNetwork) sm" where
  "simpMergeNetwork inputs_a inputs_b c le ge =
    (let a_vec = take c (if length inputs_a \<le> length inputs_b then inputs_a else inputs_b);
         b_vec = take c (if length inputs_a \<le> length inputs_b then inputs_b else inputs_a);
         a = length a_vec; b = length b_vec in
     thenS (assertS (a \<le> b)) (thenS (assertS (b \<le> c)) (thenS (assertS (le \<or> ge))
      (if a = 0 then retS (b_vec, [])
       else if a = 1 \<and> b = 1 \<and> c = 1 then
         bindS getNewID (\<lambda>y.
         bindS (liftS (atR a_vec 0)) (\<lambda>x_a. bindS (liftS (atR b_vec 0)) (\<lambda>x_b.
         bindS (liftS (partialComp x_a x_b y le ge)) (\<lambda>or_cnf. retS ([y], or_cnf)))))
       else if a + b \<le> c then mergeNetwork a_vec b_vec le ge
       else
         let is_even = (c mod 2 = 0);
             odd_size = (if is_even then c div 2 else (c - 1) div 2);
             even_size = (if is_even then c div 2 + 1 else (c + 1) div 2) in
         bindS (simpMergeNetwork (takeOdd a_vec) (takeOdd b_vec) odd_size le ge) (\<lambda>(z_odd, odd_cnf).
         bindS (simpMergeNetwork (takeEven a_vec) (takeEven b_vec) even_size le ge) (\<lambda>(z_even, even_cnf).
         bindS (liftS (atR z_even 0)) (\<lambda>z_0.
         if is_even then
           thenS (assertS (length z_even = c div 2 + 1)) (thenS (assertS (length z_odd = c div 2))
           (bindS (simpMergeLoop z_even z_odd le ge 0 (c div 2 - 1)) (\<lambda>(ys, comp_cnf).
            bindS getNewID (\<lambda>y_c.
            bindS (liftS (backR z_even)) (\<lambda>x_e. bindS (liftS (backR z_odd)) (\<lambda>x_o.
            bindS (liftS (partialComp x_e x_o y_c le ge)) (\<lambda>or_cnf.
              retS (z_0 # ys @ [y_c], odd_cnf @ even_cnf @ comp_cnf @ or_cnf))))))))
         else
           thenS (assertS (length z_odd = (c - 1) div 2)) (thenS (assertS (length z_even = (c + 1) div 2))
           (bindS (simpMergeLoop z_even z_odd le ge 0 ((c - 1) div 2)) (\<lambda>(ys, comp_cnf).
              retS (z_0 # ys, odd_cnf @ even_cnf @ comp_cnf)))))))))))"
  by pat_completeness auto
termination
proof (relation "measure (\<lambda>(a, b, c, le, ge). length a + length b)")
  fix A B :: "id list" and c le ge x y a b ev c1 c2
  assume x: "x = take c (if length A \<le> length B then A else B)"
    and y: "y = take c (if length A \<le> length B then B else A)"
    and ab: "a = length x" "b = length y" "\<not> (a = 1 \<and> b = 1 \<and> c = 1)" "a \<noteq> 0" "\<not> a + b \<le> c"
  have "min (length A) (length B) + max (length A) (length B) = length A + length B"
    "length x \<le> length y" "length x \<le> min (length A) (length B)" "length y \<le> max (length A) (length B)"
    "length y \<le> c"
    using x y by auto
  then show "((takeOdd x, takeOdd y, c1, le, ge), A, B, c, le, ge)
      \<in> measure (\<lambda>(a, b, c, le, ge). length a + length b)"
    "\<And>xa ya xb yb. ((takeEven x, takeEven y, c2, le, ge), A, B, c, le, ge)
      \<in> measure (\<lambda>(a, b, c, le, ge). length a + length b)"
    using halves_shrink[of a "min (length A) (length B)" b "max (length A) (length B)"] ab by auto
qed simp

declare simpMergeNetwork.simps [simp del]

function cardinalityNetwork :: "id list \<Rightarrow> nat \<Rightarrow> bool \<Rightarrow> bool \<Rightarrow> (varManager, cnfNetwork) sm" where
  "cardinalityNetwork inputs m le ge =
    (let n = length inputs in
     if n = 0 then failS AssertFail
     else if m = 0 then failS AssertFail
     else if n \<le> m then sortingNetwork inputs le ge
     else if n < 2 then failS AssertFail
     else let l = n div 2; size_left = min l m; size_right = min (n - l) m in
          bindS (cardinalityNetwork (take l inputs) m le ge) (\<lambda>(outputs_left, cnf_left).
          bindS (cardinalityNetwork (drop l inputs) m le ge) (\<lambda>(outputs_right, cnf_right).
          thenS (assertS (length outputs_left = size_left))
          (thenS (assertS (length outputs_right = size_right))
          (bindS (simpMergeNetwork outputs_left outputs_right m le ge) (\<lambda>(outputs, cnf_merge).
            retS (outputs, cnf_left @ cnf_right @ cnf_merge)))))))"
  by pat_completeness auto
termination
  by (relation "measure (\<lambda>(inputs, m, le, ge). length inputs)") (simp, force, force)

declare cardinalityNetwork.simps [simp del]

end
