(* ===== verification/Encoding.thy ===== *)
theory Encoding
  imports VarManager
begin

text \<open>
  What it means for clauses over freshly allocated variables to be a definitional extension:
  every assignment of the variables that existed before extends to one that satisfies them.  The
  encodings of the sorting networks, of the cardinality constraints and of the unrolled circuit
  are composed from such steps.
\<close>

definition fresh_ext :: "varManager \<Rightarrow> varManager \<Rightarrow> clauseVec \<Rightarrow> bool" where
  "fresh_ext vm vm' cnf =
    ((\<forall>v. old_var vm v \<longrightarrow> old_var vm' v)
     \<and> (\<forall>v\<in>cnf_vars cnf. old_var vm' v)
     \<and> (\<forall>\<sigma>. \<exists>\<tau>. (\<forall>v. old_var vm v \<longrightarrow> \<tau> v = \<sigma> v) \<and> cnf_sat \<tau> cnf))"

lemma fresh_ext_refl [simp]: "fresh_ext vm vm []"
  by (auto simp: fresh_ext_def)

lemma fresh_ext_old: "fresh_ext vm vm' cnf \<Longrightarrow> old_lit vm l \<Longrightarrow> old_lit vm' l"
  by (simp add: fresh_ext_def old_lit_def)

lemma fresh_ext_trans:
  assumes a: "fresh_ext vm vm1 c1" and b: "fresh_ext vm1 vm2 c2"
  shows "fresh_ext vm vm2 (c1 @ c2)"
  unfolding fresh_ext_def
proof (intro conjI allI ballI impI)
  show "old_var vm2 v" if "old_var vm v" for v
    using a b that by (simp add: fresh_ext_def)
  show "old_var vm2 v" if "v \<in> cnf_vars (c1 @ c2)" for v
    using a b that by (auto simp: fresh_ext_def)
  fix \<sigma>
  obtain \<tau>1 where t1: "\<And>v. old_var vm v \<Longrightarrow> \<tau>1 v = \<sigma> v" "cnf_sat \<tau>1 c1"
    using a unfolding fresh_ext_def by blast
  obtain \<tau> where t: "\<And>v. old_var vm1 v \<Longrightarrow> \<tau> v = \<tau>1 v" "cnf_sat \<tau> c2"
    using b unfolding fresh_ext_def by blast
  have "cnf_sat \<tau> c1"
    using t1(2) t(1) a cnf_sat_agree[of c1 \<tau> \<tau>1] by (simp add: fresh_ext_def)
  moreover have "\<tau> v = \<sigma> v" if "old_var vm v" for v
    using t1(1) t(1) a that by (simp add: fresh_ext_def)
  ultimately show "\<exists>\<tau>. (\<forall>v. old_var vm v \<longrightarrow> \<tau> v = \<sigma> v) \<and> cnf_sat \<tau> (c1 @ c2)"
    using t(2) by auto
qed

lemma fresh_ext_define1:
  assumes "\<forall>v. old_var vm v \<longrightarrow> old_var vm' v" "\<not> old_var vm y"
    and "\<And>v. v \<in> cnf_vars cnf \<Longrightarrow> old_var vm' v"
    and "\<And>\<sigma>. \<exists>b. cnf_sat (\<sigma>(y := b)) cnf"
  shows "fresh_ext vm vm' cnf"
  unfolding fresh_ext_def
proof (intro conjI allI ballI)
  fix \<sigma>
  obtain b where "cnf_sat (\<sigma>(y := b)) cnf" using assms(4) by blast
  then show "\<exists>\<tau>. (\<forall>v. old_var vm v \<longrightarrow> \<tau> v = \<sigma> v) \<and> cnf_sat \<tau> cnf"
    using assms(2) by (intro exI[of _ "\<sigma>(y := b)"]) auto
qed (use assms in auto)

lemma fresh_ext_define2:
  assumes "\<forall>v. old_var vm v \<longrightarrow> old_var vm' v" "\<not> old_var vm y" "\<not> old_var vm z"
    and "\<And>v. v \<in> cnf_vars cnf \<Longrightarrow> old_var vm' v"
    and "\<And>\<sigma>. \<exists>b c. cnf_sat (\<sigma>(y := b, z := c)) cnf"
  shows "fresh_ext vm vm' cnf"
  unfolding fresh_ext_def
proof (intro conjI allI ballI)
  fix \<sigma>
  obtain b c where "cnf_sat (\<sigma>(y := b, z := c)) cnf" using assms(5) by blast
  then show "\<exists>\<tau>. (\<forall>v. old_var vm v \<longrightarrow> \<tau> v = \<sigma> v) \<and> cnf_sat \<tau> cnf"
    using assms(2,3) by (intro exI[of _ "\<sigma>(y := b, z := c)"]) auto
qed (use assms in auto)

lemma fresh_ext_reorder:
  "fresh_ext vm vm' cnf \<Longrightarrow> set cnf = set cnf' \<Longrightarrow> fresh_ext vm vm' cnf'"
  by (simp add: fresh_ext_def cnf_vars_def cnf_sat_def)

lemma lit_true_fresh:
  assumes "old_lit vm l" "\<not> old_var vm y"
  shows "lit_true (\<sigma>(y := b)) l = lit_true \<sigma> l"
  using assms by (auto simp: lit_true_def old_lit_def)

lemma old_lit_strip [simp]: "old_lit vm (strip l) = old_lit vm l" "old_lit vm (negate l) = old_lit vm l"
  by (simp_all add: old_lit_def)

text \<open>One fresh variable, as a step of an encoding.\<close>

lemma getNewID_lit:
  assumes "room (Suc k) vm"
  shows "wp getNewID (\<lambda>y vm'. room k vm' \<and> \<not> is_negated y \<and> strip y = y \<and> \<not> old_var vm y \<and> old_lit vm' y
    \<and> old_var vm' y \<and> (\<forall>v. old_var vm v \<longrightarrow> old_var vm' v) \<and> isKnown vm' y
    \<and> (\<forall>v. isKnown vm v \<longrightarrow> isKnown vm' v)) vm"
  by (rule wp_mono[OF getNewID_wp[OF assms]]) (auto simp: old_lit_def strip_id)

end
