(* ===== verification/SortingCorrect.thy ===== *)
theory SortingCorrect
  imports SortingNet Encoding
begin

text \<open>
  Correctness of the networks of \<open>SortingNet\<close>.  \<open>up\<close> and \<open>dn\<close> say that a literal list starts
  with \<open>k\<close> true literals, and that it has no true literal from position \<open>k\<close> on.
\<close>

definition tv :: "assignment \<Rightarrow> id list \<Rightarrow> nat \<Rightarrow> bool" where
  "tv \<sigma> xs i = (i < length xs \<and> lit_true \<sigma> (xs ! i))"

definition up :: "assignment \<Rightarrow> id list \<Rightarrow> nat \<Rightarrow> bool" where
  "up \<sigma> xs k = (\<forall>i<k. i < length xs \<longrightarrow> lit_true \<sigma> (xs ! i))"

definition dn :: "assignment \<Rightarrow> id list \<Rightarrow> nat \<Rightarrow> bool" where
  "dn \<sigma> xs k = (\<forall>i. k \<le> i \<longrightarrow> i < length xs \<longrightarrow> \<not> lit_true \<sigma> (xs ! i))"

definition ntrue :: "assignment \<Rightarrow> id list \<Rightarrow> nat" where
  "ntrue \<sigma> xs = length (filter (lit_true \<sigma>) xs)"

lemma ntrue_simps [simp]:
  "ntrue \<sigma> [] = 0"
  "ntrue \<sigma> (x # xs) = (if lit_true \<sigma> x then Suc (ntrue \<sigma> xs) else ntrue \<sigma> xs)"
  "ntrue \<sigma> (xs @ ys) = ntrue \<sigma> xs + ntrue \<sigma> ys"
  by (auto simp: ntrue_def)

lemma ntrue_le: "ntrue \<sigma> xs \<le> length xs"
  by (simp add: ntrue_def)

subsection \<open>Odd-even merging\<close>

lemma takeEven_nth: "2 * i < length v \<Longrightarrow> takeEven v ! i = v ! (2 * i)"
proof (induction v arbitrary: i rule: takeEven.induct)
  case (3 x y v)
  then show ?case by (cases i) auto
qed auto

lemma takeOdd_nth: "2 * i + 1 < length v \<Longrightarrow> takeOdd v ! i = v ! (2 * i + 1)"
proof (induction v arbitrary: i rule: takeOdd.induct)
  case (3 x y v)
  then show ?case by (cases i) auto
qed auto

lemma takeEven_set: "set (takeEven v) \<subseteq> set v"
  by (induction v rule: takeEven.induct) auto

lemma takeOdd_set: "set (takeOdd v) \<subseteq> set v"
  by (induction v rule: takeOdd.induct) auto

lemma up_halves:
  assumes "up \<sigma> v p"
  shows "up \<sigma> (takeEven v) ((p + 1) div 2)" "up \<sigma> (takeOdd v) (p div 2)"
  using assms by (auto simp: up_def takeEven_nth takeOdd_nth)

lemma dn_halves:
  assumes "dn \<sigma> v p"
  shows "dn \<sigma> (takeEven v) ((p + 1) div 2)" "dn \<sigma> (takeOdd v) (p div 2)"
  using assms by (auto simp: dn_def takeEven_nth takeOdd_nth)

text \<open>The outputs \<open>y\<close> obtained by comparing the sorted even part \<open>e\<close> and odd part \<open>d\<close>.\<close>

definition oe_le :: "assignment \<Rightarrow> id list \<Rightarrow> id list \<Rightarrow> id list \<Rightarrow> bool" where
  "oe_le \<sigma> e d y = ((tv \<sigma> e 0 \<longrightarrow> tv \<sigma> y 0)
     \<and> (\<forall>j. 2 * j + 1 < length y \<longrightarrow> tv \<sigma> d j \<or> tv \<sigma> e (j + 1) \<longrightarrow> tv \<sigma> y (2 * j + 1))
     \<and> (\<forall>j. 2 * j + 2 < length y \<longrightarrow> tv \<sigma> d j \<and> tv \<sigma> e (j + 1) \<longrightarrow> tv \<sigma> y (2 * j + 2)))"

definition oe_ge :: "assignment \<Rightarrow> id list \<Rightarrow> id list \<Rightarrow> id list \<Rightarrow> bool" where
  "oe_ge \<sigma> e d y = ((tv \<sigma> y 0 \<longrightarrow> tv \<sigma> e 0)
     \<and> (\<forall>j. 2 * j + 1 < length y \<longrightarrow> tv \<sigma> y (2 * j + 1) \<longrightarrow> tv \<sigma> d j \<or> tv \<sigma> e (j + 1))
     \<and> (\<forall>j. 2 * j + 2 < length y \<longrightarrow> tv \<sigma> y (2 * j + 2) \<longrightarrow> tv \<sigma> d j \<and> tv \<sigma> e (j + 1)))"

lemma nat_012: obtains "i = (0::nat)" | j where "i = 2 * j + 1" | j where "i = 2 * j + 2"
proof (cases "i = 0")
  case False
  define k where "k = (i - 1) div 2"
  have "i = 2 * k + 1 \<or> i = 2 * k + 2" unfolding k_def using False by presburger
  then show ?thesis using that(2,3) by blast
qed (use that(1) in blast)

lemma oe_up:
  assumes "oe_le \<sigma> e d y" "up \<sigma> e E" "up \<sigma> d D" "D \<le> E" "E \<le> D + 2" "e \<noteq> []"
    and "D \<le> length d \<and> E \<le> length e \<or> (\<forall>j. 2 * j + 1 < length y \<longrightarrow> j < length d \<and> j + 1 < length e)"
  shows "up \<sigma> y (E + D)"
  unfolding up_def
proof (intro allI impI)
  fix i
  assume i: "i < E + D" "i < length y"
  have te: "tv \<sigma> e j" if "j < E" "j < length e" for j using assms(2) that by (simp add: up_def tv_def)
  have td: "tv \<sigma> d j" if "j < D" "j < length d" for j using assms(3) that by (simp add: up_def tv_def)
  have "tv \<sigma> y i"
  proof (cases rule: nat_012[of i])
    case 1
    have "0 < E" using 1 i assms(4) by linarith
    then show ?thesis using 1 assms(1,6) te[of 0] by (simp add: oe_le_def)
  next
    case (2 j)
    have "j < D \<or> j + 1 < E" using 2 i assms(4) by linarith
    then have "tv \<sigma> d j \<or> tv \<sigma> e (j + 1)" using assms(7) te td i 2 by force
    then show ?thesis using 2 assms(1) i by (auto simp: oe_le_def)
  next
    case (3 j)
    have "j < D" "j + 1 < E" using 3 i assms(4,5) by linarith+
    moreover have "2 * j + 1 < length y" using 3 i by simp
    ultimately have "tv \<sigma> d j \<and> tv \<sigma> e (j + 1)" using assms(7) te td by force
    then show ?thesis using 3 assms(1) i by (simp add: oe_le_def)
  qed
  then show "lit_true \<sigma> (y ! i)" by (simp add: tv_def)
qed

lemma oe_dn:
  assumes "oe_ge \<sigma> e d y" "dn \<sigma> e E" "dn \<sigma> d D" "D \<le> E" "E \<le> D + 2"
  shows "dn \<sigma> y (E + D)"
  unfolding dn_def
proof (intro allI impI)
  fix i
  assume i: "E + D \<le> i" "i < length y"
  have te: "\<not> tv \<sigma> e j" if "E \<le> j" for j using assms(2) that by (simp add: dn_def tv_def)
  have td: "\<not> tv \<sigma> d j" if "D \<le> j" for j using assms(3) that by (simp add: dn_def tv_def)
  have "\<not> tv \<sigma> y i"
  proof (cases rule: nat_012[of i])
    case 1
    then show ?thesis using i assms(1) te[of 0] by (simp add: oe_ge_def)
  next
    case (2 j)
    have "D \<le> j" "E \<le> j + 1" using 2 i assms(4,5) by linarith+
    then show ?thesis using 2 assms(1) i te td by (auto simp: oe_ge_def)
  next
    case (3 j)
    have "D \<le> j \<or> E \<le> j + 1" using 3 i assms(4) by linarith
    then show ?thesis using 3 assms(1) i te td by (auto simp: oe_ge_def)
  qed
  then show "\<not> lit_true \<sigma> (y ! i)" using i by (simp add: tv_def)
qed

lemma merge_up:
  assumes "oe_le \<sigma> e d y" "up \<sigma> a p" "up \<sigma> b q" "e \<noteq> []"
    and "\<And>p q. up \<sigma> (takeEven a) p \<Longrightarrow> up \<sigma> (takeEven b) q \<Longrightarrow> p \<le> (length a + 1) div 2
            \<Longrightarrow> q \<le> (length b + 1) div 2 \<Longrightarrow> up \<sigma> e (p + q)"
    and "\<And>p q. up \<sigma> (takeOdd a) p \<Longrightarrow> up \<sigma> (takeOdd b) q \<Longrightarrow> p \<le> length a div 2
            \<Longrightarrow> q \<le> length b div 2 \<Longrightarrow> up \<sigma> d (p + q)"
    and "p \<le> length a" "q \<le> length b"
    and "length d = length a div 2 + length b div 2 \<and> length e = (length a + 1) div 2 + (length b + 1) div 2
      \<or> (\<forall>j. 2 * j + 1 < length y \<longrightarrow> j < length d \<and> j + 1 < length e)"
  shows "up \<sigma> y (p + q)"
proof -
  let ?E = "(p + 1) div 2 + (q + 1) div 2" and ?D = "p div 2 + q div 2"
  have le: "p div 2 \<le> length a div 2" "q div 2 \<le> length b div 2"
    "(p + 1) div 2 \<le> (length a + 1) div 2" "(q + 1) div 2 \<le> (length b + 1) div 2"
    using assms(7,8) by (simp_all add: div_le_mono)
  have "up \<sigma> e ?E" "up \<sigma> d ?D"
    using assms(5,6) up_halves[OF assms(2)] up_halves[OF assms(3)] le by blast+
  moreover have "(p + 1) div 2 + p div 2 = p" "(q + 1) div 2 + q div 2 = q" by presburger+
  then have "?D \<le> ?E" "?E \<le> ?D + 2" "?E + ?D = p + q" by linarith+
  moreover have "?D \<le> length d \<and> ?E \<le> length e
      \<or> (\<forall>j. 2 * j + 1 < length y \<longrightarrow> j < length d \<and> j + 1 < length e)"
    using assms(9) add_mono[OF le(1,2)] add_mono[OF le(3,4)] by (elim disjE) simp_all
  ultimately show ?thesis using oe_up[OF assms(1), of ?E ?D] assms(4) by simp
qed

lemma merge_dn:
  assumes "oe_ge \<sigma> e d y" "dn \<sigma> a p" "dn \<sigma> b q"
    and "\<And>p q. dn \<sigma> (takeEven a) p \<Longrightarrow> dn \<sigma> (takeEven b) q \<Longrightarrow> dn \<sigma> e (p + q)"
    and "\<And>p q. dn \<sigma> (takeOdd a) p \<Longrightarrow> dn \<sigma> (takeOdd b) q \<Longrightarrow> dn \<sigma> d (p + q)"
  shows "dn \<sigma> y (p + q)"
proof -
  let ?E = "(p + 1) div 2 + (q + 1) div 2" and ?D = "p div 2 + q div 2"
  have "dn \<sigma> e ?E" "dn \<sigma> d ?D"
    using assms(4,5) dn_halves[OF assms(2)] dn_halves[OF assms(3)] by blast+
  moreover have "(p + 1) div 2 + p div 2 = p" "(q + 1) div 2 + q div 2 = q" by presburger+
  then have "?D \<le> ?E" "?E \<le> ?D + 2" "?E + ?D = p + q" by linarith+
  ultimately show ?thesis using oe_dn[OF assms(1), of ?E ?D] by simp
qed


subsection \<open>The comparators\<close>

lemma comp_total: "le \<or> ge \<Longrightarrow> \<exists>cnf. comp x_1 x_2 y_1 y_2 le ge = Inr cnf"
  by (simp add: comp_def)

lemma comp_sem:
  assumes "comp x_1 x_2 y_1 y_2 le ge = Inr cnf" "cnf_sat \<sigma> cnf"
  shows "le \<Longrightarrow> (lit_true \<sigma> x_1 \<or> lit_true \<sigma> x_2 \<longrightarrow> lit_true \<sigma> y_1)
                  \<and> (lit_true \<sigma> x_1 \<and> lit_true \<sigma> x_2 \<longrightarrow> lit_true \<sigma> y_2)"
    and "ge \<Longrightarrow> (lit_true \<sigma> y_1 \<longrightarrow> lit_true \<sigma> x_1 \<or> lit_true \<sigma> x_2)
                  \<and> (lit_true \<sigma> y_2 \<longrightarrow> lit_true \<sigma> x_1 \<and> lit_true \<sigma> x_2)"
  using assms by (auto simp: comp_def assertR_def split: if_splits)

lemma partialComp_sem:
  assumes "partialComp x_1 x_2 y le ge = Inr cnf" "cnf_sat \<sigma> cnf"
  shows "le \<Longrightarrow> lit_true \<sigma> x_1 \<or> lit_true \<sigma> x_2 \<longrightarrow> lit_true \<sigma> y"
    and "ge \<Longrightarrow> lit_true \<sigma> y \<longrightarrow> lit_true \<sigma> x_1 \<or> lit_true \<sigma> x_2"
  using assms by (auto simp: partialComp_def assertR_def split: if_splits)

lemma comp_fresh:
  assumes "comp x_1 x_2 y_1 y_2 le ge = Inr cnf" "old_lit vm x_1" "old_lit vm x_2"
    and "\<forall>v. old_var vm v \<longrightarrow> old_var vm' v" "\<not> is_negated y_1" "\<not> is_negated y_2" "y_1 \<noteq> y_2"
    and "\<not> old_var vm y_1" "\<not> old_var vm y_2" "old_var vm' y_1" "old_var vm' y_2"
  shows "fresh_ext vm vm' cnf"
proof (rule fresh_ext_define2[OF assms(4,8,9)])
  have s: "strip y_1 = y_1" "strip y_2 = y_2" using assms(5,6) by (simp_all add: strip_id)
  fix v
  assume "v \<in> cnf_vars cnf"
  then have "v \<in> {strip x_1, strip x_2, y_1, y_2}"
    using assms(1) s by (auto simp: comp_def assertR_def split: if_splits)
  then show "old_var vm' v" using assms(2-4,10,11) by (auto simp: old_lit_def)
next
  fix \<sigma>
  let ?b = "lit_true \<sigma> x_1 \<or> lit_true \<sigma> x_2" and ?c = "lit_true \<sigma> x_1 \<and> lit_true \<sigma> x_2"
  let ?t = "\<sigma>(y_1 := ?b, y_2 := ?c)"
  have "lit_true ?t x_1 = lit_true \<sigma> x_1" "lit_true ?t x_2 = lit_true \<sigma> x_2"
    using assms(2,3,8,9) by (auto simp: lit_true_def old_lit_def)
  moreover have "lit_true ?t y_1 = ?b" "lit_true ?t y_2 = ?c"
    using assms(5-7) by (auto simp: lit_true_pos)
  ultimately have "cnf_sat ?t cnf"
    using assms(1) by (auto simp: comp_def assertR_def split: if_splits)
  then show "\<exists>b c. cnf_sat (\<sigma>(y_1 := b, y_2 := c)) cnf" by blast
qed

lemma partialComp_fresh:
  assumes "partialComp x_1 x_2 y le ge = Inr cnf" "old_lit vm x_1" "old_lit vm x_2"
    and "\<forall>v. old_var vm v \<longrightarrow> old_var vm' v" "\<not> is_negated y" "\<not> old_var vm y" "old_var vm' y"
  shows "fresh_ext vm vm' cnf"
proof (rule fresh_ext_define1[OF assms(4,6)])
  have s: "strip y = y" using assms(5) by (simp add: strip_id)
  fix v
  assume "v \<in> cnf_vars cnf"
  then have "v \<in> {strip x_1, strip x_2, y}"
    using assms(1) s by (auto simp: partialComp_def assertR_def split: if_splits)
  then show "old_var vm' v" using assms(2-4,7) by (auto simp: old_lit_def)
next
  fix \<sigma>
  let ?b = "lit_true \<sigma> x_1 \<or> lit_true \<sigma> x_2"
  let ?t = "\<sigma>(y := ?b)"
  have "lit_true ?t x_1 = lit_true \<sigma> x_1" "lit_true ?t x_2 = lit_true \<sigma> x_2"
    using assms(2,3,6) by (auto simp: lit_true_def old_lit_def)
  moreover have "lit_true ?t y = ?b"
    using assms(5) by (simp add: lit_true_pos)
  ultimately have "cnf_sat ?t cnf"
    using assms(1) by (auto simp: partialComp_def assertR_def split: if_splits)
  then show "\<exists>b. cnf_sat (\<sigma>(y := b)) cnf" by blast
qed

text \<open>Two fresh variables and a comparator on them.\<close>

lemma comp_step:
  assumes "room (Suc (Suc k)) vm" "old_lit vm x_1" "old_lit vm x_2" "le \<or> ge"
    and "\<And>y_1 y_2 cnf vm'. room k vm' \<Longrightarrow> fresh_ext vm vm' cnf \<Longrightarrow> old_lit vm' y_1 \<Longrightarrow> old_lit vm' y_2
      \<Longrightarrow> comp x_1 x_2 y_1 y_2 le ge = Inr cnf \<Longrightarrow> wp (f y_1 y_2 cnf) Q vm'"
  shows "wp (bindS getNewID (\<lambda>y_1. bindS getNewID (\<lambda>y_2.
           bindS (liftS (comp x_1 x_2 y_1 y_2 le ge)) (f y_1 y_2)))) Q vm"
  unfolding wp_bindS
proof (rule wp_mono[OF getNewID_lit[OF assms(1)]], elim conjE)
  fix y_1 vm1
  assume 1: "room (Suc k) vm1" "\<not> is_negated y_1" "\<not> old_var vm y_1" "old_var vm1 y_1"
    "\<forall>v. old_var vm v \<longrightarrow> old_var vm1 v"
  show "wp getNewID (\<lambda>a. wp (liftS (comp x_1 x_2 y_1 a le ge)) (\<lambda>b. wp (f y_1 a b) Q)) vm1"
  proof (rule wp_mono[OF getNewID_lit[OF 1(1)]], elim conjE)
    fix y_2 vm2
    assume 2: "room k vm2" "\<not> is_negated y_2" "\<not> old_var vm1 y_2" "old_var vm2 y_2" "old_lit vm2 y_2"
      "\<forall>v. old_var vm1 v \<longrightarrow> old_var vm2 v"
    obtain cnf where cnf: "comp x_1 x_2 y_1 y_2 le ge = Inr cnf"
      using comp_total[OF assms(4)] by blast
    have "y_1 \<noteq> y_2" using 1(4) 2(3) by blast
    have "fresh_ext vm vm2 cnf"
      by (rule comp_fresh[OF cnf assms(2,3)]) (use 1 2 \<open>y_1 \<noteq> y_2\<close> in auto)
    moreover have "old_lit vm2 y_1" using 1(2,4) 2(6) by (simp add: old_lit_def strip_id)
    ultimately show "wp (liftS (comp x_1 x_2 y_1 y_2 le ge)) (\<lambda>b. wp (f y_1 y_2 b) Q) vm2"
      using assms(5) 2 cnf by simp
  qed
qed

lemma partialComp_step:
  assumes "room (Suc k) vm" "old_lit vm x_1" "old_lit vm x_2" "le \<or> ge"
    and "\<And>y cnf vm'. room k vm' \<Longrightarrow> fresh_ext vm vm' cnf \<Longrightarrow> old_lit vm' y
      \<Longrightarrow> partialComp x_1 x_2 y le ge = Inr cnf \<Longrightarrow> Q' y cnf vm'"
  shows "wp getNewID (\<lambda>y. wp (liftS (partialComp x_1 x_2 y le ge)) (Q' y)) vm"
proof (rule wp_mono[OF getNewID_lit[OF assms(1)]], elim conjE)
  fix y vm1
  assume 1: "room k vm1" "\<not> is_negated y" "\<not> old_var vm y" "old_var vm1 y" "old_lit vm1 y"
    "\<forall>v. old_var vm v \<longrightarrow> old_var vm1 v"
  obtain cnf where cnf: "partialComp x_1 x_2 y le ge = Inr cnf"
    using assms(4) by (simp add: partialComp_def)
  have "fresh_ext vm vm1 cnf"
    by (rule partialComp_fresh[OF cnf assms(2,3)]) (use 1 in auto)
  then show "wp (liftS (partialComp x_1 x_2 y le ge)) (Q' y) vm1"
    using assms(5) 1 cnf by simp
qed

subsection \<open>The merge loop and the zipper\<close>

definition cmp_sem :: "assignment \<Rightarrow> bool \<Rightarrow> bool \<Rightarrow> id \<Rightarrow> id \<Rightarrow> id \<Rightarrow> id \<Rightarrow> bool" where
  "cmp_sem \<sigma> le ge x_1 x_2 y_1 y_2 =
    ((le \<longrightarrow> (lit_true \<sigma> x_1 \<or> lit_true \<sigma> x_2 \<longrightarrow> lit_true \<sigma> y_1)
            \<and> (lit_true \<sigma> x_1 \<and> lit_true \<sigma> x_2 \<longrightarrow> lit_true \<sigma> y_2))
     \<and> (ge \<longrightarrow> (lit_true \<sigma> y_1 \<longrightarrow> lit_true \<sigma> x_1 \<or> lit_true \<sigma> x_2)
            \<and> (lit_true \<sigma> y_2 \<longrightarrow> lit_true \<sigma> x_1 \<and> lit_true \<sigma> x_2)))"

definition loop_sem :: "assignment \<Rightarrow> bool \<Rightarrow> bool \<Rightarrow> id list \<Rightarrow> id list \<Rightarrow> bool" where
  "loop_sem \<sigma> le ge zs ys = (\<forall>j. 2 * j + 1 < length zs \<longrightarrow>
     cmp_sem \<sigma> le ge (zs ! (2 * j)) (zs ! (2 * j + 1)) (ys ! (2 * j)) (ys ! (2 * j + 1)))"

lemma loop_sem_Cons:
  assumes "cmp_sem \<sigma> le ge x_1 x_2 y_1 y_2" "loop_sem \<sigma> le ge zs ys"
  shows "loop_sem \<sigma> le ge (x_1 # x_2 # zs) (y_1 # y_2 # ys)"
  unfolding loop_sem_def
proof (intro allI impI)
  fix j
  assume "2 * j + 1 < length (x_1 # x_2 # zs)"
  then show "cmp_sem \<sigma> le ge ((x_1 # x_2 # zs) ! (2 * j)) ((x_1 # x_2 # zs) ! (2 * j + 1))
      ((y_1 # y_2 # ys) ! (2 * j)) ((y_1 # y_2 # ys) ! (2 * j + 1))"
    using assms by (cases j) (auto simp: loop_sem_def)
qed

lemma mergeLoop_wp:
  assumes "le \<or> ge"
  shows "room (k + 2 * (length zs div 2)) vm \<Longrightarrow> \<forall>z\<in>set zs. old_lit vm z \<Longrightarrow>
    wp (mergeLoop zs le ge) (\<lambda>(ys, cnf) vm'. room k vm' \<and> fresh_ext vm vm' cnf
      \<and> length ys = 2 * (length zs div 2) \<and> (\<forall>y\<in>set ys. old_lit vm' y)
      \<and> (\<forall>\<sigma>. cnf_sat \<sigma> cnf \<longrightarrow> loop_sem \<sigma> le ge zs ys)) vm"
proof (induction zs arbitrary: vm rule: takeOdd.induct)
  case (3 x_1 x_2 zs)
  have r: "room (Suc (Suc (k + 2 * (length zs div 2)))) vm" using 3(2) by simp
  have o12: "old_lit vm x_1" "old_lit vm x_2" using 3(3) by auto
  show ?case
    unfolding mergeLoop.simps
  proof (rule comp_step[OF r o12 assms])
    fix y_1 y_2 cnf vm1
    assume s: "room (k + 2 * (length zs div 2)) vm1" "fresh_ext vm vm1 cnf" "old_lit vm1 y_1"
      "old_lit vm1 y_2" "comp x_1 x_2 y_1 y_2 le ge = Inr cnf"
    have "\<forall>z\<in>set zs. old_lit vm1 z" using 3(3) fresh_ext_old[OF s(2)] by simp
    from 3(1)[OF s(1) this]
    show "wp (bindS (mergeLoop zs le ge) (\<lambda>(ys, cnf'). retS (y_1 # y_2 # ys, cnf @ cnf')))
       (\<lambda>(ys, cnf) vm'. room k vm' \<and> fresh_ext vm vm' cnf
          \<and> length ys = 2 * (length (x_1 # x_2 # zs) div 2) \<and> (\<forall>y\<in>set ys. old_lit vm' y)
          \<and> (\<forall>\<sigma>. cnf_sat \<sigma> cnf \<longrightarrow> loop_sem \<sigma> le ge (x_1 # x_2 # zs) ys)) vm1"
      unfolding wp_bindS
    proof (rule wp_mono, clarsimp)
      fix ys cnf' vm2
      assume t: "room k vm2" "fresh_ext vm1 vm2 cnf'" "length ys = 2 * (length zs div 2)"
        "\<forall>y\<in>set ys. old_lit vm2 y" "\<forall>\<sigma>. cnf_sat \<sigma> cnf' \<longrightarrow> loop_sem \<sigma> le ge zs ys"
      have "cmp_sem \<sigma> le ge x_1 x_2 y_1 y_2" if "cnf_sat \<sigma> cnf" for \<sigma>
        using comp_sem[OF s(5) that] unfolding cmp_sem_def by blast
      then show "fresh_ext vm vm2 (cnf @ cnf') \<and> old_lit vm2 y_1 \<and> old_lit vm2 y_2 \<and>
        (\<forall>\<sigma>. cnf_sat \<sigma> cnf \<and> cnf_sat \<sigma> cnf' \<longrightarrow> loop_sem \<sigma> le ge (x_1 # x_2 # zs) (y_1 # y_2 # ys))"
        using fresh_ext_trans[OF s(2) t(2)] s(3,4) fresh_ext_old[OF t(2)] t(5) loop_sem_Cons by blast
    qed
  qed
qed (auto simp: loop_sem_def)


definition zip_spec :: "id list \<Rightarrow> id list \<Rightarrow> id list \<Rightarrow> bool" where
  "zip_spec e d z = (length z = length e + length d \<and> set z \<subseteq> set e \<union> set d \<and> z ! 0 = e ! 0
     \<and> (\<forall>j. 2 * j + 2 < length z \<longrightarrow> j < length d \<and> j + 1 < length e
          \<and> (z ! (2 * j + 1) = d ! j \<and> z ! (2 * j + 2) = e ! (j + 1)
             \<or> z ! (2 * j + 1) = e ! (j + 1) \<and> z ! (2 * j + 2) = d ! j))
     \<and> (even (length z) \<longrightarrow> last z = (if length d = length e then last d else last e)))"

lemma interleave_ok:
  "length d \<le> length e \<Longrightarrow> \<exists>m. interleave e d = Inr m \<and> length m = 2 * length d
     \<and> set m \<subseteq> set e \<union> set d
     \<and> (\<forall>i<length d. m ! (2 * i) = e ! i \<and> m ! (2 * i + 1) = d ! i)"
proof (induction e d rule: interleave.induct)
  case (3 e es o_i os)
  then obtain m where "interleave es os = Inr m" "length m = 2 * length os"
      "set m \<subseteq> set es \<union> set os"
      "\<forall>i<length os. m ! (2 * i) = es ! i \<and> m ! (2 * i + 1) = os ! i"
    by auto
  then show ?case by (auto simp: nth_Cons split: nat.splits)
qed auto

text \<open>The element the tricky case puts at position \<open>i\<close>.\<close>

definition zidx :: "nat \<Rightarrow> id list \<Rightarrow> id list \<Rightarrow> nat \<Rightarrow> id" where
  "zidx a e d i = (if i \<le> a then (if even i then e ! (i div 2) else d ! (i div 2))
                   else if odd i then e ! ((i + 1) div 2)
                   else if i = a + 1 then e ! (i div 2) else d ! (i div 2 - 1))"

lemma zipperLoop_ok:
  assumes "length e = length d + 2" "odd a"
  shows "k \<le> length d \<Longrightarrow>
    zipperLoop e a (map (zidx a e d) [0..<if 2 * k < a then 2 * k else 2 * k + 1])
      (if 2 * k < a then k else k + 1) (drop k d)
    = Inr (map (zidx a e d) [0..<if 2 * length d < a then 2 * length d else 2 * length d + 1],
           if 2 * length d < a then length d else length d + 1)"
proof (induction "length d - k" arbitrary: k)
  case 0
  then show ?case by simp
next
  case (Suc n)
  then have k: "k < length d" by simp
  then have dr: "drop k d = d ! k # drop (Suc k) d" by (simp add: Cons_nth_drop_Suc)
  define R :: "(id list \<times> nat) res" where
    "R = Inr (map (zidx a e d) [0..<if 2 * length d < a then 2 * length d else 2 * length d + 1],
           if 2 * length d < a then length d else length d + 1)"
  have IH: "zipperLoop e a (map (zidx a e d) [0..<if 2 * Suc k < a then 2 * Suc k else 2 * Suc k + 1])
      (if 2 * Suc k < a then Suc k else Suc k + 1) (drop (Suc k) d) = R"
    unfolding R_def using Suc k by (intro Suc.hyps(1)) auto
  obtain m where m: "a = Suc (2 * m)" using assms(2) by (auto elim: oddE)
  consider "k < m" | "k = m" | "m < k" by linarith
  then have "zipperLoop e a (map (zidx a e d) [0..<if 2 * k < a then 2 * k else 2 * k + 1])
      (if 2 * k < a then k else k + 1) (drop k d) = R"
  proof cases
    case 1
    then show ?thesis using IH k assms(1) m by (simp add: dr Let_def atR_def zidx_def)
  next
    case 2
    then show ?thesis unfolding dr using IH k assms(1) m by (simp add: Let_def atR_def zidx_def)
  next
    case 3
    then show ?thesis using IH k assms(1) m by (simp add: dr Let_def atR_def zidx_def)
  qed
  then show ?case by (simp only: R_def)
qed

lemma zipperMerge_ok:
  assumes e: "length e = (a + 1) div 2 + (b + 1) div 2" and d: "length d = a div 2 + b div 2"
    and ab: "a \<le> b" "0 < a" "\<not> (a = 1 \<and> b = 1)"
  shows "\<exists>z. zipperMerge e d a b = Inr z \<and> zip_spec e d z"
proof -
  have "odd a \<and> odd b \<or> \<not> (odd a \<and> odd b)" by blast
  then show ?thesis
  proof
    assume o: "odd a \<and> odd b"
    then obtain m n where mn: "a = Suc (2 * m)" "b = Suc (2 * n)" by (auto elim!: oddE)
    have len: "length e = m + n + 2" "length d = m + n" "0 < n" using e d mn ab by auto
    have m_le: "m < m + n" using len(3) by simp
    let ?M = "map (zidx a e d) [0..<2 * (m + n) + 1]"
    have "zipperLoop e a [] 0 d = Inr (?M, m + n + 1)"
      using zipperLoop_ok[of e d a 0] o len mn by simp
    then have "zipperMerge e d a b = Inr (?M @ [last e])"
      using len mn by (auto simp: zipperMerge_def Let_def backR_def mod_Suc)
    moreover have "zip_spec e d (?M @ [last e])"
      unfolding zip_spec_def
    proof (intro conjI allI impI)
      show "length (?M @ [last e]) = length e + length d" using len by simp
      have "zidx a e d i \<in> set e \<union> set d" if "i < 2 * (m + n) + 1" for i
        using that len mn by (auto simp: zidx_def intro!: nth_mem)
      moreover have "last e \<in> set e" using len by (intro last_in_set) auto
      ultimately show "set (?M @ [last e]) \<subseteq> set e \<union> set d"
        by (simp add: image_subset_iff del: upt_Suc)
      show "(?M @ [last e]) ! 0 = e ! 0" by (simp add: nth_append zidx_def mn)
      show "last (?M @ [last e]) = (if length d = length e then last d else last e)"
        using len by simp
      fix j
      assume "2 * j + 2 < length (?M @ [last e])"
      then have "2 * j + 2 < 2 * (m + n) + 2" by simp
      then have j: "2 * j + 2 < 2 * (m + n) + 1" by presburger
      then show "j < length d" "j + 1 < length e" using len by auto
      show "(?M @ [last e]) ! (2 * j + 1) = d ! j \<and> (?M @ [last e]) ! (2 * j + 2) = e ! (j + 1)
        \<or> (?M @ [last e]) ! (2 * j + 1) = e ! (j + 1) \<and> (?M @ [last e]) ! (2 * j + 2) = d ! j"
        using j mn by (cases "j \<le> m") (auto simp: nth_append zidx_def nth_map_upt simp del: upt_Suc)
    qed
    ultimately show ?thesis by blast
  next
    assume o: "\<not> (odd a \<and> odd b)"
    have half: "(n + 1) div 2 = (if even n then n div 2 else n div 2 + 1)" for n :: nat by presburger
    have len: "length d \<le> length e" "length e \<le> length d + 1"
      "length e = length d \<longleftrightarrow> even a \<and> even b" "0 < length e"
      using o ab e d unfolding half by (auto split: if_splits elim: evenE)
    obtain m where m: "interleave e d = Inr m" "length m = 2 * length d" "set m \<subseteq> set e \<union> set d"
        "\<forall>i<length d. m ! (2 * i) = e ! i \<and> m ! (2 * i + 1) = d ! i"
      using interleave_ok[OF len(1)] by blast
    define z where "z = (if length e = length d then m else m @ [last e])"
    have "zipperMerge e d a b = Inr z"
      using len o m(1) unfolding zipperMerge_def z_def
      by (auto simp: Let_def backR_def even_iff_mod_2_eq_zero odd_iff_mod_2_eq_one)
    moreover have "zip_spec e d z"
      unfolding zip_spec_def
    proof (intro conjI allI impI)
      show "length z = length e + length d" using len m(2) by (auto simp: z_def)
      have "last e \<in> set e" using len by (intro last_in_set) auto
      then show "set z \<subseteq> set e \<union> set d" using m(3) by (auto simp: z_def)
      show "z ! 0 = e ! 0"
      proof (cases "d = []")
        case True
        then obtain x where "e = [x]" using len by (cases e) auto
        then show ?thesis using True m(2) by (auto simp: z_def)
      next
        case False
        then show ?thesis using m(2,4) by (auto simp: z_def nth_append)
      qed
      show "last z = (if length d = length e then last d else last e)" if "even (length z)"
      proof (cases "length e = length d")
        case True
        then have ne: "m \<noteq> []" "d \<noteq> []" using m(2) len(4) by auto
        have "m ! (2 * (length d - 1) + 1) = d ! (length d - 1)" using m(4) ne by simp
        moreover have "2 * (length d - 1) + 1 = length m - 1" using m(2) True len(4) by linarith
        ultimately show ?thesis using True ne by (simp add: z_def last_conv_nth)
      qed (simp add: z_def)
      fix j
      assume j: "2 * j + 2 < length z"
      then show jd: "j < length d" "j + 1 < length e"
        using m(2) len by (auto simp: z_def split: if_splits)
      have "z ! (2 * j + 1) = d ! j" using m(2,4) jd by (auto simp: z_def nth_append)
      moreover have "z ! (2 * j + 2) = e ! (j + 1)"
      proof (cases "j + 1 < length d")
        case True
        then have "m ! (2 * (j + 1)) = e ! (j + 1)" using m(4) by blast
        then show ?thesis using True m(2) by (auto simp: z_def nth_append)
      next
        case False
        then have "length e = j + 2" "length e \<noteq> length d" "length d = j + 1" using jd len by auto
        moreover from this have "e \<noteq> []" by auto
        ultimately show ?thesis using m(2) by (auto simp: z_def nth_append last_conv_nth)
      qed
      ultimately show "z ! (2 * j + 1) = d ! j \<and> z ! (2 * j + 2) = e ! (j + 1)
        \<or> z ! (2 * j + 1) = e ! (j + 1) \<and> z ! (2 * j + 2) = d ! j" by blast
    qed
    ultimately show ?thesis by blast
  qed
qed


subsection \<open>The merge network\<close>

lemma zip_len:
  "0 < n \<Longrightarrow> k = 2 * ((n - 1) div 2) \<Longrightarrow> n = 1 + k + (if even n then 1 else (0::nat))"
  by (cases "even n"; simp; presburger)

lemma zip_loop_sem:
  assumes z: "zip_spec e d z" and ys: "loop_sem \<sigma> le ge (drop 1 z) ys" "length ys = 2 * ((length z - 1) div 2)"
    and len: "length d \<le> length e" "length e \<le> length d + 2" "e \<noteq> []"
    and y: "y = z ! 0 # ys @ (if even (length z) then [last z] else [])"
  shows "length y = length z" "le \<Longrightarrow> oe_le \<sigma> e d y" "ge \<Longrightarrow> oe_ge \<sigma> e d y"
proof -
  have lz: "length z = length e + length d" "z ! 0 = e ! 0" "0 < length z"
    using z len(3) by (auto simp: zip_spec_def)
  have ly: "length z = 1 + length ys + (if even (length z) then 1 else 0)"
    by (rule zip_len[OF lz(3) ys(2)])
  have "length y = 1 + length ys + (if even (length z) then 1 else 0)" by (simp add: y)
  with ly show leny: "length y = length z" by metis
  have y0: "tv \<sigma> y 0 = tv \<sigma> e 0" using y lz(2) len(3) by (simp add: tv_def)
  have pair: "cmp_sem \<sigma> le ge (z ! (2 * j + 1)) (z ! (2 * j + 2)) (y ! (2 * j + 1)) (y ! (2 * j + 2))
      \<and> j < length d \<and> j + 1 < length e
      \<and> (z ! (2 * j + 1) = d ! j \<and> z ! (2 * j + 2) = e ! (j + 1)
             \<or> z ! (2 * j + 1) = e ! (j + 1) \<and> z ! (2 * j + 2) = d ! j)"
    if j: "2 * j + 2 < length z" for j
  proof -
    have "2 * j + 1 < length ys" using j ys(2) by presburger
    then show ?thesis
      using ys(1) j z y unfolding loop_sem_def zip_spec_def
      by (auto simp: nth_append dest!: spec[of _ j])
  qed
  have lst: "y ! (2 * j + 1) = (if length d = length e then d ! j else e ! (j + 1))
      \<and> (if length d = length e then j < length d \<and> \<not> j + 1 < length e else \<not> j < length d \<and> j + 1 < length e)"
    if j: "2 * j + 1 < length z" "\<not> 2 * j + 2 < length z" for j
  proof -
    have ev: "even (length z)" "length z = 2 * j + 2" using j by presburger+
    have "y ! (2 * j + 1) = last z" using ly ev y by (simp add: nth_append)
    also have "\<dots> = (if length d = length e then last d else last e)"
      using z ev(1) by (simp add: zip_spec_def)
    finally have l: "y ! (2 * j + 1) = (if length d = length e then last d else last e)" .
    show ?thesis
    proof (cases "length d = length e")
      case True
      then have "length d = j + 1" "d \<noteq> []" using lz(1) ev(2) len(3) by auto
      then show ?thesis using True l by (simp add: last_conv_nth)
    next
      case False
      then have "length e = j + 2" "length d = j" using lz(1) ev(2) len by auto
      then show ?thesis using False l len(3) by (simp add: last_conv_nth)
    qed
  qed
  show "oe_le \<sigma> e d y" if le
    unfolding oe_le_def
  proof (intro conjI allI impI)
    fix j
    assume j: "2 * j + 1 < length y" "tv \<sigma> d j \<or> tv \<sigma> e (j + 1)"
    show "tv \<sigma> y (2 * j + 1)"
      using pair[of j] lst[of j] j leny that
      by (cases "2 * j + 2 < length z") (auto simp: tv_def cmp_sem_def split: if_splits)
  next
    fix j
    assume j: "2 * j + 2 < length y" "tv \<sigma> d j \<and> tv \<sigma> e (j + 1)"
    then show "tv \<sigma> y (2 * j + 2)"
      using pair[of j] leny that by (auto simp: tv_def cmp_sem_def)
  qed (simp add: y0)
  show "oe_ge \<sigma> e d y" if ge
    unfolding oe_ge_def
  proof (intro conjI allI impI)
    fix j
    assume j: "2 * j + 1 < length y" "tv \<sigma> y (2 * j + 1)"
    show "tv \<sigma> d j \<or> tv \<sigma> e (j + 1)"
      using pair[of j] lst[of j] j leny that
      by (cases "2 * j + 2 < length z") (auto simp: tv_def cmp_sem_def split: if_splits)
  next
    fix j
    assume j: "2 * j + 2 < length y" "tv \<sigma> y (2 * j + 2)"
    have "j < length d" "j + 1 < length e" using pair[of j] j leny by auto
    then show "tv \<sigma> d j" "tv \<sigma> e (j + 1)"
      using pair[of j] j leny that by (auto simp: tv_def cmp_sem_def)
  qed (simp add: y0)
qed

text \<open>What a network over inputs \<open>a\<close> and \<open>b\<close> promises.\<close>

definition merge_sem :: "id list \<Rightarrow> id list \<Rightarrow> bool \<Rightarrow> bool \<Rightarrow> id list \<Rightarrow> clauseVec \<Rightarrow> bool" where
  "merge_sem a b le ge outs cnf = (\<forall>\<sigma> p q. cnf_sat \<sigma> cnf \<longrightarrow>
     (le \<longrightarrow> p \<le> length a \<longrightarrow> q \<le> length b \<longrightarrow> up \<sigma> a p \<longrightarrow> up \<sigma> b q \<longrightarrow> up \<sigma> outs (p + q))
     \<and> (ge \<longrightarrow> dn \<sigma> a p \<longrightarrow> dn \<sigma> b q \<longrightarrow> dn \<sigma> outs (p + q)))"

definition net_post :: "nat \<Rightarrow> varManager \<Rightarrow> (id list \<Rightarrow> clauseVec \<Rightarrow> bool) \<Rightarrow> cnfNetwork \<Rightarrow> varManager \<Rightarrow> bool" where
  "net_post k vm S = (\<lambda>(outs, cnf) vm'. room k vm' \<and> fresh_ext vm vm' cnf
     \<and> (\<forall>y\<in>set outs. old_lit vm' y) \<and> S outs cnf)"

lemma net_post_mono:
  "net_post k vm S r t \<Longrightarrow> (\<And>x c. S x c \<Longrightarrow> S' x c) \<Longrightarrow> net_post k vm S' r t"
  by (cases r) (simp add: net_post_def)

lemma merge_sem_swap: "merge_sem a b le ge outs cnf \<Longrightarrow> merge_sem b a le ge outs cnf"
  unfolding merge_sem_def by (metis add.commute)

lemma merge_sem_nil: "merge_sem [] b le ge b []"
  by (auto simp: merge_sem_def up_def dn_def)

lemma merge_sem_pair:
  assumes "comp x_a x_b y_0 y_1 le ge = Inr cnf"
  shows "merge_sem [x_a] [x_b] le ge [y_0, y_1] cnf"
  unfolding merge_sem_def
proof (intro allI impI conjI)
  fix \<sigma> p q
  assume c: "cnf_sat \<sigma> cnf"
  show "up \<sigma> [y_0, y_1] (p + q)"
    if "le" "p \<le> length [x_a]" "q \<le> length [x_b]" "up \<sigma> [x_a] p" "up \<sigma> [x_b] q"
    using comp_sem(1)[OF assms c that(1)] that
    by (cases p; cases q) (auto simp: up_def less_Suc_eq nth_Cons split: nat.splits)
  show "dn \<sigma> [y_0, y_1] (p + q)" if "ge" "dn \<sigma> [x_a] p" "dn \<sigma> [x_b] q"
    using comp_sem(2)[OF assms c that(1)] that
    by (cases p; cases q) (auto simp: dn_def less_Suc_eq nth_Cons split: nat.splits)
qed


lemma square_split: "(1::nat) \<le> m \<Longrightarrow> 1 \<le> n \<Longrightarrow> m\<^sup>2 + n\<^sup>2 + (m + n) \<le> (m + n)\<^sup>2"
proof -
  assume "1 \<le> m" "1 \<le> n"
  then have "m \<le> m * n" "n \<le> m * n" by simp_all
  moreover have "(m + n)\<^sup>2 = m\<^sup>2 + n\<^sup>2 + 2 * (m * n)" by (simp add: power2_sum)
  ultimately show ?thesis by linarith
qed

lemma merge_halves:
  fixes a b :: nat
  assumes "a \<le> b" "0 < a" "\<not> (a = 1 \<and> b = 1)"
  shows "1 \<le> a div 2 + b div 2" "1 \<le> (a + 1) div 2 + (b + 1) div 2"
    "a div 2 + b div 2 + ((a + 1) div 2 + (b + 1) div 2) = a + b"
    "a div 2 + b div 2 \<le> (a + 1) div 2 + (b + 1) div 2"
    "(a + 1) div 2 + (b + 1) div 2 \<le> a div 2 + b div 2 + 2"
proof -
  have "2 \<le> b" using assms by linarith
  then have "1 \<le> b div 2" by linarith
  then show "1 \<le> a div 2 + b div 2" by simp
  have h: "n div 2 + (n + 1) div 2 = n" "n div 2 \<le> (n + 1) div 2" "(n + 1) div 2 \<le> n div 2 + 1" for n :: nat
    by presburger+
  show "a div 2 + b div 2 + ((a + 1) div 2 + (b + 1) div 2) = a + b"
    "1 \<le> (a + 1) div 2 + (b + 1) div 2"
    "a div 2 + b div 2 \<le> (a + 1) div 2 + (b + 1) div 2"
    "(a + 1) div 2 + (b + 1) div 2 \<le> a div 2 + b div 2 + 2"
    using h[of a] h[of b] \<open>1 \<le> b div 2\<close> by linarith+
qed

lemma merge_rec_sem:
  assumes od: "merge_sem (takeOdd a) (takeOdd b) le ge d c1"
    and ev: "merge_sem (takeEven a) (takeEven b) le ge e c2"
    and "e \<noteq> []"
    and cmp: "\<And>\<sigma>. cnf_sat \<sigma> c \<Longrightarrow> (le \<longrightarrow> oe_le \<sigma> e d y) \<and> (ge \<longrightarrow> oe_ge \<sigma> e d y)"
    and sub: "set c1 \<union> set c2 \<subseteq> set c"
    and len: "length d = length a div 2 + length b div 2 \<and> length e = (length a + 1) div 2 + (length b + 1) div 2
      \<or> (\<forall>j. 2 * j + 1 < length y \<longrightarrow> j < length d \<and> j + 1 < length e)"
  shows "merge_sem a b le ge y c"
  unfolding merge_sem_def
proof (intro allI impI conjI)
  fix \<sigma> p q
  assume "cnf_sat \<sigma> c"
  then have c: "cnf_sat \<sigma> c1" "cnf_sat \<sigma> c2" using sub by (auto simp: cnf_sat_def)
  note cmp' = cmp[OF \<open>cnf_sat \<sigma> c\<close>]
  show "up \<sigma> y (p + q)" if "le" "p \<le> length a" "q \<le> length b" "up \<sigma> a p" "up \<sigma> b q"
    by (rule merge_up[of \<sigma> e d y a p b q])
      (use that c cmp' assms(3) len od ev in \<open>auto simp: merge_sem_def\<close>)
  show "dn \<sigma> y (p + q)" if "ge" "dn \<sigma> a p" "dn \<sigma> b q"
    by (rule merge_dn[of \<sigma> e d y a p b q])
      (use that c cmp' od ev in \<open>auto simp: merge_sem_def\<close>)
qed

lemma freshVars_2: "freshVars 2 = bindS getNewID (\<lambda>y. bindS getNewID (\<lambda>z. retS [y, z]))"
  by (rule ext) (simp add: freshVars_def upt_rec bindS_def retS_def split: sum.splits)

lemma net_post_room: "net_post k vm S r vm' \<Longrightarrow> room k vm'"
  by (auto simp: net_post_def)

text \<open>From the odd and the even network to the outputs of \<open>mergeNetwork\<close>.\<close>

lemma merge_tail:
  fixes a b :: "id list"
  defines "m \<equiv> length a div 2 + length b div 2"
    and "n \<equiv> (length a + 1) div 2 + (length b + 1) div 2"
  assumes le: "le \<or> ge" and ab: "length a \<le> length b" "0 < length a" "\<not> (length a = 1 \<and> length b = 1)"
    and old: "\<forall>x\<in>set a. old_lit vm x" "\<forall>x\<in>set b. old_lit vm x"
    and od: "net_post (k + (m + n) + n\<^sup>2) vm (\<lambda>outs cnf. length outs = length (takeOdd a) + length (takeOdd b)
         \<and> merge_sem (takeOdd a) (takeOdd b) le ge outs cnf) (z_odd, odd_cnf) vm1"
    and IHe: "wp (mergeNetwork (takeEven a) (takeEven b) le ge)
        (net_post (k + (m + n)) vm1 (\<lambda>outs cnf. length outs = length (takeEven a) + length (takeEven b)
           \<and> merge_sem (takeEven a) (takeEven b) le ge outs cnf)) vm1"
  shows "wp (bindS (mergeNetwork (takeEven a) (takeEven b) le ge) (\<lambda>(z_even, even_cnf).
         bindS (liftS (zipperMerge z_even z_odd (length a) (length b))) (\<lambda>z.
         bindS (liftS (atR z 0)) (\<lambda>z_0.
         bindS (mergeLoop (drop 1 z) le ge) (\<lambda>(ys, comp_cnf).
         if (length a + length b) mod 2 = 0 then
           thenS (assertS (length (z_0 # ys) = length a + length b - 1))
             (bindS (liftS (backR z)) (\<lambda>l. retS ((z_0 # ys) @ [l], odd_cnf @ even_cnf @ comp_cnf)))
         else retS (z_0 # ys, odd_cnf @ even_cnf @ comp_cnf))))))
     (net_post k vm (\<lambda>outs cnf. length outs = length a + length b \<and> merge_sem a b le ge outs cnf)) vm1"
proof -
  note mn = merge_halves[OF ab]
  have o: "fresh_ext vm vm1 odd_cnf" "\<forall>y\<in>set z_odd. old_lit vm1 y" "length z_odd = m"
    "merge_sem (takeOdd a) (takeOdd b) le ge z_odd odd_cnf"
    using od by (auto simp: net_post_def m_def)
  show ?thesis
    unfolding wp_bindS
  proof (rule wp_mono[OF IHe], goal_cases)
    case (1 r2 vm2)
    obtain z_even even_cnf where r2: "r2 = (z_even, even_cnf)" by (cases r2)
    have e: "room (k + (m + n)) vm2" "fresh_ext vm1 vm2 even_cnf" "\<forall>y\<in>set z_even. old_lit vm2 y"
      "length z_even = Suc (length a) div 2 + Suc (length b) div 2"
      "merge_sem (takeEven a) (takeEven b) le ge z_even even_cnf"
      using 1 by (auto simp: r2 net_post_def)
    have le_n: "length z_even = n" using e(4) by (simp add: n_def)
    have lens: "length z_odd \<le> length z_even" "length z_even \<le> length z_odd + 2" "z_even \<noteq> []"
      "length z_odd + length z_even = length a + length b"
      using mn o(3) le_n by (auto simp: m_def n_def)
    obtain z where z: "zipperMerge z_even z_odd (length a) (length b) = Inr z" "zip_spec z_even z_odd z"
      using zipperMerge_ok[of z_even "length a" "length b" z_odd] ab o(3) le_n by (auto simp: m_def n_def)
    have lz: "length z = length a + length b" "\<forall>x\<in>set z. old_lit vm2 x" "z \<noteq> []"
      using z(2) lens(4) o(2) e(3) fresh_ext_old[OF e(2)] ab(2) by (auto simp: zip_spec_def)
    have "room (k + 2 * (length (drop 1 z) div 2)) vm2"
    proof (rule room_mono[OF e(1)])
      have "2 * (length (drop 1 z) div 2) \<le> length a + length b" using lz(1) by simp
      also have "\<dots> = m + n" using mn(3) by (simp only: m_def n_def)
      finally show "k + 2 * (length (drop 1 z) div 2) \<le> k + (m + n)" by simp
    qed
    moreover have "\<forall>x\<in>set (drop 1 z). old_lit vm2 x"
      using lz(2) in_set_dropD by fastforce
    ultimately have loop: "wp (mergeLoop (drop 1 z) le ge) (\<lambda>(ys, cnf) vm'. room k vm' \<and> fresh_ext vm2 vm' cnf
      \<and> length ys = 2 * (length (drop 1 z) div 2) \<and> (\<forall>y\<in>set ys. old_lit vm' y)
      \<and> (\<forall>\<sigma>. cnf_sat \<sigma> cnf \<longrightarrow> loop_sem \<sigma> le ge (drop 1 z) ys)) vm2"
      by (rule mergeLoop_wp[OF le])
    have fin: "net_post k vm (\<lambda>outs cnf. length outs = length a + length b \<and> merge_sem a b le ge outs cnf)
          (z ! 0 # ys @ (if even (length z) then [last z] else []), odd_cnf @ even_cnf @ cnf) vm3
        \<and> (even (length z) \<longrightarrow> Suc (length ys) = length a + length b - 1)"
      if l: "room k vm3" "fresh_ext vm2 vm3 cnf" "length ys = 2 * (length (drop 1 z) div 2)"
        "\<forall>y\<in>set ys. old_lit vm3 y" "\<forall>\<sigma>. cnf_sat \<sigma> cnf \<longrightarrow> loop_sem \<sigma> le ge (drop 1 z) ys"
      for ys cnf vm3
    proof -
      let ?y = "z ! 0 # ys @ (if even (length z) then [last z] else [])"
      have ys: "length ys = 2 * ((length z - 1) div 2)" using l(3) by simp
      have sem: "length ?y = length z \<and> (le \<longrightarrow> oe_le \<sigma> z_even z_odd ?y) \<and> (ge \<longrightarrow> oe_ge \<sigma> z_even z_odd ?y)"
        if "loop_sem \<sigma> le ge (drop 1 z) ys" for \<sigma>
        using zip_loop_sem[OF z(2) that ys lens(1-3) refl] by blast
      have ms: "merge_sem a b le ge ?y (odd_cnf @ even_cnf @ cnf)"
        by (rule merge_rec_sem[OF o(4) e(5) lens(3)])
          (use sem l(5) o(3) le_n in \<open>auto simp: m_def n_def cnf_sat_def\<close>)
      have L: "length z = 1 + length ys + (if even (length z) then 1 else 0)"
        using lz(3) by (intro zip_len[OF _ ys]) simp
      have ly: "length ?y = length a + length b"
        by (rule trans[OF _ trans[OF L[symmetric] lz(1)]]) simp
      have ev: "Suc (length ys) = length a + length b - 1" if "even (length z)"
        using L[unfolded if_P[OF that]] lz(1) by linarith
      have fr: "fresh_ext vm vm3 (odd_cnf @ even_cnf @ cnf)"
        using o(1) e(2) l(2) by (blast intro: fresh_ext_trans)
      have ol: "\<forall>x\<in>set ?y. old_lit vm3 x"
        using l(4) lz(2,3) fresh_ext_old[OF l(2)] by auto
      show ?thesis
        unfolding net_post_def prod.case by (intro conjI impI) (fact l(1) fr ol ly ms ev)+
    qed
    show ?case
      unfolding r2 prod.case z(1) wp_bindS[of "liftS (Inr z)"] wp_bindS[of "liftS (atR z 0)"]
        wp_bindS[of "mergeLoop _ _ _"] wp_liftS wpr_Inr wpr_atR
    proof (rule conjI, goal_cases)
      case 1
      then show ?case using lz(3) by simp
    next
      case 2
      show ?case
      proof (rule wp_mono[OF loop], goal_cases)
        case (1 r vm3)
        obtain ys cnf where r: "r = (ys, cnf)" by (cases r)
        from 1[unfolded r prod.case] fin[of vm3 cnf ys]
        have f: "net_post k vm (\<lambda>outs cnf. length outs = length a + length b \<and> merge_sem a b le ge outs cnf)
            (z ! 0 # ys @ (if even (length z) then [last z] else []), odd_cnf @ even_cnf @ cnf) vm3"
          "even (length z) \<Longrightarrow> Suc (length ys) = length a + length b - 1" by blast+
        show ?case
        proof (cases "even (length z)")
          case True
          then have m: "(length a + length b) mod 2 = 0" using lz(1) by presburger
          show ?thesis unfolding r prod.case if_P[OF m]
            using f(1)[unfolded if_P[OF True] net_post_def prod.case] f(2)[OF True] lz(3) by (simp add: net_post_def)
        next
          case False
          then have m: "(length a + length b) mod 2 \<noteq> 0" using lz(1) by presburger
          show ?thesis unfolding r prod.case if_not_P[OF m]
            using f(1)[unfolded if_not_P[OF False] net_post_def prod.case] by (simp add: net_post_def)
        qed
      qed
    qed
  qed
qed

lemma mergeNetwork_wp:
  assumes "le \<or> ge"
  shows "room (k + (length A + length B)\<^sup>2) vm \<Longrightarrow> \<forall>x\<in>set A \<union> set B. old_lit vm x \<Longrightarrow>
    wp (mergeNetwork A B le ge)
      (net_post k vm (\<lambda>outs cnf. length outs = length A + length B \<and> merge_sem A B le ge outs cnf)) vm"
proof (induction "length A + length B" arbitrary: A B k vm rule: less_induct)
  case less
  define a b where "a = (if length A \<le> length B then A else B)"
    and "b = (if length A \<le> length B then B else A)"
  have ab: "length a \<le> length b" "length a + length b = length A + length B" "set a \<union> set b = set A \<union> set B"
    unfolding a_def b_def by auto
  have sem: "merge_sem A B le ge outs cnf" if "merge_sem a b le ge outs cnf" for outs cnf
    using that merge_sem_swap unfolding a_def b_def by (auto split: if_splits)
  have r0: "room (k + (length a + length b)\<^sup>2) vm" using less.prems(1) ab(2) by simp
  have old: "\<forall>x\<in>set a. old_lit vm x" "\<forall>x\<in>set b. old_lit vm x" using less.prems(2) ab(3) by blast+
  let ?P = "\<lambda>k vm a b. net_post k vm (\<lambda>outs cnf. length outs = length a + length b \<and> merge_sem a b le ge outs cnf)"
  consider "length a = 1 \<and> length b = 1" | "\<not> (length a = 1 \<and> length b = 1)" "a = []"
    | "\<not> (length a = 1 \<and> length b = 1)" "a \<noteq> []" by blast
  then have "wp (mergeNetwork A B le ge) (?P k vm a b) vm"
  proof cases
    case 1
    then obtain x_a x_b where x: "a = [x_a]" "b = [x_b]" by (auto simp: length_Suc_conv)
    have "room (Suc (Suc k)) vm" using r0 1 by (auto intro: room_mono)
    then have "wp (bindS getNewID (\<lambda>y_0. bindS getNewID (\<lambda>y_1.
        bindS (liftS (comp x_a x_b y_0 y_1 le ge)) (\<lambda>cnf. retS ([y_0, y_1], cnf))))) (?P k vm a b) vm"
      by (rule comp_step) (use old x assms merge_sem_pair in \<open>auto simp: net_post_def\<close>)
    then show ?thesis
      unfolding mergeNetwork.simps[of A B] a_def[symmetric] b_def[symmetric] Let_def
      using x assms by (simp add: freshVars_2)
  next
    case 2
    have "room k vm" using r0 by (auto intro: room_mono)
    then show ?thesis
      unfolding mergeNetwork.simps[of A B] a_def[symmetric] b_def[symmetric] Let_def
      using 2 old assms by (simp add: net_post_def merge_sem_nil)
  next
    case 3
    define m where "m = length a div 2 + length b div 2"
    define n where "n = (length a + 1) div 2 + (length b + 1) div 2"
    have a0: "0 < length a" using 3(2) by simp
    note mn = merge_halves[OF ab(1) a0 3(1), folded m_def n_def]
    have lt: "m < length A + length B" "n < length A + length B" using mn ab(2) by linarith+
    have lens: "length (takeOdd a) + length (takeOdd b) = m" "length (takeEven a) + length (takeEven b) = n"
      by (simp_all add: m_def n_def)
    have r1: "room (k + (m + n) + n\<^sup>2 + m\<^sup>2) vm"
    proof (rule room_mono[OF r0])
      show "k + (m + n) + n\<^sup>2 + m\<^sup>2 \<le> k + (length a + length b)\<^sup>2"
        using square_split[OF mn(1,2)] unfolding mn(3)[symmetric] by linarith
    qed
    have oldo: "\<forall>x\<in>set (takeOdd a) \<union> set (takeOdd b). old_lit vm x"
      and olde: "\<forall>x\<in>set (takeEven a) \<union> set (takeEven b). old_lit vm x"
      using old takeOdd_set[of a] takeOdd_set[of b] takeEven_set[of a] takeEven_set[of b] by blast+
    have IHo: "wp (mergeNetwork (takeOdd a) (takeOdd b) le ge)
        (?P (k + (m + n) + n\<^sup>2) vm (takeOdd a) (takeOdd b)) vm"
      by (rule less.hyps[OF _ _ oldo]) (unfold lens ab(2), rule lt(1), rule r1)
    have rest: "wp (bindS (mergeNetwork (takeEven a) (takeEven b) le ge) (\<lambda>(z_even, even_cnf).
         bindS (liftS (zipperMerge z_even z_odd (length a) (length b))) (\<lambda>z.
         bindS (liftS (atR z 0)) (\<lambda>z_0.
         bindS (mergeLoop (drop 1 z) le ge) (\<lambda>(ys, comp_cnf).
         if (length a + length b) mod 2 = 0 then
           thenS (assertS (length (z_0 # ys) = length a + length b - 1))
             (bindS (liftS (backR z)) (\<lambda>l. retS ((z_0 # ys) @ [l], odd_cnf @ even_cnf @ comp_cnf)))
         else retS (z_0 # ys, odd_cnf @ even_cnf @ comp_cnf)))))) (?P k vm a b) vm1"
      if o: "?P (k + (m + n) + n\<^sup>2) vm (takeOdd a) (takeOdd b) (z_odd, odd_cnf) vm1" for z_odd odd_cnf vm1
    proof (rule merge_tail[OF assms ab(1) a0 3(1) old, folded m_def n_def, OF o])
      have r: "room (k + (m + n) + n\<^sup>2) vm1" and f: "fresh_ext vm vm1 odd_cnf"
        using o by (simp_all only: net_post_def prod.case)
      have olde1: "\<forall>x\<in>set (takeEven a) \<union> set (takeEven b). old_lit vm1 x"
        using olde fresh_ext_old[OF f] by blast
      show "wp (mergeNetwork (takeEven a) (takeEven b) le ge)
          (?P (k + (m + n)) vm1 (takeEven a) (takeEven b)) vm1"
        by (rule less.hyps[OF _ _ olde1]) (unfold lens ab(2), rule lt(2), rule r)
    qed
    show ?thesis
      unfolding mergeNetwork.simps[of A B] a_def[symmetric] b_def[symmetric] Let_def
        thenS_assertS if_P[OF ab(1)] if_P[OF assms] if_not_P[OF 3(1)] if_not_P[OF 3(2)]
        wp_bindS[of "mergeNetwork (takeOdd a) _ _ _"]
    proof (rule wp_mono[OF IHo])
      fix r vm1
      assume "?P (k + (m + n) + n\<^sup>2) vm (takeOdd a) (takeOdd b) r vm1"
      moreover obtain z_odd odd_cnf where "r = (z_odd, odd_cnf)" by (cases r)
      ultimately show "wp (case r of (z_odd, odd_cnf) \<Rightarrow>
         bindS (mergeNetwork (takeEven a) (takeEven b) le ge) (\<lambda>(z_even, even_cnf).
         bindS (liftS (zipperMerge z_even z_odd (length a) (length b))) (\<lambda>z.
         bindS (liftS (atR z 0)) (\<lambda>z_0.
         bindS (mergeLoop (drop 1 z) le ge) (\<lambda>(ys, comp_cnf).
         if (length a + length b) mod 2 = 0 then
           if length (z_0 # ys) = length a + length b - 1
             then bindS (liftS (backR z)) (\<lambda>l. retS ((z_0 # ys) @ [l], odd_cnf @ even_cnf @ comp_cnf))
             else failS AssertFail
         else retS (z_0 # ys, odd_cnf @ even_cnf @ comp_cnf)))))) (?P k vm a b) vm1"
        using rest[unfolded thenS_assertS] by (simp only: prod.case)
    qed
  qed
  then show ?case
    by (rule wp_mono) (erule net_post_mono, use ab(2) sem in simp)
qed


subsection \<open>Sorting networks\<close>

definition sort_sem :: "id list \<Rightarrow> bool \<Rightarrow> bool \<Rightarrow> id list \<Rightarrow> clauseVec \<Rightarrow> bool" where
  "sort_sem inputs le ge outs cnf = (\<forall>\<sigma>. cnf_sat \<sigma> cnf \<longrightarrow>
     (le \<longrightarrow> up \<sigma> outs (ntrue \<sigma> inputs)) \<and> (ge \<longrightarrow> dn \<sigma> outs (ntrue \<sigma> inputs)))"

lemma up_min: "up \<sigma> xs k \<Longrightarrow> up \<sigma> xs (min k n)"
  by (simp add: up_def)

lemma up_clip: "length xs \<le> n \<Longrightarrow> up \<sigma> xs (min k n) \<Longrightarrow> up \<sigma> xs k"
  by (auto simp: up_def)

lemma sort_merge_sem:
  assumes l: "sort_sem il le ge ol c1" and r: "sort_sem ir le ge orr c2" and m: "merge_sem ol orr le ge outs c3"
    and len: "length ol \<le> length il" "length orr \<le> length ir"
    and cap: "length ol < length il \<or> length orr < length ir \<Longrightarrow> length outs \<le> length ol \<and> length outs \<le> length orr
       \<or> length ol < length il \<and> length outs \<le> length ol \<and> length orr = length ir
       \<or> length orr < length ir \<and> length outs \<le> length orr \<and> length ol = length il"
  shows "sort_sem (il @ ir) le ge outs (c1 @ c2 @ c3)"
  unfolding sort_sem_def
proof (intro allI impI conjI)
  fix \<sigma>
  assume "cnf_sat \<sigma> (c1 @ c2 @ c3)"
  then have c: "cnf_sat \<sigma> c1" "cnf_sat \<sigma> c2" "cnf_sat \<sigma> c3" by simp_all
  let ?p = "ntrue \<sigma> il" and ?q = "ntrue \<sigma> ir"
  show "up \<sigma> outs (ntrue \<sigma> (il @ ir))" if le
  proof -
    have "up \<sigma> ol (min ?p (length ol))" "up \<sigma> orr (min ?q (length orr))"
      using l r c that by (auto simp: sort_sem_def intro: up_min)
    then have u: "up \<sigma> outs (min ?p (length ol) + min ?q (length orr))"
      using m c(3) that by (auto simp: merge_sem_def)
    have "?p \<le> length il" "?q \<le> length ir" by (rule ntrue_le)+
    then have "?p + ?q \<le> min ?p (length ol) + min ?q (length orr)
        \<or> length outs \<le> min ?p (length ol) + min ?q (length orr)"
      using cap len by linarith
    then show ?thesis using u by (auto simp: up_def)
  qed
  show "dn \<sigma> outs (ntrue \<sigma> (il @ ir))" if ge
    using l r m c that by (auto simp: sort_sem_def merge_sem_def)
qed

lemma sort_sem_single: "sort_sem [x] le ge [x] []"
  by (auto simp: sort_sem_def up_def dn_def)

lemma net_post_merge:
  assumes "net_post k1 vm S1 (o1, c1) vm1" "net_post k2 vm1 S2 (o2, c2) vm2"
    and "net_post k3 vm2 S3 (outs, c3) vm3" and "S1 o1 c1 \<Longrightarrow> S2 o2 c2 \<Longrightarrow> S3 outs c3 \<Longrightarrow> S outs (c1 @ c2 @ c3)"
  shows "net_post k3 vm S (outs, c1 @ c2 @ c3) vm3"
  using assms by (auto simp: net_post_def intro: fresh_ext_trans)

lemma cube_split: "(m::nat) + n = t \<Longrightarrow> 1 \<le> m \<Longrightarrow> m \<le> n \<Longrightarrow> n \<le> m + 1 \<Longrightarrow> 3 * m\<^sup>2 + 3 * n\<^sup>2 + t\<^sup>2 \<le> 3 * t\<^sup>2"
proof -
  assume a: "m + n = t" "1 \<le> m" "m \<le> n" "n \<le> m + 1"
  have "m\<^sup>2 + n\<^sup>2 \<le> 4 * (m * n)"
  proof (cases "n = m")
    case False
    then have "n = m + 1" using a by simp
    moreover have "1 \<le> m\<^sup>2" using a(2) by simp
    ultimately show ?thesis using a(2) by (simp add: power2_eq_square algebra_simps)
  qed (simp add: power2_eq_square)
  moreover have "t\<^sup>2 = m\<^sup>2 + n\<^sup>2 + 2 * (m * n)" using a(1) by (auto simp: power2_sum)
  ultimately show ?thesis by linarith
qed

lemma half_split:
  fixes n :: nat
  assumes "2 \<le> n"
  shows "n div 2 + (n - n div 2) = n" "1 \<le> n div 2" "n div 2 \<le> n - n div 2" "n - n div 2 \<le> n div 2 + 1"
    "n div 2 < n" "n - n div 2 < n"
  using assms by linarith+

lemma old_split:
  "\<forall>x\<in>set xs. old_lit vm x \<Longrightarrow> fresh_ext vm vm' cnf \<Longrightarrow> set ys \<subseteq> set xs \<Longrightarrow> \<forall>x\<in>set ys. old_lit vm' x"
  by (auto intro: fresh_ext_old)

lemma sortingNetwork_wp:
  assumes le: "le \<or> ge"
  shows "room (k + 3 * (length inputs)\<^sup>2) vm \<Longrightarrow> \<forall>x\<in>set inputs. old_lit vm x \<Longrightarrow> inputs \<noteq> [] \<Longrightarrow>
    wp (sortingNetwork inputs le ge)
      (net_post k vm (\<lambda>outs cnf. length outs = length inputs \<and> sort_sem inputs le ge outs cnf)) vm"
proof (induction "length inputs" arbitrary: inputs k vm rule: less_induct)
  case less
  define n where "n = length inputs"
  have n0: "n \<noteq> 0" using less.prems(3) by (simp add: n_def)
  consider "n = 1" | "n = 2" | "n \<noteq> 1" "n \<noteq> 2" by blast
  then show ?case
  proof cases
    case 1
    then obtain x where "inputs = [x]" by (auto simp: n_def length_Suc_conv)
    moreover have "room k vm" by (rule room_mono[OF less.prems(1)]) simp
    ultimately show ?thesis using less.prems(2)
      by (simp add: sortingNetwork.simps[of "[_]"] net_post_def sort_sem_single)
  next
    case 2
    then obtain x y where xy: "inputs = [x, y]" by (auto simp: n_def length_Suc_conv numeral_2_eq_2)
    have r: "room (k + (length [x] + length [y])\<^sup>2) vm" by (rule room_mono[OF less.prems(1)]) (simp add: xy)
    have o: "\<forall>z\<in>set [x] \<union> set [y]. old_lit vm z" using less.prems(2) xy by auto
    have "wp (mergeNetwork [x] [y] le ge)
        (net_post k vm (\<lambda>outs cnf. length outs = length inputs \<and> sort_sem inputs le ge outs cnf)) vm"
    proof (rule wp_mono[OF mergeNetwork_wp[OF le r o]], erule net_post_mono)
      fix outs cnf
      assume m: "length outs = length [x] + length [y] \<and> merge_sem [x] [y] le ge outs cnf"
      have "sort_sem ([x] @ [y]) le ge outs ([] @ [] @ cnf)"
        by (rule sort_merge_sem[OF sort_sem_single sort_sem_single]) (use m in auto)
      then show "length outs = length inputs \<and> sort_sem inputs le ge outs cnf" using m xy by simp
    qed
    then show ?thesis by (simp add: sortingNetwork.simps[of "[_, _]"] xy)
  next
    case 3
    then have n2: "2 \<le> n" using n0 by simp
    let ?l = "take (n div 2) inputs" and ?r = "drop (n div 2) inputs"
    note h = half_split[OF n2]
    have len: "length ?l = n div 2" "length ?r = n - n div 2" "length ?l + length ?r = length inputs"
      using h by (simp_all add: n_def)
    have ne: "?l \<noteq> []" "?r \<noteq> []"
      using len(1,2) h(2,3) by (metis le_trans list.size(3) not_one_le_zero)+
    have lt: "length ?l < length inputs" "length ?r < length inputs"
      unfolding len n_def[symmetric] by (rule h)+
    have r0: "room (k + n\<^sup>2 + 3 * (n - n div 2)\<^sup>2 + 3 * (n div 2)\<^sup>2) vm"
      using cube_split[OF h(1-4)] by (intro room_mono[OF less.prems(1)[folded n_def]]) linarith
    have IHl: "wp (sortingNetwork ?l le ge) (net_post (k + n\<^sup>2 + 3 * (n - n div 2)\<^sup>2) vm
        (\<lambda>outs cnf. length outs = length ?l \<and> sort_sem ?l le ge outs cnf)) vm"
    proof (rule less.hyps[OF lt(1) _ _ ne(1)])
      show "room (k + n\<^sup>2 + 3 * (n - n div 2)\<^sup>2 + 3 * (length ?l)\<^sup>2) vm" unfolding len by (rule r0)
      show "\<forall>x\<in>set ?l. old_lit vm x" using less.prems(2) set_take_subset[of "n div 2" inputs] by blast
    qed
    show ?thesis
      unfolding sortingNetwork.simps[of inputs] Let_def n_def[symmetric] if_not_P[OF n0] if_not_P[OF 3(1)]
        if_not_P[OF 3(2)] thenS_assertS if_P[OF len(3)[folded n_def]] wp_bindS[of "sortingNetwork ?l le ge"]
    proof (rule wp_mono[OF IHl], goal_cases)
      case (1 r1 vm1)
      obtain o1 c1 where r1: "r1 = (o1, c1)" by (cases r1)
      have f1: "fresh_ext vm vm1 c1" "room (k + n\<^sup>2 + 3 * (n - n div 2)\<^sup>2) vm1" "\<forall>y\<in>set o1. old_lit vm1 y"
        "length o1 = n div 2"
        using 1 len by (auto simp: r1 net_post_def)
      have IHr: "wp (sortingNetwork ?r le ge) (net_post (k + n\<^sup>2) vm1
          (\<lambda>outs cnf. length outs = length ?r \<and> sort_sem ?r le ge outs cnf)) vm1"
      proof (rule less.hyps[OF lt(2) _ _ ne(2)])
        show "room (k + n\<^sup>2 + 3 * (length ?r)\<^sup>2) vm1" unfolding len by (rule f1(2))
        show "\<forall>x\<in>set ?r. old_lit vm1 x"
          by (rule old_split[OF less.prems(2) f1(1) set_drop_subset])
      qed
      show ?case
        unfolding r1 prod.case wp_bindS[of "sortingNetwork ?r le ge"]
      proof (rule wp_mono[OF IHr], goal_cases)
        case (1 r2 vm2)
        obtain o2 c2 where r2: "r2 = (o2, c2)" by (cases r2)
        have f2: "fresh_ext vm1 vm2 c2" "room (k + n\<^sup>2) vm2" "\<forall>y\<in>set o2. old_lit vm2 y" "length o2 = n - n div 2"
          using 1 len by (auto simp: r2 net_post_def)
        have rm: "room (k + (length o1 + length o2)\<^sup>2) vm2" using f1(4) f2(2,4) h(1) by simp
        have om: "\<forall>x\<in>set o1 \<union> set o2. old_lit vm2 x" using f1(3) f2(1,3) by (auto intro: fresh_ext_old)
        show ?case
          unfolding r2 prod.case wp_bindS[of "mergeNetwork _ _ _ _"]
        proof (rule wp_mono[OF mergeNetwork_wp[OF le rm om]], goal_cases)
          case (1 r3 vm3)
          obtain outs c3 where r3: "r3 = (outs, c3)" by (cases r3)
          have "sort_sem (?l @ ?r) le ge outs (c1 @ c2 @ c3)" if "sort_sem ?l le ge o1 c1"
            "sort_sem ?r le ge o2 c2" "merge_sem o1 o2 le ge outs c3"
            by (rule sort_merge_sem[OF that]) (use f1(4) f2(4) len in auto)
          then show ?case
            unfolding r3 prod.case wp_retS
            by (intro net_post_merge[OF \<open>net_post _ vm _ r1 vm1\<close>[unfolded r1]
                  \<open>net_post _ vm1 _ r2 vm2\<close>[unfolded r2] 1[unfolded r3]])
              (use f1(4) f2(4) len in auto)
        qed
      qed
    qed
  qed
qed

end
