(* ===== verification/CardNetCorrect.thy ===== *)
theory CardNetCorrect
  imports SortingCorrect
begin

text \<open>
  Correctness of \<open>simpMergeNetwork\<close> and \<open>cardinalityNetwork\<close>: the merge truncated to \<open>c\<close>
  outputs and the network that counts up to \<open>m\<close>.
\<close>

lemma merge_sem_take:
  assumes "merge_sem (take c a) (take c b) le ge outs cnf" "length outs \<le> c"
  shows "merge_sem a b le ge outs cnf"
  unfolding merge_sem_def
proof (intro allI impI conjI)
  fix \<sigma> p q
  assume c: "cnf_sat \<sigma> cnf"
  show "up \<sigma> outs (p + q)" if "le" "p \<le> length a" "q \<le> length b" "up \<sigma> a p" "up \<sigma> b q"
  proof -
    have "up \<sigma> (take c a) (min p c)" "up \<sigma> (take c b) (min q c)"
      using that(4,5) by (auto simp: up_def)
    then have "up \<sigma> outs (min p c + min q c)"
      using assms(1) c that by (auto simp: merge_sem_def)
    then show ?thesis using assms(2) by (auto simp: up_def)
  qed
  show "dn \<sigma> outs (p + q)" if "ge" "dn \<sigma> a p" "dn \<sigma> b q"
  proof -
    have "dn \<sigma> (take c a) p" "dn \<sigma> (take c b) q" using that(2,3) by (auto simp: dn_def)
    then show ?thesis using assms(1) c that(1) by (auto simp: merge_sem_def)
  qed
qed

definition sloop_sem :: "assignment \<Rightarrow> bool \<Rightarrow> bool \<Rightarrow> id list \<Rightarrow> id list \<Rightarrow> nat \<Rightarrow> nat \<Rightarrow> id list \<Rightarrow> bool" where
  "sloop_sem \<sigma> le ge e d i k ys = (\<forall>j<k.
     cmp_sem \<sigma> le ge (e ! (i + j + 1)) (d ! (i + j)) (ys ! (2 * j)) (ys ! (2 * j + 1)))"

lemma sloop_sem_Suc:
  assumes "cmp_sem \<sigma> le ge (e ! (i + 1)) (d ! i) y_1 y_2" "sloop_sem \<sigma> le ge e d (i + 1) k ys"
  shows "sloop_sem \<sigma> le ge e d i (Suc k) (y_1 # y_2 # ys)"
  unfolding sloop_sem_def
proof (intro allI impI)
  fix j
  assume "j < Suc k"
  then show "cmp_sem \<sigma> le ge (e ! (i + j + 1)) (d ! (i + j)) ((y_1 # y_2 # ys) ! (2 * j)) ((y_1 # y_2 # ys) ! (2 * j + 1))"
    using assms by (cases j) (auto simp: sloop_sem_def)
qed

lemma simpMergeLoop_wp:
  assumes le: "le \<or> ge"
  shows "room (k + 2 * m) vm \<Longrightarrow> \<forall>x\<in>set e. old_lit vm x \<Longrightarrow> \<forall>x\<in>set d. old_lit vm x
    \<Longrightarrow> i + m < length e \<Longrightarrow> i + m \<le> length d \<Longrightarrow>
    wp (simpMergeLoop e d le ge i m)
      (net_post k vm (\<lambda>ys cnf. length ys = 2 * m \<and> (\<forall>\<sigma>. cnf_sat \<sigma> cnf \<longrightarrow> sloop_sem \<sigma> le ge e d i m ys))) vm"
proof (induction m arbitrary: i vm)
  case 0
  then show ?case by (simp add: net_post_def sloop_sem_def)
next
  case (Suc m)
  have i: "i + 1 < length e" "i < length d" using Suc.prems by auto
  have r: "room (Suc (Suc (k + 2 * m))) vm" using Suc.prems(1) by simp
  have ol: "old_lit vm (e ! (i + 1))" "old_lit vm (d ! i)" using Suc.prems(2,3) i by auto
  show ?case
    unfolding simpMergeLoop.simps wp_bindS[of "liftS (atR e (i + 1))"] wp_bindS[of "liftS (atR d i)"]
      wp_liftS wpr_atR
  proof (intro conjI i comp_step[OF r ol le])
    fix y_1 y_2 cnf vm1
    assume s: "room (k + 2 * m) vm1" "fresh_ext vm vm1 cnf" "old_lit vm1 y_1" "old_lit vm1 y_2"
      "comp (e ! (i + 1)) (d ! i) y_1 y_2 le ge = Inr cnf"
    have IH: "wp (simpMergeLoop e d le ge (i + 1) m) (net_post k vm1 (\<lambda>ys cnf. length ys = 2 * m
        \<and> (\<forall>\<sigma>. cnf_sat \<sigma> cnf \<longrightarrow> sloop_sem \<sigma> le ge e d (i + 1) m ys))) vm1"
      by (rule Suc.IH[OF s(1)]) (use Suc.prems fresh_ext_old[OF s(2)] in auto)
    show "wp (bindS (simpMergeLoop e d le ge (i + 1) m) (\<lambda>(ys, cnf'). retS (y_1 # y_2 # ys, cnf @ cnf')))
      (net_post k vm (\<lambda>ys cnf. length ys = 2 * Suc m
        \<and> (\<forall>\<sigma>. cnf_sat \<sigma> cnf \<longrightarrow> sloop_sem \<sigma> le ge e d i (Suc m) ys))) vm1"
      unfolding wp_bindS
    proof (rule wp_mono[OF IH], goal_cases)
      case (1 r vm2)
      obtain ys cnf' where r: "r = (ys, cnf')" by (cases r)
      have t: "fresh_ext vm1 vm2 cnf'" "room k vm2" "\<forall>y\<in>set ys. old_lit vm2 y" "length ys = 2 * m"
        "\<And>\<sigma>. cnf_sat \<sigma> cnf' \<Longrightarrow> sloop_sem \<sigma> le ge e d (i + 1) m ys"
        using 1 by (auto simp: r net_post_def)
      have "cmp_sem \<sigma> le ge (e ! (i + 1)) (d ! i) y_1 y_2" if "cnf_sat \<sigma> cnf" for \<sigma>
        using comp_sem[OF s(5) that] unfolding cmp_sem_def by blast
      then have "\<forall>\<sigma>. cnf_sat \<sigma> (cnf @ cnf') \<longrightarrow> sloop_sem \<sigma> le ge e d i (Suc m) (y_1 # y_2 # ys)"
        using t(5) sloop_sem_Suc by simp
      then show ?case
        unfolding r prod.case wp_retS net_post_def
        using fresh_ext_trans[OF s(2) t(1)] s(3,4) fresh_ext_old[OF t(1)] t(2-4) by simp
    qed
  qed
qed

text \<open>The outputs of \<open>simpMergeNetwork\<close> for an even and for an odd bound \<open>c\<close>.\<close>

lemma simp_even_sem:
  assumes "sloop_sem \<sigma> le ge e d 0 m ys" "length ys = 2 * m" "length e = m + 2" "length d = m + 1"
    and "le \<Longrightarrow> lit_true \<sigma> (last e) \<or> lit_true \<sigma> (last d) \<longrightarrow> lit_true \<sigma> y"
    and "ge \<Longrightarrow> lit_true \<sigma> y \<longrightarrow> lit_true \<sigma> (last e) \<or> lit_true \<sigma> (last d)"
  shows "(le \<longrightarrow> oe_le \<sigma> e d (e ! 0 # ys @ [y])) \<and> (ge \<longrightarrow> oe_ge \<sigma> e d (e ! 0 # ys @ [y]))"
proof -
  have ne: "e \<noteq> []" "d \<noteq> []" using assms(3,4) by auto
  have l: "last e = e ! (m + 1)" "last d = d ! m" using assms(3,4) ne by (simp_all add: last_conv_nth)
  have c: "cmp_sem \<sigma> le ge (e ! (j + 1)) (d ! j) (ys ! (2 * j)) (ys ! (2 * j + 1))" if "j < m" for j
    using assms(1) that by (simp add: sloop_sem_def)
  have y: "(e ! 0 # ys @ [y]) ! (2 * j + 1) = (if j < m then ys ! (2 * j) else y)" if "j \<le> m" for j
    using that assms(2) by (auto simp: nth_append)
  have y2: "(e ! 0 # ys @ [y]) ! (2 * j + 2) = ys ! (2 * j + 1)" if "j < m" for j
    using that assms(2) by (auto simp: nth_append)
  show ?thesis
    unfolding oe_le_def oe_ge_def
  proof (intro conjI impI allI)
    fix j
    assume "2 * j + 1 < length (e ! 0 # ys @ [y])"
    then have j: "j \<le> m" using assms(2) by simp
    show "tv \<sigma> (e ! 0 # ys @ [y]) (2 * j + 1)" if "tv \<sigma> d j \<or> tv \<sigma> e (j + 1)" le
      using that j assms(2,5) l y[OF j] c[of j] by (cases "j = m") (auto simp: tv_def cmp_sem_def)
    show "tv \<sigma> d j \<or> tv \<sigma> e (j + 1)" if "tv \<sigma> (e ! 0 # ys @ [y]) (2 * j + 1)" ge
      using that j assms(3,4,6) l y[OF j] c[of j] by (cases "j = m") (auto simp: tv_def cmp_sem_def)
  next
    fix j
    assume "2 * j + 2 < length (e ! 0 # ys @ [y])"
    then have j: "j < m" using assms(2) by simp
    show "tv \<sigma> (e ! 0 # ys @ [y]) (2 * j + 2)" if "tv \<sigma> d j \<and> tv \<sigma> e (j + 1)" le
      using that j assms(2) y2[OF j] c[OF j] by (auto simp: tv_def cmp_sem_def)
    show "tv \<sigma> d j" "tv \<sigma> e (j + 1)" if "tv \<sigma> (e ! 0 # ys @ [y]) (2 * j + 2)" ge
      using that j assms(3,4) y2[OF j] c[OF j] by (auto simp: tv_def cmp_sem_def)
  qed (use ne in \<open>auto simp: tv_def\<close>)
qed

lemma simp_odd_sem:
  assumes "sloop_sem \<sigma> le ge e d 0 m ys" "length ys = 2 * m" "length e = m + 1" "length d = m"
  shows "(le \<longrightarrow> oe_le \<sigma> e d (e ! 0 # ys)) \<and> (ge \<longrightarrow> oe_ge \<sigma> e d (e ! 0 # ys))"
proof -
  have ne: "e \<noteq> []" using assms(3) by auto
  have c: "cmp_sem \<sigma> le ge (e ! (j + 1)) (d ! j) (ys ! (2 * j)) (ys ! (2 * j + 1))" if "j < m" for j
    using assms(1) that by (simp add: sloop_sem_def)
  show ?thesis
    unfolding oe_le_def oe_ge_def
  proof (intro conjI impI allI)
    fix j
    assume "2 * j + 1 < length (e ! 0 # ys)"
    then have j: "j < m" using assms(2) by simp
    show "tv \<sigma> (e ! 0 # ys) (2 * j + 1)" if "tv \<sigma> d j \<or> tv \<sigma> e (j + 1)" le
      using that j assms(2) c[of j] by (auto simp: tv_def cmp_sem_def)
    show "tv \<sigma> d j \<or> tv \<sigma> e (j + 1)" if "tv \<sigma> (e ! 0 # ys) (2 * j + 1)" ge
      using that j assms(3,4) c[of j] by (auto simp: tv_def cmp_sem_def)
  next
    fix j
    assume "2 * j + 2 < length (e ! 0 # ys)"
    then have j: "j < m" using assms(2) by simp
    show "tv \<sigma> (e ! 0 # ys) (2 * j + 2)" if "tv \<sigma> d j \<and> tv \<sigma> e (j + 1)" le
      using that j assms(2) c[OF j] by (auto simp: tv_def cmp_sem_def)
    show "tv \<sigma> d j" "tv \<sigma> e (j + 1)" if "tv \<sigma> (e ! 0 # ys) (2 * j + 2)" ge
      using that j assms(3,4) c[OF j] by (auto simp: tv_def cmp_sem_def)
  qed (use ne in \<open>auto simp: tv_def\<close>)
qed

lemma merge_sem_or:
  assumes "partialComp x_a x_b y le ge = Inr cnf"
  shows "merge_sem [x_a] [x_b] le ge [y] cnf"
  unfolding merge_sem_def
proof (intro allI impI conjI)
  fix \<sigma> p q
  assume c: "cnf_sat \<sigma> cnf"
  show "up \<sigma> [y] (p + q)" if "le" "p \<le> length [x_a]" "q \<le> length [x_b]" "up \<sigma> [x_a] p" "up \<sigma> [x_b] q"
    using partialComp_sem(1)[OF assms c that(1)] that by (cases p; cases q) (auto simp: up_def)
  show "dn \<sigma> [y] (p + q)" if "ge" "dn \<sigma> [x_a] p" "dn \<sigma> [x_b] q"
    using partialComp_sem(2)[OF assms c that(1)] that by (cases p; cases q) (auto simp: dn_def)
qed

lemma simp_sizes:
  fixes a b c :: nat
  assumes "a \<le> b" "b \<le> c" "c < a + b"
  shows "c mod 2 = 0 \<Longrightarrow> min (c div 2) (a div 2 + b div 2) = c div 2"
    "c mod 2 = 0 \<Longrightarrow> min (c div 2 + 1) ((a + 1) div 2 + (b + 1) div 2) = c div 2 + 1"
    "c mod 2 \<noteq> 0 \<Longrightarrow> min ((c - 1) div 2) (a div 2 + b div 2) = (c - 1) div 2"
    "c mod 2 \<noteq> 0 \<Longrightarrow> min ((c + 1) div 2) ((a + 1) div 2 + (b + 1) div 2) = (c + 1) div 2"
proof -
  have lo: "n \<le> 2 * (n div 2) + 1" and hi: "n \<le> 2 * ((n + 1) div 2)" for n :: nat by presburger+
  have i1: "2 * k = c \<Longrightarrow> k \<le> x + y" "2 * k + 1 = c \<Longrightarrow> k \<le> x + y"
    if "a \<le> 2 * x + 1" "b \<le> 2 * y + 1" for x y k
    using that assms(3) by presburger+
  have i2: "2 * k = c \<Longrightarrow> k + 1 \<le> x + y" "2 * k = c + 1 \<Longrightarrow> k \<le> x + y"
    if "a \<le> 2 * x" "b \<le> 2 * y" for x y k
    using that assms(3) by presburger+
  have ev: "2 * (c div 2) = c" if "c mod 2 = 0" using that by presburger
  have od: "2 * ((c - 1) div 2) + 1 = c" "2 * ((c + 1) div 2) = c + 1" if "c mod 2 \<noteq> 0"
    using that by presburger+
  show "min (c div 2) (a div 2 + b div 2) = c div 2" if "c mod 2 = 0"
    using i1(1)[OF lo lo ev[OF that]] by (rule min_absorb1)
  show "min (c div 2 + 1) ((a + 1) div 2 + (b + 1) div 2) = c div 2 + 1" if "c mod 2 = 0"
    using i2(1)[OF hi hi ev[OF that]] by (rule min_absorb1)
  show "min ((c - 1) div 2) (a div 2 + b div 2) = (c - 1) div 2" if "c mod 2 \<noteq> 0"
    using i1(2)[OF lo lo od(1)[OF that]] by (rule min_absorb1)
  show "min ((c + 1) div 2) ((a + 1) div 2 + (b + 1) div 2) = (c + 1) div 2" if "c mod 2 \<noteq> 0"
    using i2(2)[OF hi hi od(2)[OF that]] by (rule min_absorb1)
qed


lemma simp_even_tail:
  assumes le: "le \<or> ge" and c: "c mod 2 = 0" "2 \<le> c"
    and e: "length e = c div 2 + 1" "\<forall>x\<in>set e. old_lit vm2 x" "merge_sem (takeEven a) (takeEven b) le ge e c2"
    and d: "length d = c div 2" "\<forall>x\<in>set d. old_lit vm2 x" "merge_sem (takeOdd a) (takeOdd b) le ge d c1"
    and f: "fresh_ext vm vm2 (c1 @ c2)" and r: "room (k + c) vm2"
  shows "wp (thenS (assertS (length e = c div 2 + 1)) (thenS (assertS (length d = c div 2))
           (bindS (simpMergeLoop e d le ge 0 (c div 2 - 1)) (\<lambda>(ys, comp_cnf).
            bindS getNewID (\<lambda>y_c.
            bindS (liftS (backR e)) (\<lambda>x_e. bindS (liftS (backR d)) (\<lambda>x_o.
            bindS (liftS (partialComp x_e x_o y_c le ge)) (\<lambda>or_cnf.
              retS (e ! 0 # ys @ [y_c], c1 @ c2 @ comp_cnf @ or_cnf)))))))))
     (net_post k vm (\<lambda>outs cnf. length outs = c \<and> merge_sem a b le ge outs cnf)) vm2"
proof -
  define m where "m = c div 2 - 1"
  have m: "c = 2 * (m + 1)" unfolding m_def using c by presburger
  have cd: "c div 2 - 1 = m" "c div 2 = m + 1" using m by simp_all
  have ne: "e \<noteq> []" "d \<noteq> []" using e(1) d(1) cd by auto
  have r1: "room (k + 1 + 2 * m) vm2" by (rule room_mono[OF r]) (use m in simp)
  have loop: "wp (simpMergeLoop e d le ge 0 m)
      (net_post (k + 1) vm2 (\<lambda>ys cnf. length ys = 2 * m \<and> (\<forall>\<sigma>. cnf_sat \<sigma> cnf \<longrightarrow> sloop_sem \<sigma> le ge e d 0 m ys))) vm2"
    by (rule simpMergeLoop_wp[OF le r1 e(2) d(2)]) (use e(1) d(1) cd in auto)
  show ?thesis
    unfolding thenS_assertS if_P[OF e(1)] if_P[OF d(1)]
    unfolding cd(1) wp_bindS[of "simpMergeLoop _ _ _ _ _ _"]
  proof (rule wp_mono[OF loop], goal_cases)
    case (1 rr vm3)
    obtain ys c3 where rr: "rr = (ys, c3)" by (cases rr)
    have t: "fresh_ext vm2 vm3 c3" "room (Suc k) vm3" "\<forall>y\<in>set ys. old_lit vm3 y" "length ys = 2 * m"
      "\<And>\<sigma>. cnf_sat \<sigma> c3 \<Longrightarrow> sloop_sem \<sigma> le ge e d 0 m ys"
      using 1 by (auto simp: rr net_post_def)
    have o: "old_lit vm3 (last e)" "old_lit vm3 (last d)" "old_lit vm3 (e ! 0)"
      using ne e(2) d(2) fresh_ext_old[OF t(1)] by (auto simp: nth_mem)
    show ?case
      unfolding rr prod.case wp_bindS wp_liftS wpr_backR
    proof (rule wp_mono[OF partialComp_step[OF t(2) o(1,2) le, where Q' = "\<lambda>y c4 vm'. net_post k vm
        (\<lambda>outs cnf. length outs = c \<and> merge_sem a b le ge outs cnf) (e ! 0 # ys @ [y], c1 @ c2 @ c3 @ c4) vm'"]],
        goal_cases)
      case (1 y c4 vm')
      have sem: "(le \<longrightarrow> oe_le \<sigma> e d (e ! 0 # ys @ [y])) \<and> (ge \<longrightarrow> oe_ge \<sigma> e d (e ! 0 # ys @ [y]))"
        if "cnf_sat \<sigma> c3" "cnf_sat \<sigma> c4" for \<sigma>
        by (rule simp_even_sem[OF t(5)[OF that(1)] t(4)])
          (use e(1) d(1) cd partialComp_sem[OF 1(4) that(2)] in auto)
      have "merge_sem a b le ge (e ! 0 # ys @ [y]) (c1 @ c2 @ c3 @ c4)"
        by (rule merge_rec_sem[OF d(3) e(3) ne(1)])
          (use sem e(1) d(1) cd t(4) in \<open>auto simp: cnf_sat_def\<close>)
      moreover have "fresh_ext vm vm' (c1 @ c2 @ c3 @ c4)"
        using fresh_ext_trans[OF f fresh_ext_trans[OF t(1) 1(2)]] by simp
      ultimately show ?case
        using 1(1,3) t(3,4) o(3) fresh_ext_old[OF 1(2)] m by (auto simp: net_post_def)
    next
      case (2 y vm')
      then show ?case using ne by simp
    qed
  qed
qed

lemma simp_odd_tail:
  assumes le: "le \<or> ge" and c: "c mod 2 \<noteq> 0"
    and e: "length e = (c + 1) div 2" "\<forall>x\<in>set e. old_lit vm2 x" "merge_sem (takeEven a) (takeEven b) le ge e c2"
    and d: "length d = (c - 1) div 2" "\<forall>x\<in>set d. old_lit vm2 x" "merge_sem (takeOdd a) (takeOdd b) le ge d c1"
    and f: "fresh_ext vm vm2 (c1 @ c2)" and r: "room (k + c) vm2"
  shows "wp (thenS (assertS (length d = (c - 1) div 2)) (thenS (assertS (length e = (c + 1) div 2))
           (bindS (simpMergeLoop e d le ge 0 ((c - 1) div 2)) (\<lambda>(ys, comp_cnf).
              retS (e ! 0 # ys, c1 @ c2 @ comp_cnf)))))
     (net_post k vm (\<lambda>outs cnf. length outs = c \<and> merge_sem a b le ge outs cnf)) vm2"
proof -
  obtain m where m: "c = 2 * m + 1" using c by (metis mod_mod_trivial mult_div_mod_eq not_mod_2_eq_0_eq_1)
  have cd: "(c - 1) div 2 = m" "(c + 1) div 2 = m + 1" using m by simp_all
  have ne: "e \<noteq> []" using e(1) cd by auto
  have r1: "room (k + 2 * m) vm2" by (rule room_mono[OF r]) (use m in simp)
  have loop: "wp (simpMergeLoop e d le ge 0 m)
      (net_post k vm2 (\<lambda>ys cnf. length ys = 2 * m \<and> (\<forall>\<sigma>. cnf_sat \<sigma> cnf \<longrightarrow> sloop_sem \<sigma> le ge e d 0 m ys))) vm2"
    by (rule simpMergeLoop_wp[OF le r1 e(2) d(2)]) (use e(1) d(1) cd in auto)
  show ?thesis
    unfolding thenS_assertS if_P[OF e(1)] if_P[OF d(1)]
    unfolding cd(1) wp_bindS[of "simpMergeLoop _ _ _ _ _ _"]
  proof (rule wp_mono[OF loop], goal_cases)
    case (1 rr vm3)
    obtain ys c3 where rr: "rr = (ys, c3)" by (cases rr)
    have t: "fresh_ext vm2 vm3 c3" "room k vm3" "\<forall>y\<in>set ys. old_lit vm3 y" "length ys = 2 * m"
      "\<And>\<sigma>. cnf_sat \<sigma> c3 \<Longrightarrow> sloop_sem \<sigma> le ge e d 0 m ys"
      using 1 by (auto simp: rr net_post_def)
    have o: "old_lit vm3 (e ! 0)"
      using ne e(2) fresh_ext_old[OF t(1)] by (auto simp: nth_mem)
    have sem: "(le \<longrightarrow> oe_le \<sigma> e d (e ! 0 # ys)) \<and> (ge \<longrightarrow> oe_ge \<sigma> e d (e ! 0 # ys))"
      if "cnf_sat \<sigma> c3" for \<sigma>
      by (rule simp_odd_sem[OF t(5)[OF that(1)] t(4)]) (use e(1) d(1) cd in auto)
    have "merge_sem a b le ge (e ! 0 # ys) (c1 @ c2 @ c3)"
      by (rule merge_rec_sem[OF d(3) e(3) ne(1)])
        (use sem e(1) d(1) cd t(4) in \<open>auto simp: cnf_sat_def\<close>)
    moreover have "fresh_ext vm vm3 (c1 @ c2 @ c3)"
      using fresh_ext_trans[OF f t(1)] by simp
    ultimately show ?case
      unfolding rr prod.case wp_retS using t(2-4) o m by (auto simp: net_post_def)
  qed
qed


lemma simpMergeNetwork_wp:
  assumes le: "le \<or> ge"
  shows "room (k + (length A + length B)\<^sup>2) vm \<Longrightarrow> \<forall>x\<in>set A \<union> set B. old_lit vm x \<Longrightarrow>
    wp (simpMergeNetwork A B c le ge)
      (net_post k vm (\<lambda>outs cnf. length outs = min c (length A + length B) \<and> merge_sem A B le ge outs cnf)) vm"
proof (induction "length A + length B" arbitrary: A B c k vm rule: less_induct)
  case less
  define a' where "a' = (if length A \<le> length B then A else B)"
  define b' where "b' = (if length A \<le> length B then B else A)"
  define a where "a = take c a'"
  define b where "b = take c b'"
  have ab': "length a' \<le> length b'" "length a' + length b' = length A + length B" "set a' \<union> set b' = set A \<union> set B"
    unfolding a'_def b'_def by auto
  have ab: "length a \<le> length b" "length b \<le> c" "length a + length b \<le> length A + length B"
    "min c (length A + length B) = min c (length a + length b)"
    using ab' unfolding a_def b_def by auto
  have sem: "merge_sem A B le ge outs cnf"
    if "length outs = min c (length a + length b)" "merge_sem a b le ge outs cnf" for outs cnf
  proof -
    have "merge_sem a' b' le ge outs cnf"
      by (rule merge_sem_take[OF that(2)[unfolded a_def b_def]]) (use that(1) in simp)
    then show ?thesis using merge_sem_swap[of a' b' le ge outs cnf] unfolding a'_def b'_def by (simp split: if_splits)
  qed
  have sq: "(length a + length b)\<^sup>2 \<le> (length A + length B)\<^sup>2" using ab(3) by (simp add: power2_nat_le_eq_le)
  have r0: "room (k + (length a + length b)\<^sup>2) vm" by (rule room_mono[OF less.prems(1)]) (use sq in simp)
  have old: "\<forall>x\<in>set a. old_lit vm x" "\<forall>x\<in>set b. old_lit vm x"
    using less.prems(2) ab'(3) set_take_subset[of c a'] set_take_subset[of c b'] unfolding a_def b_def by blast+
  let ?P = "\<lambda>k vm a b c. net_post k vm (\<lambda>outs cnf. length outs = min c (length a + length b) \<and> merge_sem a b le ge outs cnf)"
  note unf = simpMergeNetwork.simps[of A B c le ge, folded a'_def b'_def, folded a_def b_def]
  consider (e) "length a = 0" | (o) "length a \<noteq> 0" "length a = 1 \<and> length b = 1 \<and> c = 1"
    | (m) "length a \<noteq> 0" "\<not> (length a = 1 \<and> length b = 1 \<and> c = 1)" "length a + length b \<le> c"
    | (r) "length a \<noteq> 0" "\<not> (length a = 1 \<and> length b = 1 \<and> c = 1)" "\<not> length a + length b \<le> c" by blast
  then have "wp (simpMergeNetwork A B c le ge) (?P k vm a b c) vm"
  proof cases
    case e
    have "room k vm" by (rule room_mono[OF r0]) simp
    then show ?thesis
      unfolding unf Let_def thenS_assertS if_P[OF ab(1)] if_P[OF ab(2)] if_P[OF le] if_P[OF e]
      using e old ab by (simp add: net_post_def merge_sem_nil)
  next
    case o
    then obtain x_a x_b where x: "a = [x_a]" "b = [x_b]" by (auto simp: length_Suc_conv)
    have r: "room (Suc k) vm" by (rule room_mono[OF r0]) (simp add: x)
    have ox: "old_lit vm x_a" "old_lit vm x_b" using old x by auto
    show ?thesis
      unfolding unf Let_def thenS_assertS if_P[OF ab(1)] if_P[OF ab(2)] if_P[OF le] if_not_P[OF o(1)] if_P[OF o(2)]
        wp_bindS wp_liftS wpr_atR
    proof (rule wp_mono[OF partialComp_step[OF r ox le, where Q' = "\<lambda>y cnf vm'. ?P k vm a b c ([y], cnf) vm'"]], goal_cases)
      case (1 y cnf vm')
      then show ?case using merge_sem_or[OF 1(4)] x o by (simp add: net_post_def)
    next
      case (2 y vm')
      then show ?case using x by simp
    qed
  next
    case m
    have "\<forall>x\<in>set a \<union> set b. old_lit vm x" using old by blast
    from mergeNetwork_wp[OF le r0 this] show ?thesis
      unfolding unf Let_def thenS_assertS if_P[OF ab(1)] if_P[OF ab(2)] if_P[OF le] if_not_P[OF m(1)]
        if_not_P[OF m(2)] if_P[OF m(3)]
      by (rule wp_mono) (erule net_post_mono, use m(3) in simp)
  next
    case r
    have a0: "0 < length a" using r(1) by simp
    have n1: "\<not> (length a = 1 \<and> length b = 1)" using r ab(2) by linarith
    have cs: "c < length a + length b" using r(3) by simp
    define m where "m = length a div 2 + length b div 2"
    define n where "n = (length a + 1) div 2 + (length b + 1) div 2"
    note mn = merge_halves[OF ab(1) a0 n1, folded m_def n_def]
    note sz = simp_sizes[OF ab(1,2) cs, folded m_def n_def]
    have c2: "c mod 2 = 0 \<Longrightarrow> 2 \<le> c" using ab a0 by presburger
    have lt: "m < length A + length B" "n < length A + length B" using mn ab(3) by linarith+
    have lens: "length (takeOdd a) + length (takeOdd b) = m" "length (takeEven a) + length (takeEven b) = n"
      by (simp_all add: m_def n_def)
    have r1: "room (k + (m + n) + n\<^sup>2 + m\<^sup>2) vm"
    proof (rule room_mono[OF r0])
      show "k + (m + n) + n\<^sup>2 + m\<^sup>2 \<le> k + (length a + length b)\<^sup>2"
        using square_split[OF mn(1,2)] unfolding mn(3)[symmetric] by linarith
    qed
    have oldo: "\<forall>x\<in>set (takeOdd a) \<union> set (takeOdd b). old_lit vm x"
      and olde: "\<forall>x\<in>set (takeEven a) \<union> set (takeEven b). old_lit vm x"
      using old takeOdd_set[of a] takeOdd_set[of b] takeEven_set[of a] takeEven_set[of b] by blast+
    define co where "co = (if c mod 2 = 0 then c div 2 else (c - 1) div 2)"
    define ce where "ce = (if c mod 2 = 0 then c div 2 + 1 else (c + 1) div 2)"
    have IHo: "wp (simpMergeNetwork (takeOdd a) (takeOdd b) co le ge)
        (?P (k + (m + n) + n\<^sup>2) vm (takeOdd a) (takeOdd b) co) vm"
      by (rule less.hyps[OF _ _ oldo]) (unfold lens, rule lt(1), rule r1)
    show ?thesis
      unfolding unf Let_def thenS_assertS[of "length a \<le> length b"] thenS_assertS[of "length b \<le> c"]
        thenS_assertS[of "le \<or> ge"] if_P[OF ab(1)] if_P[OF ab(2)] if_P[OF le] if_not_P[OF r(1)]
        if_not_P[OF r(2)] if_not_P[OF r(3)] co_def[symmetric] ce_def[symmetric]
        wp_bindS[of "simpMergeNetwork (takeOdd a) _ _ _ _"]
    proof (rule wp_mono[OF IHo], goal_cases)
      case (1 q1 vm1)
      obtain d c1 where q1: "q1 = (d, c1)" by (cases q1)
      have o: "fresh_ext vm vm1 c1" "room (k + (m + n) + n\<^sup>2) vm1" "\<forall>y\<in>set d. old_lit vm1 y"
        "length d = min co m" "merge_sem (takeOdd a) (takeOdd b) le ge d c1"
        using 1 by (auto simp: q1 net_post_def m_def)
      have olde1: "\<forall>x\<in>set (takeEven a) \<union> set (takeEven b). old_lit vm1 x"
        using olde fresh_ext_old[OF o(1)] by blast
      have IHe: "wp (simpMergeNetwork (takeEven a) (takeEven b) ce le ge)
          (?P (k + (m + n)) vm1 (takeEven a) (takeEven b) ce) vm1"
        by (rule less.hyps[OF _ _ olde1]) (unfold lens, rule lt(2), rule o(2))
      show ?case
        unfolding q1 prod.case wp_bindS[of "simpMergeNetwork (takeEven a) _ _ _ _"]
      proof (rule wp_mono[OF IHe], goal_cases)
        case (1 q2 vm2)
        obtain e c2 where q2: "q2 = (e, c2)" by (cases q2)
        have e: "fresh_ext vm1 vm2 c2" "room (k + (m + n)) vm2" "\<forall>y\<in>set e. old_lit vm2 y"
          "length e = min ce n" "merge_sem (takeEven a) (takeEven b) le ge e c2"
          using 1 by (auto simp: q2 net_post_def n_def)
        have rc: "room (k + c) vm2" by (rule room_mono[OF e(2)]) (use mn(3) cs in simp)
        have od: "\<forall>x\<in>set d. old_lit vm2 x" using o(3) fresh_ext_old[OF e(1)] by blast
        note f = fresh_ext_trans[OF o(1) e(1)]
        have post: "?P k vm a b c = net_post k vm (\<lambda>outs cnf. length outs = c \<and> merge_sem a b le ge outs cnf)"
          using cs by (simp add: min_def)
        show ?case
        proof (cases "c mod 2 = 0")
          case True
          have ld: "length d = c div 2" and l_e: "length e = c div 2 + 1"
            by (simp_all only: o(4) e(4) co_def ce_def if_P[OF True] sz(1,2)[OF True])
          have "0 < length e" using l_e by simp
          then show ?thesis
            unfolding q2 prod.case post if_P[OF True] wp_bindS[of "liftS (atR e 0)"] wp_liftS[of "atR e 0"] wpr_atR
            by (intro conjI simp_even_tail[OF le True c2[OF True] l_e e(3,5) ld od o(5) f rc])
        next
          case False
          have ld: "length d = (c - 1) div 2" and l_e: "length e = (c + 1) div 2"
            by (simp_all only: o(4) e(4) co_def ce_def if_not_P[OF False] sz(3,4)[OF False])
          have "0 < length e" using l_e False by presburger
          then show ?thesis
            unfolding q2 prod.case post if_not_P[OF False] wp_bindS[of "liftS (atR e 0)"] wp_liftS[of "atR e 0"] wpr_atR
            by (intro conjI simp_odd_tail[OF le False l_e e(3,5) ld od o(5) f rc])
        qed
      qed
    qed
  qed
  then show ?case
    by (rule wp_mono) (erule net_post_mono, use ab(4) sem in simp)
qed

subsection \<open>Cardinality networks\<close>

lemma cardinalityNetwork_wp:
  assumes le: "le \<or> ge" and m0: "0 < m"
  shows "room (k + 3 * (length inputs)\<^sup>2) vm \<Longrightarrow> \<forall>x\<in>set inputs. old_lit vm x \<Longrightarrow> inputs \<noteq> [] \<Longrightarrow>
    wp (cardinalityNetwork inputs m le ge)
      (net_post k vm (\<lambda>outs cnf. length outs = min (length inputs) m \<and> sort_sem inputs le ge outs cnf)) vm"
proof (induction "length inputs" arbitrary: inputs k vm rule: less_induct)
  case less
  define n where "n = length inputs"
  have n0: "n \<noteq> 0" using less.prems(3) by (simp add: n_def)
  have mz: "m \<noteq> 0" using m0 by simp
  show ?case
  proof (cases "n \<le> m")
    case True
    from sortingNetwork_wp[OF le less.prems] show ?thesis
      unfolding cardinalityNetwork.simps[of inputs] Let_def n_def[symmetric] if_not_P[OF n0] if_not_P[OF mz] if_P[OF True]
      by (rule wp_mono) (erule net_post_mono, use True in simp)
  next
    case False
    then have n2: "2 \<le> n" "\<not> n < 2" using mz by simp_all
    let ?l = "take (n div 2) inputs" and ?r = "drop (n div 2) inputs"
    note h = half_split[OF n2(1)]
    have len: "length ?l = n div 2" "length ?r = n - n div 2"
      using h by (simp_all add: n_def)
    have ne: "?l \<noteq> []" "?r \<noteq> []"
      using len(1,2) h(2,3) by (metis le_trans list.size(3) not_one_le_zero)+
    have lt: "length ?l < length inputs" "length ?r < length inputs"
      unfolding len n_def[symmetric] by (rule h)+
    have r0: "room (k + n\<^sup>2 + 3 * (n - n div 2)\<^sup>2 + 3 * (n div 2)\<^sup>2) vm"
      using cube_split[OF h(1-4)] by (intro room_mono[OF less.prems(1)[folded n_def]]) linarith
    have IHl: "wp (cardinalityNetwork ?l m le ge) (net_post (k + n\<^sup>2 + 3 * (n - n div 2)\<^sup>2) vm
        (\<lambda>outs cnf. length outs = min (length ?l) m \<and> sort_sem ?l le ge outs cnf)) vm"
    proof (rule less.hyps[OF lt(1) _ _ ne(1)])
      show "room (k + n\<^sup>2 + 3 * (n - n div 2)\<^sup>2 + 3 * (length ?l)\<^sup>2) vm" unfolding len by (rule r0)
      show "\<forall>x\<in>set ?l. old_lit vm x" using less.prems(2) set_take_subset[of "n div 2" inputs] by blast
    qed
    show ?thesis
      unfolding cardinalityNetwork.simps[of inputs] Let_def n_def[symmetric] if_not_P[OF n0] if_not_P[OF mz]
        if_not_P[OF False] if_not_P[OF n2(2)] wp_bindS[of "cardinalityNetwork ?l _ _ _"]
    proof (rule wp_mono[OF IHl], goal_cases)
      case (1 r1 vm1)
      obtain o1 c1 where r1: "r1 = (o1, c1)" by (cases r1)
      have f1: "fresh_ext vm vm1 c1" "room (k + n\<^sup>2 + 3 * (n - n div 2)\<^sup>2) vm1" "\<forall>y\<in>set o1. old_lit vm1 y"
        "length o1 = min (n div 2) m" "sort_sem ?l le ge o1 c1"
        using 1 len by (auto simp: r1 net_post_def)
      have IHr: "wp (cardinalityNetwork ?r m le ge) (net_post (k + n\<^sup>2) vm1
          (\<lambda>outs cnf. length outs = min (length ?r) m \<and> sort_sem ?r le ge outs cnf)) vm1"
      proof (rule less.hyps[OF lt(2) _ _ ne(2)])
        show "room (k + n\<^sup>2 + 3 * (length ?r)\<^sup>2) vm1" unfolding len by (rule f1(2))
        show "\<forall>x\<in>set ?r. old_lit vm1 x"
          by (rule old_split[OF less.prems(2) f1(1) set_drop_subset])
      qed
      show ?case
        unfolding r1 prod.case wp_bindS[of "cardinalityNetwork ?r _ _ _"]
      proof (rule wp_mono[OF IHr], goal_cases)
        case (1 r2 vm2)
        obtain o2 c2 where r2: "r2 = (o2, c2)" by (cases r2)
        have f2: "fresh_ext vm1 vm2 c2" "room (k + n\<^sup>2) vm2" "\<forall>y\<in>set o2. old_lit vm2 y"
          "length o2 = min (n - n div 2) m" "sort_sem ?r le ge o2 c2"
          using 1 len by (auto simp: r2 net_post_def)
        have "(length o1 + length o2)\<^sup>2 \<le> n\<^sup>2"
          using f1(4) f2(4) h(1) by (intro power_mono) linarith+
        then have rm: "room (k + (length o1 + length o2)\<^sup>2) vm2" by (intro room_mono[OF f2(2)]) simp
        have om: "\<forall>x\<in>set o1 \<union> set o2. old_lit vm2 x" using f1(3) f2(1,3) by (auto intro: fresh_ext_old)
        show ?case
          unfolding r2 prod.case thenS_assertS if_P[OF f1(4)] if_P[OF f2(4)] wp_bindS[of "simpMergeNetwork _ _ _ _ _"]
        proof (rule wp_mono[OF simpMergeNetwork_wp[OF le rm om]], goal_cases)
          case (1 r3 vm3)
          obtain outs c3 where r3: "r3 = (outs, c3)" by (cases r3)
          have o3: "length outs = min m (length o1 + length o2)" "merge_sem o1 o2 le ge outs c3"
            using 1 by (auto simp: r3 net_post_def)
          have lo: "length outs = min n m" using o3(1) f1(4) f2(4) h by linarith
          have "sort_sem (?l @ ?r) le ge outs (c1 @ c2 @ c3)"
          proof (rule sort_merge_sem[OF f1(5) f2(5) o3(2)])
            show "length o1 \<le> length ?l" "length o2 \<le> length ?r" unfolding len f1(4) f2(4) by simp_all
            have om: "length outs \<le> m" using o3(1) by simp
            show "length outs \<le> length o1 \<and> length outs \<le> length o2
               \<or> length o1 < length ?l \<and> length outs \<le> length o1 \<and> length o2 = length ?r
               \<or> length o2 < length ?r \<and> length outs \<le> length o2 \<and> length o1 = length ?l"
              if "length o1 < length ?l \<or> length o2 < length ?r"
            proof (cases "m < n div 2")
              case True
              then have "length o1 = m" "length o2 = m" using f1(4) f2(4) h(3) by simp_all
              then show ?thesis using om by simp
            next
              case False
              then have "length o1 = length ?l" "length o2 < length ?r" "length o2 = m"
                using that f1(4) f2(4) unfolding len by simp_all
              then show ?thesis using om by simp
            qed
          qed
          then show ?case
            unfolding r3 prod.case wp_retS
            by (intro net_post_merge[OF \<open>net_post _ vm _ r1 vm1\<close>[unfolded r1]
                  \<open>net_post _ vm1 _ r2 vm2\<close>[unfolded r2] 1[unfolded r3]])
              (use lo in \<open>simp add: n_def\<close>)
        qed
      qed
    qed
  qed
qed

end
