(* ===== verification/CardConstraint.thy ===== *)
theory CardConstraint
  imports CardNetCorrect
begin

text \<open>
  \<open>src/src/pme/util/cardinality_constraint.{h,cpp}\<close>: \<open>SortingConstraint\<close> and the
  assumption cubes of \<open>CardinalityConstraint\<close>.  The assumption routines keep each output in an
  \<open>unsigned\<close> before it is pushed, so an output literal loses its upper 32 bits (the primes
  among them); \<open>trunc32\<close> is that conversion.  List lengths stand for the \<open>unsigned\<close>
  cardinalities of the code, which agree below 2^32 inputs.
\<close>

subsection \<open>Networks for one direction are part of the network for both\<close>

text \<open>\<open>subnet m m'\<close>: whenever \<open>m\<close> returns, \<open>m'\<close> returns with the same outputs and variable
  manager and at least the clauses of \<open>m\<close>.\<close>

definition subnet :: "(varManager, cnfNetwork) sm \<Rightarrow> (varManager, cnfNetwork) sm \<Rightarrow> bool" where
  "subnet m m' = (\<forall>s outs c s'. m s = Inr ((outs, c), s') \<longrightarrow>
     (\<exists>c'. m' s = Inr ((outs, c'), s') \<and> set c \<subseteq> set c'))"

lemma subnetI:
  "(\<And>s outs c s'. m s = Inr ((outs, c), s') \<Longrightarrow> \<exists>c'. m' s = Inr ((outs, c'), s') \<and> set c \<subseteq> set c') \<Longrightarrow> subnet m m'"
  by (simp add: subnet_def)

lemma subnet_refl [simp]: "subnet m m"
  by (auto simp: subnet_def)

lemma subnet_fail [simp]: "subnet (failS e) m"
  by (simp add: subnet_def failS_def)

lemma subnet_ret: "set c \<subseteq> set c' \<Longrightarrow> subnet (retS (x, c)) (retS (x, c'))"
  by (auto simp: subnet_def retS_def)

lemma subnet_bind_same:
  "(\<And>a. subnet (f a) (f' a)) \<Longrightarrow> subnet (bindS m f) (bindS m f')"
  by (auto simp: subnet_def bindS_def split: sum.splits)

lemma subnet_bind:
  assumes "subnet m m'" "\<And>x c c'. set c \<subseteq> set c' \<Longrightarrow> subnet (f (x, c)) (f' (x, c'))"
  shows "subnet (bindS m f) (bindS m' f')"
proof (rule subnetI)
  fix s outs c s'
  assume "bindS m f s = Inr ((outs, c), s')"
  then obtain x c1 s1 where 1: "m s = Inr ((x, c1), s1)" "f (x, c1) s1 = Inr ((outs, c), s')"
    by (auto simp: bindS_def split: sum.splits)
  obtain c2 where 2: "m' s = Inr ((x, c2), s1)" "set c1 \<subseteq> set c2"
    using assms(1) 1(1) unfolding subnet_def by blast
  then show "\<exists>c'. bindS m' f' s = Inr ((outs, c'), s') \<and> set c \<subseteq> set c'"
    using assms(2)[OF 2(2)] 1(2) unfolding subnet_def bindS_def by auto
qed

lemma subnet_lift_bind:
  assumes "\<And>c. r = Inr c \<Longrightarrow> \<exists>c'. r' = Inr c' \<and> set c \<subseteq> set c'"
    and "\<And>c c'. set c \<subseteq> set c' \<Longrightarrow> subnet (f c) (f' c')"
  shows "subnet (bindS (liftS r) f) (bindS (liftS r') f')"
proof (cases r)
  case (Inl e)
  then show ?thesis by (simp add: subnet_def bindS_def liftS_def)
next
  case (Inr c)
  then obtain c' where "r' = Inr c'" "set c \<subseteq> set c'" using assms(1) by blast
  then show ?thesis using assms(2) Inr by (simp add: subnet_def bindS_def liftS_def)
qed

lemma subnet_if:
  "(P \<Longrightarrow> subnet m m') \<Longrightarrow> (\<not> P \<Longrightarrow> subnet k k') \<Longrightarrow> subnet (if P then m else k) (if P then m' else k')"
  by simp

lemma subnet_then_assert:
  "(P \<Longrightarrow> P') \<Longrightarrow> subnet m m' \<Longrightarrow> subnet (thenS (assertS P) m) (thenS (assertS P') m')"
  by (auto simp: thenS_assertS)

lemma comp_subset:
  "comp x_1 x_2 y_1 y_2 le ge = Inr c \<Longrightarrow> \<exists>c'. comp x_1 x_2 y_1 y_2 True True = Inr c' \<and> set c \<subseteq> set c'"
  by (auto simp: comp_def assertR_def split: if_splits)

lemma partialComp_subset:
  "partialComp x_1 x_2 y le ge = Inr c \<Longrightarrow> \<exists>c'. partialComp x_1 x_2 y True True = Inr c' \<and> set c \<subseteq> set c'"
  by (auto simp: partialComp_def assertR_def split: if_splits)

lemmas subnet_intros = subnet_bind_same subnet_ret subnet_refl subnet_fail
  subnet_lift_bind[OF comp_subset] subnet_lift_bind[OF partialComp_subset]

lemma mergeLoop_subnet: "subnet (mergeLoop zs le ge) (mergeLoop zs True True)"
proof (induction zs rule: takeOdd.induct)
  case (3 z_1 z_2 zs)
  show ?case
    unfolding mergeLoop.simps
    by (rule subnet_bind_same, rule subnet_bind_same, rule subnet_lift_bind[OF comp_subset], assumption,
      rule subnet_bind[OF 3]) (auto intro!: subnet_ret)
qed auto

lemma mergeNetwork_subnet: "subnet (mergeNetwork A B le ge) (mergeNetwork A B True True)"
proof (induction "length A + length B" arbitrary: A B rule: less_induct)
  case less
  define a where "a = (if length A \<le> length B then A else B)"
  define b where "b = (if length A \<le> length B then B else A)"
  note unf = mergeNetwork.simps[of A B, folded a_def b_def]
  have rec: "length (takeOdd a) + length (takeOdd b) < length A + length B"
    "length (takeEven a) + length (takeEven b) < length A + length B"
    if "\<not> (length a = 1 \<and> length b = 1)" "a \<noteq> []"
    using halves_shrink[of "length a" "length a" "length b" "length b"] that unfolding a_def b_def
    by (auto split: if_splits)
  have r1: "subnet (mergeNetwork (takeOdd a) (takeOdd b) le ge) (mergeNetwork (takeOdd a) (takeOdd b) True True)"
    "subnet (mergeNetwork (takeEven a) (takeEven b) le ge) (mergeNetwork (takeEven a) (takeEven b) True True)"
    if "\<not> (length a = 1 \<and> length b = 1)" "a \<noteq> []"
    using less[OF rec(1)[OF that]] less[OF rec(2)[OF that]] by blast+
  show ?case
    unfolding unf Let_def
    apply (rule subnet_then_assert, assumption)
    apply (rule subnet_then_assert, simp)
    apply (rule subnet_if)
    subgoal by (intro subnet_bind_same subnet_lift_bind[OF comp_subset] subnet_ret)
    apply (rule subnet_if)
    subgoal by simp
    apply (rule subnet_bind[OF r1(1)], assumption, assumption, simp only: prod.case)
    apply (rule subnet_bind[OF r1(2)], assumption, assumption, simp only: prod.case)
    apply (rule subnet_bind_same, rule subnet_bind_same, rule subnet_bind[OF mergeLoop_subnet])
    apply (simp only: prod.case)
    apply (rule subnet_if)
    apply (rule subnet_then_assert, assumption, rule subnet_bind_same, rule subnet_ret, force)
    apply (rule subnet_ret, force)
    done
qed

lemma sortingNetwork_subnet: "subnet (sortingNetwork inputs le ge) (sortingNetwork inputs True True)"
proof (induction "length inputs" arbitrary: inputs rule: less_induct)
  case less
  define l where "l = length inputs div 2"
  have rec: "length (take l inputs) < length inputs" "length (drop l inputs) < length inputs"
    if "length inputs \<noteq> 0" "length inputs \<noteq> 1"
    using that unfolding l_def by (cases inputs; force)+
  show ?case
    unfolding sortingNetwork.simps[of inputs] Let_def l_def[symmetric]
    apply (rule subnet_if, simp)
    apply (rule subnet_if, simp)
    apply (rule subnet_if)
    subgoal by (intro subnet_bind_same mergeNetwork_subnet)
    apply (rule subnet_then_assert, assumption)
    apply (rule subnet_bind[OF less[OF rec(1)]], assumption, assumption, simp only: prod.case)
    apply (rule subnet_bind[OF less[OF rec(2)]], assumption, assumption, simp only: prod.case)
    apply (rule subnet_bind[OF mergeNetwork_subnet], simp only: prod.case)
    apply (rule subnet_ret, force)
    done
qed

lemma simpMergeLoop_subnet: "subnet (simpMergeLoop e d le ge i k) (simpMergeLoop e d True True i k)"
proof (induction k arbitrary: i)
  case (Suc k)
  show ?case
    unfolding simpMergeLoop.simps
    by (rule subnet_bind_same, rule subnet_bind_same, rule subnet_bind_same, rule subnet_bind_same,
      rule subnet_lift_bind[OF comp_subset], assumption, rule subnet_bind[OF Suc]) (auto intro!: subnet_ret)
qed simp

lemma simpMergeNetwork_subnet: "subnet (simpMergeNetwork A B c le ge) (simpMergeNetwork A B c True True)"
proof (induction "length A + length B" arbitrary: A B c rule: less_induct)
  case less
  define a where "a = take c (if length A \<le> length B then A else B)"
  define b where "b = take c (if length A \<le> length B then B else A)"
  note unf = simpMergeNetwork.simps[of A B c, folded a_def b_def]
  have ab: "length a \<le> length b" "length b \<le> c" "length a + length b \<le> length A + length B"
    unfolding a_def b_def by auto
  have rec: "length (takeOdd a) + length (takeOdd b) < length A + length B"
    "length (takeEven a) + length (takeEven b) < length A + length B"
    if "length a \<noteq> 0" "\<not> (length a = 1 \<and> length b = 1 \<and> c = 1)" "\<not> length a + length b \<le> c"
    using halves_shrink[of "length a" "length a" "length b" "length b"] that ab by auto
  have r1: "subnet (simpMergeNetwork (takeOdd a) (takeOdd b) k le ge) (simpMergeNetwork (takeOdd a) (takeOdd b) k True True)"
    "subnet (simpMergeNetwork (takeEven a) (takeEven b) k le ge) (simpMergeNetwork (takeEven a) (takeEven b) k True True)"
    if "length a \<noteq> 0" "\<not> (length a = 1 \<and> length b = 1 \<and> c = 1)" "\<not> length a + length b \<le> c" for k
    using less[OF rec(1)[OF that]] less[OF rec(2)[OF that]] by blast+
  show ?case
    unfolding unf Let_def
    apply (rule subnet_then_assert, assumption)
    apply (rule subnet_then_assert, assumption)
    apply (rule subnet_then_assert, simp)
    apply (rule subnet_if, simp)
    apply (rule subnet_if)
    subgoal by (intro subnet_bind_same subnet_lift_bind[OF partialComp_subset] subnet_ret)
    apply (rule subnet_if)
    subgoal by (rule mergeNetwork_subnet)
    apply (rule subnet_bind[OF r1(1)], assumption, assumption, assumption, simp only: prod.case)
    apply (rule subnet_bind[OF r1(2)], assumption, assumption, assumption, simp only: prod.case)
    apply (rule subnet_bind_same)
    apply (rule subnet_if)
    subgoal
      apply (rule subnet_then_assert, assumption)
      apply (rule subnet_then_assert, assumption)
      apply (rule subnet_bind[OF simpMergeLoop_subnet], simp only: prod.case)
      apply (rule subnet_bind_same, rule subnet_bind_same, rule subnet_bind_same)
      apply (rule subnet_lift_bind[OF partialComp_subset], assumption, rule subnet_ret, force)
      done
    apply (rule subnet_then_assert, assumption)
    apply (rule subnet_then_assert, assumption)
    apply (rule subnet_bind[OF simpMergeLoop_subnet], simp only: prod.case)
    apply (rule subnet_ret, force)
    done
qed

lemma cardinalityNetwork_subnet: "subnet (cardinalityNetwork inputs m le ge) (cardinalityNetwork inputs m True True)"
proof (induction "length inputs" arbitrary: inputs rule: less_induct)
  case less
  define l where "l = length inputs div 2"
  have rec: "length (take l inputs) < length inputs" "length (drop l inputs) < length inputs"
    if "length inputs \<noteq> 0" "\<not> length inputs < 2"
    using that unfolding l_def by (cases inputs; force)+
  show ?case
    unfolding cardinalityNetwork.simps[of inputs] Let_def l_def[symmetric]
    apply (rule subnet_if, simp)
    apply (rule subnet_if, simp)
    apply (rule subnet_if, rule sortingNetwork_subnet)
    apply (rule subnet_if, simp)
    apply (rule subnet_bind[OF less[OF rec(1)]], assumption, assumption, simp only: prod.case)
    apply (rule subnet_bind[OF less[OF rec(2)]], assumption, assumption, simp only: prod.case)
    apply (rule subnet_then_assert, assumption)
    apply (rule subnet_then_assert, assumption)
    apply (rule subnet_bind[OF simpMergeNetwork_subnet], simp only: prod.case)
    apply (rule subnet_ret, force)
    done
qed


text \<open>What the clauses of a network with bound \<open>m\<close> say about the number of true inputs: every model
  respects the directions asked for, and every assignment of the older variables extends to a
  model whose outputs are the sorted inputs.\<close>

definition counts :: "varManager \<Rightarrow> varManager \<Rightarrow> id list \<Rightarrow> bool \<Rightarrow> bool \<Rightarrow> id list \<Rightarrow> clauseVec \<Rightarrow> bool" where
  "counts vm vm' inputs le ge outs cnf =
    ((\<forall>v. old_var vm v \<longrightarrow> old_var vm' v) \<and> (\<forall>y\<in>set outs. old_lit vm' y) \<and> (\<forall>v\<in>cnf_vars cnf. old_var vm' v)
     \<and> sort_sem inputs le ge outs cnf
     \<and> (\<forall>\<sigma>. \<exists>\<tau>. (\<forall>v. old_var vm v \<longrightarrow> \<tau> v = \<sigma> v) \<and> cnf_sat \<tau> cnf
          \<and> (\<forall>i<length outs. lit_true \<tau> (outs ! i) = (i < ntrue \<sigma> inputs))))"

lemma ntrue_agree:
  "\<forall>x\<in>set xs. old_lit vm x \<Longrightarrow> (\<And>v. old_var vm v \<Longrightarrow> \<tau> v = \<sigma> v) \<Longrightarrow> ntrue \<tau> xs = ntrue \<sigma> xs"
  unfolding ntrue_def by (rule arg_cong[where f = length], rule filter_cong) (auto simp: lit_true_def old_lit_def)

lemma cardinalityNetwork_counts:
  assumes le: "le \<or> ge" and m: "0 < m" and r: "room (k + 3 * (length inputs)\<^sup>2) vm"
    and old: "\<forall>x\<in>set inputs. old_lit vm x" and ne: "inputs \<noteq> []"
  shows "wp (cardinalityNetwork inputs m le ge) (\<lambda>(outs, cnf) vm'. room k vm'
    \<and> length outs = min (length inputs) m \<and> counts vm vm' inputs le ge outs cnf) vm"
proof -
  from cardinalityNetwork_wp[OF le m r old ne] obtain outs cnf vm' where
    1: "cardinalityNetwork inputs m le ge vm = Inr ((outs, cnf), vm')" and
    p: "room k vm'" "fresh_ext vm vm' cnf" "\<forall>y\<in>set outs. old_lit vm' y" "length outs = min (length inputs) m"
      "sort_sem inputs le ge outs cnf"
    unfolding wp_iff net_post_def by auto
  obtain c' where 2: "cardinalityNetwork inputs m True True vm = Inr ((outs, c'), vm')" "set cnf \<subseteq> set c'"
    using cardinalityNetwork_subnet[of inputs m le ge] 1 unfolding subnet_def by blast
  have q: "fresh_ext vm vm' c'" "sort_sem inputs True True outs c'"
    using cardinalityNetwork_wp[OF _ m r old ne, of True True] 2(1) by (simp_all add: wp_def net_post_def)
  have "\<exists>\<tau>. (\<forall>v. old_var vm v \<longrightarrow> \<tau> v = \<sigma> v) \<and> cnf_sat \<tau> cnf
      \<and> (\<forall>i<length outs. lit_true \<tau> (outs ! i) = (i < ntrue \<sigma> inputs))" for \<sigma>
  proof -
    obtain \<tau> where t: "\<And>v. old_var vm v \<Longrightarrow> \<tau> v = \<sigma> v" "cnf_sat \<tau> c'"
      using q(1) unfolding fresh_ext_def by blast
    have "cnf_sat \<tau> cnf" using t(2) 2(2) by (auto simp: cnf_sat_def)
    moreover have "up \<tau> outs (ntrue \<tau> inputs)" "dn \<tau> outs (ntrue \<tau> inputs)"
      using q(2) t(2) by (auto simp: sort_sem_def)
    then have "lit_true \<tau> (outs ! i) = (i < ntrue \<sigma> inputs)" if "i < length outs" for i
      using that ntrue_agree[OF old t(1)] by (cases "i < ntrue \<sigma> inputs") (simp_all add: up_def dn_def)
    then have "\<forall>i<length outs. lit_true \<tau> (outs ! i) = (i < ntrue \<sigma> inputs)" by blast
    ultimately show ?thesis using t(1) by blast
  qed
  then have "counts vm vm' inputs le ge outs cnf"
    unfolding counts_def using p(2,3,5) unfolding fresh_ext_def by blast
  then show ?thesis using 1 p(1,4) by (simp add: wp_def)
qed

subsection \<open>Sorting constraints\<close>

record sortC =
  sc_cardinality :: nat
  sc_outputs :: "id list"
  sc_inputs :: "id list"
  sc_cnfized :: bool
  sc_le :: bool
  sc_ge :: bool

definition sc_new :: "bool \<Rightarrow> bool \<Rightarrow> sortC res" where
  "sc_new le ge = assertR (le \<or> ge) (Inr \<lparr>sc_cardinality = 0, sc_outputs = [], sc_inputs = [],
     sc_cnfized = False, sc_le = le, sc_ge = ge\<rparr>)"

definition sc_newGEq :: "sortC res" where "sc_newGEq = sc_new False True"
definition sc_newLEq :: "sortC res" where "sc_newLEq = sc_new True False"
definition sc_newCardinality :: "sortC res" where "sc_newCardinality = sc_new True True"

definition sc_addInput :: "id \<Rightarrow> sortC \<Rightarrow> sortC" where
  "sc_addInput i sc = sc\<lparr>sc_inputs := sc_inputs sc @ [i]\<rparr>"

definition sc_addInputs :: "id list \<Rightarrow> sortC \<Rightarrow> sortC" where
  "sc_addInputs is sc = fold sc_addInput is sc"

definition sc_setCardinality :: "nat \<Rightarrow> sortC \<Rightarrow> sortC" where
  "sc_setCardinality n sc = sc\<lparr>sc_cardinality := n\<rparr>"

definition sc_getInputCardinality :: "sortC \<Rightarrow> nat" where
  "sc_getInputCardinality sc = length (sc_inputs sc)"

definition sc_getOutputCardinality :: "sortC \<Rightarrow> nat" where
  "sc_getOutputCardinality sc = min (sc_cardinality sc) (length (sc_inputs sc))"

definition sc_CNFize :: "sortC \<Rightarrow> (varManager, clauseVec \<times> sortC) sm" where
  "sc_CNFize sc =
    bindS (cardinalityNetwork (sc_inputs sc) (sc_cardinality sc) (sc_le sc) (sc_ge sc)) (\<lambda>(outputs, cnf).
      retS (cnf, sc\<lparr>sc_cnfized := True, sc_outputs := outputs\<rparr>))"

definition sc_getOutputs :: "sortC \<Rightarrow> id list res" where
  "sc_getOutputs sc = assertR (sc_cnfized sc) (Inr (sc_outputs sc))"

definition trunc32 :: "id \<Rightarrow> id" where
  "trunc32 l = ucast (ucast l :: 32 word)"

text \<open>The base-class routines; \<open>outs\<close> is the virtual call \<open>outputs()\<close>.\<close>

definition cc_assumeEq :: "sortC \<Rightarrow> nat \<Rightarrow> cube res" where
  "cc_assumeEq sc n =
    (if n = sc_getInputCardinality sc \<and> n = sc_getOutputCardinality sc then Inr (sc_inputs sc)
     else if n \<ge> sc_getOutputCardinality sc then Inl InvalidArgument
     else bindR (sc_getOutputs sc) (\<lambda>outs.
       Inr (map (\<lambda>i. if n > 0 \<and> i \<le> n - 1 then trunc32 (outs ! i) else negate (trunc32 (outs ! i)))
              [0..<length outs])))"

definition cc_assumeLEq :: "sortC \<Rightarrow> nat \<Rightarrow> cube res" where
  "cc_assumeLEq sc n =
    (if n = sc_getInputCardinality sc \<and> n = sc_getOutputCardinality sc then Inr []
     else if n \<ge> sc_getOutputCardinality sc then Inl InvalidArgument
     else bindR (sc_getOutputs sc) (\<lambda>outs.
       Inr (map (\<lambda>i. negate (trunc32 (outs ! i))) (filter (\<lambda>i. i \<ge> n) [0..<length outs]))))"

definition cc_assumeLT :: "sortC \<Rightarrow> nat \<Rightarrow> cube res" where
  "cc_assumeLT sc n =
    (if n = 0 then Inl InvalidArgument
     else if n > sc_getOutputCardinality sc then Inl InvalidArgument
     else bindR (sc_getOutputs sc) (\<lambda>outs.
       Inr (map (\<lambda>i. negate (trunc32 (outs ! i))) (filter (\<lambda>i. n > 0 \<and> i \<ge> n - 1) [0..<length outs]))))"

definition cc_assumeGEq :: "sortC \<Rightarrow> nat \<Rightarrow> cube res" where
  "cc_assumeGEq sc n =
    (if n = sc_getInputCardinality sc \<and> n = sc_getOutputCardinality sc then Inr (sc_inputs sc)
     else if n \<ge> sc_getOutputCardinality sc then Inl InvalidArgument
     else bindR (sc_getOutputs sc) (\<lambda>outs.
       Inr (map (\<lambda>i. trunc32 (outs ! i)) (filter (\<lambda>i. n > 0 \<and> i \<le> n - 1) [0..<length outs]))))"

definition cc_assumeGT :: "sortC \<Rightarrow> nat \<Rightarrow> cube res" where
  "cc_assumeGT sc n =
    (if n \<ge> sc_getOutputCardinality sc then Inl InvalidArgument
     else bindR (sc_getOutputs sc) (\<lambda>outs.
       Inr (map (\<lambda>i. trunc32 (outs ! i)) (filter (\<lambda>i. i \<le> n) [0..<length outs]))))"

definition sc_assumeEq :: "sortC \<Rightarrow> nat \<Rightarrow> cube res" where
  "sc_assumeEq sc n = (if \<not> sc_ge sc \<or> \<not> sc_le sc then Inl RuntimeError else cc_assumeEq sc n)"

definition sc_assumeLEq :: "sortC \<Rightarrow> nat \<Rightarrow> cube res" where
  "sc_assumeLEq sc n = (if \<not> sc_le sc then Inl RuntimeError else cc_assumeLEq sc n)"

definition sc_assumeLT :: "sortC \<Rightarrow> nat \<Rightarrow> cube res" where
  "sc_assumeLT sc n = (if \<not> sc_le sc then Inl RuntimeError else cc_assumeLT sc n)"

definition sc_assumeGEq :: "sortC \<Rightarrow> nat \<Rightarrow> cube res" where
  "sc_assumeGEq sc n = (if \<not> sc_ge sc then Inl RuntimeError else cc_assumeGEq sc n)"

definition sc_assumeGT :: "sortC \<Rightarrow> nat \<Rightarrow> cube res" where
  "sc_assumeGT sc n = (if \<not> sc_ge sc then Inl RuntimeError else cc_assumeGT sc n)"

lemma trunc32_small: "l < 2 ^ 32 \<Longrightarrow> trunc32 l = l"
proof (rule bit_word_eqI)
  fix n
  assume l: "l < 2 ^ 32" and n: "n < LENGTH(64)"
  have "l AND mask 32 = l" using l by (simp add: mask_eq_iff word_less_def)
  then have "bit l n = (bit l n \<and> n < 32)"
    by (metis bit_and_iff bit_mask_iff)
  then show "bit (trunc32 l) n = bit l n"
    using n by (auto simp: trunc32_def bit_ucast_iff)
qed

text \<open>The conditions under which the assumption routines are used: the constraint has been
  turned into clauses and no literal is truncated.\<close>

definition sc_ready :: "varManager \<Rightarrow> varManager \<Rightarrow> sortC \<Rightarrow> clauseVec \<Rightarrow> bool" where
  "sc_ready vm vm' sc cnf = (sc_cnfized sc \<and> (\<forall>l\<in>set (sc_outputs sc). l < 2 ^ 32)
     \<and> (\<forall>x\<in>set (sc_inputs sc). old_lit vm x)
     \<and> length (sc_outputs sc) = sc_getOutputCardinality sc
     \<and> counts vm vm' (sc_inputs sc) (sc_le sc) (sc_ge sc) (sc_outputs sc) cnf)"

text \<open>\<open>restricts vm cnf cube \<sigma>\<close>: some model of the clauses and the assumptions extends \<open>\<sigma>\<close>.\<close>

definition restricts :: "varManager \<Rightarrow> clauseVec \<Rightarrow> cube \<Rightarrow> assignment \<Rightarrow> bool" where
  "restricts vm cnf c \<sigma> = (\<exists>\<tau>. (\<forall>v. old_var vm v \<longrightarrow> \<tau> v = \<sigma> v) \<and> cnf_sat \<tau> cnf \<and> cube_sat \<tau> c)"

lemma sc_CNFize_ready:
  assumes "sc_le sc \<or> sc_ge sc" "0 < sc_cardinality sc" "room (k + 3 * (length (sc_inputs sc))\<^sup>2) vm"
    and "\<forall>x\<in>set (sc_inputs sc). old_lit vm x" "sc_inputs sc \<noteq> []"
  shows "wp (sc_CNFize sc) (\<lambda>(cnf, sc') vm'. room k vm' \<and> sc' = sc\<lparr>sc_cnfized := True, sc_outputs := sc_outputs sc'\<rparr>
     \<and> ((\<forall>l\<in>set (sc_outputs sc'). l < 2 ^ 32) \<longrightarrow> sc_ready vm vm' sc' cnf)) vm"
  unfolding sc_CNFize_def wp_bindS
  by (rule wp_mono[OF cardinalityNetwork_counts[OF assms]])
    (use assms(4) in \<open>auto simp: sc_ready_def sc_getOutputCardinality_def\<close>)

lemma counts_up:
  assumes "counts vm vm' xs le ge outs cnf" "le" "cnf_sat \<tau> cnf" "i < length outs" "\<not> lit_true \<tau> (outs ! i)"
  shows "ntrue \<tau> xs \<le> i"
  using assms unfolding counts_def sort_sem_def up_def by (metis not_le)

lemma counts_dn:
  assumes "counts vm vm' xs le ge outs cnf" "ge" "cnf_sat \<tau> cnf" "i < length outs" "lit_true \<tau> (outs ! i)"
  shows "i < ntrue \<tau> xs"
  using assms unfolding counts_def sort_sem_def dn_def by (metis not_le)

lemma counts_exact:
  assumes "counts vm vm' xs le ge outs cnf"
  obtains \<tau> where "\<And>v. old_var vm v \<Longrightarrow> \<tau> v = \<sigma> v" "cnf_sat \<tau> cnf"
    "\<And>i. i < length outs \<Longrightarrow> lit_true \<tau> (outs ! i) = (i < ntrue \<sigma> xs)"
  using assms unfolding counts_def by blast

lemma restrictsI:
  assumes rdy: "sc_ready vm vm' sc cnf"
    and sound: "\<And>\<tau>. cnf_sat \<tau> cnf \<Longrightarrow> cube_sat \<tau> c \<Longrightarrow> P (ntrue \<tau> (sc_inputs sc))"
    and complete: "\<And>\<tau>. P (ntrue \<sigma> (sc_inputs sc)) \<Longrightarrow> (\<And>v. old_var vm v \<Longrightarrow> \<tau> v = \<sigma> v)
      \<Longrightarrow> (\<And>i. i < length (sc_outputs sc) \<Longrightarrow> lit_true \<tau> (sc_outputs sc ! i) = (i < ntrue \<sigma> (sc_inputs sc)))
      \<Longrightarrow> cube_sat \<tau> c"
  shows "restricts vm cnf c \<sigma> \<longleftrightarrow> P (ntrue \<sigma> (sc_inputs sc))"
proof
  have old: "\<forall>x\<in>set (sc_inputs sc). old_lit vm x" using rdy by (simp add: sc_ready_def)
  show "P (ntrue \<sigma> (sc_inputs sc))" if "restricts vm cnf c \<sigma>"
    using that sound ntrue_agree[OF old] unfolding restricts_def by metis
  assume P: "P (ntrue \<sigma> (sc_inputs sc))"
  obtain \<tau> where t: "\<And>v. old_var vm v \<Longrightarrow> \<tau> v = \<sigma> v" "cnf_sat \<tau> cnf"
    "\<And>i. i < length (sc_outputs sc) \<Longrightarrow> lit_true \<tau> (sc_outputs sc ! i) = (i < ntrue \<sigma> (sc_inputs sc))"
    using rdy counts_exact unfolding sc_ready_def by metis
  show "restricts vm cnf c \<sigma>"
    unfolding restricts_def using t(1,2) complete[OF P t(1,3)] by blast
qed

lemma ready_out:
  assumes "sc_ready vm vm' sc cnf"
  shows "sc_getOutputs sc = Inr (sc_outputs sc)" "\<And>i. i < length (sc_outputs sc) \<Longrightarrow> trunc32 (sc_outputs sc ! i) = sc_outputs sc ! i"
    "length (sc_outputs sc) = sc_getOutputCardinality sc"
    "counts vm vm' (sc_inputs sc) (sc_le sc) (sc_ge sc) (sc_outputs sc) cnf"
  using assms by (auto simp: sc_ready_def sc_getOutputs_def intro!: trunc32_small)

lemma ntrue_full: "ntrue \<sigma> xs = length xs \<longleftrightarrow> cube_sat \<sigma> xs"
proof -
  have "ntrue \<sigma> xs = length xs \<longleftrightarrow> (\<forall>x\<in>set xs. lit_true \<sigma> x)"
    unfolding ntrue_def by (metis filter_True length_filter_less less_irrefl)
  then show ?thesis by (simp add: cube_sat_def)
qed

lemma old_cube_agree:
  "\<forall>x\<in>set xs. old_lit vm x \<Longrightarrow> (\<And>v. old_var vm v \<Longrightarrow> \<tau> v = \<sigma> v) \<Longrightarrow> cube_sat \<tau> xs = cube_sat \<sigma> xs"
  by (auto simp: cube_sat_def lit_true_def old_lit_def)

lemma sc_LEq_exact:
  assumes "sc_ready vm vm' sc cnf" "sc_le sc"
    and "n < sc_getOutputCardinality sc \<or> n = sc_getInputCardinality sc \<and> n = sc_getOutputCardinality sc"
  shows "\<exists>c. sc_assumeLEq sc n = Inr c \<and> (\<forall>\<sigma>. restricts vm cnf c \<sigma> \<longleftrightarrow> ntrue \<sigma> (sc_inputs sc) \<le> n)"
proof (cases "n = sc_getInputCardinality sc \<and> n = sc_getOutputCardinality sc")
  case True
  have "restricts vm cnf [] \<sigma> \<longleftrightarrow> ntrue \<sigma> (sc_inputs sc) \<le> n" for \<sigma>
    by (rule restrictsI[OF assms(1), where P = "\<lambda>m. m \<le> n"])
      (use True ntrue_le in \<open>auto simp: sc_getInputCardinality_def\<close>)
  then show ?thesis using True assms(2) by (simp add: sc_assumeLEq_def cc_assumeLEq_def)
next
  case False
  note o = ready_out[OF assms(1)]
  have n: "n < length (sc_outputs sc)" using assms(3) False o(3) by simp
  let ?c = "map (\<lambda>i. negate (trunc32 (sc_outputs sc ! i))) (filter (\<lambda>i. i \<ge> n) [0..<length (sc_outputs sc)])"
  have "restricts vm cnf ?c \<sigma> \<longleftrightarrow> ntrue \<sigma> (sc_inputs sc) \<le> n" for \<sigma>
    by (rule restrictsI[OF assms(1), where P = "\<lambda>m. m \<le> n"])
      (use counts_up[OF o(4) assms(2) _ n] n o(2) in \<open>auto simp: cube_sat_def\<close>)
  then show ?thesis using False n o(1,3) assms(2) by (auto simp: sc_assumeLEq_def cc_assumeLEq_def)
qed

lemma sc_GEq_exact:
  assumes "sc_ready vm vm' sc cnf" "sc_ge sc"
    and "n < sc_getOutputCardinality sc \<or> n = sc_getInputCardinality sc \<and> n = sc_getOutputCardinality sc"
  shows "\<exists>c. sc_assumeGEq sc n = Inr c \<and> (\<forall>\<sigma>. restricts vm cnf c \<sigma> \<longleftrightarrow> n \<le> ntrue \<sigma> (sc_inputs sc))"
proof (cases "n = sc_getInputCardinality sc \<and> n = sc_getOutputCardinality sc")
  case True
  have old: "\<forall>x\<in>set (sc_inputs sc). old_lit vm x" using assms(1) by (simp add: sc_ready_def)
  have full: "n \<le> ntrue \<tau> (sc_inputs sc) \<longleftrightarrow> cube_sat \<tau> (sc_inputs sc)" for \<tau>
    using True ntrue_full[of \<tau> "sc_inputs sc"] ntrue_le[of \<tau> "sc_inputs sc"] by (auto simp: sc_getInputCardinality_def)
  have "restricts vm cnf (sc_inputs sc) \<sigma> \<longleftrightarrow> n \<le> ntrue \<sigma> (sc_inputs sc)" for \<sigma>
    by (rule restrictsI[OF assms(1), where P = "\<lambda>m. n \<le> m"])
      (use full old_cube_agree[OF old] in blast)+
  then show ?thesis using True assms(2) by (simp add: sc_assumeGEq_def cc_assumeGEq_def)
next
  case False
  note o = ready_out[OF assms(1)]
  have n: "n < length (sc_outputs sc)" using assms(3) False o(3) by simp
  let ?c = "map (\<lambda>i. trunc32 (sc_outputs sc ! i)) (filter (\<lambda>i. n > 0 \<and> i \<le> n - 1) [0..<length (sc_outputs sc)])"
  have "restricts vm cnf ?c \<sigma> \<longleftrightarrow> n \<le> ntrue \<sigma> (sc_inputs sc)" for \<sigma>
  proof (rule restrictsI[OF assms(1), where P = "\<lambda>m. n \<le> m"])
    fix \<tau>
    assume "cnf_sat \<tau> cnf" "cube_sat \<tau> ?c"
    then show "n \<le> ntrue \<tau> (sc_inputs sc)"
      using counts_dn[OF o(4) assms(2), of \<tau> "n - 1"] n o(2) by (cases n) (auto simp: cube_sat_def)
  qed (use n o(2) in \<open>auto simp: cube_sat_def\<close>)
  then show ?thesis using False n o(1,3) assms(2) by (auto simp: sc_assumeGEq_def cc_assumeGEq_def)
qed

lemma sc_LT_exact:
  assumes "sc_ready vm vm' sc cnf" "sc_le sc" "0 < n" "n \<le> sc_getOutputCardinality sc"
  shows "\<exists>c. sc_assumeLT sc n = Inr c \<and> (\<forall>\<sigma>. restricts vm cnf c \<sigma> \<longleftrightarrow> ntrue \<sigma> (sc_inputs sc) < n)"
proof -
  note o = ready_out[OF assms(1)]
  have n: "n - 1 < length (sc_outputs sc)" using assms(3,4) o(3) by simp
  let ?c = "map (\<lambda>i. negate (trunc32 (sc_outputs sc ! i))) (filter (\<lambda>i. n > 0 \<and> i \<ge> n - 1) [0..<length (sc_outputs sc)])"
  have "restricts vm cnf ?c \<sigma> \<longleftrightarrow> ntrue \<sigma> (sc_inputs sc) < n" for \<sigma>
  proof (rule restrictsI[OF assms(1), where P = "\<lambda>m. m < n"])
    fix \<tau>
    assume "cnf_sat \<tau> cnf" "cube_sat \<tau> ?c"
    then show "ntrue \<tau> (sc_inputs sc) < n"
      using counts_up[OF o(4) assms(2) _ n, of \<tau>] n o(2) assms(3) by (auto simp: cube_sat_def)
  qed (use n o(2) assms(3) in \<open>auto simp: cube_sat_def\<close>)
  then show ?thesis using o(1) assms(2-4) by (auto simp: sc_assumeLT_def cc_assumeLT_def)
qed

lemma sc_GT_exact:
  assumes "sc_ready vm vm' sc cnf" "sc_ge sc" "n < sc_getOutputCardinality sc"
  shows "\<exists>c. sc_assumeGT sc n = Inr c \<and> (\<forall>\<sigma>. restricts vm cnf c \<sigma> \<longleftrightarrow> n < ntrue \<sigma> (sc_inputs sc))"
proof -
  note o = ready_out[OF assms(1)]
  have n: "n < length (sc_outputs sc)" using assms(3) o(3) by simp
  let ?c = "map (\<lambda>i. trunc32 (sc_outputs sc ! i)) (filter (\<lambda>i. i \<le> n) [0..<length (sc_outputs sc)])"
  have "restricts vm cnf ?c \<sigma> \<longleftrightarrow> n < ntrue \<sigma> (sc_inputs sc)" for \<sigma>
  proof (rule restrictsI[OF assms(1), where P = "\<lambda>m. n < m"])
    fix \<tau>
    assume "cnf_sat \<tau> cnf" "cube_sat \<tau> ?c"
    then show "n < ntrue \<tau> (sc_inputs sc)"
      using counts_dn[OF o(4) assms(2) _ n, of \<tau>] n o(2) by (auto simp: cube_sat_def)
  qed (use n o(2) in \<open>auto simp: cube_sat_def\<close>)
  then show ?thesis using o(1) n assms(2,3) by (auto simp: sc_assumeGT_def cc_assumeGT_def)
qed

lemma sc_Eq_exact:
  assumes "sc_ready vm vm' sc cnf" "sc_le sc" "sc_ge sc"
    and "n < sc_getOutputCardinality sc \<or> n = sc_getInputCardinality sc \<and> n = sc_getOutputCardinality sc"
  shows "\<exists>c. sc_assumeEq sc n = Inr c \<and> (\<forall>\<sigma>. restricts vm cnf c \<sigma> \<longleftrightarrow> ntrue \<sigma> (sc_inputs sc) = n)"
proof (cases "n = sc_getInputCardinality sc \<and> n = sc_getOutputCardinality sc")
  case True
  have old: "\<forall>x\<in>set (sc_inputs sc). old_lit vm x" using assms(1) by (simp add: sc_ready_def)
  have full: "ntrue \<tau> (sc_inputs sc) = n \<longleftrightarrow> cube_sat \<tau> (sc_inputs sc)" for \<tau>
    using True ntrue_full[of \<tau> "sc_inputs sc"] by (auto simp: sc_getInputCardinality_def)
  have "restricts vm cnf (sc_inputs sc) \<sigma> \<longleftrightarrow> ntrue \<sigma> (sc_inputs sc) = n" for \<sigma>
    by (rule restrictsI[OF assms(1), where P = "\<lambda>m. m = n"])
      (use full old_cube_agree[OF old] in blast)+
  then show ?thesis using True assms(2,3) by (simp add: sc_assumeEq_def cc_assumeEq_def)
next
  case False
  note o = ready_out[OF assms(1)]
  have n: "n < length (sc_outputs sc)" using assms(4) False o(3) by simp
  let ?c = "map (\<lambda>i. if n > 0 \<and> i \<le> n - 1 then trunc32 (sc_outputs sc ! i) else negate (trunc32 (sc_outputs sc ! i)))
              [0..<length (sc_outputs sc)]"
  have "restricts vm cnf ?c \<sigma> \<longleftrightarrow> ntrue \<sigma> (sc_inputs sc) = n" for \<sigma>
  proof (rule restrictsI[OF assms(1), where P = "\<lambda>m. m = n"])
    fix \<tau>
    assume t: "cnf_sat \<tau> cnf" "cube_sat \<tau> ?c"
    have c: "lit_true \<tau> (if n > 0 \<and> i \<le> n - 1 then sc_outputs sc ! i else negate (sc_outputs sc ! i))"
      if "i < length (sc_outputs sc)" for i
      using t(2)[unfolded cube_sat_def set_map, THEN bspec, OF imageI, of i] that
      by (simp only: o(2)[OF that] set_upt atLeastLessThan_iff zero_le simp_thms)
    have no: "\<not> (n > 0 \<and> n \<le> n - 1)" by linarith
    have "\<not> lit_true \<tau> (sc_outputs sc ! n)" using c[OF n] unfolding if_not_P[OF no] by simp
    then have "ntrue \<tau> (sc_inputs sc) \<le> n" using counts_up[OF o(4) assms(2) t(1) n] by blast
    moreover have "n \<le> ntrue \<tau> (sc_inputs sc)"
      using counts_dn[OF o(4) assms(3) t(1), of "n - 1"] c[of "n - 1"] n by (cases n) auto
    ultimately show "ntrue \<tau> (sc_inputs sc) = n" by simp
  qed (use n o(2) in \<open>auto simp: cube_sat_def\<close>)
  then show ?thesis using False n o(1,3) assms(2,3) by (auto simp: sc_assumeEq_def cc_assumeEq_def)
qed

end
