(* ===== verification/Bmc.thy ===== *)
theory Bmc
  imports ProofCheck
begin

text \<open>
  \<open>src/src/pme/safety.h\<close> and \<open>src/src/pme/bmc/bmc_solver.{h,cpp}\<close>: bounded model checking on
  an incrementally unrolled solver.  The clauses of the solver are characterised by the number of
  frames; the answer at bound \<open>k\<close> is the existence of a path that is bad at \<open>k\<close>, and the
  counterexample is read off one model.
\<close>

datatype safetyAnswer = SAFE | UNSAFE | UNKNOWN

record cexStep =
  st_inputs :: cube
  st_state :: cube

type_synonym safetyProof = "clause list"
type_synonym safetyCounterExample = "cexStep list"

record safetyResult =
  sr_result :: safetyAnswer
  sr_proof :: safetyProof
  sr_cex :: safetyCounterExample

definition sr_unknown :: safetyResult where
  "sr_unknown = \<lparr>sr_result = UNKNOWN, sr_proof = [], sr_cex = []\<rparr>"

definition sr_safe :: "safetyResult \<Rightarrow> bool" where "sr_safe r = (sr_result r = SAFE)"
definition sr_unsafe :: "safetyResult \<Rightarrow> bool" where "sr_unsafe r = (sr_result r = UNSAFE)"

record bmc =
  bm_tr :: anyTR
  bm_solver :: adaptor
  bm_numFrames :: nat
  bm_inited :: bool
  bm_initConstraints :: clauseVec

definition bm_onSolver :: "(adaptor, 'a) sm \<Rightarrow> (bmc, 'a) sm" where
  "bm_onSolver m = zoomS bm_solver (\<lambda>A b. b\<lparr>bm_solver := A\<rparr>) m"

definition bmc_new :: "anyTR \<Rightarrow> bmc res" where
  "bmc_new t = bindR (ad_new GLUCOSE) (\<lambda>A. Inr \<lparr>bm_tr = t, bm_solver = A, bm_numFrames = 0, bm_inited = False,
     bm_initConstraints = []\<rparr>)"

definition bmc_restrictInitialState :: "clause \<Rightarrow> (bmc, unit) sm" where
  "bmc_restrictInitialState cls =
     thenS (modifyS (\<lambda>b. b\<lparr>bm_initConstraints := bm_initConstraints b @ [cls]\<rparr>))
     (bindS getS (\<lambda>b. if bm_inited b then bm_onSolver (ad_addClause cls) else retS ()))"

definition bmc_restrictInitialStates :: "clauseVec \<Rightarrow> (bmc, unit) sm" where
  "bmc_restrictInitialStates vec = iterS bmc_restrictInitialState vec"

definition bmc_clearRestrictions :: "(bmc, unit) sm" where
  "bmc_clearRestrictions = thenS (modifyS (\<lambda>b. b\<lparr>bm_initConstraints := []\<rparr>))
     (thenS (bm_onSolver ad_reset) (modifyS (\<lambda>b. b\<lparr>bm_inited := False, bm_numFrames := 0\<rparr>)))"

definition bmc_initSolver :: "(bmc, unit) sm" where
  "bmc_initSolver = bindS getS (\<lambda>b. thenS (assertS (\<not> bm_inited b))
     (bindS (liftS (tr_initState (bm_tr b))) (\<lambda>ini. thenS (bm_onSolver (ad_addClauses ini))
     (bindS (liftS (tr_unrollFrame (bm_tr b) 0)) (\<lambda>fr. thenS (bm_onSolver (ad_addClauses fr))
     (thenS (bm_onSolver (ad_addClauses (bm_initConstraints b)))
     (modifyS (\<lambda>b. b\<lparr>bm_numFrames := 0, bm_inited := True\<rparr>))))))))"

definition bmc_unroll :: "nat \<Rightarrow> (bmc, unit) sm" where
  "bmc_unroll n = bindS getS (\<lambda>b. thenS (if \<not> bm_inited b then bmc_initSolver else retS ())
     (bindS getS (\<lambda>b. thenS (assertS (n > bm_numFrames b))
     (thenS (iterS (\<lambda>k. bindS (liftS (tr_unrollFrame (bm_tr b) k)) (\<lambda>fr. bm_onSolver (ad_addClauses fr)))
              [bm_numFrames b..<n])
     (modifyS (\<lambda>b. b\<lparr>bm_numFrames := n\<rparr>))))))"

fun bmc_extract :: "adaptor \<Rightarrow> nat \<Rightarrow> id list \<Rightarrow> cube res" where
  "bmc_extract A k [] = Inr []"
| "bmc_extract A k (i # vars) = bindR (prime i k) (\<lambda>lit. bindR (ad_safeGetAssignmentToVar A lit) (\<lambda>asgn.
     bindR (bmc_extract A k vars) (\<lambda>extracted.
       Inr (if asgn \<noteq> MV_UNDEF then unprime (if asgn = MV_TRUE then lit else negate lit) # extracted else extracted))))"

definition bmc_extractTrace :: "bmc \<Rightarrow> nat \<Rightarrow> safetyCounterExample res" where
  "bmc_extractTrace b k = assertR (ad_isSAT (bm_solver b))
     (mapR (\<lambda>i. bindR (bmc_extract (bm_solver b) i (tr_inputIDs (baseTR (bm_tr b)))) (\<lambda>inputs.
        bindR (bmc_extract (bm_solver b) i (tr_latchIDs (baseTR (bm_tr b)))) (\<lambda>latches.
          Inr \<lparr>st_inputs = inputs, st_state = latches\<rparr>))) [0..<k + 1])"

definition bmc_solveAtK :: "backend \<Rightarrow> nat \<Rightarrow> cube \<Rightarrow> (bmc, safetyResult) sm" where
  "bmc_solveAtK B k assumps = bindS getS (\<lambda>b. bindS (liftS (prime (tr_bad (baseTR (bm_tr b))) k)) (\<lambda>bad.
     thenS (if k \<ge> bm_numFrames b then bmc_unroll (k + 1) else retS ())
     (bindS (bm_onSolver (ad_solve B (assumps @ [bad]))) (\<lambda>(sat, crits).
      if sat then bindS getS (\<lambda>b. bindS (liftS (bmc_extractTrace b k)) (\<lambda>cex.
          retS \<lparr>sr_result = UNSAFE, sr_proof = [], sr_cex = cex\<rparr>))
      else retS sr_unknown))))"

fun bmc_rangeLoop :: "backend \<Rightarrow> cube \<Rightarrow> nat list \<Rightarrow> (bmc, safetyResult) sm" where
  "bmc_rangeLoop B assumps [] = retS sr_unknown"
| "bmc_rangeLoop B assumps (k # ks) = bindS (bmc_solveAtK B k assumps) (\<lambda>kresult.
     if sr_result kresult = UNSAFE then retS kresult else bmc_rangeLoop B assumps ks)"

definition bmc_solveRange :: "backend \<Rightarrow> nat \<Rightarrow> nat \<Rightarrow> cube \<Rightarrow> (bmc, safetyResult) sm" where
  "bmc_solveRange B k_min k_max assumps = bmc_rangeLoop B assumps [k_min..<k_max + 1]"

definition bmc_solve :: "backend \<Rightarrow> nat \<Rightarrow> cube \<Rightarrow> (bmc, safetyResult) sm" where
  "bmc_solve B k_max assumps = bmc_solveRange B 0 k_max assumps"

text \<open>The overloads without assumptions.\<close>

definition bmc_solveAtK_plain :: "backend \<Rightarrow> nat \<Rightarrow> (bmc, safetyResult) sm" where
  "bmc_solveAtK_plain B k = bmc_solveAtK B k []"

definition bmc_solveRange_plain :: "backend \<Rightarrow> nat \<Rightarrow> nat \<Rightarrow> (bmc, safetyResult) sm" where
  "bmc_solveRange_plain B k_min k_max = bmc_solveRange B k_min k_max []"

definition bmc_solve_plain :: "backend \<Rightarrow> nat \<Rightarrow> (bmc, safetyResult) sm" where
  "bmc_solve_plain B k_max = bmc_solve B k_max []"

subsection \<open>The clauses of the solver\<close>

text \<open>A model of the unrolling with \<open>n\<close> frames.\<close>

definition bmc_sem :: "anyTR \<Rightarrow> nat \<Rightarrow> clauseVec \<Rightarrow> assignment \<Rightarrow> bool" where
  "bmc_sem t n R \<sigma> = (path_ok t n (\<lambda>i. at_time i \<sigma>) \<and> init_ok t \<sigma> \<and> cnf_sat \<sigma> R)"

definition bmc_inv :: "anyTR \<Rightarrow> bmc \<Rightarrow> bool" where
  "bmc_inv t b = (bm_tr b = t \<and> [] \<notin> set (bm_initConstraints b) \<and>
     (if bm_inited b then \<exists>C. solver_for (bm_solver b) GLUCOSE C
          \<and> (\<forall>\<sigma>. const_ok \<sigma> \<longrightarrow> (cnf_sat \<sigma> C \<longleftrightarrow> bmc_sem t (max 1 (bm_numFrames b)) (bm_initConstraints b) \<sigma>))
      else bm_numFrames b = 0 \<and> solver_for (bm_solver b) GLUCOSE []))"

lemma wp_bm_onSolver: "wp (bm_onSolver m) Q = (\<lambda>b. wp m (\<lambda>a A. Q a (b\<lparr>bm_solver := A\<rparr>)) (bm_solver b))"
  by (simp add: bm_onSolver_def)

lemma path_ok_Suc: "path_ok t (Suc n) ss \<longleftrightarrow> path_ok t n ss \<and> frame_ok t (ss n) \<and> step_ok t (ss n) (ss (Suc n))"
  unfolding path_ok_def by (auto simp: less_Suc_eq)

lemma bmc_new_wp: "wpr (bmc_new t) (\<lambda>b. bmc_inv t b \<and> bm_numFrames b = 0 \<and> bm_initConstraints b = [])"
  unfolding bmc_new_def wpr_bindR by (rule wpr_mono[OF ad_new_solver]) (auto simp: bmc_inv_def)

lemma bmc_initSolver_wp:
  assumes wf: "tr_wf t" and inv: "bmc_inv t b" and ni: "\<not> bm_inited b"
  shows "wp bmc_initSolver (\<lambda>_ b'. bmc_inv t b' \<and> bm_inited b' \<and> bm_numFrames b' = 0
    \<and> bm_initConstraints b' = bm_initConstraints b) b"
proof -
  have n1: "(0::nat) + 1 \<le> MAX_PRIMES" by (simp add: MAX_PRIMES_def)
  have b: "bm_tr b = t" "[] \<notin> set (bm_initConstraints b)" "solver_for (bm_solver b) GLUCOSE []"
    using inv ni by (auto simp: bmc_inv_def)
  obtain I where I: "tr_initState t = Inr I" "\<And>\<sigma>. const_ok \<sigma> \<Longrightarrow> cnf_sat \<sigma> I \<longleftrightarrow> init_ok t \<sigma>"
    using tr_initState_sem[OF wf] by (auto simp: wpr_iff)
  obtain F where F: "tr_unrollFrame t 0 = Inr F"
    "\<And>\<sigma>. const_ok \<sigma> \<Longrightarrow> cnf_sat \<sigma> F \<longleftrightarrow> frame_ok t (at_time 0 \<sigma>) \<and> step_ok t (at_time 0 \<sigma>) (at_time 1 \<sigma>)"
    using tr_unrollFrame_sem[OF wf n1] by (auto simp: wpr_iff)
  let ?R = "bm_initConstraints b"
  have sem: "cnf_sat \<sigma> (I @ F @ ?R) \<longleftrightarrow> bmc_sem t (Suc 0) ?R \<sigma>" if "const_ok \<sigma>" for \<sigma>
    using I(2)[OF that] F(2)[OF that] by (auto simp: bmc_sem_def path_ok_def)
  show ?thesis
    using ni unfolding bmc_initSolver_def
    apply (simp add: b(1) I(1) F(1) wp_bm_onSolver)
    apply (rule wp_mono[OF solver_for_add[OF b(3) tr_initState_nonempty[OF I(1)]]], elim conjE)
    subgoal for u A1
      apply (rule wp_mono[OF solver_for_add[of A1 GLUCOSE I, OF _ tr_unrollFrame_nonempty[OF F(1)]]], simp, elim conjE)
      subgoal for u A2
        apply (rule wp_mono[OF solver_for_add[of A2 GLUCOSE "I @ F", OF _ b(2)]], assumption, elim conjE)
        subgoal for u A3
          using sem b(1,2) by (auto simp: bmc_inv_def simp del: cnf_sat_simps)
        done
      done
    done
qed

lemma bmc_frames_wp:
  assumes wf: "tr_wf t" and nm: "n \<le> m" "m \<le> MAX_PRIMES"
    and C: "solver_for (bm_solver b) GLUCOSE C"
    and sem: "\<And>\<sigma>. const_ok \<sigma> \<Longrightarrow> cnf_sat \<sigma> C \<longleftrightarrow> bmc_sem t (max 1 n) R \<sigma>"
  shows "wp (iterS (\<lambda>k. bindS (liftS (tr_unrollFrame t k)) (\<lambda>fr. bm_onSolver (ad_addClauses fr))) [n..<m])
     (\<lambda>_ b'. \<exists>A. b' = b\<lparr>bm_solver := A\<rparr> \<and> (\<exists>C. solver_for A GLUCOSE C
        \<and> (\<forall>\<sigma>. const_ok \<sigma> \<longrightarrow> (cnf_sat \<sigma> C \<longleftrightarrow> bmc_sem t (max 1 m) R \<sigma>)))) b"
  using nm C sem
proof (induction "m - n" arbitrary: n b C)
  case 0
  then have "n = m" by simp
  then show ?case using 0 by (auto intro!: exI[of _ "bm_solver b"])
next
  case (Suc d)
  then have nm: "n < m" by simp
  then have up: "[n..<m] = n # [Suc n..<m]" by (simp add: upt_conv_Cons)
  have n1: "n + 1 \<le> MAX_PRIMES" using nm Suc.prems(2) by simp
  obtain F where F: "tr_unrollFrame t n = Inr F"
    "\<And>\<sigma>. const_ok \<sigma> \<Longrightarrow> cnf_sat \<sigma> F \<longleftrightarrow> frame_ok t (at_time n \<sigma>) \<and> step_ok t (at_time n \<sigma>) (at_time (Suc n) \<sigma>)"
    using tr_unrollFrame_sem[OF wf n1] by (auto simp: wpr_iff)
  have sem': "cnf_sat \<sigma> (C @ F) \<longleftrightarrow> bmc_sem t (max 1 (Suc n)) R \<sigma>" if "const_ok \<sigma>" for \<sigma>
  proof (cases n)
    case 0
    then show ?thesis using Suc.prems(4)[OF that] F(2)[OF that] by (auto simp: bmc_sem_def path_ok_def)
  next
    case (Suc j)
    then show ?thesis using Suc.prems(4)[OF that] F(2)[OF that] path_ok_Suc[of t n] by (auto simp: bmc_sem_def)
  qed
  show ?case
    unfolding up
    apply (simp add: F(1) wp_bm_onSolver)
    apply (rule wp_mono[OF solver_for_add[OF Suc.prems(3) tr_unrollFrame_nonempty[OF F(1)]]], elim conjE)
    subgoal for u A1
      apply (rule wp_mono[OF Suc.hyps(1)[of "Suc n" "b\<lparr>bm_solver := A1\<rparr>" "C @ F"]])
      using Suc.hyps(2) nm Suc.prems(2) sem' by (auto simp del: cnf_sat_simps)
    done
qed

lemma bmc_unroll_wp:
  assumes wf: "tr_wf t" and inv: "bmc_inv t b" and n: "bm_numFrames b < n" "n \<le> MAX_PRIMES"
  shows "wp (bmc_unroll n) (\<lambda>_ b'. bmc_inv t b' \<and> bm_inited b' \<and> bm_numFrames b' = n
    \<and> bm_initConstraints b' = bm_initConstraints b) b"
proof -
  let ?rest = "bindS getS (\<lambda>b. thenS (assertS (n > bm_numFrames b))
     (thenS (iterS (\<lambda>k. bindS (liftS (tr_unrollFrame (bm_tr b) k)) (\<lambda>fr. bm_onSolver (ad_addClauses fr)))
              [bm_numFrames b..<n]) (modifyS (\<lambda>b. b\<lparr>bm_numFrames := n\<rparr>))))"
  let ?Q = "\<lambda>_ b'. bmc_inv t b' \<and> bm_inited b' \<and> bm_numFrames b' = n \<and> bm_initConstraints b' = bm_initConstraints b"
  have go: "wp ?rest ?Q b1"
    if b1: "bmc_inv t b1" "bm_inited b1" "bm_numFrames b1 \<le> bm_numFrames b" "bm_initConstraints b1 = bm_initConstraints b" for b1
  proof -
    obtain C where C: "solver_for (bm_solver b1) GLUCOSE C"
      "\<And>\<sigma>. const_ok \<sigma> \<Longrightarrow> cnf_sat \<sigma> C \<longleftrightarrow> bmc_sem t (max 1 (bm_numFrames b1)) (bm_initConstraints b1) \<sigma>"
      using b1(1,2) by (auto simp: bmc_inv_def)
    have t: "bm_tr b1 = t" "[] \<notin> set (bm_initConstraints b1)" using b1(1) by (auto simp: bmc_inv_def)
    have lt: "bm_numFrames b1 < n" "bm_numFrames b1 \<le> n" using b1(3) n(1) by simp_all
    show ?thesis
      unfolding wp_bindS wp_getS wp_thenS wp_assertS wp_modifyS t(1)
      by (rule conjI[OF lt(1)], rule wp_mono[OF bmc_frames_wp[OF wf lt(2) n(2) C]])
        (use b1(2,4) t n(1) in \<open>auto simp: bmc_inv_def\<close>)
  qed
  have "wp (if \<not> bm_inited b then bmc_initSolver else retS ()) (\<lambda>_. wp ?rest ?Q) b"
  proof (cases "bm_inited b")
    case True
    then show ?thesis using go[OF inv] by (simp del: wp_bindS wp_thenS)
  next
    case False
    have "wp bmc_initSolver (\<lambda>_. wp ?rest ?Q) b"
      by (rule wp_mono[OF bmc_initSolver_wp[OF wf inv False]]) (rule go, auto)
    then show ?thesis using False by (simp del: wp_bindS wp_thenS)
  qed
  then show ?thesis unfolding bmc_unroll_def by (simp only: wp_bindS wp_getS wp_thenS)
qed

subsection \<open>Counterexamples\<close>

lemma bmc_extract_ok:
  assumes m: "ad_model A \<sigma>" and k: "k \<le> MAX_PRIMES" and ids: "\<forall>i\<in>set vars. \<not> is_negated i \<and> unprime i = i"
  shows "bmc_extract A k vars = Inr (map (\<lambda>i. if at_time k \<sigma> i then i else negate i)
     (filter (\<lambda>i. ad_hasSAT A (prime_body k i)) vars))"
  using ids
proof (induction vars)
  case (Cons i vars)
  have i: "\<not> is_negated i" "unprime i = i" using Cons.prems by simp_all
  have "lit_true \<sigma> (prime_body k i) = at_time k \<sigma> i" using i(1) by (simp add: lit_true_pos at_time_def)
  then have "ad_safeGetAssignmentToVar A (prime_body k i) =
      Inr (if ad_hasSAT A (prime_body k i) then (if at_time k \<sigma> i then MV_TRUE else MV_FALSE) else MV_UNDEF)"
    using m i(1) by (simp add: ad_safeGetAssignmentToVar_def ad_model_def)
  then show ?case using Cons k i(2) by simp
qed simp

text \<open>The steps of a counterexample are read off one assignment.\<close>

definition cex_on :: "anyTR \<Rightarrow> nat \<Rightarrow> (nat \<Rightarrow> assignment) \<Rightarrow> safetyCounterExample \<Rightarrow> bool" where
  "cex_on t k ss cex = (length cex = k + 1 \<and> (\<forall>i\<le>k.
     cube_sat (ss i) (st_inputs (cex ! i)) \<and> strip ` set (st_inputs (cex ! i)) \<subseteq> set (tr_inputIDs (baseTR t))
     \<and> cube_sat (ss i) (st_state (cex ! i)) \<and> strip ` set (st_state (cex ! i)) \<subseteq> set (tr_latchIDs (baseTR t))))"

definition cex_of :: "anyTR \<Rightarrow> nat \<Rightarrow> assignment \<Rightarrow> safetyCounterExample \<Rightarrow> bool" where
  "cex_of t k \<sigma> cex = cex_on t k (\<lambda>i. at_time i \<sigma>) cex"

lemma tr_wf_ids:
  assumes "tr_wf t" "i \<in> set (tr_inputIDs (baseTR t)) \<union> set (tr_latchIDs (baseTR t))"
  shows "\<not> is_negated i \<and> unprime i = i"
proof -
  have "strip i \<in> tr_vars t" using assms(2) by (auto simp: tr_vars_def)
  moreover have "\<not> is_negated i"
    using assms unfolding tr_wf_def by auto
  ultimately show ?thesis using tr_wf_vars[OF assms(1)] by (simp add: strip_id)
qed

lemma extracted_cube:
  assumes "\<forall>i\<in>set vars. \<not> is_negated i \<and> unprime i = i"
  shows "cube_sat s (map (\<lambda>i. if s i then i else negate i) (filter P vars))"
    "strip ` set (map (\<lambda>i. if s i then i else negate i) (filter P vars)) \<subseteq> set vars"
  using assms by (auto simp: cube_sat_def lit_true_pos strip_id split: if_splits)

lemma bmc_extractTrace_ok:
  assumes wf: "tr_wf t" and m: "ad_model (bm_solver b) \<sigma>" and k: "k \<le> MAX_PRIMES" and t: "bm_tr b = t"
  shows "wpr (bmc_extractTrace b k) (cex_of t k \<sigma>)"
proof -
  have ids: "\<forall>i\<in>set (tr_inputIDs (baseTR t)). \<not> is_negated i \<and> unprime i = i"
    "\<forall>i\<in>set (tr_latchIDs (baseTR t)). \<not> is_negated i \<and> unprime i = i"
    using tr_wf_ids[OF wf] by blast+
  let ?A = "bm_solver b"
  let ?c = "\<lambda>i vars. map (\<lambda>v. if at_time i \<sigma> v then v else negate v) (filter (\<lambda>v. ad_hasSAT ?A (prime_body i v)) vars)"
  let ?f = "\<lambda>i. \<lparr>st_inputs = ?c i (tr_inputIDs (baseTR t)), st_state = ?c i (tr_latchIDs (baseTR t))\<rparr>"
  have "bmc_extractTrace b k = Inr (map ?f [0..<k + 1])"
    unfolding bmc_extractTrace_def t
  proof -
    have "mapR (\<lambda>i. bindR (bmc_extract ?A i (tr_inputIDs (baseTR t))) (\<lambda>inputs.
        bindR (bmc_extract ?A i (tr_latchIDs (baseTR t))) (\<lambda>latches.
          Inr \<lparr>st_inputs = inputs, st_state = latches\<rparr>))) [0..<k + 1] = Inr (map ?f [0..<k + 1])"
      by (rule mapR_total) (use bmc_extract_ok[OF m _ ids(1)] bmc_extract_ok[OF m _ ids(2)] k in auto)
    then show "assertR (ad_isSAT ?A) (mapR (\<lambda>i. bindR (bmc_extract ?A i (tr_inputIDs (baseTR t))) (\<lambda>inputs.
        bindR (bmc_extract ?A i (tr_latchIDs (baseTR t))) (\<lambda>latches.
          Inr \<lparr>st_inputs = inputs, st_state = latches\<rparr>))) [0..<k + 1]) = Inr (map ?f [0..<k + 1])"
      using m by (simp add: ad_model_def)
  qed
  moreover have "cex_of t k \<sigma> (map ?f [0..<k + 1])"
    unfolding cex_of_def cex_on_def using extracted_cube[OF ids(1)] extracted_cube[OF ids(2)]
    by (auto simp del: upt_Suc simp: nth_map_upt less_Suc_eq_le)
  ultimately show ?thesis by simp
qed

subsection \<open>Answers\<close>

definition bmc_cex :: "anyTR \<Rightarrow> nat \<Rightarrow> clauseVec \<Rightarrow> cube \<Rightarrow> nat \<Rightarrow> assignment \<Rightarrow> bool" where
  "bmc_cex t N R as k \<sigma> = (const_ok \<sigma> \<and> bmc_sem t N R \<sigma> \<and> cube_sat \<sigma> as \<and> bad_state t (at_time k \<sigma>))"

definition bmc_answer :: "anyTR \<Rightarrow> nat \<Rightarrow> clauseVec \<Rightarrow> cube \<Rightarrow> nat \<Rightarrow> safetyResult \<Rightarrow> bool" where
  "bmc_answer t N R as k r = (if sr_result r = UNSAFE then \<exists>\<sigma>. bmc_cex t N R as k \<sigma> \<and> cex_of t k \<sigma> (sr_cex r)
     else r = sr_unknown \<and> (\<forall>\<sigma>. \<not> bmc_cex t N R as k \<sigma>))"

text \<open>The answer for the bounds \<open>k..m\<close>: the first bad depth, or none.\<close>

definition bmc_first :: "anyTR \<Rightarrow> clauseVec \<Rightarrow> cube \<Rightarrow> nat \<Rightarrow> nat \<Rightarrow> safetyResult \<Rightarrow> bool" where
  "bmc_first t R as k m r = (if sr_result r = UNSAFE
     then \<exists>j\<ge>k. j \<le> m \<and> bmc_answer t (j + 1) R as j r \<and> (\<forall>i. k \<le> i \<longrightarrow> i < j \<longrightarrow> (\<forall>\<sigma>. \<not> bmc_cex t (i + 1) R as i \<sigma>))
     else r = sr_unknown \<and> (\<forall>i. k \<le> i \<longrightarrow> i \<le> m \<longrightarrow> (\<forall>\<sigma>. \<not> bmc_cex t (i + 1) R as i \<sigma>)))"

lemma bmc_first_step:
  assumes no: "\<forall>\<sigma>. \<not> bmc_cex t (k + 1) R as k \<sigma>" and f: "bmc_first t R as (Suc k) m r"
  shows "bmc_first t R as k m r"
proof -
  have split: "i = k \<or> Suc k \<le> i" if "k \<le> i" for i using that by auto
  show ?thesis
  proof (cases "sr_result r = UNSAFE")
    case True
    then obtain j where j: "Suc k \<le> j" "j \<le> m" "bmc_answer t (j + 1) R as j r"
      "\<forall>i. Suc k \<le> i \<longrightarrow> i < j \<longrightarrow> (\<forall>\<sigma>. \<not> bmc_cex t (i + 1) R as i \<sigma>)"
      using f unfolding bmc_first_def by auto
    have "\<forall>\<sigma>. \<not> bmc_cex t (i + 1) R as i \<sigma>" if "k \<le> i" "i < j" for i
      using split[OF that(1)] no j(4) that(2) by blast
    then show ?thesis using True j(1-3) unfolding bmc_first_def by (auto intro!: exI[of _ j])
  next
    case False
    then have "r = sr_unknown" "\<forall>i. Suc k \<le> i \<longrightarrow> i \<le> m \<longrightarrow> (\<forall>\<sigma>. \<not> bmc_cex t (i + 1) R as i \<sigma>)"
      using f unfolding bmc_first_def by auto
    moreover have "\<forall>\<sigma>. \<not> bmc_cex t (i + 1) R as i \<sigma>" if "k \<le> i" "i \<le> m" for i
      using split[OF that(1)] no calculation(2) that(2) by blast
    ultimately show ?thesis using False unfolding bmc_first_def by simp
  qed
qed

context sat_backend
begin

lemma bmc_solveAtK_wp:
  assumes wf: "tr_wf t" and inv: "bmc_inv t b" and k: "k + 1 \<le> MAX_PRIMES"
  shows "wp (bmc_solveAtK B k as) (\<lambda>r b'. bmc_inv t b' \<and> bm_initConstraints b' = bm_initConstraints b
     \<and> bm_numFrames b' = max (bm_numFrames b) (k + 1)
     \<and> bmc_answer t (max (bm_numFrames b) (k + 1)) (bm_initConstraints b) as k r) b"
proof -
  let ?N = "max (bm_numFrames b) (k + 1)"
  let ?R = "bm_initConstraints b"
  let ?bad = "prime_body k (tr_bad (baseTR t))"
  let ?tail = "bindS (bm_onSolver (ad_solve B (as @ [?bad]))) (\<lambda>(sat, crits).
      if sat then bindS getS (\<lambda>b. bindS (liftS (bmc_extractTrace b k)) (\<lambda>cex.
          retS \<lparr>sr_result = UNSAFE, sr_proof = [], sr_cex = cex\<rparr>))
      else retS sr_unknown)"
  let ?Q = "\<lambda>r b'. bmc_inv t b' \<and> bm_initConstraints b' = ?R \<and> bm_numFrames b' = ?N \<and> bmc_answer t ?N ?R as k r"
  have t: "bm_tr b = t" using inv by (simp add: bmc_inv_def)
  have tail: "wp ?tail ?Q b1" if b1: "bmc_inv t b1" "bm_inited b1" "bm_numFrames b1 = ?N" "bm_initConstraints b1 = ?R" for b1
  proof -
    obtain C where C: "solver_for (bm_solver b1) GLUCOSE C" "\<And>\<sigma>. const_ok \<sigma> \<Longrightarrow> cnf_sat \<sigma> C \<longleftrightarrow> bmc_sem t ?N ?R \<sigma>"
      using b1 by (auto simp: bmc_inv_def)
    have q: "const_ok \<sigma> \<and> cnf_sat \<sigma> C \<and> cube_sat \<sigma> (as @ [?bad]) \<longleftrightarrow> bmc_cex t ?N ?R as k \<sigma>" for \<sigma>
      using C(2)[of \<sigma>] by (auto simp: bmc_cex_def bad_state_def lit_true_prime)
    have t1: "bm_tr b1 = t" using b1(1) by (simp add: bmc_inv_def)
    have inv': "bmc_inv t (b1\<lparr>bm_solver := A\<rparr>)" if "solver_for A GLUCOSE C" for A
      using b1 that C(2) by (auto simp: bmc_inv_def)
    have go: "wp (case r of (sat, crits) \<Rightarrow> if sat then bindS getS (\<lambda>b. bindS (liftS (bmc_extractTrace b k)) (\<lambda>cex.
          retS \<lparr>sr_result = UNSAFE, sr_proof = [], sr_cex = cex\<rparr>)) else retS sr_unknown) ?Q (b1\<lparr>bm_solver := A\<rparr>)"
      if A: "solver_for A GLUCOSE C" and r: "fst r \<longrightarrow> (\<exists>\<sigma>. bmc_cex t ?N ?R as k \<sigma> \<and> ad_model A \<sigma>)"
        "\<not> fst r \<longrightarrow> (\<forall>\<sigma>. \<not> bmc_cex t ?N ?R as k \<sigma>)" for r A
    proof (cases "fst r")
      case True
      then obtain \<sigma> where s: "bmc_cex t ?N ?R as k \<sigma>" "ad_model (bm_solver (b1\<lparr>bm_solver := A\<rparr>)) \<sigma>" using r(1) by auto
      have kk: "k \<le> MAX_PRIMES" using k by simp
      have "wpr (bmc_extractTrace (b1\<lparr>bm_solver := A\<rparr>) k) (cex_of t k \<sigma>)"
        by (rule bmc_extractTrace_ok[OF wf s(2) kk]) (simp add: t1)
      then show ?thesis
        using True s(1) inv'[OF A] b1(3,4) by (auto simp: split_def bmc_answer_def elim!: wpr_mono)
    next
      case False
      then show ?thesis
        using r(2) inv'[OF A] b1(3,4) by (auto simp: split_def bmc_answer_def sr_unknown_def)
    qed
    show ?thesis
      unfolding wp_bindS[of "bm_onSolver _"] wp_bm_onSolver
    proof (rule wp_mono[OF solver_for_solve[OF C(1)]], goal_cases)
      case (1 r A)
      obtain sat crits where rc: "r = (sat, crits)" by (cases r)
      show ?case
      proof (rule go)
        show "solver_for A GLUCOSE C" using 1 by (simp add: rc)
        show "fst r \<longrightarrow> (\<exists>\<sigma>. bmc_cex t ?N ?R as k \<sigma> \<and> ad_model A \<sigma>)" using 1 q by (auto simp: rc simp del: cube_sat_simps)
        show "\<not> fst r \<longrightarrow> (\<forall>\<sigma>. \<not> bmc_cex t ?N ?R as k \<sigma>)"
        proof (intro impI allI notI)
          fix \<sigma> assume "\<not> fst r" "bmc_cex t ?N ?R as k \<sigma>"
          then have "set crits \<subseteq> set (as @ [?bad])" "\<not> cube_sat \<sigma> crits" "cube_sat \<sigma> (as @ [?bad])"
            using 1 q[of \<sigma>] by (auto simp: rc simp del: cube_sat_simps)
          then show False using cube_sat_mono by blast
        qed
      qed
    qed
  qed
  have "wp (if k \<ge> bm_numFrames b then bmc_unroll (k + 1) else retS ()) (\<lambda>_. wp ?tail ?Q) b"
  proof (cases "k \<ge> bm_numFrames b")
    case True
    then have "bm_numFrames b < k + 1" by simp
    then have "wp (bmc_unroll (k + 1)) (\<lambda>_. wp ?tail ?Q) b"
      by (rule wp_mono[OF bmc_unroll_wp[OF wf inv _ k]]) (rule tail, use True in auto)
    then show ?thesis using True by (simp del: wp_bindS)
  next
    case False
    then have "bm_inited b" using inv by (auto simp: bmc_inv_def split: if_splits)
    then have "wp ?tail ?Q b" using False by (intro tail[OF inv]) auto
    then show ?thesis using False by (simp del: wp_bindS)
  qed
  then have main: "wp (if k \<ge> bm_numFrames b then bmc_unroll (k + 1) else retS ()) (\<lambda>_. wp ?tail ?Q) b" .
  have p: "prime (tr_bad (baseTR t)) k = Inr ?bad" using k by simp
  show ?thesis
    unfolding bmc_solveAtK_def wp_bindS[of getS] wp_getS t wp_bindS[of "liftS _"] wp_liftS p wpr_Inr wp_thenS by (rule main)
qed

text \<open>A range of bounds, starting from at most \<open>k_min\<close> frames: the first bad depth is found.\<close>

lemma bmc_rangeLoop_wp:
  assumes wf: "tr_wf t" and inv: "bmc_inv t b" and ks: "bm_numFrames b \<le> k" "m + 1 \<le> MAX_PRIMES"
  shows "wp (bmc_rangeLoop B as [k..<m + 1]) (\<lambda>r b'. bmc_inv t b' \<and> bm_initConstraints b' = bm_initConstraints b
     \<and> bmc_first t (bm_initConstraints b) as k m r) b"
  using inv ks(1)
proof (induction "m + 1 - k" arbitrary: k b)
  case 0
  then have "[k..<m + 1] = []" by simp
  then show ?case using 0 by (simp add: sr_unknown_def bmc_first_def)
next
  case (Suc d)
  then have km: "k \<le> m" by simp
  then have up: "[k..<m + 1] = k # [Suc k..<m + 1]" by (simp add: upt_conv_Cons)
  have k1: "k + 1 \<le> MAX_PRIMES" using km ks(2) by simp
  let ?R = "bm_initConstraints b"
  have N: "max (bm_numFrames b) (k + 1) = k + 1" using Suc.prems(2) by simp
  show ?case
    unfolding up bmc_rangeLoop.simps wp_bindS
  proof (rule wp_mono[OF bmc_solveAtK_wp[OF wf Suc.prems(1) k1]], unfold N, elim conjE, goal_cases)
    case (1 r b1)
    show ?case
    proof (cases "sr_result r = UNSAFE")
      case True
      then have "bmc_first t ?R as k m r"
        using 1(4) km unfolding bmc_first_def by (auto intro!: exI[of _ k])
      then show ?thesis using True 1(1,2) by simp
    next
      case False
      have no: "\<forall>\<sigma>. \<not> bmc_cex t (k + 1) ?R as k \<sigma>" using 1(4) False by (auto simp: bmc_answer_def)
      have d: "d = m + 1 - Suc k" using Suc.hyps(2) by simp
      have fr: "bm_numFrames b1 \<le> Suc k" using 1(3) by simp
      have R: "bm_initConstraints b1 = ?R" by (rule 1(2))
      have "wp (bmc_rangeLoop B as [Suc k..<m + 1]) (\<lambda>r b'. bmc_inv t b' \<and> bm_initConstraints b' = ?R
         \<and> bmc_first t ?R as k m r) b1"
        by (rule wp_mono[OF Suc.hyps(1)[OF d 1(1) fr, unfolded R]]) (use bmc_first_step[OF no] in blast)
      then show ?thesis using False by simp
    qed
  qed
qed

lemma bmc_solveRange_wp:
  assumes "tr_wf t" "bmc_inv t b" "bm_numFrames b \<le> k" "m + 1 \<le> MAX_PRIMES"
  shows "wp (bmc_solveRange B k m as) (\<lambda>r b'. bmc_inv t b' \<and> bm_initConstraints b' = bm_initConstraints b
     \<and> bmc_first t (bm_initConstraints b) as k m r) b"
  unfolding bmc_solveRange_def by (rule bmc_rangeLoop_wp[OF assms])

end

subsection \<open>Restrictions of the initial states\<close>

lemma ad_reset_solver: "wp ad_reset (\<lambda>_ A'. solver_for A' (ad_kind A) []) A"
  by (rule wp_mono[OF ad_reset_wp]) (auto simp: solver_for_def)

lemma bmc_restrict_wp:
  assumes inv: "bmc_inv t b" and ne: "c \<noteq> []"
  shows "wp (bmc_restrictInitialState c) (\<lambda>_ b'. bmc_inv t b' \<and> bm_initConstraints b' = bm_initConstraints b @ [c]
    \<and> bm_numFrames b' = bm_numFrames b) b"
proof (cases "bm_inited b")
  case True
  let ?R = "bm_initConstraints b"
  let ?n = "max 1 (bm_numFrames b)"
  obtain C where C: "solver_for (bm_solver b) GLUCOSE C" "\<And>\<sigma>. const_ok \<sigma> \<Longrightarrow> cnf_sat \<sigma> C \<longleftrightarrow> bmc_sem t ?n ?R \<sigma>"
    using inv True by (auto simp: bmc_inv_def)
  have sem: "cnf_sat \<sigma> (C @ [c]) \<longleftrightarrow> bmc_sem t ?n (?R @ [c]) \<sigma>" if "const_ok \<sigma>" for \<sigma>
    using C(2)[OF that] by (auto simp: bmc_sem_def)
  show ?thesis
    unfolding bmc_restrictInitialState_def wp_thenS wp_modifyS wp_bindS wp_getS
    using True inv ne sem
    by (auto simp: wp_bm_onSolver bmc_inv_def simp del: cnf_sat_simps intro!: wp_mono[OF solver_for_clause[OF C(1) ne]])
next
  case False
  then show ?thesis using inv ne by (auto simp: bmc_restrictInitialState_def bmc_inv_def)
qed

lemma bmc_restricts_wp:
  assumes "bmc_inv t b" "[] \<notin> set R"
  shows "wp (bmc_restrictInitialStates R) (\<lambda>_ b'. bmc_inv t b' \<and> bm_initConstraints b' = bm_initConstraints b @ R
    \<and> bm_numFrames b' = bm_numFrames b) b"
  using assms unfolding bmc_restrictInitialStates_def
proof (induction R arbitrary: b)
  case (Cons c R)
  have c: "c \<noteq> []" using Cons.prems(2) by auto
  show ?case
    unfolding iterS.simps wp_bindS
    by (rule wp_mono[OF bmc_restrict_wp[OF Cons.prems(1) c]], elim conjE)
      (rule wp_mono[OF Cons.IH], use Cons.prems(2) in auto)
qed simp

lemma bmc_clear_wp:
  assumes "bmc_inv t b"
  shows "wp bmc_clearRestrictions (\<lambda>_ b'. bmc_inv t b' \<and> bm_initConstraints b' = [] \<and> bm_numFrames b' = 0) b"
proof -
  have k: "ad_kind (bm_solver b) = GLUCOSE" "bm_tr b = t" using assms by (auto simp: bmc_inv_def solver_for_def split: if_splits)
  show ?thesis
    unfolding bmc_clearRestrictions_def wp_thenS wp_modifyS wp_bm_onSolver
    by (rule wp_mono[OF ad_reset_solver]) (use k in \<open>auto simp: bmc_inv_def\<close>)
qed

subsection \<open>Counterexamples are paths\<close>

text \<open>Without assumptions and with restrictions on unprimed variables, a model of the unrolling is
  a path.\<close>

definition bad_path :: "anyTR \<Rightarrow> nat \<Rightarrow> clauseVec \<Rightarrow> nat \<Rightarrow> (nat \<Rightarrow> assignment) \<Rightarrow> bool" where
  "bad_path t N R k ss = (path_ok t N ss \<and> (\<forall>i. const_ok (ss i)) \<and> init_ok t (ss 0) \<and> cnf_sat (ss 0) R \<and> bad_state t (ss k))"



lemma bad_path_of:
  assumes "bmc_cex t N R as k \<sigma>"
  shows "bad_path t N R k (\<lambda>i. at_time i \<sigma>)"
  using assms by (simp add: bmc_cex_def bmc_sem_def bad_path_def at_time_0 const_ok_at_time)

lemma bmc_cex_iff:
  assumes wf: "tr_wf t" and N: "N \<le> MAX_PRIMES" "k \<le> N" and R: "cnf_vars R \<subseteq> tr_vars t"
  shows "(\<exists>\<sigma>. bmc_cex t N R [] k \<sigma>) \<longleftrightarrow> (\<exists>ss. bad_path t N R k ss)"
proof
  assume "\<exists>\<sigma>. bmc_cex t N R [] k \<sigma>"
  then show "\<exists>ss. bad_path t N R k ss" using bad_path_of by blast
next
  assume "\<exists>ss. bad_path t N R k ss"
  then obtain ss where p: "path_ok t N ss" and c: "\<And>i. const_ok (ss i)" and i: "init_ok t (ss 0)" "cnf_sat (ss 0) R"
    and bad: "bad_state t (ss k)" by (auto simp: bad_path_def)
  let ?j = "join ss"
  have at: "at_time i ?j v = ss i v" if "v \<in> tr_vars t" "i \<le> N" for v i
    using tr_vars_join[OF wf that(1) _ c] that(2) N(1) by simp
  have c0: "const_ok ?j" by (rule const_ok_join[of ss, OF c])
  have ag0: "?j v = ss 0 v" if "v \<in> tr_vars t" for v using at[OF that, of 0] by (simp add: at_time_0)
  have "init_ok t ?j" using init_ok_agree[of t ?j "ss 0", OF ag0] i(1) by simp
  moreover have "cnf_sat ?j R" using cnf_sat_on[OF R, of ?j "ss 0", OF ag0] i(2) by simp
  moreover have "bad_state t (at_time k ?j)"
  proof -
    have v: "strip (tr_bad (baseTR t)) \<in> tr_vars t" by (simp add: tr_vars_def)
    show ?thesis using bad_state_agree[of "at_time k ?j" t "ss k", OF at[OF v N(2)]] bad by simp
  qed
  ultimately have "bmc_cex t N R [] k ?j"
    using path_ok_join[OF wf N(1), of ss, OF c] p c0 by (simp add: bmc_cex_def bmc_sem_def)
  then show "\<exists>\<sigma>. bmc_cex t N R [] k \<sigma>" by blast
qed

text \<open>The depth of the first bad state, among the paths of which every state up to and including the
  bad one satisfies gates and constraints.\<close>

definition first_bad :: "anyTR \<Rightarrow> clauseVec \<Rightarrow> nat \<Rightarrow> safetyResult \<Rightarrow> bool" where
  "first_bad t R m r = (if sr_result r = UNSAFE
     then \<exists>j\<le>m. (\<exists>ss. bad_path t (j + 1) R j ss \<and> cex_on t j ss (sr_cex r)) \<and> (\<forall>i<j. \<nexists>ss. bad_path t (i + 1) R i ss)
     else r = sr_unknown \<and> (\<forall>i\<le>m. \<nexists>ss. bad_path t (i + 1) R i ss))"

lemma bmc_first_bad:
  assumes wf: "tr_wf t" and m: "m + 1 \<le> MAX_PRIMES" and R: "cnf_vars R \<subseteq> tr_vars t" and f: "bmc_first t R [] 0 m r"
  shows "first_bad t R m r"
proof -
  have no: "(\<nexists>ss. bad_path t (i + 1) R i ss) \<longleftrightarrow> (\<forall>\<sigma>. \<not> bmc_cex t (i + 1) R [] i \<sigma>)" if "i \<le> m" for i
    using bmc_cex_iff[OF wf _ _ R, of "i + 1" i] m that by auto
  show ?thesis
  proof (cases "sr_result r = UNSAFE")
    case True
    then obtain j \<sigma> where j: "j \<le> m" "bmc_cex t (j + 1) R [] j \<sigma>" "cex_of t j \<sigma> (sr_cex r)"
      "\<forall>i<j. \<forall>\<sigma>. \<not> bmc_cex t (i + 1) R [] i \<sigma>"
      using f by (auto simp: bmc_first_def bmc_answer_def)
    have "\<exists>ss. bad_path t (j + 1) R j ss \<and> cex_on t j ss (sr_cex r)"
      using bad_path_of[OF j(2)] j(3) unfolding cex_of_def by blast
    moreover have "\<forall>i<j. \<nexists>ss. bad_path t (i + 1) R i ss" using no j(1,4) by simp
    ultimately show ?thesis unfolding first_bad_def using True j(1) by auto
  next
    case False
    then show ?thesis using f no unfolding first_bad_def bmc_first_def by simp
  qed
qed

text \<open>A new solver, restricted, asked for the bounds \<open>0..m\<close>.\<close>

definition bmc_run :: "backend \<Rightarrow> anyTR \<Rightarrow> clauseVec \<Rightarrow> nat \<Rightarrow> safetyResult res" where
  "bmc_run B t R m = bindR (bmc_new t) (evalS (thenS (bmc_restrictInitialStates R) (bmc_solve_plain B m)))"

lemma bmc_run_wp:
  assumes B: "sat_backend B" and wf: "tr_wf t" and m: "m + 1 \<le> MAX_PRIMES"
    and R: "[] \<notin> set R" "cnf_vars R \<subseteq> tr_vars t"
  shows "wpr (bmc_run B t R m) (first_bad t R m)"
  unfolding bmc_run_def wpr_bindR wpr_evalS wp_thenS
proof (rule wpr_mono[OF bmc_new_wp], elim conjE, rule wp_mono[OF bmc_restricts_wp[OF _ R(1)]], assumption, elim conjE, goal_cases)
  case (1 b u b1)
  then have R1: "bm_initConstraints b1 = R" "bm_numFrames b1 \<le> 0" by simp_all
  show ?case
    unfolding bmc_solve_plain_def bmc_solve_def
    by (rule wp_mono[OF sat_backend.bmc_solveRange_wp[OF B wf 1(4) R1(2) m]])
      (use bmc_first_bad[OF wf m R(2)] R1(1) in auto)
qed

end
