(* ===== verification/CheckCex.thy ===== *)
theory CheckCex
  imports Bmc
begin

text \<open>
  \<open>src/src/pme/util/check_cex.{h,cpp}\<close>: a counterexample is replayed on the unrolled relation.  The
  variable manager the functions are given is not used.
\<close>

fun cex_assumps :: "safetyCounterExample \<Rightarrow> nat \<Rightarrow> cube res" where
  "cex_assumps [] i = Inr []"
| "cex_assumps (st # cex) i = bindR (primeVec (st_inputs st) i) (\<lambda>pinputs. bindR (primeVec (st_state st) i) (\<lambda>pstate.
     bindR (cex_assumps cex (i + 1)) (\<lambda>assumps. Inr (pinputs @ pstate @ assumps))))"

definition checkSimulationAssuming :: "backend \<Rightarrow> anyTR \<Rightarrow> safetyCounterExample \<Rightarrow> cube \<Rightarrow> bool res" where
  "checkSimulationAssuming B t cex extra = assertR (cex \<noteq> []) (bindR (ad_new GLUCOSE) (\<lambda>A.
     bindR (tr_unrollWithInit t (length cex)) (\<lambda>C. bindR (execS (ad_addClauses C) A) (\<lambda>A.
     bindR (cex_assumps cex 0) (\<lambda>assumps. bindR (evalS (ad_solve B (assumps @ extra)) A) (\<lambda>(r, crits). Inr r))))))"

text \<open>The index of the last step is an unsigned 64-bit difference.\<close>

definition checkCounterExample :: "backend \<Rightarrow> anyTR \<Rightarrow> safetyCounterExample \<Rightarrow> bool res" where
  "checkCounterExample B t cex = bindR (prime (tr_bad (baseTR t)) (if cex = [] then 2 ^ 64 - 1 else length cex - 1))
     (\<lambda>badp. checkSimulationAssuming B t cex [badp])"

definition checkSimulation :: "backend \<Rightarrow> anyTR \<Rightarrow> safetyCounterExample \<Rightarrow> bool res" where
  "checkSimulation B t cex = checkSimulationAssuming B t cex []"

text \<open>A path that starts in an initial state, of which the listed literals hold step by step.\<close>

definition follows :: "anyTR \<Rightarrow> safetyCounterExample \<Rightarrow> (nat \<Rightarrow> assignment) \<Rightarrow> bool" where
  "follows t cex ss = (path_ok t (length cex) ss \<and> (\<forall>i. const_ok (ss i)) \<and> init_ok t (ss 0)
     \<and> (\<forall>i<length cex. cube_sat (ss i) (st_inputs (cex ! i)) \<and> cube_sat (ss i) (st_state (cex ! i))))"

definition cex_over :: "anyTR \<Rightarrow> safetyCounterExample \<Rightarrow> bool" where
  "cex_over t cex = (\<forall>st\<in>set cex. strip ` set (st_inputs st) \<subseteq> tr_vars t \<and> strip ` set (st_state st) \<subseteq> tr_vars t)"

lemma cex_assumps_sem:
  "i + length cex \<le> MAX_PRIMES + 1 \<Longrightarrow> wpr (cex_assumps cex i) (\<lambda>as. \<forall>\<sigma>. cube_sat \<sigma> as \<longleftrightarrow>
     (\<forall>j<length cex. cube_sat (at_time (i + j) \<sigma>) (st_inputs (cex ! j)) \<and> cube_sat (at_time (i + j) \<sigma>) (st_state (cex ! j))))"
proof (induction cex arbitrary: i)
  case (Cons st cex)
  have i: "i \<le> MAX_PRIMES" using Cons.prems by simp
  have p: "cube_sat \<sigma> (map (prime_body i) c) = cube_sat (at_time i \<sigma>) c" for \<sigma> c
    by (simp add: cube_sat_def lit_true_prime)
  have "wpr (cex_assumps cex (i + 1)) (\<lambda>as. \<forall>\<sigma>. cube_sat \<sigma> as \<longleftrightarrow>
     (\<forall>j<length cex. cube_sat (at_time (i + 1 + j) \<sigma>) (st_inputs (cex ! j)) \<and> cube_sat (at_time (i + 1 + j) \<sigma>) (st_state (cex ! j))))"
    by (rule Cons.IH) (use Cons.prems in simp)
  then show ?case
    by (simp add: primeVec_def primeClause_total[OF i]) (erule wpr_mono, simp add: p All_less_Suc2)
qed simp

context sat_backend
begin

lemma checkSimulationAssuming_wp:
  assumes wf: "tr_wf t" and cex: "cex \<noteq> []" "length cex \<le> MAX_PRIMES"
  shows "wpr (checkSimulationAssuming B t cex extra) (\<lambda>r. r \<longleftrightarrow> (\<exists>\<sigma>. follows t cex (\<lambda>i. at_time i \<sigma>) \<and> cube_sat \<sigma> extra))"
proof -
  obtain C where C: "tr_unroll t (length cex) = Inr C" "\<And>\<sigma>. const_ok \<sigma> \<Longrightarrow> cnf_sat \<sigma> C \<longleftrightarrow> path_ok t (length cex) (\<lambda>i. at_time i \<sigma>)"
    using tr_unroll_sem[OF wf cex(2)] by (auto simp: wpr_iff)
  obtain I where I: "tr_initState t = Inr I" "\<And>\<sigma>. const_ok \<sigma> \<Longrightarrow> cnf_sat \<sigma> I \<longleftrightarrow> init_ok t \<sigma>"
    using tr_initState_sem[OF wf] by (auto simp: wpr_iff)
  have ne: "[] \<notin> set (C @ I)" using tr_unroll_nonempty[OF C(1)] tr_initState_nonempty[OF I(1)] by simp
  obtain as where as: "cex_assumps cex 0 = Inr as" "\<And>\<sigma>. cube_sat \<sigma> as \<longleftrightarrow>
     (\<forall>j<length cex. cube_sat (at_time j \<sigma>) (st_inputs (cex ! j)) \<and> cube_sat (at_time j \<sigma>) (st_state (cex ! j)))"
    using cex_assumps_sem[of 0 cex] cex(2) by (auto simp: wpr_iff)
  have sem: "const_ok \<sigma> \<and> cnf_sat \<sigma> (C @ I) \<and> cube_sat \<sigma> (as @ extra) \<longleftrightarrow> follows t cex (\<lambda>i. at_time i \<sigma>) \<and> cube_sat \<sigma> extra" for \<sigma>
    using C(2)[of \<sigma>] I(2)[of \<sigma>] as(2)[of \<sigma>] by (auto simp: follows_def)
  have u: "tr_unrollWithInit t (length cex) = Inr (C @ I)" by (simp add: tr_unrollWithInit_def C(1) I(1))
  have ask: "wpr (bindR (execS (ad_addClauses (C @ I)) A) (\<lambda>A. bindR (evalS (ad_solve B (as @ extra)) A) (\<lambda>(r, crits). Inr r)))
     (\<lambda>r. r \<longleftrightarrow> (\<exists>\<sigma>. follows t cex (\<lambda>i. at_time i \<sigma>) \<and> cube_sat \<sigma> extra))" if A: "solver_for A GLUCOSE []" for A
    unfolding wpr_bindR wpr_execS
  proof (rule wp_mono[OF solver_for_add[OF A ne]], elim conjE, simp only: append_Nil)
    fix u A1 assume A1: "solver_for A1 GLUCOSE (C @ I)"
    show "wpr (evalS (ad_solve B (as @ extra)) A1) (\<lambda>a. wpr (case a of (r, crits) \<Rightarrow> Inr r)
       (\<lambda>r. r \<longleftrightarrow> (\<exists>\<sigma>. follows t cex (\<lambda>i. at_time i \<sigma>) \<and> cube_sat \<sigma> extra)))"
      unfolding wpr_evalS by (rule wp_mono[OF solver_for_ask[OF A1]]) (use sem in auto)
  qed
  have "wpr (bindR (ad_new GLUCOSE) (\<lambda>A. bindR (execS (ad_addClauses (C @ I)) A) (\<lambda>A. bindR (evalS (ad_solve B (as @ extra)) A) (\<lambda>(r, crits). Inr r))))
     (\<lambda>r. r \<longleftrightarrow> (\<exists>\<sigma>. follows t cex (\<lambda>i. at_time i \<sigma>) \<and> cube_sat \<sigma> extra))"
    unfolding wpr_bindR[of "ad_new _"] by (rule wpr_mono[OF ad_new_solver], rule ask) simp
  then show ?thesis unfolding checkSimulationAssuming_def using cex(1) u as(1) by (simp del: wpr_bindR cube_sat_simps)
qed

end

text \<open>Paths are represented by assignments of all literals.\<close>

lemma follows_join:
  assumes wf: "tr_wf t" and n: "length cex \<le> MAX_PRIMES" and over: "cex_over t cex" and k: "k \<le> length cex"
    and ss: "follows t cex ss"
  shows "follows t cex (\<lambda>i. at_time i (join ss)) \<and> (bad_state t (at_time k (join ss)) \<longleftrightarrow> bad_state t (ss k))"
proof -
  have c: "const_ok (ss i)" for i using ss by (simp add: follows_def)
  have at: "at_time i (join ss) v = ss i v" if "v \<in> tr_vars t" "i \<le> length cex" for v i
    using tr_vars_join[OF wf that(1) _ c] that(2) n by simp
  have cube: "cube_sat (at_time i (join ss)) q = cube_sat (ss i) q" if "i < length cex" "strip ` set q \<subseteq> tr_vars t" for i q
    using at[of _ i] that by (force simp: cube_sat_def lit_true_def)
  have "init_ok t (join ss) = init_ok t (ss 0)" by (rule init_ok_agree) (use at[of _ 0] in \<open>simp add: at_time_0\<close>)
  moreover have "bad_state t (at_time k (join ss)) = bad_state t (ss k)"
    by (rule bad_state_agree) (rule at, simp_all add: tr_vars_def k)
  ultimately show ?thesis
    using ss path_ok_join[OF wf n c] const_ok_join[of ss, OF c] cube over
    by (simp add: follows_def cex_over_def at_time_0)
qed

lemma checkCounterExample_exact:
  assumes "sat_backend B" "tr_wf t" "cex \<noteq> []" "length cex \<le> MAX_PRIMES" "cex_over t cex"
  shows "checkCounterExample B t cex = Inr (\<exists>ss. follows t cex ss \<and> bad_state t (ss (length cex - 1)))"
proof -
  let ?k = "length cex - 1"
  have p: "prime (tr_bad (baseTR t)) ?k = Inr (prime_body ?k (tr_bad (baseTR t)))" using assms(4) by simp
  have b: "cube_sat \<sigma> [prime_body ?k (tr_bad (baseTR t))] \<longleftrightarrow> bad_state t (at_time ?k \<sigma>)" for \<sigma>
    by (simp add: cube_sat_def bad_state_def lit_true_prime)
  have "(\<exists>\<sigma>. follows t cex (\<lambda>i. at_time i \<sigma>) \<and> cube_sat \<sigma> [prime_body ?k (tr_bad (baseTR t))])
     \<longleftrightarrow> (\<exists>ss. follows t cex ss \<and> bad_state t (ss ?k))"
    unfolding b using follows_join[OF assms(2,4,5), of ?k] by (metis diff_le_self)
  then show ?thesis
    using sat_backend.checkSimulationAssuming_wp[OF assms(1-4), of "[prime_body ?k (tr_bad (baseTR t))]"] assms(3) p
    by (auto simp: checkCounterExample_def wpr_iff simp del: prime_total cube_sat_simps)
qed

lemma checkSimulation_exact:
  assumes "sat_backend B" "tr_wf t" "cex \<noteq> []" "length cex \<le> MAX_PRIMES" "cex_over t cex"
  shows "checkSimulation B t cex = Inr (\<exists>ss. follows t cex ss)"
proof -
  have "(\<exists>\<sigma>. follows t cex (\<lambda>i. at_time i \<sigma>)) \<longleftrightarrow> (\<exists>ss. follows t cex ss)"
    using follows_join[OF assms(2,4,5), of 0] by auto
  then show ?thesis
    using sat_backend.checkSimulationAssuming_wp[OF assms(1-4), of "[]"]
    by (auto simp: checkSimulation_def wpr_iff cube_sat_def simp del: cube_sat_simps)
qed

text \<open>The counterexamples of the bounded model checker pass.\<close>

lemma first_bad_check:
  assumes B: "sat_backend B" and wf: "tr_wf t" and m: "m + 1 \<le> MAX_PRIMES" and f: "first_bad t R m r" and u: "sr_result r = UNSAFE"
  shows "checkCounterExample B t (sr_cex r) = Inr True"
proof -
  obtain j ss where j: "j \<le> m" "bad_path t (j + 1) R j ss" "cex_on t j ss (sr_cex r)"
    using f u by (auto simp: first_bad_def)
  have len: "length (sr_cex r) = j + 1" using j(3) by (simp add: cex_on_def)
  have over: "cex_over t (sr_cex r)"
    unfolding cex_over_def
  proof
    fix st assume "st \<in> set (sr_cex r)"
    then obtain i where "i \<le> j" "st = sr_cex r ! i" using len by (auto simp: in_set_conv_nth less_Suc_eq_le)
    then have "strip ` set (st_inputs st) \<subseteq> set (tr_inputIDs (baseTR t))" "strip ` set (st_state st) \<subseteq> set (tr_latchIDs (baseTR t))"
      using j(3) by (simp_all add: cex_on_def)
    moreover have "x \<in> tr_vars t" if "x \<in> set (tr_inputIDs (baseTR t)) \<union> set (tr_latchIDs (baseTR t))" for x
    proof -
      have "strip x \<in> tr_vars t" using that by (auto simp: tr_vars_def)
      then show ?thesis using tr_wf_ids[OF wf that] by (simp add: strip_id)
    qed
    ultimately show "strip ` set (st_inputs st) \<subseteq> tr_vars t \<and> strip ` set (st_state st) \<subseteq> tr_vars t" by blast
  qed
  have "follows t (sr_cex r) ss" using j(2,3) len by (simp add: follows_def bad_path_def cex_on_def less_Suc_eq_le)
  moreover have "bad_state t (ss (length (sr_cex r) - 1))" using j(2) len by (simp add: bad_path_def)
  ultimately show ?thesis
    using checkCounterExample_exact[OF B wf _ _ over] len j(1) m by fastforce
qed

end
