(* ===== verification/IndTrace.thy ===== *)
theory IndTrace
  imports Ids "HOL-Library.Extended_Nat"
begin

text \<open>
  \<open>src/src/pme/ic3/inductive_trace.{h,cpp}\<close>: the lemmas of IC3, each at a level, and the frames they
  make up.  Levels are extended natural numbers: \<open>LEVEL_INF\<close>, the largest \<open>unsigned\<close>, is \<open>\<infinity>\<close>, and
  a frame with a finite number is indexed by that number.  IDs of lemmas, an \<open>unsigned\<close> too, are
  natural numbers, so the trace is modelled below 2^32 lemmas and levels.  A frame is a set that is iterated in
  increasing order.
\<close>

subsection \<open>Frames\<close>

type_synonym level = enat
type_synonym lemmaID = nat
type_synonym frame = "lemmaID set"

definition LEVEL_INF :: level where "LEVEL_INF = \<infinity>"

record frames =
  fr_frames :: "frame list"
  fr_inf :: frame

definition fr_frameExists :: "frames \<Rightarrow> level \<Rightarrow> bool" where
  "fr_frameExists f L = (L = LEVEL_INF \<or> L < enat (length (fr_frames f)))"

definition fr_getFrame :: "frames \<Rightarrow> level \<Rightarrow> frame res" where
  "fr_getFrame f L = (if L = LEVEL_INF then Inr (fr_inf f) else assertR (fr_frameExists f L) (atR (fr_frames f) (the_enat L)))"

definition fr_numFrames :: "frames \<Rightarrow> nat" where
  "fr_numFrames f = length (fr_frames f)"

definition fr_createFrame :: "level \<Rightarrow> (frames, unit) sm" where
  "fr_createFrame L = bindS getS (\<lambda>f. thenS (assertS (\<not> fr_frameExists f L)) (thenS (assertS (L \<noteq> LEVEL_INF))
     (thenS (assertS (length (fr_frames f) \<le> the_enat L))
     (modifyS (\<lambda>f. f\<lparr>fr_frames := fr_frames f @ replicate (the_enat L + 1 - length (fr_frames f)) {}\<rparr>)))))"

text \<open>\<open>getMutableFrame\<close> hands out a reference; the caller's change of the frame is the argument.\<close>

definition fr_updateFrame :: "level \<Rightarrow> (frame \<Rightarrow> frame) \<Rightarrow> (frames, unit) sm" where
  "fr_updateFrame L g = bindS getS (\<lambda>f. if L = LEVEL_INF then modifyS (\<lambda>f. f\<lparr>fr_inf := g (fr_inf f)\<rparr>)
     else thenS (if \<not> fr_frameExists f L then fr_createFrame L else retS ())
       (bindS getS (\<lambda>f. bindS (liftS (atR (fr_frames f) (the_enat L))) (\<lambda>fr.
          modifyS (\<lambda>f. f\<lparr>fr_frames := (fr_frames f)[the_enat L := g fr]\<rparr>)))))"

definition fr_addLemmaToFrame :: "lemmaID \<Rightarrow> level \<Rightarrow> (frames, unit) sm" where
  "fr_addLemmaToFrame i L = fr_updateFrame L (insert i)"

definition fr_mutableFrame :: "level \<Rightarrow> (frames, frame) sm" where
  "fr_mutableFrame L = thenS (fr_updateFrame L (\<lambda>fr. fr)) (bindS getS (\<lambda>f. liftS (fr_getFrame f L)))"

definition fr_removeLemmaFromFrame :: "lemmaID \<Rightarrow> level \<Rightarrow> (frames, unit) sm" where
  "fr_removeLemmaFromFrame i L = bindS (fr_mutableFrame L) (\<lambda>fr. thenS (fr_updateFrame L (\<lambda>fr. fr - {i})) (assertS (i \<in> fr)))"

definition fr_shrink :: "nat \<Rightarrow> (frames, unit) sm" where
  "fr_shrink n = bindS getS (\<lambda>f. thenS (assertS (n \<le> length (fr_frames f))) (modifyS (\<lambda>f. f\<lparr>fr_frames := take n (fr_frames f)\<rparr>)))"

definition fr_clear :: "(frames, unit) sm" where
  "fr_clear = modifyS (\<lambda>f. f\<lparr>fr_frames := [], fr_inf := {}\<rparr>)"

subsection \<open>The trace\<close>

record lemmaData =
  ld_id :: lemmaID
  ld_cube :: cube
  ld_level :: level
  ld_deleted :: bool

record inductiveTrace =
  it_frames :: frames
  it_lemmas :: "lemmaData list"
  it_cubeToID :: "cube \<rightharpoonup> lemmaID"

definition it_new :: inductiveTrace where
  "it_new = \<lparr>it_frames = \<lparr>fr_frames = [], fr_inf = {}\<rparr>, it_lemmas = [], it_cubeToID = Map.empty\<rparr>"

definition it_onFrames :: "(frames, 'a) sm \<Rightarrow> (inductiveTrace, 'a) sm" where
  "it_onFrames p = zoomS it_frames (\<lambda>f T. T\<lparr>it_frames := f\<rparr>) p"

definition it_getLemmaID :: "inductiveTrace \<Rightarrow> lemmaID \<Rightarrow> lemmaData res" where
  "it_getLemmaID T i = atR (it_lemmas T) i"

definition it_IDOf :: "inductiveTrace \<Rightarrow> cube \<Rightarrow> lemmaID res" where
  "it_IDOf T c = (case it_cubeToID T (sort c) of None \<Rightarrow> Inl OutOfRange | Some i \<Rightarrow> Inr i)"

definition it_getLemma :: "inductiveTrace \<Rightarrow> cube \<Rightarrow> lemmaData res" where
  "it_getLemma T c = bindR (it_IDOf T c) (it_getLemmaID T)"

text \<open>\<open>lemmaExists\<close> looks the cube up as it is given, unlike \<open>IDOf\<close>.\<close>

definition it_lemmaExists :: "inductiveTrace \<Rightarrow> cube \<Rightarrow> bool" where
  "it_lemmaExists T c = (it_cubeToID T c \<noteq> None)"

definition it_lemmaIsActive :: "inductiveTrace \<Rightarrow> cube \<Rightarrow> bool res" where
  "it_lemmaIsActive T c = (if \<not> it_lemmaExists T c then Inr False else bindR (it_getLemma T c) (\<lambda>l. Inr (\<not> ld_deleted l)))"

definition it_levelOfID :: "inductiveTrace \<Rightarrow> lemmaID \<Rightarrow> level res" where
  "it_levelOfID T i = bindR (it_getLemmaID T i) (\<lambda>l. Inr (ld_level l))"

definition it_levelOf :: "inductiveTrace \<Rightarrow> cube \<Rightarrow> level res" where
  "it_levelOf T c = assertR (it_lemmaExists T c) (bindR (it_IDOf T c) (it_levelOfID T))"

definition it_cubeOf :: "inductiveTrace \<Rightarrow> lemmaID \<Rightarrow> cube res" where
  "it_cubeOf T i = bindR (it_getLemmaID T i) (\<lambda>l. Inr (ld_cube l))"

definition it_getFrame :: "inductiveTrace \<Rightarrow> level \<Rightarrow> frame res" where
  "it_getFrame T L = fr_getFrame (it_frames T) L"

definition it_numFrames :: "inductiveTrace \<Rightarrow> nat" where
  "it_numFrames T = fr_numFrames (it_frames T)"

definition it_getFullFrame :: "inductiveTrace \<Rightarrow> level \<Rightarrow> frame res" where
  "it_getFullFrame T L = bindR (it_getFrame T LEVEL_INF) (\<lambda>inf.
     bindR (mapR (\<lambda>i. it_getFrame T (enat i)) (filter (\<lambda>i. L \<le> enat i) [0..<it_numFrames T]))
     (\<lambda>frs. Inr (inf \<union> \<Union> (set frs))))"

text \<open>Assignments through the references \<open>getMutableLemma\<close> returns.\<close>

definition it_setLemma :: "lemmaID \<Rightarrow> (lemmaData \<Rightarrow> lemmaData) \<Rightarrow> (inductiveTrace, unit) sm" where
  "it_setLemma i g = bindS getS (\<lambda>T. bindS (liftS (it_getLemmaID T i)) (\<lambda>l. modifyS (\<lambda>T. T\<lparr>it_lemmas := (it_lemmas T)[i := g l]\<rparr>)))"

definition it_addLemma :: "cube \<Rightarrow> level \<Rightarrow> (inductiveTrace, lemmaID) sm" where
  "it_addLemma cube L = (let cube_sorted = sort cube in bindS getS (\<lambda>T.
     if it_lemmaExists T cube_sorted then
       bindS (liftS (it_getLemma T cube_sorted)) (\<lambda>l.
       thenS (if ld_deleted l then it_setLemma (ld_id l) (\<lambda>l. l\<lparr>ld_deleted := False\<rparr>)
          else thenS (assertS (ld_level l \<le> L)) (it_onFrames (fr_removeLemmaFromFrame (ld_id l) (ld_level l))))
       (thenS (it_onFrames (fr_addLemmaToFrame (ld_id l) L))
       (thenS (it_setLemma (ld_id l) (\<lambda>l. l\<lparr>ld_level := L\<rparr>)) (retS (ld_id l)))))
     else let i = length (it_lemmas T) in
       thenS (modifyS (\<lambda>T. T\<lparr>it_lemmas := it_lemmas T @ [\<lparr>ld_id = i, ld_cube = cube_sorted, ld_level = L, ld_deleted = False\<rparr>]\<rparr>))
       (thenS (it_onFrames (fr_addLemmaToFrame i L))
       (thenS (modifyS (\<lambda>T. T\<lparr>it_cubeToID := (it_cubeToID T)(cube_sorted \<mapsto> i)\<rparr>)) (retS i)))))"

definition it_removeLemma :: "lemmaID \<Rightarrow> (inductiveTrace, unit) sm" where
  "it_removeLemma i = bindS getS (\<lambda>T. bindS (liftS (it_getLemmaID T i)) (\<lambda>l. thenS (it_setLemma i (\<lambda>l. l\<lparr>ld_deleted := True\<rparr>))
     (it_onFrames (fr_removeLemmaFromFrame (ld_id l) (ld_level l)))))"

definition it_pushLemma :: "lemmaID \<Rightarrow> level \<Rightarrow> (inductiveTrace, unit) sm" where
  "it_pushLemma i L = bindS getS (\<lambda>T. bindS (liftS (it_getLemmaID T i)) (\<lambda>l. thenS (assertS (ld_level l \<le> L))
     (thenS (it_onFrames (fr_removeLemmaFromFrame (ld_id l) (ld_level l)))
     (thenS (it_onFrames (fr_addLemmaToFrame (ld_id l) L)) (it_setLemma i (\<lambda>l. l\<lparr>ld_level := L\<rparr>))))))"

text \<open>The loop runs from the last frame down to frame 1.  Without frames its first index is the number
  of the infinite frame, and the second one is out of range.\<close>

fun it_unusedFrom :: "inductiveTrace \<Rightarrow> nat \<Rightarrow> nat \<Rightarrow> nat res" where
  "it_unusedFrom T 0 k = Inr k"
| "it_unusedFrom T (Suc i) k = bindR (it_getFrame T (enat (Suc i))) (\<lambda>fr. if fr = {} then it_unusedFrom T i (Suc i) else Inr k)"

definition it_unused :: "inductiveTrace \<Rightarrow> nat res" where
  "it_unused T = (if it_numFrames T = 0 then bindR (it_getFrame T LEVEL_INF) (\<lambda>fr. assertR (fr \<noteq> {}) (Inr 0))
     else it_unusedFrom T (it_numFrames T - 1) (it_numFrames T))"

definition it_clearUnusedFrames :: "(inductiveTrace, unit) sm" where
  "it_clearUnusedFrames = bindS getS (\<lambda>T. bindS (liftS (it_unused T)) (\<lambda>k. it_onFrames (fr_shrink k)))"

definition it_clear :: "(inductiveTrace, unit) sm" where
  "it_clear = thenS (it_onFrames fr_clear) (modifyS (\<lambda>T. T\<lparr>it_lemmas := [], it_cubeToID := Map.empty\<rparr>))"


subsection \<open>Invariant\<close>

text \<open>The frame at a level, empty where none exists, and the level of an active lemma.\<close>

definition frame_at :: "frames \<Rightarrow> level \<Rightarrow> frame" where
  "frame_at f L = (if L = \<infinity> then fr_inf f else if L < enat (length (fr_frames f)) then fr_frames f ! the_enat L else {})"

definition it_active :: "inductiveTrace \<Rightarrow> lemmaID \<Rightarrow> bool" where
  "it_active T i = (i < length (it_lemmas T) \<and> \<not> ld_deleted (it_lemmas T ! i))"

definition it_inv :: "inductiveTrace \<Rightarrow> bool" where
  "it_inv T = ((\<forall>c i. it_cubeToID T c = Some i \<longleftrightarrow> i < length (it_lemmas T) \<and> ld_cube (it_lemmas T ! i) = c)
     \<and> (\<forall>i<length (it_lemmas T). ld_id (it_lemmas T ! i) = i \<and> sorted (ld_cube (it_lemmas T ! i)))
     \<and> (\<forall>i L. i \<in> frame_at (it_frames T) L \<longleftrightarrow> it_active T i \<and> ld_level (it_lemmas T ! i) = L))"

definition it_lev :: "inductiveTrace \<Rightarrow> cube \<Rightarrow> level option" where
  "it_lev T c = (case it_cubeToID T c of None \<Rightarrow> None | Some i \<Rightarrow>
     if ld_deleted (it_lemmas T ! i) then None else Some (ld_level (it_lemmas T ! i)))"

text \<open>No lemma is marked as deleted.\<close>

definition it_live :: "inductiveTrace \<Rightarrow> bool" where
  "it_live T = (\<forall>i<length (it_lemmas T). \<not> ld_deleted (it_lemmas T ! i))"

definition frames_upto :: "nat \<Rightarrow> level \<Rightarrow> nat" where
  "frames_upto n L = (case L of enat k \<Rightarrow> max n (k + 1) | \<infinity> \<Rightarrow> n)"

lemma fr_updateFrame_wp:
  "wp (fr_updateFrame L g) (\<lambda>_ f'. frame_at f' = (frame_at f)(L := g (frame_at f L)) \<and> fr_numFrames f' = frames_upto (fr_numFrames f) L) f"
proof (cases L)
  case infinity
  then show ?thesis by (auto simp: fr_updateFrame_def LEVEL_INF_def frame_at_def fun_eq_iff frames_upto_def fr_numFrames_def)
next
  case (enat k)
  show ?thesis
  proof (cases "k < length (fr_frames f)")
    case True
    then show ?thesis using enat
      by (auto simp: fr_updateFrame_def LEVEL_INF_def frame_at_def fun_eq_iff frames_upto_def fr_numFrames_def fr_frameExists_def nth_list_update)
  next
    case False
    then show ?thesis using enat
      by (auto simp: fr_updateFrame_def LEVEL_INF_def frame_at_def fun_eq_iff frames_upto_def fr_numFrames_def fr_frameExists_def
          fr_createFrame_def nth_list_update nth_append)
  qed
qed


lemma frames_upto_le: "n \<le> frames_upto n L"
  by (cases L) (auto simp: frames_upto_def)

lemma fr_getFrame_at: "L = \<infinity> \<or> L < enat (fr_numFrames f) \<Longrightarrow> fr_getFrame f L = Inr (frame_at f L)"
  by (cases L) (auto simp: fr_getFrame_def LEVEL_INF_def frame_at_def fr_frameExists_def fr_numFrames_def atR_def assertR_def)

lemma frame_at_exists: "i \<in> frame_at f L \<Longrightarrow> L = \<infinity> \<or> L < enat (fr_numFrames f)"
  by (auto simp: frame_at_def fr_numFrames_def split: if_splits)

lemma frames_upto_exists: "L < enat n \<Longrightarrow> frames_upto n L = n"
  by (cases L) (auto simp: frames_upto_def)

lemma fr_removeLemma_wp:
  assumes "i \<in> frame_at f L"
  shows "wp (fr_removeLemmaFromFrame i L) (\<lambda>_ f'. frame_at f' = (frame_at f)(L := frame_at f L - {i}) \<and> fr_numFrames f' = fr_numFrames f) f"
proof -
  have ex: "L = \<infinity> \<or> L < enat (fr_numFrames f)" by (rule frame_at_exists[OF assms])
  then have up: "frames_upto (fr_numFrames f) L = fr_numFrames f" by (auto simp: frames_upto_exists) (simp add: frames_upto_def)
  show ?thesis
    unfolding fr_removeLemmaFromFrame_def fr_mutableFrame_def wp_bindS wp_thenS
  proof (rule wp_mono[OF fr_updateFrame_wp], elim conjE, goal_cases)
    case (1 u f1)
    then have f1: "frame_at f1 = frame_at f" "fr_numFrames f1 = fr_numFrames f" using up by auto
    then have "fr_getFrame f1 L = Inr (frame_at f L)" using fr_getFrame_at[of L f1] ex by simp
    then show ?case
      by simp (rule wp_mono[OF fr_updateFrame_wp], use f1 up assms in auto)
  qed
qed

lemma wp_it_onFrames [simp]: "wp (it_onFrames p) Q = (\<lambda>T. wp p (\<lambda>a f. Q a (T\<lparr>it_frames := f\<rparr>)) (it_frames T))"
  by (simp add: it_onFrames_def)

lemma it_getLemmaID_frames [simp]: "it_getLemmaID (T\<lparr>it_frames := f\<rparr>) = it_getLemmaID T"
  by (simp add: fun_eq_iff it_getLemmaID_def)

lemma it_new_inv: "it_inv it_new" "it_lev it_new = Map.empty" "it_numFrames it_new = 0" "it_live it_new"
  by (auto simp: it_live_def it_inv_def it_new_def frame_at_def it_active_def it_lev_def fun_eq_iff it_numFrames_def fr_numFrames_def)

lemma it_invD:
  assumes "it_inv T"
  shows "it_cubeToID T c = Some i \<longleftrightarrow> i < length (it_lemmas T) \<and> ld_cube (it_lemmas T ! i) = c"
    "i < length (it_lemmas T) \<Longrightarrow> ld_id (it_lemmas T ! i) = i \<and> sorted (ld_cube (it_lemmas T ! i))"
    "i \<in> frame_at (it_frames T) L \<longleftrightarrow> it_active T i \<and> ld_level (it_lemmas T ! i) = L"
  using assms unfolding it_inv_def by blast+

text \<open>A lemma by its ID: what the trace says about cube \<open>c\<close>.\<close>

definition it_is :: "inductiveTrace \<Rightarrow> lemmaID \<Rightarrow> cube \<Rightarrow> level \<Rightarrow> bool" where
  "it_is T i c L = (it_active T i \<and> ld_cube (it_lemmas T ! i) = c \<and> ld_level (it_lemmas T ! i) = L)"

lemma it_lev_is: "it_inv T \<Longrightarrow> it_lev T c = Some L \<longleftrightarrow> (\<exists>i. it_is T i c L)"
  unfolding it_lev_def it_is_def it_active_def
  by (auto simp: it_invD(1) split: option.splits) (metis it_invD(1) option.distinct(1) option.inject)+

lemma it_is_inj: "it_inv T \<Longrightarrow> it_is T i c L \<Longrightarrow> it_is T j c M \<Longrightarrow> i = j \<and> L = M"
  unfolding it_is_def it_active_def by (metis it_invD(1) option.inject)

lemma it_is_get:
  assumes "it_inv T" "it_is T i c L"
  shows "it_getLemmaID T i = Inr (it_lemmas T ! i)" "it_cubeOf T i = Inr c" "it_levelOfID T i = Inr L" "it_cubeToID T c = Some i"
    "ld_id (it_lemmas T ! i) = i" "ld_cube (it_lemmas T ! i) = c" "ld_level (it_lemmas T ! i) = L" "\<not> ld_deleted (it_lemmas T ! i)" "sorted c"
    "i \<in> frame_at (it_frames T) L" "L = \<infinity> \<or> L < enat (it_numFrames T)"
proof -
  have i: "i < length (it_lemmas T)" "ld_cube (it_lemmas T ! i) = c" "ld_level (it_lemmas T ! i) = L" "\<not> ld_deleted (it_lemmas T ! i)"
    using assms(2) by (auto simp: it_is_def it_active_def)
  then show "it_getLemmaID T i = Inr (it_lemmas T ! i)" "it_cubeOf T i = Inr c" "it_levelOfID T i = Inr L"
    by (simp_all add: it_getLemmaID_def it_cubeOf_def it_levelOfID_def atR_def)
  show "it_cubeToID T c = Some i" "ld_id (it_lemmas T ! i) = i" "sorted c" using it_invD(1,2)[OF assms(1)] i by auto
  show f: "i \<in> frame_at (it_frames T) L" using it_invD(3)[OF assms(1)] assms(2) by (simp add: it_is_def)
  show "L = \<infinity> \<or> L < enat (it_numFrames T)" using frame_at_exists[OF f] by (simp add: it_numFrames_def)
qed (use assms(2) in \<open>auto simp: it_is_def it_active_def\<close>)

text \<open>Moving a lemma to another level.\<close>

lemma it_move_inv:
  assumes inv: "it_inv T" and i: "i < length (it_lemmas T)"
    and f: "frame_at F = (\<lambda>M. (if M = L then {i} else {}) \<union> (frame_at (it_frames T) M - {i}))" "fr_numFrames F = n"
    and T': "T' = T\<lparr>it_frames := F, it_lemmas := (it_lemmas T)[i := (it_lemmas T ! i)\<lparr>ld_level := L, ld_deleted := False\<rparr>]\<rparr>"
  shows "it_inv T' \<and> it_lev T' = (it_lev T)(ld_cube (it_lemmas T ! i) \<mapsto> L) \<and> it_numFrames T' = n
     \<and> it_is T' i (ld_cube (it_lemmas T ! i)) L \<and> (it_live T \<longrightarrow> it_live T')"
proof -
  let ?c = "ld_cube (it_lemmas T ! i)"
  have len: "length (it_lemmas T') = length (it_lemmas T)" by (simp add: T')
  have at: "it_lemmas T' ! j = (if j = i then (it_lemmas T ! i)\<lparr>ld_level := L, ld_deleted := False\<rparr> else it_lemmas T ! j)" if "j < length (it_lemmas T)" for j
    using that by (simp add: T' nth_list_update)
  have cube: "ld_cube (it_lemmas T' ! j) = ld_cube (it_lemmas T ! j)" "ld_id (it_lemmas T' ! j) = ld_id (it_lemmas T ! j)" if "j < length (it_lemmas T)" for j
    using at[OF that] by simp_all
  have act: "it_active T' j \<longleftrightarrow> j = i \<or> it_active T j" for j
    using i at[of j] len by (cases "j = i") (auto simp: it_active_def)
  have "it_inv T'"
    unfolding it_inv_def
  proof (intro conjI allI impI)
    show "it_cubeToID T' c = Some j \<longleftrightarrow> j < length (it_lemmas T') \<and> ld_cube (it_lemmas T' ! j) = c" for c j
      using it_invD(1)[OF inv, of c j] cube len by (auto simp: T')
    show "ld_id (it_lemmas T' ! j) = j" "sorted (ld_cube (it_lemmas T' ! j))" if "j < length (it_lemmas T')" for j
      using it_invD(2)[OF inv, of j] cube[of j] that len by auto
    show "j \<in> frame_at (it_frames T') M \<longleftrightarrow> it_active T' j \<and> ld_level (it_lemmas T' ! j) = M" for j M
    proof -
      have "j \<in> frame_at (it_frames T') M \<longleftrightarrow> (if j = i then M = L else it_active T j \<and> ld_level (it_lemmas T ! j) = M)"
        using f(1) it_invD(3)[OF inv, of j M] by (auto simp: T')
      then show ?thesis using act[of j] at[of j] i by (cases "j = i") (auto simp: it_active_def)
    qed
  qed
  moreover have "it_lev T' d = ((it_lev T)(?c \<mapsto> L)) d" for d
  proof (cases "d = ?c")
    case True
    then have "it_cubeToID T' d = Some i" using it_invD(1)[OF inv] i by (simp add: T')
    then show ?thesis using True at[OF i] by (simp add: it_lev_def)
  next
    case False
    have "it_cubeToID T' d = it_cubeToID T d" by (simp add: T')
    moreover have "j \<noteq> i \<and> j < length (it_lemmas T)" if "it_cubeToID T d = Some j" for j using False it_invD(1)[OF inv, of d j] that by auto
    ultimately show ?thesis using False at by (auto simp: it_lev_def split: option.splits)
  qed
  then have "it_lev T' = (it_lev T)(?c \<mapsto> L)" by (rule ext)
  moreover have "it_numFrames T' = n" using f(2) by (simp add: T' it_numFrames_def)
  moreover have "it_is T' i ?c L" using at[OF i] act[of i] by (simp add: it_is_def)
  moreover have "it_live T \<longrightarrow> it_live T'" using at len by (auto simp: it_live_def)
  ultimately show ?thesis by blast
qed

lemma it_addLemma_wp:
  assumes inv: "it_inv T" and up: "\<And>M. it_lev T (sort c) = Some M \<Longrightarrow> M \<le> L"
  shows "wp (it_addLemma c L) (\<lambda>i T'. it_inv T' \<and> it_lev T' = (it_lev T)(sort c \<mapsto> L)
     \<and> it_numFrames T' = frames_upto (it_numFrames T) L \<and> it_is T' i (sort c) L \<and> (it_live T \<longrightarrow> it_live T')) T"
proof (cases "it_cubeToID T (sort c)")
  case (Some i)
  have i: "i < length (it_lemmas T)" "ld_cube (it_lemmas T ! i) = sort c" using it_invD(1)[OF inv, of "sort c" i] Some by simp_all
  have id: "ld_id (it_lemmas T ! i) = i" using it_invD(2)[OF inv i(1)] by simp
  have get: "it_getLemma T (sort c) = Inr (it_lemmas T ! i)" using Some i(1) by (simp add: it_getLemma_def it_IDOf_def it_getLemmaID_def atR_def sorted_sort_id)
  show ?thesis
  proof (cases "ld_deleted (it_lemmas T ! i)")
    case True
    have nf: "i \<notin> frame_at (it_frames T) M" for M using it_invD(3)[OF inv] True by (simp add: it_active_def)
    have fin: "it_inv T' \<and> it_lev T' = (it_lev T)(sort c \<mapsto> L) \<and> it_numFrames T' = frames_upto (it_numFrames T) L \<and> it_is T' i (sort c) L \<and> (it_live T \<longrightarrow> it_live T')"
      if "frame_at F = (frame_at (it_frames T))(L := insert i (frame_at (it_frames T) L))" "fr_numFrames F = frames_upto (it_numFrames T) L"
        "T' = T\<lparr>it_frames := F, it_lemmas := (it_lemmas T)[i := (it_lemmas T ! i)\<lparr>ld_deleted := False, ld_level := L\<rparr>]\<rparr>" for F T'
    proof -
      have eq: "(it_lemmas T ! i)\<lparr>ld_deleted := False, ld_level := L\<rparr> = (it_lemmas T ! i)\<lparr>ld_level := L, ld_deleted := False\<rparr>" by simp
      have T': "T' = T\<lparr>it_frames := F, it_lemmas := (it_lemmas T)[i := (it_lemmas T ! i)\<lparr>ld_level := L, ld_deleted := False\<rparr>]\<rparr>"
        by (simp only: that(3) eq)
      have "frame_at F = (\<lambda>M. (if M = L then {i} else {}) \<union> (frame_at (it_frames T) M - {i}))"
        using that(1) nf by (auto simp: fun_eq_iff)
      from it_move_inv[OF inv i(1) this that(2) T'] show ?thesis using i(2) by simp
    qed
    show ?thesis
      using Some get True i(1) id
      by (simp add: it_addLemma_def Let_def it_lemmaExists_def it_setLemma_def it_getLemmaID_def fr_addLemmaToFrame_def)
        (rule wp_mono[OF fr_updateFrame_wp], rule fin[OF _ _ refl], simp_all add: it_numFrames_def)
  next
    case False
    let ?M = "ld_level (it_lemmas T ! i)"
    have act: "it_is T i (sort c) ?M" using i False by (simp add: it_is_def it_active_def)
    then have "it_lev T (sort c) = Some ?M" using it_lev_is[OF inv] by blast
    then have le: "?M \<le> L" by (rule up)
    have fin: "it_inv T' \<and> it_lev T' = (it_lev T)(sort c \<mapsto> L) \<and> it_numFrames T' = frames_upto (it_numFrames T) L \<and> it_is T' i (sort c) L \<and> (it_live T \<longrightarrow> it_live T')"
      if "frame_at F1 = (frame_at (it_frames T))(?M := frame_at (it_frames T) ?M - {i})" "fr_numFrames F1 = fr_numFrames (it_frames T)"
        "frame_at F = (frame_at F1)(L := insert i (frame_at F1 L))" "fr_numFrames F = frames_upto (fr_numFrames F1) L"
        "T' = T\<lparr>it_frames := F, it_lemmas := (it_lemmas T)[i := (it_lemmas T ! i)\<lparr>ld_level := L\<rparr>]\<rparr>" for F1 F T'
    proof -
      have only: "i \<in> frame_at (it_frames T) N \<longleftrightarrow> N = ?M" for N using it_invD(3)[OF inv, of i N] act by (auto simp: it_is_def)
      have "(it_lemmas T ! i)\<lparr>ld_level := L\<rparr> = (it_lemmas T ! i)\<lparr>ld_level := L, ld_deleted := False\<rparr>" using False by simp
      then have T': "T' = T\<lparr>it_frames := F, it_lemmas := (it_lemmas T)[i := (it_lemmas T ! i)\<lparr>ld_level := L, ld_deleted := False\<rparr>]\<rparr>"
        using that(5) by simp
      have "frame_at F = (\<lambda>M. (if M = L then {i} else {}) \<union> (frame_at (it_frames T) M - {i}))"
        using that(1,3) only by (auto simp: fun_eq_iff)
      from it_move_inv[OF inv i(1) this that(4) T'] show ?thesis using that(2) i(2) by (simp add: it_numFrames_def)
    qed
    show ?thesis
      using Some get False i(1) id le
      by (simp add: it_addLemma_def Let_def it_lemmaExists_def it_setLemma_def it_getLemmaID_def fr_addLemmaToFrame_def)
        (rule wp_mono[OF fr_removeLemma_wp[OF it_is_get(10)[OF inv act]]],
         rule wp_mono[OF fr_updateFrame_wp], elim conjE, rule fin[OF _ _ _ _ refl], assumption+)
  qed
next
  case None
  let ?i = "length (it_lemmas T)"
  let ?l = "\<lparr>ld_id = ?i, ld_cube = sort c, ld_level = L, ld_deleted = False\<rparr>"
  have fin: "it_inv T' \<and> it_lev T' = (it_lev T)(sort c \<mapsto> L) \<and> it_numFrames T' = frames_upto (it_numFrames T) L \<and> it_is T' ?i (sort c) L \<and> (it_live T \<longrightarrow> it_live T')"
    if F: "frame_at F = (frame_at (it_frames T))(L := insert ?i (frame_at (it_frames T) L))" "fr_numFrames F = frames_upto (it_numFrames T) L"
      and T': "T' = T\<lparr>it_lemmas := it_lemmas T @ [?l], it_frames := F, it_cubeToID := (it_cubeToID T)(sort c \<mapsto> ?i)\<rparr>" for F T'
  proof -
    have new: "j < ?i \<Longrightarrow> ld_cube (it_lemmas T ! j) \<noteq> sort c" for j using None it_invD(1)[OF inv, of "sort c" j] by auto
    have act: "it_active T' j \<longleftrightarrow> j = ?i \<or> it_active T j" for j by (auto simp: T' it_active_def nth_append)
    have "it_inv T'"
      unfolding it_inv_def
    proof (intro conjI allI impI)
      show "it_cubeToID T' d = Some j \<longleftrightarrow> j < length (it_lemmas T') \<and> ld_cube (it_lemmas T' ! j) = d" for d j
        using it_invD(1)[OF inv, of d j] new[of j] None by (auto simp: T' nth_append less_Suc_eq)
      show "ld_id (it_lemmas T' ! j) = j" "sorted (ld_cube (it_lemmas T' ! j))" if "j < length (it_lemmas T')" for j
        using it_invD(2)[OF inv, of j] that by (auto simp: T' nth_append less_Suc_eq)
      show "j \<in> frame_at (it_frames T') M \<longleftrightarrow> it_active T' j \<and> ld_level (it_lemmas T' ! j) = M" for j M
        using F(1) it_invD(3)[OF inv, of j M] act[of j] by (auto simp: T' nth_append it_active_def)
    qed
    moreover have "it_lev T' d = ((it_lev T)(sort c \<mapsto> L)) d" for d
    proof (cases "d = sort c")
      case True
      then show ?thesis by (simp add: it_lev_def T')
    next
      case False
      have "j < ?i" if "it_cubeToID T d = Some j" for j using it_invD(1)[OF inv, of d j] that by simp
      then show ?thesis using False by (simp add: it_lev_def T' nth_append split: option.splits)
    qed
    then have "it_lev T' = (it_lev T)(sort c \<mapsto> L)" by (rule ext)
    moreover have "it_numFrames T' = frames_upto (it_numFrames T) L" using F(2) by (simp add: T' it_numFrames_def)
    moreover have "it_is T' ?i (sort c) L" by (simp add: T' it_is_def it_active_def)
    moreover have "it_live T \<longrightarrow> it_live T'" by (auto simp: it_live_def T' nth_append less_Suc_eq)
    ultimately show ?thesis by blast
  qed
  show ?thesis
    using None
    by (simp add: it_addLemma_def it_lemmaExists_def Let_def fr_addLemmaToFrame_def)
      (rule wp_mono[OF fr_updateFrame_wp], rule fin[OF _ _ refl], simp_all add: it_numFrames_def)
qed

lemma it_pushLemma_wp:
  assumes inv: "it_inv T" and i: "it_is T i c M" and le: "M \<le> L"
  shows "wp (it_pushLemma i L) (\<lambda>_ T'. it_inv T' \<and> it_lev T' = (it_lev T)(c \<mapsto> L)
     \<and> it_numFrames T' = frames_upto (it_numFrames T) L \<and> it_is T' i c L
     \<and> (\<forall>j. j \<noteq> i \<longrightarrow> (\<forall>d N. it_is T' j d N = it_is T j d N)) \<and> (it_live T \<longrightarrow> it_live T')) T"
proof -
  note g = it_is_get[OF inv i]
  have il: "i < length (it_lemmas T)" using i by (simp add: it_is_def it_active_def)
  have fin: "it_inv T' \<and> it_lev T' = (it_lev T)(c \<mapsto> L) \<and> it_numFrames T' = frames_upto (it_numFrames T) L \<and> it_is T' i c L
     \<and> (\<forall>j. j \<noteq> i \<longrightarrow> (\<forall>d N. it_is T' j d N = it_is T j d N)) \<and> (it_live T \<longrightarrow> it_live T')"
    if "frame_at F1 = (frame_at (it_frames T))(M := frame_at (it_frames T) M - {i})" "fr_numFrames F1 = fr_numFrames (it_frames T)"
      "frame_at F = (frame_at F1)(L := insert i (frame_at F1 L))" "fr_numFrames F = frames_upto (fr_numFrames F1) L"
      "T' = T\<lparr>it_frames := F, it_lemmas := (it_lemmas T)[i := (it_lemmas T ! i)\<lparr>ld_level := L\<rparr>]\<rparr>" for F1 F T'
  proof -
    have only: "i \<in> frame_at (it_frames T) N \<longleftrightarrow> N = M" for N using it_invD(3)[OF inv, of i N] i by (auto simp: it_is_def)
    have "(it_lemmas T ! i)\<lparr>ld_level := L\<rparr> = (it_lemmas T ! i)\<lparr>ld_level := L, ld_deleted := False\<rparr>" using g(8) by simp
    then have T': "T' = T\<lparr>it_frames := F, it_lemmas := (it_lemmas T)[i := (it_lemmas T ! i)\<lparr>ld_level := L, ld_deleted := False\<rparr>]\<rparr>"
      using that(5) by simp
    have "frame_at F = (\<lambda>M. (if M = L then {i} else {}) \<union> (frame_at (it_frames T) M - {i}))"
      using that(1,3) only by (auto simp: fun_eq_iff)
    from it_move_inv[OF inv il this that(4) T'] show ?thesis using that(2) g(6)
      by (auto simp: T' it_numFrames_def it_is_def it_active_def)
  qed
  show ?thesis
    unfolding it_pushLemma_def it_setLemma_def fr_addLemmaToFrame_def
    using g(1,5,7) le il
    by (simp, intro wp_mono[OF fr_removeLemma_wp[OF g(10)]] wp_mono[OF fr_updateFrame_wp])
      (elim conjE, rule fin[OF _ _ _ _ refl], assumption+)
qed


text \<open>Removing the empty frames at the end.\<close>

lemma it_unusedFrom_wp:
  assumes "n < it_numFrames T" "\<forall>j\<ge>Suc n. frame_at (it_frames T) (enat j) = {}"
  shows "wpr (it_unusedFrom T n (Suc n)) (\<lambda>m. 0 < m \<and> m \<le> it_numFrames T \<and> (\<forall>j\<ge>m. frame_at (it_frames T) (enat j) = {})
     \<and> (m = 1 \<or> frame_at (it_frames T) (enat (m - 1)) \<noteq> {}))"
  using assms
proof (induction n)
  case (Suc i)
  have g: "it_getFrame T (enat (Suc i)) = Inr (frame_at (it_frames T) (enat (Suc i)))"
    using Suc.prems(1) by (simp add: it_getFrame_def it_numFrames_def fr_getFrame_at)
  show ?case
  proof (cases "frame_at (it_frames T) (enat (Suc i)) = {}")
    case True
    have "\<forall>j\<ge>Suc i. frame_at (it_frames T) (enat j) = {}"
      using Suc.prems(2) True by (metis Suc_leI le_neq_implies_less)
    then show ?thesis using Suc.IH Suc.prems(1) g True by simp
  qed (use g Suc.prems in simp)
qed simp

lemma it_clearUnused_wp:
  assumes inv: "it_inv T" and n: "0 < it_numFrames T"
  shows "wp it_clearUnusedFrames (\<lambda>_ T'. it_inv T' \<and> it_lev T' = it_lev T \<and> 0 < it_numFrames T' \<and> it_numFrames T' \<le> it_numFrames T
     \<and> (it_numFrames T' = 1 \<or> frame_at (it_frames T) (enat (it_numFrames T' - 1)) \<noteq> {})
     \<and> (\<forall>i c L. it_is T' i c L = it_is T i c L) \<and> (it_live T \<longrightarrow> it_live T')) T"
proof -
  have u: "wpr (it_unused T) (\<lambda>m. 0 < m \<and> m \<le> it_numFrames T \<and> (\<forall>j\<ge>m. frame_at (it_frames T) (enat j) = {})
     \<and> (m = 1 \<or> frame_at (it_frames T) (enat (m - 1)) \<noteq> {}))"
    using it_unusedFrom_wp[of "it_numFrames T - 1" T] n by (simp add: it_unused_def frame_at_def it_numFrames_def fr_numFrames_def)
  then obtain m where m: "it_unused T = Inr m" "0 < m" "m \<le> it_numFrames T" "\<forall>j\<ge>m. frame_at (it_frames T) (enat j) = {}"
     "m = 1 \<or> frame_at (it_frames T) (enat (m - 1)) \<noteq> {}" by (auto simp: wpr_iff)
  let ?f = "(it_frames T)\<lparr>fr_frames := take m (fr_frames (it_frames T))\<rparr>"
  have len: "length (fr_frames ?f) = m" using m(3) by (simp add: it_numFrames_def fr_numFrames_def)
  have "frame_at ?f L = frame_at (it_frames T) L" for L
  proof (cases L)
    case (enat j)
    then show ?thesis using m(3,4) len by (cases "j < m") (auto simp: frame_at_def it_numFrames_def fr_numFrames_def)
  qed (simp add: frame_at_def)
  then have fr: "frame_at ?f = frame_at (it_frames T)" by (rule ext)
  let ?T = "T\<lparr>it_frames := ?f\<rparr>"
  have act: "it_active ?T = it_active T" by (simp add: fun_eq_iff it_active_def)
  have isl: "it_is ?T i c L = it_is T i c L" for i c L using act by (simp add: it_is_def)
  have "it_inv ?T" using inv fr act unfolding it_inv_def by simp
  moreover have "it_lev ?T = it_lev T" by (rule ext) (simp add: it_lev_def split: option.splits)
  moreover have "it_numFrames ?T = m" using len by (simp add: it_numFrames_def fr_numFrames_def)
  moreover have "it_live T \<longrightarrow> it_live ?T" by (simp add: it_live_def)
  ultimately show ?thesis
    using n m(1-3,5) isl by (simp add: it_clearUnusedFrames_def fr_shrink_def it_numFrames_def fr_numFrames_def)
qed

end
