(* ===== verification/Deletion.thy ===== *)
theory Deletion
  imports Prelude
begin

text \<open>
  Minimisation of a set by dropping one element after the other, for any property that larger sets
  inherit: what the searches for minimal unsatisfiable cores and minimal proofs have in common.
\<close>

text \<open>A predicate that is kept by larger sets, of which one element after the other is dropped.\<close>

definition min_set :: "('a set \<Rightarrow> bool) \<Rightarrow> 'a set \<Rightarrow> bool" where
  "min_set U M = (U M \<and> (\<forall>N. N \<subset> M \<longrightarrow> \<not> U N))"

locale deletion =
  fixes U :: "'a set \<Rightarrow> bool"
  assumes mono: "U A \<Longrightarrow> A \<subseteq> B \<Longrightarrow> U B"
begin

lemma needed_min:
  assumes "U M" "\<And>x. x \<in> M \<Longrightarrow> \<not> U (M - {x})"
  shows "min_set U M"
proof -
  have "\<not> U N" if "N \<subset> M" for N
  proof
    assume u: "U N"
    from that obtain x where x: "x \<in> M" "N \<subseteq> M - {x}" by blast
    then show False using assms(2)[OF x(1)] mono[OF u] by blast
  qed
  then show ?thesis using assms(1) by (simp add: min_set_def)
qed

lemma needed_shrink: "\<not> U (M - {x}) \<Longrightarrow> K \<subseteq> M \<Longrightarrow> \<not> U (K - {x})"
  using mono[of "K - {x}" "M - {x}"] by blast

end

end
