(* ===== verification/MusFinder.thy ===== *)
theory MusFinder
  imports FindMis Deletion
begin

text \<open>
  \<open>src/src/pme/util/mus_finder.{h,cpp}\<close>: groups of clauses switched on by activation literals, and the
  removal of one group after the other from an unsatisfiable core.
\<close>

subsection \<open>Groups\<close>

type_synonym musGroupID = "32 word"

record musFinder =
  mf_vars :: varManager
  mf_solver :: adaptor
  mf_nextGroup :: musGroupID
  mf_groupToActivation :: "(musGroupID \<times> id) list"
  mf_activationToGroup :: "id \<rightharpoonup> musGroupID"
  mf_negActivation :: "id list"

definition groupActivationName :: "musGroupID \<Rightarrow> string" where
  "groupActivationName i = ''act_musgroup_'' @ show_nat (unat i)"

definition mf_onSolver :: "(adaptor, 'a) sm \<Rightarrow> (musFinder, 'a) sm" where
  "mf_onSolver p = zoomS mf_solver (\<lambda>A m. m\<lparr>mf_solver := A\<rparr>) p"

definition mf_new :: "varManager \<Rightarrow> musFinder res" where
  "mf_new vm = bindR (ad_new GLUCOSE) (\<lambda>A. Inr \<lparr>mf_vars = vm, mf_solver = A, mf_nextGroup = 0, mf_groupToActivation = [],
     mf_activationToGroup = Map.empty, mf_negActivation = []\<rparr>)"

definition mf_addHardClause :: "clause \<Rightarrow> (musFinder, unit) sm" where
  "mf_addHardClause cls = mf_onSolver (ad_addClause cls)"

definition mf_addHardClauses :: "clauseVec \<Rightarrow> (musFinder, unit) sm" where
  "mf_addHardClauses vec = iterS mf_addHardClause vec"

definition mf_createGroup :: "(musFinder, musGroupID) sm" where
  "mf_createGroup = bindS getS (\<lambda>m. let this_group = mf_nextGroup m in
     thenS (modifyS (\<lambda>m. m\<lparr>mf_nextGroup := mf_nextGroup m + 1\<rparr>))
     (bindS (zoomS mf_vars (\<lambda>v m. m\<lparr>mf_vars := v\<rparr>) (getNewID_named (groupActivationName this_group) 0)) (\<lambda>act.
      thenS (assertS (map_of (mf_groupToActivation m) this_group = None))
      (thenS (modifyS (\<lambda>m. m\<lparr>mf_groupToActivation := mf_groupToActivation m @ [(this_group, act)],
         mf_activationToGroup := (mf_activationToGroup m)(act \<mapsto> this_group), mf_negActivation := mf_negActivation m @ [negate act]\<rparr>))
       (retS this_group)))))"

definition mf_activationForGroup :: "musFinder \<Rightarrow> musGroupID \<Rightarrow> id res" where
  "mf_activationForGroup m g = (case map_of (mf_groupToActivation m) g of None \<Rightarrow> Inl OutOfRange | Some a \<Rightarrow> Inr a)"

definition mf_groupForActivation :: "musFinder \<Rightarrow> id \<Rightarrow> musGroupID res" where
  "mf_groupForActivation m a = (case mf_activationToGroup m a of None \<Rightarrow> Inl OutOfRange | Some g \<Rightarrow> Inr g)"

definition mf_addSoftClause :: "musGroupID \<Rightarrow> clause \<Rightarrow> (musFinder, unit) sm" where
  "mf_addSoftClause g cls = bindS getS (\<lambda>m. bindS (liftS (mf_activationForGroup m g)) (\<lambda>act.
     mf_onSolver (ad_addClause (cls @ [negate act]))))"

definition mf_addSoftClauses :: "musGroupID \<Rightarrow> clauseVec \<Rightarrow> (musFinder, unit) sm" where
  "mf_addSoftClauses g vec = iterS (mf_addSoftClause g) vec"

text \<open>The overloads that make a new group.\<close>

definition mf_addSoftClause_new :: "clause \<Rightarrow> (musFinder, musGroupID) sm" where
  "mf_addSoftClause_new cls = bindS mf_createGroup (\<lambda>g. thenS (mf_addSoftClause g cls) (retS g))"

definition mf_addSoftClauses_new :: "clauseVec \<Rightarrow> (musFinder, musGroupID) sm" where
  "mf_addSoftClauses_new vec = bindS mf_createGroup (\<lambda>g. thenS (mf_addSoftClauses g vec) (retS g))"

definition mf_isUNSAT :: "backend \<Rightarrow> musGroupID list \<Rightarrow> (musFinder, bool \<times> musGroupID list) sm" where
  "mf_isUNSAT B core = bindS getS (\<lambda>m. bindS (liftS (mapR (mf_activationForGroup m) core)) (\<lambda>assumps.
     bindS (mf_onSolver (ad_solve B assumps)) (\<lambda>(sat, crits). if sat then retS (False, core)
       else bindS (liftS (mapR (mf_groupForActivation m) crits)) (\<lambda>core. retS (True, core)))))"

definition mf_findCore :: "backend \<Rightarrow> (musFinder, musGroupID list) sm" where
  "mf_findCore B = bindS getS (\<lambda>m. bindS (mf_isUNSAT B (map fst (mf_groupToActivation m))) (\<lambda>(unsat, core).
     thenS (assertS unsat) (retS core)))"

fun mus_loop :: "backend \<Rightarrow> nat \<Rightarrow> musGroupID list \<Rightarrow> nat \<Rightarrow> (musFinder, musGroupID list) sm" where
  "mus_loop B 0 mus i = (if i < length mus then failS Diverges else retS mus)"
| "mus_loop B (Suc fuel) mus i = (if i < length mus then let gid = mus ! i in
     bindS (mf_isUNSAT B (removeAll gid mus)) (\<lambda>(unsat, candidate).
       if unsat then mus_loop B fuel (sort candidate) (upper_bound (sort candidate) gid)
       else mus_loop B fuel mus (i + 1))
     else retS mus)"

definition mf_findMUS :: "backend \<Rightarrow> (musFinder, musGroupID list) sm" where
  "mf_findMUS B = bindS (mf_findCore B) (\<lambda>mus. mus_loop B (length mus) (sort mus) 0)"

subsection \<open>The wrapper with groups named by the caller\<close>

record musWrapper =
  mw_finder :: musFinder
  mw_externalToInternal :: "id \<rightharpoonup> musGroupID"
  mw_internalToExternal :: "musGroupID \<rightharpoonup> id"

definition mw_onFinder :: "(musFinder, 'a) sm \<Rightarrow> (musWrapper, 'a) sm" where
  "mw_onFinder p = zoomS mw_finder (\<lambda>f w. w\<lparr>mw_finder := f\<rparr>) p"

definition mw_new :: "varManager \<Rightarrow> musWrapper res" where
  "mw_new vm = bindR (mf_new vm) (\<lambda>f. Inr \<lparr>mw_finder = f, mw_externalToInternal = Map.empty, mw_internalToExternal = Map.empty\<rparr>)"

definition mw_addHardClause :: "clause \<Rightarrow> (musWrapper, unit) sm" where
  "mw_addHardClause cls = mw_onFinder (mf_addHardClause cls)"

definition mw_addHardClauses :: "clauseVec \<Rightarrow> (musWrapper, unit) sm" where
  "mw_addHardClauses vec = mw_onFinder (mf_addHardClauses vec)"

definition mw_addSoftClause :: "id \<Rightarrow> clause \<Rightarrow> (musWrapper, unit) sm" where
  "mw_addSoftClause e cls = bindS getS (\<lambda>w. thenS (if mw_externalToInternal w e = None
     then bindS (mw_onFinder mf_createGroup) (\<lambda>g.
       thenS (modifyS (\<lambda>w. w\<lparr>mw_externalToInternal := (mw_externalToInternal w)(e \<mapsto> g)\<rparr>))
       (thenS (assertS (mw_internalToExternal w g = None))
         (modifyS (\<lambda>w. w\<lparr>mw_internalToExternal := (mw_internalToExternal w)(g \<mapsto> e)\<rparr>))))
     else retS ())
     (bindS getS (\<lambda>w. bindS (liftS (case mw_externalToInternal w e of None \<Rightarrow> Inl OutOfRange | Some g \<Rightarrow> Inr g))
       (\<lambda>g. mw_onFinder (mf_addSoftClause g cls)))))"

definition mw_addSoftClauses :: "id \<Rightarrow> clauseVec \<Rightarrow> (musWrapper, unit) sm" where
  "mw_addSoftClauses e vec = iterS (mw_addSoftClause e) vec"

definition mw_mapCore :: "musWrapper \<Rightarrow> musGroupID list \<Rightarrow> id list res" where
  "mw_mapCore w internal = mapR (\<lambda>g. case mw_internalToExternal w g of None \<Rightarrow> Inl OutOfRange | Some e \<Rightarrow> Inr e) internal"

definition mw_findCore :: "backend \<Rightarrow> (musWrapper, id list) sm" where
  "mw_findCore B = bindS (mw_onFinder (mf_findCore B)) (\<lambda>core. bindS getS (\<lambda>w. liftS (mw_mapCore w core)))"

definition mw_findMUS :: "backend \<Rightarrow> (musWrapper, id list) sm" where
  "mw_findMUS B = bindS (mw_onFinder (mf_findMUS B)) (\<lambda>core. bindS getS (\<lambda>w. liftS (mw_mapCore w core)))"

subsection \<open>What the object holds\<close>

text \<open>\<open>H\<close> are the hard clauses, \<open>S g\<close> the clauses of group \<open>g\<close>.\<close>

definition mus_unsat :: "clauseVec \<Rightarrow> ('g \<Rightarrow> clauseVec) \<Rightarrow> 'g set \<Rightarrow> bool" where
  "mus_unsat H S G = (\<nexists>\<sigma>. const_ok \<sigma> \<and> cnf_sat \<sigma> H \<and> (\<forall>g\<in>G. cnf_sat \<sigma> (S g)))"

interpretation mu: deletion "mus_unsat H S" for H S
  by unfold_locales (auto simp: mus_unsat_def)

definition mf_acts :: "musFinder \<Rightarrow> id set" where
  "mf_acts m = snd ` set (mf_groupToActivation m)"

definition mf_groups :: "musFinder \<Rightarrow> musGroupID set" where
  "mf_groups m = fst ` set (mf_groupToActivation m)"

text \<open>The clauses of the user are over the variables \<open>V\<close>, none of which the manager has still to hand
  out; the activation variables are others.\<close>

definition mf_inv :: "id set \<Rightarrow> clauseVec \<Rightarrow> (musGroupID \<Rightarrow> clauseVec) \<Rightarrow> musFinder \<Rightarrow> bool" where
  "mf_inv V H S m = (vm_inv (mf_vars m) \<and> (\<forall>v\<in>V. old_var (mf_vars m) v) \<and> ID_FALSE \<in> V \<and> cnf_vars H \<subseteq> V \<and> (\<forall>g. cnf_vars (S g) \<subseteq> V)
     \<and> (\<forall>g. g \<notin> mf_groups m \<longrightarrow> S g = [])
     \<and> map fst (mf_groupToActivation m) = map of_nat [0..<length (mf_groupToActivation m)]
     \<and> length (mf_groupToActivation m) < 2 ^ 32 \<and> mf_nextGroup m = of_nat (length (mf_groupToActivation m))
     \<and> distinct (map snd (mf_groupToActivation m))
     \<and> (\<forall>a. mf_activationToGroup m a = map_of (map (\<lambda>(g, a). (a, g)) (mf_groupToActivation m)) a)
     \<and> (\<forall>a\<in>mf_acts m. a \<notin> V \<and> strip a = a \<and> \<not> is_negated a \<and> old_var (mf_vars m) a)
     \<and> (\<exists>C. solver_for (mf_solver m) GLUCOSE C \<and> (\<forall>\<sigma>. const_ok \<sigma> \<longrightarrow> (cnf_sat \<sigma> C \<longleftrightarrow> cnf_sat \<sigma> H
          \<and> (\<forall>(g, a)\<in>set (mf_groupToActivation m). \<sigma> a \<longrightarrow> cnf_sat \<sigma> (S g))))))"

lemma mf_new_wp:
  assumes "vm_inv vm" "\<forall>v\<in>V. old_var vm v" "ID_FALSE \<in> V"
  shows "wpr (mf_new vm) (\<lambda>m. mf_inv V [] (\<lambda>_. []) m \<and> mf_vars m = vm \<and> mf_groupToActivation m = [])"
  unfolding mf_new_def wpr_bindR
  by (rule wpr_mono[OF ad_new_solver]) (use assms in \<open>auto simp: mf_inv_def mf_groups_def mf_acts_def cnf_vars_def intro!: exI[of _ "[]"]\<close>)

lemma mf_addHardClause_wp:
  assumes inv: "mf_inv V H S m" and c: "cls \<noteq> []" "strip ` set cls \<subseteq> V"
  shows "wp (mf_addHardClause cls) (\<lambda>_ m'. mf_inv V (H @ [cls]) S m' \<and> mf_vars m' = mf_vars m
     \<and> mf_groupToActivation m' = mf_groupToActivation m) m"
proof -
  obtain C where C: "solver_for (mf_solver m) GLUCOSE C" "\<And>\<sigma>. const_ok \<sigma> \<Longrightarrow> cnf_sat \<sigma> C \<longleftrightarrow> cnf_sat \<sigma> H
          \<and> (\<forall>(g, a)\<in>set (mf_groupToActivation m). \<sigma> a \<longrightarrow> cnf_sat \<sigma> (S g))"
    using inv by (auto simp: mf_inv_def)
  have ex: "\<exists>D. solver_for A GLUCOSE D \<and> (\<forall>\<sigma>. const_ok \<sigma> \<longrightarrow> (cnf_sat \<sigma> D \<longleftrightarrow> cnf_sat \<sigma> (H @ [cls])
          \<and> (\<forall>(g, a)\<in>set (mf_groupToActivation m). \<sigma> a \<longrightarrow> cnf_sat \<sigma> (S g))))" if "solver_for A GLUCOSE (C @ [cls])" for A
    using that C(2) by (intro exI[of _ "C @ [cls]"]) auto
  have v: "cnf_vars (H @ [cls]) \<subseteq> V" using inv c(2) by (auto simp: mf_inv_def cnf_vars_def)
  show ?thesis
    unfolding mf_addHardClause_def mf_onSolver_def wp_zoomS
    by (rule wp_mono[OF solver_for_clause[OF C(1) c(1)]]) (use inv ex v in \<open>auto simp: mf_inv_def mf_groups_def mf_acts_def\<close>)
qed


text \<open>A fresh variable with a name.\<close>

lemma getNewID_named_lit:
  assumes "room (Suc k) vm"
  shows "wp (getNewID_named name 0) (\<lambda>y vm'. room k vm' \<and> \<not> is_negated y \<and> strip y = y \<and> \<not> old_var vm y
    \<and> old_var vm' y \<and> (\<forall>v. old_var vm v \<longrightarrow> old_var vm' v) \<and> isKnown vm' y \<and> (\<forall>v. isKnown vm v \<longrightarrow> isKnown vm' v)) vm"
proof -
  have inv: "vm_inv vm" and k: "unat (m_nextID vm) + 2 * Suc k \<le> 2 ^ 48" using assms by (auto simp: room_def)
  have le: "m_nextID vm \<le> MAX_ID" using k by (simp add: word_le_nat_alt MAX_ID_val)
  have ev: "\<not> is_negated (m_nextID vm)" using inv by (simp add: vm_inv_def)
  note step = even_next_step[OF ev le]
  show ?thesis
  proof (rule wp_mono[OF getNewID_named_wp[OF inv le]], goal_cases)
    case (3 i vm')
    then have a: "i = m_nextID vm" "m_nextID vm' = i + 2" "vm_inv vm'" by simp_all
    obtain nm where mv: "m_vars vm' = (m_vars vm)(i \<mapsto> \<lparr>v_id = i, v_external = 0, v_name = nm\<rparr>)" using 3 by blast
    have "room k vm'" using a step(4) k by (simp add: room_def)
    moreover have "\<not> old_var vm i" "old_var vm' i" "\<forall>v. old_var vm v \<longrightarrow> old_var vm' v"
      using a le step(1) by (auto simp: old_var_def intro: less_trans)
    ultimately show ?case using a ev mv by (auto simp: isKnown_def strip_id)
  qed (auto simp: aiger_sign_def)
qed

lemma mf_createGroup_wp:
  assumes inv: "mf_inv V H S m" and r: "room (Suc k) (mf_vars m)" and len: "length (mf_groupToActivation m) + 1 < 2 ^ 32"
  shows "wp mf_createGroup (\<lambda>g m'. mf_inv V H S m' \<and> room k (mf_vars m') \<and> g \<notin> mf_groups m \<and> mf_groups m' = insert g (mf_groups m)
     \<and> length (mf_groupToActivation m') = length (mf_groupToActivation m) + 1 \<and> mf_solver m' = mf_solver m) m"
proof -
  let ?n = "length (mf_groupToActivation m)" and ?g = "mf_nextGroup m"
  have g: "?g = of_nat ?n" and fs: "map fst (mf_groupToActivation m) = map of_nat [0..<?n]" using inv by (simp_all add: mf_inv_def)
  have gr: "mf_groups m = of_nat ` {0..<?n}" using arg_cong[OF fs, of set] by (simp add: mf_groups_def)
  have u: "unat (of_nat k :: musGroupID) = k" if "k \<le> ?n" for k using that len by (simp add: unat_of_nat)
  have new: "?g \<notin> mf_groups m"
  proof
    assume "?g \<in> mf_groups m"
    then obtain k where k: "k < ?n" "(of_nat ?n :: musGroupID) = of_nat k" unfolding gr g by auto
    then have "unat (of_nat ?n :: musGroupID) = unat (of_nat k :: musGroupID)" by simp
    then show False using u k(1) by simp
  qed
  have none: "map_of (mf_groupToActivation m) ?g = None" using new by (simp add: mf_groups_def map_of_eq_None_iff)
  obtain C where C: "solver_for (mf_solver m) GLUCOSE C" "\<And>\<sigma>. const_ok \<sigma> \<Longrightarrow> cnf_sat \<sigma> C \<longleftrightarrow> cnf_sat \<sigma> H
          \<and> (\<forall>(g, a)\<in>set (mf_groupToActivation m). \<sigma> a \<longrightarrow> cnf_sat \<sigma> (S g))"
    using inv by (auto simp: mf_inv_def)
  have Sg: "S ?g = []" using inv new by (auto simp: mf_inv_def)
  have step: "mf_inv V H S m' \<and> room k (mf_vars m') \<and> mf_groups m' = insert ?g (mf_groups m)"
    if a: "room k vm'" "\<not> is_negated a" "strip a = a" "\<not> old_var (mf_vars m) a" "old_var vm' a" "\<forall>v. old_var (mf_vars m) v \<longrightarrow> old_var vm' v"
      and m': "m' = m\<lparr>mf_nextGroup := mf_nextGroup m + 1, mf_vars := vm', mf_groupToActivation := mf_groupToActivation m @ [(?g, a)],
         mf_activationToGroup := (mf_activationToGroup m)(a \<mapsto> ?g), mf_negActivation := mf_negActivation m @ [negate a]\<rparr>" for a vm' m'
  proof -
    have na: "a \<notin> mf_acts m" "a \<notin> V" using inv a(4) by (auto simp: mf_inv_def)
    have "\<exists>D. solver_for (mf_solver m) GLUCOSE D \<and> (\<forall>\<sigma>. const_ok \<sigma> \<longrightarrow> (cnf_sat \<sigma> D \<longleftrightarrow> cnf_sat \<sigma> H
          \<and> (\<forall>(g, a)\<in>set (mf_groupToActivation m @ [(?g, a)]). \<sigma> a \<longrightarrow> cnf_sat \<sigma> (S g))))"
      using C Sg by (intro exI[of _ C]) auto
    moreover have "map_of (map (\<lambda>(g, a). (a, g)) (mf_groupToActivation m @ [(?g, a)])) b = ((mf_activationToGroup m)(a \<mapsto> ?g)) b" for b
    proof -
      have "map_of (map (\<lambda>(g, a). (a, g)) (mf_groupToActivation m)) a = None" using na(1) by (force simp: map_of_eq_None_iff mf_acts_def)
      then show ?thesis using inv by (simp add: mf_inv_def map_add_def split: option.splits)
    qed
    ultimately show ?thesis
      using inv a na fs g len by (auto simp: mf_inv_def m' mf_groups_def mf_acts_def intro: room_0)
  qed
  show ?thesis
    unfolding mf_createGroup_def wp_bindS wp_getS Let_def wp_thenS wp_modifyS wp_zoomS
    using none new by (simp, intro wp_mono[OF getNewID_named_lit[OF r]]) (use step in auto)
qed

lemma mf_addSoftClause_wp:
  assumes inv: "mf_inv V H S m" and g: "g \<in> mf_groups m" and c: "strip ` set cls \<subseteq> V"
  shows "wp (mf_addSoftClause g cls) (\<lambda>_ m'. mf_inv V H (S(g := S g @ [cls])) m' \<and> mf_vars m' = mf_vars m
     \<and> mf_groupToActivation m' = mf_groupToActivation m) m"
proof -
  have d: "distinct (map fst (mf_groupToActivation m))"
  proof -
    let ?n = "length (mf_groupToActivation m)"
    have "?n < 2 ^ 32" "map fst (mf_groupToActivation m) = map of_nat [0..<?n]" using inv by (simp_all add: mf_inv_def)
    then show ?thesis by (auto simp: distinct_map intro!: inj_onI dest!: arg_cong[where f = unat] simp: unat_of_nat)
  qed
  obtain a where a: "(g, a) \<in> set (mf_groupToActivation m)" using g by (auto simp: mf_groups_def)
  have la: "map_of (mf_groupToActivation m) g = Some a" using d a by simp
  have only: "b = a" if "(g, b) \<in> set (mf_groupToActivation m)" for b using d a that by (metis eq_key_imp_eq_value)
  have aa: "strip a = a" "\<not> is_negated a" using inv a by (force simp: mf_inv_def mf_acts_def)+
  obtain C where C: "solver_for (mf_solver m) GLUCOSE C" "\<And>\<sigma>. const_ok \<sigma> \<Longrightarrow> cnf_sat \<sigma> C \<longleftrightarrow> cnf_sat \<sigma> H
          \<and> (\<forall>(g, a)\<in>set (mf_groupToActivation m). \<sigma> a \<longrightarrow> cnf_sat \<sigma> (S g))"
    using inv by (auto simp: mf_inv_def)
  have "clause_sat \<sigma> (cls @ [negate a]) \<longleftrightarrow> (\<sigma> a \<longrightarrow> clause_sat \<sigma> cls)" for \<sigma>
    using aa by (auto simp: clause_sat_def lit_true_pos)
  moreover have "(\<forall>(h, b)\<in>set (mf_groupToActivation m). \<sigma> b \<longrightarrow> cnf_sat \<sigma> ((S(g := S g @ [cls])) h))
     \<longleftrightarrow> (\<forall>(h, b)\<in>set (mf_groupToActivation m). \<sigma> b \<longrightarrow> cnf_sat \<sigma> (S h)) \<and> (\<sigma> a \<longrightarrow> clause_sat \<sigma> cls)" for \<sigma>
  proof -
    have "cnf_sat \<sigma> ((S(g := S g @ [cls])) h) \<longleftrightarrow> cnf_sat \<sigma> (S h) \<and> (h = g \<longrightarrow> clause_sat \<sigma> cls)" for h by simp
    then show ?thesis using a only by blast
  qed
  ultimately have ex: "\<exists>D. solver_for A GLUCOSE D \<and> (\<forall>\<sigma>. const_ok \<sigma> \<longrightarrow> (cnf_sat \<sigma> D \<longleftrightarrow> cnf_sat \<sigma> H
          \<and> (\<forall>(h, b)\<in>set (mf_groupToActivation m). \<sigma> b \<longrightarrow> cnf_sat \<sigma> ((S(g := S g @ [cls])) h))))"
    if "solver_for A GLUCOSE (C @ [cls @ [negate a]])" for A
    using that C(2) by (intro exI[of _ "C @ [cls @ [negate a]]"]) simp
  have v: "cnf_vars (S g @ [cls]) \<subseteq> V" using inv c by (auto simp: mf_inv_def cnf_vars_def)
  show ?thesis
    unfolding mf_addSoftClause_def mf_onSolver_def wp_bindS wp_getS wp_liftS mf_activationForGroup_def la wp_zoomS
    by (simp del: fun_upd_apply, rule wp_mono[OF solver_for_clause[OF C(1)]]) (use inv ex v g in \<open>auto simp: mf_inv_def mf_groups_def mf_acts_def\<close>)
qed


definition mf_keep :: "musFinder \<Rightarrow> musFinder \<Rightarrow> bool" where
  "mf_keep m m' = (mf_vars m' = mf_vars m \<and> mf_groupToActivation m' = mf_groupToActivation m \<and> mf_activationToGroup m' = mf_activationToGroup m)"

lemma mf_act:
  assumes "mf_inv V H S m"
  defines "act \<equiv> \<lambda>g. the (map_of (mf_groupToActivation m) g)"
  shows "g \<in> mf_groups m \<Longrightarrow> mf_activationForGroup m g = Inr (act g) \<and> mf_groupForActivation m (act g) = Inr g \<and> (g, act g) \<in> set (mf_groupToActivation m)"
    and "(g, a) \<in> set (mf_groupToActivation m) \<Longrightarrow> a = act g"
proof -
  let ?L = "mf_groupToActivation m"
  have "length ?L < 2 ^ 32" "map fst ?L = map of_nat [0..<length ?L]" using assms by (simp_all add: mf_inv_def)
  then have d: "distinct (map fst ?L)" by (auto simp: distinct_map intro!: inj_onI dest!: arg_cong[where f = unat] simp: unat_of_nat)
  have "map fst (map (\<lambda>(g, a). (a, g)) xs) = map snd xs" for xs :: "(musGroupID \<times> id) list" by (induction xs) auto
  from this[of ?L] have d2: "distinct (map fst (map (\<lambda>(g, a). (a, g)) ?L))" using assms unfolding mf_inv_def by (simp only:)
  show 1: "a = act g" if "(g, a) \<in> set ?L" for g a using d that by (simp add: act_def)
  show "mf_activationForGroup m g = Inr (act g) \<and> mf_groupForActivation m (act g) = Inr g \<and> (g, act g) \<in> set ?L" if "g \<in> mf_groups m"
  proof -
    from that obtain a where a: "(g, a) \<in> set ?L" by (auto simp: mf_groups_def)
    have "(a, g) \<in> set (map (\<lambda>(g, a). (a, g)) ?L)" using a by force
    then have "map_of (map (\<lambda>(g, a). (a, g)) ?L) a = Some g" using d2 by (rule map_of_is_SomeI[rotated])
    then have "mf_activationToGroup m a = Some g" using assms by (simp add: mf_inv_def)
    then show ?thesis using a 1[OF a] d by (simp add: mf_activationForGroup_def mf_groupForActivation_def)
  qed
qed

lemma mf_query:
  assumes inv: "mf_inv V H S m" and G: "set G \<subseteq> mf_groups m"
    and C: "\<And>\<sigma>. const_ok \<sigma> \<Longrightarrow> cnf_sat \<sigma> C \<longleftrightarrow> cnf_sat \<sigma> H \<and> (\<forall>(g, a)\<in>set (mf_groupToActivation m). \<sigma> a \<longrightarrow> cnf_sat \<sigma> (S g))"
  shows "(\<exists>\<sigma>. const_ok \<sigma> \<and> cnf_sat \<sigma> C \<and> cube_sat \<sigma> (map (\<lambda>g. the (map_of (mf_groupToActivation m) g)) G)) \<longleftrightarrow> \<not> mus_unsat H S (set G)"
proof -
  let ?act = "\<lambda>g. the (map_of (mf_groupToActivation m) g)"
  note act = mf_act[OF inv]
  have A: "a \<notin> V \<and> strip a = a \<and> \<not> is_negated a" if "a \<in> mf_acts m" for a using inv that by (auto simp: mf_inv_def)
  have aG: "?act g \<in> mf_acts m" if "g \<in> mf_groups m" for g using act(1)[OF that] by (force simp: mf_acts_def)
  have cube: "cube_sat \<sigma> (map ?act G) \<longleftrightarrow> (\<forall>g\<in>set G. \<sigma> (?act g))" for \<sigma>
  proof -
    have "lit_true \<sigma> (?act g) = \<sigma> (?act g)" if "g \<in> set G" for g by (rule lit_true_pos) (use A aG G that in blast)
    then show ?thesis by (simp add: cube_sat_def)
  qed
  show ?thesis
  proof
    assume "\<exists>\<sigma>. const_ok \<sigma> \<and> cnf_sat \<sigma> C \<and> cube_sat \<sigma> (map ?act G)"
    then obtain \<sigma> where s: "const_ok \<sigma>" "cnf_sat \<sigma> C" "cube_sat \<sigma> (map ?act G)" by blast
    have "cnf_sat \<sigma> (S g)" if "g \<in> set G" for g
    proof -
      have "(g, ?act g) \<in> set (mf_groupToActivation m)" using act(1) G that by blast
      then show ?thesis using s C[OF s(1)] cube that by auto
    qed
    then show "\<not> mus_unsat H S (set G)" using s C[OF s(1)] unfolding mus_unsat_def by blast
  next
    assume "\<not> mus_unsat H S (set G)"
    then obtain \<sigma> where s: "const_ok \<sigma>" "cnf_sat \<sigma> H" "\<And>g. g \<in> set G \<Longrightarrow> cnf_sat \<sigma> (S g)" by (auto simp: mus_unsat_def)
    let ?t = "\<lambda>v. if v \<in> mf_acts m then v \<in> ?act ` set G else \<sigma> v"
    have agree: "?t v = \<sigma> v" if "v \<in> V" for v using A that by auto
    have "ID_FALSE \<in> V" using inv by (simp add: mf_inv_def)
    then have c: "const_ok ?t" using s(1) agree unfolding const_ok_def by simp
    have sat: "cnf_sat ?t D = cnf_sat \<sigma> D" if "cnf_vars D \<subseteq> V" for D by (rule cnf_sat_agree) (use agree that in blast)
    have "cnf_sat ?t (S h)" if "(h, b) \<in> set (mf_groupToActivation m)" "?t b" for h b
    proof -
      have hb: "b = ?act h" "b \<in> mf_acts m" using act(2)[OF that(1)] that(1) by (force simp: mf_acts_def)+
      from that(2) hb(2) obtain g where g: "g \<in> set G" "b = ?act g" by auto
      have hG: "h \<in> mf_groups m" unfolding mf_groups_def using that(1) by (rule image_eqI[rotated]) simp
      have "mf_groupForActivation m (?act g) = Inr g" "mf_groupForActivation m (?act h) = Inr h" using act(1) g(1) G hG by blast+
      then have "g = h" using g(2) hb(1) by simp
      then show ?thesis using s(3)[OF g(1)] sat[of "S h"] inv by (simp add: mf_inv_def)
    qed
    then have grp: "\<forall>(h, b)\<in>set (mf_groupToActivation m). ?t b \<longrightarrow> cnf_sat ?t (S h)" by blast
    have "cnf_vars H \<subseteq> V" using inv by (simp add: mf_inv_def)
    then have "cnf_sat ?t H" using s(2) sat[of H] by blast
    then have "cnf_sat ?t C" using C[OF c] grp by blast
    moreover have "cube_sat ?t (map ?act G)" unfolding cube using aG G by auto
    ultimately show "\<exists>\<sigma>. const_ok \<sigma> \<and> cnf_sat \<sigma> C \<and> cube_sat \<sigma> (map ?act G)" using c by blast
  qed
qed

context sat_backend
begin

lemma mf_isUNSAT_wp:
  assumes inv: "mf_inv V H S m" and G: "set core \<subseteq> mf_groups m"
  shows "wp (mf_isUNSAT B core) (\<lambda>(r, K) m'. mf_inv V H S m' \<and> mf_keep m m' \<and> (r \<longleftrightarrow> mus_unsat H S (set core))
     \<and> (r \<longrightarrow> set K \<subseteq> set core \<and> distinct K \<and> mus_unsat H S (set K)) \<and> (\<not> r \<longrightarrow> K = core)) m"
proof -
  let ?act = "\<lambda>g. the (map_of (mf_groupToActivation m) g)"
  note act = mf_act[OF inv]
  obtain C where C: "solver_for (mf_solver m) GLUCOSE C" "\<And>\<sigma>. const_ok \<sigma> \<Longrightarrow> cnf_sat \<sigma> C \<longleftrightarrow> cnf_sat \<sigma> H
          \<and> (\<forall>(g, a)\<in>set (mf_groupToActivation m). \<sigma> a \<longrightarrow> cnf_sat \<sigma> (S g))"
    using inv by (auto simp: mf_inv_def)
  have acts: "mapR (mf_activationForGroup m) core = Inr (map ?act core)" by (rule mapR_total) (use act(1) G in blast)
  have keep: "mf_inv V H S (m\<lparr>mf_solver := A\<rparr>) \<and> mf_keep m (m\<lparr>mf_solver := A\<rparr>)" if "solver_for A GLUCOSE C" for A
  proof -
    have "\<exists>C. solver_for A GLUCOSE C \<and> (\<forall>\<sigma>. const_ok \<sigma> \<longrightarrow> (cnf_sat \<sigma> C \<longleftrightarrow> cnf_sat \<sigma> H
          \<and> (\<forall>(g, a)\<in>set (mf_groupToActivation m). \<sigma> a \<longrightarrow> cnf_sat \<sigma> (S g))))" using that C(2) by blast
    then show ?thesis using inv by (auto simp: mf_inv_def mf_groups_def mf_acts_def mf_keep_def)
  qed
  have grps: "\<exists>K. mapR (mf_groupForActivation m) crits = Inr K \<and> crits = map ?act K \<and> set K \<subseteq> set core"
    if "set crits \<subseteq> set (map ?act core)" for crits
    using that
  proof (induction crits)
    case (Cons a crits)
    then obtain K g where "mapR (mf_groupForActivation m) crits = Inr K" "crits = map ?act K" "set K \<subseteq> set core" "g \<in> set core" "a = ?act g" by auto
    moreover from this have "mf_groupForActivation m a = Inr g" using act(1) G by blast
    ultimately show ?case by (intro exI[of _ "g # K"]) simp
  qed simp
  show ?thesis
    unfolding mf_isUNSAT_def wp_bindS wp_getS wp_liftS acts wpr_Inr mf_onSolver_def wp_zoomS
  proof (rule wp_mono[OF solver_for_solve[OF C(1)]], goal_cases)
    case (1 p A)
    obtain sat crits where p: "p = (sat, crits)" by (cases p)
    have A: "solver_for A GLUCOSE C" using 1 by (simp add: p)
    show ?case
    proof (cases sat)
      case True
      then have "\<not> mus_unsat H S (set core)" using 1 mf_query[OF inv G C(2)] by (auto simp: p)
      then show ?thesis using True keep[OF A] by (simp add: p)
    next
      case False
      then have cr: "set crits \<subseteq> set (map ?act core)" "distinct crits" "\<And>\<sigma>. const_ok \<sigma> \<Longrightarrow> cnf_sat \<sigma> C \<Longrightarrow> \<not> cube_sat \<sigma> crits"
        using 1 by (auto simp: p)
      obtain K where K: "mapR (mf_groupForActivation m) crits = Inr K" "crits = map ?act K" "set K \<subseteq> set core" using grps[OF cr(1)] by blast
      have KG: "set K \<subseteq> mf_groups m" using K(3) G by blast
      have "mus_unsat H S (set K)" using mf_query[OF inv KG C(2)] cr(3) K(2) by blast
      moreover from this have "mus_unsat H S (set core)" using mu.mono K(3) by blast
      moreover have "distinct K" using cr(2) K(2) by (simp add: distinct_map)
      ultimately show ?thesis using False keep[OF A] K(1,3) by (simp add: p)
    qed
  qed
qed

lemma mf_findCore_wp:
  assumes inv: "mf_inv V H S m" and un: "mus_unsat H S (mf_groups m)"
  shows "wp (mf_findCore B) (\<lambda>K m'. mf_inv V H S m' \<and> mf_keep m m' \<and> set K \<subseteq> mf_groups m \<and> distinct K \<and> mus_unsat H S (set K)) m"
proof -
  have G: "set (map fst (mf_groupToActivation m)) = mf_groups m" by (simp add: mf_groups_def)
  have G': "set (map fst (mf_groupToActivation m)) \<subseteq> mf_groups m" using G by simp
  show ?thesis
    unfolding mf_findCore_def wp_bindS wp_getS
    by (rule wp_mono[OF mf_isUNSAT_wp[OF inv G']]) (use un G in auto)
qed

text \<open>The groups before the iterator are all needed.\<close>

lemma mus_loop_wp:
  "mf_inv V H S m \<Longrightarrow> set mus \<subseteq> mf_groups m \<Longrightarrow> sorted mus \<Longrightarrow> distinct mus \<Longrightarrow> mus_unsat H S (set mus) \<Longrightarrow> length mus - i \<le> fuel
   \<Longrightarrow> (\<forall>j<i. j < length mus \<longrightarrow> \<not> mus_unsat H S (set mus - {mus ! j}))
   \<Longrightarrow> wp (mus_loop B fuel mus i) (\<lambda>K m'. mf_inv V H S m' \<and> mf_keep m m' \<and> set K \<subseteq> set mus \<and> distinct K \<and> min_set (mus_unsat H S) (set K)) m"
proof (induction fuel arbitrary: mus i m)
  case 0
  then have "\<And>x. x \<in> set mus \<Longrightarrow> \<not> mus_unsat H S (set mus - {x})" by (auto simp: in_set_conv_nth)
  then show ?case using 0 mu.needed_min[of H S "set mus"] by (auto simp: mf_keep_def)
next
  case (Suc fuel)
  note inv = Suc.prems(1) and mg = Suc.prems(2) and so = Suc.prems(3) and di = Suc.prems(4) and un = Suc.prems(5)
    and fu = Suc.prems(6) and nd = Suc.prems(7)
  show ?case
  proof (cases "i < length mus")
    case False
    then have "\<And>x. x \<in> set mus \<Longrightarrow> \<not> mus_unsat H S (set mus - {x})" using nd by (auto simp: in_set_conv_nth)
    then show ?thesis using False Suc.prems mu.needed_min[of H S "set mus"] by (auto simp: mf_keep_def)
  next
    case True
    let ?x = "mus ! i"
    have rm: "set (removeAll ?x mus) = set mus - {?x}" by simp
    have sub: "set (removeAll ?x mus) \<subseteq> mf_groups m" using mg by auto
    have "wp (mf_isUNSAT B (removeAll ?x mus)) (\<lambda>(unsat, candidate). wp (if unsat then mus_loop B fuel (sort candidate) (upper_bound (sort candidate) ?x)
       else mus_loop B fuel mus (i + 1)) (\<lambda>K m'. mf_inv V H S m' \<and> mf_keep m m' \<and> set K \<subseteq> set mus \<and> distinct K \<and> min_set (mus_unsat H S) (set K))) m"
    proof (rule wp_mono[OF mf_isUNSAT_wp[OF inv sub]], goal_cases)
      case (1 p m1)
      obtain r c where p: "p = (r, c)" by (cases p)
      have m1: "mf_inv V H S m1" "mf_keep m m1" "r \<longleftrightarrow> mus_unsat H S (set mus - {?x})"
        "r \<Longrightarrow> set c \<subseteq> set mus - {?x} \<and> distinct c \<and> mus_unsat H S (set c)" using 1 by (auto simp: p)
      have grp: "mf_groups m1 = mf_groups m" using m1(2) by (simp add: mf_keep_def mf_groups_def)
      have kt: "mf_keep m m2" if "mf_keep m1 m2" for m2 using that m1(2) by (simp add: mf_keep_def)
      show ?case
      proof (cases r)
        case True
        note c = m1(4)[OF True]
        let ?c = "sort c" and ?u = "upper_bound (sort c) ?x"
        have before: "\<not> mus_unsat H S (set ?c - {?c ! j})" if j: "j < ?u" "j < length ?c" for j
        proof -
          have ub: "?c ! j \<le> ?x" using j(1) takeWhile_eq_all_conv nth_mem[of j "takeWhile (\<lambda>y. y \<le> ?x) ?c"] set_takeWhileD[of "?c ! j" "\<lambda>y. y \<le> ?x" ?c]
            by (auto simp: upper_bound_def takeWhile_nth)
          have mem: "?c ! j \<in> set c" using nth_mem[OF j(2)] by simp
          then have "?c ! j \<in> set mus" "?c ! j \<noteq> ?x" using c by auto
          then obtain l where l: "l < length mus" "mus ! l = ?c ! j" by (auto simp: in_set_conv_nth)
          have "l < i"
          proof (rule ccontr)
            assume "\<not> l < i"
            then have "?x \<le> mus ! l" using sorted_nth_mono[OF so, of i l] l(1) by simp
            then show False using ub l(2) \<open>?c ! j \<noteq> ?x\<close> by simp
          qed
          then have "\<not> mus_unsat H S (set mus - {?c ! j})" using nd l by auto
          moreover have "set ?c \<subseteq> set mus" using c by auto
          ultimately show ?thesis using mu.needed_shrink[of H S "set mus" "?c ! j" "set ?c"] by blast
        qed
        have fuel: "length ?c - ?u \<le> fuel"
        proof -
          have "length ?c - ?u = card {y \<in> set c. ?x < y}" using upper_bound_rest(1)[of ?c ?x] c by simp
          also have "\<dots> \<le> card {y \<in> set mus. ?x < y}" using c by (intro card_mono) auto
          also have "\<dots> \<le> length mus - Suc i" by (rule sorted_above[OF so \<open>i < length mus\<close>])
          finally show ?thesis using fu by simp
        qed
        have "wp (mus_loop B fuel ?c ?u) (\<lambda>K m'. mf_inv V H S m' \<and> mf_keep m1 m' \<and> set K \<subseteq> set ?c \<and> distinct K \<and> min_set (mus_unsat H S) (set K)) m1"
          by (rule Suc.IH[OF m1(1)]) (use c mg grp before fuel in auto)
        then have "wp (mus_loop B fuel ?c ?u) (\<lambda>K m'. mf_inv V H S m' \<and> mf_keep m m' \<and> set K \<subseteq> set mus \<and> distinct K \<and> min_set (mus_unsat H S) (set K)) m1"
          by (rule wp_mono) (use c kt in auto)
        then show ?thesis using True by (simp add: p)
      next
        case False
        have "wp (mus_loop B fuel mus (i + 1)) (\<lambda>K m'. mf_inv V H S m' \<and> mf_keep m1 m' \<and> set K \<subseteq> set mus \<and> distinct K \<and> min_set (mus_unsat H S) (set K)) m1"
          by (rule Suc.IH[OF m1(1)]) (use mg grp so di un fu nd m1(3) False in \<open>auto simp: less_Suc_eq\<close>)
        then have "wp (mus_loop B fuel mus (i + 1)) (\<lambda>K m'. mf_inv V H S m' \<and> mf_keep m m' \<and> set K \<subseteq> set mus \<and> distinct K \<and> min_set (mus_unsat H S) (set K)) m1"
          by (rule wp_mono) (use kt in auto)
        then show ?thesis using False by (simp add: p)
      qed
    qed
    then show ?thesis using True by (simp add: Let_def split_def)
  qed
qed

lemma mf_findMUS_wp:
  assumes inv: "mf_inv V H S m" and un: "mus_unsat H S (mf_groups m)"
  shows "wp (mf_findMUS B) (\<lambda>K m'. mf_inv V H S m' \<and> mf_keep m m' \<and> set K \<subseteq> mf_groups m \<and> distinct K \<and> min_set (mus_unsat H S) (set K)) m"
  unfolding mf_findMUS_def wp_bindS
proof (rule wp_mono[OF mf_findCore_wp[OF inv un]], goal_cases)
  case (1 K m1)
  have "wp (mus_loop B (length K) (sort K) 0) (\<lambda>K' m'. mf_inv V H S m' \<and> mf_keep m1 m' \<and> set K' \<subseteq> set (sort K) \<and> distinct K' \<and> min_set (mus_unsat H S) (set K')) m1"
    by (rule mus_loop_wp) (use 1 in \<open>auto simp: mf_keep_def mf_groups_def\<close>)
  then show ?case by (rule wp_mono) (use 1 in \<open>auto simp: mf_keep_def\<close>)
qed

end


subsection \<open>Groups named by the caller\<close>

definition mw_inv :: "id set \<Rightarrow> clauseVec \<Rightarrow> (id \<Rightarrow> clauseVec) \<Rightarrow> musWrapper \<Rightarrow> bool" where
  "mw_inv V H S w = ((\<forall>e g. mw_externalToInternal w e = Some g \<longleftrightarrow> mw_internalToExternal w g = Some e)
     \<and> dom (mw_internalToExternal w) = mf_groups (mw_finder w)
     \<and> mf_inv V H (\<lambda>g. case mw_internalToExternal w g of None \<Rightarrow> [] | Some e \<Rightarrow> S e) (mw_finder w)
     \<and> (\<forall>e. mw_externalToInternal w e = None \<longrightarrow> S e = []))"

definition mw_groups :: "musWrapper \<Rightarrow> id set" where
  "mw_groups w = dom (mw_externalToInternal w)"

lemma wp_mw_onFinder [simp]: "wp (mw_onFinder p) Q = (\<lambda>w. wp p (\<lambda>a f. Q a (w\<lparr>mw_finder := f\<rparr>)) (mw_finder w))"
  by (simp add: mw_onFinder_def)

lemma mw_new_wp:
  assumes "vm_inv vm" "\<forall>v\<in>V. old_var vm v" "ID_FALSE \<in> V"
  shows "wpr (mw_new vm) (\<lambda>w. mw_inv V [] (\<lambda>_. []) w \<and> mf_vars (mw_finder w) = vm \<and> mw_groups w = {}
     \<and> mf_groupToActivation (mw_finder w) = [])"
  unfolding mw_new_def wpr_bindR
  by (rule wpr_mono[OF mf_new_wp[OF assms]]) (auto simp: mw_inv_def mw_groups_def mf_groups_def)

lemma mw_addHardClause_wp:
  assumes inv: "mw_inv V H S w" and c: "cls \<noteq> []" "strip ` set cls \<subseteq> V"
  shows "wp (mw_addHardClause cls) (\<lambda>_ w'. mw_inv V (H @ [cls]) S w' \<and> mf_vars (mw_finder w') = mf_vars (mw_finder w) \<and> mw_groups w' = mw_groups w
     \<and> mf_groupToActivation (mw_finder w') = mf_groupToActivation (mw_finder w)) w"
proof -
  have f: "mf_inv V H (\<lambda>g. case mw_internalToExternal w g of None \<Rightarrow> [] | Some e \<Rightarrow> S e) (mw_finder w)" using inv by (simp add: mw_inv_def)
  show ?thesis
    unfolding mw_addHardClause_def wp_mw_onFinder
    by (rule wp_mono[OF mf_addHardClause_wp[OF f c]]) (use inv in \<open>simp add: mw_inv_def mw_groups_def mf_groups_def\<close>)
qed

lemma mw_soft_old:
  assumes inv: "mw_inv V H S w" and g: "mw_externalToInternal w e = Some g" and c: "strip ` set cls \<subseteq> V"
  shows "wp (mw_onFinder (mf_addSoftClause g cls)) (\<lambda>_ w'. mw_inv V H (S(e := S e @ [cls])) w' \<and> mf_vars (mw_finder w') = mf_vars (mw_finder w)
     \<and> mw_groups w' = mw_groups w \<and> mf_groupToActivation (mw_finder w') = mf_groupToActivation (mw_finder w)) w"
proof -
  let ?T = "\<lambda>S g. case mw_internalToExternal w g of None \<Rightarrow> [] | Some e \<Rightarrow> S e"
  have f: "mf_inv V H (?T S) (mw_finder w)" and bij: "\<And>e g. mw_externalToInternal w e = Some g \<longleftrightarrow> mw_internalToExternal w g = Some e"
    using inv by (simp_all add: mw_inv_def)
  have ge: "mw_internalToExternal w g = Some e" using bij g by blast
  have gm: "g \<in> mf_groups (mw_finder w)" using inv ge by (auto simp: mw_inv_def)
  have T: "(?T S)(g := ?T S g @ [cls]) = ?T (S(e := S e @ [cls]))"
  proof
    fix h
    show "((?T S)(g := ?T S g @ [cls])) h = ?T (S(e := S e @ [cls])) h"
    proof (cases "mw_internalToExternal w h")
      case None
      then show ?thesis using ge by auto
    next
      case (Some d)
      then have "d = e \<longleftrightarrow> h = g" using bij g by (metis option.inject)
      then show ?thesis using Some ge by auto
    qed
  qed
  show ?thesis
    unfolding wp_mw_onFinder
    by (rule wp_mono[OF mf_addSoftClause_wp[OF f gm c, unfolded T]]) (use inv g in \<open>auto simp: mw_inv_def mw_groups_def mf_groups_def\<close>)
qed

lemma mw_addSoftClause_wp:
  assumes inv: "mw_inv V H S w" and c: "strip ` set cls \<subseteq> V" and r: "room (Suc k) (mf_vars (mw_finder w))"
    and len: "length (mf_groupToActivation (mw_finder w)) + 1 < 2 ^ 32"
  shows "wp (mw_addSoftClause e cls) (\<lambda>_ w'. mw_inv V H (S(e := S e @ [cls])) w' \<and> room k (mf_vars (mw_finder w'))
     \<and> mw_groups w' = insert e (mw_groups w)
     \<and> length (mf_groupToActivation (mw_finder w')) \<le> length (mf_groupToActivation (mw_finder w)) + 1) w"
proof -
  let ?Q = "\<lambda>_ w'. mw_inv V H (S(e := S e @ [cls])) w' \<and> room k (mf_vars (mw_finder w')) \<and> mw_groups w' = insert e (mw_groups w)
     \<and> length (mf_groupToActivation (mw_finder w')) \<le> length (mf_groupToActivation (mw_finder w)) + 1"
  let ?tail = "bindS getS (\<lambda>w. bindS (liftS (case mw_externalToInternal w e of None \<Rightarrow> Inl OutOfRange | Some g \<Rightarrow> Inr g))
       (\<lambda>g. mw_onFinder (mf_addSoftClause g cls)))"
  have tail: "wp ?tail ?Q w1" if w1: "mw_inv V H S w1" "room k (mf_vars (mw_finder w1))" "mw_externalToInternal w1 e = Some g"
      "mw_groups w1 = insert e (mw_groups w)" "length (mf_groupToActivation (mw_finder w1)) \<le> length (mf_groupToActivation (mw_finder w)) + 1" for w1 g
    using w1(3) by simp (rule wp_mono[OF mw_soft_old[OF w1(1,3) c, unfolded wp_mw_onFinder]], use w1 in auto)
  show ?thesis
  proof (cases "mw_externalToInternal w e")
    case (Some g)
    have "wp ?tail ?Q w" by (rule tail[OF inv _ Some]) (use r room_mono[OF r] Some in \<open>auto simp: mw_groups_def\<close>)
    then show ?thesis using Some by (simp add: mw_addSoftClause_def)
  next
    case None
    let ?T = "\<lambda>g. case mw_internalToExternal w g of None \<Rightarrow> [] | Some e \<Rightarrow> S e"
    have f: "mf_inv V H ?T (mw_finder w)" and bij: "\<And>e g. mw_externalToInternal w e = Some g \<longleftrightarrow> mw_internalToExternal w g = Some e"
      and dm: "dom (mw_internalToExternal w) = mf_groups (mw_finder w)" and Se: "S e = []"
      using inv None by (simp_all add: mw_inv_def)
    let ?w = "\<lambda>f g. w\<lparr>mw_finder := f, mw_externalToInternal := (mw_externalToInternal w)(e \<mapsto> g),
        mw_internalToExternal := (mw_internalToExternal w)(g \<mapsto> e)\<rparr>"
    have new: "mw_inv V H S (?w f' g)"
      if f': "mf_inv V H ?T f'" "g \<notin> mf_groups (mw_finder w)" "mf_groups f' = insert g (mf_groups (mw_finder w))" for f' g
    proof -
      have ng: "mw_internalToExternal w g = None" using f'(2) dm by auto
      then have "(\<lambda>h. case ((mw_internalToExternal w)(g \<mapsto> e)) h of None \<Rightarrow> [] | Some e \<Rightarrow> S e) = ?T"
        using Se by (auto simp: fun_eq_iff)
      moreover have "((mw_externalToInternal w)(e \<mapsto> g)) d = Some h \<longleftrightarrow> ((mw_internalToExternal w)(g \<mapsto> e)) h = Some d" for d h
        using bij ng None by auto (metis option.distinct(1))+
      ultimately show ?thesis using inv f' dm None by (simp add: mw_inv_def)
    qed
    have "wp (mw_onFinder mf_createGroup) (\<lambda>g. wp (thenS (modifyS (\<lambda>w. w\<lparr>mw_externalToInternal := (mw_externalToInternal w)(e \<mapsto> g)\<rparr>))
       (thenS (assertS (mw_internalToExternal w g = None))
         (modifyS (\<lambda>w. w\<lparr>mw_internalToExternal := (mw_internalToExternal w)(g \<mapsto> e)\<rparr>)))) (\<lambda>_. wp ?tail ?Q)) w"
      unfolding wp_mw_onFinder
    proof (rule wp_mono[OF mf_createGroup_wp[OF f r len]], goal_cases)
      case (1 g f')
      have ng: "mw_internalToExternal w g = None" using 1 dm by auto
      have "wp ?tail ?Q (?w f' g)"
        by (rule tail[OF new]) (use 1 None in \<open>auto simp: mw_groups_def\<close>)
      then show ?case using ng by (simp del: wp_bindS)
    qed
    then show ?thesis using None
      by (simp add: mw_addSoftClause_def)
  qed
qed


text \<open>A set of internal groups and the external groups it stands for.\<close>

lemma mw_sets:
  assumes inv: "mw_inv V H S w" and K: "set K \<subseteq> mf_groups (mw_finder w)"
  defines "T \<equiv> \<lambda>g. case mw_internalToExternal w g of None \<Rightarrow> [] | Some e \<Rightarrow> S e" and "E \<equiv> \<lambda>g. the (mw_internalToExternal w g)"
  shows "mw_mapCore w K = Inr (map E K)" "inj_on E (mf_groups (mw_finder w))" "E ` mf_groups (mw_finder w) = mw_groups w"
    and "G \<subseteq> mf_groups (mw_finder w) \<Longrightarrow> mus_unsat H S (E ` G) = mus_unsat H T G"
proof -
  have bij: "\<And>e g. mw_externalToInternal w e = Some g \<longleftrightarrow> mw_internalToExternal w g = Some e"
    and dm: "dom (mw_internalToExternal w) = mf_groups (mw_finder w)" using inv by (simp_all add: mw_inv_def)
  have E: "mw_internalToExternal w g = Some (E g)" if "g \<in> mf_groups (mw_finder w)" for g using that dm by (metis E_def domD option.sel)
  show "mw_mapCore w K = Inr (map E K)" unfolding mw_mapCore_def by (rule mapR_total) (use E K in auto)
  show "inj_on E (mf_groups (mw_finder w))"
  proof (rule inj_onI)
    fix g h assume "g \<in> mf_groups (mw_finder w)" "h \<in> mf_groups (mw_finder w)" "E g = E h"
    then show "g = h" using E bij by (metis option.inject)
  qed
  show "E ` mf_groups (mw_finder w) = mw_groups w"
  proof
    show "E ` mf_groups (mw_finder w) \<subseteq> mw_groups w" using E bij by (auto simp: mw_groups_def)
    show "mw_groups w \<subseteq> E ` mf_groups (mw_finder w)"
    proof
      fix e assume "e \<in> mw_groups w"
      then obtain g where g: "mw_externalToInternal w e = Some g" by (auto simp: mw_groups_def)
      then have "g \<in> mf_groups (mw_finder w)" "E g = e" using bij dm by (auto simp: E_def)
      then show "e \<in> E ` mf_groups (mw_finder w)" by blast
    qed
  qed
  show "mus_unsat H S (E ` G) = mus_unsat H T G" if "G \<subseteq> mf_groups (mw_finder w)"
  proof -
    have "T g = S (E g)" if "g \<in> G" for g using E that \<open>G \<subseteq> _\<close> by (force simp: T_def)
    then show ?thesis by (simp add: mus_unsat_def)
  qed
qed

context sat_backend
begin

lemma mw_findMUS_wp:
  assumes inv: "mw_inv V H S w" and un: "mus_unsat H S (mw_groups w)"
  shows "wp (mw_findMUS B) (\<lambda>K w'. mw_inv V H S w' \<and> mw_groups w' = mw_groups w \<and> set K \<subseteq> mw_groups w \<and> distinct K
     \<and> min_set (mus_unsat H S) (set K)) w"
proof -
  let ?T = "\<lambda>g. case mw_internalToExternal w g of None \<Rightarrow> [] | Some e \<Rightarrow> S e" and ?E = "\<lambda>g. the (mw_internalToExternal w g)"
  let ?G = "mf_groups (mw_finder w)"
  have f: "mf_inv V H ?T (mw_finder w)" using inv by (simp add: mw_inv_def)
  have e: "set [] \<subseteq> ?G" by simp
  note st = mw_sets[OF inv e]
  have u: "mus_unsat H ?T ?G" using un st(4)[of ?G] unfolding st(3) by simp
  show ?thesis
    unfolding mw_findMUS_def wp_bindS wp_mw_onFinder wp_getS wp_liftS
  proof (rule wp_mono[OF mf_findMUS_wp[OF f u]], goal_cases)
    case (1 K f')
    let ?w = "w\<lparr>mw_finder := f'\<rparr>"
    have grp: "mf_groups f' = ?G" using 1 by (simp add: mf_keep_def mf_groups_def)
    have inv': "mw_inv V H S ?w" using inv 1 grp by (simp add: mw_inv_def)
    have K: "set K \<subseteq> ?G" "distinct K" "min_set (mus_unsat H ?T) (set K)" using 1 by simp_all
    have "mw_mapCore ?w K = mw_mapCore w K" by (simp add: mw_mapCore_def)
    then have mc: "mw_mapCore ?w K = Inr (map ?E K)" using mw_sets(1)[OF inv K(1)] by simp
    have inj: "inj_on ?E (set K)" using st(2) K(1) by (rule inj_on_subset)
    have "min_set (mus_unsat H S) (?E ` set K)"
      unfolding min_set_def
    proof (intro conjI allI impI)
      show "mus_unsat H S (?E ` set K)" using st(4)[OF K(1)] K(3) by (simp add: min_set_def)
      fix N assume N: "N \<subset> ?E ` set K"
      let ?N = "{g \<in> set K. ?E g \<in> N}"
      have img: "?E ` ?N = N" using N by auto
      have "?N \<subset> set K" using N img by blast
      then have "\<not> mus_unsat H ?T ?N" using K(3) by (simp add: min_set_def)
      moreover have "mus_unsat H S (?E ` ?N) = mus_unsat H ?T ?N" by (rule st(4)) (use K(1) in blast)
      ultimately show "\<not> mus_unsat H S N" unfolding img by simp
    qed
    moreover have "?E ` set K \<subseteq> mw_groups w" using st(3) K(1) by blast
    ultimately show ?case using mc inv' K(2) inj by (simp add: distinct_map mw_groups_def)
  qed
qed

end

subsection \<open>A new wrapper that is filled and asked\<close>

definition mus_run :: "backend \<Rightarrow> varManager \<Rightarrow> clauseVec \<Rightarrow> (id \<times> clause) list \<Rightarrow> id list res" where
  "mus_run B vm H E = bindR (mw_new vm) (evalS (thenS (mw_addHardClauses H)
     (thenS (iterS (\<lambda>(e, cls). mw_addSoftClause e cls) E) (mw_findMUS B))))"

definition soft_of :: "(id \<times> clause) list \<Rightarrow> id \<Rightarrow> clauseVec" where
  "soft_of E e = map snd (filter (\<lambda>p. fst p = e) E)"

lemma mw_addHardClauses_wp:
  assumes "mw_inv V H0 S w" "[] \<notin> set H" "cnf_vars H \<subseteq> V"
  shows "wp (mw_addHardClauses H) (\<lambda>_ w'. mw_inv V (H0 @ H) S w' \<and> mf_vars (mw_finder w') = mf_vars (mw_finder w) \<and> mw_groups w' = mw_groups w
     \<and> mf_groupToActivation (mw_finder w') = mf_groupToActivation (mw_finder w)) w"
proof -
  have eq: "wp (mw_addHardClauses H) Q w = wp (iterS mw_addHardClause H) Q w" for H Q w
  proof -
    have "wp (iterS mf_addHardClause H) (\<lambda>a f. Q a (w\<lparr>mw_finder := f\<rparr>)) = (\<lambda>f. wp (iterS mw_addHardClause H) Q (w\<lparr>mw_finder := f\<rparr>))"
    proof (induction H)
      case (Cons a H)
      then show ?case by (intro ext) (simp add: mw_addHardClause_def)
    qed (simp add: fun_eq_iff)
    from fun_cong[OF this, of "mw_finder w"] show ?thesis by (simp add: mw_addHardClauses_def mf_addHardClauses_def)
  qed
  show ?thesis
    unfolding eq using assms
  proof (induction H arbitrary: H0 w)
    case (Cons c H)
    have c: "c \<noteq> []" "strip ` set c \<subseteq> V" "[] \<notin> set H" "cnf_vars H \<subseteq> V" using Cons.prems by (auto simp: cnf_vars_def)
    show ?case
      unfolding iterS.simps wp_bindS
      by (rule wp_mono[OF mw_addHardClause_wp[OF Cons.prems(1) c(1,2)]], elim conjE, rule wp_mono[OF Cons.IH[OF _ c(3,4)]], assumption) simp
  qed simp
qed

lemma mw_addSoftClauses_wp:
  assumes "mw_inv V H S w" "cnf_vars (map snd E) \<subseteq> V" "room (length E + k) (mf_vars (mw_finder w))"
    "length (mf_groupToActivation (mw_finder w)) + length E < 2 ^ 32"
  shows "wp (iterS (\<lambda>(e, cls). mw_addSoftClause e cls) E) (\<lambda>_ w'. mw_inv V H (\<lambda>e. S e @ soft_of E e) w'
     \<and> mw_groups w' = mw_groups w \<union> fst ` set E) w"
  using assms
proof (induction E arbitrary: S w)
  case (Cons p E)
  obtain e c where p: "p = (e, c)" by (cases p)
  have c: "strip ` set c \<subseteq> V" "cnf_vars (map snd E) \<subseteq> V" using Cons.prems by (auto simp: cnf_vars_def p)
  have r: "room (Suc (length E + k)) (mf_vars (mw_finder w))" using Cons.prems(3) by simp
  have l: "length (mf_groupToActivation (mw_finder w)) + 1 < 2 ^ 32" using Cons.prems(4) by simp
  have s: "(\<lambda>d. (S(e := S e @ [c])) d @ soft_of E d) = (\<lambda>d. S d @ soft_of (p # E) d)"
    by (auto simp: fun_eq_iff soft_of_def p)
  show ?case
    unfolding iterS.simps wp_thenS wp_bindS p prod.case
  proof (rule wp_mono[OF mw_addSoftClause_wp[OF Cons.prems(1) c(1) r l]], elim conjE, goal_cases)
    case (1 u w1)
    have "length (mf_groupToActivation (mw_finder w1)) + length E < 2 ^ 32" using 1(4) Cons.prems(4) by simp
    from Cons.IH[OF 1(1) c(2) 1(2) this] show ?case
      by (rule wp_mono) (use 1(3) s in \<open>auto simp: p\<close>)
  qed
qed (simp add: soft_of_def)

lemma mus_run_wp:
  assumes B: "sat_backend B" and vm: "room (length E) vm" "\<forall>v\<in>V. old_var vm v" "ID_FALSE \<in> V"
    and H: "[] \<notin> set H" "cnf_vars H \<subseteq> V" and E: "cnf_vars (map snd E) \<subseteq> V" "length E < 2 ^ 32"
    and un: "mus_unsat H (soft_of E) (fst ` set E)"
  shows "wpr (mus_run B vm H E) (\<lambda>K. distinct K \<and> set K \<subseteq> fst ` set E \<and> min_set (mus_unsat H (soft_of E)) (set K))"
  unfolding mus_run_def wpr_bindR wpr_evalS wp_thenS
proof (rule wpr_mono[OF mw_new_wp[OF room_0[OF vm(1)] vm(2,3)]], elim conjE,
    rule wp_mono[OF mw_addHardClauses_wp[OF _ H]], assumption, elim conjE, goal_cases)
  case (1 w u w1)
  have "room (length E + 0) (mf_vars (mw_finder w1))" "length (mf_groupToActivation (mw_finder w1)) + length E < 2 ^ 32"
    using 1 vm(1) E(2) by simp_all
  note room = this
  have g0: "mw_groups w1 = {}" using 1 by simp
  show ?case
  proof (rule wp_mono[OF mw_addSoftClauses_wp[OF 1(5) E(1) room]], elim conjE, goal_cases)
    case (1 u2 w2)
    have g: "mw_groups w2 = fst ` set E" using 1 g0 by simp
    have "mw_inv V H (soft_of E) w2" using 1(1) by simp
    from sat_backend.mw_findMUS_wp[OF B this] show ?case using un unfolding g by (auto elim: wp_mono)
  qed
qed

end
