(* ===== verification/FrameSolver.thy ===== *)
theory FrameSolver
  imports IndTrace MusFinder Bmc
begin

text \<open>
  \<open>src/src/pme/ic3/transition_relation_solver.{h,cpp}\<close>, \<open>frame_solver.{h,cpp}\<close> and
  \<open>unsat_core_lifter.{h,cpp}\<close>: the solvers of IC3.  The trace they refer to is an argument of their
  operations; the variable manager a frame solver refers to is a field that its owner sets before
  and reads after each call.
\<close>

subsection \<open>Solvers with the transition relation\<close>

record trSolver =
  ts_tr :: anyTR
  ts_solver :: adaptor
  ts_unrolled :: clauseVec

definition ts_onSolver :: "(adaptor, 'a) sm \<Rightarrow> ('z trSolver_scheme, 'a) sm" where
  "ts_onSolver p = zoomS ts_solver (\<lambda>A s. s\<lparr>ts_solver := A\<rparr>) p"

definition ts_computeSimplifiedTR :: "backend \<Rightarrow> bool \<Rightarrow> ('z trSolver_scheme, unit) sm" where
  "ts_computeSimplifiedTR B opt = bindS getS (\<lambda>s.
     bindS (liftS (if opt then simplifyTR B (ts_tr s) else tr_unroll (ts_tr s) 2)) (\<lambda>C. modifyS (\<lambda>s. s\<lparr>ts_unrolled := C\<rparr>)))"

definition ts_sendTR :: "('z trSolver_scheme, unit) sm" where
  "ts_sendTR = bindS getS (\<lambda>s. ts_onSolver (ad_addClauses (ts_unrolled s)))"

definition ts_renewSAT :: "backend \<Rightarrow> bool \<Rightarrow> ('z trSolver_scheme, unit) sm" where
  "ts_renewSAT B opt = bindS getS (\<lambda>s. thenS (if ts_unrolled s = [] then ts_computeSimplifiedTR B opt else retS ())
     (thenS (ts_onSolver ad_reset) ts_sendTR))"

text \<open>The literals of \<open>c\<close> that occur, primed \<open>n\<close> times, among the critical assumptions.\<close>

fun extractCoreWithPrimes :: "cube \<Rightarrow> cube \<Rightarrow> nat \<Rightarrow> cube" where
  "extractCoreWithPrimes c [] n = []"
| "extractCoreWithPrimes c (lit # crits) n = (if nprimes lit \<noteq> of_nat n then extractCoreWithPrimes c crits n
     else if unprime lit \<in> set c then unprime lit # extractCoreWithPrimes c crits n else extractCoreWithPrimes c crits n)"

definition extractCore :: "cube \<Rightarrow> cube \<Rightarrow> cube" where
  "extractCore c crits = extractCoreWithPrimes c crits 0"

subsection \<open>The frame solver\<close>

record frameSolver = trSolver +
  fs_vars :: varManager
  fs_inited :: bool
  fs_activation :: "id list"

definition activationName :: "nat \<Rightarrow> string" where
  "activationName n = ''act_lvl_'' @ show_nat n"

definition fs_new :: "varManager \<Rightarrow> anyTR \<Rightarrow> frameSolver res" where
  "fs_new vm t = bindR (ad_new GLUCOSE) (\<lambda>A. Inr \<lparr>ts_tr = t, ts_solver = A, ts_unrolled = [], fs_vars = vm, fs_inited = False, fs_activation = []\<rparr>)"

definition fs_newActivation :: "nat \<Rightarrow> (frameSolver, unit) sm" where
  "fs_newActivation n = bindS (zoomS fs_vars (\<lambda>v s. s\<lparr>fs_vars := v\<rparr>) (getNewID_named (activationName n) 0))
     (\<lambda>a. modifyS (\<lambda>s. s\<lparr>fs_activation := fs_activation s @ [a]\<rparr>))"

definition fs_levelAct :: "level \<Rightarrow> (frameSolver, id) sm" where
  "fs_levelAct L = (case L of \<infinity> \<Rightarrow> retS ID_FALSE | enat n \<Rightarrow> bindS getS (\<lambda>s.
     thenS (iterS (\<lambda>i. fs_newActivation n) [length (fs_activation s)..<n + 1]) (bindS getS (\<lambda>s. liftS (atR (fs_activation s) n)))))"

definition fs_activatedClauseOf :: "inductiveTrace \<Rightarrow> lemmaID \<Rightarrow> (frameSolver, clause) sm" where
  "fs_activatedClauseOf T i = bindS (liftS (it_getLemmaID T i)) (\<lambda>l.
     if ld_level l < LEVEL_INF then bindS (fs_levelAct (ld_level l)) (\<lambda>a. retS (negateVec (ld_cube l) @ [a]))
     else retS (negateVec (ld_cube l)))"

definition fs_sendLemma :: "inductiveTrace \<Rightarrow> lemmaID \<Rightarrow> (frameSolver, unit) sm" where
  "fs_sendLemma T i = bindS (fs_activatedClauseOf T i) (\<lambda>cls. ts_onSolver (ad_addClause cls))"

definition fs_sendFrame :: "inductiveTrace \<Rightarrow> level \<Rightarrow> (frameSolver, unit) sm" where
  "fs_sendFrame T L = bindS (liftS (it_getFrame T L)) (\<lambda>fr. iterS (\<lambda>i. bindS (liftS (it_getLemmaID T i)) (\<lambda>l.
     if ld_deleted l then retS () else fs_sendLemma T i)) (sorted_list_of_set fr))"

definition fs_renewSAT :: "backend \<Rightarrow> bool \<Rightarrow> inductiveTrace \<Rightarrow> (frameSolver, unit) sm" where
  "fs_renewSAT B opt T = thenS (ts_renewSAT B opt) (thenS (fs_sendFrame T LEVEL_INF)
     (thenS (iterS (\<lambda>i. fs_sendFrame T (enat i)) [0..<it_numFrames T]) (modifyS (\<lambda>s. s\<lparr>fs_inited := True\<rparr>))))"

definition fs_addLemma :: "inductiveTrace \<Rightarrow> lemmaID \<Rightarrow> (frameSolver, unit) sm" where
  "fs_addLemma T i = bindS getS (\<lambda>s. if fs_inited s then fs_sendLemma T i else retS ())"

definition levels_from :: "level \<Rightarrow> nat \<Rightarrow> nat list" where
  "levels_from L n = (case L of enat k \<Rightarrow> [k..<n] | \<infinity> \<Rightarrow> [])"

definition fs_levelAssumps :: "inductiveTrace \<Rightarrow> level \<Rightarrow> (frameSolver, cube) sm" where
  "fs_levelAssumps T L = mapS (\<lambda>i. bindS (fs_levelAct (enat i)) (\<lambda>a. retS (negate a))) (levels_from L (it_numFrames T))"

fun fs_extractVars :: "adaptor \<Rightarrow> id list \<Rightarrow> nat \<Rightarrow> cube res" where
  "fs_extractVars A [] n = Inr []"
| "fs_extractVars A (i # vars) n = bindR (prime i n) (\<lambda>lit. bindR (ad_safeGetAssignmentToVar A lit) (\<lambda>asgn.
     bindR (fs_extractVars A vars n) (\<lambda>extracted.
       Inr (if asgn \<noteq> MV_UNDEF then unprime (if asgn = MV_TRUE then lit else negate lit) # extracted else extracted))))"

definition fs_extract :: "frameSolver \<Rightarrow> id list \<Rightarrow> nat \<Rightarrow> cube res" where
  "fs_extract s vars n = assertR (ad_isSAT (ts_solver s)) (fs_extractVars (ts_solver s) vars n)"

definition fs_extractPredecessor :: "frameSolver \<Rightarrow> cube res" where
  "fs_extractPredecessor s = (let latches = tr_latchIDs (baseTR (ts_tr s)) in
     bindR (fs_extract s latches 0) (\<lambda>r. assertR (r \<noteq> [] \<or> latches = []) (Inr r)))"

definition fs_extractInputs :: "frameSolver \<Rightarrow> cube res" where
  "fs_extractInputs s = fs_extract s (tr_inputIDs (baseTR (ts_tr s))) 0"

definition fs_extractPrimedInputs :: "frameSolver \<Rightarrow> cube res" where
  "fs_extractPrimedInputs s = fs_extract s (tr_inputIDs (baseTR (ts_tr s))) 1"

text \<open>\<open>ConsecutionOptions\<close>: the pointers that may be null say which results are wanted.\<close>

record consecOptions =
  co_level :: level
  co_c :: cube
  co_core :: bool
  co_pred :: bool
  co_inp :: bool
  co_pinp :: bool

record consecResult =
  cr_cons :: bool
  cr_pred :: cube
  cr_inp :: cube
  cr_pinp :: cube
  cr_core :: cube

definition fs_consecutionOpts :: "backend \<Rightarrow> bool \<Rightarrow> inductiveTrace \<Rightarrow> consecOptions \<Rightarrow> (frameSolver, consecResult) sm" where
  "fs_consecutionOpts B opt T co = bindS getS (\<lambda>s. thenS (if \<not> fs_inited s then fs_renewSAT B opt T else retS ())
     (bindS getS (\<lambda>s. thenS (assertS (fs_inited s)) (thenS (assertS (co_c co \<noteq> []))
     (bindS (fs_levelAssumps T (co_level co)) (\<lambda>assumps. thenS (assertS (\<forall>lit\<in>set (co_c co). nprimes lit = 0))
     (bindS (liftS (mapR (\<lambda>lit. prime lit 1) (co_c co))) (\<lambda>c'.
     (bindS (ts_onSolver (bindS (ad_withGroup (map negate (co_c co))) (\<lambda>gid. ad_groupSolve B gid (assumps @ c')))) (\<lambda>(sat, crits).
      bindS getS (\<lambda>s.
      bindS (liftS (if co_pred co \<and> sat then fs_extractPredecessor s else Inr [])) (\<lambda>pred.
      bindS (liftS (if co_inp co \<and> sat then fs_extractInputs s else Inr [])) (\<lambda>inp.
      bindS (liftS (if co_pinp co \<and> sat then fs_extractPrimedInputs s else Inr [])) (\<lambda>pinp.
      retS \<lparr>cr_cons = \<not> sat, cr_pred = pred, cr_inp = inp, cr_pinp = pinp,
        cr_core = (if co_core co \<and> \<not> sat then extractCoreWithPrimes (co_c co) crits 1 else [])\<rparr>))))))))))))))"

definition fs_consecutionFull :: "backend \<Rightarrow> bool \<Rightarrow> inductiveTrace \<Rightarrow> level \<Rightarrow> cube \<Rightarrow> (frameSolver, consecResult) sm" where
  "fs_consecutionFull B opt T L c = fs_consecutionOpts B opt T \<lparr>co_level = L, co_c = c, co_core = True, co_pred = True, co_inp = True, co_pinp = True\<rparr>"

definition fs_consecutionCore :: "backend \<Rightarrow> bool \<Rightarrow> inductiveTrace \<Rightarrow> level \<Rightarrow> cube \<Rightarrow> (frameSolver, bool \<times> cube) sm" where
  "fs_consecutionCore B opt T L c = bindS (fs_consecutionOpts B opt T \<lparr>co_level = L, co_c = c, co_core = True, co_pred = False, co_inp = False, co_pinp = False\<rparr>)
     (\<lambda>r. retS (cr_cons r, cr_core r))"

definition fs_consecutionPred :: "backend \<Rightarrow> bool \<Rightarrow> inductiveTrace \<Rightarrow> level \<Rightarrow> cube \<Rightarrow> (frameSolver, bool \<times> cube) sm" where
  "fs_consecutionPred B opt T L c = bindS (fs_consecutionOpts B opt T \<lparr>co_level = L, co_c = c, co_core = False, co_pred = True, co_inp = False, co_pinp = False\<rparr>)
     (\<lambda>r. retS (cr_cons r, cr_pred r))"

definition fs_consecution :: "backend \<Rightarrow> bool \<Rightarrow> inductiveTrace \<Rightarrow> level \<Rightarrow> cube \<Rightarrow> (frameSolver, bool) sm" where
  "fs_consecution B opt T L c = bindS (fs_consecutionOpts B opt T \<lparr>co_level = L, co_c = c, co_core = False, co_pred = False, co_inp = False, co_pinp = False\<rparr>)
     (\<lambda>r. retS (cr_cons r))"

definition fs_intersectionFull :: "backend \<Rightarrow> bool \<Rightarrow> inductiveTrace \<Rightarrow> level \<Rightarrow> cube \<Rightarrow> (frameSolver, bool \<times> cube \<times> cube) sm" where
  "fs_intersectionFull B opt T L c = thenS (assertS (c \<noteq> [])) (bindS getS (\<lambda>s. thenS (if \<not> fs_inited s then fs_renewSAT B opt T else retS ())
     (bindS getS (\<lambda>s. thenS (assertS (fs_inited s))
     (bindS (fs_levelAssumps T L) (\<lambda>assumps.
     (bindS (ts_onSolver (ad_solve B (assumps @ c))) (\<lambda>(sat, crits). bindS getS (\<lambda>s.
      bindS (liftS (if sat then fs_extractPredecessor s else Inr [])) (\<lambda>state.
      bindS (liftS (if sat then fs_extractInputs s else Inr [])) (\<lambda>inputs.
      retS (sat, state, inputs))))))))))))"

definition fs_intersection :: "backend \<Rightarrow> bool \<Rightarrow> inductiveTrace \<Rightarrow> level \<Rightarrow> cube \<Rightarrow> (frameSolver, bool) sm" where
  "fs_intersection B opt T L c = bindS (fs_intersectionFull B opt T L c) (\<lambda>(r, state, inputs). retS r)"

subsection \<open>Lifting\<close>

record lifter = trSolver +
  ul_inited :: bool

definition ul_new :: "anyTR \<Rightarrow> lifter res" where
  "ul_new t = bindR (ad_new GLUCOSE) (\<lambda>A. Inr \<lparr>ts_tr = t, ts_solver = A, ts_unrolled = [], ul_inited = False\<rparr>)"

definition ul_sendLemma :: "inductiveTrace \<Rightarrow> lemmaID \<Rightarrow> (lifter, unit) sm" where
  "ul_sendLemma T i = bindS (liftS (it_getLemmaID T i)) (\<lambda>l. ts_onSolver (ad_addClause (negateVec (ld_cube l))))"

definition ul_renewSAT :: "backend \<Rightarrow> bool \<Rightarrow> inductiveTrace \<Rightarrow> (lifter, unit) sm" where
  "ul_renewSAT B opt T = thenS (ts_renewSAT B opt) (bindS (liftS (it_getFrame T LEVEL_INF)) (\<lambda>fr.
     thenS (iterS (\<lambda>i. bindS (liftS (it_getLemmaID T i)) (\<lambda>l. if ld_deleted l then retS () else ul_sendLemma T i)) (sorted_list_of_set fr))
     (modifyS (\<lambda>s. s\<lparr>ul_inited := True\<rparr>))))"

definition ul_addLemma :: "inductiveTrace \<Rightarrow> lemmaID \<Rightarrow> (lifter, unit) sm" where
  "ul_addLemma T i = ul_sendLemma T i"

definition ul_lift :: "backend \<Rightarrow> bool \<Rightarrow> inductiveTrace \<Rightarrow> cube \<Rightarrow> cube \<Rightarrow> cube \<Rightarrow> cube \<Rightarrow> (lifter, cube) sm" where
  "ul_lift B opt T pred succ inp pinp = thenS (assertS (succ \<noteq> [])) (bindS getS (\<lambda>s.
     thenS (if \<not> ul_inited s then ul_renewSAT B opt T else retS ())
     (bindS (liftS (primeVec pinp 1)) (\<lambda>pinp_p. bindS (liftS (primeVec succ 1)) (\<lambda>succ_p.
      let negsucc_p = negateVec succ_p; assumps = pred @ inp @ pinp_p in
      bindS (if length succ = 1 then thenS (assertS (length negsucc_p = 1))
              (bindS (liftS (atR negsucc_p 0)) (\<lambda>l. ts_onSolver (ad_solve B (assumps @ [l]))))
            else ts_onSolver (bindS (ad_withGroup negsucc_p) (\<lambda>gid. ad_groupSolve B gid assumps))) (\<lambda>(sat, crits).
      thenS (assertS (\<not> sat)) (let lifted = extractCore pred crits in
      if lifted = [] then bindS (liftS (if pred = [] then Inl Undefined else Inr (hd pred))) (\<lambda>l. retS [l])
      else retS lifted)))))))"

end
