(* ===== verification/FrameFill.thy ===== *)
theory FrameFill
  imports FrameSolver
begin

text \<open>
  How the solvers of IC3 are filled: the invariant \<open>fs_inv\<close> of the frame solver says that, once it is
  initialized, it holds the (simplified) relation and one activated clause per lemma and level, and
  \<open>fs_renewSAT\<close> and \<open>fs_addLemma\<close> establish and keep it.
\<close>

subsection \<open>What the solvers have to keep\<close>

text \<open>Inputs and latches, and the variables lemmas may mention: those the simplification keeps and those
  the relation does not mention.\<close>

definition io_vars :: "anyTR \<Rightarrow> id set" where
  "io_vars t = set (tr_latchIDs (baseTR t)) \<union> set (tr_inputIDs (baseTR t))"

definition lem_vars :: "anyTR \<Rightarrow> id set" where
  "lem_vars t = {v. unprime v = v \<and> is_valid_id v \<and> \<not> is_negated v \<and> (v \<in> state_vars t \<union> io_vars t \<or> v \<notin> tr_vars t)}"

definition frozen_io :: "anyTR \<Rightarrow> id set \<Rightarrow> bool" where
  "frozen_io t F = ((\<forall>v\<in>state_vars t \<union> io_vars t. v \<in> F \<and> prime_body 1 v \<in> F) \<and> (\<forall>v. unprime v \<notin> tr_vars t \<longrightarrow> v \<in> F))"

lemma io_tr: "tr_wf t \<Longrightarrow> v \<in> io_vars t \<Longrightarrow> v \<in> tr_vars t \<and> \<not> is_negated v \<and> unprime v = v \<and> strip v = v"
  using tr_wf_ids[of t v] by (auto simp: io_vars_def tr_vars_def strip_id rev_image_eqI)

lemma frozen_io_lem:
  assumes "frozen_io t F" "v \<in> lem_vars t"
  shows "v \<in> F" "prime_body 1 v \<in> F"
  using assms unfolding frozen_io_def lem_vars_def by auto

lemma lem_vars_plain: "V \<subseteq> lem_vars t \<Longrightarrow> plain_vars V"
  by (auto simp: plain_vars_def lem_vars_def)

text \<open>The unrolling constrains no variable but the relation's, primed or not.\<close>

lemma unroll2_outside:
  assumes wf: "tr_wf t" and C: "tr_unroll t 2 = Inr C"
    and ag: "\<And>v. unprime v \<in> tr_vars t \<Longrightarrow> \<sigma> v = \<sigma>' v" and c: "const_ok \<sigma>" "const_ok \<sigma>'"
  shows "cnf_sat \<sigma> C = cnf_sat \<sigma>' C"
proof -
  have n: "2 \<le> MAX_PRIMES" by (simp add: MAX_PRIMES_def)
  have sem: "cnf_sat \<sigma> C \<longleftrightarrow> path_ok t 2 (\<lambda>i. at_time i \<sigma>)" if "const_ok \<sigma>" for \<sigma>
    using tr_unroll_sem[OF wf n] C that by simp
  have at: "at_time i \<sigma> v = at_time i \<sigma>' v" if v: "v \<in> tr_vars t" for i v
  proof -
    have "unprime v = v" using tr_wf_vars[OF wf v] by simp
    then show ?thesis using ag[of "prime_body i v"] v by (simp add: at_time_def)
  qed
  have "path_ok t 2 (\<lambda>i. at_time i \<sigma>) = path_ok t 2 (\<lambda>i. at_time i \<sigma>')"
    unfolding path_ok_def using frame_ok_agree[of t "at_time i \<sigma>" "at_time i \<sigma>'" for i, OF at]
      step_ok_agree[of t "at_time i \<sigma>" "at_time i \<sigma>'" "at_time (Suc i) \<sigma>" "at_time (Suc i) \<sigma>'" for i, OF at at] by simp
  then show ?thesis using sem[OF c(1)] sem[OF c(2)] by simp
qed

definition unrolled_ok :: "anyTR \<Rightarrow> clauseVec \<Rightarrow> bool" where
  "unrolled_ok t D = (\<exists>C F. tr_unroll t 2 = Inr C \<and> simp_of C F D \<and> frozen_io t F)"

lemma unrolled_ok_nonempty: "unrolled_ok t D \<Longrightarrow> [] \<notin> set D"
  by (auto simp: unrolled_ok_def simp_of_def)

context sat_backend
begin

lemma ts_compute_wp:
  assumes wf: "tr_wf t" and l: "live opt t" and t: "ts_tr s = t"
  shows "wp (ts_computeSimplifiedTR B opt) (\<lambda>_ s'. \<exists>D. s' = s\<lparr>ts_unrolled := D\<rparr> \<and> unrolled_ok t D) s"
proof -
  have n: "(2::nat) \<le> MAX_PRIMES" by (simp add: MAX_PRIMES_def)
  obtain C where C: "tr_unroll t 2 = Inr C" using tr_unroll_sem[OF wf n] by (auto simp: wpr_iff)
  have ne: "[] \<notin> set C" by (rule tr_unroll_nonempty[OF C])
  have "wpr (if opt then simplifyTR B t else tr_unroll t 2) (unrolled_ok t)"
  proof (cases opt)
    case False
    have "unrolled_ok t C" unfolding unrolled_ok_def
      by (intro exI[of _ C] exI[of _ UNIV]) (use C simp_of_refl[OF ne] in \<open>auto simp: frozen_io_def\<close>)
    then show ?thesis using False C by simp
  next
    case True
    then obtain s0 s0' where "tr_trans t s0 s0'" using l by (auto simp: live_def)
    then obtain \<sigma> where s: "const_ok \<sigma>" "cnf_sat \<sigma> C"
      using unroll2_query[OF wf C plain_tr_vars[OF wf], of "\<lambda>_ _. True"] by auto
    let ?fz = "[(tr_latchIDs (baseTR t), True), (tr_constraints (baseTR t), True), (tr_inputIDs (baseTR t), True),
        ([tr_bad (baseTR t)], False), ([prime1 (tr_bad (baseTR t))], False)]"
    let ?N = "{v. unprime v \<notin> tr_vars t}"
    have "ID_FALSE \<in> tr_vars t" by (simp add: tr_vars_def)
    then have fF: "ID_FALSE \<notin> ?N" using tr_wf_vars[OF wf] by simp
    have fr: "frozen_io t (fz_vars ?fz \<union> ?N)"
      using simplifyTR_frozen[of t] io_tr[OF wf] unfolding frozen_io_def frozen_for_def io_vars_def
      by (auto simp: strip_prime_body image_iff)
    have "simp_of C (fz_vars ?fz \<union> ?N) D" if "simp_of C (fz_vars ?fz) D" for D
    proof (rule simp_of_extend[OF that fF])
      fix \<sigma> \<sigma>' :: assignment
      assume a: "\<And>v. v \<notin> ?N \<Longrightarrow> \<sigma> v = \<sigma>' v" "const_ok \<sigma>" "const_ok \<sigma>'" "cnf_sat \<sigma> C"
      have "cnf_sat \<sigma> C = cnf_sat \<sigma>' C" by (rule unroll2_outside[OF wf C _ a(2,3)]) (rule a(1), simp)
      then show "cnf_sat \<sigma>' C" using a(4) by simp
    qed
    then have "unrolled_ok t D" if "simp_of C (fz_vars ?fz) D" for D using that C fr unfolding unrolled_ok_def by blast
    then have "wpr (simp_run B C ?fz) (unrolled_ok t)" by (rule wpr_mono[OF simp_run_wp[OF ne s]])
    then have "wpr (simplifyTR B t) (unrolled_ok t)" unfolding simplifyTR_def C bindR_simps .
    then show ?thesis using True by simp
  qed
  then show ?thesis
    unfolding ts_computeSimplifiedTR_def wp_bindS wp_getS wp_liftS wp_modifyS t by (rule wpr_mono) blast
qed

lemma ts_renew_wp:
  assumes wf: "tr_wf t" and l: "live opt t" and t: "ts_tr s = t" and k: "ad_kind (ts_solver s) = GLUCOSE"
    and u: "ts_unrolled s = [] \<or> unrolled_ok t (ts_unrolled s)"
  shows "wp (ts_renewSAT B opt) (\<lambda>_ s'. \<exists>A D. s' = s\<lparr>ts_unrolled := D, ts_solver := A\<rparr> \<and> unrolled_ok t D \<and> solver_for A GLUCOSE D) s"
proof -
  have fill: "wp (thenS (ts_onSolver ad_reset) ts_sendTR) (\<lambda>_ s'. \<exists>A D. s' = s\<lparr>ts_unrolled := D, ts_solver := A\<rparr> \<and> unrolled_ok t D \<and> solver_for A GLUCOSE D)
      (s\<lparr>ts_unrolled := D\<rparr>)" if D: "unrolled_ok t D" for D
  proof -
    have "wp (ad_addClauses D) (\<lambda>_ A'. solver_for A' GLUCOSE D) A" if "solver_for A GLUCOSE []" for A
      by (rule wp_mono[OF solver_for_add[OF that unrolled_ok_nonempty[OF D]]]) simp
    then have "wp ad_reset (\<lambda>_ A. wp (ad_addClauses D) (\<lambda>_ A'. solver_for A' GLUCOSE D) A) (ts_solver s)"
      by (intro wp_mono[OF ad_reset_solver]) (use k in simp)
    then have "wp ad_reset (\<lambda>_ A. wp (ad_addClauses D) (\<lambda>_ A'. \<exists>Aa Da. s\<lparr>ts_unrolled := D, ts_solver := A'\<rparr> = s\<lparr>ts_unrolled := Da, ts_solver := Aa\<rparr>
        \<and> unrolled_ok t Da \<and> solver_for Aa GLUCOSE Da) A) (ts_solver s)"
      by (rule wp_mono) (erule wp_mono, use D in blast)
    then show ?thesis by (simp add: ts_onSolver_def ts_sendTR_def)
  qed
  show ?thesis
  proof (cases "ts_unrolled s = []")
    case True
    show ?thesis
      unfolding ts_renewSAT_def wp_bindS wp_getS wp_thenS[of "if _ then _ else _"] using True
      by simp (rule wp_mono[OF ts_compute_wp[OF wf l t]], elim exE conjE, use fill in simp)
  next
    case False
    then have "unrolled_ok t (ts_unrolled s)" using u by blast
    from fill[OF this] show ?thesis using False by (simp add: ts_renewSAT_def)
  qed
qed

end

subsection \<open>Activation literals and the clauses of lemmas\<close>

definition act_ok :: "id list \<Rightarrow> level \<Rightarrow> bool" where
  "act_ok as L = (L = \<infinity> \<or> L < enat (length as))"

definition lemma_clause :: "id list \<Rightarrow> cube \<Rightarrow> level \<Rightarrow> clause" where
  "lemma_clause as c L = negateVec c @ (if L = \<infinity> then [] else [as ! the_enat L])"

text \<open>Room for \<open>M\<close> activation literals, none of them a variable of the relation or of \<open>V\<close>.\<close>

definition fs_acts :: "anyTR \<Rightarrow> id set \<Rightarrow> nat \<Rightarrow> frameSolver \<Rightarrow> bool" where
  "fs_acts t V M s = (vm_owns (fs_vars s) t \<and> (\<forall>v\<in>V. isKnown (fs_vars s) v) \<and> length (fs_activation s) \<le> M
     \<and> room (M - length (fs_activation s)) (fs_vars s) \<and> distinct (fs_activation s)
     \<and> (\<forall>a\<in>set (fs_activation s). isKnown (fs_vars s) a \<and> a \<notin> tr_vars t \<and> a \<notin> V))"

definition solver_same :: "frameSolver \<Rightarrow> frameSolver \<Rightarrow> bool" where
  "solver_same s s' = (ts_tr s' = ts_tr s \<and> ts_unrolled s' = ts_unrolled s \<and> fs_inited s' = fs_inited s
     \<and> (\<exists>as. fs_activation s' = fs_activation s @ as))"

lemma solver_same_trans: "solver_same s s' \<Longrightarrow> solver_same s' s'' \<Longrightarrow> solver_same s s''"
  by (auto simp: solver_same_def)

lemma solver_same_refl [intro]: "solver_same s s"
  by (simp add: solver_same_def)

definition acts_more :: "frameSolver \<Rightarrow> frameSolver \<Rightarrow> bool" where
  "acts_more s s' = (solver_same s s' \<and> ts_solver s' = ts_solver s)"

lemma acts_more_refl [intro]: "acts_more s s"
  by (auto simp: acts_more_def)

lemma acts_more_trans: "acts_more s s' \<Longrightarrow> acts_more s' s'' \<Longrightarrow> acts_more s s''"
  by (auto simp: acts_more_def intro: solver_same_trans)

lemma getNewID_named_new:
  assumes "room (Suc k) vm"
  shows "wp (getNewID_named name 0) (\<lambda>y vm'. room k vm' \<and> \<not> isKnown vm y \<and> isKnown vm' y \<and> (\<forall>v. isKnown vm v \<longrightarrow> isKnown vm' v)) vm"
proof -
  have inv: "vm_inv vm" and k: "unat (m_nextID vm) + 2 * Suc k \<le> 2 ^ 48" using assms by (auto simp: room_def)
  have le: "m_nextID vm \<le> MAX_ID" using k by (simp add: word_le_nat_alt MAX_ID_val)
  have ev: "\<not> is_negated (m_nextID vm)" using inv by (simp add: vm_inv_def)
  show ?thesis
  proof (rule wp_mono[OF getNewID_named_wp[OF inv le]], goal_cases)
    case (3 i vm')
    then have a: "i = m_nextID vm" "m_nextID vm' = i + 2" "vm_inv vm'" "\<not> isKnown vm i" by blast+
    obtain nm where mv: "m_vars vm' = (m_vars vm)(i \<mapsto> \<lparr>v_id = i, v_external = 0, v_name = nm\<rparr>)" using 3 by blast
    have "room k vm'" using a even_next_step(4)[OF ev le] k by (simp add: room_def)
    then show ?case using a mv by (auto simp: isKnown_def)
  qed (auto simp: aiger_sign_def)
qed

lemma fs_newActivation_wp:
  assumes "fs_acts t V M s" "length (fs_activation s) < M"
  shows "wp (fs_newActivation n) (\<lambda>_ s'. fs_acts t V M s' \<and> acts_more s s' \<and> length (fs_activation s') = Suc (length (fs_activation s))) s"
proof -
  obtain k where k: "M - length (fs_activation s) = Suc k" using assms(2) by (metis Suc_diff_Suc)
  have r: "room (Suc k) (fs_vars s)" using assms(1) k by (simp add: fs_acts_def)
  have k': "M - Suc (length (fs_activation s)) = k" using k by simp
  show ?thesis
    unfolding fs_newActivation_def wp_bindS wp_zoomS wp_modifyS
  proof (rule wp_mono[OF getNewID_named_new[OF r]], elim conjE, goal_cases)
    case (1 a vm')
    let ?s = "s\<lparr>fs_vars := vm', fs_activation := fs_activation s @ [a]\<rparr>"
    have "fs_acts t V M ?s"
      using assms 1 k' unfolding fs_acts_def vm_owns_def by auto
    moreover have "acts_more s ?s" by (simp add: acts_more_def solver_same_def)
    ultimately show ?case by simp
  qed
qed

lemma fs_levelAct_wp:
  assumes a: "fs_acts t V M s" and n: "n < M"
  shows "wp (fs_levelAct (enat n)) (\<lambda>a s'. fs_acts t V M s' \<and> acts_more s s' \<and> n < length (fs_activation s') \<and> a = fs_activation s' ! n) s"
proof -
  let ?k = "length (fs_activation s)"
  have "wp (iterS (\<lambda>i. fs_newActivation n) [?k..<n + 1])
     (\<lambda>_ s'. fs_acts t V M s' \<and> acts_more s s' \<and> length (fs_activation s') = ?k + length [?k..<n + 1]) s"
  proof (rule wp_iterS[where I = "\<lambda>ys s'. fs_acts t V M s' \<and> acts_more s s' \<and> length (fs_activation s') = ?k + length ys"])
    fix x ys zs s'
    assume e: "[?k..<n + 1] = ys @ x # zs" and i: "fs_acts t V M s' \<and> acts_more s s' \<and> length (fs_activation s') = ?k + length ys"
    have "length [?k..<n + 1] = length ys + 1 + length zs" unfolding e by simp
    then have l: "length (fs_activation s') < M" using i n by (simp del: upt_Suc)
    show "wp (fs_newActivation n) (\<lambda>_ s'. fs_acts t V M s' \<and> acts_more s s' \<and> length (fs_activation s') = ?k + length (ys @ [x])) s'"
      by (rule wp_mono[OF fs_newActivation_wp[OF _ l]]) (use i in \<open>auto dest: acts_more_trans\<close>)
  qed (use a in auto)
  moreover have "fs_levelAct (enat n) = bindS getS (\<lambda>s. thenS (iterS (\<lambda>i. fs_newActivation n) [length (fs_activation s)..<n + 1])
      (bindS getS (\<lambda>s. liftS (atR (fs_activation s) n))))"
    by (simp add: fs_levelAct_def del: upt_Suc)
  ultimately show ?thesis
    by (simp del: upt_Suc) (erule wp_mono, simp del: upt_Suc)
qed

lemma lemma_clause_more:
  assumes "solver_same s s'" "act_ok (fs_activation s) L"
  shows "lemma_clause (fs_activation s') c L = lemma_clause (fs_activation s) c L" "act_ok (fs_activation s') L"
proof -
  obtain as where as: "fs_activation s' = fs_activation s @ as" using assms(1) by (auto simp: solver_same_def)
  show "lemma_clause (fs_activation s') c L = lemma_clause (fs_activation s) c L" "act_ok (fs_activation s') L"
    using assms(2) unfolding as by (cases L; auto simp: lemma_clause_def act_ok_def nth_append)+
qed

lemma ad_addClause_has:
  assumes "solver_for A k C" "c \<noteq> []"
  shows "wp (ad_addClause c) (\<lambda>_ A'. solver_for A' k (C @ [c]) \<and> (\<forall>v. ad_hasSAT A' v \<longleftrightarrow> ad_hasSAT A v \<or> strip v \<in> strip ` set c)) A"
proof (rule wp_mono[OF ad_addClause_step[OF solver_for_inv[OF assms(1)] assms(2)]])
  fix u A'
  assume s: "ad_step A (strip ` set c) (\<lambda>\<sigma> \<gamma>. clause_sat \<sigma> c) A'"
  show "solver_for A' k (C @ [c]) \<and> (\<forall>v. ad_hasSAT A' v \<longleftrightarrow> ad_hasSAT A v \<or> strip v \<in> strip ` set c)"
    using s assms(1) ad_step_mod[OF s] unfolding solver_for_def ad_step_def by auto
qed

lemma fs_sendLemma_wp:
  assumes a: "fs_acts t V M s" and T: "it_inv T" "it_is T i c L" and L: "L = \<infinity> \<or> L < enat M" and c: "c \<noteq> []"
    and A: "solver_for (ts_solver s) GLUCOSE X"
  shows "wp (fs_sendLemma T i) (\<lambda>_ s'. fs_acts t V M s' \<and> solver_same s s' \<and> act_ok (fs_activation s') L
     \<and> solver_for (ts_solver s') GLUCOSE (X @ [lemma_clause (fs_activation s') c L])
     \<and> (\<forall>v. ad_hasSAT (ts_solver s) v \<or> strip v \<in> strip ` set c \<longrightarrow> ad_hasSAT (ts_solver s') v)) s"
proof -
  note g = it_is_get[OF T]
  have cl: "wp (fs_activatedClauseOf T i) (\<lambda>cls s'. fs_acts t V M s' \<and> acts_more s s' \<and> act_ok (fs_activation s') L
      \<and> cls = lemma_clause (fs_activation s') c L) s"
  proof (cases L)
    case (enat n)
    then have "n < M" using L by simp
    from fs_levelAct_wp[OF a this] show ?thesis
      unfolding fs_activatedClauseOf_def wp_bindS wp_liftS g(1) using enat g(6,7)
      by (simp add: LEVEL_INF_def) (erule wp_mono, auto simp: lemma_clause_def act_ok_def)
  next
    case infinity
    then show ?thesis using g(1,6,7) a by (auto simp: fs_activatedClauseOf_def LEVEL_INF_def lemma_clause_def act_ok_def)
  qed
  show ?thesis
    unfolding fs_sendLemma_def wp_bindS
  proof (rule wp_mono[OF cl], elim conjE)
    fix cls s1
    assume s1: "fs_acts t V M s1" "acts_more s s1" "act_ok (fs_activation s1) L" "cls = lemma_clause (fs_activation s1) c L"
    have ne: "cls \<noteq> []" using c by (simp add: s1(4) lemma_clause_def negateVec_def)
    have A1: "solver_for (ts_solver s1) GLUCOSE X" "ts_solver s1 = ts_solver s" "solver_same s s1"
      using A s1(2) by (auto simp: acts_more_def)
    have vars: "strip ` set c \<subseteq> strip ` set cls" unfolding s1(4) lemma_clause_def negateVec_def by (auto simp: image_image)
    show "wp (ts_onSolver (ad_addClause cls)) (\<lambda>_ s'. fs_acts t V M s' \<and> solver_same s s' \<and> act_ok (fs_activation s') L
     \<and> solver_for (ts_solver s') GLUCOSE (X @ [lemma_clause (fs_activation s') c L])
     \<and> (\<forall>v. ad_hasSAT (ts_solver s) v \<or> strip v \<in> strip ` set c \<longrightarrow> ad_hasSAT (ts_solver s') v)) s1"
      unfolding ts_onSolver_def wp_zoomS
      by (rule wp_mono[OF ad_addClause_has[OF A1(1) ne]])
        (use s1 A1 vars in \<open>auto simp: fs_acts_def solver_same_def\<close>)
  qed
qed

text \<open>The clauses sent for a trace: clauses of lemmas, perhaps at a lower level than now, and among
  them those of the lemmas at their levels that satisfy \<open>I\<close>.\<close>

definition sent :: "inductiveTrace \<Rightarrow> (cube \<Rightarrow> level \<Rightarrow> bool) \<Rightarrow> id list \<Rightarrow> clauseVec \<Rightarrow> bool" where
  "sent T I as E = ((\<forall>e\<in>set E. \<exists>c M L. it_lev T c = Some L \<and> M \<le> L \<and> act_ok as M \<and> e = lemma_clause as c M)
     \<and> (\<forall>c L. it_lev T c = Some L \<longrightarrow> I c L \<longrightarrow> act_ok as L \<and> lemma_clause as c L \<in> set E))"

definition lemmas_known :: "inductiveTrace \<Rightarrow> (cube \<Rightarrow> level \<Rightarrow> bool) \<Rightarrow> adaptor \<Rightarrow> bool" where
  "lemmas_known T I A = (\<forall>c L. it_lev T c = Some L \<longrightarrow> I c L \<longrightarrow> (\<forall>l\<in>set c. ad_hasSAT A l))"

lemma sentD1: "sent T I as E \<Longrightarrow> e \<in> set E \<Longrightarrow> \<exists>c M L. it_lev T c = Some L \<and> M \<le> L \<and> act_ok as M \<and> e = lemma_clause as c M"
  by (simp add: sent_def)

lemma sentD2: "sent T I as E \<Longrightarrow> it_lev T c = Some L \<Longrightarrow> I c L \<Longrightarrow> act_ok as L \<and> lemma_clause as c L \<in> set E"
  by (simp add: sent_def)

lemma sent_more:
  assumes "sent T I (fs_activation s) E" "solver_same s s'"
  shows "sent T I (fs_activation s') E"
  unfolding sent_def
proof (intro conjI ballI allI impI)
  note eq = lemma_clause_more[OF assms(2)]
  fix e assume e: "e \<in> set E"
  obtain c M L where 1: "it_lev T c = Some L" "M \<le> L" "act_ok (fs_activation s) M" "e = lemma_clause (fs_activation s) c M"
    using sentD1[OF assms(1) e] by blast
  show "\<exists>c M L. it_lev T c = Some L \<and> M \<le> L \<and> act_ok (fs_activation s') M \<and> e = lemma_clause (fs_activation s') c M"
    by (rule exI[of _ c], rule exI[of _ M], rule exI[of _ L]) (use 1 eq in simp)
next
  note eq = lemma_clause_more[OF assms(2)]
  fix c L assume "it_lev T c = Some L" "I c L"
  then have "act_ok (fs_activation s) L" "lemma_clause (fs_activation s) c L \<in> set E" using sentD2[OF assms(1)] by simp_all
  then show "act_ok (fs_activation s') L" "lemma_clause (fs_activation s') c L \<in> set E" using eq by simp_all
qed

lemma sent_add:
  assumes "sent T I as E" "it_lev T c = Some L" "act_ok as L"
  shows "sent T (\<lambda>d M. I d M \<or> d = c) as (E @ [lemma_clause as c L])"
  unfolding sent_def
proof (intro conjI ballI allI impI)
  fix e assume "e \<in> set (E @ [lemma_clause as c L])"
  then consider "e \<in> set E" | "e = lemma_clause as c L" by auto
  then show "\<exists>c M L. it_lev T c = Some L \<and> M \<le> L \<and> act_ok as M \<and> e = lemma_clause as c M"
  proof cases
    case 1
    then show ?thesis by (rule sentD1[OF assms(1)])
  next
    case 2
    then show ?thesis using assms(2,3) by (intro exI[of _ c] exI[of _ L]) simp
  qed
next
  fix d M assume d: "it_lev T d = Some M" "I d M \<or> d = c"
  have "act_ok as M \<and> (lemma_clause as d M \<in> set E \<or> d = c \<and> M = L)"
  proof (cases "I d M")
    case True
    then show ?thesis using sentD2[OF assms(1) d(1)] by simp
  next
    case False
    then show ?thesis using d assms(2,3) by simp
  qed
  then show "act_ok as M" "lemma_clause as d M \<in> set (E @ [lemma_clause as c L])" by auto
qed

lemma sent_cong:
  assumes "\<And>c N. it_lev T c = Some N \<Longrightarrow> I c N = J c N"
  shows "sent T I as E = sent T J as E" "lemmas_known T I A = lemmas_known T J A"
proof -
  have "(it_lev T c = Some N \<longrightarrow> I c N \<longrightarrow> P) = (it_lev T c = Some N \<longrightarrow> J c N \<longrightarrow> P)" for c N P
    using assms by blast
  then show "sent T I as E = sent T J as E" "lemmas_known T I A = lemmas_known T J A"
    unfolding sent_def lemmas_known_def by (simp_all only:)
qed

definition trace_ok :: "id set \<Rightarrow> nat \<Rightarrow> inductiveTrace \<Rightarrow> bool" where
  "trace_ok V M T = (it_inv T \<and> it_numFrames T \<le> M \<and> (\<forall>c L. it_lev T c = Some L \<longrightarrow> c \<noteq> [] \<and> strip ` set c \<subseteq> V))"

lemma trace_ok_level:
  assumes "trace_ok V M T" "it_is T i c L"
  shows "L = \<infinity> \<or> L < enat M" "c \<noteq> []" "it_lev T c = Some L" "it_inv T" "strip ` set c \<subseteq> V"
proof -
  show inv: "it_inv T" using assms(1) by (simp add: trace_ok_def)
  show lev: "it_lev T c = Some L" using it_lev_is[OF inv] assms(2) by blast
  show "L = \<infinity> \<or> L < enat M" using it_is_get(11)[OF inv assms(2)] assms(1) unfolding trace_ok_def
    by (metis enat_ord_simps(1) order_less_le_trans)
  show "c \<noteq> []" "strip ` set c \<subseteq> V" using assms(1) lev by (auto simp: trace_ok_def)
qed

lemma fs_sendFrame_wp:
  assumes a: "fs_acts t V M s" and T: "trace_ok V M T" and L: "L = \<infinity> \<or> L < enat (it_numFrames T)"
    and A: "solver_for (ts_solver s) GLUCOSE (X @ E)" "sent T I (fs_activation s) E" "lemmas_known T I (ts_solver s)"
  shows "wp (fs_sendFrame T L) (\<lambda>_ s'. fs_acts t V M s' \<and> solver_same s s' \<and> (\<exists>E. solver_for (ts_solver s') GLUCOSE (X @ E)
     \<and> sent T (\<lambda>c N. I c N \<or> N = L) (fs_activation s') E \<and> lemmas_known T (\<lambda>c N. I c N \<or> N = L) (ts_solver s'))) s"
proof -
  let ?fr = "frame_at (it_frames T) L"
  have inv: "it_inv T" using T by (simp add: trace_ok_def)
  have g: "it_getFrame T L = Inr ?fr" using L fr_getFrame_at[of L "it_frames T"] by (simp add: it_getFrame_def it_numFrames_def)
  have mem: "i \<in> ?fr \<longleftrightarrow> (\<exists>c. it_is T i c L)" for i using it_invD(3)[OF inv, of i L] by (auto simp: it_is_def)
  have fin: "finite ?fr"
    by (rule finite_subset[of _ "{..<length (it_lemmas T)}"]) (auto simp: mem it_is_def it_active_def)
  let ?xs = "sorted_list_of_set ?fr"
  let ?J = "\<lambda>ys c N. I c N \<or> (\<exists>i\<in>set ys. it_is T i c N)"
  let ?P = "\<lambda>ys s'. fs_acts t V M s' \<and> solver_same s s' \<and> (\<exists>E. solver_for (ts_solver s') GLUCOSE (X @ E)
     \<and> sent T (?J ys) (fs_activation s') E \<and> lemmas_known T (?J ys) (ts_solver s'))"
  have "wp (iterS (\<lambda>i. bindS (liftS (it_getLemmaID T i)) (\<lambda>l. if ld_deleted l then retS () else fs_sendLemma T i)) ?xs) (\<lambda>_ s'. ?P ?xs s') s" (is ?wp)
  proof (rule wp_iterS[where I = ?P])
    show "?P [] s" using a A by auto
    fix i ys zs s1
    assume e: "?xs = ys @ i # zs" and P: "?P ys s1"
    then obtain E1 where s1: "fs_acts t V M s1" "solver_same s s1" "solver_for (ts_solver s1) GLUCOSE (X @ E1)"
      "sent T (?J ys) (fs_activation s1) E1" "lemmas_known T (?J ys) (ts_solver s1)" by blast
    have "i \<in> set ?xs" unfolding e by simp
    then obtain c where c: "it_is T i c L" using fin mem by auto
    note tl = trace_ok_level[OF T c]
    note gi = it_is_get[OF inv c]
    have only: "?J (ys @ [i]) d N \<longleftrightarrow> ?J ys d N \<or> (d = c \<and> N = L)" for d N
      using c it_is_inj[OF inv c] by (auto simp: it_is_def)
    show "wp (bindS (liftS (it_getLemmaID T i)) (\<lambda>l. if ld_deleted l then retS () else fs_sendLemma T i)) (\<lambda>_ s'. ?P (ys @ [i]) s') s1"
      unfolding wp_bindS wp_liftS gi(1) wpr_Inr if_not_P[OF gi(8)]
    proof (rule wp_mono[OF fs_sendLemma_wp[OF s1(1) inv c tl(1,2) s1(3)]], elim conjE, goal_cases)
      case (1 u s2)
      have "sent T (\<lambda>d N. ?J ys d N \<or> d = c) (fs_activation s2) (E1 @ [lemma_clause (fs_activation s2) c L])"
        by (rule sent_add[OF sent_more[OF s1(4) 1(2)] tl(3) 1(3)])
      moreover have "?J (ys @ [i]) d N = (?J ys d N \<or> d = c)" if "it_lev T d = Some N" for d N
        unfolding only using that tl(3) by auto
      ultimately have "sent T (?J (ys @ [i])) (fs_activation s2) (E1 @ [lemma_clause (fs_activation s2) c L])"
        using sent_cong(1)[of T "?J (ys @ [i])" "\<lambda>d N. ?J ys d N \<or> d = c"] by blast
      moreover have "lemmas_known T (?J (ys @ [i])) (ts_solver s2)"
        unfolding lemmas_known_def
      proof (intro allI impI ballI)
        fix d N l assume d: "it_lev T d = Some N" "?J (ys @ [i]) d N" "l \<in> set d"
        then have "?J ys d N \<or> d = c" using only by blast
        then show "ad_hasSAT (ts_solver s2) l"
        proof
          assume "?J ys d N"
          then have "ad_hasSAT (ts_solver s1) l" using s1(5) d(1,3) unfolding lemmas_known_def by blast
          then show ?thesis using 1(5) by blast
        next
          assume "d = c"
          then show ?thesis using 1(5) d(3) by blast
        qed
      qed
      moreover have "solver_for (ts_solver s2) GLUCOSE (X @ (E1 @ [lemma_clause (fs_activation s2) c L]))" using 1(4) by simp
      ultimately show ?case
        by (intro conjI exI[of _ "E1 @ [lemma_clause (fs_activation s2) c L]"] 1(1) solver_same_trans[OF s1(2) 1(2)])
    qed
  qed
  have J: "?J ?xs c N \<longleftrightarrow> I c N \<or> N = L" if lev: "it_lev T c = Some N" for c N
  proof -
    obtain i where i: "it_is T i c N" using lev unfolding it_lev_is[OF inv] by (elim exE)
    have "(\<exists>i\<in>set ?xs. it_is T i c N) \<longleftrightarrow> N = L"
    proof
      assume "\<exists>i\<in>set ?xs. it_is T i c N"
      then obtain j where "j \<in> ?fr" "it_is T j c N" using fin by auto
      then show "N = L" using mem by (auto simp: it_is_def)
    next
      assume "N = L"
      then have "i \<in> ?fr" using i mem by blast
      then show "\<exists>i\<in>set ?xs. it_is T i c N" using i fin by auto
    qed
    then show ?thesis by blast
  qed
  have cong: "sent T (?J ?xs) as E = sent T (\<lambda>c N. I c N \<or> N = L) as E" "lemmas_known T (?J ?xs) A = lemmas_known T (\<lambda>c N. I c N \<or> N = L) A" for as E A
    by (rule sent_cong, erule J)+
  show ?thesis
    unfolding fs_sendFrame_def g wp_bindS[of "liftS (Inr ?fr)"] wp_liftS wpr_Inr
    by (rule wp_mono[OF \<open>?wp\<close>]) (simp only: cong)
qed

subsection \<open>The invariant of the frame solver\<close>

definition fs_filled :: "anyTR \<Rightarrow> inductiveTrace \<Rightarrow> frameSolver \<Rightarrow> bool" where
  "fs_filled t T s = (\<exists>D E. unrolled_ok t D \<and> solver_for (ts_solver s) GLUCOSE (D @ E)
     \<and> sent T (\<lambda>_ _. True) (fs_activation s) E \<and> lemmas_known T (\<lambda>_ _. True) (ts_solver s))"

definition fs_inv :: "anyTR \<Rightarrow> id set \<Rightarrow> nat \<Rightarrow> inductiveTrace \<Rightarrow> frameSolver \<Rightarrow> bool" where
  "fs_inv t V M T s = (ts_tr s = t \<and> fs_acts t V M s \<and> ad_kind (ts_solver s) = GLUCOSE
     \<and> (ts_unrolled s = [] \<or> unrolled_ok t (ts_unrolled s)) \<and> trace_ok V M T \<and> (fs_inited s \<longrightarrow> fs_filled t T s))"

lemma fs_new_wp:
  assumes "vm_owns vm t" "\<forall>v\<in>V. isKnown vm v" "room M vm" "trace_ok V M T"
  shows "wpr (fs_new vm t) (\<lambda>s. fs_inv t V M T s \<and> fs_vars s = vm)"
  unfolding fs_new_def wpr_bindR
  by (rule wpr_mono[OF ad_new_solver]) (use assms in \<open>auto simp: fs_inv_def fs_acts_def solver_for_def\<close>)

lemma upt_split:
  assumes "[0..<n] = ys @ i # zs"
  shows "i = length ys" "i < n"
proof -
  have n: "n = length ys + Suc (length zs)" using arg_cong[OF assms, of length] by simp
  then have "[0..<n] ! length ys = length ys" by (simp del: upt_Suc)
  then show "i = length ys" unfolding assms by simp
  then show "i < n" using n by simp
qed

lemma kind_GLUCOSE: "solver_for A k C \<Longrightarrow> ad_kind A = k"
  by (simp add: solver_for_def)

context sat_backend
begin

lemma fs_renewSAT_wp:
  assumes wf: "tr_wf t" and l: "live opt t" and inv: "fs_inv t V M T s"
  shows "wp (fs_renewSAT B opt T) (\<lambda>_ s'. fs_inv t V M T s' \<and> fs_inited s') s"
proof -
  have I: "ts_tr s = t" "fs_acts t V M s" "ad_kind (ts_solver s) = GLUCOSE" "ts_unrolled s = [] \<or> unrolled_ok t (ts_unrolled s)" "trace_ok V M T"
    using inv by (auto simp: fs_inv_def)
  have tinv: "it_inv T" using I(5) by (simp add: trace_ok_def)
  let ?L = "\<lambda>n c N. N = \<infinity> \<or> N < enat n"
  let ?P = "\<lambda>D J s'. fs_acts t V M s' \<and> solver_same (s\<lparr>ts_unrolled := D\<rparr>) s' \<and> (\<exists>E. solver_for (ts_solver s') GLUCOSE (D @ E)
     \<and> sent T J (fs_activation s') E \<and> lemmas_known T J (ts_solver s'))"
  have step: "wp (fs_sendFrame T L) (\<lambda>_ s'. ?P D (\<lambda>c N. J c N \<or> N = L) s') s1"
    if s1: "?P D J s1" and L: "L = \<infinity> \<or> L < enat (it_numFrames T)" for D J L s1
  proof -
    obtain E where E: "solver_for (ts_solver s1) GLUCOSE (D @ E)" "sent T J (fs_activation s1) E" "lemmas_known T J (ts_solver s1)" using s1 by blast
    show ?thesis
      by (rule wp_mono[OF fs_sendFrame_wp[OF _ I(5) L E]]) (use s1 solver_same_trans in blast)+
  qed
  have fin: "fs_inv t V M T (s'\<lparr>fs_inited := True\<rparr>)"
    if D: "unrolled_ok t D" and s': "?P D (?L (it_numFrames T)) s'" for D s'
  proof -
    obtain E where E: "solver_for (ts_solver s') GLUCOSE (D @ E)" "sent T (?L (it_numFrames T)) (fs_activation s') E"
      "lemmas_known T (?L (it_numFrames T)) (ts_solver s')" using s' by blast
    have all: "?L (it_numFrames T) c N" if lev: "it_lev T c = Some N" for c N
    proof -
      obtain i where "it_is T i c N" using lev unfolding it_lev_is[OF tinv] by (elim exE)
      then show ?thesis by (rule it_is_get(11)[OF tinv])
    qed
    have "sent T (\<lambda>_ _. True) (fs_activation s') E" "lemmas_known T (\<lambda>_ _. True) (ts_solver s')"
      using E(2,3) sent_cong[of T "?L (it_numFrames T)" "\<lambda>_ _. True"] all by simp_all
    then have "fs_filled t T (s'\<lparr>fs_inited := True\<rparr>)" using D E(1) unfolding fs_filled_def by auto
    then show ?thesis using s' I kind_GLUCOSE[OF E(1)] D by (auto simp: fs_inv_def solver_same_def fs_acts_def)
  qed
  show ?thesis
    unfolding fs_renewSAT_def wp_thenS wp_modifyS
  proof (rule wp_mono[OF ts_renew_wp[OF wf l I(1,3,4)]], elim exE conjE, goal_cases)
    case (1 u s0 A D)
    have P0: "?P D (\<lambda>_ _. False) s0" using 1 I(2) by (auto simp: solver_same_def fs_acts_def sent_def lemmas_known_def intro!: exI[of _ "[]"])
    show ?case
    proof (rule wp_mono[OF step[OF P0, of LEVEL_INF]], simp add: LEVEL_INF_def, goal_cases)
      case (1 u s1)
      have c0: "sent T (\<lambda>c N. False \<or> N = LEVEL_INF) as E = sent T (?L 0) as E" "lemmas_known T (\<lambda>c N. False \<or> N = LEVEL_INF) A = lemmas_known T (?L 0) A" for as E A
        by (rule sent_cong, simp add: LEVEL_INF_def zero_enat_def[symmetric])+
      have P1: "?P D (?L (length [])) s1" using 1 by (simp only: c0 list.size)
      have "wp (iterS (\<lambda>i. fs_sendFrame T (enat i)) [0..<it_numFrames T]) (\<lambda>_ s'. ?P D (?L (length [0..<it_numFrames T])) s') s1"
      proof (rule wp_iterS[where I = "\<lambda>ys s'. ?P D (?L (length ys)) s'", OF P1])
        fix i ys zs s2
        assume e: "[0..<it_numFrames T] = ys @ i # zs" and P: "?P D (?L (length ys)) s2"
        note i = upt_split[OF e]
        have c1: "sent T (\<lambda>c N. ?L (length ys) c N \<or> N = enat (length ys)) as E = sent T (?L (length (ys @ [length ys]))) as E"
            "lemmas_known T (\<lambda>c N. ?L (length ys) c N \<or> N = enat (length ys)) A = lemmas_known T (?L (length (ys @ [length ys]))) A" for as E A
          by (rule sent_cong, simp, metis enat_ord_simps(2) less_Suc_eq not_enat_eq enat.inject)+
        show "wp (fs_sendFrame T (enat i)) (\<lambda>_ s'. ?P D (?L (length (ys @ [i]))) s') s2"
          by (rule wp_mono[OF step[OF P, of "enat i"]]) (use i in \<open>simp_all only: c1 enat_ord_simps simp_thms\<close>)
      qed
      then show ?case by (rule wp_mono) (use fin[of D] \<open>unrolled_ok t D\<close> in simp)
    qed
  qed
qed

end

text \<open>A lemma that moves up, or is new.\<close>

lemma fs_addLemma_wp:
  assumes inv: "fs_inv t V M T s" and T': "trace_ok V M T'" "it_lev T' = (it_lev T)(c \<mapsto> L)" "it_is T' i c L"
    and up: "\<And>N. it_lev T c = Some N \<Longrightarrow> N \<le> L"
  shows "wp (fs_addLemma T' i) (\<lambda>_ s'. fs_inv t V M T' s' \<and> fs_inited s' = fs_inited s) s"
proof (cases "fs_inited s")
  case False
  then show ?thesis using inv T'(1) by (simp add: fs_addLemma_def fs_inv_def)
next
  case True
  have I: "ts_tr s = t" "fs_acts t V M s" "ts_unrolled s = [] \<or> unrolled_ok t (ts_unrolled s)" "fs_filled t T s"
    using inv True by (auto simp: fs_inv_def)
  obtain D E where E: "unrolled_ok t D" "solver_for (ts_solver s) GLUCOSE (D @ E)" "sent T (\<lambda>_ _. True) (fs_activation s) E"
    "lemmas_known T (\<lambda>_ _. True) (ts_solver s)" using I(4) by (auto simp: fs_filled_def)
  have sE: "sent T' (\<lambda>d _. d \<noteq> c) (fs_activation s) E"
    unfolding sent_def
  proof (intro conjI ballI allI impI)
    fix e assume "e \<in> set E"
    then obtain d M N where d: "it_lev T d = Some N" "M \<le> N" "act_ok (fs_activation s) M" "e = lemma_clause (fs_activation s) d M"
      using sentD1[OF E(3)] by blast
    show "\<exists>d M N. it_lev T' d = Some N \<and> M \<le> N \<and> act_ok (fs_activation s) M \<and> e = lemma_clause (fs_activation s) d M"
    proof (cases "d = c")
      case True
      then have "M \<le> L" using up d(1,2) by force
      then show ?thesis using d(3,4) True T'(2) by (intro exI[of _ c] exI[of _ M] exI[of _ L]) simp
    next
      case False
      then show ?thesis using d T'(2) by (intro exI[of _ d] exI[of _ M] exI[of _ N]) simp
    qed
  next
    fix d N assume d: "it_lev T' d = Some N" "d \<noteq> c"
    then have "it_lev T d = Some N" using T'(2) by simp
    from sentD2[OF E(3) this] show "act_ok (fs_activation s) N" "lemma_clause (fs_activation s) d N \<in> set E" by simp_all
  qed
  note tl = trace_ok_level[OF T'(1,3)]
  show ?thesis
    unfolding fs_addLemma_def wp_bindS wp_getS if_P[OF True]
  proof (intro wp_mono[OF fs_sendLemma_wp[OF I(2) tl(4) T'(3) tl(1,2) E(2)]], elim conjE, goal_cases)
    case (1 u s1)
    have "sent T' (\<lambda>d N. d \<noteq> c \<or> d = c) (fs_activation s1) (E @ [lemma_clause (fs_activation s1) c L])"
      by (rule sent_add[OF sent_more[OF sE 1(2)] tl(3) 1(3)])
    then have s1: "sent T' (\<lambda>_ _. True) (fs_activation s1) (E @ [lemma_clause (fs_activation s1) c L])" by simp
    have "ad_hasSAT (ts_solver s1) l" if "it_lev T' d = Some N" "l \<in> set d" for d N l
    proof (cases "d = c")
      case False
      then have "it_lev T d = Some N" using T'(2) that(1) by simp
      then have "ad_hasSAT (ts_solver s) l" using E(4) that(2) unfolding lemmas_known_def by blast
      then show ?thesis using 1(5) by blast
    qed (use 1(5) that(2) in blast)
    then have "lemmas_known T' (\<lambda>_ _. True) (ts_solver s1)" unfolding lemmas_known_def by blast
    moreover have "solver_for (ts_solver s1) GLUCOSE (D @ (E @ [lemma_clause (fs_activation s1) c L]))" using 1(4) by simp
    ultimately have "fs_filled t T' s1" unfolding fs_filled_def using E(1) s1 by blast
    then show ?case using 1 I(1,3) kind_GLUCOSE[OF 1(4)] T'(1) True by (simp add: fs_inv_def solver_same_def)
  qed
qed

lemma fs_inv_trace:
  assumes "fs_inv t V M T s" "trace_ok V M T'" "it_lev T' = it_lev T"
  shows "fs_inv t V M T' s"
proof -
  have "sent T' I as E = sent T I as E" "lemmas_known T' I A = lemmas_known T I A" for I as E A
    unfolding sent_def lemmas_known_def assms(3) by simp_all
  then have "fs_filled t T' s = fs_filled t T s" by (simp add: fs_filled_def)
  then show ?thesis using assms(1,2) by (simp add: fs_inv_def)
qed

subsection \<open>What the clauses of the frame solver say\<close>

text \<open>The states of frame \<open>L\<close>: those that no lemma from level \<open>L\<close> on excludes.\<close>

definition in_frame :: "inductiveTrace \<Rightarrow> level \<Rightarrow> assignment \<Rightarrow> bool" where
  "in_frame T L s = (\<forall>c N. it_lev T c = Some N \<longrightarrow> L \<le> N \<longrightarrow> \<not> cube_sat s c)"

lemma lemma_clause_sat:
  "clause_sat \<sigma> (lemma_clause as c L) \<longleftrightarrow> \<not> cube_sat \<sigma> c \<or> (L \<noteq> \<infinity> \<and> lit_true \<sigma> (as ! the_enat L))"
  using clause_sat_negateVec[of \<sigma> c] by (auto simp: lemma_clause_def clause_sat_def)

end
