(* ===== verification/FrameSem.thy ===== *)
theory FrameSem
  imports FrameFill
begin

text \<open>
  What the frame solver answers: \<open>frame_model\<close> and \<open>frame_realize\<close> read its models as transitions from the
  states of a frame and back, \<open>fs_query_wp\<close> combines them with the solver, and
  \<open>fs_consecutionOpts_wp\<close> and \<open>fs_intersectionFull_wp\<close> specify the two queries with the cores and the
  states they return.
\<close>

lemma set_levels_from: "k \<in> set (levels_from L n) \<longleftrightarrow> L \<le> enat k \<and> k < n"
  by (cases L) (auto simp: levels_from_def)

lemma fs_acts_plain:
  assumes "fs_acts t V M s" "a \<in> set (fs_activation s)"
  shows "unprime a = a" "is_valid_id a" "\<not> is_negated a" "strip a = a" "a \<notin> tr_vars t" "a \<notin> V"
proof -
  have "isKnown (fs_vars s) a" "vm_inv (fs_vars s)" using assms by (auto simp: fs_acts_def room_def)
  note p = known_plain[OF this(2,1)]
  then show "unprime a = a" "is_valid_id a" "\<not> is_negated a" "strip a = a" by (simp_all add: strip_id)
  show "a \<notin> tr_vars t" "a \<notin> V" using assms by (auto simp: fs_acts_def)
qed

lemma trace_level_finite:
  assumes "trace_ok V M T" "it_lev T c = Some (enat k)"
  shows "k < it_numFrames T"
proof -
  have inv: "it_inv T" using assms(1) by (simp add: trace_ok_def)
  obtain i where "it_is T i c (enat k)" using assms(2) unfolding it_lev_is[OF inv] by (elim exE)
  from it_is_get(11)[OF inv this] show ?thesis by simp
qed

lemma cube_sat_agree: "strip ` set c \<subseteq> V \<Longrightarrow> (\<And>v. v \<in> V \<Longrightarrow> s v = s' v) \<Longrightarrow> cube_sat s c = cube_sat s' c"
  unfolding cube_sat_def lit_true_def by blast

text \<open>The clauses of the relation, read on pairs of states.\<close>

lemma unrolled_model:
  assumes wf: "tr_wf t" and V: "V \<subseteq> lem_vars t" and D: "unrolled_ok t D" and s: "const_ok \<sigma>" "cnf_sat \<sigma> D"
  shows "\<exists>w w'. tr_trans t w w' \<and> (\<forall>v\<in>V. w v = \<sigma> v \<and> w' v = at_time 1 \<sigma> v)"
proof -
  obtain C F where C: "tr_unroll t 2 = Inr C" "simp_of C F D" "frozen_io t F" using D by (auto simp: unrolled_ok_def)
  obtain \<tau> where t: "\<forall>v\<in>F. \<tau> v = \<sigma> v" "const_ok \<tau>" "cnf_sat \<tau> C" using C(2) s unfolding simp_of_def by auto
  let ?P = "\<lambda>s1 s1'. \<forall>v\<in>V. s1 v = \<sigma> v \<and> s1' v = at_time 1 \<sigma> v"
  have "?P \<tau> (at_time 1 \<tau>)" using t(1) V frozen_io_lem[OF C(3)] by (auto simp: at_time_def)
  then have "\<exists>\<sigma>. const_ok \<sigma> \<and> cnf_sat \<sigma> C \<and> ?P \<sigma> (at_time 1 \<sigma>)" using t(2,3) by blast
  then show ?thesis using unroll2_query[OF wf C(1) lem_vars_plain[OF V], of ?P] by auto
qed

lemma unrolled_realize:
  assumes wf: "tr_wf t" and W: "plain_vars W" and D: "unrolled_ok t D" and s: "tr_trans t w w'"
  shows "\<exists>\<sigma>. const_ok \<sigma> \<and> cnf_sat \<sigma> D \<and> (\<forall>v\<in>W. \<sigma> v = w v \<and> at_time 1 \<sigma> v = w' v)"
proof -
  obtain C F where C: "tr_unroll t 2 = Inr C" "simp_of C F D" using D by (auto simp: unrolled_ok_def)
  let ?P = "\<lambda>s1 s1'. \<forall>v\<in>W. s1 v = w v \<and> s1' v = w' v"
  have "\<exists>\<sigma>. const_ok \<sigma> \<and> cnf_sat \<sigma> C \<and> ?P \<sigma> (at_time 1 \<sigma>)"
  proof (rule unroll2_query[OF wf C(1) W, of ?P, THEN iffD2])
    show "\<exists>s s'. tr_trans t s s' \<and> ?P s s'" by (intro exI[of _ w] exI[of _ w'] conjI s ballI refl)
  qed auto
  then show ?thesis using C(2) by (auto simp: simp_of_def)
qed

lemma frame_model:
  assumes wf: "tr_wf t" and V: "V \<subseteq> lem_vars t" and D: "unrolled_ok t D" "sent T (\<lambda>_ _. True) as E" "trace_ok V M T"
    and s: "const_ok \<sigma>" "cnf_sat \<sigma> (D @ E)" "\<And>k. k \<in> set (levels_from L (it_numFrames T)) \<Longrightarrow> \<not> lit_true \<sigma> (as ! k)"
  shows "\<exists>s s'. tr_trans t s s' \<and> (\<forall>v\<in>V. s v = \<sigma> v \<and> s' v = at_time 1 \<sigma> v) \<and> in_frame T L s"
proof -
  have "cnf_sat \<sigma> D" using s(2) by (simp add: cnf_sat_def)
  then obtain s s' where ss: "tr_trans t s s'" "\<forall>v\<in>V. s v = \<sigma> v \<and> s' v = at_time 1 \<sigma> v"
    using unrolled_model[OF wf V D(1) s(1)] by blast
  have "in_frame T L s"
    unfolding in_frame_def
  proof (intro allI impI)
    fix c N assume c: "it_lev T c = Some N" "L \<le> N"
    have cv: "strip ` set c \<subseteq> V" using D(3) c(1) by (auto simp: trace_ok_def)
    have "lemma_clause as c N \<in> set E" using sentD2[OF D(2) c(1)] by simp
    then have cl: "clause_sat \<sigma> (lemma_clause as c N)" using s(2) by (auto simp: cnf_sat_def)
    have "\<not> cube_sat \<sigma> c"
    proof (cases N)
      case (enat k)
      then have "k \<in> set (levels_from L (it_numFrames T))" using c trace_level_finite[OF D(3)] by (simp add: set_levels_from)
      from s(3)[OF this] show ?thesis using cl enat by (simp add: lemma_clause_sat)
    qed (use cl in \<open>simp add: lemma_clause_sat\<close>)
    moreover have "cube_sat s c = cube_sat \<sigma> c" by (rule cube_sat_agree[OF cv]) (use ss(2) in blast)
    ultimately show "\<not> cube_sat s c" by simp
  qed
  then show ?thesis using ss by blast
qed

lemma frame_realize:
  assumes wf: "tr_wf t" and V: "V \<subseteq> lem_vars t" and D: "unrolled_ok t D" "sent T (\<lambda>_ _. True) (fs_activation fs) E" "trace_ok V M T"
    and a: "fs_acts t V M fs" and s: "tr_trans t s s'" "in_frame T L s"
  shows "\<exists>\<sigma>. const_ok \<sigma> \<and> cnf_sat \<sigma> (D @ E) \<and> (\<forall>v\<in>V. \<sigma> v = s v \<and> at_time 1 \<sigma> v = s' v)
     \<and> (\<forall>k\<in>set (levels_from L (it_numFrames T)). k < length (fs_activation fs) \<longrightarrow> \<not> lit_true \<sigma> (fs_activation fs ! k))"
proof -
  let ?as = "fs_activation fs"
  let ?off = "{?as ! k |k. k \<in> set (levels_from L (it_numFrames T)) \<and> k < length ?as}"
  let ?u = "\<lambda>v. if v \<in> set ?as then v \<notin> ?off else s v"
  note pl = fs_acts_plain[OF a]
  have ag: "v \<in> tr_vars t \<Longrightarrow> ?u v = s v" for v using pl(5) by auto
  have "ID_FALSE \<in> tr_vars t" by (simp add: tr_vars_def)
  then have u: "tr_trans t ?u s'"
    using s(1) frame_ok_agree[of t ?u s, OF ag] step_ok_agree[of t ?u s s' s', OF ag refl] ag[of ID_FALSE]
    unfolding tr_trans_def const_ok_def by simp
  let ?W = "V \<union> set ?as"
  have W: "plain_vars ?W" using lem_vars_plain[OF V] pl unfolding plain_vars_def by blast
  obtain \<sigma> where g: "const_ok \<sigma>" "cnf_sat \<sigma> D" "\<forall>v\<in>?W. \<sigma> v = ?u v" "\<forall>v\<in>V. at_time 1 \<sigma> v = s' v"
    using unrolled_realize[OF wf W D(1) u] by blast
  have V0: "\<sigma> v = s v" if "v \<in> V" for v using g(3) that pl(6) by auto
  have act: "lit_true \<sigma> (?as ! k) \<longleftrightarrow> k \<notin> set (levels_from L (it_numFrames T))" if k: "k < length ?as" for k
  proof -
    have m: "?as ! k \<in> set ?as" using k by simp
    have d: "distinct ?as" using a by (simp add: fs_acts_def)
    have "?as ! k \<in> ?off \<longleftrightarrow> k \<in> set (levels_from L (it_numFrames T))"
      using d k nth_eq_iff_index_eq[OF d] by auto
    then show ?thesis using g(3) m pl(3)[OF m] by (simp add: lit_true_pos)
  qed
  have "clause_sat \<sigma> e" if e: "e \<in> set E" for e
  proof -
    obtain c N K where c: "it_lev T c = Some K" "N \<le> K" "act_ok ?as N" "e = lemma_clause ?as c N" using sentD1[OF D(2) e] by blast
    have cv: "strip ` set c \<subseteq> V" using D(3) c(1) by (auto simp: trace_ok_def)
    have cs: "cube_sat \<sigma> c = cube_sat s c" by (rule cube_sat_agree[OF cv]) (rule V0)
    show ?thesis
    proof (cases "L \<le> N")
      case True
      then have "\<not> cube_sat s c" using s(2) c(1,2) unfolding in_frame_def by (meson order_trans)
      then show ?thesis using cs by (simp add: c(4) lemma_clause_sat)
    next
      case False
      then obtain k where k: "N = enat k" by (cases N) auto
      then have "k < length ?as" "k \<notin> set (levels_from L (it_numFrames T))" using c(3) False by (simp_all add: act_ok_def set_levels_from)
      then show ?thesis using act k by (simp add: c(4) lemma_clause_sat)
    qed
  qed
  then have "cnf_sat \<sigma> (D @ E)" using g(2) by (auto simp: cnf_sat_def)
  then show ?thesis using g(1,4) V0 act by blast
qed

lemma fs_levelAssumps_wp:
  assumes a: "fs_acts t V M s" and n: "it_numFrames T \<le> M"
  shows "wp (fs_levelAssumps T L) (\<lambda>as s'. fs_acts t V M s' \<and> acts_more s s'
     \<and> (\<forall>k\<in>set (levels_from L (it_numFrames T)). k < length (fs_activation s'))
     \<and> as = map (\<lambda>k. negate (fs_activation s' ! k)) (levels_from L (it_numFrames T))) s"
proof -
  have "wp (mapS (\<lambda>i. bindS (fs_levelAct (enat i)) (\<lambda>a. retS (negate a))) ks) (\<lambda>as s'. fs_acts t V M s' \<and> acts_more s s'
     \<and> (\<forall>k\<in>set ks. k < length (fs_activation s')) \<and> as = map (\<lambda>k. negate (fs_activation s' ! k)) ks) s"
    if "\<forall>k\<in>set ks. k < M" "fs_acts t V M s" for ks s
    using that
  proof (induction ks arbitrary: s)
    case Nil
    then show ?case by auto
  next
    case (Cons k ks)
    have k: "k < M" "\<forall>k\<in>set ks. k < M" using Cons.prems(1) by simp_all
    show ?case
      unfolding mapS.simps wp_bindS wp_retS
    proof (rule wp_mono[OF fs_levelAct_wp[OF Cons.prems(2) k(1)]], elim conjE, rule wp_mono[OF Cons.IH[OF k(2)]], assumption, elim conjE, goal_cases)
      case (1 a s1 as s2)
      obtain bs where "fs_activation s2 = fs_activation s1 @ bs" using 1(6) by (auto simp: acts_more_def solver_same_def)
      then have "k < length (fs_activation s2)" "fs_activation s2 ! k = a" using 1(3,4) by (simp_all add: nth_append)
      then show ?case using 1 acts_more_trans by auto
    qed
  qed
  from this[OF _ a, of "levels_from L (it_numFrames T)"] show ?thesis
    unfolding fs_levelAssumps_def using n by (auto simp: set_levels_from)
qed

subsection \<open>Reading a model\<close>

definition known_cube :: "adaptor \<Rightarrow> assignment \<Rightarrow> nat \<Rightarrow> id list \<Rightarrow> cube" where
  "known_cube A \<sigma> n vars = map (\<lambda>i. if \<sigma> (prime_body n i) then i else negate i) (filter (\<lambda>i. ad_hasSAT A (prime_body n i)) vars)"

lemma extractVars_known:
  assumes "ad_model A \<sigma>" "n \<le> MAX_PRIMES" "\<forall>i\<in>set vars. \<not> is_negated i \<and> unprime i = i"
  shows "fs_extractVars A vars n = Inr (known_cube A \<sigma> n vars)"
  using assms(3)
proof (induction vars)
  case (Cons i vars)
  have i: "\<not> is_negated i" "unprime i = i" using Cons.prems by simp_all
  let ?p = "prime_body n i"
  have "ad_safeGetAssignmentToVar A ?p = Inr (if ad_hasSAT A ?p then (if \<sigma> ?p then MV_TRUE else MV_FALSE) else MV_UNDEF)"
    using assms(1) i by (simp add: ad_safeGetAssignmentToVar_def ad_model_def lit_true_pos)
  then show ?case using Cons i by (simp add: assms(2) known_cube_def)
qed (simp add: known_cube_def)

lemma known_cube_sat:
  assumes "\<forall>i\<in>set vars. \<not> is_negated i"
  shows "cube_sat s (known_cube A \<sigma> n vars) \<longleftrightarrow> (\<forall>v\<in>set vars. ad_hasSAT A (prime_body n v) \<longrightarrow> s v = \<sigma> (prime_body n v))"
proof -
  have "lit_true s (if b then i else negate i) = (s i = b)" if "\<not> is_negated i" for i b using that by (simp add: lit_true_pos)
  then have "(\<forall>i\<in>set vars. ad_hasSAT A (prime_body n i) \<longrightarrow> lit_true s (if \<sigma> (prime_body n i) then i else negate i))
     = (\<forall>v\<in>set vars. ad_hasSAT A (prime_body n v) \<longrightarrow> s v = \<sigma> (prime_body n v))" using assms by blast
  then show ?thesis by (auto simp: cube_sat_def known_cube_def)
qed

lemma known_cube_vars: "\<forall>i\<in>set vars. \<not> is_negated i \<Longrightarrow> strip ` set (known_cube A \<sigma> n vars) \<subseteq> set vars"
  by (auto simp: known_cube_def strip_id)

definition latch_lemma :: "anyTR \<Rightarrow> inductiveTrace \<Rightarrow> bool" where
  "latch_lemma t T = (tr_latchIDs (baseTR t) = [] \<or> (\<exists>c L l. it_lev T c = Some L \<and> l \<in> set c \<and> strip l \<in> set (tr_latchIDs (baseTR t))))"

lemma io_plain:
  assumes "tr_wf t"
  shows "\<forall>i\<in>set (tr_latchIDs (baseTR t)). \<not> is_negated i \<and> unprime i = i"
    "\<forall>i\<in>set (tr_inputIDs (baseTR t)). \<not> is_negated i \<and> unprime i = i"
  using io_tr[OF assms] by (auto simp: io_vars_def)

lemma extract_wp:
  assumes wf: "tr_wf t" and s: "ts_tr s = t" and A: "ad_model (ts_solver s) \<sigma>"
    and k: "lemmas_known T (\<lambda>_ _. True) A0" "latch_lemma t T" "\<forall>v. ad_hasSAT A0 v \<longrightarrow> ad_hasSAT (ts_solver s) v"
  shows "fs_extractPredecessor s = Inr (known_cube (ts_solver s) \<sigma> 0 (tr_latchIDs (baseTR t)))"
    "tr_latchIDs (baseTR t) \<noteq> [] \<Longrightarrow> known_cube (ts_solver s) \<sigma> 0 (tr_latchIDs (baseTR t)) \<noteq> []"
    "fs_extractInputs s = Inr (known_cube (ts_solver s) \<sigma> 0 (tr_inputIDs (baseTR t)))"
    "fs_extractPrimedInputs s = Inr (known_cube (ts_solver s) \<sigma> 1 (tr_inputIDs (baseTR t)))"
proof -
  have M: "ad_isSAT (ts_solver s)" using A by (simp add: ad_model_def)
  have n: "0 \<le> MAX_PRIMES" "1 \<le> MAX_PRIMES" by (simp_all add: MAX_PRIMES_def)
  show ne: "known_cube (ts_solver s) \<sigma> 0 (tr_latchIDs (baseTR t)) \<noteq> []" if la: "tr_latchIDs (baseTR t) \<noteq> []"
  proof -
    obtain c L l where c: "it_lev T c = Some L" "l \<in> set c" "strip l \<in> set (tr_latchIDs (baseTR t))"
      using k(2) la unfolding latch_lemma_def by blast
    have "ad_hasSAT A0 l" using k(1) c(1,2) unfolding lemmas_known_def by blast
    then have "ad_hasSAT (ts_solver s) (strip l)" using k(3) by (auto simp: ad_hasSAT_def)
    then show ?thesis using c(3) by (auto simp: known_cube_def filter_empty_conv)
  qed
  show "fs_extractPredecessor s = Inr (known_cube (ts_solver s) \<sigma> 0 (tr_latchIDs (baseTR t)))"
    using ne M by (cases "tr_latchIDs (baseTR t) = []", simp_all add: known_cube_def[of _ _ _ "[]"] fs_extractPredecessor_def fs_extract_def s extractVars_known[OF A n(1) io_plain(1)[OF wf]])
  show "fs_extractInputs s = Inr (known_cube (ts_solver s) \<sigma> 0 (tr_inputIDs (baseTR t)))"
    "fs_extractPrimedInputs s = Inr (known_cube (ts_solver s) \<sigma> 1 (tr_inputIDs (baseTR t)))"
    using M by (simp_all add: fs_extractInputs_def fs_extractPrimedInputs_def fs_extract_def s
        extractVars_known[OF A n(1) io_plain(2)[OF wf]] extractVars_known[OF A n(2) io_plain(2)[OF wf]] del: One_nat_def)
qed

subsection \<open>Determinism\<close>

text \<open>Latches and inputs determine the gates; the gates can be filled in for all their values.\<close>

definition det :: "anyTR \<Rightarrow> bool" where
  "det t = (\<forall>s s'. const_ok s \<longrightarrow> const_ok s' \<longrightarrow> frame_ok t s \<longrightarrow> frame_ok t s' \<longrightarrow> (\<forall>v\<in>io_vars t. s v = s' v) \<longrightarrow> (\<forall>v\<in>tr_vars t. s v = s' v))"

lemma detD: "det t \<Longrightarrow> const_ok s \<Longrightarrow> const_ok s' \<Longrightarrow> frame_ok t s \<Longrightarrow> frame_ok t s' \<Longrightarrow> (\<And>v. v \<in> io_vars t \<Longrightarrow> s v = s' v)
   \<Longrightarrow> v \<in> tr_vars t \<Longrightarrow> s v = s' v"
  unfolding det_def by blast

lemma latch_ids: "tr_wf t \<Longrightarrow> v \<in> set (tr_latchIDs (baseTR t)) \<Longrightarrow> \<exists>l. (v, l) \<in> set (tr_latches (baseTR t))"
  unfolding tr_wf_def by auto

lemma next_in_vars: "(k, l) \<in> set (tr_latches (baseTR t)) \<Longrightarrow> strip (la_next l) \<in> tr_vars t"
  by (auto simp: tr_vars_def)

lemma det_trans:
  assumes d: "det t" and wf: "tr_wf t" and a: "tr_trans t s s'" "tr_trans t w w'"
    and io: "\<And>v. v \<in> io_vars t \<Longrightarrow> s v = w v" and inp: "\<And>v. v \<in> set (tr_inputIDs (baseTR t)) \<Longrightarrow> s' v = w' v"
  shows "v \<in> tr_vars t \<Longrightarrow> s v = w v" "v \<in> tr_vars t \<Longrightarrow> s' v = w' v"
proof -
  have A: "const_ok s" "const_ok s'" "frame_ok t s" "frame_ok t s'" "step_ok t s s'" "const_ok w" "const_ok w'" "frame_ok t w" "frame_ok t w'" "step_ok t w w'"
    using a by (simp_all add: tr_trans_def)
  have eq: "s v = w v" if "v \<in> tr_vars t" for v by (rule detD[OF d A(1,6,3,8) io that])
  then show "v \<in> tr_vars t \<Longrightarrow> s v = w v" .
  have "s' v = w' v" if v: "v \<in> io_vars t" for v
  proof (cases "v \<in> set (tr_latchIDs (baseTR t))")
    case True
    obtain l where l: "(v, l) \<in> set (tr_latches (baseTR t))" using latch_ids[OF wf True] by blast
    have n: "\<not> is_negated v" using tr_latch_wf(3)[OF wf l] .
    have "lit_true s (la_next l) = lit_true w (la_next l)"
      by (rule lit_true_cong) (rule eq[OF next_in_vars[OF l]])
    then show ?thesis using A(5,10) l n unfolding step_ok_def by (fastforce simp: lit_true_pos)
  qed (use v inp in \<open>auto simp: io_vars_def\<close>)
  then show "v \<in> tr_vars t \<Longrightarrow> s' v = w' v" by (rule detD[OF d A(2,7,4,9)])
qed

subsection \<open>Cores\<close>

lemma nprimes_unprime_eq:
  assumes "unprime l = unprime m" "nprimes l = nprimes m"
  shows "l = m"
proof (rule bit_word_eqI)
  fix n assume n: "n < LENGTH(64)"
  show "bit l n = bit m n"
  proof (cases "n < 48")
    case True
    then show ?thesis using arg_cong[OF assms(1), of "\<lambda>x. bit x n"] by (simp add: bit_unprime)
  next
    case False
    have p: "bit (nprimes l) (n - 48) = bit l n" for l
      using False n by (auto simp: nprimes_def PRIMES_MASK_def MAX_ID_mask PRIME_SHIFT_def bit_drop_bit_eq bit_and_iff bit_not_iff bit_mask_iff)
    show ?thesis using arg_cong[OF assms(2), of "\<lambda>x. bit x (n - 48)"] by (simp add: p)
  qed
qed

lemma extractCore_set: "set (extractCoreWithPrimes c crits n) = {unprime l |l. l \<in> set crits \<and> nprimes l = of_nat n \<and> unprime l \<in> set c}"
  by (induction c crits n rule: extractCoreWithPrimes.induct) auto

lemma extractCore_distinct: "distinct crits \<Longrightarrow> distinct (extractCoreWithPrimes c crits n)"
proof (induction c crits n rule: extractCoreWithPrimes.induct)
  case (2 c lit crits n)
  have "unprime lit \<notin> set (extractCoreWithPrimes c crits n)" if "nprimes lit = of_nat n"
    using 2(4) that nprimes_unprime_eq[of lit] unfolding extractCore_set by auto
  then show ?case using 2 by auto
qed simp

lemma plain_lit_prime:
  assumes "plain_vars V" "strip l \<in> V" "strip l \<noteq> ID_FALSE"
  shows "nprimes l = 0" "nprimes (prime1 l) = 1" "unprime l = l"
proof -
  have s: "unprime (strip l) = strip l" "is_valid_id (strip l)" "\<not> is_negated (strip l)" using assms(1,2) by (auto simp: plain_vars_def)
  have c: "strip l = l \<or> l = negate (strip l)" by (simp add: strip_def)
  then show u: "unprime l = l" by (metis s(1) unprime_negate)
  then show "nprimes l = 0" by (rule nprimes_unprimed)
  have "4 \<le> strip l" using s(2,3) assms(3) by (auto simp: is_valid_id_def ID_TRUE_val is_negated_def MIN_ID_val)
  then have "nprimes (prime1 (strip l)) = 1" using nprimes_prime_body[OF s(1) _, of 1] by (simp add: MAX_PRIMES_def)
  moreover have "nprimes (negate i) = nprimes i" for i
    by (rule bit_word_eqI) (auto simp: nprimes_def PRIME_SHIFT_def bit_drop_bit_eq bit_and_iff bit_negate)
  ultimately show "nprimes (prime1 l) = 1" using c by (metis prime_body_negate)
qed

lemma core_step:
  assumes V: "plain_vars V" "strip ` set c \<subseteq> V" "ID_FALSE \<notin> strip ` set c" and d: "l \<in> set crits" "l \<in> set (map prime1 c)"
  shows "unprime l \<in> set (extractCoreWithPrimes c crits 1)" "prime1 (unprime l) = l"
proof -
  obtain x where x: "x \<in> set c" "l = prime1 x" using d(2) by auto
  have sx: "strip x \<in> V" "strip x \<noteq> ID_FALSE" using V(2,3) imageI[OF x(1), of strip] by auto
  note p = plain_lit_prime[OF V(1) sx]
  show "unprime l \<in> set (extractCoreWithPrimes c crits 1)" "prime1 (unprime l) = l"
    using p x d(1) unfolding extractCore_set by (auto intro!: exI[of _ "prime1 x"] simp del: One_nat_def)
qed

subsection \<open>Queries of the frame solver\<close>

context sat_backend
begin

lemma fs_query_wp:
  assumes wf: "tr_wf t" and V: "V \<subseteq> lem_vars t" and inv: "fs_inv t V M T s" and "fs_inited s"
    and acts: "\<forall>k\<in>set (levels_from L (it_numFrames T)). k < length (fs_activation s)"
    and as: "as = map (\<lambda>k. negate (fs_activation s ! k)) (levels_from L (it_numFrames T))" and b: "b \<Longrightarrow> c \<noteq> []"
  shows "wp (ts_onSolver (bindS (if b then ad_withGroup c else retS GROUP_NULL) (\<lambda>g. ad_groupSolve B g (as @ X)))) (\<lambda>(r, crits) s'.
     fs_inv t V M T s' \<and> fs_inited s' \<and> solver_same s s' \<and> ad_isSAT (ts_solver s') = r
     \<and> lemmas_known T (\<lambda>_ _. True) (ts_solver s')
     \<and> (r \<longrightarrow> (\<exists>\<sigma>. ad_model (ts_solver s') \<sigma> \<and> const_ok \<sigma> \<and> (\<forall>\<sigma>'. (\<forall>v. ad_hasSAT (ts_solver s') v \<longrightarrow> \<sigma>' v = \<sigma> v) \<longrightarrow>
         (\<exists>w w'. tr_trans t w w' \<and> (\<forall>v\<in>V. w v = \<sigma>' v \<and> w' v = at_time 1 \<sigma>' v) \<and> in_frame T L w)
         \<and> (b \<longrightarrow> clause_sat \<sigma>' c) \<and> cube_sat \<sigma>' X)))
     \<and> (\<not> r \<longrightarrow> distinct crits \<and> set crits \<subseteq> set as \<union> set X \<and> (\<forall>w w'. tr_trans t w w' \<longrightarrow> in_frame T L w \<longrightarrow>
         (\<exists>\<sigma>. const_ok \<sigma> \<and> (\<forall>v\<in>V. \<sigma> v = w v \<and> at_time 1 \<sigma> v = w' v) \<and> ((b \<longrightarrow> clause_sat \<sigma> c) \<longrightarrow> (\<exists>l\<in>set crits. l \<in> set X \<and> \<not> lit_true \<sigma> l)))))) s"
proof -
  have I: "ts_tr s = t" "fs_acts t V M s" "ts_unrolled s = [] \<or> unrolled_ok t (ts_unrolled s)" "trace_ok V M T" "fs_filled t T s"
    using inv assms(4) by (auto simp: fs_inv_def)
  obtain D E where E: "unrolled_ok t D" "solver_for (ts_solver s) GLUCOSE (D @ E)" "sent T (\<lambda>_ _. True) (fs_activation s) E"
    "lemmas_known T (\<lambda>_ _. True) (ts_solver s)" using I(5) by (auto simp: fs_filled_def)
  let ?ks = "levels_from L (it_numFrames T)"
  have asS: "cube_sat \<sigma> as \<longleftrightarrow> (\<forall>k\<in>set ?ks. \<not> lit_true \<sigma> (fs_activation s ! k))" for \<sigma>
    by (auto simp: as cube_sat_def)
  show ?thesis
    unfolding ts_onSolver_def wp_zoomS
  proof (rule wp_mono[OF solver_for_groupSolve[OF E(2) b]], goal_cases)
    case 1 then show ?case .
  next
    case (2 r A)
    obtain sat crits where r: "r = (sat, crits)" by (cases r)
    let ?s = "s\<lparr>ts_solver := A\<rparr>"
    have A: "solver_for A GLUCOSE (D @ E)" "ad_isSAT A = sat" "\<forall>v. ad_hasSAT (ts_solver s) v \<longrightarrow> ad_hasSAT A v" using 2 r by auto
    have lk: "lemmas_known T (\<lambda>_ _. True) A" using E(4) A(3) unfolding lemmas_known_def by blast
    have "fs_filled t T ?s" unfolding fs_filled_def using E(1,3) A(1) lk by auto
    then have inv': "fs_inv t V M T ?s" using inv kind_GLUCOSE[OF A(1)] by (auto simp: fs_inv_def fs_acts_def)
    have S: "\<exists>\<sigma>. ad_model A \<sigma> \<and> const_ok \<sigma> \<and> (\<forall>\<sigma>'. (\<forall>v. ad_hasSAT A v \<longrightarrow> \<sigma>' v = \<sigma> v) \<longrightarrow>
         (\<exists>w w'. tr_trans t w w' \<and> (\<forall>v\<in>V. w v = \<sigma>' v \<and> w' v = at_time 1 \<sigma>' v) \<and> in_frame T L w)
         \<and> (b \<longrightarrow> clause_sat \<sigma>' c) \<and> cube_sat \<sigma>' X)" if sat: sat
    proof -
      obtain \<sigma> where m: "ad_model A \<sigma>" "const_ok \<sigma>" "\<And>\<sigma>'. (\<forall>v. ad_hasSAT A v \<longrightarrow> \<sigma>' v = \<sigma> v) \<Longrightarrow>
          const_ok \<sigma>' \<and> cnf_sat \<sigma>' ((D @ E) @ opt_clause b c) \<and> cube_sat \<sigma>' (as @ X)" using 2 r sat by auto
      have "(\<exists>w w'. tr_trans t w w' \<and> (\<forall>v\<in>V. w v = \<sigma>' v \<and> w' v = at_time 1 \<sigma>' v) \<and> in_frame T L w)
         \<and> (b \<longrightarrow> clause_sat \<sigma>' c) \<and> cube_sat \<sigma>' X" if ag: "\<forall>v. ad_hasSAT A v \<longrightarrow> \<sigma>' v = \<sigma> v" for \<sigma>'
      proof -
        have s': "const_ok \<sigma>'" "cnf_sat \<sigma>' (D @ E)" "cnf_sat \<sigma>' (opt_clause b c)" "cube_sat \<sigma>' as" "cube_sat \<sigma>' X"
          using m(3)[OF ag] by (auto simp: cnf_sat_def cube_sat_def)
        have "\<exists>w w'. tr_trans t w w' \<and> (\<forall>v\<in>V. w v = \<sigma>' v \<and> w' v = at_time 1 \<sigma>' v) \<and> in_frame T L w"
          by (rule frame_model[OF wf V E(1,3) I(4) s'(1,2)]) (use s'(4) asS in blast)
        then show ?thesis using s'(3,5) by (auto simp: opt_clause_def)
      qed
      then show ?thesis using m(1,2) by blast
    qed
    have U: "\<exists>\<sigma>. const_ok \<sigma> \<and> (\<forall>v\<in>V. \<sigma> v = w v \<and> at_time 1 \<sigma> v = w' v) \<and> ((b \<longrightarrow> clause_sat \<sigma> c) \<longrightarrow> (\<exists>l\<in>set crits. l \<in> set X \<and> \<not> lit_true \<sigma> l))"
      if ns: "\<not> sat" and w: "tr_trans t w w'" "in_frame T L w" for w w'
    proof -
      have u: "set crits \<subseteq> set (as @ X)" "\<And>\<sigma>. const_ok \<sigma> \<Longrightarrow> cnf_sat \<sigma> ((D @ E) @ opt_clause b c) \<Longrightarrow> \<not> cube_sat \<sigma> crits" using 2 r ns by auto
      obtain \<sigma> where g: "const_ok \<sigma>" "cnf_sat \<sigma> (D @ E)" "\<forall>v\<in>V. \<sigma> v = w v \<and> at_time 1 \<sigma> v = w' v"
        "\<forall>k\<in>set ?ks. k < length (fs_activation s) \<longrightarrow> \<not> lit_true \<sigma> (fs_activation s ! k)"
        using frame_realize[OF wf V E(1,3) I(4,2) w] by blast
      have "cube_sat \<sigma> as" using g(4) acts asS by blast
      then have "\<exists>l\<in>set crits. l \<in> set X \<and> \<not> lit_true \<sigma> l" if "b \<longrightarrow> clause_sat \<sigma> c"
      proof -
        have "cnf_sat \<sigma> ((D @ E) @ opt_clause b c)" using g(2) that by (auto simp: opt_clause_def cnf_sat_def)
        from u(2)[OF g(1) this] obtain l where l: "l \<in> set crits" "\<not> lit_true \<sigma> l" by (auto simp: cube_sat_def)
        then have "l \<notin> set as" using \<open>cube_sat \<sigma> as\<close> by (auto simp: cube_sat_def)
        then show ?thesis using l u(1) by auto
      qed
      then show ?thesis using g(1,3) by blast
    qed
    have C: "distinct crits \<and> set crits \<subseteq> set as \<union> set X" if "\<not> sat" using 2 r that by auto
    show ?case unfolding r prod.case using inv' assms(4) lk S U C A(2) by (simp add: solver_same_def)
  qed
qed

end

definition cube_on :: "id set \<Rightarrow> cube \<Rightarrow> bool" where
  "cube_on V c = (c \<noteq> [] \<and> strip ` set c \<subseteq> V \<and> ID_FALSE \<notin> strip ` set c)"

definition consec_post :: "anyTR \<Rightarrow> inductiveTrace \<Rightarrow> consecOptions \<Rightarrow> consecResult \<Rightarrow> bool" where
  "consec_post t T co r = (
     (cr_cons r \<longrightarrow> distinct (cr_core r) \<and> set (cr_core r) \<subseteq> set (co_c co) \<and> (\<forall>w w'. tr_trans t w w' \<longrightarrow> in_frame T (co_level co) w \<longrightarrow>
         \<not> cube_sat w (co_c co) \<longrightarrow> \<not> cube_sat w' (co_c co) \<and> (co_core co \<longrightarrow> \<not> cube_sat w' (cr_core r))))
   \<and> (\<not> cr_cons r \<longrightarrow> (\<exists>w w'. tr_trans t w w' \<and> in_frame T (co_level co) w \<and> \<not> cube_sat w (co_c co) \<and> cube_sat w' (co_c co)
         \<and> cube_sat w (cr_pred r @ cr_inp r) \<and> cube_sat w' (cr_pinp r))
       \<and> (co_pred co \<longrightarrow> tr_latchIDs (baseTR t) \<noteq> [] \<longrightarrow> cr_pred r \<noteq> []) \<and> strip ` set (cr_pred r) \<subseteq> set (tr_latchIDs (baseTR t))
       \<and> strip ` set (cr_inp r) \<subseteq> set (tr_inputIDs (baseTR t)) \<and> strip ` set (cr_pinp r) \<subseteq> set (tr_inputIDs (baseTR t))
       \<and> (det t \<longrightarrow> co_pred co \<longrightarrow> co_inp co \<longrightarrow> co_pinp co \<longrightarrow> strip ` set (co_c co) \<subseteq> tr_vars t \<longrightarrow>
           (\<forall>w w'. tr_trans t w w' \<longrightarrow> cube_sat w (cr_pred r @ cr_inp r) \<longrightarrow> cube_sat w' (cr_pinp r) \<longrightarrow> cube_sat w' (co_c co)))))"

text \<open>A model up to the variables the solver knows: whatever agrees with the cubes read from it.\<close>

lemma known_fixes:
  assumes wf: "tr_wf t" and V: "io_vars t \<subseteq> V" "plain_vars V" and d: "det t"
    and m: "\<And>\<sigma>'. (\<forall>v. ad_hasSAT A v \<longrightarrow> \<sigma>' v = \<sigma> v) \<Longrightarrow> \<exists>w w'. tr_trans t w w' \<and> (\<forall>v\<in>V. w v = \<sigma>' v \<and> w' v = at_time 1 \<sigma>' v) \<and> P \<sigma>'"
    and w: "tr_trans t w w'" "cube_sat w (known_cube A \<sigma> 0 (tr_latchIDs (baseTR t)))" "cube_sat w (known_cube A \<sigma> 0 (tr_inputIDs (baseTR t)))"
      "cube_sat w' (known_cube A \<sigma> 1 (tr_inputIDs (baseTR t)))"
  shows "\<exists>\<sigma>'. P \<sigma>' \<and> (\<forall>v\<in>V \<inter> tr_vars t. w v = \<sigma>' v \<and> w' v = at_time 1 \<sigma>' v)"
proof -
  let ?g = "\<lambda>v. if ad_hasSAT A v then \<sigma> v else if unprime v = v then w v else w' (unprime v)"
  obtain u u' where u: "tr_trans t u u'" "\<forall>v\<in>V. u v = ?g v \<and> u' v = at_time 1 ?g v" "P ?g" using m[of ?g] by auto
  have n1: "\<forall>i\<in>set (tr_latchIDs (baseTR t)). \<not> is_negated i" "\<forall>i\<in>set (tr_inputIDs (baseTR t)). \<not> is_negated i"
    using io_plain[OF wf] by auto
  have io: "u v = w v" if v: "v \<in> io_vars t" for v
  proof -
    have k: "ad_hasSAT A v \<longrightarrow> w v = \<sigma> v"
      using v w(2,3) unfolding known_cube_sat[OF n1(1)] known_cube_sat[OF n1(2)] io_vars_def by auto
    have "v \<in> V" using v V(1) by blast
    then have "u v = ?g v" "unprime v = v" using u(2) V(2) by (auto simp: plain_vars_def)
    then show ?thesis using k by auto
  qed
  have inp: "u' v = w' v" if v: "v \<in> set (tr_inputIDs (baseTR t))" for v
  proof -
    have k: "ad_hasSAT A (prime1 v) \<longrightarrow> w' v = \<sigma> (prime1 v)" using v w(4) unfolding known_cube_sat[OF n1(2)] by auto
    have vV: "v \<in> V" using v V(1) by (auto simp: io_vars_def)
    then have g: "u' v = ?g (prime1 v)" "unprime v = v" "is_valid_id v" "\<not> is_negated v" using u(2) V(2) by (auto simp: plain_vars_def at_time_def)
    show ?thesis
    proof (cases "v = ID_FALSE")
      case True
      then show ?thesis using u(1) w(1) by (simp add: tr_trans_def const_ok_def)
    next
      case False
      then have "nprimes (prime1 v) = 1" using plain_lit_prime(2)[OF V(2), of v] vV g(4) by (simp add: strip_id)
      then have "unprime (prime1 v) \<noteq> prime1 v" using nprimes_unprimed[of "prime1 v"] by (metis zero_neq_one)
      then show ?thesis using g k by auto
    qed
  qed
  have "w v = ?g v \<and> w' v = at_time 1 ?g v" if v: "v \<in> V \<inter> tr_vars t" for v
  proof -
    have "u v = w v" "u' v = w' v" using det_trans[OF d wf u(1) w(1) io inp, of v] v by blast+
    then show ?thesis using u(2) v by auto
  qed
  then show ?thesis using u(3) by blast
qed

lemma fs_inv_more:
  assumes "fs_inv t V M T s" "acts_more s s'" "fs_acts t V M s'"
  shows "fs_inv t V M T s' \<and> fs_inited s' = fs_inited s"
proof -
  have m: "ts_solver s' = ts_solver s" "solver_same s s'" using assms(2) by (auto simp: acts_more_def)
  have "fs_filled t T s'" if "fs_filled t T s"
  proof -
    obtain D E where E: "unrolled_ok t D" "solver_for (ts_solver s) GLUCOSE (D @ E)" "sent T (\<lambda>_ _. True) (fs_activation s) E"
      "lemmas_known T (\<lambda>_ _. True) (ts_solver s)" using \<open>fs_filled t T s\<close> by (auto simp: fs_filled_def)
    have "sent T (\<lambda>_ _. True) (fs_activation s') E" by (rule sent_more[OF E(3) m(2)])
    then show ?thesis unfolding fs_filled_def m(1) using E(1,2,4) by blast
  qed
  then show ?thesis using assms m by (simp add: fs_inv_def solver_same_def)
qed

lemma cube_lits_agree: "strip ` set c \<subseteq> V \<Longrightarrow> (\<And>v. v \<in> V \<Longrightarrow> s v = s' v) \<Longrightarrow> l \<in> set c \<Longrightarrow> lit_true s l = lit_true s' l"
  unfolding lit_true_def by blast

context sat_backend
begin

lemma fs_ready_wp:
  assumes wf: "tr_wf t" and l: "live opt t" and inv: "fs_inv t V M T s"
  shows "wp (bindS getS (\<lambda>s. thenS (if \<not> fs_inited s then fs_renewSAT B opt T else retS ()) (bindS getS (\<lambda>s. thenS (assertS (fs_inited s)) (retS ())))))
     (\<lambda>_ s'. fs_inv t V M T s' \<and> fs_inited s') s"
proof (cases "fs_inited s")
  case False
  show ?thesis using False wp_mono[OF fs_renewSAT_wp[OF wf l inv], of "\<lambda>_ s'. fs_inited s' \<and> fs_inv t V M T s' \<and> fs_inited s'"] by simp
qed (use inv in simp)

lemma fs_consecutionOpts_wp:
  assumes wf: "tr_wf t" and l: "live opt t" and V: "V \<subseteq> lem_vars t" "io_vars t \<subseteq> V" and inv: "fs_inv t V M T s"
    and c: "cube_on V (co_c co)" and ll: "latch_lemma t T"
  shows "wp (fs_consecutionOpts B opt T co) (\<lambda>r s'. fs_inv t V M T s' \<and> fs_inited s' \<and> consec_post t T co r) s"
proof -
  let ?c = "co_c co"
  let ?L = "co_level co"
  have cV: "strip ` set ?c \<subseteq> V" "ID_FALSE \<notin> strip ` set ?c" "?c \<noteq> []" using c by (auto simp: cube_on_def)
  have pV: "plain_vars V" by (rule lem_vars_plain[OF V(1)])
  have np: "\<forall>l\<in>set ?c. nprimes l = 0"
  proof
    fix l assume "l \<in> set ?c"
    then have "strip l \<in> strip ` set ?c" by (rule imageI)
    then have "strip l \<in> V" "strip l \<noteq> ID_FALSE" using cV(1,2) by (blast, metis)
    then show "nprimes l = 0" by (rule plain_lit_prime(1)[OF pV])
  qed
  have n1: "1 \<le> MAX_PRIMES" by (simp add: MAX_PRIMES_def)
  have pr: "mapR (\<lambda>lit. prime lit 1) ?c = Inr (map prime1 ?c)" by (rule mapR_total) (simp add: n1 del: One_nat_def)
  have neg: "clause_sat \<sigma> (map negate ?c) = (\<not> cube_sat \<sigma> ?c)" for \<sigma> by (auto simp: clause_sat_def cube_sat_def)
  have nio: "\<forall>i\<in>set (tr_latchIDs (baseTR t)). \<not> is_negated i" "\<forall>i\<in>set (tr_inputIDs (baseTR t)). \<not> is_negated i"
    using io_plain[OF wf] by auto
  have main: "wp (bindS (fs_levelAssumps T ?L) (\<lambda>assumps. thenS (assertS (\<forall>lit\<in>set ?c. nprimes lit = 0))
     (bindS (liftS (mapR (\<lambda>lit. prime lit 1) ?c)) (\<lambda>c'.
     (bindS (ts_onSolver (bindS (ad_withGroup (map negate ?c)) (\<lambda>gid. ad_groupSolve B gid (assumps @ c')))) (\<lambda>(sat, crits).
      bindS getS (\<lambda>s.
      bindS (liftS (if co_pred co \<and> sat then fs_extractPredecessor s else Inr [])) (\<lambda>pred.
      bindS (liftS (if co_inp co \<and> sat then fs_extractInputs s else Inr [])) (\<lambda>inp.
      bindS (liftS (if co_pinp co \<and> sat then fs_extractPrimedInputs s else Inr [])) (\<lambda>pinp.
      retS \<lparr>cr_cons = \<not> sat, cr_pred = pred, cr_inp = inp, cr_pinp = pinp,
        cr_core = (if co_core co \<and> \<not> sat then extractCoreWithPrimes ?c crits 1 else [])\<rparr>)))))))))) (\<lambda>r s'. fs_inv t V M T s' \<and> fs_inited s' \<and> consec_post t T co r) s"
    if inv: "fs_inv t V M T s" and ini: "fs_inited s" for s
  proof -
    have I: "fs_acts t V M s" "it_numFrames T \<le> M" using inv by (auto simp: fs_inv_def trace_ok_def)
    show ?thesis
      unfolding wp_bindS wp_thenS wp_assertS
    proof (intro wp_mono[OF fs_levelAssumps_wp[OF I]], elim conjE, goal_cases)
      case (1 as s1)
      then have s1: "fs_inv t V M T s1" "fs_inited s1" using fs_inv_more[OF inv] ini by blast+
      have acts: "\<forall>k\<in>set (levels_from ?L (it_numFrames T)). k < length (fs_activation s1)"
        and as: "as = map (\<lambda>k. negate (fs_activation s1 ! k)) (levels_from ?L (it_numFrames T))" using 1 by blast+
      note q = fs_query_wp[OF wf V(1) s1 acts as, of True "map negate ?c" "map prime1 ?c", unfolded if_True]
      show ?case
      proof (intro conjI np, unfold pr wp_liftS wpr_Inr, intro wp_mono[OF q], goal_cases)
        case 1
        then show ?case using cV(3) by simp
      next
        case (2 r s2)
        obtain sat crits where r: "r = (sat, crits)" by (cases r)
        have s2: "fs_inv t V M T s2" "fs_inited s2" "ad_isSAT (ts_solver s2) = sat" "lemmas_known T (\<lambda>_ _. True) (ts_solver s2)"
          using 2 r by auto
        have t2: "ts_tr s2 = t" using s2(1) by (simp add: fs_inv_def)
        show ?case
        proof (cases sat)
          case False
          have u: "distinct crits" "\<And>w w'. tr_trans t w w' \<Longrightarrow> in_frame T ?L w \<Longrightarrow>
              \<exists>\<sigma>. const_ok \<sigma> \<and> (\<forall>v\<in>V. \<sigma> v = w v \<and> at_time 1 \<sigma> v = w' v) \<and> (clause_sat \<sigma> (map negate ?c) \<longrightarrow> (\<exists>l\<in>set crits. l \<in> set (map prime1 ?c) \<and> \<not> lit_true \<sigma> l))"
            using 2 r False by auto
          let ?core = "extractCoreWithPrimes ?c crits 1"
          have "\<not> cube_sat w' ?c \<and> \<not> cube_sat w' ?core" if w: "tr_trans t w w'" "in_frame T ?L w" "\<not> cube_sat w ?c" for w w'
          proof -
            obtain \<sigma> where g: "\<forall>v\<in>V. \<sigma> v = w v \<and> at_time 1 \<sigma> v = w' v"
              "clause_sat \<sigma> (map negate ?c) \<longrightarrow> (\<exists>l\<in>set crits. l \<in> set (map prime1 ?c) \<and> \<not> lit_true \<sigma> l)" using u(2)[OF w(1,2)] by blast
            have "cube_sat \<sigma> ?c = cube_sat w ?c" by (rule cube_sat_agree[OF cV(1)]) (use g(1) in blast)
            then obtain l where l: "l \<in> set crits" "l \<in> set (map prime1 ?c)" "\<not> lit_true \<sigma> l" using g(2) w(3) neg by blast
            note cs = core_step[OF pV cV(1,2) l(1,2)]
            have ci: "unprime l \<in> set ?c" using cs(1) extractCore_set[of ?c crits 1] by auto
            have "lit_true (at_time 1 \<sigma>) (unprime l) = lit_true w' (unprime l)"
              by (rule cube_lits_agree[OF cV(1) _ ci]) (use g(1) in blast)
            then have "\<not> lit_true w' (unprime l)" using l(3) cs(2) lit_true_prime[of \<sigma> 1 "unprime l"] by metis
            then show ?thesis using cs(1) ci unfolding cube_sat_def by blast
          qed
          moreover have "set ?core \<subseteq> set ?c" using extractCore_set[of ?c crits 1] by auto
          moreover have "distinct ?core" by (rule extractCore_distinct[OF u(1)])
          ultimately show ?thesis using False s2(1,2) by (simp add: r consec_post_def del: One_nat_def)
        next
          case True
          obtain \<sigma> where g: "ad_model (ts_solver s2) \<sigma>" "const_ok \<sigma>" "\<And>\<sigma>'. (\<forall>v. ad_hasSAT (ts_solver s2) v \<longrightarrow> \<sigma>' v = \<sigma> v) \<Longrightarrow>
              (\<exists>w w'. tr_trans t w w' \<and> (\<forall>v\<in>V. w v = \<sigma>' v \<and> w' v = at_time 1 \<sigma>' v) \<and> in_frame T ?L w)
              \<and> clause_sat \<sigma>' (map negate ?c) \<and> cube_sat \<sigma>' (map prime1 ?c)" using 2 r True by auto
          let ?A = "ts_solver s2"
          let ?pred = "known_cube ?A \<sigma> 0 (tr_latchIDs (baseTR t))"
          let ?inp = "known_cube ?A \<sigma> 0 (tr_inputIDs (baseTR t))"
          let ?pinp = "known_cube ?A \<sigma> 1 (tr_inputIDs (baseTR t))"
          note ex = extract_wp[OF wf t2 g(1) s2(4) ll, simplified]
          obtain w w' where w: "tr_trans t w w'" "\<forall>v\<in>V. w v = \<sigma> v \<and> w' v = at_time 1 \<sigma> v" "in_frame T ?L w"
            and q: "clause_sat \<sigma> (map negate ?c)" "cube_sat \<sigma> (map prime1 ?c)" using g(3)[of \<sigma>] by blast
          have eq: "cube_sat w d = cube_sat \<sigma> d" "cube_sat w' d = cube_sat (at_time 1 \<sigma>) d" if "strip ` set d \<subseteq> V" for d
            by (rule cube_sat_agree[OF that], use w(2) in blast)+
          have io: "set (tr_latchIDs (baseTR t)) \<subseteq> V" "set (tr_inputIDs (baseTR t)) \<subseteq> V" using V(2) by (auto simp: io_vars_def)
          note kv = known_cube_vars[OF nio(1)] known_cube_vars[OF nio(2)]
          have cc: "\<not> cube_sat w ?c" "cube_sat w' ?c" using eq[OF cV(1)] q neg cube_sat_prime[of \<sigma> 1] by (simp_all del: One_nat_def)
          have cp: "cube_sat w ?pred" "cube_sat w ?inp" "cube_sat w' ?pinp"
            unfolding known_cube_sat[OF nio(1)] known_cube_sat[OF nio(2)] using w(2) io by (auto simp: at_time_def)
          have fixd: "cube_sat z' ?c" if d: "det t" "strip ` set ?c \<subseteq> tr_vars t" and z: "tr_trans t z z'" "cube_sat z ?pred" "cube_sat z ?inp" "cube_sat z' ?pinp" for z z'
          proof -
            have "\<exists>\<sigma>'. cube_sat \<sigma>' (map prime1 ?c) \<and> (\<forall>v\<in>V \<inter> tr_vars t. z v = \<sigma>' v \<and> z' v = at_time 1 \<sigma>' v)"
              by (rule known_fixes[OF wf V(2) pV d(1) _ z]) (use g(3) in blast)
            then obtain \<sigma>' where f: "cube_sat \<sigma>' (map prime1 ?c)" "\<forall>v\<in>V \<inter> tr_vars t. z' v = at_time 1 \<sigma>' v" by blast
            have "cube_sat z' ?c = cube_sat (at_time 1 \<sigma>') ?c" by (rule cube_sat_agree[of _ "V \<inter> tr_vars t"]) (use cV(1) d(2) f(2) in auto)
            then show ?thesis using f(1) cube_sat_prime[of \<sigma>' 1] by (simp del: One_nat_def)
          qed
          let ?r = "\<lparr>cr_cons = False, cr_pred = if co_pred co then ?pred else [], cr_inp = if co_inp co then ?inp else [],
             cr_pinp = if co_pinp co then ?pinp else [], cr_core = []\<rparr>"
          have "consec_post t T co ?r"
            unfolding consec_post_def
          proof (intro conjI impI, goal_cases)
            case 4
            have "cube_sat w (cr_pred ?r @ cr_inp ?r)" "cube_sat w' (cr_pinp ?r)" using cp by (auto simp: cube_sat_def)
            then show ?case using w(1,3) cc by blast
          next
            case 9
            have "cube_sat z' ?c" if z: "tr_trans t z z'" "cube_sat z (?pred @ ?inp)" "cube_sat z' ?pinp" for z z'
              using fixd[OF 9(2) 9(6) z(1) _ _ z(3)] z(2) by (auto simp: cube_sat_def)
            then show ?case using 9 by simp
          qed (use ex(2) kv in \<open>simp_all del: One_nat_def split: if_split\<close>, (use kv in \<open>cases "co_pred co"; cases "co_inp co"; cases "co_pinp co"; simp del: One_nat_def\<close>)+)
          then show ?thesis using True s2(1,2) ex
            by (cases "co_pred co"; cases "co_inp co"; cases "co_pinp co"; simp add: r)
        qed
      qed
    qed
  qed
  show ?thesis
    unfolding fs_consecutionOpts_def
  proof (cases "fs_inited s", goal_cases)
    case 1
    show ?case using 1 main[OF inv 1] cV(3) by simp
  next
    case 2
    show ?case
      unfolding wp_bindS wp_getS wp_thenS wp_assertS if_P[OF 2]
    proof (rule wp_mono[OF fs_renewSAT_wp[OF wf l inv]], elim conjE, goal_cases)
      case (1 u s1)
      show ?case using 1(2) main[OF 1] cV(3) by simp
    qed
  qed
qed

end

lemma consec_postT:
  assumes "consec_post t T co r" "cr_cons r"
  shows "distinct (cr_core r)" "set (cr_core r) \<subseteq> set (co_c co)"
    "\<And>w w'. tr_trans t w w' \<Longrightarrow> in_frame T (co_level co) w \<Longrightarrow> \<not> cube_sat w (co_c co) \<Longrightarrow> \<not> cube_sat w' (co_c co)"
    "\<And>w w'. co_core co \<Longrightarrow> tr_trans t w w' \<Longrightarrow> in_frame T (co_level co) w \<Longrightarrow> \<not> cube_sat w (co_c co) \<Longrightarrow> \<not> cube_sat w' (cr_core r)"
  using assms by (auto simp: consec_post_def)

lemma consec_postF:
  assumes "consec_post t T co r" "\<not> cr_cons r"
  shows "\<exists>w w'. tr_trans t w w' \<and> in_frame T (co_level co) w \<and> \<not> cube_sat w (co_c co) \<and> cube_sat w' (co_c co)
         \<and> cube_sat w (cr_pred r @ cr_inp r) \<and> cube_sat w' (cr_pinp r)"
    "co_pred co \<Longrightarrow> tr_latchIDs (baseTR t) \<noteq> [] \<Longrightarrow> cr_pred r \<noteq> []" "strip ` set (cr_pred r) \<subseteq> set (tr_latchIDs (baseTR t))"
    "strip ` set (cr_inp r) \<subseteq> set (tr_inputIDs (baseTR t))" "strip ` set (cr_pinp r) \<subseteq> set (tr_inputIDs (baseTR t))"
    "\<And>w w'. det t \<Longrightarrow> co_pred co \<Longrightarrow> co_inp co \<Longrightarrow> co_pinp co \<Longrightarrow> strip ` set (co_c co) \<subseteq> tr_vars t \<Longrightarrow> tr_trans t w w'
       \<Longrightarrow> cube_sat w (cr_pred r @ cr_inp r) \<Longrightarrow> cube_sat w' (cr_pinp r) \<Longrightarrow> cube_sat w' (co_c co)"
  using assms unfolding consec_post_def by blast+

definition meets_post :: "anyTR \<Rightarrow> inductiveTrace \<Rightarrow> level \<Rightarrow> cube \<Rightarrow> bool \<times> cube \<times> cube \<Rightarrow> bool" where
  "meets_post t T L c = (\<lambda>(r, state, inputs). (r \<longleftrightarrow> (\<exists>w w'. tr_trans t w w' \<and> in_frame T L w \<and> cube_sat w c))
     \<and> (r \<longrightarrow> (tr_latchIDs (baseTR t) \<noteq> [] \<longrightarrow> state \<noteq> []) \<and> strip ` set state \<subseteq> set (tr_latchIDs (baseTR t)) \<and> strip ` set inputs \<subseteq> set (tr_inputIDs (baseTR t))
         \<and> (\<exists>w w'. tr_trans t w w' \<and> in_frame T L w \<and> cube_sat w c \<and> cube_sat w (state @ inputs))))"

context sat_backend
begin

lemma fs_intersectionFull_wp:
  assumes wf: "tr_wf t" and l: "live opt t" and V: "V \<subseteq> lem_vars t" "io_vars t \<subseteq> V" and inv: "fs_inv t V M T s"
    and c: "c \<noteq> []" "strip ` set c \<subseteq> V" and ll: "latch_lemma t T"
  shows "wp (fs_intersectionFull B opt T L c) (\<lambda>r s'. fs_inv t V M T s' \<and> fs_inited s' \<and> meets_post t T L c r) s"
proof -
  have nio: "\<forall>i\<in>set (tr_latchIDs (baseTR t)). \<not> is_negated i" "\<forall>i\<in>set (tr_inputIDs (baseTR t)). \<not> is_negated i"
    using io_plain[OF wf] by auto
  have main: "wp (bindS (fs_levelAssumps T L) (\<lambda>assumps.
     (bindS (ts_onSolver (ad_solve B (assumps @ c))) (\<lambda>(sat, crits). bindS getS (\<lambda>s.
      bindS (liftS (if sat then fs_extractPredecessor s else Inr [])) (\<lambda>state.
      bindS (liftS (if sat then fs_extractInputs s else Inr [])) (\<lambda>inputs.
      retS (sat, state, inputs)))))))) (\<lambda>r s'. fs_inv t V M T s' \<and> fs_inited s' \<and> meets_post t T L c r) s"
    if inv: "fs_inv t V M T s" and ini: "fs_inited s" for s
  proof -
    have I: "fs_acts t V M s" "it_numFrames T \<le> M" using inv by (auto simp: fs_inv_def trace_ok_def)
    show ?thesis
      unfolding wp_bindS
    proof (intro wp_mono[OF fs_levelAssumps_wp[OF I]], elim conjE, goal_cases)
      case (1 as s1)
      then have s1: "fs_inv t V M T s1" "fs_inited s1" using fs_inv_more[OF inv] ini by blast+
      have acts: "\<forall>k\<in>set (levels_from L (it_numFrames T)). k < length (fs_activation s1)"
        and as: "as = map (\<lambda>k. negate (fs_activation s1 ! k)) (levels_from L (it_numFrames T))" using 1 by blast+
      have e: "bindS (if False then ad_withGroup [] else retS GROUP_NULL) (\<lambda>g. ad_groupSolve B g (as @ c)) = ad_solve B (as @ c)"
        by (rule ext) (simp add: ad_solve_def bindS_def retS_def)
      note q = fs_query_wp[OF wf V(1) s1 acts as, of False "[]" c, unfolded e]
      show ?case
      proof (intro wp_mono[OF q], goal_cases)
        case (2 r s2)
        obtain sat crits where r: "r = (sat, crits)" by (cases r)
        have s2: "fs_inv t V M T s2" "fs_inited s2" "ad_isSAT (ts_solver s2) = sat" "lemmas_known T (\<lambda>_ _. True) (ts_solver s2)"
          using 2 r by auto
        have t2: "ts_tr s2 = t" using s2(1) by (simp add: fs_inv_def)
        show ?case
        proof (cases sat)
          case False
          have "\<not> cube_sat w c" if w: "tr_trans t w w'" "in_frame T L w" for w w'
          proof -
            have "\<exists>\<sigma>. const_ok \<sigma> \<and> (\<forall>v\<in>V. \<sigma> v = w v \<and> at_time 1 \<sigma> v = w' v) \<and> (\<exists>l\<in>set crits. l \<in> set c \<and> \<not> lit_true \<sigma> l)"
              using 2 r False w by auto
            then obtain \<sigma> l where g: "\<forall>v\<in>V. \<sigma> v = w v" "l \<in> set c" "\<not> lit_true \<sigma> l" by blast
            have "lit_true \<sigma> l = lit_true w l" by (rule cube_lits_agree[OF c(2) _ g(2)]) (use g(1) in blast)
            then show ?thesis using g(2,3) by (auto simp: cube_sat_def)
          qed
          then show ?thesis using False s2(1,2) by (auto simp: r meets_post_def)
        next
          case True
          obtain \<sigma> w w' where g: "ad_model (ts_solver s2) \<sigma>" "const_ok \<sigma>" "cube_sat \<sigma> c"
            and w: "tr_trans t w w'" "\<forall>v\<in>V. w v = \<sigma> v" "in_frame T L w" using 2 r True by auto
          have cw: "cube_sat w c" using g(3) cube_sat_agree[OF c(2), of w \<sigma>] w(2) by blast
          let ?A = "ts_solver s2"
          let ?st = "known_cube ?A \<sigma> 0 (tr_latchIDs (baseTR t))"
          let ?inp = "known_cube ?A \<sigma> 0 (tr_inputIDs (baseTR t))"
          have "cube_sat w ?st" "cube_sat w ?inp"
            unfolding known_cube_sat[OF nio(1)] known_cube_sat[OF nio(2)] using w(2) V(2) by (auto simp: io_vars_def)
          then have "cube_sat w (?st @ ?inp)" by (auto simp: cube_sat_def)
          moreover note ex = extract_wp[OF wf t2 g(1) s2(4) ll, simplified] known_cube_vars[OF nio(1)] known_cube_vars[OF nio(2)]
          ultimately have "meets_post t T L c (True, ?st, ?inp)"
            unfolding meets_post_def prod.case using w(1,3) cw by blast
          then show ?thesis using True s2(1,2) ex by (simp add: r)
        qed
      qed simp
    qed
  qed
  show ?thesis
    unfolding fs_intersectionFull_def
  proof (cases "fs_inited s", goal_cases)
    case 1
    show ?case using 1 main[OF inv 1] c(1) by simp
  next
    case 2
    show ?case
      unfolding wp_bindS wp_getS wp_thenS wp_assertS if_P[OF 2]
    proof (rule conjI[OF c(1) wp_mono[OF fs_renewSAT_wp[OF wf l inv]]], elim conjE, goal_cases)
      case (1 u s1)
      show ?case using 1(2) main[OF 1] by simp
    qed
  qed
qed

lemma fs_intersection_wp:
  assumes wf: "tr_wf t" and l: "live opt t" and V: "V \<subseteq> lem_vars t" "io_vars t \<subseteq> V" and inv: "fs_inv t V M T s"
    and c: "c \<noteq> []" "strip ` set c \<subseteq> V" and ll: "latch_lemma t T"
  shows "wp (fs_intersection B opt T L c) (\<lambda>r s'. fs_inv t V M T s' \<and> fs_inited s'
     \<and> (r \<longleftrightarrow> (\<exists>w w'. tr_trans t w w' \<and> in_frame T L w \<and> cube_sat w c))) s"
  unfolding fs_intersection_def wp_bindS
  by (rule wp_mono[OF fs_intersectionFull_wp[OF assms]]) (auto simp: meets_post_def)

text \<open>The four entry points.\<close>

lemma fs_consecution_wps:
  assumes wf: "tr_wf t" and l: "live opt t" and V: "V \<subseteq> lem_vars t" "io_vars t \<subseteq> V" and inv: "fs_inv t V M T s"
    and c: "cube_on V c" and ll: "latch_lemma t T"
  shows "wp (fs_consecutionFull B opt T L c) (\<lambda>r s'. fs_inv t V M T s' \<and> fs_inited s'
     \<and> consec_post t T \<lparr>co_level = L, co_c = c, co_core = True, co_pred = True, co_inp = True, co_pinp = True\<rparr> r) s"
    "wp (fs_consecutionCore B opt T L c) (\<lambda>(r, core) s'. fs_inv t V M T s' \<and> fs_inited s'
     \<and> (r \<longrightarrow> distinct core \<and> set core \<subseteq> set c \<and> (\<forall>w w'. tr_trans t w w' \<longrightarrow> in_frame T L w \<longrightarrow> \<not> cube_sat w c \<longrightarrow> \<not> cube_sat w' core))
     \<and> (\<not> r \<longrightarrow> (\<exists>w w'. tr_trans t w w' \<and> in_frame T L w \<and> \<not> cube_sat w c \<and> cube_sat w' c))) s"
    "wp (fs_consecutionPred B opt T L c) (\<lambda>(r, pred) s'. fs_inv t V M T s' \<and> fs_inited s'
     \<and> (r \<longleftrightarrow> (\<forall>w w'. tr_trans t w w' \<longrightarrow> in_frame T L w \<longrightarrow> \<not> cube_sat w c \<longrightarrow> \<not> cube_sat w' c))
     \<and> (\<not> r \<longrightarrow> (tr_latchIDs (baseTR t) \<noteq> [] \<longrightarrow> pred \<noteq> []) \<and> (\<exists>w w'. tr_trans t w w' \<and> in_frame T L w \<and> \<not> cube_sat w c \<and> cube_sat w' c \<and> cube_sat w pred))) s"
    "wp (fs_consecution B opt T L c) (\<lambda>r s'. fs_inv t V M T s' \<and> fs_inited s'
     \<and> (r \<longleftrightarrow> (\<forall>w w'. tr_trans t w w' \<longrightarrow> in_frame T L w \<longrightarrow> \<not> cube_sat w c \<longrightarrow> \<not> cube_sat w' c))) s"
proof -
  note q = fs_consecutionOpts_wp[OF wf l V inv _ ll]
  show "wp (fs_consecutionFull B opt T L c) (\<lambda>r s'. fs_inv t V M T s' \<and> fs_inited s'
     \<and> consec_post t T \<lparr>co_level = L, co_c = c, co_core = True, co_pred = True, co_inp = True, co_pinp = True\<rparr> r) s"
    unfolding fs_consecutionFull_def by (rule wp_mono[OF q]) (use c in simp_all)
  show "wp (fs_consecutionCore B opt T L c) (\<lambda>(r, core) s'. fs_inv t V M T s' \<and> fs_inited s'
     \<and> (r \<longrightarrow> distinct core \<and> set core \<subseteq> set c \<and> (\<forall>w w'. tr_trans t w w' \<longrightarrow> in_frame T L w \<longrightarrow> \<not> cube_sat w c \<longrightarrow> \<not> cube_sat w' core))
     \<and> (\<not> r \<longrightarrow> (\<exists>w w'. tr_trans t w w' \<and> in_frame T L w \<and> \<not> cube_sat w c \<and> cube_sat w' c))) s"
    unfolding fs_consecutionCore_def wp_bindS wp_retS
  proof (rule wp_mono[OF q], goal_cases)
    case (2 r s')
    note cp = conjunct2[OF conjunct2[OF 2]]
    show ?case
    proof (cases "cr_cons r")
      case True
      show ?thesis using 2 consec_postT[OF cp True, simplified] True by auto
    next
      case False
      show ?thesis using 2 consec_postF(1)[OF cp False, simplified] False by auto
    qed
  qed (use c in simp)
  show "wp (fs_consecutionPred B opt T L c) (\<lambda>(r, pred) s'. fs_inv t V M T s' \<and> fs_inited s'
     \<and> (r \<longleftrightarrow> (\<forall>w w'. tr_trans t w w' \<longrightarrow> in_frame T L w \<longrightarrow> \<not> cube_sat w c \<longrightarrow> \<not> cube_sat w' c))
     \<and> (\<not> r \<longrightarrow> (tr_latchIDs (baseTR t) \<noteq> [] \<longrightarrow> pred \<noteq> []) \<and> (\<exists>w w'. tr_trans t w w' \<and> in_frame T L w \<and> \<not> cube_sat w c \<and> cube_sat w' c \<and> cube_sat w pred))) s"
    unfolding fs_consecutionPred_def wp_bindS wp_retS
  proof (rule wp_mono[OF q], goal_cases)
    case (2 r s')
    note cp = conjunct2[OF conjunct2[OF 2]]
    show ?case
    proof (cases "cr_cons r")
      case True
      show ?thesis using 2 consec_postT[OF cp True, simplified] True by auto
    next
      case False
      obtain w w' where w: "tr_trans t w w'" "in_frame T L w" "\<not> cube_sat w c" "cube_sat w' c" "cube_sat w (cr_pred r @ cr_inp r)" "tr_latchIDs (baseTR t) \<noteq> [] \<longrightarrow> cr_pred r \<noteq> []"
        using 2 consec_postF(1,2)[OF cp False, simplified] by auto
      have "cube_sat w (cr_pred r)" using w(5) by (simp add: cube_sat_def)
      then show ?thesis using 2 w False by auto
    qed
  qed (use c in simp)
  show "wp (fs_consecution B opt T L c) (\<lambda>r s'. fs_inv t V M T s' \<and> fs_inited s'
     \<and> (r \<longleftrightarrow> (\<forall>w w'. tr_trans t w w' \<longrightarrow> in_frame T L w \<longrightarrow> \<not> cube_sat w c \<longrightarrow> \<not> cube_sat w' c))) s"
    unfolding fs_consecution_def wp_bindS wp_retS
  proof (rule wp_mono[OF q], goal_cases)
    case (2 r s')
    note cp = conjunct2[OF conjunct2[OF 2]]
    show ?case
    proof (cases "cr_cons r")
      case True
      show ?thesis using 2 consec_postT[OF cp True, simplified] True by auto
    next
      case False
      show ?thesis using 2 consec_postF(1)[OF cp False, simplified] False by auto
    qed
  qed (use c in simp)
qed

end

end
