(* ===== verification/FrameLift.thy ===== *)
theory FrameLift
  imports FrameSem
begin

text \<open>
  The lifter: its invariant \<open>ul_inv\<close>, and \<open>ul_lift_wp\<close>: the cube it returns is a part of the
  predecessor all of whose states (in the frame of proved lemmas) reach the successor under the
  inputs.
\<close>

subsection \<open>The lifter\<close>

definition ul_filled :: "anyTR \<Rightarrow> inductiveTrace \<Rightarrow> lifter \<Rightarrow> bool" where
  "ul_filled t T s = (\<exists>D E. unrolled_ok t D \<and> solver_for (ts_solver s) GLUCOSE (D @ E)
     \<and> (\<forall>e\<in>set E. \<exists>c. it_lev T c = Some \<infinity> \<and> e = negateVec c))"

definition ul_inv :: "anyTR \<Rightarrow> inductiveTrace \<Rightarrow> lifter \<Rightarrow> bool" where
  "ul_inv t T s = (ts_tr s = t \<and> ad_kind (ts_solver s) = GLUCOSE
     \<and> (ts_unrolled s = [] \<or> unrolled_ok t (ts_unrolled s)) \<and> (ul_inited s \<longrightarrow> ul_filled t T s))"

lemma ul_new_wp: "wpr (ul_new t) (\<lambda>s. ul_inv t T s)"
  unfolding ul_new_def wpr_bindR
  by (rule wpr_mono[OF ad_new_solver]) (auto simp: ul_inv_def solver_for_def)

lemma ul_inv_up:
  assumes "ul_inv t T s" "\<And>c. it_lev T c = Some \<infinity> \<Longrightarrow> it_lev T' c = Some \<infinity>"
  shows "ul_inv t T' s"
proof -
  have "ul_filled t T' s" if "ul_filled t T s"
    using that assms(2) unfolding ul_filled_def by metis
  then show ?thesis using assms(1) by (simp add: ul_inv_def)
qed

lemma ul_sendLemma_wp:
  assumes T: "it_inv T" "it_is T i c L" and c: "c \<noteq> []" and A: "solver_for (ts_solver s) GLUCOSE X"
  shows "wp (ul_sendLemma T i) (\<lambda>_ s'. \<exists>A. s' = s\<lparr>ts_solver := A\<rparr> \<and> solver_for A GLUCOSE (X @ [negateVec c])) s"
proof -
  note g = it_is_get[OF T]
  have n: "negateVec c \<noteq> []" using c by (cases c) simp_all
  show ?thesis
    unfolding ul_sendLemma_def ts_onSolver_def wp_bindS wp_liftS wp_zoomS
    using wp_mono[OF ad_addClause_has[OF A n], of "\<lambda>_ A. solver_for A GLUCOSE (X @ [negateVec c])"] g by (auto elim!: wp_mono)
qed

lemma lifter_realize:
  assumes wf: "tr_wf t" and V: "plain_vars V" and D: "unrolled_ok t D" and E: "\<forall>e\<in>set E. \<exists>c. it_lev T c = Some \<infinity> \<and> e = negateVec c"
    and T: "trace_ok V M T" and s: "tr_trans t w w'" "in_frame T \<infinity> w"
  shows "\<exists>\<sigma>. const_ok \<sigma> \<and> cnf_sat \<sigma> (D @ E) \<and> (\<forall>v\<in>V. \<sigma> v = w v \<and> at_time 1 \<sigma> v = w' v)"
proof -
  obtain \<sigma> where g: "const_ok \<sigma>" "cnf_sat \<sigma> D" "\<forall>v\<in>V. \<sigma> v = w v \<and> at_time 1 \<sigma> v = w' v" using unrolled_realize[OF wf V D s(1)] by blast
  have "clause_sat \<sigma> e" if "e \<in> set E" for e
  proof -
    obtain c where c: "it_lev T c = Some \<infinity>" "e = negateVec c" using E \<open>e \<in> set E\<close> by blast
    have cv: "strip ` set c \<subseteq> V" using T c(1) by (auto simp: trace_ok_def)
    have "cube_sat \<sigma> c = cube_sat w c" by (rule cube_sat_agree[OF cv]) (use g(3) in blast)
    moreover have "\<not> cube_sat w c" using s(2) c(1) unfolding in_frame_def by blast
    ultimately show ?thesis by (simp add: c(2) clause_sat_negateVec)
  qed
  then show ?thesis using g by (auto simp: cnf_sat_def)
qed

context sat_backend
begin

lemma ul_renewSAT_wp:
  assumes wf: "tr_wf t" and l: "live opt t" and inv: "ul_inv t T s" and T: "trace_ok V M T"
  shows "wp (ul_renewSAT B opt T) (\<lambda>_ s'. ul_inv t T s' \<and> ul_inited s') s"
proof -
  have I: "ts_tr s = t" "ad_kind (ts_solver s) = GLUCOSE" "ts_unrolled s = [] \<or> unrolled_ok t (ts_unrolled s)"
    using inv by (auto simp: ul_inv_def)
  have tinv: "it_inv T" using T by (simp add: trace_ok_def)
  let ?fr = "frame_at (it_frames T) \<infinity>"
  have g: "it_getFrame T LEVEL_INF = Inr ?fr" using fr_getFrame_at[of \<infinity> "it_frames T"] by (simp add: it_getFrame_def LEVEL_INF_def)
  have mem: "i \<in> ?fr \<longleftrightarrow> (\<exists>c. it_is T i c \<infinity>)" for i using it_invD(3)[OF tinv, of i \<infinity>] by (auto simp: it_is_def)
  have fin: "finite ?fr"
    by (rule finite_subset[of _ "{..<length (it_lemmas T)}"]) (auto simp: mem it_is_def it_active_def)
  let ?P = "\<lambda>D s'. ts_tr s' = t \<and> ts_unrolled s' = D \<and> (\<exists>E. solver_for (ts_solver s') GLUCOSE (D @ E)
     \<and> (\<forall>e\<in>set E. \<exists>c. it_lev T c = Some \<infinity> \<and> e = negateVec c))"
  let ?f = "\<lambda>i. bindS (liftS (it_getLemmaID T i)) (\<lambda>l. if ld_deleted l then retS () else ul_sendLemma T i)"
  have step: "wp (?f i) (\<lambda>_ s'. ?P D s') s1" if s1: "?P D s1" and i: "i \<in> ?fr" for D s1 i
  proof -
    obtain E where E: "solver_for (ts_solver s1) GLUCOSE (D @ E)" "\<forall>e\<in>set E. \<exists>c. it_lev T c = Some \<infinity> \<and> e = negateVec c" using s1 by blast
    obtain c where c: "it_is T i c \<infinity>" using i mem by blast
    note tl = trace_ok_level[OF T c]
    have gl: "it_getLemmaID T i = Inr (it_lemmas T ! i)" "\<not> ld_deleted (it_lemmas T ! i)" using it_is_get(1,8)[OF tinv c] by simp_all
    show ?thesis
      unfolding gl(1) wp_bindS wp_liftS wpr_Inr wp_if if_not_P[OF gl(2)]
    proof (rule wp_mono[OF ul_sendLemma_wp[OF tinv c tl(2) E(1)]], elim exE conjE, goal_cases)
      case (1 u s2 A)
      have "\<forall>e\<in>set (E @ [negateVec c]). \<exists>c. it_lev T c = Some \<infinity> \<and> e = negateVec c" using E(2) tl(3) by auto
      then show ?case using 1 s1 by (auto intro!: exI[of _ "E @ [negateVec c]"])
    qed
  qed
  show ?thesis
    unfolding ul_renewSAT_def wp_thenS wp_bindS wp_modifyS wp_liftS g wpr_Inr
  proof (rule wp_mono[OF ts_renew_wp[OF wf l I]], elim exE conjE, goal_cases)
    case (1 u s0 A D)
    have P0: "?P D s0" using 1 I(1) by (auto intro!: exI[of _ "[]"])
    have "wp (iterS ?f (sorted_list_of_set ?fr)) (\<lambda>_ s'. ?P D s') s0"
    proof (rule wp_iterS[where I = "\<lambda>_ s'. ?P D s'", OF P0])
      fix x ys zs and s' :: lifter
      assume e: "sorted_list_of_set ?fr = ys @ x # zs" and p: "?P D s'"
      have "x \<in> set (sorted_list_of_set ?fr)" unfolding e by simp
      then have "x \<in> ?fr" using fin by simp
      from step[OF p this] show "wp (?f x) (\<lambda>_ s'. ?P D s') s'" .
    qed
    then show ?case unfolding LEVEL_INF_def
    proof (rule wp_mono, elim conjE exE, goal_cases)
      case (1 v s' E)
      have "ul_filled t T s'" unfolding ul_filled_def using \<open>unrolled_ok t D\<close> 1 by blast
      then have "ul_filled t T (s'\<lparr>ul_inited := True\<rparr>)" by (simp add: ul_filled_def)
      then show ?case using 1 \<open>unrolled_ok t D\<close> kind_GLUCOSE[of "ts_solver s'" GLUCOSE "D @ E"] by (simp add: ul_inv_def)
    qed
  qed
qed

lemma ul_ask_wp:
  assumes A: "solver_for A GLUCOSE X" and sc: "succ_p \<noteq> []" and no: "\<And>\<sigma>. const_ok \<sigma> \<Longrightarrow> cnf_sat \<sigma> X \<Longrightarrow> cube_sat \<sigma> as \<Longrightarrow> cube_sat \<sigma> succ_p"
  shows "wp (if length succ_p = 1 then ad_solve B (as @ [negate (hd succ_p)])
            else bindS (ad_withGroup (negateVec succ_p)) (\<lambda>gid. ad_groupSolve B gid as)) (\<lambda>(sat, crits) A'. solver_for A' GLUCOSE X \<and> \<not> sat \<and> distinct crits
     \<and> set crits \<subseteq> set as \<union> {negate (hd succ_p)} \<and> (\<forall>\<sigma>. const_ok \<sigma> \<longrightarrow> cnf_sat \<sigma> X \<longrightarrow> (\<forall>l\<in>set crits. l \<in> set as \<longrightarrow> lit_true \<sigma> l) \<longrightarrow> cube_sat \<sigma> succ_p)) A"
proof (cases "length succ_p = 1")
  case True
  then obtain l where l: "succ_p = [l]" by (cases succ_p) auto
  show ?thesis
    unfolding if_P[OF True]
    by (rule wp_mono[OF solver_for_solve[OF A]]) (use no in \<open>fastforce simp: l cube_sat_def\<close>)
next
  case False
  have n: "negateVec succ_p \<noteq> []" using sc by (cases succ_p) simp_all
  note q = solver_for_groupSolve[OF A n, of True as, unfolded if_True]
  show ?thesis
    unfolding if_not_P[OF False]
  proof (rule wp_mono[OF q], simp, goal_cases)
    case (1 r A')
    obtain sat crits where r: "r = (sat, crits)" by (cases r)
    have ns: "\<not> sat"
    proof
      assume sat
      then obtain \<sigma> where "const_ok \<sigma>" "cnf_sat \<sigma> (X @ [negateVec succ_p])" "cube_sat \<sigma> as" using 1 r by (auto simp: opt_clause_def)
      then show False using no[of \<sigma>] by (simp add: clause_sat_negateVec)
    qed
    have u: "set crits \<subseteq> set as" "distinct crits" "\<And>\<sigma>. const_ok \<sigma> \<Longrightarrow> cnf_sat \<sigma> (X @ [negateVec succ_p]) \<Longrightarrow> \<not> cube_sat \<sigma> crits"
      using 1 r ns by (auto simp: opt_clause_def)
    have "cube_sat \<sigma> succ_p" if "const_ok \<sigma>" "cnf_sat \<sigma> X" "\<forall>l\<in>set crits. l \<in> set as \<longrightarrow> lit_true \<sigma> l" for \<sigma>
    proof (rule ccontr)
      assume "\<not> cube_sat \<sigma> succ_p"
      then have "\<not> cube_sat \<sigma> crits" using u(3)[of \<sigma>] that(1,2) by (simp add: clause_sat_negateVec)
      then show False using that(3) u(1) by (auto simp: cube_sat_def)
    qed
    then show ?case using 1 r ns u(1,2) by auto
  qed
qed

lemma ul_lift_wp:
  assumes wf: "tr_wf t" and l: "live opt t" and V: "V \<subseteq> lem_vars t" and inv: "ul_inv t T s" and T: "trace_ok V M T"
    and c: "cube_on V succ" "pred \<noteq> []" "strip ` set pred \<subseteq> V" "ID_FALSE \<notin> strip ` set pred" "strip ` set inp \<subseteq> V" "strip ` set pinp \<subseteq> V"
    and leads: "\<And>w w'. tr_trans t w w' \<Longrightarrow> cube_sat w (pred @ inp) \<Longrightarrow> cube_sat w' pinp \<Longrightarrow> cube_sat w' succ"
  shows "wp (ul_lift B opt T pred succ inp pinp) (\<lambda>r s'. ul_inv t T s' \<and> r \<noteq> [] \<and> distinct r \<and> set r \<subseteq> set pred
     \<and> (\<forall>w w'. tr_trans t w w' \<longrightarrow> in_frame T \<infinity> w \<longrightarrow> cube_sat w (r @ inp) \<longrightarrow> cube_sat w' pinp \<longrightarrow> cube_sat w' succ)) s"
proof -
  have n1: "1 \<le> MAX_PRIMES" by (simp add: MAX_PRIMES_def)
  have pV: "plain_vars V" by (rule lem_vars_plain[OF V])
  have sc: "succ \<noteq> []" "strip ` set succ \<subseteq> V" using c(1) by (auto simp: cube_on_def)
  have pr: "primeVec pinp 1 = Inr (map prime1 pinp)" "primeVec succ 1 = Inr (map prime1 succ)"
    using primeClause_total[OF n1] by (simp_all add: primeVec_def)
  let ?as = "pred @ inp @ map prime1 pinp"
  let ?sp = "map prime1 succ"
  have main: "wp (bindS (if length succ = 1 then thenS (assertS (length (negateVec ?sp) = 1))
              (bindS (liftS (atR (negateVec ?sp) 0)) (\<lambda>l. ts_onSolver (ad_solve B (?as @ [l]))))
            else ts_onSolver (bindS (ad_withGroup (negateVec ?sp)) (\<lambda>gid. ad_groupSolve B gid ?as))) (\<lambda>(sat, crits).
      thenS (assertS (\<not> sat)) (let lifted = extractCore pred crits in
      if lifted = [] then bindS (liftS (if pred = [] then Inl Undefined else Inr (hd pred))) (\<lambda>l. retS [l])
      else retS lifted))) (\<lambda>r s'. ul_inv t T s' \<and> r \<noteq> [] \<and> distinct r \<and> set r \<subseteq> set pred
     \<and> (\<forall>w w'. tr_trans t w w' \<longrightarrow> in_frame T \<infinity> w \<longrightarrow> cube_sat w (r @ inp) \<longrightarrow> cube_sat w' pinp \<longrightarrow> cube_sat w' succ)) s"
    if inv: "ul_inv t T s" and ini: "ul_inited s" for s
  proof -
    obtain D E where E: "unrolled_ok t D" "solver_for (ts_solver s) GLUCOSE (D @ E)" "\<forall>e\<in>set E. \<exists>c. it_lev T c = Some \<infinity> \<and> e = negateVec c"
      using inv ini by (auto simp: ul_inv_def ul_filled_def)
    have no: "cube_sat \<sigma> ?sp" if s: "const_ok \<sigma>" "cnf_sat \<sigma> (D @ E)" "cube_sat \<sigma> ?as" for \<sigma>
    proof -
      have "cnf_sat \<sigma> D" using s(2) by (simp add: cnf_sat_def)
      then obtain w w' where w: "tr_trans t w w'" "\<forall>v\<in>V. w v = \<sigma> v \<and> w' v = at_time 1 \<sigma> v" using unrolled_model[OF wf V E(1) s(1)] by blast
      have eq: "cube_sat w d = cube_sat \<sigma> d" "cube_sat w' d = cube_sat \<sigma> (map prime1 d)" if "strip ` set d \<subseteq> V" for d
        unfolding cube_sat_prime by (rule cube_sat_agree[OF that], use w(2) in blast)+
      have "cube_sat w (pred @ inp)" "cube_sat w' pinp"
        using s(3) eq(1)[OF c(3)] eq(1)[OF c(5)] eq(2)[OF c(6)] by (auto simp: cube_sat_def)
      then have "cube_sat w' succ" by (rule leads[OF w(1)])
      then show ?thesis using eq(2)[OF sc(2)] by simp
    qed
    have spn: "?sp \<noteq> []" using sc(1) by simp
    have eq: "(if length succ = 1 then thenS (assertS (length (negateVec ?sp) = 1))
              (bindS (liftS (atR (negateVec ?sp) 0)) (\<lambda>l. ts_onSolver (ad_solve B (?as @ [l]))))
            else ts_onSolver (bindS (ad_withGroup (negateVec ?sp)) (\<lambda>gid. ad_groupSolve B gid ?as)))
        = (ts_onSolver (if length ?sp = 1 then ad_solve B (?as @ [negate (hd ?sp)])
            else bindS (ad_withGroup (negateVec ?sp)) (\<lambda>gid. ad_groupSolve B gid ?as)) :: (lifter, bool \<times> cube) sm)"
    proof (cases "length succ = 1")
      case True
      then obtain x where x: "succ = [x]" by (cases succ) auto
      show ?thesis by (rule ext) (simp add: x thenS_def bindS_def assertS_def retS_def liftS_def atR_def)
    qed simp
    show ?thesis
      unfolding eq unfolding wp_bindS ts_onSolver_def wp_zoomS
    proof (rule wp_mono[OF ul_ask_wp[OF E(2) spn no]], assumption+, goal_cases)
      case (1 r A)
      obtain sat crits where r: "r = (sat, crits)" by (cases r)
      have u: "solver_for A GLUCOSE (D @ E)" "\<not> sat" "distinct crits" "\<And>\<sigma>. const_ok \<sigma> \<Longrightarrow> cnf_sat \<sigma> (D @ E) \<Longrightarrow> (\<forall>l\<in>set crits. l \<in> set ?as \<longrightarrow> lit_true \<sigma> l) \<Longrightarrow> cube_sat \<sigma> ?sp"
        using 1 unfolding r prod.case by blast+
      let ?lf = "extractCore pred crits"
      have lf: "distinct ?lf" "set ?lf \<subseteq> set pred" using extractCore_distinct[OF u(3)] extractCore_set[of pred crits 0] by (auto simp: extractCore_def)
      have inl: "l \<in> set ?lf" if "l \<in> set crits" "l \<in> set pred" for l
      proof -
        have "strip l \<in> V" "strip l \<noteq> ID_FALSE" using c(3,4) imageI[OF that(2), of strip] by (blast, metis)
        from plain_lit_prime[OF pV this] show ?thesis using that extractCore_set[of pred crits 0] by (auto simp: extractCore_def intro!: exI[of _ l])
      qed
      have ok: "cube_sat w' succ" if w: "tr_trans t w w'" "in_frame T \<infinity> w" and cs: "cube_sat w r'" "cube_sat w inp" "cube_sat w' pinp" and sub: "set ?lf \<subseteq> set r'" for w w' r'
      proof -
        obtain \<sigma> where g: "const_ok \<sigma>" "cnf_sat \<sigma> (D @ E)" "\<forall>v\<in>V. \<sigma> v = w v \<and> at_time 1 \<sigma> v = w' v"
          using lifter_realize[OF wf pV E(1,3) T w] by blast
        have eq: "cube_sat \<sigma> d = cube_sat w d" "cube_sat \<sigma> (map prime1 d) = cube_sat w' d" if "strip ` set d \<subseteq> V" for d
          unfolding cube_sat_prime by (rule cube_sat_agree[OF that], use g(3) in blast)+
        have "lit_true \<sigma> l" if "l \<in> set crits" "l \<in> set ?as" for l
        proof -
          have rp: "lit_true \<sigma> l" if "l \<in> set pred"
          proof -
            have "lit_true \<sigma> l = lit_true w l" by (rule cube_lits_agree[OF c(3) _ that]) (use g(3) in blast)
            then show ?thesis using inl[OF \<open>l \<in> set crits\<close> that] sub cs(1) by (auto simp: cube_sat_def)
          qed
          have "cube_sat \<sigma> inp" "cube_sat \<sigma> (map prime1 pinp)" using eq(1)[OF c(5)] eq(2)[OF c(6)] cs(2,3) by simp_all
          then show ?thesis using rp that(2) by (auto simp: cube_sat_def)
        qed
        then have "cube_sat \<sigma> ?sp" using u(4)[OF g(1,2)] by blast
        then show ?thesis using eq(2)[OF sc(2)] by simp
      qed
      have "ul_filled t T (s\<lparr>ts_solver := A\<rparr>)" unfolding ul_filled_def using E(1,3) u(1) by auto
      then have inv': "ul_inv t T (s\<lparr>ts_solver := A\<rparr>)" using inv kind_GLUCOSE[OF u(1)] by (simp add: ul_inv_def)
      have q: "\<forall>w w'. tr_trans t w w' \<longrightarrow> in_frame T \<infinity> w \<longrightarrow> cube_sat w (r' @ inp) \<longrightarrow> cube_sat w' pinp \<longrightarrow> cube_sat w' succ"
        if sub: "set ?lf \<subseteq> set r'" for r'
      proof (intro allI impI)
        fix w w' assume "tr_trans t w w'" "in_frame T \<infinity> w" and a: "cube_sat w (r' @ inp)" "cube_sat w' pinp"
        moreover have "cube_sat w r'" "cube_sat w inp" using a(1) by (simp_all add: cube_sat_def)
        ultimately show "cube_sat w' succ" using ok sub by blast
      qed
      show ?case
      proof (cases "?lf = []")
        case True
        have "set ?lf \<subseteq> set [hd pred]" using True by simp
        note q1 = q[OF this]
        have "hd pred \<in> set pred" using c(2) by simp
        then show ?thesis
          unfolding r prod.case wp_thenS wp_assertS Let_def if_P[OF True] wp_bindS wp_liftS wp_retS if_not_P[OF c(2)] wpr_Inr
          using inv' u(2) q1 by (intro conjI) simp_all
      next
        case False
        show ?thesis
          unfolding r prod.case wp_thenS wp_assertS Let_def if_not_P[OF False] wp_retS
          using inv' u(2) lf q[OF subset_refl] False by (intro conjI)
      qed
    qed
  qed
  show ?thesis
    unfolding ul_lift_def Let_def
  proof (cases "ul_inited s", goal_cases)
    case 1
    have i: "\<not> \<not> ul_inited s" using 1 by simp
    show ?case
      unfolding wp_bindS wp_getS wp_thenS wp_assertS if_not_P[OF i] pr wp_liftS wpr_Inr wp_retS
      by (rule conjI[OF sc(1) main[OF inv 1, unfolded wp_bindS Let_def wp_thenS wp_assertS wp_liftS wpr_Inr]])
  next
    case 2
    have i: "\<not> ul_inited s" using 2 .
    show ?case
      unfolding wp_bindS wp_getS wp_thenS wp_assertS if_P[OF i] pr wp_liftS wpr_Inr
    proof (rule conjI[OF sc(1) wp_mono[OF ul_renewSAT_wp[OF wf l inv T]]], elim conjE, goal_cases)
      case (1 u s1)
      show ?case by (rule main[OF 1, unfolded wp_bindS Let_def wp_thenS wp_assertS wp_liftS wpr_Inr])
    qed
  qed
qed

end

end
