(* ===== verification/Ic3Solver.thy ===== *)
theory Ic3Solver
  imports FrameLift FindMis
begin

text \<open>
  \<open>src/src/pme/ic3/ic3_solver.{h,cpp}\<close>: property directed reachability.  Obligations live in a pool and are
  referred to by their position in it, as the code refers to them by their address; the queue holds such
  references.  Levels of obligations are natural numbers (the code asserts that they are below
  \<open>LEVEL_INF\<close>).  The frame solver and the lifter see the trace as an argument; the variable manager is
  kept by the IC3 solver and lent to the frame solver for each call.  Logging and statistics are left
  out.  Loops whose end depends on the answers of the solvers take fuel.
\<close>

subsection \<open>State\<close>

record proofObligation =
  po_level :: nat
  po_cti :: cube
  po_concrete_state :: cube
  po_inputs :: cube
  po_may_degree :: nat
  po_parent :: "nat option"

record ic3 =
  i3_vars :: varManager
  i3_tr :: anyTR
  i3_trace :: inductiveTrace
  i3_obls :: "proofObligation list"
  i3_cons :: frameSolver
  i3_lift :: lifter
  i3_init_constraints :: "cube list"

definition i3_frames :: "ic3 \<Rightarrow> frameSolver" where
  "i3_frames s = (i3_cons s)\<lparr>fs_vars := i3_vars s\<rparr>"

definition i3_onCons :: "(inductiveTrace \<Rightarrow> (frameSolver, 'a) sm) \<Rightarrow> (ic3, 'a) sm" where
  "i3_onCons p = bindS getS (\<lambda>s. zoomS i3_frames (\<lambda>f s. s\<lparr>i3_vars := fs_vars f, i3_cons := f\<rparr>) (p (i3_trace s)))"

definition i3_onLift :: "(inductiveTrace \<Rightarrow> (lifter, 'a) sm) \<Rightarrow> (ic3, 'a) sm" where
  "i3_onLift p = bindS getS (\<lambda>s. zoomS i3_lift (\<lambda>f s. s\<lparr>i3_lift := f\<rparr>) (p (i3_trace s)))"

definition i3_onTrace :: "(inductiveTrace, 'a) sm \<Rightarrow> (ic3, 'a) sm" where
  "i3_onTrace p = zoomS i3_trace (\<lambda>T s. s\<lparr>i3_trace := T\<rparr>) p"

subsection \<open>Initial states\<close>

definition i3_resetSAT :: "(ic3, unit) sm" where
  "i3_resetSAT = bindS getS (\<lambda>s. bindS (liftS (fs_new (i3_vars s) (i3_tr s))) (\<lambda>f. bindS (liftS (ul_new (i3_tr s))) (\<lambda>l.
     modifyS (\<lambda>s. s\<lparr>i3_cons := f, i3_lift := l\<rparr>))))"

definition i3_addInit :: "cube \<Rightarrow> (ic3, unit) sm" where
  "i3_addInit cube = bindS getS (\<lambda>s. bindS (liftS (it_lemmaIsActive (i3_trace s) cube)) (\<lambda>b.
     if \<not> b then bindS (i3_onTrace (it_addLemma cube 0)) (\<lambda>i. retS ()) else retS ()))"

definition i3_initialize :: "(ic3, unit) sm" where
  "i3_initialize = bindS getS (\<lambda>s. bindS (liftS (tr_initState (i3_tr s))) (\<lambda>init_state.
     thenS (iterS (\<lambda>cls. i3_addInit (negateVec cls)) init_state)
     (thenS (iterS i3_addInit (i3_init_constraints s)) i3_resetSAT)))"

definition i3_new :: "varManager \<Rightarrow> anyTR \<Rightarrow> ic3 res" where
  "i3_new vm t = bindR (fs_new vm t) (\<lambda>f. bindR (ul_new t) (\<lambda>l. execS i3_initialize
     \<lparr>i3_vars = vm, i3_tr = t, i3_trace = it_new, i3_obls = [], i3_cons = f, i3_lift = l, i3_init_constraints = []\<rparr>))"

definition i3_initialStatesExpanded :: "(ic3, unit) sm" where
  "i3_initialStatesExpanded = thenS (i3_onTrace it_clear) i3_initialize"

definition i3_initialStatesRestricted :: "(ic3, unit) sm" where
  "i3_initialStatesRestricted = i3_initialize"

definition i3_clearRestrictions :: "(ic3, unit) sm" where
  "i3_clearRestrictions = modifyS (\<lambda>s. s\<lparr>i3_init_constraints := []\<rparr>)"

definition i3_restrictInitialState :: "clause \<Rightarrow> (ic3, unit) sm" where
  "i3_restrictInitialState cls = thenS (assertS (cls \<noteq> []))
     (modifyS (\<lambda>s. s\<lparr>i3_init_constraints := i3_init_constraints s @ [sort (negateVec cls)]\<rparr>))"

definition i3_restrictInitialStates :: "clauseVec \<Rightarrow> (ic3, unit) sm" where
  "i3_restrictInitialStates vec = iterS i3_restrictInitialState vec"

subsection \<open>Lemmas\<close>

definition i3_numFrames :: "ic3 \<Rightarrow> nat" where
  "i3_numFrames s = it_numFrames (i3_trace s)"

definition i3_getFrameCubes :: "ic3 \<Rightarrow> level \<Rightarrow> cube list res" where
  "i3_getFrameCubes s n = (if n = LEVEL_INF \<or> n < enat (i3_numFrames s) then
     bindR (it_getFrame (i3_trace s) n) (\<lambda>f. mapR (it_cubeOf (i3_trace s)) (sorted_list_of_set f)) else Inr [])"

definition i3_addLemma :: "cube \<Rightarrow> level \<Rightarrow> (ic3, lemmaID) sm" where
  "i3_addLemma c L = bindS (i3_onTrace (it_addLemma c L)) (\<lambda>i. thenS (i3_onCons (\<lambda>T. fs_addLemma T i)) (retS i))"

definition i3_addClausalLemma :: "clause \<Rightarrow> level \<Rightarrow> (ic3, lemmaID) sm" where
  "i3_addClausalLemma c L = i3_addLemma (negateVec c) L"

definition i3_addClausalLemmas :: "clauseVec \<Rightarrow> level \<Rightarrow> (ic3, unit) sm" where
  "i3_addClausalLemmas cs L = iterS (\<lambda>cls. bindS (i3_addClausalLemma cls L) (\<lambda>i. retS ())) cs"

definition i3_pushLemma :: "lemmaID \<Rightarrow> level \<Rightarrow> (ic3, unit) sm" where
  "i3_pushLemma i L = thenS (i3_onTrace (it_pushLemma i L)) (i3_onCons (\<lambda>T. fs_addLemma T i))"

definition i3_pushFrameToInf :: "nat \<Rightarrow> (ic3, unit) sm" where
  "i3_pushFrameToInf L = thenS (assertS (0 < L)) (bindS getS (\<lambda>s.
     thenS (iterS (\<lambda>i. bindS getS (\<lambda>s. bindS (liftS (it_getFrame (i3_trace s) (enat i))) (\<lambda>fr.
         iterS (\<lambda>j. i3_pushLemma j LEVEL_INF) (sorted_list_of_set fr)))) (rev [L..<i3_numFrames s]))
     (thenS (i3_onTrace it_clearUnusedFrames) (bindS getS (\<lambda>s. assertS (i3_numFrames s = L))))))"

text \<open>The lemmas of frame \<open>k\<close> one after the other; the number of those that moved up.\<close>

fun i3_pushFrame :: "backend \<Rightarrow> bool \<Rightarrow> nat \<Rightarrow> lemmaID list \<Rightarrow> (ic3, nat) sm" where
  "i3_pushFrame B opt k [] = retS 0"
| "i3_pushFrame B opt k (i # frame) = bindS getS (\<lambda>s. bindS (liftS (it_cubeOf (i3_trace s) i)) (\<lambda>c.
     bindS (i3_onCons (\<lambda>T. fs_consecution B opt T (enat k) c)) (\<lambda>b.
     bindS (if b then thenS (i3_pushLemma i (enat (k + 1))) (retS 1) else retS 0) (\<lambda>n.
     bindS (i3_pushFrame B opt k frame) (\<lambda>pushed. retS (n + pushed))))))"

fun i3_pushFrom :: "backend \<Rightarrow> bool \<Rightarrow> nat \<Rightarrow> nat \<Rightarrow> (ic3, unit) sm" where
  "i3_pushFrom B opt 0 k = bindS getS (\<lambda>s. if k < i3_numFrames s then failS Diverges else retS ())"
| "i3_pushFrom B opt (Suc fuel) k = bindS getS (\<lambda>s. if k < i3_numFrames s then
     bindS (liftS (it_getFrame (i3_trace s) (enat k))) (\<lambda>frame_copy.
     bindS (i3_pushFrame B opt k (sorted_list_of_set frame_copy)) (\<lambda>pushed.
     if pushed = card frame_copy then i3_pushFrameToInf k else i3_pushFrom B opt fuel (k + 1)))
     else retS ())"

definition i3_pushLemmas :: "backend \<Rightarrow> bool \<Rightarrow> nat \<Rightarrow> (ic3, unit) sm" where
  "i3_pushLemmas B opt fuel = i3_pushFrom B opt fuel 1"

fun blocksFrom :: "inductiveTrace \<Rightarrow> cube \<Rightarrow> lemmaID list \<Rightarrow> bool res" where
  "blocksFrom T target [] = Inr False"
| "blocksFrom T target (i # fk) = bindR (it_cubeOf T i) (\<lambda>cube. bindR (subsumes cube target) (\<lambda>b. if b then Inr True else blocksFrom T target fk))"

definition frameBlocks :: "inductiveTrace \<Rightarrow> cube \<Rightarrow> level \<Rightarrow> bool res" where
  "frameBlocks T target L = bindR (it_getFrame T L) (\<lambda>fk. blocksFrom T target (sorted_list_of_set fk))"

fun blockedByFrames :: "inductiveTrace \<Rightarrow> cube \<Rightarrow> nat list \<Rightarrow> bool res" where
  "blockedByFrames T target [] = Inr False"
| "blockedByFrames T target (k # ks) = bindR (frameBlocks T target (enat k)) (\<lambda>b. if b then Inr True else blockedByFrames T target ks)"

definition syntacticBlock :: "inductiveTrace \<Rightarrow> cube \<Rightarrow> nat \<Rightarrow> bool res" where
  "syntacticBlock T target L = bindR (blockedByFrames T target [L..<it_numFrames T]) (\<lambda>b. if b then Inr True else frameBlocks T target LEVEL_INF)"

subsection \<open>Generalization\<close>

definition subtractLit :: "cube \<Rightarrow> nat \<Rightarrow> cube" where
  "subtractLit s i = take i s @ drop (i + 1) s"

definition i3_initiation :: "backend \<Rightarrow> bool \<Rightarrow> cube \<Rightarrow> (ic3, bool) sm" where
  "i3_initiation B opt s = (if s = [] then retS False else bindS (i3_onCons (\<lambda>T. fs_intersection B opt T 0 s)) (\<lambda>b. retS (\<not> b)))"

text \<open>The inner loop advances both iterators over equal literals.\<close>

fun skip_equal :: "cube \<Rightarrow> cube \<Rightarrow> nat \<Rightarrow> nat \<Rightarrow> nat \<Rightarrow> nat \<times> nat" where
  "skip_equal s t 0 j i = (j, i)"
| "skip_equal s t (Suc n) j i = (if j < length s \<and> i < length t \<and> s ! j = t ! i then skip_equal s t n (j + 1) (i + 1) else (j, i))"

fun reinit_loop :: "backend \<Rightarrow> bool \<Rightarrow> nat \<Rightarrow> cube \<Rightarrow> cube \<Rightarrow> nat \<Rightarrow> nat \<Rightarrow> (ic3, cube) sm" where
  "reinit_loop B opt 0 s t j i = (if i < length t then failS Diverges else retS t)"
| "reinit_loop B opt (Suc fuel) s t j i = (if i < length t then
     thenS (assertS (j = length s \<or> t ! i \<le> s ! j))
     (case skip_equal s t (length t) j i of (j, i) \<Rightarrow>
       if i = length t then retS t else
       let lit = t ! i; t_copy = subtractLit t i in
       bindS (i3_initiation B opt t_copy) (\<lambda>b.
       let t = (if b then t_copy else t); i = (if b then upper_bound t_copy lit else i + 1);
           j = (if j < length s \<and> i < length t \<and> s ! j < t ! i then upper_bound s lit else j) in
       reinit_loop B opt fuel s t j i))
     else retS t)"

definition i3_reinitiate :: "backend \<Rightarrow> bool \<Rightarrow> cube \<Rightarrow> cube \<Rightarrow> (ic3, cube) sm" where
  "i3_reinitiate B opt s orig = thenS (assertS (length s < length orig)) (thenS (assertS (sorted s)) (thenS (assertS (sorted orig))
     (bindS (i3_initiation B opt orig) (\<lambda>b. thenS (assertS b)
     (bindS (reinit_loop B opt (length orig) s orig 0 0) (\<lambda>t.
     bindS (i3_initiation B opt t) (\<lambda>b. thenS (assertS b) (retS t))))))))"

definition i3_initiate :: "backend \<Rightarrow> bool \<Rightarrow> cube \<Rightarrow> cube \<Rightarrow> (ic3, cube) sm" where
  "i3_initiate B opt s orig = thenS (assertS (sorted s)) (bindS (i3_initiation B opt s) (\<lambda>b.
     bindS (if \<not> b then i3_reinitiate B opt s orig else retS s) (\<lambda>s.
     bindS (i3_initiation B opt s) (\<lambda>b. thenS (assertS b) (retS s)))))"

fun gen_loop :: "backend \<Rightarrow> bool \<Rightarrow> nat \<Rightarrow> level \<Rightarrow> cube \<Rightarrow> nat \<Rightarrow> (ic3, cube) sm" where
  "gen_loop B opt 0 k s i = (if i < length s \<and> 1 < length s then failS Diverges else retS s)"
| "gen_loop B opt (Suc fuel) k s i = (if i < length s \<and> 1 < length s then
     let lit = s ! i; s_copy = subtractLit s i in
     bindS (i3_initiation B opt s_copy) (\<lambda>b. if \<not> b then gen_loop B opt fuel k s (i + 1) else
     bindS (i3_onCons (\<lambda>T. fs_consecutionCore B opt T k s_copy)) (\<lambda>(cons, s_core).
     if cons then bindS (i3_initiate B opt (sort s_core) s) (\<lambda>s. thenS (assertS (sorted s)) (gen_loop B opt fuel k s (upper_bound s lit)))
     else gen_loop B opt fuel k s (i + 1)))
     else retS s)"

definition i3_generalizeIteration :: "backend \<Rightarrow> bool \<Rightarrow> cube \<Rightarrow> level \<Rightarrow> (ic3, cube) sm" where
  "i3_generalizeIteration B opt s L = gen_loop B opt (length s) (if L = LEVEL_INF then L else L - 1) s 0"

fun gen_rounds :: "backend \<Rightarrow> bool \<Rightarrow> nat \<Rightarrow> cube \<Rightarrow> level \<Rightarrow> (ic3, cube) sm" where
  "gen_rounds B opt 0 s L = failS Diverges"
| "gen_rounds B opt (Suc fuel) s L = bindS (i3_generalizeIteration B opt s L) (\<lambda>s'. thenS (assertS (length s' \<le> length s))
     (if length s' = length s then retS s' else gen_rounds B opt fuel s' L))"

definition i3_generalize :: "backend \<Rightarrow> bool \<Rightarrow> cube \<Rightarrow> level \<Rightarrow> (ic3, cube) sm" where
  "i3_generalize B opt s L = thenS (assertS (0 < L)) (gen_rounds B opt (length s + 1) (sort s) L)"

subsection \<open>Obligations\<close>

record blockResult =
  br_blocked :: bool
  br_level :: nat
  br_cti :: cube
  br_concrete_state :: cube
  br_inputs :: cube
  br_primed_inputs :: cube

definition i3_block :: "backend \<Rightarrow> bool \<Rightarrow> cube \<Rightarrow> nat \<Rightarrow> (ic3, blockResult) sm" where
  "i3_block B opt s L = (if L = 0 then retS \<lparr>br_blocked = False, br_level = 0, br_cti = [], br_concrete_state = [], br_inputs = [], br_primed_inputs = []\<rparr>
     else bindS (i3_onCons (\<lambda>T. fs_consecutionFull B opt T (enat (L - 1)) s)) (\<lambda>r.
     if cr_cons r then bindS (i3_initiate B opt (sort (cr_core r)) s) (\<lambda>core.
       bindS (i3_generalize B opt core (enat L)) (\<lambda>core.
       bindS (i3_initiation B opt core) (\<lambda>b. thenS (assertS b)
       (retS \<lparr>br_blocked = True, br_level = L, br_cti = core, br_concrete_state = [], br_inputs = [], br_primed_inputs = []\<rparr>))))
     else thenS (assertS (cr_pred r \<noteq> []))
       (bindS (i3_onLift (\<lambda>T. ul_lift B opt T (cr_pred r) s (cr_inp r) (cr_pinp r))) (\<lambda>lifted. thenS (assertS (lifted \<noteq> []))
       (retS \<lparr>br_blocked = False, br_level = 0, br_cti = lifted, br_concrete_state = cr_pred r, br_inputs = cr_inp r, br_primed_inputs = cr_pinp r\<rparr>)))))"

text \<open>\<open>operator<\<close> of vectors, and \<open>ObligationComparator\<close>: the smaller obligation comes later.\<close>

fun vec_less :: "cube \<Rightarrow> cube \<Rightarrow> bool" where
  "vec_less a [] = False"
| "vec_less [] (y # b) = True"
| "vec_less (x # a) (y # b) = (if x < y then True else if y < x then False else vec_less a b)"

definition obl_less :: "proofObligation \<Rightarrow> proofObligation \<Rightarrow> bool" where
  "obl_less l r = (if po_level l \<noteq> po_level r then po_level r < po_level l
     else if length (po_cti l) \<noteq> length (po_cti r) then length (po_cti r) < length (po_cti l)
     else if po_may_degree l \<noteq> po_may_degree r then po_may_degree r < po_may_degree l
     else vec_less (po_cti r) (po_cti l))"

text \<open>\<open>std::priority_queue\<close>: an element that is not smaller than another one is on top.  Of several equal
  ones the model takes the first in the order of the list; what the proofs use of the choice is
  the contract \<open>least_first\<close> of \<open>Ic3Block\<close> alone.\<close>

fun pq_top :: "('a \<Rightarrow> 'a \<Rightarrow> bool) \<Rightarrow> 'a \<Rightarrow> 'a list \<Rightarrow> 'a" where
  "pq_top lt m [] = m"
| "pq_top lt m (y # ys) = pq_top lt (if lt m y then y else m) ys"

definition obl_at :: "proofObligation list \<Rightarrow> nat \<Rightarrow> nat \<Rightarrow> bool" where
  "obl_at p i j = obl_less (p ! i) (p ! j)"

definition i3_newObligation :: "cube \<Rightarrow> nat \<Rightarrow> nat option \<Rightarrow> cube \<Rightarrow> cube \<Rightarrow> (ic3, nat) sm" where
  "i3_newObligation cti L parent conc inputs = bindS getS (\<lambda>s. thenS (modifyS (\<lambda>s. s\<lparr>i3_obls := i3_obls s @
     [\<lparr>po_level = L, po_cti = cti, po_concrete_state = conc, po_inputs = inputs, po_may_degree = 0, po_parent = parent\<rparr>]\<rparr>))
     (retS (length (i3_obls s))))"

definition i3_updateObligation :: "nat \<Rightarrow> (proofObligation \<Rightarrow> proofObligation) \<Rightarrow> (ic3, unit) sm" where
  "i3_updateObligation i g = modifyS (\<lambda>s. s\<lparr>i3_obls := (i3_obls s)[i := g (i3_obls s ! i)]\<rparr>)"

definition i3_clearObligationPool :: "(ic3, unit) sm" where
  "i3_clearObligationPool = modifyS (\<lambda>s. s\<lparr>i3_obls := []\<rparr>)"

text \<open>The steps from an obligation to the one without a parent; an obligation is younger than its
  parent, so no more steps than obligations are taken.\<close>

fun cex_steps :: "nat \<Rightarrow> proofObligation list \<Rightarrow> nat option \<Rightarrow> safetyCounterExample res" where
  "cex_steps n p None = Inr []"
| "cex_steps 0 p (Some i) = Inl Diverges"
| "cex_steps (Suc n) p (Some i) = bindR (atR p i) (\<lambda>obl. bindR (cex_steps n p (po_parent obl)) (\<lambda>cex.
     Inr (\<lparr>st_inputs = sort (po_inputs obl), st_state = sort (po_concrete_state obl)\<rparr> # cex)))"

definition i3_buildCex :: "ic3 \<Rightarrow> nat \<Rightarrow> safetyCounterExample res" where
  "i3_buildCex s i = cex_steps (length (i3_obls s)) (i3_obls s) (Some i)"

fun rb_loop :: "backend \<Rightarrow> bool \<Rightarrow> nat \<Rightarrow> nat \<Rightarrow> nat list \<Rightarrow> (ic3, bool \<times> safetyCounterExample) sm" where
  "rb_loop B opt fuel target_level [] = retS (True, [])"
| "rb_loop B opt 0 target_level (x # q) = failS Diverges"
| "rb_loop B opt (Suc fuel) target_level (x # q) = bindS getS (\<lambda>s.
     let i = pq_top (obl_at (i3_obls s)) x q; q = remove1 i (x # q) in
     bindS (liftS (atR (i3_obls s) i)) (\<lambda>obl. thenS (assertS (po_may_degree obl = 0)) (
     let c = po_cti obl; level = po_level obl in thenS (assertS (sorted c)) (
     if level = 0 then bindS (liftS (i3_buildCex s i)) (\<lambda>cex. retS (False, cex))
     else bindS (liftS (syntacticBlock (i3_trace s) c level)) (\<lambda>b. if b then rb_loop B opt fuel target_level q
     else bindS (i3_block B opt c level) (\<lambda>r.
     if br_blocked r then thenS (assertS (level \<le> br_level r)) (bindS (i3_addLemma (br_cti r) (enat (br_level r))) (\<lambda>l.
       if br_level r < target_level then thenS (i3_updateObligation i (\<lambda>obl. obl\<lparr>po_level := br_level r + 1\<rparr>)) (rb_loop B opt fuel target_level (i # q))
       else rb_loop B opt fuel target_level q))
     else bindS (i3_newObligation (sort (br_cti r)) (level - 1) (Some i) (br_concrete_state r) (br_inputs r)) (\<lambda>j.
       thenS (i3_updateObligation i (\<lambda>obl. if po_inputs obl = [] then obl\<lparr>po_inputs := br_primed_inputs r\<rparr> else obl))
       (rb_loop B opt fuel target_level (i # j # q)))))))))"

definition i3_recursiveBlock :: "backend \<Rightarrow> bool \<Rightarrow> nat \<Rightarrow> cube \<Rightarrow> nat \<Rightarrow> (ic3, bool \<times> safetyCounterExample) sm" where
  "i3_recursiveBlock B opt fuel target target_level = bindS (i3_newObligation target target_level None [] []) (\<lambda>i. rb_loop B opt fuel target_level [i])"

subsection \<open>Proving\<close>

definition i3_isSafe :: "backend \<Rightarrow> bool \<Rightarrow> cube \<Rightarrow> (ic3, bool) sm" where
  "i3_isSafe B opt target = bindS getS (\<lambda>s.
     bindS (if it_lemmaExists (i3_trace s) target then bindS (liftS (it_getLemma (i3_trace s) target)) (\<lambda>l. retS (ld_level l = LEVEL_INF)) else retS False) (\<lambda>b.
     if b then retS True else bindS (i3_onCons (\<lambda>T. fs_intersection B opt T LEVEL_INF target)) (\<lambda>b. retS (\<not> b))))"

definition i3_checkInitial :: "backend \<Rightarrow> bool \<Rightarrow> cube \<Rightarrow> (ic3, bool \<times> safetyCounterExample) sm" where
  "i3_checkInitial B opt target = bindS (i3_onCons (\<lambda>T. fs_intersectionFull B opt T 0 target)) (\<lambda>(is_initial, init_state, inputs).
     retS (\<not> is_initial, if is_initial then [\<lparr>st_inputs = inputs, st_state = init_state\<rparr>] else []))"

definition i3_recordProof :: "(ic3, safetyProof) sm" where
  "i3_recordProof = bindS getS (\<lambda>s. bindS (liftS (it_getFrame (i3_trace s) LEVEL_INF)) (\<lambda>proof.
     liftS (mapR (\<lambda>lemma. bindR (it_cubeOf (i3_trace s) lemma) (\<lambda>cube. Inr (negateVec cube))) (sorted_list_of_set proof))))"

fun prove_loop :: "backend \<Rightarrow> bool \<Rightarrow> nat \<Rightarrow> nat \<Rightarrow> cube \<Rightarrow> nat \<Rightarrow> (ic3, safetyCounterExample option) sm" where
  "prove_loop B opt 0 n target k = failS Diverges"
| "prove_loop B opt (Suc fuel) n target k = bindS (i3_isSafe B opt target) (\<lambda>safe. if safe then retS None else
     bindS (i3_recursiveBlock B opt n target k) (\<lambda>(blocked, cex).
     if blocked then thenS i3_clearObligationPool (thenS (i3_pushLemmas B opt n) (bindS getS (\<lambda>s.
       bindS (liftS (it_levelOf (i3_trace s) target)) (\<lambda>level. thenS (assertS (enat k \<le> level))
       (case level of \<infinity> \<Rightarrow> retS None | enat l \<Rightarrow> prove_loop B opt fuel n target (l + 1))))))
     else retS (Some cex)))"

definition i3_proveTarget :: "backend \<Rightarrow> bool \<Rightarrow> nat \<Rightarrow> cube \<Rightarrow> (ic3, safetyResult) sm" where
  "i3_proveTarget B opt fuel target = bindS (i3_checkInitial B opt target) (\<lambda>(blocked, cex).
     if \<not> blocked then retS \<lparr>sr_result = UNSAFE, sr_proof = [], sr_cex = cex\<rparr>
     else bindS (prove_loop B opt fuel fuel target 1) (\<lambda>r. case r of
       Some cex \<Rightarrow> retS \<lparr>sr_result = UNSAFE, sr_proof = [], sr_cex = cex\<rparr>
     | None \<Rightarrow> bindS i3_recordProof (\<lambda>proof. retS \<lparr>sr_result = SAFE, sr_proof = proof, sr_cex = []\<rparr>)))"

definition i3_prove :: "backend \<Rightarrow> bool \<Rightarrow> nat \<Rightarrow> (ic3, safetyResult) sm" where
  "i3_prove B opt fuel = bindS getS (\<lambda>s. i3_proveTarget B opt fuel [tr_bad (baseTR (i3_tr s))])"

end
