(* ===== verification/Ic3Frames.thy ===== *)
theory Ic3Frames
  imports Ic3Solver
begin

text \<open>
  What IC3 means by its frames: the states reached in a number of steps, the levels of lemmas, why a
  lemma holds from its level on, and the circuits for which this is enough.
\<close>

subsection \<open>States reached, frames and lemmas\<close>

definition gates_total :: "anyTR \<Rightarrow> bool" where
  "gates_total t = (\<forall>s. const_ok s \<longrightarrow> (\<exists>s'. const_ok s' \<and> frame_ok t s' \<and> (\<forall>v\<in>io_vars t. s' v = s v)))"

definition starts :: "anyTR \<Rightarrow> cube set \<Rightarrow> assignment \<Rightarrow> bool" where
  "starts t R w = (init_ok t w \<and> (\<forall>c\<in>R. \<not> cube_sat w c))"

primrec reach :: "anyTR \<Rightarrow> cube set \<Rightarrow> nat \<Rightarrow> assignment \<Rightarrow> bool" where
  "reach t R 0 w = (starts t R w \<and> (\<exists>w'. tr_trans t w w'))"
| "reach t R (Suc n) w = (\<exists>u. reach t R n u \<and> tr_trans t u w \<and> (\<exists>w'. tr_trans t w w'))"

definition excl :: "anyTR \<Rightarrow> cube set \<Rightarrow> cube \<Rightarrow> bool" where
  "excl t R c = (\<forall>w w'. tr_trans t w w' \<longrightarrow> starts t R w \<longrightarrow> \<not> cube_sat w c)"

text \<open>Why cube \<open>c\<close> is excluded after a step from frame \<open>L\<close>: a part \<open>a\<close> of it is, once a cube
  \<open>b\<close> that contains \<open>a\<close> is excluded before the step.\<close>

definition ri_by :: "anyTR \<Rightarrow> cube set \<Rightarrow> inductiveTrace \<Rightarrow> level \<Rightarrow> cube \<Rightarrow> cube \<Rightarrow> cube \<Rightarrow> bool" where
  "ri_by t R T L c a b = (set a \<subseteq> set c \<and> set a \<subseteq> set b \<and> excl t R b
     \<and> (\<forall>w w'. tr_trans t w w' \<longrightarrow> in_frame T L w \<longrightarrow> \<not> cube_sat w b \<longrightarrow> \<not> cube_sat w' a))"

definition ri :: "anyTR \<Rightarrow> cube set \<Rightarrow> inductiveTrace \<Rightarrow> level \<Rightarrow> cube \<Rightarrow> bool" where
  "ri t R T L c = (\<exists>a b. ri_by t R T L c a b)"

definition init_cubes :: "anyTR \<Rightarrow> cube set" where
  "init_cubes t = (case tr_initState t of Inl e \<Rightarrow> {} | Inr C \<Rightarrow> negateVec ` set C)"

text \<open>The cubes IC3 works with.\<close>

definition ic3_cubes :: "anyTR \<Rightarrow> cube set" where
  "ic3_cubes t = insert [tr_bad (baseTR t)] {c. c \<noteq> [] \<and> sorted c \<and> distinct c \<and> strip ` set c \<subseteq> set (tr_latchIDs (baseTR t))}"

definition lemmas_ok :: "anyTR \<Rightarrow> cube set \<Rightarrow> inductiveTrace \<Rightarrow> bool" where
  "lemmas_ok t R T = ((\<forall>c\<in>init_cubes t \<union> R. \<exists>L. it_lev T c = Some L)
     \<and> (\<forall>c L. it_lev T c = Some L \<longrightarrow> excl t R c \<and> (1 \<le> L \<longrightarrow> ri t R T (L - 1) c \<and> c \<in> ic3_cubes t)))"

lemma lemmas_okD:
  assumes "lemmas_ok t R T"
  shows "c \<in> init_cubes t \<union> R \<Longrightarrow> \<exists>L. it_lev T c = Some L" "it_lev T c = Some L \<Longrightarrow> excl t R c"
    "it_lev T c = Some L \<Longrightarrow> 1 \<le> L \<Longrightarrow> ri t R T (L - 1) c" "it_lev T c = Some L \<Longrightarrow> 1 \<le> L \<Longrightarrow> c \<in> ic3_cubes t"
  using assms unfolding lemmas_ok_def by blast+

lemma cube_sat_sub: "set a \<subseteq> set b \<Longrightarrow> cube_sat w b \<Longrightarrow> cube_sat w a"
  by (auto simp: cube_sat_def)

lemma in_frame_le: "in_frame T L w \<Longrightarrow> L \<le> M \<Longrightarrow> in_frame T M w"
  unfolding in_frame_def using order_trans by blast

text \<open>States reached in \<open>n\<close> steps satisfy all lemmas from level \<open>n\<close> on.\<close>

lemma reach_frame_by:
  assumes ok: "lemmas_ok t R T"
  shows "reach t R n w \<Longrightarrow> in_frame T (enat n) w \<and> (\<forall>c L a b. it_lev T c = Some L \<longrightarrow> enat n \<le> L \<longrightarrow> 1 \<le> L \<longrightarrow> ri_by t R T (L - 1) c a b
     \<longrightarrow> starts t R w \<or> \<not> cube_sat w a)"
proof (induction n arbitrary: w)
  case 0
  then obtain w' where w: "starts t R w" "tr_trans t w w'" by auto
  have "in_frame T (enat 0) w" unfolding in_frame_def using lemmas_okD(2)[OF ok] w by (auto simp: excl_def)
  then show ?case using w(1) by blast
next
  case (Suc n)
  then obtain u w' where u: "reach t R n u" "tr_trans t u w" "tr_trans t w w'" by auto
  note IH = Suc.IH[OF u(1)]
  have step: "\<not> cube_sat w a" if c: "it_lev T c = Some L" "enat (Suc n) \<le> L" and r: "ri_by t R T (L - 1) c a b" for c L a b
  proof -
    have l: "enat n \<le> L" "1 \<le> L" "enat n \<le> L - 1" using c(2) by (cases L; simp add: one_enat_def)+
    have "starts t R u \<or> \<not> cube_sat u a" using IH c(1) l r by blast
    then have "\<not> cube_sat u b" using r u(2) cube_sat_sub unfolding ri_by_def excl_def by blast
    then show ?thesis using r u(2) in_frame_le[OF _ l(3)] IH unfolding ri_by_def by blast
  qed
  have "\<not> cube_sat w c" if c: "it_lev T c = Some L" "enat (Suc n) \<le> L" for c L
  proof -
    have "1 \<le> L" using c(2) by (cases L) (simp_all add: one_enat_def)
    then obtain a b where r: "ri_by t R T (L - 1) c a b" using lemmas_okD(3)[OF ok c(1)] by (auto simp: ri_def)
    then show ?thesis using step[OF c r] cube_sat_sub unfolding ri_by_def by blast
  qed
  then show ?case using step unfolding in_frame_def by blast
qed

lemma reach_frame: "lemmas_ok t R T \<Longrightarrow> reach t R n w \<Longrightarrow> enat n \<le> L \<Longrightarrow> in_frame T L w"
  using reach_frame_by in_frame_le by blast

lemma frame_0:
  assumes ok: "lemmas_ok t R T" and wf: "tr_wf t" and w: "tr_trans t w w'"
  shows "in_frame T 0 w \<longleftrightarrow> starts t R w"
proof
  assume "starts t R w"
  then have "reach t R 0 w" using w by auto
  from reach_frame[OF ok this, of 0] show "in_frame T 0 w" by (simp add: zero_enat_def)
next
  assume f: "in_frame T 0 w"
  have no: "\<not> cube_sat w c" if "c \<in> init_cubes t \<union> R" for c
    using lemmas_okD(1)[OF ok that] f unfolding in_frame_def by auto
  obtain C where C: "tr_initState t = Inr C" "\<And>\<sigma>. const_ok \<sigma> \<Longrightarrow> cnf_sat \<sigma> C \<longleftrightarrow> init_ok t \<sigma>"
    using tr_initState_sem[OF wf] by (auto simp: wpr_iff)
  have "clause_sat w cls" if "cls \<in> set C" for cls
    using no[of "negateVec cls"] that C(1) by (simp add: init_cubes_def cube_sat_negateVec)
  then have "init_ok t w" using C(2)[of w] w by (auto simp: cnf_sat_def tr_trans_def)
  then show "starts t R w" using no by (simp add: starts_def)
qed

subsection \<open>Traces that grow\<close>

definition grows :: "inductiveTrace \<Rightarrow> inductiveTrace \<Rightarrow> bool" where
  "grows T T' = (\<forall>c L. it_lev T c = Some L \<longrightarrow> (\<exists>L'. L \<le> L' \<and> it_lev T' c = Some L'))"

lemma growsD: "grows T T' \<Longrightarrow> it_lev T c = Some L \<Longrightarrow> \<exists>L'. L \<le> L' \<and> it_lev T' c = Some L'"
  by (simp add: grows_def)

lemma grows_refl [intro]: "grows T T"
  by (auto simp: grows_def)

lemma grows_trans: "grows T T' \<Longrightarrow> grows T' T'' \<Longrightarrow> grows T T''"
  unfolding grows_def by (meson order_trans)

lemma grows_set:
  assumes "it_lev T' = (it_lev T)(c \<mapsto> L)" "\<And>N. it_lev T c = Some N \<Longrightarrow> N \<le> L"
  shows "grows T T'"
  using assms by (auto simp: grows_def)

lemma in_frame_grows: "grows T T' \<Longrightarrow> in_frame T' L w \<Longrightarrow> in_frame T L w"
  unfolding grows_def in_frame_def by (meson order_trans)

lemma ri_grows: "grows T T' \<Longrightarrow> ri t R T L c \<Longrightarrow> ri t R T' L c"
  unfolding ri_def ri_by_def by (meson in_frame_grows)

lemma lemmas_ok_add:
  assumes ok: "lemmas_ok t R T" and T': "it_lev T' = (it_lev T)(c \<mapsto> L)" "\<And>N. it_lev T c = Some N \<Longrightarrow> N \<le> L"
    and c: "excl t R c" "1 \<le> L \<Longrightarrow> ri t R T' (L - 1) c \<and> c \<in> ic3_cubes t"
  shows "lemmas_ok t R T'" "grows T T'"
proof -
  show g: "grows T T'" by (rule grows_set[OF T'])
  have "excl t R d \<and> (1 \<le> M \<longrightarrow> ri t R T' (M - 1) d \<and> d \<in> ic3_cubes t)" if d: "it_lev T' d = Some M" for d M
  proof (cases "d = c")
    case True
    then show ?thesis using d c T'(1) by simp
  next
    case False
    then have dM: "it_lev T d = Some M" using d T'(1) by simp
    show ?thesis using lemmas_okD(2-4)[OF ok dM] ri_grows[OF g] by blast
  qed
  moreover have "\<exists>M. it_lev T' d = Some M" if "d \<in> init_cubes t \<union> R" for d
    using lemmas_okD(1)[OF ok that] growsD[OF g] by blast
  ultimately show "lemmas_ok t R T'" unfolding lemmas_ok_def by blast
qed

text \<open>Frame \<open>k\<close> is empty: all lemmas of the frames above are inductive together.\<close>

lemma lemmas_ok_promote:
  assumes ok: "lemmas_ok t R T" and e: "\<And>c. it_lev T c \<noteq> Some (enat k)" and k: "0 < k"
    and T': "\<And>c. it_lev T' c = (case it_lev T c of None \<Rightarrow> None | Some L \<Rightarrow> Some (if enat k \<le> L then \<infinity> else L))"
  shows "lemmas_ok t R T'" "grows T T'"
proof -
  have g: "grows T T'" by (auto simp: grows_def T')
  have inf: "in_frame T (L - 1) w" if "in_frame T' \<infinity> w" "enat k \<le> L" "L \<noteq> enat k" for L w
  proof -
    have "enat k \<le> L - 1" using that(2,3) by (cases L) (auto simp: one_enat_def)
    moreover have "in_frame T (enat k) w"
      using that(1) unfolding in_frame_def T' by (auto split: option.splits)
    ultimately show ?thesis using in_frame_le by blast
  qed
  have "excl t R d \<and> (1 \<le> M \<longrightarrow> ri t R T' (M - 1) d \<and> d \<in> ic3_cubes t)" if d: "it_lev T' d = Some M" for d M
  proof -
    obtain L where L: "it_lev T d = Some L" "M = (if enat k \<le> L then \<infinity> else L)" using d T'[of d] by (auto split: option.splits)
    show ?thesis
    proof (cases "enat k \<le> L")
      case True
      have "1 \<le> L" using True k by (cases L) (auto simp: one_enat_def)
      moreover have "L \<noteq> enat k" using e L(1) by metis
      ultimately show ?thesis using lemmas_okD(2-4)[OF ok L(1)] L(2) True inf unfolding ri_def ri_by_def by (simp, blast)
    next
      case False
      then have "M = L" using L(2) by simp
      then show ?thesis using lemmas_okD(2-4)[OF ok L(1)] ri_grows[OF g] by blast
    qed
  qed
  moreover have "\<exists>M. it_lev T' d = Some M" if "d \<in> init_cubes t \<union> R" for d
    using lemmas_okD(1)[OF ok that] growsD[OF g] by blast
  ultimately show "lemmas_ok t R T'" unfolding lemmas_ok_def by blast
  show "grows T T'" by (rule g)
qed

subsection \<open>Circuits\<close>

text \<open>Latches and inputs are different and determine all values, and every choice of them extends to
  the gates: no invariant constraints, and gates without cycles.\<close>

definition functional :: "anyTR \<Rightarrow> bool" where
  "functional t = (det t \<and> gates_total t \<and> set (tr_latchIDs (baseTR t)) \<inter> set (tr_inputIDs (baseTR t)) = {})"

lemma latch_in:
  assumes "tr_wf t" "(k, l) \<in> set (tr_latches (baseTR t))"
  shows "k \<in> set (tr_latchIDs (baseTR t))"
proof -
  have "set (tr_latchIDs (baseTR t)) = fst ` set (tr_latches (baseTR t))" using assms(1) unfolding tr_wf_def by (elim conjE)
  then show ?thesis using assms(2) by (simp add: rev_image_eqI)
qed

lemma latch_ids':
  assumes "tr_wf t" "v \<in> set (tr_latchIDs (baseTR t))"
  shows "v \<noteq> ID_FALSE"
proof
  assume "v = ID_FALSE"
  obtain l where "(v, l) \<in> set (tr_latches (baseTR t))" using latch_ids[OF assms] by blast
  from tr_latch_wf(4)[OF assms(1) this] show False using \<open>v = ID_FALSE\<close> by (simp add: MIN_ID_val ID_FALSE_def)
qed

lemma re_input:
  assumes wf: "tr_wf t" and f: "functional t" and c: "const_ok i" "const_ok i'"
  shows "\<exists>w w'. tr_trans t w w' \<and> (\<forall>v\<in>set (tr_latchIDs (baseTR t)). w v = u v)
     \<and> (\<forall>v\<in>set (tr_inputIDs (baseTR t)). w v = i v \<and> w' v = i' v)"
proof -
  let ?la = "set (tr_latchIDs (baseTR t))"
  have dis: "v \<notin> ?la" if "v \<in> set (tr_inputIDs (baseTR t))" for v using f that by (auto simp: functional_def)
  have ex: "\<exists>w. const_ok w \<and> frame_ok t w \<and> (\<forall>v\<in>?la. w v = g v) \<and> (\<forall>v\<in>set (tr_inputIDs (baseTR t)). w v = j v)"
    if j: "const_ok j" for g j
  proof -
    have "ID_FALSE \<notin> ?la" using latch_ids'[OF wf, of ID_FALSE] by blast
    then have c0: "const_ok (\<lambda>v. if v \<in> ?la then g v else j v)" using j by (simp add: const_ok_def)
    have "gates_total t" using f by (simp add: functional_def)
    from this[unfolded gates_total_def, rule_format, OF c0]
    obtain w where "const_ok w" "frame_ok t w" "\<forall>v\<in>io_vars t. w v = (if v \<in> ?la then g v else j v)" by blast
    then show ?thesis using dis by (auto simp: io_vars_def)
  qed
  obtain w where w: "const_ok w" "frame_ok t w" "\<forall>v\<in>?la. w v = u v" "\<forall>v\<in>set (tr_inputIDs (baseTR t)). w v = i v"
    using ex[OF c(1)] by blast
  obtain w' where w': "const_ok w'" "frame_ok t w'" "\<forall>v\<in>?la. w' v = next_state t w v" "\<forall>v\<in>set (tr_inputIDs (baseTR t)). w' v = i' v"
    using ex[OF c(2)] by blast
  have "step_ok t w w'"
    unfolding step_ok_def
  proof clarify
    fix k l assume kl: "(k, l) \<in> set (tr_latches (baseTR t))"
    have "k \<in> ?la" by (rule latch_in[OF wf kl])
    then show "lit_true w' k = lit_true w (la_next l)"
      using w'(3) tr_latch_wf(1,3)[OF wf kl] by (simp add: lit_true_pos next_state_def)
  qed
  then show ?thesis using w w' unfolding tr_trans_def by blast
qed

lemma latch_sat:
  assumes "strip ` set c \<subseteq> set (tr_latchIDs (baseTR t))" "\<forall>v\<in>set (tr_latchIDs (baseTR t)). w v = u v"
  shows "cube_sat w c = cube_sat u c"
  by (rule cube_sat_agree[OF assms(1)]) (use assms(2) in blast)

lemma step_latches:
  assumes "tr_wf t" "step_ok t p u" "\<forall>v\<in>set (tr_latchIDs (baseTR t)). w v = u v"
  shows "step_ok t p w"
  unfolding step_ok_def
proof clarify
  fix k l assume kl: "(k, l) \<in> set (tr_latches (baseTR t))"
  have "w k = u k" using assms(3) latch_in[OF assms(1) kl] by blast
  moreover have "lit_true u k = lit_true p (la_next l)" using assms(2) kl unfolding step_ok_def by blast
  ultimately show "lit_true w k = lit_true p (la_next l)" using tr_latch_wf(3)[OF assms(1) kl] by (simp add: lit_true_pos)
qed

lemma init_latches:
  assumes "tr_wf t" "init_ok t u" "\<forall>v\<in>set (tr_latchIDs (baseTR t)). w v = u v"
  shows "init_ok t w"
  unfolding init_ok_def
proof clarify
  fix k l assume kl: "(k, l) \<in> set (tr_latches (baseTR t))"
  have "w k = u k" using assms(3) latch_in[OF assms(1) kl] by blast
  moreover have "(la_reset l = ID_TRUE \<longrightarrow> lit_true u (la_id l)) \<and> (la_reset l = ID_FALSE \<longrightarrow> \<not> lit_true u (la_id l))"
    using assms(2) kl unfolding init_ok_def by blast
  ultimately show "(la_reset l = ID_TRUE \<longrightarrow> lit_true w (la_id l)) \<and> (la_reset l = ID_FALSE \<longrightarrow> \<not> lit_true w (la_id l))"
    using tr_latch_wf(2,3)[OF assms(1) kl] by (simp add: lit_true_pos)
qed

lemma reach_latches:
  assumes wf: "tr_wf t" and R: "\<forall>c\<in>R. strip ` set c \<subseteq> set (tr_latchIDs (baseTR t))"
    and r: "reach t R n u" and w: "tr_trans t w w'" "\<forall>v\<in>set (tr_latchIDs (baseTR t)). w v = u v"
  shows "reach t R n w"
proof (cases n)
  case 0
  then have "starts t R u" using r by simp
  then have "starts t R w" using init_latches[OF wf _ w(2)] latch_sat[OF _ w(2)] R by (auto simp: starts_def)
  then show ?thesis using 0 w(1) by auto
next
  case (Suc m)
  then obtain p where p: "reach t R m p" "tr_trans t p u" using r by auto
  have "tr_trans t p w" using p(2) w(1) step_latches[OF wf _ w(2)] by (simp add: tr_trans_def)
  then show ?thesis using Suc p(1) w(1) by auto
qed

lemma init_cubes_latch:
  assumes wf: "tr_wf t" and c: "c \<in> init_cubes t"
  shows "\<exists>l. c = [l] \<and> strip l \<in> set (tr_latchIDs (baseTR t))"
proof -
  let ?f = "\<lambda>(k, latch). if la_reset latch \<noteq> ID_NULL then
        assertR (la_reset latch = ID_TRUE \<or> la_reset latch = ID_FALSE)
          (Inr (make_equal (la_id latch) (la_reset latch))) else Inr []"
  obtain Cs cls where C: "mapR ?f (tr_latches (baseTR t)) = Inr Cs" "cls \<in> set (concat Cs)" "c = negateVec cls"
    using c unfolding init_cubes_def tr_initState_def by (auto split: sum.splits simp: bindR_Inr_iff)
  have "\<exists>x\<in>set xs. \<exists>C. ?f x = Inr C \<and> cls \<in> set C" if "mapR ?f xs = Inr Cs" "cls \<in> set (concat Cs)" for xs Cs
    using that
  proof (induction xs arbitrary: Cs)
    case (Cons x xs)
    then obtain y ys where "?f x = Inr y" "mapR ?f xs = Inr ys" "Cs = y # ys" by (auto simp: bindR_Inr_iff)
    then show ?case using Cons by auto
  qed simp
  from this[OF C(1,2)] obtain k l D where x: "(k, l) \<in> set (tr_latches (baseTR t))" "?f (k, l) = Inr D" "cls \<in> set D" by auto
  have tf: "ID_TRUE \<noteq> ID_FALSE" by (simp add: ID_TRUE_val ID_FALSE_def)
  have k: "k \<in> set (tr_latchIDs (baseTR t))" "la_id l = k" "\<not> is_negated k" "MIN_ID \<le> k"
    using latch_in[OF wf x(1)] tr_latch_wf(2-4)[OF wf x(1)] by simp_all
  have "k \<noteq> ID_TRUE" "k \<noteq> ID_FALSE" using k(4) by (auto simp: MIN_ID_val ID_TRUE_val ID_FALSE_def)
  then have "cls = [k] \<or> cls = [negate k]"
    using x(2,3) k(2) tf by (auto simp: assertR_def make_equal_def split: if_splits)
  then show ?thesis using C(3) k(1,3) by (auto simp: strip_id)
qed

lemma ic3_cubes_finite: "finite (ic3_cubes t)"
proof -
  let ?L = "set (tr_latchIDs (baseTR t)) \<union> negate ` set (tr_latchIDs (baseTR t))"
  have "{c. c \<noteq> [] \<and> sorted c \<and> distinct c \<and> strip ` set c \<subseteq> set (tr_latchIDs (baseTR t))} \<subseteq> {c. set c \<subseteq> ?L \<and> distinct c}"
  proof (clarify, goal_cases)
    case (1 c x)
    then have "strip x \<in> set (tr_latchIDs (baseTR t))" by auto
    moreover have "x = strip x \<or> x = negate (strip x)" by (simp add: strip_def)
    ultimately show ?case using 1 by (metis imageI)
  qed
  then show ?thesis unfolding ic3_cubes_def by (simp add: finite_subset[OF _ finite_subset_distinct])
qed

end
