(* ===== verification/Ic3Gen.thy ===== *)
theory Ic3Gen
  imports Ic3Frames
begin

text \<open>
  The invariant of the IC3 solver, its queries, and generalization: what is left of a cube after literals
  were dropped still holds no initial state and is still not reached from the frame below.
\<close>

subsection \<open>The invariant of the IC3 solver\<close>

definition ic3_vars :: "anyTR \<Rightarrow> id set" where
  "ic3_vars t = state_vars t \<union> io_vars t"

definition i3_ok :: "anyTR \<Rightarrow> cube set \<Rightarrow> nat \<Rightarrow> ic3 \<Rightarrow> bool" where
  "i3_ok t R M s = (i3_tr s = t \<and> fs_inv t (ic3_vars t) M (i3_trace s) (i3_frames s) \<and> ul_inv t (i3_trace s) (i3_lift s)
     \<and> lemmas_ok t R (i3_trace s) \<and> it_live (i3_trace s))"

text \<open>A query changes the solvers only.\<close>

definition i3_query :: "ic3 \<Rightarrow> ic3 \<Rightarrow> bool" where
  "i3_query s s' = (i3_tr s' = i3_tr s \<and> i3_trace s' = i3_trace s \<and> i3_obls s' = i3_obls s \<and> i3_init_constraints s' = i3_init_constraints s)"

lemma i3_query_refl [intro]: "i3_query s s"
  by (simp add: i3_query_def)

lemma i3_query_trans: "i3_query s s' \<Longrightarrow> i3_query s' s'' \<Longrightarrow> i3_query s s''"
  by (simp add: i3_query_def)

lemma wp_i3_onCons: "wp (i3_onCons p) Q s = wp (p (i3_trace s)) (\<lambda>a f. Q a (s\<lparr>i3_vars := fs_vars f, i3_cons := f\<rparr>)) (i3_frames s)"
  by (simp add: i3_onCons_def)

lemma wp_i3_onLift: "wp (i3_onLift p) Q s = wp (p (i3_trace s)) (\<lambda>a f. Q a (s\<lparr>i3_lift := f\<rparr>)) (i3_lift s)"
  by (simp add: i3_onLift_def)

lemma wp_i3_onTrace: "wp (i3_onTrace p) Q s = wp p (\<lambda>a T. Q a (s\<lparr>i3_trace := T\<rparr>)) (i3_trace s)"
  by (simp add: i3_onTrace_def)

lemma i3_frames_simps [simp]:
  "i3_frames (s\<lparr>i3_vars := fs_vars f, i3_cons := f\<rparr>) = f" "i3_frames (s\<lparr>i3_trace := T\<rparr>) = i3_frames s"
  "i3_frames (s\<lparr>i3_obls := p\<rparr>) = i3_frames s" "i3_frames (s\<lparr>i3_lift := l\<rparr>) = i3_frames s"
  "i3_frames (s\<lparr>i3_init_constraints := cs\<rparr>) = i3_frames s"
  by (simp_all add: i3_frames_def)

lemma i3_ok_obls [simp]: "i3_ok t R M (s\<lparr>i3_obls := p\<rparr>) = i3_ok t R M s"
  by (simp add: i3_ok_def)

lemma i3_okD:
  assumes "i3_ok t R M s"
  shows "i3_tr s = t" "fs_inv t (ic3_vars t) M (i3_trace s) (i3_frames s)" "ul_inv t (i3_trace s) (i3_lift s)" "lemmas_ok t R (i3_trace s)"
    "trace_ok (ic3_vars t) M (i3_trace s)" "it_inv (i3_trace s)" "it_live (i3_trace s)"
  using assms unfolding i3_ok_def fs_inv_def trace_ok_def by blast+

locale ic3_setting = sat_backend +
  fixes t :: anyTR and R :: "cube set" and opt :: bool
  assumes wf: "tr_wf t" and fn: "functional t" and bad: "strip (tr_bad (baseTR t)) \<noteq> ID_FALSE"
    and R_latch: "c \<in> R \<Longrightarrow> c \<noteq> [] \<and> strip ` set c \<subseteq> set (tr_latchIDs (baseTR t)) \<and> sorted c"
    and some_init: "init_cubes t \<union> R \<noteq> {} \<or> tr_latchIDs (baseTR t) = []"
begin

abbreviation V :: "id set" where "V \<equiv> ic3_vars t"
abbreviation latches :: "id set" where "latches \<equiv> set (tr_latchIDs (baseTR t))"

lemma V_tr: "V \<subseteq> tr_vars t"
proof -
  have "state_vars t \<subseteq> tr_vars t" by (auto simp: state_vars_def tr_vars_def)
  then show ?thesis using io_tr[OF wf] by (auto simp: ic3_vars_def)
qed

lemma V_lem: "V \<subseteq> lem_vars t"
proof
  fix v assume v: "v \<in> V"
  have "v \<in> tr_vars t" using V_tr v by blast
  then have "plain_vars {v}" using plain_tr_vars[OF wf] by (simp add: plain_vars_def)
  then show "v \<in> lem_vars t" using v unfolding plain_vars_def lem_vars_def ic3_vars_def by blast
qed

lemma V_io: "io_vars t \<subseteq> V" "latches \<subseteq> V" "set (tr_inputIDs (baseTR t)) \<subseteq> V"
  by (auto simp: ic3_vars_def io_vars_def)

lemma determined: "det t" "gates_total t" "latches \<inter> set (tr_inputIDs (baseTR t)) = {}"
  using fn by (simp_all add: functional_def)

lemma alive: "live opt t"
proof -
  have "const_ok (\<lambda>_. False)" by (simp add: const_ok_def)
  then obtain w w' where "tr_trans t w w'" using re_input[OF wf fn] by blast
  then show ?thesis by (auto simp: live_def)
qed

lemma latch_cube:
  assumes "strip ` set c \<subseteq> latches"
  shows "strip ` set c \<subseteq> V" "ID_FALSE \<notin> strip ` set c" "strip ` set c \<subseteq> tr_vars t"
proof -
  show "strip ` set c \<subseteq> V" using assms V_io(2) by blast
  then show "strip ` set c \<subseteq> tr_vars t" using V_tr by blast
  show "ID_FALSE \<notin> strip ` set c" using assms latch_ids'[OF wf, of ID_FALSE] by blast
qed

lemma ic3_cubeD:
  assumes "c \<in> ic3_cubes t"
  shows "cube_on V c" "strip ` set c \<subseteq> tr_vars t" "sorted c" "distinct c" "strip ` set c \<subseteq> V" "c \<noteq> []"
proof -
  consider "c = [tr_bad (baseTR t)]" | "c \<noteq> []" "sorted c" "distinct c" "strip ` set c \<subseteq> latches"
    using assms by (auto simp: ic3_cubes_def)
  then have "cube_on V c \<and> strip ` set c \<subseteq> tr_vars t \<and> sorted c \<and> distinct c \<and> strip ` set c \<subseteq> V \<and> c \<noteq> []"
  proof cases
    case 1
    have b: "strip (tr_bad (baseTR t)) \<in> V" by (simp add: ic3_vars_def state_vars_def)
    then have "strip (tr_bad (baseTR t)) \<in> tr_vars t" using V_tr by blast
    then show ?thesis using 1 bad b by (simp add: cube_on_def)
  next
    case 2
    then show ?thesis using latch_cube[OF 2(4)] by (simp add: cube_on_def)
  qed
  then show "cube_on V c" "strip ` set c \<subseteq> tr_vars t" "sorted c" "distinct c" "strip ` set c \<subseteq> V" "c \<noteq> []" by simp_all
qed

lemma init_cube_ok:
  assumes "c \<in> init_cubes t \<union> R"
  shows "c \<noteq> []" "strip ` set c \<subseteq> latches" "sorted c" "strip ` set c \<subseteq> V"
proof -
  show a: "c \<noteq> []" "strip ` set c \<subseteq> latches" "sorted c" using assms init_cubes_latch[OF wf] R_latch by fastforce+
  show "strip ` set c \<subseteq> V" by (rule latch_cube(1)[OF a(2)])
qed

lemma has_latch:
  assumes "lemmas_ok t R T"
  shows "latch_lemma t T"
proof (cases "tr_latchIDs (baseTR t) = []")
  case False
  then obtain c where c: "c \<in> init_cubes t \<union> R" using some_init by blast
  obtain L where L: "it_lev T c = Some L" using lemmas_okD(1)[OF assms c] by blast
  obtain l where "l \<in> set c" using init_cube_ok(1)[OF c] by (cases c) auto
  then show ?thesis using L init_cube_ok(2)[OF c] unfolding latch_lemma_def by blast
qed (simp add: latch_lemma_def)

subsection \<open>Queries\<close>

lemma i3_ok_query:
  assumes "i3_ok t R M s" "fs_inv t V M (i3_trace s) f"
  shows "i3_ok t R M (s\<lparr>i3_vars := fs_vars f, i3_cons := f\<rparr>)" "i3_query s (s\<lparr>i3_vars := fs_vars f, i3_cons := f\<rparr>)"
  using assms by (simp_all add: i3_ok_def i3_query_def)

lemma i3_intersection_wp:
  assumes ok: "i3_ok t R M s" and c: "c \<noteq> []" "strip ` set c \<subseteq> V"
  shows "wp (i3_onCons (\<lambda>T. fs_intersection B opt T L c)) (\<lambda>r s'. i3_ok t R M s' \<and> i3_query s s'
     \<and> (r \<longleftrightarrow> (\<exists>w w'. tr_trans t w w' \<and> in_frame (i3_trace s) L w \<and> cube_sat w c))) s"
  unfolding wp_i3_onCons
  by (rule wp_mono[OF fs_intersection_wp[OF wf alive V_lem V_io(1) i3_okD(2)[OF ok] c has_latch[OF i3_okD(4)[OF ok]]]])
    (use i3_ok_query[OF ok] in blast)

lemma excl_frame0:
  assumes "lemmas_ok t R T"
  shows "excl t R c \<longleftrightarrow> \<not> (\<exists>w w'. tr_trans t w w' \<and> in_frame T 0 w \<and> cube_sat w c)"
  using frame_0[OF assms wf] unfolding excl_def by blast

lemma i3_initiation_wp:
  assumes ok: "i3_ok t R M s" and c: "strip ` set c \<subseteq> V"
  shows "wp (i3_initiation B opt c) (\<lambda>r s'. i3_ok t R M s' \<and> i3_query s s' \<and> (r \<longleftrightarrow> c \<noteq> [] \<and> excl t R c)) s"
proof (cases "c = []")
  case False
  show ?thesis
    unfolding i3_initiation_def if_not_P[OF False] wp_bindS wp_retS
    by (rule wp_mono[OF i3_intersection_wp[OF ok False c]]) (use False excl_frame0[OF i3_okD(4)[OF ok]] in auto)
qed (use ok in \<open>auto simp: i3_initiation_def\<close>)

lemma i3_consecutionCore_wp:
  assumes ok: "i3_ok t R M s" and c: "cube_on V c"
  shows "wp (i3_onCons (\<lambda>T. fs_consecutionCore B opt T L c)) (\<lambda>(r, core) s'. i3_ok t R M s' \<and> i3_query s s'
     \<and> (r \<longrightarrow> distinct core \<and> set core \<subseteq> set c \<and> (\<forall>w w'. tr_trans t w w' \<longrightarrow> in_frame (i3_trace s) L w \<longrightarrow> \<not> cube_sat w c \<longrightarrow> \<not> cube_sat w' core))) s"
  unfolding wp_i3_onCons
  by (rule wp_mono[OF fs_consecution_wps(2)[OF wf alive V_lem V_io(1) i3_okD(2)[OF ok] c has_latch[OF i3_okD(4)[OF ok]]]])
    (use i3_ok_query[OF ok] in auto)

lemma i3_consecution_wp:
  assumes ok: "i3_ok t R M s" and c: "cube_on V c"
  shows "wp (i3_onCons (\<lambda>T. fs_consecution B opt T L c)) (\<lambda>r s'. i3_ok t R M s' \<and> i3_query s s'
     \<and> (r \<longleftrightarrow> (\<forall>w w'. tr_trans t w w' \<longrightarrow> in_frame (i3_trace s) L w \<longrightarrow> \<not> cube_sat w c \<longrightarrow> \<not> cube_sat w' c))) s"
  unfolding wp_i3_onCons
  by (rule wp_mono[OF fs_consecution_wps(4)[OF wf alive V_lem V_io(1) i3_okD(2)[OF ok] c has_latch[OF i3_okD(4)[OF ok]]]])
    (use i3_ok_query[OF ok] in auto)

end

subsection \<open>Sorted cubes with two iterators\<close>

lemma subtractLit_props:
  assumes "sorted c" "distinct c" "i < length c"
  shows "sorted (subtractLit c i)" "distinct (subtractLit c i)" "set (subtractLit c i) = set c - {c ! i}"
    "length (subtractLit c i) = length c - 1" "upper_bound (subtractLit c i) (c ! i) = i"
    "i < length c - 1 \<Longrightarrow> subtractLit c i ! i = c ! (i + 1)"
proof -
  have c: "c = take i c @ c ! i # drop (Suc i) c" using assms(3) by (simp add: id_take_nth_drop)
  define xs ys x where "xs = take i c" and "ys = drop (Suc i) c" and "x = c ! i"
  have e: "c = xs @ x # ys" "length xs = i" "subtractLit c i = xs @ ys" using c assms(3) by (auto simp: xs_def ys_def x_def subtractLit_def)
  have s: "sorted (xs @ x # ys)" "distinct (xs @ x # ys)" using assms(1,2) e(1) by simp_all
  show "sorted (subtractLit c i)" "distinct (subtractLit c i)" using s unfolding e(3) by (auto simp: sorted_append)
  show "set (subtractLit c i) = set c - {c ! i}" using s(2) arg_cong[OF e(1), of set] unfolding e(3) x_def[symmetric] by auto
  show "length (subtractLit c i) = length c - 1" using arg_cong[OF e(1), of length] e(3) by simp
  have lt: "\<forall>y\<in>set xs. y < x" "\<forall>y\<in>set ys. x < y" using s by (fastforce simp: sorted_append order_less_le)+
  have "takeWhile (\<lambda>y. y \<le> x) (xs @ ys) = xs" using lt by (subst takeWhile_append2) (auto, cases ys, auto)
  then show "upper_bound (subtractLit c i) (c ! i) = i" using e(2) by (simp add: upper_bound_def e(3) x_def[symmetric])
  show "i < length c - 1 \<Longrightarrow> subtractLit c i ! i = c ! (i + 1)"
    using e(2) assms(3) by (simp add: e(3) nth_append ys_def)
qed

lemma next_nth:
  assumes "sorted c" "x \<in> set c" "c ! i < x" "i + 1 < length c"
  shows "c ! (i + 1) \<le> (x :: 'a::linorder)"
proof -
  obtain m where m: "m < length c" "x = c ! m" using assms(2) by (auto simp: in_set_conv_nth)
  have "\<not> m \<le> i" using sorted_nth_mono[OF assms(1), of m i] m assms(3,4) by fastforce
  then show ?thesis using sorted_nth_mono[OF assms(1), of "i + 1" m] m by simp
qed

text \<open>Iterator \<open>j\<close> into \<open>s\<close> is at the first literal that is not below the one at \<open>i\<close> in \<open>c\<close>.\<close>

definition iters_ok :: "cube \<Rightarrow> cube \<Rightarrow> nat \<Rightarrow> nat \<Rightarrow> bool" where
  "iters_ok s c j i = (sorted s \<and> distinct s \<and> sorted c \<and> distinct c \<and> set s \<subseteq> set c \<and> j \<le> length s \<and> i \<le> length c
     \<and> (i < length c \<longrightarrow> (\<forall>x\<in>set (take j s). x < c ! i) \<and> (\<forall>x\<in>set (drop j s). c ! i \<le> x)))"

lemma iters_start:
  assumes "sorted s" "distinct s" "sorted c" "distinct c" "set s \<subseteq> set c"
  shows "iters_ok s c 0 0"
proof -
  have "c ! 0 \<le> x" if "x \<in> set s" "0 < length c" for x
  proof -
    have "x \<in> set c" using that(1) assms(5) by blast
    then obtain m where "m < length c" "x = c ! m" unfolding in_set_conv_nth by blast
    then show ?thesis using sorted_nth_mono[OF assms(3), of 0 m] by simp
  qed
  then show ?thesis using assms by (simp add: iters_ok_def)
qed

lemma iters_nth: "iters_ok s c j i \<Longrightarrow> i < length c \<Longrightarrow> j < length s \<Longrightarrow> c ! i \<le> s ! j"
  unfolding iters_ok_def by (metis Cons_nth_drop_Suc list.set_intros(1))

lemma iters_eq:
  assumes I: "iters_ok s c j i" and "i < length c" "j < length s" "s ! j = c ! i"
  shows "iters_ok s c (j + 1) (i + 1)"
proof (cases "i + 1 < length c")
  case True
  have s: "sorted s" "distinct s" "sorted c" "distinct c" "set s \<subseteq> set c" using I by (auto simp: iters_ok_def)
  have tk: "take (j + 1) s = take j s @ [s ! j]" using assms(3) by (simp add: take_Suc_conv_app_nth)
  have c1: "c ! i < c ! (i + 1)" using True s(3,4) sorted_nth_mono[OF s(3), of i "i + 1"] by (metis One_nat_def add_diff_cancel_left' add.commute le_add2 nth_eq_iff_index_eq order_less_le assms(2) n_not_Suc_n Suc_eq_plus1)
  have "x < c ! (i + 1)" if "x \<in> set (take (j + 1) s)" for x
    using that I assms(2,4) c1 unfolding tk iters_ok_def by (auto intro: less_trans)
  moreover have "c ! (i + 1) \<le> x" if x: "x \<in> set (drop (j + 1) s)" for x
  proof -
    have d: "drop j s = s ! j # drop (j + 1) s" using assms(3) by (simp add: Cons_nth_drop_Suc)
    have "sorted (drop j s)" "distinct (drop j s)" using s(1,2) by (simp_all add: sorted_wrt_drop)
    then have "s ! j < x" using x unfolding d by (auto simp: order_less_le)
    moreover have "x \<in> set c" using x s(5) by (meson in_set_dropD subsetD)
    ultimately show ?thesis using next_nth[OF s(3) _ _ True] assms(4) by simp
  qed
  ultimately show ?thesis using I assms(3) True s by (simp add: iters_ok_def)
next
  case False
  then show ?thesis using I assms(2,3) by (simp add: iters_ok_def)
qed

lemma skip_equal_ok:
  assumes "iters_ok s c j i" "length c - i \<le> n" "skip_equal s c n j i = (j', i')"
  shows "iters_ok s c j' i' \<and> i \<le> i' \<and> (i' < length c \<longrightarrow> j' < length s \<longrightarrow> s ! j' \<noteq> c ! i')"
  using assms
proof (induction n arbitrary: j i)
  case 0
  then show ?case by auto
next
  case (Suc n)
  show ?case
  proof (cases "j < length s \<and> i < length c \<and> s ! j = c ! i")
    case True
    have "iters_ok s c j' i' \<and> i + 1 \<le> i' \<and> (i' < length c \<longrightarrow> j' < length s \<longrightarrow> s ! j' \<noteq> c ! i')"
      by (rule Suc.IH[OF iters_eq[OF Suc.prems(1)]]) (use True Suc.prems in auto)
    then show ?thesis by simp
  next
    case False
    then have "skip_equal s c (Suc n) j i = (j, i)" by auto
    then show ?thesis using Suc.prems False by auto
  qed
qed

lemma iters_lit:
  assumes I: "iters_ok s c j i" and i: "i < length c" and ne: "j < length s \<longrightarrow> s ! j \<noteq> c ! i"
  shows "c ! i \<notin> set s"
proof
  assume m: "c ! i \<in> set s"
  have s: "sorted s" using I by (simp add: iters_ok_def)
  have "set s = set (take j s) \<union> set (drop j s)" by (metis append_take_drop_id set_append)
  then have "c ! i \<in> set (drop j s)" using m I i unfolding iters_ok_def by force
  then have j: "j < length s" "drop j s \<noteq> []" by (auto intro: ccontr)
  then have d: "drop j s = s ! j # drop (Suc j) s" by (simp add: Cons_nth_drop_Suc)
  have "sorted (drop j s)" using s by (simp add: sorted_wrt_drop)
  then have "s ! j \<le> c ! i" using \<open>c ! i \<in> set (drop j s)\<close> unfolding d by auto
  then show False using iters_nth[OF I i j(1)] ne j(1) by simp
qed

lemma iters_next:
  assumes I: "iters_ok s c j i" and i: "i < length c" and ne: "j < length s \<longrightarrow> s ! j \<noteq> c ! i"
  shows "iters_ok s c j (i + 1)" "iters_ok s (subtractLit c i) j i"
proof -
  have s: "sorted s" "distinct s" "sorted c" "distinct c" "set s \<subseteq> set c" "j \<le> length s" using I by (auto simp: iters_ok_def)
  note sl = subtractLit_props[OF s(3,4) i]
  have lit: "c ! i \<notin> set s" by (rule iters_lit[OF I i ne])
  have a: "x < c ! (i + 1)" if "x \<in> set (take j s)" "i + 1 < length c" for x
  proof -
    have "x < c ! i" using I i that(1) by (auto simp: iters_ok_def)
    then show ?thesis using sorted_nth_mono[OF s(3), of i "i + 1"] that(2) by (meson le_add1 order_less_le_trans)
  qed
  have b: "c ! (i + 1) \<le> x" if "x \<in> set (drop j s)" "i + 1 < length c" for x
  proof -
    have x: "x \<in> set s" using that(1) by (rule in_set_dropD)
    have "c ! i \<le> x" using I i that(1) by (auto simp: iters_ok_def)
    then have "c ! i < x" using lit x by (metis order_less_le)
    then show ?thesis using next_nth[OF s(3) _ _ that(2)] x s(5) by blast
  qed
  show "iters_ok s c j (i + 1)" using a b s i by (auto simp: iters_ok_def)
  show "iters_ok s (subtractLit c i) j i"
    using a b s i sl lit unfolding iters_ok_def by (auto simp: less_diff_conv)
qed

text \<open>\<open>c\<close> lies between \<open>a\<close> and \<open>b\<close>, and no initial state is in it.\<close>

definition cube_between :: "anyTR \<Rightarrow> cube set \<Rightarrow> cube \<Rightarrow> cube \<Rightarrow> cube \<Rightarrow> bool" where
  "cube_between t R a b c = (sorted c \<and> distinct c \<and> c \<noteq> [] \<and> excl t R c \<and> set a \<subseteq> set c \<and> set c \<subseteq> set b)"

context ic3_setting
begin

lemma reinit_loop_wp:
  assumes "i3_ok t R M s0" "iters_ok s c j i" "c \<noteq> []" "excl t R c" "strip ` set c \<subseteq> V" "length c - i \<le> fuel"
  shows "wp (reinit_loop B opt fuel s c j i) (\<lambda>c' s'. i3_ok t R M s' \<and> i3_query s0 s' \<and> cube_between t R s c c') s0"
  using assms
proof (induction fuel arbitrary: c j i s0)
  case 0
  then show ?case by (auto simp: cube_between_def iters_ok_def)
next
  case (Suc fuel)
  note I = Suc.prems(2)
  show ?case
  proof (cases "i < length c")
    case False
    then show ?thesis using Suc.prems by (auto simp: cube_between_def iters_ok_def)
  next
    case i: True
    have "j \<le> length s" using I by (simp add: iters_ok_def)
    then have as: "j = length s \<or> c ! i \<le> s ! j" using iters_nth[OF I i] by (cases "j < length s") auto
    obtain j' i' where e: "skip_equal s c (length c) j i = (j', i')" by fastforce
    have sk: "iters_ok s c j' i'" "i \<le> i'" "i' < length c \<longrightarrow> j' < length s \<longrightarrow> s ! j' \<noteq> c ! i'" "i' \<le> length c"
      using skip_equal_ok[OF I _ e] by (auto simp: iters_ok_def)
    show ?thesis
    proof (cases "i' = length c")
      case True
      then show ?thesis using i as e Suc.prems by (auto simp: cube_between_def iters_ok_def)
    next
      case False
      then have i': "i' < length c" using sk(4) by simp
      have ne: "j' < length s \<longrightarrow> s ! j' \<noteq> c ! i'" using sk(3) i' by blast
      have srt: "sorted c" "distinct c" using I by (auto simp: iters_ok_def)
      let ?cc = "subtractLit c i'"
      note sl = subtractLit_props[OF srt i'] and nx = iters_next[OF sk(1) i' ne]
      have V': "strip ` set ?cc \<subseteq> V" using Suc.prems(5) unfolding sl(3) by blast
      have go: "wp (let c1 = (if b then ?cc else c); i1 = (if b then upper_bound ?cc (c ! i') else i' + 1);
           j1 = (if j' < length s \<and> i1 < length c1 \<and> s ! j' < c1 ! i1 then upper_bound s (c ! i') else j') in
           reinit_loop B opt fuel s c1 j1 i1) (\<lambda>c' s'. i3_ok t R M s' \<and> i3_query s0 s' \<and> cube_between t R s c c') s1"
        if s1: "i3_ok t R M s1" "i3_query s0 s1" and b: "b = (?cc \<noteq> [] \<and> excl t R ?cc)" for b s1
      proof -
        let ?c1 = "if b then ?cc else c"
        let ?i1 = "if b then i' else i' + 1"
        have I1: "iters_ok s ?c1 j' ?i1" using nx by simp
        have nj: "\<not> (j' < length s \<and> ?i1 < length ?c1 \<and> s ! j' < ?c1 ! ?i1)" using iters_nth[OF I1] by force
        have ub: "(if b then upper_bound ?cc (c ! i') else i' + 1) = ?i1" using sl(5) by simp
        have sub: "set ?c1 \<subseteq> set c" using sl(3) by auto
        have "wp (reinit_loop B opt fuel s ?c1 j' ?i1) (\<lambda>c' s'. i3_ok t R M s' \<and> i3_query s1 s' \<and> cube_between t R s ?c1 c') s1"
          by (rule Suc.IH[OF s1(1) I1]) (use b Suc.prems(3-6) V' sl(4) sk(2) i' in auto)
        then show ?thesis
          unfolding Let_def ub if_not_P[OF nj]
          by (rule wp_mono) (use s1(2) sub i3_query_trans in \<open>unfold cube_between_def, blast\<close>)
      qed
      show ?thesis
        unfolding reinit_loop.simps if_P[OF i] wp_thenS wp_assertS e prod.case if_not_P[OF False] Let_def wp_bindS
      proof (intro conjI as, rule wp_mono[OF i3_initiation_wp[OF Suc.prems(1) V']], elim conjE, goal_cases)
        case (1 b s1)
        show ?case by (rule go[OF 1, unfolded Let_def])
      qed
    qed
  qed
qed

lemma i3_initiate_wp:
  assumes ok: "i3_ok t R M s0" and s: "sorted s" "distinct s" and orig: "sorted orig" "distinct orig" "orig \<noteq> []" "excl t R orig" "strip ` set orig \<subseteq> V"
    and sub: "set s \<subseteq> set orig"
  shows "wp (i3_initiate B opt s orig) (\<lambda>c s'. i3_ok t R M s' \<and> i3_query s0 s' \<and> cube_between t R s orig c) s0"
proof -
  have sV: "strip ` set s \<subseteq> V" using sub orig(5) by blast
  have fin: "wp (bindS (i3_initiation B opt c) (\<lambda>b. thenS (assertS b) (retS c))) (\<lambda>c s'. i3_ok t R M s' \<and> i3_query s0 s' \<and> cube_between t R s orig c) s1"
    if s1: "i3_ok t R M s1" "i3_query s0 s1" and c: "cube_between t R s orig c" for c s1
  proof -
    have cV: "strip ` set c \<subseteq> V" using c orig(5) unfolding cube_between_def by blast
    show ?thesis
      unfolding wp_bindS wp_thenS wp_assertS wp_retS
      by (rule wp_mono[OF i3_initiation_wp[OF s1(1) cV]]) (use c s1(2) i3_query_trans in \<open>auto simp: cube_between_def\<close>)
  qed
  show ?thesis
    unfolding i3_initiate_def wp_thenS wp_assertS wp_bindS
  proof (intro conjI s(1) wp_mono[OF i3_initiation_wp[OF ok sV]], elim conjE, goal_cases)
    case (1 b s1)
    show ?case
    proof (cases b)
      case True
      have "cube_between t R s orig s" using 1(3) True s sub by (simp add: cube_between_def)
      then show ?thesis using fin[OF 1(1,2)] True by simp
    next
      case False
      then have f: "\<not> \<not> \<not> b" by simp
      have "set s \<noteq> set orig"
      proof
        assume "set s = set orig"
        then have "s = orig" using s orig(1,2) sorted_distinct_set_unique by blast
        then show False using 1(3) False orig(3,4) by simp
      qed
      then have "card (set s) < card (set orig)" using sub by (simp add: psubset_card_mono psubset_eq)
      then have l: "length s < length orig" using s(2) orig(2) by (simp add: distinct_card)
      have rl: "wp (reinit_loop B opt (length orig) s orig 0 0) (\<lambda>c' s'. i3_ok t R M s' \<and> i3_query s2 s' \<and> cube_between t R s orig c') s2"
        if "i3_ok t R M s2" for s2
        by (rule reinit_loop_wp[OF that iters_start[OF s orig(1,2) sub] orig(3,4,5)]) simp
      have "wp (i3_reinitiate B opt s orig) (\<lambda>c s2. i3_ok t R M s2 \<and> i3_query s1 s2 \<and> cube_between t R s orig c) s1"
        unfolding i3_reinitiate_def wp_thenS wp_assertS wp_bindS wp_retS
      proof (intro conjI l s(1) orig(1), rule wp_mono[OF i3_initiation_wp[OF 1(1) orig(5)]], elim conjE, goal_cases)
        case (1 b s2)
        show ?case
        proof (intro conjI, use 1(3) orig(3,4) in simp, rule wp_mono[OF rl[OF 1(1)]], elim conjE, goal_cases)
          case g: (1 c s3)
          have cV: "strip ` set c \<subseteq> V" using g(3) orig(5) unfolding cube_between_def by blast
          show ?case
            by (rule wp_mono[OF i3_initiation_wp[OF g(1) cV]]) (use g(2,3) 1(2) i3_query_trans in \<open>auto simp: cube_between_def\<close>)
        qed
      qed
      note r = this
      show ?thesis
      proof (simp add: False, rule wp_mono[OF r], elim conjE, goal_cases)
        case g: (1 c s2)
        show ?case using fin[OF g(1) i3_query_trans[OF 1(2) g(2)] g(3)] by simp
      qed
    qed
  qed
qed

end

text \<open>A cube that may become a lemma from level \<open>k + 1\<close> on.\<close>

definition candidate :: "anyTR \<Rightarrow> cube set \<Rightarrow> inductiveTrace \<Rightarrow> level \<Rightarrow> cube \<Rightarrow> bool" where
  "candidate t R T k c = (sorted c \<and> distinct c \<and> c \<noteq> [] \<and> excl t R c \<and> ri t R T k c)"

lemma ic3_cubes_sub:
  assumes "s \<in> ic3_cubes t" "set c \<subseteq> set s" "sorted c" "distinct c" "c \<noteq> []"
  shows "c \<in> ic3_cubes t"
proof -
  consider "s = [tr_bad (baseTR t)]" | "strip ` set s \<subseteq> set (tr_latchIDs (baseTR t))" using assms(1) by (auto simp: ic3_cubes_def)
  then show ?thesis
  proof cases
    case 1
    then have "set c = {tr_bad (baseTR t)}" using assms(2,5) by (cases c) auto
    then have "c = [tr_bad (baseTR t)]" using assms(3,4) sorted_distinct_set_unique[of c "[tr_bad (baseTR t)]"] by simp
    then show ?thesis by (simp add: ic3_cubes_def)
  next
    case 2
    then have "strip ` set c \<subseteq> set (tr_latchIDs (baseTR t))" using assms(2) by blast
    then show ?thesis using assms(3-5) by (simp add: ic3_cubes_def)
  qed
qed

context ic3_setting
begin

lemma gen_loop_wp:
  assumes "i3_ok t R M s0" "candidate t R (i3_trace s0) k c" "c \<in> ic3_cubes t" "length c - i \<le> fuel"
  shows "wp (gen_loop B opt fuel k c i) (\<lambda>c' s'. i3_ok t R M s' \<and> i3_query s0 s' \<and> candidate t R (i3_trace s0) k c' \<and> set c' \<subseteq> set c) s0"
  using assms
proof (induction fuel arbitrary: c i s0)
  case 0
  then show ?case by auto
next
  case (Suc fuel)
  show ?case
  proof (cases "i < length c \<and> 1 < length c")
    case False
    then have e: "gen_loop B opt (Suc fuel) k c i = retS c" by auto
    show ?thesis unfolding e using Suc.prems by auto
  next
    case i: True
    have c: "sorted c" "distinct c" "c \<noteq> []" "excl t R c" using Suc.prems(2) by (simp_all add: candidate_def)
    have il: "i < length c" using i by simp
    let ?cc = "subtractLit c i"
    note sl = subtractLit_props[OF c(1,2) il]
    note cD = ic3_cubeD[OF Suc.prems(3)]
    have V': "strip ` set ?cc \<subseteq> V" using cD(5) unfolding sl(3) by blast
    have next_i: "wp (gen_loop B opt fuel k c (i + 1)) (\<lambda>c' s'. i3_ok t R M s' \<and> i3_query s0 s' \<and> candidate t R (i3_trace s0) k c' \<and> set c' \<subseteq> set c) s1"
      if s1: "i3_ok t R M s1" "i3_query s0 s1" for s1
    proof -
      have T: "i3_trace s1 = i3_trace s0" using s1(2) by (simp add: i3_query_def)
      have c1: "candidate t R (i3_trace s1) k c" using Suc.prems(2) by (simp add: T)
      show ?thesis
        by (rule wp_mono[OF Suc.IH[OF s1(1) c1 Suc.prems(3)]]) (use Suc.prems(4) il i3_query_trans[OF s1(2)] T in auto)
    qed
    show ?thesis
      unfolding gen_loop.simps if_P[OF i] Let_def wp_bindS
    proof (rule wp_mono[OF i3_initiation_wp[OF Suc.prems(1) V']], elim conjE, goal_cases)
      case (1 b s1)
      show ?case
      proof (cases b)
        case False
        then show ?thesis using next_i[OF 1(1,2)] by simp
      next
        case b: True
        have cc: "?cc \<noteq> []" "excl t R ?cc" using 1(3) b by simp_all
        have ccu: "?cc \<in> ic3_cubes t" by (rule ic3_cubes_sub[OF Suc.prems(3) _ sl(1,2) cc(1)]) (use sl(3) in blast)
        have T1: "i3_trace s1 = i3_trace s0" using 1(2) by (simp add: i3_query_def)
        have nb: "\<not> \<not> b" using b by simp
        show ?thesis
          unfolding wp_if if_not_P[OF nb] wp_bindS
        proof (rule wp_mono[OF i3_consecutionCore_wp[OF 1(1) ic3_cubeD(1)[OF ccu]]], goal_cases)
          case g: (1 r s2)
          obtain cons core where r: "r = (cons, core)" by (cases r)
          have s2: "i3_ok t R M s2" "i3_query s0 s2" using g r i3_query_trans[OF 1(2)] by auto
          show ?case
          proof (cases cons)
            case False
            then show ?thesis using next_i[OF s2] by (simp add: r)
          next
            case True
            have co: "distinct core" "set core \<subseteq> set ?cc" "\<forall>w w'. tr_trans t w w' \<longrightarrow> in_frame (i3_trace s0) k w \<longrightarrow> \<not> cube_sat w ?cc \<longrightarrow> \<not> cube_sat w' core"
              using g r True T1 by auto
            have sub: "set (sort core) \<subseteq> set c" using co(2) sl(3) by auto
            have "wp (bindS (i3_initiate B opt (sort core) c) (\<lambda>c'. thenS (assertS (sorted c')) (gen_loop B opt fuel k c' (upper_bound c' (c ! i)))))
               (\<lambda>c' s'. i3_ok t R M s' \<and> i3_query s0 s' \<and> candidate t R (i3_trace s0) k c' \<and> set c' \<subseteq> set c) s2"
              unfolding wp_bindS wp_thenS wp_assertS
            proof (rule wp_mono[OF i3_initiate_wp[OF s2(1) _ _ c cD(5) sub]], simp, simp add: co(1), elim conjE, goal_cases)
              case i1: (1 c' s3)
              have c': "sorted c'" "distinct c'" "c' \<noteq> []" "excl t R c'" "set core \<subseteq> set c'" "set c' \<subseteq> set c" using i1(3) by (auto simp: cube_between_def)
              have T3: "i3_trace s3 = i3_trace s0" using i1(2) s2(2) by (simp add: i3_query_def)
              have "ri t R (i3_trace s0) k c'"
                unfolding ri_def ri_by_def by (intro exI[of _ core] exI[of _ ?cc]) (use c'(5) co(2,3) cc(2) in blast)
              then have cand: "candidate t R (i3_trace s3) k c'" using c' by (simp add: candidate_def T3)
              have u: "c' \<in> ic3_cubes t" by (rule ic3_cubes_sub[OF Suc.prems(3) c'(6,1,2,3)])
              have "length c' - upper_bound c' (c ! i) = card {y \<in> set c'. c ! i < y}" by (rule upper_bound_rest(1)[OF c'(1,2)])
              also have "\<dots> \<le> card {y \<in> set c. c ! i < y}" by (rule card_mono) (use c'(6) in auto)
              also have "\<dots> \<le> length c - Suc i" by (rule sorted_above[OF c(1) il])
              finally have f: "length c' - upper_bound c' (c ! i) \<le> fuel" using Suc.prems(4) il by simp
              show ?case
                by (rule conjI[OF c'(1)], rule wp_mono[OF Suc.IH[OF i1(1) cand u f]])
                  (use c'(6) T3 i3_query_trans[OF i3_query_trans[OF s2(2) i1(2)]] in auto)
            qed
            then show ?thesis using True by (simp add: r)
          qed
        qed
      qed
    qed
  qed
qed

lemma gen_rounds_wp:
  assumes "i3_ok t R M s0" "candidate t R (i3_trace s0) (L - 1) c" "c \<in> ic3_cubes t" "length c < fuel"
  shows "wp (gen_rounds B opt fuel c L) (\<lambda>c' s'. i3_ok t R M s' \<and> i3_query s0 s' \<and> candidate t R (i3_trace s0) (L - 1) c' \<and> set c' \<subseteq> set c) s0"
  using assms
proof (induction fuel arbitrary: c s0)
  case (Suc fuel)
  have k: "(if L = LEVEL_INF then L else L - 1) = L - 1" by (cases L) (auto simp: LEVEL_INF_def)
  have it: "wp (i3_generalizeIteration B opt c L) (\<lambda>c' s'. i3_ok t R M s' \<and> i3_query s0 s' \<and> candidate t R (i3_trace s0) (L - 1) c' \<and> set c' \<subseteq> set c) s0"
    unfolding i3_generalizeIteration_def k by (rule gen_loop_wp[OF Suc.prems(1-3)]) simp
  show ?case
    unfolding gen_rounds.simps wp_bindS wp_thenS wp_assertS
  proof (rule wp_mono[OF it], elim conjE, goal_cases)
    case (1 c' s1)
    have c': "sorted c'" "distinct c'" "c' \<noteq> []" using 1(3) by (simp_all add: candidate_def)
    have d: "distinct c" using Suc.prems(2) by (simp add: candidate_def)
    have le: "length c' \<le> length c" using card_mono[OF _ 1(4)] c'(2) d by (simp add: distinct_card)
    have T: "i3_trace s1 = i3_trace s0" using 1(2) by (simp add: i3_query_def)
    show ?case
    proof (cases "length c' = length c")
      case True
      then show ?thesis using 1 by simp
    next
      case False
      have u: "c' \<in> ic3_cubes t" by (rule ic3_cubes_sub[OF Suc.prems(3) 1(4) c'])
      have "wp (gen_rounds B opt fuel c' L) (\<lambda>c'' s'. i3_ok t R M s' \<and> i3_query s1 s' \<and> candidate t R (i3_trace s1) (L - 1) c'' \<and> set c'' \<subseteq> set c') s1"
        by (rule Suc.IH[OF 1(1) _ u]) (use 1(3) T False le Suc.prems(4) in auto)
      then have "wp (gen_rounds B opt fuel c' L) (\<lambda>c'' s'. i3_ok t R M s' \<and> i3_query s0 s' \<and> candidate t R (i3_trace s0) (L - 1) c'' \<and> set c'' \<subseteq> set c) s1"
        by (rule wp_mono) (use 1(2,4) T i3_query_trans in auto)
      then show ?thesis using False le by simp
    qed
  qed
qed simp

lemma i3_generalize_wp:
  assumes "i3_ok t R M s0" "candidate t R (i3_trace s0) (L - 1) c" "c \<in> ic3_cubes t" "0 < L"
  shows "wp (i3_generalize B opt c L) (\<lambda>c' s'. i3_ok t R M s' \<and> i3_query s0 s' \<and> candidate t R (i3_trace s0) (L - 1) c' \<and> set c' \<subseteq> set c) s0"
proof -
  have e: "sort c = c" using assms(2) by (simp add: candidate_def sorted_sort_id)
  have "wp (gen_rounds B opt (length c + 1) c L) (\<lambda>c' s'. i3_ok t R M s' \<and> i3_query s0 s' \<and> candidate t R (i3_trace s0) (L - 1) c' \<and> set c' \<subseteq> set c) s0"
    by (rule gen_rounds_wp[OF assms(1-3)]) simp
  then show ?thesis unfolding i3_generalize_def wp_thenS wp_assertS e using assms(4) by blast
qed

end

end
