(* ===== verification/Ic3Lemmas.thy ===== *)
theory Ic3Lemmas
  imports Ic3Gen
begin

text \<open>
  Adding lemmas, moving them from frame to frame, and the frame that is found to be inductive.
\<close>

subsection \<open>Lemmas that contain an obligation\<close>

definition covered :: "inductiveTrace \<Rightarrow> cube \<Rightarrow> nat \<Rightarrow> bool" where
  "covered T c k = (\<exists>d L. it_lev T d = Some L \<and> enat k \<le> L \<and> set d \<subseteq> set c)"

lemma covered_grows: "grows T T' \<Longrightarrow> covered T c k \<Longrightarrow> covered T' c k"
  unfolding covered_def grows_def by (meson order_trans)

lemma frameBlocks_exact:
  assumes T: "it_inv T" and L: "L = \<infinity> \<or> L < enat (it_numFrames T)" and c: "sorted c" "distinct c" and d: "\<And>d. it_lev T d = Some L \<Longrightarrow> distinct d"
  shows "frameBlocks T c L = Inr (\<exists>d. it_lev T d = Some L \<and> set d \<subseteq> set c)"
proof -
  let ?fr = "frame_at (it_frames T) L"
  have g: "it_getFrame T L = Inr ?fr" using L fr_getFrame_at[of L "it_frames T"] by (simp add: it_getFrame_def it_numFrames_def)
  have mem: "i \<in> ?fr \<longleftrightarrow> (\<exists>d. it_is T i d L)" for i using it_invD(3)[OF T, of i L] by (auto simp: it_is_def)
  have fin: "finite ?fr"
    by (rule finite_subset[of _ "{..<length (it_lemmas T)}"]) (auto simp: mem it_is_def it_active_def)
  have loop: "blocksFrom T c xs = Inr (\<exists>i\<in>set xs. \<exists>d. it_is T i d L \<and> set d \<subseteq> set c)" if "set xs \<subseteq> ?fr" for xs
    using that
  proof (induction xs)
    case (Cons i xs)
    then obtain d where i: "it_is T i d L" using mem by auto
    have dl: "it_lev T d = Some L" using it_lev_is[OF T] i by blast
    have sd: "sorted d" "it_cubeOf T i = Inr d" using it_is_get(2,9)[OF T i] by simp_all
    have "length d \<le> length c" if "set d \<subseteq> set c" using card_mono[OF _ that] d[OF dl] c(2) by (simp add: distinct_card)
    then have "subsumes d c = Inr (set d \<subseteq> set c)" using sd(1) c(1) subsumes_loop_iff[OF sd(1) c(1)] by (auto simp: subsumes_def)
    moreover have "(\<exists>d'. it_is T i d' L \<and> set d' \<subseteq> set c) \<longleftrightarrow> set d \<subseteq> set c" using i by (auto simp: it_is_def)
    ultimately show ?case using Cons by (simp add: sd(2))
  qed simp
  have "frameBlocks T c L = Inr (\<exists>i\<in>?fr. \<exists>d. it_is T i d L \<and> set d \<subseteq> set c)"
    using loop[of "sorted_list_of_set ?fr"] fin by (simp add: frameBlocks_def g)
  also have "(\<exists>i\<in>?fr. \<exists>d. it_is T i d L \<and> set d \<subseteq> set c) \<longleftrightarrow> (\<exists>d. it_lev T d = Some L \<and> set d \<subseteq> set c)"
    using it_lev_is[OF T] mem by blast
  finally show ?thesis .
qed

lemma syntacticBlock_exact:
  assumes T: "it_inv T" and c: "sorted c" "distinct c" and d: "\<And>d L. it_lev T d = Some L \<Longrightarrow> enat k \<le> L \<Longrightarrow> distinct d"
  shows "syntacticBlock T c k = Inr (covered T c k)"
proof -
  define P where "P j = (\<exists>d. it_lev T d = Some (enat j) \<and> set d \<subseteq> set c)" for j
  have fin: "blockedByFrames T c ks = Inr (\<exists>j\<in>set ks. P j)"
    if "\<forall>j\<in>set ks. k \<le> j \<and> j < it_numFrames T" for ks
    using that
  proof (induction ks)
    case (Cons j ks)
    have "frameBlocks T c (enat j) = Inr (P j)"
      unfolding P_def by (rule frameBlocks_exact[OF T _ c]) (use Cons.prems d in auto)
    then show ?case using Cons by simp
  qed simp
  define Q where "Q = (\<exists>d. it_lev T d = Some \<infinity> \<and> set d \<subseteq> set c)"
  have inf: "frameBlocks T c \<infinity> = Inr Q"
    unfolding Q_def by (rule frameBlocks_exact[OF T _ c]) (use d in auto)
  have lt: "j < it_numFrames T" if "it_lev T d = Some (enat j)" for d j
    using that it_lev_is[OF T] it_is_get(11)[OF T] by (metis enat_ord_simps(2) enat.distinct(1))
  have "covered T c k \<longleftrightarrow> (\<exists>j\<in>set [k..<it_numFrames T]. \<exists>d. it_lev T d = Some (enat j) \<and> set d \<subseteq> set c) \<or> (\<exists>d. it_lev T d = Some \<infinity> \<and> set d \<subseteq> set c)"
    (is "_ \<longleftrightarrow> ?R")
  proof
    assume "covered T c k"
    then obtain d L where d: "it_lev T d = Some L" "enat k \<le> L" "set d \<subseteq> set c" unfolding covered_def by blast
    show ?R
    proof (cases L)
      case (enat j)
      then have "j \<in> set [k..<it_numFrames T]" using d lt by simp
      then show ?thesis using d enat by blast
    next
      case infinity
      then show ?thesis using d by blast
    qed
  next
    assume ?R
    then show "covered T c k"
    proof (elim disjE bexE exE conjE)
      fix j d assume "j \<in> set [k..<it_numFrames T]" "it_lev T d = Some (enat j)" "set d \<subseteq> set c"
      then show ?thesis unfolding covered_def by (intro exI[of _ d] exI[of _ "enat j"]) simp
    next
      fix d assume "it_lev T d = Some \<infinity>" "set d \<subseteq> set c"
      then show ?thesis unfolding covered_def by (intro exI[of _ d] exI[of _ "\<infinity>"]) simp
    qed
  qed
  then have "covered T c k \<longleftrightarrow> (\<exists>j\<in>set [k..<it_numFrames T]. P j) \<or> Q" by (simp only: P_def Q_def)
  then show ?thesis using fin[of "[k..<it_numFrames T]"] inf by (simp add: syntacticBlock_def LEVEL_INF_def)
qed

context ic3_setting
begin

lemma syntacticBlock_ok:
  assumes "i3_ok t R M s" "c \<in> ic3_cubes t" "1 \<le> k"
  shows "syntacticBlock (i3_trace s) c k = Inr (covered (i3_trace s) c k)"
proof (rule syntacticBlock_exact[OF i3_okD(6)[OF assms(1)] ic3_cubeD(3,4)[OF assms(2)]])
  fix d L assume "it_lev (i3_trace s) d = Some L" "enat k \<le> L"
  moreover have "1 \<le> enat k" using assms(3) by (simp add: one_enat_def)
  ultimately have "d \<in> ic3_cubes t" using lemmas_okD(4)[OF i3_okD(4)[OF assms(1)]] order_trans by blast
  then show "distinct d" by (rule ic3_cubeD(4))
qed

end

subsection \<open>Adding and moving lemmas\<close>

text \<open>The invariant without what it says of the lemmas.\<close>

definition i3_solvers :: "anyTR \<Rightarrow> nat \<Rightarrow> ic3 \<Rightarrow> bool" where
  "i3_solvers t M s = (i3_tr s = t \<and> fs_inv t (ic3_vars t) M (i3_trace s) (i3_frames s) \<and> ul_inv t (i3_trace s) (i3_lift s) \<and> it_live (i3_trace s))"

lemma i3_ok_iff: "i3_ok t R M s \<longleftrightarrow> i3_solvers t M s \<and> lemmas_ok t R (i3_trace s)"
  by (auto simp: i3_ok_def i3_solvers_def)

definition i3_moved :: "ic3 \<Rightarrow> cube \<Rightarrow> level \<Rightarrow> ic3 \<Rightarrow> bool" where
  "i3_moved s c L s' = (i3_tr s' = i3_tr s \<and> i3_obls s' = i3_obls s \<and> i3_init_constraints s' = i3_init_constraints s
     \<and> it_lev (i3_trace s') = (it_lev (i3_trace s))(c \<mapsto> L) \<and> it_numFrames (i3_trace s') = frames_upto (it_numFrames (i3_trace s)) L)"

lemma trace_ok_set:
  assumes "trace_ok V M T" "it_inv T'" "it_lev T' = (it_lev T)(c \<mapsto> L)" "it_numFrames T' \<le> M" "c \<noteq> []" "strip ` set c \<subseteq> V"
  shows "trace_ok V M T'"
proof -
  have "d \<noteq> [] \<and> strip ` set d \<subseteq> V" if "it_lev T' d = Some N" for d N
  proof (cases "d = c")
    case False
    then have "it_lev T d = Some N" using that assms(3) by simp
    then show ?thesis using assms(1) unfolding trace_ok_def by blast
  qed (use assms(5,6) in simp)
  then show ?thesis using assms(2,4) unfolding trace_ok_def by blast
qed

lemma i3_moved_wp:
  assumes s: "i3_solvers t M s" and T': "it_inv T'" "it_lev T' = (it_lev (i3_trace s))(c \<mapsto> L)" "it_numFrames T' = frames_upto (it_numFrames (i3_trace s)) L"
      "it_is T' i c L" "frames_upto (it_numFrames (i3_trace s)) L \<le> M" "it_live (i3_trace s) \<longrightarrow> it_live T'"
    and c: "c \<noteq> []" "strip ` set c \<subseteq> ic3_vars t" and up: "\<And>N. it_lev (i3_trace s) c = Some N \<Longrightarrow> N \<le> L"
  shows "wp (i3_onCons (\<lambda>T. fs_addLemma T i)) (\<lambda>_ s'. i3_solvers t M s' \<and> i3_moved s c L s' \<and> i3_trace s' = T') (s\<lparr>i3_trace := T'\<rparr>)"
proof -
  have I: "i3_tr s = t" "fs_inv t (ic3_vars t) M (i3_trace s) (i3_frames s)" "ul_inv t (i3_trace s) (i3_lift s)" using s by (simp_all add: i3_solvers_def)
  have tr: "trace_ok (ic3_vars t) M (i3_trace s)" using I(2) by (simp add: fs_inv_def)
  have tr': "trace_ok (ic3_vars t) M T'" by (rule trace_ok_set[OF tr T'(1,2) _ c]) (use T'(3,5) in simp)
  have "it_lev T' d = Some \<infinity>" if "it_lev (i3_trace s) d = Some \<infinity>" for d
    using that up T'(2) by (cases "d = c") auto
  then have ul: "ul_inv t T' (i3_lift s)" by (rule ul_inv_up[OF I(3)])
  have tr_eq: "i3_trace (s\<lparr>i3_trace := T'\<rparr>) = T'" by simp
  show ?thesis
  proof (unfold wp_i3_onCons, simp only: i3_frames_simps tr_eq, rule wp_mono[OF fs_addLemma_wp[OF I(2) tr' T'(2,4) up]], assumption, elim conjE, goal_cases)
    case (1 u f)
    have "i3_frames (s\<lparr>i3_trace := T', i3_vars := fs_vars f, i3_cons := f\<rparr>) = f" using i3_frames_simps(1)[of f "s\<lparr>i3_trace := T'\<rparr>"] by simp
    then have "i3_solvers t M (s\<lparr>i3_trace := T', i3_vars := fs_vars f, i3_cons := f\<rparr>)"
      using 1(1) I(1) ul s T'(6) by (simp add: i3_solvers_def)
    then show ?case using T'(2,3) by (simp add: i3_moved_def)
  qed
qed

lemma i3_pushLemma_solvers:
  assumes s: "i3_solvers t M s" and i: "it_is (i3_trace s) i c N" "N \<le> L" "frames_upto (it_numFrames (i3_trace s)) L \<le> M"
  shows "wp (i3_pushLemma i L) (\<lambda>_ s'. i3_solvers t M s' \<and> i3_moved s c L s'
     \<and> (\<forall>j d N. j \<noteq> i \<longrightarrow> it_is (i3_trace s') j d N = it_is (i3_trace s) j d N)) s"
proof -
  have tr: "trace_ok (ic3_vars t) M (i3_trace s)" using s by (simp add: i3_solvers_def fs_inv_def)
  note tl = trace_ok_level[OF tr i(1)]
  have up: "M \<le> L" if "it_lev (i3_trace s) c = Some M" for M using that tl(3) i(2) by simp
  show ?thesis
    unfolding i3_pushLemma_def wp_thenS wp_i3_onTrace
  proof (rule wp_mono[OF it_pushLemma_wp[OF tl(4) i(1,2)]], elim conjE, goal_cases)
    case (1 u T')
    show ?case
      by (rule wp_mono[OF i3_moved_wp[OF s 1(1,2,3,4) i(3) 1(6) tl(2,5) up]]) (use 1(5) in auto)
  qed
qed

lemma i3_addLemma_solvers:
  assumes s: "i3_solvers t M s" and c: "sorted c" "c \<noteq> []" "strip ` set c \<subseteq> ic3_vars t"
    and up: "\<And>N. it_lev (i3_trace s) c = Some N \<Longrightarrow> N \<le> L" and n: "frames_upto (it_numFrames (i3_trace s)) L \<le> M"
  shows "wp (i3_addLemma c L) (\<lambda>_ s'. i3_solvers t M s' \<and> i3_moved s c L s') s"
proof -
  have inv: "it_inv (i3_trace s)" using s by (simp add: i3_solvers_def fs_inv_def trace_ok_def)
  have e: "sort c = c" using c(1) by (simp add: sorted_sort_id)
  show ?thesis
    unfolding i3_addLemma_def wp_thenS wp_bindS wp_i3_onTrace wp_retS
  proof (rule wp_mono[OF it_addLemma_wp[OF inv]], use up in \<open>simp add: e\<close>, unfold e, elim conjE, goal_cases)
    case (1 i T')
    show ?case by (rule wp_mono[OF i3_moved_wp[OF s 1(1,2,3,4) n 1(5) c(2,3) up]]) auto
  qed
qed

context ic3_setting
begin

lemma i3_addLemma_wp:
  assumes ok: "i3_ok t R M s" and c: "candidate t R (i3_trace s) k c" "c \<in> ic3_cubes t" "k = L - 1"
    and up: "\<And>N. it_lev (i3_trace s) c = Some N \<Longrightarrow> N \<le> L" and n: "frames_upto (it_numFrames (i3_trace s)) L \<le> M"
  shows "wp (i3_addLemma c L) (\<lambda>_ s'. i3_ok t R M s' \<and> i3_moved s c L s' \<and> grows (i3_trace s) (i3_trace s')) s"
proof -
  note cD = ic3_cubeD[OF c(2)]
  have s: "i3_solvers t M s" "lemmas_ok t R (i3_trace s)" using ok by (simp_all add: i3_ok_iff)
  show ?thesis
  proof (rule wp_mono[OF i3_addLemma_solvers[OF s(1) cD(3,6,5) up n]], assumption, elim conjE, goal_cases)
    case (1 i s')
    have m: "it_lev (i3_trace s') = (it_lev (i3_trace s))(c \<mapsto> L)" using 1(2) by (simp add: i3_moved_def)
    have g: "grows (i3_trace s) (i3_trace s')" by (rule grows_set[OF m up])
    have "lemmas_ok t R (i3_trace s')"
      by (rule lemmas_ok_add(1)[OF s(2) m up]) (use c ri_grows[OF g] in \<open>auto simp: candidate_def\<close>)
    then show ?case using 1 g by (simp add: i3_ok_iff)
  qed
qed

lemma i3_pushLemma_wp:
  assumes ok: "i3_ok t R M s" and i: "it_is (i3_trace s) i c (enat k)" "1 \<le> k" "frames_upto (it_numFrames (i3_trace s)) (enat (k + 1)) \<le> M"
    and cons: "\<forall>w w'. tr_trans t w w' \<longrightarrow> in_frame (i3_trace s) (enat k) w \<longrightarrow> \<not> cube_sat w c \<longrightarrow> \<not> cube_sat w' c"
  shows "wp (i3_pushLemma i (enat (k + 1))) (\<lambda>_ s'. i3_ok t R M s' \<and> i3_moved s c (enat (k + 1)) s' \<and> grows (i3_trace s) (i3_trace s')
     \<and> (\<forall>j d N. j \<noteq> i \<longrightarrow> it_is (i3_trace s') j d N = it_is (i3_trace s) j d N)) s"
proof -
  have s: "i3_solvers t M s" "lemmas_ok t R (i3_trace s)" using ok by (simp_all add: i3_ok_iff)
  have lev: "it_lev (i3_trace s) c = Some (enat k)" using it_lev_is[OF i3_okD(6)[OF ok]] i(1) by blast
  have up: "N \<le> enat (k + 1)" if "it_lev (i3_trace s) c = Some N" for N using that lev by (cases N) simp_all
  have le: "enat k \<le> enat (k + 1)" by simp
  show ?thesis
  proof (rule wp_mono[OF i3_pushLemma_solvers[OF s(1) i(1) le i(3)]], elim conjE, goal_cases)
    case (1 u s')
    have m: "it_lev (i3_trace s') = (it_lev (i3_trace s))(c \<mapsto> enat (k + 1))" using 1(2) by (simp add: i3_moved_def)
    have g: "grows (i3_trace s) (i3_trace s')" by (rule grows_set[OF m up])
    have ex: "excl t R c" "c \<in> ic3_cubes t" using lemmas_okD(2,4)[OF s(2) lev] i(2) by (simp_all add: one_enat_def)
    have "ri t R (i3_trace s) (enat (k + 1) - 1) c"
      unfolding ri_def ri_by_def by (intro exI[of _ c] exI[of _ c]) (use cons ex(1) in \<open>simp add: one_enat_def\<close>)
    then have "lemmas_ok t R (i3_trace s')"
      by (intro lemmas_ok_add(1)[OF s(2) m up]) (use ex ri_grows[OF g] in auto)
    then show ?case using 1 g by (simp add: i3_ok_iff)
  qed
qed

end

definition i3_kept :: "ic3 \<Rightarrow> ic3 \<Rightarrow> bool" where
  "i3_kept s s' = (i3_tr s' = i3_tr s \<and> i3_obls s' = i3_obls s \<and> i3_init_constraints s' = i3_init_constraints s)"

lemma i3_kept_trans: "i3_kept s s' \<Longrightarrow> i3_kept s' s'' \<Longrightarrow> i3_kept s s''"
  by (simp add: i3_kept_def)

lemma i3_kept_refl [intro]: "i3_kept s s"
  by (simp add: i3_kept_def)

lemma i3_moved_kept: "i3_moved s c L s' \<Longrightarrow> i3_kept s s'"
  by (simp add: i3_moved_def i3_kept_def)

lemma i3_query_kept: "i3_query s s' \<Longrightarrow> i3_kept s s'"
  by (simp add: i3_query_def i3_kept_def)

text \<open>Lemmas of the levels in \<open>K\<close> go to the frame of proved lemmas.\<close>

definition raised :: "nat set \<Rightarrow> (cube \<rightharpoonup> level) \<Rightarrow> cube \<rightharpoonup> level" where
  "raised K lev c = (case lev c of None \<Rightarrow> None | Some L \<Rightarrow> Some (if \<exists>j\<in>K. L = enat j then \<infinity> else L))"

lemma raised_empty: "raised {} lev = lev"
  by (rule ext) (simp add: raised_def split: option.splits)

lemma raised_step: "raised K (raised {k} lev) = raised (insert k K) lev"
  by (rule ext) (auto simp: raised_def split: option.splits)

lemma frame_mem: "it_inv T \<Longrightarrow> i \<in> frame_at (it_frames T) L \<longleftrightarrow> (\<exists>c. it_is T i c L)"
  using it_invD(3)[of T i L] by (auto simp: it_is_def)

lemma frame_finite: "it_inv T \<Longrightarrow> finite (frame_at (it_frames T) L)"
  by (rule finite_subset[of _ "{..<length (it_lemmas T)}"]) (auto simp: frame_mem it_is_def it_active_def)

lemma frame_get: "L = \<infinity> \<or> L < enat (it_numFrames T) \<Longrightarrow> it_getFrame T L = Inr (frame_at (it_frames T) L)"
  using fr_getFrame_at[of L "it_frames T"] by (simp add: it_getFrame_def it_numFrames_def)

lemma push_inf_wp:
  assumes "i3_solvers t M s" "distinct ids" "\<forall>i\<in>set ids. \<exists>c. it_is (i3_trace s) i c (enat k)"
  shows "wp (iterS (\<lambda>j. i3_pushLemma j LEVEL_INF) ids) (\<lambda>_ s'. i3_solvers t M s' \<and> i3_kept s s' \<and> it_numFrames (i3_trace s') = it_numFrames (i3_trace s)
     \<and> (\<forall>c. it_lev (i3_trace s') c = (if \<exists>i\<in>set ids. it_is (i3_trace s) i c (enat k) then Some \<infinity> else it_lev (i3_trace s) c))) s"
  using assms
proof (induction ids arbitrary: s)
  case Nil
  then show ?case by auto
next
  case (Cons i ids)
  then obtain c where c: "it_is (i3_trace s) i c (enat k)" by auto
  have inv: "it_inv (i3_trace s)" "it_numFrames (i3_trace s) \<le> M" using Cons.prems(1) by (simp_all add: i3_solvers_def fs_inv_def trace_ok_def)
  have n: "frames_upto (it_numFrames (i3_trace s)) LEVEL_INF = it_numFrames (i3_trace s)" by (simp add: frames_upto_def LEVEL_INF_def)
  show ?case
    unfolding iterS.simps wp_bindS
  proof (rule wp_mono[OF i3_pushLemma_solvers[OF Cons.prems(1) c, of LEVEL_INF]], simp add: LEVEL_INF_def, simp add: n inv, elim conjE, goal_cases)
    case (1 u s1)
    have i: "i \<notin> set ids" using Cons.prems(2) by simp
    then have same: "it_is (i3_trace s1) j d N = it_is (i3_trace s) j d N" if "j \<in> set ids" for j d N using 1(3) that by metis
    have pr: "\<forall>j\<in>set ids. \<exists>c. it_is (i3_trace s1) j c (enat k)" using Cons.prems(3) same by simp
    have m: "it_lev (i3_trace s1) = (it_lev (i3_trace s))(c \<mapsto> \<infinity>)" "it_numFrames (i3_trace s1) = it_numFrames (i3_trace s)"
      using 1(2) n by (simp_all add: i3_moved_def LEVEL_INF_def)
    have ci: "it_is (i3_trace s) i d (enat k) \<longleftrightarrow> d = c" for d using c by (auto simp: it_is_def)
    show ?case
    proof (rule wp_mono[OF Cons.IH[OF 1(1) _ pr]], use Cons.prems(2) in simp, elim conjE, goal_cases)
      case g: (1 u s2)
      have "it_lev (i3_trace s2) d = (if \<exists>j\<in>set (i # ids). it_is (i3_trace s) j d (enat k) then Some \<infinity> else it_lev (i3_trace s) d)" for d
        using g(4) m(1) same ci by simp
      then show ?case using g(1-3) m(2) i3_kept_trans[OF i3_moved_kept[OF 1(2)]] by simp
    qed
  qed
qed

lemma push_frames_inf_wp:
  assumes "i3_solvers t M s" "\<forall>k\<in>set ks. k < it_numFrames (i3_trace s)"
  shows "wp (iterS (\<lambda>i. bindS getS (\<lambda>s. bindS (liftS (it_getFrame (i3_trace s) (enat i))) (\<lambda>fr.
         iterS (\<lambda>j. i3_pushLemma j LEVEL_INF) (sorted_list_of_set fr)))) ks)
     (\<lambda>_ s'. i3_solvers t M s' \<and> i3_kept s s' \<and> it_numFrames (i3_trace s') = it_numFrames (i3_trace s)
       \<and> it_lev (i3_trace s') = raised (set ks) (it_lev (i3_trace s))) s"
  using assms
proof (induction ks arbitrary: s)
  case Nil
  then show ?case by (auto simp: raised_empty)
next
  case (Cons k ks)
  have inv: "it_inv (i3_trace s)" using Cons.prems(1) by (simp add: i3_solvers_def fs_inv_def trace_ok_def)
  have g: "it_getFrame (i3_trace s) (enat k) = Inr (frame_at (it_frames (i3_trace s)) (enat k))" using Cons.prems(2) by (intro frame_get) simp
  let ?ids = "sorted_list_of_set (frame_at (it_frames (i3_trace s)) (enat k))"
  have ids: "set ?ids = frame_at (it_frames (i3_trace s)) (enat k)" "distinct ?ids" using frame_finite[OF inv] by simp_all
  show ?case
    unfolding iterS.simps wp_bindS wp_getS wp_liftS g wpr_Inr
  proof (rule wp_mono[OF push_inf_wp[OF Cons.prems(1) ids(2), of k]], use ids(1) frame_mem[OF inv] in simp, elim conjE, goal_cases)
    case (1 u s1)
    have "(\<exists>i\<in>set ?ids. it_is (i3_trace s) i c (enat k)) \<longleftrightarrow> it_lev (i3_trace s) c = Some (enat k)" for c
      unfolding ids(1) it_lev_is[OF inv] using frame_mem[OF inv] by blast
    then have lev: "it_lev (i3_trace s1) = raised {k} (it_lev (i3_trace s))"
      using 1(4) by (intro ext) (auto simp: raised_def split: option.splits)
    have pr: "\<forall>k\<in>set ks. k < it_numFrames (i3_trace s1)" using Cons.prems(2) 1(3) by simp
    show ?case
    proof (rule wp_mono[OF Cons.IH[OF 1(1) pr]], elim conjE, goal_cases)
      case h: (1 u s2)
      have "it_lev (i3_trace s2) = raised (set (k # ks)) (it_lev (i3_trace s))" using h(4) lev raised_step by simp
      then show ?case using h(1-3) 1(2,3) i3_kept_trans by simp
    qed
  qed
qed

text \<open>The finite levels that hold a lemma.\<close>

definition occupied :: "inductiveTrace \<Rightarrow> nat \<Rightarrow> bool" where
  "occupied T k = (\<exists>c. it_lev T c = Some (enat k))"

lemma occupied_lt: "it_inv T \<Longrightarrow> occupied T k \<Longrightarrow> k < it_numFrames T"
  unfolding occupied_def using it_lev_is it_is_get(11) by (metis enat_ord_simps(2) enat.distinct(1))

lemma frames_bound:
  assumes ok: "lemmas_ok t R T" and oc: "\<forall>j. 1 \<le> j \<longrightarrow> j \<le> m \<longrightarrow> occupied T j"
  shows "m \<le> card (ic3_cubes t)"
proof -
  obtain f where f: "\<And>j. 1 \<le> j \<Longrightarrow> j \<le> m \<Longrightarrow> it_lev T (f j) = Some (enat j)" using oc unfolding occupied_def by metis
  have inj: "inj_on f {1..m}"
  proof (rule inj_onI)
    fix i j assume ij: "i \<in> {1..m}" "j \<in> {1..m}" "f i = f j"
    have "1 \<le> i" "i \<le> m" "1 \<le> j" "j \<le> m" using ij(1,2) by simp_all
    then have "Some (enat i) = Some (enat j)" using f[of i] f[of j] unfolding ij(3) by metis
    then show "i = j" by simp
  qed
  have "f ` {1..m} \<subseteq> ic3_cubes t"
  proof
    fix c assume "c \<in> f ` {1..m}"
    then obtain j where j: "1 \<le> j" "j \<le> m" "c = f j" by auto
    then show "c \<in> ic3_cubes t" using lemmas_okD(4)[OF ok f[OF j(1,2)]] by (simp add: one_enat_def)
  qed
  from card_inj_on_le[OF inj this ic3_cubes_finite] show ?thesis by simp
qed

context ic3_setting
begin

lemma i3_pushFrameToInf_wp:
  assumes ok: "i3_ok t R M s" and k: "1 \<le> k" "k < it_numFrames (i3_trace s)" "\<not> occupied (i3_trace s) k"
    and below: "\<forall>j. 1 \<le> j \<longrightarrow> j < k \<longrightarrow> occupied (i3_trace s) j"
  shows "wp (i3_pushFrameToInf k) (\<lambda>_ s'. i3_ok t R M s' \<and> i3_kept s s' \<and> grows (i3_trace s) (i3_trace s') \<and> it_numFrames (i3_trace s') = k) s"
proof -
  let ?n = "it_numFrames (i3_trace s)"
  have s: "i3_solvers t M s" "lemmas_ok t R (i3_trace s)" using ok by (simp_all add: i3_ok_iff)
  have inv: "it_inv (i3_trace s)" by (rule i3_okD(6)[OF ok])
  have pr: "\<forall>j\<in>set (rev [k..<?n]). j < ?n" by simp
  have fin: "j < ?n" if "it_lev (i3_trace s) c = Some (enat j)" for c j using occupied_lt[OF inv, of j] that by (auto simp: occupied_def)
  show ?thesis
    unfolding i3_pushFrameToInf_def wp_thenS wp_assertS wp_bindS wp_getS i3_numFrames_def
  proof (rule conjI, use k(1) in simp, rule wp_mono[OF push_frames_inf_wp[OF s(1) pr, unfolded wp_bindS]], elim conjE, goal_cases)
    case (1 u s1)
    have inv1: "it_inv (i3_trace s1)" "it_numFrames (i3_trace s1) \<le> M" using 1(1) by (simp_all add: i3_solvers_def fs_inv_def trace_ok_def)
    have lev: "it_lev (i3_trace s1) c = (case it_lev (i3_trace s) c of None \<Rightarrow> None | Some L \<Rightarrow> Some (if enat k \<le> L then \<infinity> else L))" for c
    proof (cases "it_lev (i3_trace s) c")
      case (Some L)
      then show ?thesis using 1(4) fin by (cases L) (auto simp: raised_def)
    qed (simp add: 1(4) raised_def)
    have e: "it_lev (i3_trace s) c \<noteq> Some (enat k)" for c using k(3) by (simp add: occupied_def)
    have k0: "0 < k" using k(1) by simp
    note pm = lemmas_ok_promote[OF s(2) e k0 lev]
    have occ: "occupied (i3_trace s1) j \<longleftrightarrow> j < k \<and> occupied (i3_trace s) j" for j
      unfolding occupied_def lev by (auto split: option.splits)
    have n1: "0 < it_numFrames (i3_trace s1)" using 1(3) k by simp
    show ?case
      unfolding wp_i3_onTrace
    proof (rule wp_mono[OF it_clearUnused_wp[OF inv1(1) n1]], elim conjE, goal_cases)
      case g: (1 u T')
      let ?s = "s1\<lparr>i3_trace := T'\<rparr>"
      have nk: "it_numFrames T' = k"
      proof (rule antisym)
        show "it_numFrames T' \<le> k"
        proof (rule ccontr)
          assume nk: "\<not> it_numFrames T' \<le> k"
          then have "frame_at (it_frames (i3_trace s1)) (enat (it_numFrames T' - 1)) \<noteq> {}" using g(5) k(1) by linarith
          then have "occupied (i3_trace s1) (it_numFrames T' - 1)"
            unfolding occupied_def it_lev_is[OF inv1(1)] using frame_mem[OF inv1(1)] by blast
          then have "it_numFrames T' - 1 < k" using occ by blast
          then show False using nk by linarith
        qed
        show "k \<le> it_numFrames T'"
        proof (cases "k = 1")
          case False
          have "occupied (i3_trace s1) (k - 1)" using occ below False k(1) by simp
          then have "occupied T' (k - 1)" using g(2) by (simp add: occupied_def)
          from occupied_lt[OF g(1) this] show ?thesis by simp
        qed (use g(3) in simp)
      qed
      have tr: "trace_ok (ic3_vars t) M T'" using 1(1) g(1,2,4) by (simp add: i3_solvers_def fs_inv_def trace_ok_def)
      have I: "i3_tr s1 = t" "fs_inv t (ic3_vars t) M (i3_trace s1) (i3_frames s1)" "ul_inv t (i3_trace s1) (i3_lift s1)" using 1(1) by (simp_all add: i3_solvers_def)
      have "lemmas_ok t R T' = lemmas_ok t R (i3_trace s1)" unfolding lemmas_ok_def ri_def ri_by_def in_frame_def g(2) by simp
      then have "i3_ok t R M ?s"
        using pm(1) fs_inv_trace[OF I(2) tr g(2)] ul_inv_up[OF I(3), of T'] I(1) g(2,7) 1(1) by (simp add: i3_ok_def i3_solvers_def)
      moreover have "grows (i3_trace s) T'" using pm(2) g(2) by (simp add: grows_def)
      ultimately show ?case using nk 1(2) by (simp add: i3_kept_def)
    qed
  qed
qed

end

context ic3_setting
begin

lemma i3_pushFrame_wp:
  assumes "i3_ok t R M s" "1 \<le> k" "ids \<noteq> [] \<Longrightarrow> k + 2 \<le> M" "distinct ids" "\<forall>i\<in>set ids. \<exists>c. it_is (i3_trace s) i c (enat k)"
  shows "wp (i3_pushFrame B opt k ids) (\<lambda>p s'. i3_ok t R M s' \<and> i3_kept s s' \<and> grows (i3_trace s) (i3_trace s')
     \<and> p \<le> length ids \<and> it_numFrames (i3_trace s) \<le> it_numFrames (i3_trace s')
     \<and> (p = length ids \<longrightarrow> (\<forall>i\<in>set ids. \<forall>c. \<not> it_is (i3_trace s') i c (enat k)))
     \<and> (p < length ids \<longrightarrow> (\<exists>i\<in>set ids. \<exists>c. it_is (i3_trace s') i c (enat k)))
     \<and> (\<forall>j d N. j \<notin> set ids \<longrightarrow> it_is (i3_trace s') j d N = it_is (i3_trace s) j d N)
     \<and> (\<forall>j<k. occupied (i3_trace s') j = occupied (i3_trace s) j)) s"
  using assms
proof (induction ids arbitrary: s)
  case Nil
  then show ?case by auto
next
  case (Cons i ids)
  let ?Q = "\<lambda>ids s p s'. i3_ok t R M s' \<and> i3_kept s s' \<and> grows (i3_trace s) (i3_trace s')
     \<and> p \<le> length ids \<and> it_numFrames (i3_trace s) \<le> it_numFrames (i3_trace s')
     \<and> (p = length ids \<longrightarrow> (\<forall>i\<in>set ids. \<forall>c. \<not> it_is (i3_trace s') i c (enat k)))
     \<and> (p < length ids \<longrightarrow> (\<exists>i\<in>set ids. \<exists>c. it_is (i3_trace s') i c (enat k)))
     \<and> (\<forall>j d N. j \<notin> set ids \<longrightarrow> it_is (i3_trace s') j d N = it_is (i3_trace s) j d N)
     \<and> (\<forall>j<k. occupied (i3_trace s') j = occupied (i3_trace s) j)"
  obtain c where c: "it_is (i3_trace s) i c (enat k)" using Cons.prems(5) by auto
  have inv: "it_inv (i3_trace s)" by (rule i3_okD(6)[OF Cons.prems(1)])
  have gc: "it_cubeOf (i3_trace s) i = Inr c" by (rule it_is_get(2)[OF inv c])
  have lev: "it_lev (i3_trace s) c = Some (enat k)" using it_lev_is[OF inv] c by blast
  have cu: "c \<in> ic3_cubes t" using lemmas_okD(4)[OF i3_okD(4)[OF Cons.prems(1)] lev] Cons.prems(2) by (simp add: one_enat_def)
  have i: "i \<notin> set ids" "distinct ids" using Cons.prems(4) by simp_all
  have M: "k + 2 \<le> M" using Cons.prems(3) by simp
  have upto: "it_numFrames T \<le> frames_upto (it_numFrames T) L" for T L by (rule frames_upto_le)
  have rest: "wp (i3_pushFrame B opt k ids) (\<lambda>p s'. ?Q (i # ids) s (n + p) s') s2"
    if s2: "i3_ok t R M s2" "i3_kept s s2" "grows (i3_trace s) (i3_trace s2)" "it_numFrames (i3_trace s) \<le> it_numFrames (i3_trace s2)"
      and same: "\<forall>j d N. j \<noteq> i \<longrightarrow> it_is (i3_trace s2) j d N = it_is (i3_trace s) j d N"
      and oc: "\<forall>j<k. occupied (i3_trace s2) j = occupied (i3_trace s) j"
      and n: "n = 1 \<and> (\<forall>c. \<not> it_is (i3_trace s2) i c (enat k)) \<or> n = 0 \<and> (\<exists>c. it_is (i3_trace s2) i c (enat k))" for n s2
  proof -
    have pr: "\<forall>j\<in>set ids. \<exists>c. it_is (i3_trace s2) j c (enat k)" using Cons.prems(5) same i(1) by (metis list.set_intros(2))
    show ?thesis
    proof (rule wp_mono[OF Cons.IH[OF s2(1) Cons.prems(2) _ i(2) pr]], use M in simp, elim conjE, goal_cases)
      case (1 p s')
      have si: "it_is (i3_trace s') i c (enat k) = it_is (i3_trace s2) i c (enat k)" for c using 1(8) i(1) by blast
      show ?case
      proof (intro conjI impI, goal_cases)
        case 6
        then have "n = 1" "p = length ids" using n 1(4) by auto
        then show ?case using n 1(6) si by auto
      next
        case 7
        show ?case
        proof (cases "n = 0")
          case True
          then show ?thesis using n si by auto
        next
          case False
          then have "p < length ids" using 7 n by simp
          then show ?thesis using 1(7) by auto
        qed
      next
        case 8
        show ?case
        proof (intro allI impI)
          fix j d N assume "j \<notin> set (i # ids)"
          then have "j \<notin> set ids" "j \<noteq> i" by simp_all
          then show "it_is (i3_trace s') j d N = it_is (i3_trace s) j d N" using 1(8) same by metis
        qed
      next
        case 9
        show ?case using 1(9) oc by simp
      qed (use 1 s2 n i3_kept_trans[OF s2(2)] grows_trans[OF s2(3)] in auto)
    qed
  qed
  show ?case
    unfolding i3_pushFrame.simps wp_bindS wp_getS wp_liftS gc wpr_Inr
  proof (rule wp_mono[OF i3_consecution_wp[OF Cons.prems(1) ic3_cubeD(1)[OF cu]]], elim conjE, goal_cases)
    case (1 b s1)
    have T1: "i3_trace s1 = i3_trace s" using 1(2) by (simp add: i3_query_def)
    show ?case
    proof (cases b)
      case True
      have up: "frames_upto (it_numFrames (i3_trace s1)) (enat (k + 1)) \<le> M"
        using M i3_okD(5)[OF 1(1)] by (simp add: frames_upto_def trace_ok_def)
      have co: "\<forall>w w'. tr_trans t w w' \<longrightarrow> in_frame (i3_trace s1) (enat k) w \<longrightarrow> \<not> cube_sat w c \<longrightarrow> \<not> cube_sat w' c"
        using 1(3) True T1 by simp
      show ?thesis
        unfolding wp_if if_P[OF True] wp_thenS wp_retS
      proof (rule wp_mono[OF i3_pushLemma_wp[OF 1(1) c[folded T1] Cons.prems(2) up co]], elim conjE, goal_cases)
        case g: (1 u s2)
        have inv2: "it_inv (i3_trace s2)" by (rule i3_okD(6)[OF g(1)])
        have lev2: "it_lev (i3_trace s2) c = Some (enat (k + 1))" "it_numFrames (i3_trace s1) \<le> it_numFrames (i3_trace s2)"
          using g(2) upto by (simp_all add: i3_moved_def)
        have no: "\<not> it_is (i3_trace s2) i d (enat k)" for d
        proof
          assume d: "it_is (i3_trace s2) i d (enat k)"
          obtain j where j: "it_is (i3_trace s2) j c (enat (k + 1))" using lev2(1) it_lev_is[OF inv2] by blast
          show False
          proof (cases "j = i")
            case True
            then show False using d j by (simp add: it_is_def)
          next
            case False
            then have "it_is (i3_trace s) j c (enat (k + 1))" using g(4) j T1 by metis
            then show False using it_is_inj[OF inv _ c] False by blast
          qed
        qed
        have m2: "it_lev (i3_trace s2) = (it_lev (i3_trace s))(c \<mapsto> enat (k + 1))" using g(2) T1 by (simp add: i3_moved_def)
        have "it_lev (i3_trace s2) d = Some (enat j) \<longleftrightarrow> it_lev (i3_trace s) d = Some (enat j)" if "j < k" for d j
          using that m2 lev by (cases "d = c") simp_all
        then have oc: "\<forall>j<k. occupied (i3_trace s2) j = occupied (i3_trace s) j" unfolding occupied_def by simp
        show ?case
          by (rule rest[OF g(1) _ _ _ _ oc]) (use g 1(2) T1 lev2(2) no i3_kept_trans[OF i3_query_kept[OF 1(2)] i3_moved_kept[OF g(2)]] in auto)
      qed
    next
      case False
      show ?thesis
        unfolding wp_if if_not_P[OF False] wp_retS
        by (rule rest[OF 1(1)]) (use i3_query_kept[OF 1(2)] T1 c in auto)
    qed
  qed
qed

lemma i3_pushFrom_wp:
  assumes "i3_ok t R M s" "1 \<le> k" "card (ic3_cubes t) + 2 \<le> M" "\<forall>j. 1 \<le> j \<longrightarrow> j < k \<longrightarrow> occupied (i3_trace s) j"
    "card (ic3_cubes t) + 2 \<le> fuel + k"
  shows "wp (i3_pushFrom B opt fuel k) (\<lambda>_ s'. i3_ok t R M s' \<and> i3_kept s s' \<and> grows (i3_trace s) (i3_trace s')
     \<and> it_numFrames (i3_trace s') \<le> card (ic3_cubes t) + 1) s"
  using assms
proof (induction fuel arbitrary: s k)
  case 0
  have "k - 1 \<le> card (ic3_cubes t)"
    by (rule frames_bound[OF i3_okD(4)[OF 0(1)]]) (use 0(4) in auto)
  then show ?case using 0 by simp
next
  case (Suc fuel)
  let ?N = "card (ic3_cubes t)"
  have kN: "k - 1 \<le> ?N"
    by (rule frames_bound[OF i3_okD(4)[OF Suc.prems(1)]]) (use Suc.prems(4) in auto)
  show ?case
  proof (cases "k < it_numFrames (i3_trace s)")
    case False
    then show ?thesis using Suc.prems kN by (simp add: i3_numFrames_def i3_kept_refl grows_refl)
  next
    case True
    have inv: "it_inv (i3_trace s)" by (rule i3_okD(6)[OF Suc.prems(1)])
    let ?fr = "frame_at (it_frames (i3_trace s)) (enat k)"
    let ?ids = "sorted_list_of_set ?fr"
    have g: "it_getFrame (i3_trace s) (enat k) = Inr ?fr" by (rule frame_get) (use True in simp)
    have ids: "set ?ids = ?fr" "distinct ?ids" "length ?ids = card ?fr" using frame_finite[OF inv] by simp_all
    have all: "\<forall>i\<in>set ?ids. \<exists>c. it_is (i3_trace s) i c (enat k)" using ids(1) frame_mem[OF inv] by blast
    have bM: "k + 2 \<le> M" if ne: "?ids \<noteq> []"
    proof -
      have "hd ?ids \<in> set ?ids" by (rule hd_in_set[OF ne])
      then have "occupied (i3_trace s) k" using all it_lev_is[OF inv] unfolding occupied_def by blast
      then have "\<forall>j. 1 \<le> j \<longrightarrow> j \<le> k \<longrightarrow> occupied (i3_trace s) j" using Suc.prems(4) by (metis le_neq_implies_less)
      from frames_bound[OF i3_okD(4)[OF Suc.prems(1)] this] show ?thesis using Suc.prems(3) by simp
    qed
    show ?thesis
      unfolding i3_pushFrom.simps wp_bindS wp_getS i3_numFrames_def if_P[OF True] wp_liftS g wpr_Inr
    proof (rule wp_mono[OF i3_pushFrame_wp[OF Suc.prems(1,2) bM ids(2) all]], assumption, elim conjE, goal_cases)
      case (1 p s1)
      have inv1: "it_inv (i3_trace s1)" by (rule i3_okD(6)[OF 1(1)])
      have len: "length ?ids = card ?fr" by (rule ids(3))
      show ?case
      proof (cases "p = card ?fr")
        case True
        have no: "\<not> occupied (i3_trace s1) k"
        proof
          assume "occupied (i3_trace s1) k"
          then obtain c i where c: "it_is (i3_trace s1) i c (enat k)" unfolding occupied_def it_lev_is[OF inv1] by blast
          show False
          proof (cases "i \<in> set ?ids")
            case False
            then have "it_is (i3_trace s) i c (enat k)" using 1(8) c by blast
            then show False using False ids(1) frame_mem[OF inv] by blast
          qed (use 1(6) True len c in simp)
        qed
        have lt: "k < it_numFrames (i3_trace s1)" using 1(5) \<open>k < it_numFrames (i3_trace s)\<close> by simp
        have bl: "\<forall>j. 1 \<le> j \<longrightarrow> j < k \<longrightarrow> occupied (i3_trace s1) j" using 1(9) Suc.prems(4) by simp
        show ?thesis
          unfolding wp_if if_P[OF True]
          by (rule wp_mono[OF i3_pushFrameToInf_wp[OF 1(1) Suc.prems(2) lt no bl]])
            (use kN 1(2,3) i3_kept_trans grows_trans in auto)
      next
        case False
        then have "p < length ?ids" using 1(4) len by simp
        then obtain i c where "it_is (i3_trace s1) i c (enat k)" using 1(7) by blast
        then have "occupied (i3_trace s1) k" unfolding occupied_def it_lev_is[OF inv1] by blast
        then have bl: "\<forall>j. 1 \<le> j \<longrightarrow> j < k + 1 \<longrightarrow> occupied (i3_trace s1) j" using 1(9) Suc.prems(4) by (auto simp: less_Suc_eq)
        show ?thesis
          unfolding wp_if if_not_P[OF False]
          by (rule wp_mono[OF Suc.IH[OF 1(1) _ Suc.prems(3) bl]]) (use Suc.prems(5) 1(2,3) i3_kept_trans grows_trans in auto)
      qed
    qed
  qed
qed

end

end
