(* ===== verification/Ic3Block.thy ===== *)
theory Ic3Block
  imports Ic3Lemmas
begin

text \<open>
  Blocking obligations: the answer of one query, the pool of obligations and its invariant, the
  counterexample read off it, and the queue, which is worked off in a bounded number of rounds.
\<close>

definition block_post :: "anyTR \<Rightarrow> cube set \<Rightarrow> inductiveTrace \<Rightarrow> cube \<Rightarrow> nat \<Rightarrow> blockResult \<Rightarrow> bool" where
  "block_post t R T c L r = (
     (br_blocked r \<longrightarrow> br_level r = L \<and> candidate t R T (enat (L - 1)) (br_cti r) \<and> set (br_cti r) \<subseteq> set c)
   \<and> (\<not> br_blocked r \<longrightarrow> distinct (br_cti r) \<and> br_cti r \<noteq> [] \<and> set (br_cti r) \<subseteq> set (br_concrete_state r)
       \<and> strip ` set (br_concrete_state r) \<subseteq> set (tr_latchIDs (baseTR t)) \<and> strip ` set (br_inputs r) \<subseteq> set (tr_inputIDs (baseTR t))
       \<and> strip ` set (br_primed_inputs r) \<subseteq> set (tr_inputIDs (baseTR t))
       \<and> (\<exists>w w'. tr_trans t w w' \<and> in_frame T (enat (L - 1)) w \<and> cube_sat w (br_concrete_state r) \<and> cube_sat w (br_inputs r) \<and> cube_sat w' (br_primed_inputs r))
       \<and> (\<forall>w w'. tr_trans t w w' \<longrightarrow> in_frame T \<infinity> w \<longrightarrow> cube_sat w (br_cti r @ br_inputs r) \<longrightarrow> cube_sat w' (br_primed_inputs r) \<longrightarrow> cube_sat w' c)))"

context ic3_setting
begin

lemma i3_lift_wp:
  assumes ok: "i3_ok t R M s0" and c: "c \<in> ic3_cubes t"
    and p: "pred \<noteq> []" "strip ` set pred \<subseteq> latches" "strip ` set inp \<subseteq> set (tr_inputIDs (baseTR t))" "strip ` set pinp \<subseteq> set (tr_inputIDs (baseTR t))"
    and leads: "\<And>w w'. tr_trans t w w' \<Longrightarrow> cube_sat w (pred @ inp) \<Longrightarrow> cube_sat w' pinp \<Longrightarrow> cube_sat w' c"
  shows "wp (i3_onLift (\<lambda>T. ul_lift B opt T pred c inp pinp)) (\<lambda>r s'. i3_ok t R M s' \<and> i3_query s0 s' \<and> r \<noteq> [] \<and> distinct r \<and> set r \<subseteq> set pred
     \<and> (\<forall>w w'. tr_trans t w w' \<longrightarrow> in_frame (i3_trace s0) \<infinity> w \<longrightarrow> cube_sat w (r @ inp) \<longrightarrow> cube_sat w' pinp \<longrightarrow> cube_sat w' c)) s0"
proof -
  note lp = latch_cube[OF p(2)]
  have io: "strip ` set inp \<subseteq> V" "strip ` set pinp \<subseteq> V" using p(3,4) V_io(3) by blast+
  show ?thesis
    unfolding wp_i3_onLift
  proof (rule wp_mono[OF ul_lift_wp[OF wf alive V_lem i3_okD(3)[OF ok] i3_okD(5)[OF ok] ic3_cubeD(1)[OF c] p(1) lp(1,2) io leads]], assumption+, elim conjE, goal_cases)
    case (1 r l)
    have "i3_ok t R M (s0\<lparr>i3_lift := l\<rparr>)" "i3_query s0 (s0\<lparr>i3_lift := l\<rparr>)" using ok 1(1) by (simp_all add: i3_ok_def i3_query_def)
    then show ?case using 1 by blast
  qed
qed

text \<open>Without latches all states are initial.\<close>

lemma no_latch_excl:
  assumes "tr_latchIDs (baseTR t) = []" "excl t R c" "tr_trans t u w"
  shows "\<not> cube_sat w c"
proof -
  have "init_ok t w" unfolding init_ok_def using latch_in[OF wf] assms(1) by fastforce
  moreover have "R = {}" using R_latch assms(1) by fastforce
  ultimately have s: "starts t R w" by (simp add: starts_def)
  have "step_ok t w w" unfolding step_ok_def using latch_in[OF wf] assms(1) by fastforce
  then have "tr_trans t w w" using assms(3) by (simp add: tr_trans_def)
  then show ?thesis using assms(2) s unfolding excl_def by blast
qed

lemma i3_block_wp:
  assumes ok: "i3_ok t R M s0" and c: "c \<in> ic3_cubes t" "excl t R c" and L: "1 \<le> L"
  shows "wp (i3_block B opt c L) (\<lambda>r s'. i3_ok t R M s' \<and> i3_query s0 s' \<and> block_post t R (i3_trace s0) c L r) s0"
proof -
  note cD = ic3_cubeD[OF c(1)]
  have l0: "L \<noteq> 0" using L by simp
  let ?T = "i3_trace s0"
  show ?thesis
    unfolding i3_block_def if_not_P[OF l0] wp_bindS wp_i3_onCons
  proof (rule wp_mono[OF fs_consecution_wps(1)[OF wf alive V_lem V_io(1) i3_okD(2)[OF ok] cD(1) has_latch[OF i3_okD(4)[OF ok]]]], elim conjE, goal_cases)
    case (1 r f)
    let ?s = "s0\<lparr>i3_vars := fs_vars f, i3_cons := f\<rparr>"
    note s1 = i3_ok_query[OF ok 1(1)]
    have T1: "i3_trace ?s = ?T" by simp
    show ?case
    proof (cases "cr_cons r")
      case True
      note cp = consec_postT[OF 1(3) True, unfolded consecOptions.select_convs]
      have sub: "set (sort (cr_core r)) \<subseteq> set c" using cp(2) by simp
      have d: "distinct (sort (cr_core r))" using cp(1) by simp
      show ?thesis
        unfolding wp_if if_P[OF True] wp_bindS
      proof (rule wp_mono[OF i3_initiate_wp[OF s1(1) sorted_sort d cD(3,4,6) c(2) cD(5) sub]], elim conjE, goal_cases)
        case g: (1 core s2)
        have co: "sorted core" "distinct core" "core \<noteq> []" "excl t R core" "set (cr_core r) \<subseteq> set core" "set core \<subseteq> set c"
          using g(3) by (auto simp: cube_between_def)
        have T2: "i3_trace s2 = ?T" using g(2) by (simp add: i3_query_def)
        have "ri_by t R ?T (enat (L - 1)) core (cr_core r) c"
          unfolding ri_by_def using co(5) cp(2) cp(4)[OF TrueI] c(2) by blast
        then have cand: "candidate t R (i3_trace s2) (enat L - 1) core"
          using co(1-4) T2 by (auto simp: candidate_def ri_def one_enat_def)
        have L': "0 < enat L" using L by (simp add: zero_enat_def)
        have u: "core \<in> ic3_cubes t" by (rule ic3_cubes_sub[OF c(1) co(6,1,2,3)])
        show ?case
        proof (rule wp_mono[OF i3_generalize_wp[OF g(1) cand u L']], elim conjE, goal_cases)
          case h: (1 c' s3)
          have c': "candidate t R ?T (enat (L - 1)) c'" "set c' \<subseteq> set c" "c' \<noteq> []" "excl t R c'"
            using h(3,4) co(6) T2 by (auto simp: candidate_def one_enat_def)
          have V': "strip ` set c' \<subseteq> V" using c'(2) cD(5) by blast
          have q3: "i3_query s0 s3" using s1(2) g(2) h(2) by (simp add: i3_query_def)
          show ?case
            unfolding wp_thenS wp_assertS wp_retS
            by (rule wp_mono[OF i3_initiation_wp[OF h(1) V']]) (use c' q3 i3_query_trans in \<open>auto simp: block_post_def\<close>)
        qed
      qed
    next
      case False
      note cp = consec_postF[OF 1(3) False, unfolded consecOptions.select_convs]
      have det: "cube_sat w' c" if "tr_trans t w w'" "cube_sat w (cr_pred r @ cr_inp r)" "cube_sat w' (cr_pinp r)" for w w'
        by (rule cp(6)[OF determined(1) TrueI TrueI TrueI cD(2) that])
      obtain w w' where w: "tr_trans t w w'" "in_frame ?T (enat (L - 1)) w" "cube_sat w (cr_pred r @ cr_inp r)" "cube_sat w' (cr_pinp r)" using cp(1) by blast
      have w2: "cube_sat w (cr_pred r)" "cube_sat w (cr_inp r)" using w(3) by (simp_all add: cube_sat_def)
      have "cube_sat w' c" by (rule det[OF w(1,3,4)])
      then have ne: "cr_pred r \<noteq> []" using cp(2)[OF TrueI] no_latch_excl[OF _ c(2) w(1)] by blast
      show ?thesis
        unfolding wp_if if_not_P[OF False] wp_bindS wp_thenS wp_assertS wp_retS
      proof (rule conjI[OF ne], rule wp_mono[OF i3_lift_wp[OF s1(1) c(1) ne cp(3,4,5) det]], assumption+, elim conjE, goal_cases)
        case g: (1 lf s2)
        have q: "i3_query s0 s2" using s1(2) g(2) by (simp add: i3_query_def)
        have "block_post t R ?T c L \<lparr>br_blocked = False, br_level = 0, br_cti = lf, br_concrete_state = cr_pred r, br_inputs = cr_inp r, br_primed_inputs = cr_pinp r\<rparr>"
          unfolding block_post_def blockResult.select_convs
        proof (intro conjI impI, goal_cases)
          case 10
          show ?case using w(1,2,4) w2 by blast
        next
          case 11
          show ?case using g(6) unfolding T1 .
        qed (use g(3-5) cp(3-5) in simp_all)
        then show ?case using g(1,3) q by blast
      qed
    qed
  qed
qed

end

subsection \<open>The queue\<close>

text \<open>A priority queue whose order has the smallest key on top.\<close>

locale least_first =
  fixes lt :: "'a \<Rightarrow> 'a \<Rightarrow> bool" and key :: "'a \<Rightarrow> nat"
  assumes less: "lt a b \<Longrightarrow> key b \<le> key a" and not_less: "\<not> lt a b \<Longrightarrow> key a \<le> key b"
begin

lemma top_in: "pq_top lt m ys \<in> set (m # ys)"
  by (induction ys arbitrary: m) (auto split: if_splits)

lemma top_least: "y \<in> set (m # ys) \<Longrightarrow> key (pq_top lt m ys) \<le> key y"
proof (induction ys arbitrary: m y)
  case (Cons x xs)
  let ?m = "if lt m x then x else m"
  have a: "key (pq_top lt ?m xs) \<le> key ?m" by (rule Cons.IH) simp
  have b: "key ?m \<le> key m" "key ?m \<le> key x" using less[of m x] not_less[of m x] by auto
  show ?case
  proof (cases "y \<in> set xs")
    case True
    then show ?thesis using Cons.IH[of y ?m] by simp
  next
    case False
    then have "y = m \<or> y = x" using Cons.prems by simp
    then show ?thesis using a b order_trans by auto
  qed
qed simp

end

interpretation ob_queue: least_first "obl_at p" "\<lambda>i. po_level (p ! i)" for p
  by unfold_locales (auto simp: obl_at_def obl_less_def split: if_splits)

subsection \<open>Obligations\<close>

definition input_cube :: "anyTR \<Rightarrow> cube \<Rightarrow> bool" where
  "input_cube t c = (strip ` set c \<subseteq> set (tr_inputIDs (baseTR t)) \<and> (\<exists>w. const_ok w \<and> cube_sat w c))"

definition leads :: "anyTR \<Rightarrow> cube set \<Rightarrow> cube \<Rightarrow> cube \<Rightarrow> cube \<Rightarrow> bool" where
  "leads t R c inp d = (\<exists>pinp. input_cube t pinp \<and> (\<forall>n w w'. reach t R n w \<longrightarrow> tr_trans t w w' \<longrightarrow> cube_sat w (c @ inp) \<longrightarrow> cube_sat w' pinp \<longrightarrow> cube_sat w' d))"

definition unreached :: "anyTR \<Rightarrow> cube set \<Rightarrow> nat \<Rightarrow> cube \<Rightarrow> bool" where
  "unreached t R L c = (\<forall>n w. reach t R n w \<longrightarrow> n < L \<longrightarrow> \<not> cube_sat w c)"

definition begins :: "anyTR \<Rightarrow> cube set \<Rightarrow> proofObligation \<Rightarrow> bool" where
  "begins t R ob = (\<exists>w w'. starts t R w \<and> tr_trans t w w' \<and> cube_sat w (po_cti ob) \<and> cube_sat w (po_concrete_state ob) \<and> cube_sat w (po_inputs ob))"

definition obl_ok :: "anyTR \<Rightarrow> cube set \<Rightarrow> nat \<Rightarrow> nat \<Rightarrow> proofObligation list \<Rightarrow> nat \<Rightarrow> proofObligation \<Rightarrow> bool" where
  "obl_ok t R k b p i ob = (po_may_degree ob = 0 \<and> po_level ob \<le> k \<and> po_cti ob \<in> ic3_cubes t \<and> input_cube t (po_inputs ob)
     \<and> strip ` set (po_concrete_state ob) \<subseteq> set (tr_latchIDs (baseTR t))
     \<and> unreached t R (po_level ob) (po_cti ob) \<and> (po_level ob = 0 \<longrightarrow> begins t R ob)
     \<and> (case po_parent ob of None \<Rightarrow> po_cti ob = [tr_bad (baseTR t)] \<and> po_level ob = k
        | Some m \<Rightarrow> b \<le> m \<and> m < i \<and> strip ` set (po_cti ob) \<subseteq> set (tr_latchIDs (baseTR t)) \<and> leads t R (po_cti ob) (po_inputs ob) (po_cti (p ! m))))"

definition pool_ok :: "anyTR \<Rightarrow> cube set \<Rightarrow> nat \<Rightarrow> nat \<Rightarrow> proofObligation list \<Rightarrow> bool" where
  "pool_ok t R k b p = (\<forall>i\<ge>b. i < length p \<longrightarrow> obl_ok t R k b p i (p ! i))"

lemma cube_sat_append: "cube_sat w (a @ b) \<longleftrightarrow> cube_sat w a \<and> cube_sat w b"
  by (auto simp: cube_sat_def)

lemma leads_more: "set inp \<subseteq> set inp' \<Longrightarrow> leads t R c inp d \<Longrightarrow> leads t R c inp' d"
  unfolding leads_def cube_sat_append using cube_sat_sub by blast

lemma reach_next: "reach t R n w \<Longrightarrow> \<exists>w'. tr_trans t w w'"
  by (cases n) auto

lemma obl_ok_cong: "(\<And>m. m < i \<Longrightarrow> po_cti (p ! m) = po_cti (p' ! m)) \<Longrightarrow> obl_ok t R k b p i ob = obl_ok t R k b p' i ob"
  unfolding obl_ok_def by (cases "po_parent ob") auto

text \<open>An obligation is replaced by one for the same cube.\<close>

lemma pool_ok_upd:
  assumes p: "pool_ok t R k b p" and i: "i < length p" and ob: "obl_ok t R k b p i ob" "po_cti ob = po_cti (p ! i)"
  shows "pool_ok t R k b (p[i := ob])"
  unfolding pool_ok_def
proof (intro allI impI)
  fix j assume "b \<le> j" "j < length (p[i := ob])"
  then have j: "b \<le> j" "j < length p" by simp_all
  have e: "po_cti (p[i := ob] ! m) = po_cti (p ! m)" for m using ob(2) i by (cases "m = i") simp_all
  have "obl_ok t R k b p j (p[i := ob] ! j)" using ob(1) p j by (cases "j = i") (simp_all add: pool_ok_def)
  then show "obl_ok t R k b (p[i := ob]) j (p[i := ob] ! j)" unfolding obl_ok_def e .
qed

lemma pool_ok_new:
  assumes p: "pool_ok t R k b p" and ob: "obl_ok t R k b p (length p) ob"
  shows "pool_ok t R k b (p @ [ob])"
  unfolding pool_ok_def
proof (intro allI impI)
  fix j assume j: "b \<le> j" "j < length (p @ [ob])"
  have o': "obl_ok t R k b p j ((p @ [ob]) ! j)"
  proof (cases "j < length p")
    case True
    then show ?thesis using p j(1) by (simp add: pool_ok_def nth_append)
  next
    case False
    then have "j = length p" using j by simp
    then show ?thesis using ob by simp
  qed
  show "obl_ok t R k b (p @ [ob]) j ((p @ [ob]) ! j)"
    by (rule iffD1[OF obl_ok_cong o']) (use j in \<open>simp add: nth_append\<close>)
qed

lemma next_ex:
  assumes wf: "tr_wf t" and f: "functional t" and w: "const_ok w" "frame_ok t w"
  shows "\<exists>w'. tr_trans t w w'"
proof -
  let ?la = "set (tr_latchIDs (baseTR t))"
  have "ID_FALSE \<notin> ?la" using latch_ids'[OF wf, of ID_FALSE] by blast
  then have c0: "const_ok (\<lambda>v. v \<in> ?la \<and> next_state t w v)" by (simp add: const_ok_def)
  have "gates_total t" using f by (simp add: functional_def)
  from this[unfolded gates_total_def, rule_format, OF c0]
  obtain w' where w': "const_ok w'" "frame_ok t w'" "\<forall>v\<in>io_vars t. w' v = (v \<in> ?la \<and> next_state t w v)" by blast
  have "step_ok t w w'"
    unfolding step_ok_def
  proof clarify
    fix k l assume kl: "(k, l) \<in> set (tr_latches (baseTR t))"
    have "k \<in> ?la" by (rule latch_in[OF wf kl])
    then show "lit_true w' k = lit_true w (la_next l)"
      using w'(3) tr_latch_wf(1,3)[OF wf kl] by (simp add: lit_true_pos next_state_def io_vars_def)
  qed
  then show ?thesis using w w' unfolding tr_trans_def by blast
qed

subsection \<open>Counterexamples\<close>

text \<open>A path from \<open>w\<close> to a bad state with the given inputs in all steps but the last.\<close>

fun drives :: "anyTR \<Rightarrow> cube list \<Rightarrow> assignment \<Rightarrow> bool" where
  "drives t [] w = False"
| "drives t [x] w = (cube_sat w [tr_bad (baseTR t)] \<and> (\<exists>w'. tr_trans t w w'))"
| "drives t (x # y # xs) w = (cube_sat w x \<and> (\<exists>w'. tr_trans t w w' \<and> drives t (y # xs) w'))"

text \<open>Inputs over the inputs, states over the latches.\<close>

definition cex_typed :: "anyTR \<Rightarrow> safetyCounterExample \<Rightarrow> bool" where
  "cex_typed t cex = (\<forall>st\<in>set cex. strip ` set (st_inputs st) \<subseteq> set (tr_inputIDs (baseTR t)) \<and> strip ` set (st_state st) \<subseteq> set (tr_latchIDs (baseTR t)))"

definition cex_ok :: "anyTR \<Rightarrow> cube set \<Rightarrow> safetyCounterExample \<Rightarrow> bool" where
  "cex_ok t R cex = (cex \<noteq> [] \<and> cex_typed t cex \<and> (\<exists>w. starts t R w \<and> cube_sat w (st_state (hd cex)) \<and> drives t (map st_inputs cex) w))"

lemma cex_steps_typed:
  assumes p: "pool_ok t R k b p"
  shows "i < length p \<Longrightarrow> b \<le> i \<Longrightarrow> cex_steps n p (Some i) = Inr cex \<Longrightarrow> cex_typed t cex"
proof (induction n arbitrary: i cex)
  case (Suc n)
  let ?st = "\<lparr>st_inputs = sort (po_inputs (p ! i)), st_state = sort (po_concrete_state (p ! i))\<rparr>"
  have ob: "obl_ok t R k b p i (p ! i)" using p Suc.prems by (simp add: pool_ok_def)
  then have st: "cex_typed t [?st]" by (simp add: obl_ok_def input_cube_def cex_typed_def)
  obtain cex' where c: "cex_steps n p (po_parent (p ! i)) = Inr cex'" "cex = ?st # cex'"
    using Suc.prems by (auto simp: atR_def bindR_Inr_iff)
  have "cex_typed t cex'"
  proof (cases "po_parent (p ! i)")
    case None
    then show ?thesis using c(1) by (cases n) (auto simp: cex_typed_def)
  next
    case (Some m)
    then have "b \<le> m" "m < length p" using ob Suc.prems(1) by (simp_all add: obl_ok_def)
    then show ?thesis using Suc.IH[of m cex'] c(1) Some by simp
  qed
  then show ?case using st c(2) by (simp add: cex_typed_def)
qed simp

lemma cube_sat_sort [simp]: "cube_sat w (sort c) = cube_sat w c"
  by (simp add: cube_sat_def)

context ic3_setting
begin

lemma leads_step:
  assumes l: "leads t R c inp d" and c: "strip ` set c \<subseteq> latches" "strip ` set inp \<subseteq> set (tr_inputIDs (baseTR t))"
    and w: "reach t R m w" "cube_sat w c" and j: "const_ok j" "cube_sat j inp"
  shows "\<exists>w0 w1. tr_trans t w0 w1 \<and> (\<forall>v\<in>latches. w0 v = w v) \<and> cube_sat w0 inp \<and> reach t R (Suc m) w1 \<and> cube_sat w1 d"
proof -
  obtain pinp where pinp: "input_cube t pinp" "\<And>n w w'. reach t R n w \<Longrightarrow> tr_trans t w w' \<Longrightarrow> cube_sat w (c @ inp) \<Longrightarrow> cube_sat w' pinp \<Longrightarrow> cube_sat w' d"
    using l unfolding leads_def by blast
  obtain i' where i': "const_ok i'" "cube_sat i' pinp" "strip ` set pinp \<subseteq> set (tr_inputIDs (baseTR t))"
    using pinp(1) unfolding input_cube_def by blast
  obtain w0 w1 where w0: "tr_trans t w0 w1" "\<forall>v\<in>latches. w0 v = w v" "\<forall>v\<in>set (tr_inputIDs (baseTR t)). w0 v = j v \<and> w1 v = i' v"
    using re_input[OF wf fn j(1) i'(1)] by blast
  have r0: "reach t R m w0" by (rule reach_latches[OF wf _ w(1) w0(1,2)]) (use R_latch in blast)
  have "cube_sat w0 c" using latch_sat[OF c(1) w0(2)] w(2) by simp
  moreover have in0: "cube_sat w0 inp" using cube_sat_agree[OF c(2), of w0 j] w0(3) j(2) by simp
  moreover have "cube_sat w1 pinp" using cube_sat_agree[OF i'(3), of w1 i'] w0(3) i'(2) by simp
  ultimately have q1: "cube_sat w1 d" using pinp(2)[OF r0 w0(1)] by (simp add: cube_sat_append)
  obtain w2 where "tr_trans t w1 w2" using next_ex[OF wf fn] w0(1) unfolding tr_trans_def by blast
  then have r1: "reach t R (Suc m) w1" using r0 w0(1) by auto
  show ?thesis by (intro exI conjI, rule w0(1), rule w0(2), rule in0, rule r1, rule q1)
qed

lemma leads_unreached:
  assumes l: "leads t R c inp d" and c: "strip ` set c \<subseteq> latches" "input_cube t inp" and u: "unreached t R (Suc L) d"
  shows "unreached t R L c"
  unfolding unreached_def
proof (intro allI impI notI)
  fix n w assume w: "reach t R n w" "n < L" "cube_sat w c"
  obtain j where j: "const_ok j" "cube_sat j inp" "strip ` set inp \<subseteq> set (tr_inputIDs (baseTR t))" using c(2) unfolding input_cube_def by blast
  obtain w1 where "reach t R (Suc n) w1" "cube_sat w1 d" using leads_step[OF l c(1) j(3) w(1,3) j(1,2)] by blast
  then show False using u w(2) unfolding unreached_def by (metis Suc_less_eq)
qed

text \<open>From any reached state of an obligation the inputs kept for it and its ancestors lead to a bad state.\<close>

lemma cex_steps_ok:
  assumes p: "pool_ok t R k b p"
  shows "i < length p \<Longrightarrow> i < n \<Longrightarrow> b \<le> i \<Longrightarrow> \<exists>cex. cex_steps n p (Some i) = Inr cex \<and> cex \<noteq> [] \<and> st_state (hd cex) = sort (po_concrete_state (p ! i))
     \<and> (\<forall>m w j. reach t R m w \<longrightarrow> cube_sat w (po_cti (p ! i)) \<longrightarrow> const_ok j \<longrightarrow> cube_sat j (po_inputs (p ! i))
        \<longrightarrow> (\<exists>w0 w1. tr_trans t w0 w1 \<and> (\<forall>v\<in>latches. w0 v = w v) \<and> drives t (map st_inputs cex) w0))"
proof (induction n arbitrary: i)
  case (Suc n)
  let ?ob = "p ! i"
  let ?st = "\<lparr>st_inputs = sort (po_inputs ?ob), st_state = sort (po_concrete_state ?ob)\<rparr>"
  have ob: "obl_ok t R k b p i ?ob" using p Suc.prems by (simp add: pool_ok_def)
  have at: "atR p i = Inr ?ob" using Suc.prems(1) by (simp add: atR_def)
  show ?case
  proof (cases "po_parent ?ob")
    case None
    then have b: "po_cti ?ob = [tr_bad (baseTR t)]" using ob by (simp add: obl_ok_def)
    have e: "cex_steps (Suc n) p (Some i) = Inr [?st]" using at None by (cases n) simp_all
    have "\<exists>w0 w1. tr_trans t w0 w1 \<and> (\<forall>v\<in>latches. w0 v = w v) \<and> drives t (map st_inputs [?st]) w0"
      if w: "reach t R m w" "cube_sat w (po_cti ?ob)" for m w
    proof -
      obtain w' where "tr_trans t w w'" using reach_next[OF w(1)] by blast
      then show ?thesis using w(2) b by (intro exI[of _ w] exI[of _ w']) auto
    qed
    then show ?thesis using e by (intro exI[of _ "[?st]"]) simp
  next
    case (Some q)
    have q: "q < i" "b \<le> q" "strip ` set (po_cti ?ob) \<subseteq> latches" "leads t R (po_cti ?ob) (po_inputs ?ob) (po_cti (p ! q))" using ob Some by (simp_all add: obl_ok_def)
    have qq: "obl_ok t R k b p q (p ! q)" using p q(1,2) Suc.prems(1) by (simp add: pool_ok_def)
    obtain cex where cex: "cex_steps n p (Some q) = Inr cex" "cex \<noteq> []"
      "\<And>m w j. reach t R m w \<Longrightarrow> cube_sat w (po_cti (p ! q)) \<Longrightarrow> const_ok j \<Longrightarrow> cube_sat j (po_inputs (p ! q))
        \<Longrightarrow> (\<exists>w0 w1. tr_trans t w0 w1 \<and> (\<forall>v\<in>latches. w0 v = w v) \<and> drives t (map st_inputs cex) w0)"
      using Suc.IH[of q] q(1,2) Suc.prems by auto
    have e: "cex_steps (Suc n) p (Some i) = Inr (?st # cex)" using at Some cex(1) by simp
    have "\<exists>w0 w1. tr_trans t w0 w1 \<and> (\<forall>v\<in>latches. w0 v = w v) \<and> drives t (map st_inputs (?st # cex)) w0"
      if w: "reach t R m w" "cube_sat w (po_cti ?ob)" and j: "const_ok j" "cube_sat j (po_inputs ?ob)" for m w j
    proof -
      have ip: "strip ` set (po_inputs ?ob) \<subseteq> set (tr_inputIDs (baseTR t))" using ob by (simp add: obl_ok_def input_cube_def)
      obtain w0 w1 where w0: "tr_trans t w0 w1" "\<forall>v\<in>latches. w0 v = w v" "cube_sat w0 (po_inputs ?ob)" and r1: "reach t R (Suc m) w1" and q1: "cube_sat w1 (po_cti (p ! q))"
        using leads_step[OF q(4,3) ip w j] by blast
      obtain jq where jq: "const_ok jq" "cube_sat jq (po_inputs (p ! q))" using qq by (auto simp: obl_ok_def input_cube_def)
      obtain w3 w4 where w3: "tr_trans t w3 w4" "\<forall>v\<in>latches. w3 v = w1 v" "drives t (map st_inputs cex) w3"
        using cex(3)[OF r1 q1 jq] by blast
      have "tr_trans t w0 w3" using w0(1) w3(1) step_latches[OF wf _ w3(2)] by (simp add: tr_trans_def)
      then have "drives t (map st_inputs (?st # cex)) w0" using w3(3) w0(3) cex(2) by (cases cex) auto
      then show ?thesis using \<open>tr_trans t w0 w3\<close> w0(2) by blast
    qed
    then show ?thesis using e by (intro exI[of _ "?st # cex"]) simp
  qed
qed simp

lemma buildCex_ok:
  assumes p: "pool_ok t R k b (i3_obls s)" and i: "i < length (i3_obls s)" "b \<le> i" "po_level (i3_obls s ! i) = 0"
  shows "\<exists>cex. i3_buildCex s i = Inr cex \<and> cex_ok t R cex"
proof -
  let ?ob = "i3_obls s ! i"
  have ob: "strip ` set (po_concrete_state ?ob) \<subseteq> latches" "begins t R ?ob" using p i by (simp_all add: pool_ok_def obl_ok_def)
  obtain w w' where w: "starts t R w" "tr_trans t w w'" "cube_sat w (po_cti ?ob)" "cube_sat w (po_concrete_state ?ob)" "cube_sat w (po_inputs ?ob)"
    using ob(2) unfolding begins_def by blast
  have r: "reach t R 0 w" using w(1,2) by auto
  have cw: "const_ok w" using w(2) by (simp add: tr_trans_def)
  obtain cex where cex: "cex_steps (length (i3_obls s)) (i3_obls s) (Some i) = Inr cex" "cex \<noteq> []" "st_state (hd cex) = sort (po_concrete_state ?ob)"
    "\<And>m w j. reach t R m w \<Longrightarrow> cube_sat w (po_cti ?ob) \<Longrightarrow> const_ok j \<Longrightarrow> cube_sat j (po_inputs ?ob)
        \<Longrightarrow> (\<exists>w0 w1. tr_trans t w0 w1 \<and> (\<forall>v\<in>latches. w0 v = w v) \<and> drives t (map st_inputs cex) w0)"
    using cex_steps_ok[OF p i(1) i(1) i(2)] by blast
  obtain w0 w1 where w0: "tr_trans t w0 w1" "\<forall>v\<in>latches. w0 v = w v" "drives t (map st_inputs cex) w0"
    using cex(4)[OF r w(3) cw w(5)] by blast
  have ty: "cex_typed t cex" by (rule cex_steps_typed[OF p i(1,2) cex(1)])
  have "reach t R 0 w0" by (rule reach_latches[OF wf _ r w0(1,2)]) (use R_latch in blast)
  then have "starts t R w0" by simp
  moreover have "cube_sat w0 (st_state (hd cex))" using latch_sat[OF ob(1) w0(2)] w(4) cex(3) by simp
  ultimately have "cex_ok t R cex" using cex(2) w0(3) ty unfolding cex_ok_def by blast
  then show ?thesis using cex(1) by (simp add: i3_buildCex_def)
qed

end

subsection \<open>How long the queue is worked on\<close>

definition uncovered :: "anyTR \<Rightarrow> inductiveTrace \<Rightarrow> nat \<Rightarrow> (cube \<times> nat) set" where
  "uncovered t T k = {(c, l) \<in> ic3_cubes t \<times> {1..k}. \<not> covered T c l}"

definition queue_rank :: "inductiveTrace \<Rightarrow> nat \<Rightarrow> proofObligation list \<Rightarrow> nat list \<Rightarrow> nat" where
  "queue_rank T k p q = (case q of [] \<Rightarrow> 0 | x # xs \<Rightarrow> (let ob = p ! pq_top (obl_at p) x xs in
     length q + (if covered T (po_cti ob) (po_level ob) then 2 * k + 1 else 2 * po_level ob)))"

definition queue_fuel :: "anyTR \<Rightarrow> inductiveTrace \<Rightarrow> nat \<Rightarrow> proofObligation list \<Rightarrow> nat list \<Rightarrow> nat" where
  "queue_fuel t T k p q = card (uncovered t T k) * (2 * k + 2) + queue_rank T k p q"

lemma uncovered_finite: "finite (uncovered t T k)"
  unfolding uncovered_def by (rule finite_subset[of _ "ic3_cubes t \<times> {1..k}"]) (auto simp: ic3_cubes_finite)

lemma uncovered_grows: "grows T T' \<Longrightarrow> uncovered t T' k \<subseteq> uncovered t T k"
  unfolding uncovered_def using covered_grows by blast

lemma uncovered_card: "card (uncovered t T k) \<le> card (ic3_cubes t) * k"
proof -
  have "uncovered t T k \<subseteq> ic3_cubes t \<times> {1..k}" unfolding uncovered_def by blast
  from card_mono[OF _ this] show ?thesis by (simp add: ic3_cubes_finite card_cartesian_product)
qed

lemma top_props:
  fixes p :: "proofObligation list" and x :: nat and xs :: "nat list"
  defines "i \<equiv> pq_top (obl_at p) x xs"
  shows "i \<in> set (x # xs)" "\<And>y. y \<in> set (x # xs) \<Longrightarrow> po_level (p ! i) \<le> po_level (p ! y)"
  unfolding i_def by (rule ob_queue.top_in, rule ob_queue.top_least)

lemma queue_rank_le:
  assumes "pool_ok t R k b p" "set q \<subseteq> {b..<length p}"
  shows "queue_rank T k p q \<le> length q + 2 * k + 1"
proof (cases q)
  case (Cons x xs)
  have "b \<le> pq_top (obl_at p) x xs" "pq_top (obl_at p) x xs < length p" using top_props(1)[of p x xs] assms(2) Cons by auto
  then have "po_level (p ! pq_top (obl_at p) x xs) \<le> k" using assms(1) by (simp add: pool_ok_def obl_ok_def)
  then show ?thesis using Cons by (simp add: queue_rank_def Let_def)
qed (simp add: queue_rank_def)

definition blocked_post :: "anyTR \<Rightarrow> cube set \<Rightarrow> nat \<Rightarrow> nat \<Rightarrow> ic3 \<Rightarrow> bool \<times> safetyCounterExample \<Rightarrow> ic3 \<Rightarrow> bool" where
  "blocked_post t R M k s r s' = (i3_ok t R M s' \<and> i3_tr s' = i3_tr s \<and> i3_init_constraints s' = i3_init_constraints s \<and> grows (i3_trace s) (i3_trace s')
     \<and> (if fst r then covered (i3_trace s') [tr_bad (baseTR t)] k else cex_ok t R (snd r)))"

definition queue_ok :: "anyTR \<Rightarrow> cube set \<Rightarrow> nat \<Rightarrow> nat \<Rightarrow> nat \<Rightarrow> ic3 \<Rightarrow> nat list \<Rightarrow> bool" where
  "queue_ok t R b M k s q = (i3_ok t R M s \<and> pool_ok t R k b (i3_obls s) \<and> set q \<subseteq> {b..<length (i3_obls s)} \<and> k + 1 \<le> M
     \<and> ((\<exists>i\<in>set q. po_parent (i3_obls s ! i) = None) \<or> covered (i3_trace s) [tr_bad (baseTR t)] k))"

text \<open>An obligation below all others of the queue is on top.\<close>

lemma top_new:
  assumes "j \<in> set (x # xs)" "\<And>y. y \<in> set (x # xs) \<Longrightarrow> y \<noteq> j \<Longrightarrow> po_level (p ! j) < po_level (p ! y)"
  shows "pq_top (obl_at p) x xs = j"
proof (rule ccontr)
  assume n: "pq_top (obl_at p) x xs \<noteq> j"
  from assms(2)[OF top_props(1) n] top_props(2)[OF assms(1), of p] show False by simp
qed

context ic3_setting
begin

lemma blocked_post_mono:
  assumes "blocked_post t R M k s1 r s'" "i3_tr s1 = i3_tr s" "i3_init_constraints s1 = i3_init_constraints s" "grows (i3_trace s) (i3_trace s1)"
  shows "blocked_post t R M k s r s'"
  using assms grows_trans[OF assms(4)] by (simp add: blocked_post_def)

lemma bad_cube: "[tr_bad (baseTR t)] \<in> ic3_cubes t"
  by (simp add: ic3_cubes_def)

lemma unreached_excl: "unreached t R L c \<Longrightarrow> 1 \<le> L \<Longrightarrow> excl t R c"
  unfolding unreached_def excl_def by (metis One_nat_def Suc_le_lessD reach.simps(1))

text \<open>The new obligation of a cube that is not blocked.\<close>

lemma child_ok:
  assumes ok: "i3_ok t R M s" and p: "pool_ok t R k b p" and i: "i < length p" "b \<le> i" and L: "po_level (p ! i) = L" "1 \<le> L"
    and r: "block_post t R (i3_trace s) (po_cti (p ! i)) L r" "\<not> br_blocked r"
  defines "ob \<equiv> \<lparr>po_level = L - 1, po_cti = sort (br_cti r), po_concrete_state = br_concrete_state r, po_inputs = br_inputs r, po_may_degree = 0, po_parent = Some i\<rparr>"
  shows "obl_ok t R k b p (length p) ob" "\<not> covered (i3_trace s) (sort (br_cti r)) (L - 1)" "input_cube t (br_primed_inputs r)"
proof -
  let ?T = "i3_trace s"
  have obi: "po_level (p ! i) \<le> k" "unreached t R L (po_cti (p ! i))" using p i L(1) by (auto simp: pool_ok_def obl_ok_def)
  note rr = mp[OF conjunct2[OF r(1)[unfolded block_post_def]] r(2)]
  have c: "distinct (br_cti r)" "br_cti r \<noteq> []" "set (br_cti r) \<subseteq> set (br_concrete_state r)" "strip ` set (br_concrete_state r) \<subseteq> latches"
    "strip ` set (br_inputs r) \<subseteq> set (tr_inputIDs (baseTR t))" "strip ` set (br_primed_inputs r) \<subseteq> set (tr_inputIDs (baseTR t))"
    using r by (simp_all add: block_post_def)
  have "\<exists>w w'. tr_trans t w w' \<and> in_frame ?T (enat (L - 1)) w \<and> cube_sat w (br_concrete_state r) \<and> cube_sat w (br_inputs r) \<and> cube_sat w' (br_primed_inputs r)"
    using rr by (elim conjE) assumption
  then obtain w w' where w: "tr_trans t w w'" "in_frame ?T (enat (L - 1)) w" "cube_sat w (br_concrete_state r)" "cube_sat w (br_inputs r)" "cube_sat w' (br_primed_inputs r)"
    by blast
  have l: "\<forall>w w'. tr_trans t w w' \<longrightarrow> in_frame ?T \<infinity> w \<longrightarrow> cube_sat w (br_cti r @ br_inputs r) \<longrightarrow> cube_sat w' (br_primed_inputs r) \<longrightarrow> cube_sat w' (po_cti (p ! i))"
    using rr by (elim conjE) assumption
  have cw: "const_ok w" "const_ok w'" using w(1) by (simp_all add: tr_trans_def)
  have la: "strip ` set (sort (br_cti r)) \<subseteq> latches" using c(3,4) by auto
  have ne: "sort (br_cti r) \<noteq> []" using c(2) by (metis set_empty set_sort)
  have u: "sort (br_cti r) \<in> ic3_cubes t" using la c(1) ne by (simp add: ic3_cubes_def)
  have ic: "input_cube t (br_inputs r)" "input_cube t (br_primed_inputs r)" using c(5,6) w(4,5) cw by (auto simp: input_cube_def)
  show "input_cube t (br_primed_inputs r)" by (rule ic(2))
  have wc: "cube_sat w (sort (br_cti r))" using cube_sat_sub[OF c(3) w(3)] by simp
  show "\<not> covered ?T (sort (br_cti r)) (L - 1)"
  proof
    assume "covered ?T (sort (br_cti r)) (L - 1)"
    then obtain d N where d: "it_lev ?T d = Some N" "enat (L - 1) \<le> N" "set d \<subseteq> set (sort (br_cti r))" unfolding covered_def by blast
    then have "\<not> cube_sat w d" using w(2) unfolding in_frame_def by blast
    then show False using cube_sat_sub[OF d(3) wc] by simp
  qed
  have le: "leads t R (sort (br_cti r)) (br_inputs r) (po_cti (p ! i))"
    unfolding leads_def
  proof (intro exI[of _ "br_primed_inputs r"] conjI ic(2) allI impI)
    fix n w w' assume x: "reach t R n w" "tr_trans t w w'" "cube_sat w (sort (br_cti r) @ br_inputs r)" "cube_sat w' (br_primed_inputs r)"
    have "in_frame ?T \<infinity> w" by (rule reach_frame[OF i3_okD(4)[OF ok] x(1)]) simp
    then show "cube_sat w' (po_cti (p ! i))" using l[rule_format, OF x(2) _ _ x(4)] x(3) by (simp add: cube_sat_append)
  qed
  have "unreached t R (L - 1) (sort (br_cti r))" by (rule leads_unreached[OF le la ic(1)]) (use obi(2) L(2) in simp)
  moreover have "begins t R ob" if "L - 1 = 0"
  proof -
    have "in_frame ?T 0 w" using w(2) that by (simp add: zero_enat_def)
    then have "starts t R w" using frame_0[OF i3_okD(4)[OF ok] wf w(1)] by simp
    then show ?thesis using w(1,3,4) wc unfolding begins_def ob_def by auto
  qed
  ultimately show "obl_ok t R k b p (length p) ob"
    using u ic(1) c(4) la le i obi(1) L unfolding obl_ok_def by (simp add: ob_def)
qed

end

context ic3_setting
begin

lemma queue_okD:
  assumes "queue_ok t R b M k s q"
  shows "i3_ok t R M s" "pool_ok t R k b (i3_obls s)" "set q \<subseteq> {b..<length (i3_obls s)}" "k + 1 \<le> M"
    "(\<exists>i\<in>set q. po_parent (i3_obls s ! i) = None) \<or> covered (i3_trace s) [tr_bad (baseTR t)] k"
  using assms by (simp_all add: queue_ok_def)

lemma queue_ok_query: "queue_ok t R b M k s q \<Longrightarrow> i3_ok t R M s' \<Longrightarrow> i3_query s s' \<Longrightarrow> queue_ok t R b M k s' q"
  by (simp add: queue_ok_def i3_query_def)

text \<open>The obligation on top of the queue.\<close>

lemma queue_top:
  assumes Q: "queue_ok t R b M k s (x # xs)" and i: "i = pq_top (obl_at (i3_obls s)) x xs"
  shows "i < length (i3_obls s)" "i \<in> set (x # xs)" "obl_ok t R k b (i3_obls s) i (i3_obls s ! i)"
    "\<And>y. y \<in> set (remove1 i (x # xs)) \<Longrightarrow> po_level (i3_obls s ! i) \<le> po_level (i3_obls s ! y)"
    "length (remove1 i (x # xs)) = length xs" "set (remove1 i (x # xs)) \<subseteq> {b..<length (i3_obls s)}"
    "queue_rank (i3_trace s) k (i3_obls s) (x # xs)
       = Suc (length xs) + (if covered (i3_trace s) (po_cti (i3_obls s ! i)) (po_level (i3_obls s ! i)) then 2 * k + 1 else 2 * po_level (i3_obls s ! i))"
    "b \<le> i"
proof -
  show m: "i \<in> set (x # xs)" unfolding i by (rule top_props(1))
  then have "i \<in> {b..<length (i3_obls s)}" using queue_okD(3)[OF Q] by blast
  then show l: "i < length (i3_obls s)" "b \<le> i" by simp_all
  show "obl_ok t R k b (i3_obls s) i (i3_obls s ! i)" using queue_okD(2)[OF Q] l by (simp add: pool_ok_def)
  show "po_level (i3_obls s ! i) \<le> po_level (i3_obls s ! y)" if "y \<in> set (remove1 i (x # xs))" for y
    unfolding i by (rule top_props(2)) (use that notin_set_remove1 in fast)
  show "length (remove1 i (x # xs)) = length xs" using m length_remove1[of i "x # xs"] by simp
  show "set (remove1 i (x # xs)) \<subseteq> {b..<length (i3_obls s)}" using queue_okD(3)[OF Q] set_remove1_subset by fastforce
  show "queue_rank (i3_trace s) k (i3_obls s) (x # xs)
       = Suc (length xs) + (if covered (i3_trace s) (po_cti (i3_obls s ! i)) (po_level (i3_obls s ! i)) then 2 * k + 1 else 2 * po_level (i3_obls s ! i))"
    by (simp add: queue_rank_def Let_def i)
qed

text \<open>A covered obligation leaves the queue.\<close>

lemma queue_drop:
  assumes Q: "queue_ok t R b M k s (x # xs)" and i: "i = pq_top (obl_at (i3_obls s)) x xs"
    and cov: "covered (i3_trace s) (po_cti (i3_obls s ! i)) (po_level (i3_obls s ! i))"
  shows "queue_ok t R b M k s (remove1 i (x # xs))"
    "queue_fuel t (i3_trace s) k (i3_obls s) (remove1 i (x # xs)) < queue_fuel t (i3_trace s) k (i3_obls s) (x # xs)"
proof -
  note top = queue_top[OF Q i]
  have "(\<exists>j\<in>set (remove1 i (x # xs)). po_parent (i3_obls s ! j) = None) \<or> covered (i3_trace s) [tr_bad (baseTR t)] k"
  proof (cases "po_parent (i3_obls s ! i) = None")
    case True
    then have "po_cti (i3_obls s ! i) = [tr_bad (baseTR t)]" "po_level (i3_obls s ! i) = k" using top(3) by (simp_all add: obl_ok_def)
    then show ?thesis using cov by simp
  next
    case False
    then show ?thesis using queue_okD(5)[OF Q] in_set_remove1 by metis
  qed
  then show "queue_ok t R b M k s (remove1 i (x # xs))" using queue_okD[OF Q] top(6) by (simp add: queue_ok_def)
  have "queue_rank (i3_trace s) k (i3_obls s) (remove1 i (x # xs)) \<le> length xs + 2 * k + 1"
    using queue_rank_le[OF queue_okD(2)[OF Q] top(6)] top(5) by simp
  then show "queue_fuel t (i3_trace s) k (i3_obls s) (remove1 i (x # xs)) < queue_fuel t (i3_trace s) k (i3_obls s) (x # xs)"
    using top(7) cov by (simp add: queue_fuel_def)
qed

text \<open>A blocked obligation leaves the queue or goes to the next level.\<close>

lemma queue_blocked:
  assumes Q: "queue_ok t R b M k s (x # xs)" and i: "i = pq_top (obl_at (i3_obls s)) x xs" and ob: "ob = i3_obls s ! i" "po_level ob = L" "1 \<le> L"
    and nc: "\<not> covered (i3_trace s) (po_cti ob) L" and c: "set c \<subseteq> set (po_cti ob)"
    and s': "i3_ok t R M s'" "i3_moved s c (enat L) s'" "grows (i3_trace s) (i3_trace s')"
  shows "\<not> L < k \<Longrightarrow> queue_ok t R b M k s' (remove1 i (x # xs)) \<and> queue_fuel t (i3_trace s') k (i3_obls s') (remove1 i (x # xs)) < queue_fuel t (i3_trace s) k (i3_obls s) (x # xs)"
    "L < k \<Longrightarrow> p' = (i3_obls s')[i := ob\<lparr>po_level := L + 1\<rparr>] \<Longrightarrow> q' = i # remove1 i (x # xs)
       \<Longrightarrow> queue_ok t R b M k (s'\<lparr>i3_obls := p'\<rparr>) q' \<and> queue_fuel t (i3_trace s') k p' q' < queue_fuel t (i3_trace s) k (i3_obls s) (x # xs)"
proof -
  note top = queue_top[OF Q i]
  have p: "i3_obls s' = i3_obls s" using s'(2) by (simp add: i3_moved_def)
  have oi: "obl_ok t R k b (i3_obls s) i ob" using top(3) ob(1) by simp
  have lc: "it_lev (i3_trace s') c = Some (enat L)" using s'(2) by (simp add: i3_moved_def)
  have cov: "covered (i3_trace s') (po_cti ob) L" using lc c unfolding covered_def by blast
  have lt: "card (uncovered t (i3_trace s') k) < card (uncovered t (i3_trace s) k)"
  proof (rule psubset_card_mono[OF uncovered_finite], rule psubsetI[OF uncovered_grows[OF s'(3)]])
    have "(po_cti ob, L) \<in> uncovered t (i3_trace s) k" using nc oi ob(2,3) by (simp add: uncovered_def obl_ok_def)
    moreover have "(po_cti ob, L) \<notin> uncovered t (i3_trace s') k" using cov by (simp add: uncovered_def)
    ultimately show "uncovered t (i3_trace s') k \<noteq> uncovered t (i3_trace s) k" by blast
  qed
  have rank: "queue_fuel t (i3_trace s') k p' q' < queue_fuel t (i3_trace s) k (i3_obls s) (x # xs)"
    if "pool_ok t R k b p'" "set q' \<subseteq> {b..<length p'}" "length q' \<le> Suc (length xs)" for p' q'
  proof -
    have "queue_rank (i3_trace s') k p' q' \<le> length xs + 2 * k + 2" using queue_rank_le[OF that(1,2), of "i3_trace s'"] that(3) by linarith
    moreover have "Suc (length xs) + 2 \<le> queue_rank (i3_trace s) k (i3_obls s) (x # xs)" using top(7) ob nc by simp
    moreover have "card (uncovered t (i3_trace s') k) * (2 * k + 2) + (2 * k + 2) \<le> card (uncovered t (i3_trace s) k) * (2 * k + 2)"
      using mult_le_mono1[OF Suc_leI[OF lt], of "2 * k + 2"] unfolding mult_Suc by linarith
    ultimately show ?thesis unfolding queue_fuel_def by linarith
  qed
  note pp = queue_okD(2)[OF Q]
  show "queue_ok t R b M k s' (remove1 i (x # xs)) \<and> queue_fuel t (i3_trace s') k (i3_obls s') (remove1 i (x # xs)) < queue_fuel t (i3_trace s) k (i3_obls s) (x # xs)" if n: "\<not> L < k"
  proof
    have "(\<exists>j\<in>set (remove1 i (x # xs)). po_parent (i3_obls s' ! j) = None) \<or> covered (i3_trace s') [tr_bad (baseTR t)] k"
    proof (cases "po_parent ob = None")
      case True
      then have "po_cti ob = [tr_bad (baseTR t)]" "po_level ob = k" using oi by (simp_all add: obl_ok_def)
      then show ?thesis using cov ob(2) by simp
    next
      case False
      then show ?thesis using queue_okD(5)[OF Q] in_set_remove1 covered_grows[OF s'(3)] unfolding p ob(1) by metis
    qed
    then show "queue_ok t R b M k s' (remove1 i (x # xs))" using queue_okD[OF Q] s'(1) top(6) p by (simp add: queue_ok_def)
    show "queue_fuel t (i3_trace s') k (i3_obls s') (remove1 i (x # xs)) < queue_fuel t (i3_trace s) k (i3_obls s) (x # xs)"
      by (rule rank) (use pp top(5,6) p in simp_all)
  qed
  show "queue_ok t R b M k (s'\<lparr>i3_obls := p'\<rparr>) q' \<and> queue_fuel t (i3_trace s') k p' q' < queue_fuel t (i3_trace s) k (i3_obls s) (x # xs)"
    if Lk: "L < k" and p': "p' = (i3_obls s')[i := ob\<lparr>po_level := L + 1\<rparr>]" and q': "q' = i # remove1 i (x # xs)"
  proof
    have ni: "po_parent ob \<noteq> None" using oi Lk ob(2) by (cases "po_parent ob") (auto simp: obl_ok_def)
    have "unreached t R (L + 1) (po_cti ob)"
      unfolding unreached_def
    proof (intro allI impI)
      fix n w assume n: "reach t R n w" "n < L + 1"
      have "in_frame (i3_trace s') (enat L) w" by (rule reach_frame[OF i3_okD(4)[OF s'(1)] n(1)]) (use n(2) in simp)
      then have "\<not> cube_sat w c" using lc unfolding in_frame_def by blast
      then show "\<not> cube_sat w (po_cti ob)" using cube_sat_sub[OF c] by blast
    qed
    then have "obl_ok t R k b (i3_obls s) i (ob\<lparr>po_level := L + 1\<rparr>)" using oi ni Lk by (auto simp: obl_ok_def)
    then have pk: "pool_ok t R k b p'" unfolding p' p by (rule pool_ok_upd[OF pp top(1)]) (use ob(1) in simp)
    have sub: "set q' \<subseteq> {b..<length p'}" using top(1,6,8) unfolding q' p' p by simp
    have par: "po_parent (p' ! j) = po_parent (i3_obls s ! j)" for j
      unfolding p' p using ob(1) top(1) by (cases "j = i") simp_all
    have "set (x # xs) \<subseteq> set q'" unfolding q' using in_set_remove1 by fastforce
    then have "(\<exists>j\<in>set q'. po_parent (p' ! j) = None) \<or> covered (i3_trace s') [tr_bad (baseTR t)] k"
      unfolding par using queue_okD(5)[OF Q] covered_grows[OF s'(3)] by blast
    then show "queue_ok t R b M k (s'\<lparr>i3_obls := p'\<rparr>) q'" using queue_okD(4)[OF Q] s'(1) pk sub by (simp add: queue_ok_def)
    show "queue_fuel t (i3_trace s') k p' q' < queue_fuel t (i3_trace s) k (i3_obls s) (x # xs)"
      by (rule rank[OF pk sub]) (use top(5) q' in simp)
  qed
qed

text \<open>A cube that is not blocked brings a new obligation below it.\<close>

lemma queue_child:
  assumes Q: "queue_ok t R b M k s (x # xs)" and i: "i = pq_top (obl_at (i3_obls s)) x xs" and ob: "ob = i3_obls s ! i" "po_level ob = L" "1 \<le> L"
    and nc: "\<not> covered (i3_trace s) (po_cti ob) L" and r: "block_post t R (i3_trace s) (po_cti ob) L r" "\<not> br_blocked r"
    and ch: "ch = \<lparr>po_level = L - 1, po_cti = sort (br_cti r), po_concrete_state = br_concrete_state r, po_inputs = br_inputs r, po_may_degree = 0, po_parent = Some i\<rparr>"
    and p': "p' = (i3_obls s @ [ch])[i := (if po_inputs ob = [] then ob\<lparr>po_inputs := br_primed_inputs r\<rparr> else ob)]"
    and q': "q' = i # length (i3_obls s) # remove1 i (x # xs)"
  shows "queue_ok t R b M k (s\<lparr>i3_obls := p'\<rparr>) q' \<and> queue_fuel t (i3_trace s) k p' q' < queue_fuel t (i3_trace s) k (i3_obls s) (x # xs)"
proof
  note top = queue_top[OF Q i] and pp = queue_okD(2)[OF Q]
  let ?p = "i3_obls s"
  let ?ob' = "if po_inputs ob = [] then ob\<lparr>po_inputs := br_primed_inputs r\<rparr> else ob"
  have oi: "obl_ok t R k b ?p i ob" using top(3) ob(1) by simp
  have L: "po_level (?p ! i) = L" "\<not> covered (i3_trace s) (po_cti (?p ! i)) L" using ob nc by simp_all
  note c = child_ok[OF queue_okD(1)[OF Q] pp top(1,8) L(1) ob(3) r(1)[unfolded ob(1)] r(2)]
  have pn: "pool_ok t R k b (?p @ [ch])" unfolding ch by (rule pool_ok_new[OF pp c(1)])
  have "obl_ok t R k b ?p i ?ob'"
  proof (cases "po_inputs ob = []")
    case True
    have le: "leads t R c [] d \<Longrightarrow> leads t R c (br_primed_inputs r) d" for c d by (rule leads_more) simp_all
    show ?thesis using oi ob(2,3) c(3) True le unfolding obl_ok_def by (auto split: option.splits)
  qed (use oi in simp)
  moreover have "obl_ok t R k b ?p i ?ob' = obl_ok t R k b (?p @ [ch]) i ?ob'"
    by (rule obl_ok_cong) (use top(1) in \<open>simp add: nth_append\<close>)
  ultimately have obn: "obl_ok t R k b (?p @ [ch]) i ?ob'" by simp
  have pk: "pool_ok t R k b p'" unfolding p' by (rule pool_ok_upd[OF pn _ obn]) (use top(1) ob(1) in \<open>simp_all add: nth_append\<close>)
  have len: "length p' = Suc (length ?p)" by (simp add: p')
  have sub: "set q' \<subseteq> {b..<length p'}" unfolding q' len using top(1,6,8) by auto
  have same: "po_parent (p' ! j) = po_parent (?p ! j) \<and> po_level (p' ! j) = po_level (?p ! j)" if "j < length ?p" for j
    unfolding p' using ob(1) that by (cases "j = i") (simp_all add: nth_append)
  have nj: "p' ! length ?p = ch" unfolding p' using top(1) by (simp add: nth_append)
  have "set (x # xs) \<subseteq> set q'" unfolding q' using in_set_remove1 by fastforce
  moreover have "po_parent (p' ! j) = po_parent (?p ! j)" if "j \<in> set (x # xs)" for j
    using that same queue_okD(3)[OF Q] by auto
  ultimately have "(\<exists>j\<in>set q'. po_parent (p' ! j) = None) \<or> covered (i3_trace s) [tr_bad (baseTR t)] k"
    using queue_okD(5)[OF Q] by (metis subsetD)
  then show "queue_ok t R b M k (s\<lparr>i3_obls := p'\<rparr>) q'" using queue_okD(1,4)[OF Q] pk sub by (simp add: queue_ok_def)
  have "pq_top (obl_at p') i (length ?p # remove1 i (x # xs)) = length ?p"
  proof (rule top_new)
    fix y assume y: "y \<in> set (i # length ?p # remove1 i (x # xs))" "y \<noteq> length ?p"
    have yl: "y < length ?p" using y top(1,6) by auto
    have "L \<le> po_level (?p ! y)" using y top(4) L(1) by auto
    then show "po_level (p' ! length ?p) < po_level (p' ! y)" using same[OF yl] nj ob(3) ch by simp
  qed simp
  then have "queue_rank (i3_trace s) k p' q' = Suc (Suc (length xs)) + 2 * (L - 1)"
    using c(2) nj ch top(5) unfolding queue_rank_def q' list.case Let_def by simp
  then show "queue_fuel t (i3_trace s) k p' q' < queue_fuel t (i3_trace s) k ?p (x # xs)"
    using top(7) L ob(3) by (simp add: queue_fuel_def)
qed

lemma rb_loop_wp:
  assumes "queue_ok t R b M k s q" "queue_fuel t (i3_trace s) k (i3_obls s) q \<le> fuel"
  shows "wp (rb_loop B opt fuel k q) (blocked_post t R M k s) s"
  using assms
proof (induction fuel arbitrary: s q)
  case 0
  show ?case
  proof (cases q)
    case Nil
    then show ?thesis using 0(1) by (auto simp: queue_ok_def blocked_post_def)
  next
    case (Cons x xs)
    have "0 < queue_rank (i3_trace s) k (i3_obls s) q" unfolding Cons queue_rank_def list.case Let_def by simp
    then show ?thesis using 0(2) by (simp add: queue_fuel_def)
  qed
next
  case (Suc fuel)
  show ?case
  proof (cases q)
    case Nil
    then show ?thesis using Suc.prems(1) by (auto simp: queue_ok_def blocked_post_def)
  next
    case (Cons x xs)
    note Q = Suc.prems(1)[unfolded Cons] and F = Suc.prems(2)[unfolded Cons]
    define i where "i = pq_top (obl_at (i3_obls s)) x xs"
    define ob where "ob = i3_obls s ! i"
    define L where "L = po_level ob"
    note top = queue_top[OF Q i_def]
    have at: "atR (i3_obls s) i = Inr ob" using top(1) by (simp add: atR_def ob_def)
    have oi: "po_may_degree ob = 0" "po_cti ob \<in> ic3_cubes t" "unreached t R L (po_cti ob)" using top(3) by (simp_all add: obl_ok_def ob_def L_def)
    note cD = ic3_cubeD[OF oi(2)] and ok = queue_okD(1)[OF Q]
    show ?thesis
      unfolding Cons rb_loop.simps wp_bindS wp_getS Let_def i_def[symmetric] wp_liftS at wpr_Inr wp_thenS wp_assertS L_def[symmetric]
    proof (intro conjI oi(1) cD(3), goal_cases)
      case 1
      show ?case
      proof (cases "L = 0")
        case True
        obtain cex where cex: "i3_buildCex s i = Inr cex" "cex_ok t R cex"
          using buildCex_ok[OF queue_okD(2)[OF Q] top(1,8)] True by (auto simp: L_def ob_def)
        show ?thesis
          unfolding wp_if if_P[OF True] using cex ok by (auto simp: blocked_post_def)
      next
        case False
        then have L1: "1 \<le> L" by simp
        have sb: "syntacticBlock (i3_trace s) (po_cti ob) L = Inr (covered (i3_trace s) (po_cti ob) L)" by (rule syntacticBlock_ok[OF ok oi(2) L1])
        show ?thesis
        proof (cases "covered (i3_trace s) (po_cti ob) L")
          case True
          note d = queue_drop[OF Q i_def True[unfolded L_def ob_def]]
          have "wp (rb_loop B opt fuel k (remove1 i (x # xs))) (blocked_post t R M k s) s"
            by (rule Suc.IH[OF d(1)]) (use d(2) F in linarith)
          then show ?thesis using False True by (simp add: sb)
        next
          case nc: False
          have ex: "excl t R (po_cti ob)" by (rule unreached_excl[OF oi(3) L1])
          show ?thesis
            unfolding wp_if if_not_P[OF False] wp_bindS wp_liftS sb wpr_Inr if_not_P[OF nc]
          proof (rule wp_mono[OF i3_block_wp[OF ok oi(2) ex L1]], elim conjE, goal_cases)
            case (1 r s1)
            have q1: "i3_obls s1 = i3_obls s" "i3_trace s1 = i3_trace s" "i3_tr s1 = i3_tr s" "i3_init_constraints s1 = i3_init_constraints s"
              using 1(2) by (simp_all add: i3_query_def)
            have Q1: "queue_ok t R b M k s1 (x # xs)" by (rule queue_ok_query[OF Q 1(1,2)])
            have i1: "i = pq_top (obl_at (i3_obls s1)) x xs" "ob = i3_obls s1 ! i" "po_level ob = L" using q1(1) by (simp_all add: i_def ob_def L_def)
            have nc1: "\<not> covered (i3_trace s1) (po_cti ob) L" using nc q1(2) by simp
            have F1: "queue_fuel t (i3_trace s1) k (i3_obls s1) (x # xs) \<le> Suc fuel" using F q1 by simp
            show ?case
            proof (cases "br_blocked r")
              case True
              have b: "br_level r = L" "candidate t R (i3_trace s) (enat (L - 1)) (br_cti r)" "set (br_cti r) \<subseteq> set (po_cti ob)"
                using mp[OF conjunct1[OF 1(3)[unfolded block_post_def]] True] by simp_all
              have u: "br_cti r \<in> ic3_cubes t"
                by (rule ic3_cubes_sub[OF oi(2) b(3)]) (use b(2) in \<open>simp_all add: candidate_def\<close>)
              have up: "N \<le> enat L" if "it_lev (i3_trace s1) (br_cti r) = Some N" for N
                using nc1 that b(3) unfolding covered_def by (metis linear)
              have "L \<le> k" using top(3) by (simp add: obl_ok_def ob_def L_def)
              then have n: "frames_upto (it_numFrames (i3_trace s1)) (enat L) \<le> M"
                using i3_okD(5)[OF 1(1)] queue_okD(4)[OF Q] by (simp add: frames_upto_def trace_ok_def)
              have le: "enat (L - 1) = enat L - 1" by (simp add: one_enat_def)
              show ?thesis
                unfolding wp_if if_P[OF True] wp_thenS wp_assertS b(1) wp_bindS
              proof (intro conjI order_refl, rule wp_mono[OF i3_addLemma_wp[OF 1(1) b(2)[folded q1(2)] u le up n]], assumption, elim conjE, goal_cases)
                case g: (1 l s2)
                note qb = queue_blocked[OF Q1 i1 L1 nc1 b(3) g(1,2,3)]
                have m: "i3_obls s2 = i3_obls s" "i3_tr s2 = i3_tr s" "i3_init_constraints s2 = i3_init_constraints s" "grows (i3_trace s) (i3_trace s2)"
                  using g(2,3) q1 by (simp_all add: i3_moved_def)
                show ?case
                proof (cases "L < k")
                  case False
                  note q2 = qb(1)[OF False]
                  have "wp (rb_loop B opt fuel k (remove1 i (x # xs))) (blocked_post t R M k s2) s2"
                    by (rule Suc.IH) (use q2 F1 in linarith)+
                  then show ?thesis
                    unfolding wp_if if_not_P[OF False] by (rule wp_mono) (rule blocked_post_mono[OF _ m(2-4)])
                next
                  case lt: True
                  let ?p = "(i3_obls s2)[i := ob\<lparr>po_level := L + 1\<rparr>]"
                  let ?s = "s2\<lparr>i3_obls := ?p\<rparr>"
                  note q2 = qb(2)[OF lt refl refl]
                  have "wp (rb_loop B opt fuel k (i # remove1 i (x # xs))) (blocked_post t R M k ?s) ?s"
                    by (rule Suc.IH) (use q2 F1 in \<open>simp_all del: remove1.simps\<close>)
                  then have "wp (rb_loop B opt fuel k (i # remove1 i (x # xs))) (blocked_post t R M k s) ?s"
                    by (rule wp_mono) (rule blocked_post_mono, assumption, use m in simp_all)
                  then show ?thesis
                    unfolding wp_if if_P[OF lt] i3_updateObligation_def wp_thenS wp_modifyS m(1) ob_def by simp
                qed
              qed
            next
              case nb: False
              let ?ch = "\<lparr>po_level = L - 1, po_cti = sort (br_cti r), po_concrete_state = br_concrete_state r, po_inputs = br_inputs r, po_may_degree = 0, po_parent = Some i\<rparr>"
              let ?p = "(i3_obls s1 @ [?ch])[i := (if po_inputs ob = [] then ob\<lparr>po_inputs := br_primed_inputs r\<rparr> else ob)]"
              let ?q = "i # length (i3_obls s1) # remove1 i (x # xs)"
              let ?s = "s1\<lparr>i3_obls := ?p\<rparr>"
              note q2 = queue_child[OF Q1 i1 L1 nc1 1(3)[folded q1(2)] nb refl refl refl]
              have "wp (rb_loop B opt fuel k ?q) (blocked_post t R M k ?s) ?s"
                by (rule Suc.IH) (use q2 F1 in \<open>simp_all del: remove1.simps\<close>)
              then have w: "wp (rb_loop B opt fuel k ?q) (blocked_post t R M k s) ?s"
                by (rule wp_mono) (rule blocked_post_mono, assumption, use q1 grows_refl in simp_all)
              have at1: "(i3_obls s1 @ [?ch]) ! i = ob" using top(1) q1(1) by (simp add: nth_append ob_def)
              show ?thesis
                unfolding wp_if if_not_P[OF nb] wp_bindS i3_newObligation_def wp_getS wp_thenS wp_modifyS wp_retS i3_updateObligation_def
                using w at1 by (simp del: remove1.simps One_nat_def split del: if_split cong: if_cong)
            qed
          qed
        qed
      qed
    qed
  qed
qed

end

end
