(* ===== verification/Ic3Prove.thy ===== *)
theory Ic3Prove
  imports Ic3Block
begin

text \<open>
  The main loop: the frames grow until the target is proved or a counterexample is found; the set-up of
  the initial states; a whole run (\<open>i3_run_wp\<close>).  \<open>ic3_fuel N\<close> is enough fuel for \<open>N\<close> cubes: at most
  \<open>N + 1\<close> rounds, and in round \<open>k\<close> at most \<open>N * k * (2 * k + 2) + 2 * k + 2\<close> obligations.
\<close>

text \<open>Enough fuel when there are \<open>N\<close> cubes.\<close>

definition ic3_fuel :: "nat \<Rightarrow> nat" where
  "ic3_fuel N = (N * (N + 1) + 1) * (2 * N + 4)"

lemma ic3_fuel_le:
  assumes "k \<le> N + 1"
  shows "N * k * (2 * k + 2) + 2 * k + 2 \<le> ic3_fuel N" "N + 2 \<le> ic3_fuel N"
proof -
  have "N * k * (2 * k + 2) \<le> N * (N + 1) * (2 * N + 4)" using assms by (intro mult_le_mono) auto
  then show "N * k * (2 * k + 2) + 2 * k + 2 \<le> ic3_fuel N" using assms by (simp add: ic3_fuel_def)
  show "N + 2 \<le> ic3_fuel N" by (simp add: ic3_fuel_def)
qed

lemma frame_clauses:
  assumes T: "it_inv T"
  shows "wpr (mapR (\<lambda>i. bindR (it_cubeOf T i) (\<lambda>cube. Inr (negateVec cube))) (sorted_list_of_set (frame_at (it_frames T) L)))
    (\<lambda>pf. set pf = negateVec ` {c. it_lev T c = Some L})"
proof -
  let ?f = "\<lambda>i. bindR (it_cubeOf T i) (\<lambda>cube. Inr (negateVec cube))"
  have loop: "wpr (mapR ?f ids) (\<lambda>pf. set pf = negateVec ` {c. \<exists>i\<in>set ids. it_is T i c L})" if "\<forall>i\<in>set ids. \<exists>c. it_is T i c L" for ids
    using that
  proof (induction ids)
    case (Cons i ids)
    then obtain c where c: "it_is T i c L" by auto
    have u: "it_is T i d L \<longleftrightarrow> d = c" for d using c by (auto simp: it_is_def)
    obtain pf where pf: "mapR ?f ids = Inr pf" "set pf = negateVec ` {c. \<exists>i\<in>set ids. it_is T i c L}"
      using Cons by (auto simp: wpr_iff)
    have "{c. \<exists>j\<in>set (i # ids). it_is T j c L} = insert c {c. \<exists>j\<in>set ids. it_is T j c L}" using u by auto
    then show ?case using pf it_is_get(2)[OF T c] by (simp add: wpr_iff)
  qed simp
  have ids: "set (sorted_list_of_set (frame_at (it_frames T) L)) = frame_at (it_frames T) L" using frame_finite[OF T] by simp
  have e: "(\<exists>i\<in>frame_at (it_frames T) L. it_is T i c L) \<longleftrightarrow> it_lev T c = Some L" for c
    using frame_mem[OF T] it_lev_is[OF T] by blast
  have all: "\<forall>i\<in>set (sorted_list_of_set (frame_at (it_frames T) L)). \<exists>c. it_is T i c L" unfolding ids using frame_mem[OF T] by blast
  show ?thesis using loop[OF all] unfolding ids e .
qed

definition safe_frame :: "anyTR \<Rightarrow> inductiveTrace \<Rightarrow> bool" where
  "safe_frame t T = (\<forall>w w'. tr_trans t w w' \<longrightarrow> in_frame T \<infinity> w \<longrightarrow> \<not> cube_sat w [tr_bad (baseTR t)])"

context ic3_setting
begin

lemma bad_V: "strip ` set [tr_bad (baseTR t)] \<subseteq> V"
  using ic3_cubeD(5)[OF bad_cube] .

lemma i3_recordProof_wp:
  assumes ok: "i3_ok t R M s"
  shows "wp i3_recordProof (\<lambda>pf s'. s' = s \<and> (\<forall>w. cnf_sat w pf \<longleftrightarrow> in_frame (i3_trace s) \<infinity> w) \<and> set pf \<subseteq> negateVec ` ic3_cubes t) s"
proof -
  let ?T = "i3_trace s"
  have T: "it_inv ?T" by (rule i3_okD(6)[OF ok])
  have g: "it_getFrame ?T LEVEL_INF = Inr (frame_at (it_frames ?T) \<infinity>)" unfolding LEVEL_INF_def by (rule frame_get) simp
  have "cnf_sat w pf \<longleftrightarrow> in_frame ?T \<infinity> w" if "set pf = negateVec ` {c. it_lev ?T c = Some \<infinity>}" for pf w
    using that by (auto simp: cnf_sat_def in_frame_def clause_sat_negateVec)
  moreover have "{c. it_lev ?T c = Some \<infinity>} \<subseteq> ic3_cubes t" using lemmas_okD(4)[OF i3_okD(4)[OF ok]] by auto
  ultimately show ?thesis
    unfolding i3_recordProof_def wp_bindS wp_getS wp_liftS g wpr_Inr
    by (intro wpr_mono[OF frame_clauses[OF T]]) blast
qed

lemma i3_isSafe_wp:
  assumes ok: "i3_ok t R M s"
  shows "wp (i3_isSafe B opt [tr_bad (baseTR t)]) (\<lambda>b s'. i3_ok t R M s' \<and> i3_query s s' \<and> (b \<longrightarrow> safe_frame t (i3_trace s'))) s"
proof -
  let ?b = "[tr_bad (baseTR t)]" and ?T = "i3_trace s"
  have rest: "wp (bindS (i3_onCons (\<lambda>T. fs_intersection B opt T LEVEL_INF ?b)) (\<lambda>b. retS (\<not> b)))
     (\<lambda>b s'. i3_ok t R M s' \<and> i3_query s s' \<and> (b \<longrightarrow> safe_frame t (i3_trace s'))) s"
    unfolding wp_bindS wp_retS
    by (rule wp_mono[OF i3_intersection_wp[OF ok _ bad_V]]) (auto simp: safe_frame_def i3_query_def LEVEL_INF_def)
  show ?thesis
  proof (cases "it_cubeToID ?T ?b")
    case None
    then show ?thesis using rest by (simp add: i3_isSafe_def it_lemmaExists_def)
  next
    case (Some i)
    have i: "i < length (it_lemmas ?T)" "ld_cube (it_lemmas ?T ! i) = ?b" using it_invD(1)[OF i3_okD(6)[OF ok]] Some by simp_all
    have g: "it_getLemma ?T ?b = Inr (it_lemmas ?T ! i)" using Some i(1) by (simp add: it_getLemma_def it_IDOf_def it_getLemmaID_def atR_def)
    have "\<not> ld_deleted (it_lemmas ?T ! i)" using i3_okD(7)[OF ok] i(1) by (simp add: it_live_def)
    then have l: "it_lev ?T ?b = Some (ld_level (it_lemmas ?T ! i))" using Some by (simp add: it_lev_def)
    show ?thesis
    proof (cases "ld_level (it_lemmas ?T ! i) = LEVEL_INF")
      case True
      then have "safe_frame t ?T" using l by (auto simp: safe_frame_def in_frame_def LEVEL_INF_def)
      then show ?thesis using Some g True ok by (auto simp: i3_isSafe_def it_lemmaExists_def)
    next
      case False
      then show ?thesis using rest Some g by (simp add: i3_isSafe_def it_lemmaExists_def)
    qed
  qed
qed

lemma i3_checkInitial_wp:
  assumes ok: "i3_ok t R M s"
  shows "wp (i3_checkInitial B opt [tr_bad (baseTR t)]) (\<lambda>r s'. i3_ok t R M s' \<and> i3_query s s'
     \<and> (if fst r then unreached t R 1 [tr_bad (baseTR t)] else cex_ok t R (snd r))) s"
proof -
  let ?b = "[tr_bad (baseTR t)]"
  show ?thesis
    unfolding i3_checkInitial_def wp_bindS wp_i3_onCons
  proof (rule wp_mono[OF fs_intersectionFull_wp[OF wf alive V_lem V_io(1) i3_okD(2)[OF ok] _ bad_V has_latch[OF i3_okD(4)[OF ok]]]], simp, elim conjE, goal_cases)
    case (1 r f)
    obtain b st inp where r: "r = (b, st, inp)" by (cases r)
    note q = i3_ok_query[OF ok 1(1)]
    have m: "b \<longleftrightarrow> (\<exists>w w'. tr_trans t w w' \<and> in_frame (i3_trace s) 0 w \<and> cube_sat w ?b)"
      "b \<Longrightarrow> \<exists>w w'. tr_trans t w w' \<and> in_frame (i3_trace s) 0 w \<and> cube_sat w ?b \<and> cube_sat w (st @ inp)"
      using 1(3) by (auto simp: meets_post_def r)
    have f0: "in_frame (i3_trace s) 0 w \<longleftrightarrow> starts t R w" if "tr_trans t w w'" for w w'
      by (rule frame_0[OF i3_okD(4)[OF ok] wf that])
    show ?case
    proof (cases b)
      case True
      from m(2)[OF this] obtain w w' where w: "tr_trans t w w'" "in_frame (i3_trace s) 0 w" "cube_sat w ?b" "cube_sat w (st @ inp)" by blast
      have "cex_typed t [\<lparr>st_inputs = inp, st_state = st\<rparr>]" using 1(3) True by (simp add: meets_post_def r cex_typed_def)
      then have "cex_ok t R [\<lparr>st_inputs = inp, st_state = st\<rparr>]"
        using w f0[OF w(1)] by (auto simp: cex_ok_def cube_sat_append)
      then show ?thesis using q True by (simp add: r)
    next
      case False
      then have "unreached t R 1 ?b" using m(1) f0 by (auto simp: unreached_def)
      then show ?thesis using q False by (simp add: r)
    qed
  qed
qed

lemma i3_recursiveBlock_wp:
  assumes ok: "i3_ok t R M s" and k: "1 \<le> k" "k + 1 \<le> M" and u: "unreached t R k [tr_bad (baseTR t)]"
    and fuel: "card (ic3_cubes t) * k * (2 * k + 2) + 2 * k + 2 \<le> fuel"
  shows "wp (i3_recursiveBlock B opt fuel [tr_bad (baseTR t)] k) (blocked_post t R M k s) s"
proof -
  let ?b = "length (i3_obls s)"
  let ?ob = "\<lparr>po_level = k, po_cti = [tr_bad (baseTR t)], po_concrete_state = [], po_inputs = [], po_may_degree = 0, po_parent = None\<rparr>"
  let ?p = "i3_obls s @ [?ob]"
  let ?s = "s\<lparr>i3_obls := ?p\<rparr>"
  have "const_ok (\<lambda>_. False)" by (simp add: const_ok_def)
  then have "input_cube t []" by (auto simp: input_cube_def cube_sat_def)
  then have "obl_ok t R k ?b ?p ?b ?ob" using bad_cube u k(1) by (simp add: obl_ok_def)
  then have p: "pool_ok t R k ?b ?p" by (simp add: pool_ok_def less_Suc_eq)
  have q: "queue_ok t R ?b M k ?s [?b]" using ok p k(2) by (simp add: queue_ok_def)
  have "queue_rank (i3_trace s) k ?p [?b] \<le> 1 + 2 * k + 1" using queue_rank_le[OF p, of "[?b]"] by simp
  moreover have "card (uncovered t (i3_trace s) k) * (2 * k + 2) \<le> card (ic3_cubes t) * k * (2 * k + 2)" by (rule mult_le_mono1[OF uncovered_card])
  ultimately have f: "queue_fuel t (i3_trace ?s) k (i3_obls ?s) [?b] \<le> fuel" using fuel by (simp add: queue_fuel_def)
  have "wp (rb_loop B opt fuel k [?b]) (blocked_post t R M k s) ?s"
    by (rule wp_mono[OF rb_loop_wp[OF q f]], rule blocked_post_mono, assumption) (simp_all add: grows_refl)
  then show ?thesis by (simp add: i3_recursiveBlock_def i3_newObligation_def)
qed

text \<open>The level of the target once it is covered.\<close>

lemma bad_level:
  assumes ok: "i3_ok t R M s" and c: "covered (i3_trace s) [tr_bad (baseTR t)] k" and k: "1 \<le> k"
  shows "\<exists>L. enat k \<le> L \<and> it_lev (i3_trace s) [tr_bad (baseTR t)] = Some L \<and> it_levelOf (i3_trace s) [tr_bad (baseTR t)] = Inr L"
proof -
  let ?b = "[tr_bad (baseTR t)]"
  note T = i3_okD(6)[OF ok]
  obtain d L where d: "it_lev (i3_trace s) d = Some L" "enat k \<le> L" "set d \<subseteq> set ?b" using c unfolding covered_def by blast
  have "1 \<le> L" using d(2) k by (cases L) (auto simp: one_enat_def)
  then have "d \<in> ic3_cubes t" using lemmas_okD(4)[OF i3_okD(4)[OF ok] d(1)] by simp
  note dD = ic3_cubeD[OF this]
  have "set d = set ?b" using d(3) dD(6) by (cases d) auto
  then have eq: "d = ?b" using sorted_distinct_set_unique[of d ?b] dD(3,4) by simp
  obtain i where i: "it_is (i3_trace s) i ?b L" using d(1) it_lev_is[OF T] unfolding eq by blast
  have "it_levelOf (i3_trace s) ?b = Inr L"
    using it_is_get(3,4)[OF T i] by (simp add: it_levelOf_def it_lemmaExists_def it_IDOf_def)
  then show ?thesis using d(1,2) unfolding eq by blast
qed

end

definition prove_post :: "anyTR \<Rightarrow> cube set \<Rightarrow> nat \<Rightarrow> safetyCounterExample option \<Rightarrow> ic3 \<Rightarrow> bool" where
  "prove_post t R M r s = (i3_ok t R M s \<and> (case r of None \<Rightarrow> safe_frame t (i3_trace s) | Some cex \<Rightarrow> cex_ok t R cex))"

definition result_ok :: "anyTR \<Rightarrow> cube set \<Rightarrow> safetyResult \<Rightarrow> bool" where
  "result_ok t R r = (sr_result r = SAFE \<and> sr_cex r = [] \<and> (\<forall>n w. reach t R n w \<longrightarrow> cnf_sat w (sr_proof r) \<and> \<not> cube_sat w [tr_bad (baseTR t)])
       \<and> set (sr_proof r) \<subseteq> negateVec ` ic3_cubes t \<and> (\<forall>w w'. tr_trans t w w' \<longrightarrow> cnf_sat w (sr_proof r) \<longrightarrow> \<not> cube_sat w [tr_bad (baseTR t)])
     \<or> sr_result r = UNSAFE \<and> sr_proof r = [] \<and> cex_ok t R (sr_cex r))"

context ic3_setting
begin

text \<open>A lemma \<open>[bad]\<close> at level \<open>l\<close>: no state reached in up to \<open>l\<close> steps is bad.\<close>

lemma level_unreached:
  assumes ok: "lemmas_ok t R T" and l: "it_lev T c = Some (enat l)"
  shows "unreached t R (l + 1) c"
  unfolding unreached_def
proof (intro allI impI)
  fix n w assume n: "reach t R n w" "n < l + 1"
  have "in_frame T (enat l) w" by (rule reach_frame[OF ok n(1)]) (use n(2) in simp)
  then show "\<not> cube_sat w c" using l unfolding in_frame_def by blast
qed

lemma i3_pushLemmas_wp:
  assumes "i3_ok t R M s" "card (ic3_cubes t) + 2 \<le> M" "card (ic3_cubes t) + 2 \<le> fuel"
  shows "wp (i3_pushLemmas B opt fuel) (\<lambda>_ s'. i3_ok t R M s' \<and> i3_kept s s' \<and> grows (i3_trace s) (i3_trace s')
     \<and> it_numFrames (i3_trace s') \<le> card (ic3_cubes t) + 1) s"
  unfolding i3_pushLemmas_def by (rule i3_pushFrom_wp) (use assms in auto)

lemma prove_loop_wp:
  assumes "i3_ok t R M s" "1 \<le> k" "k \<le> card (ic3_cubes t) + 1" "card (ic3_cubes t) + 2 \<le> M"
    "unreached t R k [tr_bad (baseTR t)]" "card (ic3_cubes t) + 2 \<le> fuel + k" "ic3_fuel (card (ic3_cubes t)) \<le> n"
  shows "wp (prove_loop B opt fuel n [tr_bad (baseTR t)] k) (prove_post t R M) s"
  using assms
proof (induction fuel arbitrary: s k)
  case 0
  then show ?case by simp
next
  case (Suc fuel)
  let ?N = "card (ic3_cubes t)" and ?b = "[tr_bad (baseTR t)]"
  have fu: "?N * k * (2 * k + 2) + 2 * k + 2 \<le> n" "?N + 2 \<le> n" using ic3_fuel_le[OF Suc.prems(3)] Suc.prems(7) by simp_all
  show ?case
    unfolding prove_loop.simps wp_bindS
  proof (rule wp_mono[OF i3_isSafe_wp[OF Suc.prems(1)]], elim conjE, goal_cases)
    case (1 safe s1)
    show ?case
    proof (cases safe)
      case True
      then show ?thesis using 1 by (simp add: prove_post_def)
    next
      case False
      have k1: "k + 1 \<le> M" using Suc.prems(3,4) by simp
      show ?thesis
        unfolding wp_if if_not_P[OF False] wp_bindS
      proof (rule wp_mono[OF i3_recursiveBlock_wp[OF 1(1) Suc.prems(2) k1 Suc.prems(5) fu(1)]], goal_cases)
        case g: (1 r s2)
        obtain blocked cex where r: "r = (blocked, cex)" by (cases r)
        show ?case
        proof (cases blocked)
          case False
          then show ?thesis using g by (simp add: r blocked_post_def prove_post_def)
        next
          case bl: True
          let ?s = "s2\<lparr>i3_obls := []\<rparr>"
          have s2: "i3_ok t R M ?s" "covered (i3_trace s2) ?b k" using g bl by (simp_all add: r blocked_post_def)
          have "wp (i3_pushLemmas B opt n) (\<lambda>_ s. wp (bindS (liftS (it_levelOf (i3_trace s) ?b)) (\<lambda>level. thenS (assertS (enat k \<le> level))
              (case level of \<infinity> \<Rightarrow> retS None | enat l \<Rightarrow> prove_loop B opt fuel n ?b (l + 1)))) (prove_post t R M) s) ?s"
          proof (rule wp_mono[OF i3_pushLemmas_wp[OF s2(1) Suc.prems(4) fu(2)]], elim conjE, goal_cases)
            case h: (1 u s3)
            have "covered (i3_trace s3) ?b k" by (rule covered_grows[OF h(3)]) (use s2(2) in simp)
            from bad_level[OF h(1) this Suc.prems(2)] obtain L where L: "enat k \<le> L" "it_lev (i3_trace s3) ?b = Some L" "it_levelOf (i3_trace s3) ?b = Inr L" by blast
            show ?case
            proof (cases L)
              case infinity
              have "safe_frame t (i3_trace s3)" using L(2) infinity by (auto simp: safe_frame_def in_frame_def)
              then show ?thesis using L h(1) infinity by (simp add: prove_post_def)
            next
              case (enat l)
              have lt: "l < it_numFrames (i3_trace s3)" by (rule occupied_lt[OF i3_okD(6)[OF h(1)]]) (use L(2) enat in \<open>auto simp: occupied_def\<close>)
              have u: "unreached t R (l + 1) ?b" by (rule level_unreached[OF i3_okD(4)[OF h(1)]]) (use L(2) enat in simp)
              have "wp (prove_loop B opt fuel n ?b (l + 1)) (prove_post t R M) s3"
                by (rule Suc.IH[OF h(1) _ _ Suc.prems(4) u _ Suc.prems(7)]) (use h(2,4) lt L(1) enat Suc.prems(6) in \<open>simp_all add: i3_kept_def\<close>)
              then show ?thesis using L enat by simp
            qed
          qed
          then show ?thesis using bl by (simp add: r i3_clearObligationPool_def)
        qed
      qed
    qed
  qed
qed

lemma i3_prove_wp:
  assumes ok: "i3_ok t R M s" and M: "card (ic3_cubes t) + 2 \<le> M" and fuel: "ic3_fuel (card (ic3_cubes t)) \<le> fuel"
  shows "wp (i3_prove B opt fuel) (\<lambda>r s'. i3_ok t R M s' \<and> result_ok t R r) s"
proof -
  let ?N = "card (ic3_cubes t)" and ?b = "[tr_bad (baseTR t)]"
  have t: "i3_tr s = t" by (rule i3_okD(1)[OF ok])
  have f: "?N + 2 \<le> fuel + 1" using ic3_fuel_le(2)[of 0 ?N] fuel by simp
  show ?thesis
    unfolding i3_prove_def wp_bindS wp_getS t i3_proveTarget_def
  proof (rule wp_mono[OF i3_checkInitial_wp[OF ok]], elim conjE, goal_cases)
    case (1 r s1)
    obtain b cex where r: "r = (b, cex)" by (cases r)
    show ?case
    proof (cases b)
      case False
      then show ?thesis using 1 by (simp add: r result_ok_def)
    next
      case b: True
      have u: "unreached t R 1 ?b" using 1(3) b by (simp add: r)
      have "wp (prove_loop B opt fuel fuel ?b 1) (\<lambda>r. wp (case r of
          Some cex \<Rightarrow> retS \<lparr>sr_result = UNSAFE, sr_proof = [], sr_cex = cex\<rparr>
        | None \<Rightarrow> bindS i3_recordProof (\<lambda>proof. retS \<lparr>sr_result = SAFE, sr_proof = proof, sr_cex = []\<rparr>)) (\<lambda>r s'. i3_ok t R M s' \<and> result_ok t R r)) s1"
      proof (rule wp_mono[OF prove_loop_wp[OF 1(1) order_refl _ M u f fuel]], simp, goal_cases)
        case h: (1 q s2)
        show ?case
        proof (cases q)
          case (Some cex)
          then show ?thesis using h by (simp add: prove_post_def result_ok_def)
        next
          case None
          have ok2: "i3_ok t R M s2" "safe_frame t (i3_trace s2)" using h None by (simp_all add: prove_post_def)
          have fr: "in_frame (i3_trace s2) \<infinity> w" if "reach t R n w" for n w
            by (rule reach_frame[OF i3_okD(4)[OF ok2(1)] that]) simp
          have sf: "\<not> cube_sat w ?b" if "tr_trans t w w'" "in_frame (i3_trace s2) \<infinity> w" for w w'
            using ok2(2) that unfolding safe_frame_def by blast
          show ?thesis
            unfolding None option.case wp_bindS wp_retS
          proof (rule wp_mono[OF i3_recordProof_wp[OF ok2(1)]], elim conjE, goal_cases)
            case g: (1 pf s3)
            have "result_ok t R \<lparr>sr_result = SAFE, sr_proof = pf, sr_cex = []\<rparr>"
              unfolding result_ok_def safetyResult.select_convs using g(2,3) fr sf reach_next by blast
            then show ?case using ok2(1) g(1) by simp
          qed
        qed
      qed
      then show ?thesis using b by (simp add: r)
    qed
  qed
qed

end

subsection \<open>Setting up the initial states\<close>

definition lemmas_just :: "anyTR \<Rightarrow> cube set \<Rightarrow> inductiveTrace \<Rightarrow> bool" where
  "lemmas_just t R T = (\<forall>c L. it_lev T c = Some L \<longrightarrow> excl t R c \<and> (1 \<le> L \<longrightarrow> ri t R T (L - 1) c \<and> c \<in> ic3_cubes t))"

lemma lemmas_ok_iff: "lemmas_ok t R T \<longleftrightarrow> (\<forall>c\<in>init_cubes t \<union> R. \<exists>L. it_lev T c = Some L) \<and> lemmas_just t R T"
  by (simp add: lemmas_ok_def lemmas_just_def)

text \<open>With fewer initial states the lemmas still hold.\<close>

lemma excl_sub: "R \<subseteq> R' \<Longrightarrow> excl t R c \<Longrightarrow> excl t R' c"
  unfolding excl_def starts_def by blast

lemma lemmas_just_sub: "R \<subseteq> R' \<Longrightarrow> lemmas_just t R T \<Longrightarrow> lemmas_just t R' T"
  unfolding lemmas_just_def ri_def ri_by_def using excl_sub by metis

lemma it_active_iff:
  assumes "it_live T" "it_inv T" "sorted c"
  shows "it_lemmaIsActive T c = Inr (it_lev T c \<noteq> None)"
proof (cases "it_cubeToID T c")
  case None
  then show ?thesis by (simp add: it_lemmaIsActive_def it_lemmaExists_def it_lev_def)
next
  case (Some i)
  have i: "i < length (it_lemmas T)" using it_invD(1)[OF assms(2)] Some by simp
  then have "\<not> ld_deleted (it_lemmas T ! i)" using assms(1) by (simp add: it_live_def)
  then show ?thesis using Some i assms(3)
    by (simp add: it_lemmaIsActive_def it_lemmaExists_def it_lev_def it_getLemma_def it_IDOf_def it_getLemmaID_def atR_def sorted_sort_id)
qed

definition init_trace :: "anyTR \<Rightarrow> cube set \<Rightarrow> nat \<Rightarrow> inductiveTrace \<Rightarrow> bool" where
  "init_trace t R M T = (trace_ok (ic3_vars t) M T \<and> it_live T \<and> lemmas_just t R T)"

definition init_cube :: "anyTR \<Rightarrow> cube set \<Rightarrow> cube \<Rightarrow> bool" where
  "init_cube t R c = (sorted c \<and> c \<noteq> [] \<and> strip ` set c \<subseteq> ic3_vars t \<and> excl t R c)"

lemma i3_addInit_wp:
  assumes T: "init_trace t R M (i3_trace s)" and M: "0 < M" and c: "init_cube t R c"
  shows "wp (i3_addInit c) (\<lambda>_ s'. \<exists>T'. s' = s\<lparr>i3_trace := T'\<rparr> \<and> init_trace t R M T' \<and> grows (i3_trace s) T' \<and> it_lev T' c \<noteq> None) s"
proof -
  let ?T = "i3_trace s"
  have t: "trace_ok (ic3_vars t) M ?T" "it_live ?T" "lemmas_just t R ?T" "it_inv ?T" "it_numFrames ?T \<le> M" using T by (auto simp: init_trace_def trace_ok_def)
  have cc: "sorted c" "c \<noteq> []" "strip ` set c \<subseteq> ic3_vars t" "excl t R c" "sort c = c" using c by (auto simp: init_cube_def sorted_sort_id)
  note act = it_active_iff[OF t(2,4) cc(1)]
  show ?thesis
  proof (cases "it_lev ?T c = None")
    case False
    then have "wp (i3_addInit c) (\<lambda>_ s'. s' = s) s" by (simp add: i3_addInit_def act)
    then show ?thesis by (rule wp_mono) (use T False in \<open>auto intro!: exI[of _ ?T]\<close>)
  next
    case True
    have "wp (it_addLemma c 0) (\<lambda>i T'. init_trace t R M T' \<and> grows ?T T' \<and> it_lev T' c \<noteq> None) ?T"
    proof (rule wp_mono[OF it_addLemma_wp[OF t(4)]], simp add: cc True, unfold cc(5), elim conjE, goal_cases)
      case (1 i T')
      have g: "grows ?T T'" by (rule grows_set[OF 1(2)]) (simp add: True)
      have n: "it_numFrames T' \<le> M" using 1(3) t(5) M by (simp add: frames_upto_def zero_enat_def)
      have "trace_ok (ic3_vars t) M T'" by (rule trace_ok_set[OF t(1) 1(1,2) n cc(2,3)])
      moreover have "excl t R d \<and> (1 \<le> L \<longrightarrow> ri t R T' (L - 1) d \<and> d \<in> ic3_cubes t)" if d: "it_lev T' d = Some L" for d L
      proof (cases "d = c")
        case True
        then show ?thesis using d 1(2) cc(4) by auto
      next
        case False
        then have "it_lev ?T d = Some L" using d 1(2) by simp
        then show ?thesis using t(3) ri_grows[OF g] unfolding lemmas_just_def by blast
      qed
      ultimately show ?case using 1(2,5) t(2) g by (simp add: init_trace_def lemmas_just_def)
    qed
    then have "wp (i3_onTrace (it_addLemma c 0)) (\<lambda>i s'. \<exists>T'. s' = s\<lparr>i3_trace := T'\<rparr> \<and> init_trace t R M T' \<and> grows ?T T' \<and> it_lev T' c \<noteq> None) s"
      unfolding wp_i3_onTrace by (rule wp_mono) blast
    then show ?thesis using True by (simp add: i3_addInit_def act)
  qed
qed

lemma i3_addInits_wp:
  assumes "init_trace t R M (i3_trace s)" "0 < M" "\<forall>c\<in>set cs. init_cube t R (g c)"
  shows "wp (iterS (\<lambda>c. i3_addInit (g c)) cs) (\<lambda>_ s'. \<exists>T'. s' = s\<lparr>i3_trace := T'\<rparr> \<and> init_trace t R M T' \<and> grows (i3_trace s) T'
     \<and> (\<forall>c\<in>set cs. it_lev T' (g c) \<noteq> None)) s"
  using assms
proof (induction cs arbitrary: s)
  case Nil
  then show ?case by (auto intro!: exI[of _ "i3_trace s"])
next
  case (Cons c cs)
  have c: "init_cube t R (g c)" and cs: "\<forall>c\<in>set cs. init_cube t R (g c)" using Cons.prems(3) by simp_all
  show ?case
    unfolding iterS.simps wp_bindS
  proof (rule wp_mono[OF i3_addInit_wp[OF Cons.prems(1,2) c]], elim exE conjE, goal_cases)
    case (1 u s1 T1)
    have i1: "init_trace t R M (i3_trace s1)" using 1(1,2) by simp
    show ?case
    proof (rule wp_mono[OF Cons.IH[OF i1 Cons.prems(2) cs]], elim exE conjE, goal_cases)
      case h: (1 u s2 T2)
      have g2: "grows T1 T2" using h(3) 1(1) by simp
      have "it_lev T2 (g c) \<noteq> None" using 1(4) growsD[OF g2] by (cases "it_lev T1 (g c)") auto
      then show ?case using h(1,2,4) 1(1) grows_trans[OF 1(3) g2] by (intro exI[of _ T2]) simp
    qed
  qed
qed

lemma init_cubes_excl:
  assumes wf: "tr_wf t" and c: "c \<in> init_cubes t"
  shows "excl t R c"
proof -
  obtain C where C: "tr_initState t = Inr C" "\<And>\<sigma>. const_ok \<sigma> \<Longrightarrow> cnf_sat \<sigma> C \<longleftrightarrow> init_ok t \<sigma>"
    using tr_initState_sem[OF wf] by (auto simp: wpr_iff)
  obtain cls where cls: "cls \<in> set C" "c = negateVec cls" using c C(1) by (auto simp: init_cubes_def)
  show ?thesis
    unfolding excl_def starts_def using C(2) cls by (auto simp: cnf_sat_def tr_trans_def cube_sat_negateVec)
qed

lemma ic3_vars_tr:
  assumes wf: "tr_wf t"
  shows "ic3_vars t \<subseteq> tr_vars t"
proof -
  have "state_vars t \<subseteq> tr_vars t" by (auto simp: state_vars_def tr_vars_def)
  then show ?thesis using io_tr[OF wf] by (auto simp: ic3_vars_def)
qed

definition latch_cubes :: "anyTR \<Rightarrow> cube list \<Rightarrow> bool" where
  "latch_cubes t cs = (\<forall>c\<in>set cs. sorted c \<and> c \<noteq> [] \<and> strip ` set c \<subseteq> set (tr_latchIDs (baseTR t)))"

lemma i3_initialize_wp:
  assumes wf: "tr_wf t" and t: "i3_tr s = t" and vm: "vm_owns (i3_vars s) t" "room M (i3_vars s)" "0 < M"
    and T: "init_trace t Q M (i3_trace s)" "\<forall>c\<in>Q. it_lev (i3_trace s) c \<noteq> None"
    and cs: "latch_cubes t (i3_init_constraints s)"
  shows "wp i3_initialize (\<lambda>_ s'. i3_ok t (Q \<union> set (i3_init_constraints s)) M s' \<and> i3_vars s' = i3_vars s \<and> i3_obls s' = i3_obls s
     \<and> i3_init_constraints s' = i3_init_constraints s \<and> grows (i3_trace s) (i3_trace s')) s"
proof -
  let ?R = "Q \<union> set (i3_init_constraints s)"
  obtain C where C: "tr_initState t = Inr C" using tr_initState_sem[OF wf] by (auto simp: wpr_iff)
  have V: "set (tr_latchIDs (baseTR t)) \<subseteq> ic3_vars t" by (auto simp: ic3_vars_def io_vars_def)
  have it: "init_trace t ?R M (i3_trace s)" using T(1) lemmas_just_sub[of Q ?R t] by (auto simp: init_trace_def)
  have c1: "\<forall>cls\<in>set C. init_cube t ?R (negateVec cls)"
  proof
    fix cls assume "cls \<in> set C"
    then have c: "negateVec cls \<in> init_cubes t" using C by (simp add: init_cubes_def)
    from init_cubes_latch[OF wf c] obtain l where l: "negateVec cls = [l]" "strip l \<in> set (tr_latchIDs (baseTR t))" by blast
    show "init_cube t ?R (negateVec cls)" using init_cubes_excl[OF wf c] l V by (auto simp: init_cube_def)
  qed
  have c2: "\<forall>c\<in>set (i3_init_constraints s). init_cube t ?R c"
    using cs V by (auto simp: init_cube_def latch_cubes_def excl_def starts_def)
  have kn: "\<forall>v\<in>ic3_vars t. isKnown (i3_vars s) v" using vm(1) ic3_vars_tr[OF wf] by (auto simp: vm_owns_def)
  show ?thesis
    unfolding i3_initialize_def wp_bindS wp_getS wp_liftS t C wpr_Inr wp_thenS
  proof (rule wp_mono[OF i3_addInits_wp[OF it vm(3) c1]], elim exE conjE, goal_cases)
    case (1 u s1 T1)
    have i1: "init_trace t ?R M (i3_trace s1)" using 1(1,2) by simp
    show ?case
    proof (rule wp_mono[OF i3_addInits_wp[OF i1 vm(3) c2]], elim exE conjE, goal_cases)
      case h: (1 u s2 T2)
      have s2: "s2 = s\<lparr>i3_trace := T2\<rparr>" using h(1) 1(1) by simp
      have g2: "grows T1 T2" using h(3) 1(1) by simp
      have g: "grows (i3_trace s) T2" by (rule grows_trans[OF 1(3) g2])
      have up: "it_lev T' c \<noteq> None \<Longrightarrow> grows T' T2 \<Longrightarrow> it_lev T2 c \<noteq> None" for T' c using growsD[of T' T2 c] by (cases "it_lev T' c") auto
      have "it_lev T2 c \<noteq> None" if "c \<in> init_cubes t \<union> ?R" for c
        using that 1(4) h(4) T(2) up[OF _ g] up[OF _ g2] C by (auto simp: init_cubes_def)
      then have ok: "lemmas_ok t ?R T2" using h(2) by (auto simp: lemmas_ok_iff init_trace_def)
      have tr: "trace_ok (ic3_vars t) M T2" "it_live T2" using h(2) by (simp_all add: init_trace_def)
      have "wpr (fs_new (i3_vars s) t) (\<lambda>f. wpr (ul_new t) (\<lambda>l. i3_ok t ?R M (s\<lparr>i3_trace := T2, i3_cons := f, i3_lift := l\<rparr>)))"
      proof (rule wpr_mono[OF fs_new_wp[OF vm(1) kn vm(2) tr(1)]], rule wpr_mono[OF ul_new_wp[where T = T2]], goal_cases)
        case (1 f l)
        have e: "f\<lparr>fs_vars := i3_vars s\<rparr> = f" using 1(1) by (metis frameSolver.surjective frameSolver.update_convs(1))
        have "fs_inv t (ic3_vars t) M T2 (f\<lparr>fs_vars := i3_vars s\<rparr>)" unfolding e using 1(1) by (rule conjunct1)
        then show ?case using 1(2) t tr(2) ok by (simp add: i3_ok_def i3_frames_def)
      qed
      then show ?case using g by (auto simp: i3_resetSAT_def s2 t wpr_iff)
    qed
  qed
qed

lemma it_clear_wp: "wp it_clear (\<lambda>_ T'. T' = it_new) T"
  by (cases T, cases "it_frames T") (simp add: it_clear_def fr_clear_def it_new_def)

lemma i3_initialStatesExpanded_wp:
  assumes wf: "tr_wf t" and t: "i3_tr s = t" and vm: "vm_owns (i3_vars s) t" "room M (i3_vars s)" "0 < M"
    and cs: "latch_cubes t (i3_init_constraints s)"
  shows "wp i3_initialStatesExpanded (\<lambda>_ s'. i3_ok t (set (i3_init_constraints s)) M s' \<and> i3_vars s' = i3_vars s
     \<and> i3_obls s' = i3_obls s \<and> i3_init_constraints s' = i3_init_constraints s) s"
proof -
  have e: "wp (i3_onTrace it_clear) (\<lambda>_ s'. s' = s\<lparr>i3_trace := it_new\<rparr>) s"
    unfolding wp_i3_onTrace by (rule wp_mono[OF it_clear_wp]) simp
  show ?thesis
    unfolding i3_initialStatesExpanded_def wp_thenS
  proof (rule wp_mono[OF e], goal_cases)
    case (1 u s1)
    have it: "init_trace t {} M (i3_trace s1)" using 1 it_new_inv by (simp add: init_trace_def trace_ok_def lemmas_just_def)
    have "wp i3_initialize (\<lambda>_ s'. i3_ok t ({} \<union> set (i3_init_constraints s1)) M s' \<and> i3_vars s' = i3_vars s1 \<and> i3_obls s' = i3_obls s1
     \<and> i3_init_constraints s' = i3_init_constraints s1 \<and> grows (i3_trace s1) (i3_trace s')) s1"
      by (rule i3_initialize_wp[OF wf _ _ _ vm(3) it]) (use 1(1) t vm cs in simp_all)
    then show ?case by (rule wp_mono) (use 1(1) in simp)
  qed
qed

lemma i3_initialStatesRestricted_wp:
  assumes wf: "tr_wf t" and ok: "i3_ok t R M s" and vm: "vm_owns (i3_vars s) t" "room M (i3_vars s)" "0 < M"
    and cs: "latch_cubes t (i3_init_constraints s)" and R: "\<forall>c\<in>R. it_lev (i3_trace s) c \<noteq> None"
  shows "wp i3_initialStatesRestricted (\<lambda>_ s'. i3_ok t (R \<union> set (i3_init_constraints s)) M s' \<and> i3_vars s' = i3_vars s
     \<and> i3_obls s' = i3_obls s \<and> i3_init_constraints s' = i3_init_constraints s) s"
proof -
  have it: "init_trace t R M (i3_trace s)" using i3_okD(4,5,7)[OF ok] by (simp add: init_trace_def lemmas_ok_iff)
  show ?thesis
    unfolding i3_initialStatesRestricted_def
    by (rule wp_mono[OF i3_initialize_wp[OF wf i3_okD(1)[OF ok] vm it R cs]]) simp
qed

lemma i3_new_wp:
  assumes wf: "tr_wf t" and vm: "vm_owns vm t" "room M vm" "0 < M"
  shows "wpr (i3_new vm t) (\<lambda>s. i3_ok t {} M s \<and> i3_vars s = vm \<and> i3_obls s = [] \<and> i3_init_constraints s = [])"
proof -
  have kn: "\<forall>v\<in>ic3_vars t. isKnown vm v" using vm(1) ic3_vars_tr[OF wf] by (auto simp: vm_owns_def)
  have tr: "trace_ok (ic3_vars t) M it_new" using it_new_inv by (simp add: trace_ok_def)
  have it: "init_trace t {} M it_new" using tr it_new_inv by (simp add: init_trace_def lemmas_just_def)
  have "wp i3_initialize (\<lambda>_ s. i3_ok t {} M s \<and> i3_vars s = vm \<and> i3_obls s = [] \<and> i3_init_constraints s = [])
     \<lparr>i3_vars = vm, i3_tr = t, i3_trace = it_new, i3_obls = [], i3_cons = f, i3_lift = l, i3_init_constraints = []\<rparr>" for f l
    by (rule wp_mono[OF i3_initialize_wp[OF wf _ _ _ vm(3), where Q = "{}"]]) (use vm it in \<open>simp_all add: latch_cubes_def\<close>)
  then show ?thesis
    unfolding i3_new_def wpr_bindR wpr_execS
    by (intro wpr_mono[OF fs_new_wp[OF vm(1) kn vm(2) tr]] wpr_mono[OF ul_new_wp[where T = it_new]])
qed

lemma i3_restrictInitialStates_wp:
  assumes "\<forall>cls\<in>set vec. cls \<noteq> []"
  shows "wp (i3_restrictInitialStates vec) (\<lambda>_ s'. s' = s\<lparr>i3_init_constraints := i3_init_constraints s @ map (\<lambda>cls. sort (negateVec cls)) vec\<rparr>) s"
  unfolding i3_restrictInitialStates_def using assms
proof (induction vec arbitrary: s)
  case (Cons cls vec)
  have "wp (iterS i3_restrictInitialState vec) (\<lambda>_ s'. s' = s1\<lparr>i3_init_constraints := i3_init_constraints s1 @ map (\<lambda>cls. sort (negateVec cls)) vec\<rparr>) s1" for s1
    using Cons by simp
  note IH = this
  have h: "wp (i3_restrictInitialState cls) (\<lambda>_ s'. s' = s\<lparr>i3_init_constraints := i3_init_constraints s @ [sort (negateVec cls)]\<rparr>) s"
    using Cons.prems by (simp add: i3_restrictInitialState_def)
  show ?case
    unfolding iterS.simps wp_bindS by (rule wp_mono[OF h], rule wp_mono[OF IH]) simp
qed simp

text \<open>A run: the initial states are restricted, then the property is checked.\<close>

definition i3_run :: "backend \<Rightarrow> bool \<Rightarrow> nat \<Rightarrow> varManager \<Rightarrow> anyTR \<Rightarrow> clauseVec \<Rightarrow> safetyResult res" where
  "i3_run B opt fuel vm t restrict = bindR (i3_new vm t) (evalS (thenS (i3_restrictInitialStates restrict) (thenS i3_initialStatesRestricted (i3_prove B opt fuel))))"

definition restrictions :: "clauseVec \<Rightarrow> cube set" where
  "restrictions vec = (\<lambda>cls. sort (negateVec cls)) ` set vec"

lemma restriction_cubes:
  assumes "\<forall>cls\<in>set vec. cls \<noteq> [] \<and> strip ` set cls \<subseteq> set (tr_latchIDs (baseTR t))"
  shows "latch_cubes t (map (\<lambda>cls. sort (negateVec cls)) vec)"
proof -
  have "strip ` set (negateVec cls) = strip ` set cls" for cls by (auto simp: negateVec_def image_image)
  moreover have "sort (negateVec cls) \<noteq> []" if "cls \<noteq> []" for cls using that by (metis length_0_conv length_sort negateVec_def length_map)
  ultimately show ?thesis using assms by (auto simp: latch_cubes_def)
qed

lemma i3_run_wp:
  assumes B: "sat_backend B" and t: "tr_wf t" "functional t" "strip (tr_bad (baseTR t)) \<noteq> ID_FALSE"
    and vm: "vm_owns vm t" "room (card (ic3_cubes t) + 2) vm"
    and r: "\<forall>cls\<in>set restrict. cls \<noteq> [] \<and> strip ` set cls \<subseteq> set (tr_latchIDs (baseTR t))" "init_cubes t \<noteq> {} \<or> restrict \<noteq> []"
    and fuel: "ic3_fuel (card (ic3_cubes t)) \<le> fuel"
  shows "wpr (i3_run B opt fuel vm t restrict) (result_ok t (restrictions restrict))"
proof -
  let ?M = "card (ic3_cubes t) + 2" and ?R = "restrictions restrict"
  let ?cs = "map (\<lambda>cls. sort (negateVec cls)) restrict"
  have R: "set ?cs = ?R" by (simp add: restrictions_def)
  have lc: "latch_cubes t ?cs" by (rule restriction_cubes[OF r(1)])
  have ne: "\<forall>cls\<in>set restrict. cls \<noteq> []" using r(1) by blast
  have set: "ic3_setting B t ?R"
  proof (intro ic3_setting.intro B ic3_setting_axioms.intro t)
    show "c \<noteq> [] \<and> strip ` set c \<subseteq> set (tr_latchIDs (baseTR t)) \<and> sorted c" if "c \<in> ?R" for c
      using lc that unfolding latch_cubes_def R by blast
    show "init_cubes t \<union> ?R \<noteq> {} \<or> tr_latchIDs (baseTR t) = []" using r(2) by (auto simp: restrictions_def)
  qed
  show ?thesis
    unfolding i3_run_def wpr_bindR wpr_evalS wp_thenS
  proof (rule wpr_mono[OF i3_new_wp[OF t(1) vm]], simp, elim conjE, goal_cases)
    case n: (1 s)
    show ?case
    proof (rule wp_mono[OF i3_restrictInitialStates_wp[OF ne]], goal_cases)
      case (1 u s1)
      have s1: "i3_ok t {} ?M s1" "i3_vars s1 = vm" "i3_init_constraints s1 = ?cs"
        using n 1 by (simp_all add: i3_ok_def i3_frames_def)
      have v: "vm_owns (i3_vars s1) t" "room ?M (i3_vars s1)" "0 < ?M" "latch_cubes t (i3_init_constraints s1)" "\<forall>c\<in>{}. it_lev (i3_trace s1) c \<noteq> None"
        using s1 vm lc by simp_all
      show ?case
      proof (rule wp_mono[OF i3_initialStatesRestricted_wp[OF t(1) s1(1) v]], elim conjE, goal_cases)
        case g: (1 u s2)
        have ok: "i3_ok t ?R ?M s2" using g(1) s1(3) R by simp
        show ?case by (rule wp_mono[OF ic3_setting.i3_prove_wp[OF set ok order_refl fuel]]) simp
      qed
    qed
  qed
qed

lemma cex_reach:
  assumes "cex_ok t R cex"
  shows "\<exists>n w. reach t R n w \<and> cube_sat w [tr_bad (baseTR t)]"
proof -
  have d: "drives t xs w \<Longrightarrow> reach t R n w \<or> (n = 0 \<and> starts t R w) \<Longrightarrow> \<exists>m u. reach t R m u \<and> cube_sat u [tr_bad (baseTR t)]" for xs w n
  proof (induction t xs w arbitrary: n rule: drives.induct)
    case (2 t x w)
    then have "reach t R n w" by auto
    then show ?case using 2(1) by auto
  next
    case (3 t x y xs w)
    then obtain w' where w: "tr_trans t w w'" "drives t (y # xs) w'" by auto
    have rw: "reach t R n w" using 3(3) w(1) by auto
    have "\<exists>w''. tr_trans t w' w''" using w(2) by (cases xs) auto
    then have "reach t R (Suc n) w'" using rw w(1) by auto
    then show ?case using 3(1)[of w' "Suc n"] w(2) by blast
  qed simp
  obtain w where "starts t R w" "drives t (map st_inputs cex) w" using assms by (auto simp: cex_ok_def)
  then show ?thesis using d[of _ w 0] by blast
qed

end
