(* ===== verification/Ic3Grow.thy ===== *)
theory Ic3Grow
  imports Ic3Prove
begin

text \<open>
  A run of IC3 on a variable manager that others use as well: \<open>i3_proveOn\<close> is the pair of calls
  \<open>IC3Solver solver(vars, tr); solver.prove();\<close> on the shared manager.  What the run does to the manager
  is a property of partial correctness (\<open>keeps\<close>, one rule per operation): known variables stay
  known and only the activation literals of the levels are new, so the room it takes is bounded by the
  number of levels.
\<close>

subsection \<open>Predicates an operation keeps\<close>

definition keeps :: "('s \<Rightarrow> bool) \<Rightarrow> ('s, 'a) sm \<Rightarrow> bool" where
  "keeps P m = (\<forall>s a s'. P s \<longrightarrow> m s = Inr (a, s') \<longrightarrow> P s')"

lemma keepsD: "keeps P m \<Longrightarrow> P s \<Longrightarrow> m s = Inr (a, s') \<Longrightarrow> P s'"
  unfolding keeps_def by blast

named_theorems keep \<open>operations that keep a predicate\<close>

lemma keeps_basic [keep]: "keeps P (retS a)" "keeps P (failS e)" "keeps P getS" "keeps P (assertS b)" "keeps P (liftS r)"
  by (auto simp: keeps_def retS_def failS_def getS_def assertS_def liftS_def split: sum.splits if_splits)

lemma keeps_bindS [keep]:
  assumes "keeps P m" "\<And>a. keeps P (f a)"
  shows "keeps P (bindS m f)"
  unfolding keeps_def
proof (intro allI impI)
  fix s b s'
  assume s: "P s" and b: "bindS m f s = Inr (b, s')"
  then obtain a u where "m s = Inr (a, u)" "f a u = Inr (b, s')" by (auto simp: bindS_def split: sum.splits)
  then show "P s'" using keepsD[OF assms(2) keepsD[OF assms(1) s]] by blast
qed

lemma keeps_thenS [keep]: "keeps P m \<Longrightarrow> keeps P k \<Longrightarrow> keeps P (thenS m k)"
  by (simp add: thenS_def keeps_bindS)

lemma keeps_modifyS: "(\<And>s. P s \<Longrightarrow> P (g s)) \<Longrightarrow> keeps P (modifyS g)"
  by (auto simp: keeps_def modifyS_def)

lemma keeps_if [keep]: "(b \<Longrightarrow> keeps P m) \<Longrightarrow> (\<not> b \<Longrightarrow> keeps P k) \<Longrightarrow> keeps P (if b then m else k)"
  by simp

lemma keeps_case_prod [keep]: "(\<And>a b. keeps P (f a b)) \<Longrightarrow> keeps P (case p of (a, b) \<Rightarrow> f a b)"
  by (cases p) simp

lemma keeps_iterS [keep]: "(\<And>x. keeps P (f x)) \<Longrightarrow> keeps P (iterS f xs)"
  by (induction xs) (simp_all add: keep)

lemma keeps_mapS [keep]: "(\<And>x. keeps P (f x)) \<Longrightarrow> keeps P (mapS f xs)"
  by (induction xs) (simp_all add: keep)

lemma keeps_zoomS: "(\<And>s t. P s \<Longrightarrow> P (p t s)) \<Longrightarrow> keeps P (zoomS g p m)"
  by (auto simp: keeps_def zoomS_def split: sum.splits)

subsection \<open>The variable manager grows with the activation literals\<close>

definition grown :: "varManager \<Rightarrow> varManager \<Rightarrow> nat \<Rightarrow> bool" where
  "grown vm0 vm n = (vm_inv vm \<and> (\<forall>v. isKnown vm0 v \<longrightarrow> isKnown vm v) \<and> unat (m_nextID vm) \<le> unat (m_nextID vm0) + 2 * n)"

lemma grown_owns: "grown vm0 vm n \<Longrightarrow> vm_owns vm0 t \<Longrightarrow> vm_owns vm t"
  by (auto simp: grown_def vm_owns_def)

lemma grown_room: "grown vm0 vm n \<Longrightarrow> n \<le> M \<Longrightarrow> room (M + k) vm0 \<Longrightarrow> room k vm"
  by (auto simp: grown_def room_def)

definition fs_grown :: "varManager \<Rightarrow> frameSolver \<Rightarrow> bool" where
  "fs_grown vm0 f = grown vm0 (fs_vars f) (length (fs_activation f))"

lemma fs_grown_newActivation [keep]: "keeps (fs_grown vm0) (fs_newActivation n)"
  unfolding keeps_def
proof (intro allI impI)
  fix s a s'
  assume g: "fs_grown vm0 s" and m: "fs_newActivation n s = Inr (a, s')"
  then obtain i vm' where i: "getNewID_named (activationName n) 0 (fs_vars s) = Inr (i, vm')"
      "s' = s\<lparr>fs_vars := vm', fs_activation := fs_activation s @ [i]\<rparr>"
    by (auto simp: fs_newActivation_def bindS_def zoomS_def modifyS_def split: sum.splits)
  have inv: "vm_inv (fs_vars s)" using g by (simp add: fs_grown_def grown_def)
  have le: "m_nextID (fs_vars s) \<le> MAX_ID"
    using i(1) by (auto simp: getNewID_named_def bindS_def getS_def thenS_def assertS_def split: if_splits)
  have "wp (getNewID_named (activationName n) 0) (\<lambda>i vm'. i = m_nextID (fs_vars s) \<and> \<not> isKnown (fs_vars s) i \<and> m_nextID vm' = i + 2 \<and> vm_inv vm'
       \<and> (\<exists>nm. m_vars vm' = (m_vars (fs_vars s))(i \<mapsto> \<lparr>v_id = i, v_external = 0, v_name = nm\<rparr>))) (fs_vars s)"
    by (rule getNewID_named_wp[OF inv le]) (auto simp: aiger_sign_def)
  then have v: "m_nextID vm' = m_nextID (fs_vars s) + 2" "vm_inv vm'" "\<forall>v. isKnown (fs_vars s) v \<longrightarrow> isKnown vm' v"
    unfolding wp_iff i(1) by (auto simp: isKnown_def)
  have "\<not> is_negated (m_nextID (fs_vars s))" using inv by (simp add: vm_inv_def)
  then have "unat (m_nextID vm') = unat (m_nextID (fs_vars s)) + 2" using even_next_step(4)[OF _ le] v(1) by simp
  then show "fs_grown vm0 s'" using g v(2,3) by (auto simp: fs_grown_def grown_def i(2))
qed

lemma fs_grown_solver [simp]: "fs_grown vm0 (s\<lparr>ts_solver := A\<rparr>) = fs_grown vm0 s" "fs_grown vm0 (s\<lparr>ts_unrolled := C\<rparr>) = fs_grown vm0 s"
    "fs_grown vm0 (s\<lparr>fs_inited := b\<rparr>) = fs_grown vm0 s"
  by (simp_all add: fs_grown_def)

lemma fs_grown_onSolver [keep]: "keeps (fs_grown vm0) (ts_onSolver m)"
  unfolding ts_onSolver_def by (rule keeps_zoomS) simp

lemma fs_grown_setters [keep]: "keeps (fs_grown vm0) (modifyS (\<lambda>s. s\<lparr>ts_unrolled := C\<rparr>))" "keeps (fs_grown vm0) (modifyS (\<lambda>s. s\<lparr>fs_inited := True\<rparr>))"
  by (rule keeps_modifyS, simp)+

lemma fs_grown_levelAct [keep]: "keeps (fs_grown vm0) (fs_levelAct L)"
  unfolding fs_levelAct_def by (cases L) (auto intro!: keep)

lemma fs_grown_send [keep]: "keeps (fs_grown vm0) (fs_activatedClauseOf T i)" "keeps (fs_grown vm0) (fs_sendLemma T i)"
    "keeps (fs_grown vm0) (fs_sendFrame T L)" "keeps (fs_grown vm0) (fs_addLemma T i)"
proof -
  show 1: "keeps (fs_grown vm0) (fs_activatedClauseOf T i)" for i unfolding fs_activatedClauseOf_def by (intro keep)
  show 2: "keeps (fs_grown vm0) (fs_sendLemma T i)" for i unfolding fs_sendLemma_def by (intro keep 1)
  show "keeps (fs_grown vm0) (fs_sendFrame T L)" unfolding fs_sendFrame_def by (intro keep 2)
  show "keeps (fs_grown vm0) (fs_addLemma T i)" unfolding fs_addLemma_def by (intro keep 2)
qed

lemma fs_grown_query [keep]: "keeps (fs_grown vm0) (fs_renewSAT B opt T)" "keeps (fs_grown vm0) (fs_levelAssumps T L)"
    "keeps (fs_grown vm0) (fs_consecutionOpts B opt T co)" "keeps (fs_grown vm0) (fs_intersectionFull B opt T L c)"
    "keeps (fs_grown vm0) (fs_intersection B opt T L c)" "keeps (fs_grown vm0) (fs_consecution B opt T L c)"
    "keeps (fs_grown vm0) (fs_consecutionCore B opt T L c)" "keeps (fs_grown vm0) (fs_consecutionFull B opt T L c)"
proof -
  show 1: "keeps (fs_grown vm0) (fs_renewSAT B opt T)"
    unfolding fs_renewSAT_def ts_renewSAT_def ts_computeSimplifiedTR_def ts_sendTR_def by (intro keep)
  show 2: "keeps (fs_grown vm0) (fs_levelAssumps T L)" unfolding fs_levelAssumps_def by (intro keep)
  show 3: "keeps (fs_grown vm0) (fs_consecutionOpts B opt T co)" for co
    unfolding fs_consecutionOpts_def fs_levelAssumps_def by (intro keep 1)
  show 4: "keeps (fs_grown vm0) (fs_intersectionFull B opt T L c)"
    unfolding fs_intersectionFull_def by (intro keep 1 2)
  show "keeps (fs_grown vm0) (fs_intersection B opt T L c)" unfolding fs_intersection_def by (intro keep 4)
  show "keeps (fs_grown vm0) (fs_consecution B opt T L c)" "keeps (fs_grown vm0) (fs_consecutionCore B opt T L c)"
    "keeps (fs_grown vm0) (fs_consecutionFull B opt T L c)"
    unfolding fs_consecution_def fs_consecutionCore_def fs_consecutionFull_def by (intro keep 3)+
qed


subsection \<open>A run\<close>

definition i3_grown :: "varManager \<Rightarrow> ic3 \<Rightarrow> bool" where
  "i3_grown vm0 s = fs_grown vm0 (i3_frames s)"

lemma i3_grown_fields [simp]:
  "i3_grown vm0 (s\<lparr>i3_vars := fs_vars f, i3_cons := f\<rparr>) = fs_grown vm0 f" "i3_grown vm0 (s\<lparr>i3_trace := T\<rparr>) = i3_grown vm0 s"
  "i3_grown vm0 (s\<lparr>i3_obls := p\<rparr>) = i3_grown vm0 s" "i3_grown vm0 (s\<lparr>i3_lift := l\<rparr>) = i3_grown vm0 s"
  by (simp_all add: i3_grown_def)

lemma i3_grown_onCons [keep]: "(\<And>T. keeps (fs_grown vm0) (p T)) \<Longrightarrow> keeps (i3_grown vm0) (i3_onCons p)"
  unfolding keeps_def[of "i3_grown vm0"] i3_onCons_def bindS_def getS_def zoomS_def
  using keepsD by (fastforce simp: i3_grown_def[of _ "_ :: ic3"] split: sum.splits)

lemma i3_grown_onLift [keep]: "keeps (i3_grown vm0) (i3_onLift p)"
  unfolding i3_onLift_def by (intro keep keeps_zoomS) simp

lemma i3_grown_onTrace [keep]: "keeps (i3_grown vm0) (i3_onTrace p)"
  unfolding i3_onTrace_def by (rule keeps_zoomS) simp

lemma i3_grown_obls [keep]: "keeps (i3_grown vm0) (i3_newObligation c L q d e)" "keeps (i3_grown vm0) (i3_updateObligation i g)"
    "keeps (i3_grown vm0) i3_clearObligationPool"
  unfolding i3_newObligation_def i3_updateObligation_def i3_clearObligationPool_def
  by (intro keep keeps_modifyS, simp)+

lemma i3_grown_initiation [keep]: "keeps (i3_grown vm0) (i3_initiation B opt c)"
  unfolding i3_initiation_def by (intro keep)

lemma i3_grown_reinit [keep]: "keeps (i3_grown vm0) (reinit_loop B opt fuel s t j i)"
proof (induction fuel arbitrary: t j i)
  case (Suc fuel)
  show ?case unfolding reinit_loop.simps Let_def by (intro keep Suc)
qed (simp add: keep)

lemma i3_grown_initiate [keep]: "keeps (i3_grown vm0) (i3_initiate B opt s c)"
  unfolding i3_initiate_def i3_reinitiate_def by (intro keep)

lemma i3_grown_gen [keep]: "keeps (i3_grown vm0) (gen_loop B opt fuel k s i)"
proof (induction fuel arbitrary: s i)
  case (Suc fuel)
  show ?case unfolding gen_loop.simps Let_def by (intro keep Suc)
qed (simp add: keep)

lemma i3_grown_rounds [keep]: "keeps (i3_grown vm0) (gen_rounds B opt fuel s L)"
proof (induction fuel arbitrary: s)
  case (Suc fuel)
  show ?case unfolding gen_rounds.simps i3_generalizeIteration_def by (intro keep Suc)
qed (simp add: keep)

lemma i3_grown_block [keep]: "keeps (i3_grown vm0) (i3_block B opt s L)"
  unfolding i3_block_def i3_generalize_def by (intro keep)

lemma i3_grown_lemma [keep]: "keeps (i3_grown vm0) (i3_addLemma c L)" "keeps (i3_grown vm0) (i3_pushLemma i L)"
  unfolding i3_addLemma_def i3_pushLemma_def by (intro keep)+

lemma i3_grown_rb [keep]: "keeps (i3_grown vm0) (rb_loop B opt fuel n q)"
proof (induction fuel arbitrary: q)
  case 0
  show ?case by (cases q) (simp_all add: keep)
next
  case (Suc fuel)
  show ?case
  proof (cases q)
    case (Cons x xs)
    show ?thesis unfolding Cons rb_loop.simps Let_def by (intro keep Suc)
  qed (simp add: keep)
qed

lemma i3_grown_pushFrame [keep]: "keeps (i3_grown vm0) (i3_pushFrame B opt k frame)"
proof (induction frame)
  case (Cons i frame)
  show ?case unfolding i3_pushFrame.simps by (intro keep Cons)
qed (simp add: keep)

lemma i3_grown_push [keep]: "keeps (i3_grown vm0) (i3_pushFrom B opt fuel k)"
proof (induction fuel arbitrary: k)
  case (Suc fuel)
  show ?case unfolding i3_pushFrom.simps i3_pushFrameToInf_def by (intro keep Suc)
qed (auto intro!: keep)

lemma i3_grown_isSafe [keep]: "keeps (i3_grown vm0) (i3_isSafe B opt c)"
  unfolding i3_isSafe_def by (intro keep)

lemma i3_grown_loop [keep]: "keeps (i3_grown vm0) (prove_loop B opt fuel n c k)"
proof (induction fuel arbitrary: k)
  case (Suc fuel)
  have "keeps (i3_grown vm0) (case level of \<infinity> \<Rightarrow> retS None | enat l \<Rightarrow> prove_loop B opt fuel n c (l + 1))" for level
    by (cases level) (simp_all add: keep Suc del: One_nat_def)
  then show ?case unfolding prove_loop.simps i3_recursiveBlock_def i3_pushLemmas_def by (intro keep)
qed (simp add: keep)

lemma i3_grown_prove: "keeps (i3_grown vm0) (i3_prove B opt fuel)"
proof -
  have "keeps (i3_grown vm0) (case r of Some cex \<Rightarrow> retS \<lparr>sr_result = UNSAFE, sr_proof = [], sr_cex = cex\<rparr>
     | None \<Rightarrow> bindS i3_recordProof (\<lambda>proof. retS \<lparr>sr_result = SAFE, sr_proof = proof, sr_cex = []\<rparr>))" for r
    unfolding i3_recordProof_def by (cases r) (auto intro!: keep)
  then show ?thesis unfolding i3_prove_def i3_proveTarget_def i3_checkInitial_def by (intro keep)
qed

subsection \<open>A run on a shared manager\<close>

definition i3_proveOn :: "backend \<Rightarrow> bool \<Rightarrow> nat \<Rightarrow> anyTR \<Rightarrow> (varManager, safetyResult) sm" where
  "i3_proveOn B opt fuel t = bindS getS (\<lambda>vm. bindS (liftS (bindR (i3_new vm t) (i3_prove B opt fuel))) (\<lambda>(r, s).
     thenS (modifyS (\<lambda>_. i3_vars s)) (retS r)))"

lemma i3_proveOn_wp:
  assumes B: "sat_backend B" and t: "tr_wf t" "functional t" "strip (tr_bad (baseTR t)) \<noteq> ID_FALSE"
    and vm: "vm_owns vm t" "room (card (ic3_cubes t) + 2 + k) vm"
    and i: "init_cubes t \<noteq> {} \<or> tr_latchIDs (baseTR t) = []" and fuel: "ic3_fuel (card (ic3_cubes t)) \<le> fuel"
  shows "wp (i3_proveOn B opt fuel t) (\<lambda>r vm'. result_ok t {} r \<and> room k vm' \<and> (\<forall>v. isKnown vm v \<longrightarrow> isKnown vm' v)) vm"
proof -
  let ?M = "card (ic3_cubes t) + 2"
  have set: "ic3_setting B t {}" by (intro ic3_setting.intro B ic3_setting_axioms.intro t) (use i in auto)
  have r: "room ?M vm" by (rule room_mono[OF vm(2)]) simp
  obtain s where s: "i3_new vm t = Inr s" "i3_ok t {} ?M s" "i3_vars s = vm"
    using i3_new_wp[OF t(1) vm(1) r] by (auto simp: wpr_iff)
  obtain q s' where q: "i3_prove B opt fuel s = Inr (q, s')" "i3_ok t {} ?M s'" "result_ok t {} q"
    using ic3_setting.i3_prove_wp[OF set s(2) order_refl fuel, of opt] by (auto simp: wp_iff)
  have "i3_grown vm s" using vm(2) s(3) by (simp add: i3_grown_def fs_grown_def grown_def i3_frames_def room_def)
  then have "i3_grown vm s'" using keepsD[OF i3_grown_prove _ q(1)] by blast
  then have g: "grown vm (i3_vars s') (length (fs_activation (i3_cons s')))" by (simp add: i3_grown_def fs_grown_def i3_frames_def)
  have "length (fs_activation (i3_cons s')) \<le> ?M" using q(2) by (simp add: i3_ok_def fs_inv_def fs_acts_def i3_frames_def)
  from grown_room[OF g this vm(2)] have "room k (i3_vars s')" .
  moreover have "\<forall>v. isKnown vm v \<longrightarrow> isKnown (i3_vars s') v" using g by (simp add: grown_def)
  ultimately show ?thesis using s q by (simp add: i3_proveOn_def)
qed

end
