(* ===== verification/TransVariants.thy ===== *)
theory TransVariants
  imports TransBuild
begin

text \<open>
  What the gate-subset constructor and the debug enhancement of \<open>TransBuild\<close> produce.  The subset
  constructor keeps the latches reachable backwards (\<open>relevant\<close>), and the result over-approximates
  the original relation.  The debug model adds one fresh latch and one fresh input per gate; a gate
  whose debug latch is on takes the value of its input.
\<close>

subsection \<open>The gate-subset constructor\<close>

text \<open>The IDs reachable backwards from the bad literal and the inputs of the kept gates, through
  latches only.\<close>

inductive_set relevant :: "transRel \<Rightarrow> id list \<Rightarrow> id set" for t gates where
  rel_bad: "tr_bad t \<in> relevant t gates"
| rel_rhs0: "(k, g) \<in> set (tr_gates t) \<Longrightarrow> k \<in> set gates \<Longrightarrow> strip (ag_rhs0 g) \<in> relevant t gates"
| rel_rhs1: "(k, g) \<in> set (tr_gates t) \<Longrightarrow> k \<in> set gates \<Longrightarrow> strip (ag_rhs1 g) \<in> relevant t gates"
| rel_next: "(k, l) \<in> set (tr_latches t) \<Longrightarrow> k \<in> relevant t gates \<Longrightarrow> strip (la_next l) \<in> relevant t gates"

definition rs_ok :: "transRel \<Rightarrow> id list \<Rightarrow> restrictState \<Rightarrow> bool" where
  "rs_ok t gates r = (rs_relevant r \<subseteq> relevant t gates \<and> set (rs_latches r) \<subseteq> set (tr_latches t)
     \<and> rs_latchIDs r = map fst (rs_latches r) \<and> distinct (map fst (rs_latches r))
     \<and> (\<forall>(k, l)\<in>set (rs_latches r). k \<in> rs_relevant r \<and> strip (la_next l) \<in> rs_relevant r))"

lemma restrict_latch_ok:
  assumes "rs_ok t gates r" "p \<in> set (tr_latches t)"
  shows "rs_ok t gates (restrict_latch p r) \<and> rs_relevant r \<subseteq> rs_relevant (restrict_latch p r)"
proof -
  obtain k l where p: "p = (k, l)" by (cases p)
  show ?thesis
    using assms rel_next[of k l t gates] unfolding p
    by (auto simp: restrict_latch_def rs_ok_def Let_def map_of_eq_None_iff image_iff)
qed

lemma restrict_fold_ok:
  assumes "rs_ok t gates r" "set ls \<subseteq> set (tr_latches t)"
  shows "rs_ok t gates (fold restrict_latch ls r) \<and> rs_relevant r \<subseteq> rs_relevant (fold restrict_latch ls r)"
  using assms
proof (induction ls arbitrary: r)
  case (Cons p ls)
  have "p \<in> set (tr_latches t)" using Cons.prems(2) by simp
  from restrict_latch_ok[OF Cons.prems(1) this] show ?case
    using Cons.IH[of "restrict_latch p r"] Cons.prems(2) by auto
qed simp

lemma restrict_fold_done:
  assumes "rs_fixpoint (fold restrict_latch ls r)"
  shows "rs_fixpoint r \<and> rs_relevant (fold restrict_latch ls r) = rs_relevant r
    \<and> (\<forall>p\<in>set ls. fst p \<in> rs_relevant r \<longrightarrow> map_of (rs_latches (fold restrict_latch ls r)) (fst p) \<noteq> None)"
  using assms
proof (induction ls arbitrary: r)
  case (Cons p ls)
  let ?r = "restrict_latch p r"
  have 1: "rs_fixpoint ?r" "rs_relevant (fold restrict_latch ls ?r) = rs_relevant ?r"
    "\<forall>q\<in>set ls. fst q \<in> rs_relevant ?r \<longrightarrow> map_of (rs_latches (fold restrict_latch ls ?r)) (fst q) \<noteq> None"
    using Cons.IH[of ?r] Cons.prems by auto
  have 2: "rs_fixpoint r" "rs_relevant ?r = rs_relevant r"
    using 1(1) by (cases p, auto simp: restrict_latch_def Let_def split: if_splits)+
  have 3: "map_of (rs_latches (fold restrict_latch ls ?r)) (fst p) \<noteq> None" if "fst p \<in> rs_relevant r"
  proof -
    have "fst p \<in> dom (map_of (rs_latches ?r))" using that by (simp add: restrict_latch_keys)
    then show ?thesis using restrict_fold_keys[of ?r ls] by blast
  qed
  show ?case using 1 2 3 by simp
qed simp

lemma restrict_loop_ok:
  assumes "rs_ok t gates r" "ls = tr_latches t"
  shows "rs_ok t gates (restrict_loop ls r) \<and> rs_relevant r \<subseteq> rs_relevant (restrict_loop ls r)
    \<and> (\<forall>p\<in>set ls. fst p \<in> rs_relevant (restrict_loop ls r) \<longrightarrow> map_of (rs_latches (restrict_loop ls r)) (fst p) \<noteq> None)"
  using assms
proof (induction ls r rule: restrict_loop.induct)
  case (1 ls r)
  let ?r = "restrict_pass ls r"
  have "rs_ok t gates (r\<lparr>rs_fixpoint := True\<rparr>)" using 1(2) by (simp add: rs_ok_def)
  then have ok: "rs_ok t gates ?r" "rs_relevant r \<subseteq> rs_relevant ?r"
    using restrict_fold_ok[of t gates "r\<lparr>rs_fixpoint := True\<rparr>" ls] 1(3) by (auto simp: restrict_pass_def)
  show ?case
  proof (cases "rs_fixpoint ?r")
    case True
    then have "restrict_loop ls r = ?r" by (subst restrict_loop.simps) simp
    then show ?thesis using ok True restrict_fold_done[of ls "r\<lparr>rs_fixpoint := True\<rparr>"] by (simp add: restrict_pass_def)
  next
    case False
    then have "restrict_loop ls r = restrict_loop ls ?r" by (subst restrict_loop.simps) simp
    then show ?thesis using 1(1)[OF refl False ok(1) 1(3)] ok(2) by auto
  qed
qed

lemma tr_restrict_spec:
  assumes wf: "tr_wf (PlainTR t)"
  shows "wpr (tr_restrict t gates) (\<lambda>t'. tr_bad t' = tr_bad t \<and> tr_constraints t' = tr_constraints t
     \<and> tr_gates t' = filter (\<lambda>(k, g). k \<in> set gates) (tr_gates t) \<and> tr_gateIDs t' = map fst (tr_gates t')
     \<and> set (tr_latches t') = {(k, l) \<in> set (tr_latches t). k \<in> relevant t gates} \<and> tr_latchIDs t' = map fst (tr_latches t')
     \<and> distinct (map fst (tr_latches t'))
     \<and> set (tr_inputIDs t') = strip ` (relevant t gates - fst ` set (tr_latches t') - fst ` set (tr_gates t')))"
proof -
  let ?gs = "restrict_gates t gates"
  let ?rel = "{tr_bad t} \<union> (\<Union>(k, g)\<in>set ?gs. {strip (ag_rhs0 g), strip (ag_rhs1 g)})"
  let ?st = "\<lparr>rs_relevant = ?rel, rs_latches = [], rs_latchIDs = [], rs_fixpoint = False\<rparr>"
  let ?r = "restrict_loop (tr_latches t) ?st"
  have ok0: "rs_ok t gates ?st" by (auto simp: rs_ok_def restrict_gates_def intro: relevant.intros)
  have ok: "rs_ok t gates ?r" "?rel \<subseteq> rs_relevant ?r"
    "\<And>p. p \<in> set (tr_latches t) \<Longrightarrow> fst p \<in> rs_relevant ?r \<Longrightarrow> map_of (rs_latches ?r) (fst p) \<noteq> None"
    using restrict_loop_ok[OF ok0 refl] by auto
  have dk: "distinct (map fst (tr_latches t))" using wf by (simp add: tr_wf_def)
  have copied: "(k, l) \<in> set (rs_latches ?r)" if kl: "(k, l) \<in> set (tr_latches t)" "k \<in> rs_relevant ?r" for k l
  proof -
    obtain l' where "map_of (rs_latches ?r) k = Some l'" using ok(3)[OF kl(1)] kl(2) by auto
    then have "(k, l') \<in> set (rs_latches ?r)" by (rule map_of_SomeD)
    moreover from this have "(k, l') \<in> set (tr_latches t)" using ok(1) by (auto simp: rs_ok_def)
    then have "l' = l" using dk kl(1) by (meson eq_key_imp_eq_value)
    ultimately show ?thesis by simp
  qed
  have rel: "rs_relevant ?r = relevant t gates"
  proof
    show "rs_relevant ?r \<subseteq> relevant t gates" using ok(1) by (simp add: rs_ok_def)
    show "relevant t gates \<subseteq> rs_relevant ?r"
    proof
      fix x
      assume "x \<in> relevant t gates"
      then show "x \<in> rs_relevant ?r"
      proof induction
        case (rel_next k l)
        then have "(k, l) \<in> set (rs_latches ?r)" using copied by blast
        then show ?case using ok(1) unfolding rs_ok_def by blast
      qed (use ok(2) in \<open>auto simp: restrict_gates_def\<close>)
    qed
  qed
  have lat: "set (rs_latches ?r) = {(k, l) \<in> set (tr_latches t). k \<in> relevant t gates}"
    using copied rel ok(1) unfolding rs_ok_def by auto
  have fin: "finite (relevant t gates)"
  proof (rule finite_subset)
    show "relevant t gates \<subseteq> insert (tr_bad t) ((\<lambda>(k, g). strip (ag_rhs0 g)) ` set (tr_gates t)
       \<union> (\<lambda>(k, g). strip (ag_rhs1 g)) ` set (tr_gates t) \<union> (\<lambda>(k, l). strip (la_next l)) ` set (tr_latches t))"
      by (rule subsetI, erule relevant.cases) (auto intro: rev_image_eqI)
  qed simp
  have as: "\<forall>(k, g)\<in>set ?gs. ag_lhs g = k" "\<forall>(k, l)\<in>set (rs_latches ?r). la_id l = k"
    using wf lat by (auto simp: tr_wf_def restrict_gates_def)
  have inp: "set (map strip (filter (\<lambda>i. map_of (rs_latches ?r) i = None \<and> map_of ?gs i = None)
       (sorted_list_of_set (rs_relevant ?r)))) = strip ` (relevant t gates - fst ` set (rs_latches ?r) - fst ` set ?gs)"
    unfolding rel set_map set_filter set_sorted_list_of_set[OF fin] map_of_eq_None_iff by auto
  show ?thesis
    unfolding tr_restrict_def Let_def wpr_assertR wpr_Inr
    using as inp lat ok(1) by (simp add: rs_ok_def restrict_gates_def)
qed

text \<open>The restricted relation over-approximates the original one.\<close>

lemma tr_restrict_over:
  assumes wf: "tr_wf (PlainTR t)" and t': "tr_restrict t gates = Inr t'"
  shows "frame_ok (PlainTR t) s \<Longrightarrow> frame_ok (PlainTR t') s"
    "step_ok (PlainTR t) s s' \<Longrightarrow> step_ok (PlainTR t') s s'"
    "init_ok (PlainTR t) s \<Longrightarrow> init_ok (PlainTR t') s"
    "bad_state (PlainTR t') s = bad_state (PlainTR t) s"
  using tr_restrict_spec[OF wf, of gates] unfolding t'
  by (auto simp: frame_ok_def step_ok_def init_ok_def bad_state_def)

lemma path_ok_over:
  assumes "\<And>s. frame_ok t s \<Longrightarrow> frame_ok t' s" "\<And>s s'. step_ok t s s' \<Longrightarrow> step_ok t' s s'" "path_ok t n ss"
  shows "path_ok t' n ss"
  using assms by (simp add: path_ok_def)

lemma tr_restrict_wf:
  assumes wf: "tr_wf (PlainTR t)" and t': "tr_restrict t gates = Inr t'"
  shows "tr_wf (PlainTR t')" "tr_vars (PlainTR t') \<subseteq> tr_vars (PlainTR t)"
proof -
  have s: "tr_bad t' = tr_bad t" "tr_constraints t' = tr_constraints t"
     "tr_gates t' = filter (\<lambda>(k, g). k \<in> set gates) (tr_gates t)"
     "set (tr_latches t') = {(k, l) \<in> set (tr_latches t). k \<in> relevant t gates}" "tr_latchIDs t' = map fst (tr_latches t')"
     "distinct (map fst (tr_latches t'))"
     "set (tr_inputIDs t') = strip ` (relevant t gates - fst ` set (tr_latches t') - fst ` set (tr_gates t'))"
    using tr_restrict_spec[OF wf, of gates] unfolding t' by simp_all
  have rel: "strip v \<in> tr_vars (PlainTR t)" if "v \<in> relevant t gates" for v
    using that by cases (auto simp: tr_vars_def)
  have rel': "v \<in> strip ` relevant t gates \<Longrightarrow> v \<in> tr_vars (PlainTR t)" for v using rel by blast
  show sub: "tr_vars (PlainTR t') \<subseteq> tr_vars (PlainTR t)"
  proof -
    have "strip (strip v) \<in> tr_vars (PlainTR t)" if "v \<in> relevant t gates" for v using rel[OF that] by simp
    then have i: "strip ` set (tr_inputIDs t') \<subseteq> tr_vars (PlainTR t)" unfolding s(7) by blast
    have l: "strip ` set (tr_latchIDs t') \<subseteq> tr_vars (PlainTR t)" using s(4) by (force simp: s(5) tr_vars_def)
    show ?thesis
      using i l s(3,4) unfolding tr_vars_def[of "PlainTR t'"] by (auto simp: s(1,2) tr_vars_def)
  qed
  have dg: "distinct (map fst (tr_gates t'))" using wf unfolding s(3) tr_wf_def by (simp add: distinct_map_filter)
  show "tr_wf (PlainTR t')"
    unfolding tr_wf_def baseTR.simps anyTR.case
  proof (intro conjI)
    show "\<forall>v\<in>tr_vars (PlainTR t'). unprime v = v \<and> is_valid_id v" using sub wf unfolding tr_wf_def by blast
    show "\<forall>(k, l)\<in>set (tr_latches t'). la_id l = k \<and> \<not> is_negated k \<and> MIN_ID \<le> k \<and> la_reset l \<in> {ID_NULL, ID_TRUE, ID_FALSE}"
      using wf s(4) by (auto simp: tr_wf_def)
    show "\<forall>(k, g)\<in>set (tr_gates t'). ag_lhs g = k" using wf s(3) by (auto simp: tr_wf_def)
    show "\<forall>i\<in>set (tr_inputIDs t'). \<not> is_negated i" unfolding s(7) by auto
    show "set (tr_latchIDs t') = fst ` set (tr_latches t')" by (simp add: s(5))
  qed (use s(6) dg in auto)
qed

text \<open>A bad literal that is negated is not found among the latches: the latch is dropped and its
  variable becomes an input.\<close>

definition bad_neg_latch :: transRel where
  "bad_neg_latch = \<lparr>tr_bad = negate 4, tr_latches = [(4, \<lparr>la_id = 4, la_next = 4, la_reset = ID_TRUE\<rparr>)],
     tr_gates = [], tr_latchIDs = [4], tr_inputIDs = [], tr_gateIDs = [], tr_constraints = []\<rparr>"

lemma bad_neg_latch_restrict:
  "tr_restrict bad_neg_latch (tr_gateIDs bad_neg_latch) = Inr \<lparr>tr_bad = negate 4, tr_latches = [],
     tr_gates = [], tr_latchIDs = [], tr_inputIDs = [4], tr_gateIDs = [], tr_constraints = []\<rparr>"
  by (simp add: tr_restrict_def restrict_gates_def bad_neg_latch_def restrict_loop.simps restrict_pass_def
      restrict_latch_def negate_def) (simp add: strip_def is_negated_def negate_def)

lemma tr_restrict_negated_bad:
  assumes wf: "tr_wf (PlainTR t)" and neg: "is_negated (tr_bad t)" and L: "strip (tr_bad t) \<in> set (tr_latchIDs t)"
    and g: "\<forall>(k, g)\<in>set (tr_gates t). strip (tr_bad t) \<notin> {strip (ag_lhs g), strip (ag_rhs0 g), strip (ag_rhs1 g)}"
    and l: "\<forall>(k, l)\<in>set (tr_latches t). strip (la_next l) = strip (tr_bad t) \<longrightarrow> k = strip (tr_bad t)"
    and c: "\<forall>c\<in>set (tr_constraints t). strip c \<noteq> strip (tr_bad t)"
  shows "wpr (tr_restrict t gates) (\<lambda>t' :: transRel. strip (tr_bad t) \<notin> set (tr_latchIDs t') \<and> strip (tr_bad t) \<in> set (tr_inputIDs t')
    \<and> (\<forall>n ss. init_ok (PlainTR t') (ss 0) \<longrightarrow> path_ok (PlainTR t') n ss \<longrightarrow>
         init_ok (PlainTR t') ((ss 0)(strip (tr_bad t) := False)) \<and> path_ok (PlainTR t') n (\<lambda>i. (ss i)(strip (tr_bad t) := False))
         \<and> (\<forall>i. bad_state (PlainTR t') ((ss i)(strip (tr_bad t) := False)))))"
proof (rule wpr_mono[OF tr_restrict_spec[OF wf, of gates]], elim conjE)
  fix t' :: transRel
  assume t': "tr_bad t' = tr_bad t" "tr_constraints t' = tr_constraints t" "tr_gates t' = filter (\<lambda>(k, g). k \<in> set gates) (tr_gates t)"
    "set (tr_latches t') = {(k, l) \<in> set (tr_latches t). k \<in> relevant t gates}" "tr_latchIDs t' = map fst (tr_latches t')"
    "set (tr_inputIDs t') = strip ` (relevant t gates - fst ` set (tr_latches t') - fst ` set (tr_gates t'))"
  let ?L = "strip (tr_bad t)" and ?c = "\<lambda>s :: assignment. s(strip (tr_bad t) := False)"
  have bn: "tr_bad t \<noteq> ?L" using neg by (metis is_negated_strip)
  have rel: "x \<noteq> ?L" if "x \<in> relevant t gates" for x
    using that
  proof induction
    case (rel_rhs0 k a) then show ?case using g by auto
  next
    case (rel_rhs1 k a) then show ?case using g by auto
  next
    case (rel_next k a) then show ?case using l by auto
  qed (rule bn)
  have keys: "\<not> is_negated k" "la_id a = k" if "(k, a) \<in> set (tr_latches t)" for k a using wf that by (auto simp: tr_wf_def)
  have lat: "k \<noteq> ?L" "strip (la_next a) \<noteq> ?L" "(k, a) \<in> set (tr_latches t)" if "(k, a) \<in> set (tr_latches t')" for k a
    using that t'(4) rel relevant.rel_next by blast+
  have "?L \<notin> set (tr_latchIDs t')" using lat(1) by (force simp: t'(5))
  moreover have "tr_bad t \<notin> fst ` set (tr_latches t')" using keys(1) lat(3) neg by fastforce
  moreover have "tr_bad t \<notin> fst ` set (tr_gates t')"
  proof
    assume "tr_bad t \<in> fst ` set (tr_gates t')"
    then obtain a where a: "(tr_bad t, a) \<in> set (tr_gates t)" by (auto simp: t'(3))
    then have "ag_lhs a = tr_bad t" using wf by (auto simp: tr_wf_def)
    then show False using g a by auto
  qed
  ultimately have inp: "?L \<notin> set (tr_latchIDs t')" "?L \<in> set (tr_inputIDs t')"
    unfolding t'(6) using relevant.rel_bad[of t gates] by auto
  have lit: "lit_true (?c s) x = lit_true s x" if "strip x \<noteq> ?L" for s x using that by (simp add: lit_true_def)
  have gate: "gate_ok a (?c s) = gate_ok a s" if "(k, a) \<in> set (tr_gates t')" for k a s
    using g that t'(3) lit by (auto simp: gate_ok_def)
  have fr: "frame_ok (PlainTR t') (?c s) = frame_ok (PlainTR t') s" for s
    unfolding frame_ok_def baseTR.simps any_gate_ok.simps using gate lit c by (auto simp: t'(2))
  have st: "step_ok (PlainTR t') (?c s) (?c s') = step_ok (PlainTR t') s s'" for s s'
  proof -
    have "lit_true (?c s') k = lit_true (?c s) (la_next a) \<longleftrightarrow> lit_true s' k = lit_true s (la_next a)" if "(k, a) \<in> set (tr_latches t')" for k a
      using lit lat[OF that] keys(1)[OF lat(3)[OF that]] by (simp add: strip_id)
    then show ?thesis unfolding step_ok_def baseTR.simps by blast
  qed
  have it: "init_ok (PlainTR t') (?c s) = init_ok (PlainTR t') s" for s
  proof -
    have "lit_true (?c s) (la_id a) = lit_true s (la_id a)" if "(k, a) \<in> set (tr_latches t')" for k a
      using lit lat[OF that] keys[OF lat(3)[OF that]] by (simp add: strip_id)
    then show ?thesis unfolding init_ok_def baseTR.simps by blast
  qed
  have bad: "bad_state (PlainTR t') (?c s)" for s using neg by (simp add: bad_state_def t'(1) lit_true_def)
  show "?L \<notin> set (tr_latchIDs t') \<and> ?L \<in> set (tr_inputIDs t')
    \<and> (\<forall>n ss. init_ok (PlainTR t') (ss 0) \<longrightarrow> path_ok (PlainTR t') n ss \<longrightarrow>
         init_ok (PlainTR t') (?c (ss 0)) \<and> path_ok (PlainTR t') n (\<lambda>i. ?c (ss i)) \<and> (\<forall>i. bad_state (PlainTR t') (?c (ss i))))"
    using inp it fr st bad by (simp add: path_ok_def)
qed

subsection \<open>The debug model\<close>

lemma createInternalVar_wp:
  assumes r: "room (Suc k) (fst s)"
  shows "wp (createInternalVar name) (\<lambda>v s'. snd s' = snd s \<and> room k (fst s') \<and> \<not> isKnown (fst s) (v_id v)
     \<and> isKnown (fst s') (v_id v) \<and> \<not> is_negated (v_id v) \<and> MIN_ID \<le> v_id v
     \<and> (\<forall>i. isKnown (fst s) i \<longrightarrow> isKnown (fst s') i)) s"
proof -
  have inv: "vm_inv (fst s)" using r by (rule room_0)
  have le: "m_nextID (fst s) \<le> MAX_ID" using r by (simp add: room_def word_le_nat_alt MAX_ID_val)
  have ev: "\<not> is_negated (m_nextID (fst s))" "MIN_ID \<le> m_nextID (fst s)" using inv by (simp_all add: vm_inv_def)
  have z: "\<not> aiger_sign 0" by (simp add: aiger_sign_def)
  have "wp (getNewID_named name 0) (\<lambda>i vm'. wp (tb_varOf i) (\<lambda>v s'. snd s' = snd s \<and> room k (fst s')
     \<and> \<not> isKnown (fst s) (v_id v) \<and> isKnown (fst s') (v_id v) \<and> \<not> is_negated (v_id v) \<and> MIN_ID \<le> v_id v
     \<and> (\<forall>i. isKnown (fst s) i \<longrightarrow> isKnown (fst s') i)) (vm', snd s)) (fst s)"
  proof (rule wp_mono[OF getNewID_named_wp[OF inv le z]], simp, elim conjE exE)
    fix i vm' nm
    assume a: "i = m_nextID (fst s)" "\<not> isKnown (fst s) i" "m_nextID vm' = i + 2" "vm_inv vm'"
      "m_vars vm' = (m_vars (fst s))(i \<mapsto> \<lparr>v_id = i, v_external = 0, v_name = nm\<rparr>)"
    have kn: "isKnown vm' i" "\<forall>j. isKnown (fst s) j \<longrightarrow> isKnown vm' j" using a(5) by (auto simp: isKnown_def)
    obtain v where v: "varOf vm' i = Inr v" "v_id v = i" using varOf_known[OF a(4) kn(1)] by blast
    have "room k vm'" using r a even_next_step(4)[OF ev(1) le] by (simp add: room_def)
    then show "wp (tb_varOf i) (\<lambda>v s'. snd s' = snd s \<and> room k (fst s')
     \<and> \<not> isKnown (fst s) (v_id v) \<and> isKnown (fst s') (v_id v) \<and> \<not> is_negated (v_id v) \<and> MIN_ID \<le> v_id v
     \<and> (\<forall>i. isKnown (fst s) i \<longrightarrow> isKnown (fst s') i)) (vm', snd s)"
      using v kn a(1,2) ev by (simp add: tb_varOf_def)
  qed
  then show ?thesis by (simp add: createInternalVar_def createVar_def z)
qed

lemma toExternal_known:
  assumes "vm_inv vm" "isKnown vm (strip i)"
  shows "\<exists>e. toExternal vm i = Inr e"
proof -
  obtain v where v: "m_vars vm (strip i) = Some v" using assms(2) by (auto simp: isKnown_def)
  note k = known_valid[OF assms(1) v]
  have "is_valid_id i" using k(1,2) by (cases "is_negated i") (simp_all add: strip_def)
  then show ?thesis using k(1,5) v by (simp add: toExternal_def)
qed

text \<open>The debug model after the gates \<open>gs\<close> were given the latches \<open>dls\<close> and the inputs \<open>ppis\<close>.\<close>

definition dbg_tr :: "transRel \<Rightarrow> id list \<Rightarrow> id list \<Rightarrow> id list \<Rightarrow> debugTR" where
  "dbg_tr t gs dls ppis = transRel.extend (t\<lparr>tr_latches := tr_latches t @ map (\<lambda>d. (d, \<lparr>la_id = d, la_next = d, la_reset = ID_NULL\<rparr>)) dls,
       tr_latchIDs := tr_latchIDs t @ dls, tr_inputIDs := tr_inputIDs t @ ppis\<rparr>)
     \<lparr>dt_debugLatchIDs = dls, dt_debugPPIs = ppis, dt_IDToDebugLatch = map_of (zip gs dls),
      dt_debugLatchToID = map_of (zip dls gs), dt_IDToDebugPPI = map_of (zip gs ppis)\<rparr>"

lemma dbg_tr_fields [simp]:
  "baseTR (DebugTR (dbg_tr t gs dls ppis)) = t\<lparr>tr_latches := tr_latches t @ map (\<lambda>d. (d, \<lparr>la_id = d, la_next = d, la_reset = ID_NULL\<rparr>)) dls,
       tr_latchIDs := tr_latchIDs t @ dls, tr_inputIDs := tr_inputIDs t @ ppis\<rparr>"
  "dt_IDToDebugLatch (dbg_tr t gs dls ppis) = map_of (zip gs dls)"
  "dt_debugLatchToID (dbg_tr t gs dls ppis) = map_of (zip dls gs)"
  "dt_IDToDebugPPI (dbg_tr t gs dls ppis) = map_of (zip gs ppis)"
  "dt_debugLatchIDs (dbg_tr t gs dls ppis) = dls"
  "dt_debugPPIs (dbg_tr t gs dls ppis) = ppis"
  "tr_gates (dbg_tr t gs dls ppis) = tr_gates t"
  "tr_gateIDs (dbg_tr t gs dls ppis) = tr_gateIDs t"
  "tr_latches (dbg_tr t gs dls ppis) = tr_latches t @ map (\<lambda>d. (d, \<lparr>la_id = d, la_next = d, la_reset = ID_NULL\<rparr>)) dls"
  "tr_inputIDs (dbg_tr t gs dls ppis) = tr_inputIDs t @ ppis"
  by (simp_all add: dbg_tr_def transRel.defs)

lemma dbg_tr_truncate [simp]: "transRel.truncate (dbg_tr t gs dls ppis) =
    t\<lparr>tr_latches := tr_latches t @ map (\<lambda>d. (d, \<lparr>la_id = d, la_next = d, la_reset = ID_NULL\<rparr>)) dls,
       tr_latchIDs := tr_latchIDs t @ dls, tr_inputIDs := tr_inputIDs t @ ppis\<rparr>"
  using dbg_tr_fields(1)[of t gs dls ppis] by (simp only: baseTR.simps)

lemma map_of_zip_snoc:
  assumes "length xs = length ys" "x \<notin> set xs"
  shows "(map_of (zip xs ys))(x \<mapsto> y) = map_of (zip (xs @ [x]) (ys @ [y]))"
proof -
  have "map_of (zip xs ys) x = None" using assms(2) by (auto simp: map_of_eq_None_iff dest: set_zip_leftD)
  then have "map_of (zip xs ys @ [(x, y)]) z = ((map_of (zip xs ys))(x \<mapsto> y)) z" for z
    by (cases "map_of (zip xs ys) z") (auto simp: map_add_def)
  then show ?thesis using assms(1) by (simp add: fun_eq_iff)
qed

text \<open>The new variables are unknown to the manager at the start and pairwise distinct.\<close>

definition dbg_fresh :: "varManager \<Rightarrow> varManager \<Rightarrow> id list \<Rightarrow> id list \<Rightarrow> bool" where
  "dbg_fresh vm vm' dls ppis = (distinct (dls @ ppis) \<and> (\<forall>i\<in>set (dls @ ppis). \<not> isKnown vm i \<and> isKnown vm' i
     \<and> \<not> is_negated i \<and> MIN_ID \<le> i) \<and> (\<forall>i. isKnown vm i \<longrightarrow> isKnown vm' i))"

lemma createDebugFor_wp:
  assumes own: "vm_owns vm (PlainTR t)" and keys: "fst ` set (tr_latches t) \<subseteq> tr_vars (PlainTR t)" "set (tr_inputIDs t) \<subseteq> tr_vars (PlainTR t)"
    and r: "room (k + 2) vm1" and g: "isKnown vm (strip g)" "g \<notin> set gs"
    and len: "length dls = length gs" "length ppis = length gs" and fr: "dbg_fresh vm vm1 dls ppis"
  shows "wp (createDebugFor g) (\<lambda>_ s. \<exists>dl ppi. snd s = dbg_tr t (gs @ [g]) (dls @ [dl]) (ppis @ [ppi])
     \<and> dbg_fresh vm (fst s) (dls @ [dl]) (ppis @ [ppi]) \<and> room k (fst s)) (vm1, dbg_tr t gs dls ppis)"
proof -
  let ?d = "dbg_tr t gs dls ppis"
  have r2: "room (Suc (Suc k)) vm1" using r by simp
  have gk: "isKnown vm1 (strip g)" using fr g(1) by (simp add: dbg_fresh_def)
  obtain e1 where e1: "toExternal vm1 g = Inr e1" using toExternal_known[OF room_0[OF r2] gk] by blast
  have noL: "map_of (zip gs dls) g = None" "map_of (zip gs ppis) g = None"
    using g(2) len by (auto simp: map_of_eq_None_iff dest: set_zip_leftD)
  have known_old: "x \<noteq> i" if "x \<in> fst ` set (tr_latches t) \<union> set (tr_inputIDs t)" "\<not> isKnown vm1 i" for x i
    using that own keys fr unfolding vm_owns_def dbg_fresh_def by blast
  show ?thesis
    unfolding createDebugFor_def wp_bindS wp_getS wp_thenS wp_assertS tb_toExternal_def wp_liftS fst_conv snd_conv e1 wpr_Inr dbg_tr_fields Let_def
  proof (rule conjI[OF noL(1)], rule wp_mono[OF createInternalVar_wp], simp, rule r2, elim conjE, goal_cases)
    case (1 dv s1)
    let ?dl = "v_id dv"
    have new: "?dl \<notin> set dls \<union> set ppis \<union> fst ` set (tr_latches t) \<union> set (tr_inputIDs t)"
      using 1(3) fr known_old[of _ ?dl] by (auto simp: dbg_fresh_def)
    have s1: "snd s1 = ?d" using 1(1) by simp
    have no1: "map_of (zip dls gs) ?dl = None" using new by (auto simp: map_of_eq_None_iff dest: set_zip_leftD)
    have no2: "map_of (tr_latches ?d) ?dl = None" using new by (auto simp: map_of_eq_None_iff image_iff)
    have gk1: "isKnown (fst s1) (strip g)" using 1(7) gk by simp
    obtain e2 where e2: "toExternal (fst s1) g = Inr e2" using toExternal_known[OF room_0[OF 1(2)] gk1] by blast
    let ?d1 = "?d\<lparr>tr_latches := tr_latches ?d @ [(?dl, \<lparr>la_id = ?dl, la_next = ?dl, la_reset = ID_NULL\<rparr>)], tr_latchIDs := tr_latchIDs ?d @ [?dl]\<rparr>"
    have "wp (createInternalVar (debugPPIName e2)) (\<lambda>di_var s2. dt_IDToDebugPPI (snd s2) g = None \<and> wp (createInput (v_id di_var))
        (\<lambda>_ s3. wp (modifyTR (\<lambda>d. d\<lparr>dt_debugLatchIDs := dt_debugLatchIDs d @ [?dl],
         dt_debugPPIs := dt_debugPPIs d @ [v_id di_var],
         dt_IDToDebugLatch := (dt_IDToDebugLatch d)(g \<mapsto> ?dl),
         dt_debugLatchToID := (dt_debugLatchToID d)(?dl \<mapsto> g),
         dt_IDToDebugPPI := (dt_IDToDebugPPI d)(g \<mapsto> v_id di_var)\<rparr>))
        (\<lambda>_ s. \<exists>dl ppi. snd s = dbg_tr t (gs @ [g]) (dls @ [dl]) (ppis @ [ppi])
     \<and> dbg_fresh vm (fst s) (dls @ [dl]) (ppis @ [ppi]) \<and> room k (fst s)) s3) s2) (fst s1, ?d1)"
    proof (rule wp_mono[OF createInternalVar_wp], simp, rule 1(2), elim conjE, goal_cases)
      case (1 iv s2)
      let ?pi = "v_id iv"
      have kn: "isKnown (fst s1) i" if "isKnown vm1 i" for i using that \<open>\<forall>i. isKnown (fst (vm1, ?d)) i \<longrightarrow> isKnown (fst s1) i\<close> by simp
      have new2: "?pi \<notin> set dls \<union> set ppis \<union> fst ` set (tr_latches t) \<union> set (tr_inputIDs t)" "?pi \<noteq> ?dl"
        using 1(3) kn fr known_old[of _ ?pi] \<open>isKnown (fst s1) ?dl\<close> by (auto simp: dbg_fresh_def)
      have s2: "snd s2 = ?d1" using 1(1) by simp
      have fresh: "dbg_fresh vm (fst s2) (dls @ [?dl]) (ppis @ [?pi])"
        using fr new new2 1 kn \<open>\<not> isKnown (fst (vm1, ?d)) ?dl\<close> \<open>isKnown (fst s1) ?dl\<close> \<open>\<not> is_negated ?dl\<close> \<open>MIN_ID \<le> ?dl\<close>
        unfolding dbg_fresh_def by auto
      have maps: "(map_of (zip gs dls))(g \<mapsto> ?dl) = map_of (zip (gs @ [g]) (dls @ [?dl]))"
        "(map_of (zip gs ppis))(g \<mapsto> ?pi) = map_of (zip (gs @ [g]) (ppis @ [?pi]))"
        "(map_of (zip dls gs))(?dl \<mapsto> g) = map_of (zip (dls @ [?dl]) (gs @ [g]))"
        using new g(2) len by (simp_all only: map_of_zip_snoc not_False_eq_True) (simp_all add: map_of_zip_snoc)
      have "?d1\<lparr>tr_inputIDs := tr_inputIDs ?d1 @ [?pi], dt_debugLatchIDs := dt_debugLatchIDs ?d1 @ [?dl],
         dt_debugPPIs := dt_debugPPIs ?d1 @ [?pi], dt_IDToDebugLatch := (dt_IDToDebugLatch ?d1)(g \<mapsto> ?dl),
         dt_debugLatchToID := (dt_debugLatchToID ?d1)(?dl \<mapsto> g),
         dt_IDToDebugPPI := (dt_IDToDebugPPI ?d1)(g \<mapsto> ?pi)\<rparr> = dbg_tr t (gs @ [g]) (dls @ [?dl]) (ppis @ [?pi])"
        using maps by (simp add: dbg_tr_def transRel.defs)
      then show ?case
        using new2 noL(2) fresh 1(2) by (auto simp: createInput_def s2)
    qed
    then show ?case
      using no1 no2 noL(1) e2 by (simp add: createLatch_def s1)
  qed
qed

lemma createDebugFor_loop:
  assumes "vm_owns vm (PlainTR t)" "fst ` set (tr_latches t) \<subseteq> tr_vars (PlainTR t)" "set (tr_inputIDs t) \<subseteq> tr_vars (PlainTR t)"
    and "room (k + 2 * length hs) vm1" "\<forall>g\<in>set hs. isKnown vm (strip g)" "distinct (gs @ hs)"
    and "length dls = length gs" "length ppis = length gs" "dbg_fresh vm vm1 dls ppis"
  shows "wp (iterS createDebugFor hs) (\<lambda>_ s. \<exists>dls ppis. snd s = dbg_tr t (gs @ hs) dls ppis
     \<and> length dls = length (gs @ hs) \<and> length ppis = length (gs @ hs) \<and> dbg_fresh vm (fst s) dls ppis \<and> room k (fst s))
     (vm1, dbg_tr t gs dls ppis)"
  using assms(4-)
proof (induction hs arbitrary: vm1 gs dls ppis)
  case (Cons g hs)
  have r: "room ((k + 2 * length hs) + 2) vm1" "isKnown vm (strip g)" "g \<notin> set gs" using Cons.prems by (simp_all add: algebra_simps)
  show ?case
    unfolding iterS.simps wp_bindS
  proof (rule wp_mono[OF createDebugFor_wp[OF assms(1-3) r Cons.prems(4-6)]], elim conjE exE)
    fix u s dl ppi
    assume 1: "snd s = dbg_tr t (gs @ [g]) (dls @ [dl]) (ppis @ [ppi])" "dbg_fresh vm (fst s) (dls @ [dl]) (ppis @ [ppi])"
      "room (k + 2 * length hs) (fst s)"
    have d: "distinct ((gs @ [g]) @ hs)" "\<forall>g\<in>set hs. isKnown vm (strip g)" "length (dls @ [dl]) = length (gs @ [g])"
      "length (ppis @ [ppi]) = length (gs @ [g])" using Cons.prems by auto
    have "s = (fst s, dbg_tr t (gs @ [g]) (dls @ [dl]) (ppis @ [ppi]))" using 1(1) by (metis prod.collapse)
    then show "wp (iterS createDebugFor hs) (\<lambda>_ s. \<exists>dls ppis. snd s = dbg_tr t (gs @ g # hs) dls ppis
     \<and> length dls = length (gs @ g # hs) \<and> length ppis = length (gs @ g # hs) \<and> dbg_fresh vm (fst s) dls ppis \<and> room k (fst s)) s"
      using Cons.IH[OF 1(3) d(2,1,3,4) 1(2)] by simp
  qed
qed auto

lemma tr_wf_keys:
  assumes "tr_wf (PlainTR t)"
  shows "fst ` set (tr_latches t) \<subseteq> tr_vars (PlainTR t)" "set (tr_inputIDs t) \<subseteq> tr_vars (PlainTR t)"
proof -
  show "fst ` set (tr_latches t) \<subseteq> tr_vars (PlainTR t)"
  proof
    fix k assume "k \<in> fst ` set (tr_latches t)"
    then obtain l where "(k, l) \<in> set (tr_latches t)" by auto
    moreover from this have "strip k = k" using assms by (auto simp: tr_wf_def strip_id)
    ultimately have "k \<in> (\<Union>(k, l)\<in>set (tr_latches t). {strip k, strip (la_id l), strip (la_next l)})" by force
    then show "k \<in> tr_vars (PlainTR t)" by (simp add: tr_vars_def)
  qed
  have "strip ` set (tr_inputIDs t) = set (tr_inputIDs t)" using assms by (auto simp: tr_wf_def strip_id)
  then show "set (tr_inputIDs t) \<subseteq> tr_vars (PlainTR t)" by (auto simp: tr_vars_def)
qed

text \<open>The debug model has one fresh latch and one fresh input per gate.\<close>

lemma dt_enhance_wp:
  assumes wf: "tr_wf (PlainTR t)" and own: "vm_owns vm (PlainTR t)" and gs: "distinct (tr_gateIDs t)" "set (tr_gateIDs t) = fst ` set (tr_gates t)"
    and r: "room (k + 2 * length (tr_gateIDs t)) vm"
  shows "wp (dt_enhance t) (\<lambda>d vm'. \<exists>dls ppis. d = dbg_tr t (tr_gateIDs t) dls ppis \<and> length dls = length (tr_gateIDs t)
     \<and> length ppis = length (tr_gateIDs t) \<and> dbg_fresh vm vm' dls ppis \<and> room k vm') vm"
proof -
  have st: "transRel.extend t \<lparr>dt_debugLatchIDs = [], dt_debugPPIs = [],
        dt_IDToDebugLatch = Map.empty, dt_debugLatchToID = Map.empty, dt_IDToDebugPPI = Map.empty\<rparr> = dbg_tr t [] [] []"
    by (simp add: dbg_tr_def transRel.defs)
  have kn: "\<forall>g\<in>set (tr_gateIDs t). isKnown vm (strip g)"
  proof
    fix g assume "g \<in> set (tr_gateIDs t)"
    then obtain a where a: "(g, a) \<in> set (tr_gates t)" using gs(2) by auto
    then have "ag_lhs a = g" using wf by (auto simp: tr_wf_def)
    then have "strip g \<in> (\<Union>(k, g)\<in>set (tr_gates t). {strip (ag_lhs g), strip (ag_rhs0 g), strip (ag_rhs1 g)})" using a by force
    then show "isKnown vm (strip g)" using own by (simp add: vm_owns_def tr_vars_def)
  qed
  have f0: "dbg_fresh vm vm [] []" by (simp add: dbg_fresh_def)
  have d0: "distinct ([] @ tr_gateIDs t)" using gs(1) by simp
  have "wp enhanceModel (\<lambda>_ s. \<exists>dls ppis. snd s = dbg_tr t ([] @ tr_gateIDs t) dls ppis
     \<and> length dls = length ([] @ tr_gateIDs t) \<and> length ppis = length ([] @ tr_gateIDs t) \<and> dbg_fresh vm (fst s) dls ppis \<and> room k (fst s))
     (vm, dbg_tr t [] [] [])"
    unfolding enhanceModel_def wp_bindS wp_getS snd_conv dbg_tr_fields
    by (rule createDebugFor_loop[OF own tr_wf_keys[OF wf] r kn d0 _ _ f0]) simp_all
  then obtain s dls ppis where "enhanceModel (vm, dbg_tr t [] [] []) = Inr ((), s)"
      "snd s = dbg_tr t (tr_gateIDs t) dls ppis" "length dls = length (tr_gateIDs t)" "length ppis = length (tr_gateIDs t)"
      "dbg_fresh vm (fst s) dls ppis" "room k (fst s)" by (auto simp: wp_iff)
  then show ?thesis unfolding dt_enhance_def st by (simp add: wp_iff) blast
qed

lemma tr_vars_sub: "tr_vars t \<subseteq> V \<longleftrightarrow> ID_FALSE \<in> V \<and> strip (tr_bad (baseTR t)) \<in> V
   \<and> (\<forall>(k, g)\<in>set (tr_gates (baseTR t)). strip (ag_lhs g) \<in> V \<and> strip (ag_rhs0 g) \<in> V \<and> strip (ag_rhs1 g) \<in> V)
   \<and> (\<forall>(k, l)\<in>set (tr_latches (baseTR t)). strip k \<in> V \<and> strip (la_id l) \<in> V \<and> strip (la_next l) \<in> V)
   \<and> (\<forall>c\<in>set (tr_constraints (baseTR t)). strip c \<in> V) \<and> (\<forall>i\<in>set (tr_inputIDs (baseTR t)). strip i \<in> V)
   \<and> (\<forall>i\<in>set (tr_latchIDs (baseTR t)). strip i \<in> V) \<and> debug_vars t \<subseteq> V"
  unfolding tr_vars_def by (auto split: prod.splits)

lemma dbg_tr_wf:
  assumes wf: "tr_wf (PlainTR t)" and own: "vm_owns vm (PlainTR t)" and gs: "distinct (tr_gateIDs t)" "set (tr_gateIDs t) = fst ` set (tr_gates t)"
    and len: "length dls = length (tr_gateIDs t)" "length ppis = length (tr_gateIDs t)"
    and fr: "dbg_fresh vm vm' dls ppis" and vm': "vm_inv vm'"
  shows "tr_wf (DebugTR (dbg_tr t (tr_gateIDs t) dls ppis))" "vm_owns vm' (DebugTR (dbg_tr t (tr_gateIDs t) dls ppis))"
proof -
  let ?d = "DebugTR (dbg_tr t (tr_gateIDs t) dls ppis)"
  have f: "\<forall>i\<in>set dls. \<not> isKnown vm i \<and> isKnown vm' i \<and> \<not> is_negated i \<and> MIN_ID \<le> i" "\<forall>i\<in>set ppis. \<not> isKnown vm i \<and> isKnown vm' i \<and> \<not> is_negated i"
    "distinct dls" "\<forall>i. isKnown vm i \<longrightarrow> isKnown vm' i" using fr by (auto simp: dbg_fresh_def)
  have dv: "debug_vars ?d \<subseteq> set dls \<union> set ppis"
    using f(1,2) by (auto simp: ran_def strip_id dest!: map_of_SomeD set_zip_rightD)
  have vars: "tr_vars ?d \<subseteq> tr_vars (PlainTR t) \<union> set dls \<union> set ppis"
  proof -
    have "tr_vars (PlainTR t) \<subseteq> tr_vars (PlainTR t)" by simp
    then show ?thesis
      unfolding tr_vars_sub[of ?d] tr_vars_sub[of "PlainTR t"] dbg_tr_fields(1) baseTR.simps(1)
      using dv f(1,2) by (auto simp: strip_id simp del: debug_vars.simps(2))
  qed
  have known: "isKnown vm' v" if "v \<in> tr_vars ?d" for v
    using that vars own f unfolding vm_owns_def by blast
  then show "vm_owns vm' ?d" by (simp add: vm_owns_def)
  have fk: "fst ` set (tr_latches t) \<inter> set dls = {}" using tr_wf_keys(1)[OF wf] own f(1) unfolding vm_owns_def by blast
  have dk: "distinct (map fst (tr_latches t))" "distinct (map fst (tr_gates t))" using wf by (simp_all add: tr_wf_def)
  have dom: "map_of (zip (tr_gateIDs t) dls) g \<noteq> None" "map_of (zip (tr_gateIDs t) ppis) g \<noteq> None" if "g \<in> set (tr_gateIDs t)" for g
    using that len by simp_all
  show "tr_wf ?d"
    unfolding tr_wf_def
  proof (intro conjI)
    show "\<forall>v\<in>tr_vars ?d. unprime v = v \<and> is_valid_id v" using known known_plain(1,2)[OF vm'] by blast
    show "distinct (map fst (tr_latches (baseTR ?d)))" using dk(1) f(3) fk by (simp add: comp_def)
    show "\<forall>(k, l)\<in>set (tr_latches (baseTR ?d)). la_id l = k \<and> \<not> is_negated k \<and> MIN_ID \<le> k \<and> la_reset l \<in> {ID_NULL, ID_TRUE, ID_FALSE}"
      using wf f(1) by (auto simp: tr_wf_def)
    show "set (tr_latchIDs (baseTR ?d)) = fst ` set (tr_latches (baseTR ?d))" using wf by (simp add: tr_wf_def image_Un image_image)
    show "\<forall>i\<in>set (tr_inputIDs (baseTR ?d)). \<not> is_negated i" using wf f(2) by (auto simp: tr_wf_def)
    show "case ?d of PlainTR _ \<Rightarrow> True | DebugTR d \<Rightarrow> \<forall>(k, g)\<in>set (tr_gates d).
       dt_IDToDebugLatch d (ag_lhs g) \<noteq> None \<and> dt_IDToDebugPPI d (ag_lhs g) \<noteq> None"
    proof -
      have "ag_lhs g \<in> set (tr_gateIDs t)" if "(k, g) \<in> set (tr_gates t)" for k g
      proof -
        have "k \<in> set (tr_gateIDs t)" using that unfolding gs(2) by force
        moreover have "ag_lhs g = k" using that wf by (auto simp: tr_wf_def)
        ultimately show ?thesis by simp
      qed
      then show ?thesis using dom by fastforce
    qed
  qed (use dk wf in \<open>auto simp: tr_wf_def\<close>)
qed

text \<open>Debugging semantics: a gate whose latch is on takes the value of its input; the others keep
  their function.\<close>

lemma dbg_gates_ok:
  assumes wf: "tr_wf (PlainTR t)" and gs: "distinct (tr_gateIDs t)" "set (tr_gateIDs t) = fst ` set (tr_gates t)"
    and len: "length dls = length (tr_gateIDs t)" "length ppis = length (tr_gateIDs t)"
  shows "(\<forall>(k, g)\<in>set (tr_gates t). any_gate_ok (DebugTR (dbg_tr t (tr_gateIDs t) dls ppis)) g s) \<longleftrightarrow>
     (\<forall>i<length (tr_gateIDs t). \<exists>g. (tr_gateIDs t ! i, g) \<in> set (tr_gates t)
        \<and> (if lit_true s (dls ! i) then lit_true s (ag_lhs g) = lit_true s (ppis ! i) else gate_ok g s))"
proof -
  let ?D = "dbg_tr t (tr_gateIDs t) dls ppis"
  let ?P = "\<lambda>i g. if lit_true s (dls ! i) then lit_true s (ag_lhs g) = lit_true s (ppis ! i) else gate_ok g s"
  have at: "any_gate_ok (DebugTR ?D) g s = ?P i g" if "i < length (tr_gateIDs t)" "ag_lhs g = tr_gateIDs t ! i" for i g
    using that len gs(1) by (simp add: map_of_zip_nth)
  have lhs: "(k, g) \<in> set (tr_gates t) \<Longrightarrow> ag_lhs g = k" for k g using wf by (auto simp: tr_wf_def)
  have dk: "distinct (map fst (tr_gates t))" using wf by (simp add: tr_wf_def)
  show "(\<forall>(k, g)\<in>set (tr_gates t). any_gate_ok (DebugTR ?D) g s) \<longleftrightarrow>
     (\<forall>i<length (tr_gateIDs t). \<exists>g. (tr_gateIDs t ! i, g) \<in> set (tr_gates t) \<and> ?P i g)" (is "?L = ?R")
  proof
    assume L: ?L
    show ?R
    proof (intro allI impI)
      fix i assume i: "i < length (tr_gateIDs t)"
      then have "tr_gateIDs t ! i \<in> fst ` set (tr_gates t)" using gs(2) nth_mem by blast
      then obtain g where g: "(tr_gateIDs t ! i, g) \<in> set (tr_gates t)" by auto
      then have "any_gate_ok (DebugTR ?D) g s" using L by blast
      then show "\<exists>g. (tr_gateIDs t ! i, g) \<in> set (tr_gates t) \<and> ?P i g" using at[OF i lhs[OF g]] g by blast
    qed
  next
    assume R: ?R
    show ?L
    proof (clarify)
      fix k g assume kg: "(k, g) \<in> set (tr_gates t)"
      then have "k \<in> set (tr_gateIDs t)" unfolding gs(2) by force
      then obtain i where i: "i < length (tr_gateIDs t)" "tr_gateIDs t ! i = k" by (auto simp: in_set_conv_nth)
      then obtain g' where g': "(k, g') \<in> set (tr_gates t)" "?P i g'" using R by blast
      then have "g' = g" using dk kg by (meson eq_key_imp_eq_value)
      moreover have "any_gate_ok (DebugTR ?D) g s = ?P i g" by (rule at[OF i(1)]) (use i(2) lhs[OF kg] in simp)
      ultimately show "any_gate_ok (DebugTR ?D) g s" using g'(2) by blast
    qed
  qed
qed

lemma dbg_frame_ok:
  assumes wf: "tr_wf (PlainTR t)" and gs: "distinct (tr_gateIDs t)" "set (tr_gateIDs t) = fst ` set (tr_gates t)"
    and len: "length dls = length (tr_gateIDs t)" "length ppis = length (tr_gateIDs t)"
  shows "frame_ok (DebugTR (dbg_tr t (tr_gateIDs t) dls ppis)) s \<longleftrightarrow>
     (\<forall>i<length (tr_gateIDs t). \<exists>g. (tr_gateIDs t ! i, g) \<in> set (tr_gates t)
        \<and> (if lit_true s (dls ! i) then lit_true s (ag_lhs g) = lit_true s (ppis ! i) else gate_ok g s))
     \<and> (\<forall>c\<in>set (tr_constraints t). lit_true s c)"
  using dbg_gates_ok[OF assms, of s] by (simp add: frame_ok_def)

subsection \<open>Freed gates\<close>

text \<open>The relation in which the gates \<open>G\<close> may take any value.\<close>

definition without_gates :: "id set \<Rightarrow> transRel \<Rightarrow> transRel" where
  "without_gates G t = t\<lparr>tr_gates := filter (\<lambda>(k, g). k \<notin> G) (tr_gates t)\<rparr>"

text \<open>In the states \<open>ss\<close> of a debug model the latches of the gates \<open>G\<close> are on and the others are off.\<close>

definition switched :: "debugTR \<Rightarrow> id set \<Rightarrow> assignment \<Rightarrow> bool" where
  "switched d G s = (\<forall>k\<in>set (tr_gateIDs d). \<exists>l. debugLatchForGate d k = Inr l \<and> lit_true s l = (k \<in> G))"

lemma switched_nth:
  assumes "distinct (tr_gateIDs t)" "length dls = length (tr_gateIDs t)"
  shows "switched (dbg_tr t (tr_gateIDs t) dls ppis) G s \<longleftrightarrow> (\<forall>i<length (tr_gateIDs t). lit_true s (dls ! i) = (tr_gateIDs t ! i \<in> G))"
  using assms by (simp add: switched_def debugLatchForGate_def all_set_conv_all_nth map_of_zip_nth)

lemma switched_gates:
  assumes wf: "tr_wf (PlainTR t)" and gs: "distinct (tr_gateIDs t)" "set (tr_gateIDs t) = fst ` set (tr_gates t)"
    and len: "length dls = length (tr_gateIDs t)" "length ppis = length (tr_gateIDs t)"
    and sw: "switched (dbg_tr t (tr_gateIDs t) dls ppis) G s"
  shows "frame_ok (DebugTR (dbg_tr t (tr_gateIDs t) dls ppis)) s \<longleftrightarrow> frame_ok (PlainTR (without_gates G t)) s
     \<and> (\<forall>i<length (tr_gateIDs t). tr_gateIDs t ! i \<in> G \<longrightarrow> lit_true s (tr_gateIDs t ! i) = lit_true s (ppis ! i))"
proof -
  have sw': "lit_true s (dls ! i) = (tr_gateIDs t ! i \<in> G)" if "i < length (tr_gateIDs t)" for i
    using sw that unfolding switched_nth[OF gs(1) len(1)] by blast
  have lhs: "(k, g) \<in> set (tr_gates t) \<Longrightarrow> ag_lhs g = k" for k g using wf by (auto simp: tr_wf_def)
  have fn: "(k, g) \<in> set (tr_gates t) \<Longrightarrow> (k, g') \<in> set (tr_gates t) \<Longrightarrow> g = g'" for k g g'
    using wf by (auto simp: tr_wf_def intro: eq_key_imp_eq_value)
  have ix: "\<exists>g. (tr_gateIDs t ! i, g) \<in> set (tr_gates t)" if "i < length (tr_gateIDs t)" for i
    using gs(2) nth_mem[OF that] by auto
  have ex: "\<exists>i<length (tr_gateIDs t). tr_gateIDs t ! i = k" if "(k, g) \<in> set (tr_gates t)" for k g
    using that gs(2) by (metis fst_conv image_eqI in_set_conv_nth)
  have fo: "frame_ok (PlainTR (without_gates G t)) s \<longleftrightarrow> (\<forall>(k, g)\<in>set (tr_gates t). k \<notin> G \<longrightarrow> gate_ok g s)
      \<and> (\<forall>c\<in>set (tr_constraints t). lit_true s c)"
    by (auto simp: frame_ok_def without_gates_def)
  have main: "(\<forall>i<length (tr_gateIDs t). \<exists>g. (tr_gateIDs t ! i, g) \<in> set (tr_gates t)
       \<and> (if lit_true s (dls ! i) then lit_true s (ag_lhs g) = lit_true s (ppis ! i) else gate_ok g s))
     \<longleftrightarrow> (\<forall>(k, g)\<in>set (tr_gates t). k \<notin> G \<longrightarrow> gate_ok g s)
       \<and> (\<forall>i<length (tr_gateIDs t). tr_gateIDs t ! i \<in> G \<longrightarrow> lit_true s (tr_gateIDs t ! i) = lit_true s (ppis ! i))"
    (is "?L \<longleftrightarrow> ?A \<and> ?B")
  proof (intro iffI conjI)
    assume L: ?L
    show ?A
    proof (clarify)
      fix k g assume kg: "(k, g) \<in> set (tr_gates t)" "k \<notin> G"
      then obtain i where i: "i < length (tr_gateIDs t)" "tr_gateIDs t ! i = k" using ex by blast
      then obtain g' where "(k, g') \<in> set (tr_gates t)" "gate_ok g' s" using L sw'[OF i(1)] kg(2) by auto
      then show "gate_ok g s" using fn[OF kg(1)] by blast
    qed
    show ?B
    proof (intro allI impI)
      fix i assume i: "i < length (tr_gateIDs t)" "tr_gateIDs t ! i \<in> G"
      then obtain g where "(tr_gateIDs t ! i, g) \<in> set (tr_gates t)" "lit_true s (ag_lhs g) = lit_true s (ppis ! i)"
        using L sw'[OF i(1)] by auto
      then show "lit_true s (tr_gateIDs t ! i) = lit_true s (ppis ! i)" using lhs by simp
    qed
  next
    assume R: "?A \<and> ?B"
    show ?L
    proof (intro allI impI)
      fix i assume i: "i < length (tr_gateIDs t)"
      obtain g where g: "(tr_gateIDs t ! i, g) \<in> set (tr_gates t)" using ix[OF i] by blast
      then show "\<exists>g. (tr_gateIDs t ! i, g) \<in> set (tr_gates t)
       \<and> (if lit_true s (dls ! i) then lit_true s (ag_lhs g) = lit_true s (ppis ! i) else gate_ok g s)"
        using R sw'[OF i] lhs[OF g] i by (intro exI[of _ g]) auto
    qed
  qed
  show ?thesis unfolding dbg_frame_ok[OF wf gs len] fo main by blast
qed

text \<open>The debug variables added to a sequence of states.\<close>

definition with_debug :: "transRel \<Rightarrow> id list \<Rightarrow> id list \<Rightarrow> id set \<Rightarrow> assignment \<Rightarrow> assignment" where
  "with_debug t dls ppis G s v = (case map_of (zip dls (tr_gateIDs t)) v of Some k \<Rightarrow> k \<in> G
     | None \<Rightarrow> (case map_of (zip ppis (tr_gateIDs t)) v of Some k \<Rightarrow> lit_true s k | None \<Rightarrow> s v))"

lemma with_debug_vals:
  assumes "distinct (dls @ ppis)" "length dls = length (tr_gateIDs t)" "length ppis = length (tr_gateIDs t)"
  shows "i < length (tr_gateIDs t) \<Longrightarrow> with_debug t dls ppis G s (dls ! i) = (tr_gateIDs t ! i \<in> G)"
    "i < length (tr_gateIDs t) \<Longrightarrow> with_debug t dls ppis G s (ppis ! i) = lit_true s (tr_gateIDs t ! i)"
    "v \<notin> set (dls @ ppis) \<Longrightarrow> with_debug t dls ppis G s v = s v"
proof -
  have none: "map_of (zip xs (tr_gateIDs t)) v = None" if "v \<notin> set xs" "length xs = length (tr_gateIDs t)" for xs v
    using that by (auto simp: map_of_eq_None_iff dest: set_zip_leftD)
  show "with_debug t dls ppis G s (dls ! i) = (tr_gateIDs t ! i \<in> G)" if "i < length (tr_gateIDs t)"
    using assms that by (simp add: with_debug_def map_of_zip_nth)
  show "with_debug t dls ppis G s (ppis ! i) = lit_true s (tr_gateIDs t ! i)" if "i < length (tr_gateIDs t)"
  proof -
    have "ppis ! i \<notin> set dls" using assms(1,3) that by (auto dest: nth_mem)
    then have n: "map_of (zip dls (tr_gateIDs t)) (ppis ! i) = None" by (rule none) (rule assms(2))
    have m: "map_of (zip ppis (tr_gateIDs t)) (ppis ! i) = Some (tr_gateIDs t ! i)" using assms that by (simp add: map_of_zip_nth)
    show ?thesis unfolding with_debug_def n m by simp
  qed
  show "with_debug t dls ppis G s v = s v" if "v \<notin> set (dls @ ppis)"
    unfolding with_debug_def using that assms(2,3) by (subst (1 2) none) simp_all
qed

lemma path_ok_cong:
  assumes "\<And>i. i < n \<Longrightarrow> frame_ok t (ss i) = frame_ok t' (ss' i)" "\<And>i. i < n \<Longrightarrow> step_ok t (ss i) (ss (Suc i)) = step_ok t' (ss' i) (ss' (Suc i))"
  shows "path_ok t n ss = path_ok t' n ss'"
  using assms by (auto simp: path_ok_def)

lemma dbg_paths:
  assumes wf: "tr_wf (PlainTR t)" and own: "vm_owns vm (PlainTR t)" and gs: "distinct (tr_gateIDs t)" "set (tr_gateIDs t) = fst ` set (tr_gates t)"
    and len: "length dls = length (tr_gateIDs t)" "length ppis = length (tr_gateIDs t)"
    and fr: "dbg_fresh vm vm' dls ppis" and vm': "vm_inv vm'"
  defines "d \<equiv> dbg_tr t (tr_gateIDs t) dls ppis"
  shows "path_ok (DebugTR d) n ss \<Longrightarrow> \<forall>i\<le>n. switched d G (ss i) \<Longrightarrow> path_ok (PlainTR (without_gates G t)) n ss"
    and "path_ok (PlainTR (without_gates G t)) n ss \<Longrightarrow> path_ok (DebugTR d) n (\<lambda>i. with_debug t dls ppis G (ss i))"
    and "switched d G (with_debug t dls ppis G s)"
    and "v \<in> tr_vars (PlainTR t) \<Longrightarrow> with_debug t dls ppis G s v = s v"
    and "init_ok (DebugTR d) s \<longleftrightarrow> init_ok (PlainTR t) s"
proof -
  let ?w = "with_debug t dls ppis G"
  have dd: "distinct (dls @ ppis)" and fresh: "\<forall>i\<in>set (dls @ ppis). \<not> isKnown vm i \<and> \<not> is_negated i"
    using fr by (auto simp: dbg_fresh_def)
  note w = with_debug_vals[OF dd len, where G = G]
  have keep: "?w s v = s v" if "v \<in> tr_vars (PlainTR t)" for v s
    by (rule w(3)) (use that own fresh in \<open>auto simp: vm_owns_def\<close>)
  show "v \<in> tr_vars (PlainTR t) \<Longrightarrow> ?w s v = s v" for v s by (rule keep)
  have pos: "lit_true s (dls ! i) = s (dls ! i)" "lit_true s (ppis ! i) = s (ppis ! i)" if "i < length (tr_gateIDs t)" for i s
    using fresh len that by (simp_all add: lit_true_pos)
  have sw: "switched d G (?w s)" for s
    unfolding d_def switched_nth[OF gs(1) len(1)] using pos(1) w(1) by simp
  then show "switched d G (?w s)" for s .
  have gv: "strip (tr_gateIDs t ! i) \<in> tr_vars (PlainTR t)" if "i < length (tr_gateIDs t)" for i
  proof -
    have "tr_gateIDs t ! i \<in> fst ` set (tr_gates t)" using gs(2) nth_mem[OF that] by simp
    then obtain g where g: "(tr_gateIDs t ! i, g) \<in> set (tr_gates t)" by auto
    moreover have "ag_lhs g = tr_gateIDs t ! i" using g wf by (auto simp: tr_wf_def)
    ultimately have "strip (tr_gateIDs t ! i) \<in> (\<Union>(k, g)\<in>set (tr_gates t). {strip (ag_lhs g), strip (ag_rhs0 g), strip (ag_rhs1 g)})" by force
    then show ?thesis by (simp add: tr_vars_def)
  qed
  have sub: "tr_vars (PlainTR (without_gates G t)) \<subseteq> tr_vars (PlainTR t)"
    by (auto simp: tr_vars_def without_gates_def)
  have fw: "frame_ok (PlainTR (without_gates G t)) (?w s) = frame_ok (PlainTR (without_gates G t)) s" for s
    by (rule frame_ok_agree) (use sub keep in blast)
  have fD: "frame_ok (DebugTR d) (?w s) = frame_ok (PlainTR (without_gates G t)) s" for s
    unfolding d_def switched_gates[OF wf gs len sw[unfolded d_def]] fw
    using pos(2) w(2) lit_true_cong[of "?w s" _ s, OF keep[OF gv]] by simp
  have lt: "lit_true (?w s) l = lit_true s l" if "strip l \<in> tr_vars (PlainTR t)" for l s
    by (rule lit_true_cong) (rule keep[OF that])
  have nx: "strip k \<in> tr_vars (PlainTR t)" "strip (la_next l) \<in> tr_vars (PlainTR t)" if "(k, l) \<in> set (tr_latches t)" for k l
  proof -
    have "{strip k, strip (la_id l), strip (la_next l)} \<subseteq> (\<Union>(k, l)\<in>set (tr_latches t). {strip k, strip (la_id l), strip (la_next l)})" using that by blast
    then show "strip k \<in> tr_vars (PlainTR t)" "strip (la_next l) \<in> tr_vars (PlainTR t)" by (auto simp: tr_vars_def)
  qed
  have sD: "step_ok (DebugTR d) s s' \<longleftrightarrow> step_ok (PlainTR t) s s' \<and> (\<forall>l\<in>set dls. lit_true s' l = lit_true s l)" for s s'
    by (simp add: step_ok_def d_def ball_Un)
  have sP: "step_ok (PlainTR (without_gates G t)) s s' = step_ok (PlainTR t) s s'" for s s' by (simp add: step_ok_def without_gates_def)
  have sW: "step_ok (DebugTR d) (?w s) (?w s') = step_ok (PlainTR t) s s'" for s s'
  proof -
    have "step_ok (PlainTR t) (?w s) (?w s') = step_ok (PlainTR t) s s'"
      by (rule step_ok_agree) (use keep in blast)+
    moreover have "lit_true (?w s') l = lit_true (?w s) l" if "l \<in> set dls" for l
      using that pos(1) w(1) len(1) by (auto simp: in_set_conv_nth)
    ultimately show ?thesis unfolding sD by blast
  qed
  show "path_ok (PlainTR (without_gates G t)) n ss" if p: "path_ok (DebugTR d) n ss" and s: "\<forall>i\<le>n. switched d G (ss i)"
    unfolding path_ok_def
  proof (intro allI impI)
    fix i assume i: "i < n"
    then have "frame_ok (DebugTR d) (ss i)" "step_ok (DebugTR d) (ss i) (ss (Suc i))" "switched d G (ss i)"
      using p s by (simp_all add: path_ok_def)
    then show "frame_ok (PlainTR (without_gates G t)) (ss i) \<and> step_ok (PlainTR (without_gates G t)) (ss i) (ss (Suc i))"
      using switched_gates[OF wf gs len] unfolding d_def[symmetric] sP sD by blast
  qed
  show "path_ok (DebugTR d) n (\<lambda>i. ?w (ss i))" if "path_ok (PlainTR (without_gates G t)) n ss"
    using that unfolding path_ok_def fD sW sP by simp
  show "init_ok (DebugTR d) s \<longleftrightarrow> init_ok (PlainTR t) s"
    by (auto simp: init_ok_def d_def ID_NULL_def ID_TRUE_val ID_FALSE_def)
qed

text \<open>The unrolled clauses of the debug model, with the latches of \<open>G\<close> on, describe the paths of the
  original relation in which the gates of \<open>G\<close> are free.\<close>

lemma dbg_unroll:
  assumes wf: "tr_wf (PlainTR t)" and own: "vm_owns vm (PlainTR t)" and gs: "distinct (tr_gateIDs t)" "set (tr_gateIDs t) = fst ` set (tr_gates t)"
    and r: "room (k + 2 * length (tr_gateIDs t)) vm" and n: "n \<le> MAX_PRIMES"
  shows "\<exists>d vm' C. dt_enhance t vm = Inr (d, vm') \<and> tr_unrollWithInit (DebugTR d) n = Inr C
    \<and> (\<forall>G ss. (\<forall>i. const_ok (ss i)) \<longrightarrow>
        ((\<exists>\<sigma>. const_ok \<sigma> \<and> cnf_sat \<sigma> C \<and> (\<forall>i\<le>n. switched d G (at_time i \<sigma>) \<and> (\<forall>v\<in>tr_vars (PlainTR t). at_time i \<sigma> v = ss i v)))
         \<longleftrightarrow> init_ok (PlainTR t) (ss 0) \<and> path_ok (PlainTR (without_gates G t)) n ss))"
proof -
  from dt_enhance_wp[OF wf own gs r] obtain vm' dls ppis where
    d: "dt_enhance t vm = Inr (dbg_tr t (tr_gateIDs t) dls ppis, vm')" "length dls = length (tr_gateIDs t)" "length ppis = length (tr_gateIDs t)"
      "dbg_fresh vm vm' dls ppis" "room k vm'" by (auto simp: wp_iff)
  let ?d = "dbg_tr t (tr_gateIDs t) dls ppis"
  note wfD = dbg_tr_wf(1)[OF wf own gs d(2-4) room_0[OF d(5)]]
  note P = dbg_paths[OF wf own gs d(2-4) room_0[OF d(5)]]
  from unroll_init_exact[OF wfD n] obtain C where C: "tr_unrollWithInit (DebugTR ?d) n = Inr C"
    "\<And>\<sigma>. const_ok \<sigma> \<Longrightarrow> cnf_sat \<sigma> C \<longleftrightarrow> init_ok (DebugTR ?d) \<sigma> \<and> path_ok (DebugTR ?d) n (\<lambda>i. at_time i \<sigma>)"
    "\<And>ss. (\<And>i. const_ok (ss i)) \<Longrightarrow> init_ok (DebugTR ?d) (ss 0) \<Longrightarrow> path_ok (DebugTR ?d) n ss \<Longrightarrow>
        (\<exists>\<sigma>. const_ok \<sigma> \<and> cnf_sat \<sigma> C \<and> (\<forall>i\<le>n. \<forall>v\<in>tr_vars (DebugTR ?d). at_time i \<sigma> v = ss i v))" by blast
  have sub: "tr_vars (PlainTR t) \<subseteq> tr_vars (DebugTR ?d)" by (auto simp: tr_vars_def)
  have dl: "set dls \<subseteq> tr_vars (DebugTR ?d)"
  proof
    fix l assume l: "l \<in> set dls"
    then have "strip l = l" using d(4) by (simp add: dbg_fresh_def strip_id)
    moreover have "strip l \<in> strip ` set (tr_latchIDs (baseTR (DebugTR ?d)))" using l by simp
    ultimately show "l \<in> tr_vars (DebugTR ?d)" by (simp add: tr_vars_def)
  qed
  have "(\<exists>\<sigma>. const_ok \<sigma> \<and> cnf_sat \<sigma> C \<and> (\<forall>i\<le>n. switched ?d G (at_time i \<sigma>) \<and> (\<forall>v\<in>tr_vars (PlainTR t). at_time i \<sigma> v = ss i v)))
         \<longleftrightarrow> init_ok (PlainTR t) (ss 0) \<and> path_ok (PlainTR (without_gates G t)) n ss" (is "?L \<longleftrightarrow> ?R")
    if c: "\<forall>i. const_ok (ss i)" for G ss
  proof
    assume ?L
    then obtain \<sigma> where s: "const_ok \<sigma>" "cnf_sat \<sigma> C" "\<forall>i\<le>n. switched ?d G (at_time i \<sigma>)"
      "\<And>i v. i \<le> n \<Longrightarrow> v \<in> tr_vars (PlainTR t) \<Longrightarrow> at_time i \<sigma> v = ss i v" by blast
    have i: "init_ok (PlainTR t) \<sigma>" "path_ok (PlainTR (without_gates G t)) n (\<lambda>i. at_time i \<sigma>)"
      using C(2)[OF s(1)] s(2) P(1)[OF _ s(3)] P(5) by blast+
    have "init_ok (PlainTR t) \<sigma> = init_ok (PlainTR t) (ss 0)" by (rule init_ok_agree) (use s(4)[of 0] in simp)
    moreover have wsub: "tr_vars (PlainTR (without_gates G t)) \<subseteq> tr_vars (PlainTR t)" by (auto simp: tr_vars_def without_gates_def)
    have "path_ok (PlainTR (without_gates G t)) n (\<lambda>i. at_time i \<sigma>) = path_ok (PlainTR (without_gates G t)) n ss"
    proof (rule path_ok_cong)
      fix i assume "i < n"
      then show "frame_ok (PlainTR (without_gates G t)) (at_time i \<sigma>) = frame_ok (PlainTR (without_gates G t)) (ss i)"
        "step_ok (PlainTR (without_gates G t)) (at_time i \<sigma>) (at_time (Suc i) \<sigma>) = step_ok (PlainTR (without_gates G t)) (ss i) (ss (Suc i))"
        using s(4) wsub by (intro frame_ok_agree step_ok_agree; auto)+
    qed
    ultimately show ?R using i by simp
  next
    assume R: ?R
    let ?w = "\<lambda>i. with_debug t dls ppis G (ss i)"
    have cw: "const_ok (?w i)" for i using c P(4)[of ID_FALSE] by (simp add: const_ok_def tr_vars_def)
    have "init_ok (PlainTR t) (?w 0) = init_ok (PlainTR t) (ss 0)" by (rule init_ok_agree) (rule P(4))
    then have "\<exists>\<sigma>. const_ok \<sigma> \<and> cnf_sat \<sigma> C \<and> (\<forall>i\<le>n. \<forall>v\<in>tr_vars (DebugTR ?d). at_time i \<sigma> v = ?w i v)"
      using C(3)[of ?w, OF cw] P(2)[of G n ss] P(5) R by blast
    then obtain \<sigma> where s: "const_ok \<sigma>" "cnf_sat \<sigma> C" "\<And>i v. i \<le> n \<Longrightarrow> v \<in> tr_vars (DebugTR ?d) \<Longrightarrow> at_time i \<sigma> v = ?w i v" by blast
    have "switched ?d G (at_time i \<sigma>)" if "i \<le> n" for i
    proof -
      have "lit_true (at_time i \<sigma>) (dls ! j) = lit_true (?w i) (dls ! j)" if "j < length (tr_gateIDs t)" for j
      proof -
        have "dls ! j \<in> set dls" using that d(2) by simp
        moreover from this have "strip (dls ! j) = dls ! j" using d(4) by (simp add: dbg_fresh_def strip_id)
        ultimately show ?thesis using s(3)[OF \<open>i \<le> n\<close>] dl by (intro lit_true_cong) auto
      qed
      then show ?thesis using P(3)[of G "ss i"] unfolding switched_nth[OF gs(1) d(2)] by simp
    qed
    moreover have "at_time i \<sigma> v = ss i v" if "i \<le> n" "v \<in> tr_vars (PlainTR t)" for i v
      using s(3)[OF that(1)] sub P(4)[OF that(2)] that(2) by blast
    ultimately show ?L using s(1,2) by blast
  qed
  then show ?thesis using d(1) C(1) by blast
qed


end
