(* ===== verification/IvcCircuit.thy ===== *)
theory IvcCircuit
  imports Ic3Grow Deletion TransVariants
begin

text \<open>
  Circuits with a subset of their gates (the gate-subset constructor \<open>tr_restrict\<close>).  For an ordered
  circuit (\<open>ivc_circuit\<close>) every subset of the gates is a circuit IC3 decides: the gates left determine
  their values, the freed ones are inputs.  \<open>ivc_safe\<close> says that no bad state is reached with the
  gates of a list; larger lists inherit it, and with all the gates it is the safety of the circuit.
\<close>

subsection \<open>Gates in an order\<close>

definition gates_ordered :: "transRel \<Rightarrow> bool" where
  "gates_ordered t = (\<exists>rank :: id \<Rightarrow> nat. \<forall>(k, g)\<in>set (tr_gates t). rank (strip (ag_rhs0 g)) < rank k \<and> rank (strip (ag_rhs1 g)) < rank k)"

definition gates_plain :: "transRel \<Rightarrow> bool" where
  "gates_plain t = (\<forall>k\<in>fst ` set (tr_gates t). \<not> is_negated k \<and> k \<noteq> ID_FALSE \<and> k \<notin> set (tr_latchIDs t))"

text \<open>The values of gates without cycles.\<close>

lemma eval_gates:
  fixes rank :: "id \<Rightarrow> nat"
  assumes "distinct (map fst gs)" "\<forall>(k, g)\<in>set gs. ag_lhs g = k \<and> \<not> is_negated k"
    and "\<forall>(k, g)\<in>set gs. rank (strip (ag_rhs0 g)) < rank k \<and> rank (strip (ag_rhs1 g)) < rank k"
  shows "\<exists>s'. (\<forall>(k, g)\<in>set gs. gate_ok g s') \<and> (\<forall>v. v \<notin> fst ` set gs \<longrightarrow> s' v = s v)"
  using assms
proof (induction "length gs" arbitrary: gs)
  case 0
  then show ?case by auto
next
  case (Suc n)
  have "gs \<noteq> []" using Suc.hyps(2) by auto
  then have "Max ((rank \<circ> fst) ` set gs) \<in> (rank \<circ> fst) ` set gs" by simp
  then obtain k g where m1: "(k, g) \<in> set gs" "Max ((rank \<circ> fst) ` set gs) = rank k" by auto
  have m: "(k, g) \<in> set gs" "rank k' \<le> rank k" if "(k', g') \<in> set gs" for k' g'
  proof -
    have "rank k' \<in> (rank \<circ> fst) ` set gs" using that by force
    then show "rank k' \<le> rank k" unfolding m1(2)[symmetric] by simp
  qed (rule m1(1))
  note m = m1(1) m(2)
  let ?gs = "remove1 (k, g) gs"
  have d: "distinct gs" using Suc.prems(1) by (simp add: distinct_map)
  have st: "set ?gs = set gs - {(k, g)}" using d by simp
  have k: "k \<notin> fst ` set ?gs"
  proof
    assume "k \<in> fst ` set ?gs"
    then obtain q where q: "q \<in> set gs" "q \<noteq> (k, g)" "fst q = k" unfolding st by blast
    obtain g' where g': "q = (k, g')" using q(3) by (cases q) simp
    have "(k, g') \<in> set gs" "g' \<noteq> g" using q unfolding g' by simp_all
    then show False using m(1) Suc.prems(1) by (meson eq_key_imp_eq_value)
  qed
  have IH: "distinct (map fst ?gs)" "n = length ?gs" "\<forall>(k, g)\<in>set ?gs. ag_lhs g = k \<and> \<not> is_negated k"
      "\<forall>(k, g)\<in>set ?gs. rank (strip (ag_rhs0 g)) < rank k \<and> rank (strip (ag_rhs1 g)) < rank k"
    using d Suc.prems Suc.hyps(2) m(1) st by (auto simp: distinct_map inj_on_def length_remove1)
  obtain s1 where s1: "\<forall>(k, g)\<in>set ?gs. gate_ok g s1" "\<forall>v. v \<notin> fst ` set ?gs \<longrightarrow> s1 v = s v"
    using Suc.hyps(1)[OF IH(2,1,3,4)] by blast
  let ?s = "s1(k := lit_true s1 (ag_rhs0 g) \<and> lit_true s1 (ag_rhs1 g))"
  have same: "lit_true ?s l = lit_true s1 l" if "strip l \<noteq> k" for l using that by (simp add: lit_true_def)
  have kp: "ag_lhs g = k" "\<not> is_negated k" "strip (ag_rhs0 g) \<noteq> k" "strip (ag_rhs1 g) \<noteq> k" using m(1) Suc.prems(2,3) by fastforce+
  have "gate_ok g' ?s" if g': "(k', g') \<in> set gs" for k' g'
  proof (cases "(k', g') = (k, g)")
    case True
    then show ?thesis using kp same by (simp add: gate_ok_def lit_true_pos)
  next
    case False
    then have q: "(k', g') \<in> set ?gs" using g' st by simp
    then have "k' \<noteq> k" using k by force
    moreover have "ag_lhs g' = k'" "\<not> is_negated k'" using g' Suc.prems(2) by auto
    moreover have "strip (ag_rhs0 g') \<noteq> k" "strip (ag_rhs1 g') \<noteq> k" using g' m(2)[OF g'] Suc.prems(3) by fastforce+
    moreover have "gate_ok g' s1" using q s1(1) by blast
    ultimately show ?thesis using same by (auto simp: gate_ok_def strip_id)
  qed
  moreover have "?s v = s v" if "v \<notin> fst ` set gs" for v
  proof -
    have "v \<noteq> k" "v \<notin> fst ` set ?gs" using that m(1) st by force+
    then show ?thesis using s1(2) by simp
  qed
  ultimately show ?case by blast
qed

lemma functional_ordered:
  assumes wf: "tr_wf (PlainTR t)" and c: "tr_constraints t = []" and o: "gates_ordered t"
    and k: "\<forall>k\<in>fst ` set (tr_gates t). \<not> is_negated k \<and> k \<noteq> ID_FALSE \<and> k \<notin> io_vars (PlainTR t)"
    and li: "set (tr_latchIDs t) \<inter> set (tr_inputIDs t) = {}"
    and v: "tr_vars (PlainTR t) \<subseteq> insert ID_FALSE (io_vars (PlainTR t) \<union> fst ` set (tr_gates t))"
  shows "functional (PlainTR t)"
proof -
  obtain rank :: "id \<Rightarrow> nat" where r: "\<forall>(k, g)\<in>set (tr_gates t). rank (strip (ag_rhs0 g)) < rank k \<and> rank (strip (ag_rhs1 g)) < rank k"
    using o by (auto simp: gates_ordered_def)
  have gw: "distinct (map fst (tr_gates t))" "\<forall>(k, g)\<in>set (tr_gates t). ag_lhs g = k \<and> \<not> is_negated k"
    using wf k by (auto simp: tr_wf_def)
  have fr: "frame_ok (PlainTR t) s \<longleftrightarrow> (\<forall>(k, g)\<in>set (tr_gates t). gate_ok g s)" for s by (simp add: frame_ok_def c)
  have "det (PlainTR t)"
    unfolding det_def
  proof (intro allI impI ballI)
    fix s s' x
    assume s: "const_ok s" "const_ok s'" "frame_ok (PlainTR t) s" "frame_ok (PlainTR t) s'" "\<forall>v\<in>io_vars (PlainTR t). s v = s' v" "x \<in> tr_vars (PlainTR t)"
    have "s x = s' x" if "x \<in> tr_vars (PlainTR t)" for x
      using that
    proof (induction "rank x" arbitrary: x rule: less_induct)
      case less
      consider "x = ID_FALSE" | "x \<in> io_vars (PlainTR t)" | g where "(x, g) \<in> set (tr_gates t)" using less.prems v by auto
      then show ?case
      proof cases
        case (3 g)
        have rh: "strip (ag_rhs0 g) \<in> tr_vars (PlainTR t)" "strip (ag_rhs1 g) \<in> tr_vars (PlainTR t)" using 3 by (auto simp: tr_vars_def)
        have "s (strip (ag_rhs0 g)) = s' (strip (ag_rhs0 g))" "s (strip (ag_rhs1 g)) = s' (strip (ag_rhs1 g))"
          using less.hyps r 3 rh by fastforce+
        moreover have "gate_ok g s" "gate_ok g s'" "ag_lhs g = x" "\<not> is_negated x" using s(3,4) 3 gw(2) by (auto simp: fr)
        ultimately show ?thesis by (simp add: gate_ok_def lit_true_def strip_id)
      qed (use s in \<open>auto simp: const_ok_def\<close>)
    qed
    then show "s x = s' x" using s(6) .
  qed
  moreover have "gates_total (PlainTR t)"
    unfolding gates_total_def
  proof (intro allI impI)
    fix s assume s: "const_ok s"
    obtain s' where s': "\<forall>(k, g)\<in>set (tr_gates t). gate_ok g s'" "\<forall>v. v \<notin> fst ` set (tr_gates t) \<longrightarrow> s' v = s v"
      using eval_gates[OF gw r] by blast
    have "const_ok s'" "\<forall>v\<in>io_vars (PlainTR t). s' v = s v" using s s'(2) k unfolding const_ok_def by metis+
    then show "\<exists>s'. const_ok s' \<and> frame_ok (PlainTR t) s' \<and> (\<forall>v\<in>io_vars (PlainTR t). s' v = s v)" using s'(1) fr by blast
  qed
  ultimately show ?thesis using li by (simp add: functional_def)
qed

subsection \<open>Circuits of which gates are freed\<close>

text \<open>No invariant constraints, every latch reset, gates in an order (no cycles), and a bad literal that is
  neither negated nor a constant.\<close>

definition ivc_circuit :: "transRel \<Rightarrow> bool" where
  "ivc_circuit t = (tr_wf (PlainTR t) \<and> tr_constraints t = [] \<and> \<not> is_negated (tr_bad t) \<and> tr_bad t \<noteq> ID_FALSE
     \<and> gates_ordered t \<and> gates_plain t \<and> (\<forall>(k, l)\<in>set (tr_latches t). la_reset l \<noteq> ID_NULL))"

lemma ivc_circuitD:
  assumes "ivc_circuit t"
  shows "tr_wf (PlainTR t)" "tr_constraints t = []" "\<not> is_negated (tr_bad t)" "tr_bad t \<noteq> ID_FALSE" "gates_ordered t" "gates_plain t"
    "(k, l) \<in> set (tr_latches t) \<Longrightarrow> la_reset l \<noteq> ID_NULL"
  using assms unfolding ivc_circuit_def by blast+

lemma relevant_pos: "\<not> is_negated (tr_bad t) \<Longrightarrow> v \<in> relevant t gates \<Longrightarrow> strip v = v"
  by (erule relevant.cases) (simp_all add: strip_id)

lemma restrict_facts:
  assumes c: "ivc_circuit t" and t': "tr_restrict t gates = Inr t'"
  shows "tr_bad t' = tr_bad t" "tr_constraints t' = []" "tr_gates t' = filter (\<lambda>(k, g). k \<in> set gates) (tr_gates t)"
    "set (tr_latches t') = {(k, l) \<in> set (tr_latches t). k \<in> relevant t gates}" "tr_latchIDs t' = map fst (tr_latches t')"
    "set (tr_inputIDs t') = relevant t gates - fst ` set (tr_latches t') - fst ` set (tr_gates t')"
proof -
  have s: "tr_bad t' = tr_bad t" "tr_constraints t' = tr_constraints t" "tr_gates t' = filter (\<lambda>(k, g). k \<in> set gates) (tr_gates t)"
    "set (tr_latches t') = {(k, l) \<in> set (tr_latches t). k \<in> relevant t gates}" "tr_latchIDs t' = map fst (tr_latches t')"
    "set (tr_inputIDs t') = strip ` (relevant t gates - fst ` set (tr_latches t') - fst ` set (tr_gates t'))"
    using tr_restrict_spec[OF ivc_circuitD(1)[OF c], of gates] unfolding t' by simp_all
  then show "tr_bad t' = tr_bad t" "tr_constraints t' = []" "tr_gates t' = filter (\<lambda>(k, g). k \<in> set gates) (tr_gates t)"
    "set (tr_latches t') = {(k, l) \<in> set (tr_latches t). k \<in> relevant t gates}" "tr_latchIDs t' = map fst (tr_latches t')"
    using ivc_circuitD(2)[OF c] by simp_all
  let ?X = "relevant t gates - fst ` set (tr_latches t') - fst ` set (tr_gates t')"
  have "strip ` ?X = id ` ?X" by (rule image_cong[OF refl]) (use relevant_pos[OF ivc_circuitD(3)[OF c], of _ gates] in simp)
  then show "set (tr_inputIDs t') = ?X" unfolding s(6) by simp
qed

lemma restrict_vars:
  assumes c: "ivc_circuit t" and t': "tr_restrict t gates = Inr t'"
  shows "tr_vars (PlainTR t') \<subseteq> insert ID_FALSE (io_vars (PlainTR t') \<union> fst ` set (tr_gates t'))"
proof -
  note f = restrict_facts[OF c t']
  have wf': "tr_wf (PlainTR t')" using tr_restrict_wf[OF ivc_circuitD(1)[OF c] t'] by blast
  let ?R = "io_vars (PlainTR t') \<union> fst ` set (tr_gates t')"
  have R: "v \<in> ?R" if "v \<in> relevant t gates" for v using that by (auto simp: io_vars_def f(5,6))
  have g: "\<not> is_negated k" if "(k, g) \<in> set (tr_gates t')" for k g
    using that ivc_circuitD(6)[OF c] by (force simp: f(3) gates_plain_def)
  have k: "ag_lhs g = k" if "(k, g) \<in> set (tr_gates t')" for k g using wf' that by (auto simp: tr_wf_def)
  have l: "la_id l = k" "\<not> is_negated k" if "(k, l) \<in> set (tr_latches t')" for k l using wf' that by (auto simp: tr_wf_def)
  have G: "strip (ag_lhs g) \<in> ?R" "strip (ag_rhs0 g) \<in> ?R" "strip (ag_rhs1 g) \<in> ?R" if kg: "(k, g) \<in> set (tr_gates t')" for k g
  proof -
    show "strip (ag_lhs g) \<in> ?R" using k[OF kg] g[OF kg] kg by (force simp: strip_id)
    have "(k, g) \<in> set (tr_gates t)" "k \<in> set gates" using kg by (auto simp: f(3))
    then show "strip (ag_rhs0 g) \<in> ?R" "strip (ag_rhs1 g) \<in> ?R" using R relevant.rel_rhs0 relevant.rel_rhs1 by blast+
  qed
  have L: "strip k \<in> ?R" "strip (la_id l) \<in> ?R" "strip (la_next l) \<in> ?R" if kl: "(k, l) \<in> set (tr_latches t')" for k l
  proof -
    have r: "(k, l) \<in> set (tr_latches t)" "k \<in> relevant t gates" using kl by (auto simp: f(4))
    show "strip k \<in> ?R" "strip (la_id l) \<in> ?R" using R[OF r(2)] l[OF kl] by (simp_all add: strip_id)
    show "strip (la_next l) \<in> ?R" by (rule R[OF relevant.rel_next[OF r]])
  qed
  have io: "strip v \<in> ?R" if "v \<in> set (tr_inputIDs t') \<union> set (tr_latchIDs t')" for v
    using that io_tr[OF wf', of v] by (auto simp: io_vars_def)
  have b: "strip (tr_bad t') \<in> ?R" using R[OF relevant.rel_bad] ivc_circuitD(3)[OF c] by (simp add: f(1) strip_id)
  have "(\<Union>(k, g)\<in>set (tr_gates t'). {strip (ag_lhs g), strip (ag_rhs0 g), strip (ag_rhs1 g)}) \<subseteq> ?R" using G by blast
  moreover have "(\<Union>(k, l)\<in>set (tr_latches t'). {strip k, strip (la_id l), strip (la_next l)}) \<subseteq> ?R" using L by blast
  moreover have "strip ` set (tr_inputIDs t') \<subseteq> ?R" "strip ` set (tr_latchIDs t') \<subseteq> ?R" using io by blast+
  ultimately show ?thesis unfolding tr_vars_def baseTR.simps f(2) debug_vars.simps using b by (intro insert_mono insert_subsetI Un_least; simp)
qed

lemma restrict_ic3:
  assumes c: "ivc_circuit t" and t': "tr_restrict t gates = Inr t'"
  shows "functional (PlainTR t')" "init_cubes (PlainTR t') \<noteq> {} \<or> tr_latchIDs (baseTR (PlainTR t')) = []"
    "strip (tr_bad (baseTR (PlainTR t'))) \<noteq> ID_FALSE" "ic3_cubes (PlainTR t') \<subseteq> ic3_cubes (PlainTR t)"
proof -
  note f = restrict_facts[OF c t'] and C = ivc_circuitD[OF c]
  have wf': "tr_wf (PlainTR t')" using tr_restrict_wf[OF C(1) t'] by blast
  have li: "set (tr_latchIDs t') \<inter> set (tr_inputIDs t') = {}" by (auto simp: f(5,6))
  have lat: "set (tr_latchIDs t') \<subseteq> set (tr_latchIDs t)" using C(1) by (force simp: f(4,5) tr_wf_def)
  obtain rank :: "id \<Rightarrow> nat" where r: "\<forall>(k, g)\<in>set (tr_gates t). rank (strip (ag_rhs0 g)) < rank k \<and> rank (strip (ag_rhs1 g)) < rank k"
    using C(5) by (auto simp: gates_ordered_def)
  have o: "gates_ordered t'" unfolding gates_ordered_def by (rule exI[of _ rank]) (use r in \<open>auto simp: f(3)\<close>)
  have k: "\<forall>k\<in>fst ` set (tr_gates t'). \<not> is_negated k \<and> k \<noteq> ID_FALSE \<and> k \<notin> io_vars (PlainTR t')"
  proof
    fix k assume kk: "k \<in> fst ` set (tr_gates t')"
    then have "k \<in> fst ` set (tr_gates t)" by (auto simp: f(3))
    then have "\<not> is_negated k" "k \<noteq> ID_FALSE" "k \<notin> set (tr_latchIDs t)" using C(6) unfolding gates_plain_def by blast+
    moreover have "k \<notin> set (tr_inputIDs t')" using kk by (simp add: f(6))
    ultimately show "\<not> is_negated k \<and> k \<noteq> ID_FALSE \<and> k \<notin> io_vars (PlainTR t')" using lat by (auto simp: io_vars_def)
  qed
  show "functional (PlainTR t')" by (rule functional_ordered[OF wf' f(2) o k li restrict_vars[OF c t']])
  show "strip (tr_bad (baseTR (PlainTR t'))) \<noteq> ID_FALSE" using C(3,4) by (simp add: f(1) strip_id)
  show "ic3_cubes (PlainTR t') \<subseteq> ic3_cubes (PlainTR t)" using lat by (auto simp: ic3_cubes_def f(1))
  show "init_cubes (PlainTR t') \<noteq> {} \<or> tr_latchIDs (baseTR (PlainTR t')) = []"
  proof (cases "tr_latches t'")
    case (Cons p ls)
    obtain k l where p: "p = (k, l)" by (cases p)
    then have kl: "(k, l) \<in> set (tr_latches t')" using Cons by simp
    then have rs: "la_reset l \<noteq> ID_NULL" using C(7) by (auto simp: f(4))
    obtain D where D: "tr_initState (PlainTR t') = Inr D" using tr_initState_sem[OF wf'] by (auto simp: wpr_iff)
    have "D \<noteq> []" using D rs unfolding tr_initState_def
      by (auto simp: Cons p bindR_Inr_iff assertR_Inr_iff make_equal_def split: if_splits)
    then show ?thesis by (cases D) (auto simp: init_cubes_def D)
  qed (simp add: f(5))
qed

subsection \<open>Safety with a subset of the gates\<close>

definition ivc_safe :: "transRel \<Rightarrow> id list \<Rightarrow> bool" where
  "ivc_safe t ivc = (\<exists>t'. tr_restrict t ivc = Inr t' \<and> (\<forall>n w. reach (PlainTR t') {} n w \<longrightarrow> \<not> bad_state (PlainTR t') w))"

lemma restrict_set:
  assumes "set G = set G'"
  shows "tr_restrict t G = tr_restrict t G'"
  using assms by (simp add: tr_restrict_def restrict_gates_def)

lemma relevant_mono:
  assumes "set G \<inter> fst ` set (tr_gates t) \<subseteq> set G'"
  shows "relevant t G \<subseteq> relevant t G'"
proof
  fix x assume "x \<in> relevant t G"
  then show "x \<in> relevant t G'"
  proof induction
    case (rel_rhs0 k g)
    then have "k \<in> set G'" using assms by force
    then show ?case by (rule relevant.rel_rhs0[OF rel_rhs0(1)])
  next
    case (rel_rhs1 k g)
    then have "k \<in> set G'" using assms by force
    then show ?case by (rule relevant.rel_rhs1[OF rel_rhs1(1)])
  next
    case (rel_next k l)
    show ?case by (rule relevant.rel_next[OF rel_next(1,3)])
  qed (rule relevant.rel_bad)
qed

lemma reach_over:
  assumes "\<And>s. frame_ok t s \<Longrightarrow> frame_ok t' s" "\<And>s s'. step_ok t s s' \<Longrightarrow> step_ok t' s s'" "\<And>s. init_ok t s \<Longrightarrow> init_ok t' s"
  shows "reach t {} n w \<Longrightarrow> reach t' {} n w"
proof (induction n arbitrary: w)
  case 0
  then show ?case using assms by (auto simp: starts_def tr_trans_def)
next
  case (Suc n)
  then show ?case using assms unfolding reach.simps tr_trans_def by blast
qed

lemma ivc_safe_mono:
  assumes wf: "tr_wf (PlainTR t)" and s: "ivc_safe t G" and sub: "set G \<inter> fst ` set (tr_gates t) \<subseteq> set G'"
  shows "ivc_safe t G'"
proof -
  obtain t1 where t1: "tr_restrict t G = Inr t1" "\<And>n w. reach (PlainTR t1) {} n w \<Longrightarrow> \<not> bad_state (PlainTR t1) w"
    using s by (auto simp: ivc_safe_def)
  obtain t2 where t2: "tr_restrict t G' = Inr t2" using tr_restrict_spec[OF wf, of G'] by (auto simp: wpr_iff)
  have r: "relevant t G \<subseteq> relevant t G'" by (rule relevant_mono[OF sub])
  have f1: "tr_gates t1 = filter (\<lambda>(k, g). k \<in> set G) (tr_gates t)" "set (tr_latches t1) = {(k, l) \<in> set (tr_latches t). k \<in> relevant t G}"
      "tr_constraints t1 = tr_constraints t" "tr_bad t1 = tr_bad t"
    using tr_restrict_spec[OF wf, of G] unfolding t1 by simp_all
  have f2: "tr_gates t2 = filter (\<lambda>(k, g). k \<in> set G') (tr_gates t)" "set (tr_latches t2) = {(k, l) \<in> set (tr_latches t). k \<in> relevant t G'}"
      "tr_constraints t2 = tr_constraints t" "tr_bad t2 = tr_bad t"
    using tr_restrict_spec[OF wf, of G'] unfolding t2 by simp_all
  have "k \<in> set G'" if "(k, g) \<in> set (tr_gates t)" "k \<in> set G" for k g using that sub by force
  then have g: "set (tr_gates t1) \<subseteq> set (tr_gates t2)" "set (tr_latches t1) \<subseteq> set (tr_latches t2)" "tr_constraints t1 = tr_constraints t2" "tr_bad t1 = tr_bad t2"
    unfolding f1 f2 using r by auto
  have "reach (PlainTR t2) {} n w \<Longrightarrow> reach (PlainTR t1) {} n w" for n w
    by (rule reach_over[of "PlainTR t2" "PlainTR t1"])
      (use g in \<open>auto simp: frame_ok_def step_ok_def init_ok_def\<close>)
  then show ?thesis using t1(2) t2 g(4) by (auto simp: ivc_safe_def bad_state_def)
qed

text \<open>All the gates together are as safe as the circuit: the latches that are dropped are read by no gate.\<close>

lemma all_gates_reach:
  assumes c: "ivc_circuit t" and t1: "tr_restrict t G = Inr t1" and all: "fst ` set (tr_gates t) \<subseteq> set G"
  defines "D \<equiv> fst ` set (tr_latches t) - relevant t G"
  shows "reach (PlainTR t1) {} n w \<Longrightarrow> \<exists>u. reach (PlainTR t) {} n u \<and> (\<forall>v. v \<notin> D \<longrightarrow> u v = w v)"
proof -
  note f = restrict_facts[OF c t1] and C = ivc_circuitD[OF c]
  have lw: "la_id l = k" "\<not> is_negated k" "k \<noteq> ID_FALSE" "la_reset l = ID_TRUE \<or> la_reset l = ID_FALSE" if "(k, l) \<in> set (tr_latches t)" for k l
    using C(1) C(7)[OF that] that by (auto simp: tr_wf_def MIN_ID_val ID_FALSE_def)
  have dl: "distinct (map fst (tr_latches t))" using C(1) by (simp add: tr_wf_def)
  have lit: "lit_true u l = lit_true w l" if "\<forall>v. v \<notin> D \<longrightarrow> u v = w v" "strip l \<notin> D" for u w l using that by (simp add: lit_true_def)
  have gates: "set (tr_gates t1) = set (tr_gates t)" using all by (force simp: f(3))
  have gD: "strip (ag_lhs g) \<notin> D" "strip (ag_rhs0 g) \<notin> D" "strip (ag_rhs1 g) \<notin> D" if kg: "(k, g) \<in> set (tr_gates t)" for k g
  proof -
    have kG: "k \<in> set G" using all kg by force
    show "strip (ag_rhs0 g) \<notin> D" "strip (ag_rhs1 g) \<notin> D" using relevant.rel_rhs0[OF kg kG] relevant.rel_rhs1[OF kg kG] by (simp_all add: D_def)
    have "ag_lhs g = k" using C(1) kg by (auto simp: tr_wf_def)
    moreover have "\<not> is_negated k" "k \<notin> set (tr_latchIDs t)" using C(6) kg unfolding gates_plain_def by force+
    ultimately show "strip (ag_lhs g) \<notin> D" using C(1) by (simp add: D_def strip_id tr_wf_def)
  qed
  have frame: "const_ok u \<and> frame_ok (PlainTR t) u" if "const_ok w" "frame_ok (PlainTR t1) w" "\<forall>v. v \<notin> D \<longrightarrow> u v = w v" for u w
  proof -
    have "ID_FALSE \<notin> fst ` set (tr_latches t)" using lw(3) by fastforce
    then have "ID_FALSE \<notin> D" by (simp add: D_def)
    then have "const_ok u" using that by (simp add: const_ok_def)
    moreover have "gate_ok g u" if kg: "(k, g) \<in> set (tr_gates t)" for k g
    proof -
      have "gate_ok g w" using \<open>frame_ok (PlainTR t1) w\<close> kg unfolding frame_ok_def baseTR.simps gates by auto
      then show ?thesis using lit[OF \<open>\<forall>v. v \<notin> D \<longrightarrow> u v = w v\<close>] gD[OF kg] by (simp add: gate_ok_def)
    qed
    ultimately show ?thesis using C(2) by (auto simp: frame_ok_def)
  qed
  have kept: "(k, l) \<in> set (tr_latches t1) \<and> strip (la_next l) \<notin> D" if "(k, l) \<in> set (tr_latches t)" "k \<notin> D" for k l
  proof -
    have "k \<in> relevant t G" using that by (force simp: D_def)
    then show ?thesis using that(1) relevant.rel_next[OF that(1)] by (simp add: f(4) D_def)
  qed
  have adj: "\<exists>u2. tr_trans (PlainTR t) u u2 \<and> (\<forall>v. v \<notin> D \<longrightarrow> u2 v = w2 v)"
    if w: "tr_trans (PlainTR t1) w w2" and u: "\<forall>v. v \<notin> D \<longrightarrow> u v = w v" for u w w2
  proof -
    let ?u2 = "\<lambda>v. if v \<in> D then lit_true u (la_next (the (map_of (tr_latches t) v))) else w2 v"
    have W: "const_ok w" "const_ok w2" "frame_ok (PlainTR t1) w" "frame_ok (PlainTR t1) w2" "step_ok (PlainTR t1) w w2" using w by (simp_all add: tr_trans_def)
    have u2: "\<forall>v. v \<notin> D \<longrightarrow> ?u2 v = w2 v" by simp
    have "lit_true ?u2 k = lit_true u (la_next l)" if kl: "(k, l) \<in> set (tr_latches t)" for k l
    proof (cases "k \<in> D")
      case True
      have "map_of (tr_latches t) k = Some l" using dl kl by simp
      then show ?thesis using True lw(2)[OF kl] by (simp add: lit_true_pos)
    next
      case False
      note q = kept[OF kl False]
      have "lit_true w2 k = lit_true w (la_next l)" using W(5) q unfolding step_ok_def by auto
      then show ?thesis using lit[OF u] q False lw(2)[OF kl] by (simp add: lit_true_pos)
    qed
    then have "step_ok (PlainTR t) u ?u2" unfolding step_ok_def baseTR.simps by blast
    then have "tr_trans (PlainTR t) u ?u2" using frame[OF W(1,3) u] frame[OF W(2,4) u2] by (simp add: tr_trans_def)
    then show ?thesis using u2 by blast
  qed
  show "reach (PlainTR t1) {} n w \<Longrightarrow> \<exists>u. reach (PlainTR t) {} n u \<and> (\<forall>v. v \<notin> D \<longrightarrow> u v = w v)"
  proof (induction n arbitrary: w)
    case 0
    then obtain w2 where w: "init_ok (PlainTR t1) w" "tr_trans (PlainTR t1) w w2" by (auto simp: starts_def)
    define u where "u = (\<lambda>v. if v \<in> D then la_reset (the (map_of (tr_latches t) v)) = ID_TRUE else w v)"
    have u: "\<forall>v. v \<notin> D \<longrightarrow> u v = w v" by (simp add: u_def)
    have q: "lit_true u (la_id l) = (la_reset l = ID_TRUE)" if kl: "(k, l) \<in> set (tr_latches t)" for k l
    proof (cases "k \<in> D")
      case True
      have "map_of (tr_latches t) k = Some l" using dl kl by simp
      then show ?thesis using True lw[OF kl] by (simp add: lit_true_pos u_def)
    next
      case False
      then have "lit_true w (la_id l) = (la_reset l = ID_TRUE)"
        using w(1) kept[OF kl False] lw(4)[OF kl] unfolding init_ok_def by (auto simp: ID_TRUE_def)
      then show ?thesis using False lw[OF kl] by (simp add: lit_true_pos u_def)
    qed
    have "ID_FALSE \<noteq> ID_TRUE" by (simp add: ID_TRUE_val ID_FALSE_def)
    then have "(la_reset l = ID_TRUE \<longrightarrow> lit_true u (la_id l)) \<and> (la_reset l = ID_FALSE \<longrightarrow> \<not> lit_true u (la_id l))"
      if "(k, l) \<in> set (tr_latches t)" for k l using q[OF that] by simp
    then have "init_ok (PlainTR t) u" unfolding init_ok_def baseTR.simps by blast
    then show ?case using adj[OF w(2) u] u by (auto simp: starts_def)
  next
    case (Suc n)
    then obtain w0 w2 where w: "reach (PlainTR t1) {} n w0" "tr_trans (PlainTR t1) w0 w" "tr_trans (PlainTR t1) w w2" by auto
    obtain u0 where u0: "reach (PlainTR t) {} n u0" "\<forall>v. v \<notin> D \<longrightarrow> u0 v = w0 v" using Suc.IH[OF w(1)] by blast
    obtain u where u: "tr_trans (PlainTR t) u0 u" "\<forall>v. v \<notin> D \<longrightarrow> u v = w v" using adj[OF w(2) u0(2)] by blast
    obtain u2 where "tr_trans (PlainTR t) u u2" using adj[OF w(3) u(2)] by blast
    then show ?case using u0(1) u by auto
  qed
qed

lemma ivc_safe_all:
  assumes c: "ivc_circuit t" and all: "fst ` set (tr_gates t) \<subseteq> set G"
  shows "ivc_safe t G \<longleftrightarrow> (\<forall>n w. reach (PlainTR t) {} n w \<longrightarrow> \<not> bad_state (PlainTR t) w)"
proof -
  obtain t1 where t1: "tr_restrict t G = Inr t1" using tr_restrict_spec[OF ivc_circuitD(1)[OF c], of G] by (auto simp: wpr_iff)
  let ?D = "fst ` set (tr_latches t) - relevant t G"
  have "strip (tr_bad t) \<notin> ?D" using relevant.rel_bad[of t G] ivc_circuitD(3)[OF c] by (simp add: strip_id)
  then have bad: "bad_state (PlainTR t) u = bad_state (PlainTR t1) w" if "\<forall>v. v \<notin> ?D \<longrightarrow> u v = w v" for u w
    using that restrict_facts(1)[OF c t1] by (simp add: bad_state_def lit_true_def)
  have "reach (PlainTR t) {} n w \<Longrightarrow> reach (PlainTR t1) {} n w" for n w
    by (rule reach_over[OF tr_restrict_over(1-3)[OF ivc_circuitD(1)[OF c] t1]])
  then show ?thesis
    unfolding ivc_safe_def t1 using all_gates_reach[OF c t1 all] bad by (metis Inr_inject)
qed

lemma ivc_safe_sound:
  assumes c: "ivc_circuit t" and s: "ivc_safe t G" and w: "reach (PlainTR t) {} n w"
  shows "\<not> bad_state (PlainTR t) w"
proof -
  have "ivc_safe t (G @ map fst (tr_gates t))" by (rule ivc_safe_mono[OF ivc_circuitD(1)[OF c] s]) auto
  then show ?thesis using ivc_safe_all[OF c, of "G @ map fst (tr_gates t)"] w by auto
qed

end
