(* ===== verification/IvcFinder.thy ===== *)
theory IvcFinder
  imports IvcCircuit "HOL-Library.Multiset"
begin

text \<open>
  \<open>src/src/pme/ivc/ivc.{h,cpp}\<close>, \<open>ivc_bf.{h,cpp}\<close> and \<open>util/ivc_checker.cpp\<close>: inductive validity cores by
  brute force, which drops one gate after the other and asks IC3 whether the rest is safe, and the
  check of a given core.  The locale \<open>deletion\<close> gives minimality.
\<close>

subsection \<open>The finder\<close>

record ivcFinder =
  iv_vars :: varManager
  iv_tr :: transRel
  iv_mivcs :: "id list list"
  iv_bvcs :: "id list list list"
  iv_minimum_ivc :: "id list"

definition iv_new :: "varManager \<Rightarrow> transRel \<Rightarrow> ivcFinder" where
  "iv_new vm t = \<lparr>iv_vars = vm, iv_tr = t, iv_mivcs = [], iv_bvcs = [], iv_minimum_ivc = []\<rparr>"

definition iv_numMIVCs :: "ivcFinder \<Rightarrow> nat" where
  "iv_numMIVCs f = length (iv_mivcs f)"

definition iv_getMIVC :: "ivcFinder \<Rightarrow> nat \<Rightarrow> id list res" where
  "iv_getMIVC f i = assertR (i < iv_numMIVCs f) (atR (iv_mivcs f) i)"

definition iv_minimumIVCKnown :: "ivcFinder \<Rightarrow> bool" where
  "iv_minimumIVCKnown f = (iv_minimum_ivc f \<noteq> [])"

definition iv_getMinimumIVC :: "ivcFinder \<Rightarrow> id list" where
  "iv_getMinimumIVC f = iv_minimum_ivc f"

definition iv_addMIVC :: "id list \<Rightarrow> (ivcFinder, unit) sm" where
  "iv_addMIVC ivc = modifyS (\<lambda>f. f\<lparr>iv_mivcs := iv_mivcs f @ [ivc]\<rparr>)"

definition iv_setMinimumIVC :: "id list \<Rightarrow> (ivcFinder, unit) sm" where
  "iv_setMinimumIVC ivc = modifyS (\<lambda>f. f\<lparr>iv_minimum_ivc := ivc\<rparr>)"

definition iv_addBVC :: "nat \<Rightarrow> id list \<Rightarrow> (ivcFinder, unit) sm" where
  "iv_addBVC bound bvc = modifyS (\<lambda>f. let bvcs = (if length (iv_bvcs f) \<le> bound
       then iv_bvcs f @ replicate (bound + 1 - length (iv_bvcs f)) [] else iv_bvcs f) in
     f\<lparr>iv_bvcs := bvcs[bound := bvcs ! bound @ [bvc]]\<rparr>)"

definition iv_numBVCBounds :: "ivcFinder \<Rightarrow> nat" where
  "iv_numBVCBounds f = length (iv_bvcs f)"

definition iv_numBVCsAtBound :: "ivcFinder \<Rightarrow> nat \<Rightarrow> nat res" where
  "iv_numBVCsAtBound f i = bindR (atR (iv_bvcs f) i) (\<lambda>b. Inr (length b))"

definition iv_getBVC :: "ivcFinder \<Rightarrow> nat \<Rightarrow> nat \<Rightarrow> id list res" where
  "iv_getBVC f bound i = bindR (atR (iv_bvcs f) bound) (\<lambda>b. atR b i)"

text \<open>The variable manager is shared by reference.\<close>

definition iv_onVars :: "(varManager, 'a) sm \<Rightarrow> (ivcFinder, 'a) sm" where
  "iv_onVars m = zoomS iv_vars (\<lambda>vm f. f\<lparr>iv_vars := vm\<rparr>) m"

subsection \<open>Brute force\<close>

text \<open>The caller's proof is left alone when the gates are not safe.\<close>

definition bf_isSafeProof :: "backend \<Rightarrow> bool \<Rightarrow> nat \<Rightarrow> id list \<Rightarrow> safetyProof \<Rightarrow> (ivcFinder, bool \<times> safetyProof) sm" where
  "bf_isSafeProof B opt fuel seed prf = bindS getS (\<lambda>f. bindS (liftS (tr_restrict (iv_tr f) seed)) (\<lambda>partial.
     bindS (iv_onVars (i3_proveOn B opt fuel (PlainTR partial))) (\<lambda>safe.
     if sr_result safe = SAFE then retS (True, sr_proof safe) else retS (False, prf))))"

definition bf_isSafe :: "backend \<Rightarrow> bool \<Rightarrow> nat \<Rightarrow> id list \<Rightarrow> (ivcFinder, bool) sm" where
  "bf_isSafe B opt fuel seed = bindS (bf_isSafeProof B opt fuel seed []) (\<lambda>(b, prf). retS b)"

text \<open>\<open>map\<close> is the pointer to the map solver, that may be null: what \<open>checkSeed\<close> answers.\<close>

function bf_shrink_loop :: "backend \<Rightarrow> bool \<Rightarrow> nat \<Rightarrow> (id list \<Rightarrow> bool) option \<Rightarrow> id list \<Rightarrow> nat \<Rightarrow> (ivcFinder, id list) sm" where
  "bf_shrink_loop B opt fuel mp seed i = (if i < length seed then
     let seed_copy = take i seed @ drop (i + 1) seed in
     if mp \<noteq> None \<and> \<not> the mp seed_copy then bf_shrink_loop B opt fuel mp seed (i + 1)
     else bindS (bf_isSafe B opt fuel seed_copy) (\<lambda>b.
       if b then bf_shrink_loop B opt fuel mp seed_copy i else bf_shrink_loop B opt fuel mp seed (i + 1))
     else retS seed)"
  by auto
termination by (relation "measure (\<lambda>(B, opt, fuel, mp, seed, i). length seed - i)") auto

declare bf_shrink_loop.simps [simp del]

text \<open>\<open>shuffle\<close> stands for \<open>std::shuffle\<close> when the global option \<open>isRandom\<close> is set, and for no change
  otherwise.\<close>

definition bf_shrink :: "backend \<Rightarrow> bool \<Rightarrow> nat \<Rightarrow> (id list \<Rightarrow> id list) \<Rightarrow> (id list \<Rightarrow> bool) option \<Rightarrow> id list \<Rightarrow> (ivcFinder, id list) sm" where
  "bf_shrink B opt fuel shuffle mp seed = bf_shrink_loop B opt fuel mp (shuffle seed) 0"

definition bf_doFindIVCs :: "backend \<Rightarrow> bool \<Rightarrow> nat \<Rightarrow> (id list \<Rightarrow> id list) \<Rightarrow> (ivcFinder, unit) sm" where
  "bf_doFindIVCs B opt fuel shuffle = bindS getS (\<lambda>f. bindS (bf_shrink B opt fuel shuffle None (tr_gateIDs (iv_tr f))) iv_addMIVC)"

definition bf_findIVCs :: "backend \<Rightarrow> bool \<Rightarrow> nat \<Rightarrow> (id list \<Rightarrow> id list) \<Rightarrow> (ivcFinder, unit) sm" where
  "bf_findIVCs B opt fuel shuffle = bf_doFindIVCs B opt fuel shuffle"

text \<open>\<open>IVCChecker::checkSafe\<close>.\<close>

definition ic_checkSafe :: "backend \<Rightarrow> bool \<Rightarrow> nat \<Rightarrow> transRel \<Rightarrow> id list \<Rightarrow> (varManager, bool) sm" where
  "ic_checkSafe B opt fuel t ivc = bindS (liftS (tr_restrict t ivc)) (\<lambda>partial. bindS (i3_proveOn B opt fuel (PlainTR partial)) (\<lambda>result.
     thenS (assertS (sr_result result \<noteq> UNKNOWN)) (retS (sr_result result = SAFE))))"

subsection \<open>Checking a subset of the gates\<close>

lemma result_ok_safe:
  assumes "result_ok t {} r"
  shows "sr_result r \<noteq> UNKNOWN" "sr_result r = SAFE \<longleftrightarrow> (\<forall>n w. reach t {} n w \<longrightarrow> \<not> bad_state t w)"
proof -
  have b: "cube_sat w [tr_bad (baseTR t)] = bad_state t w" for w by (simp add: cube_sat_def bad_state_def)
  show "sr_result r \<noteq> UNKNOWN" "sr_result r = SAFE \<longleftrightarrow> (\<forall>n w. reach t {} n w \<longrightarrow> \<not> bad_state t w)"
    using assms cex_reach[of t "{}" "sr_cex r"] unfolding result_ok_def b by auto
qed

lemma ic3_fuel_mono: "m \<le> n \<Longrightarrow> ic3_fuel m \<le> ic3_fuel n"
  unfolding ic3_fuel_def by (intro mult_le_mono add_le_mono) auto

text \<open>The IDs one run of IC3 needs.\<close>

definition ivc_room :: "transRel \<Rightarrow> nat" where
  "ivc_room t = card (ic3_cubes (PlainTR t)) + 2"

lemma restrict_prove_wp:
  assumes B: "sat_backend B" and c: "ivc_circuit t" and vm: "vm_owns vm (PlainTR t)" "room (ivc_room t + k) vm"
    and fuel: "ic3_fuel (card (ic3_cubes (PlainTR t))) \<le> fuel" and t': "tr_restrict t G = Inr t'"
  shows "wp (i3_proveOn B opt fuel (PlainTR t')) (\<lambda>r vm'. sr_result r \<noteq> UNKNOWN \<and> (sr_result r = SAFE \<longleftrightarrow> ivc_safe t G)
     \<and> room k vm' \<and> vm_owns vm' (PlainTR t)) vm"
proof -
  note w = tr_restrict_wf[OF ivc_circuitD(1)[OF c] t'] and i = restrict_ic3[OF c t']
  have n: "card (ic3_cubes (PlainTR t')) \<le> card (ic3_cubes (PlainTR t))" by (rule card_mono[OF ic3_cubes_finite i(4)])
  have f: "ic3_fuel (card (ic3_cubes (PlainTR t'))) \<le> fuel" using ic3_fuel_mono[OF n] fuel by simp
  have v: "vm_owns vm (PlainTR t')" using vm(1) w(2) by (auto simp: vm_owns_def)
  have r: "room (card (ic3_cubes (PlainTR t')) + 2 + k) vm" by (rule room_mono[OF vm(2)]) (use n in \<open>simp add: ivc_room_def\<close>)
  have s: "ivc_safe t G \<longleftrightarrow> (\<forall>n w. reach (PlainTR t') {} n w \<longrightarrow> \<not> bad_state (PlainTR t') w)" by (simp add: ivc_safe_def t')
  show ?thesis
    by (rule wp_mono[OF i3_proveOn_wp[OF B w(1) i(1,3) v r i(2) f]]) (use result_ok_safe s vm(1) in \<open>auto simp: vm_owns_def\<close>)
qed


lemma bf_isSafe_wp:
  assumes B: "sat_backend B" and c: "ivc_circuit t" and s: "iv_tr s = t" "vm_owns (iv_vars s) (PlainTR t)" "room (ivc_room t + k) (iv_vars s)"
    and fuel: "ic3_fuel (card (ic3_cubes (PlainTR t))) \<le> fuel"
  shows "wp (bf_isSafe B opt fuel seed) (\<lambda>b s'. (b \<longleftrightarrow> ivc_safe t seed) \<and> vm_owns (iv_vars s') (PlainTR t) \<and> room k (iv_vars s')
     \<and> s' = s\<lparr>iv_vars := iv_vars s'\<rparr>) s"
proof -
  obtain t' where t': "tr_restrict t seed = Inr t'" using tr_restrict_spec[OF ivc_circuitD(1)[OF c], of seed] by (auto simp: wpr_iff)
  show ?thesis
    unfolding bf_isSafe_def bf_isSafeProof_def wp_bindS wp_getS wp_liftS s(1) t' wpr_Inr iv_onVars_def wp_zoomS
    by (rule wp_mono[OF restrict_prove_wp[OF B c s(2,3) fuel t']]) auto
qed

subsection \<open>The search ends with a minimal set\<close>

definition ivc_set :: "transRel \<Rightarrow> id set \<Rightarrow> bool" where
  "ivc_set t A = (tr_wf (PlainTR t) \<and> (\<forall>G. set G = A \<inter> fst ` set (tr_gates t) \<longrightarrow> ivc_safe t G))"

lemma ivc_set_iff:
  assumes "tr_wf (PlainTR t)"
  shows "ivc_set t (set G) \<longleftrightarrow> ivc_safe t G"
proof
  assume a: "ivc_set t (set G)"
  let ?G = "filter (\<lambda>k. k \<in> fst ` set (tr_gates t)) G"
  have "ivc_safe t ?G" using a unfolding ivc_set_def by (elim conjE allE[of _ ?G]) auto
  then show "ivc_safe t G" by (rule ivc_safe_mono[OF assms]) auto
next
  assume a: "ivc_safe t G"
  have "ivc_safe t G'" if "set G' = set G \<inter> fst ` set (tr_gates t)" for G'
    by (rule ivc_safe_mono[OF assms a]) (use that in auto)
  then show "ivc_set t (set G)" using assms by (simp add: ivc_set_def)
qed

interpretation ivc: deletion "ivc_set t" for t
proof
  fix A B assume a: "ivc_set t A" "A \<subseteq> B"
  obtain G where G: "set G = A \<inter> fst ` set (tr_gates t)" using finite_list[of "A \<inter> fst ` set (tr_gates t)"] by auto
  have s: "tr_wf (PlainTR t)" "ivc_safe t G" using a(1) G by (simp_all add: ivc_set_def)
  have "ivc_safe t G'" if "set G' = B \<inter> fst ` set (tr_gates t)" for G'
    by (rule ivc_safe_mono[OF s]) (use that G a(2) in auto)
  then show "ivc_set t B" using s(1) by (simp add: ivc_set_def)
qed

lemma set_without:
  assumes "distinct xs" "i < length xs"
  shows "set (take i xs @ drop (i + 1) xs) = set xs - {xs ! i}" "distinct (take i xs @ drop (i + 1) xs)"
proof -
  have e: "xs = take i xs @ xs ! i # drop (i + 1) xs" using id_take_nth_drop[OF assms(2)] by simp
  have d: "distinct (take i xs @ xs ! i # drop (i + 1) xs)" using assms(1) e by simp
  have "set xs = set (take i xs) \<union> insert (xs ! i) (set (drop (i + 1) xs))" using arg_cong[OF e, of set] by simp
  then show "set (take i xs @ drop (i + 1) xs) = set xs - {xs ! i}" using d by auto
  show "distinct (take i xs @ drop (i + 1) xs)" using d by simp
qed

lemma vars_upd: "s1 = s\<lparr>iv_vars := v\<rparr> \<Longrightarrow> s2 = s1\<lparr>iv_vars := w\<rparr> \<Longrightarrow> s2 = s\<lparr>iv_vars := w\<rparr>"
  by simp

lemma bf_shrink_loop_wp:
  assumes "sat_backend B" "ivc_circuit t" "ic3_fuel (card (ic3_cubes (PlainTR t))) \<le> fuel" "\<forall>chk G. mp = Some chk \<longrightarrow> \<not> chk G \<longrightarrow> \<not> ivc_safe t G"
    and "iv_tr s = t" "vm_owns (iv_vars s) (PlainTR t)" "room ((length seed - i) * ivc_room t + k) (iv_vars s)"
    and "distinct seed" "ivc_safe t seed" "\<forall>x\<in>set (take i seed). \<not> ivc_set t (set seed - {x})"
  shows "wp (bf_shrink_loop B opt fuel mp seed i) (\<lambda>ivc s'. set ivc \<subseteq> set seed \<and> distinct ivc \<and> min_set (ivc_set t) (set ivc)
     \<and> vm_owns (iv_vars s') (PlainTR t) \<and> room k (iv_vars s') \<and> s' = s\<lparr>iv_vars := iv_vars s'\<rparr>) s"
  using assms
proof (induction B opt fuel mp seed i arbitrary: s rule: bf_shrink_loop.induct)
  case (1 B opt fuel mp seed i)
  note IH = 1(1-3) and B = 1(4) and c = 1(5) and fuel = 1(6) and chk = 1(7) and s = 1(8,9) and rm = 1(10) and d = 1(11) and safe = 1(12) and nd = 1(13)
  note wf = ivc_circuitD(1)[OF c]
  let ?c = "take i seed @ drop (i + 1) seed"
  show ?case
  proof (cases "i < length seed")
    case False
    then have "min_set (ivc_set t) (set seed)" using ivc.needed_min safe nd by (simp add: ivc_set_iff[OF wf])
    then show ?thesis using False s rm d by (subst bf_shrink_loop.simps) simp
  next
    case True
    note sw = set_without[OF d True]
    have keep: "\<forall>x\<in>set (take (i + 1) seed). \<not> ivc_set t (set seed - {x})" if "\<not> ivc_safe t ?c"
    proof -
      have "\<not> ivc_set t (set seed - {seed ! i})" using that ivc_set_iff[OF wf, of ?c] sw(1) by simp
      then show ?thesis using nd True by (simp add: take_Suc_conv_app_nth)
    qed
    have len: "length seed - i = Suc (length seed - (i + 1))" "length ?c - i = length seed - (i + 1)" using True by auto
    have r: "room (ivc_room t + ((length seed - (i + 1)) * ivc_room t + k)) (iv_vars s)" using rm unfolding len(1) by (simp add: add.assoc)
    show ?thesis
    proof (cases "mp \<noteq> None \<and> \<not> the mp ?c")
      case T: True
      then have u: "\<not> ivc_safe t ?c" using chk by auto
      have "room ((length seed - (i + 1)) * ivc_room t + k) (iv_vars s)" by (rule room_mono[OF r]) simp
      from IH(1)[OF True refl T B c fuel chk s this d safe keep[OF u]] show ?thesis
        unfolding bf_shrink_loop.simps[of _ _ _ _ seed i] if_P[OF True] Let_def if_P[OF T] .
    next
      case F: False
      show ?thesis
        unfolding bf_shrink_loop.simps[of _ _ _ _ seed i] if_P[OF True] Let_def if_not_P[OF F] wp_bindS wp_if
      proof (rule wp_mono[OF bf_isSafe_wp[OF B c s r fuel]], elim conjE, goal_cases)
        case g: (1 b s1)
        have s1: "iv_tr s1 = t" using g(4) s(1) by (metis ivcFinder.select_convs(2) ivcFinder.surjective ivcFinder.update_convs(1))
        show ?case
        proof (cases b)
          case b: True
          then have sf: "ivc_safe t ?c" using g(1) by simp
          have n': "\<forall>x\<in>set (take i ?c). \<not> ivc_set t (set ?c - {x})"
          proof
            fix x assume x: "x \<in> set (take i ?c)"
            then have "x \<in> set (take i seed)" using True by simp
            then have "\<not> ivc_set t (set seed - {x})" using nd by blast
            then show "\<not> ivc_set t (set ?c - {x})" by (rule ivc.needed_shrink) (use sw(1) in blast)
          qed
          have r': "room ((length ?c - i) * ivc_room t + k) (iv_vars s1)" using g(3) len(2) by simp
          show ?thesis
            unfolding if_P[OF b]
            by (rule wp_mono[OF IH(2)[OF True refl F b B c fuel chk s1 g(2) r' sw(2) sf n']]) (use sw(1) vars_upd[OF g(4)] in blast)
        next
          case b: False
          then have u: "\<not> ivc_safe t ?c" using g(1) by simp
          show ?thesis
            unfolding if_not_P[OF b]
            by (rule wp_mono[OF IH(3)[OF True refl F b B c fuel chk s1 g(2,3) d safe keep[OF u]]]) (use vars_upd[OF g(4)] in blast)
        qed
      qed
    qed
  qed
qed


lemma bf_findIVCs_wp:
  assumes B: "sat_backend B" and c: "ivc_circuit t" and fuel: "ic3_fuel (card (ic3_cubes (PlainTR t))) \<le> fuel"
    and vm: "vm_owns vm (PlainTR t)" "room (length (tr_gateIDs t) * ivc_room t + k) vm"
    and g: "distinct (tr_gateIDs t)" "set (tr_gateIDs t) = fst ` set (tr_gates t)"
    and sh: "mset (shuffle (tr_gateIDs t)) = mset (tr_gateIDs t)"
    and safe: "\<And>n w. reach (PlainTR t) {} n w \<Longrightarrow> \<not> bad_state (PlainTR t) w"
  shows "wp (bf_findIVCs B opt fuel shuffle) (\<lambda>_ f. \<exists>ivc. iv_mivcs f = [ivc] \<and> set ivc \<subseteq> set (tr_gateIDs t) \<and> distinct ivc
     \<and> min_set (ivc_set t) (set ivc) \<and> room k (iv_vars f)) (iv_new vm t)"
proof -
  let ?s = "iv_new vm t" and ?seed = "shuffle (tr_gateIDs t)"
  have sd: "set ?seed = set (tr_gateIDs t)" "length ?seed = length (tr_gateIDs t)" "distinct ?seed"
    using sh g(1) mset_eq_setD[OF sh] mset_eq_length[OF sh] mset_eq_imp_distinct_iff[OF sh] by simp_all
  have "ivc_safe t ?seed" using ivc_safe_all[OF c, of ?seed] sd(1) g(2) safe by simp
  then have l: "wp (bf_shrink_loop B opt fuel None ?seed 0) (\<lambda>ivc s'. set ivc \<subseteq> set ?seed \<and> distinct ivc \<and> min_set (ivc_set t) (set ivc)
     \<and> vm_owns (iv_vars s') (PlainTR t) \<and> room k (iv_vars s') \<and> s' = ?s\<lparr>iv_vars := iv_vars s'\<rparr>) ?s"
    by (intro bf_shrink_loop_wp[OF B c fuel]) (use vm sd in \<open>simp_all add: iv_new_def\<close>)
  have e: "iv_tr ?s = t" "iv_mivcs ?s = []" by (simp_all add: iv_new_def)
  show ?thesis
    unfolding bf_findIVCs_def bf_doFindIVCs_def bf_shrink_def iv_addMIVC_def wp_bindS wp_getS wp_modifyS e(1)
  proof (rule wp_mono[OF l], elim conjE, goal_cases)
    case (1 ivc s')
    have "iv_mivcs s' = []" using arg_cong[OF 1(6), of iv_mivcs] e(2) by simp
    then show ?case using 1(1-3,5) sd(1) by auto
  qed
qed

end
