(* ===== verification/Examples.thy ===== *)
theory Examples
  imports Minimizers CardConstraint CheckCex IvcFinder
begin

text \<open>
  Small circuits, managers and checkers at which the properties of the root theory are applied.
\<close>

text \<open>A latch that toggles from \<open>false\<close>, read through a gate; the gate is the bad signal.\<close>

definition toggle_aig :: aig where
  "toggle_aig = \<lparr>ai_maxvar = 2, ai_inputs = [], ai_latches = [\<lparr>sy_lit = 2, sy_next = 3, sy_reset = 0, sy_name = None\<rparr>],
     ai_outputs = [\<lparr>sy_lit = 4, sy_next = 0, sy_reset = 0, sy_name = None\<rparr>], ai_constraints = [],
     ai_ands = [\<lparr>an_lhs = 4, an_rhs0 = 2, an_rhs1 = 2\<rparr>]\<rparr>"

definition toggle_tr :: transRel where
  "toggle_tr = \<lparr>tr_bad = 6, tr_latches = [(4, \<lparr>la_id = 4, la_next = 5, la_reset = ID_FALSE\<rparr>)],
     tr_gates = [(6, \<lparr>ag_lhs = 6, ag_rhs0 = 4, ag_rhs1 = 4\<rparr>)], tr_latchIDs = [4], tr_inputIDs = [], tr_gateIDs = [6],
     tr_constraints = []\<rparr>"

lemma room_new: "k < 1000 \<Longrightarrow> room k vm_new"
  using vm_new_inv by (simp add: room_def vm_new_def MIN_ID_val)

lemma const_old: "old_lit vm_new ID_TRUE" "old_lit vm_new ID_FALSE"
  by (simp_all add: old_lit_def old_var_def vm_new_def MIN_ID_val ID_TRUE_val ID_FALSE_def strip_def is_negated_def negate_def)

lemma vm_new_base: "vm_base vm_new"
  by (simp add: vm_base_def vm_new_def)

lemma toggle_aig_ok: "aig_ok toggle_aig 4"
  by (simp add: aig_ok_def toggle_aig_def aig_defined_def aiger_sign_def aiger_strip_def)

lemma small_ids: "strip 4 = 4" "strip 5 = 4" "strip 6 = 6" "strip 7 = 6" "\<not> is_negated 4" "is_negated 5" "\<not> is_negated 6" "is_negated 7"
  "negate 4 = 5" "negate 5 = 4" "negate 6 = 7" "negate 7 = 6" "unprime 4 = 4" "unprime 6 = 6" "unprime 0 = 0" "strip 0 = 0" "\<not> is_negated 0" "\<not> is_negated 2"
  "ID_FALSE \<noteq> 4" "ID_FALSE \<noteq> 6"
  by (simp_all add: strip_def is_negated_def negate_def unprime_def MAX_ID_val ID_FALSE_def)

lemma toggle_wf: "tr_wf (PlainTR toggle_tr)"
  by (auto simp: tr_wf_def toggle_tr_def tr_vars_def small_ids MIN_ID_val is_valid_id_def ID_FALSE_def ID_NULL_def unprime_def MAX_ID_val)

lemma toggle_state_vars: "state_vars (PlainTR toggle_tr) = {4, 6}"
  by (auto simp: state_vars_def toggle_tr_def small_ids)

lemma toggle_vm: "\<exists>vm. tr_build toggle_aig 4 vm_new = Inr (aig_tr vm toggle_aig 4, vm) \<and> room 100 vm
   \<and> tr_wf (PlainTR (aig_tr vm toggle_aig 4)) \<and> vm_owns vm (PlainTR (aig_tr vm toggle_aig 4))"
proof -
  have "wp (tr_build toggle_aig 4) (\<lambda>t vm'. t = aig_tr vm' toggle_aig 4 \<and> aig_known vm' toggle_aig \<and> room 100 vm' \<and> vm_base vm'
     \<and> ext_le vm_new vm') vm_new"
    by (rule tr_build_wp[OF toggle_aig_ok _ vm_new_base]) (use room_new[of "100 + aig_size toggle_aig"] in \<open>simp add: aig_size_def toggle_aig_def\<close>)
  then obtain vm where b: "tr_build toggle_aig 4 vm_new = Inr (aig_tr vm toggle_aig 4, vm)" "aig_known vm toggle_aig" "room 100 vm" "vm_base vm"
    by (auto simp: wp_iff)
  then show ?thesis using aig_tr_wf[OF room_0[OF b(3)] b(2,4) toggle_aig_ok] by blast
qed

lemma bad_neg_latch_wf: "tr_wf (PlainTR bad_neg_latch)"
proof -
  have "tr_vars (PlainTR bad_neg_latch) = {ID_FALSE, 4}" by (auto simp: tr_vars_def bad_neg_latch_def small_ids)
  then show ?thesis
    by (simp add: tr_wf_def) (simp add: bad_neg_latch_def small_ids MIN_ID_val is_valid_id_def ID_FALSE_def small_unprime)
qed

lemma bad_neg_latch_safe:
  "\<forall>n ss. init_ok (PlainTR bad_neg_latch) (ss 0) \<and> path_ok (PlainTR bad_neg_latch) n ss \<longrightarrow> \<not> bad_state (PlainTR bad_neg_latch) (ss n)"
proof (intro allI impI, elim conjE)
  fix n and ss :: "nat \<Rightarrow> assignment"
  assume i: "init_ok (PlainTR bad_neg_latch) (ss 0)" and p: "path_ok (PlainTR bad_neg_latch) n ss"
  have "lit_true (ss j) 4" if "j \<le> n" for j
    using that
  proof (induction j)
    case (Suc j)
    then have "step_ok (PlainTR bad_neg_latch) (ss j) (ss (Suc j))" using p by (simp add: path_ok_def)
    then show ?case using Suc by (simp add: step_ok_def bad_neg_latch_def)
  qed (use i in \<open>simp add: init_ok_def bad_neg_latch_def\<close>)
  then have "lit_true (ss n) 4" by simp
  then show "\<not> bad_state (PlainTR bad_neg_latch) (ss n)" by (simp add: bad_state_def bad_neg_latch_def)
qed

lemma toggle_free_path:
  assumes wf: "tr_wf (PlainTR (aig_tr vm toggle_aig 4))"
  shows "\<exists>ss. (\<forall>i. const_ok (ss i)) \<and> init_ok (PlainTR (aig_tr vm toggle_aig 4)) (ss 0)
     \<and> path_ok (PlainTR (without_gates (fst ` set (tr_gates (aig_tr vm toggle_aig 4))) (aig_tr vm toggle_aig 4))) 1 ss"
proof -
  let ?t = "aig_tr vm toggle_aig 4"
  let ?s = "\<lambda>_ :: id. False"
  define ss where "ss = (\<lambda>i :: nat. if i = 0 then ?s else next_state (PlainTR ?t) ?s)"
  have l: "tr_latches ?t = [aig_latch vm \<lparr>sy_lit = 2, sy_next = 3, sy_reset = 0, sy_name = None\<rparr>]" "tr_constraints ?t = []"
    by (simp_all add: aig_tr_def toggle_aig_def)
  have "init_ok (PlainTR ?t) ?s" unfolding init_ok_def baseTR.simps
  proof (clarify, intro conjI impI)
    fix k a assume ka: "(k, a) \<in> set (tr_latches ?t)"
    then have "la_id a = k" "\<not> is_negated k" using wf by (auto simp: tr_wf_def)
    then show "\<not> lit_true ?s (la_id a)" by (simp add: lit_true_pos)
    show "lit_true ?s (la_id a)" if "la_reset a = ID_TRUE" using ka that by (simp add: l aig_latch_def reset_of_def ID_TRUE_def ID_FALSE_def split: if_splits)
  qed
  moreover have "path_ok (PlainTR (without_gates (fst ` set (tr_gates ?t)) ?t)) 1 ss"
  proof -
    have "filter (\<lambda>(k, g). k \<notin> fst ` set (tr_gates ?t)) (tr_gates ?t) = []" by (force simp: filter_empty_conv)
    then have "frame_ok (PlainTR (without_gates (fst ` set (tr_gates ?t)) ?t)) s" for s by (simp add: frame_ok_def without_gates_def l(2))
    moreover have "step_ok (PlainTR ?t) (ss 0) (ss 1)" using next_state_ok(1)[OF wf] by (simp add: ss_def)
    ultimately show ?thesis by (simp add: path_ok_def step_ok_def without_gates_def)
  qed
  moreover have "const_ok (ss i)" for i using next_state_ok(2)[OF wf] by (simp add: ss_def const_ok_def)
  ultimately show ?thesis by (intro exI[of _ ss]) (simp add: ss_def)
qed

lemma toggle_built: "\<exists>t vm. tr_build toggle_aig 4 vm_new = Inr (t, vm) \<and> tr_wf (PlainTR t) \<and> vm_owns vm (PlainTR t) \<and> vm_inv vm \<and> room 100 vm"
  using toggle_vm room_0 by blast

text \<open>A latch that keeps its value and is the bad signal.\<close>

definition hold_tr :: "id \<Rightarrow> transRel" where
  "hold_tr r = \<lparr>tr_bad = 4, tr_latches = [(4, \<lparr>la_id = 4, la_next = 4, la_reset = r\<rparr>)],
     tr_gates = [], tr_latchIDs = [4], tr_inputIDs = [], tr_gateIDs = [], tr_constraints = []\<rparr>"

lemma hold_wf: "r \<in> {ID_TRUE, ID_FALSE} \<Longrightarrow> tr_wf (PlainTR (hold_tr r))" "state_vars (PlainTR (hold_tr r)) = {4}"
  by (auto simp: tr_wf_def hold_tr_def tr_vars_def small_ids MIN_ID_val is_valid_id_def ID_FALSE_def ID_NULL_def unprime_def MAX_ID_val state_vars_def)

lemma hold_sem: "frame_ok (PlainTR (hold_tr r)) s" "step_ok (PlainTR (hold_tr r)) s s' = (s' 4 = s 4)"
    "bad_state (PlainTR (hold_tr r)) s = s 4"
    "init_ok (PlainTR (hold_tr r)) s = ((r = ID_TRUE \<longrightarrow> s 4) \<and> (r = ID_FALSE \<longrightarrow> \<not> s 4))"
  by (simp_all add: frame_ok_def step_ok_def bad_state_def init_ok_def hold_tr_def lit_true_def small_ids)

lemma hold_proof: "sp_proof (PlainTR (hold_tr ID_FALSE)) [[5]]" "sp_proof (PlainTR (hold_tr ID_TRUE)) []"
  by (auto simp: sp_proof_def sp_initiation_def sp_induction_def sp_strengthening_def tr_trans_def hold_sem clause_sat_def
      lit_true_def small_ids)

text \<open>A checker for the toggling latch with one clause, the property.\<close>

lemma toggle_checker: "\<exists>t c. tr_wf (PlainTR t) \<and> cc_inv (PlainTR t) c \<and> dom (cc_map c) = {0} \<and> clause_ok (PlainTR t) (tr_propertyClause (PlainTR t))"
proof -
  obtain t vm where t: "tr_wf (PlainTR t)" "vm_owns vm (PlainTR t)" "vm_inv vm" "room 100 vm" using toggle_built by blast
  obtain c where c: "cc_inv (PlainTR t) c" "cc_map c = Map.empty" "cc_vars c = vm" using cc_new_wp[OF t(3,2)] by (auto simp: wpr_iff)
  have "wp (cc_addClause 0 (tr_propertyClause (PlainTR t))) (\<lambda>_ c'. cc_inv (PlainTR t) c' \<and> dom (cc_map c') = {0}) c"
    by (rule wp_mono[OF cc_addClause_wp[OF c(1), of 0]]) (use c t room_mono[OF t(4)] bad_clause_ok[OF t(1)] in auto)
  then show ?thesis using t(1) bad_clause_ok[OF t(1)] by (auto simp: wp_iff)
qed

text \<open>A manager that knows the variable of the latch that keeps its value, and a proof with a
  superfluous clause.\<close>

lemma hold_vm: "\<exists>vm. vm_inv vm \<and> room 100 vm \<and> vm_owns vm (PlainTR (hold_tr ID_FALSE))"
proof -
  obtain nm vm where v: "getNewID_named ''l'' 0 vm_new = Inr (m_nextID vm_new, vm)" "m_nextID vm = m_nextID vm_new + 2" "vm_inv vm"
      "m_vars vm = (m_vars vm_new)(m_nextID vm_new \<mapsto> \<lparr>v_id = m_nextID vm_new, v_external = 0, v_name = nm\<rparr>)"
    using getNewID_named_wp[OF vm_new_inv, of 0 "''l''"]
    by (auto simp: wp_iff vm_new_def MIN_ID_val MAX_ID_val aiger_sign_def)
  have "room 100 vm" using v(2,3) by (simp add: room_def vm_new_def MIN_ID_val)
  moreover have "isKnown vm ID_FALSE" using vm_new_inv v(4) by (simp add: isKnown_def vm_new_def)
  then have "vm_owns vm (PlainTR (hold_tr ID_FALSE))"
    using v(4) by (auto simp: vm_owns_def tr_vars_def hold_tr_def small_ids isKnown_def vm_new_def MIN_ID_val)
  ultimately show ?thesis using v(3) by blast
qed

lemma hold_prop: "tr_propertyClause (PlainTR (hold_tr r)) = [5]"
  by (simp add: tr_propertyClause_def hold_tr_def small_ids)

lemma hold_ok: "clause_ok (PlainTR (hold_tr r)) [5]" "with_property (PlainTR (hold_tr r)) [] = [[5]]"
  "ind_clauses (PlainTR (hold_tr r)) {[5]}" "sp_initiation (PlainTR (hold_tr ID_FALSE)) [[5]]"
  using hold_proof(1) by (simp_all add: clause_ok_def hold_wf(2) small_ids with_property_def hold_prop ind_clauses_def consec_def
      tr_trans_def hold_sem clause_sat_def lit_true_def sp_proof_def)

subsection \<open>Property directed reachability\<close>

lemma hold_functional:
  assumes r: "r \<in> {ID_TRUE, ID_FALSE}"
  shows "functional (PlainTR (hold_tr r))" "init_cubes (PlainTR (hold_tr r)) \<noteq> {}"
proof -
  have v: "tr_vars (PlainTR (hold_tr r)) \<subseteq> {4, ID_FALSE}" "io_vars (PlainTR (hold_tr r)) = {4}"
    using r by (auto simp: tr_vars_def hold_tr_def small_ids io_vars_def ID_TRUE_val ID_FALSE_def strip_def is_negated_def negate_def)
  have "det (PlainTR (hold_tr r))" unfolding det_def v(2) using v(1) by (auto simp: const_ok_def)
  moreover have "gates_total (PlainTR (hold_tr r))" unfolding gates_total_def using hold_sem(1) by blast
  ultimately show "functional (PlainTR (hold_tr r))" by (simp add: functional_def hold_tr_def)
  show "init_cubes (PlainTR (hold_tr r)) \<noteq> {}"
    using r by (auto simp: init_cubes_def tr_initState_def hold_tr_def assertR_def make_equal_def ID_NULL_def ID_TRUE_val ID_FALSE_def)
qed

lemma hold_cubes: "ic3_cubes (PlainTR (hold_tr r)) \<subseteq> {[4], [5], [4, 5]}"
proof
  fix c assume "c \<in> ic3_cubes (PlainTR (hold_tr r))"
  then consider "c = [4]" | "c \<noteq> []" "sorted c" "distinct c" "strip ` set c \<subseteq> {4}" by (auto simp: ic3_cubes_def hold_tr_def)
  then show "c \<in> {[4], [5], [4, 5]}"
  proof cases
    case 2
    have "x = 4 \<or> x = 5" if "x \<in> set c" for x
    proof -
      have "strip x = 4" using that 2(4) by auto
      moreover have "x = strip x \<or> x = negate (strip x)" by (simp add: strip_def)
      ultimately show ?thesis by (auto simp: small_ids)
    qed
    then have "set c \<in> Pow {4, 5}" by blast
    then have "set c \<in> {{}, {4}, {5}, {4, 5}}" by (simp add: Pow_insert) blast
    moreover have "set c \<noteq> {}" using 2(1) by simp
    ultimately have "set c = set [4] \<or> set c = set [5] \<or> set c = set [4, 5 :: id]" by simp
    moreover have "c = d" if "set c = set d" "sorted d" "distinct d" for d
      using sorted_distinct_set_unique[OF 2(2,3) that(2,3,1)] .
    ultimately show ?thesis by fastforce
  qed simp
qed

lemma hold_card: "card (ic3_cubes (PlainTR (hold_tr r))) \<le> 3" "ic3_fuel (card (ic3_cubes (PlainTR (hold_tr r)))) \<le> 130"
proof -
  have "card {[4], [5], [4, 5 :: id]} \<le> 3" by (rule card_insert_le_m1; simp)+ 
  then show c: "card (ic3_cubes (PlainTR (hold_tr r))) \<le> 3" using card_mono[OF _ hold_cubes[of r]] by simp
  have "(N * (N + 1) + 1) * (2 * N + 4) \<le> (3 * (3 + 1) + 1) * (2 * 3 + 4 :: nat)" if "N \<le> 3" for N using that by (intro mult_le_mono add_mono) auto
  then show "ic3_fuel (card (ic3_cubes (PlainTR (hold_tr r)))) \<le> 130" unfolding ic3_fuel_def using c by fastforce
qed

lemma hold_vm_any: "r \<in> {ID_TRUE, ID_FALSE} \<Longrightarrow> \<exists>vm. vm_inv vm \<and> room 100 vm \<and> vm_owns vm (PlainTR (hold_tr r))"
proof -
  assume r: "r \<in> {ID_TRUE, ID_FALSE}"
  obtain vm where vm: "vm_inv vm" "room 100 vm" "vm_owns vm (PlainTR (hold_tr ID_FALSE))" using hold_vm by blast
  have "tr_vars (PlainTR (hold_tr r)) = tr_vars (PlainTR (hold_tr ID_FALSE))"
    using r by (auto simp: tr_vars_def hold_tr_def ID_TRUE_val ID_FALSE_def strip_def is_negated_def negate_def)
  then show ?thesis using vm by (auto simp: vm_owns_def)
qed

lemma hold_sel: "tr_bad (baseTR (PlainTR (hold_tr r))) = 4" "tr_latchIDs (baseTR (PlainTR (hold_tr r))) = [4]" "tr_inputIDs (baseTR (PlainTR (hold_tr r))) = []"
  by (simp_all add: hold_tr_def)

lemma hold_run:
  assumes "r \<in> {ID_TRUE, ID_FALSE}"
  shows "\<exists>vm. vm_owns vm (PlainTR (hold_tr r)) \<and> room (card (ic3_cubes (PlainTR (hold_tr r))) + 2) vm"
    "ic3_fuel (card (ic3_cubes (PlainTR (hold_tr r)))) \<le> 200" "strip (tr_bad (baseTR (PlainTR (hold_tr r)))) \<noteq> ID_FALSE"
proof -
  obtain vm where vm: "vm_owns vm (PlainTR (hold_tr r))" "room 100 vm" using hold_vm_any[OF assms] by blast
  have "room (card (ic3_cubes (PlainTR (hold_tr r))) + 2) vm" by (rule room_mono[OF vm(2)]) (use hold_card(1)[of r] in simp)
  then show "\<exists>vm. vm_owns vm (PlainTR (hold_tr r)) \<and> room (card (ic3_cubes (PlainTR (hold_tr r))) + 2) vm" using vm(1) by blast
qed (use hold_card(2)[of r] in \<open>simp_all add: hold_tr_def small_ids ID_FALSE_def\<close>)

text \<open>The states of this latch: the value it starts with is kept.\<close>

lemma hold_reach: "reach (PlainTR (hold_tr r)) R n w \<Longrightarrow> r \<in> {ID_TRUE, ID_FALSE} \<Longrightarrow> w 4 = (r = ID_TRUE)"
proof (induction n arbitrary: w)
  case 0
  then show ?case by (auto simp: starts_def hold_sem ID_TRUE_val ID_FALSE_def)
next
  case (Suc n)
  then obtain u where "reach (PlainTR (hold_tr r)) R n u" "tr_trans (PlainTR (hold_tr r)) u w" by auto
  then show ?case using Suc.IH Suc.prems(2) by (auto simp: tr_trans_def hold_sem)
qed

lemma hold_reach_0:
  assumes "r \<in> {ID_TRUE, ID_FALSE}"
  shows "reach (PlainTR (hold_tr r)) {} 0 (\<lambda>v. v = 4 \<and> r = ID_TRUE)"
proof -
  let ?w = "\<lambda>v :: id. v = 4 \<and> r = ID_TRUE"
  have "tr_trans (PlainTR (hold_tr r)) ?w ?w" using small_ids(19) by (simp add: tr_trans_def hold_sem const_ok_def)
  moreover have "starts (PlainTR (hold_tr r)) {} ?w" using assms by (auto simp: starts_def hold_sem ID_TRUE_val ID_FALSE_def)
  ultimately show ?thesis by auto
qed

lemma hold_setting:
  assumes "r \<in> {ID_TRUE, ID_FALSE}"
  shows "ic3_setting ref_backend (PlainTR (hold_tr r)) {}"
proof (intro ic3_setting.intro ref.sat_backend_axioms ic3_setting_axioms.intro hold_wf(1) assms hold_functional)
  show "strip (tr_bad (baseTR (PlainTR (hold_tr r)))) \<noteq> ID_FALSE" by (simp add: hold_tr_def small_ids ID_FALSE_def)
  show "init_cubes (PlainTR (hold_tr r)) \<union> {} \<noteq> {} \<or> tr_latchIDs (baseTR (PlainTR (hold_tr r))) = []" using hold_functional(2)[OF assms] by simp
qed simp

interpretation hold_ic3: ic3_setting ref_backend "PlainTR (hold_tr (if b then ID_TRUE else ID_FALSE))" "{}" opt for b opt
  by (rule hold_setting) simp

subsection \<open>A circuit with two gates\<close>

text \<open>The bad gate reads a latch that stays low; the other gate is not needed.\<close>

definition gated_tr :: transRel where
  "gated_tr = \<lparr>tr_bad = 8, tr_latches = [(4, \<lparr>la_id = 4, la_next = 4, la_reset = ID_FALSE\<rparr>)],
     tr_gates = [(8, \<lparr>ag_lhs = 8, ag_rhs0 = 4, ag_rhs1 = 6\<rparr>), (10, \<lparr>ag_lhs = 10, ag_rhs0 = 6, ag_rhs1 = 6\<rparr>)],
     tr_latchIDs = [4], tr_inputIDs = [6], tr_gateIDs = [8, 10], tr_constraints = []\<rparr>"

lemma gated_ids: "strip (4 :: id) = 4" "strip (6 :: id) = 6" "strip (8 :: id) = 8" "strip (10 :: id) = 10"
  "\<not> is_negated (4 :: id)" "\<not> is_negated (6 :: id)" "\<not> is_negated (8 :: id)" "\<not> is_negated (10 :: id)"
  "strip ID_FALSE = ID_FALSE" "ID_FALSE \<noteq> 4" "ID_FALSE \<noteq> 6" "ID_FALSE \<noteq> 8" "ID_FALSE \<noteq> 10" "ID_FALSE \<noteq> ID_NULL"
  "4 \<noteq> ID_FALSE" "6 \<noteq> ID_FALSE" "8 \<noteq> ID_FALSE" "10 \<noteq> ID_FALSE"
  by (simp_all add: strip_def is_negated_def ID_FALSE_def ID_NULL_def)

lemma gated_vars: "tr_vars (PlainTR gated_tr) = {ID_FALSE, 4, 6, 8, 10}"
  by (auto simp: tr_vars_def gated_tr_def gated_ids)

lemma gated_circuit: "ivc_circuit gated_tr"
proof -
  have "tr_wf (PlainTR gated_tr)" unfolding tr_wf_def gated_vars
    by (simp add: gated_tr_def gated_ids MIN_ID_val is_valid_id_def ID_FALSE_def unprime_def MAX_ID_val)
  moreover have "gates_ordered gated_tr" unfolding gates_ordered_def
    by (rule exI[of _ unat]) (simp add: gated_tr_def gated_ids)
  ultimately show ?thesis
    by (simp add: ivc_circuit_def gates_plain_def) (simp add: gated_tr_def gated_ids)
qed

lemma gated_safe_iff: "ivc_safe gated_tr G \<longleftrightarrow> 8 \<in> set G"
proof -
  let ?t = gated_tr
  obtain t' where t': "tr_restrict ?t G = Inr t'" using tr_restrict_spec[OF ivc_circuitD(1)[OF gated_circuit], of G] by (auto simp: wpr_iff)
  note f = restrict_facts[OF gated_circuit t']
  have bad8: "tr_bad ?t = 8" by (simp add: gated_tr_def)
  show ?thesis
  proof (cases "8 \<in> set G")
    case True
    have kg: "(8, \<lparr>ag_lhs = 8, ag_rhs0 = 4, ag_rhs1 = 6\<rparr>) \<in> set (tr_gates ?t)" by (simp add: gated_tr_def)
    have "4 \<in> relevant ?t G" using relevant.rel_rhs0[OF kg True] by (simp add: gated_ids)
    then have l: "(4, \<lparr>la_id = 4, la_next = 4, la_reset = ID_FALSE\<rparr>) \<in> set (tr_latches t')" by (simp add: f(4)) (simp add: gated_tr_def)
    have g: "(8, \<lparr>ag_lhs = 8, ag_rhs0 = 4, ag_rhs1 = 6\<rparr>) \<in> set (tr_gates t')" using kg True by (simp add: f(3))
    have "\<not> w 4" if "reach (PlainTR t') {} n w" for n w
      using that
    proof (induction n arbitrary: w)
      case 0
      then show ?case using l by (force simp: starts_def init_ok_def lit_true_def gated_ids)
    next
      case (Suc n)
      then obtain u where u: "reach (PlainTR t') {} n u" "step_ok (PlainTR t') u w" by (auto simp: tr_trans_def)
      have "lit_true w 4 = lit_true u 4" using u(2) l unfolding step_ok_def by force
      then show ?case using Suc.IH[OF u(1)] by (simp add: lit_true_def gated_ids)
    qed
    moreover have "\<not> w 8" if w: "\<not> w 4" "tr_trans (PlainTR t') w w'" for w w'
    proof -
      have "gate_ok \<lparr>ag_lhs = 8, ag_rhs0 = 4, ag_rhs1 = 6\<rparr> w" using w(2) g unfolding tr_trans_def frame_ok_def by force
      then show ?thesis using w(1) by (simp add: gate_ok_def lit_true_def gated_ids)
    qed
    moreover have "\<exists>w'. tr_trans (PlainTR t') w w'" if "reach (PlainTR t') {} n w" for n w using that by (cases n) auto
    ultimately have "\<forall>n w. reach (PlainTR t') {} n w \<longrightarrow> \<not> w 8" by blast
    then have "ivc_safe ?t G" using t' f(1) bad8 by (simp add: ivc_safe_def bad_state_def lit_true_def gated_ids)
    then show ?thesis using True by simp
  next
    case False
    have g: "set (tr_gates t') \<subseteq> {(10, \<lparr>ag_lhs = 10, ag_rhs0 = 6, ag_rhs1 = 6\<rparr>)}" using False by (auto simp: f(3) gated_tr_def)
    have "x \<in> {6, 8}" if "x \<in> relevant ?t G" for x
      using that False by induction (auto simp: gated_tr_def gated_ids)
    then have "4 \<notin> relevant ?t G" by fastforce
    then have "set (tr_latches t') = {}" unfolding f(4) by (simp add: gated_tr_def)
    then have "tr_latches t' = []" by simp
    moreover have "const_ok (\<lambda>v. v \<noteq> ID_FALSE)" by (simp add: const_ok_def)
    ultimately have "tr_trans (PlainTR t') (\<lambda>v. v \<noteq> ID_FALSE) (\<lambda>v. v \<noteq> ID_FALSE)" "init_ok (PlainTR t') (\<lambda>v. v \<noteq> ID_FALSE)"
      using g f(2) by (auto simp: tr_trans_def frame_ok_def step_ok_def init_ok_def gate_ok_def lit_true_def gated_ids)
    then have "reach (PlainTR t') {} 0 (\<lambda>v. v \<noteq> ID_FALSE)" by (auto simp: starts_def)
    moreover have "bad_state (PlainTR t') (\<lambda>v. v \<noteq> ID_FALSE)" by (simp add: bad_state_def f(1) bad8 lit_true_def gated_ids)
    ultimately have "\<not> ivc_safe ?t G" unfolding ivc_safe_def t' by blast
    then show ?thesis using False by simp
  qed
qed

lemma gated_safe: "reach (PlainTR gated_tr) {} n w \<Longrightarrow> \<not> bad_state (PlainTR gated_tr) w"
  using ivc_safe_sound[OF gated_circuit, of "[8]"] gated_safe_iff[of "[8]"] by simp

lemma gated_card: "card (ic3_cubes (PlainTR gated_tr)) \<le> 4" "ic3_fuel (card (ic3_cubes (PlainTR gated_tr))) \<le> 300"
proof -
  have "ic3_cubes (PlainTR gated_tr) \<subseteq> insert [8] (ic3_cubes (PlainTR (hold_tr ID_FALSE)))"
    by (auto simp: ic3_cubes_def gated_tr_def hold_tr_def)
  then have "card (ic3_cubes (PlainTR gated_tr)) \<le> card (insert [8] (ic3_cubes (PlainTR (hold_tr ID_FALSE))))"
    by (intro card_mono) (simp_all add: ic3_cubes_finite)
  also have "\<dots> \<le> Suc (card (ic3_cubes (PlainTR (hold_tr ID_FALSE))))" by (rule card_insert_le_m1) simp_all
  finally show c: "card (ic3_cubes (PlainTR gated_tr)) \<le> 4" using hold_card(1)[of ID_FALSE] by simp
  show "ic3_fuel (card (ic3_cubes (PlainTR gated_tr))) \<le> 300" using ic3_fuel_mono[OF c] by (simp add: ic3_fuel_def)
qed

lemma alloc_id:
  assumes "room (Suc k) vm" "m_nextID vm = n"
  shows "\<exists>vm'. room k vm' \<and> m_nextID vm' = n + 2 \<and> isKnown vm' n \<and> (\<forall>v. isKnown vm v \<longrightarrow> isKnown vm' v)"
proof -
  have inv: "vm_inv vm" and b: "unat (m_nextID vm) + 2 * Suc k \<le> 2 ^ 48" using assms(1) by (auto simp: room_def)
  have le: "m_nextID vm \<le> MAX_ID" using b by (simp add: word_le_nat_alt MAX_ID_val)
  have ev: "\<not> is_negated (m_nextID vm)" using inv by (simp add: vm_inv_def)
  obtain vm' nm where v: "m_nextID vm' = n + 2" "vm_inv vm'" "m_vars vm' = (m_vars vm)(n \<mapsto> \<lparr>v_id = n, v_external = 0, v_name = nm\<rparr>)"
    using getNewID_named_wp[OF inv le, of 0 "''l''"] assms(2) by (auto simp: wp_iff aiger_sign_def)
  have "room k vm'" using v(1,2) even_next_step(4)[OF ev le] b assms(2) by (simp add: room_def)
  then show ?thesis using v by (auto simp: isKnown_def)
qed

lemma gated_vm: "\<exists>vm. room 100 vm \<and> vm_owns vm (PlainTR gated_tr)"
proof -
  have r: "room 104 vm_new" using vm_new_inv by (simp add: room_def vm_new_def MIN_ID_val)
  obtain v1 where 1: "room 103 v1" "m_nextID v1 = 6" "isKnown v1 4" "isKnown v1 ID_FALSE"
    using alloc_id[of 103 vm_new 4] r vm_new_inv by (auto simp: vm_new_def MIN_ID_val isKnown_def)
  obtain v2 where 2: "room 102 v2" "m_nextID v2 = 8" "isKnown v2 6" "isKnown v2 4" "isKnown v2 ID_FALSE"
    using alloc_id[of 102 v1 6] 1 by auto
  obtain v3 where 3: "room 101 v3" "m_nextID v3 = 10" "isKnown v3 8" "isKnown v3 6" "isKnown v3 4" "isKnown v3 ID_FALSE"
    using alloc_id[of 101 v2 8] 2 by auto
  obtain v4 where "room 100 v4" "isKnown v4 10" "isKnown v4 8" "isKnown v4 6" "isKnown v4 4" "isKnown v4 ID_FALSE"
    using alloc_id[of 100 v3 10] 3 by auto
  then show ?thesis unfolding vm_owns_def gated_vars by blast
qed

lemma gated_gates: "distinct (tr_gateIDs gated_tr)" "set (tr_gateIDs gated_tr) = fst ` set (tr_gates gated_tr)" "tr_gateIDs gated_tr = [8, 10]"
  by (simp_all add: gated_tr_def)

end
