(* ===== verification/Spec2Isabelle.thy ===== *)
theory Spec2Isabelle
  imports Examples SatAdaptor
begin

text \<open>
  A verification development for pme, a C++ library that minimizes safety proofs of hardware model
  checking and extracts inductive validity cores (sources under \<open>src/src/pme\<close> and
  \<open>src/src/sat\<close>).

  \<^bold>\<open>How the program is modelled.\<close>  Every routine is a HOL function.  A routine that may stop
  (an \<open>assert\<close>, an exception, undefined behaviour) returns \<open>err + 'a\<close>; a method that
  changes an object is a state-passing function \<open>'s \<Rightarrow> err + ('a \<times> 's)\<close> over the record
  of its class (\<open>sm\<close> in \<open>Prelude\<close>).  IDs, clause IDs and external literals keep their
  64 and 32 bits.  The vendored solvers MiniSat and Glucose are a parameter \<open>backend\<close>: functions of
  the list of calls made so far; the locale \<open>sat_backend\<close> states the documented contract and is
  interpreted by an exhaustive reference solver.  The AIGER reader is not modelled; its \<open>struct
  aiger\<close> is the record \<open>aig\<close>.

  \<^bold>\<open>Theories, in the order of the code.\<close>
  \<^item> \<open>Prelude\<close>: failure and state, weakest-precondition rules \<open>wp\<close> / \<open>wpr\<close>.
  \<^item> \<open>Ids\<close> (\<open>id.cpp\<close>, \<open>pme.cpp\<close>): literals as 64-bit words, priming, signs, cube
    subsumption; assignments and satisfaction.
  \<^item> \<open>VarManager\<close> (\<open>engine/variable_manager.cpp\<close>): allocation of IDs, translation of external
    literals, printing; its invariant \<open>vm_inv\<close>.
  \<^item> \<open>Encoding\<close>, \<open>SortingNet\<close>, \<open>SortingCorrect\<close>, \<open>CardNetCorrect\<close>,
    \<open>CardConstraint\<close> (\<open>util/sorting_network.cpp\<close>, \<open>util/cardinality_constraint.cpp\<close>):
    networks over fresh variables and what their clauses say about the number of true inputs.
  \<^item> \<open>SatSolver\<close> (\<open>src/src/sat\<close>) and \<open>SatAdaptor\<close> (\<open>engine/sat_adaptor.cpp\<close>): the
    wrapper of the solvers and the adaptor to IDs, with clause groups, critical literals, model
    queries and simplification.
  \<^item> \<open>SolverBuild\<close>: lemmas on solvers that were filled with clauses and are then queried, shared by
    all the engines.
  \<^item> \<open>TransRel\<close>, \<open>TransSem\<close>, \<open>TransBuild\<close>, \<open>TransVariants\<close>
    (\<open>engine/transition_relation.cpp\<close>, \<open>engine/debug_transition_relation.cpp\<close>): the circuit as
    a transition relation, its clauses and unrolling, its construction from AIGER, from a subset of
    the gates, and with debug latches.
  \<^item> \<open>ProofCheck\<close> (\<open>util/simplify_tr.cpp\<close>, \<open>util/proof_checker.cpp\<close>) and \<open>Bmc\<close>
    (\<open>safety.h\<close>, \<open>bmc/bmc_solver.cpp\<close>).
  \<^item> \<open>ConsecChecker\<close>, \<open>ConsecSem\<close> (\<open>util/clause_database.cpp\<close>,
    \<open>engine/consecution_checker.cpp\<close>): queries for induction relative to a frame of clauses.
  \<^item> \<open>RelInd\<close>, \<open>FindMis\<close> (\<open>util/find_safe_mis.cpp\<close>,
    \<open>util/find_minimal_support.cpp\<close>): the largest inductive subset, supports.  \<open>RelInd\<close>
    states relative induction as a locale over a monotone relation; \<open>FindMis\<close> interprets it by the
    relation the consecution checker decides.
  \<^item> \<open>Sisi\<close> (\<open>minimization/sisi.cpp\<close>) and \<open>Minimizers\<close>
    (\<open>minimization/minimization.cpp\<close>, \<open>brute_force.cpp\<close>, \<open>sisi.cpp\<close>,
    \<open>simple.cpp\<close>): the search for minimal safe inductive sets of clauses and the minimizers built
    on it; minimality is first shown on sets of clause IDs (\<open>min_safe_ind\<close> of \<open>RelInd\<close>) and
    carried over to the clauses.
  \<^item> \<open>CheckCex\<close> (\<open>util/check_cex.cpp\<close>): a counterexample is replayed on the unrolling;
    what the check decides, and that the counterexamples of \<open>Bmc\<close> pass it.
  \<^item> \<open>Deletion\<close> and \<open>MusFinder\<close> (\<open>util/mus_finder.cpp\<close>): minimal unsatisfiable cores of
    groups of clauses, on top of a locale for predicates that larger sets inherit.
  \<^item> \<open>IndTrace\<close> (\<open>ic3/inductive_trace.cpp\<close>), \<open>FrameSolver\<close>, \<open>FrameFill\<close>, \<open>FrameSem\<close>
    (\<open>ic3/frame_solver.cpp\<close>, \<open>ic3/transition_relation_solver.cpp\<close>) and \<open>FrameLift\<close>
    (\<open>ic3/unsat_core_lifter.cpp\<close>): the lemmas of IC3 with their levels, and the two solvers that
    answer for the frames the lemmas make up.
  \<^item> \<open>Ic3Solver\<close> (\<open>ic3/ic3_solver.cpp\<close>, all definitions), \<open>Ic3Frames\<close> (states reached in
    \<open>n\<close> steps satisfy the lemmas from level \<open>n\<close> on), \<open>Ic3Gen\<close> (the invariant \<open>i3_ok\<close> and
    generalization), \<open>Ic3Lemmas\<close> (adding and pushing lemmas), \<open>Ic3Block\<close> (obligations and
    counterexamples) and \<open>Ic3Prove\<close> (the main loop, \<open>i3_run_wp\<close>): property directed reachability.
    The locale \<open>ic3_setting\<close> collects what is fixed in a run, \<open>least_first\<close> is the contract of the
    queue's order.
  \<^item> \<open>Ic3Grow\<close>, \<open>IvcCircuit\<close> and \<open>IvcFinder\<close> (\<open>ivc/ivc.cpp\<close>, \<open>ivc/ivc_bf.cpp\<close>,
    \<open>util/ivc_checker.cpp\<close>): runs of IC3 on a shared manager, circuits of which gates are freed, and
    inductive validity cores by brute force.
  \<^item> \<open>Examples\<close>: the circuits at which the properties are applied.

  \<^bold>\<open>What the lemmas show.\<close>  Each component has an invariant (\<open>vm_inv\<close>, \<open>ms_inv\<close>,
  \<open>ad_inv\<close>, \<open>tr_wf\<close>, \<open>bmc_inv\<close>, \<open>cc_inv\<close>) and, per operation, a lemma with
  suffix \<open>_wp\<close>: started under the invariant the operation returns, keeps the invariant and has the
  stated result.  The properties below are stated for every solver that meets the contract.  The
  models of a circuit are assignments of all literals of all time frames; \<open>at_time n\<close> reads frame
  \<open>n\<close>, \<open>tr_trans\<close> is a step between two states that satisfy the gates and the constraints.

  \<^bold>\<open>Bounds and fuel.\<close>  \<open>room k\<close> says that \<open>k\<close> more IDs fit below \<open>MAX_ID\<close>; unrolling
  is limited to \<open>MAX_PRIMES\<close> frames.  Loops that shrink a set are recursive functions with a
  termination proof.  \<open>findMinimalSupport\<close> restarts its iterator inside a sorted set; it runs on as much
  fuel as the frame has clauses, which \<open>support_loop_wp\<close> proves to be enough.  \<open>refineFEAS\<close>
  (quadratic fuel \<open>feas_fuel\<close>, \<open>feas_loop_wp\<close>) and the queue of \<open>SimpleMinimizer\<close>
  (\<open>sp_fuel\<close>, \<open>sp_loop_wp\<close>) likewise, and so does the
  loop of \<open>findMUS\<close>, one step per group of the first core (\<open>mus_loop_wp\<close>).  IC3 has
  quadratic fuel in the number of cubes for each round (\<open>ic3_fuel\<close>, \<open>rb_loop_wp\<close>, \<open>prove_loop_wp\<close>); the
  number of frames is at most one more than the number of cubes (\<open>frames_bound\<close>), which bounds the
  activation literals it needs.  The search for a validity core needs that room once per gate.

  \<^bold>\<open>Not modelled.\<close>  Logging, timers, statistics, printing beyond \<open>stringOf\<close>, the C interface and
  command lines, and the vendored solvers and AIGER reader.  The totalizer encoding (used by tests
  only), map solvers, MaxSAT, the enumerating minimizers, the other finders of validity cores,
  debuggers and the option parser are not modelled either.
\<close>

section \<open>Property directed reachability\<close>

text \<open>C1. \<open>IC3Solver\<close>, set up for a circuit without invariant constraints whose initial states are restricted
  by clauses over latches, decides the property: for every solver that meets its contract and enough
  fuel, \<open>prove\<close> returns \<open>SAFE\<close> with clauses that hold in all reached states and exclude the bad
  ones, or \<open>UNSAFE\<close> with a counterexample: some allowed initial state agrees with its first state,
  and the inputs of all its steps but the last lead from there to a bad state.  Side conditions: the
  gates determine the next state from the latches and inputs, the bad literal is not a constant, and the
  variable manager has room for one activation ID per cube over the latches and two more (so about 23
  latches at most; the fuel is quadratic in that number).\<close>
theorem ic3_decides:
  assumes "sat_backend B" "tr_wf t" "functional t" "strip (tr_bad (baseTR t)) \<noteq> ID_FALSE"
    "vm_owns vm t" "room (card (ic3_cubes t) + 2) vm" "ic3_fuel (card (ic3_cubes t)) \<le> fuel"
    "\<forall>cls\<in>set restrict. cls \<noteq> [] \<and> strip ` set cls \<subseteq> set (tr_latchIDs (baseTR t))" "init_cubes t \<noteq> {} \<or> restrict \<noteq> []"
  shows "\<exists>r. i3_run B opt fuel vm t restrict = Inr r
    \<and> (sr_result r = SAFE \<and> (\<forall>n w. reach t (restrictions restrict) n w \<longrightarrow> cnf_sat w (sr_proof r))
         \<and> (\<forall>w w'. tr_trans t w w' \<longrightarrow> cnf_sat w (sr_proof r) \<longrightarrow> \<not> bad_state t w)
     \<or> sr_result r = UNSAFE \<and> sr_cex r \<noteq> []
         \<and> (\<exists>w. starts t (restrictions restrict) w \<and> cube_sat w (st_state (hd (sr_cex r))) \<and> drives t (map st_inputs (sr_cex r)) w))"
proof -
  obtain r where r: "i3_run B opt fuel vm t restrict = Inr r" "result_ok t (restrictions restrict) r"
    using i3_run_wp[OF assms(1-6,8,9,7)] by (auto simp: wpr_iff)
  then show ?thesis by (auto simp: result_ok_def cex_ok_def bad_state_def cube_sat_def)
qed

theorem ic3_decides_witness:
  "\<exists>vm r. i3_run ref_backend False 200 vm (PlainTR (hold_tr ID_FALSE)) [] = Inr r \<and> sr_result r = SAFE"
proof -
  let ?t = "PlainTR (hold_tr ID_FALSE)"
  obtain vm where vm: "vm_owns vm ?t" "room (card (ic3_cubes ?t) + 2) vm" using hold_run(1)[of ID_FALSE] by blast
  have n: "\<not> drives ?t xs w" if "\<not> w 4" for xs w
    using that by (induction xs arbitrary: w rule: induct_list012) (auto simp: hold_sem tr_trans_def cube_sat_def hold_sel[simplified] lit_true_def small_ids)
  have "\<exists>r. i3_run ref_backend False 200 vm ?t [] = Inr r \<and> (sr_result r = SAFE \<or> (\<exists>w xs. starts ?t {} w \<and> drives ?t xs w))"
    using ic3_decides[OF ref.sat_backend_axioms hold_wf(1) hold_functional(1) hold_run(3) vm hold_run(2), of "[]" False] hold_functional(2)[of ID_FALSE]
    by (simp add: restrictions_def) blast
  moreover have "\<not> w 4" if "starts ?t {} w" for w using that by (simp add: starts_def hold_sem)
  ultimately show ?thesis using n by blast
qed

text \<open>C2. \<open>IC3Solver\<close> finds every bad state: a run answers \<open>UNSAFE\<close> exactly when some state that is
  reached in any number of steps is bad, and \<open>SAFE\<close> otherwise.  The side conditions are those of the
  property before: a functional relation, a bad literal that is not a constant, room for one
  activation ID per cube over the latches, and the fuel.\<close>
theorem ic3_finds_bad:
  assumes "sat_backend B" "tr_wf t" "functional t" "strip (tr_bad (baseTR t)) \<noteq> ID_FALSE"
    "vm_owns vm t" "room (card (ic3_cubes t) + 2) vm" "ic3_fuel (card (ic3_cubes t)) \<le> fuel"
    "\<forall>cls\<in>set restrict. cls \<noteq> [] \<and> strip ` set cls \<subseteq> set (tr_latchIDs (baseTR t))" "init_cubes t \<noteq> {} \<or> restrict \<noteq> []"
  shows "\<exists>r. i3_run B opt fuel vm t restrict = Inr r
    \<and> sr_result r = (if \<exists>n w. reach t (restrictions restrict) n w \<and> bad_state t w then UNSAFE else SAFE)"
proof -
  obtain r where r: "i3_run B opt fuel vm t restrict = Inr r" "result_ok t (restrictions restrict) r"
    using i3_run_wp[OF assms(1-6,8,9,7)] by (auto simp: wpr_iff)
  have b: "bad_state t w = cube_sat w [tr_bad (baseTR t)]" for w by (simp add: bad_state_def cube_sat_def)
  show ?thesis unfolding b using r cex_reach unfolding result_ok_def by fastforce
qed

theorem ic3_finds_bad_witness:
  "\<exists>vm r. i3_run ref_backend False 200 vm (PlainTR (hold_tr ID_TRUE)) [] = Inr r \<and> sr_result r = UNSAFE"
proof -
  let ?t = "PlainTR (hold_tr ID_TRUE)"
  obtain vm where vm: "vm_owns vm ?t" "room (card (ic3_cubes ?t) + 2) vm" using hold_run(1)[of ID_TRUE] by blast
  have "\<exists>n w. reach ?t {} n w \<and> bad_state ?t w"
    by (intro exI conjI, rule hold_reach_0) (simp_all add: hold_sem)
  then have "\<exists>r. i3_run ref_backend False 200 vm ?t [] = Inr r \<and> sr_result r = UNSAFE"
    using ic3_finds_bad[OF ref.sat_backend_axioms hold_wf(1) hold_functional(1) hold_run(3) vm hold_run(2), of "[]" False] hold_functional(2)[of ID_TRUE]
    by (simp add: restrictions_def)
  then show ?thesis by blast
qed

text \<open>C3. The results of a run are well formed: the clauses of a proof are \<open>\<not> bad\<close> or over latches and not
  empty; the inputs of a counterexample are over the inputs and its states over the latches.  The side
  conditions on the circuit, the room and the fuel are those of the two properties before.\<close>
theorem ic3_result_typed:
  assumes "sat_backend B" "tr_wf t" "functional t" "strip (tr_bad (baseTR t)) \<noteq> ID_FALSE"
    "vm_owns vm t" "room (card (ic3_cubes t) + 2) vm" "ic3_fuel (card (ic3_cubes t)) \<le> fuel"
    "\<forall>cls\<in>set restrict. cls \<noteq> [] \<and> strip ` set cls \<subseteq> set (tr_latchIDs (baseTR t))" "init_cubes t \<noteq> {} \<or> restrict \<noteq> []"
  shows "\<exists>r. i3_run B opt fuel vm t restrict = Inr r
    \<and> (\<forall>cls\<in>set (sr_proof r). cls = [negate (tr_bad (baseTR t))] \<or> cls \<noteq> [] \<and> distinct cls \<and> strip ` set cls \<subseteq> set (tr_latchIDs (baseTR t)))
    \<and> (\<forall>st\<in>set (sr_cex r). strip ` set (st_inputs st) \<subseteq> set (tr_inputIDs (baseTR t)) \<and> strip ` set (st_state st) \<subseteq> set (tr_latchIDs (baseTR t)))"
proof -
  obtain r where r: "i3_run B opt fuel vm t restrict = Inr r" "result_ok t (restrictions restrict) r"
    using i3_run_wp[OF assms(1-6,8,9,7)] by (auto simp: wpr_iff)
  have c: "negateVec c = [negate (tr_bad (baseTR t))] \<or> negateVec c \<noteq> [] \<and> distinct (negateVec c) \<and> strip ` set (negateVec c) \<subseteq> set (tr_latchIDs (baseTR t))"
    if "c \<in> ic3_cubes t" for c
    using that by (auto simp: ic3_cubes_def negateVec_def distinct_map image_image inj_on_def)
  show ?thesis using r c unfolding result_ok_def cex_ok_def cex_typed_def by fastforce
qed

theorem ic3_result_typed_witness:
  "\<exists>vm r. i3_run ref_backend False 200 vm (PlainTR (hold_tr ID_TRUE)) [[4]] = Inr r \<and> (\<forall>st\<in>set (sr_cex r). st_inputs st = [])"
proof -
  let ?t = "PlainTR (hold_tr ID_TRUE)"
  obtain vm where vm: "vm_owns vm ?t" "room (card (ic3_cubes ?t) + 2) vm" using hold_run(1)[of ID_TRUE] by blast
  have l: "\<forall>cls\<in>set [[4]]. cls \<noteq> [] \<and> strip ` set cls \<subseteq> set (tr_latchIDs (baseTR ?t))" by (simp add: hold_tr_def small_ids)
  from ic3_result_typed[OF ref.sat_backend_axioms hold_wf(1) hold_functional(1) hold_run(3) vm hold_run(2) l, of False]
  obtain r where r: "i3_run ref_backend False 200 vm ?t [[4]] = Inr r"
    "\<forall>st\<in>set (sr_cex r). strip ` set (st_inputs st) \<subseteq> set (tr_inputIDs (baseTR ?t)) \<and> strip ` set (st_state st) \<subseteq> set (tr_latchIDs (baseTR ?t))"
    by auto
  have "\<forall>st\<in>set (sr_cex r). st_inputs st = []" using r(2) unfolding hold_sel by simp
  then show ?thesis using r(1) by blast
qed

text \<open>C4. \<open>pushLemmas\<close> from any state of a run: it returns, no lemma falls to a lower level, all lemmas
  are still justified (\<open>i3_ok\<close>), and at most one more frame than there are cubes is left.\<close>
theorem ic3_frames_bounded:
  assumes "ic3_setting B t R" "i3_ok t R M s" "card (ic3_cubes t) + 2 \<le> M" "card (ic3_cubes t) + 2 \<le> fuel"
  shows "\<exists>s'. i3_pushLemmas B opt fuel s = Inr ((), s') \<and> i3_ok t R M s' \<and> it_numFrames (i3_trace s') \<le> card (ic3_cubes t) + 1
    \<and> (\<forall>c L. it_lev (i3_trace s) c = Some L \<longrightarrow> (\<exists>L'\<ge>L. it_lev (i3_trace s') c = Some L'))"
  using ic3_setting.i3_pushLemmas_wp[OF assms, of opt] unfolding wp_iff grows_def by auto

theorem ic3_frames_bounded_witness:
  "\<exists>vm s s'. i3_new vm (PlainTR (hold_tr ID_FALSE)) = Inr s \<and> i3_pushLemmas ref_backend False 10 s = Inr ((), s')
     \<and> it_numFrames (i3_trace s') \<le> 4"
proof -
  let ?t = "PlainTR (hold_tr ID_FALSE)"
  obtain vm where vm: "vm_owns vm ?t" "room (card (ic3_cubes ?t) + 2) vm" using hold_run(1)[of ID_FALSE] by blast
  obtain s where s: "i3_new vm ?t = Inr s" "i3_ok ?t {} (card (ic3_cubes ?t) + 2) s"
    using i3_new_wp[OF hold_wf(1) vm] by (auto simp: wpr_iff)
  have c: "card (ic3_cubes ?t) + 2 \<le> 10" using hold_card(1)[of ID_FALSE] by simp
  obtain s' where "i3_pushLemmas ref_backend False 10 s = Inr ((), s')" "it_numFrames (i3_trace s') \<le> card (ic3_cubes ?t) + 1"
    using ic3_frames_bounded[OF hold_setting s(2) order_refl c, of False] by auto
  then show ?thesis using s(1) hold_card(1)[of ID_FALSE] by fastforce
qed

text \<open>C5. \<open>InductiveTrace::addLemma\<close> for a new cube, or for a known one at a level not below its own: the
  trace stays consistent, the cube is found at the new level by its ID, by the cube and in that frame
  only, and all other lemmas stay where they are.\<close>
theorem trace_add_lookup:
  assumes "it_inv T" "\<forall>M. it_lev T (sort c) = Some M \<longrightarrow> M \<le> L"
  shows "\<exists>i T'. it_addLemma c L T = Inr (i, T') \<and> it_inv T' \<and> it_cubeOf T' i = Inr (sort c) \<and> it_levelOf T' (sort c) = Inr L
    \<and> (\<forall>K. i \<in> frame_at (it_frames T') K \<longleftrightarrow> K = L) \<and> (\<forall>d. d \<noteq> sort c \<longrightarrow> it_lev T' d = it_lev T d)"
proof -
  have "wp (it_addLemma c L) (\<lambda>i T'. it_inv T' \<and> it_lev T' = (it_lev T)(sort c \<mapsto> L)
     \<and> it_numFrames T' = frames_upto (it_numFrames T) L \<and> it_is T' i (sort c) L \<and> (it_live T \<longrightarrow> it_live T')) T"
    by (rule it_addLemma_wp[OF assms(1)]) (use assms(2) in blast)
  then obtain i T' where a: "it_addLemma c L T = Inr (i, T')" "it_inv T'" "it_lev T' = (it_lev T)(sort c \<mapsto> L)" "it_is T' i (sort c) L"
    unfolding wp_iff by blast
  note g = it_is_get[OF a(2,4)]
  have "it_levelOf T' (sort c) = Inr L" using g(3,4) by (simp add: it_levelOf_def it_lemmaExists_def it_IDOf_def sorted_sort_id)
  moreover have "i \<in> frame_at (it_frames T') K \<longleftrightarrow> K = L" for K using frame_mem[OF a(2), of i K] a(4) by (auto simp: it_is_def)
  ultimately show ?thesis using a(1-3) g(2) by auto
qed

theorem trace_add_lookup_witness: "\<exists>i T'. it_addLemma [9, 4] 2 it_new = Inr (i, T') \<and> it_levelOf T' [4, 9] = Inr 2"
  using trace_add_lookup[OF it_new_inv(1), of "[9, 4]" 2] it_new_inv(2) by auto

section \<open>Inductive validity cores\<close>

text \<open>C6. \<open>IVCBFFinder::findIVCs\<close> on a safe circuit: whatever order the gates are shuffled into and
  whatever contract solver answers, the search ends and records one core, a set of gates with
  which no bad state is reached, while with every proper subset of it one is.  The circuit has no invariant
  constraints, its latches are reset, its gates are in an order, its bad literal is positive and no
  constant; the manager has room for one run of IC3 per gate (so about 23 latches at most), and
  the fuel is enough for each run.\<close>
theorem ivc_bf_minimal:
  assumes "sat_backend B" "ivc_circuit t" "ic3_fuel (card (ic3_cubes (PlainTR t))) \<le> fuel"
    and "vm_owns vm (PlainTR t)" "room (length (tr_gateIDs t) * ivc_room t) vm"
    and "distinct (tr_gateIDs t)" "set (tr_gateIDs t) = fst ` set (tr_gates t)" "mset (shuffle (tr_gateIDs t)) = mset (tr_gateIDs t)"
    and "\<forall>n w. reach (PlainTR t) {} n w \<longrightarrow> \<not> bad_state (PlainTR t) w"
  shows "\<exists>f ivc. bf_findIVCs B opt fuel shuffle (iv_new vm t) = Inr ((), f) \<and> iv_mivcs f = [ivc]
    \<and> distinct ivc \<and> set ivc \<subseteq> set (tr_gateIDs t) \<and> ivc_safe t ivc \<and> (\<forall>G. set G \<subset> set ivc \<longrightarrow> \<not> ivc_safe t G)"
proof -
  have r: "room (length (tr_gateIDs t) * ivc_room t + 0) vm" using assms(5) by simp
  from bf_findIVCs_wp[OF assms(1-4) r assms(6,7), of shuffle opt] assms(8,9)
  obtain f ivc where f: "bf_findIVCs B opt fuel shuffle (iv_new vm t) = Inr ((), f)" "iv_mivcs f = [ivc]" "set ivc \<subseteq> set (tr_gateIDs t)"
    "distinct ivc" "min_set (ivc_set t) (set ivc)" by (auto simp: wp_iff)
  note iff = ivc_set_iff[OF ivc_circuitD(1)[OF assms(2)]]
  have "\<not> ivc_safe t G" if "set G \<subset> set ivc" for G using f(5) that iff[of G] unfolding min_set_def by blast
  moreover have "ivc_safe t ivc" using f(5) iff[of ivc] by (simp add: min_set_def)
  ultimately show ?thesis using f(1-4) by blast
qed

theorem ivc_bf_minimal_witness:
  "\<exists>vm f. bf_findIVCs ref_backend False 300 rev (iv_new vm gated_tr) = Inr ((), f) \<and> iv_mivcs f = [[8]]"
proof -
  obtain vm where vm: "room 100 vm" "vm_owns vm (PlainTR gated_tr)" using gated_vm by blast
  have r: "room (length (tr_gateIDs gated_tr) * ivc_room gated_tr) vm"
    by (rule room_mono[OF vm(1)]) (use gated_card(1) in \<open>simp add: gated_gates(3) ivc_room_def\<close>)
  obtain f ivc where f: "bf_findIVCs ref_backend False 300 rev (iv_new vm gated_tr) = Inr ((), f)" "iv_mivcs f = [ivc]"
      "distinct ivc" "set ivc \<subseteq> {8, 10}" "8 \<in> set ivc" "\<forall>G. set G \<subset> set ivc \<longrightarrow> 8 \<notin> set G"
    using ivc_bf_minimal[OF ref.sat_backend_axioms gated_circuit gated_card(2) vm(2) r gated_gates(1,2), of rev False] gated_safe
    unfolding gated_safe_iff gated_gates(3) by auto
  have "\<not> set [8] \<subset> set ivc" using f(6)[rule_format, of "[8]"] by auto
  moreover have "set [8] \<subseteq> set ivc" "(10 :: id) \<notin> set [8]" using f(5) by simp_all
  ultimately have "10 \<notin> set ivc" by blast
  then have "set ivc = set [8]" using f(4,5) by auto
  then have "ivc = [8]" using f(3) by (cases ivc; cases "tl ivc") auto
  then show ?thesis using f(1,2) by blast
qed



section \<open>From the circuit to clauses\<close>

text \<open>C8. Reading an AIGER circuit with a chosen property literal: on a well-formed circuit, when the
  literal is within the range of the circuit's variables (the constructor's assertion) and the
  variable manager has room, \<open>TransitionRelation(vars, aig, property)\<close> returns.  Its result is a
  well-formed transition relation all of whose variables the manager knows, and it means what the
  circuit means: gates and constraints, latch updates, reset values and the bad literal agree under
  the translation of the variables.  The constructor that takes the first output builds the same.\<close>
theorem circuit_refinement:
  assumes "aig_ok a e" "e \<le> ai_maxvar a * 2 + 1" "room (k + aig_size a) vm" "vm_base vm"
  shows "\<exists>t vm'. tr_of_property a e vm = Inr (t, vm') \<and> room k vm' \<and> tr_wf (PlainTR t) \<and> vm_owns vm' (PlainTR t)
    \<and> (\<forall>s. frame_ok (PlainTR t) s = aig_frame a (aig_val vm' s)) \<and> (\<forall>s s'. step_ok (PlainTR t) s s' = aig_step a (aig_val vm' s) (aig_val vm' s'))
    \<and> (\<forall>s. init_ok (PlainTR t) s = aig_init a (aig_val vm' s)) \<and> (\<forall>s. bad_state (PlainTR t) s = aig_lit (aig_val vm' s) e)
    \<and> (\<forall>out outs. ai_outputs a = out # outs \<and> sy_lit out = e \<longrightarrow> tr_of_aig a vm = Inr (t, vm'))"
proof -
  from tr_build_wp[OF assms(1,3,4)] obtain vm' where b: "tr_build a e vm = Inr (aig_tr vm' a e, vm')" "aig_known vm' a" "room k vm'" "vm_base vm'"
    by (auto simp: wp_iff)
  note i = room_0[OF b(3)]
  have "tr_of_property a e vm = Inr (aig_tr vm' a e, vm')" using assms(2) b(1) by (simp add: tr_of_property_def thenS_assertS)
  then show ?thesis using b aig_tr_wf[OF i b(2,4) assms(1)] aig_tr_sem[OF i b(2) assms(1)] by (auto simp: tr_of_aig_def)
qed

theorem circuit_refinement_witness:
  "\<exists>t vm'. tr_of_property toggle_aig 4 vm_new = Inr (t, vm') \<and> tr_of_aig toggle_aig vm_new = Inr (t, vm') \<and> room 7 vm' \<and> tr_wf (PlainTR t)"
proof -
  have "(4 :: externalID) \<le> ai_maxvar toggle_aig * 2 + 1" by (simp add: toggle_aig_def)
  moreover have "room (7 + aig_size toggle_aig) vm_new" by (rule room_new) (simp add: aig_size_def toggle_aig_def)
  ultimately show ?thesis using circuit_refinement[OF toggle_aig_ok _ _ vm_new_base, of 7] by (auto simp: toggle_aig_def)
qed

text \<open>C9. \<open>unrollWithInit(n)\<close> succeeds for up to \<open>MAX_PRIMES\<close> frames; the models of its clauses, read
  frame by frame, are exactly the paths of \<open>n\<close> steps that start in an initial state: every model is
  such a path, and every such path is the frames of a model.\<close>
theorem unrolling_exact:
  assumes "tr_wf t" "n \<le> MAX_PRIMES"
  shows "\<exists>C. tr_unrollWithInit t n = Inr C
    \<and> (\<forall>\<sigma>. const_ok \<sigma> \<longrightarrow> (cnf_sat \<sigma> C \<longleftrightarrow> init_ok t \<sigma> \<and> path_ok t n (\<lambda>i. at_time i \<sigma>)))
    \<and> (\<forall>ss. (\<forall>i. const_ok (ss i)) \<longrightarrow> init_ok t (ss 0) \<longrightarrow> path_ok t n ss \<longrightarrow>
        (\<exists>\<sigma>. const_ok \<sigma> \<and> cnf_sat \<sigma> C \<and> (\<forall>i\<le>n. \<forall>v\<in>tr_vars t. at_time i \<sigma> v = ss i v)))"
  by (rule unroll_init_exact[OF assms])

theorem unrolling_exact_witness: "\<exists>C. tr_unrollWithInit (PlainTR toggle_tr) 3 = Inr C
    \<and> (\<forall>\<sigma>. const_ok \<sigma> \<longrightarrow> (cnf_sat \<sigma> C \<longleftrightarrow> init_ok (PlainTR toggle_tr) \<sigma> \<and> path_ok (PlainTR toggle_tr) 3 (\<lambda>i. at_time i \<sigma>)))"
  using unrolling_exact[OF toggle_wf, of 3] by (auto simp: MAX_PRIMES_def)

text \<open>C10. The constructor that keeps a subset of the gates: the result has exactly the kept gates and
  the latches reachable backwards from the bad literal and the kept gates, and every path of the
  original relation, and every initial and bad state, is one of the restricted relation.\<close>
theorem restriction_over_approximates:
  assumes "tr_wf (PlainTR t)"
  shows "\<exists>t'. tr_restrict t gates = Inr t' \<and> tr_wf (PlainTR t') \<and> tr_bad t' = tr_bad t
    \<and> tr_gates t' = filter (\<lambda>(k, g). k \<in> set gates) (tr_gates t)
    \<and> set (tr_latches t') = {(k, l) \<in> set (tr_latches t). k \<in> relevant t gates}
    \<and> (\<forall>n ss. path_ok (PlainTR t) n ss \<longrightarrow> path_ok (PlainTR t') n ss)
    \<and> (\<forall>s. init_ok (PlainTR t) s \<longrightarrow> init_ok (PlainTR t') s)"
proof -
  obtain t' where t': "tr_restrict t gates = Inr t'" "tr_bad t' = tr_bad t" "tr_gates t' = filter (\<lambda>(k, g). k \<in> set gates) (tr_gates t)"
      "set (tr_latches t') = {(k, l) \<in> set (tr_latches t). k \<in> relevant t gates}"
    using tr_restrict_spec[OF assms, of gates] by (auto simp: wpr_iff)
  note over = tr_restrict_over[OF assms t'(1)]
  have "path_ok (PlainTR t') n ss" if "path_ok (PlainTR t) n ss" for n ss
    using path_ok_over[of "PlainTR t" "PlainTR t'", OF over(1,2) that] .
  then show ?thesis using t' over(3) tr_restrict_wf(1)[OF assms t'(1)] by blast
qed

theorem restriction_over_approximates_witness:
  "\<exists>t'. tr_restrict toggle_tr [] = Inr t' \<and> tr_gates t' = [] \<and> tr_wf (PlainTR t')"
  using restriction_over_approximates[OF toggle_wf, of "[]"] by auto

text \<open>C11. A negated bad literal is not recognised among the latches by that constructor.  When the bad
  literal is the negation of a latch that nothing else reads, the restricted relation has lost the
  latch, whatever gates are kept: its variable is an input, and every path from an initial state
  becomes, by clearing that variable, a path from an initial state all of whose states are bad.\<close>
theorem restriction_loses_negated_bad:
  assumes "tr_wf (PlainTR t)" "is_negated (tr_bad t)" "strip (tr_bad t) \<in> set (tr_latchIDs t)"
    "\<forall>(k, g)\<in>set (tr_gates t). strip (tr_bad t) \<notin> {strip (ag_lhs g), strip (ag_rhs0 g), strip (ag_rhs1 g)}"
    "\<forall>(k, l)\<in>set (tr_latches t). strip (la_next l) = strip (tr_bad t) \<longrightarrow> k = strip (tr_bad t)"
    "\<forall>c\<in>set (tr_constraints t). strip c \<noteq> strip (tr_bad t)"
  shows "\<exists>t'. tr_restrict t gates = Inr t' \<and> strip (tr_bad t) \<notin> set (tr_latchIDs t') \<and> strip (tr_bad t) \<in> set (tr_inputIDs t')
    \<and> (\<forall>n ss. init_ok (PlainTR t') (ss 0) \<and> path_ok (PlainTR t') n ss \<longrightarrow>
         (let ss' = \<lambda>i. (ss i)(strip (tr_bad t) := False) in
          init_ok (PlainTR t') (ss' 0) \<and> path_ok (PlainTR t') n ss' \<and> (\<forall>i. bad_state (PlainTR t') (ss' i))))"
  using tr_restrict_negated_bad[OF assms, of gates] by (auto simp: wpr_iff Let_def)

theorem restriction_loses_negated_bad_witness:
  "\<not> (\<exists>n ss. init_ok (PlainTR bad_neg_latch) (ss 0) \<and> path_ok (PlainTR bad_neg_latch) n ss \<and> bad_state (PlainTR bad_neg_latch) (ss n))
   \<and> (\<exists>t' s. tr_restrict bad_neg_latch (tr_gateIDs bad_neg_latch) = Inr t' \<and> init_ok (PlainTR t') s \<and> bad_state (PlainTR t') s)"
proof (rule conjI)
  show "\<not> (\<exists>n ss. init_ok (PlainTR bad_neg_latch) (ss 0) \<and> path_ok (PlainTR bad_neg_latch) n ss \<and> bad_state (PlainTR bad_neg_latch) (ss n))"
    using bad_neg_latch_safe by blast
  let ?t = bad_neg_latch
  have n: "strip (tr_bad ?t) = 4" "is_negated (tr_bad ?t)" by (simp_all add: bad_neg_latch_def small_ids)
  obtain t' where t: "tr_restrict ?t (tr_gateIDs ?t) = Inr t'"
    "\<And>n ss. init_ok (PlainTR t') (ss 0) \<Longrightarrow> path_ok (PlainTR t') n ss \<Longrightarrow>
      init_ok (PlainTR t') ((ss 0)(4 := False)) \<and> bad_state (PlainTR t') ((ss 0)(4 := False))"
    using restriction_loses_negated_bad[OF bad_neg_latch_wf n(2), of "tr_gateIDs ?t"] unfolding n(1) Let_def
    by (auto simp: bad_neg_latch_def small_ids)
  have "tr_latches t' = []" using t(1) bad_neg_latch_restrict by auto
  then show "\<exists>t' s. tr_restrict ?t (tr_gateIDs ?t) = Inr t' \<and> init_ok (PlainTR t') s \<and> bad_state (PlainTR t') s"
    using t(1) t(2)[of "\<lambda>_ _. False" 0] by (auto simp: init_ok_def path_ok_def)
qed

text \<open>C12. The debug enhancement gives every gate a fresh latch and a fresh input, and the clauses of
  the enhanced model mean: a gate whose debug latch is off computes its function, one whose debug
  latch is on takes the value of its debug input.\<close>
theorem debug_model_exact:
  assumes "tr_wf (PlainTR t)" "vm_owns vm (PlainTR t)" "distinct (tr_gateIDs t)" "set (tr_gateIDs t) = fst ` set (tr_gates t)"
    and "room (k + 2 * length (tr_gateIDs t)) vm"
  shows "\<exists>d vm' dls ppis C. dt_enhance t vm = Inr (d, vm') \<and> room k vm' \<and> tr_wf (DebugTR d) \<and> vm_owns vm' (DebugTR d)
    \<and> dt_debugLatchIDs d = dls \<and> dt_debugPPIs d = ppis \<and> distinct (dls @ ppis) \<and> (\<forall>i\<in>set (dls @ ppis). \<not> isKnown vm i)
    \<and> length dls = length (tr_gateIDs t) \<and> length ppis = length (tr_gateIDs t)
    \<and> tr_toCNF (DebugTR d) = Inr C
    \<and> (\<forall>s. cnf_sat s C \<longleftrightarrow> (\<forall>i<length (tr_gateIDs t). \<exists>g. (tr_gateIDs t ! i, g) \<in> set (tr_gates t)
        \<and> (if lit_true s (dls ! i) then lit_true s (ag_lhs g) = lit_true s (ppis ! i) else gate_ok g s)))"
proof -
  from dt_enhance_wp[OF assms] obtain vm' dls ppis where
    d: "dt_enhance t vm = Inr (dbg_tr t (tr_gateIDs t) dls ppis, vm')" "length dls = length (tr_gateIDs t)" "length ppis = length (tr_gateIDs t)"
      "dbg_fresh vm vm' dls ppis" "room k vm'" by (auto simp: wp_iff)
  note wf = dbg_tr_wf[OF assms(1-4) d(2-4) room_0[OF d(5)]]
  obtain C where C: "tr_toCNF (DebugTR (dbg_tr t (tr_gateIDs t) dls ppis)) = Inr C"
    "\<And>s. cnf_sat s C \<longleftrightarrow> (\<forall>(k, g)\<in>set (tr_gates t). any_gate_ok (DebugTR (dbg_tr t (tr_gateIDs t) dls ppis)) g s)"
    using tr_toCNF_sem[OF wf(1)] by (auto simp: wpr_iff)
  have "distinct (dls @ ppis)" "\<forall>i\<in>set (dls @ ppis). \<not> isKnown vm i" using d(4) by (simp_all add: dbg_fresh_def)
  then show ?thesis
    using d wf C(1) C(2)[unfolded dbg_gates_ok[OF assms(1,3,4) d(2,3)]] by (intro exI conjI allI) (rule d(1) C(1) | simp)+
qed

theorem debug_model_exact_witness:
  "\<exists>vm0 d vm'. dt_enhance (aig_tr vm0 toggle_aig 4) vm0 = Inr (d, vm') \<and> length (dt_debugLatchIDs d) = 1 \<and> tr_wf (DebugTR d)"
proof -
  obtain vm where b: "room 100 vm" "tr_wf (PlainTR (aig_tr vm toggle_aig 4))" "vm_owns vm (PlainTR (aig_tr vm toggle_aig 4))"
    using toggle_vm by blast
  have r: "room (1 + 2 * length (tr_gateIDs (aig_tr vm toggle_aig 4))) vm"
    by (rule room_mono[OF b(1)]) (simp add: aig_tr_def toggle_aig_def)
  show ?thesis
    using debug_model_exact[OF b(2,3) _ _ r] by (auto simp: aig_tr_def toggle_aig_def aig_gate_def)
qed

text \<open>C13. A debug latch frees its gate: for any set \<open>G\<close> of gates, the clauses of the enhanced model,
  unrolled from the initial states with exactly the debug latches of \<open>G\<close> on at every time, have a
  model over given values of the original variables exactly when these values are a path from an
  initial state of the original relation without the gates of \<open>G\<close>.  With every latch off that is the
  original relation.  The original relation is the base part as the constructor has set it up; for
  the constructor that takes an existing model it is that model's copy, without its constraints.\<close>
theorem debug_gates_freed:
  assumes "tr_wf (PlainTR t)" "vm_owns vm (PlainTR t)" "distinct (tr_gateIDs t)" "set (tr_gateIDs t) = fst ` set (tr_gates t)"
    and "room (k + 2 * length (tr_gateIDs t)) vm" "n \<le> MAX_PRIMES"
  shows "\<exists>d vm' C. dt_enhance t vm = Inr (d, vm') \<and> tr_unrollWithInit (DebugTR d) n = Inr C
    \<and> (\<forall>G ss. (\<forall>i. const_ok (ss i)) \<longrightarrow>
        ((\<exists>\<sigma>. const_ok \<sigma> \<and> cnf_sat \<sigma> C \<and> (\<forall>i\<le>n. switched d G (at_time i \<sigma>) \<and> (\<forall>v\<in>tr_vars (PlainTR t). at_time i \<sigma> v = ss i v)))
         \<longleftrightarrow> init_ok (PlainTR t) (ss 0) \<and> path_ok (PlainTR (without_gates G t)) n ss))"
  by (rule dbg_unroll[OF assms])

theorem debug_gates_freed_witness:
  "\<exists>vm0 d vm' C. dt_enhance (aig_tr vm0 toggle_aig 4) vm0 = Inr (d, vm') \<and> tr_unrollWithInit (DebugTR d) 1 = Inr C
    \<and> (\<exists>\<sigma>. cnf_sat \<sigma> C \<and> switched d (fst ` set (tr_gates (aig_tr vm0 toggle_aig 4))) \<sigma>)"
proof -
  obtain vm where b: "room 100 vm" "tr_wf (PlainTR (aig_tr vm toggle_aig 4))" "vm_owns vm (PlainTR (aig_tr vm toggle_aig 4))"
    using toggle_vm by blast
  let ?t = "aig_tr vm toggle_aig 4" and ?G = "fst ` set (tr_gates (aig_tr vm toggle_aig 4))"
  have r: "room (1 + 2 * length (tr_gateIDs ?t)) vm"
    by (rule room_mono[OF b(1)]) (simp add: aig_tr_def toggle_aig_def)
  have g: "distinct (tr_gateIDs ?t)" "set (tr_gateIDs ?t) = ?G" by (simp_all add: aig_tr_def toggle_aig_def aig_gate_def)
  obtain ss where ss: "\<And>i. const_ok (ss i)" "init_ok (PlainTR ?t) (ss 0)" "path_ok (PlainTR (without_gates ?G ?t)) 1 ss"
    using toggle_free_path[OF b(2)] by blast
  obtain d vm' C where d: "dt_enhance ?t vm = Inr (d, vm')" "tr_unrollWithInit (DebugTR d) 1 = Inr C"
    "\<exists>\<sigma>. const_ok \<sigma> \<and> cnf_sat \<sigma> C \<and> (\<forall>i\<le>1. switched d ?G (at_time i \<sigma>) \<and> (\<forall>v\<in>tr_vars (PlainTR ?t). at_time i \<sigma> v = ss i v))"
    using debug_gates_freed[OF b(2,3) g r, of 1] ss by (simp add: MAX_PRIMES_def) blast
  then obtain \<sigma> where "cnf_sat \<sigma> C" "switched d ?G \<sigma>" by (metis at_time_0 le0)
  then show ?thesis using d(1,2) by blast
qed

section \<open>Proof checking\<close>

text \<open>C14. \<open>ProofChecker\<close>: for any solver that meets its contract, \<open>checkProof\<close> on a new checker
  returns, and it returns \<open>true\<close> exactly when every clause holds in the initial states that have a
  successor, every clause holds after a step from a non-bad state that satisfies all the clauses, and
  either no bad state that has a successor satisfies all the clauses or a step from a non-bad state
  satisfying them is not bad.  The clauses are not empty and over state variables.  With the
  \<open>simplify\<close> option this needs an initial state that has a successor.\<close>
theorem checkProof_exact:
  assumes "sat_backend B" "tr_wf t" "[] \<notin> set prf" "cnf_vars prf \<subseteq> state_vars t"
    and "opt \<longrightarrow> (\<exists>s s'. tr_trans t s s' \<and> init_ok t s)"
  shows "\<exists>pc pc'. pc_new B opt t prf = Inr pc \<and> checkProof B pc = Inr (sp_proof t prf, pc')"
  by (rule sat_backend.checkProof_run[OF assms])

theorem checkProof_exact_witness:
  "\<exists>pc pc' r. pc_new ref_backend False (PlainTR toggle_tr) [[7]] = Inr pc \<and> checkProof ref_backend pc = Inr (r, pc')
     \<and> r = sp_proof (PlainTR toggle_tr) [[7]]"
  using checkProof_exact[OF ref.sat_backend_axioms toggle_wf, of "[[7]]" False]
  by (auto simp: toggle_state_vars cnf_vars_def small_ids)

text \<open>C15. Soundness: when \<open>checkProof\<close> accepts a proof that contains the property clause, no state
  that is reachable from an initial state and has a successor is bad.\<close>
theorem accepted_proof_safe:
  assumes "sat_backend B" "tr_wf t" "[] \<notin> set prf" "cnf_vars prf \<subseteq> state_vars t"
    and "opt \<longrightarrow> (\<exists>s s'. tr_trans t s s' \<and> init_ok t s)"
    and "pc_new B opt t prf = Inr pc" "checkProof B pc = Inr (True, pc')"
    and "tr_propertyClause t \<in> set prf" "tr_reach t s" "tr_trans t s s'"
  shows "\<not> bad_state t s"
proof -
  obtain pc1 pc2 where "pc_new B opt t prf = Inr pc1" "checkProof B pc1 = Inr (sp_proof t prf, pc2)"
    using sat_backend.checkProof_run[OF assms(1-5)] by blast
  then have "sp_proof t prf" using assms(6,7) by simp
  then show ?thesis using sp_proof_sound_property assms(8-10) by (simp add: tr_propertyClause_def)
qed

theorem accepted_proof_safe_witness:
  "\<exists>pc pc'. pc_new ref_backend False (PlainTR (hold_tr ID_FALSE)) [[5]] = Inr pc \<and> checkProof ref_backend pc = Inr (True, pc')
     \<and> \<not> bad_state (PlainTR (hold_tr ID_FALSE)) (\<lambda>_. False)"
proof -
  let ?t = "PlainTR (hold_tr ID_FALSE)"
  have wf: "tr_wf ?t" "cnf_vars [[5]] \<subseteq> state_vars ?t" by (simp_all add: hold_wf cnf_vars_def small_ids)
  obtain pc pc' where pc: "pc_new ref_backend False ?t [[5]] = Inr pc" "checkProof ref_backend pc = Inr (True, pc')"
    using ref.checkProof_run[OF wf(1) _ wf(2), of False] hold_proof(1) by auto
  have c: "const_ok (\<lambda>_. False)" by (simp add: const_ok_def)
  have r: "tr_reach ?t (\<lambda>_. False)" "tr_trans ?t (\<lambda>_. False) (\<lambda>_. False)"
    using c by (auto intro!: tr_reach.start simp: hold_sem tr_trans_def ID_TRUE_val ID_FALSE_def)
  have "tr_propertyClause ?t \<in> set [[5]]" by (simp add: tr_propertyClause_def hold_tr_def small_ids)
  then show ?thesis
    using accepted_proof_safe[OF ref.sat_backend_axioms wf(1) _ wf(2) _ pc _ r] pc by auto
qed

text \<open>C16. The check of inductive strengthening does not look at the initial states: for a latch that is
  reset to \<open>true\<close>, keeps its value and is the bad signal, the empty proof is accepted although an
  initial state with a successor is bad.\<close>
theorem initially_bad_accepted:
  assumes "sat_backend B"
  shows "\<exists>pc pc' s s'. pc_new B False (PlainTR (hold_tr ID_TRUE)) [] = Inr pc \<and> checkProof B pc = Inr (True, pc')
     \<and> init_ok (PlainTR (hold_tr ID_TRUE)) s \<and> tr_trans (PlainTR (hold_tr ID_TRUE)) s s' \<and> bad_state (PlainTR (hold_tr ID_TRUE)) s"
proof -
  let ?s = "\<lambda>v. v = 4"
  have "const_ok ?s" by (simp add: const_ok_def small_ids)
  then have "init_ok (PlainTR (hold_tr ID_TRUE)) ?s" "tr_trans (PlainTR (hold_tr ID_TRUE)) ?s ?s" "bad_state (PlainTR (hold_tr ID_TRUE)) ?s"
    by (simp_all add: hold_sem tr_trans_def ID_TRUE_val ID_FALSE_def)
  moreover have "tr_wf (PlainTR (hold_tr ID_TRUE))" by (rule hold_wf) simp
  ultimately show ?thesis
    using sat_backend.checkProof_run[OF assms, of "PlainTR (hold_tr ID_TRUE)" "[]" False] hold_proof(2)
    by (auto simp: cnf_vars_def)
qed

theorem initially_bad_accepted_witness:
  "\<exists>pc pc'. pc_new ref_backend False (PlainTR (hold_tr ID_TRUE)) [] = Inr pc \<and> checkProof ref_backend pc = Inr (True, pc')"
  using initially_bad_accepted[OF ref.sat_backend_axioms] by blast

section \<open>Bounded model checking\<close>

text \<open>C17. A new \<open>BMCSolver\<close> whose initial states are restricted by clauses, asked for the bounds
  \<open>0..m\<close>: it returns; it answers \<open>UNSAFE\<close> exactly with the smallest \<open>j \<le> m\<close> at which a path of the
  unrolled relation is bad, together with the inputs and latch values of such a path, and
  \<open>UNKNOWN\<close> when there is none.\<close>
theorem bmc_first_bad_depth:
  assumes "sat_backend B" "tr_wf t" "m + 1 \<le> MAX_PRIMES" "[] \<notin> set R" "cnf_vars R \<subseteq> tr_vars t"
  shows "\<exists>r. bmc_run B t R m = Inr r \<and> first_bad t R m r"
  using bmc_run_wp[OF assms] by (auto simp: wpr_iff)

theorem bmc_first_bad_depth_witness:
  "\<exists>r. bmc_run ref_backend (PlainTR (hold_tr ID_TRUE)) [] 2 = Inr r \<and> sr_result r = UNSAFE"
proof -
  let ?t = "PlainTR (hold_tr ID_TRUE)"
  have "tr_wf ?t" by (rule hold_wf) simp
  then obtain r where r: "bmc_run ref_backend ?t [] 2 = Inr r" "first_bad ?t [] 2 r"
    using bmc_first_bad_depth[OF ref.sat_backend_axioms, of ?t 2 "[]"] by (auto simp: MAX_PRIMES_def cnf_vars_def)
  have "bad_path ?t 1 [] 0 (\<lambda>i v. v = 4)"
    by (simp add: bad_path_def path_ok_def hold_sem const_ok_def small_ids ID_TRUE_val ID_FALSE_def)
  then have "sr_result r = UNSAFE" using r(2) unfolding first_bad_def by (metis add_0 le0)
  then show ?thesis using r(1) by blast
qed

text \<open>C18. \<open>checkCounterExample\<close> on a counterexample over the variables of the relation: it returns, and
  it answers whether some path of one step per entry starts in an initial state, agrees with the
  listed inputs and latch values at every step, and is bad at the last entry.\<close>
theorem counterexample_check_exact:
  assumes "sat_backend B" "tr_wf t" "cex \<noteq> []" "length cex \<le> MAX_PRIMES" "cex_over t cex"
  shows "checkCounterExample B t cex = Inr (\<exists>ss. follows t cex ss \<and> bad_state t (ss (length cex - 1)))"
  by (rule checkCounterExample_exact[OF assms])

theorem counterexample_check_exact_witness:
  "checkCounterExample ref_backend (PlainTR (hold_tr ID_FALSE)) [\<lparr>st_inputs = [], st_state = [4]\<rparr>] = Inr False
   \<and> checkCounterExample ref_backend (PlainTR (hold_tr ID_TRUE)) [\<lparr>st_inputs = [], st_state = [4]\<rparr>] = Inr True"
proof -
  let ?c = "[\<lparr>st_inputs = [], st_state = [4]\<rparr>]"
  have over: "cex_over (PlainTR (hold_tr r)) ?c" for r
    by (simp add: cex_over_def tr_vars_def hold_tr_def small_ids)
  note ex = counterexample_check_exact[OF ref.sat_backend_axioms hold_wf(1) _ _ over]
  have "follows (PlainTR (hold_tr ID_TRUE)) ?c (\<lambda>i v. v = 4) \<and> bad_state (PlainTR (hold_tr ID_TRUE)) (\<lambda>v. v = 4)"
    by (simp add: follows_def path_ok_def hold_sem const_ok_def small_ids ID_TRUE_val ID_FALSE_def cube_sat_def lit_true_def)
  moreover have "\<not> (\<exists>ss. follows (PlainTR (hold_tr ID_FALSE)) ?c ss \<and> bad_state (PlainTR (hold_tr ID_FALSE)) (ss 0))"
    by (simp add: follows_def hold_sem)
  ultimately show ?thesis using ex[of ID_TRUE] ex[of ID_FALSE] by (auto simp: MAX_PRIMES_def)
qed

text \<open>C19. When the bounded model checker answers \<open>UNSAFE\<close>, the counterexample it returns passes
  \<open>checkCounterExample\<close>, whichever two solvers answer the queries.\<close>
theorem bmc_counterexample_passes:
  assumes "sat_backend B" "sat_backend B'" "tr_wf t" "m + 1 \<le> MAX_PRIMES" "[] \<notin> set R" "cnf_vars R \<subseteq> tr_vars t"
    and "bmc_run B t R m = Inr r" "sr_result r = UNSAFE"
  shows "checkCounterExample B' t (sr_cex r) = Inr True"
proof -
  have "first_bad t R m r" using bmc_run_wp[OF assms(1,3-6)] assms(7) by (auto simp: wpr_iff)
  then show ?thesis by (rule first_bad_check[OF assms(2-4) _ assms(8)])
qed

theorem bmc_counterexample_passes_witness:
  "\<exists>r. bmc_run ref_backend (PlainTR (hold_tr ID_TRUE)) [] 2 = Inr r \<and> checkCounterExample ref_backend (PlainTR (hold_tr ID_TRUE)) (sr_cex r) = Inr True"
proof -
  let ?t = "PlainTR (hold_tr ID_TRUE)"
  have wf: "tr_wf ?t" by (rule hold_wf) simp
  then obtain r where r: "bmc_run ref_backend ?t [] 2 = Inr r" "first_bad ?t [] 2 r"
    using bmc_run_wp[OF ref.sat_backend_axioms wf, of 2 "[]"] by (auto simp: wpr_iff MAX_PRIMES_def cnf_vars_def)
  have "bad_path ?t 1 [] 0 (\<lambda>i v. v = 4)"
    by (simp add: bad_path_def path_ok_def hold_sem const_ok_def small_ids ID_TRUE_val ID_FALSE_def)
  then have "sr_result r = UNSAFE" using r(2) unfolding first_bad_def by (metis add_0 le0)
  then show ?thesis
    using bmc_counterexample_passes[OF ref.sat_backend_axioms ref.sat_backend_axioms wf _ _ _ r(1)] r(1) by (auto simp: MAX_PRIMES_def cnf_vars_def)
qed

section \<open>Consecution\<close>



text \<open>C21. \<open>ConsecutionChecker::supportSolve\<close> on a frame of registered clauses returns, keeps the
  invariant and the clause database, and answers whether the clause holds after every step from a
  state that satisfies the frame and the clause; a positive answer comes with a support, a part of
  the frame without repetitions that suffices; a negative one leaves the caller's support alone.\<close>
theorem consecution_exact:
  assumes "sat_backend B" "tr_wf t" "cc_inv t c" "live opt t" "set frame \<subseteq> dom (cc_map c)" "clause_ok t cls"
  shows "\<exists>r s c'. cc_supportSolve B opt frame cls supp c = Inr ((r, s), c') \<and> cc_inv t c' \<and> cc_map c' = cc_map c
     \<and> (r \<longleftrightarrow> consec t (cc_set c (set frame)) cls)
     \<and> (r \<longrightarrow> set s \<subseteq> set frame \<and> distinct s \<and> consec t (cc_set c (set s)) cls) \<and> (\<not> r \<longrightarrow> s = supp)"
proof -
  from sat_backend.cc_supportSolve_wp[OF assms, of supp] obtain r s c' where
    1: "cc_supportSolve B opt frame cls supp c = Inr ((r, s), c')" "cc_inv t c'" "cc_same c c'"
      "r \<longleftrightarrow> consec t (cc_set c (set frame)) cls" "r \<longrightarrow> set s \<subseteq> set frame \<and> distinct s \<and> consec t (cc_set c (set s)) cls" "\<not> r \<longrightarrow> s = supp"
    unfolding wp_iff by force
  then show ?thesis using cc_same_eqs[OF 1(3)] by blast
qed

theorem consecution_exact_witness:
  "\<exists>t c r s c'. dom (cc_map c) = {0} \<and> cc_supportSolve ref_backend False [0] (tr_propertyClause (PlainTR t)) [] c = Inr ((r, s), c')
     \<and> cc_inv (PlainTR t) c'"
proof -
  obtain t c where c: "tr_wf (PlainTR t)" "cc_inv (PlainTR t) c" "dom (cc_map c) = {0}" "clause_ok (PlainTR t) (tr_propertyClause (PlainTR t))"
    using toggle_checker by blast
  have l: "live False (PlainTR t)" by (simp add: live_def)
  have f: "set [0] \<subseteq> dom (cc_map c)" using c(3) by simp
  show ?thesis using consecution_exact[OF ref.sat_backend_axioms c(1,2) l f c(4), of "[]"] c(3) by blast
qed

text \<open>C22. \<open>ConsecutionChecker::isInductive\<close> answers whether each clause of the frame holds after every
  step from a state that satisfies all of them.\<close>
theorem inductive_exact:
  assumes "sat_backend B" "tr_wf t" "cc_inv t c" "live opt t" "set frame \<subseteq> dom (cc_map c)"
  shows "\<exists>c'. cc_isInductive B opt frame c = Inr (\<forall>d\<in>cc_set c (set frame). consec t (cc_set c (set frame)) d, c') \<and> cc_inv t c'"
proof -
  have "(\<forall>i\<in>set frame. cc_rel t c (set frame) i) \<longleftrightarrow> (\<forall>d\<in>cc_set c (set frame). consec t (cc_set c (set frame)) d)"
    using assms(5) by (auto simp: cc_rel_def cc_set_def split: option.splits)
  then show ?thesis using sat_backend.cc_isInductive_wp[OF assms] by (auto simp: wp_iff)
qed

theorem inductive_exact_witness:
  "\<exists>t c r c'. dom (cc_map c) = {0} \<and> cc_isInductive ref_backend False [0] c = Inr (r, c') \<and> cc_inv (PlainTR t) c'
     \<and> r = (\<forall>d\<in>cc_set c {0}. consec (PlainTR t) (cc_set c {0}) d)"
proof -
  obtain t c where c: "tr_wf (PlainTR t)" "cc_inv (PlainTR t) c" "dom (cc_map c) = {0}"
    using toggle_checker by blast
  have l: "live False (PlainTR t)" by (simp add: live_def)
  have f: "set [0] \<subseteq> dom (cc_map c)" using c(3) by simp
  obtain c' where "cc_isInductive ref_backend False [0] c = Inr (\<forall>d\<in>cc_set c (set [0]). consec (PlainTR t) (cc_set c (set [0])) d, c')"
    "cc_inv (PlainTR t) c'" using inductive_exact[OF ref.sat_backend_axioms c(1,2) l f] by blast
  then show ?thesis using c(3) by (intro exI[of _ t] exI[of _ c] exI[of _ c'] exI) auto
qed

section \<open>Inductive subsets\<close>

text \<open>C23. \<open>findSafeMIS\<close> on a set of registered clauses returns for every solver: it answers \<open>true\<close>
  exactly when some inductive subset contains all the necessary clauses, and then the set it
  leaves is the largest inductive subset.\<close>
theorem safe_mis_exact:
  assumes "sat_backend B" "tr_wf t" "cc_inv t c" "live opt t" "distinct vec" "set vec \<subseteq> dom (cc_map c)"
  shows "\<exists>r vec' c'. findSafeMIS B opt vec nec c = Inr ((r, vec'), c') \<and> cc_inv t c' \<and> cc_map c' = cc_map c
     \<and> (r \<longleftrightarrow> (\<exists>I\<subseteq>set vec. set nec \<subseteq> I \<and> (\<forall>i\<in>I. cc_rel t c I i)))
     \<and> (r \<longrightarrow> set vec' = \<Union>{I. I \<subseteq> set vec \<and> (\<forall>i\<in>I. cc_rel t c I i)} \<and> (\<forall>i\<in>set vec'. cc_rel t c (set vec') i))"
proof -
  from sat_backend.findSafeMIS_wp[OF assms(1,2,4,3,5,6), of nec] obtain r vec' c' where
    1: "findSafeMIS B opt vec nec c = Inr ((r, vec'), c')" "mis_post t c nec vec (r, vec') c'" by (auto simp: wp_iff)
  have "r \<longleftrightarrow> (\<exists>I\<subseteq>set vec. set nec \<subseteq> I \<and> (\<forall>i\<in>I. cc_rel t c I i))"
    using 1(2) by (simp add: mis_post_def cc.safe_max safe_ind_def ind_set_def)
  moreover have "r \<longrightarrow> set vec' = \<Union>{I. I \<subseteq> set vec \<and> (\<forall>i\<in>I. cc_rel t c I i)} \<and> (\<forall>i\<in>set vec'. cc_rel t c (set vec') i)"
    using 1(2) cc.max_ind_ind[of t c "set vec"] by (auto simp: mis_post_def max_ind_def ind_set_def)
  moreover have "cc_inv t c'" "cc_map c' = cc_map c" using 1(2) cc_keep_eqs(1)[of c c'] by (simp_all add: mis_post_def)
  ultimately show ?thesis using 1(1) by blast
qed

theorem safe_mis_exact_witness:
  "\<exists>t c r vec' c'. dom (cc_map c) = {0} \<and> findSafeMIS ref_backend False [0] [0] c = Inr ((r, vec'), c') \<and> cc_inv (PlainTR t) c'"
proof -
  obtain t c where c: "tr_wf (PlainTR t)" "cc_inv (PlainTR t) c" "dom (cc_map c) = {0}"
    using toggle_checker by blast
  have l: "live False (PlainTR t)" by (simp add: live_def)
  have f: "set [0] \<subseteq> dom (cc_map c)" "distinct [0]" using c(3) by simp_all
  obtain r v c' where "findSafeMIS ref_backend False [0] [0] c = Inr ((r, v), c')" "cc_inv (PlainTR t) c'"
    using safe_mis_exact[OF ref.sat_backend_axioms c(1,2) l f(2,1), of "[0]"] by (elim exE conjE) (rule that)
  then show ?thesis using c(3) by metis
qed

text \<open>C24. The overload on a whole proof: for fewer than 2^32 clauses over state variables (its index is an
  \<open>unsigned\<close>) of which exactly one is the property clause, it returns whether some inductive subset
  of the clauses contains the property.\<close>
theorem safe_mis_of_proof:
  assumes "sat_backend B" "tr_wf t" "live opt t" "vm_inv vm" "vm_owns vm t" "room (k + length prf) vm"
    and "\<forall>d\<in>set prf. clause_ok t d" "length prf < 2 ^ 32" "count_list prf (tr_propertyClause t) = 1"
  shows "\<exists>vm'. findSafeMISproof B opt t prf vm
     = Inr (\<exists>Cs\<subseteq>set prf. tr_propertyClause t \<in> Cs \<and> (\<forall>d\<in>Cs. consec t Cs d), vm') \<and> room k vm'"
  using sat_backend.findSafeMISproof_wp[OF assms] by (auto simp: wp_iff)

theorem safe_mis_of_proof_witness:
  "\<exists>t vm r vm'. findSafeMISproof ref_backend False (PlainTR t) [tr_propertyClause (PlainTR t)] vm = Inr (r, vm')
     \<and> r = consec (PlainTR t) {tr_propertyClause (PlainTR t)} (tr_propertyClause (PlainTR t))"
proof -
  obtain t vm where t: "tr_wf (PlainTR t)" "vm_owns vm (PlainTR t)" "vm_inv vm" "room 100 vm" using toggle_built by blast
  have l: "live False (PlainTR t)" by (simp add: live_def)
  let ?p = "tr_propertyClause (PlainTR t)"
  obtain vm' where "findSafeMISproof ref_backend False (PlainTR t) [?p] vm
     = Inr (\<exists>Cs\<subseteq>set [?p]. ?p \<in> Cs \<and> (\<forall>d\<in>Cs. consec (PlainTR t) Cs d), vm')"
    using safe_mis_of_proof[OF ref.sat_backend_axioms t(1) l t(3,2), of 0 "[?p]"] room_mono[OF t(4), of 1] bad_clause_ok[OF t(1)] by auto
  moreover have "(\<exists>Cs\<subseteq>set [?p]. ?p \<in> Cs \<and> (\<forall>d\<in>Cs. consec (PlainTR t) Cs d)) = consec (PlainTR t) {?p} ?p"
    by (auto simp: subset_singleton_iff)
  ultimately show ?thesis by auto
qed

text \<open>C25. A proof without the property clause makes that overload stop at an assertion: the last one, or,
  from 2^32 clauses on, the one against a second clause with the same ID.\<close>
theorem safe_mis_missing_property:
  assumes "vm_inv vm" "vm_owns vm t" "room (k + length prf) vm" "\<forall>d\<in>set prf. clause_ok t d" "length prf < 2 ^ 64"
    and "tr_propertyClause t \<notin> set prf"
  shows "findSafeMISproof B opt t prf vm = Inl AssertFail"
  by (rule findSafeMISproof_missing[OF assms])

theorem safe_mis_missing_property_witness:
  "\<exists>t vm. findSafeMISproof ref_backend False (PlainTR t) [] vm = Inl AssertFail"
proof -
  obtain t vm where t: "tr_wf (PlainTR t)" "vm_owns vm (PlainTR t)" "vm_inv vm" "room 100 vm" using toggle_built by blast
  show ?thesis using safe_mis_missing_property[OF t(3,2), of 100 "[]"] t(4) by auto
qed

text \<open>C26. \<open>findMinimalSupport\<close> returns a part of the frame; when the clause is inductive relative to
  the frame it is inductive relative to that part, otherwise the sorted frame comes back.\<close>
theorem minimal_support_sufficient:
  assumes "sat_backend B" "tr_wf t" "cc_inv t c" "live opt t" "clause_ok t cls" "set frame \<subseteq> dom (cc_map c)"
  shows "\<exists>s c'. findMinimalSupport B opt frame cls c = Inr (s, c') \<and> cc_inv t c' \<and> set s \<subseteq> set frame
     \<and> (if consec t (cc_set c (set frame)) cls then consec t (cc_set c (set s)) cls else s = sort frame)"
  using sat_backend.findMinimalSupport_wp[OF assms] by (auto simp: wp_iff)

theorem minimal_support_sufficient_witness:
  "\<exists>t c s c'. dom (cc_map c) = {0} \<and> findMinimalSupport ref_backend False [0] (tr_propertyClause (PlainTR t)) c = Inr (s, c') \<and> set s \<subseteq> {0}"
proof -
  obtain t c where c: "tr_wf (PlainTR t)" "cc_inv (PlainTR t) c" "dom (cc_map c) = {0}" "clause_ok (PlainTR t) (tr_propertyClause (PlainTR t))"
    using toggle_checker by blast
  have l: "live False (PlainTR t)" by (simp add: live_def)
  have f: "set [0] \<subseteq> dom (cc_map c)" using c(3) by simp
  obtain s c' where "findMinimalSupport ref_backend False [0] (tr_propertyClause (PlainTR t)) c = Inr (s, c')" "set s \<subseteq> set [0]"
    using minimal_support_sufficient[OF ref.sat_backend_axioms c(1,2) l c(4) f] by blast
  then show ?thesis using c(3) by auto
qed

section \<open>Proof minimizers\<close>

text \<open>C27. \<open>SISIMinimizer\<close>, built from a proof and run: when the clauses together with the property
  clause are inductive and hold initially, it returns, finds one proof, a subset of the given one
  that passes as a safety proof, and no proper subset of it is inductive and contains the property.\<close>
theorem sisi_minimal_proof:
  assumes "sat_backend B" "tr_wf t" "live opt t" "vm_inv vm" "vm_owns vm t" "room (Suc (length prf)) vm"
    and "\<forall>d\<in>set prf. clause_ok t d" "length prf < 2 ^ 64 - 1"
    and "ind_clauses t (set (with_property t prf))" "sp_initiation t (with_property t prf)"
  shows "\<exists>m m' Cs. sm_new vm t prf = Inr m \<and> sm_doMinimize B opt m = Inr ((), m') \<and> pm_numProofs m' = 1 \<and> pm_getProof m' 0 = Inr Cs
     \<and> set Cs \<subseteq> set (with_property t prf) \<and> sp_proof t Cs \<and> min_safe_clauses t (set Cs)"
proof -
  obtain m m' where m: "sm_new vm t prf = Inr m" "sm_doMinimize B opt m = Inr ((), m')" and f: "pm_found (min_safe_clauses t) t prf m'"
    using sat_backend.sisi_minimize[OF assms(1-9)] by (auto simp: wpr_iff bindR_Inr_iff execS_def)
  have "safe_clauses t Cs" if "min_safe_clauses t Cs" for Cs using that by (simp add: min_safe_clauses_def)
  then show ?thesis using m pm_found_proof[OF f _ assms(10)] by blast
qed

theorem sisi_minimal_proof_witness:
  "\<exists>vm m m' Cs. sm_new vm (PlainTR (hold_tr ID_FALSE)) [] = Inr m \<and> sm_doMinimize ref_backend False m = Inr ((), m')
     \<and> pm_getProof m' 0 = Inr Cs \<and> set Cs = {[5]}"
proof -
  let ?t = "PlainTR (hold_tr ID_FALSE)"
  obtain vm where vm: "vm_inv vm" "room 100 vm" "vm_owns vm ?t" using hold_vm by blast
  have l: "live False ?t" by (simp add: live_def)
  have w: "tr_wf ?t" using hold_wf(1) by simp
  obtain m m' Cs where "sm_new vm ?t [] = Inr m" "sm_doMinimize ref_backend False m = Inr ((), m')" "pm_getProof m' 0 = Inr Cs"
      "set Cs \<subseteq> set (with_property ?t [])" "min_safe_clauses ?t (set Cs)"
    using sisi_minimal_proof[OF ref.sat_backend_axioms w l vm(1,3), of "[]"] room_mono[OF vm(2), of 1] hold_ok by auto
  then show ?thesis using hold_ok(2) by (auto simp: min_safe_clauses_def safe_clauses_def hold_prop)
qed

text \<open>C28. \<open>BruteForceMinimizer\<close> only needs some subset of the proof to be inductive and to contain the
  property; the proof it finds is minimal in the same sense.\<close>
theorem brute_force_minimal_proof:
  assumes "sat_backend B" "tr_wf t" "live opt t" "vm_inv vm" "vm_owns vm t" "room (Suc (length prf)) vm"
    and "\<forall>d\<in>set prf. clause_ok t d" "length prf < 2 ^ 64 - 1"
    and "Ds \<subseteq> set (with_property t prf)" "safe_clauses t Ds" "sp_initiation t (with_property t prf)"
  shows "\<exists>m m' Cs. sm_new vm t prf = Inr m \<and> bf_doMinimize B opt m = Inr ((), m') \<and> pm_numProofs m' = 1 \<and> pm_getProof m' 0 = Inr Cs
     \<and> set Cs \<subseteq> set (with_property t prf) \<and> sp_proof t Cs \<and> min_safe_clauses t (set Cs)"
proof -
  have ex: "\<exists>Cs\<subseteq>set (with_property t prf). safe_clauses t Cs" using assms(9,10) by blast
  obtain m m' where m: "sm_new vm t prf = Inr m" "bf_doMinimize B opt m = Inr ((), m')" and f: "pm_found (min_safe_clauses t) t prf m'"
    using sat_backend.brute_force_minimize[OF assms(1-8) ex] by (auto simp: wpr_iff bindR_Inr_iff execS_def)
  have "safe_clauses t Cs" if "min_safe_clauses t Cs" for Cs using that by (simp add: min_safe_clauses_def)
  then show ?thesis using m pm_found_proof[OF f _ assms(11)] by blast
qed

theorem brute_force_minimal_proof_witness:
  "\<exists>vm m m' Cs. sm_new vm (PlainTR (hold_tr ID_FALSE)) [] = Inr m \<and> bf_doMinimize ref_backend False m = Inr ((), m')
     \<and> pm_getProof m' 0 = Inr Cs \<and> sp_proof (PlainTR (hold_tr ID_FALSE)) Cs"
proof -
  let ?t = "PlainTR (hold_tr ID_FALSE)"
  obtain vm where vm: "vm_inv vm" "room 100 vm" "vm_owns vm ?t" using hold_vm by blast
  have l: "live False ?t" by (simp add: live_def)
  have w: "tr_wf ?t" using hold_wf(1) by simp
  have s: "safe_clauses ?t {[5]}" using hold_ok(3) by (simp add: safe_clauses_def hold_prop)
  show ?thesis
    using brute_force_minimal_proof[OF ref.sat_backend_axioms w l vm(1,3) _ _ _ _ s, of "[]"] room_mono[OF vm(2), of 1] hold_ok by auto
qed

text \<open>C29. \<open>BruteForceMinimizer::isMinimal\<close> on an inductive proof without repeated clauses answers
  exactly whether no proper subset of the proof (with the property) is inductive and contains the
  property.\<close>
theorem isMinimal_exact:
  assumes "sat_backend B" "tr_wf t" "live opt t" "vm_inv vm" "vm_owns vm t" "room (Suc (length prf)) vm"
    and "\<forall>d\<in>set prf. clause_ok t d" "length prf < 2 ^ 64 - 1" "ind_clauses t (set (with_property t prf))" "distinct prf"
  shows "\<exists>m m'. sm_new vm t prf = Inr m \<and> bf_isMinimal B opt m = Inr (min_safe_clauses t (set (with_property t prf)), m')"
  using sat_backend.brute_force_isMinimal[OF assms] by (auto simp: wpr_iff bindR_Inr_iff evalS_def)

theorem isMinimal_exact_witness:
  "\<exists>vm m m'. sm_new vm (PlainTR (hold_tr ID_FALSE)) [] = Inr m \<and> bf_isMinimal ref_backend False m = Inr (True, m')"
proof -
  let ?t = "PlainTR (hold_tr ID_FALSE)"
  obtain vm where vm: "vm_inv vm" "room 100 vm" "vm_owns vm ?t" using hold_vm by blast
  have l: "live False ?t" by (simp add: live_def)
  have w: "tr_wf ?t" using hold_wf(1) by simp
  have "min_safe_clauses ?t {[5]}" using hold_ok(3) by (auto simp: min_safe_clauses_def safe_clauses_def hold_prop)
  then show ?thesis
    using isMinimal_exact[OF ref.sat_backend_axioms w l vm(1,3), of "[]"] room_mono[OF vm(2), of 1] hold_ok by auto
qed

text \<open>C30. \<open>SimpleMinimizer\<close>, with either way to compute supports: the loop over the queue ends and the
  proof it finds is a subset of the given one that passes as a safety proof and contains the
  property.\<close>
theorem simple_minimizer_proof:
  assumes "sat_backend B" "tr_wf t" "live opt t" "vm_inv vm" "vm_owns vm t" "room (Suc (length prf)) vm"
    and "\<forall>d\<in>set prf. clause_ok t d" "length prf < 2 ^ 64 - 1"
    and "ind_clauses t (set (with_property t prf))" "sp_initiation t (with_property t prf)"
  shows "\<exists>m m' Cs. sp_new vm t prf = Inr m \<and> sp_doMinimize B opt use_min m = Inr ((), m') \<and> pm_numProofs m' = 1 \<and> pm_getProof m' 0 = Inr Cs
     \<and> set Cs \<subseteq> set (with_property t prf) \<and> sp_proof t Cs \<and> safe_clauses t (set Cs)"
proof -
  obtain m m' where m: "sp_new vm t prf = Inr m" "sp_doMinimize B opt use_min m = Inr ((), m')" and f: "pm_found (safe_clauses t) t prf m'"
    using sat_backend.simple_minimize[OF assms(1-9), of use_min] by (auto simp: wpr_iff bindR_Inr_iff execS_def)
  show ?thesis using m pm_found_proof[OF f _ assms(10)] by blast
qed

theorem simple_minimizer_proof_witness:
  "\<exists>vm m m' Cs. sp_new vm (PlainTR (hold_tr ID_FALSE)) [] = Inr m \<and> sp_doMinimize ref_backend False True m = Inr ((), m')
     \<and> pm_getProof m' 0 = Inr Cs \<and> sp_proof (PlainTR (hold_tr ID_FALSE)) Cs"
proof -
  let ?t = "PlainTR (hold_tr ID_FALSE)"
  obtain vm where vm: "vm_inv vm" "room 100 vm" "vm_owns vm ?t" using hold_vm by blast
  have l: "live False ?t" by (simp add: live_def)
  have w: "tr_wf ?t" using hold_wf(1) by simp
  show ?thesis
    using simple_minimizer_proof[OF ref.sat_backend_axioms w l vm(1,3), of "[]" True] room_mono[OF vm(2), of 1] hold_ok by auto
qed

section \<open>Variables and literals\<close>

text \<open>C31. \<open>VariableManager::getNewID\<close> with a name and an even external literal that is not in use
  returns an ID that was not known, makes it known and keeps the invariant of the manager.\<close>
theorem getNewID_fresh:
  assumes "room (Suc k) vm" "\<not> aiger_sign e" "e \<noteq> 0 \<longrightarrow> \<not> isKnownExternal vm e"
  shows "\<exists>i vm'. getNewID_named name e vm = Inr (i, vm') \<and> room k vm' \<and> \<not> isKnown vm i \<and> unprime i = i \<and> \<not> is_negated i
     \<and> (\<forall>j. isKnown vm' j = (isKnown vm j \<or> j = i)) \<and> (e \<noteq> 0 \<longrightarrow> toInternal vm' e = Inr i)"
proof -
  have inv: "vm_inv vm" by (rule room_0[OF assms(1)])
  have le: "m_nextID vm \<le> MAX_ID" using assms(1) by (simp add: room_def word_le_nat_alt MAX_ID_val)
  have new: "e \<noteq> 0 \<Longrightarrow> \<not> isKnownExternal vm e" using assms(3) by blast
  have ev: "\<not> is_negated (m_nextID vm)" using inv by (simp add: vm_inv_def)
  from getNewID_named_wp[OF inv le assms(2) new, of name] obtain vm' nm where
    g: "getNewID_named name e vm = Inr (m_nextID vm, vm')" "\<not> isKnown vm (m_nextID vm)" "m_nextID vm' = m_nextID vm + 2" "vm_inv vm'"
      "m_vars vm' = (m_vars vm)(m_nextID vm \<mapsto> \<lparr>v_id = m_nextID vm, v_external = e, v_name = nm\<rparr>)"
    by (auto simp: wp_iff)
  have "unat (m_nextID vm + 2) = unat (m_nextID vm) + 2" by (rule even_next_step(4)[OF ev le])
  then have "room k vm'" using g(3,4) assms(1) by (simp add: room_def)
  moreover have "isKnown vm' j = (isKnown vm j \<or> j = m_nextID vm)" for j using g(5) by (simp add: isKnown_def)
  moreover have "toInternal vm' e = Inr (m_nextID vm)" if "e \<noteq> 0"
  proof -
    have "m_externalToInternal vm' e = Some (m_nextID vm)" using vm_inv_ext[OF g(4), of e "m_nextID vm"] g(5) that by simp
    then show ?thesis using assms(2) by (simp add: toInternal_def aiger_strip_even)
  qed
  ultimately show ?thesis using g(1,2) ev unprime_le[of "m_nextID vm"] le by blast
qed

theorem getNewID_fresh_witness:
  "\<exists>i vm'. getNewID_named ''x'' 8 vm_new = Inr (i, vm') \<and> toInternal vm' 8 = Inr i"
  using getNewID_fresh[OF room_new[of "Suc 0"], of 8 "''x''"]
  by (auto simp: aiger_sign_def isKnownExternal_def vm_new_def)

text \<open>C32. Clauses translated to internal literals and back are unchanged, and \<open>toInternal\<close> is the
  inverse of \<open>toExternal\<close> on literals with an external name.\<close>
theorem external_roundtrip:
  assumes "vm_inv vm"
  shows "(tr_makeInternalVec vm E = Inr C \<longrightarrow> tr_makeExternalVec vm C = Inr E)
    \<and> (toExternal vm l = Inr e \<and> (aiger_strip e \<noteq> 0 \<or> strip l = ID_FALSE) \<longrightarrow> toInternal vm e = Inr l)"
  using makeExternal_makeInternal toInternal_toExternal assms by blast

theorem external_roundtrip_witness:
  "tr_makeInternalVec vm_new [[0], [1]] = Inr [[ID_FALSE], [ID_TRUE]] \<and> tr_makeExternalVec vm_new [[ID_FALSE], [ID_TRUE]] = Inr [[0], [1]]"
  using external_roundtrip[OF vm_new_inv, of "[[0], [1]]" "[[ID_FALSE], [ID_TRUE]]"]
  by (simp add: tr_makeInternalVec_def tr_makeInternal_def toInternal_def vm_new_def aiger_strip_def aiger_sign_def ID_TRUE_def)

section \<open>Solving\<close>

text \<open>C33. \<open>SATAdaptor::simplify\<close> on a simplifying solver without groups whose clauses have a model:
  the clauses it returns are over known variables and implied, and over the frozen variables they
  have the same models as the clauses added before.\<close>
theorem simplify_projection:
  assumes "sat_backend B" "ad_inv A" "ad_kind A = MINISATSIMP" "ad_groups A = {}" "ad_mod A \<sigma>0"
  shows "\<exists>C A'. ad_simplify B A = Inr (C, A') \<and> (\<forall>c\<in>set C. \<forall>l\<in>set c. ad_hasSAT A l) \<and> (\<forall>\<sigma>. ad_mod A \<sigma> \<longrightarrow> cnf_sat \<sigma> C)
     \<and> (\<forall>\<sigma>. (\<exists>\<tau>. (\<forall>i\<in>ad_frozen A. \<tau> i = \<sigma> i) \<and> ad_mod A \<tau>) \<longleftrightarrow> (\<exists>\<tau>. (\<forall>i\<in>ad_frozen A. \<tau> i = \<sigma> i) \<and> cnf_sat \<tau> C))"
  using sat_backend.ad_simplify_wp[OF assms] by (auto simp: wp_iff)

theorem simplify_projection_witness:
  "\<exists>C A'. ad_simplify ref_backend (ad_blank MINISATSIMP) = Inr (C, A')"
proof -
  have k: "ad_kind (ad_blank MINISATSIMP) = MINISATSIMP" "ad_groups (ad_blank MINISATSIMP) = {}" by (simp_all add: ad_blank_def)
  show ?thesis
    using simplify_projection[OF ref.sat_backend_axioms ad_blank_inv k ad_blank_mod(1)[of _ "\<lambda>_. False"]]
    by (elim exE conjE) (intro exI)
qed

text \<open>C34. \<open>ClauseDeduplicatingSATAdaptor::addClause\<close> has the models of the plain \<open>addClause\<close> and keeps
  its invariant, also when it skips a clause it has seen.\<close>
theorem dedup_addClause:
  assumes "dd_inv D" "cls \<noteq> []"
  shows "\<exists>D'. dd_addClause cls D = Inr ((), D') \<and> dd_inv D' \<and> (\<forall>\<sigma>. ad_mod (dd_base D') \<sigma> \<longleftrightarrow> ad_mod (dd_base D) \<sigma> \<and> clause_sat \<sigma> cls)"
  using dd_addClause_wp[OF assms] by (auto simp: wp_iff)

theorem dedup_addClause_witness:
  "\<exists>D'. dd_addClause [4, 6] \<lparr>dd_base = ad_blank GLUCOSE, dd_clauses = {}\<rparr> = Inr ((), D') \<and> dd_inv D'"
  using dedup_addClause[of "\<lparr>dd_base = ad_blank GLUCOSE, dd_clauses = {}\<rparr>" "[4, 6]"] ad_blank_inv
  by (auto simp: dd_inv_def)

text \<open>C35. \<open>SATAdaptor::groupSolve\<close>, for any solver that meets its contract: a satisfiable answer
  comes from one assignment of the IDs that satisfies the clauses, the group and the assumptions,
  and every later query returns its values (\<open>UNDEF\<close> for unknown IDs); an unsatisfiable answer
  comes with assumptions that already clash with the clauses.\<close>
theorem adaptor_groupSolve:
  assumes "sat_backend B" "ad_inv A" "g = GROUP_NULL \<or> g \<in> ad_groups A"
  shows "\<exists>r crits A'. ad_groupSolve B g as A = Inr ((r, crits), A') \<and> ad_inv A' \<and> ad_isSAT A' = r
   \<and> (\<forall>\<sigma> \<gamma>. ad_sat A' \<sigma> \<gamma> = ad_sat A \<sigma> \<gamma>)
   \<and> (r \<longrightarrow> (\<exists>\<sigma> \<gamma>. ad_sat A \<sigma> \<gamma> \<and> (g \<noteq> GROUP_NULL \<longrightarrow> \<gamma> g) \<and> cube_sat \<sigma> as \<and> (\<forall>l. ad_safeGetAssignment A' l =
         Inr (if ad_hasSAT A' l then (if lit_true \<sigma> l then MV_TRUE else MV_FALSE) else MV_UNDEF))))
   \<and> (\<not> r \<longrightarrow> set crits \<subseteq> set as \<and> (\<forall>\<sigma> \<gamma>. ad_sat A \<sigma> \<gamma> \<longrightarrow> (g \<noteq> GROUP_NULL \<longrightarrow> \<gamma> g) \<longrightarrow> \<not> cube_sat \<sigma> crits))"
proof -
  from sat_backend.ad_groupSolve_wp[OF assms, of as] obtain r crits A' where
    1: "ad_groupSolve B g as A = Inr ((r, crits), A')" and s: "ad_step A (strip ` set as) (\<lambda>_ _. True) A'"
    and r: "ad_isSAT A' = r" "r \<longrightarrow> (\<exists>\<sigma> \<gamma>. ad_sat A \<sigma> \<gamma> \<and> (g \<noteq> GROUP_NULL \<longrightarrow> \<gamma> g) \<and> cube_sat \<sigma> as \<and> ad_model A' \<sigma>)"
      "\<not> r \<longrightarrow> set crits \<subseteq> set as \<and> (\<forall>\<sigma> \<gamma>. ad_sat A \<sigma> \<gamma> \<longrightarrow> (g \<noteq> GROUP_NULL \<longrightarrow> \<gamma> g) \<longrightarrow> \<not> cube_sat \<sigma> crits)"
    unfolding wp_iff by (clarsimp simp del: split_paired_Ex)
  have m: "r \<longrightarrow> (\<exists>\<sigma> \<gamma>. ad_sat A \<sigma> \<gamma> \<and> (g \<noteq> GROUP_NULL \<longrightarrow> \<gamma> g) \<and> cube_sat \<sigma> as \<and> (\<forall>l. ad_safeGetAssignment A' l =
         Inr (if ad_hasSAT A' l then (if lit_true \<sigma> l then MV_TRUE else MV_FALSE) else MV_UNDEF)))"
    using r(2) unfolding ad_model_def by blast
  have "ad_inv A'" "\<forall>\<sigma> \<gamma>. ad_sat A' \<sigma> \<gamma> = ad_sat A \<sigma> \<gamma>" using s by (simp_all add: ad_step_def)
  then show ?thesis using 1 r(1,3) m by blast
qed

theorem adaptor_groupSolve_witness:
  "\<exists>r crits A'. ad_groupSolve ref_backend GROUP_NULL [4] (ad_blank GLUCOSE) = Inr ((r, crits), A') \<and> ad_inv A'"
  using adaptor_groupSolve[OF ref.sat_backend_axioms ad_blank_inv[of GLUCOSE], of GROUP_NULL "[4]"] by auto

text \<open>C36. \<open>MUSFinderWrapper\<close>, filled with hard clauses and with clauses of groups the caller names, when
  all of them together are unsatisfiable: \<open>findMUS\<close> returns, without repetitions, groups that are
  unsatisfiable with the hard clauses and of which no proper subset is.\<close>
theorem findMUS_minimal:
  assumes "sat_backend B" "room (length E) vm" "\<forall>v\<in>V. old_var vm v" "ID_FALSE \<in> V"
    "[] \<notin> set H" "cnf_vars H \<subseteq> V" "cnf_vars (map snd E) \<subseteq> V" "length E < 2 ^ 32" "mus_unsat H (soft_of E) (fst ` set E)"
  shows "\<exists>K. mus_run B vm H E = Inr K \<and> distinct K \<and> set K \<subseteq> fst ` set E \<and> min_set (mus_unsat H (soft_of E)) (set K)"
  using mus_run_wp[OF assms] by (auto simp: wpr_iff)

theorem findMUS_minimal_witness:
  "mus_run ref_backend vm_new [] [(10, [ID_TRUE]), (12, [ID_FALSE])] = Inr [12]"
proof -
  let ?E = "[(10, [ID_TRUE]), (12, [ID_FALSE])] :: (id \<times> clause) list"
  have iff: "mus_unsat [] (soft_of ?E) G \<longleftrightarrow> 12 \<in> G" for G
  proof -
    have "\<exists>\<sigma>. const_ok \<sigma>" by (rule exI[of _ "\<lambda>_. False"]) (simp add: const_ok_def)
    then show ?thesis by (auto simp: mus_unsat_def soft_of_def)
  qed
  have old: "\<forall>v\<in>{ID_FALSE}. old_var vm_new v" using const_old(2) by (simp add: old_lit_def ID_FALSE_def strip_def is_negated_def)
  obtain K where K: "mus_run ref_backend vm_new [] ?E = Inr K" "distinct K" "min_set (mus_unsat [] (soft_of ?E)) (set K)"
    using findMUS_minimal[OF ref.sat_backend_axioms _ old, of ?E "[]"] room_new[of "length ?E"] iff
    by (auto simp: cnf_vars_def ID_TRUE_val ID_FALSE_def strip_def is_negated_def negate_def)
  have "12 \<in> set K" "\<not> {12} \<subset> set K" using K(3) unfolding min_set_def iff by blast+
  then have "set K = {12}" by auto
  then have "K = [12]" using K(2) by (cases K; cases "tl K") auto
  then show ?thesis using K(1) by simp
qed

section \<open>Cardinality constraints\<close>

text \<open>C37. \<open>SortingConstraint\<close> with a positive cardinality and at least one input: after \<open>CNFize\<close>
  (which succeeds while the variable manager has room for three fresh IDs per squared number of
  inputs), as long as the output literals fit the 32 bits the assumption routines keep, and for \<open>n\<close>
  below the cardinality of the outputs, the cubes of \<open>assumeLEq\<close>, \<open>assumeGEq\<close>,
  \<open>assumeLT\<close>, \<open>assumeGT\<close> and \<open>assumeEq\<close> together with the clauses restrict the
  assignments of the older variables exactly to those that make at most, at least, fewer than,
  more than, exactly \<open>n\<close> inputs true (\<open>assumeLT\<close> for a positive \<open>n\<close>).\<close>
theorem sorting_constraint_exact:
  assumes "sc_le sc \<or> sc_ge sc" "0 < sc_cardinality sc" "room (k + 3 * (length (sc_inputs sc))\<^sup>2) vm"
    and "\<forall>x\<in>set (sc_inputs sc). old_lit vm x" "sc_inputs sc \<noteq> []"
  shows "\<exists>cnf sc' vm'. sc_CNFize sc vm = Inr ((cnf, sc'), vm') \<and> room k vm' \<and> sc_inputs sc' = sc_inputs sc
     \<and> ((\<forall>l\<in>set (sc_outputs sc'). l < 2 ^ 32) \<longrightarrow> (\<forall>n. n < sc_getOutputCardinality sc \<longrightarrow>
          (sc_le sc \<longrightarrow> (\<exists>c. sc_assumeLEq sc' n = Inr c \<and> (\<forall>\<sigma>. restricts vm cnf c \<sigma> \<longleftrightarrow> ntrue \<sigma> (sc_inputs sc) \<le> n)))
        \<and> (sc_ge sc \<longrightarrow> (\<exists>c. sc_assumeGEq sc' n = Inr c \<and> (\<forall>\<sigma>. restricts vm cnf c \<sigma> \<longleftrightarrow> n \<le> ntrue \<sigma> (sc_inputs sc))))
        \<and> (sc_le sc \<longrightarrow> 0 < n \<longrightarrow> (\<exists>c. sc_assumeLT sc' n = Inr c \<and> (\<forall>\<sigma>. restricts vm cnf c \<sigma> \<longleftrightarrow> ntrue \<sigma> (sc_inputs sc) < n)))
        \<and> (sc_ge sc \<longrightarrow> (\<exists>c. sc_assumeGT sc' n = Inr c \<and> (\<forall>\<sigma>. restricts vm cnf c \<sigma> \<longleftrightarrow> n < ntrue \<sigma> (sc_inputs sc))))
        \<and> (sc_le sc \<longrightarrow> sc_ge sc \<longrightarrow> (\<exists>c. sc_assumeEq sc' n = Inr c \<and> (\<forall>\<sigma>. restricts vm cnf c \<sigma> \<longleftrightarrow> ntrue \<sigma> (sc_inputs sc) = n)))))"
proof -
  from sc_CNFize_ready[OF assms] obtain cnf sc' vm' where 1: "sc_CNFize sc vm = Inr ((cnf, sc'), vm')" "room k vm'"
      "sc' = sc\<lparr>sc_cnfized := True, sc_outputs := sc_outputs sc'\<rparr>"
      "(\<forall>l\<in>set (sc_outputs sc'). l < 2 ^ 32) \<longrightarrow> sc_ready vm vm' sc' cnf"
    unfolding wp_iff by auto
  have f: "sc_inputs sc' = sc_inputs sc" "sc_le sc' = sc_le sc" "sc_ge sc' = sc_ge sc"
    "sc_getOutputCardinality sc' = sc_getOutputCardinality sc"
    by (subst 1(3), simp add: sc_getOutputCardinality_def)+
  note ex = sc_LEq_exact[of vm vm' sc' cnf, unfolded f] sc_GEq_exact[of vm vm' sc' cnf, unfolded f]
    sc_LT_exact[of vm vm' sc' cnf, unfolded f] sc_GT_exact[of vm vm' sc' cnf, unfolded f]
    sc_Eq_exact[of vm vm' sc' cnf, unfolded f]
  show ?thesis
    by (intro exI[of _ cnf] exI[of _ sc'] exI[of _ vm'] conjI impI allI)
      (simp_all add: 1(1,2) f ex 1(4)[rule_format])
qed

theorem sorting_constraint_exact_witness:
  "\<exists>cnf sc' vm'. sc_CNFize \<lparr>sc_cardinality = 2, sc_outputs = [], sc_inputs = [ID_TRUE, ID_FALSE, ID_TRUE],
      sc_cnfized = False, sc_le = True, sc_ge = True\<rparr> vm_new = Inr ((cnf, sc'), vm')
     \<and> sc_inputs sc' = [ID_TRUE, ID_FALSE, ID_TRUE]"
  using sorting_constraint_exact[of "\<lparr>sc_cardinality = 2, sc_outputs = [], sc_inputs = [ID_TRUE, ID_FALSE, ID_TRUE],
      sc_cnfized = False, sc_le = True, sc_ge = True\<rparr>" 0 vm_new] room_new[of 27] const_old by (auto simp: power2_eq_square)

text \<open>C38. A cardinality network with bound \<open>m\<close> has \<open>min n m\<close> outputs; its clauses add only
  definitions of fresh variables; in every model the \<open>le\<close> direction makes the first outputs true,
  as many as inputs are true, and the \<open>ge\<close> direction makes the others false.\<close>
theorem cardinality_network_sorts:
  assumes "le \<or> ge" "0 < m" "room (k + 3 * (length inputs)\<^sup>2) vm" "\<forall>x\<in>set inputs. old_lit vm x" "inputs \<noteq> []"
  shows "\<exists>outs cnf vm'. cardinalityNetwork inputs m le ge vm = Inr ((outs, cnf), vm') \<and> room k vm'
     \<and> length outs = min (length inputs) m \<and> fresh_ext vm vm' cnf
     \<and> (\<forall>\<sigma> i. cnf_sat \<sigma> cnf \<longrightarrow> i < length outs \<longrightarrow>
          (le \<longrightarrow> i < ntrue \<sigma> inputs \<longrightarrow> lit_true \<sigma> (outs ! i))
        \<and> (ge \<longrightarrow> lit_true \<sigma> (outs ! i) \<longrightarrow> i < ntrue \<sigma> inputs))"
proof -
  from cardinalityNetwork_wp[OF assms] obtain outs cnf vm' where 1: "cardinalityNetwork inputs m le ge vm = Inr ((outs, cnf), vm')"
      and p: "room k vm'" "fresh_ext vm vm' cnf" "length outs = min (length inputs) m" "sort_sem inputs le ge outs cnf"
    unfolding wp_iff net_post_def by auto
  have "(le \<longrightarrow> i < ntrue \<sigma> inputs \<longrightarrow> lit_true \<sigma> (outs ! i)) \<and> (ge \<longrightarrow> lit_true \<sigma> (outs ! i) \<longrightarrow> i < ntrue \<sigma> inputs)"
    if "cnf_sat \<sigma> cnf" "i < length outs" for \<sigma> i
    using p(4) that unfolding sort_sem_def up_def dn_def by (metis not_le)
  then show ?thesis using 1 p by blast
qed

theorem cardinality_network_sorts_witness:
  "\<exists>outs cnf vm'. cardinalityNetwork [ID_TRUE, ID_FALSE, ID_TRUE] 2 True True vm_new = Inr ((outs, cnf), vm')
     \<and> length outs = 2"
  using cardinality_network_sorts[of True True 2 0 "[ID_TRUE, ID_FALSE, ID_TRUE]" vm_new] room_new[of 27] const_old by (auto simp: power2_eq_square)

section \<open>Identifiers and clauses\<close>

text \<open>C39. Priming is injective on unprimed variables and prime counts: \<open>nprimes\<close> and
  \<open>unprime\<close> recover the number of primes and the literal, and the sign is kept.\<close>
theorem prime_unprime_roundtrip:
  assumes "unprime i = i" "MIN_ID \<le> i" "k \<le> MAX_PRIMES"
  shows "\<exists>p. prime i k = Inr p \<and> unprime p = i \<and> nprimes p = of_nat k \<and> is_negated p = is_negated i"
  using assms nprimes_prime_body[of i k] by (simp add: MIN_ID_val)

theorem prime_unprime_roundtrip_witness:
  "\<exists>p. prime 6 3 = Inr p \<and> unprime p = 6 \<and> nprimes p = 3"
  using prime_unprime_roundtrip[of 6 3] by (simp add: unprime_def MAX_ID_val MIN_ID_val MAX_PRIMES_def)

text \<open>C40. \<open>subsumes\<close> on sorted cubes without repeated literals answers exactly whether the first
  one is a subset of the second.\<close>
theorem subsumes_exact:
  assumes "sorted a" "sorted b" "distinct a"
  shows "subsumes a b = Inr (set a \<subseteq> set b)"
proof -
  have "length a \<le> length b" if "set a \<subseteq> set b"
    using card_mono[OF _ that] distinct_card[OF assms(3)] card_length[of b] by simp
  then show ?thesis using assms subsumes_loop_iff[of a b] by (auto simp: subsumes_def)
qed

theorem subsumes_exact_witness: "subsumes [4, 9] [4, 6, 9] = Inr True \<and> subsumes [4, 7] [4, 6, 9] = Inr False"
  using subsumes_exact[of "[4, 9]" "[4, 6, 9]"] subsumes_exact[of "[4, 7]" "[4, 6, 9]"] by simp

end
